(* ===== verification/Prelude.thy ===== *)
theory Prelude
  imports Complex_Main "HOL-Library.Word"
begin

text \<open>
  Shared vocabulary of the development: the error values the modelled code throws, the shape of a
  state-passing computation, and the generic facts about lists, filters and sums that the
  component theories share. Numbers that the TypeScript code keeps as IEEE doubles but uses as
  integers (counters, identifiers, cents) are \<open>nat\<close> or \<open>int\<close>; fractional ones (times in
  milliseconds, jittered delays, token counts) are \<open>rat\<close>, so rounding in the last bit is not
  modelled.
\<close>

section \<open>Errors and actions\<close>

datatype CircuitState = CLOSED | OPEN | HALF_OPEN

text \<open>The JavaScript \<open>Error\<close> subclasses the modelled code throws or inspects with \<open>instanceof\<close>.\<close>

datatype js_error =
    TimeoutError rat
  | CircuitOpenError CircuitState
  | TransientDownstreamError string
  | NonTransientDownstreamError string
  | TransientNotificationError string
  | OtherError string

text \<open>
  An action is a computation that settles: it takes the state it runs in and returns either the
  error it rejected with or its value, together with the state it leaves behind.
\<close>

type_synonym ('s, 'a) action = "'s \<Rightarrow> (js_error + 'a) \<times> 's"

section \<open>Collections of facts\<close>

named_theorems inv_intros \<open>preservation lemmas of the components' invariants\<close>
named_theorems step_simps \<open>characteristic equations of the components' operations\<close>

section \<open>Lists\<close>

lemma length_filter_map_upd:
  "i < length xs \<Longrightarrow>
   length (filter P (xs[i := x])) + (if P (xs ! i) then 1 else 0) =
   length (filter P xs) + (if P x then 1 else 0)"
proof (induction xs arbitrary: i)
  case Nil
  then show ?case by simp
next
  case (Cons y ys)
  then show ?case by (cases i) auto
qed

lemma filter_map_inert:
  assumes "\<And>x. x \<in> set xs \<Longrightarrow> P (f x) = P x"
  shows "length (filter P (map f xs)) = length (filter P xs)"
  using assms by (induction xs) auto

lemma distinct_map_filter: "distinct (map f xs) \<Longrightarrow> distinct (map f (filter P xs))"
  by (induction xs) auto

lemma find_Some_in: "find P xs = Some x \<Longrightarrow> x \<in> set xs \<and> P x"
  by (induction xs) (auto split: if_splits)

lemma find_None_all: "find P xs = None \<longleftrightarrow> (\<forall>x \<in> set xs. \<not> P x)"
  by (induction xs) auto

lemma distinct_map_unique:
  "distinct (map f xs) \<Longrightarrow> x \<in> set xs \<Longrightarrow> y \<in> set xs \<Longrightarrow> f x = f y \<Longrightarrow> x = y"
  by (meson distinct_map inj_onD)

section \<open>Decimal numerals\<close>

text \<open>A number in a template literal: its decimal digits.\<close>

definition digit_char :: "nat \<Rightarrow> char" where
  "digit_char d = char_of (d + 48)"

fun nat_str :: "nat \<Rightarrow> string" where
  "nat_str n = (if n < 10 then [digit_char n] else nat_str (n div 10) @ [digit_char (n mod 10)])"

declare nat_str.simps [simp del]

fun val_of :: "string \<Rightarrow> nat" where
  "val_of s = foldl (\<lambda>v c. 10 * v + (of_char c - 48)) 0 s"

lemma digit_char_val: "d < 10 \<Longrightarrow> of_char (digit_char d) - 48 = (d::nat)"
  by (simp add: digit_char_def)

lemma val_of_nat_str: "val_of (nat_str n) = n"
proof (induction n rule: nat_str.induct)
  case (1 n)
  show ?case
  proof (cases "n < 10")
    case True
    then show ?thesis by (simp add: nat_str.simps [of n] digit_char_val)
  next
    case False
    with 1 show ?thesis
      by (simp add: nat_str.simps [of n] digit_char_val foldl_append)
  qed
qed

lemma nat_str_inject [simp]: "nat_str m = nat_str n \<longleftrightarrow> m = n"
  by (metis val_of_nat_str)

lemma nat_str_nonempty [simp]: "nat_str n \<noteq> []"
  by (subst nat_str.simps) simp

definition int_str :: "int \<Rightarrow> string" where
  "int_str i = (if i < 0 then ''-'' @ nat_str (nat (- i)) else nat_str (nat i))"

end
