(* ===== verification/Async.thy ===== *)
theory Async
  imports Prelude
begin

text \<open>
  The event loop as far as the resilience code uses it: a clock, the state the tasks share, and
  the timers still pending. A task runs synchronously up to its first \<open>await sleep(d)\<close> and then
  either never settles or settles after \<open>d\<close> milliseconds by running its continuation. Timers are
  ideal: they fire exactly when due, and in creation order when due together. \<open>sleep\<close> is
  \<open>labs/37-*/src/lib/random.ts\<close>, \<open>withTimeout\<close> is \<open>lib/timeout.ts\<close>, \<open>mulberry32\<close> is the seeded
  generator of \<open>lib/random.ts\<close>.
\<close>

section \<open>The world\<close>

record 'c world =
  clock :: rat
  comp :: 'c
  pending :: "(rat \<times> ('c \<Rightarrow> 'c)) list"

definition start_world :: "'c \<Rightarrow> 'c world" where
  "start_world c = \<lparr>clock = 0, comp = c, pending = []\<rparr>"

text \<open>Timers due at or before \<open>t\<close> run in order; the list is kept sorted by due time.\<close>

fun fire :: "rat \<Rightarrow> (rat \<times> ('c \<Rightarrow> 'c)) list \<Rightarrow> 'c \<Rightarrow> 'c \<times> (rat \<times> ('c \<Rightarrow> 'c)) list" where
  "fire t [] c = (c, [])"
| "fire t ((u, f) # ps) c = (if u \<le> t then fire t ps (f c) else (c, (u, f) # ps))"

fun add_timer :: "rat \<Rightarrow> ('c \<Rightarrow> 'c) \<Rightarrow> (rat \<times> ('c \<Rightarrow> 'c)) list \<Rightarrow> (rat \<times> ('c \<Rightarrow> 'c)) list" where
  "add_timer t f [] = [(t, f)]"
| "add_timer t f ((u, g) # ps) = (if u \<le> t then (u, g) # add_timer t f ps else (t, f) # (u, g) # ps)"

definition sleep :: "rat \<Rightarrow> 'c world \<Rightarrow> 'c world" where
  "sleep ms w =
     (let t = clock w + max 0 ms; (c, ps) = fire t (pending w) (comp w)
      in \<lparr>clock = t, comp = c, pending = ps\<rparr>)"

lemma clock_sleep [simp]: "clock (sleep ms w) = clock w + max 0 ms"
  by (simp add: sleep_def Let_def split: prod.splits)

lemma fire_all: "\<forall>p \<in> set ps. fst p \<le> t \<Longrightarrow> snd (fire t ps c) = []"
  by (induction t ps c rule: fire.induct) auto

lemma fire_none: "(\<forall>p \<in> set ps. t < fst p) \<Longrightarrow> fire t ps c = (c, ps)"
  by (cases ps) auto

lemma set_add_timer: "set (add_timer t f ps) = insert (t, f) (set ps)"
  by (induction t f ps rule: add_timer.induct) auto

lemma sorted_add_timer: "sorted (map fst ps) \<Longrightarrow> sorted (map fst (add_timer t f ps))"
  by (induction t f ps rule: add_timer.induct) (force simp: set_add_timer)+

section \<open>Tasks and the timeout wrapper\<close>

datatype ('c, 'a) settle =
    Never
  | After rat "'c \<Rightarrow> (js_error + 'a) \<times> 'c"

type_synonym ('c, 'a) task = "'c \<Rightarrow> 'c \<times> ('c, 'a) settle"

text \<open>Awaiting a task with no timeout: \<open>None\<close> is a call that never returns.\<close>

definition await :: "('c, 'a) task \<Rightarrow> 'c world \<Rightarrow> ((js_error + 'a) \<times> 'c world) option" where
  "await fn w =
     (let (c, s) = fn (comp w); w1 = w\<lparr>comp := c\<rparr>
      in case s of
           Never \<Rightarrow> None
         | After d k \<Rightarrow>
             (let w2 = sleep d w1; (r, c2) = k (comp w2) in Some (r, w2\<lparr>comp := c2\<rparr>)))"

text \<open>
  The timer is created before the task starts, so it wins a tie. When it wins, the task is not
  stopped: its continuation stays pending and still runs when it is due.
\<close>

definition withTimeout :: "('c, 'a) task \<Rightarrow> rat \<Rightarrow> ('c world, 'a) action" where
  "withTimeout fn timeoutMs w =
     (let (c, s) = fn (comp w); w1 = w\<lparr>comp := c\<rparr>
      in case s of
           Never \<Rightarrow> (Inl (TimeoutError timeoutMs), sleep timeoutMs w1)
         | After d k \<Rightarrow>
             if d < timeoutMs
             then (let w2 = sleep d w1; (r, c2) = k (comp w2) in (r, w2\<lparr>comp := c2\<rparr>))
             else (Inl (TimeoutError timeoutMs),
                   sleep timeoutMs
                     (w1\<lparr>pending := add_timer (clock w1 + max 0 d) (\<lambda>c. snd (k c)) (pending w1)\<rparr>)))"

lemma withTimeout_clock:
  assumes "0 \<le> timeoutMs"
  shows "clock (snd (withTimeout fn timeoutMs w)) \<le> clock w + timeoutMs"
  using assms
  by (auto simp: withTimeout_def Let_def split: prod.splits settle.splits)

lemma withTimeout_fast:
  assumes "fn (comp w) = (c, After d k)" and "d < timeoutMs"
  shows "await fn w = Some (withTimeout fn timeoutMs w)"
  using assms by (simp add: withTimeout_def await_def Let_def split: prod.splits)

lemma withTimeout_slow:
  assumes "fn (comp w) = (c, After d k)" and "timeoutMs \<le> d"
  shows "fst (withTimeout fn timeoutMs w) = Inl (TimeoutError timeoutMs)"
  using assms by (simp add: withTimeout_def Let_def)

section \<open>Timers that leave the state alone\<close>

text \<open>A world whose pending timers do not change the shared state: sleeping only moves the clock.\<close>

definition inert :: "'c world \<Rightarrow> bool" where
  "inert w \<longleftrightarrow> (\<forall>p \<in> set (pending w). snd p = id)"

lemma fire_inert: "\<forall>p \<in> set ps. snd p = id \<Longrightarrow> fst (fire t ps c) = c \<and> set (snd (fire t ps c)) \<subseteq> set ps"
  by (induction t ps c rule: fire.induct) auto

lemma inert_start [inv_intros]: "inert (start_world c)"
  by (simp add: inert_def start_world_def)

lemma inert_sleep [inv_intros]: "inert w \<Longrightarrow> inert (sleep ms w)"
  and comp_sleep_inert [step_simps]: "inert w \<Longrightarrow> comp (sleep ms w) = comp w"
  using fire_inert [of "pending w" "clock w + max 0 ms" "comp w"]
  by (auto simp: sleep_def inert_def Let_def case_prod_beta)

lemma withTimeout_inert:
  assumes "inert w" and "fn (comp w) = (c, After d (\<lambda>c. (g c, c)))"
  shows "inert (snd (withTimeout fn ms w)) \<and> comp (snd (withTimeout fn ms w)) = c"
proof (cases "d < ms")
  case True
  let ?w = "w\<lparr>comp := c\<rparr>"
  have "inert ?w" using assms(1) by (simp add: inert_def)
  from inert_sleep [OF this, of d] comp_sleep_inert [OF this, of d] True assms(2) show ?thesis
    by (simp add: withTimeout_def Let_def inert_def)
next
  case False
  let ?w = "w\<lparr>comp := c, pending := add_timer (clock w + max 0 d) (\<lambda>c. c) (pending w)\<rparr>"
  have "inert ?w" using assms(1) by (auto simp: inert_def set_add_timer)
  from inert_sleep [OF this, of ms] comp_sleep_inert [OF this, of ms] False assms(2) show ?thesis
    by (simp add: withTimeout_def Let_def)
qed

section \<open>The seeded generator\<close>

unbundle bit_operations_syntax

text \<open>
  \<open>Math.imul\<close> and \<open>| 0\<close> are arithmetic on 32-bit words, \<open>>>>\<close> is the logical shift. The state is
  the word \<open>a\<close>; each call returns the next number in [0, 1) and the advanced state.
\<close>

definition mulberry32_init :: "int \<Rightarrow> 32 word" where
  "mulberry32_init seed = word_of_int seed"

definition mulberry32_mix :: "32 word \<Rightarrow> 32 word" where
  "mulberry32_mix a =
     (let t = (a XOR drop_bit 15 a) * (1 OR a);
          t = (t + (t XOR drop_bit 7 t) * (61 OR t)) XOR t
      in t XOR drop_bit 14 t)"

definition mulberry32 :: "32 word \<Rightarrow> rat \<times> 32 word" where
  "mulberry32 a =
     (let a = a + 0x6d2b79f5 in (of_int (uint (mulberry32_mix a)) / 4294967296, a))"

lemma mulberry32_range: "0 \<le> fst (mulberry32 a)" "fst (mulberry32 a) < 1"
proof -
  let ?u = "uint (mulberry32_mix (a + 0x6d2b79f5))"
  have "?u < 2 ^ 32" using uint_bounded [of "mulberry32_mix (a + 0x6d2b79f5)"] by simp
  then have "(of_int ?u :: rat) < of_int (2 ^ 32)" by (simp only: of_int_less_iff)
  then show "fst (mulberry32 a) < 1" by (simp add: mulberry32_def Let_def)
  have "(0::rat) \<le> of_int ?u" by (simp only: of_int_0_le_iff uint_nonnegative)
  then show "0 \<le> fst (mulberry32 a)" by (simp add: mulberry32_def Let_def)
qed

end
