(* ===== verification/Retry.thy ===== *)
theory Retry
  imports Async
begin

text \<open>
  \<open>retryWithBackoff\<close> of \<open>labs/37-*/src/lib/retry.ts\<close> and \<open>retryImmediatelyNoBackoff\<close> of
  \<open>labs/40-*/src/lib/retry.ts\<close>. The calls of \<open>onRetry\<close> are the first component of the result, in
  order; the random source is an operation on the world the caller supplies. The interface
  \<open>random_source\<close> is what the retry and latency code relies on: numbers in [0, 1).
\<close>

section \<open>The random source\<close>

locale random_source =
  fixes next_random :: "'g \<Rightarrow> rat \<times> 'g"
  assumes next_nonneg: "0 \<le> fst (next_random g)"
    and next_less_1: "fst (next_random g) < 1"
begin

lemma scaled_nonneg: "0 \<le> c \<Longrightarrow> 0 \<le> fst (next_random g) * c"
  by (simp add: next_nonneg)

lemma scaled_le: "0 \<le> c \<Longrightarrow> fst (next_random g) * c \<le> c"
  using next_less_1 [of g] next_nonneg [of g] by (simp add: mult_left_le_one_le)

lemma interval:
  assumes "lo \<le> hi"
  shows "lo \<le> lo + fst (next_random g) * (hi - lo)"
    and "lo + fst (next_random g) * (hi - lo) \<le> hi"
  using assms scaled_nonneg [of "hi - lo" g] scaled_le [of "hi - lo" g] by simp_all

end

interpretation mb: random_source mulberry32
  by unfold_locales (rule mulberry32_range)+

section \<open>Exponential backoff with full jitter\<close>

record 'c RetryOptions =
  maxAttempts :: nat
  baseDelayMs :: rat
  maxDelayMs :: rat
  isRetryable :: "js_error \<Rightarrow> bool"
  random :: "'c world \<Rightarrow> rat \<times> 'c world"

record retry_info =
  ri_attempt :: nat
  ri_delayMs :: rat
  ri_error :: js_error

definition exponentialCap :: "'c RetryOptions \<Rightarrow> nat \<Rightarrow> rat" where
  "exponentialCap opts attempt = min (maxDelayMs opts) (baseDelayMs opts * 2 ^ (attempt - 1))"

text \<open>
  The loop from a given attempt. \<open>lastError\<close> is what the final \<open>throw\<close> after the loop rethrows;
  it is \<open>undefined\<close> in JavaScript when the loop body never ran.
\<close>

function retry_from ::
  "'c RetryOptions \<Rightarrow> (nat \<Rightarrow> ('c world, 'a) action) \<Rightarrow> nat \<Rightarrow> js_error \<Rightarrow> 'c world
     \<Rightarrow> retry_info list \<times> (js_error + 'a) \<times> 'c world" where
  "retry_from opts fn attempt lastError w =
     (if attempt \<le> maxAttempts opts
      then (case fn attempt w of
              (Inr v, w1) \<Rightarrow> ([], Inr v, w1)
            | (Inl err, w1) \<Rightarrow>
                if \<not> isRetryable opts err \<or> \<not> attempt < maxAttempts opts
                then ([], Inl err, w1)
                else (let (r, w2) = random opts w1;
                          delayMs = r * exponentialCap opts attempt;
                          (rlog, res, w3) =
                            retry_from opts fn (attempt + 1) err (sleep delayMs w2)
                      in (\<lparr>ri_attempt = attempt, ri_delayMs = delayMs, ri_error = err\<rparr> # rlog,
                          res, w3)))
      else ([], Inl lastError, w))"
  by pat_completeness auto
termination
  by (relation "measure (\<lambda>(opts, fn, attempt, e, w). Suc (maxAttempts opts) - attempt)") auto

declare retry_from.simps [simp del]

definition retryWithBackoff ::
  "(nat \<Rightarrow> ('c world, 'a) action) \<Rightarrow> 'c RetryOptions \<Rightarrow> 'c world
     \<Rightarrow> retry_info list \<times> (js_error + 'a) \<times> 'c world" where
  "retryWithBackoff fn opts w = retry_from opts fn 1 (OtherError ''undefined'') w"

definition retry_action ::
  "(nat \<Rightarrow> ('c world, 'a) action) \<Rightarrow> 'c RetryOptions \<Rightarrow> ('c world, 'a) action" where
  "retry_action fn opts w = snd (retryWithBackoff fn opts w)"

subsection \<open>One iteration, case by case\<close>

lemma retry_from_ok [step_simps]:
  "attempt \<le> maxAttempts opts \<Longrightarrow> fn attempt w = (Inr v, w1) \<Longrightarrow>
   retry_from opts fn attempt e w = ([], Inr v, w1)"
  by (simp add: retry_from.simps)

lemma retry_from_stop [step_simps]:
  "attempt \<le> maxAttempts opts \<Longrightarrow> fn attempt w = (Inl err, w1) \<Longrightarrow>
   \<not> isRetryable opts err \<or> attempt = maxAttempts opts \<Longrightarrow>
   retry_from opts fn attempt e w = ([], Inl err, w1)"
  by (auto simp: retry_from.simps)

lemma retry_from_again:
  "attempt < maxAttempts opts \<Longrightarrow> fn attempt w = (Inl err, w1) \<Longrightarrow> isRetryable opts err \<Longrightarrow>
   random opts w1 = (r, w2) \<Longrightarrow>
   retry_from opts fn attempt e w =
     (let (rlog, res, w3) =
            retry_from opts fn (attempt + 1) err (sleep (r * exponentialCap opts attempt) w2)
      in (\<lparr>ri_attempt = attempt, ri_delayMs = r * exponentialCap opts attempt, ri_error = err\<rparr> # rlog,
          res, w3))"
  by (subst retry_from.simps) (simp add: Let_def)

text \<open>The three ways an iteration goes, as a case rule for the proofs about the loop.\<close>

lemma retry_from_cases:
  assumes "attempt \<le> maxAttempts opts"
  obtains (ok) v w1 where "fn attempt w = (Inr v, w1)"
      "retry_from opts fn attempt e w = ([], Inr v, w1)"
  | (stop) err w1 where "fn attempt w = (Inl err, w1)"
      "\<not> isRetryable opts err \<or> attempt = maxAttempts opts"
      "retry_from opts fn attempt e w = ([], Inl err, w1)"
  | (again) err w1 r w2 rlog res w3 where "fn attempt w = (Inl err, w1)" "isRetryable opts err"
      "attempt < maxAttempts opts" "random opts w1 = (r, w2)"
      "retry_from opts fn (attempt + 1) err (sleep (r * exponentialCap opts attempt) w2)
         = (rlog, res, w3)"
      "retry_from opts fn attempt e w =
         (\<lparr>ri_attempt = attempt, ri_delayMs = r * exponentialCap opts attempt, ri_error = err\<rparr> # rlog,
          res, w3)"
proof (cases "fn attempt w")
  case (Pair x w1)
  show ?thesis
  proof (cases x)
    case (Inr v)
    with Pair assms show ?thesis by (intro ok) (auto simp: step_simps)
  next
    case (Inl err)
    show ?thesis
    proof (cases "isRetryable opts err \<and> attempt < maxAttempts opts")
      case False
      with Pair Inl assms show ?thesis by (intro stop) (auto simp: step_simps)
    next
      case True
      obtain r w2 where r: "random opts w1 = (r, w2)" by fastforce
      obtain rlog res w3 where
        "retry_from opts fn (attempt + 1) err (sleep (r * exponentialCap opts attempt) w2)
           = (rlog, res, w3)" by (metis prod_cases3)
      with Pair Inl True r show ?thesis by (intro again) (auto simp: retry_from_again)
    qed
  qed
qed

subsection \<open>What a whole run does\<close>

text \<open>
  The logged retries are attempts \<open>a, a+1, ...\<close> in order, each for a retryable error, and there are
  fewer of them than attempts allowed.
\<close>

lemma retry_from_log:
  assumes "attempt \<le> maxAttempts opts"
    and "retry_from opts fn attempt e w = (rlog, res, w')"
  shows "map ri_attempt rlog = [attempt..<attempt + length rlog]
       \<and> attempt + length rlog \<le> maxAttempts opts
       \<and> (\<forall>i \<in> set rlog. isRetryable opts (ri_error i))"
  using assms
proof (induction "maxAttempts opts - attempt" arbitrary: attempt e w rlog res w' rule: less_induct)
  case less
  from less.prems(1) show ?case
  proof (cases rule: retry_from_cases [where fn = fn and w = w and e = e])
    case (again err w1 r w2 rlog' res' w3)
    then have rlog: "rlog = \<lparr>ri_attempt = attempt, ri_delayMs = r * exponentialCap opts attempt,
                       ri_error = err\<rparr> # rlog'"
      using less.prems by simp
    have "map ri_attempt rlog' = [attempt + 1..<attempt + 1 + length rlog']
       \<and> attempt + 1 + length rlog' \<le> maxAttempts opts
       \<and> (\<forall>i \<in> set rlog'. isRetryable opts (ri_error i))"
      using again by (intro less.hyps) auto
    with rlog again show ?thesis by (simp add: upt_conv_Cons del: upt_Suc)
  qed (use less.prems in auto)
qed

lemma retry_from_delays:
  assumes "attempt \<le> maxAttempts opts"
    and "retry_from opts fn attempt e w = (rlog, res, w')"
    and rnd: "\<And>v. 0 \<le> fst (random opts v) \<and> fst (random opts v) < 1"
    and pos: "0 \<le> baseDelayMs opts" "0 \<le> maxDelayMs opts"
  shows "\<forall>i \<in> set rlog. 0 \<le> ri_delayMs i \<and> ri_delayMs i \<le> maxDelayMs opts
           \<and> ri_delayMs i \<le> baseDelayMs opts * 2 ^ (ri_attempt i - 1)"
  using assms(1,2)
proof (induction "maxAttempts opts - attempt" arbitrary: attempt e w rlog res w' rule: less_induct)
  case less
  from less.prems(1) show ?case
  proof (cases rule: retry_from_cases [where fn = fn and w = w and e = e])
    case (again err w1 r w2 rlog' res' w3)
    then have rlog: "rlog = \<lparr>ri_attempt = attempt, ri_delayMs = r * exponentialCap opts attempt,
                       ri_error = err\<rparr> # rlog'"
      using less.prems by simp
    have cap: "0 \<le> exponentialCap opts attempt" using pos by (simp add: exponentialCap_def)
    have r: "0 \<le> r" "r \<le> 1" using again(4) rnd [of w1] by auto
    have "0 \<le> r * exponentialCap opts attempt"
      "r * exponentialCap opts attempt \<le> exponentialCap opts attempt"
      using r cap by (simp_all add: mult_left_le_one_le)
    moreover have "\<forall>i \<in> set rlog'. 0 \<le> ri_delayMs i \<and> ri_delayMs i \<le> maxDelayMs opts
           \<and> ri_delayMs i \<le> baseDelayMs opts * 2 ^ (ri_attempt i - 1)"
      using again by (intro less.hyps) auto
    ultimately show ?thesis using rlog by (auto simp: exponentialCap_def)
  qed (use less.prems in auto)
qed

text \<open>Why it stopped: success, a non-retryable error, or no attempt left.\<close>

lemma retry_from_result:
  assumes "attempt \<le> maxAttempts opts"
    and "retry_from opts fn attempt e w = (rlog, res, w')"
  shows "\<exists>v. fn (attempt + length rlog) v = (res, w')
       \<and> (case res of Inr _ \<Rightarrow> True
          | Inl err \<Rightarrow> \<not> isRetryable opts err \<or> attempt + length rlog = maxAttempts opts)"
  using assms
proof (induction "maxAttempts opts - attempt" arbitrary: attempt e w rlog res w' rule: less_induct)
  case less
  from less.prems(1) show ?case
  proof (cases rule: retry_from_cases [where fn = fn and w = w and e = e])
    case (again err w1 r w2 rlog' res' w3)
    then have eqs: "rlog = \<lparr>ri_attempt = attempt, ri_delayMs = r * exponentialCap opts attempt,
                       ri_error = err\<rparr> # rlog'" "res = res'" "w' = w3"
      using less.prems by simp_all
    have "\<exists>v. fn (attempt + 1 + length rlog') v = (res', w3)
       \<and> (case res' of Inr _ \<Rightarrow> True
          | Inl err \<Rightarrow> \<not> isRetryable opts err \<or> attempt + 1 + length rlog' = maxAttempts opts)"
      using again by (intro less.hyps) auto
    with eqs show ?thesis by (auto split: sum.splits)
  next
    case (ok v w1)
    with less.prems show ?thesis by auto
  next
    case (stop err w1)
    with less.prems have "rlog = []" "res = Inl err" "w' = w1" by simp_all
    with stop show ?thesis by auto
  qed
qed

text \<open>
  A counter that every attempt raises by one, and that waiting and drawing a random number leave
  alone, counts the attempts: one more than the retries logged.
\<close>

lemma retry_from_count:
  assumes "attempt \<le> maxAttempts opts"
    and "retry_from opts fn attempt e w = (rlog, res, w')"
    and att: "\<And>a v. P v \<Longrightarrow> P (snd (fn a v)) \<and> m (snd (fn a v)) = Suc (m v)"
    and rnd: "\<And>v. P v \<Longrightarrow> P (snd (random opts v)) \<and> m (snd (random opts v)) = m v"
    and slp: "\<And>v d. P v \<Longrightarrow> P (sleep d v) \<and> m (sleep d v) = m v"
    and "P w"
  shows "P w' \<and> m w' = m w + Suc (length rlog)"
  using assms(1,2,6)
proof (induction "maxAttempts opts - attempt" arbitrary: attempt e w rlog res w' rule: less_induct)
  case less
  from less.prems(1) show ?case
  proof (cases rule: retry_from_cases [where fn = fn and w = w and e = e])
    case (ok v w1)
    with less.prems att [of w attempt] show ?thesis by simp
  next
    case (stop err w1)
    with less.prems att [of w attempt] show ?thesis by simp
  next
    case (again err w1 r w2 rlog' res' w3)
    let ?w2 = "sleep (r * exponentialCap opts attempt) w2"
    have 1: "P w1" "m w1 = Suc (m w)" using att [OF less.prems(3), of attempt] again(1) by simp_all
    have 2: "P w2" "m w2 = m w1" using rnd [OF 1(1)] again(4) by simp_all
    have 3: "P ?w2" "m ?w2 = m w2" using slp [OF 2(1)] by simp_all
    have "P w3 \<and> m w3 = m ?w2 + Suc (length rlog')"
      using again(3,5) 3(1) by (intro less.hyps) auto
    moreover have "rlog = \<lparr>ri_attempt = attempt, ri_delayMs = r * exponentialCap opts attempt,
                       ri_error = err\<rparr> # rlog'" "w' = w3"
      using again(6) less.prems(2) by simp_all
    ultimately show ?thesis using 1 2 3 by simp
  qed
qed

section \<open>Immediate retries with no backoff\<close>

function retry_now_from ::
  "(nat \<Rightarrow> ('s, 'a) action) \<Rightarrow> nat \<Rightarrow> nat \<Rightarrow> js_error \<Rightarrow> ('s, 'a) action" where
  "retry_now_from fn max_attempts attempt lastError w =
     (if attempt \<le> max_attempts
      then (case fn attempt w of
              (Inr v, w1) \<Rightarrow> (Inr v, w1)
            | (Inl err, w1) \<Rightarrow> retry_now_from fn max_attempts (attempt + 1) err w1)
      else (Inl lastError, w))"
  by pat_completeness auto
termination
  by (relation "measure (\<lambda>(fn, m, attempt, e, w). Suc m - attempt)") auto

declare retry_now_from.simps [simp del]

definition retryImmediatelyNoBackoff :: "(nat \<Rightarrow> ('s, 'a) action) \<Rightarrow> nat \<Rightarrow> ('s, 'a) action" where
  "retryImmediatelyNoBackoff fn max_attempts w =
     retry_now_from fn max_attempts 1 (OtherError ''undefined'') w"

text \<open>
  Against a call that always fails and counts itself, the loop makes every attempt it is allowed.
\<close>

lemma retry_now_from_exhausts:
  assumes fails: "\<And>a v. \<exists>err. fst (fn a v) = Inl err"
    and count: "\<And>a v. calls (snd (fn a v)) = Suc (calls v)"
  shows "calls (snd (retry_now_from fn m attempt e w)) = calls w + (Suc m - attempt)
       \<and> (\<exists>err. fst (retry_now_from fn m attempt e w) = Inl err)"
proof (induction "Suc m - attempt" arbitrary: attempt e w)
  case 0
  then show ?case by (simp add: retry_now_from.simps)
next
  case (Suc n)
  then have le: "attempt \<le> m" by simp
  obtain err where "fst (fn attempt w) = Inl err" using fails by blast
  then obtain w1 where fn: "fn attempt w = (Inl err, w1)" by (metis prod.collapse)
  then have w1: "calls w1 = Suc (calls w)" using count [of attempt w] by simp
  have "retry_now_from fn m attempt e w = retry_now_from fn m (attempt + 1) err w1"
    using le fn by (subst retry_now_from.simps) simp
  with Suc.hyps(1) [of "attempt + 1" err w1] Suc.hyps(2) w1 le show ?case by simp
qed

section \<open>The contract of the retry helper\<close>

text \<open>
  C13: the attempts are numbered from 1 without a gap and never exceed the maximum; only retryable
  errors are retried; the delay before each retry lies between 0 and both the cap and the doubled base;
  and the outcome is the last attempt's own, an error only if it is not retryable or the last attempt.
\<close>

theorem retry_with_backoff_contract:
  assumes "1 \<le> maxAttempts opts" and "\<And>v. 0 \<le> fst (random opts v) \<and> fst (random opts v) < 1"
    and "0 \<le> baseDelayMs opts" and "0 \<le> maxDelayMs opts"
    and "retryWithBackoff fn opts w = (rlog, res, w')"
  shows "map ri_attempt rlog = [1..<1 + length rlog] \<and> length rlog < maxAttempts opts
       \<and> (\<forall>i \<in> set rlog. isRetryable opts (ri_error i) \<and> 0 \<le> ri_delayMs i
            \<and> ri_delayMs i \<le> maxDelayMs opts \<and> ri_delayMs i \<le> baseDelayMs opts * 2 ^ (ri_attempt i - 1))
       \<and> (\<exists>v. fn (1 + length rlog) v = (res, w'))
       \<and> (case res of Inr _ \<Rightarrow> True
          | Inl err \<Rightarrow> \<not> isRetryable opts err \<or> 1 + length rlog = maxAttempts opts)"
proof -
  have r: "retry_from opts fn 1 (OtherError ''undefined'') w = (rlog, res, w')"
    using assms(5) by (simp add: retryWithBackoff_def)
  from retry_from_log [OF assms(1) r] retry_from_delays [OF assms(1) r assms(2-4)]
    retry_from_result [OF assms(1) r]
  show ?thesis by auto
qed

text \<open>Three attempts against an operation that succeeds the second time, drawing the middle of each interval.\<close>

definition second_time :: "nat \<Rightarrow> (nat world, nat) action" where
  "second_time attempt w = (if attempt < 2 then Inl (TransientDownstreamError ''down'') else Inr attempt, w)"

definition half_jitter :: "nat RetryOptions" where
  "half_jitter = \<lparr>maxAttempts = 3, baseDelayMs = 100, maxDelayMs = 2000, isRetryable = (\<lambda>_. True),
     random = (\<lambda>w. (1/2, w))\<rparr>"

lemma retry_with_backoff_contract_witness:
  "\<exists>rlog w'. retryWithBackoff second_time half_jitter (start_world 0) = (rlog, Inr 2, w')
     \<and> (\<forall>i \<in> set rlog. ri_delayMs i \<le> 2000)"
proof -
  obtain rlog res w' where r: "retryWithBackoff second_time half_jitter (start_world 0) = (rlog, res, w')"
    by (metis prod_cases3)
  have "res = Inr 2"
    using r by (simp add: retryWithBackoff_def retry_from.simps second_time_def half_jitter_def Let_def
        case_prod_beta numeral_2_eq_2)
  moreover have "\<forall>i \<in> set rlog. ri_delayMs i \<le> 2000"
    using retry_with_backoff_contract [OF _ _ _ _ r] by (simp add: half_jitter_def)
  ultimately show ?thesis using r by blast
qed

end
