(* ===== verification/Idempotent_Receiver.thy ===== *)
theory Idempotent_Receiver
  imports Prelude
begin

text \<open>
  The contract of a receiver that deduplicates by key: the first delivery of a key applies the
  effect and records its response, a repeat returns the recorded response and applies nothing.
  Lab 37's \<open>charge\<close>, Lab 40's idempotent checkout and Lab 18's inbox consumer provide it; what a
  retrying client may rely on is proved here once.
\<close>

locale idempotent_receiver =
  fixes deliver :: "'k \<Rightarrow> 'p \<Rightarrow> 's \<Rightarrow> 'r \<times> 's"
    and effects :: "'s \<Rightarrow> nat"
    and recorded :: "'s \<Rightarrow> 'k \<rightharpoonup> 'r"
    and valid :: "'s \<Rightarrow> bool"
    and is_key :: "'k \<Rightarrow> bool"
  assumes fresh: "valid s \<Longrightarrow> is_key k \<Longrightarrow> recorded s k = None \<Longrightarrow> deliver k p s = (r, s') \<Longrightarrow>
      effects s' = Suc (effects s) \<and> recorded s' = (recorded s)(k \<mapsto> r)"
    and seen: "valid s \<Longrightarrow> is_key k \<Longrightarrow> recorded s k = Some r0 \<Longrightarrow> deliver k p s = (r, s') \<Longrightarrow>
      r = r0 \<and> effects s' = effects s \<and> recorded s' = recorded s"
    and valid_deliver: "valid s \<Longrightarrow> is_key k \<Longrightarrow> deliver k p s = (r, s') \<Longrightarrow> valid s'"
begin

fun deliver_all :: "('k \<times> 'p) list \<Rightarrow> 's \<Rightarrow> 'r list \<times> 's" where
  "deliver_all [] s = ([], s)"
| "deliver_all ((k, p) # ms) s =
     (let (r, s1) = deliver k p s; (rs, s2) = deliver_all ms s1 in (r # rs, s2))"

lemma deliver_recorded:
  assumes "valid s" and "is_key k" and "deliver k p s = (r, s')"
  shows "recorded s' k = Some r" and "recorded s k = Some r0 \<Longrightarrow> r = r0"
    and "k' \<noteq> k \<Longrightarrow> recorded s' k' = recorded s k'"
    and "effects s' = effects s + (if recorded s k = None then 1 else 0)"
    and "dom (recorded s') = insert k (dom (recorded s))"
  using assms fresh [of s k p r s'] seen [of s k _ p r s'] by (cases "recorded s k"; auto)+

lemma recorded_mono:
  "valid s \<Longrightarrow> \<forall>m \<in> set ms. is_key (fst m) \<Longrightarrow> deliver_all ms s = (rs, s') \<Longrightarrow> recorded s k = Some r \<Longrightarrow> recorded s' k = Some r"
proof (induction ms arbitrary: s rs)
  case Nil
  then show ?case by simp
next
  case (Cons m ms)
  obtain j p where m: "m = (j, p)" by fastforce
  then have j: "is_key j" and ks: "\<forall>m \<in> set ms. is_key (fst m)" using Cons.prems(2) by auto
  obtain r1 s1 where d: "deliver j p s = (r1, s1)" by fastforce
  obtain rs1 s2 where a: "deliver_all ms s1 = (rs1, s2)" by fastforce
  have "recorded s1 k = Some r"
    using deliver_recorded [OF Cons.prems(1) j d] Cons.prems(4) by (cases "k = j") auto
  with Cons.IH [OF valid_deliver [OF Cons.prems(1) j d] ks, of rs1] Cons.prems(3) m d a show ?case
    by simp
qed

text \<open>The number of effects is the number of distinct keys that were new.\<close>

lemma effects_deliver_all:
  "valid s \<Longrightarrow> \<forall>m \<in> set ms. is_key (fst m) \<Longrightarrow> deliver_all ms s = (rs, s') \<Longrightarrow>
   effects s' = effects s + card (set (map fst ms) - dom (recorded s)) \<and> valid s'
   \<and> dom (recorded s') = dom (recorded s) \<union> set (map fst ms)"
proof (induction ms arbitrary: s rs)
  case Nil
  then show ?case by simp
next
  case (Cons m ms)
  obtain j p where m: "m = (j, p)" by fastforce
  then have j: "is_key j" and ks: "\<forall>m \<in> set ms. is_key (fst m)" using Cons.prems(2) by auto
  obtain r1 s1 where d: "deliver j p s = (r1, s1)" by fastforce
  obtain rs1 s2 where a: "deliver_all ms s1 = (rs1, s2)" by fastforce
  have s': "s' = s2" using Cons.prems(3) m d a by simp
  have IH: "effects s' = effects s1 + card (set (map fst ms) - dom (recorded s1))" "valid s'"
    "dom (recorded s') = dom (recorded s1) \<union> set (map fst ms)"
    using Cons.IH [OF valid_deliver [OF Cons.prems(1) j d] ks] a s' by auto
  have dom1: "dom (recorded s1) = insert j (dom (recorded s))"
    by (rule deliver_recorded(5) [OF Cons.prems(1) j d])
  have eff1: "effects s1 = effects s + (if recorded s j = None then 1 else 0)"
    by (rule deliver_recorded(4) [OF Cons.prems(1) j d])
  have "card (insert j (set (map fst ms)) - dom (recorded s))
      = (if recorded s j = None then 1 else 0) + card (set (map fst ms) - dom (recorded s1))"
  proof (cases "recorded s j = None")
    case True
    then have "insert j (set (map fst ms)) - dom (recorded s)
        = insert j (set (map fst ms) - dom (recorded s1))" using dom1 by auto
    then show ?thesis using True dom1 by simp
  next
    case False
    then have "insert j (set (map fst ms)) - dom (recorded s)
        = set (map fst ms) - dom (recorded s1)" using dom1 by auto
    then show ?thesis using False by simp
  qed
  with IH eff1 dom1 m show ?case by auto
qed

text \<open>All deliveries of one key get one response: the one the final state records.\<close>

lemma responses_agree:
  "valid s \<Longrightarrow> \<forall>m \<in> set ms. is_key (fst m) \<Longrightarrow> deliver_all ms s = (rs, s') \<Longrightarrow>
   length rs = length ms \<and> (\<forall>i < length ms. recorded s' (fst (ms ! i)) = Some (rs ! i))"
proof (induction ms arbitrary: s rs)
  case Nil
  then show ?case by simp
next
  case (Cons m ms)
  obtain j p where m: "m = (j, p)" by fastforce
  then have j: "is_key j" and ks: "\<forall>m \<in> set ms. is_key (fst m)" using Cons.prems(2) by auto
  obtain r1 s1 where d: "deliver j p s = (r1, s1)" by fastforce
  obtain rs1 s2 where a: "deliver_all ms s1 = (rs1, s2)" by fastforce
  have eqs: "rs = r1 # rs1" "s' = s2" using Cons.prems(3) m d a by simp_all
  have v1: "valid s1" by (rule valid_deliver [OF Cons.prems(1) j d])
  have "recorded s1 j = Some r1" by (rule deliver_recorded(1) [OF Cons.prems(1) j d])
  then have "recorded s' j = Some r1" using recorded_mono [OF v1 ks a] eqs by simp
  with Cons.IH [OF v1 ks] a eqs m show ?case by (auto simp: less_Suc_eq_0_disj)
qed

lemma retries_one_effect:
  assumes "valid s" and "is_key k" and "deliver_all (replicate (Suc n) (k, p)) s = (rs, s')"
    and "recorded s k = None"
  shows "effects s' = Suc (effects s)"
proof -
  have "insert k (set (replicate n k)) - dom (recorded s) = {k}"
    using assms(4) by (auto simp: domIff)
  then show ?thesis using effects_deliver_all [OF assms(1) _ assms(3)] assms(2)
    by (auto split: if_splits)
qed

end

text \<open>
  The same contract for a receiver that may also refuse: a refused delivery leaves no trace, so a
  later one with the same key may still be the first to take effect. A receiver that never refuses is
  the special case.
\<close>

locale refusing_receiver =
  fixes deliver :: "'k \<Rightarrow> 'p \<Rightarrow> 's \<Rightarrow> 'r option \<times> 's"
    and effects :: "'s \<Rightarrow> nat"
    and recorded :: "'s \<Rightarrow> 'k \<rightharpoonup> 'r"
    and valid :: "'s \<Rightarrow> bool"
    and is_key :: "'k \<Rightarrow> bool"
  assumes refused: "valid s \<Longrightarrow> is_key k \<Longrightarrow> deliver k p s = (None, s') \<Longrightarrow>
      valid s' \<and> effects s' = effects s \<and> recorded s' = recorded s"
    and accepted: "valid s \<Longrightarrow> is_key k \<Longrightarrow> deliver k p s = (Some r, s') \<Longrightarrow>
      valid s'
    \<and> (recorded s k = None \<longrightarrow> effects s' = Suc (effects s) \<and> recorded s' = (recorded s)(k \<mapsto> r))
    \<and> (\<forall>r0. recorded s k = Some r0 \<longrightarrow> r = r0 \<and> effects s' = effects s \<and> recorded s' = recorded s)"
begin

fun deliveries :: "('k \<times> 'p) list \<Rightarrow> 's \<Rightarrow> ('k \<times> 'r option) list \<times> 's" where
  "deliveries [] s = ([], s)"
| "deliveries ((k, p) # ms) s =
     (let (r, s1) = deliver k p s; (rs, s2) = deliveries ms s1 in ((k, r) # rs, s2))"

lemma deliver_step:
  assumes "valid s" and "is_key k" and "deliver k p s = (r, s')" and fin: "finite (dom (recorded s))"
  shows "valid s' \<and> effects s' + card (dom (recorded s)) = effects s + card (dom (recorded s'))
       \<and> (\<forall>j x. recorded s j = Some x \<longrightarrow> recorded s' j = Some x)
       \<and> (\<forall>x. r = Some x \<longrightarrow> recorded s' k = Some x)
       \<and> dom (recorded s') = dom (recorded s) \<union> (if r = None then {} else {k})"
proof (cases r)
  case None
  with refused [OF assms(1,2)] assms(3) show ?thesis by simp
next
  case (Some x)
  note acc = accepted [OF assms(1,2) assms(3) [unfolded Some]]
  show ?thesis
  proof (cases "recorded s k")
    case None
    then have "k \<notin> dom (recorded s)" by blast
    with acc None Some fin show ?thesis by auto
  next
    case (Some y)
    with acc \<open>r = Some x\<close> show ?thesis by auto
  qed
qed

text \<open>
  After any deliveries: the effects are as many as the keys recorded; each accepted response is the
  one on record for its key, so all accepted responses to a key agree; and a key is on record
  only if some delivery of it was accepted.
\<close>

lemma deliveries_once:
  "valid s \<Longrightarrow> finite (dom (recorded s)) \<Longrightarrow> \<forall>m \<in> set ms. is_key (fst m) \<Longrightarrow> deliveries ms s = (rs, s') \<Longrightarrow>
   valid s' \<and> finite (dom (recorded s'))
   \<and> effects s' + card (dom (recorded s)) = effects s + card (dom (recorded s'))
   \<and> (\<forall>j x. recorded s j = Some x \<longrightarrow> recorded s' j = Some x)
   \<and> (\<forall>k x. (k, Some x) \<in> set rs \<longrightarrow> recorded s' k = Some x)
   \<and> dom (recorded s') = dom (recorded s) \<union> {k. \<exists>x. (k, Some x) \<in> set rs}"
proof (induction ms arbitrary: s rs)
  case Nil
  then show ?case by simp
next
  case (Cons m ms)
  obtain k p where m: "m = (k, p)" by fastforce
  obtain r s1 where d: "deliver k p s = (r, s1)" by fastforce
  obtain rs1 s2 where ds: "deliveries ms s1 = (rs1, s2)" by fastforce
  have rs: "rs = (k, r) # rs1" "s' = s2" using Cons.prems(4) m d ds by simp_all
  note st = deliver_step [OF Cons.prems(1) _ d Cons.prems(2)]
  have k: "is_key k" using Cons.prems(3) m by simp
  have fin: "finite (dom (recorded s1))" using st [OF k] Cons.prems(2) by auto
  note IH = Cons.IH [OF _ fin _ ds [folded rs(2)]]
  show ?case using st [OF k] IH Cons.prems(3) rs(1) by (auto split: if_splits)
qed

end

sublocale idempotent_receiver \<subseteq> total: refusing_receiver "\<lambda>k p s. map_prod Some id (deliver k p s)"
  effects recorded valid is_key
proof unfold_locales
  fix s k p s' r
  assume "valid s" "is_key k"
  then show "map_prod Some id (deliver k p s) = (None, s') \<Longrightarrow>
      valid s' \<and> effects s' = effects s \<and> recorded s' = recorded s"
    by (cases "deliver k p s") simp
  show "valid s' \<and> (recorded s k = None \<longrightarrow> effects s' = Suc (effects s) \<and> recorded s' = (recorded s)(k \<mapsto> r))
    \<and> (\<forall>r0. recorded s k = Some r0 \<longrightarrow> r = r0 \<and> effects s' = effects s \<and> recorded s' = recorded s)"
    if "map_prod Some id (deliver k p s) = (Some r, s')"
    using that \<open>valid s\<close> \<open>is_key k\<close> fresh [of s k p r s'] seen [of s k _ p r s'] valid_deliver [of s k p r s']
    by (cases "deliver k p s") auto
qed

end
