(* ===== verification/Downstream.thy ===== *)
theory Downstream
  imports Retry Idempotent_Receiver
begin

text \<open>
  The simulated downstream of \<open>labs/37-*/src/downstream/unreliable-downstream.ts\<close>: its health
  modes, its call log and the charge ledger with its own idempotency keys. A call is a task: the
  code up to its single \<open>await sleep\<close> runs at once, the rest when the sleep is over.
\<close>

section \<open>State\<close>

datatype DownstreamHealth = Healthy | Degraded | DownFailFast | DownHang

record CallLogEntry =
  atMs :: rat
  call_label :: string
  call_key :: "string option"

record ChargeResult =
  chargeId :: string
  amountCents :: int
  idempotencyKey :: "string option"

record UnreliableDownstreamOptions =
  seed :: int
  opt_health :: DownstreamHealth
  transientErrorRate :: "rat option"
  nonTransientErrorRate :: "rat option"
  slowRate :: "rat option"
  fastLatencyRangeMs :: "(rat \<times> rat) option"
  slowLatencyRangeMs :: "(rat \<times> rat) option"
  hangMs :: "rat option"

record UnreliableDownstream =
  opts :: UnreliableDownstreamOptions
  callLog :: "CallLogEntry list"
  rng :: "32 word"
  ledgerTotalCents :: int
  chargeCounter :: nat
  appliedCharges :: "string \<rightharpoonup> ChargeResult"

definition default :: "'a \<Rightarrow> 'a option \<Rightarrow> 'a" where
  "default d x = (case x of None \<Rightarrow> d | Some v \<Rightarrow> v)"

definition new_downstream :: "UnreliableDownstreamOptions \<Rightarrow> UnreliableDownstream" where
  "new_downstream o1 =
     \<lparr>opts = o1, callLog = [], rng = mulberry32_init (seed o1), ledgerTotalCents = 0,
      chargeCounter = 0, appliedCharges = Map.empty\<rparr>"

definition simple_options :: "int \<Rightarrow> DownstreamHealth \<Rightarrow> UnreliableDownstreamOptions" where
  "simple_options sd h =
     \<lparr>seed = sd, opt_health = h, transientErrorRate = None, nonTransientErrorRate = None,
      slowRate = None, fastLatencyRangeMs = None, slowLatencyRangeMs = None, hangMs = None\<rparr>"

definition totalCallCount :: "UnreliableDownstream \<Rightarrow> nat" where
  "totalCallCount d = length (callLog d)"

definition setHealth :: "DownstreamHealth \<Rightarrow> UnreliableDownstream \<Rightarrow> UnreliableDownstream" where
  "setHealth h d = d\<lparr>opts := (opts d)\<lparr>opt_health := h\<rparr>\<rparr>"

section \<open>Calls\<close>

datatype latency_kind = Fast | Slow

definition latency_range :: "latency_kind \<Rightarrow> UnreliableDownstreamOptions \<Rightarrow> rat \<times> rat" where
  "latency_range kind o1 =
     (case kind of Fast \<Rightarrow> default (5, 30) (fastLatencyRangeMs o1)
      | Slow \<Rightarrow> default (400, 900) (slowLatencyRangeMs o1))"

definition pickLatency :: "latency_kind \<Rightarrow> UnreliableDownstream \<Rightarrow> rat \<times> UnreliableDownstream" where
  "pickLatency kind d =
     (let (lo, hi) = latency_range kind (opts d); (r, g) = mulberry32 (rng d)
      in (lo + r * (hi - lo), d\<lparr>rng := g\<rparr>))"

text \<open>Every branch after the health check draws a latency, sleeps and then settles.\<close>

definition settle_after ::
  "latency_kind \<Rightarrow> (rat \<Rightarrow> js_error + rat) \<Rightarrow> (UnreliableDownstream, rat) task" where
  "settle_after kind result d =
     (let (latencyMs, d1) = pickLatency kind d
      in (d1, After latencyMs (\<lambda>d2. (result latencyMs, d2))))"

definition settleGeneric :: "string \<Rightarrow> (UnreliableDownstream, rat) task" where
  "settleGeneric label d =
     (case opt_health (opts d) of
        Healthy \<Rightarrow> settle_after Fast Inr d
      | DownFailFast \<Rightarrow>
          settle_after Fast (\<lambda>_. Inl (TransientDownstreamError (''downstream is down (call: '' @ label @ '')''))) d
      | DownHang \<Rightarrow>
          (let hang = default 5000 (hangMs (opts d)) in (d, After hang (\<lambda>d2. (Inr hang, d2))))
      | Degraded \<Rightarrow>
          (let transientRate = default (45 / 100) (transientErrorRate (opts d));
               nonTransientRate = default (1 / 10) (nonTransientErrorRate (opts d));
               slow = default (15 / 100) (slowRate (opts d));
               (r, g) = mulberry32 (rng d);
               d1 = d\<lparr>rng := g\<rparr>
           in if r < transientRate
              then settle_after Fast
                     (\<lambda>_. Inl (TransientDownstreamError
                            (''downstream returned a transient error (call: '' @ label @ '')''))) d1
              else if r < transientRate + nonTransientRate
              then settle_after Fast
                     (\<lambda>_. Inl (NonTransientDownstreamError
                            (''downstream rejected the request (call: '' @ label @ '')''))) d1
              else if r < transientRate + nonTransientRate + slow
              then settle_after Slow Inr d1
              else settle_after Fast Inr d1))"

definition log_call :: "rat \<Rightarrow> string \<Rightarrow> string option \<Rightarrow> UnreliableDownstream \<Rightarrow> UnreliableDownstream" where
  "log_call t label key d =
     d\<lparr>callLog := callLog d @ [\<lparr>atMs = t, call_label = label, call_key = key\<rparr>]\<rparr>"

definition call :: "rat \<Rightarrow> string \<Rightarrow> (UnreliableDownstream, rat) task" where
  "call t label d = settleGeneric label (log_call t label None d)"

text \<open>An absent key and the empty string are both falsy in \<open>if (idempotencyKey)\<close>.\<close>

definition truthy :: "string option \<Rightarrow> bool" where
  "truthy k \<longleftrightarrow> (case k of None \<Rightarrow> False | Some s \<Rightarrow> s \<noteq> '''')"

text \<open>The ledger effect of \<open>charge\<close>, before the response is sent.\<close>

definition apply_charge ::
  "int \<Rightarrow> string option \<Rightarrow> UnreliableDownstream \<Rightarrow> ChargeResult \<times> UnreliableDownstream" where
  "apply_charge amount key d =
     (let d1 = d\<lparr>chargeCounter := chargeCounter d + 1,
                 ledgerTotalCents := ledgerTotalCents d + amount\<rparr>;
          result = \<lparr>chargeId = ''ch_'' @ nat_str (chargeCounter d1), amountCents = amount,
                    idempotencyKey = key\<rparr>
      in (result,
          if truthy key then d1\<lparr>appliedCharges := (appliedCharges d1)(the key \<mapsto> result)\<rparr> else d1))"

text \<open>
  The synchronous part of \<open>charge\<close>: the response, how long it takes to arrive, and the ledger. A key
  seen before returns the recorded result and leaves the ledger alone.
\<close>

definition charge_sync ::
  "rat \<Rightarrow> int \<Rightarrow> string option \<Rightarrow> UnreliableDownstream \<Rightarrow> ChargeResult \<times> rat \<times> UnreliableDownstream" where
  "charge_sync t amount key d =
     (let d0 = log_call t ''charge'' key d
      in case (if truthy key then appliedCharges d0 (the key) else None) of
           Some existing \<Rightarrow> (existing, pickLatency Fast d0)
         | None \<Rightarrow> (let (result, d1) = apply_charge amount key d0 in (result, pickLatency Slow d1)))"

definition charge :: "rat \<Rightarrow> int \<Rightarrow> string option \<Rightarrow> (UnreliableDownstream, ChargeResult) task" where
  "charge t amount key d =
     (let (result, lat, d1) = charge_sync t amount key d in (d1, After lat (\<lambda>d2. (Inr result, d2))))"

section \<open>Latencies and outcomes\<close>

lemma pickLatency_range:
  assumes "latency_range kind (opts d) = (lo, hi)" and "lo \<le> hi"
  shows "lo \<le> fst (pickLatency kind d) \<and> fst (pickLatency kind d) \<le> hi"
  using assms mb.interval [of lo hi "rng d"]
  by (simp add: pickLatency_def Let_def case_prod_beta)

lemma pickLatency_frame [simp]:
  "callLog (snd (pickLatency kind d)) = callLog d"
  "ledgerTotalCents (snd (pickLatency kind d)) = ledgerTotalCents d"
  "chargeCounter (snd (pickLatency kind d)) = chargeCounter d"
  "appliedCharges (snd (pickLatency kind d)) = appliedCharges d"
  "opts (snd (pickLatency kind d)) = opts d"
  by (simp_all add: pickLatency_def Let_def case_prod_beta)

lemma pickLatency_eqD:
  assumes "pickLatency kind d = (lat, d')"
  shows "callLog d' = callLog d \<and> ledgerTotalCents d' = ledgerTotalCents d
       \<and> chargeCounter d' = chargeCounter d \<and> appliedCharges d' = appliedCharges d"
  using pickLatency_frame [of kind d] assms by simp

lemma log_call_frame [simp]:
  "callLog (log_call t l k d) = callLog d @ [\<lparr>atMs = t, call_label = l, call_key = k\<rparr>]"
  "ledgerTotalCents (log_call t l k d) = ledgerTotalCents d"
  "chargeCounter (log_call t l k d) = chargeCounter d"
  "appliedCharges (log_call t l k d) = appliedCharges d"
  "opts (log_call t l k d) = opts d" "rng (log_call t l k d) = rng d"
  by (simp_all add: log_call_def)

lemma settle_after_frame [simp]:
  "callLog (fst (settle_after kind f d)) = callLog d"
  "opts (fst (settle_after kind f d)) = opts d"
  by (simp_all add: settle_after_def Let_def case_prod_beta)

lemma settleGeneric_frame [simp]:
  "callLog (fst (settleGeneric label d)) = callLog d"
  "opts (fst (settleGeneric label d)) = opts d"
  by (auto simp: settleGeneric_def Let_def case_prod_beta split: DownstreamHealth.splits)

lemma call_logs [simp]: "totalCallCount (fst (call t label d)) = Suc (totalCallCount d)"
  by (simp add: call_def totalCallCount_def)

text \<open>A call on a downstream that is down fails with a transient error after its fast latency.\<close>

lemma settleGeneric_down:
  assumes "opt_health (opts d) = DownFailFast"
  shows "\<exists>d1 lat. settleGeneric label d =
           (d1, After lat (\<lambda>d2. (Inl (TransientDownstreamError
                  (''downstream is down (call: '' @ label @ '')'')), d2)))
         \<and> d1 = snd (pickLatency Fast d) \<and> lat = fst (pickLatency Fast d)"
  using assms by (simp add: settleGeneric_def settle_after_def case_prod_beta)

section \<open>Charging by key\<close>

text \<open>A charge under a key, as the receiver's contract sees it: the response and the ledger.\<close>

definition charge_by_key ::
  "string \<Rightarrow> rat \<times> int \<Rightarrow> UnreliableDownstream \<Rightarrow> ChargeResult \<times> UnreliableDownstream" where
  "charge_by_key key p d =
     (let (t, amount) = p; (result, lat, d1) = charge_sync t amount (Some key) d in (result, d1))"

interpretation charges: idempotent_receiver charge_by_key chargeCounter appliedCharges
  "\<lambda>_. True" "\<lambda>k. k \<noteq> ''''"
  by unfold_locales
     (auto simp: charge_by_key_def charge_sync_def apply_charge_def truthy_def Let_def case_prod_beta
       split: option.splits)

text \<open>Each new charge adds its amount to the ledger; a repeat adds nothing.\<close>

lemma charge_sync_ledger:
  "charge_sync t amount key d = (r, lat, d') \<Longrightarrow>
   ledgerTotalCents d' = ledgerTotalCents d
     + (if truthy key \<and> appliedCharges d (the key) \<noteq> None then 0 else amount)"
  by (auto simp: charge_sync_def apply_charge_def Let_def case_prod_beta dest!: pickLatency_eqD
      split: option.splits if_splits)

text \<open>Every recorded key was charged once: the ledger is consistent with the recorded results.\<close>

definition ledger_inv :: "UnreliableDownstream \<Rightarrow> bool" where
  "ledger_inv d \<longleftrightarrow> finite (dom (appliedCharges d)) \<and> card (dom (appliedCharges d)) \<le> chargeCounter d
     \<and> (\<forall>k r. appliedCharges d k = Some r \<longrightarrow> idempotencyKey r = Some k)"

lemma ledger_inv_charge [inv_intros]:
  assumes "ledger_inv d" and "charge_sync t amount key d = (r, lat, d')"
  shows "ledger_inv d'"
proof (cases "truthy key \<and> appliedCharges d (the key) \<noteq> None")
  case True
  then show ?thesis using assms
    by (auto simp: charge_sync_def ledger_inv_def Let_def dest!: pickLatency_eqD)
next
  case False
  then have d': "d' = snd (pickLatency Slow (snd (apply_charge amount key (log_call t ''charge'' key d))))"
    using assms(2) by (auto simp: charge_sync_def Let_def case_prod_beta split: if_splits)
  show ?thesis
  proof (cases "truthy key")
    case True
    with False have "the key \<notin> dom (appliedCharges d)" by (simp add: domIff)
    with True assms(1) d' show ?thesis
      by (auto simp: ledger_inv_def apply_charge_def Let_def truthy_def split: option.splits)
  next
    case False
    with assms(1) d' show ?thesis by (auto simp: ledger_inv_def apply_charge_def Let_def)
  qed
qed

end
