(* ===== verification/Circuit_Breaker.thy ===== *)
theory Circuit_Breaker
  imports Async
begin

text \<open>
  The circuit breaker of \<open>labs/37-*/src/lib/circuit-breaker.ts\<close> (copied verbatim into Lab 40).
  \<open>execute\<close> is split at its single \<open>await fn()\<close>: \<open>enter\<close> is the code before it, \<open>settle_ok\<close> and
  \<open>settle_err\<close> the code after it, so that concurrent calls can be modelled as interleavings of
  these three steps. \<open>execute\<close> composes them for a caller that awaits each call before the next.
  The calls of \<open>onStateChange\<close> are the list \<open>changes\<close>.
\<close>

section \<open>State and operations\<close>

datatype change_reason =
    CooldownElapsed
  | ProbeSucceeded
  | ProbeFailed
  | ThresholdReached nat

record CircuitBreakerOptions =
  failureThreshold :: nat
  cooldownMs :: rat

record CircuitBreaker =
  state :: CircuitState
  consecutiveFailures :: nat
  openedAt :: rat
  halfOpenProbeInFlight :: bool
  changes :: "(CircuitState \<times> CircuitState \<times> change_reason) list"

definition new_breaker :: CircuitBreaker where
  "new_breaker = \<lparr>state = CLOSED, consecutiveFailures = 0, openedAt = 0,
                  halfOpenProbeInFlight = False, changes = []\<rparr>"

definition transition :: "CircuitState \<Rightarrow> change_reason \<Rightarrow> CircuitBreaker \<Rightarrow> CircuitBreaker" where
  "transition to_state info b =
     (let from_state = state b;
          b1 = b\<lparr>state := to_state\<rparr>
      in if from_state \<noteq> to_state
         then b1\<lparr>changes := changes b1 @ [(from_state, to_state, info)]\<rparr>
         else b1)"

text \<open>How a call goes on after the synchronous part: rejected, or allowed to run \<open>fn\<close>.\<close>

datatype admission = Rejected CircuitState | AsProbe | AsClosed

definition enter :: "CircuitBreakerOptions \<Rightarrow> rat \<Rightarrow> CircuitBreaker \<Rightarrow> admission \<times> CircuitBreaker" where
  "enter opts now b =
     (if state b = OPEN \<and> \<not> cooldownMs opts \<le> now - openedAt b
      then (Rejected OPEN, b)
      else (let b1 = (if state b = OPEN then transition HALF_OPEN CooldownElapsed b else b)
            in if state b1 = HALF_OPEN
               then (if halfOpenProbeInFlight b1
                     then (Rejected HALF_OPEN, b1)
                     else (AsProbe, b1\<lparr>halfOpenProbeInFlight := True\<rparr>))
               else (AsClosed, b1)))"

fun settle_ok :: "admission \<Rightarrow> CircuitBreaker \<Rightarrow> CircuitBreaker" where
  "settle_ok AsProbe b =
     (transition CLOSED ProbeSucceeded (b\<lparr>consecutiveFailures := 0\<rparr>))\<lparr>halfOpenProbeInFlight := False\<rparr>"
| "settle_ok AsClosed b = b\<lparr>consecutiveFailures := 0\<rparr>"
| "settle_ok (Rejected _) b = b"

fun settle_err :: "CircuitBreakerOptions \<Rightarrow> rat \<Rightarrow> admission \<Rightarrow> CircuitBreaker \<Rightarrow> CircuitBreaker" where
  "settle_err opts now AsProbe b =
     (transition OPEN ProbeFailed (b\<lparr>openedAt := now\<rparr>))\<lparr>halfOpenProbeInFlight := False\<rparr>"
| "settle_err opts now AsClosed b =
     (let b1 = b\<lparr>consecutiveFailures := consecutiveFailures b + 1\<rparr>
      in if failureThreshold opts \<le> consecutiveFailures b1
         then transition OPEN (ThresholdReached (consecutiveFailures b1)) (b1\<lparr>openedAt := now\<rparr>)
         else b1)"
| "settle_err opts now (Rejected _) b = b"

definition execute ::
  "CircuitBreakerOptions \<Rightarrow> ('c world, 'a) action \<Rightarrow> (CircuitBreaker \<times> 'c world, 'a) action" where
  "execute opts fn bw =
     (let (b, w) = bw; (adm, b1) = enter opts (clock w) b
      in case adm of
           Rejected s \<Rightarrow> (Inl (CircuitOpenError s), b1, w)
         | _ \<Rightarrow> (case fn w of
                  (Inr r, w1) \<Rightarrow> (Inr r, settle_ok adm b1, w1)
                | (Inl e, w1) \<Rightarrow> (Inl e, settle_err opts (clock w1) adm b1, w1)))"

section \<open>The operations, branch by branch\<close>

lemma transition_fields [simp]:
  "state (transition s i b) = s"
  "consecutiveFailures (transition s i b) = consecutiveFailures b"
  "openedAt (transition s i b) = openedAt b"
  "halfOpenProbeInFlight (transition s i b) = halfOpenProbeInFlight b"
  "changes (transition s i b) =
     (if state b = s then changes b else changes b @ [(state b, s, i)])"
  by (simp_all add: transition_def Let_def)

lemma enter_closed [step_simps]:
  "state b = CLOSED \<Longrightarrow> enter opts now b = (AsClosed, b)"
  by (simp add: enter_def)

lemma enter_open_early [step_simps]:
  "state b = OPEN \<Longrightarrow> now - openedAt b < cooldownMs opts \<Longrightarrow> enter opts now b = (Rejected OPEN, b)"
  by (simp add: enter_def)

lemma enter_open_late [step_simps]:
  "state b = OPEN \<Longrightarrow> cooldownMs opts \<le> now - openedAt b \<Longrightarrow> \<not> halfOpenProbeInFlight b \<Longrightarrow>
   enter opts now b =
     (AsProbe, (transition HALF_OPEN CooldownElapsed b)\<lparr>halfOpenProbeInFlight := True\<rparr>)"
  by (simp add: enter_def Let_def)

lemma enter_half_open_busy [step_simps]:
  "state b = HALF_OPEN \<Longrightarrow> halfOpenProbeInFlight b \<Longrightarrow> enter opts now b = (Rejected HALF_OPEN, b)"
  by (simp add: enter_def Let_def)

lemma execute_rejected:
  "enter opts (clock w) b = (Rejected s, b1) \<Longrightarrow>
   execute opts fn (b, w) = (Inl (CircuitOpenError s), b1, w)"
  by (simp add: execute_def)

lemma execute_ok:
  "enter opts (clock w) b = (adm, b1) \<Longrightarrow> adm = AsProbe \<or> adm = AsClosed \<Longrightarrow> fn w = (Inr r, w1) \<Longrightarrow>
   execute opts fn (b, w) = (Inr r, settle_ok adm b1, w1)"
  by (auto simp: execute_def)

lemma execute_err:
  "enter opts (clock w) b = (adm, b1) \<Longrightarrow> adm = AsProbe \<or> adm = AsClosed \<Longrightarrow> fn w = (Inl e, w1) \<Longrightarrow>
   execute opts fn (b, w) = (Inl e, settle_err opts (clock w1) adm b1, w1)"
  by (auto simp: execute_def)

lemmas execute_cases = execute_rejected execute_ok execute_err

section \<open>One caller at a time\<close>

text \<open>
  Between two awaited calls no probe is in flight and the breaker is CLOSED below its threshold or
  OPEN; never HALF_OPEN.
\<close>

definition quiet :: "CircuitBreakerOptions \<Rightarrow> CircuitBreaker \<Rightarrow> bool" where
  "quiet opts b \<longleftrightarrow> \<not> halfOpenProbeInFlight b \<and> (state b = CLOSED \<or> state b = OPEN)
     \<and> (state b = CLOSED \<longrightarrow> consecutiveFailures b = 0 \<or> consecutiveFailures b < failureThreshold opts)"

lemma quiet_new [inv_intros]: "quiet opts new_breaker"
  by (simp add: quiet_def new_breaker_def)

lemma quiet_execute [inv_intros]:
  assumes "quiet opts b"
  shows "quiet opts (fst (snd (execute opts fn (b, w))))"
  using assms
  by (auto simp: execute_def quiet_def enter_def Let_def split: prod.splits sum.splits if_splits)

text \<open>The transitions the state diagram of the breaker allows.\<close>

definition documented_edge :: "CircuitState \<times> CircuitState \<times> change_reason \<Rightarrow> bool" where
  "documented_edge c \<longleftrightarrow> (case c of (f, t, _) \<Rightarrow>
     (f, t) \<in> {(CLOSED, OPEN), (OPEN, HALF_OPEN), (HALF_OPEN, CLOSED), (HALF_OPEN, OPEN)})"

lemma execute_edges:
  assumes "quiet opts b" and "\<forall>c \<in> set (changes b). documented_edge c"
  shows "\<forall>c \<in> set (changes (fst (snd (execute opts fn (b, w))))). documented_edge c"
  using assms
  by (auto simp: execute_def quiet_def enter_def Let_def documented_edge_def
      split: prod.splits sum.splits if_splits)

text \<open>A run of the breaker over a list of calls, each awaited before the next.\<close>

fun execute_all ::
  "CircuitBreakerOptions \<Rightarrow> ('c world, 'a) action list \<Rightarrow> CircuitBreaker \<times> 'c world
     \<Rightarrow> (js_error + 'a) list \<times> CircuitBreaker \<times> 'c world" where
  "execute_all opts [] bw = ([], bw)"
| "execute_all opts (fn # fns) bw =
     (let (r, bw1) = execute opts fn bw; (rs, bw2) = execute_all opts fns bw1 in (r # rs, bw2))"

lemma quiet_execute_all [inv_intros]:
  "quiet opts b \<Longrightarrow> quiet opts (fst (snd (execute_all opts fns (b, w))))"
proof (induction fns arbitrary: b w)
  case Nil
  then show ?case by simp
next
  case (Cons fn fns)
  obtain r b1 w1 where e: "execute opts fn (b, w) = (r, b1, w1)" by (metis prod_cases3)
  then have "quiet opts b1" using quiet_execute [OF Cons.prems, of fn w] by simp
  from Cons.IH [OF this, of w1] e show ?case by (simp add: case_prod_beta)
qed

lemma execute_all_edges:
  "quiet opts b \<Longrightarrow> \<forall>c \<in> set (changes b). documented_edge c \<Longrightarrow>
   \<forall>c \<in> set (changes (fst (snd (execute_all opts fns (b, w))))). documented_edge c"
proof (induction fns arbitrary: b w)
  case Nil
  then show ?case by simp
next
  case (Cons fn fns)
  obtain r b1 w1 where e: "execute opts fn (b, w) = (r, b1, w1)" by (metis prod_cases3)
  then have "quiet opts b1" "\<forall>c \<in> set (changes b1). documented_edge c"
    using quiet_execute [OF Cons.prems(1), of fn w] execute_edges [OF Cons.prems, of fn w] by simp_all
  from Cons.IH [OF this, of w1] e show ?case by (simp add: case_prod_beta)
qed

section \<open>Tripping and recovering\<close>

lemma execute_failing_closed:
  assumes "state b = CLOSED" and "fn w = (Inl e, w1)"
  shows "execute opts fn (b, w) = (Inl e, settle_err opts (clock w1) AsClosed b, w1)"
  using assms by (simp add: execute_def enter_closed)

lemma execute_in_cooldown:
  assumes "state b = OPEN" and "clock w - openedAt b < cooldownMs opts"
  shows "execute opts fn (b, w) = (Inl (CircuitOpenError OPEN), b, w)"
  using assms by (simp add: execute_def enter_open_early)

lemma execute_all_in_cooldown:
  assumes "state b = OPEN" and "clock w - openedAt b < cooldownMs opts"
  shows "execute_all opts fns (b, w) =
           (replicate (length fns) (Inl (CircuitOpenError OPEN)), b, w)"
  using assms by (induction fns) (simp_all add: execute_in_cooldown)

text \<open>The world after \<open>k\<close> runs of an operation that always fails.\<close>

fun runs :: "nat \<Rightarrow> ('c world, 'a) action \<Rightarrow> 'c world \<Rightarrow> 'c world" where
  "runs 0 fn w = w"
| "runs (Suc k) fn w = runs k fn (snd (fn w))"

lemma execute_all_failing:
  assumes fails: "\<And>v. \<exists>e. fst (fn v) = Inl e"
    and b: "state b = CLOSED" "consecutiveFailures b < failureThreshold opts"
    and cool: "0 < cooldownMs opts"
    and res: "execute_all opts (replicate m fn) (b, w) = (rs, b', w')"
  shows "w' = runs (min m (failureThreshold opts - consecutiveFailures b)) fn w
       \<and> (state b' = OPEN \<longleftrightarrow> failureThreshold opts - consecutiveFailures b \<le> m)
       \<and> drop (failureThreshold opts - consecutiveFailures b) rs =
           replicate (m - (failureThreshold opts - consecutiveFailures b)) (Inl (CircuitOpenError OPEN))"
  using b res
proof (induction m arbitrary: b w rs b' w')
  case 0
  then show ?case by auto
next
  case (Suc m)
  obtain e where "fst (fn w) = Inl e" using fails by blast
  then obtain w1 where fn: "fn w = (Inl e, w1)" by (metis prod.collapse)
  define b1 where "b1 = settle_err opts (clock w1) AsClosed b"
  have ex: "execute opts fn (b, w) = (Inl e, b1, w1)"
    using execute_failing_closed [of b fn w e w1 opts] Suc.prems(1) fn by (simp add: b1_def)
  obtain rs1 where rs: "rs = Inl e # rs1"
    and rest: "execute_all opts (replicate m fn) (b1, w1) = (rs1, b', w')"
    using Suc.prems(3) ex by (auto split: prod.splits)
  show ?case
  proof (cases "failureThreshold opts \<le> Suc (consecutiveFailures b)")
    case True
    then have "state b1 = OPEN" "openedAt b1 = clock w1" by (simp_all add: b1_def Let_def)
    with cool rest have "rs1 = replicate m (Inl (CircuitOpenError OPEN))" "b' = b1" "w' = w1"
      by (simp_all add: execute_all_in_cooldown)
    moreover have "failureThreshold opts - consecutiveFailures b = 1" using True Suc.prems(2) by simp
    ultimately show ?thesis using rs fn \<open>state b1 = OPEN\<close> by simp
  next
    case False
    then have b1: "state b1 = CLOSED" "consecutiveFailures b1 = Suc (consecutiveFailures b)"
      using Suc.prems(1) by (simp_all add: b1_def Let_def)
    have "failureThreshold opts - consecutiveFailures b
        = Suc (failureThreshold opts - consecutiveFailures b1)"
      using False b1 by simp
    with Suc.IH [OF b1(1) _ rest] b1 False rs fn show ?thesis by simp
  qed
qed

text \<open>
  Against a downstream that fails every call, a breaker with threshold \<open>n\<close> lets exactly the first
  \<open>n\<close> of \<open>m\<close> calls through: the world the downstream sees is that of \<open>min m n\<close> calls, every later
  call is rejected with \<open>CircuitOpenError OPEN\<close>, and the breaker is OPEN exactly when \<open>n \<le> m\<close>.
\<close>

lemma breaker_trips_at_threshold:
  assumes "\<And>v. \<exists>e. fst (fn v) = Inl e"
    and "0 < failureThreshold opts" and "0 < cooldownMs opts"
    and "execute_all opts (replicate m fn) (new_breaker, w) = (rs, b', w')"
  shows "w' = runs (min m (failureThreshold opts)) fn w
       \<and> drop (failureThreshold opts) rs =
           replicate (m - failureThreshold opts) (Inl (CircuitOpenError OPEN))
       \<and> (state b' = OPEN \<longleftrightarrow> failureThreshold opts \<le> m)"
  using execute_all_failing [OF assms(1) _ _ assms(3,4)] assms(2) by (simp add: new_breaker_def)

definition failing_call :: "(nat world, unit) action" where
  "failing_call w = (Inl (TransientDownstreamError ''down''), w\<lparr>comp := Suc (comp w)\<rparr>)"

lemma breaker_trips_at_threshold_witness:
  "comp (snd (snd (execute_all \<lparr>failureThreshold = 2, cooldownMs = 300\<rparr> (replicate 5 failing_call)
      (new_breaker, start_world 0)))) = 2"
proof -
  let ?o = "\<lparr>failureThreshold = 2, cooldownMs = 300\<rparr>"
  obtain rs b' w' where e: "execute_all ?o (replicate 5 failing_call) (new_breaker, start_world 0)
      = (rs, b', w')" by (metis prod_cases3)
  have "w' = runs (min 5 (failureThreshold ?o)) failing_call (start_world 0)"
    using breaker_trips_at_threshold [OF _ _ _ e] by (simp add: failing_call_def)
  with e show ?thesis by (simp add: numeral_2_eq_2 failing_call_def start_world_def)
qed

text \<open>
  A caller that awaits each call before the next only ever sees the transitions of the
  documented state diagram: CLOSED to OPEN, OPEN to HALF_OPEN, HALF_OPEN to CLOSED or OPEN.
\<close>

lemma sequential_transitions_documented:
  "c \<in> set (changes (fst (snd (execute_all opts fns (new_breaker, w))))) \<Longrightarrow> documented_edge c"
  using execute_all_edges [OF quiet_new, of opts fns w] by (auto simp: new_breaker_def)

lemma sequential_transitions_documented_witness:
  "documented_edge (CLOSED, OPEN, ThresholdReached 1)"
  by (rule sequential_transitions_documented
        [of _ "\<lparr>failureThreshold = 1, cooldownMs = 300\<rparr>" "[failing_call]" "start_world 0"])
     (simp add: execute_def enter_def failing_call_def new_breaker_def start_world_def Let_def)

text \<open>
  Once the cooldown is over, one awaited call decides: the operation runs, and the breaker ends
  CLOSED with its failure count cleared if it succeeds, OPEN with a fresh cooldown if it fails.
\<close>

lemma probe_decides:
  assumes "state b = OPEN" and "\<not> halfOpenProbeInFlight b"
    and "cooldownMs opts \<le> clock w - openedAt b"
    and "fn w = (r, w1)" and "execute opts fn (b, w) = (r', b', w')"
  shows "r' = r \<and> w' = w1 \<and> \<not> halfOpenProbeInFlight b'
       \<and> (case r of
            Inr _ \<Rightarrow> state b' = CLOSED \<and> consecutiveFailures b' = 0
          | Inl _ \<Rightarrow> state b' = OPEN \<and> openedAt b' = clock w1)"
  using assms by (auto simp: execute_def step_simps split: sum.splits)

lemma probe_decides_witness:
  "let b = new_breaker\<lparr>state := OPEN, consecutiveFailures := 5\<rparr>;
       fn = (\<lambda>w::nat world. (Inr (), w));
       w = sleep 400 (start_world 0)
   in state (fst (snd (execute \<lparr>failureThreshold = 5, cooldownMs = 300\<rparr> fn (b, w)))) = CLOSED"
proof -
  let ?b = "new_breaker\<lparr>state := OPEN, consecutiveFailures := 5\<rparr>"
  let ?o = "\<lparr>failureThreshold = 5, cooldownMs = 300\<rparr>"
  let ?fn = "\<lambda>w::nat world. (Inr (), w)"
  let ?w = "sleep 400 (start_world 0)"
  obtain r' b' w' where e: "execute ?o ?fn (?b, ?w) = (r', b', w')" by (metis prod_cases3)
  have "state b' = CLOSED"
    using probe_decides [OF _ _ _ _ e, of "Inr ()" ?w]
    by (simp add: new_breaker_def start_world_def)
  with e show ?thesis by (simp add: Let_def)
qed

end
