(* ===== verification/Breaker_Concurrency.thy ===== *)
theory Breaker_Concurrency
  imports Circuit_Breaker
begin

text \<open>
  Many callers share one breaker object: every call runs the synchronous part of \<open>execute\<close>
  (\<open>enter\<close>), is suspended at \<open>await fn()\<close>, and later runs the rest (\<open>settle_ok\<close> or
  \<open>settle_err\<close>). The single-threaded event loop makes each of these parts one atomic step, in any
  order the clock and the downstream produce.
\<close>

section \<open>The step relation\<close>

record shared_breaker =
  brk :: CircuitBreaker
  inflight :: "admission list"
  now :: rat

definition fresh_breaker :: shared_breaker where
  "fresh_breaker = \<lparr>brk = new_breaker, inflight = [], now = 0\<rparr>"

definition remove_nth :: "nat \<Rightarrow> 'a list \<Rightarrow> 'a list" where
  "remove_nth i xs = take i xs @ drop (Suc i) xs"

inductive breaker_step :: "CircuitBreakerOptions \<Rightarrow> shared_breaker \<Rightarrow> shared_breaker \<Rightarrow> bool"
  for opts where
  tick: "0 \<le> d \<Longrightarrow> breaker_step opts s (s\<lparr>now := now s + d\<rparr>)"
| reject: "enter opts (now s) (brk s) = (Rejected st, b) \<Longrightarrow> breaker_step opts s (s\<lparr>brk := b\<rparr>)"
| admit: "enter opts (now s) (brk s) = (adm, b) \<Longrightarrow> adm = AsProbe \<or> adm = AsClosed \<Longrightarrow>
    breaker_step opts s (s\<lparr>brk := b, inflight := adm # inflight s\<rparr>)"
| ok: "i < length (inflight s) \<Longrightarrow>
    breaker_step opts s (s\<lparr>brk := settle_ok (inflight s ! i) (brk s),
                          inflight := remove_nth i (inflight s)\<rparr>)"
| err: "i < length (inflight s) \<Longrightarrow>
    breaker_step opts s (s\<lparr>brk := settle_err opts (now s) (inflight s ! i) (brk s),
                          inflight := remove_nth i (inflight s)\<rparr>)"

inductive breaker_reach :: "CircuitBreakerOptions \<Rightarrow> shared_breaker \<Rightarrow> bool" for opts where
  start: "breaker_reach opts fresh_breaker"
| step: "breaker_reach opts s \<Longrightarrow> breaker_step opts s t \<Longrightarrow> breaker_reach opts t"

section \<open>At most one probe\<close>

abbreviation probes :: "shared_breaker \<Rightarrow> nat" where
  "probes s \<equiv> count_list (inflight s) AsProbe"

definition probe_inv :: "shared_breaker \<Rightarrow> bool" where
  "probe_inv s \<longleftrightarrow>
     probes s = (if halfOpenProbeInFlight (brk s) then 1 else 0)
   \<and> (state (brk s) = HALF_OPEN \<longrightarrow> halfOpenProbeInFlight (brk s))
   \<and> (\<forall>st. Rejected st \<notin> set (inflight s))"

lemma count_remove_nth:
  "i < length xs \<Longrightarrow> count_list (remove_nth i xs) x + (if xs ! i = x then 1 else 0) = count_list xs x"
proof -
  assume "i < length xs"
  then have "xs = take i xs @ xs ! i # drop (Suc i) xs" by (rule id_take_nth_drop)
  then have "count_list xs x = count_list (take i xs @ xs ! i # drop (Suc i) xs) x" by simp
  then show ?thesis by (simp add: remove_nth_def)
qed

lemma set_remove_nth: "set (remove_nth i xs) \<subseteq> set xs"
  using set_take_subset set_drop_subset by (fastforce simp: remove_nth_def)

lemma probe_inv_fresh [inv_intros]: "probe_inv fresh_breaker"
  by (simp add: probe_inv_def fresh_breaker_def new_breaker_def)

lemma probe_inv_enter:
  assumes "probe_inv s" and "enter opts n (brk s) = (adm, b)"
  shows "adm = AsProbe \<Longrightarrow> halfOpenProbeInFlight b \<and> \<not> halfOpenProbeInFlight (brk s)"
    and "adm = AsClosed \<Longrightarrow> halfOpenProbeInFlight b = halfOpenProbeInFlight (brk s) \<and> state b \<noteq> HALF_OPEN"
    and "adm = Rejected st \<Longrightarrow> halfOpenProbeInFlight b = halfOpenProbeInFlight (brk s)
           \<and> (state b = HALF_OPEN \<longrightarrow> halfOpenProbeInFlight b)"
  using assms by (auto simp: enter_def probe_inv_def Let_def split: if_splits)

lemma probe_inv_settle:
  assumes inv: "probe_inv s" and i: "i < length (inflight s)"
    and b: "b = settle_ok (inflight s ! i) (brk s) \<or> b = settle_err opts n (inflight s ! i) (brk s)"
  shows "probe_inv (s\<lparr>brk := b, inflight := remove_nth i (inflight s)\<rparr>)"
proof (cases "inflight s ! i")
  case (Rejected st)
  then show ?thesis using inv i nth_mem by (fastforce simp: probe_inv_def)
next
  case AsProbe
  with count_remove_nth [OF i, of AsProbe] inv b set_remove_nth [of i "inflight s"] show ?thesis
    by (auto simp: probe_inv_def split: if_splits)
next
  case AsClosed
  with count_remove_nth [OF i, of AsProbe] inv b set_remove_nth [of i "inflight s"] show ?thesis
    by (auto simp: probe_inv_def Let_def split: if_splits)
qed

lemma probe_inv_step [inv_intros]:
  assumes "breaker_step opts s t" and "probe_inv s"
  shows "probe_inv t"
  using assms
proof (cases rule: breaker_step.cases)
  case (admit adm b)
  with probe_inv_enter [OF assms(2) admit(2)] assms(2) show ?thesis
    by (auto simp: probe_inv_def)
next
  case (reject st b)
  with probe_inv_enter(3) [OF assms(2) reject(2)] assms(2) show ?thesis
    by (auto simp: probe_inv_def)
next
  case (ok i)
  show ?thesis unfolding ok(1) by (rule probe_inv_settle [OF assms(2) ok(2)]) simp
next
  case (err i)
  show ?thesis unfolding err(1)
    by (rule probe_inv_settle [OF assms(2) err(2), where n = "now s" and opts = opts]) simp
qed (use assms(2) in \<open>simp add: probe_inv_def\<close>)

lemma reach_probe_inv: "breaker_reach opts s \<Longrightarrow> probe_inv s"
  by (induction rule: breaker_reach.induct) (auto intro: inv_intros)

text \<open>
  C12: however the calls of concurrent callers interleave, at most one probe is in flight; the flag
  \<open>halfOpenProbeInFlight\<close> is set exactly while one is, and a HALF_OPEN breaker always has one (so it
  is never stuck waiting for a probe that nobody makes).
\<close>

theorem at_most_one_probe:
  assumes "breaker_reach opts s"
  shows "probes s \<le> 1
       \<and> (halfOpenProbeInFlight (brk s) \<longleftrightarrow> probes s = 1)
       \<and> (state (brk s) = HALF_OPEN \<longrightarrow> probes s = 1)"
  using reach_probe_inv [OF assms] by (auto simp: probe_inv_def split: if_splits)

lemma at_most_one_probe_witness: "probes fresh_breaker \<le> 1"
  using at_most_one_probe [OF breaker_reach.start] by blast

section \<open>Transitions under interleaving\<close>

definition possible_edge :: "CircuitState \<times> CircuitState \<times> change_reason \<Rightarrow> bool" where
  "possible_edge c \<longleftrightarrow> documented_edge c \<or> c = (OPEN, CLOSED, ProbeSucceeded)"

lemma edges_step:
  assumes "breaker_step opts s t" and "\<forall>c \<in> set (changes (brk s)). possible_edge c"
    and "probe_inv s"
  shows "\<forall>c \<in> set (changes (brk t)). possible_edge c"
  using assms(1)
proof (cases rule: breaker_step.cases)
  case (ok i)
  with assms(2) show ?thesis
    by (cases "inflight s ! i"; cases "state (brk s)")
       (auto simp: possible_edge_def documented_edge_def)
next
  case (err i)
  with assms(2) show ?thesis
    by (cases "inflight s ! i"; cases "state (brk s)")
       (auto simp: possible_edge_def documented_edge_def Let_def)
qed (use assms(2) in \<open>auto simp: enter_def Let_def possible_edge_def documented_edge_def
       split: if_splits\<close>)

lemma reach_edges: "breaker_reach opts s \<Longrightarrow> \<forall>c \<in> set (changes (brk s)). possible_edge c"
proof (induction rule: breaker_reach.induct)
  case start
  then show ?case by (simp add: fresh_breaker_def new_breaker_def)
next
  case (step s t)
  then show ?case using edges_step reach_probe_inv by blast
qed

text \<open>
  A run in which a call admitted while CLOSED fails after the probe has started: it sends the
  breaker back to OPEN, and the probe's late success then closes it from OPEN.
\<close>

definition one_failure :: CircuitBreakerOptions where
  "one_failure = \<lparr>failureThreshold = 1, cooldownMs = 10\<rparr>"

definition stale_close :: shared_breaker where
  "stale_close =
     \<lparr>brk = \<lparr>state = CLOSED, consecutiveFailures = 0, openedAt = 10, halfOpenProbeInFlight = False,
        changes = [(CLOSED, OPEN, ThresholdReached 1), (OPEN, HALF_OPEN, CooldownElapsed),
                   (HALF_OPEN, OPEN, ThresholdReached 2), (OPEN, CLOSED, ProbeSucceeded)]\<rparr>,
      inflight = [], now = 10\<rparr>"

lemma stale_close_reachable: "breaker_reach one_failure stale_close"
proof -
  let ?o = one_failure
  define s1 where "s1 = fresh_breaker\<lparr>inflight := [AsClosed]\<rparr>"
  define s2 where "s2 = s1\<lparr>inflight := [AsClosed, AsClosed]\<rparr>"
  define s3 where "s3 = s2\<lparr>brk := settle_err ?o 0 AsClosed (brk s2), inflight := [AsClosed]\<rparr>"
  define s4 where "s4 = s3\<lparr>now := 10\<rparr>"
  define s5 where "s5 = s4\<lparr>brk := snd (enter ?o 10 (brk s4)), inflight := [AsProbe, AsClosed]\<rparr>"
  define s6 where "s6 = s5\<lparr>brk := settle_err ?o 10 AsClosed (brk s5), inflight := [AsProbe]\<rparr>"
  define s7 where "s7 = s6\<lparr>brk := settle_ok AsProbe (brk s6), inflight := []\<rparr>"
  note defs = s7_def s6_def s5_def s4_def s3_def s2_def s1_def
    fresh_breaker_def new_breaker_def one_failure_def enter_def transition_def Let_def remove_nth_def
  have r1: "breaker_reach ?o s1"
    by (rule breaker_reach.step [OF breaker_reach.start])
       (use breaker_step.admit [of ?o fresh_breaker AsClosed new_breaker] in \<open>simp add: defs\<close>)
  have r2: "breaker_reach ?o s2"
    by (rule breaker_reach.step [OF r1])
       (use breaker_step.admit [of ?o s1 AsClosed new_breaker] in \<open>simp add: defs\<close>)
  have r3: "breaker_reach ?o s3"
    by (rule breaker_reach.step [OF r2])
       (use breaker_step.err [of 0 s2 ?o] in \<open>simp add: defs\<close>)
  have r4: "breaker_reach ?o s4"
    by (rule breaker_reach.step [OF r3])
       (use breaker_step.tick [of 10 ?o s3] in \<open>simp add: defs\<close>)
  have r5: "breaker_reach ?o s5"
    by (rule breaker_reach.step [OF r4])
       (use breaker_step.admit [of ?o s4 AsProbe "snd (enter ?o 10 (brk s4))"] in \<open>simp add: defs\<close>)
  have r6: "breaker_reach ?o s6"
    by (rule breaker_reach.step [OF r5])
       (use breaker_step.err [of 1 s5 ?o] in \<open>simp add: defs\<close>)
  have r7: "breaker_reach ?o s7"
    by (rule breaker_reach.step [OF r6])
       (use breaker_step.ok [of 0 s6 ?o] in \<open>simp add: defs\<close>)
  have "s7 = stale_close" by (simp add: defs stale_close_def)
  with r7 show ?thesis by simp
qed

text \<open>
  With concurrent callers the breaker makes the four documented transitions and exactly one
  more, OPEN to CLOSED, when a probe succeeds after a call admitted earlier has failed; that edge
  does occur, and it skips the cooldown the failure had just started.
\<close>

lemma concurrent_transitions:
  "(breaker_reach opts s \<longrightarrow> (\<forall>c \<in> set (changes (brk s)). possible_edge c))
   \<and> (\<exists>t. breaker_reach one_failure t \<and> state (brk t) = CLOSED
        \<and> (OPEN, CLOSED, ProbeSucceeded) \<in> set (changes (brk t))
        \<and> now t - openedAt (brk t) < cooldownMs one_failure)"
proof (intro conjI impI)
  show "breaker_reach opts s \<Longrightarrow> \<forall>c \<in> set (changes (brk s)). possible_edge c"
    by (rule reach_edges)
  show "\<exists>t. breaker_reach one_failure t \<and> state (brk t) = CLOSED
        \<and> (OPEN, CLOSED, ProbeSucceeded) \<in> set (changes (brk t))
        \<and> now t - openedAt (brk t) < cooldownMs one_failure"
    by (rule exI [of _ stale_close])
       (use stale_close_reachable in \<open>simp add: stale_close_def one_failure_def\<close>)
qed

lemma concurrent_transitions_witness:
  "possible_edge (OPEN, CLOSED, ProbeSucceeded)"
  using concurrent_transitions [of one_failure stale_close] stale_close_reachable
  by (auto simp: stale_close_def)

end
