(* ===== verification/Resilience.thy ===== *)
theory Resilience
  imports Downstream Breaker_Concurrency
begin

text \<open>
  Lab 37's scenarios: the resilience primitives composed around one unreliable downstream, in the
  order \<open>scenarios/composed.ts\<close> argues for (breaker outermost, retries inside it, a timeout inside
  each attempt), and the double charge of \<open>scenarios/idempotency-double-effect.ts\<close>. Console output
  and log lines are not modelled.
\<close>

type_synonym dworld = "UnreliableDownstream world"

section \<open>Downstream tasks in a world\<close>

lemma call_settles:
  "\<exists>c d g. call t label x = (c, After d (\<lambda>c. (g c, c))) \<and> totalCallCount c = Suc (totalCallCount x)
     \<and> opts c = opts x"
proof -
  let ?y = "log_call t label None x"
  have s: "\<exists>c d g. settle_after kind f z = (c, After d (\<lambda>c. (g c, c))) \<and> callLog c = callLog z
      \<and> opts c = opts z" for kind f z
    by (auto simp: settle_after_def case_prod_beta)
  have "\<exists>c d g. settleGeneric label ?y = (c, After d (\<lambda>c. (g c, c))) \<and> callLog c = callLog ?y
      \<and> opts c = opts ?y"
    using s by (fastforce simp: settleGeneric_def Let_def case_prod_beta split: DownstreamHealth.splits)
  then show ?thesis by (auto simp: call_def totalCallCount_def)
qed

definition bounded_call :: "rat \<Rightarrow> string \<Rightarrow> nat \<Rightarrow> (dworld, rat) action" where
  "bounded_call timeoutMs label attempt w = withTimeout (call (clock w) label) timeoutMs w"

lemma bounded_call_counts:
  assumes "inert w"
  shows "inert (snd (bounded_call ms label a w))"
    and "totalCallCount (comp (snd (bounded_call ms label a w))) = Suc (totalCallCount (comp w))"
    and "opts (comp (snd (bounded_call ms label a w))) = opts (comp w)"
proof -
  obtain c d g where c: "call (clock w) label (comp w) = (c, After d (\<lambda>c. (g c, c)))"
    and n: "totalCallCount c = Suc (totalCallCount (comp w))" "opts c = opts (comp w)"
    using call_settles by blast
  from withTimeout_inert [where fn = "call (clock w) label", OF assms c] n show "inert (snd (bounded_call ms label a w))"
    "totalCallCount (comp (snd (bounded_call ms label a w))) = Suc (totalCallCount (comp w))"
    "opts (comp (snd (bounded_call ms label a w))) = opts (comp w)"
    by (auto simp: bounded_call_def)
qed

section \<open>The composed call\<close>

text \<open>\<open>Math.random\<close> is not the program's: it is an argument, a generator on the world.\<close>

definition composed_opts :: "(dworld \<Rightarrow> rat \<times> dworld) \<Rightarrow> UnreliableDownstream RetryOptions" where
  "composed_opts rand =
     \<lparr>maxAttempts = 3, baseDelayMs = 50, maxDelayMs = 500,
      isRetryable = (\<lambda>err. case err of TransientDownstreamError _ \<Rightarrow> True | TimeoutError _ \<Rightarrow> True
                                      | _ \<Rightarrow> False),
      random = rand\<rparr>"

definition composed_breaker :: CircuitBreakerOptions where
  "composed_breaker = \<lparr>failureThreshold = 4, cooldownMs = 300\<rparr>"

definition makeCall ::
  "(dworld \<Rightarrow> rat \<times> dworld) \<Rightarrow> string \<Rightarrow> (CircuitBreaker \<times> dworld, rat) action" where
  "makeCall rand label =
     execute composed_breaker (retry_action (bounded_call 150 label) (composed_opts rand))"

text \<open>What the code relies on of \<open>Math.random\<close>: it touches no timer and no downstream state.\<close>

definition pure_random :: "('c world \<Rightarrow> rat \<times> 'c world) \<Rightarrow> bool" where
  "pure_random rand \<longleftrightarrow> (\<forall>w. snd (rand w) = w \<and> 0 \<le> fst (rand w) \<and> fst (rand w) < 1)"

lemma retry_calls:
  assumes "inert w" and "pure_random rand"
    and "retryWithBackoff (bounded_call 150 label) (composed_opts rand) w = (rlog, r, w')"
  shows "inert w' \<and> totalCallCount (comp w') = totalCallCount (comp w) + Suc (length rlog)
       \<and> length rlog \<le> 2"
proof -
  have rt: "retry_from (composed_opts rand) (bounded_call 150 label) 1 (OtherError ''undefined'') w
      = (rlog, r, w')" using assms(3) by (simp add: retryWithBackoff_def)
  have "inert w' \<and> totalCallCount (comp w') = totalCallCount (comp w) + Suc (length rlog)"
    by (rule retry_from_count [OF _ rt, where P = inert and m = "\<lambda>w. totalCallCount (comp w)"])
       (use assms in \<open>auto simp: composed_opts_def pure_random_def bounded_call_counts step_simps
          intro: inv_intros\<close>)
  moreover have "length rlog \<le> 2"
    using retry_from_log [OF _ rt] by (simp add: composed_opts_def)
  ultimately show ?thesis by simp
qed

text \<open>
  C14: one \<open>makeCall\<close> reaches the downstream at most three times, and not at all while the breaker is
  OPEN inside its cooldown; a call that is let through reaches it at least once.
\<close>

theorem makeCall_bounds_downstream_calls:
  assumes "inert w" and "pure_random rand"
    and "makeCall rand label (b, w) = (r, b', w')"
  shows "totalCallCount (comp w') \<le> totalCallCount (comp w) + 3
       \<and> (state b = OPEN \<and> clock w - openedAt b < 300 \<longrightarrow>
            w' = w \<and> b' = b \<and> r = Inl (CircuitOpenError OPEN))
       \<and> (state b = CLOSED \<longrightarrow> totalCallCount (comp w) < totalCallCount (comp w'))"
proof (cases "\<exists>s. fst (enter composed_breaker (clock w) b) = Rejected s")
  case True
  then obtain s b1 where "enter composed_breaker (clock w) b = (Rejected s, b1)" by (metis prod.collapse)
  with assms(3) have "w' = w" "state b \<noteq> CLOSED" "r = Inl (CircuitOpenError s)" "b' = b1"
    "state b = OPEN \<and> clock w - openedAt b < 300 \<longrightarrow> s = OPEN \<and> b1 = b"
    by (auto simp: makeCall_def execute_def enter_def composed_breaker_def split: if_splits)
  then show ?thesis by simp
next
  case False
  obtain rlog r1 w1 where rt: "retryWithBackoff (bounded_call 150 label) (composed_opts rand) w
      = (rlog, r1, w1)" by (metis prod_cases3)
  have "w' = w1" using assms(3) False rt
    by (auto simp: makeCall_def execute_def retry_action_def split: prod.splits admission.splits sum.splits)
  moreover have "\<not> (state b = OPEN \<and> clock w - openedAt b < 300)"
    using False by (auto simp: enter_def composed_breaker_def)
  ultimately show ?thesis using retry_calls [OF assms(1,2) rt] by auto
qed

lemma makeCall_bounds_downstream_calls_witness:
  "totalCallCount (comp (snd (snd (makeCall (\<lambda>w. (0, w)) ''order-1''
      (new_breaker, start_world (new_downstream (simple_options 99 DownFailFast))))))) \<le> 3"
proof -
  let ?w = "start_world (new_downstream (simple_options 99 DownFailFast))"
  obtain r b' w' where e: "makeCall (\<lambda>w. (0, w)) ''order-1'' (new_breaker, ?w) = (r, b', w')"
    by (metis prod_cases3)
  from makeCall_bounds_downstream_calls [OF inert_start _ e]
  have "totalCallCount (comp w') \<le> totalCallCount (comp ?w) + 3" by (simp add: pure_random_def)
  with e show ?thesis by (simp add: totalCallCount_def new_downstream_def start_world_def)
qed

section \<open>The double charge and its fix\<close>

definition CLIENT_TIMEOUT_MS :: rat where "CLIENT_TIMEOUT_MS = 150"
definition AMOUNT_CENTS :: int where "AMOUNT_CENTS = 1000"

text \<open>Both clients time out on the first attempt and retry with a long timeout.\<close>

definition charge_twice :: "string option \<Rightarrow> int \<Rightarrow> (js_error + ChargeResult) \<times> (js_error + ChargeResult) \<times> dworld" where
  "charge_twice key sd =
     (let w = start_world (new_downstream (simple_options sd Healthy));
          (r1, w1) = withTimeout (charge (clock w) AMOUNT_CENTS key) CLIENT_TIMEOUT_MS w;
          (r2, w2) = withTimeout (charge (clock w1) AMOUNT_CENTS key) 2000 w1
      in (r1, r2, w2))"

definition naiveDoubleCharge :: "int \<Rightarrow> (js_error + ChargeResult) \<times> (js_error + ChargeResult) \<times> dworld" where
  "naiveDoubleCharge sd = charge_twice None sd"

definition fixedWithIdempotencyKey ::
  "string \<Rightarrow> int \<Rightarrow> (js_error + ChargeResult) \<times> (js_error + ChargeResult) \<times> dworld" where
  "fixedWithIdempotencyKey uuid sd = charge_twice (Some uuid) sd"

lemma charge_settles:
  assumes "charge_sync t amount key x = (res, lat, c)"
  shows "charge t amount key x = (c, After lat (\<lambda>c. (Inr res, c)))"
  using assms by (simp add: charge_def)

lemma charge_sync_first:
  assumes "charge_sync t amount key x = (res, lat, c)" and "slowLatencyRangeMs (opts x) = None"
    and "\<not> (truthy key \<and> appliedCharges x (the key) \<noteq> None)"
  shows "400 \<le> lat \<and> lat \<le> 900 \<and> chargeCounter c = Suc (chargeCounter x)
       \<and> ledgerTotalCents c = ledgerTotalCents x + amount \<and> opts c = opts x
       \<and> (truthy key \<longrightarrow> appliedCharges c (the key) = Some res)"
proof -
  let ?y = "snd (apply_charge amount key (log_call t ''charge'' key x))"
  have y: "opts ?y = opts x" by (simp add: apply_charge_def Let_def)
  have eq: "(lat, c) = pickLatency Slow ?y" "res = fst (apply_charge amount key (log_call t ''charge'' key x))"
    using assms(1,3) by (auto simp: charge_sync_def Let_def case_prod_beta split: option.splits if_splits)
  have "400 \<le> fst (pickLatency Slow ?y) \<and> fst (pickLatency Slow ?y) \<le> 900"
    by (rule pickLatency_range) (simp_all add: latency_range_def default_def y assms(2))
  moreover have "c = snd (pickLatency Slow ?y)" "lat = fst (pickLatency Slow ?y)"
    using eq(1) by (metis snd_conv, metis fst_conv)
  ultimately show ?thesis using y eq(2) by (auto simp: apply_charge_def Let_def)
qed

lemma charge_sync_repeat:
  assumes "charge_sync t amount key x = (res, lat, c)" and "fastLatencyRangeMs (opts x) = None"
    and "truthy key" and "appliedCharges x (the key) = Some r"
  shows "res = r \<and> lat \<le> 30 \<and> chargeCounter c = chargeCounter x
       \<and> ledgerTotalCents c = ledgerTotalCents x"
proof -
  let ?y = "log_call t ''charge'' key x"
  have "5 \<le> fst (pickLatency Fast ?y) \<and> fst (pickLatency Fast ?y) \<le> 30"
    by (rule pickLatency_range) (simp_all add: latency_range_def default_def assms(2))
  moreover have "(lat, c) = pickLatency Fast ?y" "res = r"
    using assms(1,3,4) by (auto simp: charge_sync_def Let_def)
  then have "c = snd (pickLatency Fast ?y)" "lat = fst (pickLatency Fast ?y)" "res = r"
    by (metis snd_conv, metis fst_conv, simp)
  ultimately show ?thesis by simp
qed

text \<open>
  The charge commits before the response, so the client's own timeout makes the naive retry
  charge twice, whatever the seed: two charges and double the amount. With one key reused, the
  retry returns the first charge's result and the ledger holds the amount once.
\<close>

lemma double_charge_and_fix:
  assumes "naiveDoubleCharge sd = (r1, r2, w)" and "uuid \<noteq> ''''"
    and "fixedWithIdempotencyKey uuid sd = (q1, q2, v)"
  shows "r1 = Inl (TimeoutError 150) \<and> ledgerTotalCents (comp w) = 2 * AMOUNT_CENTS
       \<and> chargeCounter (comp w) = 2
       \<and> q1 = Inl (TimeoutError 150) \<and> ledgerTotalCents (comp v) = AMOUNT_CENTS
       \<and> chargeCounter (comp v) = 1
       \<and> (\<exists>c. q2 = Inr c \<and> appliedCharges (comp v) uuid = Some c)"
proof -
  let ?d0 = "new_downstream (simple_options sd Healthy)"
  let ?w0 = "start_world ?d0"
  have new: "slowLatencyRangeMs (opts ?d0) = None" "fastLatencyRangeMs (opts ?d0) = None"
    "chargeCounter ?d0 = 0" "ledgerTotalCents ?d0 = 0" "appliedCharges ?d0 = Map.empty"
    by (simp_all add: new_downstream_def simple_options_def)
  have first: "\<exists>res lat c w1. charge_sync 0 AMOUNT_CENTS key ?d0 = (res, lat, c)
      \<and> withTimeout (charge 0 AMOUNT_CENTS key) CLIENT_TIMEOUT_MS ?w0 = (Inl (TimeoutError 150), w1)
      \<and> comp w1 = c \<and> inert w1 \<and> opts c = opts ?d0 \<and> chargeCounter c = 1
      \<and> ledgerTotalCents c = AMOUNT_CENTS \<and> (truthy key \<longrightarrow> appliedCharges c (the key) = Some res)" for key
  proof -
    obtain res lat c where cs: "charge_sync 0 AMOUNT_CENTS key ?d0 = (res, lat, c)" by (metis prod_cases3)
    have f: "400 \<le> lat" "chargeCounter c = 1" "ledgerTotalCents c = AMOUNT_CENTS" "opts c = opts ?d0"
      "truthy key \<longrightarrow> appliedCharges c (the key) = Some res"
      using charge_sync_first [OF cs new(1)] new by auto
    have ch: "charge 0 AMOUNT_CENTS key (comp ?w0) = (c, After lat (\<lambda>c. (Inr res, c)))"
      using charge_settles [OF cs] by (simp add: start_world_def)
    obtain r1 w1 where wt: "withTimeout (charge 0 AMOUNT_CENTS key) CLIENT_TIMEOUT_MS ?w0 = (r1, w1)"
      by fastforce
    have "r1 = Inl (TimeoutError 150)"
      using withTimeout_slow [where fn = "charge 0 AMOUNT_CENTS key", OF ch, of CLIENT_TIMEOUT_MS] f(1) wt by (simp add: CLIENT_TIMEOUT_MS_def)
    moreover have "inert w1" "comp w1 = c"
      using withTimeout_inert [where fn = "charge 0 AMOUNT_CENTS key", OF inert_start ch, of CLIENT_TIMEOUT_MS] wt by simp_all
    ultimately show ?thesis using cs wt f by blast
  qed
  have clk: "clock ?w0 = 0" by (simp add: start_world_def)
  show ?thesis
  proof (intro conjI)
    obtain res lat c w1 where c: "withTimeout (charge 0 AMOUNT_CENTS None) CLIENT_TIMEOUT_MS ?w0
        = (Inl (TimeoutError 150), w1)" "comp w1 = c" "inert w1" "opts c = opts ?d0"
        "chargeCounter c = 1" "ledgerTotalCents c = AMOUNT_CENTS" using first [of None] by blast
    obtain res2 lat2 c2 where cs: "charge_sync (clock w1) AMOUNT_CENTS None c = (res2, lat2, c2)"
      by (metis prod_cases3)
    have g: "chargeCounter c2 = 2" "ledgerTotalCents c2 = 2 * AMOUNT_CENTS"
      using charge_sync_first [OF cs] c new by (auto simp: truthy_def)
    have ch: "charge (clock w1) AMOUNT_CENTS None (comp w1) = (c2, After lat2 (\<lambda>c. (Inr res2, c)))"
      using charge_settles [OF cs] c by simp
    have n: "r1 = Inl (TimeoutError 150)" "w = snd (withTimeout (charge (clock w1) AMOUNT_CENTS None) 2000 w1)"
      using assms(1) c(1) clk by (auto simp: naiveDoubleCharge_def charge_twice_def Let_def split: prod.splits)
    with withTimeout_inert [where fn = "charge (clock w1) AMOUNT_CENTS None", OF c(3) ch, of 2000] g
    show "r1 = Inl (TimeoutError 150)" "ledgerTotalCents (comp w) = 2 * AMOUNT_CENTS"
      "chargeCounter (comp w) = 2" by simp_all
  next
    have key: "truthy (Some uuid)" using assms(2) by (simp add: truthy_def)
    obtain res lat c w1 where c: "withTimeout (charge 0 AMOUNT_CENTS (Some uuid)) CLIENT_TIMEOUT_MS ?w0
        = (Inl (TimeoutError 150), w1)" "comp w1 = c" "inert w1" "opts c = opts ?d0"
        "chargeCounter c = 1" "ledgerTotalCents c = AMOUNT_CENTS" "appliedCharges c uuid = Some res"
      using first [of "Some uuid"] key by auto
    obtain res2 lat2 c2 where cs: "charge_sync (clock w1) AMOUNT_CENTS (Some uuid) c = (res2, lat2, c2)"
      by (metis prod_cases3)
    have g: "res2 = res" "lat2 \<le> 30" "chargeCounter c2 = 1" "ledgerTotalCents c2 = AMOUNT_CENTS"
      using charge_sync_repeat [OF cs _ key, of res] c new by auto
    have app: "appliedCharges c2 uuid = Some res"
      using charges.deliver_recorded(1) [of uuid "(clock w1, AMOUNT_CENTS)" c res2 c2] cs assms(2) g
      by (simp add: charge_by_key_def)
    have ch: "charge (clock w1) AMOUNT_CENTS (Some uuid) (comp w1) = (c2, After lat2 (\<lambda>c. (Inr res2, c)))"
      using charge_settles [OF cs] c by simp
    have n: "q1 = Inl (TimeoutError 150)"
      "(q2, v) = withTimeout (charge (clock w1) AMOUNT_CENTS (Some uuid)) 2000 w1"
      using assms(3) c(1) clk
      by (auto simp: fixedWithIdempotencyKey_def charge_twice_def Let_def split: prod.splits)
    have q2: "q2 = Inr res"
      using n(2) ch g by (simp add: withTimeout_def Let_def)
    from n withTimeout_inert [where fn = "charge (clock w1) AMOUNT_CENTS (Some uuid)", OF c(3) ch, of 2000]
      g app q2
    show "q1 = Inl (TimeoutError 150)" "ledgerTotalCents (comp v) = AMOUNT_CENTS"
      "chargeCounter (comp v) = 1" "\<exists>c. q2 = Inr c \<and> appliedCharges (comp v) uuid = Some c"
      by (metis, metis snd_conv, metis snd_conv, metis snd_conv)
  qed
qed

lemma double_charge_and_fix_witness:
  "ledgerTotalCents (comp (snd (snd (naiveDoubleCharge 42)))) = 2000"
proof -
  obtain r1 r2 w where n: "naiveDoubleCharge 42 = (r1, r2, w)" by (metis prod_cases3)
  obtain q1 q2 v where f: "fixedWithIdempotencyKey ''key'' 42 = (q1, q2, v)" by (metis prod_cases3)
  from double_charge_and_fix [OF n _ f] n show ?thesis by (simp add: AMOUNT_CENTS_def)
qed

end
