(* ===== verification/Rate_Limit.thy ===== *)
theory Rate_Limit
  imports Prelude
begin

text \<open>
  The two Redis rate limiters of \<open>labs/36-*/src/rate-limit\<close> (the token bucket is copied into Lab 40).
  Each Lua script is one atomic function on the value stored under the client's key; the key's
  expiry is part of that value. Times are milliseconds: \<open>server\<close> is Redis's clock, by which keys expire, \<open>now\<close> the
  time the caller passes.
\<close>

section \<open>The contract of a limiter for simultaneous requests\<close>

text \<open>
  \<open>allowance t s\<close> is how many more requests the limiter admits at time \<open>t\<close>; a request is admitted
  exactly when it is positive and then uses up one. \<open>ok q s\<close> says that the request's own token (the
  sorted-set member of the sliding window) is new.
\<close>

fun burst :: "('q \<Rightarrow> 't \<Rightarrow> 's \<Rightarrow> bool \<times> 's) \<Rightarrow> 'q list \<Rightarrow> 't \<Rightarrow> 's \<Rightarrow> bool list \<times> 's" where
  "burst check [] t s = ([], s)"
| "burst check (q # qs) t s =
     (let (a, s1) = check q t s; (as, s2) = burst check qs t s1 in (a # as, s2))"

locale rate_limiter =
  fixes check :: "'q \<Rightarrow> 't \<Rightarrow> 's \<Rightarrow> bool \<times> 's"
    and allowance :: "'t \<Rightarrow> 's \<Rightarrow> nat"
    and ok :: "'q \<Rightarrow> 's \<Rightarrow> bool"
  assumes admits: "ok q s \<Longrightarrow> check q t s = (a, s') \<Longrightarrow> a \<longleftrightarrow> 0 < allowance t s"
    and uses: "ok q s \<Longrightarrow> check q t s = (a, s') \<Longrightarrow>
      allowance t s' = allowance t s - (if a then 1 else 0)"
begin

fun all_ok :: "'q list \<Rightarrow> 't \<Rightarrow> 's \<Rightarrow> bool" where
  "all_ok [] t s = True"
| "all_ok (q # qs) t s = (ok q s \<and> all_ok qs t (snd (check q t s)))"

lemma burst_exact:
  "all_ok qs t s \<Longrightarrow>
   fst (burst check qs t s) = replicate (min (length qs) (allowance t s)) True
                        @ replicate (length qs - allowance t s) False"
proof (induction qs arbitrary: s)
  case Nil
  then show ?case by simp
next
  case (Cons q qs)
  obtain a s1 where c: "check q t s = (a, s1)" by fastforce
  have q: "ok q s" "all_ok qs t s1" using Cons.prems c by simp_all
  have a: "a \<longleftrightarrow> 0 < allowance t s" by (rule admits [OF q(1) c])
  have u: "allowance t s1 = allowance t s - (if a then 1 else 0)" by (rule uses [OF q(1) c])
  have "fst (burst check (q # qs) t s) = a # fst (burst check qs t s1)"
    using c by (simp add: case_prod_beta)
  also have "\<dots> = a # replicate (min (length qs) (allowance t s1)) True
                        @ replicate (length qs - allowance t s1) False"
    using Cons.IH [OF q(2)] by simp
  also have "\<dots> = replicate (min (length (q # qs)) (allowance t s)) True
                        @ replicate (length (q # qs) - allowance t s) False"
    using a u by (cases "allowance t s") (auto simp: min_def)
  finally show ?case .
qed

lemma burst_count:
  "all_ok qs t s \<Longrightarrow> length (filter id (fst (burst check qs t s))) = min (length qs) (allowance t s)"
  by (simp add: burst_exact)

end

section \<open>Token bucket\<close>

text \<open>
  The hash \<open>{tokens, last_refill_ms}\<close> of one client, absent before the first request and after it
  expires. Numbers are exact: the 14-digit rendering of \<open>tostring\<close> is not modelled.
\<close>

record TokenBucketConfig =
  capacity :: rat
  refillPerSecond :: rat
  cost :: "rat option"

type_synonym bucket = "(rat \<times> rat) option"

definition refilled :: "rat \<Rightarrow> rat \<Rightarrow> rat \<Rightarrow> bucket \<Rightarrow> rat" where
  "refilled cap refill_per_second now_ms data =
     (let (tokens, last_refill_ms) = (case data of None \<Rightarrow> (cap, now_ms) | Some d \<Rightarrow> d);
          elapsed_seconds = max 0 ((now_ms - last_refill_ms) / 1000)
      in min cap (tokens + elapsed_seconds * refill_per_second))"

text \<open>
  The stored key with the server time at which it expires; \<open>EXPIRE\<close> renews it on every call.
\<close>

type_synonym keyed_bucket = "(rat \<times> (rat \<times> rat)) option"

definition live_bucket :: "rat \<Rightarrow> keyed_bucket \<Rightarrow> bucket" where
  "live_bucket server k = (case k of None \<Rightarrow> None | Some (expires, d) \<Rightarrow> if expires \<le> server then None else Some d)"

definition token_bucket_script ::
  "rat \<Rightarrow> rat \<Rightarrow> rat \<Rightarrow> rat \<Rightarrow> int \<Rightarrow> rat \<Rightarrow> keyed_bucket \<Rightarrow> (bool \<times> rat) \<times> keyed_bucket" where
  "token_bucket_script cap refill_per_second now_ms c ttl_seconds server k =
     (let tokens = refilled cap refill_per_second now_ms (live_bucket server k);
          allowed = c \<le> tokens;
          tokens1 = (if allowed then tokens - c else tokens)
      in ((allowed, tokens1), Some (server + 1000 * of_int ttl_seconds, (tokens1, now_ms))))"

definition ttlSeconds :: "TokenBucketConfig \<Rightarrow> int" where
  "ttlSeconds cfg = max 60 \<lceil>capacity cfg / refillPerSecond cfg * 4\<rceil>"

definition request_cost :: "TokenBucketConfig \<Rightarrow> rat" where
  "request_cost cfg = (case cost cfg of None \<Rightarrow> 1 | Some c \<Rightarrow> c)"

definition token_bucket_check ::
  "TokenBucketConfig \<Rightarrow> rat \<Rightarrow> rat \<Rightarrow> keyed_bucket \<Rightarrow> (bool \<times> rat) \<times> keyed_bucket" where
  "token_bucket_check cfg server now k =
     token_bucket_script (capacity cfg) (refillPerSecond cfg) now (request_cost cfg) (ttlSeconds cfg) server k"

subsection \<open>Bounds and bursts\<close>

definition bucket_ok :: "rat \<Rightarrow> bucket \<Rightarrow> bool" where
  "bucket_ok cap data \<longleftrightarrow> (case data of None \<Rightarrow> True | Some (tokens, _) \<Rightarrow> 0 \<le> tokens \<and> tokens \<le> cap)"

lemma refilled_bounds:
  assumes "bucket_ok cap data" and "0 \<le> cap" and "0 \<le> rate"
  shows "0 \<le> refilled cap rate now data \<and> refilled cap rate now data \<le> cap"
proof -
  have "0 \<le> max 0 (x / 1000) * rate" for x :: rat using assms(3) by simp
  then show ?thesis using assms
    by (auto simp: refilled_def bucket_ok_def Let_def split: option.splits)
qed

lemma token_bucket_ok [inv_intros]:
  assumes "bucket_ok cap (live_bucket server k)" and "0 \<le> cap" and "0 \<le> rate" and "0 \<le> c"
    and "token_bucket_script cap rate now c ttl server k = (d, k')"
  shows "bucket_ok cap (live_bucket server' k')"
  using refilled_bounds [OF assms(1-3), of now] assms(4,5)
  by (auto simp: token_bucket_script_def Let_def bucket_ok_def live_bucket_def split: if_splits)

lemma refilled_same_time: "t \<le> cap \<Longrightarrow> refilled cap rate now (Some (t, now)) = t"
  by (simp add: refilled_def)

lemma ttlSeconds_positive: "0 < ttlSeconds cfg"
  by (simp add: ttlSeconds_def)

text \<open>Whether a request at server time and caller's time \<open>(server, now)\<close> is admitted.\<close>

definition bucket_check :: "TokenBucketConfig \<Rightarrow> unit \<Rightarrow> rat \<times> rat \<Rightarrow> keyed_bucket \<Rightarrow> bool \<times> keyed_bucket" where
  "bucket_check cfg _ t k = (let ((a, _), k') = token_bucket_check cfg (fst t) (snd t) k in (a, k'))"

lemma bucket_check_eq:
  "bucket_check cfg u (server, now) k =
     (let r = refilled (capacity cfg) (refillPerSecond cfg) now (live_bucket server k); c = request_cost cfg
      in (c \<le> r, Some (server + 1000 * of_int (ttlSeconds cfg), (if c \<le> r then r - c else r, now))))"
  by (simp add: bucket_check_def token_bucket_check_def token_bucket_script_def Let_def)

interpretation tb: rate_limiter "bucket_check cfg"
  "\<lambda>(server, now) k. nat \<lfloor>refilled (capacity cfg) (refillPerSecond cfg) now (live_bucket server k) / request_cost cfg\<rfloor>"
  "\<lambda>_ _. 0 < request_cost cfg"
proof unfold_locales
  fix q :: unit and k :: keyed_bucket and t :: "rat \<times> rat" and a k'
  obtain server now where t: "t = (server, now)" by fastforce
  let ?r = "refilled (capacity cfg) (refillPerSecond cfg) now (live_bucket server k)" and ?c = "request_cost cfg"
  assume pos: "0 < ?c" and chk: "bucket_check cfg q t k = (a, k')"
  have a: "a \<longleftrightarrow> ?c \<le> ?r" and k': "k' = Some (server + 1000 * of_int (ttlSeconds cfg), (if ?c \<le> ?r then ?r - ?c else ?r, now))"
    using chk by (auto simp: t bucket_check_eq Let_def)
  have one: "?c \<le> ?r \<longleftrightarrow> 1 \<le> ?r / ?c" using pos by (simp add: pos_le_divide_eq)
  show "a \<longleftrightarrow> 0 < (case t of (server, now) \<Rightarrow> \<lambda>k. nat \<lfloor>refilled (capacity cfg) (refillPerSecond cfg) now (live_bucket server k) / ?c\<rfloor>) k"
    unfolding t a one by simp
  have le: "?r \<le> capacity cfg" by (auto simp: refilled_def Let_def split: option.splits)
  have "live_bucket server k' = Some (if ?c \<le> ?r then ?r - ?c else ?r, now)"
    using ttlSeconds_positive [of cfg] by (simp add: k' live_bucket_def)
  then have "refilled (capacity cfg) (refillPerSecond cfg) now (live_bucket server k') = (if ?c \<le> ?r then ?r - ?c else ?r)"
    using le pos by (simp add: refilled_same_time)
  moreover have "(?r - ?c) / ?c = ?r / ?c - 1" using pos by (simp add: diff_divide_distrib)
  ultimately show "(case t of (server, now) \<Rightarrow> \<lambda>k. nat \<lfloor>refilled (capacity cfg) (refillPerSecond cfg) now (live_bucket server k) / ?c\<rfloor>) k'
      = (case t of (server, now) \<Rightarrow> \<lambda>k. nat \<lfloor>refilled (capacity cfg) (refillPerSecond cfg) now (live_bucket server k) / ?c\<rfloor>) k - (if a then 1 else 0)"
    using a one by (auto simp: t nat_diff_distrib')
qed

subsection \<open>Expiry is not observable\<close>

text \<open>
  Once a bucket's time to live has passed by the server's clock, the refill alone reaches the capacity, as long as
  that clock and the callers' differ by at most one and a half times what filling the bucket takes: the bucket whose
  key is gone is indistinguishable from the one that was stored.
\<close>

lemma expiry_unobservable:
  assumes "0 \<le> capacity cfg" and "0 < refillPerSecond cfg" and "0 \<le> tok" and "tok \<le> capacity cfg"
    and "\<bar>s0 - t0\<bar> \<le> skew" and "\<bar>server - now\<bar> \<le> skew" and "skew \<le> 1500 * (capacity cfg / refillPerSecond cfg)"
  shows "refilled (capacity cfg) (refillPerSecond cfg) now (live_bucket server (Some (s0 + 1000 * of_int (ttlSeconds cfg), (tok, t0))))
       = refilled (capacity cfg) (refillPerSecond cfg) now (Some (tok, t0))"
proof (cases "s0 + 1000 * of_int (ttlSeconds cfg) \<le> server")
  case True
  let ?cap = "capacity cfg" and ?rate = "refillPerSecond cfg"
  have "?cap / ?rate * 4 \<le> of_int \<lceil>?cap / ?rate * 4\<rceil>" by (rule le_of_int_ceiling)
  also have "\<dots> \<le> of_int (ttlSeconds cfg)" by (simp add: ttlSeconds_def)
  finally have ttl: "4000 * (?cap / ?rate) \<le> 1000 * of_int (ttlSeconds cfg)" by simp
  have "server - s0 \<le> (now - t0) + 2 * skew" using assms(5,6) by (simp add: abs_le_iff)
  moreover define q where "q = ?cap / ?rate"
  ultimately have "q \<le> (now - t0) / 1000" using True ttl assms(7) unfolding q_def [symmetric] by (simp add: field_simps)
  then have "?cap / ?rate \<le> (now - t0) / 1000" by (simp add: q_def)
  then have full: "?cap \<le> (now - t0) / 1000 * ?rate" using assms(2) by (simp add: pos_divide_le_eq)
  moreover have "0 \<le> (now - t0) / 1000" using \<open>?cap / ?rate \<le> (now - t0) / 1000\<close> assms(1,2)
    by (meson divide_nonneg_pos order_trans)
  ultimately have "refilled ?cap ?rate now (Some (tok, t0)) = ?cap" using assms(3) by (simp add: refilled_def)
  then show ?thesis using True by (simp add: live_bucket_def refilled_def)
qed (simp add: live_bucket_def)

subsection \<open>Rate over time\<close>

text \<open>The requests of one client, each with its server time and its caller's time; how many are admitted.\<close>

fun bucket_run :: "TokenBucketConfig \<Rightarrow> (rat \<times> rat) list \<Rightarrow> keyed_bucket \<Rightarrow> nat \<times> keyed_bucket" where
  "bucket_run cfg [] k = (0, k)"
| "bucket_run cfg (t # ts) k =
     (let (a, k1) = bucket_check cfg () t k; (n, k2) = bucket_run cfg ts k1
      in ((if a then Suc n else n), k2))"

lemma bucket_run_conserves:
  assumes "sorted (t0 # map snd ts)" and rate: "0 < refillPerSecond cfg" and cap: "0 \<le> capacity cfg" and cost: "0 \<le> request_cost cfg"
    and "\<bar>s0 - t0\<bar> \<le> skew" and "\<forall>(server, now) \<in> set ts. \<bar>server - now\<bar> \<le> skew"
    and skew: "skew \<le> 1500 * (capacity cfg / refillPerSecond cfg)"
    and "bucket_run cfg ts (Some (s0 + 1000 * of_int (ttlSeconds cfg), (tok, t0))) = (n, k')" and "0 \<le> tok" and "tok \<le> capacity cfg"
  shows "of_nat n * request_cost cfg \<le> tok + (last (t0 # map snd ts) - t0) / 1000 * refillPerSecond cfg"
  using assms(1,5,6,8-10)
proof (induction ts arbitrary: s0 t0 tok n k')
  case Nil
  then show ?case by simp
next
  case (Cons st ts)
  obtain server t where st: "st = (server, t)" by fastforce
  let ?rate = "refillPerSecond cfg" and ?c = "request_cost cfg" and ?r = "refilled (capacity cfg) (refillPerSecond cfg) t (Some (tok, t0))"
  have le: "t0 \<le> t" "sorted (t # map snd ts)" using Cons.prems(1) by (simp_all add: st)
  have sk: "\<bar>server - t\<bar> \<le> skew" "\<forall>(server, now) \<in> set ts. \<bar>server - now\<bar> \<le> skew" using Cons.prems(3) by (simp_all add: st)
  have r: "?r \<le> tok + (t - t0) / 1000 * ?rate" "0 \<le> ?r" "?r \<le> capacity cfg"
    using le(1) cap rate Cons.prems(5) by (simp_all add: refilled_def)
  define tok' where "tok' = (if ?c \<le> ?r then ?r - ?c else ?r)"
  have tok': "0 \<le> tok'" "tok' \<le> capacity cfg" using r cost by (auto simp: tok'_def)
  have c: "bucket_check cfg () st (Some (s0 + 1000 * of_int (ttlSeconds cfg), (tok, t0)))
      = (?c \<le> ?r, Some (server + 1000 * of_int (ttlSeconds cfg), (tok', t)))"
    by (simp add: st bucket_check_eq Let_def tok'_def expiry_unobservable [OF cap rate Cons.prems(5,6,2) sk(1) skew])
  obtain m k2 where m: "bucket_run cfg ts (Some (server + 1000 * of_int (ttlSeconds cfg), (tok', t))) = (m, k2)" by fastforce
  have n: "n = (if ?c \<le> ?r then Suc m else m)" using Cons.prems(4) c m by (auto split: if_splits)
  have "of_nat m * ?c \<le> tok' + (last (t # map snd ts) - t) / 1000 * ?rate"
    by (rule Cons.IH [OF le(2) sk m tok'])
  then have "of_nat n * ?c \<le> ?r + (last (t # map snd ts) - t) / 1000 * ?rate"
    using n by (simp add: tok'_def distrib_right split: if_splits)
  also have "\<dots> \<le> tok + (t - t0) / 1000 * ?rate + (last (t # map snd ts) - t) / 1000 * ?rate" using r by simp
  also have "\<dots> = tok + (last (t0 # map snd (st # ts)) - t0) / 1000 * ?rate" by (simp add: st field_simps)
  finally show ?case .
qed

text \<open>
  C15: whatever requests arrive for a client whose key is absent at first, the tokens that the admitted ones cost are at most
  the capacity and the refill of the elapsed time, although the key may expire in between. The times that the callers pass
  must not decrease, and must differ from the server's clock, by which keys expire, by at most one and a half times what
  filling the bucket takes (the time to live is four times that).
\<close>

theorem token_bucket_rate_bound:
  assumes "sorted (map snd ((server, t) # ts))" and "0 < refillPerSecond cfg" and "0 \<le> capacity cfg" and "0 \<le> request_cost cfg"
    and "\<forall>(server, now) \<in> set ((server, t) # ts). \<bar>server - now\<bar> \<le> skew"
    and "skew \<le> 1500 * (capacity cfg / refillPerSecond cfg)"
    and "bucket_run cfg ((server, t) # ts) None = (n, k')"
  shows "of_nat n * request_cost cfg \<le> capacity cfg + (last (map snd ((server, t) # ts)) - t) / 1000 * refillPerSecond cfg"
proof -
  let ?cap = "capacity cfg" and ?c = "request_cost cfg"
  define tok where "tok = (if ?c \<le> ?cap then ?cap - ?c else ?cap)"
  have tok: "0 \<le> tok" "tok \<le> ?cap" using assms(3,4) by (auto simp: tok_def)
  have c: "bucket_check cfg () (server, t) None = (?c \<le> ?cap, Some (server + 1000 * of_int (ttlSeconds cfg), (tok, t)))"
    by (simp add: bucket_check_eq live_bucket_def refilled_def Let_def tok_def)
  obtain m k2 where m: "bucket_run cfg ts (Some (server + 1000 * of_int (ttlSeconds cfg), (tok, t))) = (m, k2)" by fastforce
  have n: "n = (if ?c \<le> ?cap then Suc m else m)" using assms(7) c m by (auto split: if_splits)
  have s: "sorted (t # map snd ts)" "\<bar>server - t\<bar> \<le> skew" "\<forall>(server, now) \<in> set ts. \<bar>server - now\<bar> \<le> skew" using assms(1,5) by simp_all
  have "of_nat m * ?c \<le> tok + (last (t # map snd ts) - t) / 1000 * refillPerSecond cfg"
    by (rule bucket_run_conserves [OF s(1) assms(2-4) s(2,3) assms(6) m tok])
  then show ?thesis using n by (simp add: tok_def distrib_right split: if_splits)
qed

lemma token_bucket_rate_bound_witness:
  "of_nat (fst (bucket_run \<lparr>capacity = 2, refillPerSecond = 1, cost = Some (3 / 2)\<rparr> [(5, 0), (5, 10), (70000, 70010)] None)) * (3 / 2)
     \<le> (2 + (70010 - 0) / 1000 * 1 :: rat)"
proof -
  let ?cfg = "\<lparr>capacity = 2, refillPerSecond = 1, cost = Some (3 / 2)\<rparr>"
  obtain n k where r: "bucket_run ?cfg [(5, 0), (5, 10), (70000, 70010)] None = (n, k)" by fastforce
  from token_bucket_rate_bound [OF _ _ _ _ _ _ r, of 10] r show ?thesis by (simp add: request_cost_def)
qed

text \<open>
  The hypothesis on the times matters: \<open>last_refill_ms\<close> is set back by a request whose clock is
  behind, and the next request from the other clock is then credited the difference again.
\<close>

lemma skewed_pair:
  "bucket_run \<lparr>capacity = 1, refillPerSecond = 1, cost = None\<rparr> [(0, 0), (0, 1000)] (Some (60000, (0, 1000)))
     = (1, Some (60000, (0, 1000)))"
  by (simp add: bucket_check_eq request_cost_def live_bucket_def refilled_def ttlSeconds_def Let_def)

lemma bucket_run_append:
  "bucket_run cfg (ts @ us) d =
     (let (n, d1) = bucket_run cfg ts d; (m, d2) = bucket_run cfg us d1 in (n + m, d2))"
  by (induction ts arbitrary: d) (simp_all add: Let_def case_prod_beta)

lemma skewed_run:
  "bucket_run \<lparr>capacity = 1, refillPerSecond = 1, cost = None\<rparr> (concat (replicate n [(0, 0), (0, 1000)]))
     (Some (60000, (0, 1000))) = (n, Some (60000, (0, 1000)))"
proof (induction n)
  case 0
  then show ?case by simp
next
  case (Suc n)
  have "concat (replicate (Suc n) [(0, 0), (0, 1000 :: rat)]) = [(0, 0), (0, 1000)] @ concat (replicate n [(0 :: rat, 0), (0, 1000)])" by simp
  then show ?case using Suc skewed_pair by (simp only: bucket_run_append Let_def case_prod_conv) simp
qed

text \<open>
  With two processes whose clocks differ by one second sharing a bucket of capacity 1 that
  refills one token per second, any number of requests gets through at one instant of the server, although every
  time passed to the limiter lies within one second of it.
\<close>

lemma token_bucket_clock_skew:
  "\<exists>ts. set ts \<subseteq> {(0, 0), (0, 1000)}
      \<and> fst (bucket_run \<lparr>capacity = 1, refillPerSecond = 1, cost = None\<rparr> ts None) = Suc n"
proof (rule exI, intro conjI)
  let ?cfg = "\<lparr>capacity = 1, refillPerSecond = 1, cost = None\<rparr>"
  let ?ts = "(0, 1000) # concat (replicate n [(0, 0), (0, 1000 :: rat)])"
  show "set ?ts \<subseteq> {(0, 0), (0, 1000)}" by auto
  have "bucket_check ?cfg () (0, 1000) None = (True, Some (60000, (0, 1000)))"
    by (simp add: bucket_check_eq request_cost_def live_bucket_def refilled_def ttlSeconds_def Let_def)
  then show "fst (bucket_run ?cfg ?ts None) = Suc n" by (simp add: skewed_run)
qed

section \<open>Sliding window log\<close>

text \<open>
  The sorted set of one client: members with their scores, in insertion order. \<open>ZADD\<close> of a member
  that is present only changes its score, which is why the code makes every member unique.
\<close>

record SlidingWindowConfig =
  windowMs :: rat
  limit :: nat

type_synonym zset = "(string \<times> rat) list"

definition zremrangebyscore :: "rat \<Rightarrow> zset \<Rightarrow> zset" where
  "zremrangebyscore hi z = filter (\<lambda>(_, score). hi < score) z"

definition zadd :: "string \<Rightarrow> rat \<Rightarrow> zset \<Rightarrow> zset" where
  "zadd m score z = (if m \<in> fst ` set z then map (\<lambda>(m', s). (m', if m' = m then score else s)) z
                     else z @ [(m, score)])"

definition sliding_window_body ::
  "rat \<Rightarrow> rat \<Rightarrow> nat \<Rightarrow> string \<Rightarrow> zset \<Rightarrow> (bool \<times> nat) \<times> zset" where
  "sliding_window_body now_ms window_ms max_count m z =
     (let z1 = zremrangebyscore (now_ms - window_ms) z;
          count = length z1
      in if count < max_count then ((True, count + 1), zadd m now_ms z1) else ((False, count), z1))"

text \<open>
  The key with the server time at which it expires: \<open>PEXPIRE\<close> sets it on every call, unless the set is empty and the
  key with it gone.
\<close>

type_synonym keyed_zset = "(rat \<times> zset) option"

definition live_zset :: "rat \<Rightarrow> keyed_zset \<Rightarrow> zset" where
  "live_zset server k = (case k of None \<Rightarrow> [] | Some (expires, z) \<Rightarrow> if expires \<le> server then [] else z)"

definition sliding_window_script ::
  "rat \<Rightarrow> rat \<Rightarrow> nat \<Rightarrow> string \<Rightarrow> rat \<Rightarrow> keyed_zset \<Rightarrow> (bool \<times> nat) \<times> keyed_zset" where
  "sliding_window_script now_ms window_ms max_count m server k =
     (let (r, z) = sliding_window_body now_ms window_ms max_count m (live_zset server k)
      in (r, if z = [] then None else Some (server + window_ms, z)))"

text \<open>Whether a request at server time and caller's time \<open>(server, now)\<close> is admitted.\<close>

definition sliding_check :: "SlidingWindowConfig \<Rightarrow> string \<Rightarrow> rat \<times> rat \<Rightarrow> keyed_zset \<Rightarrow> bool \<times> keyed_zset" where
  "sliding_check cfg m t k =
     (let ((a, _), k1) = sliding_window_script (snd t) (windowMs cfg) (limit cfg) m (fst t) k in (a, k1))"

definition window_check :: "SlidingWindowConfig \<Rightarrow> string \<Rightarrow> rat \<Rightarrow> zset \<Rightarrow> bool \<times> zset" where
  "window_check cfg m now z =
     (let ((a, _), z1) = sliding_window_body now (windowMs cfg) (limit cfg) m z in (a, z1))"

lemma sliding_check_window:
  "sliding_check cfg m (server, now) k =
     (let (a, z) = window_check cfg m now (live_zset server k) in (a, if z = [] then None else Some (server + windowMs cfg, z)))"
  by (simp add: sliding_check_def sliding_window_script_def window_check_def Let_def split_beta)

lemma zadd_new: "m \<notin> fst ` set z \<Longrightarrow> zadd m s z = z @ [(m, s)]"
  by (simp add: zadd_def)

lemma zremrange_subset: "fst ` set (zremrangebyscore hi z) \<subseteq> fst ` set z"
  by (auto simp: zremrangebyscore_def)

lemma window_check_eq:
  assumes "m \<notin> fst ` set z"
  shows "window_check cfg m now z =
     (let z1 = zremrangebyscore (now - windowMs cfg) z
      in if length z1 < limit cfg then (True, z1 @ [(m, now)]) else (False, z1))"
proof -
  have "m \<notin> fst ` set (zremrangebyscore (now - windowMs cfg) z)"
    using assms zremrange_subset [of "now - windowMs cfg" z] by blast
  from zadd_new [OF this, of now] show ?thesis
    by (cases "length (zremrangebyscore (now - windowMs cfg) z) < limit cfg")
       (simp_all only: window_check_def sliding_window_body_def Let_def if_True if_False prod.case)
qed

lemma zremrange_idem: "zremrangebyscore hi (zremrangebyscore hi z) = zremrangebyscore hi z"
  by (simp add: zremrangebyscore_def)

lemma zremrange_append: "hi < s \<Longrightarrow> zremrangebyscore hi (z @ [(m, s)]) = zremrangebyscore hi z @ [(m, s)]"
  by (simp add: zremrangebyscore_def)

text \<open>The members the key holds, expired or not.\<close>

definition members :: "keyed_zset \<Rightarrow> string set" where
  "members k = (case k of None \<Rightarrow> {} | Some (_, z) \<Rightarrow> fst ` set z)"

lemma live_members: "fst ` set (live_zset server k) \<subseteq> members k"
  by (auto simp: live_zset_def members_def split: option.splits)

interpretation sw: rate_limiter "sliding_check cfg"
  "\<lambda>(server, now) k. limit cfg - length (zremrangebyscore (now - windowMs cfg) (live_zset server k))"
  "\<lambda>m k. m \<notin> members k \<and> 0 < windowMs cfg"
proof unfold_locales
  fix m :: string and k :: keyed_zset and t :: "rat \<times> rat" and a k'
  obtain server now where t: "t = (server, now)" by fastforce
  let ?z = "live_zset server k"
  let ?z1 = "zremrangebyscore (now - windowMs cfg) ?z"
  assume m: "m \<notin> members k \<and> 0 < windowMs cfg" and c: "sliding_check cfg m t k = (a, k')"
  have w: "now - windowMs cfg < now" using m by simp
  have new: "m \<notin> fst ` set ?z" using m live_members [of server k] by blast
  obtain z' where z': "window_check cfg m now ?z = (a, z')" "k' = (if z' = [] then None else Some (server + windowMs cfg, z'))"
    using c by (auto simp: t sliding_check_window split: prod.splits)
  have live: "live_zset server k' = z'" using m by (simp add: z'(2) live_zset_def)
  note eq = z'(1) [unfolded window_check_eq [OF new] Let_def]
  show "a \<longleftrightarrow> 0 < (case t of (server, now) \<Rightarrow> \<lambda>k. limit cfg - length (zremrangebyscore (now - windowMs cfg) (live_zset server k))) k"
    unfolding t using eq by (auto split: if_splits)
  show "(case t of (server, now) \<Rightarrow> \<lambda>k. limit cfg - length (zremrangebyscore (now - windowMs cfg) (live_zset server k))) k'
      = (case t of (server, now) \<Rightarrow> \<lambda>k. limit cfg - length (zremrangebyscore (now - windowMs cfg) (live_zset server k))) k - (if a then 1 else 0)"
    unfolding t using eq w by (auto simp: live zremrange_idem zremrange_append split: if_splits)
qed

lemma window_members:
  assumes "m \<notin> fst ` set z"
  shows "fst ` set (snd (window_check cfg m t z)) \<subseteq> insert m (fst ` set z)"
  using zremrange_subset [of "t - windowMs cfg" z]
  by (auto simp: window_check_eq [OF assms] Let_def)

lemma sliding_members:
  assumes "m \<notin> members k"
  shows "members (snd (sliding_check cfg m t k)) \<subseteq> insert m (members k)"
proof -
  obtain server now where t: "t = (server, now)" by fastforce
  have "m \<notin> fst ` set (live_zset server k)" using assms live_members [of server k] by blast
  from window_members [OF this, of cfg now] have "fst ` set (snd (window_check cfg m now (live_zset server k))) \<subseteq> insert m (members k)"
    using live_members [of server k] by blast
  then show ?thesis by (auto simp: t sliding_check_window members_def split_beta Let_def)
qed

lemma sliding_all_ok:
  assumes "0 < windowMs cfg"
  shows "distinct ms \<Longrightarrow> set ms \<inter> members k = {} \<Longrightarrow> sw.all_ok cfg ms t k"
proof (induction ms arbitrary: k)
  case Nil
  then show ?case by simp
next
  case (Cons m ms)
  have m: "m \<notin> members k" using Cons.prems(2) by auto
  have "set ms \<inter> members (snd (sliding_check cfg m t k)) = {}"
    using sliding_members [OF m, of cfg t] Cons.prems by auto
  with Cons m assms show ?case unfolding sw.all_ok.simps by simp
qed

text \<open>
  A burst of simultaneous requests against a fresh limiter is admitted exactly up to the limit,
  first come first served: \<open>n\<close> requests against a limit of \<open>l\<close> give \<open>min n l\<close> admissions and then
  only rejections, for the token bucket (a whole number of tokens) and for the sliding window.
\<close>

lemma burst_admits_exactly_the_limit:
  assumes "distinct ms" and "0 < windowMs sw_cfg" and "capacity tb_cfg = of_nat l * request_cost tb_cfg" and "0 < request_cost tb_cfg"
    and "limit sw_cfg = l"
  shows "fst (burst (sliding_check sw_cfg) ms t None)
           = replicate (min (length ms) l) True @ replicate (length ms - l) False
       \<and> fst (burst (bucket_check tb_cfg) (replicate n ()) t None)
           = replicate (min n l) True @ replicate (n - l) False"
proof -
  obtain server now where t: "t = (server, now)" by fastforce
  have tb: "tb.all_ok tb_cfg qs t d" for qs t d
  proof (induction qs arbitrary: d)
    case Nil
    show ?case unfolding tb.all_ok.simps ..
  next
    case (Cons q qs)
    then show ?case unfolding tb.all_ok.simps using assms(4) by blast
  qed
  have "sw.all_ok sw_cfg ms t None" using assms(1,2) by (intro sliding_all_ok) (auto simp: members_def)
  then have "fst (burst (sliding_check sw_cfg) ms t None)
           = replicate (min (length ms) l) True @ replicate (length ms - l) False"
    using assms(5) by (simp add: sw.burst_exact t zremrangebyscore_def live_zset_def)
  moreover have "nat \<lfloor>refilled (capacity tb_cfg) (refillPerSecond tb_cfg) now (live_bucket server None) / request_cost tb_cfg\<rfloor> = l"
    using assms(3,4) by (simp add: refilled_def live_bucket_def)
  ultimately show ?thesis using tb.burst_exact [OF tb, of "replicate n ()" t None] by (simp add: t)
qed

lemma burst_admits_exactly_the_limit_witness:
  "fst (burst (bucket_check \<lparr>capacity = 100, refillPerSecond = 100, cost = None\<rparr>) (replicate 120 ()) (0, 0) None)
     = replicate 100 True @ replicate 20 False"
  using burst_admits_exactly_the_limit [of "[]" "\<lparr>windowMs = 1000, limit = 100\<rparr>"
      "\<lparr>capacity = 100, refillPerSecond = 100, cost = None\<rparr>" 100 "(0, 0)" 120] by (simp add: request_cost_def)

subsection \<open>Every window\<close>

text \<open>The caller's times at which a run of requests (server time, caller's time and member) was admitted.\<close>

fun sliding_run :: "SlidingWindowConfig \<Rightarrow> (rat \<times> rat \<times> string) list \<Rightarrow> keyed_zset \<Rightarrow> rat list" where
  "sliding_run cfg [] k = []"
| "sliding_run cfg ((server, t, m) # rs) k =
     (let (a, k1) = sliding_check cfg m (server, t) k
      in if a then t # sliding_run cfg rs k1 else sliding_run cfg rs k1)"

definition in_window :: "rat \<Rightarrow> rat \<Rightarrow> rat list \<Rightarrow> nat" where
  "in_window hi w ts = length (filter (\<lambda>t. hi - w < t \<and> t \<le> hi) ts)"

text \<open>
  What the sorted set knows after a run: the admitted times still inside the window of the last
  request, and no window held more than the limit.
\<close>

definition window_inv :: "SlidingWindowConfig \<Rightarrow> rat \<Rightarrow> rat list \<Rightarrow> zset \<Rightarrow> bool" where
  "window_inv cfg now admitted z \<longleftrightarrow>
     (\<forall>t \<in> set admitted. t \<le> now)
   \<and> filter (\<lambda>t. now - windowMs cfg < t) (map snd z) = filter (\<lambda>t. now - windowMs cfg < t) admitted
   \<and> (\<forall>hi. in_window hi (windowMs cfg) admitted \<le> limit cfg)"

lemma window_inv_later:
  assumes "window_inv cfg now admitted z" and "now \<le> now'"
  shows "window_inv cfg now' admitted z"
proof -
  let ?w = "windowMs cfg"
  have "filter (\<lambda>t. now' - ?w < t) (map snd z)
      = filter (\<lambda>t. now' - ?w < t) (filter (\<lambda>t. now - ?w < t) (map snd z))"
    using assms(2) by (auto intro: filter_cong)
  also have "\<dots> = filter (\<lambda>t. now' - ?w < t) (filter (\<lambda>t. now - ?w < t) admitted)"
    using assms(1) by (simp add: window_inv_def)
  also have "\<dots> = filter (\<lambda>t. now' - ?w < t) admitted"
    using assms(2) by (auto intro: filter_cong)
  finally show ?thesis using assms by (auto simp: window_inv_def)
qed

lemma window_inv_check:
  assumes inv: "window_inv cfg now admitted z" and m: "m \<notin> fst ` set z" and w: "0 < windowMs cfg"
    and c: "window_check cfg m now z = (a, z')"
  shows "window_inv cfg now (if a then admitted @ [now] else admitted) z'"
proof -
  let ?w = "windowMs cfg"
  let ?z1 = "zremrangebyscore (now - ?w) z"
  have z1: "map snd ?z1 = filter (\<lambda>t. now - ?w < t) admitted"
  proof -
    have "map snd ?z1 = filter (\<lambda>t. now - ?w < t) (map snd z)"
      unfolding zremrangebyscore_def by (induction z) auto
    then show ?thesis using inv by (simp add: window_inv_def)
  qed
  have len: "length ?z1 = in_window now ?w admitted"
  proof -
    have "length ?z1 = length (filter (\<lambda>t. now - ?w < t) admitted)" using z1 by (metis length_map)
    also have "\<dots> = in_window now ?w admitted"
      using inv by (auto simp: in_window_def window_inv_def intro!: arg_cong [where f = length] filter_cong)
    finally show ?thesis .
  qed
  note eq = c [unfolded window_check_eq [OF m] Let_def]
  show ?thesis
  proof (cases a)
    case False
    then have "z' = ?z1" using eq by (auto split: if_splits)
    with inv z1 False show ?thesis by (simp add: window_inv_def)
  next
    case True
    then have z': "z' = ?z1 @ [(m, now)]" and room: "length ?z1 < limit cfg" using eq by (auto split: if_splits)
    have "in_window hi ?w (admitted @ [now]) \<le> limit cfg" for hi
    proof (cases "hi - ?w < now \<and> now \<le> hi")
      case False
      then have "in_window hi ?w (admitted @ [now]) = in_window hi ?w admitted" by (auto simp: in_window_def)
      with inv show ?thesis by (simp add: window_inv_def)
    next
      case True
      have "length (filter (\<lambda>t. hi - ?w < t \<and> t \<le> hi) admitted)
          \<le> length (filter (\<lambda>t. now - ?w < t \<and> t \<le> now) admitted)"
      proof -
        have "filter (\<lambda>t. hi - ?w < t \<and> t \<le> hi) admitted
            = filter (\<lambda>t. hi - ?w < t) (filter (\<lambda>t. now - ?w < t \<and> t \<le> now) admitted)"
          using True inv by (auto simp: window_inv_def intro!: filter_cong)
        then show ?thesis by (metis length_filter_le)
      qed
      then have "in_window hi ?w admitted \<le> in_window now ?w admitted" by (simp add: in_window_def)
      then show ?thesis using True room len by (simp add: in_window_def)
    qed
    moreover have "now - ?w < now" using w by simp
    ultimately show ?thesis using inv z1 z' True by (simp add: window_inv_def o_def)
  qed
qed

text \<open>
  A key that has expired by the server's clock holds nothing that still counts, as long as the callers' clock gains at
  least what the server's does.\<close>

definition stored_zset :: "keyed_zset \<Rightarrow> zset" where
  "stored_zset k = (case k of None \<Rightarrow> [] | Some (_, z) \<Rightarrow> z)"

definition expires_at :: "SlidingWindowConfig \<Rightarrow> rat \<Rightarrow> keyed_zset \<Rightarrow> bool" where
  "expires_at cfg s0 k \<longleftrightarrow> (case k of None \<Rightarrow> True | Some (e, _) \<Rightarrow> e = s0 + windowMs cfg)"

lemma window_inv_live:
  assumes "window_inv cfg t0 admitted (stored_zset k)" and "expires_at cfg s0 k" and "t0 \<le> t" and "server - s0 \<le> t - t0"
  shows "window_inv cfg t admitted (live_zset server k)"
proof (cases "live_zset server k = stored_zset k")
  case True
  then show ?thesis using window_inv_later [OF assms(1,3)] by simp
next
  case False
  then obtain e z where k: "k = Some (e, z)" "e \<le> server" by (auto simp: live_zset_def stored_zset_def split: option.splits if_splits)
  have "s0 + windowMs cfg \<le> server" using assms(2) k by (simp add: expires_at_def)
  then have old: "t0 \<le> t - windowMs cfg" using assms(4) by linarith
  have a: "\<forall>x \<in> set admitted. x \<le> t0" using assms(1) by (simp add: window_inv_def)
  then have "filter (\<lambda>x. t - windowMs cfg < x) admitted = []" using old by (auto simp: filter_empty_conv)
  moreover have "live_zset server k = []" using k by (simp add: live_zset_def)
  ultimately show ?thesis using assms(1,3) a by (auto simp: window_inv_def)
qed

lemma sliding_run_inv:
  assumes "window_inv cfg t0 admitted (stored_zset k)" and "expires_at cfg s0 k" and w: "0 < windowMs cfg"
    and "sorted (t0 # map (\<lambda>(s, t, m). t) rs)" and "sorted ((t0 - s0) # map (\<lambda>(s, t, m). t - s) rs)"
    and "distinct (map (\<lambda>(s, t, m). m) rs)" and "set (map (\<lambda>(s, t, m). m) rs) \<inter> members k = {}"
  shows "\<exists>now' z'. window_inv cfg now' (admitted @ sliding_run cfg rs k) z'"
  using assms(1,2,4-7)
proof (induction rs arbitrary: t0 s0 admitted k)
  case Nil
  then show ?case by auto
next
  case (Cons r rs)
  obtain server t m where r: "r = (server, t, m)" by (metis prod.exhaust)
  have m: "m \<notin> members k" using Cons.prems(6) r by auto
  then have new: "m \<notin> fst ` set (live_zset server k)" using live_members [of server k] by blast
  have "window_inv cfg t admitted (live_zset server k)"
    by (rule window_inv_live [OF Cons.prems(1,2)]) (use Cons.prems(3,4) in \<open>simp_all add: r\<close>)
  moreover obtain a z1 where c: "window_check cfg m t (live_zset server k) = (a, z1)" by fastforce
  ultimately have inv: "window_inv cfg t (if a then admitted @ [t] else admitted) z1"
    by (rule window_inv_check [OF _ new w])
  define k1 where "k1 = (if z1 = [] then None else Some (server + windowMs cfg, z1))"
  have s: "sliding_check cfg m (server, t) k = (a, k1)" by (simp add: sliding_check_window c k1_def)
  have k1: "stored_zset k1 = z1" "expires_at cfg server k1" by (simp_all add: k1_def stored_zset_def expires_at_def)
  have "members k1 \<subseteq> insert m (members k)" using sliding_members [OF m, of cfg "(server, t)"] s by simp
  moreover have "m \<notin> set (map (\<lambda>(s, t, m). m) rs)" "set (map (\<lambda>(s, t, m). m) rs) \<inter> members k = {}"
    using Cons.prems(5,6) r by auto
  ultimately have d: "set (map (\<lambda>(s, t, m). m) rs) \<inter> members k1 = {}" by blast
  have srt: "sorted (t # map (\<lambda>(s, t, m). t) rs)" "sorted ((t - server) # map (\<lambda>(s, t, m). t - s) rs)" "distinct (map (\<lambda>(s, t, m). m) rs)"
    using Cons.prems(3-5) by (simp_all add: r)
  have "\<exists>now' z'. window_inv cfg now' ((if a then admitted @ [t] else admitted) @ sliding_run cfg rs k1) z'"
    using Cons.IH [of t _ k1 server, unfolded k1(1), OF inv k1(2) srt d] .
  then show ?case by (cases a) (simp_all add: r s)
qed

text \<open>
  C16: whatever requests arrive for a client whose key is absent at first, each with its own member, no interval of
  length \<open>windowMs\<close> in the callers' time, wherever it lies, contains more than \<open>limit\<close> admissions (there is no boundary
  at which a second full quota could slip through), although the key may expire in between. The times that the callers pass must
  not decrease, and must not fall back behind the server's clock, by which the key expires.
\<close>

theorem sliding_window_every_window:
  assumes "0 < windowMs cfg" and "sorted (map (\<lambda>(server, now, m). now) rs)" and "sorted (map (\<lambda>(server, now, m). now - server) rs)"
    and "distinct (map (\<lambda>(server, now, m). m) rs)"
  shows "in_window hi (windowMs cfg) (sliding_run cfg rs None) \<le> limit cfg"
proof (cases rs)
  case Nil
  then show ?thesis by (simp add: in_window_def)
next
  case (Cons r rs')
  obtain server t m where r: "r = (server, t, m)" by (metis prod.exhaust)
  have w: "window_inv cfg t [] (stored_zset None)" "expires_at cfg server None"
    by (simp_all add: window_inv_def in_window_def stored_zset_def expires_at_def)
  have "\<exists>now' z'. window_inv cfg now' ([] @ sliding_run cfg rs None) z'"
    by (rule sliding_run_inv [OF w assms(1)]) (use assms(2-4) in \<open>auto simp: Cons r members_def\<close>)
  then show ?thesis by (auto simp: window_inv_def)
qed

lemma sliding_window_every_window_witness:
  "in_window 1500 1000 (sliding_run \<lparr>windowMs = 1000, limit = 2\<rparr>
     [(0, 900, ''a''), (99, 999, ''b''), (100, 1001, ''c''), (3000, 3950, ''d'')] None) \<le> 2"
  using sliding_window_every_window [of "\<lparr>windowMs = 1000, limit = 2\<rparr>"
      "[(0, 900, ''a''), (99, 999, ''b''), (100, 1001, ''c''), (3000, 3950, ''d'')]" 1500] by simp

end
