(* ===== verification/Bounded_Resource.thy ===== *)
theory Bounded_Resource
  imports Prelude
begin

text \<open>
  The slot pool of \<open>labs/36-*/src/downstream/slow-downstream.ts\<close>. \<open>acquire\<close> takes a free slot at
  once or queues the caller; a queued caller is granted a slot by \<open>release\<close> or removed by its timer,
  whichever fires first (\<open>grant\<close> clears the timer, so never both). A waiting caller is identified
  by its entry in the queue.
\<close>

section \<open>The pool\<close>

record BoundedResource =
  capacity :: nat
  availableSlots :: nat
  waitQueue :: "nat list"

definition new_resource :: "nat \<Rightarrow> BoundedResource" where
  "new_resource cap = \<lparr>capacity = cap, availableSlots = cap, waitQueue = []\<rparr>"

definition inFlightCount :: "BoundedResource \<Rightarrow> nat" where
  "inFlightCount r = capacity r - availableSlots r"

definition waitingCount :: "BoundedResource \<Rightarrow> nat" where
  "waitingCount r = length (waitQueue r)"

datatype acquire_result = Granted | Queued

definition acquire :: "nat \<Rightarrow> BoundedResource \<Rightarrow> acquire_result \<times> BoundedResource" where
  "acquire entry r =
     (if 0 < availableSlots r then (Granted, r\<lparr>availableSlots := availableSlots r - 1\<rparr>)
      else (Queued, r\<lparr>waitQueue := waitQueue r @ [entry]\<rparr>))"

text \<open>The timer of a queued entry: \<open>splice\<close> it out if it is still there, and reject the caller.\<close>

definition acquire_timeout :: "nat \<Rightarrow> BoundedResource \<Rightarrow> BoundedResource" where
  "acquire_timeout entry r = r\<lparr>waitQueue := remove1 entry (waitQueue r)\<rparr>"

text \<open>The slot goes straight to the longest waiter; only with no waiter does it become available.\<close>

definition release :: "BoundedResource \<Rightarrow> nat option \<times> BoundedResource" where
  "release r =
     (case waitQueue r of
        next_entry # rest \<Rightarrow> (Some next_entry, r\<lparr>waitQueue := rest\<rparr>)
      | [] \<Rightarrow> (None, r\<lparr>availableSlots := availableSlots r + 1\<rparr>))"

section \<open>Callers\<close>

text \<open>
  \<open>callSlowDownstream\<close>: acquire (or fail with the timeout), hold the slot while sleeping, release.
  Each caller makes one call; \<open>calls\<close> is where each stands.
\<close>

datatype call_state = NotStarted | Waiting | Holding | Finished | TimedOut

record pool =
  resource :: BoundedResource
  calls :: "nat \<Rightarrow> call_state"

definition set_call :: "nat \<Rightarrow> call_state \<Rightarrow> pool \<Rightarrow> pool" where
  "set_call i c p = p\<lparr>calls := (calls p)(i := c)\<rparr>"

definition grant_next :: "nat option \<Rightarrow> pool \<Rightarrow> pool" where
  "grant_next n p = (case n of None \<Rightarrow> p | Some j \<Rightarrow> set_call j Holding p)"

inductive pool_step :: "pool \<Rightarrow> pool \<Rightarrow> bool" where
  start: "calls p i = NotStarted \<Longrightarrow> acquire i (resource p) = (a, r) \<Longrightarrow>
    pool_step p (set_call i (case a of Granted \<Rightarrow> Holding | Queued \<Rightarrow> Waiting) (p\<lparr>resource := r\<rparr>))"
| timeout: "calls p i = Waiting \<Longrightarrow>
    pool_step p (set_call i TimedOut (p\<lparr>resource := acquire_timeout i (resource p)\<rparr>))"
| finish: "calls p i = Holding \<Longrightarrow> release (resource p) = (n, r) \<Longrightarrow>
    pool_step p (grant_next n (set_call i Finished (p\<lparr>resource := r\<rparr>)))"

inductive pool_reach :: "nat \<Rightarrow> pool \<Rightarrow> bool" for cap where
  init: "pool_reach cap \<lparr>resource = new_resource cap, calls = (\<lambda>_. NotStarted)\<rparr>"
| step: "pool_reach cap p \<Longrightarrow> pool_step p q \<Longrightarrow> pool_reach cap q"

abbreviation holding :: "pool \<Rightarrow> nat set" where
  "holding p \<equiv> {i. calls p i = Holding}"

section \<open>The invariant\<close>

definition pool_inv :: "nat \<Rightarrow> pool \<Rightarrow> bool" where
  "pool_inv cap p \<longleftrightarrow>
     capacity (resource p) = cap
   \<and> finite (holding p) \<and> availableSlots (resource p) + card (holding p) = cap
   \<and> set (waitQueue (resource p)) = {i. calls p i = Waiting} \<and> distinct (waitQueue (resource p))
   \<and> (0 < availableSlots (resource p) \<longrightarrow> waitQueue (resource p) = [])"

lemma pool_inv_init [inv_intros]:
  "pool_inv cap \<lparr>resource = new_resource cap, calls = (\<lambda>_. NotStarted)\<rparr>"
  by (simp add: pool_inv_def new_resource_def)

lemma holding_upd:
  "holding (p\<lparr>resource := r, calls := (calls p)(i := c)\<rparr>)
     = (if c = Holding then insert i (holding p) else holding p - {i})"
  by auto

lemma pool_inv_step [inv_intros]:
  assumes "pool_step p q" and "pool_inv cap p"
  shows "pool_inv cap q"
  using assms(1)
proof (cases rule: pool_step.cases)
  case (start i a r)
  have h: "i \<notin> holding p" "i \<notin> set (waitQueue (resource p))"
    using start(2) assms(2) by (auto simp: pool_inv_def)
  show ?thesis
  proof (cases "0 < availableSlots (resource p)")
    case True
    then have "a = Granted" "r = (resource p)\<lparr>availableSlots := availableSlots (resource p) - 1\<rparr>"
      using start(3) by (simp_all add: acquire_def)
    moreover have "{j. ((calls p)(i := Holding)) j = Holding} = insert i (holding p)" by auto
    moreover have "{j. ((calls p)(i := Holding)) j = Waiting} = {j. calls p j = Waiting}"
      using start(2) by auto
    ultimately show ?thesis using start(1) assms(2) h True by (auto simp: pool_inv_def set_call_def)
  next
    case False
    then have "a = Queued" "r = (resource p)\<lparr>waitQueue := waitQueue (resource p) @ [i]\<rparr>"
      using start(3) by (simp_all add: acquire_def)
    moreover have "{j. ((calls p)(i := Waiting)) j = Holding} = holding p" using start(2) by auto
    moreover have "{j. ((calls p)(i := Waiting)) j = Waiting} = insert i {j. calls p j = Waiting}" by auto
    ultimately show ?thesis using start(1) assms(2) h False by (auto simp: pool_inv_def set_call_def)
  qed
next
  case (timeout i)
  have "{j. ((calls p)(i := TimedOut)) j = Holding} = holding p"
    "{j. ((calls p)(i := TimedOut)) j = Waiting} = {j. calls p j = Waiting} - {i}"
    using timeout(2) by auto
  with assms(2) timeout(1) show ?thesis
    by (auto simp: pool_inv_def set_call_def acquire_timeout_def)
next
  case (finish i n r)
  have i: "i \<in> holding p" using finish(2) by simp
  show ?thesis
  proof (cases "waitQueue (resource p)")
    case Nil
    then have "n = None" "r = (resource p)\<lparr>availableSlots := availableSlots (resource p) + 1\<rparr>"
      using finish(3) by (simp_all add: release_def)
    moreover have "{j. ((calls p)(i := Finished)) j = Holding} = holding p - {i}"
      "{j. ((calls p)(i := Finished)) j = Waiting} = {j. calls p j = Waiting}" using finish(2) by auto
    moreover have "card (holding p - {i}) + 1 = card (holding p)"
      using i assms(2) card_Suc_Diff1 [of "holding p" i] by (simp add: pool_inv_def)
    ultimately show ?thesis using finish(1) assms(2) Nil
      by (auto simp: pool_inv_def set_call_def grant_next_def)
  next
    case (Cons j rest)
    then have n: "n = Some j" "r = (resource p)\<lparr>waitQueue := rest\<rparr>"
      using finish(3) by (simp_all add: release_def)
    have j: "calls p j = Waiting" using Cons assms(2) by (auto simp: pool_inv_def)
    then have ji: "j \<noteq> i" "j \<notin> holding p" using finish(2) by auto
    have sets: "{k. ((calls p)(i := Finished, j := Holding)) k = Holding} = insert j (holding p - {i})"
      "{k. ((calls p)(i := Finished, j := Holding)) k = Waiting} = {k. calls p k = Waiting} - {j}"
      using ji finish(2) by auto
    have "card (insert j (holding p - {i})) = card (holding p)"
      using i ji assms(2) card_Suc_Diff1 [of "holding p" i] by (simp add: pool_inv_def)
    moreover have "set rest = {k. calls p k = Waiting} - {j}" "distinct rest"
      using Cons assms(2) by (auto simp: pool_inv_def)
    moreover have "availableSlots (resource p) = 0" using Cons assms(2) by (auto simp: pool_inv_def)
    ultimately show ?thesis using finish(1) assms(2) n sets
      by (simp add: pool_inv_def set_call_def grant_next_def)
  qed
qed

lemma reach_pool_inv: "pool_reach cap p \<Longrightarrow> pool_inv cap p"
  by (induction rule: pool_reach.induct) (auto intro: inv_intros)

text \<open>
  C17: under any interleaving of calls, timeouts and releases, the calls that hold a slot are exactly
  the in-flight count and never exceed the capacity, and a slot is never free while a caller waits.
\<close>

theorem resource_capacity_and_handoff:
  assumes "pool_reach cap p"
  shows "card (holding p) = inFlightCount (resource p) \<and> card (holding p) \<le> cap
       \<and> (waitQueue (resource p) \<noteq> [] \<longrightarrow> card (holding p) = cap)
       \<and> waitingCount (resource p) = card {i. calls p i = Waiting}"
proof -
  have inv: "pool_inv cap p" by (rule reach_pool_inv [OF assms])
  moreover have "length (waitQueue (resource p)) = card (set (waitQueue (resource p)))"
    using inv unfolding pool_inv_def by (metis distinct_card)
  ultimately show ?thesis
    by (auto simp: pool_inv_def inFlightCount_def waitingCount_def)
qed

lemma resource_capacity_and_handoff_witness:
  "card (holding \<lparr>resource = new_resource 3, calls = (\<lambda>_. NotStarted)\<rparr>) \<le> 3"
  using resource_capacity_and_handoff [OF pool_reach.init, of 3] by simp

text \<open>
  Waiters are served first come, first served: a release grants the slot to the caller that has
  waited longest, that caller's timer can no longer reject it, and everybody behind it keeps the
  order; a timeout removes only the caller that timed out.
\<close>

lemma release_is_fifo:
  assumes "pool_reach cap p" and "waitQueue (resource p) = i # rest" and "release (resource p) = (n, r)"
  shows "n = Some i \<and> waitQueue r = rest \<and> i \<notin> set rest
       \<and> availableSlots r = 0
       \<and> (\<forall>j. waitQueue (acquire_timeout j r) = filter (\<lambda>k. k \<noteq> j) rest)"
proof -
  have "pool_inv cap p" by (rule reach_pool_inv [OF assms(1)])
  with assms(2) have "distinct (i # rest)" "availableSlots (resource p) = 0"
    by (auto simp: pool_inv_def)
  with assms(2,3) show ?thesis
    by (auto simp: release_def acquire_timeout_def distinct_remove1_removeAll removeAll_filter_not_eq
        intro!: filter_cong)
qed

lemma two_waiting:
  "pool_reach 0 \<lparr>resource = \<lparr>capacity = 0, availableSlots = 0, waitQueue = [7]\<rparr>,
                 calls = (\<lambda>_. NotStarted)(7 := Waiting)\<rparr>"
proof -
  let ?p = "\<lparr>resource = new_resource 0, calls = (\<lambda>_. NotStarted)\<rparr>"
  have "pool_step ?p (set_call 7 Waiting
      (?p\<lparr>resource := \<lparr>capacity = 0, availableSlots = 0, waitQueue = [7]\<rparr>\<rparr>))"
    using pool_step.start [of ?p 7 Queued "\<lparr>capacity = 0, availableSlots = 0, waitQueue = [7]\<rparr>"]
    by (simp add: acquire_def new_resource_def)
  from pool_reach.step [OF pool_reach.init this] show ?thesis by (simp add: set_call_def)
qed

lemma release_is_fifo_witness:
  "fst (release \<lparr>capacity = 0, availableSlots = 0, waitQueue = [7]\<rparr>) = Some 7"
proof -
  obtain n r where e: "release \<lparr>capacity = 0, availableSlots = 0, waitQueue = [7]\<rparr> = (n, r)" by fastforce
  from release_is_fifo [OF two_waiting] e show ?thesis by simp
qed

end
