(* ===== verification/Sql_Table.thy ===== *)
theory Sql_Table
  imports Prelude "HOL-Library.Product_Lexorder"
begin

text \<open>
  The SQL statements of the labs as functions on tables. A table is the list of its rows. An
  \<open>UPDATE ... WHERE\<close> maps the rows that satisfy the condition, \<open>ORDER BY ... LIMIT 1\<close> picks the least
  row (the first in the table among equals, one of the choices SQL allows), \<open>INSERT\<close> appends. A
  statement is atomic; a transaction that PostgreSQL rolls back leaves the tables as they were.
  Values the server makes (identity numbers, random UUIDs, \<open>now()\<close>) are arguments.
\<close>

definition update_where :: "('r \<Rightarrow> bool) \<Rightarrow> ('r \<Rightarrow> 'r) \<Rightarrow> 'r list \<Rightarrow> 'r list" where
  "update_where P f rows = map (\<lambda>r. if P r then f r else r) rows"

definition row_count :: "('r \<Rightarrow> bool) \<Rightarrow> 'r list \<Rightarrow> nat" where
  "row_count P rows = length (filter P rows)"

fun first_by :: "('r \<Rightarrow> 'k::linorder) \<Rightarrow> ('r \<Rightarrow> bool) \<Rightarrow> 'r list \<Rightarrow> 'r option" where
  "first_by k P [] = None"
| "first_by k P (x # xs) =
     (case first_by k P xs of
        None \<Rightarrow> if P x then Some x else None
      | Some y \<Rightarrow> if P x \<and> k x \<le> k y then Some x else Some y)"

lemma first_by_Some:
  "first_by k P xs = Some x \<Longrightarrow> x \<in> set xs \<and> P x \<and> (\<forall>y \<in> set xs. P y \<longrightarrow> k x \<le> k y)"
proof (induction xs arbitrary: x)
  case Nil
  then show ?case by simp
next
  case (Cons z zs)
  show ?case
  proof (cases "first_by k P zs")
    case None
    have "\<not> P y" if "y \<in> set zs" for y
    proof -
      have "first_by k P zs = None \<Longrightarrow> \<forall>y \<in> set zs. \<not> P y"
        by (induction zs) (auto split: option.splits if_splits)
      with None that show ?thesis by blast
    qed
    with None Cons.prems show ?thesis by (auto split: if_splits)
  next
    case (Some y)
    with Cons.IH [OF Some] Cons.prems show ?thesis by (auto split: if_splits intro: order_trans)
  qed
qed

lemma first_by_None: "first_by k P xs = None \<longleftrightarrow> (\<forall>x \<in> set xs. \<not> P x)"
  by (induction xs) (auto split: option.splits if_splits)

lemma first_by_eqI:
  assumes "x \<in> set xs" and "P x" and "\<And>y. y \<in> set xs \<Longrightarrow> P y \<Longrightarrow> k x \<le> k y" and "inj_on k (set xs)"
  shows "first_by k P xs = Some x"
proof (cases "first_by k P xs")
  case None
  then show ?thesis using assms(1,2) by (simp add: first_by_None)
next
  case (Some y)
  note y = first_by_Some [OF Some]
  with assms have "k x = k y" by (meson order_antisym)
  then show ?thesis using Some y assms(1,4) by (simp add: inj_onD)
qed

lemma length_update_where [simp]: "length (update_where P f rows) = length rows"
  by (simp add: update_where_def)

lemma set_update_where: "set (update_where P f rows) = (\<lambda>r. if P r then f r else r) ` set rows"
  by (simp add: update_where_def)

lemma bex_update_where:
  "(\<exists>x \<in> set (update_where P f rows). Q x) \<longleftrightarrow> (\<exists>x \<in> set rows. if P x then Q (f x) else Q x)"
  by (auto simp: update_where_def)

lemma ball_update_where:
  "(\<forall>x \<in> set (update_where P f rows). Q x) \<longleftrightarrow> (\<forall>x \<in> set rows. if P x then Q (f x) else Q x)"
  by (auto simp: update_where_def)

text \<open>An update of the rows with one key leaves the rows with another key alone.\<close>

lemma bex_update_other_key:
  assumes "\<And>x. key (f x) = key x" and "k \<noteq> i"
  shows "(\<exists>x \<in> set (update_where (\<lambda>x. key x = i) f rows). key x = k \<and> Q x)
       \<longleftrightarrow> (\<exists>x \<in> set rows. key x = k \<and> Q x)"
  unfolding bex_update_where using assms by (intro bex_cong) auto

lemma bex_update_same_key:
  assumes "\<And>x. key (f x) = key x"
  shows "(\<exists>x \<in> set (update_where (\<lambda>x. key x = i) f rows). key x = i \<and> Q x)
       \<longleftrightarrow> (\<exists>x \<in> set rows. key x = i \<and> Q (f x))"
  unfolding bex_update_where using assms by (intro bex_cong) auto

lemma map_update_where:
  "(\<And>r. P r \<Longrightarrow> g (f r) = g r) \<Longrightarrow> map g (update_where P f rows) = map g rows"
  by (auto simp: update_where_def)

lemma update_where_none: "(\<forall>r \<in> set rows. \<not> P r) \<Longrightarrow> update_where P f rows = rows"
  by (simp add: update_where_def map_idI)

text \<open>Counting after an update of the one row with a given key.\<close>

lemma row_count_update_key:
  assumes "distinct (map key rows)" and "r \<in> set rows" and "key (f r) = key r"
  shows "row_count Q (update_where (\<lambda>x. key x = key r) f rows) + (if Q r then 1 else 0)
       = row_count Q rows + (if Q (f r) then 1 else 0)"
  using assms
proof (induction rows)
  case Nil
  then show ?case by simp
next
  case (Cons y ys)
  show ?case
  proof (cases "key y = key r")
    case True
    then have y: "y = r" using Cons.prems(1,2) by (auto simp: rev_image_eqI)
    have "\<forall>x \<in> set ys. key x \<noteq> key r" using Cons.prems(1) True by (auto simp: image_iff)
    then have "update_where (\<lambda>x. key x = key r) f ys = ys" by (rule update_where_none)
    then show ?thesis using y by (simp add: update_where_def row_count_def)
  next
    case False
    then have "r \<in> set ys" using Cons.prems(2) by auto
    with Cons False show ?thesis by (simp add: update_where_def row_count_def)
  qed
qed

lemma row_count_append [simp]: "row_count Q (xs @ ys) = row_count Q xs + row_count Q ys"
  by (simp add: row_count_def)

lemma row_count_zero: "row_count Q xs = 0 \<longleftrightarrow> (\<forall>x \<in> set xs. \<not> Q x)"
  by (simp add: row_count_def filter_empty_conv)

text \<open>Looking a row up by a unique column.\<close>

definition row_with :: "('r \<Rightarrow> bool) \<Rightarrow> 'r list \<Rightarrow> 'r option" where
  "row_with P rows = find P rows"

lemma row_with_Some: "row_with P rows = Some r \<Longrightarrow> r \<in> set rows \<and> P r"
  unfolding row_with_def by (rule find_Some_in)

lemma row_with_None: "row_with P rows = None \<longleftrightarrow> (\<forall>r \<in> set rows. \<not> P r)"
  unfolding row_with_def by (rule find_None_all)

lemma row_with_unique:
  "distinct (map key rows) \<Longrightarrow> r \<in> set rows \<Longrightarrow> row_with (\<lambda>x. key x = key r) rows = Some r"
  unfolding row_with_def by (induction rows) (auto simp: rev_image_eqI)

lemma row_with_update_key:
  assumes "\<And>x. key (f x) = key x"
  shows "row_with (\<lambda>x. key x = k) (update_where (\<lambda>x. key x = i) f rows)
       = (if k = i then map_option f (row_with (\<lambda>x. key x = i) rows)
          else row_with (\<lambda>x. key x = k) rows)"
  using assms by (induction rows) (auto simp: row_with_def update_where_def)

lemma update_where_twice:
  "(\<And>x. key (f x) = key x) \<Longrightarrow>
   update_where (\<lambda>x. key x = i) g (update_where (\<lambda>x. key x = i) f rows)
     = update_where (\<lambda>x. key x = i) (g \<circ> f) rows"
  by (simp add: update_where_def)

lemma sum_update_key:
  assumes "distinct (map key rows)" and "r \<in> set rows" and "\<And>x. key (f x) = key x"
  shows "sum_list (map (w :: 'a \<Rightarrow> nat) (update_where (\<lambda>x. key x = key r) f rows)) + w r
       = sum_list (map w rows) + w (f r)"
  using assms(1,2)
proof (induction rows)
  case Nil
  then show ?case by simp
next
  case (Cons y ys)
  show ?case
  proof (cases "key y = key r")
    case True
    then have y: "y = r" using Cons.prems(1,2) by (auto simp: rev_image_eqI)
    have "\<forall>x \<in> set ys. key x \<noteq> key r" using Cons.prems(1) True by (auto simp: image_iff)
    then have "update_where (\<lambda>x. key x = key r) f ys = ys" by (rule update_where_none)
    then show ?thesis using y by (simp add: update_where_def)
  next
    case False
    then have "r \<in> set ys" using Cons.prems(2) by auto
    with Cons False show ?thesis by (simp add: update_where_def)
  qed
qed

lemma row_count_key_le_1: "distinct (map key rows) \<Longrightarrow> row_count (\<lambda>r. key r = k) rows \<le> 1"
proof (induction rows)
  case (Cons y ys)
  show ?case
  proof (cases "key y = k")
    case True
    then have "row_count (\<lambda>r. key r = k) ys = 0" using Cons.prems by (auto simp: row_count_zero image_iff)
    then show ?thesis using True by (simp add: row_count_def)
  next
    case False
    with Cons show ?thesis by (simp add: row_count_def)
  qed
qed (simp add: row_count_def)

lemma row_with_key_None: "k \<notin> key ` set rows \<Longrightarrow> row_with (\<lambda>r. key r = k) rows = None"
  by (force simp: row_with_None)

lemma row_with_append:
  "row_with P (xs @ ys) = (case row_with P xs of Some x \<Rightarrow> Some x | None \<Rightarrow> row_with P ys)"
  by (induction xs) (simp_all add: row_with_def)

text \<open>A conditional statement on the row with a unique key.\<close>

lemma row_with_update:
  "(\<And>r. key (f r) = key r) \<Longrightarrow> row_with (\<lambda>r. key r = k) (update_where P f db) = map_option (\<lambda>r. if P r then f r else r) (row_with (\<lambda>r. key r = k) db)"
  unfolding row_with_def by (induction db) (auto simp: update_where_def)

lemma filter_unique_key:
  assumes "distinct (map key rows)" and "row_with (\<lambda>r. key r = k) rows = Some r"
  shows "filter (\<lambda>r. key r = k \<and> Q r) rows = (if Q r then [r] else [])"
  using assms
proof (induction rows)
  case (Cons x xs)
  show ?case
  proof (cases "key x = k")
    case True
    then have "k \<notin> key ` set xs" using Cons.prems(1) by simp
    then have "filter (\<lambda>r. key r = k \<and> Q r) xs = []" by (auto simp: filter_empty_conv)
    then show ?thesis using Cons.prems(2) True by (auto simp: row_with_def)
  next
    case False
    then show ?thesis using Cons by (simp add: row_with_def)
  qed
qed (simp add: row_with_def)

end
