(* ===== verification/Bounded_Queue.thy ===== *)
theory Bounded_Queue
  imports Sql_Table
begin

text \<open>
  Backpressure, \<open>labs/36-*/src/backpressure\<close>: the capacity-checked PostgreSQL queue of
  \<open>bounded-queue.ts\<close> with its worker loop, and the unbounded in-process queue of
  \<open>unbounded-inprocess-queue.ts\<close> it replaces. The tables are \<open>queue_state\<close> (its one row, absent
  before the first reset) and \<open>jobs\<close>.
\<close>

section \<open>The tables and the statements\<close>

datatype job_status = Pending | Processing | Completed

record queue_job =
  job_id :: nat
  public_id :: nat
  status :: job_status
  worker_id :: "string option"
  submitted_at :: rat
  started_at :: "rat option"
  completed_at :: "rat option"

record queue_row =
  q_capacity :: nat
  pending_count :: nat

record queue_db =
  queue_state :: "queue_row option"
  jobs :: "queue_job list"
  next_job :: nat

definition resetQueueState :: "nat \<Rightarrow> queue_db \<Rightarrow> queue_db" where
  "resetQueueState cap db =
     db\<lparr>queue_state := Some \<lparr>q_capacity = cap, pending_count = 0\<rparr>, jobs := []\<rparr>"

record EnqueueResult =
  accepted :: bool
  publicId :: "nat option"
  pendingCount :: nat
  result_capacity :: nat

definition pending_job :: "nat \<Rightarrow> nat \<Rightarrow> rat \<Rightarrow> queue_job" where
  "pending_job i uuid now = \<lparr>job_id = i, public_id = uuid, status = Pending, worker_id = None,
     submitted_at = now, started_at = None, completed_at = None\<rparr>"

text \<open>
  \<open>enqueue\<close>: one transaction. The conditional \<open>UPDATE\<close> takes a unit of capacity or matches no row;
  then the current counts are read and the transaction rolls back.
\<close>

definition enqueue :: "nat \<Rightarrow> rat \<Rightarrow> queue_db \<Rightarrow> EnqueueResult \<times> queue_db" where
  "enqueue uuid now db =
     (case queue_state db of
        Some row \<Rightarrow>
          if pending_count row < q_capacity row
          then (let row' = row\<lparr>pending_count := pending_count row + 1\<rparr>
                in (\<lparr>accepted = True, publicId = Some uuid, pendingCount = pending_count row',
                     result_capacity = q_capacity row'\<rparr>,
                    db\<lparr>queue_state := Some row',
                       jobs := jobs db @ [pending_job (next_job db) uuid now],
                       next_job := next_job db + 1\<rparr>))
          else (\<lparr>accepted = False, publicId = None, pendingCount = pending_count row,
                 result_capacity = q_capacity row\<rparr>, db)
      | None \<Rightarrow> (\<lparr>accepted = False, publicId = None, pendingCount = 0, result_capacity = 0\<rparr>, db))"

text \<open>
  \<open>claimOneJob\<close>: the oldest pending job that no open transaction has locked (\<open>locked\<close> holds the ids
  \<open>SKIP LOCKED\<close> passes over) becomes the worker's.
\<close>

definition claimOneJob ::
  "nat set \<Rightarrow> string \<Rightarrow> rat \<Rightarrow> queue_db \<Rightarrow> nat option \<times> queue_db" where
  "claimOneJob locked workerId now db =
     (case first_by submitted_at (\<lambda>j. status j = Pending \<and> job_id j \<notin> locked) (jobs db) of
        None \<Rightarrow> (None, db)
      | Some j \<Rightarrow>
          (Some (job_id j),
           db\<lparr>jobs := update_where (\<lambda>x. job_id x = job_id j)
                (\<lambda>x. x\<lparr>status := Processing, worker_id := Some workerId, started_at := Some now\<rparr>)
                (jobs db)\<rparr>))"

definition completeJob :: "nat \<Rightarrow> rat \<Rightarrow> queue_db \<Rightarrow> queue_db" where
  "completeJob jobId now db =
     db\<lparr>jobs := update_where (\<lambda>x. job_id x = jobId)
           (\<lambda>x. x\<lparr>status := Completed, completed_at := Some now\<rparr>) (jobs db),
        queue_state := map_option (\<lambda>row. row\<lparr>pending_count := pending_count row - 1\<rparr>) (queue_state db)\<rparr>"

text \<open>
  \<open>runBoundedQueueWorker\<close>. Between the worker's own statements other clients change the tables:
  \<open>env i\<close> is what they do before the worker's \<open>i\<close>-th claim, \<open>stop i\<close> what \<open>shouldStop()\<close> then answers.
  The loop polls for as long as the queue is empty and nobody stops it.
\<close>

partial_function (option) worker_loop ::
  "(nat \<Rightarrow> queue_db \<Rightarrow> queue_db) \<Rightarrow> (nat \<Rightarrow> bool) \<Rightarrow> string \<Rightarrow> rat \<Rightarrow> nat \<Rightarrow> nat \<Rightarrow> rat \<Rightarrow> queue_db
     \<Rightarrow> (nat \<times> queue_db) option" where
  "worker_loop env stop workerId workMs i processedCount now db =
     (case claimOneJob {} workerId now (env i db) of
        (None, db1) \<Rightarrow>
          if stop i then Some (processedCount, db1)
          else worker_loop env stop workerId workMs (i + 1) processedCount (now + 20) db1
      | (Some jobId, db1) \<Rightarrow>
          worker_loop env stop workerId workMs (i + 1) (processedCount + 1) (now + workMs)
            (completeJob jobId (now + workMs) db1))"

definition runBoundedQueueWorker ::
  "(nat \<Rightarrow> queue_db \<Rightarrow> queue_db) \<Rightarrow> (nat \<Rightarrow> bool) \<Rightarrow> string \<Rightarrow> rat \<Rightarrow> rat \<Rightarrow> queue_db
     \<Rightarrow> (nat \<times> queue_db) option" where
  "runBoundedQueueWorker env stop workerId workMs now db =
     worker_loop env stop workerId workMs 0 0 now db"

section \<open>The invariant\<close>

abbreviation backlog :: "queue_db \<Rightarrow> nat" where
  "backlog db \<equiv> row_count (\<lambda>j. status j \<noteq> Completed) (jobs db)"

definition queue_inv :: "queue_db \<Rightarrow> bool" where
  "queue_inv db \<longleftrightarrow>
     distinct (map job_id (jobs db)) \<and> (\<forall>j \<in> set (jobs db). job_id j < next_job db)
   \<and> (case queue_state db of None \<Rightarrow> jobs db = []
      | Some row \<Rightarrow> pending_count row = backlog db \<and> pending_count row \<le> q_capacity row)"

lemma queue_inv_reset [inv_intros]: "queue_inv (resetQueueState cap db)"
  by (simp add: queue_inv_def resetQueueState_def row_count_def)

lemma queue_inv_enqueue [inv_intros]:
  assumes "queue_inv db" and "enqueue uuid now db = (r, db')"
  shows "queue_inv db'"
proof (cases "r = \<lparr>accepted = True, publicId = Some uuid, pendingCount = pendingCount r,
    result_capacity = result_capacity r\<rparr>")
  case True
  then obtain row where row: "queue_state db = Some row" "pending_count row < q_capacity row"
    and db': "db' = db\<lparr>queue_state := Some (row\<lparr>pending_count := pending_count row + 1\<rparr>),
      jobs := jobs db @ [pending_job (next_job db) uuid now], next_job := next_job db + 1\<rparr>"
    using assms(2) by (auto simp: enqueue_def Let_def split: option.splits if_splits)
  have "next_job db \<notin> job_id ` set (jobs db)" using assms(1) by (auto simp: queue_inv_def)
  with assms(1) row show ?thesis
    by (simp add: queue_inv_def db' pending_job_def row_count_def less_Suc_eq)
next
  case False
  then have "db' = db" using assms(2) by (auto simp: enqueue_def Let_def split: option.splits if_splits)
  with assms(1) show ?thesis by simp
qed

lemma claimOneJob_Some:
  assumes "claimOneJob locked w now db = (Some i, db')"
  obtains j where "j \<in> set (jobs db)" "status j = Pending" "job_id j = i" "i \<notin> locked"
    "\<And>k. k \<in> set (jobs db) \<Longrightarrow> status k = Pending \<Longrightarrow> job_id k \<notin> locked \<Longrightarrow>
      submitted_at j \<le> submitted_at k"
    "db' = db\<lparr>jobs := update_where (\<lambda>x. job_id x = i)
        (\<lambda>x. x\<lparr>status := Processing, worker_id := Some w, started_at := Some now\<rparr>) (jobs db)\<rparr>"
proof -
  obtain j where f: "first_by submitted_at (\<lambda>j. status j = Pending \<and> job_id j \<notin> locked) (jobs db) = Some j"
    using assms by (auto simp: claimOneJob_def split: option.splits)
  from assms f have "job_id j = i"
    "db' = db\<lparr>jobs := update_where (\<lambda>x. job_id x = i)
        (\<lambda>x. x\<lparr>status := Processing, worker_id := Some w, started_at := Some now\<rparr>) (jobs db)\<rparr>"
    by (auto simp: claimOneJob_def)
  with first_by_Some [OF f] show ?thesis by (intro that [of j]) auto
qed

lemma claimOneJob_None:
  "claimOneJob locked w now db = (None, db') \<longleftrightarrow>
   db' = db \<and> (\<forall>j \<in> set (jobs db). status j = Pending \<longrightarrow> job_id j \<in> locked)"
  by (auto simp: claimOneJob_def first_by_None split: option.splits dest: first_by_Some)

lemma queue_inv_claim [inv_intros]:
  assumes "queue_inv db" and "claimOneJob locked w now db = (Some i, db')"
  shows "queue_inv db' \<and> queue_state db' = queue_state db \<and> backlog db' = backlog db"
proof -
  obtain j where j: "j \<in> set (jobs db)" "status j = Pending" "job_id j = i"
    and db': "db' = db\<lparr>jobs := update_where (\<lambda>x. job_id x = i)
        (\<lambda>x. x\<lparr>status := Processing, worker_id := Some w, started_at := Some now\<rparr>) (jobs db)\<rparr>"
    using claimOneJob_Some [OF assms(2)] by metis
  have dist: "distinct (map job_id (jobs db))" using assms(1) by (simp add: queue_inv_def)
  have "backlog db' = backlog db"
    using row_count_update_key [OF dist j(1), of "\<lambda>x. x\<lparr>status := Processing, worker_id := Some w,
        started_at := Some now\<rparr>" "\<lambda>x. status x \<noteq> Completed"] j db' by simp
  moreover have "map job_id (jobs db') = map job_id (jobs db)"
    by (simp add: db' map_update_where)
  moreover have "\<forall>x \<in> set (jobs db'). job_id x < next_job db'"
    using assms(1) by (auto simp: db' set_update_where queue_inv_def)
  moreover have "queue_state db' = queue_state db" by (simp add: db')
  moreover have "jobs db \<noteq> []" using j by auto
  ultimately show ?thesis using assms(1) by (auto simp: queue_inv_def split: option.splits)
qed

lemma queue_inv_complete [inv_intros]:
  assumes "queue_inv db" and "j \<in> set (jobs db)" and "status j \<noteq> Completed"
  shows "queue_inv (completeJob (job_id j) now db)
       \<and> backlog db = Suc (backlog (completeJob (job_id j) now db))"
proof -
  let ?f = "\<lambda>x. x\<lparr>status := Completed, completed_at := Some now\<rparr>"
  let ?db = "completeJob (job_id j) now db"
  have dist: "distinct (map job_id (jobs db))" using assms(1) by (simp add: queue_inv_def)
  have b: "backlog db = Suc (backlog ?db)"
    using row_count_update_key [OF dist assms(2), of ?f "\<lambda>x. status x \<noteq> Completed"] assms(3)
    by (simp add: completeJob_def)
  moreover have "map job_id (jobs ?db) = map job_id (jobs db)"
    by (simp add: completeJob_def map_update_where)
  moreover have "\<forall>x \<in> set (jobs ?db). job_id x < next_job ?db"
    using assms(1) by (auto simp: completeJob_def set_update_where queue_inv_def)
  moreover have "jobs db \<noteq> []" using assms(2) by auto
  moreover have "queue_state ?db
      = map_option (\<lambda>row. row\<lparr>pending_count := pending_count row - 1\<rparr>) (queue_state db)"
    by (simp add: completeJob_def)
  ultimately show ?thesis using assms(1)
    by (cases "queue_state db") (simp_all add: queue_inv_def)
qed

section \<open>Any number of producers and workers\<close>

text \<open>
  The system under any interleaving of transactions: producers enqueue at will; each worker is at
  the head of its loop (\<open>None\<close>) or is working on the job it claimed, and may finish it at any later time.
\<close>

record queue_system =
  db :: queue_db
  working :: "string \<Rightarrow> nat option"

inductive queue_step :: "queue_system \<Rightarrow> queue_system \<Rightarrow> bool" where
  submit: "enqueue uuid now (db s) = (r, db') \<Longrightarrow> queue_step s (s\<lparr>db := db'\<rparr>)"
| claim: "working s w = None \<Longrightarrow> claimOneJob locked w now (db s) = (Some i, db') \<Longrightarrow>
    queue_step s (s\<lparr>db := db', working := (working s)(w \<mapsto> i)\<rparr>)"
| complete: "working s w = Some i \<Longrightarrow>
    queue_step s (s\<lparr>db := completeJob i now (db s), working := (working s)(w := None)\<rparr>)"

inductive queue_reach :: "nat \<Rightarrow> queue_system \<Rightarrow> bool" for cap where
  init: "queue_reach cap \<lparr>db = resetQueueState cap db0, working = (\<lambda>_. None)\<rparr>"
| step: "queue_reach cap s \<Longrightarrow> queue_step s s' \<Longrightarrow> queue_reach cap s'"

definition claims_inv :: "queue_system \<Rightarrow> bool" where
  "claims_inv s \<longleftrightarrow>
     (\<forall>w i. working s w = Some i \<longleftrightarrow>
        (\<exists>j \<in> set (jobs (db s)). job_id j = i \<and> status j = Processing \<and> worker_id j = Some w))
   \<and> (\<forall>j \<in> set (jobs (db s)). status j = Processing \<longrightarrow> worker_id j \<noteq> None)"

lemma claims_invD:
  "claims_inv s \<Longrightarrow> working s w = Some i \<Longrightarrow>
   \<exists>j \<in> set (jobs (db s)). job_id j = i \<and> status j = Processing \<and> worker_id j = Some w"
  unfolding claims_inv_def by simp

definition system_inv :: "nat \<Rightarrow> queue_system \<Rightarrow> bool" where
  "system_inv cap s \<longleftrightarrow> queue_inv (db s) \<and> map_option q_capacity (queue_state (db s)) = Some cap
     \<and> claims_inv s"

lemma system_inv_claim:
  assumes "system_inv cap s" and "working s w = None"
    and "claimOneJob locked w now (db s) = (Some i, db')"
  shows "claims_inv (s\<lparr>db := db', working := (working s)(w \<mapsto> i)\<rparr>)"
proof -
  obtain j where j: "j \<in> set (jobs (db s))" "status j = Pending" "job_id j = i"
    and db': "db' = (db s)\<lparr>jobs := update_where (\<lambda>x. job_id x = i)
        (\<lambda>x. x\<lparr>status := Processing, worker_id := Some w, started_at := Some now\<rparr>) (jobs (db s))\<rparr>"
    using claimOneJob_Some [OF assms(3)] by metis
  have inv: "claims_inv s" and dist: "distinct (map job_id (jobs (db s)))"
    using assms(1) by (auto simp: system_inv_def queue_inv_def)
  have only: "x = j" if "x \<in> set (jobs (db s))" "job_id x = i" for x
    using distinct_map_unique [OF dist that(1) j(1)] that(2) j(3) by simp
  have iff: "(\<exists>x \<in> set (jobs db'). job_id x = k \<and> status x = Processing \<and> worker_id x = Some v)
     \<longleftrightarrow> (if k = i then v = w else working s v = Some k)" for k v
  proof (cases "k = i")
    case True
    have "(\<exists>x \<in> set (jobs (db s)). job_id x = i)" using j by blast
    then show ?thesis using True by (auto simp: db' bex_update_same_key)
  next
    case False
    with inv show ?thesis by (simp add: claims_inv_def db' bex_update_other_key)
  qed
  have "working s v \<noteq> Some i" for v
    using inv only j(2) by (auto simp: claims_inv_def)
  with iff assms(2) have "\<forall>v k. ((working s)(w \<mapsto> i)) v = Some k \<longleftrightarrow>
     (\<exists>x \<in> set (jobs db'). job_id x = k \<and> status x = Processing \<and> worker_id x = Some v)"
    by auto
  moreover have "\<forall>x \<in> set (jobs db'). status x = Processing \<longrightarrow> worker_id x \<noteq> None"
    using inv by (simp add: claims_inv_def db' ball_update_where)
  ultimately show ?thesis by (simp add: claims_inv_def)
qed

lemma system_inv_complete:
  assumes "system_inv cap s" and "working s w = Some i"
  shows "claims_inv (s\<lparr>db := completeJob i now (db s), working := (working s)(w := None)\<rparr>)"
proof -
  let ?js = "jobs (db s)" and ?js' = "jobs (completeJob i now (db s))"
  have inv: "claims_inv s" and dist: "distinct (map job_id ?js)"
    using assms(1) by (auto simp: system_inv_def queue_inv_def)
  obtain j where j: "j \<in> set ?js" "job_id j = i" "worker_id j = Some w"
    using claims_invD [OF inv assms(2)] by blast
  have only: "x = j" if "x \<in> set ?js" "job_id x = i" for x
    using distinct_map_unique [OF dist that(1) j(1)] that(2) j(2) by simp
  have owner: "v = w" if v: "working s v = Some i" for v
  proof -
    obtain x where "x \<in> set ?js" "job_id x = i" "worker_id x = Some v"
      using claims_invD [OF inv v] by blast
    with only [of x] j(3) show ?thesis by simp
  qed
  have iff: "(\<exists>x \<in> set ?js'. job_id x = k \<and> status x = Processing \<and> worker_id x = Some v)
     \<longleftrightarrow> k \<noteq> i \<and> working s v = Some k" for k v
  proof (cases "k = i")
    case True
    then show ?thesis by (simp add: completeJob_def bex_update_same_key)
  next
    case False
    with inv show ?thesis by (simp add: claims_inv_def completeJob_def bex_update_other_key)
  qed
  have "((working s)(w := None)) v = Some k \<longleftrightarrow>
     (\<exists>x \<in> set ?js'. job_id x = k \<and> status x = Processing \<and> worker_id x = Some v)" for v k
    unfolding iff using owner [of v] assms(2) by (cases "v = w") auto
  moreover have "\<forall>x \<in> set ?js'. status x = Processing \<longrightarrow> worker_id x \<noteq> None"
    using inv by (simp add: claims_inv_def completeJob_def ball_update_where)
  ultimately show ?thesis by (simp add: claims_inv_def)
qed

lemma system_inv_step [inv_intros]:
  assumes "queue_step s s'" and "system_inv cap s"
  shows "system_inv cap s'"
  using assms(1)
proof (cases rule: queue_step.cases)
  case (submit uuid now r db')
  have q: "queue_inv (db s)" using assms(2) by (simp add: system_inv_def)
  have "claims_inv (s\<lparr>db := db'\<rparr>) \<and> map_option q_capacity (queue_state db') = Some cap"
    using assms(2) submit(2)
    by (auto simp: enqueue_def Let_def system_inv_def claims_inv_def pending_job_def
        split: option.splits if_splits)
  with queue_inv_enqueue [OF q submit(2)] submit(1) show ?thesis by (simp add: system_inv_def)
next
  case (claim w locked now i db')
  have q: "queue_inv (db s)" using assms(2) by (simp add: system_inv_def)
  from system_inv_claim [OF assms(2) claim(2,3)] queue_inv_claim [OF q claim(3)] assms(2) claim(1)
  show ?thesis by (simp add: system_inv_def)
next
  case (complete w i now)
  have q: "queue_inv (db s)" and c: "claims_inv s" using assms(2) by (simp_all add: system_inv_def)
  obtain j where j: "j \<in> set (jobs (db s))" "job_id j = i" "status j = Processing"
    using claims_invD [OF c complete(2)] by blast
  have "queue_inv (completeJob i now (db s))" using queue_inv_complete [OF q j(1)] j by simp
  moreover have "map_option q_capacity (queue_state (completeJob i now (db s))) = Some cap"
    using assms(2) by (auto simp: completeJob_def system_inv_def)
  ultimately show ?thesis
    using system_inv_complete [OF assms(2) complete(2), of now] complete(1) by (simp add: system_inv_def)
qed

lemma reach_system_inv: "queue_reach cap s \<Longrightarrow> system_inv cap s"
proof (induction rule: queue_reach.induct)
  case (init db0)
  have "claims_inv \<lparr>db = resetQueueState cap db0, working = (\<lambda>_. None)\<rparr>"
    by (simp add: claims_inv_def resetQueueState_def)
  then show ?case using queue_inv_reset by (simp add: system_inv_def resetQueueState_def)
qed (auto intro: inv_intros)

text \<open>
  However the transactions of any number of producers and workers interleave, the backlog of
  unfinished jobs equals the recorded count and never exceeds the capacity, a new job is accepted
  exactly when there is room, and the jobs in progress and the busy workers correspond one to one.
\<close>

lemma bounded_queue_backpressure:
  assumes "queue_reach cap s"
  shows "backlog (db s) \<le> cap
       \<and> map_option pending_count (queue_state (db s)) = Some (backlog (db s))
       \<and> (accepted (fst (enqueue uuid now (db s))) \<longleftrightarrow> backlog (db s) < cap)
       \<and> (working s v = Some i \<and> working s w = Some i \<longrightarrow> v = w)
       \<and> (\<forall>j \<in> set (jobs (db s)). status j = Processing
            \<longrightarrow> (\<exists>w. worker_id j = Some w \<and> working s w = Some (job_id j)))"
proof -
  have inv: "queue_inv (db s)" "claims_inv s" "map_option q_capacity (queue_state (db s)) = Some cap"
    using reach_system_inv [OF assms] by (simp_all add: system_inv_def)
  obtain row where row: "queue_state (db s) = Some row" "q_capacity row = cap"
    "pending_count row = backlog (db s)" "backlog (db s) \<le> cap"
    using inv(1,3) by (auto simp: queue_inv_def)
  have "v = w" if v: "working s v = Some i" and w: "working s w = Some i"
  proof -
    obtain j k where "j \<in> set (jobs (db s))" "job_id j = i" "worker_id j = Some v"
      "k \<in> set (jobs (db s))" "job_id k = i" "worker_id k = Some w"
      using claims_invD [OF inv(2) v] claims_invD [OF inv(2) w] by blast
    moreover have "distinct (map job_id (jobs (db s)))" using inv(1) by (simp add: queue_inv_def)
    ultimately show ?thesis by (metis distinct_map_unique option.inject)
  qed
  moreover have "\<exists>w. worker_id j = Some w \<and> working s w = Some (job_id j)"
    if "j \<in> set (jobs (db s))" "status j = Processing" for j
    using inv(2) that unfolding claims_inv_def by blast
  ultimately show ?thesis using row by (simp add: enqueue_def Let_def)
qed

lemma bounded_queue_backpressure_witness:
  "accepted (fst (enqueue 5 0 (resetQueueState 20 \<lparr>queue_state = None, jobs = [], next_job = 0\<rparr>)))"
  using bounded_queue_backpressure [OF queue_reach.init,
      of 20 "\<lparr>queue_state = None, jobs = [], next_job = 0\<rparr>" 5 0]
  by (simp add: resetQueueState_def row_count_def)

section \<open>The worker loop drains the queue\<close>

abbreviation undisturbed :: "nat \<Rightarrow> queue_db \<Rightarrow> queue_db" where
  "undisturbed \<equiv> (\<lambda>_ t. t)"

abbreviation pending_jobs :: "queue_db \<Rightarrow> nat" where
  "pending_jobs t \<equiv> row_count (\<lambda>j. status j = Pending) (jobs t)"

lemma worker_loop_idle:
  assumes "pending_jobs t = 0" and "i \<le> k" and "stop k"
  shows "worker_loop undisturbed stop w workMs i c now t = Some (c, t)"
  using assms(2)
proof (induction "k - i" arbitrary: i now)
  case 0
  have "claimOneJob {} w now t = (None, t)"
    using assms(1) by (simp add: claimOneJob_None row_count_zero)
  with 0 assms(3) show ?case by (simp add: worker_loop.simps)
next
  case (Suc m)
  have "claimOneJob {} w now t = (None, t)"
    using assms(1) by (simp add: claimOneJob_None row_count_zero)
  moreover have "worker_loop undisturbed stop w workMs (i + 1) c (now + 20) t = Some (c, t)"
    using Suc.hyps(1) [of "i + 1"] Suc.hyps(2) by simp
  ultimately show ?case by (subst worker_loop.simps) simp
qed

text \<open>One turn of the loop: the oldest pending job ends up completed and nothing else changes.\<close>

lemma claim_and_complete:
  assumes "queue_inv t" and "claimOneJob {} w now t = (Some i, t1)"
  shows "queue_inv (completeJob i now' t1)
       \<and> pending_jobs t = Suc (pending_jobs (completeJob i now' t1))
       \<and> row_count (\<lambda>j. status j = Processing) (jobs (completeJob i now' t1))
           = row_count (\<lambda>j. status j = Processing) (jobs t)
       \<and> length (jobs (completeJob i now' t1)) = length (jobs t)"
proof -
  let ?f = "\<lambda>x. x\<lparr>status := Processing, worker_id := Some w, started_at := Some now\<rparr>"
  let ?g = "\<lambda>x. x\<lparr>status := Completed, completed_at := Some now'\<rparr>"
  obtain j where j: "j \<in> set (jobs t)" "status j = Pending" "job_id j = i"
    and t1: "t1 = t\<lparr>jobs := update_where (\<lambda>x. job_id x = i) ?f (jobs t)\<rparr>"
    using claimOneJob_Some [OF assms(2)] by metis
  have q1: "queue_inv t1" using queue_inv_claim [OF assms] by simp
  have fj: "?f j \<in> set (jobs t1)" using j by (auto simp: t1 set_update_where)
  have d: "distinct (map job_id (jobs t))" "distinct (map job_id (jobs t1))"
    using assms(1) q1 by (auto simp: queue_inv_def)
  have jobs2: "jobs (completeJob i now' t1) = update_where (\<lambda>x. job_id x = job_id (?f j)) ?g (jobs t1)"
    using j by (simp add: completeJob_def)
  note c1 = row_count_update_key [OF d(1) j(1), of ?f] and c2 = row_count_update_key [OF d(2) fj, of ?g]
  have "queue_inv (completeJob i now' t1)" using queue_inv_complete [OF q1 fj] j by simp
  moreover have "pending_jobs t = Suc (pending_jobs (completeJob i now' t1))"
    unfolding jobs2
    using c1 [of "\<lambda>j. status j = Pending"] c2 [of "\<lambda>j. status j = Pending"] j
    by (simp add: t1)
  moreover have "row_count (\<lambda>j. status j = Processing) (jobs (completeJob i now' t1))
           = row_count (\<lambda>j. status j = Processing) (jobs t)"
    unfolding jobs2
    using c1 [of "\<lambda>j. status j = Processing"] c2 [of "\<lambda>j. status j = Processing"] j
    by (simp add: t1)
  moreover have "length (jobs (completeJob i now' t1)) = length (jobs t)"
    unfolding jobs2 by (simp add: t1)
  ultimately show ?thesis by blast
qed

lemma worker_loop_drains:
  assumes "queue_inv t" and "i + pending_jobs t \<le> k" and "stop k"
  shows "\<exists>t'. worker_loop undisturbed stop w workMs i c now t = Some (c + pending_jobs t, t')
       \<and> queue_inv t' \<and> pending_jobs t' = 0 \<and> length (jobs t') = length (jobs t)
       \<and> row_count (\<lambda>j. status j = Processing) (jobs t') = row_count (\<lambda>j. status j = Processing) (jobs t)"
  using assms(1,2)
proof (induction "pending_jobs t" arbitrary: t i c now)
  case 0
  then show ?case using worker_loop_idle [of t i k stop] assms(3) by simp
next
  case (Suc n)
  obtain jid t1 where cl: "claimOneJob {} w now t = (Some jid, t1)"
  proof (cases "claimOneJob {} w now t")
    case (Pair r t1)
    show ?thesis
    proof (cases r)
      case None
      then have "pending_jobs t = 0" using Pair by (simp add: claimOneJob_None row_count_zero)
      with Suc.hyps(2) show ?thesis by simp
    next
      case (Some jid)
      with Pair that show ?thesis by blast
    qed
  qed
  let ?t2 = "completeJob jid (now + workMs) t1"
  note cc = claim_and_complete [OF Suc.prems(1) cl, of "now + workMs"]
  then have n: "n = pending_jobs ?t2" and le: "i + 1 + pending_jobs ?t2 \<le> k"
    using Suc.hyps(2) Suc.prems(2) by simp_all
  have "worker_loop undisturbed stop w workMs i c now t
      = worker_loop undisturbed stop w workMs (i + 1) (c + 1) (now + workMs) ?t2"
    by (subst worker_loop.simps) (simp add: cl)
  with Suc.hyps(1) [OF n, of "i + 1" "c + 1" "now + workMs"] le cc show ?case by auto
qed

text \<open>
  A worker left alone with the queue returns once it is told to stop, having completed exactly
  the jobs that were pending: it reports their number, and if no other worker had a job in progress
  the queue's whole capacity is free again.
\<close>

lemma worker_drains_and_returns:
  assumes "queue_inv t" and "stop k" and "pending_jobs t \<le> k"
    and "\<forall>j \<in> set (jobs t). status j \<noteq> Processing"
  shows "\<exists>t'. runBoundedQueueWorker undisturbed stop w workMs now t = Some (pending_jobs t, t')
       \<and> (\<forall>j \<in> set (jobs t'). status j = Completed) \<and> length (jobs t') = length (jobs t)
       \<and> (\<forall>row. queue_state t' = Some row \<longrightarrow> pending_count row = 0)"
proof -
  obtain t' where t': "worker_loop undisturbed stop w workMs 0 0 now t = Some (0 + pending_jobs t, t')"
    "queue_inv t'" "pending_jobs t' = 0" "length (jobs t') = length (jobs t)"
    "row_count (\<lambda>j. status j = Processing) (jobs t') = row_count (\<lambda>j. status j = Processing) (jobs t)"
    using worker_loop_drains [OF assms(1), of 0 k stop w workMs 0 now] assms(2,3) by auto
  moreover have "\<forall>j \<in> set (jobs t'). status j \<noteq> Pending \<and> status j \<noteq> Processing"
  proof -
    have "row_count (\<lambda>j. status j = Processing) (jobs t) = 0" using assms(4) by (simp add: row_count_zero)
    then have "row_count (\<lambda>j. status j = Processing) (jobs t') = 0" using t'(5) by simp
    with t'(3) show ?thesis unfolding row_count_zero by blast
  qed
  then have all: "\<forall>j \<in> set (jobs t'). status j = Completed" by (metis job_status.exhaust)
  moreover have "backlog t' = 0" using all by (simp add: row_count_zero)
  moreover have "pending_count row = backlog t'" if "queue_state t' = Some row" for row
    using t'(2) that by (simp add: queue_inv_def)
  ultimately have "runBoundedQueueWorker undisturbed stop w workMs now t = Some (pending_jobs t, t')
       \<and> (\<forall>j \<in> set (jobs t'). status j = Completed) \<and> length (jobs t') = length (jobs t)
       \<and> (\<forall>row. queue_state t' = Some row \<longrightarrow> pending_count row = 0)"
    unfolding runBoundedQueueWorker_def by (metis add_0)
  then show ?thesis by blast
qed

lemma worker_drains_and_returns_witness:
  "\<exists>t'. runBoundedQueueWorker undisturbed (\<lambda>k. 3 \<le> k) ''w'' 30 0
       (snd (enqueue 1 0 (resetQueueState 20 \<lparr>queue_state = None, jobs = [], next_job = 0\<rparr>)))
     = Some (1, t')"
  using worker_drains_and_returns [of
      "snd (enqueue 1 0 (resetQueueState 20 \<lparr>queue_state = None, jobs = [], next_job = 0\<rparr>))"
      "\<lambda>k. 3 \<le> k" 3 "''w''" 30 0]
  by (auto simp: enqueue_def resetQueueState_def queue_inv_def row_count_def pending_job_def)

end
