(* ===== verification/Unbounded_Queue.thy ===== *)
theory Unbounded_Queue
  imports Prelude
begin

text \<open>
  The naive queue of \<open>labs/36-*/src/backpressure/unbounded-inprocess-queue.ts\<close>: an array without a
  capacity and one slow consumer. Between the consumer's turns producers push; \<open>arrivals i\<close> are the
  tasks pushed before its \<open>i\<close>-th \<open>shift\<close>, \<open>stop i\<close> is what \<open>shouldStop()\<close> then answers. The clock is
  in milliseconds and advances by the sleeps.
\<close>

record QueueTask =
  task_id :: nat
  submittedAt :: rat
  payload :: string

type_synonym UnboundedQueue = "QueueTask list"

definition push :: "QueueTask \<Rightarrow> UnboundedQueue \<Rightarrow> UnboundedQueue" where
  "push task items = items @ [task]"

fun shift :: "UnboundedQueue \<Rightarrow> QueueTask option \<times> UnboundedQueue" where
  "shift [] = (None, [])"
| "shift (task # items) = (Some task, items)"

record ConsumerStats =
  processedCount :: nat
  waitTimesMs :: "rat list"

definition processed :: "QueueTask \<Rightarrow> rat \<Rightarrow> ConsumerStats \<Rightarrow> ConsumerStats" where
  "processed task now stats =
     \<lparr>processedCount = processedCount stats + 1,
      waitTimesMs = waitTimesMs stats @ [now - submittedAt task]\<rparr>"

partial_function (option) consumer_loop ::
  "(nat \<Rightarrow> QueueTask list) \<Rightarrow> (nat \<Rightarrow> bool) \<Rightarrow> rat \<Rightarrow> nat \<Rightarrow> ConsumerStats \<Rightarrow> rat \<Rightarrow> UnboundedQueue
     \<Rightarrow> ConsumerStats option" where
  "consumer_loop arrivals stop perTaskMs i stats now queue =
     (case shift (foldl (\<lambda>q t. push t q) queue (arrivals i)) of
        (None, queue1) \<Rightarrow>
          if stop i then Some stats
          else consumer_loop arrivals stop perTaskMs (i + 1) stats (now + 5) queue1
      | (Some task, queue1) \<Rightarrow>
          consumer_loop arrivals stop perTaskMs (i + 1) (processed task (now + perTaskMs) stats)
            (now + perTaskMs) queue1)"

definition runSlowConsumer ::
  "(nat \<Rightarrow> QueueTask list) \<Rightarrow> (nat \<Rightarrow> bool) \<Rightarrow> rat \<Rightarrow> rat \<Rightarrow> UnboundedQueue \<Rightarrow> ConsumerStats option" where
  "runSlowConsumer arrivals stop perTaskMs now queue =
     consumer_loop arrivals stop perTaskMs 0 \<lparr>processedCount = 0, waitTimesMs = []\<rparr> now queue"

text \<open>Pushing never refuses: a burst is queued whole, in order.\<close>

lemma push_all [simp]: "foldl (\<lambda>q t. push t q) queue ts = queue @ ts"
  by (induction ts arbitrary: queue) (simp_all add: push_def)

lemma shift_snoc: "shift (queue @ [task]) =
    (case queue of [] \<Rightarrow> (Some task, []) | t # ts \<Rightarrow> (Some t, ts @ [task]))"
  by (cases queue) simp_all

lemma consumer_loop_idle:
  assumes "\<And>j. arrivals j = []" and "i \<le> k" and "stop k"
  shows "consumer_loop arrivals stop p i stats now [] = Some stats"
  using assms(2)
proof (induction "k - i" arbitrary: i now)
  case 0
  then show ?case using assms by (simp add: consumer_loop.simps)
next
  case (Suc m)
  then have "consumer_loop arrivals stop p (i + 1) stats (now + 5) [] = Some stats" by simp
  then show ?case by (subst consumer_loop.simps) (simp add: assms(1))
qed

lemma consumer_loop_waits:
  assumes "\<And>j. arrivals j = []" and "stop k" and "i + length queue \<le> k"
  shows "\<exists>stats'. consumer_loop arrivals stop p i stats now queue = Some stats'
       \<and> processedCount stats' = processedCount stats + length queue
       \<and> waitTimesMs stats' = waitTimesMs stats
           @ map (\<lambda>j. now + of_nat (Suc j) * p - submittedAt (queue ! j)) [0..<length queue]"
  using assms(3)
proof (induction queue arbitrary: i stats now)
  case Nil
  have "consumer_loop arrivals stop p i stats now [] = Some stats"
    by (rule consumer_loop_idle [of _ i k]) (use Nil assms in simp_all)
  then show ?case by (intro exI [of _ stats]) simp
next
  case (Cons task queue)
  have step: "consumer_loop arrivals stop p i stats now (task # queue)
      = consumer_loop arrivals stop p (i + 1) (processed task (now + p) stats) (now + p) queue"
    by (subst consumer_loop.simps) (simp add: assms(1))
  obtain stats' where IH: "consumer_loop arrivals stop p i stats now (task # queue) = Some stats'"
    "processedCount stats' = processedCount (processed task (now + p) stats) + length queue"
    "waitTimesMs stats' = waitTimesMs (processed task (now + p) stats)
       @ map (\<lambda>j. now + p + of_nat (Suc j) * p - submittedAt (queue ! j)) [0..<length queue]"
    using Cons.IH [of "i + 1" "processed task (now + p) stats" "now + p"] Cons.prems step by auto
  have "map (\<lambda>j. now + of_nat (Suc j) * p - submittedAt ((task # queue) ! j)) [0..<length (task # queue)]
      = (now + p - submittedAt task)
        # map (\<lambda>j. now + p + of_nat (Suc j) * p - submittedAt (queue ! j)) [0..<length queue]"
    unfolding length_Cons map_upt_Suc by (simp add: algebra_simps)
  with IH show ?case by (simp add: processed_def del: upt_Suc)
qed

text \<open>
  Nothing bounds the backlog or the wait. A burst of any size is accepted whole; if no more work
  arrives and the consumer is eventually told to stop, it returns having processed every task, and
  the task at place \<open>j\<close> waited for all the \<open>j\<close> tasks before it and itself.
\<close>

lemma unbounded_queue_wait_grows:
  assumes "length burst \<le> k" and "stop k"
    and "\<forall>t \<in> set burst. submittedAt t = now"
  shows "length (foldl (\<lambda>q t. push t q) [] burst) = length burst
       \<and> (\<exists>stats. runSlowConsumer (\<lambda>_. []) stop perTaskMs now (foldl (\<lambda>q t. push t q) [] burst) = Some stats
           \<and> processedCount stats = length burst
           \<and> waitTimesMs stats = map (\<lambda>j. of_nat (Suc j) * perTaskMs) [0..<length burst])"
proof -
  obtain stats where "consumer_loop (\<lambda>_. []) stop perTaskMs 0
        \<lparr>processedCount = 0, waitTimesMs = []\<rparr> now burst = Some stats"
    and c: "processedCount stats = length burst"
    and w: "waitTimesMs stats
        = map (\<lambda>j. now + of_nat (Suc j) * perTaskMs - submittedAt (burst ! j)) [0..<length burst]"
    using consumer_loop_waits [of "\<lambda>_. []" stop k 0 burst perTaskMs "\<lparr>processedCount = 0, waitTimesMs = []\<rparr>" now]
      assms(1,2) by auto
  moreover have "waitTimesMs stats = map (\<lambda>j. of_nat (Suc j) * perTaskMs) [0..<length burst]"
    unfolding w using assms(3) by (intro map_cong) auto
  ultimately show ?thesis by (simp add: runSlowConsumer_def)
qed

lemma unbounded_queue_wait_grows_witness:
  "\<exists>stats. runSlowConsumer (\<lambda>_. []) (\<lambda>k. 2 \<le> k) 50 7
       [\<lparr>task_id = 1, submittedAt = 7, payload = ''x''\<rparr>, \<lparr>task_id = 2, submittedAt = 7, payload = ''y''\<rparr>]
     = Some stats \<and> waitTimesMs stats = [50, 100]"
  using unbounded_queue_wait_grows [of "[\<lparr>task_id = 1, submittedAt = 7, payload = ''x''\<rparr>,
      \<lparr>task_id = 2, submittedAt = 7, payload = ''y''\<rparr>]" 2 "\<lambda>k. 2 \<le> k" 7 50]
  by (auto simp: upt_rec)

end
