(* ===== verification/Lease_Queue.thy ===== *)
theory Lease_Queue
  imports Sql_Table
begin

text \<open>
  The contract of a claim query (\<open>SELECT ... FOR UPDATE SKIP LOCKED LIMIT 1\<close> and the \<open>UPDATE\<close> that
  takes a lease): a claim returns an item that is claimable and not locked by another open
  transaction, and leaves it leased to the caller; an item under a live lease is not claimable.
  Lab 14's job queue and the outbox claims of Labs 17 and 40 provide it.
\<close>

locale lease_queue =
  fixes claim :: "nat set \<Rightarrow> 'w \<Rightarrow> rat \<Rightarrow> 's \<Rightarrow> nat option \<times> 's"
    and claimable :: "rat \<Rightarrow> 's \<Rightarrow> nat set"
    and lease_of :: "'s \<Rightarrow> nat \<rightharpoonup> 'w \<times> rat"
    and lease :: rat
    and valid :: "'s \<Rightarrow> bool"
  assumes claim_takes: "valid s \<Longrightarrow> claim locked w now s = (Some i, s') \<Longrightarrow>
      i \<in> claimable now s \<and> i \<notin> locked \<and> lease_of s' = (lease_of s)(i \<mapsto> (w, now + lease)) \<and> valid s'"
    and claim_nothing: "valid s \<Longrightarrow> claim locked w now s = (None, s') \<Longrightarrow>
      claimable now s \<subseteq> locked \<and> s' = s"
    and live_not_claimable: "valid s \<Longrightarrow> lease_of s i = Some (w, until) \<Longrightarrow> now \<le> until \<Longrightarrow>
      i \<notin> claimable now s"
begin

text \<open>Claims one after another, by any workers, each with the ids then locked by open transactions.\<close>

fun claims :: "(nat set \<times> 'w \<times> rat) list \<Rightarrow> 's \<Rightarrow> nat option list \<times> 's" where
  "claims [] s = ([], s)"
| "claims ((locked, w, now) # cs) s =
     (let (r, s1) = claim locked w now s; (rs, s2) = claims cs s1 in (r # rs, s2))"

lemma claims_lease_kept:
  "valid s \<Longrightarrow> claims cs s = (rs, s') \<Longrightarrow> lease_of s i = Some (w0, until) \<Longrightarrow>
   \<forall>c \<in> set cs. snd (snd c) \<le> until \<Longrightarrow> Some i \<notin> set rs \<and> lease_of s' i = Some (w0, until) \<and> valid s'"
proof (induction cs arbitrary: s rs)
  case Nil
  then show ?case by simp
next
  case (Cons c cs)
  obtain locked w now where c: "c = (locked, w, now)" by (cases c)
  obtain r s1 where r: "claim locked w now s = (r, s1)" by fastforce
  obtain rs1 s2 where rs1: "claims cs s1 = (rs1, s2)" by fastforce
  have eq: "rs = r # rs1" "s' = s2" using Cons.prems(2) c r rs1 by simp_all
  have now: "now \<le> until" using Cons.prems(4) c by simp
  have "r \<noteq> Some i \<and> lease_of s1 i = Some (w0, until) \<and> valid s1"
  proof (cases r)
    case None
    with claim_nothing [OF Cons.prems(1) r [unfolded None]] Cons.prems show ?thesis by simp
  next
    case (Some j)
    have t: "j \<in> claimable now s" "lease_of s1 = (lease_of s)(j \<mapsto> (w, now + lease))" "valid s1"
      using claim_takes [OF Cons.prems(1) r [unfolded Some]] by auto
    then have "j \<noteq> i" using live_not_claimable [OF Cons.prems(1,3) now] by auto
    with t Cons.prems(3) Some show ?thesis by simp
  qed
  then show ?case using Cons.IH [of s1 rs1] rs1 Cons.prems(4) eq by auto
qed

lemma valid_claim: "valid s \<Longrightarrow> claim locked w now s = (r, s') \<Longrightarrow> valid s'"
  using claim_nothing [of s locked w now] claim_takes [of s locked w now] by (cases r) auto

lemma length_claims: "claims cs s = (rs, s') \<Longrightarrow> length rs = length cs"
proof (induction cs arbitrary: s rs)
  case (Cons c cs)
  then show ?case by (cases c) (auto split: prod.splits)
qed simp

lemma claims_take: "fst (claims (take n cs) s) = take n (fst (claims cs s))"
proof (induction cs arbitrary: s n)
  case (Cons c cs)
  show ?case
  proof (cases n)
    case (Suc m)
    obtain locked w now where c: "c = (locked, w, now)" by (cases c)
    obtain r s1 where "claim locked w now s = (r, s1)" by fastforce
    with Cons.IH [of m s1] Suc c show ?thesis by (auto split: prod.splits)
  qed simp
qed simp

text \<open>
  Two claims of one item are further apart than the lease: no two workers hold it at once. The first
  claim is the head of the list; the general position follows by dropping a prefix.
\<close>

lemma claims_exclusive_head:
  assumes "valid s" and "claim locked w now s = (Some i, s1)" and "claims cs s1 = (rs, s')"
    and "sorted (map (snd \<circ> snd) cs)" and "k < length cs" and "rs ! k = Some i"
  shows "now + lease < snd (snd (cs ! k))"
proof (rule ccontr)
  assume late: "\<not> ?thesis"
  have lease1: "lease_of s1 i = Some (w, now + lease)" and v1: "valid s1"
    using claim_takes [OF assms(1,2)] by simp_all
  have "\<forall>d \<in> set (take (Suc k) cs). snd (snd d) \<le> now + lease"
  proof
    fix d assume "d \<in> set (take (Suc k) cs)"
    then obtain m where m: "m \<le> k" "m < length cs" "d = cs ! m"
      by (auto simp: in_set_conv_nth less_Suc_eq_le)
    have "map (snd \<circ> snd) cs ! m \<le> map (snd \<circ> snd) cs ! k"
      using m assms(4,5) by (intro sorted_nth_mono) auto
    with m late assms(5) show "snd (snd d) \<le> now + lease" by simp
  qed
  moreover obtain rs2 s3 where pre: "claims (take (Suc k) cs) s1 = (rs2, s3)" by fastforce
  ultimately have "Some i \<notin> set rs2" using claims_lease_kept [OF v1 pre lease1] by simp
  moreover have "rs2 = take (Suc k) rs" using claims_take [of "Suc k" cs s1] pre assms(3) by simp
  ultimately show False
    using assms(5,6) length_claims [OF assms(3)] by (auto simp: take_Suc_conv_app_nth)
qed

lemma claims_exclusive:
  "valid s \<Longrightarrow> claims cs s = (rs, s') \<Longrightarrow> sorted (map (snd \<circ> snd) cs) \<Longrightarrow>
   j < k \<Longrightarrow> k < length rs \<Longrightarrow> rs ! j = Some i \<Longrightarrow> rs ! k = Some i \<Longrightarrow>
   snd (snd (cs ! j)) + lease < snd (snd (cs ! k))"
proof (induction cs arbitrary: s s' rs j k)
  case Nil
  then show ?case by simp
next
  case (Cons c cs)
  obtain locked w now where c: "c = (locked, w, now)" by (cases c)
  obtain r s1 where r: "claim locked w now s = (r, s1)" by fastforce
  obtain rs1 s2 where rs1: "claims cs s1 = (rs1, s2)" by fastforce
  have eq: "rs = r # rs1" using Cons.prems(2) c r rs1 by simp
  obtain k' where k': "k = Suc k'" using Cons.prems(4) by (cases k) auto
  have srt: "sorted (map (snd \<circ> snd) cs)" using Cons.prems(3) by (simp add: comp_def)
  show ?case
  proof (cases j)
    case 0
    then have "r = Some i" using Cons.prems(6) eq by simp
    then show ?thesis
      using claims_exclusive_head [OF Cons.prems(1) _ rs1 srt, of locked w now i k']
        r c eq k' 0 Cons.prems(5,7) length_claims [OF rs1] by simp
  next
    case (Suc j')
    then show ?thesis
      using Cons.IH [OF valid_claim [OF Cons.prems(1) r] rs1 srt, of j' k'] Cons.prems(4-7) eq k'
      by simp
  qed
qed

text \<open>An unclaimable queue and only then: a claim comes back empty when nothing unlocked is claimable.\<close>

lemma claim_empty_iff:
  assumes "valid s"
  shows "fst (claim {} w now s) = None \<longleftrightarrow> claimable now s = {}"
  using assms claim_nothing [OF assms, of "{}" w now] claim_takes [OF assms, of "{}" w now]
  by (cases "claim {} w now s"; cases "fst (claim {} w now s)") auto

end

end
