(* ===== verification/Outbox_Queue.thy ===== *)
theory Outbox_Queue
  imports Lease_Queue Idempotent_Receiver
begin

text \<open>
  The transactional outbox's publisher, \<open>labs/17-*/src/queue\<close>: the \<open>outbox_events\<close> table, the claim,
  the two finalising updates, the simulated broker and the idempotent consumer, and Lab 17's two
  crash scenarios. Event and public ids are numbers, the payload is a type variable. The clock is in
  milliseconds.
\<close>

section \<open>The table\<close>

datatype event_status = Pending | Processing | Published | Failed

record 'p outbox_event =
  event_id :: nat
  public_id :: nat
  event_type :: string
  payload :: 'p
  status :: event_status
  locked_by :: "string option"
  locked_until :: "rat option"
  attempts :: nat
  max_attempts :: nat
  created_at :: rat
  published_at :: "rat option"

type_synonym 'p outbox = "'p outbox_event list"

record 'p ClaimedEvent =
  ce_id :: nat
  ce_publicId :: nat
  ce_eventType :: string
  ce_payload :: 'p
  ce_attempts :: nat
  ce_maxAttempts :: nat
  ce_lockedUntil :: "rat option"

definition claimed_event :: "'p outbox_event \<Rightarrow> 'p ClaimedEvent" where
  "claimed_event r = \<lparr>ce_id = event_id r, ce_publicId = public_id r, ce_eventType = event_type r,
     ce_payload = payload r, ce_attempts = attempts r, ce_maxAttempts = max_attempts r,
     ce_lockedUntil = locked_until r\<rparr>"

section \<open>Claim and finalise\<close>

text \<open>\<open>locked_until < now()\<close> is not true of a NULL \<open>locked_until\<close>.\<close>

definition claimable_event :: "rat \<Rightarrow> 'p outbox_event \<Rightarrow> bool" where
  "claimable_event now r \<longleftrightarrow> status r = Pending
     \<or> (status r = Processing \<and> (case locked_until r of Some t \<Rightarrow> t < now | None \<Rightarrow> False))"

definition take_lease :: "rat \<Rightarrow> string \<Rightarrow> rat \<Rightarrow> 'p outbox_event \<Rightarrow> 'p outbox_event" where
  "take_lease leaseMs workerId now r =
     r\<lparr>status := Processing, locked_by := Some workerId, locked_until := Some (now + leaseMs),
       attempts := attempts r + 1\<rparr>"

definition claimNextEvent ::
  "rat \<Rightarrow> nat set \<Rightarrow> string \<Rightarrow> rat \<Rightarrow> 'p outbox \<Rightarrow> 'p ClaimedEvent option \<times> 'p outbox" where
  "claimNextEvent leaseMs locked workerId now rows =
     (case first_by (\<lambda>r. (created_at r, event_id r))
             (\<lambda>r. claimable_event now r \<and> event_id r \<notin> locked) rows of
        None \<Rightarrow> (None, rows)
      | Some r \<Rightarrow>
          (Some (claimed_event (take_lease leaseMs workerId now r)),
           update_where (\<lambda>x. event_id x = event_id r) (take_lease leaseMs workerId now) rows))"

definition published_row :: "rat \<Rightarrow> 'p outbox_event \<Rightarrow> 'p outbox_event" where
  "published_row now r =
     r\<lparr>status := Published, published_at := Some now, locked_by := None, locked_until := None\<rparr>"

definition markPublished :: "nat \<Rightarrow> string \<Rightarrow> rat \<Rightarrow> 'p outbox \<Rightarrow> 'p outbox" where
  "markPublished i workerId now rows =
     update_where (\<lambda>r. event_id r = i \<and> locked_by r = Some workerId) (published_row now) rows"

definition refused_row :: "'p outbox_event \<Rightarrow> 'p outbox_event" where
  "refused_row r = r\<lparr>status := (if max_attempts r \<le> attempts r then Failed else Pending),
     locked_by := None, locked_until := None\<rparr>"

definition markPublishFailed :: "nat \<Rightarrow> string \<Rightarrow> 'p outbox \<Rightarrow> 'p outbox" where
  "markPublishFailed i workerId rows =
     update_where (\<lambda>r. event_id r = i \<and> locked_by r = Some workerId) refused_row rows"

text \<open>The rows the lab's statements can produce: ids are unique and exactly the rows in progress are leased.\<close>

definition row_ok :: "'p outbox_event \<Rightarrow> bool" where
  "row_ok r \<longleftrightarrow> (locked_by r \<noteq> None \<longleftrightarrow> status r = Processing)
     \<and> (locked_until r \<noteq> None \<longleftrightarrow> status r = Processing)"

definition outbox_ok :: "'p outbox \<Rightarrow> bool" where
  "outbox_ok rows \<longleftrightarrow> distinct (map event_id rows) \<and> distinct (map public_id rows)
     \<and> (\<forall>r \<in> set rows. row_ok r)"

lemma outbox_ok_update:
  assumes "outbox_ok rows"
    and "\<And>r. event_id (f r) = event_id r \<and> public_id (f r) = public_id r"
    and "\<And>r. P r \<Longrightarrow> row_ok (f r)"
  shows "outbox_ok (update_where P f rows)"
  using assms by (simp add: outbox_ok_def map_update_where ball_update_where)

lemma row_ok_after [simp]:
  "row_ok (take_lease leaseMs w now r)" "row_ok (published_row now r)" "row_ok (refused_row r)"
  by (simp_all add: row_ok_def take_lease_def published_row_def refused_row_def)

lemma ids_after [simp]:
  "event_id (take_lease leaseMs w now r) = event_id r" "public_id (take_lease leaseMs w now r) = public_id r"
  "event_id (published_row now r) = event_id r" "public_id (published_row now r) = public_id r"
  "event_id (refused_row r) = event_id r" "public_id (refused_row r) = public_id r"
  by (simp_all add: take_lease_def published_row_def refused_row_def)

lemma outbox_ok_finalise [inv_intros]:
  "outbox_ok rows \<Longrightarrow> outbox_ok (markPublished i w now rows)"
  "outbox_ok rows \<Longrightarrow> outbox_ok (markPublishFailed i w rows)"
  unfolding markPublished_def markPublishFailed_def by (rule outbox_ok_update; simp)+

text \<open>A claim takes the lease of one claimable row; what it returns is that row as updated.\<close>

lemma claimNextEvent_Some:
  assumes "claimNextEvent leaseMs locked w now rows = (Some e, rows')"
  obtains r where "r \<in> set rows" "claimable_event now r" "event_id r \<notin> locked"
    "e = claimed_event (take_lease leaseMs w now r)"
    "rows' = update_where (\<lambda>x. event_id x = event_id r) (take_lease leaseMs w now) rows"
    "\<And>q. q \<in> set rows \<Longrightarrow> claimable_event now q \<Longrightarrow> event_id q \<notin> locked \<Longrightarrow>
       (created_at r, event_id r) \<le> (created_at q, event_id q)"
proof -
  obtain r where f: "first_by (\<lambda>r. (created_at r, event_id r))
      (\<lambda>r. claimable_event now r \<and> event_id r \<notin> locked) rows = Some r"
    using assms by (auto simp: claimNextEvent_def split: option.splits)
  with assms first_by_Some [OF f] show ?thesis
    by (intro that [of r]) (auto simp: claimNextEvent_def)
qed

lemma claimNextEvent_None:
  "claimNextEvent leaseMs locked w now rows = (None, rows') \<longleftrightarrow>
   rows' = rows \<and> (\<forall>r \<in> set rows. claimable_event now r \<longrightarrow> event_id r \<in> locked)"
  by (auto simp: claimNextEvent_def first_by_None split: option.splits dest: first_by_Some)

lemma outbox_ok_claim [inv_intros]:
  "outbox_ok rows \<Longrightarrow> claimNextEvent leaseMs locked w now rows = (e, rows') \<Longrightarrow> outbox_ok rows'"
  by (auto simp: claimNextEvent_def split: option.splits intro!: outbox_ok_update)

section \<open>The claim is a lease\<close>

definition claim_event_id ::
  "rat \<Rightarrow> nat set \<Rightarrow> string \<Rightarrow> rat \<Rightarrow> 'p outbox \<Rightarrow> nat option \<times> 'p outbox" where
  "claim_event_id leaseMs locked w now rows =
     (let (e, rows') = claimNextEvent leaseMs locked w now rows in (map_option ce_id e, rows'))"

definition claimable_ids :: "rat \<Rightarrow> 'p outbox \<Rightarrow> nat set" where
  "claimable_ids now rows = event_id ` {r \<in> set rows. claimable_event now r}"

definition event_lease :: "'p outbox \<Rightarrow> nat \<rightharpoonup> string \<times> rat" where
  "event_lease rows i =
     Option.bind (row_with (\<lambda>r. event_id r = i) rows) (\<lambda>r.
       case (locked_by r, locked_until r) of (Some w, Some t) \<Rightarrow> Some (w, t) | _ \<Rightarrow> None)"

lemma event_lease_claim:
  assumes "r \<in> set rows"
  shows "event_lease (update_where (\<lambda>x. event_id x = event_id r) (take_lease leaseMs w now) rows)
       = (event_lease rows)(event_id r \<mapsto> (w, now + leaseMs))"
proof
  fix i
  have "row_with (\<lambda>x. event_id x = event_id r) rows \<noteq> None"
    using assms by (auto simp: row_with_None)
  then show "event_lease (update_where (\<lambda>x. event_id x = event_id r) (take_lease leaseMs w now) rows) i
       = ((event_lease rows)(event_id r \<mapsto> (w, now + leaseMs))) i"
    by (auto simp: event_lease_def row_with_update_key) (simp add: take_lease_def)
qed

lemma leased_not_claimable:
  assumes "outbox_ok rows" and "event_lease rows i = Some (w, until)" and "now \<le> until"
  shows "i \<notin> claimable_ids now rows"
proof
  assume "i \<in> claimable_ids now rows"
  then obtain r where r: "r \<in> set rows" "claimable_event now r" "event_id r = i"
    by (auto simp: claimable_ids_def)
  have "row_with (\<lambda>x. event_id x = event_id r) rows = Some r"
    using assms(1) r(1) by (intro row_with_unique) (simp_all add: outbox_ok_def)
  then have "locked_by r = Some w" "locked_until r = Some until"
    using assms(2) r(3) by (auto simp: event_lease_def split: option.splits)
  moreover have "row_ok r" using assms(1) r(1) by (simp add: outbox_ok_def)
  ultimately show False using r(2) assms(3) by (auto simp: claimable_event_def row_ok_def)
qed

interpretation outbox: lease_queue "claim_event_id leaseMs" claimable_ids event_lease leaseMs outbox_ok
  for leaseMs
proof unfold_locales
  fix rows rows' :: "'a outbox" and locked w now i
  assume ok: "outbox_ok rows" and c: "claim_event_id leaseMs locked w now rows = (Some i, rows')"
  obtain e where e: "claimNextEvent leaseMs locked w now rows = (Some e, rows')" "ce_id e = i"
    using c by (auto simp: claim_event_id_def split: prod.splits)
  from e(1) obtain r where "r \<in> set rows" "claimable_event now r" "event_id r \<notin> locked"
    "e = claimed_event (take_lease leaseMs w now r)"
    "rows' = update_where (\<lambda>x. event_id x = event_id r) (take_lease leaseMs w now) rows"
    by (rule claimNextEvent_Some)
  moreover from this have "i = event_id r" using e(2) by (simp add: claimed_event_def)
  ultimately show "i \<in> claimable_ids now rows \<and> i \<notin> locked
      \<and> event_lease rows' = (event_lease rows)(i \<mapsto> (w, now + leaseMs)) \<and> outbox_ok rows'"
    using event_lease_claim outbox_ok_claim [OF ok e(1)] by (auto simp: claimable_ids_def)
next
  fix rows rows' :: "'a outbox" and locked w now
  assume "outbox_ok rows" and "claim_event_id leaseMs locked w now rows = (None, rows')"
  then have "claimNextEvent leaseMs locked w now rows = (None, rows')"
    by (auto simp: claim_event_id_def split: prod.splits)
  then show "claimable_ids now rows \<subseteq> locked \<and> rows' = rows"
    by (auto simp: claimNextEvent_None claimable_ids_def)
qed (rule leased_not_claimable)

section \<open>The simulated broker\<close>

record 'p BrokerEvent =
  be_publicId :: nat
  be_eventType :: string
  be_payload :: 'p

datatype BrokerMode = Succeed | Fail | Slow

record 'p SimulatedBroker =
  mode :: BrokerMode
  slowMs :: rat
  callCounts :: "nat \<Rightarrow> nat"
  calls :: nat
  deliveries :: "'p BrokerEvent list"

definition createSimulatedBroker :: "BrokerMode option \<Rightarrow> rat option \<Rightarrow> 'p SimulatedBroker" where
  "createSimulatedBroker m slow =
     \<lparr>mode = (case m of Some m \<Rightarrow> m | None \<Rightarrow> Succeed),
      slowMs = (case slow of Some ms \<Rightarrow> ms | None \<Rightarrow> 200),
      callCounts = (\<lambda>_. 0), calls = 0, deliveries = []\<rparr>"

text \<open>\<open>publish\<close>: the outcome, the time it took, and the broker after it.\<close>

definition publish ::
  "'p BrokerEvent \<Rightarrow> 'p SimulatedBroker \<Rightarrow> (string + unit) \<times> rat \<times> 'p SimulatedBroker" where
  "publish event b =
     (let b1 = b\<lparr>calls := calls b + 1,
                 callCounts := (callCounts b)(be_publicId event := callCounts b (be_publicId event) + 1)\<rparr>;
          dur = (if mode b = Slow then slowMs b else 0)
      in if mode b = Fail
         then (Inl (''simulated broker failure publishing '' @ nat_str (be_publicId event)), dur, b1)
         else (Inr (), dur, b1\<lparr>deliveries := deliveries b1 @ [event]\<rparr>))"

definition callCountFor :: "nat \<Rightarrow> 'p SimulatedBroker \<Rightarrow> nat" where
  "callCountFor publicId b = callCounts b publicId"

definition broker_event :: "'p ClaimedEvent \<Rightarrow> 'p BrokerEvent" where
  "broker_event e = \<lparr>be_publicId = ce_publicId e, be_eventType = ce_eventType e,
     be_payload = ce_payload e\<rparr>"

section \<open>Publishing one event\<close>

record 'p publisher_world =
  clock :: rat
  outbox_events :: "'p outbox"
  broker :: "'p SimulatedBroker"

datatype 'p ClaimAndPublishResult =
    NotClaimed
  | ClaimedPublished "'p ClaimedEvent"
  | ClaimedFailed "'p ClaimedEvent" string

definition claimAndPublish ::
  "nat set \<Rightarrow> string \<Rightarrow> rat \<Rightarrow> bool \<Rightarrow> 'p publisher_world \<Rightarrow> 'p ClaimAndPublishResult \<times> 'p publisher_world" where
  "claimAndPublish locked workerId leaseMs skipFinalize w =
     (case claimNextEvent leaseMs locked workerId (clock w) (outbox_events w) of
        (None, rows1) \<Rightarrow> (NotClaimed, w\<lparr>outbox_events := rows1\<rparr>)
      | (Some event, rows1) \<Rightarrow>
          (case publish (broker_event event) (broker w) of
             (Inr _, dur, b1) \<Rightarrow>
               if skipFinalize
               then (ClaimedPublished event,
                     w\<lparr>clock := clock w + dur, outbox_events := rows1, broker := b1\<rparr>)
               else (ClaimedPublished event,
                     w\<lparr>clock := clock w + dur,
                       outbox_events := markPublished (ce_id event) workerId (clock w + dur) rows1,
                       broker := b1\<rparr>)
           | (Inl message, dur, b1) \<Rightarrow>
               (ClaimedFailed event message,
                w\<lparr>clock := clock w + dur,
                  outbox_events := markPublishFailed (ce_id event) workerId rows1, broker := b1\<rparr>)))"

section \<open>The idempotent consumer\<close>

record 'p consumer =
  processed_events :: "nat list"
  applied :: "'p BrokerEvent list"

definition consumeIdempotently :: "'p BrokerEvent \<Rightarrow> 'p consumer \<Rightarrow> bool \<times> 'p consumer" where
  "consumeIdempotently event c =
     (if be_publicId event \<in> set (processed_events c) then (True, c)
      else (False, c\<lparr>processed_events := processed_events c @ [be_publicId event],
                     applied := applied c @ [event]\<rparr>))"

definition consume_by_id :: "nat \<Rightarrow> string \<times> 'p \<Rightarrow> 'p consumer \<Rightarrow> unit \<times> 'p consumer" where
  "consume_by_id pid p c =
     ((), snd (consumeIdempotently \<lparr>be_publicId = pid, be_eventType = fst p, be_payload = snd p\<rparr> c))"

definition recorded_ids :: "'p consumer \<Rightarrow> nat \<rightharpoonup> unit" where
  "recorded_ids c pid = (if pid \<in> set (processed_events c) then Some () else None)"

interpretation consumer: idempotent_receiver consume_by_id "\<lambda>c. length (applied c)" recorded_ids
  "\<lambda>_. True" "\<lambda>_. True"
  by unfold_locales
    (auto simp: consume_by_id_def consumeIdempotently_def recorded_ids_def split: if_splits)

section \<open>The crash scenarios\<close>

record CrashedPublisherResult =
  brokerCallCount :: nat
  workerAAttempt :: nat
  workerBAttempt :: nat
  finalStatus :: event_status
  finalAttempts :: nat

definition reclaim_after_crash ::
  "rat \<Rightarrow> string \<Rightarrow> 'p ClaimedEvent \<Rightarrow> 'p publisher_world \<Rightarrow> string + 'p ClaimedEvent \<times> 'p publisher_world" where
  "reclaim_after_crash leaseMs workerB eventA w1 =
     (let now = clock w1 + (leaseMs + 150) in
      case claimNextEvent leaseMs {} workerB now (outbox_events w1) of
        (None, _) \<Rightarrow> Inl ''expected worker B to reclaim the exact event worker A crashed on''
      | (Some claimB, rows) \<Rightarrow>
          if ce_id claimB \<noteq> ce_id eventA
          then Inl ''expected worker B to reclaim the exact event worker A crashed on''
          else (case publish (broker_event claimB) (broker w1) of
                  (Inl message, _, _) \<Rightarrow> Inl message
                | (Inr _, dur, b2) \<Rightarrow>
                    Inr (claimB, \<lparr>clock = now + dur,
                      outbox_events = markPublished (ce_id claimB) workerB (now + dur) rows,
                      broker = b2\<rparr>)))"

definition event_of :: "'p ClaimAndPublishResult \<Rightarrow> 'p ClaimedEvent option" where
  "event_of r = (case r of NotClaimed \<Rightarrow> None | ClaimedPublished e \<Rightarrow> Some e | ClaimedFailed e _ \<Rightarrow> Some e)"

definition runCrashedPublisherDemo ::
  "rat \<Rightarrow> 'p publisher_world \<Rightarrow> string + CrashedPublisherResult \<times> 'p publisher_world" where
  "runCrashedPublisherDemo leaseMs w =
     (let (resultA, w1) = claimAndPublish {} ''worker-crash-a'' leaseMs True w in
      case event_of resultA of
        None \<Rightarrow> Inl ''no claimable event - seed a pending outbox_events row first''
      | Some a \<Rightarrow>
          (case reclaim_after_crash leaseMs ''worker-crash-b'' a w1 of
             Inl message \<Rightarrow> Inl message
           | Inr (b, w2) \<Rightarrow>
               (case row_with (\<lambda>r. event_id r = ce_id a) (outbox_events w2) of
                  None \<Rightarrow> Inl ''TypeError''
                | Some final \<Rightarrow>
                    Inr (\<lparr>brokerCallCount = callCountFor (ce_publicId a) (broker w2),
                          workerAAttempt = ce_attempts a, workerBAttempt = ce_attempts b,
                          finalStatus = status final, finalAttempts = attempts final\<rparr>, w2))))"

record IdempotentPreviewResult =
  ipr_brokerCallCount :: nat
  sideEffectApplications :: nat
  ipr_finalStatus :: event_status

text \<open>The same interleaving with the consumer behind the broker; \<open>processed\<close> is its inbox table.\<close>

definition runIdempotentConsumerPreview ::
  "rat \<Rightarrow> nat list \<Rightarrow> 'p publisher_world \<Rightarrow> string + IdempotentPreviewResult \<times> 'p publisher_world" where
  "runIdempotentConsumerPreview leaseMs processed w =
     (let (resultA, w1) = claimAndPublish {} ''worker-preview-a'' leaseMs True w in
      case event_of resultA of
        None \<Rightarrow> Inl ''no claimable event - seed a pending outbox_events row first''
      | Some a \<Rightarrow>
          (let (dedupA, c1) = consumeIdempotently (broker_event a) \<lparr>processed_events = processed, applied = []\<rparr> in
           case reclaim_after_crash leaseMs ''worker-preview-b'' a w1 of
             Inl message \<Rightarrow> Inl message
           | Inr (b, w2) \<Rightarrow>
               (let (dedupB, c2) = consumeIdempotently (broker_event b) c1 in
                case row_with (\<lambda>r. event_id r = ce_id a) (outbox_events w2) of
                  None \<Rightarrow> Inl ''TypeError''
                | Some final \<Rightarrow>
                    Inr (\<lparr>ipr_brokerCallCount = callCountFor (ce_publicId a) (broker w2),
                          sideEffectApplications = length (applied c2),
                          ipr_finalStatus = status final\<rparr>, w2))))"

section \<open>What a crash between the call and the record costs\<close>

lemma broker_event_id [simp]: "be_publicId (broker_event e) = ce_publicId e"
  by (simp add: broker_event_def)

lemma publish_ok:
  assumes "mode b \<noteq> Fail"
  obtains dur b' where "publish e b = (Inr (), dur, b')" "0 \<le> slowMs b \<Longrightarrow> 0 \<le> dur"
    "callCounts b' = (callCounts b)(be_publicId e := callCounts b (be_publicId e) + 1)"
    "mode b' = mode b" "slowMs b' = slowMs b" "deliveries b' = deliveries b @ [e]"
  using assms by (auto simp: publish_def Let_def)

lemma claim_least:
  assumes "outbox_ok rows" and "r \<in> set rows" and "claimable_event now r" and "event_id r \<notin> locked"
    and "\<And>q. q \<in> set rows \<Longrightarrow> claimable_event now q \<Longrightarrow> event_id q \<notin> locked \<Longrightarrow>
       (created_at r, event_id r) \<le> (created_at q, event_id q)"
  shows "claimNextEvent leaseMs locked w now rows =
     (Some (claimed_event (take_lease leaseMs w now r)),
      update_where (\<lambda>x. event_id x = event_id r) (take_lease leaseMs w now) rows)"
proof -
  have "inj_on (\<lambda>r. (created_at r, event_id r)) (set rows)"
    using assms(1) by (auto simp: outbox_ok_def distinct_map inj_on_def)
  then have "first_by (\<lambda>r. (created_at r, event_id r))
      (\<lambda>r. claimable_event now r \<and> event_id r \<notin> locked) rows = Some r"
    using assms(2-5) by (intro first_by_eqI) auto
  then show ?thesis by (simp add: claimNextEvent_def)
qed

text \<open>The row a crashed worker left behind is the next one claimed once its lease is over.\<close>

lemma claim_again:
  assumes "outbox_ok rows" and "\<forall>r \<in> set rows. status r \<noteq> Processing"
    and "claimNextEvent leaseMs {} w now rows = (Some e, rows1)" and "now + leaseMs < now2"
  obtains r where "r \<in> set rows" "e = claimed_event (take_lease leaseMs w now r)"
    "take_lease leaseMs w now r \<in> set rows1"
    "claimNextEvent leaseMs {} v now2 rows1 =
      (Some (claimed_event (take_lease leaseMs v now2 (take_lease leaseMs w now r))),
       update_where (\<lambda>x. event_id x = event_id r) (take_lease leaseMs v now2) rows1)"
proof -
  obtain r where r: "r \<in> set rows" "claimable_event now r" "e = claimed_event (take_lease leaseMs w now r)"
    and rows1: "rows1 = update_where (\<lambda>x. event_id x = event_id r) (take_lease leaseMs w now) rows"
    and least: "\<And>q. q \<in> set rows \<Longrightarrow> claimable_event now q \<Longrightarrow>
       (created_at r, event_id r) \<le> (created_at q, event_id q)"
    using assms(3) by (rule claimNextEvent_Some) auto
  let ?r = "take_lease leaseMs w now r"
  have r1: "?r \<in> set rows1" using r(1) by (auto simp: rows1 set_update_where)
  have "(created_at ?r, event_id ?r) \<le> (created_at q, event_id q)"
    if q: "q \<in> set rows1" "claimable_event now2 q" for q
  proof -
    from q(1) obtain p where p: "p \<in> set rows" "q = (if event_id p = event_id r then take_lease leaseMs w now p else p)"
      by (auto simp: rows1 set_update_where)
    show ?thesis
    proof (cases "event_id p = event_id r")
      case True
      then have "p = r" using p(1) r(1) assms(1) by (auto simp: outbox_ok_def intro: distinct_map_unique)
      with p True show ?thesis by simp
    next
      case False
      then have "claimable_event now p" using p q(2) assms(2) by (auto simp: claimable_event_def)
      with least [OF p(1)] False p(2) show ?thesis by (simp add: take_lease_def)
    qed
  qed
  moreover have "claimable_event now2 ?r"
    using assms(4) by (simp add: claimable_event_def take_lease_def)
  moreover have "outbox_ok rows1" by (rule outbox_ok_claim [OF assms(1,3)])
  ultimately have "claimNextEvent leaseMs {} v now2 rows1 =
      (Some (claimed_event (take_lease leaseMs v now2 ?r)),
       update_where (\<lambda>x. event_id x = event_id ?r) (take_lease leaseMs v now2) rows1)"
    using r1 by (intro claim_least) auto
  then show ?thesis using that r r1 by simp
qed

lemma crash_then_reclaim:
  assumes ok: "outbox_ok (outbox_events w)" and idle: "\<forall>r \<in> set (outbox_events w). status r \<noteq> Processing"
    and some: "r0 \<in> set (outbox_events w)" "status r0 = Pending"
    and br: "mode (broker w) \<noteq> Fail" "0 \<le> slowMs (broker w)" and lease: "0 \<le> leaseMs"
  obtains a w1 b w2 final where
    "claimAndPublish {} va leaseMs True w = (ClaimedPublished a, w1)"
    "reclaim_after_crash leaseMs vb a w1 = Inr (b, w2)"
    "ce_publicId b = ce_publicId a" "ce_attempts b = ce_attempts a + 1"
    "row_with (\<lambda>r. event_id r = ce_id a) (outbox_events w2) = Some final"
    "status final = Published" "attempts final = ce_attempts b" "public_id final = ce_publicId a"
    "callCounts (broker w2) (ce_publicId a) = callCounts (broker w) (ce_publicId a) + 2"
proof -
  obtain e rows1 where c1: "claimNextEvent leaseMs {} va (clock w) (outbox_events w) = (Some e, rows1)"
  proof (cases "claimNextEvent leaseMs {} va (clock w) (outbox_events w)")
    case (Pair x rows1)
    have "x \<noteq> None"
    proof
      assume "x = None"
      with Pair have "\<not> claimable_event (clock w) r0" using some(1) by (auto simp: claimNextEvent_None)
      then show False using some(2) by (simp add: claimable_event_def)
    qed
    with Pair that show ?thesis by auto
  qed
  obtain d1 b1 where p1: "publish (broker_event e) (broker w) = (Inr (), d1, b1)" "0 \<le> d1"
    "callCounts b1 = (callCounts (broker w))(ce_publicId e := callCounts (broker w) (ce_publicId e) + 1)"
    "mode b1 = mode (broker w)"
    using br(2) unfolding broker_event_id [of e, symmetric] by (metis publish_ok [OF br(1)])
  define now2 where "now2 = clock w + d1 + (leaseMs + 150)"
  have later: "clock w + leaseMs < now2" using p1(2) by (simp add: now2_def)
  obtain r where r: "r \<in> set (outbox_events w)" "e = claimed_event (take_lease leaseMs va (clock w) r)"
    "take_lease leaseMs va (clock w) r \<in> set rows1"
    and c2: "claimNextEvent leaseMs {} vb now2 rows1 =
      (Some (claimed_event (take_lease leaseMs vb now2 (take_lease leaseMs va (clock w) r))),
       update_where (\<lambda>x. event_id x = event_id r) (take_lease leaseMs vb now2) rows1)"
    by (rule claim_again [OF ok idle c1 later, where v = vb])
  let ?r2 = "take_lease leaseMs vb now2 (take_lease leaseMs va (clock w) r)"
  let ?b = "claimed_event ?r2"
  let ?rows2 = "update_where (\<lambda>x. event_id x = event_id r) (take_lease leaseMs vb now2) rows1"
  have ids: "ce_id ?b = event_id r" "ce_id e = event_id r" "ce_publicId ?b = ce_publicId e"
    "ce_publicId e = public_id r" by (simp_all add: r(2) claimed_event_def)
  obtain d2 b2 where p2: "publish (broker_event ?b) b1 = (Inr (), d2, b2)"
    "callCounts b2 = (callCounts b1)(ce_publicId ?b := callCounts b1 (ce_publicId ?b) + 1)"
    using br(1) p1(4) unfolding broker_event_id [of ?b, symmetric] by (metis publish_ok)
  define rows3 where "rows3 = markPublished (event_id r) vb (now2 + d2) ?rows2"
  have "outbox_ok ?rows2"
    by (rule outbox_ok_claim [OF outbox_ok_claim [OF ok c1] c2])
  then have ok3: "outbox_ok rows3" unfolding rows3_def by (rule outbox_ok_finalise)
  have "?r2 \<in> set ?rows2" using r(3) by (force simp: set_update_where)
  then have in3: "published_row (now2 + d2) ?r2 \<in> set rows3"
    by (force simp: rows3_def markPublished_def set_update_where take_lease_def)
  have row: "row_with (\<lambda>x. event_id x = event_id r) rows3 = Some (published_row (now2 + d2) ?r2)"
    using row_with_unique [OF _ in3, of event_id] ok3 by (simp add: outbox_ok_def)
  show ?thesis
  proof (rule that [where final = "published_row (now2 + d2) ?r2"])
    show "claimAndPublish {} va leaseMs True w
        = (ClaimedPublished e, w\<lparr>clock := clock w + d1, outbox_events := rows1, broker := b1\<rparr>)"
      by (simp add: claimAndPublish_def c1 p1(1))
    show "reclaim_after_crash leaseMs vb e (w\<lparr>clock := clock w + d1, outbox_events := rows1, broker := b1\<rparr>)
        = Inr (?b, \<lparr>clock = now2 + d2, outbox_events = rows3, broker = b2\<rparr>)"
      using c2 p2(1) ids by (simp add: reclaim_after_crash_def now2_def rows3_def Let_def add.assoc)
  qed (use row ids p1(3) p2(2) in
    \<open>simp_all add: r(2) claimed_event_def published_row_def take_lease_def\<close>)
qed

text \<open>
  The duplicate Lab 17 demonstrates, and its cure. When a worker dies after its broker call and
  before recording it, the next worker reclaims the same event after the lease and the broker is
  called a second time; the event still ends up published, and the consumer that remembers ids
  applies the effect once.
\<close>

lemma crash_duplicates_call_not_effect:
  assumes "outbox_ok (outbox_events w)" and "\<forall>r \<in> set (outbox_events w). status r \<noteq> Processing"
    and "r0 \<in> set (outbox_events w)" and "status r0 = Pending"
    and "mode (broker w) \<noteq> Fail" and "0 \<le> slowMs (broker w)" and "0 \<le> leaseMs"
    and "\<forall>i. callCounts (broker w) i = 0"
  shows "(\<exists>res w2. runCrashedPublisherDemo leaseMs w = Inr (res, w2)
           \<and> brokerCallCount res = 2 \<and> finalStatus res = Published
           \<and> workerBAttempt res = workerAAttempt res + 1 \<and> finalAttempts res = workerBAttempt res)
       \<and> (\<exists>res w2. runIdempotentConsumerPreview leaseMs [] w = Inr (res, w2)
           \<and> ipr_brokerCallCount res = 2 \<and> sideEffectApplications res = 1
           \<and> ipr_finalStatus res = Published)"
proof
  show "\<exists>res w2. runCrashedPublisherDemo leaseMs w = Inr (res, w2)
           \<and> brokerCallCount res = 2 \<and> finalStatus res = Published
           \<and> workerBAttempt res = workerAAttempt res + 1 \<and> finalAttempts res = workerBAttempt res"
    by (rule crash_then_reclaim [OF assms(1-7), of "''worker-crash-a''" "''worker-crash-b''"])
      (simp add: runCrashedPublisherDemo_def event_of_def callCountFor_def assms(8))
  show "\<exists>res w2. runIdempotentConsumerPreview leaseMs [] w = Inr (res, w2)
           \<and> ipr_brokerCallCount res = 2 \<and> sideEffectApplications res = 1
           \<and> ipr_finalStatus res = Published"
    by (rule crash_then_reclaim [OF assms(1-7), of "''worker-preview-a''" "''worker-preview-b''"])
      (simp add: runIdempotentConsumerPreview_def event_of_def callCountFor_def assms(8)
        consumeIdempotently_def broker_event_def)
qed

definition one_event_world :: "unit publisher_world" where
  "one_event_world = \<lparr>clock = 1000,
     outbox_events = [\<lparr>event_id = 1, public_id = 77, event_type = ''EmployeeHired'', payload = (),
       status = Pending, locked_by = None, locked_until = None, attempts = 0, max_attempts = 5,
       created_at = 0, published_at = None\<rparr>],
     broker = createSimulatedBroker None None\<rparr>"

lemma crash_duplicates_call_not_effect_witness:
  "\<exists>res w2. runIdempotentConsumerPreview 500 [] one_event_world = Inr (res, w2)
     \<and> ipr_brokerCallCount res = 2 \<and> sideEffectApplications res = 1"
  using crash_duplicates_call_not_effect [of one_event_world "hd (outbox_events one_event_world)" 500]
  by (auto simp: one_event_world_def outbox_ok_def row_ok_def createSimulatedBroker_def)

end
