(* ===== verification/Outbox_Workers.thy ===== *)
theory Outbox_Workers
  imports Outbox_Queue
begin

text \<open>
  Any number of Lab 17 publisher workers on one outbox: each of the three steps of \<open>claimAndPublish\<close>
  (claim, call the broker, record the outcome) is a transition of its own, a worker may die after
  any of them, and the broker may refuse any call. Leases expire by the clock alone, so a slow worker
  can find its event reclaimed.
\<close>

section \<open>Workers\<close>

datatype 'p worker_pc =
    Idle
  | Claimed "'p ClaimedEvent"
  | Sent "'p ClaimedEvent"
  | Refused "'p ClaimedEvent"

record 'p outbox_system =
  rows :: "'p outbox"
  the_broker :: "'p SimulatedBroker"
  pc :: "string \<Rightarrow> 'p worker_pc"

inductive outbox_step :: "rat \<Rightarrow> 'p outbox_system \<Rightarrow> 'p outbox_system \<Rightarrow> bool" for leaseMs where
  claim: "pc s w = Idle \<Longrightarrow> claimNextEvent leaseMs locked w now (rows s) = (Some e, rows') \<Longrightarrow>
    outbox_step leaseMs s (s\<lparr>rows := rows', pc := (pc s)(w := Claimed e)\<rparr>)"
| send: "pc s w = Claimed e \<Longrightarrow> publish (broker_event e) ((the_broker s)\<lparr>mode := m\<rparr>) = (res, dur, b') \<Longrightarrow>
    outbox_step leaseMs s
      (s\<lparr>the_broker := b', pc := (pc s)(w := (case res of Inr _ \<Rightarrow> Sent e | Inl _ \<Rightarrow> Refused e))\<rparr>)"
| finish: "pc s w = Sent e \<Longrightarrow>
    outbox_step leaseMs s
      (s\<lparr>rows := markPublished (ce_id e) w now (rows s), pc := (pc s)(w := Idle)\<rparr>)"
| give_up: "pc s w = Refused e \<Longrightarrow>
    outbox_step leaseMs s (s\<lparr>rows := markPublishFailed (ce_id e) w (rows s), pc := (pc s)(w := Idle)\<rparr>)"
| crash: "outbox_step leaseMs s (s\<lparr>pc := (pc s)(w := Idle)\<rparr>)"

inductive outbox_reach :: "rat \<Rightarrow> 'p outbox \<Rightarrow> 'p outbox_system \<Rightarrow> bool" for leaseMs rows0 where
  init: "outbox_reach leaseMs rows0
    \<lparr>rows = rows0, the_broker = createSimulatedBroker m slow, pc = (\<lambda>_. Idle)\<rparr>"
| step: "outbox_reach leaseMs rows0 s \<Longrightarrow> outbox_step leaseMs s s' \<Longrightarrow> outbox_reach leaseMs rows0 s'"

inductive_simps claim_simps: "outbox_step leaseMs s s'"

section \<open>What every step keeps\<close>

fun event_in_hand :: "'p worker_pc \<Rightarrow> 'p ClaimedEvent option" where
  "event_in_hand Idle = None"
| "event_in_hand (Claimed e) = Some e"
| "event_in_hand (Sent e) = Some e"
| "event_in_hand (Refused e) = Some e"

definition delivered :: "'p outbox_system \<Rightarrow> nat \<Rightarrow> bool" where
  "delivered s pid \<longleftrightarrow> pid \<in> be_publicId ` set (deliveries (the_broker s))"

definition about_to_call :: "'p outbox_system \<Rightarrow> nat \<Rightarrow> string set" where
  "about_to_call s i = {w. \<exists>e. pc s w = Claimed e \<and> ce_id e = i}"

definition outbox_inv :: "'p outbox_system \<Rightarrow> bool" where
  "outbox_inv s \<longleftrightarrow> outbox_ok (rows s)
     \<and> (\<forall>w e. event_in_hand (pc s w) = Some e \<longrightarrow>
          (\<exists>r \<in> set (rows s). event_id r = ce_id e \<and> public_id r = ce_publicId e))
     \<and> (\<forall>w e. pc s w = Sent e \<longrightarrow> delivered s (ce_publicId e))
     \<and> (\<forall>r \<in> set (rows s). status r = Published \<longrightarrow> delivered s (public_id r))
     \<and> finite {w. pc s w \<noteq> Idle}
     \<and> (\<forall>r \<in> set (rows s).
          callCounts (the_broker s) (public_id r) + card (about_to_call s (event_id r)) \<le> attempts r)"

text \<open>Every update of the table keeps ids, so the event a worker holds stays in the table.\<close>

lemma in_hand_kept:
  assumes "\<exists>r \<in> set rs. event_id r = i \<and> public_id r = p"
    and "\<And>r. event_id (f r) = event_id r \<and> public_id (f r) = public_id r"
  shows "\<exists>r \<in> set (update_where P f rs). event_id r = i \<and> public_id r = p"
  using assms unfolding bex_update_where by (metis (full_types))

lemma about_to_call_finite: "outbox_inv s \<Longrightarrow> finite (about_to_call s i)"
  by (rule finite_subset [of _ "{w. pc s w \<noteq> Idle}"]) (auto simp: outbox_inv_def about_to_call_def)

lemma finite_busy_upd: "finite {w. pc s w \<noteq> Idle} \<Longrightarrow> finite {v. ((pc s)(w := x)) v \<noteq> Idle}"
  by (rule finite_subset [of _ "insert w {w. pc s w \<noteq> Idle}"]) auto

lemma about_upd_other:
  "(\<And>e. x \<noteq> Claimed e) \<Longrightarrow> about_to_call (s\<lparr>pc := (pc s)(w := x)\<rparr>) i = about_to_call s i - {w}"
  by (auto simp: about_to_call_def)

lemma about_upd_claimed:
  "about_to_call (s\<lparr>pc := (pc s)(w := Claimed e)\<rparr>) i
     = (if ce_id e = i then insert w (about_to_call s i) else about_to_call s i - {w})"
  by (auto simp: about_to_call_def)

lemma about_rows [simp]: "about_to_call (s\<lparr>rows := rs\<rparr>) i = about_to_call s i"
  and about_broker [simp]: "about_to_call (s\<lparr>the_broker := b\<rparr>) i = about_to_call s i"
  and delivered_rows [simp]: "delivered (s\<lparr>rows := rs\<rparr>) p = delivered s p"
  and delivered_pc [simp]: "delivered (s\<lparr>pc := f\<rparr>) p = delivered s p"
  by (simp_all add: about_to_call_def delivered_def)

text \<open>A worker that goes idle (by finishing, giving up or dying) changes nothing but its own counter.\<close>

lemma outbox_inv_idle:
  assumes "outbox_inv s"
  shows "outbox_inv (s\<lparr>pc := (pc s)(w := Idle)\<rparr>)"
proof -
  have card: "card (about_to_call s i - {w}) \<le> card (about_to_call s i)" for i
    using about_to_call_finite [OF assms] by (intro card_mono) auto
  have "callCounts (the_broker s) (public_id r) + card (about_to_call s (event_id r) - {w}) \<le> attempts r"
    if "r \<in> set (rows s)" for r
    using assms that card [of "event_id r"] unfolding outbox_inv_def by force
  with assms finite_busy_upd [of s w Idle] show ?thesis
    by (simp add: outbox_inv_def about_upd_other)
qed

lemma outbox_inv_rows:
  assumes inv: "outbox_inv s"
    and keep: "\<And>r. event_id (f r) = event_id r \<and> public_id (f r) = public_id r \<and> attempts r \<le> attempts (f r)"
    and ok: "outbox_ok (update_where P f (rows s))"
    and pub: "\<And>r. r \<in> set (rows s) \<Longrightarrow> P r \<Longrightarrow> status (f r) = Published \<Longrightarrow> delivered s (public_id r)"
  shows "outbox_inv (s\<lparr>rows := update_where P f (rows s)\<rparr>)"
proof -
  have "\<exists>r \<in> set (update_where P f (rows s)). event_id r = ce_id e \<and> public_id r = ce_publicId e"
    if "event_in_hand (pc s w) = Some e" for w e
    by (rule in_hand_kept) (use inv that keep in \<open>auto simp: outbox_inv_def\<close>)
  moreover have "\<forall>r \<in> set (update_where P f (rows s)). status r = Published \<longrightarrow> delivered s (public_id r)"
    unfolding ball_update_where using inv pub keep by (auto simp: outbox_inv_def)
  moreover have "\<forall>r \<in> set (update_where P f (rows s)).
      callCounts (the_broker s) (public_id r) + card (about_to_call s (event_id r)) \<le> attempts r"
    unfolding ball_update_where
  proof
    fix r assume "r \<in> set (rows s)"
    then have "callCounts (the_broker s) (public_id r) + card (about_to_call s (event_id r)) \<le> attempts r"
      using inv by (simp add: outbox_inv_def)
    with keep [of r] show "if P r then callCounts (the_broker s) (public_id (f r))
        + card (about_to_call s (event_id (f r))) \<le> attempts (f r)
      else callCounts (the_broker s) (public_id r) + card (about_to_call s (event_id r)) \<le> attempts r"
      by auto
  qed
  ultimately show ?thesis using inv ok by (simp add: outbox_inv_def)
qed

lemma in_hand_row:
  "outbox_inv s \<Longrightarrow> event_in_hand (pc s w) = Some e \<Longrightarrow>
   \<exists>r \<in> set (rows s). event_id r = ce_id e \<and> public_id r = ce_publicId e"
  unfolding outbox_inv_def by blast

lemma sent_delivered: "outbox_inv s \<Longrightarrow> pc s w = Sent e \<Longrightarrow> delivered s (ce_publicId e)"
  unfolding outbox_inv_def by blast

lemma row_in_hand:
  assumes "outbox_inv s" and "event_in_hand (pc s w) = Some e" and "r \<in> set (rows s)"
  shows "event_id r = ce_id e \<longleftrightarrow> public_id r = ce_publicId e"
proof -
  obtain q where "q \<in> set (rows s)" "event_id q = ce_id e" "public_id q = ce_publicId e"
    using in_hand_row [OF assms(1,2)] by blast
  moreover have "distinct (map event_id (rows s))" "distinct (map public_id (rows s))"
    using assms(1) by (simp_all add: outbox_inv_def outbox_ok_def)
  ultimately show ?thesis using assms(3) by (metis distinct_map_unique)
qed

lemma outbox_inv_claim:
  assumes inv: "outbox_inv s" and idle: "pc s w = Idle"
    and c: "claimNextEvent leaseMs locked w now (rows s) = (Some e, rows')"
  shows "outbox_inv (s\<lparr>rows := rows', pc := (pc s)(w := Claimed e)\<rparr>)"
proof -
  obtain r where r: "r \<in> set (rows s)" "e = claimed_event (take_lease leaseMs w now r)"
    and rows': "rows' = update_where (\<lambda>x. event_id x = event_id r) (take_lease leaseMs w now) (rows s)"
    using c by (rule claimNextEvent_Some)
  let ?f = "take_lease leaseMs w now"
  have e: "ce_id e = event_id r" "ce_publicId e = public_id r" by (simp_all add: r(2) claimed_event_def)
  have ok: "outbox_ok rows'" by (rule outbox_ok_claim [OF _ c]) (use inv in \<open>simp add: outbox_inv_def\<close>)
  have s1: "outbox_inv (s\<lparr>rows := rows'\<rparr>)"
    unfolding rows' by (rule outbox_inv_rows [OF inv]) (use ok rows' in \<open>simp_all add: take_lease_def\<close>)
  have w: "w \<notin> about_to_call s i" for i using idle by (simp add: about_to_call_def)
  have "callCounts (the_broker s) (public_id q)
      + card (about_to_call (s\<lparr>pc := (pc s)(w := Claimed e)\<rparr>) (event_id q)) \<le> attempts q"
    if q: "q \<in> set rows'" for q
  proof -
    obtain p where p: "p \<in> set (rows s)" "q = (if event_id p = event_id r then ?f p else p)"
      using q by (auto simp: rows' set_update_where)
    have "callCounts (the_broker s) (public_id p) + card (about_to_call s (event_id p)) \<le> attempts p"
      using inv p(1) by (simp add: outbox_inv_def)
    with p(2) e w about_to_call_finite [OF inv] show ?thesis
      by (auto simp: about_upd_claimed take_lease_def)
  qed
  moreover have "\<exists>q \<in> set rows'. event_id q = ce_id e \<and> public_id q = ce_publicId e"
    using r(1) e by (intro bexI [of _ "?f r"]) (auto simp: rows' set_update_where)
  moreover have "finite {v. ((pc s)(w := Claimed e)) v \<noteq> Idle}"
    using inv by (intro finite_busy_upd) (simp add: outbox_inv_def)
  ultimately show ?thesis using s1 by (auto simp: outbox_inv_def about_to_call_def delivered_def)
qed

lemma publish_calls:
  assumes "publish e b = (res, dur, b')"
  shows "callCounts b' = (callCounts b)(be_publicId e := callCounts b (be_publicId e) + 1)"
    and "set (deliveries b) \<subseteq> set (deliveries b')"
    and "res = Inr x \<Longrightarrow> be_publicId e \<in> be_publicId ` set (deliveries b')"
  using assms by (auto simp: publish_def Let_def split: if_splits)

lemma outbox_inv_send:
  assumes inv: "outbox_inv s" and held: "pc s w = Claimed e"
    and p: "publish (broker_event e) ((the_broker s)\<lparr>mode := m\<rparr>) = (res, dur, b')"
    and x: "x = (case res of Inr _ \<Rightarrow> Sent e | Inl _ \<Rightarrow> Refused e)"
  shows "outbox_inv (s\<lparr>the_broker := b', pc := (pc s)(w := x)\<rparr>)"
proof -
  note calls = publish_calls [OF p]
  have counts: "callCounts b' q = callCounts (the_broker s) q + (if q = ce_publicId e then 1 else 0)" for q
    using calls(1) by simp
  have deliv: "delivered s q \<Longrightarrow> q \<in> be_publicId ` set (deliveries b')" for q
    using calls(2) by (auto simp: delivered_def)
  have xe: "x = Sent e \<or> x = Refused e" "x = Sent e \<Longrightarrow> ce_publicId e \<in> be_publicId ` set (deliveries b')"
    using x calls(3) by (auto split: sum.splits)
  have w: "w \<in> about_to_call s i \<longleftrightarrow> i = ce_id e" for i using held by (auto simp: about_to_call_def)
  have "callCounts b' (public_id r) + card (about_to_call (s\<lparr>pc := (pc s)(w := x)\<rparr>) (event_id r)) \<le> attempts r"
    if r: "r \<in> set (rows s)" for r
  proof -
    have le: "callCounts (the_broker s) (public_id r) + card (about_to_call s (event_id r)) \<le> attempts r"
      using inv r by (simp add: outbox_inv_def)
    have same: "event_id r = ce_id e \<longleftrightarrow> public_id r = ce_publicId e"
      using row_in_hand [OF inv _ r, of w e] held by simp
    have "about_to_call (s\<lparr>pc := (pc s)(w := x)\<rparr>) (event_id r) = about_to_call s (event_id r) - {w}"
      using xe(1) by (intro about_upd_other) auto
    moreover have "Suc (card (about_to_call s (event_id r) - {w})) = card (about_to_call s (event_id r))"
      if "event_id r = ce_id e"
      using w that about_to_call_finite [OF inv] by (intro card_Suc_Diff1) auto
    moreover have "about_to_call s (event_id r) - {w} = about_to_call s (event_id r)"
      if "event_id r \<noteq> ce_id e" using w that by auto
    ultimately show ?thesis using le same counts by (cases "event_id r = ce_id e") auto
  qed
  moreover have "\<exists>r \<in> set (rows s). event_id r = ce_id e' \<and> public_id r = ce_publicId e'"
    if "event_in_hand (((pc s)(w := x)) v) = Some e'" for v e'
  proof (cases "v = w")
    case True
    then have "e' = e" using that xe(1) by auto
    then show ?thesis using in_hand_row [OF inv, of w] held by simp
  next
    case False
    then show ?thesis using in_hand_row [OF inv, of v] that by simp
  qed
  moreover have "ce_publicId e' \<in> be_publicId ` set (deliveries b')"
    if "((pc s)(w := x)) v = Sent e'" for v e'
  proof (cases "v = w")
    case True
    then show ?thesis using that xe by auto
  next
    case False
    then show ?thesis using sent_delivered [OF inv, of v] that deliv by simp
  qed
  moreover have "\<forall>r \<in> set (rows s). status r = Published \<longrightarrow> public_id r \<in> be_publicId ` set (deliveries b')"
    using inv deliv by (simp add: outbox_inv_def)
  moreover have "finite {v. ((pc s)(w := x)) v \<noteq> Idle}"
    using inv by (intro finite_busy_upd) (simp add: outbox_inv_def)
  moreover have "outbox_ok (rows s)" using inv by (simp add: outbox_inv_def)
  ultimately show ?thesis by (simp add: outbox_inv_def delivered_def about_to_call_def)
qed

lemma outbox_inv_step [inv_intros]:
  assumes "outbox_step leaseMs s s'" and "outbox_inv s"
  shows "outbox_inv s'"
  using assms(1)
proof (cases rule: outbox_step.cases)
  case (claim w locked now e rows')
  then show ?thesis using outbox_inv_claim [OF assms(2)] by simp
next
  case (send w e m res dur b')
  then show ?thesis using outbox_inv_send [OF assms(2)] by simp
next
  case (finish w e now)
  let ?P = "\<lambda>r. event_id r = ce_id e \<and> locked_by r = Some w"
  have "delivered s (ce_publicId e)" by (rule sent_delivered [OF assms(2) finish(2)])
  then have d: "delivered s (public_id r)" if "r \<in> set (rows s)" "?P r" for r
    using row_in_hand [OF assms(2), of w e r] finish(2) that by simp
  have ok: "outbox_ok (markPublished (ce_id e) w now (rows s))"
    by (rule outbox_ok_finalise) (use assms(2) in \<open>simp add: outbox_inv_def\<close>)
  have "outbox_inv (s\<lparr>rows := update_where ?P (published_row now) (rows s)\<rparr>)"
    by (rule outbox_inv_rows [OF assms(2)])
      (use ok d in \<open>simp_all add: markPublished_def published_row_def\<close>)
  from outbox_inv_idle [OF this, of w] show ?thesis using finish(1) by (simp add: markPublished_def)
next
  case (give_up w e)
  let ?P = "\<lambda>r. event_id r = ce_id e \<and> locked_by r = Some w"
  have ok: "outbox_ok (markPublishFailed (ce_id e) w (rows s))"
    by (rule outbox_ok_finalise) (use assms(2) in \<open>simp add: outbox_inv_def\<close>)
  have "outbox_inv (s\<lparr>rows := update_where ?P refused_row (rows s)\<rparr>)"
    by (rule outbox_inv_rows [OF assms(2)])
      (use ok in \<open>auto simp: markPublishFailed_def refused_row_def split: if_splits\<close>)
  from outbox_inv_idle [OF this, of w] show ?thesis using give_up(1) by (simp add: markPublishFailed_def)
next
  case (crash w)
  then show ?thesis using outbox_inv_idle [OF assms(2)] by simp
qed

text \<open>A table as the seed leaves it: nothing claimed, nothing published, no attempts.\<close>

definition fresh_outbox :: "'p outbox \<Rightarrow> bool" where
  "fresh_outbox rs \<longleftrightarrow> outbox_ok rs \<and> (\<forall>r \<in> set rs. status r = Pending)"

lemma reach_outbox_inv:
  assumes "fresh_outbox rows0"
  shows "outbox_reach leaseMs rows0 s \<Longrightarrow> outbox_inv s"
proof (induction rule: outbox_reach.induct)
  case (init m slow)
  show ?case using assms
    by (auto simp: outbox_inv_def fresh_outbox_def about_to_call_def createSimulatedBroker_def)
qed (auto intro: inv_intros)

text \<open>
  C3: no event is lost and none is called more often than it is claimed. Whatever the interleaving of
  claims, calls, refusals, crashes and lease expiries, an event recorded as published has reached the
  broker, the broker has been called for an event at most as often as it was claimed, and a worker
  whose lease was taken over can no longer touch the row.
\<close>

theorem outbox_at_least_once:
  assumes "fresh_outbox rows0" and "outbox_reach leaseMs rows0 s" and "r \<in> set (rows s)"
  shows "(status r = Published \<longrightarrow> delivered s (public_id r))
       \<and> callCountFor (public_id r) (the_broker s) \<le> attempts r
       \<and> (locked_by r \<noteq> Some w \<longrightarrow>
            r \<in> set (markPublished (event_id r) w now (rows s))
          \<and> r \<in> set (markPublishFailed (event_id r) w (rows s)))"
proof -
  have inv: "outbox_inv s" by (rule reach_outbox_inv [OF assms(1,2)])
  then have "callCounts (the_broker s) (public_id r) \<le> attempts r"
    using assms(3) unfolding outbox_inv_def by (metis add_leD1)
  with inv assms(3) show ?thesis
    by (force simp: outbox_inv_def callCountFor_def markPublished_def markPublishFailed_def set_update_where)
qed

lemma outbox_at_least_once_witness:
  "callCountFor 77 (the_broker \<lparr>rows = outbox_events one_event_world,
      the_broker = createSimulatedBroker None None, pc = (\<lambda>_. Idle)\<rparr>) \<le> 0"
  using outbox_at_least_once [OF _ outbox_reach.init [of 500 "outbox_events one_event_world" None None],
      of "hd (outbox_events one_event_world)"]
  by (simp add: one_event_world_def fresh_outbox_def outbox_ok_def row_ok_def)

text \<open>
  Published and failed are final: the guard \<open>locked_by = $2\<close> on both updates means no step of
  any worker, however stale, changes a row that has reached either.
\<close>

lemma outbox_terminal_rows_stay:
  assumes "fresh_outbox rows0" and "outbox_reach leaseMs rows0 s" and "outbox_step leaseMs s s'"
    and "r \<in> set (rows s)" and "status r = Published \<or> status r = Failed"
  shows "r \<in> set (rows s')"
proof -
  have ok: "outbox_ok (rows s)" using reach_outbox_inv [OF assms(1,2)] by (simp add: outbox_inv_def)
  then have free: "locked_by r = None" "\<not> claimable_event t r" for t
    using assms(4,5) by (auto simp: outbox_ok_def row_ok_def claimable_event_def)
  from assms(3) show ?thesis
  proof (cases rule: outbox_step.cases)
    case (claim w locked now e rows')
    obtain q where q: "q \<in> set (rows s)" "claimable_event now q"
      "rows' = update_where (\<lambda>x. event_id x = event_id q) (take_lease leaseMs w now) (rows s)"
      using claim(3) by (rule claimNextEvent_Some)
    have "event_id r \<noteq> event_id q"
      using q(1,2) assms(4) free(2) ok by (metis distinct_map_unique outbox_ok_def)
    with claim(1) q(3) assms(4) show ?thesis by (force simp: set_update_where)
  qed (use assms(4) free in \<open>force simp: markPublished_def markPublishFailed_def set_update_where\<close>)+
qed

definition one_event :: "unit outbox_event" where
  "one_event = hd (outbox_events one_event_world)"

definition published_once :: "unit outbox_system" where
  "published_once =
     (let e = claimed_event (take_lease 500 ''w'' 1000 one_event);
          (_, _, b) = publish (broker_event e) (createSimulatedBroker None None)
      in \<lparr>rows = [published_row 1000 (take_lease 500 ''w'' 1000 one_event)], the_broker = b,
          pc = (\<lambda>_. Idle)\<rparr>)"

lemma published_once_reach: "outbox_reach 500 [one_event] published_once"
proof -
  let ?e = "claimed_event (take_lease 500 ''w'' 1000 one_event)"
  let ?b = "createSimulatedBroker None None"
  let ?s0 = "\<lparr>rows = [one_event], the_broker = ?b, pc = (\<lambda>_. Idle)\<rparr>"
  let ?s1 = "?s0\<lparr>rows := [take_lease 500 ''w'' 1000 one_event], pc := (\<lambda>_. Idle)(''w'' := Claimed ?e)\<rparr>"
  obtain d b' where p: "publish (broker_event ?e) ?b = (Inr (), d, b')"
    by (simp add: publish_def createSimulatedBroker_def Let_def)
  let ?s2 = "?s1\<lparr>the_broker := b', pc := (\<lambda>_. Idle)(''w'' := Sent ?e)\<rparr>"
  have "outbox_reach 500 [one_event] ?s0" by (rule outbox_reach.init)
  moreover have "outbox_step 500 ?s0 ?s1"
    using outbox_step.claim [of ?s0 "''w''" 500 "{}" 1000 ?e "[take_lease 500 ''w'' 1000 one_event]"]
    by (simp add: claimNextEvent_def claimable_event_def one_event_def one_event_world_def update_where_def)
  moreover have "outbox_step 500 ?s1 ?s2"
    using outbox_step.send [of ?s1 "''w''" ?e Succeed "Inr ()" d b' 500] p
    by (simp add: createSimulatedBroker_def)
  moreover have "outbox_step 500 ?s2 published_once"
    using outbox_step.finish [of ?s2 "''w''" ?e 500 1000] p
    by (simp add: published_once_def markPublished_def update_where_def claimed_event_def take_lease_def
        Let_def fun_upd_idem)
  ultimately show ?thesis by (meson outbox_reach.step)
qed

lemma outbox_terminal_rows_stay_witness:
  "published_row 1000 (take_lease 500 ''w'' 1000 one_event)
     \<in> set (rows (published_once\<lparr>pc := (pc published_once)(''v'' := Idle)\<rparr>))"
  using outbox_terminal_rows_stay [OF _ published_once_reach outbox_step.crash,
      of "published_row 1000 (take_lease 500 ''w'' 1000 one_event)" "''v''"]
  by (simp add: published_once_def fresh_outbox_def outbox_ok_def row_ok_def one_event_def
      one_event_world_def published_row_def publish_def Let_def createSimulatedBroker_def)

end
