(* ===== verification/Job_Queue.thy ===== *)
theory Job_Queue
  imports Lease_Queue
begin

text \<open>
  Lab 14's job queue, \<open>labs/14-*/src/queue\<close>: the tables \<open>jobs\<close> and \<open>job_attempts\<close>, the claim, the two
  ways an attempt ends, the worker loop, and the naive claim that does not skip locked rows. The part
  of a payload the code looks at is the property \<open>shouldFail\<close>.
\<close>

section \<open>The tables\<close>

datatype job_status = Pending | Processing | Completed | Failed
datatype attempt_status = AClaimed | ACompleted | AFailed | AExpired
datatype json = JBool bool | JOther string

record job =
  job_id :: nat
  jobType :: string
  payload :: "string \<rightharpoonup> json"
  status :: job_status
  attempts :: nat
  maxAttempts :: nat
  lockedBy :: "string option"
  lockedUntil :: "rat option"
  lastError :: "string option"
  createdAt :: rat
  updatedAt :: rat

record job_attempt =
  attempt_id :: nat
  attempt_job :: nat
  attempt_worker :: string
  attempt_number :: nat
  attempt_status :: attempt_status
  claimed_at :: rat
  released_at :: "rat option"
  attempt_error :: "string option"

record job_db =
  jobs :: "job list"
  job_attempts :: "job_attempt list"
  next_attempt :: nat

record ClaimedJob =
  claimed_job :: job
  attemptId :: nat
  reclaimed :: bool

section \<open>Claiming\<close>

definition claimable_job :: "rat \<Rightarrow> job \<Rightarrow> bool" where
  "claimable_job now j \<longleftrightarrow> status j = Pending
     \<or> (status j = Processing \<and> (case lockedUntil j of Some t \<Rightarrow> t < now | None \<Rightarrow> False))"

definition lease_job :: "rat \<Rightarrow> string \<Rightarrow> rat \<Rightarrow> job \<Rightarrow> job" where
  "lease_job leaseMs workerId now j =
     j\<lparr>status := Processing, lockedBy := Some workerId, lockedUntil := Some (now + leaseMs),
       attempts := attempts j + 1, updatedAt := now\<rparr>"

definition expire_attempts :: "nat \<Rightarrow> rat \<Rightarrow> job_attempt list \<Rightarrow> job_attempt list" where
  "expire_attempts jobId now =
     update_where (\<lambda>a. attempt_job a = jobId \<and> attempt_status a = AClaimed)
       (\<lambda>a. a\<lparr>attempt_status := AExpired, released_at := Some now\<rparr>)"

definition claimJob ::
  "rat \<Rightarrow> nat set \<Rightarrow> string \<Rightarrow> rat \<Rightarrow> job_db \<Rightarrow> ClaimedJob option \<times> job_db" where
  "claimJob leaseMs locked workerId now db =
     (case first_by createdAt (\<lambda>j. claimable_job now j \<and> job_id j \<notin> locked) (jobs db) of
        None \<Rightarrow> (None, db)
      | Some row \<Rightarrow>
          (let reclaimed = (status row = Processing);
               job = lease_job leaseMs workerId now row;
               atts = (if reclaimed then expire_attempts (job_id job) now (job_attempts db)
                       else job_attempts db);
               new_attempt = \<lparr>attempt_id = next_attempt db, attempt_job = job_id job,
                 attempt_worker = workerId, attempt_number = attempts job,
                 attempt_status = AClaimed, claimed_at = now, released_at = None,
                 attempt_error = None\<rparr>
           in (Some \<lparr>claimed_job = job, attemptId = next_attempt db, reclaimed = reclaimed\<rparr>,
               \<lparr>jobs = update_where (\<lambda>x. job_id x = job_id row) (lease_job leaseMs workerId now) (jobs db),
                job_attempts = atts @ [new_attempt],
                next_attempt = next_attempt db + 1\<rparr>)))"

section \<open>Finishing an attempt\<close>

definition release_attempt ::
  "nat \<Rightarrow> attempt_status \<Rightarrow> string option \<Rightarrow> rat \<Rightarrow> job_attempt list \<Rightarrow> job_attempt list" where
  "release_attempt attempt st err now =
     update_where (\<lambda>a. attempt_id a = attempt)
       (\<lambda>a. a\<lparr>attempt_status := st, released_at := Some now,
              attempt_error := (case err of None \<Rightarrow> attempt_error a | Some _ \<Rightarrow> err)\<rparr>)"

definition complete_row :: "rat \<Rightarrow> job \<Rightarrow> job" where
  "complete_row now j = j\<lparr>status := Completed, lockedBy := None, lockedUntil := None, updatedAt := now\<rparr>"

definition completeJob :: "nat \<Rightarrow> nat \<Rightarrow> rat \<Rightarrow> job_db \<Rightarrow> job_db" where
  "completeJob jobId attempt now db =
     db\<lparr>jobs := update_where (\<lambda>j. job_id j = jobId) (complete_row now) (jobs db),
        job_attempts := release_attempt attempt ACompleted None now (job_attempts db)\<rparr>"

record FailResult =
  terminal :: bool
  fr_attempts :: nat
  fr_maxAttempts :: nat

definition fail_row :: "string \<Rightarrow> rat \<Rightarrow> bool \<Rightarrow> job \<Rightarrow> job" where
  "fail_row msg now term j = j\<lparr>status := (if term then Failed else Pending), lockedBy := None,
     lockedUntil := None, lastError := Some msg, updatedAt := now\<rparr>"

text \<open>The error branch of \<open>failJob\<close>: no such job, so the transaction rolls back and the call throws.\<close>

definition failJob ::
  "nat \<Rightarrow> nat \<Rightarrow> string \<Rightarrow> rat \<Rightarrow> job_db \<Rightarrow> (string + FailResult) \<times> job_db" where
  "failJob jobId attempt errorMessage now db =
     (case row_with (\<lambda>j. job_id j = jobId) (jobs db) of
        None \<Rightarrow> (Inl (''job '' @ nat_str jobId @ '' does not exist''), db)
      | Some row \<Rightarrow>
          (let term = maxAttempts row \<le> attempts row
           in (Inr \<lparr>terminal = term, fr_attempts = attempts row, fr_maxAttempts = maxAttempts row\<rparr>,
               db\<lparr>jobs := update_where (\<lambda>j. job_id j = jobId) (fail_row errorMessage now term) (jobs db),
                  job_attempts := release_attempt attempt AFailed (Some errorMessage) now (job_attempts db)\<rparr>)))"

definition processJob :: "job \<Rightarrow> string option" where
  "processJob j =
     (if payload j ''shouldFail'' = Some (JBool True)
      then Some (''job '' @ nat_str (job_id j) @ '' ('' @ jobType j @ '') intentionally failed (payload.shouldFail)'')
      else None)"

section \<open>The worker loop\<close>

record WorkerRunResult =
  claimedJobIds :: "nat list"
  completedJobIds :: "nat list"
  failedAttemptJobIds :: "nat list"

text \<open>
  \<open>runWorkerUntilEmpty\<close>. \<open>process\<close> gives a job's error, if any, and how long the work took. An error
  thrown by \<open>failJob\<close> itself leaves the loop: \<open>Inl\<close>. Nothing in the code bounds the number of turns.
\<close>

partial_function (option) worker_turns ::
  "rat \<Rightarrow> string \<Rightarrow> (job \<Rightarrow> string option \<times> rat) \<Rightarrow> WorkerRunResult \<Rightarrow> rat \<Rightarrow> job_db
     \<Rightarrow> ((string + WorkerRunResult) \<times> rat \<times> job_db) option" where
  "worker_turns leaseMs workerId process result now db =
     (case claimJob leaseMs {} workerId now db of
        (None, db1) \<Rightarrow> Some (Inr result, now, db1)
      | (Some claim, db1) \<Rightarrow>
          (let job = claimed_job claim;
               result1 = result\<lparr>claimedJobIds := claimedJobIds result @ [job_id job]\<rparr>;
               (err, dur) = process job
           in case err of
                None \<Rightarrow>
                  worker_turns leaseMs workerId process
                    (result1\<lparr>completedJobIds := completedJobIds result1 @ [job_id job]\<rparr>) (now + dur)
                    (completeJob (job_id job) (attemptId claim) (now + dur) db1)
              | Some message \<Rightarrow>
                  (case failJob (job_id job) (attemptId claim) message (now + dur) db1 of
                     (Inl e, db2) \<Rightarrow> Some (Inl e, now + dur, db2)
                   | (Inr _, db2) \<Rightarrow>
                       worker_turns leaseMs workerId process
                         (result1\<lparr>failedAttemptJobIds := failedAttemptJobIds result1 @ [job_id job]\<rparr>)
                         (now + dur) db2)))"

definition runWorkerUntilEmpty ::
  "rat \<Rightarrow> string \<Rightarrow> (job \<Rightarrow> string option \<times> rat) \<Rightarrow> rat \<Rightarrow> job_db
     \<Rightarrow> ((string + WorkerRunResult) \<times> rat \<times> job_db) option" where
  "runWorkerUntilEmpty leaseMs workerId process now db =
     worker_turns leaseMs workerId process
       \<lparr>claimedJobIds = [], completedJobIds = [], failedAttemptJobIds = []\<rparr> now db"

section \<open>The naive claim\<close>

text \<open>
  \<open>claimJobPlainForUpdate\<close> locks the oldest pending row whether or not another transaction holds it:
  with the row locked the caller blocks (\<open>Blocked\<close>) instead of looking further.
\<close>

datatype 'a naive_outcome = Blocked | Returned 'a

definition claimJobPlainForUpdate ::
  "nat set \<Rightarrow> string \<Rightarrow> rat \<Rightarrow> job_db \<Rightarrow> nat option naive_outcome \<times> job_db" where
  "claimJobPlainForUpdate locked workerId now db =
     (case first_by createdAt (\<lambda>j. status j = Pending) (jobs db) of
        None \<Rightarrow> (Returned None, db)
      | Some row \<Rightarrow>
          if job_id row \<in> locked then (Blocked, db)
          else (Returned (Some (job_id row)),
                db\<lparr>jobs := update_where (\<lambda>j. job_id j = job_id row)
                     (\<lambda>j. j\<lparr>status := Processing, lockedBy := Some workerId, updatedAt := now\<rparr>) (jobs db)\<rparr>))"

section \<open>The claim is a lease\<close>

definition jobs_ok :: "job_db \<Rightarrow> bool" where
  "jobs_ok db \<longleftrightarrow> distinct (map job_id (jobs db))
     \<and> (\<forall>j \<in> set (jobs db). (lockedBy j \<noteq> None \<longleftrightarrow> status j = Processing)
          \<and> (lockedUntil j \<noteq> None \<longleftrightarrow> status j = Processing))"

lemma job_ids_after [simp]:
  "job_id (lease_job leaseMs w now j) = job_id j" "job_id (complete_row now j) = job_id j"
  "job_id (fail_row msg now t j) = job_id j"
  by (simp_all add: lease_job_def complete_row_def fail_row_def)

lemma claimJob_Some:
  assumes "claimJob leaseMs locked w now db = (Some c, db')"
  obtains r where "r \<in> set (jobs db)" "claimable_job now r" "job_id r \<notin> locked"
    "claimed_job c = lease_job leaseMs w now r" "attemptId c = next_attempt db"
    "jobs db' = update_where (\<lambda>x. job_id x = job_id r) (lease_job leaseMs w now) (jobs db)"
    "next_attempt db' = next_attempt db + 1"
    "job_attempts db' = (if status r = Processing then expire_attempts (job_id r) now (job_attempts db)
         else job_attempts db)
       @ [\<lparr>attempt_id = next_attempt db, attempt_job = job_id r, attempt_worker = w,
           attempt_number = attempts r + 1, attempt_status = AClaimed, claimed_at = now,
           released_at = None, attempt_error = None\<rparr>]"
proof -
  obtain r where f: "first_by createdAt (\<lambda>j. claimable_job now j \<and> job_id j \<notin> locked) (jobs db) = Some r"
    using assms by (auto simp: claimJob_def split: option.splits)
  with assms first_by_Some [OF f] show ?thesis
    by (intro that [of r]) (auto simp: claimJob_def Let_def lease_job_def)
qed

lemma claimJob_None:
  "claimJob leaseMs locked w now db = (None, db') \<longleftrightarrow>
   db' = db \<and> (\<forall>j \<in> set (jobs db). claimable_job now j \<longrightarrow> job_id j \<in> locked)"
  by (auto simp: claimJob_def Let_def first_by_None split: option.splits dest: first_by_Some)

lemma jobs_ok_rows:
  assumes "jobs_ok db" and "jobs db' = update_where P f (jobs db)"
    and "\<And>j. job_id (f j) = job_id j"
    and "\<And>j. P j \<Longrightarrow> (lockedBy (f j) \<noteq> None \<longleftrightarrow> status (f j) = Processing)
                  \<and> (lockedUntil (f j) \<noteq> None \<longleftrightarrow> status (f j) = Processing)"
  shows "jobs_ok db'"
  using assms by (simp add: jobs_ok_def map_update_where ball_update_where)

lemma jobs_ok_claim [inv_intros]:
  assumes "jobs_ok db" and "claimJob leaseMs locked w now db = (c, db')"
  shows "jobs_ok db'"
proof (cases c)
  case None
  with assms show ?thesis by (simp add: claimJob_None)
next
  case (Some c')
  obtain r :: job where
    "jobs db' = update_where (\<lambda>x. job_id x = job_id r) (lease_job leaseMs w now) (jobs db)"
    using assms(2) unfolding Some by (rule claimJob_Some) blast
  then show ?thesis by (rule jobs_ok_rows [OF assms(1)]) (simp_all add: lease_job_def)
qed

lemma completeJob_jobs: "jobs (completeJob i a now db) = update_where (\<lambda>j. job_id j = i) (complete_row now) (jobs db)"
  by (simp add: completeJob_def)

lemma jobs_ok_complete [inv_intros]: "jobs_ok db \<Longrightarrow> jobs_ok (completeJob i a now db)"
  by (rule jobs_ok_rows [OF _ completeJob_jobs]) (simp_all add: complete_row_def)

lemma failJob_found:
  assumes "jobs_ok db" and "j \<in> set (jobs db)"
  obtains db' where "failJob (job_id j) a msg now db
      = (Inr \<lparr>terminal = (maxAttempts j \<le> attempts j), fr_attempts = attempts j, fr_maxAttempts = maxAttempts j\<rparr>, db')"
    "jobs db' = update_where (\<lambda>x. job_id x = job_id j) (fail_row msg now (maxAttempts j \<le> attempts j)) (jobs db)"
    "jobs_ok db'" "next_attempt db' = next_attempt db"
    "job_attempts db' = release_attempt a AFailed (Some msg) now (job_attempts db)"
proof -
  have "row_with (\<lambda>x. job_id x = job_id j) (jobs db) = Some j"
    using assms by (intro row_with_unique) (simp_all add: jobs_ok_def)
  moreover obtain res db' where f: "failJob (job_id j) a msg now db = (res, db')" by fastforce
  ultimately have r: "res = Inr \<lparr>terminal = (maxAttempts j \<le> attempts j), fr_attempts = attempts j,
      fr_maxAttempts = maxAttempts j\<rparr>"
    "jobs db' = update_where (\<lambda>x. job_id x = job_id j) (fail_row msg now (maxAttempts j \<le> attempts j)) (jobs db)"
    "next_attempt db' = next_attempt db"
    "job_attempts db' = release_attempt a AFailed (Some msg) now (job_attempts db)"
    by (auto simp: failJob_def Let_def)
  have "jobs_ok db'" by (rule jobs_ok_rows [OF assms(1) r(2)]) (simp_all add: fail_row_def)
  with f r show ?thesis by (intro that) simp_all
qed

definition claim_job_id :: "rat \<Rightarrow> nat set \<Rightarrow> string \<Rightarrow> rat \<Rightarrow> job_db \<Rightarrow> nat option \<times> job_db" where
  "claim_job_id leaseMs locked w now db =
     (let (c, db') = claimJob leaseMs locked w now db in (map_option (job_id \<circ> claimed_job) c, db'))"

definition claimable_jobs :: "rat \<Rightarrow> job_db \<Rightarrow> nat set" where
  "claimable_jobs now db = job_id ` {j \<in> set (jobs db). claimable_job now j}"

definition job_lease :: "job_db \<Rightarrow> nat \<rightharpoonup> string \<times> rat" where
  "job_lease db i = Option.bind (row_with (\<lambda>j. job_id j = i) (jobs db)) (\<lambda>j.
     case (lockedBy j, lockedUntil j) of (Some w, Some t) \<Rightarrow> Some (w, t) | _ \<Rightarrow> None)"

lemma job_lease_claim:
  assumes "r \<in> set (jobs db)"
    and "jobs db' = update_where (\<lambda>x. job_id x = job_id r) (lease_job leaseMs w now) (jobs db)"
  shows "job_lease db' = (job_lease db)(job_id r \<mapsto> (w, now + leaseMs))"
proof
  fix i
  have "row_with (\<lambda>x. job_id x = job_id r) (jobs db) \<noteq> None" using assms(1) by (auto simp: row_with_None)
  then show "job_lease db' i = ((job_lease db)(job_id r \<mapsto> (w, now + leaseMs))) i"
    by (auto simp: job_lease_def assms(2) row_with_update_key) (simp add: lease_job_def)
qed

interpretation jobq: lease_queue "claim_job_id leaseMs" claimable_jobs job_lease leaseMs jobs_ok
  for leaseMs
proof unfold_locales
  fix db db' locked w now i
  assume ok: "jobs_ok db" and c: "claim_job_id leaseMs locked w now db = (Some i, db')"
  obtain c' where c': "claimJob leaseMs locked w now db = (Some c', db')" "job_id (claimed_job c') = i"
    using c by (auto simp: claim_job_id_def split: prod.splits)
  from c'(1) obtain r where r: "r \<in> set (jobs db)" "claimable_job now r" "job_id r \<notin> locked"
    "claimed_job c' = lease_job leaseMs w now r"
    "jobs db' = update_where (\<lambda>x. job_id x = job_id r) (lease_job leaseMs w now) (jobs db)"
    by (rule claimJob_Some)
  then show "i \<in> claimable_jobs now db \<and> i \<notin> locked
      \<and> job_lease db' = (job_lease db)(i \<mapsto> (w, now + leaseMs)) \<and> jobs_ok db'"
    using job_lease_claim [OF r(1,5)] jobs_ok_claim [OF ok c'(1)] c'(2) by (auto simp: claimable_jobs_def)
next
  fix db db' locked w now
  assume "claim_job_id leaseMs locked w now db = (None, db')"
  then have "claimJob leaseMs locked w now db = (None, db')"
    by (auto simp: claim_job_id_def split: prod.splits)
  then show "claimable_jobs now db \<subseteq> locked \<and> db' = db" by (auto simp: claimJob_None claimable_jobs_def)
next
  fix db i w until now
  assume ok: "jobs_ok db" and l: "job_lease db i = Some (w, until)" and le: "(now :: rat) \<le> until"
  show "i \<notin> claimable_jobs now db"
  proof
    assume "i \<in> claimable_jobs now db"
    then obtain j where j: "j \<in> set (jobs db)" "claimable_job now j" "job_id j = i"
      by (auto simp: claimable_jobs_def)
    have "row_with (\<lambda>x. job_id x = job_id j) (jobs db) = Some j"
      using ok j(1) by (intro row_with_unique) (simp_all add: jobs_ok_def)
    with l j(3) have "lockedBy j = Some w" "lockedUntil j = Some until"
      by (auto simp: job_lease_def split: option.splits)
    with ok j(1,2) le show False by (auto simp: jobs_ok_def claimable_job_def)
  qed
qed

subsection \<open>Claims, completions and failures in any order\<close>

text \<open>
  What callers do with the queue, whoever they are: claim, with the ids then locked by open transactions, and report the
  result of an attempt, their own or, when they are late, one whose job somebody else has claimed since. The log has the id each claim returned.
\<close>

datatype job_queue_event = Claim "nat set" string rat | Complete nat nat rat | Fail nat nat string rat

fun event_time :: "job_queue_event \<Rightarrow> rat" where
  "event_time (Claim locked w now) = now"
| "event_time (Complete i a now) = now"
| "event_time (Fail i a msg now) = now"

fun job_queue_step :: "rat \<Rightarrow> job_queue_event \<Rightarrow> job_db \<Rightarrow> nat option \<times> job_db" where
  "job_queue_step leaseMs (Claim locked w now) db = claim_job_id leaseMs locked w now db"
| "job_queue_step leaseMs (Complete i a now) db = (None, completeJob i a now db)"
| "job_queue_step leaseMs (Fail i a msg now) db = (None, snd (failJob i a msg now db))"

fun job_queue_run :: "rat \<Rightarrow> job_queue_event list \<Rightarrow> job_db \<Rightarrow> nat option list \<times> job_db" where
  "job_queue_run leaseMs [] db = ([], db)"
| "job_queue_run leaseMs (e # es) db =
     (let (r, db1) = job_queue_step leaseMs e db; (rs, db2) = job_queue_run leaseMs es db1 in (r # rs, db2))"

fun fails_job :: "nat \<Rightarrow> job_queue_event \<Rightarrow> bool" where
  "fails_job i (Fail j a msg now) = (j = i)"
| "fails_job i _ = False"

fun completes_job :: "nat \<Rightarrow> job_queue_event \<Rightarrow> bool" where
  "completes_job i (Complete j a now) = (j = i)"
| "completes_job i _ = False"

text \<open>A job under a lease that ends at \<open>until\<close>, and a job that is over.\<close>

definition leased_job :: "nat \<Rightarrow> rat \<Rightarrow> job_db \<Rightarrow> bool" where
  "leased_job i until db \<longleftrightarrow> (\<exists>r \<in> set (jobs db). job_id r = i \<and> status r = Processing \<and> lockedUntil r = Some until)"

definition finished_job :: "nat \<Rightarrow> job_db \<Rightarrow> bool" where
  "finished_job i db \<longleftrightarrow> (\<exists>r \<in> set (jobs db). job_id r = i \<and> (status r = Completed \<or> status r = Failed))"

lemma jobs_ok_step [inv_intros]:
  assumes "jobs_ok db"
  shows "jobs_ok (snd (job_queue_step leaseMs e db))"
proof (cases e)
  case (Claim locked w now)
  then show ?thesis using jobq.valid_claim [OF assms, of leaseMs locked w now] by (metis prod.collapse job_queue_step.simps(1))
next
  case (Complete i a now)
  then show ?thesis using jobs_ok_complete [OF assms] by simp
next
  case (Fail i a msg now)
  show ?thesis
  proof (cases "\<exists>r \<in> set (jobs db). job_id r = i")
    case True
    then obtain r where r: "r \<in> set (jobs db)" "job_id r = i" by blast
    show ?thesis by (rule failJob_found [OF assms r(1), of a msg now]) (use Fail r(2) in simp)
  next
    case False
    then have "row_with (\<lambda>j. job_id j = i) (jobs db) = None" by (simp add: row_with_None)
    then show ?thesis using assms Fail by (simp add: failJob_def)
  qed
qed

lemma step_rows:
  assumes "jobs_ok db" and "r \<in> set (jobs db)" and "fst (job_queue_step leaseMs e db) \<noteq> Some (job_id r)"
    and "\<not> fails_job (job_id r) e" and "\<not> completes_job (job_id r) e"
  shows "r \<in> set (jobs (snd (job_queue_step leaseMs e db)))"
proof (cases e)
  case (Claim locked w now)
  obtain c db1 where c: "claimJob leaseMs locked w now db = (c, db1)" by fastforce
  show ?thesis
  proof (cases c)
    case None
    then have "db1 = db" using c by (simp add: claimJob_None)
    then show ?thesis using assms(2) c Claim by (simp add: claim_job_id_def)
  next
    case (Some x)
    obtain q where q: "claimed_job x = lease_job leaseMs w now q"
        "jobs db1 = update_where (\<lambda>y. job_id y = job_id q) (lease_job leaseMs w now) (jobs db)"
      using c unfolding Some by (rule claimJob_Some) blast
    have "job_id q \<noteq> job_id r" using assms(3) c q(1) by (auto simp: Claim Some claim_job_id_def)
    then show ?thesis using assms(2) c q(2) by (force simp: Claim Some claim_job_id_def set_update_where)
  qed
next
  case (Complete i a now)
  then show ?thesis using assms(2,5) by (force simp: completeJob_jobs set_update_where)
next
  case (Fail i a msg now)
  then show ?thesis using assms(2,4) by (auto simp: failJob_def Let_def set_update_where split: option.splits)
qed

lemma step_ids: "job_id ` set (jobs (snd (job_queue_step leaseMs e db))) = job_id ` set (jobs db)"
proof -
  have upd: "job_id ` set (update_where P f js) = job_id ` set js" if "\<And>j. job_id (f j) = job_id j" for P f and js :: "job list"
    using that by (induction js) (auto simp: update_where_def)
  show ?thesis
    by (cases e) (auto simp: claim_job_id_def claimJob_def completeJob_jobs failJob_def Let_def upd split: option.splits prod.splits)
qed

lemma claimed_was_claimable:
  assumes "jobs_ok db" and "fst (job_queue_step leaseMs e db) = Some i"
  shows "i \<in> claimable_jobs (event_time e) db"
proof (cases e)
  case (Claim locked w now)
  then obtain db1 where "claim_job_id leaseMs locked w now db = (Some i, db1)" using assms(2) by (metis prod.collapse job_queue_step.simps(1))
  from jobq.claim_takes [OF assms(1) this] show ?thesis by (simp add: Claim)
qed (use assms(2) in simp_all)

lemma not_claimable_row:
  assumes "jobs_ok db" and "r \<in> set (jobs db)" and "\<not> claimable_job now r"
  shows "job_id r \<notin> claimable_jobs now db"
proof
  assume "job_id r \<in> claimable_jobs now db"
  then obtain q where q: "q \<in> set (jobs db)" "claimable_job now q" "job_id q = job_id r" by (auto simp: claimable_jobs_def)
  then have "q = r" using assms(1,2) by (metis distinct_map_unique jobs_ok_def)
  then show False using q(2) assms(3) by blast
qed

lemma completed_is_finished:
  "r \<in> set (jobs db) \<Longrightarrow> completes_job (job_id r) e \<Longrightarrow> finished_job (job_id r) (snd (job_queue_step leaseMs e db))"
proof (cases e)
  case (Complete i a now)
  assume "r \<in> set (jobs db)" "completes_job (job_id r) e"
  then have "complete_row now r \<in> set (jobs (completeJob i a now db))" by (auto simp: Complete completeJob_jobs set_update_where)
  moreover have "status (complete_row now r) = Completed" by (simp add: complete_row_def)
  ultimately show ?thesis unfolding finished_job_def by (metis Complete job_ids_after(2) job_queue_step.simps(2) snd_conv)
qed simp_all

text \<open>While nobody reports a failure of it, a job that is over is not claimed, nor is a leased one before its lease ends.\<close>

lemma finished_run:
  assumes "jobs_ok db" and "finished_job i db" and "\<forall>e \<in> set es. \<not> fails_job i e"
  shows "Some i \<notin> set (fst (job_queue_run leaseMs es db))"
  using assms
proof (induction es arbitrary: db)
  case (Cons e es)
  let ?db = "snd (job_queue_step leaseMs e db)"
  obtain r where r: "r \<in> set (jobs db)" "job_id r = i" "status r = Completed \<or> status r = Failed"
    using Cons.prems(2) unfolding finished_job_def by blast
  then have "\<not> claimable_job (event_time e) r" by (auto simp: claimable_job_def)
  then have no: "fst (job_queue_step leaseMs e db) \<noteq> Some i"
    using not_claimable_row [OF Cons.prems(1) r(1)] claimed_was_claimable [OF Cons.prems(1)] r(2) by blast
  have "finished_job i ?db"
  proof (cases "completes_job i e")
    case True
    then show ?thesis using completed_is_finished [OF r(1)] r(2) by simp
  next
    case False
    have "r \<in> set (jobs ?db)" by (rule step_rows [OF Cons.prems(1) r(1)]) (use no False Cons.prems(3) r(2) in auto)
    then show ?thesis using r(2,3) unfolding finished_job_def by blast
  qed
  then have "Some i \<notin> set (fst (job_queue_run leaseMs es ?db))" using Cons.IH jobs_ok_step [OF Cons.prems(1)] Cons.prems(3) by simp
  then show ?case using no by (simp add: split_beta Let_def)
qed simp

lemma leased_run:
  assumes "jobs_ok db" and "leased_job i until db" and "\<forall>e \<in> set es. \<not> fails_job i e \<and> event_time e \<le> until"
  shows "Some i \<notin> set (fst (job_queue_run leaseMs es db))"
  using assms
proof (induction es arbitrary: db)
  case (Cons e es)
  let ?db = "snd (job_queue_step leaseMs e db)"
  obtain r where r: "r \<in> set (jobs db)" "job_id r = i" "status r = Processing" "lockedUntil r = Some until"
    using Cons.prems(2) unfolding leased_job_def by blast
  then have "\<not> claimable_job (event_time e) r" using Cons.prems(3) by (auto simp: claimable_job_def)
  then have no: "fst (job_queue_step leaseMs e db) \<noteq> Some i"
    using not_claimable_row [OF Cons.prems(1) r(1)] claimed_was_claimable [OF Cons.prems(1)] r(2) by blast
  have ok: "jobs_ok ?db" by (rule jobs_ok_step [OF Cons.prems(1)])
  have "Some i \<notin> set (fst (job_queue_run leaseMs es ?db))"
  proof (cases "completes_job i e")
    case True
    then have "finished_job i ?db" using completed_is_finished [OF r(1)] r(2) by simp
    then show ?thesis using finished_run [OF ok] Cons.prems(3) by simp
  next
    case False
    have "r \<in> set (jobs ?db)" by (rule step_rows [OF Cons.prems(1) r(1)]) (use no False Cons.prems(3) r(2) in auto)
    then have "leased_job i until ?db" using r(2-4) unfolding leased_job_def by blast
    then show ?thesis using Cons.IH ok Cons.prems(3) by simp
  qed
  then show ?case using no by (simp add: split_beta Let_def)
qed simp

lemma claim_leases:
  assumes "jobs_ok db" and "fst (job_queue_step leaseMs e db) = Some i"
  shows "leased_job i (event_time e + leaseMs) (snd (job_queue_step leaseMs e db))"
proof (cases e)
  case (Claim locked w now)
  obtain c db1 where c: "claimJob leaseMs locked w now db = (Some c, db1)" "job_id (claimed_job c) = i"
    using assms(2) by (auto simp: Claim claim_job_id_def split: prod.splits)
  obtain q where q: "q \<in> set (jobs db)" "claimed_job c = lease_job leaseMs w now q"
      "jobs db1 = update_where (\<lambda>y. job_id y = job_id q) (lease_job leaseMs w now) (jobs db)"
    using c(1) by (rule claimJob_Some) blast
  have "lease_job leaseMs w now q \<in> set (jobs db1)" using q(1) by (auto simp: q(3) set_update_where)
  then show ?thesis unfolding leased_job_def using c q(2)
    by (intro bexI [of _ "lease_job leaseMs w now q"]) (simp_all add: Claim claim_job_id_def, simp_all add: lease_job_def)
qed (use assms(2) in simp_all)

lemma job_queue_run_append:
  "job_queue_run leaseMs (es @ fs) db =
     (let (rs, db1) = job_queue_run leaseMs es db; (rs', db2) = job_queue_run leaseMs fs db1 in (rs @ rs', db2))"
  by (induction es arbitrary: db) (simp_all add: split_beta Let_def)

lemma length_job_queue_run [simp]: "length (fst (job_queue_run leaseMs es db)) = length es"
  by (induction es arbitrary: db) (simp_all add: split_beta Let_def)

lemma jobs_ok_run: "jobs_ok db \<Longrightarrow> jobs_ok (snd (job_queue_run leaseMs es db))"
  by (induction es arbitrary: db) (simp_all add: split_beta Let_def jobs_ok_step)

text \<open>The run around its event number \<open>k\<close>.\<close>

lemma job_queue_run_nth:
  assumes "k < length es"
  shows "fst (job_queue_run leaseMs es db) ! k = fst (job_queue_step leaseMs (es ! k) (snd (job_queue_run leaseMs (take k es) db)))"
proof -
  let ?a = "job_queue_run leaseMs (take k es) db" and ?b = "job_queue_run leaseMs (es ! k # drop (Suc k) es)"
  have l: "length (fst ?a) = k" using assms by simp
  have "es = take k es @ es ! k # drop (Suc k) es" using assms by (rule id_take_nth_drop)
  then have "fst (job_queue_run leaseMs es db) = fst (job_queue_run leaseMs (take k es @ es ! k # drop (Suc k) es) db)" by simp
  also have "\<dots> = fst ?a @ fst (?b (snd ?a))" by (simp only: job_queue_run_append Let_def split_beta fst_conv)
  finally show ?thesis using l by (simp add: nth_append split_beta Let_def)
qed

lemma run_between:
  assumes "j < k" and "k < length es"
  defines "mid \<equiv> take (k - Suc j) (drop (Suc j) es)"
  shows "es = take j es @ es ! j # mid @ es ! k # drop (Suc k) es"
    and "set mid = {es ! m |m. j < m \<and> m < k}"
proof -
  have "drop (Suc j) es = mid @ drop (k - Suc j) (drop (Suc j) es)" unfolding mid_def by (rule append_take_drop_id [symmetric])
  also have "drop (k - Suc j) (drop (Suc j) es) = drop k es" using assms(1) by (simp add: drop_drop)
  also have "drop k es = es ! k # drop (Suc k) es" by (rule Cons_nth_drop_Suc [symmetric]) (rule assms(2))
  finally show "es = take j es @ es ! j # mid @ es ! k # drop (Suc k) es" using id_take_nth_drop [of j es] assms(1,2) by simp
  have "m \<in> {m. j < m \<and> m < k} \<longleftrightarrow> (\<exists>x < length mid. m = Suc j + x)" for m
    using assms(1,2) by (auto simp: mid_def min_def intro!: exI [of _ "m - Suc j"])
  moreover have "mid ! x = es ! (Suc j + x)" if "x < length mid" for x using that assms(2) by (simp add: mid_def)
  ultimately show "set mid = {es ! m |m. j < m \<and> m < k}" by (auto simp: set_conv_nth) (metis mem_Collect_eq)+
qed

lemma take_between:
  assumes "j < k" and "k < length es"
  shows "take k es = take j es @ es ! j # take (k - Suc j) (drop (Suc j) es)"
proof -
  have "take k es = take j es @ take (k - j) (drop j es)" using assms(1) by (metis le_add_diff_inverse less_imp_le take_add)
  also have "drop j es = es ! j # drop (Suc j) es" using assms by (simp add: Cons_nth_drop_Suc)
  also have "k - j = Suc (k - Suc j)" using assms(1) by simp
  finally show ?thesis by simp
qed

text \<open>
  C4: claims of a job exclude each other. In any sequence of claims, completions and failures by any callers, in time order
  and whatever rows other open transactions hold locked: when a job is claimed again and no failure of it was reported since the
  claim before, then that claim's lease has run out, and the job was not completed in between (\<open>failJob\<close> makes a job claimable
  at once, that is its purpose); and whenever a claim comes back with nothing, every claimable job was locked.\<close>

theorem job_claims_exclusive:
  assumes "jobs_ok db" and "sorted (map event_time es)" and "job_queue_run leaseMs es db = (rs, db')"
  shows "(\<forall>j k i. j < k \<and> k < length es \<and> rs ! j = Some i \<and> rs ! k = Some i \<and> (\<forall>m. j < m \<and> m < k \<longrightarrow> \<not> fails_job i (es ! m)) \<longrightarrow>
           event_time (es ! j) + leaseMs < event_time (es ! k) \<and> (\<forall>m. j < m \<and> m < k \<longrightarrow> \<not> completes_job i (es ! m)))
       \<and> (\<forall>k locked w now. k < length es \<and> es ! k = Claim locked w now \<and> rs ! k = None \<longrightarrow>
           claimable_jobs now (snd (job_queue_run leaseMs (take k es) db)) \<subseteq> locked)"
proof (intro conjI allI impI; elim conjE)
  fix j k i
  assume jk: "j < k" "k < length es" and claims: "rs ! j = Some i" "rs ! k = Some i" and nofail: "\<forall>m. j < m \<and> m < k \<longrightarrow> \<not> fails_job i (es ! m)"
  define mid where "mid = take (k - Suc j) (drop (Suc j) es)"
  note mid = run_between [OF jk, folded mid_def]
  have rs: "rs = fst (job_queue_run leaseMs es db)" using assms(3) by simp
  let ?dj = "snd (job_queue_run leaseMs (take j es) db)"
  let ?d = "snd (job_queue_step leaseMs (es ! j) ?dj)"
  have ok: "jobs_ok ?dj" "jobs_ok ?d" using jobs_ok_run [OF assms(1)] jobs_ok_step by blast+
  have cj: "fst (job_queue_step leaseMs (es ! j) ?dj) = Some i" using job_queue_run_nth [of j es leaseMs db] jk claims(1) rs by simp
  have lease: "leased_job i (event_time (es ! j) + leaseMs) ?d" by (rule claim_leases [OF ok(1) cj])
  have "take k es = take j es @ es ! j # mid" by (rule take_between [OF jk, folded mid_def])
  then have dk: "snd (job_queue_run leaseMs (take k es) db) = snd (job_queue_run leaseMs mid ?d)"
    by (simp add: job_queue_run_append split_beta Let_def)
  have ck: "fst (job_queue_step leaseMs (es ! k) (snd (job_queue_run leaseMs mid ?d))) = Some i"
    using job_queue_run_nth [OF jk(2), of leaseMs db] claims(2) rs by (simp only: dk)
  have again: "Some i \<in> set (fst (job_queue_run leaseMs (mid' @ [es ! k]) d))"
    if "snd (job_queue_run leaseMs mid' d) = snd (job_queue_run leaseMs mid ?d)" for mid' d
    using ck that by (simp add: job_queue_run_append split_beta Let_def)
  have fk: "\<not> fails_job i (es ! k)" using ck by (cases "es ! k") auto
  have nf: "\<forall>e \<in> set (mid @ [es ! k]). \<not> fails_job i e" using nofail fk by (auto simp: mid(2))
  show "event_time (es ! j) + leaseMs < event_time (es ! k)"
  proof (rule ccontr)
    assume late: "\<not> event_time (es ! j) + leaseMs < event_time (es ! k)"
    have "event_time (es ! m) \<le> event_time (es ! k)" if "m \<le> k" for m
      using sorted_nth_mono [OF assms(2) that] jk(2) that by simp
    then have "event_time (es ! m) \<le> event_time (es ! j) + leaseMs" if "m \<le> k" for m using late that by (meson leI order_trans)
    then have "\<forall>e \<in> set (mid @ [es ! k]). event_time e \<le> event_time (es ! j) + leaseMs" by (auto simp: mid(2))
    then have "Some i \<notin> set (fst (job_queue_run leaseMs (mid @ [es ! k]) ?d))" using leased_run [OF ok(2) lease] nf by blast
    then show False using again [OF refl] by blast
  qed
  fix m
  assume m: "j < m" "m < k"
  show "\<not> completes_job i (es ! m)"
  proof
    assume c: "completes_job i (es ! m)"
    obtain ys zs where yz: "mid = ys @ es ! m # zs" using m mid(2) by (metis (mono_tags, lifting) mem_Collect_eq split_list)
    let ?dm = "snd (job_queue_run leaseMs ys ?d)"
    have okm: "jobs_ok ?dm" by (rule jobs_ok_run [OF ok(2)])
    have "\<exists>r \<in> set (jobs ?dm). job_id r = i"
    proof -
      have ids: "job_id ` set (jobs (snd (job_queue_step leaseMs e x))) = job_id ` set (jobs x)" for e x
        by (rule step_ids)
      have "job_id ` set (jobs (snd (job_queue_run leaseMs xs x))) = job_id ` set (jobs x)" for xs x
        by (induction xs arbitrary: x) (simp_all add: split_beta Let_def ids)
      moreover have "i \<in> job_id ` set (jobs ?d)" using lease by (auto simp: leased_job_def)
      ultimately show ?thesis by (metis (no_types, lifting) imageE)
    qed
    then obtain r where r: "r \<in> set (jobs ?dm)" "job_id r = i" by blast
    have "finished_job i (snd (job_queue_step leaseMs (es ! m) ?dm))" using completed_is_finished [OF r(1)] c r(2) by simp
    then have "Some i \<notin> set (fst (job_queue_run leaseMs (zs @ [es ! k]) (snd (job_queue_step leaseMs (es ! m) ?dm))))"
      using finished_run [OF jobs_ok_step [OF okm]] nf yz by auto
    moreover have "snd (job_queue_run leaseMs zs (snd (job_queue_step leaseMs (es ! m) ?dm))) = snd (job_queue_run leaseMs mid ?d)"
      by (simp add: yz job_queue_run_append split_beta Let_def)
    ultimately show False using again by blast
  qed
next
  fix k locked w now
  assume k: "k < length es" "es ! k = Claim locked w now" "rs ! k = None"
  let ?d = "snd (job_queue_run leaseMs (take k es) db)"
  have "fst (claim_job_id leaseMs locked w now ?d) = None" using job_queue_run_nth [OF k(1), of leaseMs db] k(2,3) assms(3) by simp
  then obtain d where "claim_job_id leaseMs locked w now ?d = (None, d)" by (metis prod.collapse)
  from jobq.claim_nothing [OF jobs_ok_run [OF assms(1)] this] show "claimable_jobs now ?d \<subseteq> locked" by simp
qed

definition pending_job :: "nat \<Rightarrow> (string \<rightharpoonup> json) \<Rightarrow> nat \<Rightarrow> job" where
  "pending_job i p m = \<lparr>job_id = i, jobType = ''email'', payload = p, status = Pending, attempts = 0,
     maxAttempts = m, lockedBy = None, lockedUntil = None, lastError = None,
     createdAt = of_nat i, updatedAt = 0\<rparr>"

definition two_jobs :: job_db where
  "two_jobs = \<lparr>jobs = [pending_job 1 (\<lambda>_. None) 3, pending_job 2 [''shouldFail'' \<mapsto> JBool True] 3],
     job_attempts = [], next_attempt = 1\<rparr>"

lemma two_jobs_ok: "jobs_ok two_jobs"
  by (simp add: two_jobs_def jobs_ok_def pending_job_def)

lemma job_claims_exclusive_witness:
  "fst (job_queue_run 100 [Claim {} ''a'' 0, Claim {} ''b'' 1, Fail 2 2 ''boom'' 2, Claim {} ''b'' 3, Claim {2} ''c'' 101] two_jobs)
     = [Some 1, Some 2, None, Some 2, Some 1] \<and> (0::rat) + 100 < 101"
proof -
  let ?es = "[Claim {} ''a'' 0, Claim {} ''b'' 1, Fail 2 2 ''boom'' 2, Claim {} ''b'' 3, Claim {2} ''c'' 101]"
  have r: "fst (job_queue_run 100 ?es two_jobs) = [Some 1, Some 2, None, Some 2, Some 1]"
    by (simp add: two_jobs_def pending_job_def claim_job_id_def claimJob_def claimable_job_def lease_job_def failJob_def
        fail_row_def row_with_def update_where_def Let_def)
  then obtain db' where run: "job_queue_run 100 ?es two_jobs = ([Some 1, Some 2, None, Some 2, Some 1], db')" by (metis prod.collapse)
  have "sorted (map event_time ?es)" by simp
  from job_claims_exclusive [OF two_jobs_ok this run, THEN conjunct1, THEN spec, of 0, THEN spec, of 4, THEN spec, of 1] r
  show ?thesis by (simp add: less_Suc_eq numeral_eq_Suc)
qed

section \<open>The worker loop\<close>

text \<open>What a worker alone with the queue does to a job, seen from the end of its run at time \<open>t\<close>.\<close>

definition settled :: "rat \<Rightarrow> job \<Rightarrow> job \<Rightarrow> bool" where
  "settled t j j' \<longleftrightarrow> job_id j' = job_id j \<and> payload j' = payload j \<and> maxAttempts j' = maxAttempts j \<and>
     (if status j = Completed \<or> status j = Failed then j' = j
      else (status j = Processing \<and> \<not> claimable_job t j \<and> j' = j)
         \<or> (processJob j = None \<and> status j' = Completed \<and> attempts j' = attempts j + 1)
         \<or> (processJob j \<noteq> None \<and> status j' = Failed \<and> attempts j' = max (attempts j + 1) (maxAttempts j)))"

definition work_left :: "job \<Rightarrow> nat" where
  "work_left j = (if status j = Completed \<or> status j = Failed then 0
                  else 1 + (maxAttempts j - attempts j))"

lemma job_fields_after [simp]:
  "payload (lease_job leaseMs w now j) = payload j" "payload (complete_row now j) = payload j"
  "payload (fail_row msg now b j) = payload j"
  "maxAttempts (lease_job leaseMs w now j) = maxAttempts j" "maxAttempts (complete_row now j) = maxAttempts j"
  "maxAttempts (fail_row msg now b j) = maxAttempts j"
  "attempts (lease_job leaseMs w now j) = attempts j + 1" "attempts (complete_row now j) = attempts j"
  "attempts (fail_row msg now b j) = attempts j"
  "status (lease_job leaseMs w now j) = Processing" "status (complete_row now j) = Completed"
  "status (fail_row msg now b j) = (if b then Failed else Pending)"
  by (simp_all add: lease_job_def complete_row_def fail_row_def)

lemma processJob_cong: "payload j = payload k \<Longrightarrow> (processJob j = None) = (processJob k = None)"
  by (simp add: processJob_def)

text \<open>One turn: the claimed job is completed, failed for good, or back in the queue with less to go.\<close>

definition turned :: "rat \<Rightarrow> rat \<Rightarrow> string \<Rightarrow> rat \<Rightarrow> job \<Rightarrow> job" where
  "turned leaseMs t0 w t r =
     (let j = lease_job leaseMs w t0 r
      in case processJob j of None \<Rightarrow> complete_row t j
         | Some msg \<Rightarrow> fail_row msg t (maxAttempts j \<le> attempts j) j)"

lemma turned_work_left:
  "claimable_job t0 r \<Longrightarrow> work_left (turned leaseMs t0 w t r) < work_left r"
  by (auto simp: turned_def work_left_def claimable_job_def Let_def split: option.splits)

lemma turned_settled:
  assumes "claimable_job t0 r" and "settled t' (turned leaseMs t0 w t r) j'"
  shows "settled t' r j'"
proof -
  let ?j = "lease_job leaseMs w t0 r"
  have p: "(processJob (fail_row m t b ?j) = None) = (processJob r = None)"
    "(processJob ?j = None) = (processJob r = None)" for m b
    by (rule processJob_cong; simp add: fail_row_def lease_job_def)+
  show ?thesis
  proof (cases "processJob ?j")
    case None
    with assms p show ?thesis
      by (auto simp: settled_def turned_def claimable_job_def)
  next
    case (Some msg)
    then have t: "turned leaseMs t0 w t r = fail_row msg t (maxAttempts r \<le> attempts r + 1) ?j"
      by (simp add: turned_def Let_def lease_job_def)
    show ?thesis
    proof (cases "maxAttempts r \<le> attempts r + 1")
      case True
      with assms Some t p show ?thesis
        by (auto simp: settled_def claimable_job_def)
    next
      case False
      then have "settled t' (fail_row msg t False ?j) j'" using assms(2) t by simp
      moreover have "processJob (fail_row msg t False ?j) \<noteq> None" using p Some by simp
      ultimately have "job_id j' = job_id r" "payload j' = payload r" "maxAttempts j' = maxAttempts r"
        "status j' = Failed" "attempts j' = max (attempts r + 2) (maxAttempts r)"
        by (auto simp: settled_def)
      with False Some p assms(1) show ?thesis by (auto simp: settled_def claimable_job_def)
    qed
  qed
qed

abbreviation working :: "(job \<Rightarrow> rat) \<Rightarrow> job \<Rightarrow> string option \<times> rat" where
  "working dur \<equiv> (\<lambda>j. (processJob j, dur j))"

lemma one_turn:
  assumes ok: "jobs_ok db" and c: "claimJob leaseMs {} w now db = (Some c, db1)"
  obtains r result2 db2 where "r \<in> set (jobs db)" "claimable_job now r"
    "worker_turns leaseMs w (working dur) result now db
       = worker_turns leaseMs w (working dur) result2 (now + dur (lease_job leaseMs w now r)) db2"
    "jobs_ok db2" "claimedJobIds result2 = claimedJobIds result @ [job_id r]"
    "jobs db2 = update_where (\<lambda>x. job_id x = job_id r)
       (turned leaseMs now w (now + dur (lease_job leaseMs w now r))) (jobs db)"
proof -
  obtain r where r: "r \<in> set (jobs db)" "claimable_job now r" "claimed_job c = lease_job leaseMs w now r"
    and j1: "jobs db1 = update_where (\<lambda>x. job_id x = job_id r) (lease_job leaseMs w now) (jobs db)"
    using c by (rule claimJob_Some)
  let ?j = "lease_job leaseMs w now r" and ?R = "\<lambda>x. job_id x = job_id r"
  let ?t = "now + dur ?j"
  have ok1: "jobs_ok db1" by (rule jobs_ok_claim [OF ok c])
  have in1: "?j \<in> set (jobs db1)" using r(1) by (auto simp: j1 set_update_where)
  have only: "x = r" if "x \<in> set (jobs db)" "job_id x = job_id r" for x
    using that r(1) ok by (metis distinct_map_unique jobs_ok_def)
  have same: "update_where ?R f (jobs db1) = update_where ?R (turned leaseMs now w ?t) (jobs db)"
    if "f ?j = turned leaseMs now w ?t r" for f
    using that only unfolding j1 by (subst update_where_twice) (auto simp: update_where_def)
  show ?thesis
  proof (cases "processJob ?j")
    case None
    have "jobs (completeJob (job_id r) (attemptId c) ?t db1)
        = update_where ?R (turned leaseMs now w ?t) (jobs db)"
      unfolding completeJob_jobs using None by (intro same) (simp add: turned_def Let_def)
    then show ?thesis using r c None jobs_ok_complete [OF ok1]
      by (intro that [of r "result\<lparr>claimedJobIds := claimedJobIds result @ [job_id r],
              completedJobIds := completedJobIds result @ [job_id r]\<rparr>"
            "completeJob (job_id r) (attemptId c) ?t db1"])
        (simp_all add: worker_turns.simps [of _ _ _ _ _ db] Let_def)
  next
    case (Some msg)
    obtain db2 where db2: "failJob (job_id ?j) (attemptId c) msg ?t db1 = (Inr \<lparr>terminal =
        (maxAttempts ?j \<le> attempts ?j), fr_attempts = attempts ?j, fr_maxAttempts = maxAttempts ?j\<rparr>, db2)"
      "jobs db2 = update_where (\<lambda>x. job_id x = job_id ?j)
         (fail_row msg ?t (maxAttempts ?j \<le> attempts ?j)) (jobs db1)"
      "jobs_ok db2"
      by (rule failJob_found [OF ok1 in1])
    have "jobs db2 = update_where ?R (turned leaseMs now w ?t) (jobs db)"
      unfolding db2(2) using Some by (simp add: same turned_def Let_def)
    then show ?thesis using r c Some db2(1,3)
      by (intro that [of r "result\<lparr>claimedJobIds := claimedJobIds result @ [job_id r],
              failedAttemptJobIds := failedAttemptJobIds result @ [job_id r]\<rparr>" db2])
        (simp_all add: worker_turns.simps [of _ _ _ _ _ db] Let_def)
  qed
qed

lemma worker_turns_settles:
  assumes "jobs_ok db" and "\<And>j. 0 \<le> dur j"
  shows "\<exists>res t db'. worker_turns leaseMs w (working dur) result now db = Some (Inr res, t, db')
       \<and> now \<le> t \<and> claimable_jobs t db' = {} \<and> list_all2 (settled t) (jobs db) (jobs db')
       \<and> length (claimedJobIds res)
           \<le> length (claimedJobIds result) + sum_list (map work_left (jobs db))"
  using assms(1)
proof (induction "sum_list (map work_left (jobs db))" arbitrary: db now result rule: less_induct)
  case less
  show ?case
  proof (cases "claimJob leaseMs {} w now db")
    case (Pair x db1)
    show ?thesis
    proof (cases x)
      case None
      then have db1: "db1 = db" and "\<forall>j \<in> set (jobs db). \<not> claimable_job now j"
        using Pair by (auto simp: claimJob_None)
      then have "list_all2 (settled now) (jobs db) (jobs db)"
        by (intro list.rel_refl_strong) (auto simp: settled_def claimable_job_def intro: job_status.exhaust)
      moreover have "claimable_jobs now db = {}"
        using \<open>\<forall>j \<in> set (jobs db). \<not> claimable_job now j\<close> by (auto simp: claimable_jobs_def)
      ultimately show ?thesis using Pair None db1 by (simp add: worker_turns.simps [of _ _ _ _ _ db])
    next
      case (Some c)
      obtain r result2 db2 where r: "r \<in> set (jobs db)" "claimable_job now r"
        and eq: "worker_turns leaseMs w (working dur) result now db
          = worker_turns leaseMs w (working dur) result2 (now + dur (lease_job leaseMs w now r)) db2"
        and ok2: "jobs_ok db2" and ids: "claimedJobIds result2 = claimedJobIds result @ [job_id r]"
        and j2: "jobs db2 = update_where (\<lambda>x. job_id x = job_id r)
          (turned leaseMs now w (now + dur (lease_job leaseMs w now r))) (jobs db)"
        by (rule one_turn [OF less.prems Pair [unfolded Some]])
      let ?t = "now + dur (lease_job leaseMs w now r)"
      have dist: "distinct (map job_id (jobs db))" using less.prems by (simp add: jobs_ok_def)
      have key: "job_id (turned leaseMs now w ?t x) = job_id x" for x
        by (simp add: turned_def Let_def split: option.splits)
      have "sum_list (map work_left (jobs db2)) < sum_list (map work_left (jobs db))"
        using sum_update_key [OF dist r(1) key, of work_left] turned_work_left [OF r(2), of leaseMs w ?t] j2
        by simp
      moreover from less.hyps [OF this ok2] obtain res t db' where IH:
        "worker_turns leaseMs w (working dur) result2 ?t db2 = Some (Inr res, t, db')" "?t \<le> t"
        "claimable_jobs t db' = {}" "list_all2 (settled t) (jobs db2) (jobs db')"
        "length (claimedJobIds res) \<le> length (claimedJobIds result2) + sum_list (map work_left (jobs db2))"
        by blast
      moreover have "list_all2 (settled t) (jobs db) (jobs db')"
      proof -
        have "list_all2 (\<lambda>x. settled t (if job_id x = job_id r then turned leaseMs now w ?t x else x))
            (jobs db) (jobs db')"
          using IH(4) by (simp add: j2 update_where_def list_all2_map1)
        then show ?thesis
        proof (rule list.rel_mono_strong)
          fix x y
          assume x: "x \<in> set (jobs db)"
            and "settled t (if job_id x = job_id r then turned leaseMs now w ?t x else x) y"
          moreover have "x = r" if "job_id x = job_id r" using that x r(1) dist by (metis distinct_map_unique)
          ultimately show "settled t x y" using turned_settled [OF r(2)] by (auto split: if_splits)
        qed
      qed
      moreover have "now \<le> ?t" using assms(2) by simp
      ultimately show ?thesis using eq ids by fastforce
    qed
  qed
qed

text \<open>
  C11: a worker left alone with the queue always returns, in no more claims than the retry budgets
  allow, with nothing claimable left: each job it touched is completed if its work succeeds and failed
  after its last attempt if not, and finished jobs and jobs under another worker's live lease are
  as they were.
\<close>

theorem worker_empties_queue:
  assumes "jobs_ok db" and "\<And>j. 0 \<le> dur j"
  shows "\<exists>res t db'. runWorkerUntilEmpty leaseMs w (working dur) now db = Some (Inr res, t, db')
       \<and> claimable_jobs t db' = {} \<and> list_all2 (settled t) (jobs db) (jobs db')
       \<and> length (claimedJobIds res) \<le> (\<Sum>j\<leftarrow>jobs db. work_left j)"
  using worker_turns_settles [where result = "\<lparr>claimedJobIds = [], completedJobIds = [],
      failedAttemptJobIds = []\<rparr>", OF assms(1), of dur leaseMs w now] assms(2)
  unfolding runWorkerUntilEmpty_def by fastforce

lemma worker_empties_queue_witness:
  "\<exists>res t db'. runWorkerUntilEmpty 100 ''w'' (working (\<lambda>_. 5)) 0 two_jobs = Some (Inr res, t, db')
     \<and> claimable_jobs t db' = {}"
  using worker_empties_queue [OF two_jobs_ok, of "\<lambda>_. 5" 100 "''w''" 0] by auto

end
