(* ===== verification/Job_Workers.thy ===== *)
theory Job_Workers
  imports Job_Queue
begin

text \<open>
  Many Lab 14 workers on one queue. \<open>completeJob\<close> and \<open>failJob\<close> name the job and the attempt but do not
  check that the caller still holds the lease, so what the queue guarantees depends on workers being
  prompt: a worker that finishes within its lease, or dies, keeps every invariant; one that finishes
  late can undo another's result.
\<close>

section \<open>A late worker\<close>

text \<open>
  C10: a job claimed by A whose lease ran out, reclaimed and completed by B, does not stay completed:
  when A's own attempt then fails, \<open>failJob\<close> puts the job back (to pending while attempts remain, so a
  third worker will run it again).
\<close>

theorem late_failure_undoes_completion:
  assumes "jobs_ok db"
    and "claimJob leaseMs {} wa t1 db = (Some a, db1)" and "claimJob leaseMs {} wb t2 db1 = (Some b, db2)"
    and "job_id (claimed_job b) = job_id (claimed_job a)"
    and "db3 = completeJob (job_id (claimed_job b)) (attemptId b) t3 db2"
    and "failJob (job_id (claimed_job a)) (attemptId a) msg t4 db3 = (res, db4)"
  shows "t1 + leaseMs < t2
       \<and> (\<exists>j3 j4. row_with (\<lambda>j. job_id j = job_id (claimed_job a)) (jobs db3) = Some j3
            \<and> row_with (\<lambda>j. job_id j = job_id (claimed_job a)) (jobs db4) = Some j4
            \<and> status j3 = Completed \<and> status j4 \<noteq> Completed
            \<and> (attempts j3 < maxAttempts j3 \<longrightarrow> claimable_job t5 j4))"
proof -
  obtain r where r: "r \<in> set (jobs db)" "claimed_job a = lease_job leaseMs wa t1 r"
    and j1: "jobs db1 = update_where (\<lambda>x. job_id x = job_id r) (lease_job leaseMs wa t1) (jobs db)"
    using assms(2) by (rule claimJob_Some)
  obtain q where q: "q \<in> set (jobs db1)" "claimable_job t2 q" "claimed_job b = lease_job leaseMs wb t2 q"
    and j2: "jobs db2 = update_where (\<lambda>x. job_id x = job_id q) (lease_job leaseMs wb t2) (jobs db1)"
    using assms(3) by (rule claimJob_Some)
  have ok1: "jobs_ok db1" and ok2: "jobs_ok db2" and ok3: "jobs_ok db3"
    using jobs_ok_claim [OF assms(1,2)] jobs_ok_claim [OF _ assms(3)] jobs_ok_complete assms(5) by auto
  have "lease_job leaseMs wa t1 r \<in> set (jobs db1)" using r(1) by (auto simp: j1 set_update_where)
  moreover have id: "job_id q = job_id r" using assms(4) r(2) q(3) by simp
  ultimately have q': "q = lease_job leaseMs wa t1 r"
    using q(1) ok1 by (metis distinct_map_unique job_ids_after(1) jobs_ok_def)
  then have "t1 + leaseMs < t2" using q(2) by (simp add: claimable_job_def) (simp add: lease_job_def)
  moreover have "lease_job leaseMs wb t2 q \<in> set (jobs db2)" using q(1) by (auto simp: j2 set_update_where)
  then have in3: "complete_row t3 (lease_job leaseMs wb t2 q) \<in> set (jobs db3)"
    unfolding assms(5) completeJob_jobs q(3) by (force simp: set_update_where)
  let ?j3 = "complete_row t3 (lease_job leaseMs wb t2 q)"
  have w3: "row_with (\<lambda>j. job_id j = job_id r) (jobs db3) = Some ?j3"
    using row_with_unique [OF _ in3, of job_id] ok3 id by (simp add: jobs_ok_def)
  moreover have "row_with (\<lambda>j. job_id j = job_id r) (jobs db4)
      = Some (fail_row msg t4 (maxAttempts ?j3 \<le> attempts ?j3) ?j3)"
  proof -
    have "jobs db4 = update_where (\<lambda>x. job_id x = job_id ?j3)
        (fail_row msg t4 (maxAttempts ?j3 \<le> attempts ?j3)) (jobs db3)"
      using assms(6) r(2) id w3 by (auto simp: failJob_def Let_def)
    then show ?thesis using w3 id by (simp add: row_with_update_key)
  qed
  ultimately show ?thesis using r(2) by (simp add: claimable_job_def)
qed

text \<open>A queue with one job, its first worker late.\<close>

definition one_job :: job_db where
  "one_job = \<lparr>jobs = [pending_job 1 [''shouldFail'' \<mapsto> JBool True] 5], job_attempts = [], next_attempt = 1\<rparr>"

lemma late_failure_undoes_completion_witness:
  "\<exists>db2 j4. row_with (\<lambda>j. job_id j = 1)
       (jobs (snd (failJob 1 1 ''late'' 300 (completeJob 1 2 250 db2)))) = Some j4
     \<and> status j4 \<noteq> Completed"
proof -
  obtain a db1 where a: "claimJob 100 {} ''a'' 0 one_job = (Some a, db1)"
    "job_id (claimed_job a) = 1" "attemptId a = 1" "next_attempt db1 = 2"
    "jobs db1 = [lease_job 100 ''a'' 0 (pending_job 1 [''shouldFail'' \<mapsto> JBool True] 5)]"
    by (simp add: one_job_def pending_job_def claimJob_def claimable_job_def Let_def update_where_def)
  obtain b db2 where b: "claimJob 100 {} ''b'' 200 db1 = (Some b, db2)" "job_id (claimed_job b) = 1"
    "attemptId b = 2"
    using a(4,5) by (simp add: claimJob_def claimable_job_def Let_def lease_job_def pending_job_def)
  obtain res db4 where f: "failJob (job_id (claimed_job a)) (attemptId a) ''late'' 300
      (completeJob (job_id (claimed_job b)) (attemptId b) 250 db2) = (res, db4)" by fastforce
  have ok: "jobs_ok one_job" by (simp add: one_job_def jobs_ok_def pending_job_def)
  from late_failure_undoes_completion [OF ok a(1) b(1) _ refl f, of 400] a(2) b(2)
  obtain j4 where "row_with (\<lambda>j. job_id j = 1) (jobs db4) = Some j4" "status j4 \<noteq> Completed"
    by auto
  then show ?thesis using f a(2,3) b(2,3) by (intro exI [of _ db2] exI [of _ j4]) simp
qed

section \<open>Prompt workers\<close>

text \<open>
  \<open>hand w\<close> is what worker \<open>w\<close> is running: the job, its attempt row and the end of its lease. A prompt
  worker records its result no later than that; a worker that does not get there has died or hangs.
\<close>

record job_system =
  tables :: job_db
  now :: rat
  hand :: "string \<rightharpoonup> nat \<times> nat \<times> rat"

inductive prompt_step :: "rat \<Rightarrow> job_system \<Rightarrow> job_system \<Rightarrow> bool" for leaseMs where
  tick: "0 \<le> d \<Longrightarrow> prompt_step leaseMs s (s\<lparr>now := now s + d\<rparr>)"
| claim: "hand s w = None \<Longrightarrow> claimJob leaseMs locked w (now s) (tables s) = (Some c, db') \<Longrightarrow>
    prompt_step leaseMs s (s\<lparr>tables := db',
      hand := (hand s)(w \<mapsto> (job_id (claimed_job c), attemptId c, now s + leaseMs))\<rparr>)"
| complete: "hand s w = Some (i, a, until) \<Longrightarrow> now s \<le> until \<Longrightarrow>
    prompt_step leaseMs s (s\<lparr>tables := completeJob i a (now s) (tables s), hand := (hand s)(w := None)\<rparr>)"
| fail: "hand s w = Some (i, a, until) \<Longrightarrow> now s \<le> until \<Longrightarrow>
    failJob i a msg (now s) (tables s) = (res, db') \<Longrightarrow>
    prompt_step leaseMs s (s\<lparr>tables := db', hand := (hand s)(w := None)\<rparr>)"
| crash: "prompt_step leaseMs s (s\<lparr>hand := (hand s)(w := None)\<rparr>)"

inductive prompt_reach :: "rat \<Rightarrow> job_system \<Rightarrow> bool" for leaseMs where
  init: "jobs_ok db \<Longrightarrow> \<forall>j \<in> set (jobs db). status j = Pending \<Longrightarrow> job_attempts db = [] \<Longrightarrow>
    prompt_reach leaseMs \<lparr>tables = db, now = t, hand = (\<lambda>_. None)\<rparr>"
| step: "prompt_reach leaseMs s \<Longrightarrow> prompt_step leaseMs s s' \<Longrightarrow> prompt_reach leaseMs s'"

definition open_attempts :: "job_db \<Rightarrow> nat \<Rightarrow> nat" where
  "open_attempts db i = row_count (\<lambda>a. attempt_job a = i \<and> attempt_status a = AClaimed) (job_attempts db)"

definition audit_ok :: "job_db \<Rightarrow> bool" where
  "audit_ok db \<longleftrightarrow> jobs_ok db \<and> distinct (map attempt_id (job_attempts db))
     \<and> (\<forall>a \<in> set (job_attempts db). attempt_id a < next_attempt db)
     \<and> (\<forall>j \<in> set (jobs db). open_attempts db (job_id j) = (if status j = Processing then 1 else 0))"

definition live_hand :: "job_db \<Rightarrow> string \<Rightarrow> nat \<Rightarrow> nat \<Rightarrow> rat \<Rightarrow> bool" where
  "live_hand db w i a until \<longleftrightarrow>
     (\<exists>j \<in> set (jobs db). job_id j = i \<and> status j = Processing
        \<and> lockedBy j = Some w \<and> lockedUntil j = Some until)
   \<and> (\<exists>x \<in> set (job_attempts db). attempt_id x = a \<and> attempt_job x = i \<and> attempt_status x = AClaimed)"

definition prompt_inv :: "job_system \<Rightarrow> bool" where
  "prompt_inv s \<longleftrightarrow> audit_ok (tables s)
     \<and> (\<forall>w i a until. hand s w = Some (i, a, until) \<and> now s \<le> until \<longrightarrow> live_hand (tables s) w i a until)"

section \<open>Every step keeps the audit trail\<close>

lemma live_job:
  assumes "jobs_ok db" and "live_hand db w i a until" and "j \<in> set (jobs db)" and "job_id j = i"
  shows "status j = Processing \<and> lockedBy j = Some w \<and> lockedUntil j = Some until"
proof -
  obtain k where "k \<in> set (jobs db)" "job_id k = i" "status k = Processing" "lockedBy k = Some w"
    "lockedUntil k = Some until" using assms(2) unfolding live_hand_def by blast
  with assms(1,3,4) show ?thesis by (metis distinct_map_unique jobs_ok_def)
qed

text \<open>A result recorded by the holder closes its attempt and leaves every other holder alone.\<close>

lemma finish_keeps:
  assumes audit: "audit_ok db" and live: "live_hand db w i a until"
    and jobs': "jobs db' = update_where (\<lambda>j. job_id j = i) f (jobs db)" and ok': "jobs_ok db'"
    and f: "\<And>j. job_id (f j) = job_id j \<and> status (f j) \<noteq> Processing"
    and atts': "job_attempts db' = update_where (\<lambda>x. attempt_id x = a) g (job_attempts db)"
    and g: "\<And>x. attempt_id (g x) = attempt_id x \<and> attempt_job (g x) = attempt_job x
                \<and> attempt_status (g x) \<noteq> AClaimed"
    and nxt: "next_attempt db' = next_attempt db"
  shows "audit_ok db' \<and> (\<forall>v k b t. v \<noteq> w \<longrightarrow> live_hand db v k b t \<longrightarrow> live_hand db' v k b t)"
proof -
  have ok: "jobs_ok db" and dist: "distinct (map attempt_id (job_attempts db))"
    using audit by (simp_all add: audit_ok_def)
  obtain x where x: "x \<in> set (job_attempts db)" "attempt_id x = a" "attempt_job x = i"
    "attempt_status x = AClaimed" using live unfolding live_hand_def by blast
  have upd: "job_attempts db' = update_where (\<lambda>y. attempt_id y = attempt_id x) g (job_attempts db)"
    using atts' x(2) by simp
  have cnt: "open_attempts db' k + (if i = k then 1 else 0) = open_attempts db k" for k
    using row_count_update_key [OF dist x(1), of g "\<lambda>y. attempt_job y = k \<and> attempt_status y = AClaimed"]
      x g [of x] by (simp add: open_attempts_def upd)
  have "open_attempts db' (job_id j) = (if status j = Processing then 1 else 0)" if j: "j \<in> set (jobs db')" for j
  proof -
    obtain k where k: "k \<in> set (jobs db)" "j = (if job_id k = i then f k else k)"
      using j by (auto simp: jobs' set_update_where)
    have "open_attempts db (job_id k) = (if status k = Processing then 1 else 0)"
      using audit k(1) by (simp add: audit_ok_def)
    moreover have "status k = Processing" if "job_id k = i" using live_job [OF ok live k(1) that] by simp
    ultimately show ?thesis using k(2) f [of k] cnt [of "job_id k"] by (auto split: if_splits)
  qed
  moreover have "distinct (map attempt_id (job_attempts db'))"
    using dist g by (simp add: atts' map_update_where)
  moreover have "\<forall>y \<in> set (job_attempts db'). attempt_id y < next_attempt db'"
    using audit g by (auto simp: atts' ball_update_where nxt audit_ok_def)
  ultimately have "audit_ok db'" using ok' by (simp add: audit_ok_def)
  moreover have "live_hand db' v k b t" if v: "v \<noteq> w" and l: "live_hand db v k b t" for v k b t
  proof -
    obtain j y where j: "j \<in> set (jobs db)" "job_id j = k" "status j = Processing" "lockedBy j = Some v"
      "lockedUntil j = Some t" and y: "y \<in> set (job_attempts db)" "attempt_id y = b" "attempt_job y = k"
      "attempt_status y = AClaimed" using l unfolding live_hand_def by blast
    have ki: "k \<noteq> i" using live_job [OF ok live j(1)] j(2,4) v by auto
    have "b \<noteq> a" using dist x(1-3) y(1-3) ki by (metis distinct_map_unique)
    then have "y \<in> set (job_attempts db')" using y(1,2) by (force simp: atts' set_update_where)
    moreover have "j \<in> set (jobs db')" using j(1,2) ki by (force simp: jobs' set_update_where)
    ultimately show ?thesis unfolding live_hand_def using j y by blast
  qed
  ultimately show ?thesis by blast
qed

lemma claim_keeps:
  assumes audit: "audit_ok db" and c: "claimJob leaseMs locked w t db = (Some c, db')"
  shows "audit_ok db' \<and> live_hand db' w (job_id (claimed_job c)) (attemptId c) (t + leaseMs)
       \<and> (\<forall>v k b u. t \<le> u \<longrightarrow> live_hand db v k b u \<longrightarrow> live_hand db' v k b u)"
proof -
  have ok: "jobs_ok db" using audit by (simp add: audit_ok_def)
  obtain r where r: "r \<in> set (jobs db)" "claimable_job t r" "claimed_job c = lease_job leaseMs w t r"
    "attemptId c = next_attempt db"
    and jobs': "jobs db' = update_where (\<lambda>x. job_id x = job_id r) (lease_job leaseMs w t) (jobs db)"
    and nxt: "next_attempt db' = next_attempt db + 1"
    and atts': "job_attempts db' = (if status r = Processing then expire_attempts (job_id r) t (job_attempts db)
         else job_attempts db)
       @ [\<lparr>attempt_id = next_attempt db, attempt_job = job_id r, attempt_worker = w,
           attempt_number = attempts r + 1, attempt_status = AClaimed, claimed_at = t,
           released_at = None, attempt_error = None\<rparr>]" (is "_ = ?old @ [?new]")
    using c by (rule claimJob_Some)
  have only: "x = r" if "x \<in> set (jobs db)" "job_id x = job_id r" for x
    using that r(1) ok by (metis distinct_map_unique jobs_ok_def)
  have ids: "map attempt_id ?old = map attempt_id (job_attempts db)"
    by (simp add: expire_attempts_def map_update_where)
  then have "attempt_id ` set ?old = attempt_id ` set (job_attempts db)" by (metis list.set_map)
  then have fresh: "\<forall>y \<in> set ?old. attempt_id y < next_attempt db"
    using audit unfolding audit_ok_def by (metis (no_types, lifting) image_iff)
  have old: "row_count (\<lambda>y. attempt_job y = k \<and> attempt_status y = AClaimed) ?old
      = (if k = job_id r then 0 else open_attempts db k)" for k
  proof (cases "k = job_id r")
    case True
    have "open_attempts db (job_id r) = (if status r = Processing then 1 else 0)"
      using audit r(1) by (simp add: audit_ok_def)
    then show ?thesis using True
      by (auto simp: open_attempts_def row_count_zero expire_attempts_def ball_update_where)
  next
    case False
    then show ?thesis
      by (auto simp: open_attempts_def expire_attempts_def row_count_def update_where_def
          intro!: arg_cong [where f = length] filter_cong split: if_splits)
  qed
  have cnt: "open_attempts db' k = (if k = job_id r then 1 else open_attempts db k)" for k
    unfolding open_attempts_def atts' row_count_append old by (simp add: row_count_def open_attempts_def)
  have "open_attempts db' (job_id j) = (if status j = Processing then 1 else 0)" if j: "j \<in> set (jobs db')" for j
  proof -
    obtain k where k: "k \<in> set (jobs db)" "j = (if job_id k = job_id r then lease_job leaseMs w t k else k)"
      using j by (auto simp: jobs' set_update_where)
    have "open_attempts db (job_id k) = (if status k = Processing then 1 else 0)"
      using audit k(1) by (simp add: audit_ok_def)
    then show ?thesis using k(2) cnt by simp
  qed
  moreover have "distinct (map attempt_id (job_attempts db'))"
    using audit ids fresh by (auto simp: atts' audit_ok_def)
  moreover have "\<forall>y \<in> set (job_attempts db'). attempt_id y < next_attempt db'"
    using fresh by (auto simp: atts' nxt less_Suc_eq)
  ultimately have "audit_ok db'" using jobs_ok_claim [OF ok c] by (simp add: audit_ok_def)
  moreover have "live_hand db' w (job_id (claimed_job c)) (attemptId c) (t + leaseMs)"
  proof -
    have "lease_job leaseMs w t r \<in> set (jobs db')" using r(1) by (auto simp: jobs' set_update_where)
    moreover have "?new \<in> set (job_attempts db')" by (simp add: atts')
    ultimately show ?thesis unfolding live_hand_def using r(3,4)
      by (intro conjI bexI [of _ "lease_job leaseMs w t r"] bexI [of _ ?new]) (simp_all add: lease_job_def)
  qed
  moreover have "live_hand db' v k b u" if u: "t \<le> u" and l: "live_hand db v k b u" for v k b u
  proof -
    obtain j y where j: "j \<in> set (jobs db)" "job_id j = k" "status j = Processing" "lockedBy j = Some v"
      "lockedUntil j = Some u" and y: "y \<in> set (job_attempts db)" "attempt_id y = b" "attempt_job y = k"
      "attempt_status y = AClaimed" using l unfolding live_hand_def by blast
    have kr: "k \<noteq> job_id r" using only [OF j(1)] j r(2) u by (auto simp: claimable_job_def)
    have "y \<in> set ?old" using y kr by (force simp: expire_attempts_def set_update_where)
    moreover have "j \<in> set (jobs db')" using j(1,2) kr by (force simp: jobs' set_update_where)
    ultimately show ?thesis unfolding live_hand_def atts' using j y by auto
  qed
  ultimately show ?thesis by blast
qed

lemma prompt_inv_step [inv_intros]:
  assumes "prompt_step leaseMs s s'" and inv: "prompt_inv s"
  shows "prompt_inv s'"
  using assms(1)
proof (cases rule: prompt_step.cases)
  case (tick d)
  then show ?thesis using inv by (auto simp: prompt_inv_def)
next
  case (claim w locked c db')
  have audit: "audit_ok (tables s)" using inv by (simp add: prompt_inv_def)
  note keeps = claim_keeps [OF audit claim(3)]
  have "live_hand db' v i a until"
    if h: "((hand s)(w \<mapsto> (job_id (claimed_job c), attemptId c, now s + leaseMs))) v = Some (i, a, until)"
      "now s \<le> until" for v i a until
  proof (cases "v = w")
    case True
    then show ?thesis using h keeps by simp
  next
    case False
    then have "live_hand (tables s) v i a until" using h inv by (simp add: prompt_inv_def)
    then show ?thesis using keeps h(2) by blast
  qed
  with keeps claim(1) show ?thesis by (simp add: prompt_inv_def)
next
  case (complete w i a until)
  have audit: "audit_ok (tables s)" and live: "live_hand (tables s) w i a until"
    using inv complete by (simp_all add: prompt_inv_def)
  have "audit_ok (completeJob i a (now s) (tables s))
      \<and> (\<forall>v k b t. v \<noteq> w \<longrightarrow> live_hand (tables s) v k b t \<longrightarrow>
           live_hand (completeJob i a (now s) (tables s)) v k b t)"
    by (rule finish_keeps [OF audit live completeJob_jobs jobs_ok_complete, where
        g = "\<lambda>x. x\<lparr>attempt_status := ACompleted, released_at := Some (now s), attempt_error := attempt_error x\<rparr>"])
      (use audit in \<open>simp_all add: audit_ok_def completeJob_def release_attempt_def\<close>)
  with inv complete show ?thesis by (auto simp: prompt_inv_def)
next
  case (fail w i a until msg res db')
  have audit: "audit_ok (tables s)" and live: "live_hand (tables s) w i a until"
    using inv fail by (simp_all add: prompt_inv_def)
  obtain j where j: "j \<in> set (jobs (tables s))" "job_id j = i" using live unfolding live_hand_def by blast
  have ok: "jobs_ok (tables s)" using audit by (simp add: audit_ok_def)
  obtain db2 where db2: "failJob (job_id j) a msg (now s) (tables s) = (Inr \<lparr>terminal =
        (maxAttempts j \<le> attempts j), fr_attempts = attempts j, fr_maxAttempts = maxAttempts j\<rparr>, db2)"
    "jobs db2 = update_where (\<lambda>x. job_id x = job_id j)
       (fail_row msg (now s) (maxAttempts j \<le> attempts j)) (jobs (tables s))" "jobs_ok db2"
    "next_attempt db2 = next_attempt (tables s)"
    "job_attempts db2 = release_attempt a AFailed (Some msg) (now s) (job_attempts (tables s))"
    by (rule failJob_found [OF ok j(1)])
  then have eq: "db' = db2" using fail(4) j(2) by simp
  have "audit_ok db2 \<and> (\<forall>v k b t. v \<noteq> w \<longrightarrow> live_hand (tables s) v k b t \<longrightarrow> live_hand db2 v k b t)"
    by (rule finish_keeps [OF audit live db2(2) [unfolded j(2)] db2(3) _ db2(5) [unfolded release_attempt_def]])
      (simp_all add: db2(4))
  with inv fail(1) eq show ?thesis by (auto simp: prompt_inv_def)
next
  case (crash w)
  then show ?thesis using inv by (auto simp: prompt_inv_def)
qed

lemma reach_prompt_inv: "prompt_reach leaseMs s \<Longrightarrow> prompt_inv s"
proof (induction rule: prompt_reach.induct)
  case (init db t)
  then show ?case by (simp add: prompt_inv_def audit_ok_def open_attempts_def row_count_def)
qed (rule prompt_inv_step)

text \<open>
  As long as every worker records its result within its lease or not at all, the audit trail is
  right after every step: a job in progress has exactly one open attempt row and any other job none;
  a job is run under at most one live lease; and a completed or failed job never changes again.
\<close>

lemma prompt_workers_keep_audit:
  assumes "prompt_reach leaseMs s" and "j \<in> set (jobs (tables s))"
  shows "open_attempts (tables s) (job_id j) = (if status j = Processing then 1 else 0)
       \<and> (hand s v = Some (job_id j, a, t) \<and> hand s w = Some (job_id j, b, u) \<and> now s \<le> t \<and> now s \<le> u
            \<longrightarrow> v = w)
       \<and> (prompt_step leaseMs s s' \<and> (status j = Completed \<or> status j = Failed)
            \<longrightarrow> j \<in> set (jobs (tables s')))"
proof (intro conjI impI)
  have inv: "prompt_inv s" by (rule reach_prompt_inv [OF assms(1)])
  then have audit: "audit_ok (tables s)" and ok: "jobs_ok (tables s)"
    by (simp_all add: prompt_inv_def audit_ok_def)
  have live: "status j = Processing \<and> lockedBy j = Some x"
    if "hand s x = Some (job_id j, c, r)" "now s \<le> r" for x c r
    using live_job [OF ok _ assms(2) refl] inv that unfolding prompt_inv_def by blast
  show "open_attempts (tables s) (job_id j) = (if status j = Processing then 1 else 0)"
    using audit assms(2) by (simp add: audit_ok_def)
  show "v = w" if "hand s v = Some (job_id j, a, t) \<and> hand s w = Some (job_id j, b, u) \<and> now s \<le> t \<and> now s \<le> u"
    using live [of v a t] live [of w b u] that by simp
  assume st: "prompt_step leaseMs s s' \<and> (status j = Completed \<or> status j = Failed)"
  have other: "hand s x = Some (i, c, r) \<Longrightarrow> now s \<le> r \<Longrightarrow> job_id j \<noteq> i" for x i c r
    using live st by fastforce
  from st have "prompt_step leaseMs s s'" by blast
  then show "j \<in> set (jobs (tables s'))"
  proof (cases rule: prompt_step.cases)
    case (claim x locked c db')
    obtain r where r: "r \<in> set (jobs (tables s))" "claimable_job (now s) r"
      and j': "jobs db' = update_where (\<lambda>x. job_id x = job_id r) (lease_job leaseMs x (now s)) (jobs (tables s))"
      using claim(3) by (rule claimJob_Some)
    have "job_id j \<noteq> job_id r"
      using st r assms(2) ok by (auto simp: claimable_job_def jobs_ok_def dest: distinct_map_unique)
    then show ?thesis using assms(2) claim(1) j' by (force simp: set_update_where)
  next
    case (complete x i c r)
    then show ?thesis using other [OF complete(2,3)] assms(2)
      by (force simp: completeJob_jobs set_update_where)
  next
    case (fail x i c r msg res db')
    then show ?thesis using other [OF fail(2,3)] assms(2)
      by (auto simp: failJob_def Let_def set_update_where split: option.splits)
  qed (use assms(2) in simp_all)
qed

lemma prompt_workers_keep_audit_witness:
  "open_attempts (tables \<lparr>tables = one_job, now = 0, hand = (\<lambda>_. None)\<rparr>) 1 = 0"
  using prompt_workers_keep_audit [OF prompt_reach.init [of one_job 0 100],
      of "pending_job 1 [''shouldFail'' \<mapsto> JBool True] 5"]
  by (simp add: one_job_def jobs_ok_def pending_job_def)

end
