(* ===== verification/Metrics.thy ===== *)
theory Metrics
  imports Prelude
begin

text \<open>
  The counters and gauges of \<open>labs/40-*/src/lib/metrics.ts\<close> and their Prometheus text form. The three
  \<open>Map\<close>s are association lists in insertion order, which \<open>render\<close> follows. Values are integers.
\<close>

type_synonym 'v js_map = "(string \<times> 'v) list"

fun map_set :: "string \<Rightarrow> 'v \<Rightarrow> 'v js_map \<Rightarrow> 'v js_map" where
  "map_set k v [] = [(k, v)]"
| "map_set k v ((j, x) # m) = (if j = k then (j, v) # m else (j, x) # map_set k v m)"

record MetricsRegistry =
  counters :: "int js_map"
  gauges :: "int js_map"
  helpText :: "string js_map"

definition new_registry :: MetricsRegistry where
  "new_registry = \<lparr>counters = [], gauges = [], helpText = []\<rparr>"

type_synonym labels = "(string \<times> string) list"

fun join :: "string \<Rightarrow> string list \<Rightarrow> string" where
  "join sep [] = []"
| "join sep [x] = x"
| "join sep (x # xs) = x @ sep @ join sep xs"

definition metric_key :: "string \<Rightarrow> labels \<Rightarrow> string" where
  "metric_key name ls =
     (if ls = [] then name
      else name @ ''{'' @ join '','' (map (\<lambda>(k, v). k @ ''=\"'' @ v @ ''\"'') ls) @ ''}'')"

definition get :: "string \<Rightarrow> int js_map \<Rightarrow> int" where
  "get k m = (case map_of m k of Some v \<Rightarrow> v | None \<Rightarrow> 0)"

definition note_help :: "string \<Rightarrow> string \<Rightarrow> MetricsRegistry \<Rightarrow> MetricsRegistry" where
  "note_help name help r = (if help = [] then r else r\<lparr>helpText := map_set name help (helpText r)\<rparr>)"

definition incrementCounter :: "string \<Rightarrow> labels \<Rightarrow> int \<Rightarrow> string \<Rightarrow> MetricsRegistry \<Rightarrow> MetricsRegistry" where
  "incrementCounter name ls amount help r =
     (let r1 = note_help name help r; k = metric_key name ls
      in r1\<lparr>counters := map_set k (get k (counters r1) + amount) (counters r1)\<rparr>)"

definition setGauge :: "string \<Rightarrow> int \<Rightarrow> labels \<Rightarrow> string \<Rightarrow> MetricsRegistry \<Rightarrow> MetricsRegistry" where
  "setGauge name v ls help r =
     (let r1 = note_help name help r
      in r1\<lparr>gauges := map_set (metric_key name ls) v (gauges r1)\<rparr>)"

definition getCounter :: "string \<Rightarrow> labels \<Rightarrow> MetricsRegistry \<Rightarrow> int" where
  "getCounter name ls r = get (metric_key name ls) (counters r)"

definition getGauge :: "string \<Rightarrow> labels \<Rightarrow> MetricsRegistry \<Rightarrow> int" where
  "getGauge name ls r = get (metric_key name ls) (gauges r)"

definition reset :: "MetricsRegistry \<Rightarrow> MetricsRegistry" where
  "reset r = r\<lparr>counters := [], gauges := []\<rparr>"

text \<open>\<open>key.split("{")[0]\<close> is the part before the first brace.\<close>

definition base_name :: "string \<Rightarrow> string" where
  "base_name k = takeWhile (\<lambda>c. c \<noteq> CHR ''{'') k"

fun emit :: "string \<Rightarrow> string js_map \<Rightarrow> int js_map \<Rightarrow> string list \<Rightarrow> string list \<times> string list" where
  "emit type help [] seen = ([], seen)"
| "emit type help ((k, v) # m) seen =
     (let b = base_name k;
          header = (if b \<in> set seen then []
                    else (case map_of help b of Some h \<Rightarrow> [''# HELP '' @ b @ '' '' @ h] | None \<Rightarrow> [])
                         @ [''# TYPE '' @ b @ '' '' @ type]);
          (ls, seen') = emit type help m (if b \<in> set seen then seen else seen @ [b])
      in (header @ [k @ '' '' @ int_str v] @ ls, seen'))"

definition render_lines :: "MetricsRegistry \<Rightarrow> string list" where
  "render_lines r =
     (let (ls1, seen1) = emit ''counter'' (helpText r) (counters r) [];
          (ls2, _) = emit ''gauge'' (helpText r) (gauges r) seen1
      in ls1 @ ls2)"

definition render :: "MetricsRegistry \<Rightarrow> string" where
  "render r = join ''\<newline>'' (render_lines r) @ ''\<newline>''"

section \<open>Reading back what was counted\<close>

lemma map_of_map_set [simp]: "map_of (map_set k v m) j = (if j = k then Some v else map_of m j)"
  by (induction k v m rule: map_set.induct) auto

lemma keys_map_set: "map fst (map_set k v m) = (if k \<in> fst ` set m then map fst m else map fst m @ [k])"
  by (induction k v m rule: map_set.induct) auto

lemma getCounter_increment:
  "getCounter n l (incrementCounter name ls amount help r)
     = getCounter n l r + (if metric_key n l = metric_key name ls then amount else 0)"
  by (simp add: getCounter_def incrementCounter_def note_help_def get_def Let_def)

lemma getCounter_setGauge [simp]: "getCounter n l (setGauge name v ls help r) = getCounter n l r"
  by (simp add: getCounter_def setGauge_def note_help_def Let_def)

end
