(* ===== verification/Capstone_Shop.thy ===== *)
theory Capstone_Shop
  imports Outbox_Queue Metrics
begin

text \<open>
  The front half of Lab 40, \<open>labs/40-*/src\<close>: seat reservation (\<open>seats/reserve-seat.ts\<close>) and the two
  checkout handlers (\<open>checkout/checkout-naive.ts\<close>, \<open>checkout/checkout-idempotent.ts\<close>) over the tables
  \<open>seats\<close>, \<open>orders\<close> and \<open>outbox_events\<close>, with the counters they maintain. A handler is one
  transaction: PostgreSQL serialises concurrent calls on the same key (unique index) or seat (row
  lock), so a storm of concurrent calls is a sequence of them in some order. Ids and uuids the server
  generates are arguments (\<open>server_values\<close>).
\<close>

section \<open>Tables\<close>

datatype seat_status = AVAILABLE | RESERVED | SOLD

record seat =
  seat_id :: nat
  seat_status :: seat_status
  reservation_token :: "nat option"
  reserved_by :: "string option"
  reserved_until :: "rat option"
  sold_to :: "string option"

record order =
  order_id :: nat
  order_public_id :: nat
  idempotency_key :: nat
  order_seat :: nat
  customer_id :: string
  customer_email :: string
  amount_cents :: int
  correlation_id :: string

record order_payload =
  orderPublicId :: nat
  op_correlationId :: string
  op_customerEmail :: string
  op_amountCents :: int

record shop =
  seats :: "seat list"
  orders :: "order list"
  events :: "order_payload outbox"
  metrics :: MetricsRegistry

record server_values =
  now :: rat
  new_order_id :: nat
  new_order_uuid :: nat
  new_event_id :: nat
  new_event_uuid :: nat
  fresh_uuid :: nat

section \<open>Reservations\<close>

datatype ReservationOutcome = Reserved nat nat | Unavailable nat

definition reserveSeat :: "nat \<Rightarrow> rat \<Rightarrow> nat \<Rightarrow> string \<Rightarrow> rat option \<Rightarrow> shop \<Rightarrow> ReservationOutcome \<times> shop" where
  "reserveSeat token t seatId customerId hold s =
     (let P = (\<lambda>x. seat_id x = seatId \<and> seat_status x = AVAILABLE);
          holdMinutes = (case hold of Some h \<Rightarrow> h | None \<Rightarrow> 10);
          rowCount = row_count P (seats s);
          s' = s\<lparr>seats := update_where P
             (\<lambda>x. x\<lparr>seat_status := RESERVED, reservation_token := Some token,
                    reserved_by := Some customerId, reserved_until := Some (t + holdMinutes * 60000)\<rparr>) (seats s)\<rparr>
      in (if rowCount = 1 then Reserved seatId token else Unavailable seatId, s'))"

definition resetSeatToAvailable :: "nat \<Rightarrow> shop \<Rightarrow> shop" where
  "resetSeatToAvailable seatId s =
     s\<lparr>seats := update_where (\<lambda>x. seat_id x = seatId)
        (\<lambda>x. x\<lparr>seat_status := AVAILABLE, reservation_token := None, reserved_by := None,
               reserved_until := None, sold_to := None\<rparr>) (seats s)\<rparr>"

section \<open>Shared statements\<close>

record CheckoutInput =
  in_seatId :: nat
  in_customerId :: string
  in_customerEmail :: string
  in_amountCents :: int
  in_reservationToken :: nat
  in_correlationId :: string

definition order_row :: "server_values \<Rightarrow> nat \<Rightarrow> CheckoutInput \<Rightarrow> order" where
  "order_row v key i = \<lparr>order_id = new_order_id v, order_public_id = new_order_uuid v,
     idempotency_key = key, order_seat = in_seatId i, customer_id = in_customerId i,
     customer_email = in_customerEmail i, amount_cents = in_amountCents i,
     correlation_id = in_correlationId i\<rparr>"

text \<open>\<open>INSERT INTO outbox_events\<close> for an order; \<open>created_at\<close> is the transaction's \<open>now()\<close>.\<close>

definition confirmed_event :: "server_values \<Rightarrow> order \<Rightarrow> order_payload outbox_event" where
  "confirmed_event v order = \<lparr>event_id = new_event_id v, public_id = new_event_uuid v,
     event_type = ''OrderConfirmed'',
     payload = \<lparr>orderPublicId = order_public_id order, op_correlationId = correlation_id order,
       op_customerEmail = customer_email order, op_amountCents = amount_cents order\<rparr>,
     status = Pending, locked_by = None, locked_until = None, attempts = 0, max_attempts = 3,
     created_at = now v, published_at = None\<rparr>"

definition count_metric :: "string \<Rightarrow> labels \<Rightarrow> shop \<Rightarrow> shop" where
  "count_metric name ls s = s\<lparr>metrics := incrementCounter name ls 1 '''' (metrics s)\<rparr>"

definition sell_seat :: "(seat \<Rightarrow> bool) \<Rightarrow> string \<Rightarrow> shop \<Rightarrow> nat \<times> shop" where
  "sell_seat P customerId s =
     (row_count P (seats s),
      s\<lparr>seats := update_where P (\<lambda>x. x\<lparr>seat_status := SOLD, sold_to := Some customerId\<rparr>) (seats s)\<rparr>)"

section \<open>The idempotent checkout\<close>

datatype CheckoutResult =
    Created nat nat
  | Duplicate nat nat
  | Rejected string

text \<open>
  The thrown errors are the database's: the amount check, and the foreign key to the seat. A check
  constraint is evaluated before the conflict on the key, a foreign key only for a row that is inserted.
\<close>

definition checkoutIdempotent ::
  "server_values \<Rightarrow> nat \<Rightarrow> CheckoutInput \<Rightarrow> shop \<Rightarrow> (string + CheckoutResult) \<times> shop" where
  "checkoutIdempotent v key i s =
     (if in_amountCents i \<le> 0 then (Inl ''orders_amount_positive'', s)
      else case row_with (\<lambda>r. idempotency_key r = key) (orders s) of
        Some row \<Rightarrow>
          (Inr (Duplicate (order_id row) (order_public_id row)),
           count_metric ''capstone_checkout_duplicate_suppressed_total'' [] s)
      | None \<Rightarrow>
          if row_with (\<lambda>x. seat_id x = in_seatId i) (seats s) = None
          then (Inl ''orders_seat_id_seats_id_fk'', s)
          else
            (let order = order_row v key i;
                 s1 = s\<lparr>orders := orders s @ [order]\<rparr>;
                 (rowCount, s2) = sell_seat
                   (\<lambda>x. seat_id x = in_seatId i \<and> seat_status x = RESERVED
                      \<and> reserved_by x = Some (in_customerId i)
                      \<and> reservation_token x = Some (in_reservationToken i)
                      \<and> (case reserved_until x of Some u \<Rightarrow> now v < u | None \<Rightarrow> False))
                   (in_customerId i) s1
             in if rowCount \<noteq> 1
                then (Inr (Rejected ''reservation is not valid or has expired''),
                      count_metric ''capstone_checkout_rejected_total'' [(''path'', ''idempotent'')] s)
                else (Inr (Created (order_id order) (order_public_id order)),
                      count_metric ''capstone_orders_created_total'' [(''path'', ''idempotent'')]
                        (s2\<lparr>events := events s2 @ [confirmed_event v order]\<rparr>))))"

section \<open>The naive checkout\<close>

text \<open>
  The row is locked and read first. The key is a uuid made on every call; a clash with an existing
  key would be the unique index's error.
\<close>

definition checkoutNaive ::
  "server_values \<Rightarrow> CheckoutInput \<Rightarrow> shop \<Rightarrow> (string + CheckoutResult) \<times> shop" where
  "checkoutNaive v i s =
     (case row_with (\<lambda>x. seat_id x = in_seatId i) (seats s) of
        None \<Rightarrow> (Inr (Rejected ''seat not found''), s)
      | Some seat \<Rightarrow>
          (let heldByMe = (seat_status seat = RESERVED \<and> reserved_by seat = Some (in_customerId i)
                 \<and> reservation_token seat = Some (in_reservationToken i));
               alreadySoldToMe = (seat_status seat = SOLD \<and> sold_to seat = Some (in_customerId i))
           in if \<not> heldByMe \<and> \<not> alreadySoldToMe
              then (Inr (Rejected ''seat is not held by this customer with a valid token''),
                    count_metric ''capstone_checkout_rejected_total'' [(''path'', ''naive'')] s)
              else
                (let s1 = (if heldByMe
                           then snd (sell_seat (\<lambda>x. seat_id x = in_seatId i) (in_customerId i) s) else s);
                     order = order_row v (fresh_uuid v) i
                 in if in_amountCents i \<le> 0 then (Inl ''orders_amount_positive'', s)
                    else if row_with (\<lambda>r. idempotency_key r = fresh_uuid v) (orders s) \<noteq> None
                    then (Inl ''orders_idempotency_key_unique'', s)
                    else (Inr (Created (order_id order) (order_public_id order)),
                          count_metric ''capstone_orders_created_total'' [(''path'', ''naive'')]
                            (s1\<lparr>orders := orders s1 @ [order],
                                events := events s1 @ [confirmed_event v order]\<rparr>)))))"

section \<open>The invariant\<close>

text \<open>
  Keys are unique, orders and outbox events correspond one to one in order of creation, no seat has
  two orders, and the seat of an order is sold to the order's customer.
\<close>

definition shop_inv :: "shop \<Rightarrow> bool" where
  "shop_inv s \<longleftrightarrow>
     distinct (map seat_id (seats s)) \<and> distinct (map idempotency_key (orders s))
   \<and> map (orderPublicId \<circ> payload) (events s) = map order_public_id (orders s)
   \<and> distinct (map order_seat (orders s))
   \<and> (\<forall>r \<in> set (orders s). \<exists>x \<in> set (seats s). seat_id x = order_seat r \<and> seat_status x = SOLD
        \<and> sold_to x = Some (customer_id r))"

lemma metric_fields [simp]:
  "seats (count_metric n l s) = seats s" "orders (count_metric n l s) = orders s"
  "events (count_metric n l s) = events s"
  by (simp_all add: count_metric_def)

lemma shop_inv_metric [simp]: "shop_inv (count_metric n l s) = shop_inv s"
  by (simp add: shop_inv_def)

lemma row_count_one_seat:
  assumes "distinct (map seat_id xs)"
  shows "row_count (\<lambda>x. seat_id x = i \<and> Q x) xs
       = (case row_with (\<lambda>x. seat_id x = i) xs of Some x \<Rightarrow> if Q x then 1 else 0 | None \<Rightarrow> 0)"
  using assms
proof (induction xs)
  case (Cons y ys)
  have "row_with (\<lambda>x. seat_id x = i) ys = None" if "seat_id y = i"
    using Cons.prems that by (auto simp: row_with_None image_iff)
  with Cons show ?case by (auto simp: row_count_def row_with_def)
qed (simp add: row_count_def row_with_def)

text \<open>Selling or reserving a seat that is not sold leaves the seats of existing orders as they are.\<close>

lemma sold_seats_kept:
  assumes "\<forall>r \<in> set rs. \<exists>x \<in> set xs. seat_id x = order_seat r \<and> seat_status x = SOLD
             \<and> sold_to x = Some (customer_id r)"
    and "\<And>x. P x \<Longrightarrow> seat_status x \<noteq> SOLD" and "\<And>x. seat_id (f x) = seat_id x"
  shows "\<forall>r \<in> set rs. \<exists>x \<in> set (update_where P f xs). seat_id x = order_seat r \<and> seat_status x = SOLD
             \<and> sold_to x = Some (customer_id r)"
  unfolding bex_update_where using assms(1,2) by (meson bexI)

lemma shop_inv_reserve [inv_intros]:
  "shop_inv s \<Longrightarrow> shop_inv (snd (reserveSeat token t i c h s))"
  using sold_seats_kept [of "orders s" "seats s" "\<lambda>x. seat_id x = i \<and> seat_status x = AVAILABLE"]
  by (simp add: shop_inv_def reserveSeat_def Let_def map_update_where)

text \<open>The three ways the idempotent checkout leaves the shop, as a case rule.\<close>

lemma checkoutIdempotent_cases:
  assumes "checkoutIdempotent v key i s = (res, s')"
  obtains (rejected) n l where "\<And>a b. res \<noteq> Inr (Created a b) \<and> res \<noteq> Inr (Duplicate a b)"
      "s' = s \<or> s' = count_metric n l s"
  | (duplicate) row n where "row_with (\<lambda>r. idempotency_key r = key) (orders s) = Some row"
      "res = Inr (Duplicate (order_id row) (order_public_id row))" "s' = count_metric n [] s"
  | (created) P n l where "row_with (\<lambda>r. idempotency_key r = key) (orders s) = None"
      "res = Inr (Created (new_order_id v) (new_order_uuid v))"
      "P = (\<lambda>x. seat_id x = in_seatId i \<and> seat_status x = RESERVED \<and> reserved_by x = Some (in_customerId i)
                \<and> reservation_token x = Some (in_reservationToken i)
                \<and> (case reserved_until x of Some u \<Rightarrow> now v < u | None \<Rightarrow> False))"
      "row_count P (seats s) = 1"
      "s' = count_metric n l (s\<lparr>orders := orders s @ [order_row v key i],
         seats := update_where P (\<lambda>x. x\<lparr>seat_status := SOLD, sold_to := Some (in_customerId i)\<rparr>) (seats s),
         events := events s @ [confirmed_event v (order_row v key i)]\<rparr>)"
proof -
  show thesis
  proof (cases "in_amountCents i \<le> 0")
    case True
    with assms show ?thesis by (intro rejected) (auto simp: checkoutIdempotent_def)
  next
    case amount: False
    show ?thesis
    proof (cases "row_with (\<lambda>r. idempotency_key r = key) (orders s)")
      case (Some row)
      with assms amount show ?thesis by (intro duplicate) (auto simp: checkoutIdempotent_def)
    next
      case key: None
      show ?thesis
      proof (cases "row_with (\<lambda>x. seat_id x = in_seatId i) (seats s)")
        case None
        with assms amount key show ?thesis by (intro rejected) (auto simp: checkoutIdempotent_def)
      next
        case (Some x)
        let ?P = "\<lambda>x. seat_id x = in_seatId i \<and> seat_status x = RESERVED \<and> reserved_by x = Some (in_customerId i)
                \<and> reservation_token x = Some (in_reservationToken i)
                \<and> (case reserved_until x of Some u \<Rightarrow> now v < u | None \<Rightarrow> False)"
        show ?thesis
        proof (cases "row_count ?P (seats s) = 1")
          case True
          with assms amount key Some show ?thesis
            by (intro created [OF key _ refl])
              (auto simp: checkoutIdempotent_def Let_def sell_seat_def order_row_def)
        next
          case False
          with assms amount key Some show ?thesis
            by (intro rejected [of "''capstone_checkout_rejected_total''" "[(''path'', ''idempotent'')]"])
              (auto simp: checkoutIdempotent_def Let_def sell_seat_def)
        qed
      qed
    qed
  qed
qed

lemma shop_inv_checkout [inv_intros]:
  assumes "shop_inv s" and "checkoutIdempotent v key i s = (res, s')"
  shows "shop_inv s'"
  using assms(2)
proof (cases rule: checkoutIdempotent_cases)
  case (rejected n l)
  then show ?thesis using assms(1) by auto
next
  case (duplicate row n)
  then show ?thesis using assms(1) by simp
next
  case (created P n l)
  let ?r = "order_row v key i"
  obtain x where x: "x \<in> set (seats s)" "P x"
    using created(4) by (metis row_count_zero zero_neq_one)
  then have seat: "seat_id x = in_seatId i" "seat_status x = RESERVED" using created(3) by auto
  have dist: "distinct (map seat_id (seats s))" using assms(1) by (simp add: shop_inv_def)
  have unsold: "order_seat r \<noteq> in_seatId i" if r: "r \<in> set (orders s)" for r
  proof
    assume "order_seat r = in_seatId i"
    then obtain y where "y \<in> set (seats s)" "seat_id y = in_seatId i" "seat_status y = SOLD"
      using assms(1) r by (fastforce simp: shop_inv_def)
    then show False using dist x(1) seat by (metis distinct_map_unique seat_status.distinct(5))
  qed
  let ?f = "\<lambda>x. x\<lparr>seat_status := SOLD, sold_to := Some (in_customerId i)\<rparr>"
  have old: "\<forall>r \<in> set (orders s). \<exists>x \<in> set (update_where P ?f (seats s)). seat_id x = order_seat r
      \<and> seat_status x = SOLD \<and> sold_to x = Some (customer_id r)"
    by (rule sold_seats_kept) (use assms(1) created(3) in \<open>auto simp: shop_inv_def\<close>)
  have "?f x \<in> set (update_where P ?f (seats s))" using x by (auto simp: set_update_where)
  then have new: "\<exists>x \<in> set (update_where P ?f (seats s)). seat_id x = order_seat ?r
      \<and> seat_status x = SOLD \<and> sold_to x = Some (customer_id ?r)"
    by (rule bexI [rotated]) (simp add: order_row_def seat(1))
  have "key \<notin> idempotency_key ` set (orders s)" "in_seatId i \<notin> order_seat ` set (orders s)"
    using created(1) unsold by (force simp: row_with_None)+
  moreover have "seats s' = update_where P ?f (seats s)" "orders s' = orders s @ [?r]"
    "events s' = events s @ [confirmed_event v ?r]" by (simp_all add: created(5))
  moreover have "orderPublicId (payload (confirmed_event v ?r)) = order_public_id ?r"
    "idempotency_key ?r = key" "order_seat ?r = in_seatId i"
    by (simp_all add: confirmed_event_def order_row_def)
  ultimately show ?thesis using assms(1) old new by (simp add: shop_inv_def map_update_where)
qed

section \<open>Checkout takes effect once per key\<close>

definition order_of_key :: "shop \<Rightarrow> nat \<rightharpoonup> nat \<times> nat" where
  "order_of_key s key =
     map_option (\<lambda>r. (order_id r, order_public_id r)) (row_with (\<lambda>r. idempotency_key r = key) (orders s))"

definition checkout_ids :: "(string + CheckoutResult) \<Rightarrow> (nat \<times> nat) option" where
  "checkout_ids res = (case res of Inr (Created a b) \<Rightarrow> Some (a, b) | Inr (Duplicate a b) \<Rightarrow> Some (a, b)
     | _ \<Rightarrow> None)"

definition checkout_by_key ::
  "nat \<Rightarrow> server_values \<times> CheckoutInput \<Rightarrow> shop \<Rightarrow> (nat \<times> nat) option \<times> shop" where
  "checkout_by_key key p s = map_prod checkout_ids id (checkoutIdempotent (fst p) key (snd p) s)"

interpretation checkout: refusing_receiver checkout_by_key "\<lambda>s. length (orders s)" order_of_key shop_inv
  "\<lambda>_. True"
proof unfold_locales
  fix s s' key p
  assume inv: "shop_inv s" and d: "checkout_by_key key p s = (None, s')"
  then obtain res where c: "checkoutIdempotent (fst p) key (snd p) s = (res, s')" and r: "checkout_ids res = None"
    by (cases "checkoutIdempotent (fst p) key (snd p) s") (auto simp: checkout_by_key_def)
  from c r inv show "shop_inv s' \<and> length (orders s') = length (orders s) \<and> order_of_key s' = order_of_key s"
    by (cases rule: checkoutIdempotent_cases) (auto simp: order_of_key_def checkout_ids_def)
next
  fix s s' key p x
  assume inv: "shop_inv s" and d: "checkout_by_key key p s = (Some x, s')"
  then obtain res where c: "checkoutIdempotent (fst p) key (snd p) s = (res, s')" and r: "checkout_ids res = Some x"
    by (cases "checkoutIdempotent (fst p) key (snd p) s") (auto simp: checkout_by_key_def)
  from c show "shop_inv s' \<and> (order_of_key s key = None \<longrightarrow>
        length (orders s') = Suc (length (orders s)) \<and> order_of_key s' = (order_of_key s)(key \<mapsto> x))
      \<and> (\<forall>r0. order_of_key s key = Some r0 \<longrightarrow> x = r0 \<and> length (orders s') = length (orders s)
          \<and> order_of_key s' = order_of_key s)"
  proof (cases rule: checkoutIdempotent_cases)
    case (rejected n l)
    then show ?thesis using r by (auto simp: checkout_ids_def split: sum.splits CheckoutResult.splits)
  next
    case (duplicate row n)
    then show ?thesis using r inv by (auto simp: checkout_ids_def order_of_key_def)
  next
    case (created P n l)
    have "order_of_key s' = (order_of_key s)(key \<mapsto> x)"
      using created r
      by (auto simp: fun_eq_iff order_of_key_def row_with_append checkout_ids_def order_row_def
          split: option.splits) (simp_all add: row_with_def)
    then show ?thesis using created shop_inv_checkout [OF inv c] by (auto simp: order_of_key_def)
  qed
qed

lemma finite_order_keys: "finite (dom (order_of_key s))"
proof -
  have "dom (order_of_key s) \<subseteq> idempotency_key ` set (orders s)"
    by (force simp: order_of_key_def dest!: row_with_Some)
  then show ?thesis by (rule finite_subset) simp
qed

lemma card_order_keys: "shop_inv s \<Longrightarrow> card (dom (order_of_key s)) = length (orders s)"
proof -
  assume "shop_inv s"
  then have "distinct (map idempotency_key (orders s))" by (simp add: shop_inv_def)
  moreover have "dom (order_of_key s) = idempotency_key ` set (orders s)"
    by (force simp: order_of_key_def dom_def row_with_None dest!: row_with_Some)
  ultimately show ?thesis by (metis distinct_card length_map list.set_map)
qed

text \<open>
  C1: any storm of checkouts, in whatever order the database runs them, keeps every invariant: each key
  has at most one order, every answered call for a key (created or duplicate) names that one
  order, a key with an answered call has one, the outbox holds exactly one event per order, and no
  seat is sold twice.
\<close>

theorem checkout_exactly_once:
  assumes "shop_inv s" and "checkout.deliveries reqs s = (answers, s')"
  shows "row_count (\<lambda>r. idempotency_key r = key) (orders s') \<le> 1
       \<and> ((key, Some x) \<in> set answers \<longrightarrow> order_of_key s' key = Some x)
       \<and> length (orders s') = length (orders s)
           + card ({k. \<exists>x. (k, Some x) \<in> set answers} - dom (order_of_key s))
       \<and> map (orderPublicId \<circ> payload) (events s') = map order_public_id (orders s')
       \<and> distinct (map order_seat (orders s'))"
proof -
  note once = checkout.deliveries_once [OF assms(1) finite_order_keys _ assms(2), simplified]
  then have inv: "shop_inv s'" by simp
  let ?new = "{k. \<exists>x. (k, Some x) \<in> set answers}"
  have dom: "dom (order_of_key s') = dom (order_of_key s) \<union> (?new - dom (order_of_key s))" using once by auto
  have "finite ?new" using finite_order_keys [of s'] dom by (auto intro: finite_subset)
  then have "card (dom (order_of_key s')) = card (dom (order_of_key s)) + card (?new - dom (order_of_key s))"
    unfolding dom by (intro card_Un_disjoint) (auto simp: finite_order_keys)
  then have "length (orders s') = length (orders s) + card (?new - dom (order_of_key s))"
    using card_order_keys [OF assms(1)] card_order_keys [OF inv] by simp
  moreover have "row_count (\<lambda>r. idempotency_key r = key) (orders s') \<le> 1"
    using inv by (intro row_count_key_le_1) (simp add: shop_inv_def)
  moreover have "(key, Some x) \<in> set answers \<longrightarrow> order_of_key s' key = Some x"
    using once by (cases x) auto
  ultimately show ?thesis using inv by (simp add: shop_inv_def)
qed

definition one_seat_shop :: shop where
  "one_seat_shop = \<lparr>seats = [\<lparr>seat_id = 1, seat_status = RESERVED, reservation_token = Some 9,
       reserved_by = Some ''alice'', reserved_until = Some 600000, sold_to = None\<rparr>],
     orders = [], events = [], metrics = new_registry\<rparr>"

definition alice :: CheckoutInput where
  "alice = \<lparr>in_seatId = 1, in_customerId = ''alice'', in_customerEmail = ''alice'', in_amountCents = 9900,
     in_reservationToken = 9, in_correlationId = ''corr''\<rparr>"

definition generated :: "nat \<Rightarrow> server_values" where
  "generated n = \<lparr>now = 0, new_order_id = n, new_order_uuid = 100 + n, new_event_id = n,
     new_event_uuid = 200 + n, fresh_uuid = 300 + n\<rparr>"

lemma one_seat_shop_inv: "shop_inv one_seat_shop"
  by (simp add: shop_inv_def one_seat_shop_def)

lemma checkout_exactly_once_witness:
  "\<exists>answers s'. checkout.deliveries [(5, generated 1, alice), (5, generated 2, alice)] one_seat_shop
       = (answers, s') \<and> row_count (\<lambda>r. idempotency_key r = 5) (orders s') \<le> 1"
proof -
  obtain answers s' where d: "checkout.deliveries [(5, generated 1, alice), (5, generated 2, alice)]
      one_seat_shop = (answers, s')" by fastforce
  with checkout_exactly_once [OF one_seat_shop_inv d, of 5] show ?thesis by blast
qed

section \<open>The retry storm\<close>

fun naive_storm :: "server_values list \<Rightarrow> CheckoutInput \<Rightarrow> shop \<Rightarrow> (string + CheckoutResult) list \<times> shop" where
  "naive_storm [] i s = ([], s)"
| "naive_storm (v # vs) i s =
     (let (r, s1) = checkoutNaive v i s; (rs, s2) = naive_storm vs i s1 in (r # rs, s2))"

fun idempotent_storm ::
  "server_values list \<Rightarrow> nat \<Rightarrow> CheckoutInput \<Rightarrow> shop \<Rightarrow> (string + CheckoutResult) list \<times> shop" where
  "idempotent_storm [] key i s = ([], s)"
| "idempotent_storm (v # vs) key i s =
     (let (r, s1) = checkoutIdempotent v key i s; (rs, s2) = idempotent_storm vs key i s1 in (r # rs, s2))"

text \<open>Holding a seat, or having been sold it: what the naive handler checks.\<close>

definition held_by :: "CheckoutInput \<Rightarrow> seat \<Rightarrow> bool" where
  "held_by i x \<longleftrightarrow> seat_status x = RESERVED \<and> reserved_by x = Some (in_customerId i)
     \<and> reservation_token x = Some (in_reservationToken i)"

definition owned_by :: "CheckoutInput \<Rightarrow> shop \<Rightarrow> bool" where
  "owned_by i s \<longleftrightarrow> (\<exists>x. row_with (\<lambda>x. seat_id x = in_seatId i) (seats s) = Some x
     \<and> (held_by i x \<or> (seat_status x = SOLD \<and> sold_to x = Some (in_customerId i))))"

lemma checkoutNaive_owned:
  assumes "owned_by i s" and "0 < in_amountCents i" and "fresh_uuid v \<notin> idempotency_key ` set (orders s)"
  obtains s' where "checkoutNaive v i s = (Inr (Created (new_order_id v) (new_order_uuid v)), s')"
    "owned_by i s'" "orders s' = orders s @ [order_row v (fresh_uuid v) i]"
    "length (events s') = Suc (length (events s))"
proof -
  obtain x where x: "row_with (\<lambda>x. seat_id x = in_seatId i) (seats s) = Some x"
    and o: "held_by i x \<or> (seat_status x = SOLD \<and> sold_to x = Some (in_customerId i))"
    using assms(1) by (auto simp: owned_by_def)
  have free: "row_with (\<lambda>r. idempotency_key r = fresh_uuid v) (orders s) = None"
    by (rule row_with_key_None [OF assms(3)])
  define s1 where "s1 = (if held_by i x
      then snd (sell_seat (\<lambda>x. seat_id x = in_seatId i) (in_customerId i) s) else s)"
  let ?s' = "count_metric ''capstone_orders_created_total'' [(''path'', ''naive'')]
    (s1\<lparr>orders := orders s1 @ [order_row v (fresh_uuid v) i],
       events := events s1 @ [confirmed_event v (order_row v (fresh_uuid v) i)]\<rparr>)"
  have "checkoutNaive v i s = (Inr (Created (new_order_id v) (new_order_uuid v)), ?s')"
    using x o free assms(2) by (auto simp: checkoutNaive_def Let_def s1_def held_by_def order_row_def)
  moreover have "owned_by i ?s'"
    using x o by (auto simp: owned_by_def s1_def sell_seat_def row_with_update_key)
  moreover have "orders s1 = orders s" "events s1 = events s" by (simp_all add: s1_def sell_seat_def)
  ultimately show ?thesis by (intro that [of ?s']) simp_all
qed

lemma naive_storm_all_create:
  assumes "owned_by i s" and "0 < in_amountCents i" and "distinct (map fresh_uuid vs)"
    and "fresh_uuid ` set vs \<inter> idempotency_key ` set (orders s) = {}"
  shows "fst (naive_storm vs i s) = map (\<lambda>v. Inr (Created (new_order_id v) (new_order_uuid v))) vs
       \<and> length (orders (snd (naive_storm vs i s))) = length (orders s) + length vs
       \<and> length (events (snd (naive_storm vs i s))) = length (events s) + length vs"
  using assms(1,3,4)
proof (induction vs arbitrary: s)
  case (Cons v vs)
  have new: "fresh_uuid v \<notin> idempotency_key ` set (orders s)" using Cons.prems(3) by auto
  obtain s' where s': "checkoutNaive v i s = (Inr (Created (new_order_id v) (new_order_uuid v)), s')"
    "owned_by i s'" "orders s' = orders s @ [order_row v (fresh_uuid v) i]"
    "length (events s') = Suc (length (events s))"
    by (rule checkoutNaive_owned [OF Cons.prems(1) assms(2) new])
  have "fresh_uuid ` set vs \<inter> idempotency_key ` set (orders s') = {}"
    using Cons.prems(2,3) s'(3) by (auto simp: order_row_def)
  with Cons.IH [OF s'(2)] Cons.prems(2) s' show ?case by (simp add: case_prod_beta)
qed simp

lemma idempotent_storm_duplicates:
  assumes "row_with (\<lambda>r. idempotency_key r = key) (orders s) = Some row" and "0 < in_amountCents i"
  shows "fst (idempotent_storm vs key i s)
           = replicate (length vs) (Inr (Duplicate (order_id row) (order_public_id row)))
       \<and> orders (snd (idempotent_storm vs key i s)) = orders s
       \<and> events (snd (idempotent_storm vs key i s)) = events s"
  using assms
proof (induction vs arbitrary: s)
  case (Cons v vs)
  let ?s1 = "count_metric ''capstone_checkout_duplicate_suppressed_total'' [] s"
  have "checkoutIdempotent v key i s = (Inr (Duplicate (order_id row) (order_public_id row)), ?s1)"
    using Cons.prems by (simp add: checkoutIdempotent_def)
  with Cons.IH [of ?s1] Cons.prems show ?case by (simp add: case_prod_beta)
qed simp

lemma checkoutIdempotent_first:
  assumes "row_with (\<lambda>x. seat_id x = in_seatId i) (seats s) = Some x" and "held_by i x"
    and "reserved_until x = Some u" and "now v < u" and "0 < in_amountCents i"
    and "key \<notin> idempotency_key ` set (orders s)" and "distinct (map seat_id (seats s))"
  obtains s' where "checkoutIdempotent v key i s = (Inr (Created (new_order_id v) (new_order_uuid v)), s')"
    "orders s' = orders s @ [order_row v key i]" "length (events s') = Suc (length (events s))"
proof -
  let ?Q = "\<lambda>x. seat_status x = RESERVED \<and> reserved_by x = Some (in_customerId i)
     \<and> reservation_token x = Some (in_reservationToken i)
     \<and> (case reserved_until x of Some u \<Rightarrow> now v < u | None \<Rightarrow> False)"
  have "row_count (\<lambda>x. seat_id x = in_seatId i \<and> ?Q x) (seats s) = 1"
    unfolding row_count_one_seat [OF assms(7)] using assms(1-4) by (simp add: held_by_def)
  moreover have "row_with (\<lambda>r. idempotency_key r = key) (orders s) = None"
    by (rule row_with_key_None [OF assms(6)])
  moreover obtain res s' where c: "checkoutIdempotent v key i s = (res, s')" by fastforce
  ultimately have "res = Inr (Created (new_order_id v) (new_order_uuid v))"
    "orders s' = orders s @ [order_row v key i]" "length (events s') = Suc (length (events s))"
    using assms(1,5) by (auto simp: checkoutIdempotent_def sell_seat_def Let_def order_row_def)
  with c show ?thesis by (intro that) simp_all
qed

text \<open>
  A customer who holds a seat checks out \<open>n\<close> times in a retry storm. The naive handler creates an
  order and an outbox event for every request; the idempotent one creates one of each and answers every
  further request with that order's ids.
\<close>

lemma retry_storm:
  assumes "row_with (\<lambda>x. seat_id x = in_seatId i) (seats s) = Some x" and "held_by i x"
    and "reserved_until x = Some u" and "now v < u" and "0 < in_amountCents i"
    and "distinct (map seat_id (seats s))" and "distinct (map fresh_uuid (v # vs))"
    and "insert key (fresh_uuid ` set (v # vs)) \<inter> idempotency_key ` set (orders s) = {}"
    and "naive_storm (v # vs) i s = (rs, s1)" and "idempotent_storm (v # vs) key i s = (qs, s2)"
  shows "rs = map (\<lambda>v. Inr (Created (new_order_id v) (new_order_uuid v))) (v # vs)
       \<and> length (orders s1) = length (orders s) + Suc (length vs)
       \<and> length (events s1) = length (events s) + Suc (length vs)
       \<and> qs = Inr (Created (new_order_id v) (new_order_uuid v))
            # replicate (length vs) (Inr (Duplicate (new_order_id v) (new_order_uuid v)))
       \<and> length (orders s2) = length (orders s) + 1 \<and> length (events s2) = length (events s) + 1"
proof -
  have "owned_by i s" using assms(1,2) by (auto simp: owned_by_def)
  then have naive: "rs = map (\<lambda>v. Inr (Created (new_order_id v) (new_order_uuid v))) (v # vs)
       \<and> length (orders s1) = length (orders s) + Suc (length vs)
       \<and> length (events s1) = length (events s) + Suc (length vs)"
    using naive_storm_all_create [of i s "v # vs"] assms(5,7,8,9) by auto
  have key: "key \<notin> idempotency_key ` set (orders s)" using assms(8) by auto
  obtain s' where s': "checkoutIdempotent v key i s = (Inr (Created (new_order_id v) (new_order_uuid v)), s')"
    "orders s' = orders s @ [order_row v key i]" "length (events s') = Suc (length (events s))"
    by (rule checkoutIdempotent_first [OF assms(1-5) key assms(6)])
  have "row_with (\<lambda>r. idempotency_key r = key) (orders s') = Some (order_row v key i)"
  proof -
    have "row_with (\<lambda>r. idempotency_key r = key) (orders s) = None" by (rule row_with_key_None [OF key])
    then show ?thesis by (simp add: s'(2) row_with_append) (simp add: row_with_def order_row_def)
  qed
  with idempotent_storm_duplicates [OF _ assms(5)] s' assms(10) naive show ?thesis
    by (auto simp: case_prod_beta order_row_def)
qed

lemma retry_storm_witness:
  "length (orders (snd (naive_storm [generated 1, generated 2, generated 3] alice one_seat_shop))) = 3
   \<and> length (orders (snd (idempotent_storm [generated 1, generated 2, generated 3] 5 alice one_seat_shop))) = 1"
proof -
  obtain rs s1 qs s2 where e: "naive_storm [generated 1, generated 2, generated 3] alice one_seat_shop = (rs, s1)"
    "idempotent_storm [generated 1, generated 2, generated 3] 5 alice one_seat_shop = (qs, s2)" by fastforce
  have "row_with (\<lambda>x. seat_id x = in_seatId alice) (seats one_seat_shop) = Some (hd (seats one_seat_shop))"
    by (simp add: alice_def one_seat_shop_def row_with_def)
  from retry_storm [OF this _ _ _ _ _ _ _ e, of 600000] e show ?thesis
    by (simp add: alice_def one_seat_shop_def generated_def held_by_def)
qed

section \<open>The seat race\<close>

fun reserve_all :: "(nat \<times> rat \<times> string) list \<Rightarrow> nat \<Rightarrow> shop \<Rightarrow> ReservationOutcome list \<times> shop" where
  "reserve_all [] i s = ([], s)"
| "reserve_all ((token, t, customer) # rs) i s =
     (let (r, s1) = reserveSeat token t i customer None s; (os, s2) = reserve_all rs i s1 in (r # os, s2))"

inductive shop_step :: "shop \<Rightarrow> shop \<Rightarrow> bool" where
  reserve: "reserveSeat token t i customer hold s = (r, s') \<Longrightarrow> shop_step s s'"
| checkout: "checkoutIdempotent v key i s = (res, s') \<Longrightarrow> shop_step s s'"

lemma reserve_taken:
  assumes "distinct (map seat_id (seats s))"
    and "row_with (\<lambda>x. seat_id x = i) (seats s) = Some x" and "seat_status x \<noteq> AVAILABLE"
  shows "reserveSeat token t i customer hold s = (Unavailable i, s)"
proof -
  have "row_count (\<lambda>x. seat_id x = i \<and> seat_status x = AVAILABLE) (seats s) = 0"
    using row_count_one_seat [OF assms(1), of i "\<lambda>x. seat_status x = AVAILABLE"] assms(2,3) by simp
  moreover from this have "update_where (\<lambda>x. seat_id x = i \<and> seat_status x = AVAILABLE) f (seats s) = seats s" for f
    by (intro update_where_none) (simp add: row_count_zero)
  ultimately show ?thesis by (simp add: reserveSeat_def Let_def)
qed

lemma reserve_all_taken:
  assumes "distinct (map seat_id (seats s))"
    and "row_with (\<lambda>x. seat_id x = i) (seats s) = Some x" and "seat_status x \<noteq> AVAILABLE"
  shows "reserve_all rs i s = (replicate (length rs) (Unavailable i), s)"
  using reserve_taken [OF assms] by (induction rs) auto

lemma sold_kept_step:
  assumes "shop_inv s" and "shop_step s s'" and "x \<in> set (seats s)" and "seat_status x = SOLD"
  shows "x \<in> set (seats s')"
  using assms(2)
proof (cases rule: shop_step.cases)
  case (reserve token t i customer hold r)
  then show ?thesis using assms(3,4) by (force simp: reserveSeat_def Let_def set_update_where)
next
  case (checkout v key i res)
  from checkout show ?thesis
  proof (cases rule: checkoutIdempotent_cases)
    case (created P n l)
    then show ?thesis using assms(3,4) by (force simp: set_update_where)
  qed (use assms(3) in auto)
qed

lemma steps_keep:
  assumes "shop_step\<^sup>*\<^sup>* s s'" and "shop_inv s" and "x \<in> set (seats s)" and "seat_status x = SOLD"
  shows "shop_inv s' \<and> x \<in> set (seats s')"
  using assms(1)
proof (induction rule: rtranclp_induct)
  case base
  then show ?case using assms by simp
next
  case (step y z)
  have "shop_inv z" using step(2,3)
    by (cases rule: shop_step.cases) (metis shop_inv_reserve snd_conv, blast intro: shop_inv_checkout)
  then show ?case using step sold_kept_step assms(4) by blast
qed

text \<open>
  Of any number of customers racing for a free seat exactly the first served gets it; and once a
  seat is sold, no interleaving of reservations and checkouts ever frees it, sells it again or
  gives it a second order.
\<close>

lemma seat_sold_once:
  assumes "shop_inv s" and "shop_step\<^sup>*\<^sup>* s s'"
  shows "(row_with (\<lambda>x. seat_id x = i) (seats s) = Some x \<and> seat_status x = AVAILABLE \<longrightarrow>
           fst (reserve_all ((token, t, customer) # rs) i s)
             = Reserved i token # replicate (length rs) (Unavailable i))
       \<and> (y \<in> set (seats s) \<and> seat_status y = SOLD \<longrightarrow>
           y \<in> set (seats s') \<and> row_count (\<lambda>r. order_seat r = seat_id y) (orders s') \<le> 1)"
proof (intro conjI impI)
  assume x: "row_with (\<lambda>x. seat_id x = i) (seats s) = Some x \<and> seat_status x = AVAILABLE"
  let ?P = "\<lambda>x. seat_id x = i \<and> seat_status x = AVAILABLE"
  let ?f = "\<lambda>x. x\<lparr>seat_status := RESERVED, reservation_token := Some token, reserved_by := Some customer,
    reserved_until := Some (t + 10 * 60000)\<rparr>"
  have dist: "distinct (map seat_id (seats s))" using assms(1) by (simp add: shop_inv_def)
  have in_s: "x \<in> set (seats s)" "seat_id x = i" using x row_with_Some [of _ "seats s" x] by auto
  have "row_count ?P (seats s) = 1"
    using row_count_one_seat [OF dist, of i "\<lambda>x. seat_status x = AVAILABLE"] x by simp
  then have r: "reserveSeat token t i customer None s
      = (Reserved i token, s\<lparr>seats := update_where ?P ?f (seats s)\<rparr>)"
    by (simp add: reserveSeat_def Let_def)
  have dist': "distinct (map seat_id (update_where ?P ?f (seats s)))" using dist by (simp add: map_update_where)
  have "?f x \<in> set (update_where ?P ?f (seats s))" using in_s x by (auto simp: set_update_where)
  from row_with_unique [OF dist' this] have "row_with (\<lambda>y. seat_id y = i) (update_where ?P ?f (seats s)) = Some (?f x)"
    using in_s(2) by simp
  with reserve_all_taken [of "s\<lparr>seats := update_where ?P ?f (seats s)\<rparr>" i "?f x"] r dist'
  show "fst (reserve_all ((token, t, customer) # rs) i s)
      = Reserved i token # replicate (length rs) (Unavailable i)" by simp
next
  assume y: "y \<in> set (seats s) \<and> seat_status y = SOLD"
  then have k: "shop_inv s' \<and> y \<in> set (seats s')" using steps_keep [OF assms(2,1)] by blast
  then show "y \<in> set (seats s')" by blast
  show "row_count (\<lambda>r. order_seat r = seat_id y) (orders s') \<le> 1"
    using k by (intro row_count_key_le_1) (simp add: shop_inv_def)
qed

lemma seat_sold_once_witness:
  "fst (reserve_all [(1, 0, ''a''), (2, 0, ''b'')] 1 (resetSeatToAvailable 1 one_seat_shop))
     = [Reserved 1 1, Unavailable 1]"
  using seat_sold_once [of "resetSeatToAvailable 1 one_seat_shop" "resetSeatToAvailable 1 one_seat_shop" 1
      "hd (seats (resetSeatToAvailable 1 one_seat_shop))" 1 0 "''a''" "[(2, 0, ''b'')]"]
  by (simp add: resetSeatToAvailable_def one_seat_shop_def shop_inv_def update_where_def row_with_def)

end
