(* ===== verification/Capstone_Notify.thy ===== *)
theory Capstone_Notify
  imports Retry Circuit_Breaker
begin

text \<open>
  The notification provider of Lab 40, \<open>labs/40-*/src/downstream/notification-service.ts\<close>, and the two
  ways the outbox workers call it: \<open>lib/retry.ts\<close>'s immediate retries (\<open>worker-naive.ts\<close>) and the
  breaker around retries around a timeout (\<open>sendProtected\<close> in \<open>worker-protected.ts\<close>). Lab 40's breaker,
  retry, timeout and generator are copies of Lab 37's, so their models are shared. A dedupe key is the
  order's public id.
\<close>

section \<open>The provider\<close>

datatype NotificationHealth = Healthy | Degraded | Down
datatype outcome = Success | Failure

record NotificationCallLogEntry =
  atMs :: rat
  dedupeKey :: nat
  outcome :: outcome
  latencyMs :: rat

record NotificationServiceOptions =
  seed :: int
  health :: NotificationHealth
  transientErrorRate :: "rat option"
  slowRate :: "rat option"
  fastLatencyRangeMs :: "(rat \<times> rat) option"
  slowLatencyRangeMs :: "(rat \<times> rat) option"

record NotificationService =
  callLog :: "NotificationCallLogEntry list"
  service_opts :: NotificationServiceOptions
  rng :: "32 word"

definition or_default :: "'a option \<Rightarrow> 'a \<Rightarrow> 'a" where
  "or_default x d = (case x of Some v \<Rightarrow> v | None \<Rightarrow> d)"

definition new_service :: "NotificationServiceOptions \<Rightarrow> NotificationService" where
  "new_service o1 = \<lparr>callLog = [], service_opts = o1, rng = mulberry32_init (seed o1)\<rparr>"

definition totalCallCount :: "NotificationService \<Rightarrow> nat" where
  "totalCallCount n = length (callLog n)"

definition distinctKeysNotified :: "NotificationService \<Rightarrow> nat" where
  "distinctKeysNotified n = card (dedupeKey ` {e \<in> set (callLog n). outcome e = Success})"

definition setHealth :: "NotificationHealth \<Rightarrow> NotificationService \<Rightarrow> NotificationService" where
  "setHealth h n = n\<lparr>service_opts := (service_opts n)\<lparr>health := h\<rparr>\<rparr>"

datatype latency_kind = Fast | Slow

definition pickLatency :: "latency_kind \<Rightarrow> NotificationService \<Rightarrow> rat \<times> NotificationService" where
  "pickLatency kind n =
     (let (lo, hi) = (case kind of
            Fast \<Rightarrow> or_default (fastLatencyRangeMs (service_opts n)) (5, 25)
          | Slow \<Rightarrow> or_default (slowLatencyRangeMs (service_opts n)) (300, 700));
          (r, g) = mulberry32 (rng n)
      in (lo + r * (hi - lo), n\<lparr>rng := g\<rparr>))"

text \<open>
  Every branch of \<open>send\<close> draws a latency, sleeps, and only then appends to \<open>callLog\<close> and settles. \<open>t\<close>
  is when the call starts.
\<close>

definition push_call :: "rat \<Rightarrow> nat \<Rightarrow> outcome \<Rightarrow> rat \<Rightarrow> NotificationService \<Rightarrow> NotificationService" where
  "push_call t key oc lat n =
     n\<lparr>callLog := callLog n @ [\<lparr>atMs = t + lat, dedupeKey = key, outcome = oc, latencyMs = lat\<rparr>]\<rparr>"

definition respond ::
  "rat \<Rightarrow> nat \<Rightarrow> latency_kind \<Rightarrow> outcome \<Rightarrow> (rat \<Rightarrow> js_error + rat) \<Rightarrow> (NotificationService, rat) task" where
  "respond t key kind oc result n =
     (let (lat, n1) = pickLatency kind n
      in (n1, After lat (\<lambda>n2. (result lat, push_call t key oc lat n2))))"

definition send :: "rat \<Rightarrow> nat \<Rightarrow> (NotificationService, rat) task" where
  "send t key n =
     (case health (service_opts n) of
        Healthy \<Rightarrow> respond t key Fast Success Inr n
      | Down \<Rightarrow> respond t key Fast Failure
          (\<lambda>_. Inl (TransientNotificationError ''notification provider is down'')) n
      | Degraded \<Rightarrow>
          (let transientRate = or_default (transientErrorRate (service_opts n)) (55 / 100);
               slow = or_default (slowRate (service_opts n)) (25 / 100);
               (r, g) = mulberry32 (rng n);
               n1 = n\<lparr>rng := g\<rparr>
           in if r < transientRate
              then respond t key Fast Failure
                (\<lambda>_. Inl (TransientNotificationError ''notification provider temporarily unavailable'')) n1
              else if r < transientRate + slow
              then respond t key Slow Success Inr n1
              else respond t key Fast Success Inr n1))"

section \<open>What a send leaves behind\<close>

text \<open>
  A send that has started is either in the log or still sleeping behind a timer that will log it, so
  the log and the pending timers together count the sends.
\<close>

type_synonym net = "NotificationService world"

definition logs_one :: "(NotificationService \<Rightarrow> NotificationService) \<Rightarrow> bool" where
  "logs_one f \<longleftrightarrow> (\<forall>n. length (callLog (f n)) = Suc (length (callLog n)))"

definition net_ok :: "net \<Rightarrow> bool" where
  "net_ok w \<longleftrightarrow> (\<forall>p \<in> set (pending w). logs_one (snd p))"

definition sends_started :: "net \<Rightarrow> nat" where
  "sends_started w = length (callLog (comp w)) + length (pending w)"

lemma fire_logs:
  "\<forall>p \<in> set ps. logs_one (snd p) \<Longrightarrow>
   length (callLog (fst (fire t ps c))) + length (snd (fire t ps c)) = length (callLog c) + length ps
   \<and> (\<forall>p \<in> set (snd (fire t ps c)). logs_one (snd p))"
  by (induction t ps c rule: fire.induct) (auto simp: logs_one_def)

lemma sleep_sends [simp]:
  "net_ok w \<Longrightarrow> sends_started (sleep d w) = sends_started w \<and> net_ok (sleep d w)"
  using fire_logs [of "pending w" "clock w + max 0 d" "comp w"]
  by (simp add: sleep_def net_ok_def sends_started_def Let_def case_prod_beta)

lemma respond_settles:
  "\<exists>n1 d k. respond t key kind oc result n = (n1, After d k) \<and> callLog n1 = callLog n
     \<and> (\<forall>m. snd (k m) = push_call t key oc d m)"
  by (auto simp: respond_def pickLatency_def Let_def case_prod_beta split: latency_kind.splits)

lemma send_settles:
  obtains n1 d k oc where "send t key n = (n1, After d k)" "callLog n1 = callLog n"
    "\<And>m. snd (k m) = push_call t key oc d m"
proof -
  have "\<exists>n1 d k oc. send t key n = (n1, After d k) \<and> callLog n1 = callLog n
      \<and> (\<forall>m. snd (k m) = push_call t key oc d m)"
  proof (cases "health (service_opts n)")
    case Degraded
    obtain r g where m: "mulberry32 (rng n) = (r, g)" by fastforce
    have c: "callLog (n\<lparr>rng := g\<rparr>) = callLog n" by simp
    show ?thesis
      using respond_settles [of t key _ _ _ "n\<lparr>rng := g\<rparr>"] Degraded m c
      by (simp add: send_def Let_def) (metis (no_types, lifting))
  qed (use respond_settles [of t key Fast _ _ n] in \<open>simp_all add: send_def\<close>, (metis (no_types, lifting))+)
  then show ?thesis using that by blast
qed

lemma push_logs [simp]: "length (callLog (push_call t key oc d n)) = Suc (length (callLog n))"
  by (simp add: push_call_def)

lemma length_add_timer [simp]: "length (add_timer t f ps) = Suc (length ps)"
  by (induction t f ps rule: add_timer.induct) auto

lemma withTimeout_send:
  assumes "net_ok w"
  shows "sends_started (snd (withTimeout (send t key) ms w)) = Suc (sends_started w)
       \<and> net_ok (snd (withTimeout (send t key) ms w))"
proof -
  obtain n1 d k oc where s: "send t key (comp w) = (n1, After d k)" "callLog n1 = callLog (comp w)"
    and k: "\<And>m. snd (k m) = push_call t key oc d m"
    using send_settles [of t key "comp w"] by metis
  show ?thesis
  proof (cases "d < ms")
    case True
    have ok: "net_ok (w\<lparr>comp := n1\<rparr>)" "sends_started (w\<lparr>comp := n1\<rparr>) = sends_started w"
      using assms s(2) by (simp_all add: net_ok_def sends_started_def)
    from sleep_sends [OF ok(1), of d] ok(2) True s(1) k show ?thesis
      by (simp add: withTimeout_def Let_def case_prod_beta net_ok_def sends_started_def)
  next
    case False
    let ?w = "w\<lparr>comp := n1, pending := add_timer (clock w + max 0 d) (\<lambda>c. snd (k c)) (pending w)\<rparr>"
    have ok: "net_ok ?w" "sends_started ?w = Suc (sends_started w)"
      using assms s(2) k by (auto simp: net_ok_def sends_started_def set_add_timer logs_one_def)
    from sleep_sends [OF ok(1), of ms] ok(2) False s(1) show ?thesis
      by (simp add: withTimeout_def Let_def)
  qed
qed

end
