(* ===== verification/Capstone_Workers.thy ===== *)
theory Capstone_Workers
  imports Capstone_Shop Capstone_Notify
begin

text \<open>
  The back half of Lab 40, \<open>labs/40-*/src/outbox\<close>: \<open>runNaiveWorker\<close> (\<open>worker-naive.ts\<close>) and
  \<open>runProtectedWorker\<close> (\<open>worker-protected.ts\<close>), which drain the outbox of the checkout into the
  notification provider and record every attempt (\<open>notification-log.ts\<close>). The claim and the two final
  updates are those of \<open>Outbox_Queue\<close> (\<open>outbox/claim.ts\<close> repeats Lab 17's SQL). One worker runs at a
  time; database statements take no time, sleeps advance the clock.
\<close>

section \<open>The world of a worker\<close>

datatype attempt_outcome = success | failure | circuit_open

record notification_attempt =
  na_orderPublicId :: nat
  na_correlationId :: string
  na_outcome :: attempt_outcome
  na_breakerState :: string
  na_latencyMs :: int

record pipeline =
  net :: net
  evs :: "order_payload outbox"
  log_rows :: "notification_attempt list"
  registry :: MetricsRegistry
  breaker :: CircuitBreaker

record worker_stats =
  published :: nat
  failed :: nat
  circuitOpenRejections :: nat
  notificationCallsMade :: nat

definition no_stats :: worker_stats where
  "no_stats = \<lparr>published = 0, failed = 0, circuitOpenRejections = 0, notificationCallsMade = 0\<rparr>"

definition DEFAULT_LEASE_MS :: rat where "DEFAULT_LEASE_MS = 5000"

definition recordNotificationAttempt ::
  "order_payload ClaimedEvent \<Rightarrow> attempt_outcome \<Rightarrow> rat \<Rightarrow> string \<Rightarrow> pipeline \<Rightarrow> pipeline" where
  "recordNotificationAttempt e oc latency brk p =
     p\<lparr>log_rows := log_rows p @ [\<lparr>na_orderPublicId = orderPublicId (ce_payload e),
        na_correlationId = op_correlationId (ce_payload e), na_outcome = oc, na_breakerState = brk,
        na_latencyMs = round latency\<rparr>]\<rparr>"

definition pendingOutboxCount :: "order_payload outbox \<Rightarrow> nat" where
  "pendingOutboxCount rows = row_count (\<lambda>r. status r = Pending \<or> status r = Processing) rows"

text \<open>The finalising statements at the current clock, and the counters next to them.\<close>

definition finish_ok :: "string \<Rightarrow> string \<Rightarrow> order_payload ClaimedEvent \<Rightarrow> pipeline \<Rightarrow> pipeline" where
  "finish_ok workerId label e p =
     p\<lparr>evs := markPublished (ce_id e) workerId (world.clock (net p)) (evs p),
       registry := incrementCounter ''capstone_outbox_published_total'' [(''worker'', label)] 1 '''' (registry p)\<rparr>"

definition finish_err :: "string \<Rightarrow> string \<Rightarrow> order_payload ClaimedEvent \<Rightarrow> pipeline \<Rightarrow> pipeline" where
  "finish_err workerId label e p =
     p\<lparr>evs := markPublishFailed (ce_id e) workerId (evs p),
       registry := incrementCounter ''capstone_outbox_failed_total'' [(''worker'', label)] 1 '''' (registry p)\<rparr>"

section \<open>One event, naively\<close>

text \<open>The naive worker awaits the send itself; \<open>send\<close> always settles, so the other case is idle.\<close>

definition send_now :: "nat \<Rightarrow> (net, rat) action" where
  "send_now key w = (case await (send (world.clock w) key) w of
     Some r \<Rightarrow> r | None \<Rightarrow> (Inl (OtherError ''never settles''), w))"

definition naive_event ::
  "string \<Rightarrow> nat \<Rightarrow> order_payload ClaimedEvent \<Rightarrow> worker_stats \<times> pipeline \<Rightarrow> worker_stats \<times> pipeline" where
  "naive_event workerId retries e sp =
     (let (stats, p) = sp;
          key = orderPublicId (ce_payload e);
          start = world.clock (net p);
          callsBefore = totalCallCount (comp (net p));
          (res, w) = retryImmediatelyNoBackoff (\<lambda>_. send_now key) retries (net p);
          p1 = p\<lparr>net := w\<rparr>;
          latencyMs = world.clock w - start;
          stats1 = stats\<lparr>notificationCallsMade :=
            notificationCallsMade stats + (totalCallCount (comp w) - callsBefore)\<rparr>
      in case res of
           Inr _ \<Rightarrow>
             (stats1\<lparr>published := published stats1 + 1\<rparr>,
              finish_ok workerId ''naive'' e (recordNotificationAttempt e success latencyMs ''n/a'' p1))
         | Inl _ \<Rightarrow>
             (stats1\<lparr>failed := failed stats1 + 1\<rparr>,
              finish_err workerId ''naive'' e (recordNotificationAttempt e failure latencyMs ''n/a'' p1)))"

section \<open>One event, protected\<close>

record protection =
  p_failureThreshold :: "nat option"
  p_cooldownMs :: "rat option"
  p_timeoutMs :: "rat option"
  p_maxAttempts :: "nat option"
  p_baseDelayMs :: "rat option"
  p_maxDelayMs :: "rat option"

definition breaker_opts :: "protection \<Rightarrow> CircuitBreakerOptions" where
  "breaker_opts o1 = \<lparr>failureThreshold = or_default (p_failureThreshold o1) 3,
     cooldownMs = or_default (p_cooldownMs o1) 500\<rparr>"

definition retryable :: "js_error \<Rightarrow> bool" where
  "retryable err = (case err of TransientNotificationError _ \<Rightarrow> True | TimeoutError _ \<Rightarrow> True | _ \<Rightarrow> False)"

definition retry_opts :: "protection \<Rightarrow> (net \<Rightarrow> rat \<times> net) \<Rightarrow> NotificationService RetryOptions" where
  "retry_opts o1 rand = \<lparr>maxAttempts = or_default (p_maxAttempts o1) 3,
     baseDelayMs = or_default (p_baseDelayMs o1) 40, maxDelayMs = or_default (p_maxDelayMs o1) 300,
     isRetryable = retryable, random = rand\<rparr>"

definition bounded_send :: "protection \<Rightarrow> nat \<Rightarrow> nat \<Rightarrow> (net, rat) action" where
  "bounded_send o1 key attempt w =
     withTimeout (send (world.clock w) key) (or_default (p_timeoutMs o1) 200) w"

definition sendProtected ::
  "protection \<Rightarrow> (net \<Rightarrow> rat \<times> net) \<Rightarrow> nat \<Rightarrow> (CircuitBreaker \<times> net, rat) action" where
  "sendProtected o1 rand key =
     execute (breaker_opts o1) (retry_action (bounded_send o1 key) (retry_opts o1 rand))"

definition state_name :: "CircuitState \<Rightarrow> string" where
  "state_name s = (case s of CLOSED \<Rightarrow> ''CLOSED'' | OPEN \<Rightarrow> ''OPEN'' | HALF_OPEN \<Rightarrow> ''HALF_OPEN'')"

text \<open>\<open>onStateChange\<close> counts the transitions to OPEN.\<close>

definition count_opens :: "CircuitBreaker \<Rightarrow> CircuitBreaker \<Rightarrow> MetricsRegistry \<Rightarrow> MetricsRegistry" where
  "count_opens before after r =
     foldl (\<lambda>r c. if fst (snd c) = OPEN
                  then incrementCounter ''capstone_circuit_breaker_open_total'' [] 1 '''' r else r)
       r (drop (length (changes before)) (changes after))"

definition protected_event ::
  "protection \<Rightarrow> (net \<Rightarrow> rat \<times> net) \<Rightarrow> string \<Rightarrow> order_payload ClaimedEvent
     \<Rightarrow> worker_stats \<times> pipeline \<Rightarrow> worker_stats \<times> pipeline" where
  "protected_event o1 rand workerId e sp =
     (let (stats, p) = sp;
          key = orderPublicId (ce_payload e);
          start = world.clock (net p);
          callsBefore = totalCallCount (comp (net p));
          (res, b, w) = sendProtected o1 rand key (breaker p, net p);
          p1 = p\<lparr>net := w, breaker := b, registry := count_opens (breaker p) b (registry p)\<rparr>;
          latencyMs = world.clock w - start;
          stats1 = stats\<lparr>notificationCallsMade :=
            notificationCallsMade stats + (totalCallCount (comp w) - callsBefore)\<rparr>
      in case res of
           Inr _ \<Rightarrow>
             (stats1\<lparr>published := published stats1 + 1\<rparr>,
              finish_ok workerId ''protected'' e
                (recordNotificationAttempt e success latencyMs (state_name (state b)) p1))
         | Inl err \<Rightarrow>
             (let circuitOpen = (case err of CircuitOpenError _ \<Rightarrow> True | _ \<Rightarrow> False)
              in (stats1\<lparr>failed := failed stats1 + 1,
                    circuitOpenRejections := circuitOpenRejections stats1 + (if circuitOpen then 1 else 0)\<rparr>,
                  finish_err workerId ''protected'' e
                    (recordNotificationAttempt e (if circuitOpen then circuit_open else failure)
                      latencyMs (state_name (state b)) p1))))"

section \<open>The polling loop\<close>

text \<open>Both workers claim and handle until \<open>maxEmptyPolls\<close> claims in a row come back empty.\<close>

partial_function (option) poll_loop ::
  "(order_payload ClaimedEvent \<Rightarrow> worker_stats \<times> pipeline \<Rightarrow> worker_stats \<times> pipeline)
     \<Rightarrow> string \<Rightarrow> nat \<Rightarrow> nat \<Rightarrow> worker_stats \<times> pipeline \<Rightarrow> (worker_stats \<times> pipeline) option" where
  "poll_loop handle workerId maxEmptyPolls emptyPolls sp =
     (if emptyPolls < maxEmptyPolls
      then (case claimNextEvent DEFAULT_LEASE_MS {} workerId (world.clock (net (snd sp))) (evs (snd sp)) of
              (None, rows) \<Rightarrow>
                poll_loop handle workerId maxEmptyPolls (emptyPolls + 1) (fst sp, (snd sp)\<lparr>evs := rows\<rparr>)
            | (Some event, rows) \<Rightarrow>
                poll_loop handle workerId maxEmptyPolls 0
                  (handle event (fst sp, (snd sp)\<lparr>evs := rows\<rparr>)))
      else Some sp)"

definition runNaiveWorker ::
  "string \<Rightarrow> nat option \<Rightarrow> nat option \<Rightarrow> pipeline \<Rightarrow> (worker_stats \<times> pipeline) option" where
  "runNaiveWorker workerId retries maxEmptyPolls p =
     poll_loop (naive_event workerId (or_default retries 3)) workerId (or_default maxEmptyPolls 3) 0
       (no_stats, p)"

definition runProtectedWorker ::
  "protection \<Rightarrow> (net \<Rightarrow> rat \<times> net) \<Rightarrow> string \<Rightarrow> nat option \<Rightarrow> pipeline
     \<Rightarrow> (worker_stats \<times> pipeline) option" where
  "runProtectedWorker o1 rand workerId maxEmptyPolls p =
     poll_loop (protected_event o1 rand workerId) workerId (or_default maxEmptyPolls 3) 0 (no_stats, p)"

section \<open>What a worker's loop relies on\<close>

definition event_work :: "'p outbox_event \<Rightarrow> nat" where
  "event_work r = (if status r = Published \<or> status r = Failed then 0
                   else 1 + (max_attempts r - attempts r))"

lemma mark_after_claim:
  "update_where (\<lambda>x. event_id x = i \<and> locked_by x = Some w) g
     (update_where (\<lambda>x. event_id x = i) (take_lease l w t) rows)
   = update_where (\<lambda>x. event_id x = i) (g \<circ> take_lease l w t) rows"
  by (simp add: update_where_def take_lease_def)

lemma finalised_work:
  assumes "claimable_event t r"
  shows "event_work (published_row t' (take_lease l w t r)) < event_work r"
    and "event_work (refused_row (take_lease l w t r)) < event_work r"
  using assms by (auto simp: event_work_def claimable_event_def published_row_def refused_row_def take_lease_def
      split: if_splits)

definition backlog_work :: "'p outbox \<Rightarrow> nat" where
  "backlog_work rows = sum_list (map event_work rows)"

lemma less_after_update:
  assumes "distinct (map event_id rows)" and "r \<in> set rows" and "event_work (g r) < event_work r"
    and "\<And>x. event_id (g x) = event_id x"
  shows "backlog_work (update_where (\<lambda>x. event_id x = event_id r) g rows) < backlog_work rows"
  using sum_update_key [OF assms(1,2,4), where w = event_work] assms(3) unfolding backlog_work_def by linarith

lemma finalising_works_off:
  assumes ok: "outbox_ok rows" and c: "claimNextEvent l {} w t rows = (Some e, rows')"
  shows "backlog_work (markPublished (ce_id e) w t' rows') < backlog_work rows"
    and "backlog_work (markPublishFailed (ce_id e) w rows') < backlog_work rows"
proof -
  obtain r where r: "r \<in> set rows" "claimable_event t r" "e = claimed_event (take_lease l w t r)"
    and rows': "rows' = update_where (\<lambda>x. event_id x = event_id r) (take_lease l w t) rows"
    using c by (rule claimNextEvent_Some)
  have e: "ce_id e = event_id r" by (simp add: r(3) claimed_event_def)
  have dist: "distinct (map event_id rows)" using ok by (simp add: outbox_ok_def)
  show "backlog_work (markPublished (ce_id e) w t' rows') < backlog_work rows"
    unfolding markPublished_def e rows' mark_after_claim
    by (rule less_after_update [OF dist r(1)]) (simp_all add: finalised_work [OF r(2)])
  show "backlog_work (markPublishFailed (ce_id e) w rows') < backlog_work rows"
    unfolding markPublishFailed_def e rows' mark_after_claim
    by (rule less_after_update [OF dist r(1)]) (simp_all add: finalised_work [OF r(2)])
qed

text \<open>
  The interface between the loop and what it does with an event: handling records a final result for
  the event (published or refused) under the worker's own lease, touches no other row, and counts once.
\<close>

locale event_worker =
  fixes handle :: "order_payload ClaimedEvent \<Rightarrow> worker_stats \<times> pipeline \<Rightarrow> worker_stats \<times> pipeline"
    and workerId :: string
  assumes finalises: "\<exists>t. evs (snd (handle e sp)) = markPublished (ce_id e) workerId t (evs (snd sp))
      \<or> evs (snd (handle e sp)) = markPublishFailed (ce_id e) workerId (evs (snd sp))"
    and counts_once: "published (fst (handle e sp)) + failed (fst (handle e sp))
      = Suc (published (fst sp) + failed (fst sp))"
begin

abbreviation "claim_now sp \<equiv>
  claimNextEvent DEFAULT_LEASE_MS {} workerId (world.clock (net (snd sp))) (evs (snd sp))"

lemma loop_empty:
  assumes "claim_now sp = (None, evs (snd sp))" and "k \<le> m"
  shows "poll_loop handle workerId m k sp = Some sp"
  using assms(2)
proof (induction "m - k" arbitrary: k)
  case 0
  then show ?case by (simp add: poll_loop.simps)
next
  case (Suc n)
  then have "poll_loop handle workerId m (k + 1) sp = Some sp" by simp
  with Suc assms(1) show ?case by (subst poll_loop.simps) (simp add: prod.expand)
qed

lemma handled_event:
  assumes ok: "outbox_ok (evs (snd sp))" and c: "claim_now sp = (Some e, rows)"
  shows "outbox_ok (evs (snd (handle e (fst sp, (snd sp)\<lparr>evs := rows\<rparr>))))"
    and "backlog_work (evs (snd (handle e (fst sp, (snd sp)\<lparr>evs := rows\<rparr>)))) < backlog_work (evs (snd sp))"
proof -
  let ?in = "(fst sp, (snd sp)\<lparr>evs := rows\<rparr>)"
  have rows: "evs (snd ?in) = rows" by simp
  obtain t' where fin: "evs (snd (handle e ?in)) = markPublished (ce_id e) workerId t' rows
      \<or> evs (snd (handle e ?in)) = markPublishFailed (ce_id e) workerId rows"
    using finalises [of e ?in] unfolding rows by blast
  note ok' = outbox_ok_finalise [OF outbox_ok_claim [OF ok c]]
  from fin show "outbox_ok (evs (snd (handle e ?in)))"
  proof
    assume h: "evs (snd (handle e ?in)) = markPublished (ce_id e) workerId t' rows"
    show ?thesis unfolding h by (rule ok'(1))
  next
    assume h: "evs (snd (handle e ?in)) = markPublishFailed (ce_id e) workerId rows"
    show ?thesis unfolding h by (rule ok'(2))
  qed
  from fin show "backlog_work (evs (snd (handle e ?in))) < backlog_work (evs (snd sp))"
  proof
    assume h: "evs (snd (handle e ?in)) = markPublished (ce_id e) workerId t' rows"
    show ?thesis unfolding h by (rule finalising_works_off(1) [OF ok c])
  next
    assume h: "evs (snd (handle e ?in)) = markPublishFailed (ce_id e) workerId rows"
    show ?thesis unfolding h by (rule finalising_works_off(2) [OF ok c])
  qed
qed

lemma loop_drains:
  assumes "outbox_ok (evs (snd sp))" and "k < m"
  shows "\<exists>sp'. poll_loop handle workerId m k sp = Some sp' \<and> outbox_ok (evs (snd sp'))
       \<and> claimable_ids (world.clock (net (snd sp'))) (evs (snd sp')) = {}
       \<and> published (fst sp') + failed (fst sp')
           \<le> published (fst sp) + failed (fst sp) + backlog_work (evs (snd sp))"
  using assms
proof (induction "backlog_work (evs (snd sp))" arbitrary: sp k rule: less_induct)
  case less
  show ?case
  proof (cases "claim_now sp")
    case (Pair x rows)
    show ?thesis
    proof (cases x)
      case None
      with Pair have c: "claim_now sp = (None, evs (snd sp))" by (simp add: claimNextEvent_None)
      then have "claimable_ids (world.clock (net (snd sp))) (evs (snd sp)) = {}"
        by (auto simp: claimNextEvent_None claimable_ids_def)
      then show ?thesis using loop_empty [OF c] less.prems by (intro exI [of _ sp]) simp
    next
      case (Some e)
      let ?sp' = "handle e (fst sp, (snd sp)\<lparr>evs := rows\<rparr>)"
      note h = handled_event [OF less.prems(1) Pair [unfolded Some]]
      have "poll_loop handle workerId m k sp = poll_loop handle workerId m 0 ?sp'"
        using Pair Some less.prems(2) by (subst poll_loop.simps) simp
      moreover have "published (fst ?sp') + failed (fst ?sp') = Suc (published (fst sp) + failed (fst sp))"
        using counts_once [of e "(fst sp, (snd sp)\<lparr>evs := rows\<rparr>)"] by simp
      moreover obtain sp' where "poll_loop handle workerId m 0 ?sp' = Some sp'" "outbox_ok (evs (snd sp'))"
        "claimable_ids (world.clock (net (snd sp'))) (evs (snd sp')) = {}"
        "published (fst sp') + failed (fst sp') \<le> published (fst ?sp') + failed (fst ?sp')
          + backlog_work (evs (snd ?sp'))"
        using less.hyps [of ?sp' 0] h less.prems(2) by auto
      ultimately show ?thesis using h by auto
    qed
  qed
qed

end

interpretation naive: event_worker "naive_event workerId retries" workerId for workerId retries
proof unfold_locales
  fix e sp
  show "\<exists>t. evs (snd (naive_event workerId retries e sp)) = markPublished (ce_id e) workerId t (evs (snd sp))
      \<or> evs (snd (naive_event workerId retries e sp)) = markPublishFailed (ce_id e) workerId (evs (snd sp))"
    by (auto simp: naive_event_def Let_def case_prod_beta finish_ok_def finish_err_def
        recordNotificationAttempt_def split: sum.splits)
  show "published (fst (naive_event workerId retries e sp)) + failed (fst (naive_event workerId retries e sp))
      = Suc (published (fst sp) + failed (fst sp))"
    by (auto simp: naive_event_def Let_def case_prod_beta split: sum.splits)
qed

interpretation protected: event_worker "protected_event o1 rand workerId" workerId for o1 rand workerId
proof unfold_locales
  fix e sp
  show "\<exists>t. evs (snd (protected_event o1 rand workerId e sp)) = markPublished (ce_id e) workerId t (evs (snd sp))
      \<or> evs (snd (protected_event o1 rand workerId e sp)) = markPublishFailed (ce_id e) workerId (evs (snd sp))"
    by (auto simp: protected_event_def Let_def case_prod_beta finish_ok_def finish_err_def
        recordNotificationAttempt_def split: sum.splits)
  show "published (fst (protected_event o1 rand workerId e sp)) + failed (fst (protected_event o1 rand workerId e sp))
      = Suc (published (fst sp) + failed (fst sp))"
    by (auto simp: protected_event_def Let_def case_prod_beta split: sum.splits)
qed

text \<open>
  C2: both workers return, whatever the provider does, after no more claims than the events' attempt
  budgets allow, leaving nothing claimable: no event is pending, so each is published, failed for good,
  or under another worker's live lease.
\<close>

theorem workers_drain_the_outbox:
  assumes "outbox_ok (evs p)"
  shows "(\<exists>s1 p1. runNaiveWorker workerId retries None p = Some (s1, p1)
           \<and> claimable_ids (world.clock (net p1)) (evs p1) = {} \<and> (\<forall>r \<in> set (evs p1). status r \<noteq> Pending)
           \<and> published s1 + failed s1 \<le> backlog_work (evs p))
       \<and> (\<exists>s2 p2. runProtectedWorker o1 rand workerId None p = Some (s2, p2)
           \<and> claimable_ids (world.clock (net p2)) (evs p2) = {} \<and> (\<forall>r \<in> set (evs p2). status r \<noteq> Pending)
           \<and> published s2 + failed s2 \<le> backlog_work (evs p))"
proof -
  have pend: "claimable_ids t rows = {} \<Longrightarrow> r \<in> set rows \<Longrightarrow> status r \<noteq> Pending" for t rows and r :: "order_payload outbox_event"
    by (auto simp: claimable_ids_def claimable_event_def)
  have "or_default None (3::nat) = 3" by (simp add: or_default_def)
  then show ?thesis
    using naive.loop_drains [of "(no_stats, p)" 0 3 workerId "or_default retries 3"]
      protected.loop_drains [of "(no_stats, p)" 0 3 o1 rand workerId] assms
    by (auto simp: runNaiveWorker_def runProtectedWorker_def no_stats_def dest: pend)
qed

definition one_order_pipeline :: pipeline where
  "one_order_pipeline = \<lparr>net = start_world (new_service \<lparr>seed = 7, health = Down, transientErrorRate = None,
       slowRate = None, fastLatencyRangeMs = None, slowLatencyRangeMs = None\<rparr>),
     evs = [confirmed_event (generated 1) (order_row (generated 1) 5 alice)], log_rows = [],
     registry = new_registry, breaker = new_breaker\<rparr>"

definition default_protection :: protection where
  "default_protection = \<lparr>p_failureThreshold = None, p_cooldownMs = None, p_timeoutMs = None,
     p_maxAttempts = None, p_baseDelayMs = None, p_maxDelayMs = None\<rparr>"

lemma workers_drain_the_outbox_witness:
  "\<exists>s2 p2. runProtectedWorker default_protection (\<lambda>w. (0, w)) ''w'' None one_order_pipeline = Some (s2, p2)
     \<and> (\<forall>r \<in> set (evs p2). status r \<noteq> Pending)"
proof -
  have "outbox_ok (evs one_order_pipeline)"
    by (simp add: one_order_pipeline_def outbox_ok_def row_ok_def confirmed_event_def)
  from workers_drain_the_outbox [OF this, of "''w''" None default_protection "\<lambda>w. (0, w)"]
  show ?thesis by blast
qed

end
