(* ===== verification/Saga_Steps.thy ===== *)
theory Saga_Steps
  imports Sql_Table
begin

text \<open>
  The order saga of Lab 20, \<open>labs/20-*/src/domain\<close>: its tables, the log (\<open>saga-log.ts\<close>), the transaction
  around a step (\<open>run-step.ts\<close>), the forward steps (\<open>steps.ts\<close>) and the compensations
  (\<open>compensating-steps.ts\<close>). Identity columns draw from sequences, which a rollback does not rewind;
  public ids are the server's random uuids, handed in. Foreign keys hold by construction (the ids come
  from rows just written), and quantities are taken to fit the column type.
\<close>

section \<open>Tables\<close>

datatype StepName = createOrder | reserveInventory | capturePayment | createShipment

datatype Mechanism = orchestration | choreography

datatype Direction = forward | compensate

datatype log_outcome = LSuccess | LFailure | LPublished | LConsumed

datatype json = JStr string | JInt int | JObj "(string \<times> json) list"

datatype saga_order_status = OPending | OCompleted | OCancelled

record saga_order =
  so_id :: nat
  so_publicId :: nat
  so_customerName :: string
  so_amountCents :: int
  so_status :: saga_order_status

record inventory_item =
  item_id :: nat
  sku :: string
  available :: int

record reservation =
  res_id :: nat
  res_orderId :: nat
  res_itemId :: nat
  res_quantity :: int
  released :: bool

record payment =
  pay_id :: nat
  pay_orderId :: nat
  pay_amountCents :: int
  refunded :: bool

record shipment =
  ship_id :: nat
  ship_orderId :: nat

record saga_log_row =
  lg_orderId :: "nat option"
  lg_mechanism :: Mechanism
  lg_stepName :: string
  lg_direction :: Direction
  lg_outcome :: log_outcome
  lg_detail :: "(string \<times> json) list"

record sequences =
  order_seq :: nat
  res_seq :: nat
  pay_seq :: nat
  ship_seq :: nat

record saga_db =
  saga_orders :: "saga_order list"
  items :: "inventory_item list"
  reservations :: "reservation list"
  payments :: "payment list"
  shipments :: "shipment list"
  saga_log :: "saga_log_row list"
  seqs :: sequences

record OrderSagaInput =
  customerName :: string
  amountCents :: int
  itemSku :: string
  quantity :: int

record OrderRef =
  ref_id :: nat
  ref_publicId :: nat

record ReservationRef =
  reservationId :: nat
  rr_itemId :: nat
  rr_quantity :: int

section \<open>The log and the step's transaction\<close>

definition insertSagaLog :: "saga_log_row \<Rightarrow> saga_db \<Rightarrow> saga_db" where
  "insertSagaLog row s = s\<lparr>saga_log := saga_log s @ [row]\<rparr>"

definition rollback :: "saga_db \<Rightarrow> saga_db \<Rightarrow> saga_db" where
  "rollback before after = before\<lparr>seqs := seqs after\<rparr>"

record RunStepParams =
  rs_orderId :: nat
  rs_mechanism :: Mechanism
  rs_stepName :: string
  rs_direction :: Direction
  simulateFailure :: bool
  simulatedFailureMessage :: "string option"
  rs_detail :: "(string \<times> json) list"

definition runStep ::
  "RunStepParams \<Rightarrow> (saga_db \<Rightarrow> (string + 'a) \<times> saga_db) \<Rightarrow> saga_db \<Rightarrow> (string + 'a) \<times> saga_db" where
  "runStep p work s =
     (let row = \<lparr>lg_orderId = Some (rs_orderId p), lg_mechanism = rs_mechanism p,
                 lg_stepName = rs_stepName p, lg_direction = rs_direction p,
                 lg_outcome = LSuccess, lg_detail = rs_detail p\<rparr>;
          (res, s1) =
            (if simulateFailure p
             then (Inl (case simulatedFailureMessage p of Some m \<Rightarrow> m
                        | None \<Rightarrow> ''simulated failure at step \"'' @ rs_stepName p @ ''\"''), s)
             else work s)
      in case res of
           Inr r \<Rightarrow> (Inr r, insertSagaLog row s1)
         | Inl reason \<Rightarrow>
             (Inl reason, insertSagaLog
                (row\<lparr>lg_outcome := LFailure, lg_detail := rs_detail p @ [(''reason'', JStr reason)]\<rparr>)
                (rollback s s1)))"

section \<open>Forward steps\<close>

definition createOrderStep ::
  "nat \<Rightarrow> Mechanism \<Rightarrow> OrderSagaInput \<Rightarrow> bool \<Rightarrow> saga_db \<Rightarrow> (string + OrderRef) \<times> saga_db" where
  "createOrderStep uuid mechanism input simFail s =
     (let row = \<lparr>lg_orderId = None, lg_mechanism = mechanism, lg_stepName = ''createOrder'',
                 lg_direction = forward, lg_outcome = LFailure, lg_detail = []\<rparr>;
          fail = (\<lambda>reason s1. (Inl reason, insertSagaLog (row\<lparr>lg_detail :=
            [(''customerName'', JStr (customerName input)), (''reason'', JStr reason)]\<rparr>) (rollback s s1)));
          i = order_seq (seqs s);
          s1 = s\<lparr>seqs := (seqs s)\<lparr>order_seq := i + 1\<rparr>\<rparr>
      in if simFail
         then fail (''simulated failure: order intake rejected for customer \"'' @ customerName input @ ''\"'') s
         else if amountCents input \<le> 0 then fail ''orders_amount_cents_positive'' s1
         else (Inr \<lparr>ref_id = i, ref_publicId = uuid\<rparr>,
               insertSagaLog (row\<lparr>lg_orderId := Some i, lg_outcome := LSuccess, lg_detail :=
                   [(''customerName'', JStr (customerName input)), (''amountCents'', JInt (amountCents input))]\<rparr>)
                 (s1\<lparr>saga_orders := saga_orders s1 @ [\<lparr>so_id = i, so_publicId = uuid,
                    so_customerName = customerName input, so_amountCents = amountCents input,
                    so_status = OPending\<rparr>]\<rparr>)))"

definition reserve_work :: "OrderRef \<Rightarrow> string \<Rightarrow> int \<Rightarrow> saga_db \<Rightarrow> (string + ReservationRef) \<times> saga_db" where
  "reserve_work order wanted qty s =
     (case row_with (\<lambda>x. sku x = wanted) (items s) of
        None \<Rightarrow> (Inl (''Unknown SKU \"'' @ wanted @ ''\"''), s)
      | Some item \<Rightarrow>
          if available item < qty
          then (Inl (''Insufficient inventory for \"'' @ wanted @ ''\": have '' @ int_str (available item)
                     @ '', need '' @ int_str qty), s)
          else (let s1 = s\<lparr>items := update_where (\<lambda>x. item_id x = item_id item)
                                     (\<lambda>x. x\<lparr>available := available x - qty\<rparr>) (items s)\<rparr>;
                    i = res_seq (seqs s1);
                    s2 = s1\<lparr>seqs := (seqs s1)\<lparr>res_seq := i + 1\<rparr>\<rparr>
                in if qty \<le> 0 then (Inl ''inventory_reservations_quantity_positive'', s2)
                   else (Inr \<lparr>reservationId = i, rr_itemId = item_id item, rr_quantity = qty\<rparr>,
                         s2\<lparr>reservations := reservations s2 @ [\<lparr>res_id = i, res_orderId = ref_id order,
                              res_itemId = item_id item, res_quantity = qty, released = False\<rparr>]\<rparr>)))"

definition reserveInventoryStep ::
  "Mechanism \<Rightarrow> OrderRef \<Rightarrow> string \<Rightarrow> int \<Rightarrow> bool \<Rightarrow> saga_db \<Rightarrow> (string + ReservationRef) \<times> saga_db" where
  "reserveInventoryStep mechanism order wanted qty simFail =
     runStep \<lparr>rs_orderId = ref_id order, rs_mechanism = mechanism, rs_stepName = ''reserveInventory'',
         rs_direction = forward, simulateFailure = simFail,
         simulatedFailureMessage = Some (''simulated failure: inventory system rejected reserving ''
           @ int_str qty @ ''x '' @ wanted @ '' for order '' @ nat_str (ref_publicId order)),
         rs_detail = [(''itemSku'', JStr wanted), (''quantity'', JInt qty)]\<rparr>
       (reserve_work order wanted qty)"

definition payment_work :: "OrderRef \<Rightarrow> int \<Rightarrow> saga_db \<Rightarrow> (string + nat) \<times> saga_db" where
  "payment_work order amount s =
     (let i = pay_seq (seqs s); s1 = s\<lparr>seqs := (seqs s)\<lparr>pay_seq := i + 1\<rparr>\<rparr>
      in if amount \<le> 0 then (Inl ''payments_amount_cents_positive'', s1)
         else (Inr i, s1\<lparr>payments := payments s1 @ [\<lparr>pay_id = i, pay_orderId = ref_id order,
                           pay_amountCents = amount, refunded = False\<rparr>]\<rparr>))"

definition capturePaymentStep ::
  "Mechanism \<Rightarrow> OrderRef \<Rightarrow> int \<Rightarrow> bool \<Rightarrow> saga_db \<Rightarrow> (string + nat) \<times> saga_db" where
  "capturePaymentStep mechanism order amount simFail =
     runStep \<lparr>rs_orderId = ref_id order, rs_mechanism = mechanism, rs_stepName = ''capturePayment'',
         rs_direction = forward, simulateFailure = simFail,
         simulatedFailureMessage = Some (''simulated failure: payment gateway declined order ''
           @ nat_str (ref_publicId order)),
         rs_detail = [(''amountCents'', JInt amount)]\<rparr>
       (payment_work order amount)"

definition shipment_work :: "OrderRef \<Rightarrow> saga_db \<Rightarrow> (string + nat) \<times> saga_db" where
  "shipment_work order s =
     (let i = ship_seq (seqs s)
      in (Inr i, s\<lparr>seqs := (seqs s)\<lparr>ship_seq := i + 1\<rparr>,
                   shipments := shipments s @ [\<lparr>ship_id = i, ship_orderId = ref_id order\<rparr>]\<rparr>))"

definition createShipmentStep ::
  "Mechanism \<Rightarrow> OrderRef \<Rightarrow> bool \<Rightarrow> saga_db \<Rightarrow> (string + nat) \<times> saga_db" where
  "createShipmentStep mechanism order simFail =
     runStep \<lparr>rs_orderId = ref_id order, rs_mechanism = mechanism, rs_stepName = ''createShipment'',
         rs_direction = forward, simulateFailure = simFail,
         simulatedFailureMessage = Some (''simulated failure: carrier API rejected shipment creation for order ''
           @ nat_str (ref_publicId order)),
         rs_detail = []\<rparr>
       (shipment_work order)"

text \<open>The steps without a simulated failure, each one update.\<close>

definition plain_step :: "nat \<Rightarrow> Mechanism \<Rightarrow> string \<Rightarrow> Direction \<Rightarrow> (string \<times> json) list \<Rightarrow> RunStepParams" where
  "plain_step orderId mechanism name dir detail =
     \<lparr>rs_orderId = orderId, rs_mechanism = mechanism, rs_stepName = name, rs_direction = dir,
      simulateFailure = False, simulatedFailureMessage = None, rs_detail = detail\<rparr>"

definition set_order_status :: "saga_order_status \<Rightarrow> nat \<Rightarrow> saga_db \<Rightarrow> (string + unit) \<times> saga_db" where
  "set_order_status st i s =
     (Inr (), s\<lparr>saga_orders := update_where (\<lambda>x. so_id x = i) (\<lambda>x. x\<lparr>so_status := st\<rparr>) (saga_orders s)\<rparr>)"

definition completeOrderStep :: "Mechanism \<Rightarrow> nat \<Rightarrow> saga_db \<Rightarrow> (string + unit) \<times> saga_db" where
  "completeOrderStep mechanism orderId =
     runStep (plain_step orderId mechanism ''completeOrder'' forward []) (set_order_status OCompleted orderId)"

definition fetchOrderById :: "nat \<Rightarrow> saga_db \<Rightarrow> string + OrderRef" where
  "fetchOrderById orderId s =
     (case row_with (\<lambda>x. so_id x = orderId) (saga_orders s) of
        None \<Rightarrow> Inl (''Order '' @ nat_str orderId @ '' does not exist'')
      | Some row \<Rightarrow> Inr \<lparr>ref_id = so_id row, ref_publicId = so_publicId row\<rparr>)"

section \<open>Compensations\<close>

definition refundPaymentStep :: "Mechanism \<Rightarrow> nat \<Rightarrow> nat \<Rightarrow> saga_db \<Rightarrow> (string + unit) \<times> saga_db" where
  "refundPaymentStep mechanism orderId paymentId =
     runStep (plain_step orderId mechanism ''refundPayment'' compensate [(''paymentId'', JInt (int paymentId))])
       (\<lambda>s. (Inr (), s\<lparr>payments := update_where (\<lambda>x. pay_id x = paymentId)
                                  (\<lambda>x. x\<lparr>refunded := True\<rparr>) (payments s)\<rparr>))"

definition releaseInventoryStep ::
  "Mechanism \<Rightarrow> nat \<Rightarrow> ReservationRef \<Rightarrow> saga_db \<Rightarrow> (string + unit) \<times> saga_db" where
  "releaseInventoryStep mechanism orderId r =
     runStep (plain_step orderId mechanism ''releaseInventory'' compensate
         [(''reservationId'', JInt (int (reservationId r))), (''itemId'', JInt (int (rr_itemId r))),
          (''quantity'', JInt (rr_quantity r))])
       (\<lambda>s. (Inr (), s\<lparr>items := update_where (\<lambda>x. item_id x = rr_itemId r)
                              (\<lambda>x. x\<lparr>available := available x + rr_quantity r\<rparr>) (items s),
                      reservations := update_where (\<lambda>x. res_id x = reservationId r)
                              (\<lambda>x. x\<lparr>released := True\<rparr>) (reservations s)\<rparr>))"

definition cancelOrderStep :: "Mechanism \<Rightarrow> nat \<Rightarrow> saga_db \<Rightarrow> (string + unit) \<times> saga_db" where
  "cancelOrderStep mechanism orderId =
     runStep (plain_step orderId mechanism ''cancelOrder'' compensate []) (set_order_status OCancelled orderId)"

end
