(* ===== verification/Saga.thy ===== *)
theory Saga
  imports Saga_Steps
begin

text \<open>
  The two coordinations of Lab 20's saga: \<open>runOrderSaga\<close> (\<open>orchestration/orchestrator.ts\<close>), which calls
  the steps and the compensations itself, and the choreography (\<open>choreography\<close>), in which services
  react to each other's events over an in-process bus. Both are shown to leave the same business state.
\<close>

section \<open>The orchestrator\<close>

datatype SagaOutcome = completed | compensated | aborted

record SagaResult =
  sr_outcome :: SagaOutcome
  sr_orderId :: "nat option"
  sr_publicId :: "nat option"
  failedStep :: "StepName option"
  sr_reason :: "string option"

definition refundPayment :: "nat \<Rightarrow> nat \<Rightarrow> saga_db \<Rightarrow> (string + unit) \<times> saga_db" where
  "refundPayment = refundPaymentStep orchestration"

definition releaseInventory :: "nat \<Rightarrow> ReservationRef \<Rightarrow> saga_db \<Rightarrow> (string + unit) \<times> saga_db" where
  "releaseInventory = releaseInventoryStep orchestration"

definition cancelOrder :: "nat \<Rightarrow> saga_db \<Rightarrow> (string + unit) \<times> saga_db" where
  "cancelOrder = cancelOrderStep orchestration"

definition gave_up :: "OrderRef \<Rightarrow> StepName \<Rightarrow> string \<Rightarrow> SagaResult" where
  "gave_up order failed why = \<lparr>sr_outcome = compensated, sr_orderId = Some (ref_id order),
     sr_publicId = Some (ref_publicId order), failedStep = Some failed, sr_reason = Some why\<rparr>"

definition runOrderSaga ::
  "nat \<Rightarrow> OrderSagaInput \<Rightarrow> StepName option \<Rightarrow> saga_db \<Rightarrow> SagaResult \<times> saga_db" where
  "runOrderSaga uuid input failAtStep s =
     (case createOrderStep uuid orchestration input (failAtStep = Some createOrder) s of
        (Inl why, s1) \<Rightarrow>
          (\<lparr>sr_outcome = aborted, sr_orderId = None, sr_publicId = None,
            failedStep = Some createOrder, sr_reason = Some why\<rparr>, s1)
      | (Inr order, s1) \<Rightarrow>
     (case reserveInventoryStep orchestration order (itemSku input) (quantity input)
             (failAtStep = Some reserveInventory) s1 of
        (Inl why, s2) \<Rightarrow>
          (let s3 = snd (cancelOrder (ref_id order) s2)
           in (gave_up order reserveInventory why, s3))
      | (Inr rsv, s2) \<Rightarrow>
     (case capturePaymentStep orchestration order (amountCents input) (failAtStep = Some capturePayment) s2 of
        (Inl why, s3) \<Rightarrow>
          (let s4 = snd (releaseInventory (ref_id order) rsv s3);
               s5 = snd (cancelOrder (ref_id order) s4)
           in (gave_up order capturePayment why, s5))
      | (Inr paymentId, s3) \<Rightarrow>
     (case createShipmentStep orchestration order (failAtStep = Some createShipment) s3 of
        (Inl why, s4) \<Rightarrow>
          (let s5 = snd (refundPayment (ref_id order) paymentId s4);
               s6 = snd (releaseInventory (ref_id order) rsv s5);
               s7 = snd (cancelOrder (ref_id order) s6)
           in (gave_up order createShipment why, s7))
      | (Inr _, s4) \<Rightarrow>
          (\<lparr>sr_outcome = completed, sr_orderId = Some (ref_id order), sr_publicId = Some (ref_publicId order),
            failedStep = None, sr_reason = None\<rparr>,
           snd (completeOrderStep orchestration (ref_id order) s4))))))"

section \<open>The event bus\<close>

datatype saga_event =
    OrderCreated (ev_orderId: nat) string int int
  | InventoryReserved (ev_orderId: nat) ReservationRef int
  | PaymentCaptured (ev_orderId: nat) nat ReservationRef
  | ShipmentCreated (ev_orderId: nat) nat
  | InventoryReservationFailed (ev_orderId: nat) string
  | PaymentFailed (ev_orderId: nat) string ReservationRef
  | ShipmentFailed (ev_orderId: nat) string nat ReservationRef
  | PaymentRefunded (ev_orderId: nat) ReservationRef
  | InventoryReleased (ev_orderId: nat)
  | OrderCancelled (ev_orderId: nat)

fun event_name :: "saga_event \<Rightarrow> string" where
  "event_name (OrderCreated _ _ _ _) = ''OrderCreated''"
| "event_name (InventoryReserved _ _ _) = ''InventoryReserved''"
| "event_name (PaymentCaptured _ _ _) = ''PaymentCaptured''"
| "event_name (ShipmentCreated _ _) = ''ShipmentCreated''"
| "event_name (InventoryReservationFailed _ _) = ''InventoryReservationFailed''"
| "event_name (PaymentFailed _ _ _) = ''PaymentFailed''"
| "event_name (ShipmentFailed _ _ _ _) = ''ShipmentFailed''"
| "event_name (PaymentRefunded _ _) = ''PaymentRefunded''"
| "event_name (InventoryReleased _) = ''InventoryReleased''"
| "event_name (OrderCancelled _) = ''OrderCancelled''"

definition json_reservation :: "ReservationRef \<Rightarrow> string \<times> json" where
  "json_reservation r = (''reservation'', JObj [(''reservationId'', JInt (int (reservationId r))),
     (''itemId'', JInt (int (rr_itemId r))), (''quantity'', JInt (rr_quantity r))])"

definition json_payment :: "nat \<Rightarrow> string \<times> json" where
  "json_payment i = (''payment'', JObj [(''paymentId'', JInt (int i))])"

fun event_payload :: "saga_event \<Rightarrow> (string \<times> json) list" where
  "event_payload (OrderCreated _ item qty amount) =
     [(''itemSku'', JStr item), (''quantity'', JInt qty), (''amountCents'', JInt amount)]"
| "event_payload (InventoryReserved _ r amount) = [json_reservation r, (''amountCents'', JInt amount)]"
| "event_payload (PaymentCaptured _ p r) = [json_payment p, json_reservation r]"
| "event_payload (ShipmentCreated _ i) = [(''shipmentId'', JInt (int i))]"
| "event_payload (InventoryReservationFailed _ why) = [(''reason'', JStr why)]"
| "event_payload (PaymentFailed _ why r) = [(''reason'', JStr why), json_reservation r]"
| "event_payload (ShipmentFailed _ why p r) = [(''reason'', JStr why), json_payment p, json_reservation r]"
| "event_payload (PaymentRefunded _ r) = [json_reservation r]"
| "event_payload (InventoryReleased _) = []"
| "event_payload (OrderCancelled _) = []"

text \<open>
  A handler ends by publishing at most one event, so it is a function to the event it publishes. It may
  throw. An event is delivered to its subscribers in turn, each with everything that follows from it
  before the next.
\<close>

record publication =
  pub_event :: saga_event
  publishedBy :: string
  pub_direction :: Direction

type_synonym handled = "(string + publication option) \<times> saga_db"

record subscription =
  consumerName :: string
  sub_direction :: Direction
  handler :: "saga_event \<Rightarrow> saga_db \<Rightarrow> handled"

type_synonym EventBus = "string \<Rightarrow> subscription list"

definition empty_bus :: EventBus where "empty_bus = (\<lambda>_. [])"

definition on :: "string \<Rightarrow> string \<Rightarrow> Direction \<Rightarrow> (saga_event \<Rightarrow> saga_db \<Rightarrow> handled) \<Rightarrow> EventBus \<Rightarrow> EventBus" where
  "on eventName consumer dir h bus =
     bus(eventName := bus eventName @ [\<lparr>consumerName = consumer, sub_direction = dir, handler = h\<rparr>])"

definition log_published :: "publication \<Rightarrow> saga_db \<Rightarrow> saga_db" where
  "log_published p = insertSagaLog \<lparr>lg_orderId = Some (ev_orderId (pub_event p)), lg_mechanism = choreography,
     lg_stepName = event_name (pub_event p), lg_direction = pub_direction p, lg_outcome = LPublished,
     lg_detail = [(''publishedBy'', JStr (publishedBy p)), (''payload'', JObj (event_payload (pub_event p)))]\<rparr>"

definition log_consumed :: "subscription \<Rightarrow> saga_event \<Rightarrow> saga_db \<Rightarrow> saga_db" where
  "log_consumed sub e = insertSagaLog \<lparr>lg_orderId = Some (ev_orderId e), lg_mechanism = choreography,
     lg_stepName = event_name e, lg_direction = sub_direction sub, lg_outcome = LConsumed,
     lg_detail = [(''consumedBy'', JStr (consumerName sub))]\<rparr>"

partial_function (option) deliver ::
  "EventBus \<Rightarrow> saga_event \<Rightarrow> subscription list \<Rightarrow> saga_db \<Rightarrow> ((string + unit) \<times> saga_db) option" where
  "deliver bus e subs s =
     (case subs of
        [] \<Rightarrow> Some (Inr (), s)
      | sub # rest \<Rightarrow>
          (case handler sub e (log_consumed sub e s) of
             (Inl err, s1) \<Rightarrow> Some (Inl err, s1)
           | (Inr None, s1) \<Rightarrow> deliver bus e rest s1
           | (Inr (Some p), s1) \<Rightarrow>
               Option.bind (deliver bus (pub_event p) (bus (event_name (pub_event p))) (log_published p s1))
                 (\<lambda>(res, s2). case res of Inl err \<Rightarrow> Some (Inl err, s2) | Inr _ \<Rightarrow> deliver bus e rest s2)))"

definition publish :: "EventBus \<Rightarrow> publication \<Rightarrow> saga_db \<Rightarrow> ((string + unit) \<times> saga_db) option" where
  "publish bus p s = deliver bus (pub_event p) (bus (event_name (pub_event p))) (log_published p s)"

section \<open>The services\<close>

definition says :: "string \<Rightarrow> Direction \<Rightarrow> saga_event \<Rightarrow> saga_db \<Rightarrow> handled" where
  "says service dir e s = (Inr (Some \<lparr>pub_event = e, publishedBy = service, pub_direction = dir\<rparr>), s)"

text \<open>A handler is only registered for the event whose payload its type names; \<open>wrong_event\<close> is never reached.\<close>

definition wrong_event :: "saga_db \<Rightarrow> handled" where
  "wrong_event s = (Inl ''unexpected payload'', s)"

definition on_OrderCreated :: "StepName option \<Rightarrow> saga_event \<Rightarrow> saga_db \<Rightarrow> handled" where
  "on_OrderCreated failAtStep e s =
     (case e of OrderCreated i item qty amount \<Rightarrow>
        (case fetchOrderById i s of
           Inl err \<Rightarrow> (Inl err, s)
         | Inr order \<Rightarrow>
             (case reserveInventoryStep choreography order item qty (failAtStep = Some reserveInventory) s of
                (Inl why, s1) \<Rightarrow> says ''inventory-service'' compensate (InventoryReservationFailed i why) s1
              | (Inr r, s1) \<Rightarrow> says ''inventory-service'' forward (InventoryReserved i r amount) s1))
      | _ \<Rightarrow> wrong_event s)"

definition on_InventoryReserved :: "StepName option \<Rightarrow> saga_event \<Rightarrow> saga_db \<Rightarrow> handled" where
  "on_InventoryReserved failAtStep e s =
     (case e of InventoryReserved i r amount \<Rightarrow>
        (case fetchOrderById i s of
           Inl err \<Rightarrow> (Inl err, s)
         | Inr order \<Rightarrow>
             (case capturePaymentStep choreography order amount (failAtStep = Some capturePayment) s of
                (Inl why, s1) \<Rightarrow> says ''payment-service'' compensate (PaymentFailed i why r) s1
              | (Inr p, s1) \<Rightarrow> says ''payment-service'' forward (PaymentCaptured i p r) s1))
      | _ \<Rightarrow> wrong_event s)"

definition on_PaymentCaptured :: "StepName option \<Rightarrow> saga_event \<Rightarrow> saga_db \<Rightarrow> handled" where
  "on_PaymentCaptured failAtStep e s =
     (case e of PaymentCaptured i p r \<Rightarrow>
        (case fetchOrderById i s of
           Inl err \<Rightarrow> (Inl err, s)
         | Inr order \<Rightarrow>
             (case createShipmentStep choreography order (failAtStep = Some createShipment) s of
                (Inl why, s1) \<Rightarrow> says ''shipment-service'' compensate (ShipmentFailed i why p r) s1
              | (Inr sh, s1) \<Rightarrow> says ''shipment-service'' forward (ShipmentCreated i sh) s1))
      | _ \<Rightarrow> wrong_event s)"

definition on_ShipmentCreated :: "saga_event \<Rightarrow> saga_db \<Rightarrow> handled" where
  "on_ShipmentCreated e s = (Inr None, snd (completeOrderStep choreography (ev_orderId e) s))"

definition on_cancel :: "saga_event \<Rightarrow> saga_db \<Rightarrow> handled" where
  "on_cancel e s =
     says ''order-service'' compensate (OrderCancelled (ev_orderId e))
       (snd (cancelOrderStep choreography (ev_orderId e) s))"

definition on_release :: "saga_event \<Rightarrow> saga_db \<Rightarrow> handled" where
  "on_release e s =
     (let go = (\<lambda>r. says ''inventory-service'' compensate (InventoryReleased (ev_orderId e))
                      (snd (releaseInventoryStep choreography (ev_orderId e) r s)))
      in case e of PaymentFailed _ _ r \<Rightarrow> go r | PaymentRefunded _ r \<Rightarrow> go r | _ \<Rightarrow> wrong_event s)"

definition on_ShipmentFailed :: "saga_event \<Rightarrow> saga_db \<Rightarrow> handled" where
  "on_ShipmentFailed e s =
     (case e of ShipmentFailed i _ p r \<Rightarrow>
        says ''payment-service'' compensate (PaymentRefunded i r) (snd (refundPaymentStep choreography i p s))
      | _ \<Rightarrow> wrong_event s)"

definition registerHandlers :: "StepName option \<Rightarrow> EventBus \<Rightarrow> EventBus" where
  "registerHandlers failAtStep =
     on ''InventoryReleased'' ''order-service'' compensate on_cancel
     \<circ> on ''PaymentRefunded'' ''inventory-service'' compensate on_release
     \<circ> on ''ShipmentFailed'' ''payment-service'' compensate on_ShipmentFailed
     \<circ> on ''PaymentFailed'' ''inventory-service'' compensate on_release
     \<circ> on ''InventoryReservationFailed'' ''order-service'' compensate on_cancel
     \<circ> on ''ShipmentCreated'' ''order-service'' forward on_ShipmentCreated
     \<circ> on ''PaymentCaptured'' ''shipment-service'' forward (on_PaymentCaptured failAtStep)
     \<circ> on ''InventoryReserved'' ''payment-service'' forward (on_InventoryReserved failAtStep)
     \<circ> on ''OrderCreated'' ''inventory-service'' forward (on_OrderCreated failAtStep)"

record ChoreographedSagaHandle =
  h_orderId :: "nat option"
  h_publicId :: "nat option"
  h_aborted :: bool

definition runChoreographedOrderSaga ::
  "nat \<Rightarrow> OrderSagaInput \<Rightarrow> StepName option \<Rightarrow> saga_db
     \<Rightarrow> ((string + ChoreographedSagaHandle) \<times> saga_db) option" where
  "runChoreographedOrderSaga uuid input failAtStep s =
     (let bus = registerHandlers failAtStep empty_bus
      in case createOrderStep uuid choreography input (failAtStep = Some createOrder) s of
           (Inl _, s1) \<Rightarrow> Some (Inr \<lparr>h_orderId = None, h_publicId = None, h_aborted = True\<rparr>, s1)
         | (Inr order, s1) \<Rightarrow>
             map_option (\<lambda>(res, s2). (case res of
                 Inl err \<Rightarrow> Inl err
               | Inr _ \<Rightarrow> Inr \<lparr>h_orderId = Some (ref_id order), h_publicId = Some (ref_publicId order),
                             h_aborted = False\<rparr>, s2))
               (publish bus \<lparr>pub_event = OrderCreated (ref_id order) (itemSku input) (quantity input)
                               (amountCents input), publishedBy = ''order-service'', pub_direction = forward\<rparr> s1))"

end
