(* ===== verification/Saga_Correct.thy ===== *)
theory Saga_Correct
  imports Saga
begin

text \<open>
  What Lab 20's sagas promise: the effect of every outcome on the business tables, the conservation of
  stock, and the agreement of orchestration and choreography on everything but the log.
\<close>

section \<open>Business state: everything but the log\<close>

definition no_log :: "saga_db \<Rightarrow> saga_db" where
  "no_log s = s\<lparr>saga_log := []\<rparr>"

definition same :: "saga_db \<Rightarrow> saga_db \<Rightarrow> bool" where
  "same s t \<longleftrightarrow> no_log s = no_log t"

lemma same_refl [simp]: "same s s" and same_sym: "same s t \<Longrightarrow> same t s"
  and same_trans: "same s t \<Longrightarrow> same t u \<Longrightarrow> same s u"
  by (simp_all add: same_def)

lemma same_log [simp]:
  "same (insertSagaLog row s) t = same s t" "same s (insertSagaLog row t) = same s t"
  "same (log_published p s) t = same s t" "same (log_consumed sub e s) t = same s t"
  by (simp_all add: same_def no_log_def insertSagaLog_def log_published_def log_consumed_def)

lemma same_tables:
  "same s t \<longleftrightarrow> saga_orders s = saga_orders t \<and> items s = items t \<and> reservations s = reservations t
     \<and> payments s = payments t \<and> shipments s = shipments t \<and> seqs s = seqs t"
  by (auto simp: same_def no_log_def intro: saga_db.equality dest: arg_cong [of _ _ saga_orders]
      arg_cong [of _ _ items] arg_cong [of _ _ reservations] arg_cong [of _ _ payments]
      arg_cong [of _ _ shipments] arg_cong [of _ _ seqs])

lemma insert_log_fields [simp]:
  "saga_orders (insertSagaLog row s) = saga_orders s" "items (insertSagaLog row s) = items s"
  "reservations (insertSagaLog row s) = reservations s" "payments (insertSagaLog row s) = payments s"
  "shipments (insertSagaLog row s) = shipments s" "seqs (insertSagaLog row s) = seqs s"
  by (simp_all add: insertSagaLog_def)

text \<open>Whatever a step's work does to the log, it does not read it.\<close>

definition agree :: "((string + 'a) \<times> saga_db) \<Rightarrow> ((string + 'a) \<times> saga_db) \<Rightarrow> bool" where
  "agree x y \<longleftrightarrow> fst x = fst y \<and> same (snd x) (snd y)"

lemma runStep_agree:
  assumes "agree (work s) (work t)" and "same s t"
    and "simulateFailure p = simulateFailure q" and "simulatedFailureMessage p = simulatedFailureMessage q"
    and "rs_stepName p = rs_stepName q"
  shows "agree (runStep p work s) (runStep q work t)"
  using assms
  by (cases "work s"; cases "work t")
    (auto simp: agree_def runStep_def Let_def rollback_def same_tables split: sum.splits option.splits)

lemma steps_agree:
  assumes "same s t"
  shows "agree (createOrderStep u m1 input f s) (createOrderStep u m2 input f t)"
    and "agree (reserveInventoryStep m1 order item qty f s) (reserveInventoryStep m2 order item qty f t)"
    and "agree (capturePaymentStep m1 order amount f s) (capturePaymentStep m2 order amount f t)"
    and "agree (createShipmentStep m1 order f s) (createShipmentStep m2 order f t)"
    and "agree (completeOrderStep m1 i s) (completeOrderStep m2 i t)"
    and "agree (refundPaymentStep m1 i k s) (refundPaymentStep m2 i k t)"
    and "agree (releaseInventoryStep m1 i r s) (releaseInventoryStep m2 i r t)"
    and "agree (cancelOrderStep m1 i s) (cancelOrderStep m2 i t)"
proof -
  show "agree (createOrderStep u m1 input f s) (createOrderStep u m2 input f t)"
    using assms by (simp add: agree_def createOrderStep_def Let_def rollback_def same_tables)
  show "agree (reserveInventoryStep m1 order item qty f s) (reserveInventoryStep m2 order item qty f t)"
    unfolding reserveInventoryStep_def
    by (rule runStep_agree)
      (use assms in \<open>auto simp: agree_def reserve_work_def Let_def same_tables split: option.splits\<close>)
  show "agree (capturePaymentStep m1 order amount f s) (capturePaymentStep m2 order amount f t)"
    unfolding capturePaymentStep_def
    by (rule runStep_agree) (use assms in \<open>simp_all add: agree_def payment_work_def Let_def same_tables\<close>)
  show "agree (createShipmentStep m1 order f s) (createShipmentStep m2 order f t)"
    unfolding createShipmentStep_def
    by (rule runStep_agree) (use assms in \<open>simp_all add: agree_def shipment_work_def Let_def same_tables\<close>)
  show "agree (completeOrderStep m1 i s) (completeOrderStep m2 i t)"
    unfolding completeOrderStep_def
    by (rule runStep_agree) (use assms in \<open>simp_all add: agree_def set_order_status_def plain_step_def same_tables\<close>)
  show "agree (refundPaymentStep m1 i k s) (refundPaymentStep m2 i k t)"
    unfolding refundPaymentStep_def
    by (rule runStep_agree) (use assms in \<open>simp_all add: agree_def plain_step_def same_tables\<close>)
  show "agree (releaseInventoryStep m1 i r s) (releaseInventoryStep m2 i r t)"
    unfolding releaseInventoryStep_def
    by (rule runStep_agree) (use assms in \<open>simp_all add: agree_def plain_step_def same_tables\<close>)
  show "agree (cancelOrderStep m1 i s) (cancelOrderStep m2 i t)"
    unfolding cancelOrderStep_def
    by (rule runStep_agree) (use assms in \<open>simp_all add: agree_def set_order_status_def plain_step_def same_tables\<close>)
qed

section \<open>The steps as transactions on the tables\<close>

lemma runStep_tables:
  "fst (runStep p work s) = (if simulateFailure p
      then Inl (case simulatedFailureMessage p of Some m \<Rightarrow> m
                | None \<Rightarrow> ''simulated failure at step \"'' @ rs_stepName p @ ''\"'')
      else fst (work s))"
  "same (snd (runStep p work s)) (if simulateFailure p then s
      else case work s of (Inl _, s1) \<Rightarrow> rollback s s1 | (Inr _, s1) \<Rightarrow> s1)"
  by (auto simp: runStep_def Let_def rollback_def same_tables split: sum.splits prod.splits)

definition fresh_ids :: "saga_db \<Rightarrow> bool" where
  "fresh_ids s \<longleftrightarrow> (\<forall>x \<in> set (saga_orders s). so_id x < order_seq (seqs s))
     \<and> (\<forall>x \<in> set (reservations s). res_id x < res_seq (seqs s))
     \<and> (\<forall>x \<in> set (payments s). pay_id x < pay_seq (seqs s))
     \<and> distinct (map item_id (items s)) \<and> distinct (map sku (items s))"

definition trace :: "saga_db \<Rightarrow> (string \<times> Direction) list" where
  "trace s = map (\<lambda>r. (lg_stepName r, lg_direction r)) (saga_log s)"

definition tables_kept :: "saga_db \<Rightarrow> saga_db \<Rightarrow> bool" where
  "tables_kept s s' \<longleftrightarrow> saga_orders s' = saga_orders s \<and> items s' = items s
     \<and> reservations s' = reservations s \<and> payments s' = payments s \<and> shipments s' = shipments s"

lemma update_fresh:
  "(\<forall>x \<in> set xs. key x < k) \<Longrightarrow> key y = k \<Longrightarrow>
   update_where (\<lambda>x. key x = (k::nat)) f (xs @ [y]) = xs @ [f y]"
  by (auto simp: update_where_def intro!: map_idI)

lemma stock_restored:
  "update_where (\<lambda>x. item_id x = k) (\<lambda>x. x\<lparr>available := available x + q\<rparr>)
     (update_where (\<lambda>x. item_id x = k) (\<lambda>x. x\<lparr>available := available x - q\<rparr>) xs) = (xs :: inventory_item list)"
  by (simp add: update_where_def map_idI)

lemma createOrder_ok:
  assumes "createOrderStep u m input f s = (Inr order, s1)"
  shows "0 < amountCents input" and "order = \<lparr>ref_id = order_seq (seqs s), ref_publicId = u\<rparr>"
    and "saga_orders s1 = saga_orders s @ [\<lparr>so_id = ref_id order, so_publicId = u,
           so_customerName = customerName input, so_amountCents = amountCents input, so_status = OPending\<rparr>]"
    and "items s1 = items s \<and> reservations s1 = reservations s \<and> payments s1 = payments s \<and> shipments s1 = shipments s"
    and "seqs s1 = (seqs s)\<lparr>order_seq := order_seq (seqs s) + 1\<rparr>"
    and "trace s1 = trace s @ [(''createOrder'', forward)]" and "\<not> f"
  using assms by (auto simp: createOrderStep_def Let_def trace_def insertSagaLog_def split: if_splits)

lemma createOrder_err:
  assumes "createOrderStep u m input f s = (Inl why, s1)"
  shows "f \<or> amountCents input \<le> 0" and "tables_kept s s1" and "trace s1 = trace s @ [(''createOrder'', forward)]"
    and "res_seq (seqs s1) = res_seq (seqs s) \<and> pay_seq (seqs s1) = pay_seq (seqs s) \<and> order_seq (seqs s) \<le> order_seq (seqs s1)"
  using assms by (auto simp: createOrderStep_def Let_def trace_def insertSagaLog_def tables_kept_def
      rollback_def split: if_splits)

definition reserved ::
  "OrderRef \<Rightarrow> string \<Rightarrow> int \<Rightarrow> saga_db \<Rightarrow> inventory_item \<Rightarrow> ReservationRef \<Rightarrow> saga_db \<Rightarrow> bool" where
  "reserved order item qty s it r s1 \<longleftrightarrow>
     row_with (\<lambda>x. sku x = item) (items s) = Some it \<and> 0 < qty \<and> qty \<le> available it
     \<and> r = \<lparr>reservationId = res_seq (seqs s), rr_itemId = item_id it, rr_quantity = qty\<rparr>
     \<and> items s1 = update_where (\<lambda>x. item_id x = item_id it) (\<lambda>x. x\<lparr>available := available x - qty\<rparr>) (items s)
     \<and> reservations s1 = reservations s @ [\<lparr>res_id = res_seq (seqs s), res_orderId = ref_id order,
         res_itemId = item_id it, res_quantity = qty, released = False\<rparr>]
     \<and> saga_orders s1 = saga_orders s \<and> payments s1 = payments s \<and> shipments s1 = shipments s
     \<and> seqs s1 = (seqs s)\<lparr>res_seq := res_seq (seqs s) + 1\<rparr>
     \<and> trace s1 = trace s @ [(''reserveInventory'', forward)]"

lemma reserve_ok:
  assumes "reserveInventoryStep m order item qty f s = (Inr r, s1)"
  obtains it where "reserved order item qty s it r s1" "\<not> f"
  using assms by (auto simp: reserveInventoryStep_def runStep_def reserve_work_def Let_def trace_def
      insertSagaLog_def reserved_def split: if_splits option.splits sum.splits)

lemma reserve_err:
  assumes "reserveInventoryStep m order item qty f s = (Inl why, s1)"
  shows "tables_kept s s1" and "trace s1 = trace s @ [(''reserveInventory'', forward)]"
    and "order_seq (seqs s1) = order_seq (seqs s) \<and> pay_seq (seqs s1) = pay_seq (seqs s) \<and> res_seq (seqs s) \<le> res_seq (seqs s1)"
    and "f \<or> qty \<le> 0 \<or> (\<forall>x \<in> set (items s). sku x = item \<longrightarrow> \<not> qty \<le> available x)
          \<or> (\<exists>x \<in> set (items s). sku x = item \<and> available x < qty)"
  using assms by (auto simp: reserveInventoryStep_def runStep_def reserve_work_def Let_def trace_def
      insertSagaLog_def tables_kept_def rollback_def row_with_None split: if_splits option.splits sum.splits
      dest: row_with_Some)

lemma capture_ok:
  assumes "capturePaymentStep m order amount f s = (Inr p, s1)"
  shows "p = pay_seq (seqs s)" and "0 < amount" and "\<not> f"
    and "payments s1 = payments s @ [\<lparr>pay_id = p, pay_orderId = ref_id order, pay_amountCents = amount, refunded = False\<rparr>]"
    and "saga_orders s1 = saga_orders s \<and> items s1 = items s \<and> reservations s1 = reservations s \<and> shipments s1 = shipments s"
    and "seqs s1 = (seqs s)\<lparr>pay_seq := pay_seq (seqs s) + 1\<rparr>"
    and "trace s1 = trace s @ [(''capturePayment'', forward)]"
  using assms by (auto simp: capturePaymentStep_def runStep_def payment_work_def Let_def trace_def
      insertSagaLog_def split: if_splits sum.splits)

lemma capture_err:
  assumes "capturePaymentStep m order amount f s = (Inl why, s1)"
  shows "tables_kept s s1" and "trace s1 = trace s @ [(''capturePayment'', forward)]" and "f \<or> amount \<le> 0"
    and "order_seq (seqs s1) = order_seq (seqs s) \<and> res_seq (seqs s1) = res_seq (seqs s) \<and> pay_seq (seqs s) \<le> pay_seq (seqs s1)"
  using assms by (auto simp: capturePaymentStep_def runStep_def payment_work_def Let_def trace_def
      insertSagaLog_def tables_kept_def rollback_def split: if_splits sum.splits)

lemma shipment_ok:
  assumes "createShipmentStep m order f s = (Inr k, s1)"
  shows "shipments s1 = shipments s @ [\<lparr>ship_id = k, ship_orderId = ref_id order\<rparr>]" and "\<not> f"
    and "saga_orders s1 = saga_orders s \<and> items s1 = items s \<and> reservations s1 = reservations s \<and> payments s1 = payments s"
    and "seqs s1 = (seqs s)\<lparr>ship_seq := ship_seq (seqs s) + 1\<rparr>"
    and "trace s1 = trace s @ [(''createShipment'', forward)]"
  using assms by (auto simp: createShipmentStep_def runStep_def shipment_work_def Let_def trace_def
      insertSagaLog_def split: if_splits sum.splits)

lemma shipment_err:
  assumes "createShipmentStep m order f s = (Inl why, s1)"
  shows "tables_kept s s1" and "seqs s1 = seqs s" and "f" and "trace s1 = trace s @ [(''createShipment'', forward)]"
  using assms by (auto simp: createShipmentStep_def runStep_def shipment_work_def Let_def trace_def
      insertSagaLog_def tables_kept_def rollback_def split: if_splits sum.splits)

lemmas plain_defs = runStep_def plain_step_def set_order_status_def insertSagaLog_def trace_def Let_def

lemma complete_order [simp]:
  "saga_orders (snd (completeOrderStep m i s)) = update_where (\<lambda>x. so_id x = i) (\<lambda>x. x\<lparr>so_status := OCompleted\<rparr>) (saga_orders s)"
  "items (snd (completeOrderStep m i s)) = items s"
  "reservations (snd (completeOrderStep m i s)) = reservations s"
  "payments (snd (completeOrderStep m i s)) = payments s"
  "shipments (snd (completeOrderStep m i s)) = shipments s"
  "seqs (snd (completeOrderStep m i s)) = seqs s"
  "trace (snd (completeOrderStep m i s)) = trace s @ [(''completeOrder'', forward)]"
  by (simp_all add: completeOrderStep_def plain_defs)

lemma cancel_order [simp]:
  "saga_orders (snd (cancelOrderStep m i s)) = update_where (\<lambda>x. so_id x = i) (\<lambda>x. x\<lparr>so_status := OCancelled\<rparr>) (saga_orders s)"
  "items (snd (cancelOrderStep m i s)) = items s"
  "reservations (snd (cancelOrderStep m i s)) = reservations s"
  "payments (snd (cancelOrderStep m i s)) = payments s"
  "shipments (snd (cancelOrderStep m i s)) = shipments s"
  "seqs (snd (cancelOrderStep m i s)) = seqs s"
  "trace (snd (cancelOrderStep m i s)) = trace s @ [(''cancelOrder'', compensate)]"
  by (simp_all add: cancelOrderStep_def plain_defs)

lemma refund_payment [simp]:
  "saga_orders (snd (refundPaymentStep m i k s)) = saga_orders s"
  "items (snd (refundPaymentStep m i k s)) = items s"
  "reservations (snd (refundPaymentStep m i k s)) = reservations s"
  "payments (snd (refundPaymentStep m i k s)) = update_where (\<lambda>x. pay_id x = k) (\<lambda>x. x\<lparr>refunded := True\<rparr>) (payments s)"
  "shipments (snd (refundPaymentStep m i k s)) = shipments s"
  "seqs (snd (refundPaymentStep m i k s)) = seqs s"
  "trace (snd (refundPaymentStep m i k s)) = trace s @ [(''refundPayment'', compensate)]"
  by (simp_all add: refundPaymentStep_def plain_defs)

lemma release_inventory [simp]:
  "saga_orders (snd (releaseInventoryStep m i r s)) = saga_orders s"
  "items (snd (releaseInventoryStep m i r s)) = update_where (\<lambda>x. item_id x = rr_itemId r)
       (\<lambda>x. x\<lparr>available := available x + rr_quantity r\<rparr>) (items s)"
  "reservations (snd (releaseInventoryStep m i r s)) = update_where (\<lambda>x. res_id x = reservationId r) (\<lambda>x. x\<lparr>released := True\<rparr>) (reservations s)"
  "payments (snd (releaseInventoryStep m i r s)) = payments s"
  "shipments (snd (releaseInventoryStep m i r s)) = shipments s"
  "seqs (snd (releaseInventoryStep m i r s)) = seqs s"
  "trace (snd (releaseInventoryStep m i r s)) = trace s @ [(''releaseInventory'', compensate)]"
  by (simp_all add: releaseInventoryStep_def plain_defs)

section \<open>What a saga leaves behind\<close>

text \<open>The documented compensations per failed step, in the order they run.\<close>

definition compensations :: "StepName option \<Rightarrow> string list" where
  "compensations failed = (case failed of
       Some createShipment \<Rightarrow> [''refundPayment'', ''releaseInventory'', ''cancelOrder'']
     | Some capturePayment \<Rightarrow> [''releaseInventory'', ''cancelOrder'']
     | Some reserveInventory \<Rightarrow> [''cancelOrder'']
     | _ \<Rightarrow> [])"

definition compensated_in :: "saga_db \<Rightarrow> saga_db \<Rightarrow> string list" where
  "compensated_in s s' = map fst (filter (\<lambda>(_, d). d = compensate) (drop (length (trace s)) (trace s')))"

lemma compensated_in_trace:
  "trace s' = trace s @ tr \<Longrightarrow> compensated_in s s' = map fst (filter (\<lambda>(_, d). d = compensate) tr)"
  by (simp add: compensated_in_def)

definition saga_effect :: "nat \<Rightarrow> OrderSagaInput \<Rightarrow> SagaResult \<Rightarrow> saga_db \<Rightarrow> saga_db \<Rightarrow> bool" where
  "saga_effect uuid input r s s' \<longleftrightarrow>
     (let new = \<lparr>so_id = order_seq (seqs s), so_publicId = uuid, so_customerName = customerName input,
                 so_amountCents = amountCents input, so_status = OPending\<rparr>
      in case sr_outcome r of
        aborted \<Rightarrow> tables_kept s s' \<and> sr_orderId r = None
      | compensated \<Rightarrow>
          sr_orderId r = Some (so_id new) \<and> saga_orders s' = saga_orders s @ [new\<lparr>so_status := OCancelled\<rparr>]
          \<and> items s' = items s \<and> shipments s' = shipments s
          \<and> (\<exists>rs. reservations s' = reservations s @ rs \<and> (\<forall>x \<in> set rs. released x))
          \<and> (\<exists>ps. payments s' = payments s @ ps \<and> (\<forall>x \<in> set ps. refunded x))
      | completed \<Rightarrow>
          sr_orderId r = Some (so_id new) \<and> saga_orders s' = saga_orders s @ [new\<lparr>so_status := OCompleted\<rparr>]
          \<and> (\<exists>it \<in> set (items s). sku it = itemSku input \<and> 0 < quantity input \<and> quantity input \<le> available it
               \<and> items s' = update_where (\<lambda>x. item_id x = item_id it)
                   (\<lambda>x. x\<lparr>available := available x - quantity input\<rparr>) (items s)
               \<and> (\<exists>k. reservations s' = reservations s @ [\<lparr>res_id = k, res_orderId = so_id new,
                     res_itemId = item_id it, res_quantity = quantity input, released = False\<rparr>]))
          \<and> (\<exists>k. payments s' = payments s @ [\<lparr>pay_id = k, pay_orderId = so_id new,
                pay_amountCents = amountCents input, refunded = False\<rparr>])
          \<and> (\<exists>k. shipments s' = shipments s @ [\<lparr>ship_id = k, ship_orderId = so_id new\<rparr>]))"

lemmas orch_defs = cancelOrder_def releaseInventory_def refundPayment_def

lemma saga_cases:
  assumes "runOrderSaga uuid input f s = (r, s')"
  obtains (Aborted) why where "createOrderStep uuid orchestration input (f = Some createOrder) s = (Inl why, s')"
      "sr_outcome r = aborted" "sr_orderId r = None" "failedStep r = Some createOrder"
  | (NotReserved) order s1 why s2 where
      "createOrderStep uuid orchestration input (f = Some createOrder) s = (Inr order, s1)"
      "reserveInventoryStep orchestration order (itemSku input) (quantity input) (f = Some reserveInventory) s1 = (Inl why, s2)"
      "s' = snd (cancelOrderStep orchestration (ref_id order) s2)" "r = gave_up order reserveInventory why"
  | (NotCaptured) order s1 rsv s2 why s3 where
      "createOrderStep uuid orchestration input (f = Some createOrder) s = (Inr order, s1)"
      "reserveInventoryStep orchestration order (itemSku input) (quantity input) (f = Some reserveInventory) s1 = (Inr rsv, s2)"
      "capturePaymentStep orchestration order (amountCents input) (f = Some capturePayment) s2 = (Inl why, s3)"
      "s' = snd (cancelOrderStep orchestration (ref_id order) (snd (releaseInventoryStep orchestration (ref_id order) rsv s3)))"
      "r = gave_up order capturePayment why"
  | (NotShipped) order s1 rsv s2 p s3 why s4 where
      "createOrderStep uuid orchestration input (f = Some createOrder) s = (Inr order, s1)"
      "reserveInventoryStep orchestration order (itemSku input) (quantity input) (f = Some reserveInventory) s1 = (Inr rsv, s2)"
      "capturePaymentStep orchestration order (amountCents input) (f = Some capturePayment) s2 = (Inr p, s3)"
      "createShipmentStep orchestration order (f = Some createShipment) s3 = (Inl why, s4)"
      "s' = snd (cancelOrderStep orchestration (ref_id order) (snd (releaseInventoryStep orchestration (ref_id order) rsv
         (snd (refundPaymentStep orchestration (ref_id order) p s4)))))"
      "r = gave_up order createShipment why"
  | (Done) order s1 rsv s2 p s3 k s4 where
      "createOrderStep uuid orchestration input (f = Some createOrder) s = (Inr order, s1)"
      "reserveInventoryStep orchestration order (itemSku input) (quantity input) (f = Some reserveInventory) s1 = (Inr rsv, s2)"
      "capturePaymentStep orchestration order (amountCents input) (f = Some capturePayment) s2 = (Inr p, s3)"
      "createShipmentStep orchestration order (f = Some createShipment) s3 = (Inr k, s4)"
      "s' = snd (completeOrderStep orchestration (ref_id order) s4)"
      "r = \<lparr>sr_outcome = completed, sr_orderId = Some (ref_id order), sr_publicId = Some (ref_publicId order),
            failedStep = None, sr_reason = None\<rparr>"
  using assms
  by (auto simp: runOrderSaga_def orch_defs Let_def split: prod.splits sum.splits)

lemma saga_effect_aborted:
  assumes "createOrderStep uuid orchestration input f s = (Inl why, s')" and "sr_outcome r = aborted"
    and "sr_orderId r = None" and "failedStep r = Some createOrder"
  shows "saga_effect uuid input r s s' \<and> compensated_in s s' = compensations (failedStep r)"
proof -
  have "compensated_in s s' = []" using createOrder_err(3) [OF assms(1)] by (simp add: compensated_in_trace)
  then show ?thesis using createOrder_err(2) [OF assms(1)] assms(2-)
    by (simp add: saga_effect_def compensations_def Let_def)
qed

lemma saga_effect_not_reserved:
  assumes fresh: "fresh_ids s"
    and c: "createOrderStep uuid orchestration input f s = (Inr order, s1)"
    and v: "reserveInventoryStep orchestration order item qty g s1 = (Inl why, s2)"
  defines "s' \<equiv> snd (cancelOrderStep orchestration (ref_id order) s2)" and "r \<equiv> gave_up order reserveInventory why"
  shows "saga_effect uuid input r s s' \<and> compensated_in s s' = compensations (failedStep r)"
proof -
  note c = createOrder_ok [OF c] and v = reserve_err [OF v]
  have "trace s' = trace s @ [(''createOrder'', forward), (''reserveInventory'', forward), (''cancelOrder'', compensate)]"
    by (simp add: s'_def v c)
  then have "compensated_in s s' = [''cancelOrder'']" by (simp add: compensated_in_trace)
  moreover have "saga_effect uuid input r s s'"
    using v(1) c(2-4) fresh
    by (simp add: saga_effect_def r_def s'_def gave_up_def tables_kept_def update_fresh fresh_ids_def)
  ultimately show ?thesis by (simp add: r_def gave_up_def compensations_def)
qed

lemma saga_effect_not_captured:
  assumes fresh: "fresh_ids s"
    and c: "createOrderStep uuid orchestration input f s = (Inr order, s1)"
    and v: "reserveInventoryStep orchestration order item qty g s1 = (Inr rsv, s2)"
    and p: "capturePaymentStep orchestration order amount h s2 = (Inl why, s3)"
  defines "s' \<equiv> snd (cancelOrderStep orchestration (ref_id order)
      (snd (releaseInventoryStep orchestration (ref_id order) rsv s3)))"
    and "r \<equiv> gave_up order capturePayment why"
  shows "saga_effect uuid input r s s' \<and> compensated_in s s' = compensations (failedStep r)"
proof -
  note c = createOrder_ok [OF c] and p = capture_err [OF p]
  obtain it where v: "reserved order item qty s1 it rsv s2" using v by (rule reserve_ok)
  have "trace s' = trace s @ [(''createOrder'', forward), (''reserveInventory'', forward),
      (''capturePayment'', forward), (''releaseInventory'', compensate), (''cancelOrder'', compensate)]"
    by (simp add: s'_def p v [unfolded reserved_def] c)
  then have "compensated_in s s' = [''releaseInventory'', ''cancelOrder'']" by (simp add: compensated_in_trace)
  moreover have "saga_effect uuid input r s s'"
    using p(1) v [unfolded reserved_def] c(2-5) fresh
    by (simp add: saga_effect_def r_def s'_def gave_up_def tables_kept_def update_fresh fresh_ids_def stock_restored)
  ultimately show ?thesis by (simp add: r_def gave_up_def compensations_def)
qed

lemma saga_effect_not_shipped:
  assumes fresh: "fresh_ids s"
    and c: "createOrderStep uuid orchestration input f s = (Inr order, s1)"
    and v: "reserveInventoryStep orchestration order item qty g s1 = (Inr rsv, s2)"
    and p: "capturePaymentStep orchestration order amount h s2 = (Inr k, s3)"
    and q: "createShipmentStep orchestration order j s3 = (Inl why, s4)"
  defines "s' \<equiv> snd (cancelOrderStep orchestration (ref_id order)
      (snd (releaseInventoryStep orchestration (ref_id order) rsv
        (snd (refundPaymentStep orchestration (ref_id order) k s4)))))"
    and "r \<equiv> gave_up order createShipment why"
  shows "saga_effect uuid input r s s' \<and> compensated_in s s' = compensations (failedStep r)"
proof -
  note c = createOrder_ok [OF c] and p = capture_ok [OF p] and q = shipment_err [OF q]
  obtain it where v: "reserved order item qty s1 it rsv s2" using v by (rule reserve_ok)
  have "trace s' = trace s @ [(''createOrder'', forward), (''reserveInventory'', forward),
      (''capturePayment'', forward), (''createShipment'', forward), (''refundPayment'', compensate),
      (''releaseInventory'', compensate), (''cancelOrder'', compensate)]"
    by (simp add: s'_def q p v [unfolded reserved_def] c)
  then have "compensated_in s s' = [''refundPayment'', ''releaseInventory'', ''cancelOrder'']"
    by (simp add: compensated_in_trace)
  moreover have "saga_effect uuid input r s s'"
    using q(1) p v [unfolded reserved_def] c(2-5) fresh
    by (simp add: saga_effect_def r_def s'_def gave_up_def tables_kept_def update_fresh fresh_ids_def stock_restored)
  ultimately show ?thesis by (simp add: r_def gave_up_def compensations_def)
qed

lemma saga_effect_done:
  assumes fresh: "fresh_ids s"
    and c: "createOrderStep uuid orchestration input f s = (Inr order, s1)"
    and v: "reserveInventoryStep orchestration order (itemSku input) (quantity input) g s1 = (Inr rsv, s2)"
    and p: "capturePaymentStep orchestration order (amountCents input) h s2 = (Inr k, s3)"
    and q: "createShipmentStep orchestration order j s3 = (Inr l, s4)"
  defines "s' \<equiv> snd (completeOrderStep orchestration (ref_id order) s4)"
    and "r \<equiv> \<lparr>sr_outcome = completed, sr_orderId = Some (ref_id order), sr_publicId = Some (ref_publicId order),
            failedStep = None, sr_reason = None\<rparr>"
  shows "saga_effect uuid input r s s' \<and> compensated_in s s' = compensations (failedStep r)"
proof -
  note c = createOrder_ok [OF c] and p = capture_ok [OF p] and q = shipment_ok [OF q]
  obtain it where v: "reserved order (itemSku input) (quantity input) s1 it rsv s2" using v by (rule reserve_ok)
  have "trace s' = trace s @ [(''createOrder'', forward), (''reserveInventory'', forward),
      (''capturePayment'', forward), (''createShipment'', forward), (''completeOrder'', forward)]"
    by (simp add: s'_def q p v [unfolded reserved_def] c)
  then have "compensated_in s s' = []" by (simp add: compensated_in_trace)
  moreover have "it \<in> set (items s)" "sku it = itemSku input" using row_with_Some [of _ "items s1" it] v c(4) by (auto simp: reserved_def)
  then have "saga_effect uuid input r s s'"
    using q p v [unfolded reserved_def] c(2-5) fresh
    by (auto simp: saga_effect_def r_def s'_def Let_def update_fresh fresh_ids_def intro!: bexI [of _ it])
  ultimately show ?thesis by (simp add: r_def compensations_def)
qed

lemma saga_effects:
  assumes "fresh_ids s" and "runOrderSaga uuid input f s = (r, s')"
  shows "saga_effect uuid input r s s' \<and> compensated_in s s' = compensations (failedStep r)"
  using assms(2)
proof (cases rule: saga_cases)
  case (Aborted why)
  then show ?thesis using saga_effect_aborted by blast
next
  case (NotReserved order s1 why s2)
  then show ?thesis using saga_effect_not_reserved [OF assms(1) NotReserved(1,2)] by simp
next
  case (NotCaptured order s1 rsv s2 why s3)
  then show ?thesis using saga_effect_not_captured [OF assms(1) NotCaptured(1-3)] by simp
next
  case (NotShipped order s1 rsv s2 p s3 why s4)
  then show ?thesis using saga_effect_not_shipped [OF assms(1) NotShipped(1-4)] by simp
next
  case (Done order s1 rsv s2 p s3 k s4)
  then show ?thesis using saga_effect_done [OF assms(1) Done(1-4)] by simp
qed

text \<open>
  C18: an orchestrated saga ends in one of three ways, each leaving exactly the documented state: aborted
  and nothing written, completed with the stock taken, the payment captured and one shipment, or
  compensated with the order cancelled, the stock as before, every reservation released and every
  payment refunded; the compensations run are those of the failed step, in reverse order of the steps.
  A forced failure never completes, and an order in stock without one always does.
\<close>

theorem saga_outcome:
  assumes "fresh_ids s" and "runOrderSaga uuid input f s = (r, s')"
  shows "saga_effect uuid input r s s' \<and> compensated_in s s' = compensations (failedStep r)
       \<and> (f \<noteq> None \<longrightarrow> sr_outcome r \<noteq> completed)
       \<and> (f = None \<and> 0 < amountCents input \<and> 0 < quantity input
            \<and> (\<exists>x \<in> set (items s). sku x = itemSku input \<and> quantity input \<le> available x)
          \<longrightarrow> sr_outcome r = completed)"
proof -
  note e = saga_effects [OF assms]
  have dist: "x = y" if "x \<in> set (items s)" "y \<in> set (items s)" "sku x = sku y" for x y
    using assms(1) that by (auto simp: fresh_ids_def intro: distinct_map_unique)
  have "(f \<noteq> None \<longrightarrow> sr_outcome r \<noteq> completed)
      \<and> (f = None \<and> 0 < amountCents input \<and> 0 < quantity input
           \<and> (\<exists>x \<in> set (items s). sku x = itemSku input \<and> quantity input \<le> available x)
         \<longrightarrow> sr_outcome r = completed)"
    using assms(2)
  proof (cases rule: saga_cases)
    case (Aborted why)
    then show ?thesis using createOrder_err(1) [OF Aborted(1)] by auto
  next
    case (NotReserved order s1 why s2)
    then show ?thesis
      using reserve_err(4) [OF NotReserved(2)] createOrder_ok(4) [OF NotReserved(1)] dist
      by (fastforce simp: gave_up_def)
  next
    case (NotCaptured order s1 rsv s2 why s3)
    then show ?thesis using capture_err(3) [OF NotCaptured(3)] by (auto simp: gave_up_def)
  next
    case (NotShipped order s1 rsv s2 p s3 why s4)
    then show ?thesis using shipment_err(3) [OF NotShipped(4)] by (auto simp: gave_up_def)
  next
    case (Done order s1 rsv s2 p s3 k s4)
    have "f = None"
      using createOrder_ok(7) [OF Done(1)] capture_ok(3) [OF Done(3)] shipment_ok(2) [OF Done(4)] reserve_ok [OF Done(2)]
      by (cases f; cases "the f") auto
    then show ?thesis using Done(6) by simp
  qed
  with e show ?thesis by blast
qed

definition small_shop :: saga_db where
  "small_shop = \<lparr>saga_orders = [], items = [\<lparr>item_id = 1, sku = ''A'', available = 5\<rparr>],
     reservations = [], payments = [], shipments = [], saga_log = [],
     seqs = \<lparr>order_seq = 1, res_seq = 1, pay_seq = 1, ship_seq = 1\<rparr>\<rparr>"

definition two_of_A :: OrderSagaInput where
  "two_of_A = \<lparr>customerName = ''c'', amountCents = 100, itemSku = ''A'', quantity = 2\<rparr>"

lemma fresh_small_shop: "fresh_ids small_shop"
  by (simp add: fresh_ids_def small_shop_def)

lemma saga_outcome_witness:
  "sr_outcome (fst (runOrderSaga 7 two_of_A None small_shop)) = completed
   \<and> items (snd (runOrderSaga 7 two_of_A (Some createShipment) small_shop)) = items small_shop
   \<and> compensated_in small_shop (snd (runOrderSaga 7 two_of_A (Some createShipment) small_shop))
       = compensations (failedStep (fst (runOrderSaga 7 two_of_A (Some createShipment) small_shop)))"
proof -
  let ?run = "runOrderSaga 7 two_of_A (Some createShipment) small_shop"
  have o: "saga_effect 7 two_of_A (fst ?run) small_shop (snd ?run)
      \<and> compensated_in small_shop (snd ?run) = compensations (failedStep (fst ?run)) \<and> sr_outcome (fst ?run) \<noteq> completed"
    using saga_outcome [OF fresh_small_shop surjective_pairing] by blast
  then have "items (snd ?run) = items small_shop"
    by (cases "sr_outcome (fst ?run)") (auto simp: saga_effect_def tables_kept_def Let_def)
  moreover have "sr_outcome (fst (runOrderSaga 7 two_of_A None small_shop)) = completed"
    using saga_outcome [OF fresh_small_shop surjective_pairing, of 7 two_of_A None]
    by (simp add: two_of_A_def small_shop_def)
  ultimately show ?thesis using o by blast
qed

section \<open>Stock over many sagas\<close>

definition stock :: "nat \<Rightarrow> saga_db \<Rightarrow> int" where
  "stock k s = (\<Sum>x\<leftarrow>items s. if item_id x = k then available x else 0)
     + (\<Sum>r\<leftarrow>reservations s. if res_itemId r = k \<and> \<not> released r then res_quantity r else 0)"

lemma sum_taken:
  fixes q :: int
  assumes "distinct (map item_id xs)" and "it \<in> set xs"
  shows "(\<Sum>x\<leftarrow>update_where (\<lambda>x. item_id x = item_id it) (\<lambda>x. x\<lparr>available := available x - q\<rparr>) xs.
            if item_id x = k then available x else 0)
       = (\<Sum>x\<leftarrow>xs. if item_id x = k then available x else 0) - (if item_id it = k then q else 0)"
  using assms
proof (induction xs)
  case (Cons y ys)
  show ?case
  proof (cases "y = it")
    case True
    then have "update_where (\<lambda>x. item_id x = item_id it) (\<lambda>x. x\<lparr>available := available x - q\<rparr>) ys = ys"
      using Cons.prems by (intro update_where_none) (auto simp: rev_image_eqI)
    then show ?thesis using True by (simp add: update_where_def)
  next
    case False
    then have "it \<in> set ys" "item_id y \<noteq> item_id it" using Cons.prems by (auto simp: rev_image_eqI)
    with Cons show ?thesis by (simp add: update_where_def)
  qed
qed simp

lemma released_nothing:
  "\<forall>x \<in> set rs. released x \<Longrightarrow> (\<Sum>r\<leftarrow>rs. if res_itemId r = k \<and> \<not> released r then res_quantity r else 0) = (0::int)"
  by (induction rs) auto

lemma update_item_ids [simp]:
  "map item_id (update_where P (\<lambda>x. x\<lparr>available := g x\<rparr>) xs) = map item_id (xs :: inventory_item list)"
  "map sku (update_where P (\<lambda>x. x\<lparr>available := g x\<rparr>) xs) = map sku xs"
  by (simp_all add: map_update_where)

lemma ball_ids_update [simp]:
  "(\<forall>x \<in> set (update_where P (\<lambda>x. x\<lparr>so_status := st\<rparr>) xs). so_id x < n) = (\<forall>x \<in> set xs. so_id x < n)"
  "(\<forall>x \<in> set (update_where R (\<lambda>x. x\<lparr>refunded := rf\<rparr>) ys). pay_id x < n) = (\<forall>x \<in> set ys. pay_id x < n)"
  "(\<forall>x \<in> set (update_where S (\<lambda>x. x\<lparr>released := b\<rparr>) zs). res_id x < n) = (\<forall>x \<in> set zs. res_id x < n)"
  by (simp_all add: ball_update_where)

lemma fresh_plain_steps [simp]:
  "fresh_ids (snd (completeOrderStep m i s)) = fresh_ids s"
  "fresh_ids (snd (cancelOrderStep m i s)) = fresh_ids s"
  "fresh_ids (snd (refundPaymentStep m i k s)) = fresh_ids s"
  "fresh_ids (snd (releaseInventoryStep m i r s)) = fresh_ids s"
  by (simp_all add: fresh_ids_def del: set_map)

lemma fresh_kept: "fresh_ids s \<Longrightarrow> tables_kept s s' \<Longrightarrow> order_seq (seqs s) \<le> order_seq (seqs s')
    \<Longrightarrow> res_seq (seqs s) \<le> res_seq (seqs s') \<Longrightarrow> pay_seq (seqs s) \<le> pay_seq (seqs s') \<Longrightarrow> fresh_ids s'"
  by (auto simp: fresh_ids_def tables_kept_def)

lemma fresh_either:
  "(\<And>why s1. x = (Inl why, s1) \<Longrightarrow> fresh_ids s1) \<Longrightarrow> (\<And>r s1. x = (Inr r, s1) \<Longrightarrow> fresh_ids s1) \<Longrightarrow>
   fresh_ids (snd x)"
  by (cases x; cases "fst x") auto

lemma fresh_forward_steps:
  assumes "fresh_ids s"
  shows "fresh_ids (snd (createOrderStep u m input f s))"
    and "fresh_ids (snd (reserveInventoryStep m order item qty f s))"
    and "fresh_ids (snd (capturePaymentStep m order amount f s))"
    and "fresh_ids (snd (createShipmentStep m order f s))"
proof -
  show "fresh_ids (snd (createOrderStep u m input f s))"
  proof (rule fresh_either)
    fix why s1 assume "createOrderStep u m input f s = (Inl why, s1)"
    from createOrder_err [OF this] show "fresh_ids s1" by (intro fresh_kept [OF assms]) auto
  next
    fix r s1 assume "createOrderStep u m input f s = (Inr r, s1)"
    from createOrder_ok [OF this] show "fresh_ids s1" using assms by (auto simp: fresh_ids_def dest: less_SucI)
  qed
  show "fresh_ids (snd (reserveInventoryStep m order item qty f s))"
  proof (rule fresh_either)
    fix why s1 assume "reserveInventoryStep m order item qty f s = (Inl why, s1)"
    from reserve_err [OF this] show "fresh_ids s1" by (intro fresh_kept [OF assms]) auto
  next
    fix r s1 assume "reserveInventoryStep m order item qty f s = (Inr r, s1)"
    then obtain it where "reserved order item qty s it r s1" by (rule reserve_ok)
    then show "fresh_ids s1" using assms by (auto simp: fresh_ids_def reserved_def less_Suc_eq simp del: set_map)
  qed
  show "fresh_ids (snd (capturePaymentStep m order amount f s))"
  proof (rule fresh_either)
    fix why s1 assume "capturePaymentStep m order amount f s = (Inl why, s1)"
    from capture_err [OF this] show "fresh_ids s1" by (intro fresh_kept [OF assms]) auto
  next
    fix r s1 assume "capturePaymentStep m order amount f s = (Inr r, s1)"
    from capture_ok [OF this] show "fresh_ids s1" using assms by (auto simp: fresh_ids_def less_Suc_eq)
  qed
  show "fresh_ids (snd (createShipmentStep m order f s))"
  proof (rule fresh_either)
    fix why s1 assume "createShipmentStep m order f s = (Inl why, s1)"
    from shipment_err [OF this] show "fresh_ids s1" by (intro fresh_kept [OF assms]) auto
  next
    fix r s1 assume "createShipmentStep m order f s = (Inr r, s1)"
    from shipment_ok [OF this] show "fresh_ids s1" using assms by (auto simp: fresh_ids_def)
  qed
qed

lemma fresh_saga:
  assumes "fresh_ids s" and "runOrderSaga uuid input f s = (r, s')"
  shows "fresh_ids s'"
proof -
  note fwd = fresh_forward_steps(1) [OF assms(1), of uuid orchestration input "f = Some createOrder"]
  show ?thesis
    using assms(2)
  proof (cases rule: saga_cases)
    case (Aborted why)
    then show ?thesis using fwd by simp
  next
    case (NotReserved order s1 why s2)
    with fwd have "fresh_ids s1" by simp
    then have "fresh_ids s2" using fresh_forward_steps(2) [of s1 orchestration order "itemSku input" "quantity input" "f = Some reserveInventory"] NotReserved(2) by simp
    then show ?thesis using NotReserved(3) by simp
  next
    case (NotCaptured order s1 rsv s2 why s3)
    with fwd have "fresh_ids s1" by simp
    then have "fresh_ids s2" using fresh_forward_steps(2) [of s1 orchestration order "itemSku input" "quantity input" "f = Some reserveInventory"] NotCaptured(2) by simp
    then have "fresh_ids s3" using fresh_forward_steps(3) [of s2 orchestration order "amountCents input" "f = Some capturePayment"] NotCaptured(3) by simp
    then show ?thesis using NotCaptured(4) by simp
  next
    case (NotShipped order s1 rsv s2 p s3 why s4)
    with fwd have "fresh_ids s1" by simp
    then have "fresh_ids s2" using fresh_forward_steps(2) [of s1 orchestration order "itemSku input" "quantity input" "f = Some reserveInventory"] NotShipped(2) by simp
    then have "fresh_ids s3" using fresh_forward_steps(3) [of s2 orchestration order "amountCents input" "f = Some capturePayment"] NotShipped(3) by simp
    then have "fresh_ids s4" using fresh_forward_steps(4) [of s3 orchestration order "f = Some createShipment"] NotShipped(4) by simp
    then show ?thesis using NotShipped(5) by simp
  next
    case (Done order s1 rsv s2 p s3 k s4)
    with fwd have "fresh_ids s1" by simp
    then have "fresh_ids s2" using fresh_forward_steps(2) [of s1 orchestration order "itemSku input" "quantity input" "f = Some reserveInventory"] Done(2) by simp
    then have "fresh_ids s3" using fresh_forward_steps(3) [of s2 orchestration order "amountCents input" "f = Some capturePayment"] Done(3) by simp
    then have "fresh_ids s4" using fresh_forward_steps(4) [of s3 orchestration order "f = Some createShipment"] Done(4) by simp
    then show ?thesis using Done(5) by simp
  qed
qed

definition ledger_ok :: "saga_db \<Rightarrow> bool" where
  "ledger_ok s \<longleftrightarrow> fresh_ids s \<and> (\<forall>x \<in> set (items s). 0 \<le> available x)
     \<and> (\<forall>q \<in> set (saga_orders s). so_status q \<noteq> OPending)"

lemma saga_effect_completed:
  assumes "saga_effect uuid input r s s'" and "sr_outcome r = completed"
  obtains it k q where "it \<in> set (items s)" "0 < quantity input" "quantity input \<le> available it"
    "items s' = update_where (\<lambda>x. item_id x = item_id it) (\<lambda>x. x\<lparr>available := available x - quantity input\<rparr>) (items s)"
    "reservations s' = reservations s @ [\<lparr>res_id = k, res_orderId = order_seq (seqs s),
       res_itemId = item_id it, res_quantity = quantity input, released = False\<rparr>]"
    "saga_orders s' = saga_orders s @ [q]" "so_status q = OCompleted"
  using assms unfolding saga_effect_def Let_def by (simp, elim conjE bexE exE) simp

lemma saga_effect_compensated:
  assumes "saga_effect uuid input r s s'" and "sr_outcome r = compensated"
  obtains rs q where "items s' = items s" "reservations s' = reservations s @ rs" "\<forall>x \<in> set rs. released x"
    "saga_orders s' = saga_orders s @ [q]" "so_status q = OCancelled"
  using assms unfolding saga_effect_def Let_def by (simp, elim conjE exE) simp

lemma saga_effect_ledger:
  assumes "ledger_ok s" and "saga_effect uuid input r s s'" and "fresh_ids s'"
  shows "ledger_ok s' \<and> stock k s' = stock k s"
proof (cases "sr_outcome r")
  case completed
  obtain it j q where it: "it \<in> set (items s)" "0 < quantity input" "quantity input \<le> available it"
    "items s' = update_where (\<lambda>x. item_id x = item_id it) (\<lambda>x. x\<lparr>available := available x - quantity input\<rparr>) (items s)"
    "reservations s' = reservations s @ [\<lparr>res_id = j, res_orderId = order_seq (seqs s),
       res_itemId = item_id it, res_quantity = quantity input, released = False\<rparr>]"
    and q: "saga_orders s' = saga_orders s @ [q]" "so_status q = OCompleted"
    using assms(2) completed by (rule saga_effect_completed)
  have dist: "distinct (map item_id (items s))" using assms(1) by (simp add: ledger_ok_def fresh_ids_def)
  have "item_id x = item_id it \<Longrightarrow> x = it" if "x \<in> set (items s)" for x
    using distinct_map_unique [OF dist that it(1)] by blast
  then have "\<forall>x \<in> set (items s'). 0 \<le> available x"
    using assms(1) it(3) by (auto simp: it(4) ball_update_where ledger_ok_def)
  then have "ledger_ok s'" using assms(1,3) q by (simp add: ledger_ok_def)
  moreover have "stock k s' = stock k s" using sum_taken [OF dist it(1)] by (simp add: stock_def it(4,5))
  ultimately show ?thesis by blast
next
  case compensated
  obtain rs q where "items s' = items s" "reservations s' = reservations s @ rs" "\<forall>x \<in> set rs. released x"
    "saga_orders s' = saga_orders s @ [q]" "so_status q = OCancelled"
    using assms(2) compensated by (rule saga_effect_compensated)
  with assms(1,3) show ?thesis by (simp add: ledger_ok_def stock_def released_nothing)
next
  case aborted
  with assms show ?thesis by (simp add: saga_effect_def ledger_ok_def stock_def tables_kept_def)
qed

fun run_sagas :: "(nat \<times> OrderSagaInput \<times> StepName option) list \<Rightarrow> saga_db \<Rightarrow> SagaResult list \<times> saga_db" where
  "run_sagas [] s = ([], s)"
| "run_sagas ((uuid, input, f) # rest) s =
     (let (r, s1) = runOrderSaga uuid input f s; (rs, s2) = run_sagas rest s1 in (r # rs, s2))"

text \<open>
  C19: however many sagas run, succeeding or failing at any step, stock is conserved: for every item what
  is available plus what is reserved and not released stays what it was, no quantity goes negative,
  and no order is left pending.
\<close>

theorem sagas_conserve_stock:
  assumes "ledger_ok s" and "run_sagas reqs s = (rs, s')"
  shows "stock k s' = stock k s \<and> (\<forall>x \<in> set (items s'). 0 \<le> available x)
       \<and> (\<forall>q \<in> set (saga_orders s'). so_status q \<noteq> OPending)"
proof -
  have "ledger_ok s' \<and> stock k s' = stock k s"
    using assms
  proof (induction reqs s arbitrary: rs rule: run_sagas.induct)
    case (2 uuid input f rest s)
    obtain r s1 where r: "runOrderSaga uuid input f s = (r, s1)" by (cases "runOrderSaga uuid input f s")
    have "fresh_ids s" using 2(2) by (simp add: ledger_ok_def)
    from saga_effect_ledger [OF 2(2) _ fresh_saga [OF this r]] saga_effects [OF this r]
    have "ledger_ok s1 \<and> stock k s1 = stock k s" by blast
    with 2 r show ?case by (auto split: prod.splits)
  qed simp
  then show ?thesis by (simp add: ledger_ok_def)
qed

lemma sagas_conserve_stock_witness:
  "stock 1 (snd (run_sagas [(7, two_of_A, Some createShipment), (8, two_of_A, None)] small_shop)) = 5"
proof -
  have "ledger_ok small_shop" using fresh_small_shop by (simp add: ledger_ok_def small_shop_def)
  from sagas_conserve_stock [OF this surjective_pairing]
  have "stock 1 (snd (run_sagas [(7, two_of_A, Some createShipment), (8, two_of_A, None)] small_shop))
      = stock 1 small_shop" by blast
  also have "\<dots> = 5" by (simp add: small_shop_def stock_def)
  finally show ?thesis .
qed

end
