(* ===== verification/Saga_Choreography.thy ===== *)
theory Saga_Choreography
  imports Saga_Correct
begin

text \<open>
  The choreographed saga of Lab 20 agrees with the orchestrated one: the cascade of events ends, no
  handler throws, and every table but the log is left as \<open>runOrderSaga\<close> leaves it.
\<close>

section \<open>The bus after registration\<close>

abbreviation "bus f \<equiv> registerHandlers f empty_bus"

lemmas bus_defs = registerHandlers_def on_def empty_bus_def

lemma bus_subscribers [simp]:
  "bus f ''OrderCreated'' = [\<lparr>consumerName = ''inventory-service'', sub_direction = forward, handler = on_OrderCreated f\<rparr>]"
  "bus f ''InventoryReserved'' = [\<lparr>consumerName = ''payment-service'', sub_direction = forward, handler = on_InventoryReserved f\<rparr>]"
  "bus f ''PaymentCaptured'' = [\<lparr>consumerName = ''shipment-service'', sub_direction = forward, handler = on_PaymentCaptured f\<rparr>]"
  "bus f ''ShipmentCreated'' = [\<lparr>consumerName = ''order-service'', sub_direction = forward, handler = on_ShipmentCreated\<rparr>]"
  "bus f ''InventoryReservationFailed'' = [\<lparr>consumerName = ''order-service'', sub_direction = compensate, handler = on_cancel\<rparr>]"
  "bus f ''PaymentFailed'' = [\<lparr>consumerName = ''inventory-service'', sub_direction = compensate, handler = on_release\<rparr>]"
  "bus f ''ShipmentFailed'' = [\<lparr>consumerName = ''payment-service'', sub_direction = compensate, handler = on_ShipmentFailed\<rparr>]"
  "bus f ''PaymentRefunded'' = [\<lparr>consumerName = ''inventory-service'', sub_direction = compensate, handler = on_release\<rparr>]"
  "bus f ''InventoryReleased'' = [\<lparr>consumerName = ''order-service'', sub_direction = compensate, handler = on_cancel\<rparr>]"
  "bus f ''OrderCancelled'' = []"
  by (simp_all add: bus_defs)

text \<open>An event with one subscriber: its handler runs, and whatever it publishes runs after it.\<close>

lemma publish_none: "b (event_name e) = [] \<Longrightarrow>
   publish b \<lparr>pub_event = e, publishedBy = who, pub_direction = d\<rparr> s
     = Some (Inr (), log_published \<lparr>pub_event = e, publishedBy = who, pub_direction = d\<rparr> s)"
  by (simp add: publish_def deliver.simps)

lemma publish_one:
  fixes e :: saga_event and who d
  defines "p \<equiv> \<lparr>pub_event = e, publishedBy = who, pub_direction = d\<rparr>"
  assumes "b (event_name e) = [\<lparr>consumerName = c, sub_direction = k, handler = h\<rparr>]"
    and "h e (log_consumed \<lparr>consumerName = c, sub_direction = k, handler = h\<rparr> e (log_published p s)) = (res, s1)"
  shows "publish b p s = (case res of
       Inl err \<Rightarrow> Some (Inl err, s1)
     | Inr None \<Rightarrow> Some (Inr (), s1)
     | Inr (Some q) \<Rightarrow> publish b q s1)"
  using assms(2,3)
  by (auto simp: publish_def p_def deliver.simps [of b e "[x]" for x] deliver.simps [of b e "[]"]
      split: sum.splits option.splits Option.bind_splits)

section \<open>One lemma per event, last hops first\<close>

definition ends_like :: "((string + unit) \<times> saga_db) option \<Rightarrow> saga_db \<Rightarrow> bool" where
  "ends_like run t \<longleftrightarrow> (\<exists>s'. run = Some (Inr (), s') \<and> same s' t)"

lemma agree_snd: "agree x y \<Longrightarrow> same (snd x) (snd y)"
  by (simp add: agree_def)

lemma publish_react:
  assumes "b (event_name e) = [\<lparr>consumerName = c, sub_direction = k, handler = h\<rparr>]"
    and "\<And>s1. same s1 s \<Longrightarrow> \<exists>s2 e' who' d'. h e s1 = (Inr (Some \<lparr>pub_event = e', publishedBy = who', pub_direction = d'\<rparr>), s2)
           \<and> ends_like (publish b \<lparr>pub_event = e', publishedBy = who', pub_direction = d'\<rparr> s2) t"
  shows "ends_like (publish b \<lparr>pub_event = e, publishedBy = who, pub_direction = d\<rparr> s) t"
proof -
  let ?p = "\<lparr>pub_event = e, publishedBy = who, pub_direction = d\<rparr>"
  let ?s1 = "log_consumed \<lparr>consumerName = c, sub_direction = k, handler = h\<rparr> e (log_published ?p s)"
  obtain s2 e' who' d' where h: "h e ?s1 = (Inr (Some \<lparr>pub_event = e', publishedBy = who', pub_direction = d'\<rparr>), s2)"
    "ends_like (publish b \<lparr>pub_event = e', publishedBy = who', pub_direction = d'\<rparr> s2) t"
    using assms(2) [of ?s1] by auto
  show ?thesis using publish_one [where b = b and h = h and e = e and who = who and d = d and s = s, OF assms(1)] h by simp
qed

lemma hop_cancelled: "same s t \<Longrightarrow>
    ends_like (publish (bus f) \<lparr>pub_event = OrderCancelled i, publishedBy = who, pub_direction = d\<rparr> s) t"
  by (simp add: publish_none ends_like_def)

lemma hop_cancel:
  assumes "bus f (event_name e) = [\<lparr>consumerName = c, sub_direction = k, handler = on_cancel\<rparr>]"
    and "same s t" and "ev_orderId e = i"
  shows "ends_like (publish (bus f) \<lparr>pub_event = e, publishedBy = who, pub_direction = d\<rparr> s)
    (snd (cancelOrderStep orchestration i t))"
proof (rule publish_react [where b = "bus f" and h = on_cancel and e = e, OF assms(1)])
  fix s1 assume "same s1 s"
  with assms(2) have "same s1 t" by (rule same_trans [rotated])
  from hop_cancelled [OF agree_snd [OF steps_agree(8) [OF this]]] assms(3)
  show "\<exists>s2 e' who' d'. on_cancel e s1 = (Inr (Some \<lparr>pub_event = e', publishedBy = who', pub_direction = d'\<rparr>), s2)
      \<and> ends_like (publish (bus f) \<lparr>pub_event = e', publishedBy = who', pub_direction = d'\<rparr> s2)
           (snd (cancelOrderStep orchestration i t))"
    by (simp add: on_cancel_def says_def)
qed

lemma hop_release:
  assumes "e = PaymentFailed i why r \<or> e = PaymentRefunded i r" and "same s t"
  shows "ends_like (publish (bus f) \<lparr>pub_event = e, publishedBy = who, pub_direction = d\<rparr> s)
    (snd (cancelOrderStep orchestration i (snd (releaseInventoryStep orchestration i r t))))"
proof (rule publish_react [where b = "bus f" and h = on_release])
  show "bus f (event_name e) = [\<lparr>consumerName = ''inventory-service'', sub_direction = compensate, handler = on_release\<rparr>]"
    using assms(1) by auto
  fix s1 assume "same s1 s"
  with assms(2) have "same s1 t" by (rule same_trans [rotated])
  from hop_cancel [of f "InventoryReleased i", OF _ agree_snd [OF steps_agree(7) [OF this]]] assms(1)
  show "\<exists>s2 e' who' d'. on_release e s1 = (Inr (Some \<lparr>pub_event = e', publishedBy = who', pub_direction = d'\<rparr>), s2)
      \<and> ends_like (publish (bus f) \<lparr>pub_event = e', publishedBy = who', pub_direction = d'\<rparr> s2)
           (snd (cancelOrderStep orchestration i (snd (releaseInventoryStep orchestration i r t))))"
    by (auto simp: on_release_def says_def Let_def)
qed

lemma hop_shipment_failed:
  assumes "same s t"
  shows "ends_like (publish (bus f) \<lparr>pub_event = ShipmentFailed i why p r, publishedBy = who, pub_direction = d\<rparr> s)
    (snd (cancelOrderStep orchestration i (snd (releaseInventoryStep orchestration i r
       (snd (refundPaymentStep orchestration i p t))))))"
proof (rule publish_react [where b = "bus f" and h = on_ShipmentFailed])
  fix s1 assume "same s1 s"
  with assms have "same s1 t" by (rule same_trans [rotated])
  from hop_release [OF _ agree_snd [OF steps_agree(6) [OF this]]]
  show "\<exists>s2 e' who' d'. on_ShipmentFailed (ShipmentFailed i why p r) s1
        = (Inr (Some \<lparr>pub_event = e', publishedBy = who', pub_direction = d'\<rparr>), s2)
      \<and> ends_like (publish (bus f) \<lparr>pub_event = e', publishedBy = who', pub_direction = d'\<rparr> s2)
           (snd (cancelOrderStep orchestration i (snd (releaseInventoryStep orchestration i r
              (snd (refundPaymentStep orchestration i p t))))))"
    by (auto simp: on_ShipmentFailed_def says_def)
qed simp

lemma hop_shipped:
  assumes "same s t"
  shows "ends_like (publish (bus f) \<lparr>pub_event = ShipmentCreated i k, publishedBy = who, pub_direction = d\<rparr> s)
    (snd (completeOrderStep orchestration i t))"
proof -
  let ?p = "\<lparr>pub_event = ShipmentCreated i k, publishedBy = who, pub_direction = d\<rparr>"
  let ?sub = "\<lparr>consumerName = ''order-service'', sub_direction = forward, handler = on_ShipmentCreated\<rparr>"
  have "same (log_consumed ?sub (ShipmentCreated i k) (log_published ?p s)) t" using assms by simp
  from agree_snd [OF steps_agree(5) [OF this]] show ?thesis
    using publish_one [of "bus f" "ShipmentCreated i k" "''order-service''" forward on_ShipmentCreated who d s]
    by (simp add: on_ShipmentCreated_def ends_like_def)
qed

section \<open>The whole cascade\<close>

lemma fetched:
  assumes "distinct (map so_id (saga_orders s))" and "x \<in> set (saga_orders s)"
  shows "fetchOrderById (so_id x) s = Inr \<lparr>ref_id = so_id x, ref_publicId = so_publicId x\<rparr>"
  using row_with_unique [OF assms] by (simp add: fetchOrderById_def)

lemma fetch_created:
  assumes "fresh_ids s" and "createOrderStep u m input f s = (Inr order, s1)" and "saga_orders s2 = saga_orders s1"
  shows "fetchOrderById (ref_id order) s2 = Inr order"
proof -
  have none: "\<forall>x \<in> set (saga_orders s). so_id x \<noteq> order_seq (seqs s)"
    using assms(1) by (auto simp: fresh_ids_def)
  then have "row_with (\<lambda>x. so_id x = order_seq (seqs s)) (saga_orders s) = None" by (simp add: row_with_None)
  then have "row_with (\<lambda>x. so_id x = ref_id order) (saga_orders s2)
      = Some \<lparr>so_id = ref_id order, so_publicId = u, so_customerName = customerName input,
              so_amountCents = amountCents input, so_status = OPending\<rparr>"
    using createOrder_ok(2,3) [OF assms(2)] assms(3) by (simp add: row_with_append) (simp add: row_with_def)
  then show ?thesis using createOrder_ok(2) [OF assms(2)] by (simp add: fetchOrderById_def)
qed

lemma same_orders: "same s t \<Longrightarrow> saga_orders s = saga_orders t"
  by (simp add: same_tables)

lemma hop_captured:
  assumes "same s t" and "fetchOrderById i s = Inr order" and "ref_id order = i"
    and "createShipmentStep orchestration order (f = Some createShipment) t = (res, t1)"
  shows "ends_like (publish (bus f) \<lparr>pub_event = PaymentCaptured i p r, publishedBy = who, pub_direction = d\<rparr> s)
    (case res of
       Inl why \<Rightarrow> snd (cancelOrderStep orchestration i (snd (releaseInventoryStep orchestration i r
                    (snd (refundPaymentStep orchestration i p t1)))))
     | Inr k \<Rightarrow> snd (completeOrderStep orchestration i t1))" (is "ends_like _ ?t")
proof (rule publish_react [where b = "bus f" and h = "on_PaymentCaptured f"])
  fix s1 assume s1: "same s1 s"
  have "same s1 t" using s1 assms(1) by (rule same_trans)
  note a = steps_agree(4) [OF this, of choreography order "f = Some createShipment" orchestration, unfolded assms(4)]
  obtain s2 where ship: "createShipmentStep choreography order (f = Some createShipment) s1 = (res, s2)" "same s2 t1"
    using a by (cases "createShipmentStep choreography order (f = Some createShipment) s1") (simp add: agree_def)
  have "fetchOrderById i s1 = Inr order"
    using assms(2) same_orders [OF s1] by (simp add: fetchOrderById_def)
  then show "\<exists>s2 e' who' d'. on_PaymentCaptured f (PaymentCaptured i p r) s1
        = (Inr (Some \<lparr>pub_event = e', publishedBy = who', pub_direction = d'\<rparr>), s2)
      \<and> ends_like (publish (bus f) \<lparr>pub_event = e', publishedBy = who', pub_direction = d'\<rparr> s2) ?t"
    using ship hop_shipment_failed [OF ship(2)] hop_shipped [OF ship(2)]
    by (cases res) (auto simp: on_PaymentCaptured_def says_def)
qed simp

lemma hop_reserved:
  assumes "same s t" and "fetchOrderById i s = Inr order" and "ref_id order = i"
    and "capturePaymentStep orchestration order amount (f = Some capturePayment) t = (res, t1)"
    and "\<And>k. res = Inr k \<Longrightarrow> createShipmentStep orchestration order (f = Some createShipment) t1 = (ship, t2)"
  shows "ends_like (publish (bus f) \<lparr>pub_event = InventoryReserved i r amount, publishedBy = who, pub_direction = d\<rparr> s)
    (case res of
       Inl why \<Rightarrow> snd (cancelOrderStep orchestration i (snd (releaseInventoryStep orchestration i r t1)))
     | Inr p \<Rightarrow> (case ship of
         Inl why \<Rightarrow> snd (cancelOrderStep orchestration i (snd (releaseInventoryStep orchestration i r
                      (snd (refundPaymentStep orchestration i p t2)))))
       | Inr k \<Rightarrow> snd (completeOrderStep orchestration i t2)))" (is "ends_like _ ?t")
proof (rule publish_react [where b = "bus f" and h = "on_InventoryReserved f"])
  fix s1 assume s1: "same s1 s"
  have "same s1 t" using s1 assms(1) by (rule same_trans)
  note a = steps_agree(3) [OF this, of choreography order amount "f = Some capturePayment" orchestration, unfolded assms(4)]
  obtain s2 where pay: "capturePaymentStep choreography order amount (f = Some capturePayment) s1 = (res, s2)" "same s2 t1"
    using a by (cases "capturePaymentStep choreography order amount (f = Some capturePayment) s1") (simp add: agree_def)
  have f1: "fetchOrderById i s1 = Inr order"
    using assms(2) same_orders [OF s1] by (simp add: fetchOrderById_def)
  have f2: "fetchOrderById i s2 = Inr order" if "res = Inr k" for k
    using f1 capture_ok(5) [of choreography order amount "f = Some capturePayment" s1 k s2] pay(1) that
    by (simp add: fetchOrderById_def)
  show "\<exists>s2 e' who' d'. on_InventoryReserved f (InventoryReserved i r amount) s1
        = (Inr (Some \<lparr>pub_event = e', publishedBy = who', pub_direction = d'\<rparr>), s2)
      \<and> ends_like (publish (bus f) \<lparr>pub_event = e', publishedBy = who', pub_direction = d'\<rparr> s2) ?t"
  proof (cases res)
    case (Inl why)
    then show ?thesis using f1 pay hop_release [OF _ pay(2)]
      by (auto simp: on_InventoryReserved_def says_def)
  next
    case (Inr k)
    from hop_captured [OF pay(2) f2 [OF Inr] assms(3) assms(5) [OF Inr]]
    show ?thesis using Inr f1 pay(1) by (simp add: on_InventoryReserved_def says_def)
  qed
qed simp

lemma hop_created:
  assumes "same s t" and "fresh_ids s0" and "createOrderStep u m input g s0 = (Inr order, s00)" and "saga_orders s = saga_orders s00"
    and "reserveInventoryStep orchestration order item qty (f = Some reserveInventory) t = (res, t1)"
    and "\<And>r. res = Inr r \<Longrightarrow> capturePaymentStep orchestration order amount (f = Some capturePayment) t1 = (pay, t2)"
    and "\<And>r k. res = Inr r \<Longrightarrow> pay = Inr k \<Longrightarrow>
           createShipmentStep orchestration order (f = Some createShipment) t2 = (ship, t3)"
    and i: "i = ref_id order"
  shows "ends_like (publish (bus f) \<lparr>pub_event = OrderCreated i item qty amount, publishedBy = who, pub_direction = d\<rparr> s)
    (case res of
       Inl why \<Rightarrow> snd (cancelOrderStep orchestration i t1)
     | Inr r \<Rightarrow> (case pay of
         Inl why \<Rightarrow> snd (cancelOrderStep orchestration i (snd (releaseInventoryStep orchestration i r t2)))
       | Inr p \<Rightarrow> (case ship of
           Inl why \<Rightarrow> snd (cancelOrderStep orchestration i (snd (releaseInventoryStep orchestration i r
                        (snd (refundPaymentStep orchestration i p t3)))))
         | Inr k \<Rightarrow> snd (completeOrderStep orchestration i t3))))" (is "ends_like _ ?t")
proof (rule publish_react [where b = "bus f" and h = "on_OrderCreated f"])
  fix s1 assume s1: "same s1 s"
  have "same s1 t" using s1 assms(1) by (rule same_trans)
  note a = steps_agree(2) [OF this, of choreography order item qty "f = Some reserveInventory" orchestration, unfolded assms(5)]
  obtain s2 where v: "reserveInventoryStep choreography order item qty (f = Some reserveInventory) s1 = (res, s2)" "same s2 t1"
    using a by (cases "reserveInventoryStep choreography order item qty (f = Some reserveInventory) s1") (simp add: agree_def)
  have o1: "saga_orders s1 = saga_orders s00" using same_orders [OF s1] assms(4) by simp
  have f1: "fetchOrderById i s1 = Inr order" unfolding i by (rule fetch_created [OF assms(2,3) o1])
  have f2: "fetchOrderById i s2 = Inr order" if rv: "res = Inr r" for r
  proof -
    obtain it where "reserved order item qty s1 it r s2"
      using reserve_ok [of choreography order item qty "f = Some reserveInventory" s1 r s2] v(1) rv by auto
    then show ?thesis using f1 by (simp add: fetchOrderById_def reserved_def)
  qed
  show "\<exists>s2 e' who' d'. on_OrderCreated f (OrderCreated i item qty amount) s1
        = (Inr (Some \<lparr>pub_event = e', publishedBy = who', pub_direction = d'\<rparr>), s2)
      \<and> ends_like (publish (bus f) \<lparr>pub_event = e', publishedBy = who', pub_direction = d'\<rparr> s2) ?t"
  proof (cases res)
    case (Inl why)
    then show ?thesis using f1 v hop_cancel [of f "InventoryReservationFailed i why", OF _ v(2)]
      by (simp add: on_OrderCreated_def says_def)
  next
    case (Inr r)
    from hop_reserved [OF v(2) f2 [OF Inr] i [symmetric] assms(6) [OF Inr] assms(7) [OF Inr]]
    show ?thesis using Inr f1 v(1) by (simp add: on_OrderCreated_def says_def)
  qed
qed simp

text \<open>
  C7: both coordinations of the saga agree. For every request and every forced failure the choreographed
  run ends without a handler throwing, its handle names the order that the orchestrator reports (none
  if it aborted), and orders, stock, reservations, payments, shipments and sequences end up equal.
\<close>

theorem choreography_matches_orchestration:
  assumes "fresh_ids s" and "runOrderSaga uuid input f s = (r, s1)"
  shows "\<exists>h s2. runChoreographedOrderSaga uuid input f s = Some (Inr h, s2)
       \<and> h_orderId h = sr_orderId r \<and> h_publicId h = sr_publicId r \<and> (h_aborted h \<longleftrightarrow> sr_outcome r = aborted)
       \<and> same s1 s2"
proof -
  let ?c = "createOrderStep uuid orchestration input (f = Some createOrder) s"
  let ?d = "createOrderStep uuid choreography input (f = Some createOrder) s"
  obtain cres t where c: "?c = (cres, t)" by (cases ?c)
  obtain t' where d: "?d = (cres, t')" "same t' t"
    using steps_agree(1) [OF same_refl, of uuid choreography input "f = Some createOrder" s orchestration] c
    by (cases ?d) (simp add: agree_def)
  show ?thesis
  proof (cases cres)
    case (Inl why)
    then show ?thesis using assms(2) c d
      by (auto simp: runOrderSaga_def runChoreographedOrderSaga_def Let_def intro: same_sym)
  next
    case (Inr order)
    let ?p = "\<lparr>pub_event = OrderCreated (ref_id order) (itemSku input) (quantity input) (amountCents input),
      publishedBy = ''order-service'', pub_direction = forward\<rparr>"
    obtain res t1 where v: "reserveInventoryStep orchestration order (itemSku input) (quantity input)
        (f = Some reserveInventory) t = (res, t1)" by (metis surj_pair)
    obtain pay t2 where p: "capturePaymentStep orchestration order (amountCents input) (f = Some capturePayment) t1 = (pay, t2)"
      by (metis surj_pair)
    obtain ship t3 where q: "createShipmentStep orchestration order (f = Some createShipment) t2 = (ship, t3)"
      by (metis surj_pair)
    from hop_created [OF d(2) assms(1) d(1) [unfolded Inr] refl v p q refl, of "''order-service''" forward]
    obtain s2 where run: "publish (bus f) ?p t' = Some (Inr (), s2)" and "same s2 s1"
      using assms(2) c v p q Inr unfolding ends_like_def
      by (auto simp: runOrderSaga_def orch_defs Let_def split: sum.splits)
    then show ?thesis using assms(2) c d v p q Inr
      by (auto simp: runOrderSaga_def runChoreographedOrderSaga_def orch_defs gave_up_def Let_def
          split: sum.splits intro: same_sym)
  qed
qed

lemma choreography_matches_orchestration_witness:
  "\<exists>h s2. runChoreographedOrderSaga 7 two_of_A (Some createShipment) small_shop = Some (Inr h, s2)
     \<and> items s2 = items (snd (runOrderSaga 7 two_of_A (Some createShipment) small_shop))"
proof -
  obtain h s2 where "runChoreographedOrderSaga 7 two_of_A (Some createShipment) small_shop = Some (Inr h, s2)"
    "same (snd (runOrderSaga 7 two_of_A (Some createShipment) small_shop)) s2"
    using choreography_matches_orchestration [OF fresh_small_shop surjective_pairing] by blast
  then show ?thesis by (auto simp: same_tables)
qed

end
