(* ===== verification/Redis_Keys.thy ===== *)
theory Redis_Keys
  imports Prelude
begin

text \<open>
  The Redis string commands that the labs issue (\<open>GET\<close>, \<open>SET ... NX PX\<close>, \<open>DEL\<close>, \<open>INCR\<close>, \<open>PEXPIRE\<close>), as
  documented: each runs atomically; a key with an expiry is gone once its time has passed. A store maps
  a key to its value and expiry, expired entries included; times are milliseconds of the server's clock.
\<close>

type_synonym redis = "string \<rightharpoonup> string \<times> rat option"

definition live :: "rat \<Rightarrow> string \<times> rat option \<Rightarrow> bool" where
  "live t e = (case snd e of None \<Rightarrow> True | Some until \<Rightarrow> t \<le> until)"

definition redis_get :: "rat \<Rightarrow> string \<Rightarrow> redis \<Rightarrow> string option" where
  "redis_get t k r = (case r k of None \<Rightarrow> None | Some e \<Rightarrow> if live t e then Some (fst e) else None)"

definition redis_set_nx_px :: "rat \<Rightarrow> string \<Rightarrow> string \<Rightarrow> rat \<Rightarrow> redis \<Rightarrow> bool \<times> redis" where
  "redis_set_nx_px t k v ttlMs r =
     (if redis_get t k r = None then (True, r(k \<mapsto> (v, Some (t + ttlMs)))) else (False, r))"

definition redis_set_px :: "rat \<Rightarrow> string \<Rightarrow> string \<Rightarrow> rat \<Rightarrow> redis \<Rightarrow> redis" where
  "redis_set_px t k v ttlMs r = r(k \<mapsto> (v, Some (t + ttlMs)))"

definition redis_del :: "string \<Rightarrow> redis \<Rightarrow> redis" where
  "redis_del k r = r(k := None)"

text \<open>\<open>INCR\<close> reads the value as a decimal numeral (an absent one as 0) and keeps the expiry.\<close>

definition redis_incr :: "rat \<Rightarrow> string \<Rightarrow> redis \<Rightarrow> nat \<times> redis" where
  "redis_incr t k r =
     (let (n, ex) = (case redis_get t k r of None \<Rightarrow> (0, None) | Some v \<Rightarrow> (val_of v, snd (the (r k))))
      in (n + 1, r(k \<mapsto> (nat_str (n + 1), ex))))"

definition redis_pexpire :: "rat \<Rightarrow> string \<Rightarrow> rat \<Rightarrow> redis \<Rightarrow> bool \<times> redis" where
  "redis_pexpire t k ttlMs r =
     (case redis_get t k r of None \<Rightarrow> (False, r) | Some v \<Rightarrow> (True, r(k \<mapsto> (v, Some (t + ttlMs)))))"

lemma get_put [simp]:
  "redis_get t j (r(k \<mapsto> (v, ex))) = (if j = k then (if live t (v, ex) then Some v else None) else redis_get t j r)"
  by (simp add: redis_get_def)

lemma get_del [simp]: "redis_get t j (redis_del k r) = (if j = k then None else redis_get t j r)"
  by (simp add: redis_get_def redis_del_def)

lemma live_simps [simp]: "live t (v, None)" "live t (v, Some until) = (t \<le> until)"
  by (simp_all add: live_def)

lemma get_later: "redis_get t k r = Some v \<Longrightarrow> redis_get t' k r = None \<Longrightarrow> t < t'"
  by (auto simp: redis_get_def live_def split: option.splits if_splits)

lemma redis_pexpire_Some [simp]:
  "redis_get t k r = Some v \<Longrightarrow> redis_pexpire t k ttlMs r = (True, r(k \<mapsto> (v, Some (t + ttlMs))))"
  by (simp add: redis_pexpire_def)

text \<open>A counter that never expires: consecutive \<open>INCR\<close>s return consecutive numbers.\<close>

definition counter_at :: "string \<Rightarrow> redis \<Rightarrow> nat \<Rightarrow> bool" where
  "counter_at k r n \<longleftrightarrow> (if n = 0 then r k = None else r k = Some (nat_str n, None))"

lemma counter_incr: "counter_at k r n \<Longrightarrow> redis_incr t k r = (n + 1, r(k \<mapsto> (nat_str (n + 1), None)))"
  by (auto simp: counter_at_def redis_incr_def redis_get_def val_of_nat_str simp del: val_of.simps split: if_splits)

lemma counter_after_incr [simp]: "counter_at k (r(k \<mapsto> (nat_str (Suc n), None))) (Suc n)"
  by (simp add: counter_at_def)

lemma counter_other [simp]: "j \<noteq> k \<Longrightarrow> counter_at k (r(j := e)) n = counter_at k r n"
  by (simp add: counter_at_def)

end
