(* ===== verification/Redis_Lock.thy ===== *)
theory Redis_Lock
  imports Redis_Keys
begin

text \<open>
  The Redis locks of Lab 22, \<open>labs/22-*/src/redis-lock\<close>: acquisition and the two releases
  (\<open>basic-lock.ts\<close>), renewal (\<open>lease-renewal.ts\<close>) and their demonstrations, with the contract of a
  lease lock as a locale. Tokens are the uuids of \<open>randomToken\<close>, handed in. A demonstration is the
  sequence of its commands at the times its sleeps fix; commands take no time.
\<close>

section \<open>The operations\<close>

definition acquireLock :: "string \<Rightarrow> string \<Rightarrow> rat \<Rightarrow> rat \<Rightarrow> redis \<Rightarrow> bool \<times> redis" where
  "acquireLock key ownerToken ttlMs t = redis_set_nx_px t key ownerToken ttlMs"

text \<open>The naive release is two commands with a gap, in which the store may change.\<close>

definition unsafe_check :: "string \<Rightarrow> string \<Rightarrow> rat \<Rightarrow> redis \<Rightarrow> bool" where
  "unsafe_check key ownerToken t r \<longleftrightarrow> redis_get t key r = Some ownerToken"

definition releaseLockUnsafeGetThenDel ::
  "string \<Rightarrow> string \<Rightarrow> rat \<Rightarrow> (redis \<Rightarrow> redis) \<Rightarrow> redis \<Rightarrow> bool \<times> redis" where
  "releaseLockUnsafeGetThenDel key ownerToken t gap r =
     (if unsafe_check key ownerToken t r then (True, redis_del key (gap r)) else (False, r))"

definition releaseLock :: "string \<Rightarrow> string \<Rightarrow> rat \<Rightarrow> redis \<Rightarrow> bool \<times> redis" where
  "releaseLock key ownerToken t r =
     (if redis_get t key r = Some ownerToken then (True, redis_del key r) else (False, r))"

definition renewLock :: "string \<Rightarrow> string \<Rightarrow> rat \<Rightarrow> rat \<Rightarrow> redis \<Rightarrow> bool \<times> redis" where
  "renewLock key ownerToken ttlMs t r =
     (if redis_get t key r = Some ownerToken then redis_pexpire t key ttlMs r else (False, r))"

section \<open>Lease locks\<close>

datatype 't lock_op = Acquire 't rat | Release 't | Renew 't rat

text \<open>
  What a worker may rely on: a grant or a renewal makes it the holder for the time to live, a release
  frees the lock, and a command refused changes nothing.
\<close>

locale lease_lock =
  fixes acquire :: "'t \<Rightarrow> rat \<Rightarrow> rat \<Rightarrow> 's \<Rightarrow> bool \<times> 's"
    and release :: "'t \<Rightarrow> rat \<Rightarrow> 's \<Rightarrow> bool \<times> 's"
    and renew :: "'t \<Rightarrow> rat \<Rightarrow> rat \<Rightarrow> 's \<Rightarrow> bool \<times> 's"
    and holder :: "rat \<Rightarrow> 's \<Rightarrow> 't option"
  assumes acquire_granted: "acquire tok ttl now s = (True, s') \<Longrightarrow>
      holder now s = None \<and> (\<forall>t. holder t s' = (if t \<le> now + ttl then Some tok else None))"
    and acquire_refused: "acquire tok ttl now s = (False, s') \<Longrightarrow> holder now s \<noteq> None \<and> s' = s"
    and release_own: "release tok now s = (True, s') \<Longrightarrow> holder now s = Some tok \<and> (\<forall>t. holder t s' = None)"
    and release_refused: "release tok now s = (False, s') \<Longrightarrow> holder now s \<noteq> Some tok \<and> s' = s"
    and renew_own: "renew tok ttl now s = (True, s') \<Longrightarrow>
      holder now s = Some tok \<and> (\<forall>t. holder t s' = (if t \<le> now + ttl then Some tok else None))"
    and renew_refused: "renew tok ttl now s = (False, s') \<Longrightarrow> holder now s \<noteq> Some tok \<and> s' = s"
begin

text \<open>
  A run of commands at given times, with what each worker believes: the time until which its last
  grant or renewal lets it hold the lock, nothing once it has released.
\<close>

fun lock_step :: "rat \<times> 't lock_op \<Rightarrow> ('t \<rightharpoonup> rat) \<times> 's \<Rightarrow> ('t \<rightharpoonup> rat) \<times> 's" where
  "lock_step (now, Acquire tok ttl) (belief, s) =
     (let (ok, s') = acquire tok ttl now s in (if ok then belief(tok \<mapsto> now + ttl) else belief, s'))"
| "lock_step (now, Release tok) (belief, s) =
     (let (ok, s') = release tok now s in (belief(tok := None), s'))"
| "lock_step (now, Renew tok ttl) (belief, s) =
     (let (ok, s') = renew tok ttl now s in (if ok then belief(tok \<mapsto> now + ttl) else belief, s'))"

definition lock_run :: "(rat \<times> 't lock_op) list \<Rightarrow> ('t \<rightharpoonup> rat) \<times> 's \<Rightarrow> ('t \<rightharpoonup> rat) \<times> 's" where
  "lock_run ops bs = foldl (\<lambda>bs op. lock_step op bs) bs ops"

definition beliefs_hold :: "rat \<Rightarrow> ('t \<rightharpoonup> rat) \<times> 's \<Rightarrow> bool" where
  "beliefs_hold now bs \<longleftrightarrow>
     (\<forall>tok until t. fst bs tok = Some until \<longrightarrow> now \<le> t \<longrightarrow> t \<le> until \<longrightarrow> holder t (snd bs) = Some tok)"

lemma beliefs_later: "beliefs_hold t bs \<Longrightarrow> t \<le> now \<Longrightarrow> beliefs_hold now bs"
  unfolding beliefs_hold_def by (meson order_trans)

lemma beliefs_grant:
  assumes "beliefs_hold now (belief, s)" and "holder now s = None \<or> holder now s = Some tok"
    and "\<forall>t. holder t s' = (if t \<le> now + ttl then Some tok else None)"
  shows "beliefs_hold now (belief(tok \<mapsto> now + ttl), s')"
  unfolding beliefs_hold_def
proof (intro allI impI)
  fix a until t
  assume a: "fst (belief(tok \<mapsto> now + ttl), s') a = Some until" "now \<le> t" "t \<le> until"
  show "holder t (snd (belief(tok \<mapsto> now + ttl), s')) = Some a"
  proof (cases "a = tok")
    case True
    then show ?thesis using a assms(3) by simp
  next
    case False
    then have "holder now s = Some a" using a assms(1) by (auto simp: beliefs_hold_def)
    with assms(2) False show ?thesis by auto
  qed
qed

lemma beliefs_step:
  assumes "beliefs_hold now bs"
  shows "beliefs_hold now (lock_step (now, op) bs)"
proof (cases bs)
  case (Pair belief s)
  show ?thesis
  proof (cases op)
    case (Acquire tok ttl)
    obtain ok s' where a: "acquire tok ttl now s = (ok, s')" by fastforce
    show ?thesis
    proof (cases ok)
      case True
      with a acquire_granted [of tok ttl now s s'] beliefs_grant [of now belief s tok s' ttl] assms Acquire Pair
      show ?thesis by simp
    next
      case False
      with a acquire_refused [of tok ttl now s s'] assms Acquire Pair show ?thesis by simp
    qed
  next
    case (Release tok)
    obtain ok s' where r: "release tok now s = (ok, s')" by fastforce
    have other: "a \<noteq> tok \<Longrightarrow> belief a = Some until \<Longrightarrow> now \<le> t \<Longrightarrow> t \<le> until \<Longrightarrow> \<not> ok" for a until t
    proof
      assume "a \<noteq> tok" "belief a = Some until" "now \<le> t" "t \<le> until" and ok
      then have "holder now s = Some a" using assms Pair by (auto simp: beliefs_hold_def)
      moreover have "holder now s = Some tok" using release_own [of tok now s s'] r \<open>ok\<close> by simp
      ultimately show False using \<open>a \<noteq> tok\<close> by simp
    qed
    have keep: "\<not> ok \<Longrightarrow> s' = s" using release_refused [of tok now s s'] r by simp
    show ?thesis
      unfolding beliefs_hold_def
    proof (intro allI impI)
      fix a until t
      assume h: "fst (lock_step (now, op) bs) a = Some until" "now \<le> t" "t \<le> until"
      then have a: "a \<noteq> tok" "belief a = Some until" using Release Pair r by (auto split: if_splits)
      from other [OF this h(2,3)] keep have "s' = s" by simp
      with a h assms Pair Release r show "holder t (snd (lock_step (now, op) bs)) = Some a"
        by (simp add: beliefs_hold_def)
    qed
  next
    case (Renew tok ttl)
    obtain ok s' where a: "renew tok ttl now s = (ok, s')" by fastforce
    show ?thesis
    proof (cases ok)
      case True
      with a renew_own [of tok ttl now s s'] beliefs_grant [of now belief s tok s' ttl] assms Renew Pair
      show ?thesis by simp
    next
      case False
      with a renew_refused [of tok ttl now s s'] assms Renew Pair show ?thesis by simp
    qed
  qed
qed

lemma beliefs_run:
  "beliefs_hold start bs \<Longrightarrow> sorted (start # map fst ops) \<Longrightarrow> \<forall>op \<in> set ops. fst op \<le> now \<Longrightarrow> start \<le> now \<Longrightarrow>
   beliefs_hold now (lock_run ops bs)"
proof (induction ops arbitrary: start bs)
  case Nil
  then show ?case by (simp add: lock_run_def beliefs_later)
next
  case (Cons op ops)
  obtain u o1 where op: "op = (u, o1)" by (cases op)
  have "beliefs_hold u bs" using Cons.prems op by (auto intro: beliefs_later)
  from beliefs_step [OF this] have "beliefs_hold u (lock_step op bs)" by (simp add: op)
  from Cons.IH [OF this] Cons.prems op show ?case by (simp add: lock_run_def)
qed

lemma one_holder:
  assumes "sorted (map fst ops)" and "\<forall>op \<in> set ops. fst op \<le> now"
    and "lock_run ops (Map.empty, s) = (belief, s')"
    and "belief a = Some ua" and "now \<le> ua" and "belief b = Some ub" and "now \<le> ub"
  shows "a = b \<and> holder now s' = Some a"
proof -
  have "beliefs_hold now (lock_run ops (Map.empty, s))"
  proof (cases ops)
    case Nil
    then show ?thesis by (simp add: lock_run_def beliefs_hold_def)
  next
    case (Cons op rest)
    show ?thesis
      using assms(1,2) Cons by (intro beliefs_run [of "fst op"]) (auto simp: beliefs_hold_def)
  qed
  then have "beliefs_hold now (belief, s')" using assms(3) by simp
  then have "holder now s' = Some c" if "belief c = Some u" "now \<le> u" for c u
    using that by (simp add: beliefs_hold_def)
  from this [OF assms(4,5)] this [OF assms(6,7)] show ?thesis by simp
qed

end

interpretation lock: lease_lock "acquireLock key" "releaseLock key" "renewLock key" "\<lambda>t. redis_get t key" for key
  by unfold_locales
    (auto simp: acquireLock_def releaseLock_def renewLock_def redis_set_nx_px_def redis_pexpire_def split: if_splits)

text \<open>
  C20: the lock excludes. In any series of acquisitions, renewals and releases by any workers, in time
  order and whatever the store held before, two workers never both hold a lease that has not run out,
  and a worker whose last grant or renewal has not run out is the one the key names.
\<close>

theorem redis_lock_excludes:
  assumes "sorted (map fst ops)" and "\<forall>op \<in> set ops. fst op \<le> now"
    and "lock.lock_run key ops (Map.empty, r) = (belief, r')"
    and "belief a = Some ua" and "now \<le> ua" and "belief b = Some ub" and "now \<le> ub"
  shows "a = b \<and> redis_get now key r' = Some a"
  using assms by (rule lock.one_holder)

lemma redis_lock_excludes_witness:
  "redis_get 150 ''k'' (snd (lock.lock_run ''k'' [(0, Acquire ''a'' 100), (50, Acquire ''b'' 100), (90, Renew ''a'' 100)]
     (Map.empty, Map.empty))) = Some ''a''"
  using redis_lock_excludes [of "[(0, Acquire ''a'' 100), (50, Acquire ''b'' 100), (90, Renew ''a'' 100)]" 150 "''k''"
      Map.empty _ _ "''a''" 190 "''a''" 190, OF _ _ surjective_pairing]
  by (simp add: lock.lock_run_def acquireLock_def renewLock_def redis_set_nx_px_def redis_get_def redis_pexpire_def)

section \<open>The demonstrations\<close>

record LockRaceResult =
  acquiredA :: bool
  acquiredB :: bool
  winner :: string

definition demonstrateLockRace ::
  "string \<Rightarrow> rat \<Rightarrow> string \<Rightarrow> string \<Rightarrow> rat \<Rightarrow> redis \<Rightarrow> LockRaceResult \<times> redis" where
  "demonstrateLockRace key ttlMs tokenA tokenB t r =
     (let r0 = redis_del key r;
          (a, r1) = acquireLock key tokenA ttlMs t r0;
          (b, r2) = acquireLock key tokenB ttlMs t r1
      in (\<lparr>acquiredA = a, acquiredB = b,
           winner = (if a then ''A'' else if b then ''B'' else ''none'')\<rparr>, r2))"

record WrongOwnerReleaseResult =
  wrongOwnerReleaseSucceeded :: bool
  keySurvived :: bool
  keyValueAfter :: "string option"

definition demonstrateWrongOwnerCannotRelease ::
  "string \<Rightarrow> rat \<Rightarrow> string \<Rightarrow> string \<Rightarrow> rat \<Rightarrow> redis \<Rightarrow> (string + WrongOwnerReleaseResult) \<times> redis" where
  "demonstrateWrongOwnerCannotRelease key ttlMs realOwnerToken wrongToken t r =
     (let r0 = redis_del key r;
          (acquired, r1) = acquireLock key realOwnerToken ttlMs t r0
      in if \<not> acquired then (Inl ''setup failure: could not acquire lock for the real owner'', r1)
         else (let (rel, r2) = releaseLock key wrongToken t r1;
                   after = redis_get t key r2
               in (Inr \<lparr>wrongOwnerReleaseSucceeded = rel, keySurvived = (after = Some realOwnerToken),
                        keyValueAfter = after\<rparr>, r2)))"

record UnsafeCheckThenDeleteResult =
  acquiredBAfterExpiry :: bool
  aDeletedBsLock :: bool
  keyValueAfterAsRelease :: "string option"

definition demonstrateUnsafeCheckThenDeleteRace ::
  "string \<Rightarrow> string \<Rightarrow> string \<Rightarrow> rat \<Rightarrow> redis \<Rightarrow> UnsafeCheckThenDeleteResult \<times> redis" where
  "demonstrateUnsafeCheckThenDeleteRace key tokenA tokenB t r =
     (let shortTtlMs = 100;
          r1 = snd (acquireLock key tokenA shortTtlMs t (redis_del key r));
          aBelievesItOwnsTheKey = unsafe_check key tokenA t r1;
          t1 = t + (shortTtlMs + 50);
          (b, r2) = acquireLock key tokenB 5000 t1 r1;
          (deleted, r3) =
            (if aBelievesItOwnsTheKey
             then (redis_get t1 key r2 = Some tokenB, redis_del key r2) else (False, r2))
      in (\<lparr>acquiredBAfterExpiry = b, aDeletedBsLock = deleted, keyValueAfterAsRelease = redis_get t1 key r3\<rparr>, r3))"

record SuccessfulRenewalResult =
  renewalCount :: nat
  lockHeldThroughout :: bool
  competitorAcquiredDuringWork :: bool

text \<open>
  The interval timer fires at every multiple of \<open>renewIntervalMs\<close> before the work ends; the competitor
  tries once, at half the work. Both are merged in time order, the timer first at a tie.
\<close>

fun renewals :: "string \<Rightarrow> string \<Rightarrow> rat \<Rightarrow> rat \<Rightarrow> rat list \<Rightarrow> redis \<Rightarrow> nat \<times> redis" where
  "renewals key tok ttlMs t [] r = (0, r)"
| "renewals key tok ttlMs t (d # ds) r =
     (let (ok, r1) = renewLock key tok ttlMs (t + d) r; (n, r2) = renewals key tok ttlMs t ds r1
      in ((if ok then Suc n else n), r2))"

definition timer_ticks :: "rat \<Rightarrow> rat \<Rightarrow> rat list" where
  "timer_ticks every until =
     map (\<lambda>i. of_nat (Suc i) * every) (filter (\<lambda>i. of_nat (Suc i) * every < until) [0..<nat \<lceil>until / every\<rceil>])"

definition demonstrateSuccessfulRenewal ::
  "string \<Rightarrow> rat \<Rightarrow> rat \<Rightarrow> rat \<Rightarrow> string \<Rightarrow> string \<Rightarrow> rat \<Rightarrow> redis \<Rightarrow> (string + SuccessfulRenewalResult) \<times> redis" where
  "demonstrateSuccessfulRenewal key ttlMs renewIntervalMs workDurationMs ownerToken competitorToken t r =
     (let (acquired, r0) = acquireLock key ownerToken ttlMs t (redis_del key r)
      in if \<not> acquired then (Inl ''setup failure: could not acquire lock'', r0)
         else (let ticks = timer_ticks renewIntervalMs workDurationMs;
                   half = of_int \<lfloor>workDurationMs / 2\<rfloor>;
                   (n1, r1) = renewals key ownerToken ttlMs t (filter (\<lambda>d. d \<le> half) ticks) r0;
                   (stolen, r2) = acquireLock key competitorToken ttlMs (t + half) r1;
                   (n2, r3) = renewals key ownerToken ttlMs t (filter (\<lambda>d. half < d) ticks) r2;
                   held = (redis_get (t + workDurationMs) key r3 = Some ownerToken);
                   r4 = snd (releaseLock key ownerToken (t + workDurationMs) r3)
               in (Inr \<lparr>renewalCount = n1 + n2, lockHeldThroughout = held,
                        competitorAcquiredDuringWork = stolen\<rparr>, r4)))"

definition demonstrateRenewalPauseAllowsTheft ::
  "string \<Rightarrow> rat \<Rightarrow> rat \<Rightarrow> string \<Rightarrow> string \<Rightarrow> rat \<Rightarrow> redis \<Rightarrow> (bool \<times> bool) \<times> redis" where
  "demonstrateRenewalPauseAllowsTheft key ttlMs pauseMs ownerToken competitorToken t r =
     (let r1 = snd (acquireLock key ownerToken ttlMs t (redis_del key r));
          (stolen, r2) = acquireLock key competitorToken ttlMs (t + pauseMs) r1;
          (renewed, r3) = renewLock key ownerToken ttlMs (t + pauseMs) r2
      in ((stolen, renewed), r3))"

lemma acquire_free [simp]: "redis_get t key r = None \<Longrightarrow>
    acquireLock key tok ttl t r = (True, r(key \<mapsto> (tok, Some (t + ttl))))"
  by (simp add: acquireLock_def redis_set_nx_px_def)

lemma acquire_taken [simp]: "redis_get t key r = Some v \<Longrightarrow> acquireLock key tok ttl t r = (False, r)"
  by (simp add: acquireLock_def redis_set_nx_px_def)

lemma renew_owned [simp]: "redis_get t key r = Some tok \<Longrightarrow>
    renewLock key tok ttl t r = (True, r(key \<mapsto> (tok, Some (t + ttl))))"
  by (simp add: renewLock_def)

section \<open>Renewal on a timer\<close>

definition owned_until :: "string \<Rightarrow> string \<Rightarrow> rat \<Rightarrow> redis \<Rightarrow> bool" where
  "owned_until key tok u r \<longleftrightarrow> r key = Some (tok, Some u)"

lemma owned_get: "owned_until key tok u r \<Longrightarrow> t \<le> u \<Longrightarrow> redis_get t key r = Some tok"
  by (simp add: owned_until_def redis_get_def)

lemma renewals_in_time:
  assumes "0 < every" and "every \<le> ttl" and "owned_until key tok (t + of_nat a * every + ttl) r" and "a \<le> b"
  shows "\<exists>r'. renewals key tok ttl t (map (\<lambda>i. of_nat (Suc i) * every) [a..<b]) r = (b - a, r')
     \<and> owned_until key tok (t + of_nat b * every + ttl) r'"
  using assms(3,4)
proof (induction "b - a" arbitrary: a r)
  case 0
  then show ?case by simp
next
  case (Suc n)
  then have ab: "[a..<b] = a # [Suc a..<b]" by (simp add: upt_conv_Cons)
  let ?d = "of_nat (Suc a) * every"
  have "t + ?d \<le> t + of_nat a * every + ttl" using assms(2) by (simp add: algebra_simps)
  from owned_get [OF Suc.prems(1) this]
  have r1: "renewLock key tok ttl (t + ?d) r = (True, r(key \<mapsto> (tok, Some (t + ?d + ttl))))" by simp
  have "owned_until key tok (t + of_nat (Suc a) * every + ttl) (r(key \<mapsto> (tok, Some (t + ?d + ttl))))"
    by (simp add: owned_until_def)
  moreover have "n = b - Suc a" "Suc a \<le> b" using Suc.hyps(2) by simp_all
  ultimately obtain r' where "renewals key tok ttl t (map (\<lambda>i. of_nat (Suc i) * every) [Suc a..<b])
      (r(key \<mapsto> (tok, Some (t + ?d + ttl)))) = (b - Suc a, r')"
    "owned_until key tok (t + of_nat b * every + ttl) r'"
    using Suc.hyps(1) [of "Suc a"] by blast
  then show ?case using r1 ab Suc.hyps(2) by (simp add: Let_def)
qed

lemma filter_upt_prefix: "\<forall>i j. i \<le> j \<longrightarrow> P j \<longrightarrow> P i \<Longrightarrow>
    \<exists>n \<le> M. filter P [0..<M] = [0..<n] \<and> (\<forall>i < n. P i) \<and> (n < M \<longrightarrow> \<not> P n)"
proof (induction M)
  case (Suc M)
  obtain n where n: "n \<le> M" "filter P [0..<M] = [0..<n]" "\<forall>i < n. P i" "n < M \<longrightarrow> \<not> P n"
    using Suc.IH [OF Suc.prems] by blast
  show ?case
  proof (cases "P M")
    case True
    then have "n < M \<Longrightarrow> P n" using Suc.prems by (meson less_imp_le)
    then have "n = M" using n(1,4) by (cases "n < M") auto
    then show ?thesis using n True by (intro exI [of _ "Suc M"]) (auto simp: less_Suc_eq)
  next
    case False
    then show ?thesis using n by (intro exI [of _ n]) (cases "n = M"; auto)
  qed
qed simp

lemma filter_upt_suffix:
  assumes "filter P [0..<n] = [0..<m]" and "m \<le> n"
  shows "filter (\<lambda>i. \<not> P i) [0..<n] = [m..<n]"
proof -
  have P: "P i \<longleftrightarrow> i < m" if "i < n" for i
  proof -
    have "i \<in> set (filter P [0..<n]) \<longleftrightarrow> i < m" using assms by simp
    then show ?thesis using that by simp
  qed
  have "filter (\<lambda>i. \<not> P i) [0..<n] = filter (\<lambda>i. m \<le> i) [0..<n]"
    using P by (intro filter_cong) auto
  moreover have "[0..<n] = [0..<m] @ [m..<n]" using assms(2) upt_add_eq_append [of 0 m "n - m"] by simp
  ultimately show ?thesis by (simp add: filter_empty_conv)
qed

lemma ticks_upt:
  assumes "0 < every" and "0 < until"
  obtains n where "timer_ticks every until = map (\<lambda>i. of_nat (Suc i) * every) [0..<n]"
    and "until \<le> of_nat (Suc n) * every" and "n = nat (\<lceil>until / every\<rceil> - 1)"
proof -
  let ?P = "\<lambda>i::nat. of_nat (Suc i) * every < until"
  have "\<forall>i j. i \<le> j \<longrightarrow> ?P j \<longrightarrow> ?P i"
  proof (intro allI impI)
    fix i j :: nat assume "i \<le> j" and j: "?P j"
    then have "of_nat (Suc i) * every \<le> of_nat (Suc j) * every" using assms(1) by (intro mult_right_mono) auto
    with j show "?P i" by linarith
  qed
  from filter_upt_prefix [OF this, of "nat \<lceil>until / every\<rceil>"]
  obtain n where n: "n \<le> nat \<lceil>until / every\<rceil>" "filter ?P [0..<nat \<lceil>until / every\<rceil>] = [0..<n]"
    "\<forall>i < n. ?P i" "n < nat \<lceil>until / every\<rceil> \<longrightarrow> \<not> ?P n" by blast
  have pos: "0 < until / every" using assms by simp
  have up: "until \<le> of_nat (Suc n) * every"
  proof (cases "n < nat \<lceil>until / every\<rceil>")
    case True
    then show ?thesis using n(4) by simp
  next
    case False
    then have "\<lceil>until / every\<rceil> \<le> int n" by linarith
    then have "until / every \<le> of_nat n" by (simp add: ceiling_le_iff)
    then have "until \<le> of_nat n * every" using assms(1) by (simp add: pos_divide_le_eq)
    then show ?thesis using assms(1) by (simp add: algebra_simps)
  qed
  have lo: "of_nat n < until / every"
  proof (cases n)
    case 0
    then show ?thesis using pos by simp
  next
    case (Suc k)
    then have "?P k" using n(3) by simp
    then show ?thesis using Suc assms(1) by (simp add: pos_less_divide_eq)
  qed
  have "until / every \<le> of_nat (Suc n)" using up assms(1) by (simp add: pos_divide_le_eq)
  then have "\<lceil>until / every\<rceil> = int n + 1"
    using lo by (intro ceiling_unique) auto
  then have "n = nat (\<lceil>until / every\<rceil> - 1)" by simp
  with up n(2) show ?thesis by (intro that [of n]) (auto simp: timer_ticks_def)
qed

lemma renewal_keeps_lease:
  assumes "0 < every" and "every \<le> ttl" and "0 < work"
  shows "fst (demonstrateSuccessfulRenewal key ttl every work tok rival t r)
       = Inr \<lparr>renewalCount = nat (\<lceil>work / every\<rceil> - 1), lockHeldThroughout = True,
              competitorAcquiredDuringWork = False\<rparr>"
proof -
  let ?f = "\<lambda>i. of_nat (Suc i) * every"
  obtain n where n: "timer_ticks every work = map ?f [0..<n]" "work \<le> of_nat (Suc n) * every"
    "n = nat (\<lceil>work / every\<rceil> - 1)"
    using assms(1,3) by (rule ticks_upt)
  define half where "half = (of_int \<lfloor>work / 2\<rfloor> :: rat)"
  have "half \<le> work / 2" unfolding half_def by (rule of_int_floor_le)
  then have half: "half \<le> work" using assms(3) by linarith
  have "\<forall>i j. i \<le> j \<longrightarrow> ?f j \<le> half \<longrightarrow> ?f i \<le> half"
  proof (intro allI impI)
    fix i j :: nat assume "i \<le> j" and j: "?f j \<le> half"
    then have "?f i \<le> ?f j" using assms(1) by (intro mult_right_mono) auto
    with j show "?f i \<le> half" by linarith
  qed
  from filter_upt_prefix [OF this, of n]
  obtain m where m: "m \<le> n" "filter (\<lambda>i. ?f i \<le> half) [0..<n] = [0..<m]" "m < n \<longrightarrow> \<not> ?f m \<le> half" by blast
  have early: "filter (\<lambda>d. d \<le> half) (timer_ticks every work) = map ?f [0..<m]"
    using m(2) n(1) by (simp add: filter_map comp_def)
  have late: "filter (\<lambda>d. half < d) (timer_ticks every work) = map ?f [m..<n]"
    using filter_upt_suffix [OF m(2,1)] n(1) by (simp add: filter_map comp_def not_le)
  have half_live: "half \<le> of_nat m * every + ttl"
  proof (cases "m < n")
    case True
    then show ?thesis using m(3) assms(2) by (simp add: algebra_simps)
  next
    case False
    then have "work \<le> of_nat (Suc m) * every" using n(2) m(1) by simp
    then show ?thesis using half assms(2) by (simp add: algebra_simps)
  qed
  let ?r0 = "(redis_del key r)(key \<mapsto> (tok, Some (t + ttl)))"
  have a0: "acquireLock key tok ttl t (redis_del key r) = (True, ?r0)" by simp
  have "owned_until key tok (t + of_nat 0 * every + ttl) ?r0" by (simp add: owned_until_def)
  from renewals_in_time [OF assms(1,2) this, of m]
  obtain r1 where r1: "renewals key tok ttl t (map ?f [0..<m]) ?r0 = (m, r1)"
    "owned_until key tok (t + of_nat m * every + ttl) r1" by auto
  have stolen: "acquireLock key rival ttl (t + half) r1 = (False, r1)"
    using owned_get [OF r1(2), of "t + half"] half_live by simp
  from renewals_in_time [OF assms(1,2) r1(2) m(1)]
  obtain r3 where r3: "renewals key tok ttl t (map ?f [m..<n]) r1 = (n - m, r3)"
    "owned_until key tok (t + of_nat n * every + ttl) r3" by blast
  have "t + work \<le> t + of_nat n * every + ttl" using n(2) assms(2) by (simp add: algebra_simps)
  from owned_get [OF r3(2) this] have held: "redis_get (t + work) key r3 = Some tok" .
  have "demonstrateSuccessfulRenewal key ttl every work tok rival t r =
      (Inr \<lparr>renewalCount = m + (n - m), lockHeldThroughout = True, competitorAcquiredDuringWork = False\<rparr>,
       snd (releaseLock key tok (t + work) r3))"
    unfolding demonstrateSuccessfulRenewal_def a0 Let_def prod.case half_def [symmetric] early late
    using r1(1) stolen r3(1) held by simp
  then show ?thesis using m(1) n(3) by simp
qed

text \<open>
  What the lock demonstrations show holds from every state of the store, at every time and for every
  pair of tokens: of two racing workers exactly the first gets the lock; a stranger cannot release it;
  the two-step release of a worker whose lease ran out deletes the next owner's lock, the script
  would refuse; a heartbeat at most one time to live apart keeps the lock for any length of work,
  with one renewal per period; and after a longer pause the lock is lost and the renewal refused.
\<close>

lemma lock_demonstrations:
  assumes "a \<noteq> b" and "0 < every" and "every \<le> ttl" and "0 < work" and "ttl < pause"
  shows "fst (demonstrateLockRace key ttl a b t r) = \<lparr>acquiredA = True, acquiredB = False, winner = ''A''\<rparr>
    \<and> fst (demonstrateWrongOwnerCannotRelease key ttl a b t r)
        = Inr \<lparr>wrongOwnerReleaseSucceeded = False, keySurvived = True, keyValueAfter = Some a\<rparr>
    \<and> fst (demonstrateUnsafeCheckThenDeleteRace key a b t r)
        = \<lparr>acquiredBAfterExpiry = True, aDeletedBsLock = True, keyValueAfterAsRelease = None\<rparr>
    \<and> releaseLock key a t (r(key \<mapsto> (b, Some (t + ttl)))) = (False, r(key \<mapsto> (b, Some (t + ttl))))
    \<and> fst (demonstrateSuccessfulRenewal key ttl every work a b t r)
        = Inr \<lparr>renewalCount = nat (\<lceil>work / every\<rceil> - 1), lockHeldThroughout = True,
               competitorAcquiredDuringWork = False\<rparr>
    \<and> fst (demonstrateRenewalPauseAllowsTheft key ttl pause a b t r) = (True, False)"
proof (intro conjI)
  have ttl: "0 < ttl" using assms(2,3) by linarith
  show "fst (demonstrateLockRace key ttl a b t r) = \<lparr>acquiredA = True, acquiredB = False, winner = ''A''\<rparr>"
    using ttl by (simp add: demonstrateLockRace_def)
  show "fst (demonstrateWrongOwnerCannotRelease key ttl a b t r)
        = Inr \<lparr>wrongOwnerReleaseSucceeded = False, keySurvived = True, keyValueAfter = Some a\<rparr>"
    using ttl assms(1) by (simp add: demonstrateWrongOwnerCannotRelease_def releaseLock_def)
  show "fst (demonstrateUnsafeCheckThenDeleteRace key a b t r)
        = \<lparr>acquiredBAfterExpiry = True, aDeletedBsLock = True, keyValueAfterAsRelease = None\<rparr>"
    using assms(1) by (simp add: demonstrateUnsafeCheckThenDeleteRace_def unsafe_check_def Let_def)
  show "releaseLock key a t (r(key \<mapsto> (b, Some (t + ttl)))) = (False, r(key \<mapsto> (b, Some (t + ttl))))"
    using ttl assms(1) by (simp add: releaseLock_def)
  show "fst (demonstrateSuccessfulRenewal key ttl every work a b t r)
        = Inr \<lparr>renewalCount = nat (\<lceil>work / every\<rceil> - 1), lockHeldThroughout = True,
               competitorAcquiredDuringWork = False\<rparr>"
    by (rule renewal_keeps_lease [OF assms(2-4)])
  show "fst (demonstrateRenewalPauseAllowsTheft key ttl pause a b t r) = (True, False)"
    using ttl assms(1,5) by (simp add: demonstrateRenewalPauseAllowsTheft_def renewLock_def)
qed

lemma lock_demonstrations_witness:
  "fst (demonstrateSuccessfulRenewal ''k'' 200 60 1000 ''a'' ''b'' 0 Map.empty)
     = Inr \<lparr>renewalCount = 16, lockHeldThroughout = True, competitorAcquiredDuringWork = False\<rparr>"
proof -
  have "\<lceil>1000 / 60 :: rat\<rceil> = 17" by (rule ceiling_unique) simp_all
  then show ?thesis
    using lock_demonstrations [of "''a''" "''b''" 60 200 1000 500 "''k''" 0 Map.empty] by simp
qed

end
