(* ===== verification/Redis_Fencing.thy ===== *)
theory Redis_Fencing
  imports Redis_Lock Sql_Table
begin

text \<open>
  Lab 22's fencing tokens, \<open>labs/22-*/src/redis-lock/{support,fencing-token,lease-expiry-bug}.ts\<close>: the
  shared resource row, its naive and its fenced update, the acquisition that draws a token, the two
  demonstrations, and any interleaving of fenced workers. The \<open>SET\<close> and the \<open>INCR\<close> of an acquisition
  are two commands, so other workers may come between them.
\<close>

section \<open>The resource and its keys\<close>

record ResourceStateRow =
  row_id :: nat
  row_name :: string
  row_token :: int
  row_writer :: "string option"
  row_updatedAt :: rat

definition lockKeyFor :: "string \<Rightarrow> string" where
  "lockKeyFor name = ''lock:resource:'' @ name"

definition fencingCounterKeyFor :: "string \<Rightarrow> string" where
  "fencingCounterKeyFor name = ''fencing:resource:'' @ name"

definition readResourceState :: "string \<Rightarrow> ResourceStateRow list \<Rightarrow> string + ResourceStateRow" where
  "readResourceState name rows =
     (case row_with (\<lambda>x. row_name x = name) rows of
        None \<Rightarrow> Inl (''resource_state row \"'' @ name @ ''\" not found - run `pnpm seed` first'')
      | Some row \<Rightarrow> Inr row)"

definition resetScenarioState ::
  "string \<Rightarrow> rat \<Rightarrow> ResourceStateRow list \<times> redis \<Rightarrow> ResourceStateRow list \<times> redis" where
  "resetScenarioState name t s =
     (update_where (\<lambda>x. row_name x = name) (\<lambda>x. x\<lparr>row_token := 0, row_writer := None, row_updatedAt := t\<rparr>) (fst s),
      redis_del (fencingCounterKeyFor name) (redis_del (lockKeyFor name) (snd s)))"

definition writeResourceStateNaive ::
  "string \<Rightarrow> string \<Rightarrow> rat \<Rightarrow> ResourceStateRow list \<Rightarrow> nat \<times> ResourceStateRow list" where
  "writeResourceStateNaive name writerId t rows =
     (row_count (\<lambda>x. row_name x = name) rows,
      update_where (\<lambda>x. row_name x = name) (\<lambda>x. x\<lparr>row_writer := Some writerId, row_updatedAt := t\<rparr>) rows)"

definition writeResourceStateFenced ::
  "string \<Rightarrow> string \<Rightarrow> int \<Rightarrow> rat \<Rightarrow> ResourceStateRow list \<Rightarrow> nat \<times> ResourceStateRow list" where
  "writeResourceStateFenced name writerId fencingToken t rows =
     (row_count (\<lambda>x. row_name x = name \<and> row_token x < fencingToken) rows,
      update_where (\<lambda>x. row_name x = name \<and> row_token x < fencingToken)
        (\<lambda>x. x\<lparr>row_token := fencingToken, row_writer := Some writerId, row_updatedAt := t\<rparr>) rows)"

definition acquireLockWithFencingToken ::
  "string \<Rightarrow> string \<Rightarrow> string \<Rightarrow> rat \<Rightarrow> rat \<Rightarrow> redis \<Rightarrow> (bool \<times> nat option) \<times> redis" where
  "acquireLockWithFencingToken lockKey fencingCounterKey ownerToken ttlMs t r =
     (let (acquired, r1) = acquireLock lockKey ownerToken ttlMs t r
      in if \<not> acquired then ((False, None), r1)
         else (let (n, r2) = redis_incr t fencingCounterKey r1 in ((True, Some n), r2)))"

section \<open>The two demonstrations\<close>

definition LOCK_TTL_MS :: rat where "LOCK_TTL_MS = 200"
definition WORKER_A_WORK_MS :: rat where "WORKER_A_WORK_MS = 400"
definition WORKER_B_START_DELAY_MS :: rat where "WORKER_B_START_DELAY_MS = 250"
definition WORKER_B_WORK_MS :: rat where "WORKER_B_WORK_MS = 100"

record WorkerRun =
  lockAcquired :: bool
  fencingToken :: "nat option"
  lockAcquiredAtMs :: rat
  writeAttemptedAtMs :: rat
  writeRowCount :: nat

definition writeAccepted :: "WorkerRun \<Rightarrow> bool" where
  "writeAccepted w \<longleftrightarrow> 0 < writeRowCount w"

record demo_result =
  workerA :: WorkerRun
  workerB :: WorkerRun
  finalRow :: ResourceStateRow

text \<open>\<open>fencingToken ?? -1\<close>\<close>

definition token_or :: "nat option \<Rightarrow> int" where
  "token_or tk = (case tk of Some n \<Rightarrow> int n | None \<Rightarrow> -1)"

text \<open>Both flows start at \<open>t0\<close>; their constants put the four commands in the order A, B, B's write, A's write.\<close>

definition runLeaseExpiryBugDemo ::
  "string \<Rightarrow> string \<Rightarrow> string \<Rightarrow> rat \<Rightarrow> ResourceStateRow list \<times> redis
     \<Rightarrow> (string + demo_result) \<times> ResourceStateRow list \<times> redis" where
  "runLeaseExpiryBugDemo name tokenA tokenB t0 s =
     (let (rows0, r0) = resetScenarioState name t0 s;
          lockKey = lockKeyFor name;
          tB = t0 + WORKER_B_START_DELAY_MS;
          tBw = tB + WORKER_B_WORK_MS;
          tAw = t0 + WORKER_A_WORK_MS;
          (okA, r1) = acquireLock lockKey tokenA LOCK_TTL_MS t0 r0;
          (okB, r2) = acquireLock lockKey tokenB LOCK_TTL_MS tB r1;
          (nB, rows1) = writeResourceStateNaive name ''worker-B'' tBw rows0;
          (nA, rows2) = writeResourceStateNaive name ''worker-A'' tAw rows1
      in (map_sum id (\<lambda>row. \<lparr>
            workerA = \<lparr>lockAcquired = okA, fencingToken = None, lockAcquiredAtMs = 0,
                        writeAttemptedAtMs = tAw - t0, writeRowCount = nA\<rparr>,
            workerB = \<lparr>lockAcquired = okB, fencingToken = None, lockAcquiredAtMs = tB - t0,
                        writeAttemptedAtMs = tBw - t0, writeRowCount = nB\<rparr>,
            finalRow = row\<rparr>) (readResourceState name rows2), rows2, r2))"

definition bothBelievedTheyHeldTheLockAtTheSameTime :: "demo_result \<Rightarrow> bool" where
  "bothBelievedTheyHeldTheLockAtTheSameTime d \<longleftrightarrow>
     lockAcquired (workerA d) \<and> lockAcquired (workerB d)
     \<and> lockAcquiredAtMs (workerB d) < writeAttemptedAtMs (workerA d)
     \<and> lockAcquiredAtMs (workerA d) < writeAttemptedAtMs (workerB d)"

definition runFencingTokenFixDemo ::
  "string \<Rightarrow> string \<Rightarrow> string \<Rightarrow> rat \<Rightarrow> ResourceStateRow list \<times> redis
     \<Rightarrow> (string + demo_result) \<times> ResourceStateRow list \<times> redis" where
  "runFencingTokenFixDemo name tokenA tokenB t0 s =
     (let (rows0, r0) = resetScenarioState name t0 s;
          lockKey = lockKeyFor name;
          counter = fencingCounterKeyFor name;
          tB = t0 + WORKER_B_START_DELAY_MS;
          tBw = tB + WORKER_B_WORK_MS;
          tAw = t0 + WORKER_A_WORK_MS;
          ((okA, fA), r1) = acquireLockWithFencingToken lockKey counter tokenA LOCK_TTL_MS t0 r0;
          ((okB, fB), r2) = acquireLockWithFencingToken lockKey counter tokenB LOCK_TTL_MS tB r1;
          (nB, rows1) = writeResourceStateFenced name ''worker-B'' (token_or fB) tBw rows0;
          (nA, rows2) = writeResourceStateFenced name ''worker-A'' (token_or fA) tAw rows1
      in (map_sum id (\<lambda>row. \<lparr>
            workerA = \<lparr>lockAcquired = okA, fencingToken = fA, lockAcquiredAtMs = 0,
                        writeAttemptedAtMs = tAw - t0, writeRowCount = nA\<rparr>,
            workerB = \<lparr>lockAcquired = okB, fencingToken = fB, lockAcquiredAtMs = tB - t0,
                        writeAttemptedAtMs = tBw - t0, writeRowCount = nB\<rparr>,
            finalRow = row\<rparr>) (readResourceState name rows2), rows2, r2))"

section \<open>Fenced workers, interleaved\<close>

text \<open>
  Each worker acquires once, draws its token, and writes once; it is named by its owner token. A worker
  refused the lock writes with -1. The flag \<open>prompt\<close> demands that a token is drawn within the lease.
\<close>

datatype fence_phase = FIdle | FLocked rat | FHolds rat nat | FDone rat nat bool

record fence_sys =
  f_redis :: redis
  f_time :: rat
  f_rows :: "ResourceStateRow list"
  f_phase :: "string \<Rightarrow> fence_phase"
  f_accepted :: "(string \<times> nat) list"

inductive fence_step :: "bool \<Rightarrow> rat \<Rightarrow> string \<Rightarrow> fence_sys \<Rightarrow> fence_sys \<Rightarrow> bool"
  for prompt ttl name where
  tick: "0 \<le> d \<Longrightarrow> fence_step prompt ttl name s (s\<lparr>f_time := f_time s + d\<rparr>)"
| lock: "f_phase s w = FIdle \<Longrightarrow> acquireLock (lockKeyFor name) w ttl (f_time s) (f_redis s) = (True, r) \<Longrightarrow>
    fence_step prompt ttl name s
      (s\<lparr>f_redis := r, f_phase := (f_phase s)(w := FLocked (f_time s))\<rparr>)"
| denied: "f_phase s w = FIdle \<Longrightarrow> acquireLock (lockKeyFor name) w ttl (f_time s) (f_redis s) = (False, r) \<Longrightarrow>
    writeResourceStateFenced name w (token_or None) (f_time s) (f_rows s) = (n, rows) \<Longrightarrow>
    fence_step prompt ttl name s (s\<lparr>f_redis := r, f_rows := rows\<rparr>)"
| draw: "f_phase s w = FLocked a \<Longrightarrow> (prompt \<longrightarrow> f_time s \<le> a + ttl) \<Longrightarrow>
    redis_incr (f_time s) (fencingCounterKeyFor name) (f_redis s) = (n, r) \<Longrightarrow>
    fence_step prompt ttl name s (s\<lparr>f_redis := r, f_phase := (f_phase s)(w := FHolds a n)\<rparr>)"
| fenced_write: "f_phase s w = FHolds a n \<Longrightarrow>
    writeResourceStateFenced name w (int n) (f_time s) (f_rows s) = (k, rows) \<Longrightarrow>
    fence_step prompt ttl name s
      (s\<lparr>f_rows := rows, f_phase := (f_phase s)(w := FDone a n (0 < k)),
         f_accepted := (if 0 < k then f_accepted s @ [(w, n)] else f_accepted s)\<rparr>)"

inductive_cases fence_stepE: "fence_step prompt ttl name s s'"

definition fence_init :: "string \<Rightarrow> fence_sys \<Rightarrow> bool" where
  "fence_init name s \<longleftrightarrow> f_redis s (lockKeyFor name) = None \<and> f_redis s (fencingCounterKeyFor name) = None
     \<and> distinct (map row_name (f_rows s))
     \<and> (\<exists>row. row_with (\<lambda>x. row_name x = name) (f_rows s) = Some row \<and> row_token row = 0)
     \<and> f_phase s = (\<lambda>_. FIdle) \<and> f_accepted s = []"

inductive fence_reach :: "bool \<Rightarrow> rat \<Rightarrow> string \<Rightarrow> fence_sys \<Rightarrow> bool" for prompt ttl name where
  start: "fence_init name s \<Longrightarrow> fence_reach prompt ttl name s"
| step: "fence_reach prompt ttl name s \<Longrightarrow> fence_step prompt ttl name s s' \<Longrightarrow> fence_reach prompt ttl name s'"

section \<open>Invariants\<close>

fun token_of :: "fence_phase \<Rightarrow> (rat \<times> nat) option" where
  "token_of (FHolds a n) = Some (a, n)"
| "token_of (FDone a n _) = Some (a, n)"
| "token_of _ = None"

fun since :: "fence_phase \<Rightarrow> rat option" where
  "since FIdle = None"
| "since (FLocked a) = Some a"
| "since (FHolds a _) = Some a"
| "since (FDone a _ _) = Some a"

lemma since_token: "token_of p = Some (a, n) \<Longrightarrow> since p = Some a"
  by (cases p) auto

lemma keys_differ [simp]: "lockKeyFor m \<noteq> fencingCounterKeyFor k" "fencingCounterKeyFor k \<noteq> lockKeyFor m"
  by (simp_all add: lockKeyFor_def fencingCounterKeyFor_def)

definition row_is :: "string \<Rightarrow> int \<Rightarrow> ResourceStateRow list \<Rightarrow> bool" where
  "row_is name n rows \<longleftrightarrow> distinct (map row_name rows)
     \<and> (\<exists>row. row_with (\<lambda>x. row_name x = name) rows = Some row \<and> row_token row = n)"

lemma fenced_effect:
  assumes "row_is name m rows"
  shows "writeResourceStateFenced name w n t rows =
     (if m < n then (1, update_where (\<lambda>x. row_name x = name)
        (\<lambda>x. x\<lparr>row_token := n, row_writer := Some w, row_updatedAt := t\<rparr>) rows) else (0, rows))"
proof -
  obtain row where row: "row_with (\<lambda>x. row_name x = name) rows = Some row" "row_token row = m"
    and dist: "distinct (map row_name rows)" using assms by (auto simp: row_is_def)
  have tok: "row_token x = m" if "x \<in> set rows" "row_name x = name" for x
    using row_with_unique [OF dist that(1)] that(2) row by simp
  have in_rows: "row \<in> set rows" "row_name row = name" using row_with_Some [OF row(1)] by auto
  show ?thesis
  proof (cases "m < n")
    case True
    have "row_count (\<lambda>x. row_name x = name \<and> row_token x < n) rows = row_count (\<lambda>x. row_name x = name) rows"
      using tok True unfolding row_count_def by (intro arg_cong [of _ _ length] filter_cong) auto
    moreover have "row_count (\<lambda>x. row_name x = name) rows \<noteq> 0" using in_rows by (auto simp: row_count_zero)
    with row_count_key_le_1 [OF dist, of name] have "row_count (\<lambda>x. row_name x = name) rows = 1" by linarith
    moreover have "update_where (\<lambda>x. row_name x = name \<and> row_token x < n) f rows = update_where (\<lambda>x. row_name x = name) f rows" for f
      using tok True by (auto simp: update_where_def)
    ultimately show ?thesis using True by (simp add: writeResourceStateFenced_def)
  next
    case False
    then have none: "\<forall>x \<in> set rows. \<not> (row_name x = name \<and> row_token x < n)" using tok by auto
    from none have "row_count (\<lambda>x. row_name x = name \<and> row_token x < n) rows = 0" unfolding row_count_zero .
    with update_where_none [OF none] False show ?thesis by (simp add: writeResourceStateFenced_def)
  qed
qed

lemma row_is_written:
  "row_is name m rows \<Longrightarrow> row_is name n (update_where (\<lambda>x. row_name x = name)
     (\<lambda>x. x\<lparr>row_token := n, row_writer := wr, row_updatedAt := t\<rparr>) rows)"
  using row_with_update_key [of row_name "\<lambda>x. x\<lparr>row_token := n, row_writer := wr, row_updatedAt := t\<rparr>" name name rows]
  by (auto simp: row_is_def map_update_where)

definition stored :: "(string \<times> nat) list \<Rightarrow> int" where
  "stored acc = (if acc = [] then 0 else int (snd (last acc)))"

definition fence_inv :: "string \<Rightarrow> fence_sys \<Rightarrow> bool" where
  "fence_inv name s \<longleftrightarrow>
     (\<exists>c. counter_at (fencingCounterKeyFor name) (f_redis s) c
        \<and> (\<forall>w a n. token_of (f_phase s w) = Some (a, n) \<longrightarrow> 1 \<le> n \<and> n \<le> c))
     \<and> (\<forall>v w a b n. token_of (f_phase s v) = Some (a, n) \<longrightarrow> token_of (f_phase s w) = Some (b, n) \<longrightarrow> v = w)
     \<and> row_is name (stored (f_accepted s)) (f_rows s)
     \<and> sorted_wrt (<) (map snd (f_accepted s))
     \<and> (\<forall>x \<in> set (f_accepted s). \<exists>a. f_phase s (fst x) = FDone a (snd x) True)"

lemma fence_inv_init: "fence_init name s \<Longrightarrow> fence_inv name s"
  by (auto simp: fence_init_def fence_inv_def row_is_def stored_def counter_at_def intro!: exI [of _ 0])

lemma acquire_True:
  "acquireLock key w ttl t r = (True, r') \<Longrightarrow> redis_get t key r = None \<and> r' = r(key \<mapsto> (w, Some (t + ttl)))"
  by (auto simp: acquireLock_def redis_set_nx_px_def split: if_splits)

lemma acquire_False: "acquireLock key w ttl t r = (False, r') \<Longrightarrow> r' = r"
  by (auto simp: acquireLock_def redis_set_nx_px_def split: if_splits)

lemma fence_invD:
  assumes "fence_inv name s"
  shows "\<exists>c. counter_at (fencingCounterKeyFor name) (f_redis s) c
           \<and> (\<forall>w a n. token_of (f_phase s w) = Some (a, n) \<longrightarrow> 1 \<le> n \<and> n \<le> c)"
    and "token_of (f_phase s v) = Some (a, n) \<Longrightarrow> token_of (f_phase s w) = Some (b, n) \<Longrightarrow> v = w"
    and "row_is name (stored (f_accepted s)) (f_rows s)"
    and "sorted_wrt (<) (map snd (f_accepted s))"
    and "x \<in> set (f_accepted s) \<Longrightarrow> \<exists>a. f_phase s (fst x) = FDone a (snd x) True"
  using assms unfolding fence_inv_def by blast+

lemma sorted_last: "sorted_wrt (<) xs \<Longrightarrow> m \<in> set xs \<Longrightarrow> m \<le> last (xs :: nat list)"
  by (induction xs rule: rev_induct) (auto simp: sorted_wrt_append)

lemma accepted_kept:
  assumes "fence_inv name s" and "f_phase s' = (f_phase s)(w := q)"
    and "\<And>a n. f_phase s w \<noteq> FDone a n True"
  shows "\<forall>x \<in> set (f_accepted s). \<exists>a. f_phase s' (fst x) = FDone a (snd x) True"
proof
  fix x assume "x \<in> set (f_accepted s)"
  from fence_invD(5) [OF assms(1) this] obtain a where a: "f_phase s (fst x) = FDone a (snd x) True" by blast
  then have "fst x \<noteq> w" using assms(3) by auto
  with a assms(2) show "\<exists>a. f_phase s' (fst x) = FDone a (snd x) True" by simp
qed

lemma fence_inv_step:
  assumes "fence_inv name s" and "fence_step prompt ttl name s s'"
  shows "fence_inv name s'"
  using assms(2)
proof cases
  case (tick d)
  then show ?thesis using assms(1) by (simp add: fence_inv_def)
next
  case (lock w r)
  have "token_of (f_phase s' v) = token_of (f_phase s v)" for v using lock(1,2) by simp
  moreover have "counter_at (fencingCounterKeyFor name) (f_redis s') c = counter_at (fencingCounterKeyFor name) (f_redis s) c" for c
    using acquire_True [OF lock(3)] lock(1) by simp
  moreover have "f_accepted s' = f_accepted s" "f_rows s' = f_rows s" using lock(1) by simp_all
  moreover have "\<forall>x \<in> set (f_accepted s). \<exists>a. f_phase s' (fst x) = FDone a (snd x) True"
    by (rule accepted_kept [OF assms(1)]) (use lock(1,2) in auto)
  ultimately show ?thesis using assms(1) unfolding fence_inv_def by simp
next
  case (denied w r n rows)
  have "0 \<le> stored (f_accepted s)" by (simp add: stored_def)
  then have "rows = f_rows s"
    using fenced_effect [of name "stored (f_accepted s)" "f_rows s" w "-1" "f_time s"] assms(1) denied(4)
    by (simp add: fence_inv_def token_or_def)
  then show ?thesis using acquire_False [OF denied(3)] denied(1) assms(1) by simp
next
  case (draw w a n r)
  obtain c where c: "counter_at (fencingCounterKeyFor name) (f_redis s) c"
    "\<forall>w a n. token_of (f_phase s w) = Some (a, n) \<longrightarrow> 1 \<le> n \<and> n \<le> c"
    using fence_invD(1) [OF assms(1)] by blast
  have n: "n = Suc c" "r = (f_redis s)(fencingCounterKeyFor name \<mapsto> (nat_str (Suc c), None))"
    using counter_incr [OF c(1), of "f_time s"] draw(4) by auto
  have "counter_at (fencingCounterKeyFor name) (f_redis s') (Suc c)" using n draw(1) by simp
  moreover have "\<forall>w a n. token_of (f_phase s' w) = Some (a, n) \<longrightarrow> 1 \<le> n \<and> n \<le> Suc c"
  proof (intro allI impI)
    fix v b m assume "token_of (f_phase s' v) = Some (b, m)"
    then show "1 \<le> m \<and> m \<le> Suc c"
      using c(2) [rule_format, of v b m] draw(1) n(1) by (cases "v = w") auto
  qed
  moreover have "\<forall>v u a b m. token_of (f_phase s' v) = Some (a, m) \<longrightarrow> token_of (f_phase s' u) = Some (b, m) \<longrightarrow> v = u"
  proof (intro allI impI)
    fix v u b d m assume h: "token_of (f_phase s' v) = Some (b, m)" "token_of (f_phase s' u) = Some (d, m)"
    have "x = w" if "token_of (f_phase s' x) = Some (e, Suc c)" for x e
      using c(2) [rule_format, of x e "Suc c"] that draw(1) by (cases "x = w") auto
    moreover have "f_phase s' x = f_phase s x" if "x \<noteq> w" for x using that draw(1) by simp
    moreover have "m = Suc c" if "v = w \<or> u = w" using that h draw(1) n(1) by auto
    ultimately show "v = u" using h fence_invD(2) [OF assms(1), of v b m u d] by metis
  qed
  moreover have "\<forall>x \<in> set (f_accepted s). \<exists>a. f_phase s' (fst x) = FDone a (snd x) True"
    by (rule accepted_kept [OF assms(1)]) (use draw(1,2) in auto)
  moreover have "f_accepted s' = f_accepted s" "f_rows s' = f_rows s" using draw(1) by simp_all
  ultimately show ?thesis using assms(1) unfolding fence_inv_def by auto
next
  case (fenced_write w a n k rows)
  have tok: "token_of (f_phase s' v) = token_of (f_phase s v)" for v using fenced_write(1,2) by simp
  have row: "row_is name (stored (f_accepted s)) (f_rows s)" using assms(1) by (simp add: fence_inv_def)
  have red: "f_redis s' = f_redis s" using fenced_write(1) by simp
  have old: "\<forall>x \<in> set (f_accepted s). \<exists>a. f_phase s' (fst x) = FDone a (snd x) True"
    by (rule accepted_kept [OF assms(1)]) (use fenced_write(1,2) in auto)
  show ?thesis
  proof (cases "stored (f_accepted s) < int n")
    case True
    then have k: "k = 1" "rows = update_where (\<lambda>x. row_name x = name)
        (\<lambda>x. x\<lparr>row_token := int n, row_writer := Some w, row_updatedAt := f_time s\<rparr>) (f_rows s)"
      using fenced_effect [OF row] fenced_write(3) by auto
    have acc: "f_accepted s' = f_accepted s @ [(w, n)]" "f_rows s' = rows" "f_phase s' w = FDone a n True"
      using fenced_write(1) k(1) by simp_all
    have "row_is name (stored (f_accepted s')) (f_rows s')"
      using row_is_written [OF row] by (simp add: acc k(2) stored_def)
    moreover have "sorted_wrt (<) (map snd (f_accepted s'))"
    proof -
      have "m < n" if "m \<in> set (map snd (f_accepted s))" for m
      proof -
        have srt: "sorted_wrt (<) (map snd (f_accepted s))" using assms(1) by (simp add: fence_inv_def)
        have "m \<le> last (map snd (f_accepted s))" using sorted_last [OF srt that] .
        moreover have "map snd (f_accepted s) \<noteq> []" using that by auto
        ultimately show ?thesis using True by (auto simp: stored_def last_map split: if_splits)
      qed
      then show ?thesis using fence_invD(4) [OF assms(1)] by (auto simp: acc sorted_wrt_append)
    qed
    moreover have "\<forall>x \<in> set (f_accepted s'). \<exists>a. f_phase s' (fst x) = FDone a (snd x) True"
      using old acc by auto
    ultimately show ?thesis using assms(1) tok red unfolding fence_inv_def by simp
  next
    case False
    then have k: "k = 0" "rows = f_rows s" using fenced_effect [OF row] fenced_write(3) by auto
    then have "f_accepted s' = f_accepted s" "f_rows s' = f_rows s" using fenced_write(1) by simp_all
    with old assms(1) tok red show ?thesis unfolding fence_inv_def by simp
  qed
qed

lemma reach_fence_inv: "fence_reach prompt ttl name s \<Longrightarrow> fence_inv name s"
  by (induction rule: fence_reach.induct) (auto intro: fence_inv_init fence_inv_step)

text \<open>With tokens drawn within the lease, tokens follow the order of the acquisitions.\<close>

definition lease_inv :: "rat \<Rightarrow> string \<Rightarrow> fence_sys \<Rightarrow> bool" where
  "lease_inv ttl name s \<longleftrightarrow>
     (\<forall>w a. since (f_phase s w) = Some a \<longrightarrow> a \<le> f_time s
        \<and> (f_time s \<le> a + ttl \<longrightarrow> f_redis s (lockKeyFor name) = Some (w, Some (a + ttl))))
     \<and> (\<forall>v w a b. v \<noteq> w \<longrightarrow> since (f_phase s v) = Some a \<longrightarrow> since (f_phase s w) = Some b \<longrightarrow>
          a + ttl < b \<or> b + ttl < a)
     \<and> (\<forall>v w a b n m. token_of (f_phase s v) = Some (a, n) \<longrightarrow> token_of (f_phase s w) = Some (b, m) \<longrightarrow>
          n < m \<longrightarrow> a + ttl < b)"

lemma lease_invI:
  assumes "\<And>w a. since (f_phase s w) = Some a \<Longrightarrow> a \<le> f_time s
        \<and> (f_time s \<le> a + ttl \<longrightarrow> f_redis s (lockKeyFor name) = Some (w, Some (a + ttl)))"
    and "\<And>v w a b. v \<noteq> w \<Longrightarrow> since (f_phase s v) = Some a \<Longrightarrow> since (f_phase s w) = Some b \<Longrightarrow>
          a + ttl < b \<or> b + ttl < a"
    and "\<And>v w a b n m. token_of (f_phase s v) = Some (a, n) \<Longrightarrow> token_of (f_phase s w) = Some (b, m) \<Longrightarrow>
          n < m \<Longrightarrow> a + ttl < b"
  shows "lease_inv ttl name s"
  unfolding lease_inv_def using assms by blast

lemma lease_invD:
  assumes "lease_inv ttl name s"
  shows "since (f_phase s w) = Some a \<Longrightarrow> a \<le> f_time s"
    and "since (f_phase s w) = Some a \<Longrightarrow> f_time s \<le> a + ttl \<Longrightarrow> f_redis s (lockKeyFor name) = Some (w, Some (a + ttl))"
    and "v \<noteq> w \<Longrightarrow> since (f_phase s v) = Some a \<Longrightarrow> since (f_phase s w) = Some b \<Longrightarrow> a + ttl < b \<or> b + ttl < a"
    and "token_of (f_phase s v) = Some (a, n) \<Longrightarrow> token_of (f_phase s w) = Some (b, m) \<Longrightarrow> n < m \<Longrightarrow> a + ttl < b"
  using assms unfolding lease_inv_def by blast+

text \<open>A step that changes neither the acquisitions nor the tokens nor the lock keeps the order.\<close>

lemma lease_inv_frame:
  assumes "lease_inv ttl name s" and "\<And>w. since (f_phase s' w) = since (f_phase s w)"
    and "\<And>w. token_of (f_phase s' w) = token_of (f_phase s w)"
    and "f_time s \<le> f_time s'" and "f_redis s' (lockKeyFor name) = f_redis s (lockKeyFor name)"
  shows "lease_inv ttl name s'"
proof (rule lease_invI)
  fix w a assume a: "since (f_phase s' w) = Some a"
  then have "a \<le> f_time s" using lease_invD(1) [OF assms(1)] assms(2) by simp
  then show "a \<le> f_time s' \<and> (f_time s' \<le> a + ttl \<longrightarrow> f_redis s' (lockKeyFor name) = Some (w, Some (a + ttl)))"
    using a lease_invD(2) [OF assms(1), of w a] assms(2,4,5) by auto
qed (use lease_invD(3,4) [OF assms(1)] assms(2,3) in auto)

lemma lease_inv_step:
  assumes inv: "fence_inv name s" "lease_inv ttl name s" and "fence_step True ttl name s s'" and "0 \<le> ttl"
  shows "lease_inv ttl name s'"
  using assms(3)
proof cases
  case (tick d)
  then show ?thesis by (intro lease_inv_frame [OF inv(2)]) simp_all
next
  case (denied w r n rows)
  then show ?thesis using acquire_False [OF denied(3)] by (intro lease_inv_frame [OF inv(2)]) simp_all
next
  case (fenced_write w a n k rows)
  then show ?thesis by (intro lease_inv_frame [OF inv(2)]) simp_all
next
  case (lock w r)
  have free: "redis_get (f_time s) (lockKeyFor name) (f_redis s) = None"
    and r: "r = (f_redis s)(lockKeyFor name \<mapsto> (w, Some (f_time s + ttl)))"
    using acquire_True [OF lock(3)] by simp_all
  have late: "a + ttl < f_time s" if "since (f_phase s v) = Some a" for v a
  proof (rule ccontr)
    assume "\<not> a + ttl < f_time s"
    with lease_invD(2) [OF inv(2) that] have "f_redis s (lockKeyFor name) = Some (v, Some (a + ttl))" by simp
    then show False using free \<open>\<not> a + ttl < f_time s\<close> by (simp add: redis_get_def)
  qed
  have old: "since (f_phase s' v) = (if v = w then Some (f_time s) else since (f_phase s v))" for v
    using lock(1) by simp
  show ?thesis
  proof (rule lease_invI)
    fix v a assume a: "since (f_phase s' v) = Some a"
    show "a \<le> f_time s' \<and> (f_time s' \<le> a + ttl \<longrightarrow> f_redis s' (lockKeyFor name) = Some (v, Some (a + ttl)))"
    proof (cases "v = w")
      case True
      then show ?thesis using a old [of v] r lock(1) by simp
    next
      case False
      then show ?thesis using a old [of v] late [of v a] lease_invD(1) [OF inv(2), of v a] lock(1) by simp
    qed
  next
    fix v u a b assume "v \<noteq> u" "since (f_phase s' v) = Some a" "since (f_phase s' u) = Some b"
    then show "a + ttl < b \<or> b + ttl < a"
      using lease_invD(3) [OF inv(2), of v u a b] late old [of v] old [of u] by (auto split: if_splits)
  next
    fix v u a b n m
    assume "token_of (f_phase s' v) = Some (a, n)" "token_of (f_phase s' u) = Some (b, m)" "n < m"
    moreover have "token_of (f_phase s' x) = token_of (f_phase s x)" for x using lock(1,2) by simp
    ultimately show "a + ttl < b" using lease_invD(4) [OF inv(2), of v a n u b m] by simp
  qed
next
  case (draw w a n r)
  obtain c where c: "counter_at (fencingCounterKeyFor name) (f_redis s) c"
    "\<forall>w a n. token_of (f_phase s w) = Some (a, n) \<longrightarrow> 1 \<le> n \<and> n \<le> c"
    using fence_invD(1) [OF inv(1)] by blast
  have n: "n = Suc c" "r = (f_redis s)(fencingCounterKeyFor name \<mapsto> (nat_str (Suc c), None))"
    using counter_incr [OF c(1), of "f_time s"] draw(4) by auto
  have same: "since (f_phase s' v) = since (f_phase s v)" for v using draw(1,2) by simp
  show ?thesis
  proof (rule lease_invI)
    fix v b assume "since (f_phase s' v) = Some b"
    then show "b \<le> f_time s' \<and> (f_time s' \<le> b + ttl \<longrightarrow> f_redis s' (lockKeyFor name) = Some (v, Some (b + ttl)))"
      using lease_invD(1,2) [OF inv(2), of v b] same [of v] draw(1) n(2) by simp
  next
    fix v u b d assume "v \<noteq> u" "since (f_phase s' v) = Some b" "since (f_phase s' u) = Some d"
    then show "b + ttl < d \<or> d + ttl < b" using lease_invD(3) [OF inv(2), of v u b d] same by simp
  next
    fix v u b d k m
    assume h: "token_of (f_phase s' v) = Some (b, k)" "token_of (f_phase s' u) = Some (d, m)" "k < m"
    have tok: "token_of (f_phase s' x) = (if x = w then Some (a, Suc c) else token_of (f_phase s x))" for x
      using draw(1) n(1) by simp
    have v: "v \<noteq> w"
    proof
      assume "v = w"
      then have "k = Suc c" using h(1) tok [of v] by simp
      moreover have "m \<le> Suc c" using h(2) tok [of u] c(2) [rule_format, of u d m] by (auto split: if_splits)
      ultimately show False using h(3) by simp
    qed
    then have vtok: "token_of (f_phase s v) = Some (b, k)" using h(1) tok [of v] by simp
    show "b + ttl < d"
    proof (cases "u = w")
      case True
      then have d: "d = a" using h(2) tok [of u] by simp
      have "b \<le> f_time s" using lease_invD(1) [OF inv(2) since_token [OF vtok]] .
      moreover have "f_time s \<le> a + ttl" using draw(3) by simp
      moreover have "b + ttl < a \<or> a + ttl < b"
        using lease_invD(3) [OF inv(2) v since_token [OF vtok], of a] draw(2) by simp
      ultimately show ?thesis using d by auto
    next
      case False
      then show ?thesis using lease_invD(4) [OF inv(2) vtok _ h(3), of u d] h(2) tok [of u] by simp
    qed
  qed
qed

lemma reach_lease_inv: "fence_reach True ttl name s \<Longrightarrow> 0 \<le> ttl \<Longrightarrow> lease_inv ttl name s"
proof (induction rule: fence_reach.induct)
  case (start s)
  then show ?case by (auto simp: fence_init_def lease_inv_def)
next
  case (step s s')
  then show ?case using lease_inv_step [OF reach_fence_inv [OF step.hyps(1)]] by blast
qed

text \<open>
  C21: the fencing of writes. Whatever the interleaving, no two workers draw one token, the tokens of
  accepted writes strictly increase, and the row holds the last of them. If moreover every worker
  draws its token within its lease, tokens are in the order of the acquisitions, so that once a later
  holder has written, the write of any earlier one is refused.
\<close>

theorem fencing_orders_writes:
  assumes "fence_reach prompt ttl name s" and "0 \<le> ttl"
  shows "sorted_wrt (<) (map snd (f_accepted s)) \<and> row_is name (stored (f_accepted s)) (f_rows s)
    \<and> (\<forall>v w a b n. token_of (f_phase s v) = Some (a, n) \<and> token_of (f_phase s w) = Some (b, n) \<longrightarrow> v = w)
    \<and> (prompt \<longrightarrow>
        (\<forall>v w a b n m. token_of (f_phase s v) = Some (a, n) \<and> token_of (f_phase s w) = Some (b, m) \<longrightarrow>
           (n < m \<longleftrightarrow> a < b))
      \<and> (\<forall>v w a b n m. f_phase s v = FHolds a n \<and> f_phase s w = FDone b m True \<and> (w, m) \<in> set (f_accepted s)
           \<and> a < b \<longrightarrow> fst (writeResourceStateFenced name v (int n) (f_time s) (f_rows s)) = 0))"
proof -
  note inv = reach_fence_inv [OF assms(1)]
  have order: "n < m \<longleftrightarrow> a < b" if p: prompt and t: "token_of (f_phase s v) = Some (a, n)" "token_of (f_phase s w) = Some (b, m)"
    for v w a b n m
  proof -
    have pinv: "lease_inv ttl name s" using reach_lease_inv assms p by simp
    consider "n < m" | "m < n" | "n = m" by linarith
    then show ?thesis
    proof cases
      case 3
      then have "v = w" using fence_invD(2) [OF inv t(1)] t(2) by blast
      then show ?thesis using t 3 by simp
    qed (use lease_invD(4) [OF pinv t] lease_invD(4) [OF pinv t(2,1)] assms(2) in auto)
  qed
  have "fst (writeResourceStateFenced name v (int n) (f_time s) (f_rows s)) = 0"
    if p: prompt and h: "f_phase s v = FHolds a n" "f_phase s w = FDone b m True" "(w, m) \<in> set (f_accepted s)" "a < b"
    for v w a b n m
  proof -
    have "n < m" using order [OF p, of v a n w b m] h by simp
    moreover have "m \<le> last (map snd (f_accepted s))" using sorted_last [OF fence_invD(4) [OF inv], of m] h(3) by force
    moreover have "f_accepted s \<noteq> []" using h(3) by auto
    ultimately have "\<not> stored (f_accepted s) < int n" by (simp add: stored_def last_map)
    then show ?thesis using fenced_effect [OF fence_invD(3) [OF inv]] by simp
  qed
  then show ?thesis using order fence_invD [OF inv] by blast
qed

section \<open>Two runs\<close>

definition step_lock :: "rat \<Rightarrow> string \<Rightarrow> string \<Rightarrow> fence_sys \<Rightarrow> fence_sys" where
  "step_lock ttl name w s = s\<lparr>f_redis := snd (acquireLock (lockKeyFor name) w ttl (f_time s) (f_redis s)),
     f_phase := (f_phase s)(w := FLocked (f_time s))\<rparr>"

definition step_wait :: "rat \<Rightarrow> fence_sys \<Rightarrow> fence_sys" where
  "step_wait d s = s\<lparr>f_time := f_time s + d\<rparr>"

definition step_draw :: "string \<Rightarrow> string \<Rightarrow> rat \<Rightarrow> fence_sys \<Rightarrow> fence_sys" where
  "step_draw name w a s = (let (n, r) = redis_incr (f_time s) (fencingCounterKeyFor name) (f_redis s)
     in s\<lparr>f_redis := r, f_phase := (f_phase s)(w := FHolds a n)\<rparr>)"

definition step_write :: "string \<Rightarrow> string \<Rightarrow> rat \<Rightarrow> nat \<Rightarrow> fence_sys \<Rightarrow> fence_sys" where
  "step_write name w a n s = (let (k, rows) = writeResourceStateFenced name w (int n) (f_time s) (f_rows s)
     in s\<lparr>f_rows := rows, f_phase := (f_phase s)(w := FDone a n (0 < k)),
          f_accepted := (if 0 < k then f_accepted s @ [(w, n)] else f_accepted s)\<rparr>)"

lemma reach_steps:
  assumes "fence_reach prompt ttl name s"
  shows "f_phase s w = FIdle \<Longrightarrow> redis_get (f_time s) (lockKeyFor name) (f_redis s) = None \<Longrightarrow>
           fence_reach prompt ttl name (step_lock ttl name w s)"
    and "0 \<le> d \<Longrightarrow> fence_reach prompt ttl name (step_wait d s)"
    and "f_phase s w = FLocked a \<Longrightarrow> (prompt \<longrightarrow> f_time s \<le> a + ttl) \<Longrightarrow>
           fence_reach prompt ttl name (step_draw name w a s)"
    and "f_phase s w = FHolds a n \<Longrightarrow> fence_reach prompt ttl name (step_write name w a n s)"
proof -
  show "fence_reach prompt ttl name (step_lock ttl name w s)"
    if "f_phase s w = FIdle" "redis_get (f_time s) (lockKeyFor name) (f_redis s) = None"
    unfolding step_lock_def
    by (rule fence_reach.step [OF assms fence_step.lock]) (use that in simp_all)
  show "fence_reach prompt ttl name (step_wait d s)" if "0 \<le> d"
    unfolding step_wait_def by (rule fence_reach.step [OF assms fence_step.tick [OF that]])
  show "fence_reach prompt ttl name (step_draw name w a s)"
    if "f_phase s w = FLocked a" "prompt \<longrightarrow> f_time s \<le> a + ttl"
    unfolding step_draw_def
    by (cases "redis_incr (f_time s) (fencingCounterKeyFor name) (f_redis s)")
      (use fence_reach.step [OF assms fence_step.draw [OF that]] in simp)
  show "fence_reach prompt ttl name (step_write name w a n s)" if "f_phase s w = FHolds a n"
    unfolding step_write_def
    by (cases "writeResourceStateFenced name w (int n) (f_time s) (f_rows s)")
      (use fence_reach.step [OF assms fence_step.fenced_write [OF that]] in simp)
qed

definition fresh_resource :: fence_sys where
  "fresh_resource = \<lparr>f_redis = Map.empty, f_time = 0,
     f_rows = [\<lparr>row_id = 1, row_name = ''r'', row_token = 0, row_writer = None, row_updatedAt = 0\<rparr>],
     f_phase = (\<lambda>_. FIdle), f_accepted = []\<rparr>"

lemma fresh_reach: "fence_reach prompt ttl ''r'' fresh_resource"
  by (rule fence_reach.start) (simp add: fence_init_def fresh_resource_def row_with_def)

lemmas run_simps = step_lock_def step_wait_def step_draw_def step_write_def fresh_resource_def
  writeResourceStateFenced_def row_count_def update_where_def redis_incr_def redis_get_def val_of_nat_str
  live_def acquireLock_def redis_set_nx_px_def Let_def

definition prompt_run :: fence_sys where
  "prompt_run = step_write ''r'' ''B'' 250 2 (step_draw ''r'' ''B'' 250 (step_lock 200 ''r'' ''B''
     (step_wait 250 (step_draw ''r'' ''A'' 0 (step_lock 200 ''r'' ''A'' fresh_resource)))))"

definition gap_before_B :: fence_sys where
  "gap_before_B = step_wait 250 (step_lock 200 ''r'' ''A'' fresh_resource)"

definition gap_after_B :: fence_sys where
  "gap_after_B = step_write ''r'' ''B'' 250 1 (step_draw ''r'' ''B'' 250 (step_lock 200 ''r'' ''B'' gap_before_B))"

definition gap_run :: fence_sys where
  "gap_run = step_write ''r'' ''A'' 0 2 (step_draw ''r'' ''A'' 0 gap_after_B)"

lemma prompt_run_reach: "fence_reach True 200 ''r'' prompt_run"
  unfolding prompt_run_def
  by (intro reach_steps fresh_reach) (simp_all add: run_simps del: val_of.simps)

lemma gap_run_reach: "fence_reach False 200 ''r'' gap_run"
  unfolding gap_run_def gap_after_B_def gap_before_B_def
  by (intro reach_steps fresh_reach) (simp_all add: run_simps del: val_of.simps)

lemma fencing_orders_writes_witness:
  "fst (writeResourceStateFenced ''r'' ''A'' (int 1) (f_time prompt_run) (f_rows prompt_run)) = 0"
proof -
  have "f_phase prompt_run ''A'' = FHolds 0 1 \<and> f_phase prompt_run ''B'' = FDone 250 2 True
      \<and> (''B'', 2) \<in> set (f_accepted prompt_run)"
    by (simp add: prompt_run_def run_simps del: val_of.simps)
  then show ?thesis using fencing_orders_writes [OF prompt_run_reach] by fastforce
qed

text \<open>
  Without that promptness the fence has a hole. \<open>SET\<close> and \<open>INCR\<close> are separate commands, so worker A
  can pause between them beyond its lease: B acquires, draws 1 and writes; A then draws 2, although it
  acquired first, and its stale write is accepted over B's, whose every later write with its token
  would be refused.
\<close>

lemma fencing_gap:
  "\<exists>s. fence_reach False 200 ''r'' s
     \<and> f_phase s ''A'' = FDone 0 2 True \<and> f_phase s ''B'' = FDone 250 1 True
     \<and> f_accepted s = [(''B'', 1), (''A'', 2)]
     \<and> map row_writer (f_rows s) = [Some ''A'']
     \<and> fst (writeResourceStateFenced ''r'' ''B'' 1 (f_time s) (f_rows s)) = 0"
proof (intro exI conjI)
  show "fence_reach False 200 ''r'' gap_run" by (rule gap_run_reach)
qed (simp_all add: gap_run_def gap_after_B_def gap_before_B_def run_simps del: val_of.simps)

section \<open>What the demonstrations end with\<close>

lemma reset_state:
  assumes "distinct (map row_name rows)" and "name \<in> row_name ` set rows"
    and "resetScenarioState name t (rows, r) = (rows0, r0)"
  shows "row_is name 0 rows0" and "r0 (lockKeyFor name) = None" and "r0 (fencingCounterKeyFor name) = None"
proof -
  have rows0: "rows0 = update_where (\<lambda>x. row_name x = name)
      (\<lambda>x. x\<lparr>row_token := 0, row_writer := None, row_updatedAt := t\<rparr>) rows"
    and r0: "r0 = redis_del (fencingCounterKeyFor name) (redis_del (lockKeyFor name) r)"
    using assms(3) by (simp_all add: resetScenarioState_def)
  show "r0 (lockKeyFor name) = None" "r0 (fencingCounterKeyFor name) = None" by (simp_all add: r0 redis_del_def)
  obtain x where "x \<in> set rows" "row_name x = name" using assms(2) by auto
  with row_with_unique [OF assms(1)] have "row_with (\<lambda>x. row_name x = name) rows = Some x" by blast
  then have "row_is name (row_token x) rows" using assms(1) by (simp add: row_is_def)
  then show "row_is name 0 rows0" unfolding rows0 by (rule row_is_written)
qed

lemma row_is_found: "row_is name n rows \<Longrightarrow>
    \<exists>row. row_with (\<lambda>x. row_name x = name) rows = Some row \<and> row_token row = n"
  by (simp add: row_is_def)

lemma two_acquisitions:
  assumes "r (lockKeyFor name) = None" and "ttl < d" and "0 \<le> ttl"
  shows "acquireLock (lockKeyFor name) a ttl t r = (True, r(lockKeyFor name \<mapsto> (a, Some (t + ttl))))"
    and "acquireLock (lockKeyFor name) b ttl (t + d) (r(lockKeyFor name \<mapsto> (a, Some (t + ttl))))
           = (True, r(lockKeyFor name \<mapsto> (b, Some (t + d + ttl))))"
  using assms by (auto simp: acquireLock_def redis_set_nx_px_def redis_get_def)

lemma naive_write_found:
  assumes "row_with (\<lambda>x. row_name x = name) rows = Some row"
  shows "row_with (\<lambda>x. row_name x = name) (snd (writeResourceStateNaive name w t rows))
      = Some (row\<lparr>row_writer := Some w, row_updatedAt := t\<rparr>)"
  using row_with_update_key [of row_name "\<lambda>x. x\<lparr>row_writer := Some w, row_updatedAt := t\<rparr>" name name rows] assms
  by (simp add: writeResourceStateNaive_def)

lemma fenced_write_found:
  assumes "row_with (\<lambda>x. row_name x = name) rows = Some row"
  shows "row_with (\<lambda>x. row_name x = name) (update_where (\<lambda>x. row_name x = name)
      (\<lambda>x. x\<lparr>row_token := n, row_writer := Some w, row_updatedAt := t\<rparr>) rows)
      = Some (row\<lparr>row_token := n, row_writer := Some w, row_updatedAt := t\<rparr>)"
  using row_with_update_key [of row_name "\<lambda>x. x\<lparr>row_token := n, row_writer := Some w, row_updatedAt := t\<rparr>" name name rows] assms
  by simp

lemmas demo_constants = LOCK_TTL_MS_def WORKER_A_WORK_MS_def WORKER_B_START_DELAY_MS_def WORKER_B_WORK_MS_def

lemma lease_expiry_demo:
  assumes "distinct (map row_name rows)" and "name \<in> row_name ` set rows"
  shows "\<exists>d. fst (runLeaseExpiryBugDemo name a b t (rows, r)) = Inr d
     \<and> bothBelievedTheyHeldTheLockAtTheSameTime d \<and> row_writer (finalRow d) = Some ''worker-A''"
proof -
  obtain rows0 r0 where reset: "resetScenarioState name t (rows, r) = (rows0, r0)" by fastforce
  note s0 = reset_state [OF assms reset]
  obtain row where row: "row_with (\<lambda>x. row_name x = name) rows0 = Some row" using row_is_found [OF s0(1)] by blast
  note acq = two_acquisitions [of r0 name 200 250, OF s0(2)]
  show ?thesis
    using naive_write_found [OF naive_write_found [OF row]]
    by (simp add: runLeaseExpiryBugDemo_def reset acq demo_constants Let_def case_prod_beta readResourceState_def
        bothBelievedTheyHeldTheLockAtTheSameTime_def)
qed

lemma fencing_demo:
  assumes "distinct (map row_name rows)" and "name \<in> row_name ` set rows"
  shows "\<exists>d. fst (runFencingTokenFixDemo name a b t (rows, r)) = Inr d
     \<and> bothBelievedTheyHeldTheLockAtTheSameTime d
     \<and> fencingToken (workerA d) = Some 1 \<and> fencingToken (workerB d) = Some 2
     \<and> \<not> writeAccepted (workerA d) \<and> writeAccepted (workerB d)
     \<and> row_writer (finalRow d) = Some ''worker-B'' \<and> row_token (finalRow d) = 2"
proof -
  obtain rows0 r0 where reset: "resetScenarioState name t (rows, r) = (rows0, r0)" by fastforce
  note s0 = reset_state [OF assms reset]
  obtain row where row: "row_with (\<lambda>x. row_name x = name) rows0 = Some row" using row_is_found [OF s0(1)] by blast
  define rA where "rA = r0(lockKeyFor name \<mapsto> (a, Some (t + 200)), fencingCounterKeyFor name \<mapsto> (nat_str 1, None))"
  define rB where "rB = rA(lockKeyFor name \<mapsto> (b, Some (t + 250 + 200)), fencingCounterKeyFor name \<mapsto> (nat_str 2, None))"
  let ?rows1 = "update_where (\<lambda>x. row_name x = name)
      (\<lambda>x. x\<lparr>row_token := 2, row_writer := Some ''worker-B'', row_updatedAt := t + 350\<rparr>) rows0"
  have "counter_at (fencingCounterKeyFor name) (r0(lockKeyFor name \<mapsto> (a, Some (t + 200)))) 0"
    using s0(3) by (simp add: counter_at_def)
  from counter_incr [OF this, of t] two_acquisitions(1) [of r0 name 200 250 a t, OF s0(2)]
  have A: "acquireLockWithFencingToken (lockKeyFor name) (fencingCounterKeyFor name) a 200 t r0 = ((True, Some 1), rA)"
    by (simp add: acquireLockWithFencingToken_def rA_def)
  have free: "redis_get (t + 250) (lockKeyFor name) rA = None" by (simp add: rA_def)
  have "counter_at (fencingCounterKeyFor name) (rA(lockKeyFor name \<mapsto> (b, Some (t + 250 + 200)))) 1"
    by (simp add: counter_at_def rA_def)
  from counter_incr [OF this, of "t + 250"] acquire_free [OF free, of b 200]
  have B: "acquireLockWithFencingToken (lockKeyFor name) (fencingCounterKeyFor name) b 200 (t + 250) rA = ((True, Some 2), rB)"
    by (simp add: acquireLockWithFencingToken_def rB_def numeral_2_eq_2)
  have wB: "writeResourceStateFenced name ''worker-B'' 2 (t + 350) rows0 = (1, ?rows1)"
    using fenced_effect [OF s0(1)] by simp
  have wA: "writeResourceStateFenced name ''worker-A'' 1 (t + 400) ?rows1 = (0, ?rows1)"
    using fenced_effect [OF row_is_written [OF s0(1)]] by simp
  show ?thesis
    using fenced_write_found [OF row, where n = 2 and w = "''worker-B''" and t = "t + 350"]
    by (simp add: runFencingTokenFixDemo_def reset A B wA wB demo_constants Let_def token_or_def
        readResourceState_def bothBelievedTheyHeldTheLockAtTheSameTime_def writeAccepted_def add.assoc)
qed

text \<open>
  The lab's two demonstrations end as it says from every earlier state of the row and the store.
  The lease runs out under worker A and both workers hold the lock at once; with the naive update
  both writes land and the stale one is last, with fencing tokens A's write is refused and B's stays.
\<close>

lemma fencing_saves_the_row:
  assumes "distinct (map row_name rows)" and "name \<in> row_name ` set rows"
  shows "(\<exists>d. fst (runLeaseExpiryBugDemo name a b t (rows, r)) = Inr d
         \<and> bothBelievedTheyHeldTheLockAtTheSameTime d \<and> row_writer (finalRow d) = Some ''worker-A'')
    \<and> (\<exists>d. fst (runFencingTokenFixDemo name a b t (rows, r)) = Inr d
         \<and> bothBelievedTheyHeldTheLockAtTheSameTime d
         \<and> fencingToken (workerA d) = Some 1 \<and> fencingToken (workerB d) = Some 2
         \<and> \<not> writeAccepted (workerA d) \<and> writeAccepted (workerB d)
         \<and> row_writer (finalRow d) = Some ''worker-B'' \<and> row_token (finalRow d) = 2)"
  using lease_expiry_demo [OF assms] fencing_demo [OF assms] by blast

lemma fencing_saves_the_row_witness:
  "\<exists>d. fst (runFencingTokenFixDemo ''r'' ''a'' ''b'' 0 (f_rows fresh_resource, Map.empty)) = Inr d
     \<and> row_writer (finalRow d) = Some ''worker-B''"
  using fencing_saves_the_row [of "f_rows fresh_resource" "''r''" "''a''" "''b''" 0 Map.empty]
  by (auto simp: fresh_resource_def)

end
