(* ===== verification/Json.thy ===== *)
theory Json
  imports Prelude
begin

text \<open>
  The part of JSON the labs store in Redis: objects, strings and integers, written by
  \<open>JSON.stringify\<close> (no white space, members in order) and read back by a parser of that form. A
  text outside it parses to \<open>None\<close>; \<open>JSON.parse\<close> accepts more, but is only given written values.
\<close>

section \<open>Writing\<close>

datatype json = JNum int | JStr string | JObj "(string \<times> json) list"

definition hex_char :: "nat \<Rightarrow> char" where
  "hex_char d = (if d < 10 then digit_char d else char_of (d + 87))"

definition escapes :: "(char \<times> char) list" where
  "escapes = [(CHR 0x22, CHR 0x22), (CHR 0x5C, CHR 0x5C), (CHR 0x08, CHR ''b''), (CHR 0x09, CHR ''t''),
     (CHR 0x0A, CHR ''n''), (CHR 0x0C, CHR ''f''), (CHR 0x0D, CHR ''r'')]"

definition quote_char :: "char \<Rightarrow> string" where
  "quote_char c =
     (case map_of escapes c of
        Some e \<Rightarrow> [CHR 0x5C, e]
      | None \<Rightarrow> if (of_char c :: nat) < 32
                then [CHR 0x5C, CHR ''u'', CHR ''0'', CHR ''0'', hex_char (of_char c div 16), hex_char (of_char c mod 16)]
                else [c])"

definition quote :: "string \<Rightarrow> string" where
  "quote s = CHR 0x22 # concat (map quote_char s) @ [CHR 0x22]"

fun stringify :: "json \<Rightarrow> string" and stringify_members :: "(string \<times> json) list \<Rightarrow> string" where
  "stringify (JNum i) = int_str i"
| "stringify (JStr s) = quote s"
| "stringify (JObj ms) = CHR ''{'' # stringify_members ms"
| "stringify_members [] = [CHR ''}'']"
| "stringify_members ((k, v) # ms) =
     quote k @ CHR '':'' # stringify v @ (if ms = [] then [CHR ''}''] else CHR '','' # stringify_members ms)"

section \<open>Reading\<close>

definition unescape :: "char \<Rightarrow> char option" where
  "unescape e = map_of (map (\<lambda>(c, e). (e, c)) escapes) e"

definition hex_val :: "char \<Rightarrow> nat" where
  "hex_val c = (if (of_char c :: nat) < 58 then of_char c - 48 else of_char c - 87)"

text \<open>The characters up to the closing quote, and the rest.\<close>

fun read_chars :: "string \<Rightarrow> (string \<times> string) option" where
  "read_chars [] = None"
| "read_chars (c # s) =
     (if c = CHR 0x22 then Some ([], s)
      else if c = CHR 0x5C then
        (case s of
           [] \<Rightarrow> None
         | e # s' \<Rightarrow>
             (if e = CHR ''u'' then
                (case s' of
                   z # y # h # l # s'' \<Rightarrow>
                     map_option (\<lambda>(x, r). (char_of (hex_val h * 16 + hex_val l) # x, r)) (read_chars s'')
                 | _ \<Rightarrow> None)
              else (case unescape e of
                      None \<Rightarrow> None
                    | Some d \<Rightarrow> map_option (\<lambda>(x, r). (d # x, r)) (read_chars s'))))
      else map_option (\<lambda>(x, r). (c # x, r)) (read_chars s))"

definition is_digit :: "char \<Rightarrow> bool" where
  "is_digit c \<longleftrightarrow> 48 \<le> (of_char c :: nat) \<and> (of_char c :: nat) < 58"

definition read_nat :: "string \<Rightarrow> (nat \<times> string) option" where
  "read_nat s = (if takeWhile is_digit s = [] then None else Some (val_of (takeWhile is_digit s), dropWhile is_digit s))"

definition read_int :: "string \<Rightarrow> (int \<times> string) option" where
  "read_int s =
     (case s of
        CHR ''-'' # s' \<Rightarrow> map_option (\<lambda>(n, r). (- int n, r)) (read_nat s')
      | _ \<Rightarrow> map_option (\<lambda>(n, r). (int n, r)) (read_nat s))"

fun read_value :: "nat \<Rightarrow> string \<Rightarrow> (json \<times> string) option"
and read_members :: "nat \<Rightarrow> string \<Rightarrow> ((string \<times> json) list \<times> string) option" where
  "read_value 0 s = None"
| "read_value (Suc n) s =
     (case s of
        [] \<Rightarrow> None
      | c # s' \<Rightarrow>
          if c = CHR ''{'' then
            (case s' of
               CHR ''}'' # r \<Rightarrow> Some (JObj [], r)
             | _ \<Rightarrow> map_option (\<lambda>(ms, r). (JObj ms, r)) (read_members n s'))
          else if c = CHR 0x22 then map_option (\<lambda>(x, r). (JStr x, r)) (read_chars s')
          else map_option (\<lambda>(i, r). (JNum i, r)) (read_int s))"
| "read_members 0 s = None"
| "read_members (Suc n) s =
     (case s of
        CHR 0x22 # s1 \<Rightarrow>
          (case read_chars s1 of
             Some (k, CHR '':'' # s2) \<Rightarrow>
               (case read_value n s2 of
                  Some (v, CHR ''}'' # r) \<Rightarrow> Some ([(k, v)], r)
                | Some (v, CHR '','' # s3) \<Rightarrow> map_option (\<lambda>(ms, r). ((k, v) # ms, r)) (read_members n s3)
                | _ \<Rightarrow> None)
           | _ \<Rightarrow> None)
      | _ \<Rightarrow> None)"

text \<open>Every step reads a character, so the length of the text is enough fuel.\<close>

definition parse :: "string \<Rightarrow> json option" where
  "parse s = (case read_value (length s) s of Some (v, []) \<Rightarrow> Some v | _ \<Rightarrow> None)"

section \<open>Round trip\<close>

lemma hex_val_char: "d < 16 \<Longrightarrow> hex_val (hex_char d) = d"
  by (auto simp: hex_val_def hex_char_def digit_char_def)

lemma read_quote_char: "read_chars (quote_char c @ s) = map_option (\<lambda>(x, r). (c # x, r)) (read_chars s)"
proof (cases "map_of escapes c")
  case None
  then have plain: "c \<noteq> CHR 0x22" "c \<noteq> CHR 0x5C" by (auto simp: escapes_def)
  show ?thesis
  proof (cases "(of_char c :: nat) < 32")
    case True
    define n :: nat where "n = of_char c"
    have "n div 16 < 16" "n mod 16 < 16" using True by (auto simp: n_def)
    then have "hex_val (hex_char (n div 16)) * 16 + hex_val (hex_char (n mod 16)) = n"
      by (simp add: hex_val_char)
    then show ?thesis
      using None True by (simp add: quote_char_def n_def)
  next
    case False
    then show ?thesis using None plain by (simp add: quote_char_def)
  qed
next
  case (Some e)
  then have "(c, e) \<in> set escapes" by (rule map_of_SomeD)
  then have "e \<noteq> CHR ''u''" "unescape e = Some c" "quote_char c = [CHR 0x5C, e]"
    using Some by (auto simp: escapes_def unescape_def quote_char_def)
  then show ?thesis by simp
qed

lemma read_quote: "read_chars (concat (map quote_char s) @ CHR 0x22 # r) = Some (s, r)"
  by (induction s) (simp_all add: read_quote_char)

lemma is_digit_char: "d < 10 \<Longrightarrow> is_digit (digit_char d)"
  by (simp add: is_digit_def digit_char_def)

lemma nat_str_digits: "c \<in> set (nat_str n) \<Longrightarrow> is_digit c"
proof (induction n rule: nat_str.induct)
  case (1 n)
  then show ?case
    by (cases "n < 10") (auto simp: nat_str.simps [of n] is_digit_char)
qed

definition no_digit :: "string \<Rightarrow> bool" where
  "no_digit s \<longleftrightarrow> (case s of [] \<Rightarrow> True | c # _ \<Rightarrow> \<not> is_digit c)"

lemma read_nat_str:
  assumes "no_digit r"
  shows "read_nat (nat_str n @ r) = Some (n, r)"
proof -
  have "takeWhile is_digit r = []" "dropWhile is_digit r = r"
    using assms by (auto simp: no_digit_def split: list.splits)
  then have "takeWhile is_digit (nat_str n @ r) = nat_str n" "dropWhile is_digit (nat_str n @ r) = r"
    using nat_str_digits by (auto simp: takeWhile_append2 dropWhile_append2)
  then show ?thesis by (simp add: read_nat_def val_of_nat_str del: val_of.simps)
qed

lemma nat_str_head: "\<exists>c s. nat_str n = c # s \<and> is_digit c"
  by (metis list.exhaust list.set_intros(1) nat_str_digits nat_str_nonempty)

lemma read_int_str: "no_digit r \<Longrightarrow> read_int (int_str i @ r) = Some (i, r)"
proof -
  assume r: "no_digit r"
  obtain c s where c: "nat_str (nat i) = c # s" "is_digit c" using nat_str_head by blast
  then have "c \<noteq> CHR ''-''" by (auto simp: is_digit_def)
  then have "i \<ge> 0 \<Longrightarrow> read_int (int_str i @ r) = map_option (\<lambda>(n, r). (int n, r)) (read_nat (nat_str (nat i) @ r))"
    using c by (auto simp: int_str_def read_int_def split: char.splits bool.splits)
  then show ?thesis
    using read_nat_str [OF r] by (cases "0 \<le> i") (auto simp: int_str_def read_int_def)
qed

lemma int_str_head: "\<exists>c s. int_str i = c # s \<and> c \<noteq> CHR ''{'' \<and> c \<noteq> CHR 0x22"
proof (cases "i < 0")
  case True
  then show ?thesis by (simp add: int_str_def)
next
  case False
  obtain c s where "nat_str (nat i) = c # s" "is_digit c" using nat_str_head by blast
  then show ?thesis using False by (auto simp: int_str_def is_digit_def)
qed

lemma no_digit_marks [simp]: "no_digit []" "no_digit (CHR '','' # r)" "no_digit (CHR ''}'' # r)"
  by (simp_all add: no_digit_def is_digit_def)

lemma stringify_members_head:
  "stringify_members ms = [CHR ''}''] \<or> (\<exists>s. stringify_members ms = CHR 0x22 # s)"
  by (cases ms rule: list.exhaust) (auto simp: quote_def)

lemma read_stringify:
  "no_digit r \<Longrightarrow> length (stringify v) \<le> n \<Longrightarrow> read_value n (stringify v @ r) = Some (v, r)"
  "ms \<noteq> [] \<Longrightarrow> length (stringify_members ms) \<le> n \<Longrightarrow> read_members n (stringify_members ms @ r) = Some (ms, r)"
proof (induction v and ms arbitrary: n r and n r rule: stringify_stringify_members.induct)
  case (1 i)
  obtain c s where c: "int_str i = c # s" "c \<noteq> CHR ''{''" "c \<noteq> CHR 0x22" using int_str_head by blast
  then obtain m where "n = Suc m" using 1 by (cases n) auto
  then show ?case using c read_int_str [OF 1(1), of i] by simp
next
  case (2 s)
  then obtain m where "n = Suc m" by (cases n) (auto simp: quote_def)
  then show ?case by (simp add: quote_def read_quote)
next
  case (3 ms)
  then obtain m where m: "n = Suc m" by (cases n) auto
  show ?case
  proof (cases "ms = []")
    case True
    then show ?thesis using m by simp
  next
    case False
    then obtain s where s: "stringify_members ms = CHR 0x22 # s" by (cases ms) (auto simp: quote_def)
    have "read_members m (stringify_members ms @ r) = Some (ms, r)" using 3 m False by simp
    then show ?thesis using m s by simp
  qed
next
  case 4
  then show ?case by simp
next
  case (5 k v ms)
  then obtain m where m: "n = Suc m" by (cases n) auto
  show ?case
  proof (cases "ms = []")
    case True
    have "read_value m (stringify v @ CHR ''}'' # r) = Some (v, CHR ''}'' # r)"
      using 5(1) [of "CHR ''}'' # r" m] 5(4) m True by (simp add: quote_def)
    then show ?thesis using m True by (simp add: quote_def read_quote)
  next
    case False
    have "read_value m (stringify v @ CHR '','' # stringify_members ms @ r) = Some (v, CHR '','' # stringify_members ms @ r)"
      using 5(1) [of "CHR '','' # stringify_members ms @ r" m] 5(4) m False by (simp add: quote_def)
    moreover have "read_members m (stringify_members ms @ r) = Some (ms, r)"
      using 5(2) [of m r] 5(4) m False by (simp add: quote_def)
    ultimately show ?thesis using m False by (simp add: quote_def read_quote)
  qed
qed

lemma parse_stringify [simp]: "parse (stringify v) = Some v"
  using read_stringify(1) [of "[]" v "length (stringify v)"] by (simp add: parse_def)

end
