(* ===== verification/Cache_Aside.thy ===== *)
theory Cache_Aside
  imports Json Redis_Keys
begin

text \<open>
  The caches of Lab 21, \<open>labs/21-*/src\<close>, first part: the product reader (\<open>db/product-repository.ts\<close>),
  the cached value as JSON, the naive cache-aside (\<open>cache/naive-cache-aside.ts\<close>) and in-process request
  coalescing (\<open>cache/request-coalescing.ts\<close>). Each pending call is a program counter at an \<open>await\<close>; an
  event lets one call go on, time pass or a row change, so a list of events is one interleaving.
\<close>

section \<open>Products and their cached form\<close>

record Product =
  pid :: nat
  publicId :: string
  pname :: string
  priceCents :: int

definition productCacheKey :: "nat \<Rightarrow> string" where
  "productCacheKey i = ''product:'' @ nat_str i"

definition product_json :: "Product \<Rightarrow> json" where
  "product_json p = JObj [(''id'', JNum (int (pid p))), (''publicId'', JStr (publicId p)),
     (''name'', JStr (pname p)), (''priceCents'', JNum (priceCents p))]"

fun json_product :: "json \<Rightarrow> Product option" where
  "json_product (JObj ms) =
     (case (map_of ms ''id'', map_of ms ''publicId'', map_of ms ''name'', map_of ms ''priceCents'') of
        (Some (JNum i), Some (JStr u), Some (JStr n), Some (JNum c)) \<Rightarrow>
          Some \<lparr>pid = nat i, publicId = u, pname = n, priceCents = c\<rparr>
      | _ \<Rightarrow> None)"
| "json_product _ = None"

definition encode_product :: "Product \<Rightarrow> string" where
  "encode_product p = stringify (product_json p)"

definition decode_product :: "string \<Rightarrow> Product option" where
  "decode_product s = Option.bind (parse s) json_product"

lemma productCacheKey_inject [simp]: "productCacheKey i = productCacheKey j \<longleftrightarrow> i = j"
  by (simp add: productCacheKey_def)

lemma json_product_json [simp]: "json_product (product_json p) = Some p"
  by (simp add: product_json_def)

lemma decode_encode [simp]: "decode_product (encode_product p) = Some p"
  by (simp add: decode_product_def encode_product_def)

section \<open>The world of the callers\<close>

text \<open>
  The clock in milliseconds, the Redis store, the \<open>products\<close> table, the reader's counter and the program
  counters of the pending calls. \<open>reads\<close> only records what the reader returned and when.
\<close>

record 'pc world =
  clock :: int
  store :: redis
  rows :: "nat \<rightharpoonup> Product"
  callCount :: nat
  reads :: "(int \<times> nat \<times> Product) list"
  procs :: "nat \<rightharpoonup> 'pc"

definition SIMULATED_QUERY_DELAY_MS :: int where
  "SIMULATED_QUERY_DELAY_MS = 75"

text \<open>\<open>getProductFromDatabase\<close>: counted when called, asleep for the delay, then the row is read.\<close>

definition start_read :: "('pc, 'x) world_scheme \<Rightarrow> int \<times> ('pc, 'x) world_scheme" where
  "start_read s = (clock s + SIMULATED_QUERY_DELAY_MS, s\<lparr>callCount := callCount s + 1\<rparr>)"

definition finish_read :: "nat \<Rightarrow> ('pc, 'x) world_scheme \<Rightarrow> (string + Product) \<times> ('pc, 'x) world_scheme" where
  "finish_read i s =
     (case rows s i of
        None \<Rightarrow> (Inl (''Product '' @ nat_str i @ '' not found - run `pnpm seed` first''), s)
      | Some p \<Rightarrow> (Inr p, s\<lparr>reads := reads s @ [(clock s, i, p)]\<rparr>))"

text \<open>A cached value counts as a hit when it is there and not the empty string.\<close>

definition cached_value :: "nat \<Rightarrow> ('pc, 'x) world_scheme \<Rightarrow> string option" where
  "cached_value i s =
     (case redis_get (of_int (clock s)) (productCacheKey i) (store s) of
        Some v \<Rightarrow> if v = [] then None else Some v
      | None \<Rightarrow> None)"

definition parse_product :: "string \<Rightarrow> string + Product" where
  "parse_product v = (case decode_product v of Some p \<Rightarrow> Inr p | None \<Rightarrow> Inl ''SyntaxError'')"

text \<open>\<open>SET key value EX ttlSeconds\<close>.\<close>

definition cache_put :: "nat \<Rightarrow> nat \<Rightarrow> Product \<Rightarrow> ('pc, 'x) world_scheme \<Rightarrow> ('pc, 'x) world_scheme" where
  "cache_put ttlSeconds i p s =
     s\<lparr>store := redis_set_px (of_int (clock s)) (productCacheKey i) (encode_product p)
                 (of_nat ttlSeconds * 1000) (store s)\<rparr>"

datatype event = Call nat nat | Go nat | Tick nat | Write Product | Delete nat

text \<open>
  One event under a cache, given by how a call starts and how it goes on; a caller calls once, a row
  may be written or deleted at any time.
\<close>

fun cache_step ::
  "(nat \<Rightarrow> 'pc) \<Rightarrow> (nat \<Rightarrow> 'pc \<Rightarrow> ('pc, 'x) world_scheme \<Rightarrow> 'pc \<times> ('pc, 'x) world_scheme) \<Rightarrow>
   event \<Rightarrow> ('pc, 'x) world_scheme \<Rightarrow> ('pc, 'x) world_scheme" where
  "cache_step start go (Call c i) s =
     (if procs s c = None then s\<lparr>procs := (procs s)(c \<mapsto> start i)\<rparr> else s)"
| "cache_step start go (Go c) s =
     (case procs s c of
        None \<Rightarrow> s
      | Some pc \<Rightarrow> let (pc', s') = go c pc s in s'\<lparr>procs := (procs s')(c \<mapsto> pc')\<rparr>)"
| "cache_step start go (Tick d) s = s\<lparr>clock := clock s + int d\<rparr>"
| "cache_step start go (Write p) s = s\<lparr>rows := (rows s)(pid p \<mapsto> p)\<rparr>"
| "cache_step start go (Delete i) s = s\<lparr>rows := (rows s)(i := None)\<rparr>"

definition cache_run ::
  "(nat \<Rightarrow> 'pc) \<Rightarrow> (nat \<Rightarrow> 'pc \<Rightarrow> ('pc, 'x) world_scheme \<Rightarrow> 'pc \<times> ('pc, 'x) world_scheme) \<Rightarrow>
   event list \<Rightarrow> ('pc, 'x) world_scheme \<Rightarrow> ('pc, 'x) world_scheme" where
  "cache_run start go es s = foldl (\<lambda>s e. cache_step start go e s) s es"

lemma cache_run_simps [simp]:
  "cache_run start go [] s = s"
  "cache_run start go (e # es) s = cache_run start go es (cache_step start go e s)"
  "cache_run start go (es @ fs) s = cache_run start go fs (cache_run start go es s)"
  by (simp_all add: cache_run_def)

section \<open>The naive cache-aside\<close>

datatype naive_pc = NGet nat | NRead nat int | NSet nat Product | NDone nat "string + Product"

fun naive_getProduct ::
  "nat \<Rightarrow> nat \<Rightarrow> naive_pc \<Rightarrow> naive_pc world \<Rightarrow> naive_pc \<times> naive_pc world" where
  "naive_getProduct ttlSeconds c (NGet i) s =
     (case cached_value i s of
        Some v \<Rightarrow> (NDone i (parse_product v), s)
      | None \<Rightarrow> let (until, s') = start_read s in (NRead i until, s'))"
| "naive_getProduct ttlSeconds c (NRead i until) s =
     (if clock s < until then (NRead i until, s)
      else (case finish_read i s of
              (Inl e, s') \<Rightarrow> (NDone i (Inl e), s')
            | (Inr p, s') \<Rightarrow> (NSet i p, s')))"
| "naive_getProduct ttlSeconds c (NSet i p) s = (NDone i (Inr p), cache_put ttlSeconds i p s)"
| "naive_getProduct ttlSeconds c (NDone i r) s = (NDone i r, s)"

abbreviation naive_run :: "nat \<Rightarrow> event list \<Rightarrow> naive_pc world \<Rightarrow> naive_pc world" where
  "naive_run ttlSeconds \<equiv> cache_run NGet (naive_getProduct ttlSeconds)"

text \<open>The stampede: everyone who looks before the first write-back reads the database.\<close>

lemma calls_start: "\<forall>c \<in> set cs. procs s c = None \<Longrightarrow> distinct cs \<Longrightarrow>
    cache_run start go (map (\<lambda>c. Call c i) cs) s = s\<lparr>procs := \<lambda>c. if c \<in> set cs then Some (start i) else procs s c\<rparr>"
proof (induction cs arbitrary: s)
  case (Cons c cs)
  have "\<forall>a \<in> set cs. procs (s\<lparr>procs := (procs s)(c \<mapsto> start i)\<rparr>) a = None" using Cons.prems by auto
  from Cons.IH [OF this] Cons.prems show ?case
    by (simp add: fun_eq_iff)
qed simp

lemma stampede_gets:
  "\<forall>c \<in> set cs. procs s c = Some (NGet i) \<Longrightarrow> distinct cs \<Longrightarrow> cached_value i s = None \<Longrightarrow>
   callCount (naive_run ttl (map Go cs) s) = callCount s + length cs"
proof (induction cs arbitrary: s)
  case (Cons c cs)
  let ?s = "cache_step NGet (naive_getProduct ttl) (Go c) s"
  have "\<forall>a \<in> set cs. procs ?s a = Some (NGet i)" "cached_value i ?s = None" "callCount ?s = callCount s + 1"
    using Cons.prems by (auto simp: start_read_def cached_value_def split: option.splits)
  from Cons.IH [OF this(1) _ this(2)] this(3) Cons.prems show ?case by simp
qed simp

lemma naive_stampede:
  assumes "\<forall>c \<in> set cs. procs s c = None" and "distinct cs" and "cached_value i s = None"
  shows "callCount (naive_run ttl (map (\<lambda>c. Call c i) cs @ map Go cs) s) = callCount s + length cs"
proof -
  let ?s = "s\<lparr>procs := \<lambda>c. if c \<in> set cs then Some (NGet i) else procs s c\<rparr>"
  have "cached_value i ?s = None" using assms(3) by (simp add: cached_value_def)
  then show ?thesis
    using assms(1,2) stampede_gets [of cs ?s i ttl] by (simp add: calls_start)
qed

section \<open>Request coalescing\<close>

text \<open>
  \<open>inFlight\<close> maps a key to the call whose promise is being awaited; that call's program counter is the
  promise. \<open>CSettled\<close> is a settled promise whose \<open>finally\<close> has not run; \<open>CJoin\<close> awaits another's.
\<close>

datatype coal_pc =
    CStart nat
  | CGet nat
  | CRead nat int
  | CSet nat Product
  | CSettled nat "string + Product"
  | CJoin nat nat
  | CDone nat "string + Product"

record coal_world = "coal_pc world" +
  inFlight :: "string \<rightharpoonup> nat"

fun promise_result :: "coal_pc option \<Rightarrow> (string + Product) option" where
  "promise_result (Some (CSettled i r)) = Some r"
| "promise_result (Some (CDone i r)) = Some r"
| "promise_result _ = None"

fun coal_getProduct :: "nat \<Rightarrow> nat \<Rightarrow> coal_pc \<Rightarrow> coal_world \<Rightarrow> coal_pc \<times> coal_world" where
  "coal_getProduct ttlSeconds c (CStart i) s =
     (case inFlight s (productCacheKey i) of
        Some f \<Rightarrow> (CJoin i f, s)
      | None \<Rightarrow> (CGet i, s\<lparr>inFlight := (inFlight s)(productCacheKey i \<mapsto> c)\<rparr>))"
| "coal_getProduct ttlSeconds c (CGet i) s =
     (case cached_value i s of
        Some v \<Rightarrow> (CSettled i (parse_product v), s)
      | None \<Rightarrow> let (until, s') = start_read s in (CRead i until, s'))"
| "coal_getProduct ttlSeconds c (CRead i until) s =
     (if clock s < until then (CRead i until, s)
      else (case finish_read i s of
              (Inl e, s') \<Rightarrow> (CSettled i (Inl e), s')
            | (Inr p, s') \<Rightarrow> (CSet i p, s')))"
| "coal_getProduct ttlSeconds c (CSet i p) s = (CSettled i (Inr p), cache_put ttlSeconds i p s)"
| "coal_getProduct ttlSeconds c (CSettled i r) s =
     (CDone i r, s\<lparr>inFlight := (inFlight s)(productCacheKey i := None)\<rparr>)"
| "coal_getProduct ttlSeconds c (CJoin i f) s =
     (case promise_result (procs s f) of Some r \<Rightarrow> (CDone i r, s) | None \<Rightarrow> (CJoin i f, s))"
| "coal_getProduct ttlSeconds c (CDone i r) s = (CDone i r, s)"

abbreviation coal_run :: "nat \<Rightarrow> event list \<Rightarrow> coal_world \<Rightarrow> coal_world" where
  "coal_run ttlSeconds \<equiv> cache_run CStart (coal_getProduct ttlSeconds)"

text \<open>The product a call is the owner of the promise for.\<close>

fun owns :: "coal_pc option \<Rightarrow> nat option" where
  "owns (Some (CGet i)) = Some i"
| "owns (Some (CRead i u)) = Some i"
| "owns (Some (CSet i p)) = Some i"
| "owns (Some (CSettled i r)) = Some i"
| "owns _ = None"

definition matched :: "(nat \<rightharpoonup> nat) \<Rightarrow> (string \<rightharpoonup> nat) \<Rightarrow> bool" where
  "matched own fl \<longleftrightarrow> (\<forall>c i. own c = Some i \<longleftrightarrow> fl (productCacheKey i) = Some c)"

definition flight_ok :: "coal_world \<Rightarrow> bool" where
  "flight_ok s \<longleftrightarrow> matched (\<lambda>c. owns (procs s c)) (inFlight s)"

lemma matched_take: "matched own fl \<Longrightarrow> own c = None \<Longrightarrow> fl (productCacheKey i) = None \<Longrightarrow>
    matched (own(c \<mapsto> i)) (fl(productCacheKey i \<mapsto> c))"
  unfolding matched_def by (auto; metis option.distinct(1))

lemma matched_drop: "matched own fl \<Longrightarrow> own c = Some i \<Longrightarrow>
    matched (own(c := None)) (fl(productCacheKey i := None))"
  unfolding matched_def by (auto; metis option.inject)

lemma owns_upd: "(\<lambda>a. owns ((m(c \<mapsto> pc)) a)) = (\<lambda>a. owns (m a))(c := owns (Some pc))"
  by (simp add: fun_eq_iff)

lemma flight_owner: "flight_ok s \<Longrightarrow> owns (procs s c) = Some i \<Longrightarrow> inFlight s (productCacheKey i) = Some c"
  by (simp add: flight_ok_def matched_def)

lemma flight_unique: "flight_ok s \<Longrightarrow> owns (procs s a) = Some i \<Longrightarrow> owns (procs s b) = Some i \<Longrightarrow> a = b"
  by (metis flight_owner option.inject)

lemma read_simps [simp]:
  "procs (snd (start_read s)) = procs s" "clock (snd (start_read s)) = clock s" "rows (snd (start_read s)) = rows s"
  "store (snd (start_read s)) = store s" "callCount (snd (start_read s)) = callCount s + 1"
  "reads (snd (start_read s)) = reads s" "fst (start_read s) = clock s + SIMULATED_QUERY_DELAY_MS"
  "procs (snd (finish_read i s)) = procs s" "clock (snd (finish_read i s)) = clock s"
  "rows (snd (finish_read i s)) = rows s" "store (snd (finish_read i s)) = store s"
  "callCount (snd (finish_read i s)) = callCount s"
  "procs (cache_put ttl i p s) = procs s" "clock (cache_put ttl i p s) = clock s" "rows (cache_put ttl i p s) = rows s"
  "callCount (cache_put ttl i p s) = callCount s" "reads (cache_put ttl i p s) = reads s"
  by (simp_all add: start_read_def finish_read_def cache_put_def split: option.splits)

lemma inFlight_read [simp]:
  "inFlight (snd (start_read s)) = inFlight s" "inFlight (snd (finish_read i s)) = inFlight s"
  "inFlight (cache_put ttl i p s) = inFlight s"
  by (simp_all add: start_read_def finish_read_def cache_put_def split: option.splits)

lemma finish_read_fst: "fst (finish_read i s) = (case rows s i of Some p \<Rightarrow> Inr p | None \<Rightarrow>
    Inl (''Product '' @ nat_str i @ '' not found - run `pnpm seed` first''))"
  by (simp add: finish_read_def split: option.splits)

lemma coal_frame:
  "coal_getProduct ttl c pc s = (pc', s') \<Longrightarrow> procs s' = procs s \<and> clock s' = clock s \<and> rows s' = rows s"
  by (cases "(ttl, c, pc, s)" rule: coal_getProduct.cases)
    (auto simp: start_read_def finish_read_def cache_put_def split: option.splits if_splits)

text \<open>A call's own step changes what is in flight only for its own product, and only with its ownership.\<close>

lemma coal_flight_step:
  assumes "coal_getProduct ttl c pc s = (pc', s')" and "flight_ok s" and "procs s c = Some pc"
  shows "flight_ok (s'\<lparr>procs := (procs s')(c \<mapsto> pc')\<rparr>)"
proof -
  have frame: "procs s' = procs s" using coal_frame [OF assms(1)] by simp
  have same: ?thesis if "inFlight s' = inFlight s" "owns (Some pc') = owns (Some pc)"
    using that assms(2,3) frame by (simp add: flight_ok_def owns_upd fun_upd_idem del: fun_upd_apply)
  show ?thesis
  proof (cases pc)
    case (CStart i)
    show ?thesis
    proof (cases "inFlight s (productCacheKey i)")
      case None
      then have "inFlight s' = (inFlight s)(productCacheKey i \<mapsto> c)" "pc' = CGet i"
        using assms(1) CStart by auto
      then show ?thesis using assms(2,3) None CStart frame by (simp add: flight_ok_def owns_upd matched_take del: fun_upd_apply)
    next
      case (Some f)
      then show ?thesis using assms(1) CStart by (intro same) auto
    qed
  next
    case (CSettled i r)
    then have "inFlight s' = (inFlight s)(productCacheKey i := None)" "pc' = CDone i r"
      using assms(1) by auto
    then show ?thesis using assms(2,3) CSettled frame by (simp add: flight_ok_def owns_upd matched_drop del: fun_upd_apply)
  next
    case (CRead i u)
    then show ?thesis using assms(1)
      by (intro same) (auto simp: finish_read_def split: option.splits if_splits)
  next
    case (CGet i)
    then show ?thesis using assms(1)
      by (intro same) (auto simp: start_read_def split: option.splits)
  next
    case (CSet i p)
    then show ?thesis using assms(1) by (intro same) (auto simp: cache_put_def)
  next
    case (CJoin i f)
    then show ?thesis using assms(1) by (intro same) (auto split: option.splits)
  next
    case (CDone i r)
    then show ?thesis using assms(1) by (intro same) auto
  qed
qed

lemma flight_step: "flight_ok s \<Longrightarrow> flight_ok (cache_step CStart (coal_getProduct ttl) e s)"
proof (cases e)
  case (Call c i)
  assume ok: "flight_ok s"
  then show ?thesis using Call by (simp add: flight_ok_def owns_upd fun_upd_idem del: fun_upd_apply)
next
  case (Go c)
  assume "flight_ok s"
  then show ?thesis using Go coal_flight_step [of ttl c] by (auto split: option.splits prod.splits)
qed (auto simp: flight_ok_def)

section \<open>One database read\<close>

definition waiting :: "nat \<Rightarrow> coal_pc \<Rightarrow> bool" where
  "waiting i pc \<longleftrightarrow> pc = CStart i \<or> (\<exists>f. pc = CJoin i f)"

definition early :: "nat \<Rightarrow> coal_pc \<Rightarrow> bool" where
  "early i pc \<longleftrightarrow> waiting i pc \<or> pc = CGet i"

definition busy :: "nat \<Rightarrow> coal_pc \<Rightarrow> bool" where
  "busy i pc \<longleftrightarrow> (\<exists>u. pc = CRead i u) \<or> (\<exists>p. pc = CSet i p)"

definition answered :: "nat \<Rightarrow> Product \<Rightarrow> coal_pc \<Rightarrow> bool" where
  "answered i p pc \<longleftrightarrow> pc = CSettled i (Inr p) \<or> pc = CDone i (Inr p)"

definition cold :: "nat \<Rightarrow> ('pc, 'x) world_scheme \<Rightarrow> bool" where
  "cold i s \<longleftrightarrow> redis_get (of_int (clock s)) (productCacheKey i) (store s) = None"

definition warm :: "nat \<Rightarrow> Product \<Rightarrow> int \<Rightarrow> ('pc, 'x) world_scheme \<Rightarrow> bool" where
  "warm i p D s \<longleftrightarrow> (\<exists>u. store s (productCacheKey i) = Some (encode_product p, Some u) \<and> of_int D \<le> u)"

definition all_pcs :: "(coal_pc \<Rightarrow> bool) \<Rightarrow> coal_world \<Rightarrow> bool" where
  "all_pcs P s \<longleftrightarrow> (\<forall>c pc. procs s c = Some pc \<longrightarrow> P pc)"

text \<open>Before the read, during it, after it.\<close>

definition unread :: "nat \<Rightarrow> nat \<Rightarrow> coal_world \<Rightarrow> bool" where
  "unread i n s \<longleftrightarrow> callCount s = n \<and> cold i s \<and> all_pcs (early i) s"

definition reading :: "nat \<Rightarrow> nat \<Rightarrow> coal_world \<Rightarrow> bool" where
  "reading i n s \<longleftrightarrow> callCount s = n + 1 \<and> cold i s
     \<and> (\<exists>f. (\<exists>pc. procs s f = Some pc \<and> busy i pc) \<and> (\<forall>c pc. c \<noteq> f \<longrightarrow> procs s c = Some pc \<longrightarrow> waiting i pc))"

definition shared :: "nat \<Rightarrow> nat \<Rightarrow> int \<Rightarrow> coal_world \<Rightarrow> bool" where
  "shared i n D s \<longleftrightarrow> callCount s = n + 1 \<and> (\<exists>p. warm i p D s \<and> all_pcs (\<lambda>pc. early i pc \<or> answered i p pc) s)"

definition one_read :: "nat \<Rightarrow> nat \<Rightarrow> int \<Rightarrow> coal_world \<Rightarrow> bool" where
  "one_read i n D s \<longleftrightarrow> flight_ok s \<and> rows s i \<noteq> None \<and> (unread i n s \<or> reading i n s \<or> shared i n D s)"

lemmas phase_defs = waiting_def early_def busy_def answered_def all_pcs_def

lemma cold_cached: "cold i s \<Longrightarrow> cached_value i s = None"
  by (simp add: cold_def cached_value_def)

lemma encode_nonempty [simp]: "encode_product p \<noteq> []"
  by (simp add: encode_product_def product_json_def)

lemma warm_cached: "warm i p D s \<Longrightarrow> clock s \<le> D \<Longrightarrow> cached_value i s = Some (encode_product p)"
  by (auto simp: warm_def cached_value_def redis_get_def intro: order_trans [of _ "of_int D"])

lemma parse_encoded [simp]: "parse_product (encode_product p) = Inr p"
  by (simp add: parse_product_def)

lemma cache_put_warm: "D \<le> clock s + int ttl * 1000 \<Longrightarrow> warm i p D (cache_put ttl i p s)"
proof -
  assume "D \<le> clock s + int ttl * 1000"
  then have "(of_int D :: rat) \<le> of_int (clock s + int ttl * 1000)" by (simp only: of_int_le_iff)
  then show ?thesis by (simp add: warm_def cache_put_def redis_set_px_def)
qed

lemma all_pcs_go: "all_pcs P s \<Longrightarrow> procs s' = procs s \<Longrightarrow> P pc \<Longrightarrow> all_pcs P (s'\<lparr>procs := (procs s')(c \<mapsto> pc)\<rparr>)"
  by (simp add: all_pcs_def)

lemma unread_I: "callCount s = n \<Longrightarrow> cold i s \<Longrightarrow> all_pcs (early i) s \<Longrightarrow> unread i n s"
  by (simp add: unread_def)

lemma reading_I: "callCount s = n + 1 \<Longrightarrow> cold i s \<Longrightarrow> procs s f = Some pc \<Longrightarrow> busy i pc \<Longrightarrow>
    (\<And>d pd. d \<noteq> f \<Longrightarrow> procs s d = Some pd \<Longrightarrow> waiting i pd) \<Longrightarrow> reading i n s"
  by (auto simp: reading_def)

lemma unread_go:
  assumes "unread i n s" and "flight_ok s" and "procs s c = Some pc" and "coal_getProduct ttl c pc s = (pc', s')"
  shows "let s2 = s'\<lparr>procs := (procs s')(c \<mapsto> pc')\<rparr> in unread i n s2 \<or> reading i n s2"
proof -
  have e: "early i pc" and all: "all_pcs (early i) s" using assms(1,3) by (auto simp: unread_def all_pcs_def)
  from e consider (start) "pc = CStart i" | (join) f where "pc = CJoin i f" | (get) "pc = CGet i"
    by (auto simp: phase_defs)
  then show ?thesis
  proof cases
    case start
    then have "early i pc'" "callCount s' = n" "store s' = store s" "clock s' = clock s" "procs s' = procs s"
      using assms(1,4) by (auto simp: unread_def early_def waiting_def split: option.splits)
    then have "unread i n (s'\<lparr>procs := (procs s')(c \<mapsto> pc')\<rparr>)"
      using assms(1) all by (intro unread_I all_pcs_go [OF all]) (auto simp: unread_def cold_def)
    then show ?thesis by simp
  next
    case (join f)
    have "promise_result (procs s f) = None"
    proof (cases "procs s f")
      case (Some a)
      then have "early i a" using all by (simp add: all_pcs_def)
      then show ?thesis using Some by (auto simp: phase_defs)
    qed simp
    then have "s' = s" "pc' = pc" using join assms(4) by auto
    then show ?thesis using assms(1,3) by (simp add: fun_upd_idem)
  next
    case get
    have others: "waiting i pd" if "d \<noteq> c" "procs s d = Some pd" for d pd
    proof -
      have "early i pd" using all that(2) by (simp add: all_pcs_def)
      moreover have "pd \<noteq> CGet i" using that flight_unique [OF assms(2), of c i d] get assms(3) by auto
      ultimately show ?thesis by (simp add: early_def)
    qed
    then have "reading i n (s'\<lparr>procs := (procs s')(c \<mapsto> pc')\<rparr>)"
      using get assms cold_cached [of i s] others
      by (intro reading_I [of _ n i c pc']) (auto simp: unread_def cold_def start_read_def busy_def)
    then show ?thesis by simp
  qed
qed

lemma reading_go:
  assumes "reading i n s" and "flight_ok s" and "rows s i \<noteq> None" and "D \<le> clock s + int ttl * 1000"
    and "procs s c = Some pc" and "coal_getProduct ttl c pc s = (pc', s')"
  shows "let s2 = s'\<lparr>procs := (procs s')(c \<mapsto> pc')\<rparr> in reading i n s2 \<or> shared i n D s2"
proof -
  obtain f pf where f: "procs s f = Some pf" "busy i pf"
    and others: "\<And>d pd. d \<noteq> f \<Longrightarrow> procs s d = Some pd \<Longrightarrow> waiting i pd" using assms(1) by (auto simp: reading_def)
  have own: "inFlight s (productCacheKey i) = Some f" using f flight_owner [OF assms(2), of f i] by (auto simp: busy_def)
  show ?thesis
  proof (cases "c = f")
    case False
    then have "waiting i pc" using others assms(5) by simp
    then have "waiting i pc'" "s' = s"
    proof -
      have "promise_result (procs s d) = None" for d
        using f others [of d] by (cases "d = f"; cases "procs s d") (auto simp: phase_defs)
      then show "waiting i pc'" "s' = s" using \<open>waiting i pc\<close> assms(6) own by (auto simp: waiting_def)
    qed
    then have "reading i n (s'\<lparr>procs := (procs s')(c \<mapsto> pc')\<rparr>)"
      using assms(1) False f others by (intro reading_I [of _ n i f pf]) (auto simp: reading_def cold_def split: if_splits)
    then show ?thesis by simp
  next
    case True
    then have "busy i pc" using f assms(5) by simp
    then consider (read) u where "pc = CRead i u" | (set) p where "pc = CSet i p" by (auto simp: busy_def)
    then show ?thesis
    proof cases
      case (read u)
      then have "busy i pc'" "callCount s' = callCount s" "clock s' = clock s" "store s' = store s" "procs s' = procs s"
        using assms(3,6) by (auto simp: busy_def finish_read_def split: if_splits option.splits)
      then have "reading i n (s'\<lparr>procs := (procs s')(c \<mapsto> pc')\<rparr>)"
        using assms(1) True others by (auto simp: reading_def cold_def)
      then show ?thesis by simp
    next
      case (set p)
      have "warm i p D (cache_put ttl i p s)" using assms(4) by (rule cache_put_warm)
      then have "shared i n D (s'\<lparr>procs := (procs s')(c \<mapsto> pc')\<rparr>)"
        using set assms(1,6) True others unfolding shared_def
        by (intro conjI exI [of _ p]) (auto simp: reading_def warm_def all_pcs_def early_def answered_def)
      then show ?thesis by simp
    qed
  qed
qed

lemma shared_go:
  assumes "shared i n D s" and "clock s \<le> D" and "procs s c = Some pc" and "coal_getProduct ttl c pc s = (pc', s')"
  shows "shared i n D (s'\<lparr>procs := (procs s')(c \<mapsto> pc')\<rparr>)"
proof -
  obtain p where w: "warm i p D s" and all: "all_pcs (\<lambda>pc. early i pc \<or> answered i p pc) s"
    and n: "callCount s = n + 1" using assms(1) by (auto simp: shared_def)
  have pc: "early i pc \<or> answered i p pc" using all assms(3) by (simp add: all_pcs_def)
  have res: "r = Inr p" if "promise_result (procs s f) = Some r" for f r
  proof (cases "procs s f")
    case (Some a)
    then have "early i a \<or> answered i p a" using all by (simp add: all_pcs_def)
    then show ?thesis using Some that by (auto simp: phase_defs)
  qed (use that in simp)
  have "callCount s' = callCount s \<and> store s' = store s \<and> procs s' = procs s \<and> (early i pc' \<or> answered i p pc')"
    using pc assms(4) warm_cached [OF w assms(2)] res
    by (auto simp: early_def waiting_def answered_def split: option.splits)
  then show ?thesis
    using w n all unfolding shared_def
    by (intro conjI exI [of _ p] all_pcs_go) (auto simp: warm_def)
qed

fun only_for :: "nat \<Rightarrow> event \<Rightarrow> bool" where
  "only_for i (Call c j) = (j = i)"
| "only_for i (Delete j) = (j \<noteq> i)"
| "only_for i _ = True"

lemma one_read_go:
  assumes "one_read i n D s" and "clock s \<le> D" and "D \<le> clock s + int ttl * 1000"
  shows "one_read i n D (cache_step CStart (coal_getProduct ttl) (Go c) s)"
proof (cases "procs s c")
  case None
  then show ?thesis using assms(1) by simp
next
  case (Some pc)
  obtain pc' s' where go: "coal_getProduct ttl c pc s = (pc', s')" by fastforce
  have "flight_ok (s'\<lparr>procs := (procs s')(c \<mapsto> pc')\<rparr>)"
    using coal_flight_step [OF go] assms(1) Some by (simp add: one_read_def)
  moreover have "rows s' = rows s" using coal_frame [OF go] by simp
  ultimately show ?thesis
    using assms Some go unread_go [OF _ _ Some go, of i n] reading_go [OF _ _ _ assms(3) Some go, of i n]
      shared_go [OF _ assms(2) Some go, of i n]
    by (auto simp: one_read_def Let_def)
qed

lemma one_read_Call:
  assumes "one_read i n D s"
  shows "one_read i n D (cache_step CStart go (Call c i) s)"
proof (cases "procs s c")
  case None
  let ?s = "s\<lparr>procs := (procs s)(c \<mapsto> CStart i)\<rparr>"
  have all: "all_pcs P ?s" if "all_pcs P s" "P (CStart i)" for P
    using that by (rule all_pcs_go [OF _ refl])
  have "flight_ok ?s"
    using assms None by (simp add: one_read_def flight_ok_def owns_upd fun_upd_idem del: fun_upd_apply)
  moreover have "unread i n s \<Longrightarrow> unread i n ?s"
    using all [of "early i"] by (auto simp: unread_def cold_def early_def waiting_def)
  moreover have "reading i n s \<Longrightarrow> reading i n ?s"
  proof -
    assume r: "reading i n s"
    then obtain f pf where "procs s f = Some pf" "busy i pf"
      "\<And>d pd. d \<noteq> f \<Longrightarrow> procs s d = Some pd \<Longrightarrow> waiting i pd" by (auto simp: reading_def)
    then show ?thesis
      using r None by (intro reading_I [of _ n i f pf]) (auto simp: reading_def cold_def waiting_def split: if_splits)
  qed
  moreover have "shared i n D s \<Longrightarrow> shared i n D ?s"
    using all by (fastforce simp: shared_def warm_def early_def waiting_def)
  ultimately show ?thesis using assms None by (auto simp: one_read_def)
qed (use assms in simp)

lemma one_read_step:
  assumes "one_read i n D s" and "clock s \<le> D" and "D \<le> clock s + int ttl * 1000" and "only_for i e"
  shows "one_read i n D (cache_step CStart (coal_getProduct ttl) e s)"
proof (cases e)
  case (Call c j)
  then show ?thesis using one_read_Call [OF assms(1)] assms(4) by (simp del: cache_step.simps)
next
  case (Go c)
  then show ?thesis using one_read_go [OF assms(1-3)] by simp
next
  case (Tick d)
  have "cold i s \<Longrightarrow> cold i (s\<lparr>clock := clock s + int d\<rparr>)"
  proof (rule ccontr)
    assume "cold i s" "\<not> cold i (s\<lparr>clock := clock s + int d\<rparr>)"
    then obtain v where "redis_get (of_int (clock s + int d)) (productCacheKey i) (store s) = Some v"
      "redis_get (of_int (clock s)) (productCacheKey i) (store s) = None" by (auto simp: cold_def)
    from get_later [OF this] show False by simp
  qed
  then show ?thesis using assms(1) Tick
    by (auto simp: one_read_def unread_def reading_def shared_def all_pcs_def warm_def flight_ok_def)
qed (use assms in \<open>auto simp: one_read_def unread_def reading_def shared_def all_pcs_def warm_def flight_ok_def cold_def\<close>)

lemma coal_clock: "clock s \<le> clock (cache_step CStart (coal_getProduct ttl) e s)"
proof (cases e)
  case (Go c)
  then show ?thesis
    using coal_frame [of ttl c] by (auto split: option.splits prod.splits)
qed auto

lemma one_read_run:
  "one_read i n D s \<Longrightarrow> D \<le> clock s + int ttl * 1000 \<Longrightarrow> clock (coal_run ttl es s) \<le> D \<Longrightarrow> \<forall>e \<in> set es. only_for i e \<Longrightarrow>
   one_read i n D (coal_run ttl es s) \<and> D \<le> clock (coal_run ttl es s) + int ttl * 1000"
proof (induction es rule: rev_induct)
  case Nil
  then show ?case by simp
next
  case (snoc e es)
  let ?s = "coal_run ttl es s"
  have "clock ?s \<le> clock (coal_run ttl (es @ [e]) s)" using coal_clock [of ?s ttl e] by simp
  then have le: "clock ?s \<le> D" using snoc.prems(3) by linarith
  then have "one_read i n D ?s" "D \<le> clock ?s + int ttl * 1000" using snoc.IH snoc.prems by auto
  moreover from this have "one_read i n D (cache_step CStart (coal_getProduct ttl) e ?s)"
    using le snoc.prems(4) by (intro one_read_step) auto
  moreover have "clock ?s \<le> clock (cache_step CStart (coal_getProduct ttl) e ?s)" by (rule coal_clock)
  ultimately show ?case by simp
qed

lemma one_read_answers:
  assumes "procs s = Map.empty" and "inFlight s = Map.empty" and "cold i s"
    and "rows s i \<noteq> None" and "\<forall>e \<in> set es. only_for i e"
    and "clock (coal_run ttl es s) \<le> clock s + int ttl * 1000"
  shows "callCount (coal_run ttl es s) \<le> callCount s + 1
    \<and> (\<exists>p. \<forall>c j r. procs (coal_run ttl es s) c = Some (CDone j r) \<longrightarrow> r = Inr p)"
proof -
  let ?s = "coal_run ttl es s"
  have "one_read i (callCount s) (clock s + int ttl * 1000) s"
    using assms(1-4) by (simp add: one_read_def flight_ok_def matched_def unread_def all_pcs_def)
  from one_read_run [OF this _ assms(6,5)]
  have o: "one_read i (callCount s) (clock s + int ttl * 1000) ?s" by simp
  then have n: "callCount ?s \<le> callCount s + 1"
    by (auto simp: one_read_def unread_def reading_def shared_def)
  have nodone: "\<not> waiting i (CDone j r)" "\<not> early i (CDone j r)" "\<not> busy i (CDone j r)" for j r
    by (simp_all add: phase_defs)
  from o consider "unread i (callCount s) ?s" | "reading i (callCount s) ?s"
    | "shared i (callCount s) (clock s + int ttl * 1000) ?s" by (auto simp: one_read_def)
  then have "\<exists>p. \<forall>c j r. procs ?s c = Some (CDone j r) \<longrightarrow> r = Inr p"
  proof cases
    case 1
    then have "procs ?s c \<noteq> Some (CDone j r)" for c j r
      using nodone(2) [of j r] by (auto simp: unread_def all_pcs_def)
    then show ?thesis by blast
  next
    case 2
    then obtain f pf where "procs ?s f = Some pf" "busy i pf"
      "\<And>d pd. d \<noteq> f \<Longrightarrow> procs ?s d = Some pd \<Longrightarrow> waiting i pd" by (auto simp: reading_def)
    then have "procs ?s c \<noteq> Some (CDone j r)" for c j r
      using nodone(1,3) [of j r] by (cases "c = f") auto
    then show ?thesis by blast
  next
    case 3
    then obtain p where "all_pcs (\<lambda>pc. early i pc \<or> answered i p pc) ?s" by (auto simp: shared_def)
    then have "r = Inr p" if "procs ?s c = Some (CDone j r)" for c j r
      using nodone(2) [of j r] that unfolding all_pcs_def answered_def by blast
    then show ?thesis by blast
  qed
  with n show ?thesis by simp
qed

section \<open>How often a product is read\<close>

text \<open>
  Whatever products are called, and whatever happens to the table and the clock: when rows of one product were read. Until
  the owner of the promise has stored what it read, the promise keeps everybody else from reading; then the entry does.
\<close>

definition read_times :: "nat \<Rightarrow> ('pc, 'x) world_scheme \<Rightarrow> int list" where
  "read_times i s = map fst (filter (\<lambda>(t, j, p). j = i) (reads s))"

definition entry_until :: "nat \<Rightarrow> int \<Rightarrow> ('pc, 'x) world_scheme \<Rightarrow> bool" where
  "entry_until i D s \<longleftrightarrow> (\<exists>v u. store s (productCacheKey i) = Some (v, Some u) \<and> v \<noteq> [] \<and> of_int D \<le> u)"

definition reads_spaced :: "int \<Rightarrow> nat \<Rightarrow> coal_world \<Rightarrow> bool" where
  "reads_spaced T i s \<longleftrightarrow> flight_ok s
     \<and> sorted_wrt (\<lambda>a b. a + T + SIMULATED_QUERY_DELAY_MS \<le> b) (read_times i s)
     \<and> (\<forall>t \<in> set (read_times i s). t \<le> clock s
          \<and> ((\<exists>c p. procs s c = Some (CSet i p)) \<or> entry_until i (t + T) s)
          \<and> (\<forall>c u. procs s c = Some (CRead i u) \<longrightarrow> t + T + SIMULATED_QUERY_DELAY_MS \<le> u))"

lemma entry_miss: "entry_until i D s \<Longrightarrow> cached_value i s = None \<Longrightarrow> D \<le> clock s"
proof -
  assume e: "entry_until i D s" and c: "cached_value i s = None"
  then obtain v u where v: "store s (productCacheKey i) = Some (v, Some u)" "v \<noteq> []" "of_int D \<le> u" by (auto simp: entry_until_def)
  then have "u < of_int (clock s)" using c by (auto simp: cached_value_def redis_get_def split: if_splits)
  then have "(of_int D :: rat) < of_int (clock s)" using v(3) by simp
  then show ?thesis by simp
qed

text \<open>A step that leaves the reads of a product and its entry alone, and puts nobody into or out of its read and its write.\<close>

lemma spaced_frame:
  assumes "reads_spaced T i s" and "flight_ok s'" and "read_times i s' = read_times i s" and "clock s \<le> clock s'"
    and "store s' (productCacheKey i) = store s (productCacheKey i)"
    and "\<And>c p. procs s c = Some (CSet i p) \<Longrightarrow> \<exists>c p. procs s' c = Some (CSet i p)"
    and "\<And>c u. procs s' c = Some (CRead i u) \<Longrightarrow> procs s c = Some (CRead i u)"
  shows "reads_spaced T i s'"
proof -
  have "entry_until i D s' = entry_until i D s" for D using assms(5) by (simp add: entry_until_def)
  then show ?thesis using assms(1-4) assms(6,7) unfolding reads_spaced_def by (metis order_trans)
qed

lemma spaced_go:
  assumes r: "reads_spaced (int ttl * 1000) i s" and pc: "procs s c = Some pc" and go: "coal_getProduct ttl c pc s = (pc', s')"
  shows "reads_spaced (int ttl * 1000) i (s'\<lparr>procs := (procs s')(c \<mapsto> pc')\<rparr>)"
proof -
  let ?s = "s'\<lparr>procs := (procs s')(c \<mapsto> pc')\<rparr>" and ?T = "int ttl * 1000"
  have ok: "flight_ok s" using r by (simp add: reads_spaced_def)
  have ok': "flight_ok ?s" by (rule coal_flight_step [OF go ok pc])
  have f: "procs s' = procs s" "clock s' = clock s" using coal_frame [OF go] by simp_all
  have mine: "a = c" if "owns (Some pc) = Some i" "owns (procs s a) = Some i" for a
    using flight_unique [OF ok that(2), of c] that(1) pc by simp
  have rest: ?thesis if "read_times i s' = read_times i s" "store s' (productCacheKey i) = store s (productCacheKey i)"
    "\<And>p. pc = CSet i p \<Longrightarrow> pc' = pc" "\<And>u. pc' = CRead i u \<Longrightarrow> pc = pc'"
  proof (rule spaced_frame [OF r ok'])
    fix d p
    assume d: "procs s d = Some (CSet i p)"
    then have "procs ?s d = Some (CSet i p)" using that(3) pc f by (cases "d = c") auto
    then show "\<exists>c p. procs ?s c = Some (CSet i p)" by blast
  next
    fix d u
    assume "procs ?s d = Some (CRead i u)"
    then show "procs s d = Some (CRead i u)" using that(4) pc f by (cases "d = c") auto
  qed (use that f in \<open>simp_all add: read_times_def\<close>)
  have times: "t \<le> clock s" "(\<exists>c p. procs s c = Some (CSet i p)) \<or> entry_until i (t + ?T) s"
    "procs s d = Some (CRead i u) \<Longrightarrow> t + ?T + SIMULATED_QUERY_DELAY_MS \<le> u" if "t \<in> set (read_times i s)" for t d u
    using r that unfolding reads_spaced_def by blast+
  have sorted: "sorted_wrt (\<lambda>a b. a + ?T + SIMULATED_QUERY_DELAY_MS \<le> b) (read_times i s)" using r by (simp add: reads_spaced_def)
  show ?thesis
  proof (cases pc)
    case (CStart j)
    then show ?thesis using go by (intro rest) (auto simp: read_times_def split: option.splits)
  next
    case (CGet j)
    show ?thesis
    proof (cases "cached_value j s = None \<and> j = i")
      case False
      then show ?thesis using CGet go by (intro rest) (auto simp: read_times_def start_read_def split: option.splits)
    next
      case True
      then have s': "pc' = CRead i (clock s + SIMULATED_QUERY_DELAY_MS)" "read_times i s' = read_times i s" "store s' = store s"
        using CGet go by (auto simp: start_read_def read_times_def)
      have own: "owns (Some pc) = Some i" using CGet True by simp
      have e: "entry_until i (t + ?T) s" if "t \<in> set (read_times i s)" for t
      proof -
        have "procs s d \<noteq> Some (CSet i p)" for d p using mine [OF own, of d] pc CGet by auto
        then show ?thesis using times(2) [OF that] by blast
      qed
      then have "t + ?T \<le> clock s" if "t \<in> set (read_times i s)" for t using entry_miss True that by blast
      moreover have "u = clock s + SIMULATED_QUERY_DELAY_MS" if "procs ?s d = Some (CRead i u)" for d u
      proof (cases "d = c")
        case True
        then show ?thesis using that s'(1) by simp
      next
        case False
        then show ?thesis using that f mine [OF own, of d] by simp
      qed
      moreover have "entry_until i D ?s = entry_until i D s" for D using s'(3) by (simp add: entry_until_def)
      ultimately show ?thesis using ok' sorted times(1) e s'(2) f unfolding reads_spaced_def
        by (fastforce simp: read_times_def)
    qed
  next
    case (CRead j u)
    show ?thesis
    proof (cases "clock s < u \<or> j \<noteq> i \<or> rows s j = None")
      case True
      then show ?thesis using CRead go
        by (intro rest) (auto simp: read_times_def finish_read_def split: option.splits if_splits)
    next
      case False
      then obtain p where s': "pc' = CSet i p" "read_times i s' = read_times i s @ [clock s]"
        using CRead go by (auto simp: finish_read_def read_times_def)
      have own: "owns (Some pc) = Some i" using CRead False by simp
      have gap: "t + ?T + SIMULATED_QUERY_DELAY_MS \<le> clock s" if "t \<in> set (read_times i s)" for t
        using times(3) [OF that, of c u] pc CRead False by simp
      have noread: "procs ?s d \<noteq> Some (CRead i v)" for d v using mine [OF own, of d] s'(1) f by (cases "d = c") auto
      have "procs ?s c = Some (CSet i p)" using s'(1) by simp
      moreover have "read_times i ?s = read_times i s @ [clock s]" using s'(2) by (simp add: read_times_def)
      ultimately show ?thesis using ok' sorted gap times(1) noread f unfolding reads_spaced_def
        by (simp add: sorted_wrt_append) blast
    qed
  next
    case (CSet j p)
    show ?thesis
    proof (cases "j = i")
      case False
      then show ?thesis using CSet go by (intro rest) (auto simp: read_times_def cache_put_def redis_set_px_def)
    next
      case True
      then have s': "pc' = CSettled i (Inr p)" "s' = cache_put ttl i p s" using CSet go by auto
      have own: "owns (Some pc) = Some i" using CSet True by simp
      have noread: "procs ?s d \<noteq> Some (CRead i v)" for d v using mine [OF own, of d] s'(1) f pc CSet by (cases "d = c") auto
      have e: "entry_until i (t + ?T) ?s" if "t \<in> set (read_times i s)" for t
      proof -
        have "warm i p (t + ?T) s'" unfolding s'(2) using times(1) [OF that] by (intro cache_put_warm) simp
        then show ?thesis by (auto simp: warm_def entry_until_def)
      qed
      have "read_times i ?s = read_times i s" using s'(2) by (simp add: read_times_def)
      then show ?thesis using ok' sorted e times(1) noread f unfolding reads_spaced_def by auto
    qed
  next
    case (CSettled j r)
    then show ?thesis using go by (intro rest) (auto simp: read_times_def)
  next
    case (CJoin j g)
    then show ?thesis using go by (intro rest) (auto simp: read_times_def split: option.splits)
  next
    case (CDone j r)
    then show ?thesis using go by (intro rest) (auto simp: read_times_def)
  qed
qed

lemma spaced_step:
  assumes "reads_spaced (int ttl * 1000) i s"
  shows "reads_spaced (int ttl * 1000) i (cache_step CStart (coal_getProduct ttl) e s)"
proof (cases e)
  case (Go c)
  then show ?thesis using assms spaced_go [OF assms, of c] by (auto split: option.splits prod.splits)
next
  case (Call c j)
  have ok: "flight_ok (cache_step CStart (coal_getProduct ttl) e s)" using assms flight_step by (auto simp: reads_spaced_def simp del: cache_step.simps)
  show ?thesis by (rule spaced_frame [OF assms ok]) (fastforce simp: Call read_times_def split: if_splits)+
next
  case (Tick d)
  have ok: "flight_ok (cache_step CStart (coal_getProduct ttl) e s)" using assms flight_step by (auto simp: reads_spaced_def simp del: cache_step.simps)
  show ?thesis by (rule spaced_frame [OF assms ok]) (auto simp: Tick read_times_def)
next
  case (Write p)
  have ok: "flight_ok (cache_step CStart (coal_getProduct ttl) e s)" using assms flight_step by (auto simp: reads_spaced_def simp del: cache_step.simps)
  show ?thesis by (rule spaced_frame [OF assms ok]) (auto simp: Write read_times_def)
next
  case (Delete j)
  have ok: "flight_ok (cache_step CStart (coal_getProduct ttl) e s)" using assms flight_step by (auto simp: reads_spaced_def simp del: cache_step.simps)
  show ?thesis by (rule spaced_frame [OF assms ok]) (auto simp: Delete read_times_def)
qed

lemma spaced_run: "reads_spaced (int ttl * 1000) i s \<Longrightarrow> reads_spaced (int ttl * 1000) i (coal_run ttl es s)"
  by (induction es arbitrary: s) (simp_all add: spaced_step del: cache_step.simps)

text \<open>The calls of the naive cache that are past their look at the cache, and not answered, have each started a read.\<close>

fun reading_naive :: "naive_pc option \<Rightarrow> bool" where
  "reading_naive (Some (NRead i u)) = True"
| "reading_naive (Some (NSet i p)) = True"
| "reading_naive _ = False"

lemma naive_readers:
  assumes "procs w = Map.empty"
  shows "finite (dom (procs (naive_run ttl es w)))
    \<and> ((\<forall>c j r. procs (naive_run ttl es w) c \<noteq> Some (NDone j r)) \<longrightarrow>
        callCount (naive_run ttl es w) = callCount w + card {c. reading_naive (procs (naive_run ttl es w) c)})"
proof (induction es rule: rev_induct)
  case Nil
  then show ?case using assms by simp
next
  case (snoc e es)
  let ?s = "naive_run ttl es w" and ?N = "\<lambda>s. {c. reading_naive (procs s c)}"
  let ?s' = "cache_step NGet (naive_getProduct ttl) e ?s"
  have fin: "finite (?N ?s)"
  proof (rule finite_subset)
    show "?N ?s \<subseteq> dom (procs ?s)" using reading_naive.simps(3) by (metis (mono_tags, lifting) domIff mem_Collect_eq subsetI)
  qed (use snoc.IH in blast)
  have step: "finite (dom (procs ?s'))
    \<and> ((\<forall>c j r. procs ?s' c \<noteq> Some (NDone j r)) \<longrightarrow> (\<forall>c j r. procs ?s c \<noteq> Some (NDone j r))
         \<and> callCount ?s' + card (?N ?s) = callCount ?s + card (?N ?s'))"
  proof (cases e)
    case (Call c i)
    show ?thesis
    proof (cases "procs ?s c")
      case None
      then have s': "?s' = ?s\<lparr>procs := (procs ?s)(c \<mapsto> NGet i)\<rparr>" using Call by simp
      have "?N ?s' = ?N ?s" unfolding s' using None by auto
      moreover have "callCount ?s' = callCount ?s" unfolding s' by simp
      moreover have "finite (dom (procs ?s'))" unfolding s' using snoc.IH by simp
      moreover have "procs ?s' a = Some (NDone j r)" if "procs ?s a = Some (NDone j r)" for a j r
        unfolding s' using that None by auto
      ultimately show ?thesis by (metis add.commute)
    next
      case (Some pc)
      then show ?thesis using snoc.IH Call by simp
    qed
  next
    case (Go c)
    show ?thesis
    proof (cases "procs ?s c")
      case None
      then show ?thesis using snoc.IH Go by simp
    next
      case (Some pc)
      obtain pc' s2 where go: "naive_getProduct ttl c pc ?s = (pc', s2)" by fastforce
      then have s': "?s' = s2\<lparr>procs := (procs s2)(c \<mapsto> pc')\<rparr>" using Some Go by simp
      have f: "procs s2 = procs ?s" and n: "callCount s2 = callCount ?s + (if reading_naive (Some pc') \<and> \<not> reading_naive (Some pc) then 1 else 0)"
        and d: "(\<exists>j r. pc' = NDone j r) \<or> reading_naive (Some pc')" and k: "(\<exists>j r. pc = NDone j r) \<Longrightarrow> pc' = pc"
        using go by (cases pc; auto simp: start_read_def finish_read_def cache_put_def split: option.splits if_splits)+
      show ?thesis
      proof (cases "\<exists>j r. pc' = NDone j r")
        case True
        then show ?thesis using snoc.IH by (auto simp: s' f)
      next
        case False
        then have r: "reading_naive (Some pc')" using d by blast
        then have N: "?N ?s' = insert c (?N ?s)" by (auto simp: s' f)
        have "callCount ?s' + card (?N ?s) = callCount ?s + card (?N ?s')"
        proof -
          have "card (?N ?s') = card (?N ?s) + (if reading_naive (Some pc) then 0 else 1)"
            unfolding N using fin Some by (simp add: card_insert_if)
          moreover have "callCount ?s' = callCount s2" by (simp add: s')
          ultimately show ?thesis using n r by simp
        qed
        moreover have "\<forall>a j r. procs ?s a \<noteq> Some (NDone j r)" if "\<forall>a j r. procs ?s' a \<noteq> Some (NDone j r)"
        proof (intro allI notI)
          fix a j r
          assume a: "procs ?s a = Some (NDone j r)"
          then have "procs ?s' a = Some (NDone j r)" using k Some by (cases "a = c") (auto simp: s' f)
          then show False using that by blast
        qed
        ultimately show ?thesis using snoc.IH by (simp add: s' f)
      qed
    qed
  qed (use snoc.IH in auto)
  then show ?case using snoc.IH by auto
qed

text \<open>
  C22: the cache stampede and its in-process cure, however calls of any products, time, writes and deletions interleave.
  With the naive cache, as long as no call has been answered, the database has been read once by every call that has looked
  at the cache. With coalescing in one process, the reads that returned a row of one product lie at least the entries' time to
  live and the duration of a query apart. So it is one read at a time to live: in a run from a cold cache with calls of one
  product only, whose row exists all along, up to the end of the time to live the database is read at most once, and the
  answered calls all succeed with the same product.
\<close>

theorem coalescing_ends_the_stampede:
  assumes "procs w = Map.empty" and "\<forall>c j r. procs (naive_run ttl es w) c \<noteq> Some (NDone j r)"
    and "procs s = Map.empty" and "inFlight s = Map.empty" and "reads s = []"
  shows "callCount (naive_run ttl es w) = callCount w + card {c. reading_naive (procs (naive_run ttl es w) c)}
    \<and> sorted_wrt (\<lambda>a b. a + int ttl * 1000 + SIMULATED_QUERY_DELAY_MS \<le> b) (read_times i (coal_run ttl fs s))
    \<and> (cold i s \<and> rows s i \<noteq> None \<and> (\<forall>e \<in> set fs. only_for i e) \<and> clock (coal_run ttl fs s) \<le> clock s + int ttl * 1000 \<longrightarrow>
        callCount (coal_run ttl fs s) \<le> callCount s + 1
        \<and> (\<exists>p. \<forall>c j r. procs (coal_run ttl fs s) c = Some (CDone j r) \<longrightarrow> r = Inr p))"
proof (intro conjI impI)
  show "callCount (naive_run ttl es w) = callCount w + card {c. reading_naive (procs (naive_run ttl es w) c)}"
    using naive_readers [OF assms(1), of ttl es] assms(2) by blast
next
  have "reads_spaced (int ttl * 1000) i s"
    using assms(3-5) by (simp add: reads_spaced_def read_times_def flight_ok_def matched_def)
  from spaced_run [OF this, of fs]
  show "sorted_wrt (\<lambda>a b. a + int ttl * 1000 + SIMULATED_QUERY_DELAY_MS \<le> b) (read_times i (coal_run ttl fs s))"
    by (simp add: reads_spaced_def)
qed (use one_read_answers [OF assms(3,4)] in blast)+

definition widget :: Product where
  "widget = \<lparr>pid = 7, publicId = ''prod_7'', pname = ''Blue widget'', priceCents = 1250\<rparr>"

definition cold_start :: coal_world where
  "cold_start = \<lparr>clock = 0, store = Map.empty, rows = [7 \<mapsto> widget], callCount = 0, reads = [], procs = Map.empty,
     inFlight = Map.empty\<rparr>"

text \<open>Two callers at once share one read; a third after the time to live reads again, 30.075 seconds or more after the first.\<close>

lemma coalescing_ends_the_stampede_witness:
  "let es = [Call 0 7, Call 1 7, Go 0, Go 1, Go 0, Tick 75, Go 0, Go 0, Go 1, Go 0]; fs = es @ [Call 2 7, Tick 30001, Go 2, Go 2, Tick 75, Go 2]
   in callCount (coal_run 30 es cold_start) \<le> 1 \<and> procs (coal_run 30 es cold_start) 1 = Some (CDone 7 (Inr widget))
      \<and> read_times 7 (coal_run 30 fs cold_start) = [75, 30151] \<and> sorted_wrt (\<lambda>a b. a + 30075 \<le> b) (read_times 7 (coal_run 30 fs cold_start))"
proof -
  define es where "es = [Call 0 7, Call 1 7, Go 0, Go 1, Go 0, Tick 75, Go 0, Go 0, Go 1, Go 0]"
  define fs where "fs = es @ [Call 2 7, Tick 30001, Go 2, Go 2, Tick 75, Go 2]"
  have s: "clock (coal_run 30 es cold_start) = 75 \<and> procs (coal_run 30 es cold_start) 1 = Some (CDone 7 (Inr widget))"
    by (simp add: es_def cold_start_def cached_value_def redis_get_def start_read_def
        SIMULATED_QUERY_DELAY_MS_def finish_read_def cache_put_def redis_set_px_def)
  have t: "read_times 7 (coal_run 30 fs cold_start) = [75, 30151]"
    by (simp add: fs_def es_def cold_start_def cached_value_def redis_get_def start_read_def
        SIMULATED_QUERY_DELAY_MS_def finish_read_def cache_put_def redis_set_px_def read_times_def)
  define w :: "naive_pc world" where "w = \<lparr>clock = 0, store = Map.empty, rows = [7 \<mapsto> widget], callCount = 0,
    reads = [], procs = Map.empty\<rparr>"
  have stampede: "\<forall>c j r. procs (naive_run 30 [Call 0 7, Call 1 7, Go 0, Go 1] w) c \<noteq> Some (NDone j r)"
    by (simp add: w_def cached_value_def redis_get_def start_read_def)
  note C = coalescing_ends_the_stampede [OF _ stampede, of cold_start 7]
  have "callCount (coal_run 30 es cold_start) \<le> 1"
    using C [of es] s by (simp add: w_def cold_start_def cold_def redis_get_def es_def)
  moreover have "sorted_wrt (\<lambda>a b. a + 30075 \<le> b) (read_times 7 (coal_run 30 fs cold_start))"
    using C [of fs, THEN conjunct2, THEN conjunct1] by (simp add: w_def cold_start_def SIMULATED_QUERY_DELAY_MS_def add.commute)
  ultimately show ?thesis using s t unfolding fs_def es_def Let_def by blast
qed

end
