(* ===== verification/Cache_Lease.thy ===== *)
theory Cache_Lease
  imports Cache_Aside Redis_Lock
begin

text \<open>
  The lease-based refill of Lab 21, \<open>labs/21-*/src/cache/lease-based-refill.ts\<close>: callers of any number of
  processes over one Redis. The lease commands are those of Lab 22's lock, whose contract the proofs
  use. \<open>uuid c a\<close> is the \<open>randomUUID\<close> that call \<open>c\<close> draws in attempt \<open>a\<close>.
\<close>

record LeaseCacheOptions =
  lco_ttlSeconds :: nat
  lco_leaseMs :: nat
  lco_pollIntervalMs :: nat
  lco_maxAttempts :: nat

definition default_lease_options :: LeaseCacheOptions where
  "default_lease_options = \<lparr>lco_ttlSeconds = 30, lco_leaseMs = 2000, lco_pollIntervalMs = 20, lco_maxAttempts = 5\<rparr>"

definition refillLockKey :: "nat \<Rightarrow> string" where
  "refillLockKey i = ''lock:'' @ productCacheKey i"

text \<open>
  The refilling states record the owner token and the time the lease runs out; a polling state its
  attempt and the deadline of \<open>pollForCacheValue\<close>.
\<close>

datatype lease_pc =
    LGet nat nat
  | LTry nat nat
  | LRead nat string int int
  | LSet nat string int Product
  | LRelease nat string int "string + Product"
  | LPoll nat nat int
  | LPollGet nat nat int
  | LSleep nat nat int int
  | LDone nat "string + Product"

definition retry_or_give_up :: "LeaseCacheOptions \<Rightarrow> nat \<Rightarrow> nat \<Rightarrow> lease_pc" where
  "retry_or_give_up opts i a =
     (if lco_maxAttempts opts \<le> a then
        LDone i (Inl (''Lease-based refill gave up after '' @ nat_str (lco_maxAttempts opts) @ '' attempts for product ''
          @ nat_str i @ '' - the lease holder never populated the cache''))
      else LGet i (a + 1))"

fun pollForCacheValue :: "LeaseCacheOptions \<Rightarrow> lease_pc \<Rightarrow> lease_pc world \<Rightarrow> lease_pc \<times> lease_pc world" where
  "pollForCacheValue opts (LPoll i a deadline) s =
     (if clock s < deadline then (LPollGet i a deadline, s) else (retry_or_give_up opts i a, s))"
| "pollForCacheValue opts (LPollGet i a deadline) s =
     (case cached_value i s of
        Some v \<Rightarrow> (LDone i (parse_product v), s)
      | None \<Rightarrow> (LSleep i a deadline (clock s + int (lco_pollIntervalMs opts)), s))"
| "pollForCacheValue opts (LSleep i a deadline until) s =
     (if clock s < until then (LSleep i a deadline until, s) else (LPoll i a deadline, s))"
| "pollForCacheValue opts pc s = (pc, s)"

fun lease_getProduct ::
  "LeaseCacheOptions \<Rightarrow> (nat \<Rightarrow> nat \<Rightarrow> string) \<Rightarrow> nat \<Rightarrow> lease_pc \<Rightarrow> lease_pc world \<Rightarrow> lease_pc \<times> lease_pc world" where
  "lease_getProduct opts uuid c (LGet i a) s =
     (case cached_value i s of
        Some v \<Rightarrow> (LDone i (parse_product v), s)
      | None \<Rightarrow> (LTry i a, s))"
| "lease_getProduct opts uuid c (LTry i a) s =
     (let (ok, r) = acquireLock (refillLockKey i) (uuid c a) (of_nat (lco_leaseMs opts)) (of_int (clock s)) (store s)
      in if ok
         then (let (until, s') = start_read (s\<lparr>store := r\<rparr>) in
               (LRead i (uuid c a) (clock s + int (lco_leaseMs opts)) until, s'))
         else (LPoll i a (clock s + int (lco_leaseMs opts) + 250), s\<lparr>store := r\<rparr>))"
| "lease_getProduct opts uuid c (LRead i owner lease until) s =
     (if clock s < until then (LRead i owner lease until, s)
      else (case finish_read i s of
              (Inl e, s') \<Rightarrow> (LRelease i owner lease (Inl e), s')
            | (Inr p, s') \<Rightarrow> (LSet i owner lease p, s')))"
| "lease_getProduct opts uuid c (LSet i owner lease p) s =
     (LRelease i owner lease (Inr p), cache_put (lco_ttlSeconds opts) i p s)"
| "lease_getProduct opts uuid c (LRelease i owner lease r) s =
     (LDone i r, s\<lparr>store := snd (releaseLock (refillLockKey i) owner (of_int (clock s)) (store s))\<rparr>)"
| "lease_getProduct opts uuid c pc s = pollForCacheValue opts pc s"

abbreviation lease_run ::
  "LeaseCacheOptions \<Rightarrow> (nat \<Rightarrow> nat \<Rightarrow> string) \<Rightarrow> event list \<Rightarrow> lease_pc world \<Rightarrow> lease_pc world" where
  "lease_run opts uuid \<equiv> cache_run (\<lambda>i. LGet i 1) (lease_getProduct opts uuid)"

text \<open>A call that may read the database: the product, its token and the end of its lease.\<close>

fun refilling :: "lease_pc option \<Rightarrow> (nat \<times> string \<times> int) option" where
  "refilling (Some (LRead i owner lease until)) = Some (i, owner, lease)"
| "refilling (Some (LSet i owner lease p)) = Some (i, owner, lease)"
| "refilling (Some (LRelease i owner lease r)) = Some (i, owner, lease)"
| "refilling _ = None"

section \<open>One refill at a time\<close>

definition lease_ok :: "(nat \<Rightarrow> nat \<Rightarrow> string) \<Rightarrow> lease_pc world \<Rightarrow> bool" where
  "lease_ok uuid s \<longleftrightarrow>
     (\<forall>c i tok u. refilling (procs s c) = Some (i, tok, u) \<longrightarrow>
        (\<exists>a. tok = uuid c a)
        \<and> (\<forall>t. of_int (clock s) \<le> t \<longrightarrow> t \<le> of_int u \<longrightarrow> redis_get t (refillLockKey i) (store s) = Some tok))"

lemma lease_okD:
  assumes "lease_ok uuid s" and "refilling (procs s c) = Some (i, tok, u)"
  shows "\<exists>a. tok = uuid c a"
    and "of_int (clock s) \<le> t \<Longrightarrow> t \<le> of_int u \<Longrightarrow> redis_get t (refillLockKey i) (store s) = Some tok"
  using assms unfolding lease_ok_def by blast+

lemma refillLockKey_simps [simp]:
  "refillLockKey i = refillLockKey j \<longleftrightarrow> i = j" "refillLockKey i \<noteq> productCacheKey j" "productCacheKey j \<noteq> refillLockKey i"
  by (simp_all add: refillLockKey_def productCacheKey_def)

text \<open>A caller's step: its tokens are its own, and every other holder's lease is left alone.\<close>

definition keeps_leases :: "nat \<Rightarrow> lease_pc world \<Rightarrow> redis \<Rightarrow> bool" where
  "keeps_leases c s r \<longleftrightarrow>
     (\<forall>d i tok u t. d \<noteq> c \<longrightarrow> refilling (procs s d) = Some (i, tok, u) \<longrightarrow> of_int (clock s) \<le> t \<longrightarrow> t \<le> of_int u \<longrightarrow>
        redis_get t (refillLockKey i) r = Some tok)"

lemma keeps_same: "lease_ok uuid s \<Longrightarrow> (\<And>i t. redis_get t (refillLockKey i) r = redis_get t (refillLockKey i) (store s)) \<Longrightarrow>
    keeps_leases c s r"
  unfolding keeps_leases_def by (simp add: lease_okD(2))

lemma other_lock:
  "acquireLock (refillLockKey i) tok ttl t r = (ok, r') \<Longrightarrow> j \<noteq> i \<Longrightarrow>
     redis_get u (refillLockKey j) r' = redis_get u (refillLockKey j) r"
  "j \<noteq> i \<Longrightarrow> redis_get u (refillLockKey j) (snd (releaseLock (refillLockKey i) tok t r)) = redis_get u (refillLockKey j) r"
  by (auto simp: acquireLock_def redis_set_nx_px_def releaseLock_def split: if_splits)

lemma keeps_acquire:
  assumes "lease_ok uuid s" and a: "acquireLock (refillLockKey i) tok ttl (of_int (clock s)) (store s) = (True, r)"
  shows "keeps_leases c s r"
  unfolding keeps_leases_def
proof (intro allI impI)
  fix d j tok' u and t :: rat
  assume h: "refilling (procs s d) = Some (j, tok', u)" "of_int (clock s) \<le> t" "t \<le> of_int u"
  have free: "redis_get (of_int (clock s)) (refillLockKey i) (store s) = None" using lock.acquire_granted [OF a] by simp
  have "redis_get (of_int (clock s)) (refillLockKey j) (store s) = Some tok'"
    using lease_okD(2) [OF assms(1) h(1)] h by simp
  then have "j \<noteq> i" using free by auto
  then show "redis_get t (refillLockKey j) r = Some tok'"
    using other_lock(1) [OF a] lease_okD(2) [OF assms(1) h(1)] h by simp
qed

lemma keeps_release:
  assumes "lease_ok uuid s" and "\<And>d. d \<noteq> c \<Longrightarrow> \<forall>a. uuid d a \<noteq> tok"
  shows "keeps_leases c s (snd (releaseLock (refillLockKey i) tok (of_int (clock s)) (store s)))"
  unfolding keeps_leases_def
proof (intro allI impI)
  fix d j tok' u and t :: rat
  assume h: "d \<noteq> c" "refilling (procs s d) = Some (j, tok', u)" "of_int (clock s) \<le> t" "t \<le> of_int u"
  obtain ok r where r: "releaseLock (refillLockKey i) tok (of_int (clock s)) (store s) = (ok, r)" by fastforce
  have held: "redis_get x (refillLockKey j) (store s) = Some tok'" if "x = t \<or> x = of_int (clock s)" for x :: rat
    using that lease_okD(2) [OF assms(1) h(2)] h(3,4) by auto
  have "tok' \<noteq> tok" using lease_okD(1) [OF assms(1) h(2)] assms(2) [OF h(1)] by auto
  moreover have "redis_get (of_int (clock s)) (refillLockKey i) (store s) = Some tok" if ok
    using lock.release_own [of "refillLockKey i" tok "of_int (clock s)" "store s" r] r that by simp
  ultimately have "ok \<Longrightarrow> j \<noteq> i" using held [of "of_int (clock s)"] by auto
  then have "redis_get t (refillLockKey j) r = redis_get t (refillLockKey j) (store s)"
    using lock.release_refused [of "refillLockKey i" tok _ _ r] r other_lock(2) [of j i t tok] by (cases ok) (auto, metis snd_conv)
  then show "redis_get t (refillLockKey j) (snd (releaseLock (refillLockKey i) tok (of_int (clock s)) (store s))) = Some tok'"
    using held r by simp
qed

lemma lease_ok_go:
  assumes "lease_ok uuid s" and "keeps_leases c s (store s')" and "procs s' = procs s" and "clock s' = clock s"
    and "\<And>i tok u. refilling (Some pc') = Some (i, tok, u) \<Longrightarrow> (\<exists>a. tok = uuid c a) \<and>
      (\<forall>t. of_int (clock s) \<le> t \<longrightarrow> t \<le> of_int u \<longrightarrow> redis_get t (refillLockKey i) (store s') = Some tok)"
  shows "lease_ok uuid (s'\<lparr>procs := (procs s')(c \<mapsto> pc')\<rparr>)"
  unfolding lease_ok_def
proof (intro allI impI)
  fix d i tok u
  assume "refilling (procs (s'\<lparr>procs := (procs s')(c \<mapsto> pc')\<rparr>) d) = Some (i, tok, u)"
  then have h: "if d = c then refilling (Some pc') = Some (i, tok, u) else refilling (procs s d) = Some (i, tok, u)"
    using assms(3) by (simp split: if_splits)
  show "(\<exists>a. tok = uuid d a) \<and> (\<forall>t. of_int (clock (s'\<lparr>procs := (procs s')(c \<mapsto> pc')\<rparr>)) \<le> t \<longrightarrow> t \<le> of_int u \<longrightarrow>
      redis_get t (refillLockKey i) (store (s'\<lparr>procs := (procs s')(c \<mapsto> pc')\<rparr>)) = Some tok)"
  proof (cases "d = c")
    case True
    then show ?thesis using h assms(4) assms(5) [of i tok u] by simp
  next
    case False
    then have "refilling (procs s d) = Some (i, tok, u)" using h by simp
    then show ?thesis using lease_okD(1) [OF assms(1)] assms(2,4) False unfolding keeps_leases_def by simp
  qed
qed

text \<open>The tokens of different calls or attempts differ.\<close>

definition fresh_tokens :: "(nat \<Rightarrow> nat \<Rightarrow> string) \<Rightarrow> bool" where
  "fresh_tokens uuid \<longleftrightarrow> (\<forall>c a d b. uuid c a = uuid d b \<longrightarrow> c = d \<and> a = b)"

lemma lease_poll_step:
  assumes "pollForCacheValue opts pc s = (pc', s')" and "refilling (Some pc) = None"
  shows "s' = s \<and> refilling (Some pc') = None"
  using assms by (cases "(opts, pc, s)" rule: pollForCacheValue.cases) (auto simp: retry_or_give_up_def split: if_splits option.splits)

lemma lease_go:
  assumes ok: "lease_ok uuid s" and fresh: "fresh_tokens uuid" and pc: "procs s c = Some pc"
    and go: "lease_getProduct opts uuid c pc s = (pc', s')"
  shows "lease_ok uuid (s'\<lparr>procs := (procs s')(c \<mapsto> pc')\<rparr>)"
proof -
  have idle: ?thesis if "s' = s" "refilling (Some pc') = None"
    using that ok by (intro lease_ok_go [OF ok]) (auto intro: keeps_same [OF ok])
  have still: ?thesis
    if "procs s' = procs s" "clock s' = clock s" "\<And>i t. redis_get t (refillLockKey i) (store s') = redis_get t (refillLockKey i) (store s)"
      "refilling (Some pc') = refilling (Some pc)"
  proof (rule lease_ok_go [OF ok keeps_same [OF ok that(3)] that(1,2)])
    fix i tok u
    assume "refilling (Some pc') = Some (i, tok, u)"
    then have r: "refilling (procs s c) = Some (i, tok, u)" using that(4) pc by simp
    show "(\<exists>a. tok = uuid c a) \<and> (\<forall>t. of_int (clock s) \<le> t \<longrightarrow> t \<le> of_int u \<longrightarrow>
        redis_get t (refillLockKey i) (store s') = Some tok)"
      using lease_okD [OF ok r] that(3) by simp
  qed
  show ?thesis
  proof (cases pc)
    case (LGet i a)
    then show ?thesis using go by (intro idle) (auto split: option.splits)
  next
    case (LTry i a)
    obtain got r where a: "acquireLock (refillLockKey i) (uuid c a) (of_nat (lco_leaseMs opts)) (of_int (clock s)) (store s) = (got, r)"
      by fastforce
    show ?thesis
    proof (cases got)
      case False
      then have "r = store s"
        using lock.acquire_refused [of "refillLockKey i" "uuid c a" _ "of_int (clock s)" "store s" r] a by simp
      then show ?thesis using go LTry a False by (intro idle) auto
    next
      case True
      then have "\<forall>t. redis_get t (refillLockKey i) r =
          (if t \<le> of_int (clock s) + of_nat (lco_leaseMs opts) then Some (uuid c a) else None)"
        using lock.acquire_granted [of "refillLockKey i" "uuid c a" "of_nat (lco_leaseMs opts)" "of_int (clock s)" "store s" r] a
        by simp
      then have held: "t \<le> of_int (clock s + int (lco_leaseMs opts)) \<Longrightarrow> redis_get t (refillLockKey i) r = Some (uuid c a)" for t
        by simp
      have s': "procs s' = procs s" "clock s' = clock s" "store s' = r"
        "refilling (Some pc') = Some (i, uuid c a, clock s + int (lco_leaseMs opts))"
        using go LTry a True by (auto simp: start_read_def)
      have "keeps_leases c s (store s')" using keeps_acquire [OF ok] a True s'(3) by simp
      from lease_ok_go [OF ok this s'(1,2), of pc'] show ?thesis using s'(3,4) held by auto
    qed
  next
    case (LRead i owner lease until)
    then show ?thesis using go
      by (intro still) (auto simp: finish_read_def split: if_splits option.splits)
  next
    case (LSet i owner lease p)
    then show ?thesis using go
      by (intro still) (auto simp: cache_put_def redis_set_px_def)
  next
    case (LRelease i owner lease r)
    then have "refilling (procs s c) = Some (i, owner, lease)" using pc by simp
    then obtain a where "owner = uuid c a" using lease_okD(1) [OF ok] by blast
    then have "\<forall>b. uuid d b \<noteq> owner" if "d \<noteq> c" for d using fresh that unfolding fresh_tokens_def by metis
    then have "keeps_leases c s (store s')" using keeps_release [OF ok, of c owner i] go LRelease by auto
    then show ?thesis using go LRelease by (intro lease_ok_go [OF ok]) auto
  qed (rule idle; use go lease_poll_step [of opts pc s pc' s'] in \<open>simp del: pollForCacheValue.simps\<close>)+
qed

lemma lease_ok_step:
  assumes "lease_ok uuid s" and "fresh_tokens uuid"
  shows "lease_ok uuid (cache_step (\<lambda>i. LGet i 1) (lease_getProduct opts uuid) e s)"
proof (cases e)
  case (Call c i)
  then show ?thesis using assms(1) by (auto simp: lease_ok_def split: if_splits)
next
  case (Go c)
  then show ?thesis using lease_go [OF assms] by (auto split: option.splits prod.splits simp: assms(1))
next
  case (Tick d)
  then show ?thesis using assms(1) by (fastforce simp: lease_ok_def)
qed (use assms in \<open>auto simp: lease_ok_def\<close>)

lemma lease_ok_run: "fresh_tokens uuid \<Longrightarrow> lease_ok uuid s \<Longrightarrow> lease_ok uuid (lease_run opts uuid es s)"
proof (induction es arbitrary: s)
  case (Cons e es)
  from lease_ok_step [OF Cons.prems(2,1)] show ?case using Cons.IH [OF Cons.prems(1)] by simp
qed simp

text \<open>
  C23: one refill at a time. However the callers of all processes interleave, with each other, with time
  and with writes, two callers whose leases on a product have not run out are never both reading or
  writing back: they are the same caller, and its token is the one the lease key names.
\<close>

theorem lease_one_refill:
  assumes "fresh_tokens uuid" and "procs s = Map.empty"
    and "refilling (procs (lease_run opts uuid es s) a) = Some (i, ta, ua)" and "clock (lease_run opts uuid es s) \<le> ua"
    and "refilling (procs (lease_run opts uuid es s) b) = Some (i, tb, ub)" and "clock (lease_run opts uuid es s) \<le> ub"
  shows "a = b \<and> redis_get (of_int (clock (lease_run opts uuid es s))) (refillLockKey i)
                 (store (lease_run opts uuid es s)) = Some ta"
proof -
  let ?s = "lease_run opts uuid es s"
  have "lease_ok uuid s" using assms(2) by (simp add: lease_ok_def)
  then have ok: "lease_ok uuid ?s" by (rule lease_ok_run [OF assms(1)])
  have ta: "redis_get (of_int (clock ?s)) (refillLockKey i) (store ?s) = Some ta"
    using lease_okD(2) [OF ok assms(3), of "of_int (clock ?s)"] assms(4) by simp
  moreover have "redis_get (of_int (clock ?s)) (refillLockKey i) (store ?s) = Some tb"
    using lease_okD(2) [OF ok assms(5), of "of_int (clock ?s)"] assms(6) by simp
  ultimately have "ta = tb" by simp
  moreover obtain x y where "ta = uuid a x" "tb = uuid b y"
    using lease_okD(1) [OF ok assms(3)] lease_okD(1) [OF ok assms(5)] by blast
  ultimately have "a = b" using assms(1) unfolding fresh_tokens_def by metis
  with ta show ?thesis by simp
qed

section \<open>Every call settles\<close>

fun lease_effort :: "LeaseCacheOptions \<Rightarrow> int \<Rightarrow> lease_pc \<Rightarrow> nat" where
  "lease_effort opts t (LGet i a) =
     (lco_maxAttempts opts - a) * (4 * (lco_leaseMs opts + 250) + 10) + 4 * (lco_leaseMs opts + 250) + 5"
| "lease_effort opts t (LTry i a) =
     (lco_maxAttempts opts - a) * (4 * (lco_leaseMs opts + 250) + 10) + 4 * (lco_leaseMs opts + 250) + 4"
| "lease_effort opts t (LPoll i a d) =
     (lco_maxAttempts opts - a) * (4 * (lco_leaseMs opts + 250) + 10) + 4 * nat (d - t) + 1"
| "lease_effort opts t (LPollGet i a d) =
     (lco_maxAttempts opts - a) * (4 * (lco_leaseMs opts + 250) + 10) + max (4 * nat (d - t)) 3"
| "lease_effort opts t (LSleep i a d w) =
     (lco_maxAttempts opts - a) * (4 * (lco_leaseMs opts + 250) + 10) + 4 * nat (d - w) + 2"
| "lease_effort opts t (LRead i owner lease w) = 3"
| "lease_effort opts t (LSet i owner lease p) = 2"
| "lease_effort opts t (LRelease i owner lease r) = 1"
| "lease_effort opts t (LDone i r) = 0"

fun asleep :: "int \<Rightarrow> lease_pc \<Rightarrow> bool" where
  "asleep t (LRead i owner lease w) = (t < w)"
| "asleep t (LSleep i a d w) = (t < w)"
| "asleep t _ = False"

fun lease_done :: "lease_pc \<Rightarrow> bool" where
  "lease_done (LDone i r) = True"
| "lease_done _ = False"

text \<open>How often an event of the call itself moves it.\<close>

fun moves :: "LeaseCacheOptions \<Rightarrow> (nat \<Rightarrow> nat \<Rightarrow> string) \<Rightarrow> nat \<Rightarrow> event list \<Rightarrow> lease_pc world \<Rightarrow> nat" where
  "moves opts uuid c [] s = 0"
| "moves opts uuid c (e # es) s =
     (let s' = cache_step (\<lambda>i. LGet i 1) (lease_getProduct opts uuid) e s
      in (if e = Go c \<and> procs s' c \<noteq> procs s c then 1 else 0) + moves opts uuid c es s')"

lemma lease_frame:
  "lease_getProduct opts uuid c pc s = (pc', s') \<Longrightarrow> procs s' = procs s \<and> clock s' = clock s"
  by (cases pc) (auto simp: start_read_def finish_read_def cache_put_def split: option.splits if_splits prod.splits)

lemma attempts_step: "a < n \<Longrightarrow> (n - a) * k = (n - Suc a) * (k::nat) + k"
  by (metis Suc_diff_Suc add.commute mult_Suc)

lemma lease_effort_go:
  assumes "lease_getProduct opts uuid c pc s = (pc', s')" and "0 < lco_pollIntervalMs opts"
  shows "(if lease_done pc \<or> asleep (clock s) pc then pc' = pc else lease_effort opts (clock s) pc' < lease_effort opts (clock s) pc)"
proof (cases pc)
  case (LTry i a)
  then show ?thesis using assms by (auto simp: start_read_def split: prod.splits if_splits)
next
  case (LPoll i a d)
  then show ?thesis
    using assms attempts_step [of a "lco_maxAttempts opts" "4 * (lco_leaseMs opts + 250) + 10"]
    by (auto simp: max_def retry_or_give_up_def split: if_splits)
next
  case (LRead i owner lease w)
  then show ?thesis using assms by (auto simp: finish_read_def split: option.splits)
qed (use assms in \<open>auto simp: max_def split: option.splits if_splits\<close>)

lemma lease_effort_later: "t \<le> t' \<Longrightarrow> lease_effort opts t' pc \<le> lease_effort opts t pc"
  by (cases pc) (auto simp: max_def)

definition effort_left :: "LeaseCacheOptions \<Rightarrow> nat \<Rightarrow> lease_pc world \<Rightarrow> nat" where
  "effort_left opts c s = lease_effort opts (clock s) (case procs s c of None \<Rightarrow> LGet 0 1 | Some pc \<Rightarrow> pc)"

lemma effort_step:
  assumes "0 < lco_pollIntervalMs opts"
  shows "(if e = Go c \<and> procs (cache_step (\<lambda>i. LGet i 1) (lease_getProduct opts uuid) e s) c \<noteq> procs s c then 1 else 0)
    + effort_left opts c (cache_step (\<lambda>i. LGet i 1) (lease_getProduct opts uuid) e s) \<le> effort_left opts c s"
proof (cases e)
  case (Call d i)
  then show ?thesis by (auto simp: effort_left_def)
next
  case (Go d)
  show ?thesis
  proof (cases "procs s d")
    case None
    then show ?thesis using Go by simp
  next
    case (Some pc)
    obtain pc' s' where go: "lease_getProduct opts uuid d pc s = (pc', s')" by fastforce
    show ?thesis
      using Go Some go lease_frame [OF go] lease_effort_go [OF go assms] by (auto simp: effort_left_def split: if_splits)
  qed
next
  case (Tick n)
  then show ?thesis by (auto simp: effort_left_def intro: lease_effort_later)
qed (auto simp: effort_left_def)

lemma moves_bound: "0 < lco_pollIntervalMs opts \<Longrightarrow>
    moves opts uuid c es s + effort_left opts c (lease_run opts uuid es s) \<le> effort_left opts c s"
proof (induction es arbitrary: s)
  case (Cons e es)
  from effort_step [OF Cons.prems, of e c uuid s]
    Cons.IH [OF Cons.prems, of "cache_step (\<lambda>i. LGet i 1) (lease_getProduct opts uuid) e s"]
  show ?case unfolding moves.simps Let_def cache_run_simps by linarith
qed simp

lemma moves_append: "moves opts uuid c (es @ fs) s = moves opts uuid c es s + moves opts uuid c fs (lease_run opts uuid es s)"
  by (induction es arbitrary: s) (simp_all add: Let_def)

lemma lease_turn:
  assumes "procs s c = Some pc" and "\<not> lease_done pc" and "\<not> asleep (clock s) pc" and "0 < lco_pollIntervalMs opts"
  shows "moves opts uuid c [Go c] s = 1"
proof -
  obtain pc' s' where go: "lease_getProduct opts uuid c pc s = (pc', s')" by fastforce
  have "pc' \<noteq> pc" using lease_effort_go [OF go assms(4)] assms(2,3) by auto
  then show ?thesis using assms(1) go lease_frame [OF go] by simp
qed

text \<open>
  C24: every call settles. A call that has not been answered and is not asleep moves at its next turn,
  and it moves only a bounded number of times however the other callers, the clock and the table behave:
  so a caller that keeps getting turns is answered, with the product or with an error.
\<close>

theorem lease_call_settles:
  assumes "0 < lco_pollIntervalMs opts" and "procs s = Map.empty" and "0 < lco_maxAttempts opts"
  shows "moves opts uuid c es s \<le> lco_maxAttempts opts * (4 * (lco_leaseMs opts + 250) + 10)
    \<and> (\<forall>pc. procs (lease_run opts uuid es s) c = Some pc \<longrightarrow>
          lease_done pc \<or> asleep (clock (lease_run opts uuid es s)) pc
          \<or> moves opts uuid c (es @ [Go c]) s = moves opts uuid c es s + 1)"
proof (intro conjI allI impI)
  let ?k = "4 * (lco_leaseMs opts + 250) + 10"
  have "effort_left opts c s = (lco_maxAttempts opts - 1) * ?k + (?k - 5)"
    using assms(2) by (simp add: effort_left_def)
  also have "\<dots> \<le> lco_maxAttempts opts * ?k" using assms(3) by (cases "lco_maxAttempts opts") simp_all
  finally show "moves opts uuid c es s \<le> lco_maxAttempts opts * ?k"
    using moves_bound [OF assms(1), of uuid c es s] by linarith
next
  fix pc
  assume "procs (lease_run opts uuid es s) c = Some pc"
  from lease_turn [OF this _ _ assms(1)]
  show "lease_done pc \<or> asleep (clock (lease_run opts uuid es s)) pc
      \<or> moves opts uuid c (es @ [Go c]) s = moves opts uuid c es s + 1"
    unfolding moves_append by metis
qed

definition demo_uuid :: "nat \<Rightarrow> nat \<Rightarrow> string" where
  "demo_uuid c a = replicate c (CHR ''x'') @ CHR ''-'' # replicate a (CHR ''x'')"

lemma demo_uuid_fresh: "fresh_tokens demo_uuid"
proof -
  have "length (takeWhile (\<lambda>z. z = CHR ''x'') (demo_uuid c a)) = c" for c a
    by (simp add: demo_uuid_def takeWhile_append)
  moreover have "length (demo_uuid c a) = c + a + 1" for c a by (simp add: demo_uuid_def)
  ultimately have "c = d \<and> a = b" if "demo_uuid c a = demo_uuid d b" for c a d b
    using that by (metis add_left_cancel add_right_cancel)
  then show ?thesis by (simp add: fresh_tokens_def)
qed

definition lease_start :: "lease_pc world" where
  "lease_start = \<lparr>clock = 0, store = Map.empty, rows = [7 \<mapsto> widget], callCount = 0, reads = [], procs = Map.empty\<rparr>"

lemma lease_one_refill_witness:
  "let s = lease_run default_lease_options demo_uuid [Call 0 7, Call 1 7, Go 0, Go 1, Go 0, Go 1] lease_start
   in refilling (procs s 0) = Some (7, demo_uuid 0 1, 2000) \<and> refilling (procs s 1) = None
      \<and> redis_get 0 (refillLockKey 7) (store s) = Some (demo_uuid 0 1)"
proof -
  define s where "s = lease_run default_lease_options demo_uuid [Call 0 7, Call 1 7, Go 0, Go 1, Go 0, Go 1] lease_start"
  have r: "refilling (procs s 0) = Some (7, demo_uuid 0 1, 2000) \<and> refilling (procs s 1) = None \<and> clock s = 0"
    by (simp add: s_def lease_start_def cached_value_def redis_get_def start_read_def default_lease_options_def
        SIMULATED_QUERY_DELAY_MS_def acquireLock_def redis_set_nx_px_def)
  have run: "lease_run default_lease_options demo_uuid [Call 0 7, Call 1 7, Go 0, Go 1, Go 0, Go 1] lease_start = s"
    by (simp only: s_def)
  have "redis_get (of_int (clock s)) (refillLockKey 7) (store s) = Some (demo_uuid 0 1)"
    using lease_one_refill [OF demo_uuid_fresh, where s = lease_start and a = 0 and b = 0 and i = 7
        and opts = default_lease_options and es = "[Call 0 7, Call 1 7, Go 0, Go 1, Go 0, Go 1]"
        and ta = "demo_uuid 0 1" and tb = "demo_uuid 0 1" and ua = 2000 and ub = 2000, unfolded run] r
    by (simp add: lease_start_def)
  then show ?thesis using r unfolding run Let_def by simp
qed

lemma lease_call_settles_witness:
  "moves default_lease_options demo_uuid 1 [Call 0 7, Call 1 7, Go 0, Go 1, Go 0, Go 1, Go 1, Go 1, Tick 20, Go 1] lease_start
     \<le> 45050"
  using lease_call_settles [of default_lease_options lease_start demo_uuid 1
      "[Call 0 7, Call 1 7, Go 0, Go 1, Go 0, Go 1, Go 1, Go 1, Tick 20, Go 1]", THEN conjunct1]
  by (simp add: default_lease_options_def lease_start_def del: moves.simps)

section \<open>Reads behind the release\<close>

text \<open>
  Callers that all miss before the first write-back, and whose \<open>SET NX\<close> commands then arrive one after
  the other, each after the previous holder's release: the cache is not looked at again.
\<close>

definition refill_round :: "nat \<Rightarrow> event list" where
  "refill_round c = [Go c, Tick 75, Go c, Go c, Go c]"

definition late_leases :: "nat \<Rightarrow> nat list \<Rightarrow> event list" where
  "late_leases i cs = map (\<lambda>c. Call c i) cs @ map Go cs @ concat (map refill_round cs)"

lemma late_gets:
  "\<forall>c \<in> set cs. procs s c = Some (LGet i 1) \<Longrightarrow> distinct cs \<Longrightarrow> cached_value i s = None \<Longrightarrow>
   lease_run opts uuid (map Go cs) s = s\<lparr>procs := \<lambda>c. if c \<in> set cs then Some (LTry i 1) else procs s c\<rparr>"
proof (induction cs arbitrary: s)
  case (Cons c cs)
  let ?s = "s\<lparr>procs := (procs s)(c \<mapsto> LTry i 1)\<rparr>"
  have "\<forall>a \<in> set cs. procs ?s a = Some (LGet i 1)" "cached_value i ?s = None"
    using Cons.prems by (auto simp: cached_value_def)
  from Cons.IH [OF this(1) _ this(2)] Cons.prems show ?case by (simp add: fun_eq_iff)
qed simp

text \<open>One round: a read, a write-back, and the lease free again.\<close>

lemma refill_round_run:
  assumes "procs s c = Some (LTry i 1)" and "rows s i = Some p" and "75 \<le> lco_leaseMs opts"
    and "redis_get (of_int (clock s)) (refillLockKey i) (store s) = None"
    and "s' = lease_run opts uuid (refill_round c) s"
  shows "callCount s' = callCount s + 1 \<and> rows s' = rows s \<and> procs s' = (procs s)(c \<mapsto> LDone i (Inr p))
    \<and> redis_get (of_int (clock s')) (refillLockKey i) (store s') = None \<and> cached_value i s' = Some (encode_product p)"
proof -
  have live: "(75 :: rat) \<le> of_nat (lco_leaseMs opts)" using assms(3) by linarith
  show ?thesis
    using assms(1-4) live
    by (simp add: assms(5) refill_round_def cached_value_def start_read_def finish_read_def SIMULATED_QUERY_DELAY_MS_def
        cache_put_def redis_set_px_def releaseLock_def)
qed

lemma refill_rounds:
  "\<forall>c \<in> set cs. procs s c = Some (LTry i 1) \<Longrightarrow> distinct cs \<Longrightarrow> rows s i = Some p \<Longrightarrow> 75 \<le> lco_leaseMs opts \<Longrightarrow>
   redis_get (of_int (clock s)) (refillLockKey i) (store s) = None \<Longrightarrow>
   callCount (lease_run opts uuid (concat (map refill_round cs)) s) = callCount s + length cs"
proof (induction cs arbitrary: s)
  case (Cons c cs)
  let ?s = "lease_run opts uuid (refill_round c) s"
  have r: "callCount ?s = callCount s + 1" "rows ?s = rows s" "procs ?s = (procs s)(c \<mapsto> LDone i (Inr p))"
    "redis_get (of_int (clock ?s)) (refillLockKey i) (store ?s) = None"
    using refill_round_run [OF _ Cons.prems(3-5) refl, of c] Cons.prems(1) by auto
  then have "\<forall>a \<in> set cs. procs ?s a = Some (LTry i 1)" using Cons.prems(1,2) by auto
  from Cons.IH [OF this _ _ Cons.prems(4) r(4)] r(1,2) Cons.prems(2,3) show ?case by simp
qed simp

text \<open>
  A live entry does not stop further refills. From every cold start, whatever the options, any
  number of callers that missed before the first write-back can each be granted the lease after the
  previous holder's release, and each reads the database, although the lease is there so that one
  caller alone reads it and the scenario allows two reads at most.
\<close>

lemma lease_refills_again:
  assumes "procs s = Map.empty" and "cold i s" and "rows s i = Some p" and "distinct cs"
    and "redis_get (of_int (clock s)) (refillLockKey i) (store s) = None" and "75 \<le> lco_leaseMs opts"
  shows "callCount (lease_run opts uuid (late_leases i cs) s) = callCount s + length cs"
proof -
  let ?s = "s\<lparr>procs := \<lambda>c. if c \<in> set cs then Some (LGet i 1) else None\<rparr>"
  let ?t = "s\<lparr>procs := \<lambda>c. if c \<in> set cs then Some (LTry i 1) else None\<rparr>"
  have "lease_run opts uuid (map (\<lambda>c. Call c i) cs) s = ?s"
    using calls_start [of cs s "\<lambda>i. LGet i 1" _ i] assms(1,4) by (simp cong: if_cong)
  moreover have "cached_value i ?s = None" using cold_cached [OF assms(2)] by (simp add: cached_value_def)
  then have "lease_run opts uuid (map Go cs) ?s = ?t"
    using late_gets [of cs ?s i opts uuid] assms(4) by (simp add: fun_eq_iff cong: if_cong)
  ultimately have "lease_run opts uuid (late_leases i cs) s = lease_run opts uuid (concat (map refill_round cs)) ?t"
    by (simp add: late_leases_def)
  then show ?thesis using refill_rounds [of cs ?t i p opts uuid] assms(3-6) by simp
qed

lemma lease_refills_again_witness:
  "callCount (lease_run default_lease_options demo_uuid (late_leases 7 [0, 1, 2]) lease_start) = 3"
  using lease_refills_again [of lease_start 7 widget "[0, 1, 2]" default_lease_options]
  by (simp add: lease_start_def default_lease_options_def cold_def redis_get_def del: cache_run_simps)

end
