(* ===== verification/Cache_Swr.thy ===== *)
theory Cache_Swr
  imports Cache_Aside
begin

text \<open>
  Stale-while-revalidate of Lab 21, \<open>labs/21-*/src/cache/stale-while-revalidate.ts\<close>: entries with a fresh
  window inside the time to live, a stale answer at once and one background refresh per key. A call
  that started a refresh keeps its program counter for the promise chain it left running.
\<close>

section \<open>Entries\<close>

record CacheEntry =
  product :: Product
  freshUntil :: int

definition entry_json :: "CacheEntry \<Rightarrow> json" where
  "entry_json e = JObj [(''product'', product_json (product e)), (''freshUntil'', JNum (freshUntil e))]"

fun json_entry :: "json \<Rightarrow> CacheEntry option" where
  "json_entry (JObj ms) =
     (case (map_of ms ''product'', map_of ms ''freshUntil'') of
        (Some j, Some (JNum u)) \<Rightarrow> map_option (\<lambda>p. \<lparr>product = p, freshUntil = u\<rparr>) (json_product j)
      | _ \<Rightarrow> None)"
| "json_entry _ = None"

definition encode_entry :: "CacheEntry \<Rightarrow> string" where
  "encode_entry e = stringify (entry_json e)"

definition parse_entry :: "string \<Rightarrow> string + CacheEntry" where
  "parse_entry v = (case Option.bind (parse v) json_entry of Some e \<Rightarrow> Inr e | None \<Rightarrow> Inl ''SyntaxError'')"

lemma entry_roundtrip [simp]: "parse_entry (encode_entry e) = Inr e" "encode_entry e \<noteq> []"
proof -
  have "json_entry (entry_json e) = Some e" by (simp add: entry_json_def)
  then show "parse_entry (encode_entry e) = Inr e" by (simp add: parse_entry_def encode_entry_def)
  show "encode_entry e \<noteq> []" by (simp add: encode_entry_def entry_json_def)
qed

section \<open>The cache\<close>

record SwrOptions =
  freshMs :: nat
  staleMs :: nat

datatype swr_pc =
    SGet nat
  | SRead nat int
  | SWrite nat Product
  | SRefreshRead nat "string + Product" int
  | SRefreshWrite nat "string + Product" Product
  | SRefreshEnd nat "string + Product"
  | SDone nat "string + Product"

text \<open>\<open>writes\<close> and \<open>served\<close> only record what was written to the cache and answered from it, and when.\<close>

record swr_world = "swr_pc world" +
  refreshInFlight :: "string set"
  writes :: "(int \<times> nat \<times> Product) list"
  served :: "(int \<times> nat \<times> Product) list"

definition writeEntry :: "SwrOptions \<Rightarrow> nat \<Rightarrow> Product \<Rightarrow> swr_world \<Rightarrow> swr_world" where
  "writeEntry opts i p s =
     s\<lparr>store := redis_set_px (of_int (clock s)) (productCacheKey i)
                  (encode_entry \<lparr>product = p, freshUntil = clock s + int (freshMs opts)\<rparr>)
                  (of_nat (staleMs opts)) (store s),
       writes := writes s @ [(clock s, i, p)]\<rparr>"

definition triggerBackgroundRefresh :: "nat \<Rightarrow> Product \<Rightarrow> swr_world \<Rightarrow> swr_pc \<times> swr_world" where
  "triggerBackgroundRefresh i p s =
     (if productCacheKey i \<in> refreshInFlight s then (SDone i (Inr p), s)
      else let (until, s') = start_read (s\<lparr>refreshInFlight := insert (productCacheKey i) (refreshInFlight s)\<rparr>)
           in (SRefreshRead i (Inr p) until, s'))"

fun swr_getProduct :: "SwrOptions \<Rightarrow> nat \<Rightarrow> swr_pc \<Rightarrow> swr_world \<Rightarrow> swr_pc \<times> swr_world" where
  "swr_getProduct opts c (SGet i) s =
     (case cached_value i s of
        Some raw \<Rightarrow>
          (case parse_entry raw of
             Inl e \<Rightarrow> (SDone i (Inl e), s)
           | Inr entry \<Rightarrow>
               let s1 = s\<lparr>served := served s @ [(clock s, i, product entry)]\<rparr>
               in if clock s < freshUntil entry then (SDone i (Inr (product entry)), s1)
                  else triggerBackgroundRefresh i (product entry) s1)
      | None \<Rightarrow> let (until, s') = start_read s in (SRead i until, s'))"
| "swr_getProduct opts c (SRead i until) s =
     (if clock s < until then (SRead i until, s)
      else (case finish_read i s of
              (Inl e, s') \<Rightarrow> (SDone i (Inl e), s')
            | (Inr p, s') \<Rightarrow> (SWrite i p, s')))"
| "swr_getProduct opts c (SWrite i p) s = (SDone i (Inr p), writeEntry opts i p s)"
| "swr_getProduct opts c (SRefreshRead i r until) s =
     (if clock s < until then (SRefreshRead i r until, s)
      else (case finish_read i s of
              (Inl e, s') \<Rightarrow> (SRefreshEnd i r, s')
            | (Inr p, s') \<Rightarrow> (SRefreshWrite i r p, s')))"
| "swr_getProduct opts c (SRefreshWrite i r p) s = (SRefreshEnd i r, writeEntry opts i p s)"
| "swr_getProduct opts c (SRefreshEnd i r) s =
     (SDone i r, s\<lparr>refreshInFlight := refreshInFlight s - {productCacheKey i}\<rparr>)"
| "swr_getProduct opts c (SDone i r) s = (SDone i r, s)"

definition isRefreshing :: "nat \<Rightarrow> swr_world \<Rightarrow> bool" where
  "isRefreshing i s \<longleftrightarrow> productCacheKey i \<in> refreshInFlight s"

abbreviation swr_run :: "SwrOptions \<Rightarrow> event list \<Rightarrow> swr_world \<Rightarrow> swr_world" where
  "swr_run opts \<equiv> cache_run SGet (swr_getProduct opts)"

section \<open>The invariant\<close>

fun refreshes :: "swr_pc option \<Rightarrow> nat option" where
  "refreshes (Some (SRefreshRead i r until)) = Some i"
| "refreshes (Some (SRefreshWrite i r p)) = Some i"
| "refreshes (Some (SRefreshEnd i r)) = Some i"
| "refreshes _ = None"

text \<open>A product on its way to the cache.\<close>

fun carries :: "swr_pc option \<Rightarrow> (nat \<times> Product) option" where
  "carries (Some (SWrite i p)) = Some (i, p)"
| "carries (Some (SRefreshWrite i r p)) = Some (i, p)"
| "carries _ = None"

text \<open>The keys in flight are those of the calls refreshing them, one each.\<close>

definition refresh_ok :: "(nat \<rightharpoonup> nat) \<Rightarrow> string set \<Rightarrow> bool" where
  "refresh_ok own keys \<longleftrightarrow>
     (\<forall>i. productCacheKey i \<in> keys \<longleftrightarrow> (\<exists>c. own c = Some i)) \<and> (\<forall>c d i. own c = Some i \<longrightarrow> own d = Some i \<longrightarrow> c = d)"

text \<open>Every product cached, written or being written was read from the table before.\<close>

definition read_before :: "swr_world \<Rightarrow> int \<Rightarrow> nat \<Rightarrow> Product \<Rightarrow> bool" where
  "read_before s w i p \<longleftrightarrow> (\<exists>r \<le> w. (r, i, p) \<in> set (reads s))"

definition entries_ok :: "SwrOptions \<Rightarrow> swr_world \<Rightarrow> bool" where
  "entries_ok opts s \<longleftrightarrow>
     (\<forall>i v ex. store s (productCacheKey i) = Some (v, ex) \<longrightarrow>
        (\<exists>p w. v = encode_entry \<lparr>product = p, freshUntil = w + int (freshMs opts)\<rparr> \<and> w \<le> clock s
             \<and> ex = Some (of_int w + of_nat (staleMs opts)) \<and> (w, i, p) \<in> set (writes s)))"

definition history_ok :: "SwrOptions \<Rightarrow> swr_world \<Rightarrow> bool" where
  "history_ok opts s \<longleftrightarrow>
     (\<forall>r i p. (r, i, p) \<in> set (reads s) \<longrightarrow> r \<le> clock s)
     \<and> (\<forall>w i p. (w, i, p) \<in> set (writes s) \<longrightarrow> w \<le> clock s \<and> read_before s w i p)
     \<and> (\<forall>t i p. (t, i, p) \<in> set (served s) \<longrightarrow> (\<exists>w. (w, i, p) \<in> set (writes s) \<and> w \<le> t \<and> t \<le> w + int (staleMs opts)))
     \<and> (\<forall>c i p. carries (procs s c) = Some (i, p) \<longrightarrow> read_before s (clock s) i p)"

definition swr_ok :: "SwrOptions \<Rightarrow> swr_world \<Rightarrow> bool" where
  "swr_ok opts s \<longleftrightarrow>
     refresh_ok (\<lambda>c. refreshes (procs s c)) (refreshInFlight s) \<and> entries_ok opts s \<and> history_ok opts s"

lemma refresh_take: "refresh_ok own keys \<Longrightarrow> own c = None \<Longrightarrow> productCacheKey i \<notin> keys \<Longrightarrow>
    refresh_ok (own(c \<mapsto> i)) (insert (productCacheKey i) keys)"
  unfolding refresh_ok_def by (auto; metis option.distinct(1) option.inject)

lemma refresh_drop: "refresh_ok own keys \<Longrightarrow> own c = Some i \<Longrightarrow> refresh_ok (own(c := None)) (keys - {productCacheKey i})"
  unfolding refresh_ok_def by (auto; metis option.inject)

lemma refreshes_upd: "(\<lambda>a. refreshes ((m(c \<mapsto> pc)) a)) = (\<lambda>a. refreshes (m a))(c := refreshes (Some pc))"
  by (simp add: fun_eq_iff)

lemma read_world [simp]:
  "refreshInFlight (snd (start_read s)) = refreshInFlight s" "writes (snd (start_read s)) = writes s"
  "served (snd (start_read s)) = served s"
  by (simp_all add: start_read_def)

lemma read_before_mono: "read_before s w i p \<Longrightarrow> set (reads s) \<subseteq> set (reads s') \<Longrightarrow> w \<le> w' \<Longrightarrow> read_before s' w' i p"
  unfolding read_before_def by (meson order_trans subsetD)

lemma history_D:
  assumes "history_ok opts s"
  shows "(r, i, p) \<in> set (reads s) \<Longrightarrow> r \<le> clock s"
    and "(w, i, p) \<in> set (writes s) \<Longrightarrow> w \<le> clock s \<and> read_before s w i p"
    and "(t, i, p) \<in> set (served s) \<Longrightarrow> \<exists>w. (w, i, p) \<in> set (writes s) \<and> w \<le> t \<and> t \<le> w + int (staleMs opts)"
    and "carries (procs s c) = Some (i, p) \<Longrightarrow> read_before s (clock s) i p"
  using assms unfolding history_ok_def by blast+

text \<open>A step keeps the history when it only adds to it, and what it adds is accounted for.\<close>

lemma history_grow:
  assumes h: "history_ok opts s" and rs: "reads s' = reads s @ rs" and ws: "writes s' = writes s @ ws"
    and ss: "served s' = served s @ ss" and t: "clock s \<le> clock s'"
    and "\<And>r i p. (r, i, p) \<in> set rs \<Longrightarrow> r \<le> clock s'"
    and "\<And>w i p. (w, i, p) \<in> set ws \<Longrightarrow> w \<le> clock s' \<and> read_before s' w i p"
    and "\<And>t i p. (t, i, p) \<in> set ss \<Longrightarrow> \<exists>w. (w, i, p) \<in> set (writes s) \<and> w \<le> t \<and> t \<le> w + int (staleMs opts)"
    and "\<And>c i p. carries (procs s' c) = Some (i, p) \<Longrightarrow> carries (procs s c) = Some (i, p) \<or> read_before s' (clock s') i p"
  shows "history_ok opts s'"
  unfolding history_ok_def
proof (intro conjI allI impI)
  have mono: "read_before s w i p \<Longrightarrow> w \<le> w' \<Longrightarrow> read_before s' w' i p" for w w' i p
    using rs by (auto intro: read_before_mono)
  show "r \<le> clock s'" if "(r, i, p) \<in> set (reads s')" for r i p
    using that rs assms(6) history_D(1) [OF h, of r i p] t by auto
  show "w \<le> clock s'" if "(w, i, p) \<in> set (writes s')" for w i p
    using that ws assms(7) history_D(2) [OF h, of w i p] t by auto
  show "read_before s' w i p" if "(w, i, p) \<in> set (writes s')" for w i p
    using that ws assms(7) history_D(2) [OF h, of w i p] mono [of w i p w] by auto
  show "\<exists>w. (w, i, p) \<in> set (writes s') \<and> w \<le> t \<and> t \<le> w + int (staleMs opts)"
    if "(t, i, p) \<in> set (served s')" for t i p
    using that ss ws assms(8) [of t i p] history_D(3) [OF h, of t i p] by auto
  show "read_before s' (clock s') i p" if "carries (procs s' c) = Some (i, p)" for c i p
    using assms(9) [OF that] history_D(4) [OF h, of c i p] mono [OF _ t] by blast
qed

lemma entries_write:
  assumes "entries_ok opts s"
  shows "entries_ok opts ((writeEntry opts i p s)\<lparr>procs := m\<rparr>)"
  unfolding entries_ok_def
proof (intro allI impI)
  let ?s = "(writeEntry opts i p s)\<lparr>procs := m\<rparr>"
  fix j v ex
  assume a: "store ?s (productCacheKey j) = Some (v, ex)"
  show "\<exists>p w. v = encode_entry \<lparr>product = p, freshUntil = w + int (freshMs opts)\<rparr> \<and> w \<le> clock ?s
      \<and> ex = Some (of_int w + of_nat (staleMs opts)) \<and> (w, j, p) \<in> set (writes ?s)"
  proof (cases "j = i")
    case True
    then show ?thesis using a by (intro exI [of _ p] exI [of _ "clock s"]) (auto simp: writeEntry_def redis_set_px_def)
  next
    case False
    then have "store s (productCacheKey j) = Some (v, ex)" using a by (simp add: writeEntry_def redis_set_px_def)
    then obtain p' w where "v = encode_entry \<lparr>product = p', freshUntil = w + int (freshMs opts)\<rparr>" "w \<le> clock s"
      "ex = Some (of_int w + of_nat (staleMs opts))" "(w, j, p') \<in> set (writes s)"
      using assms unfolding entries_ok_def by blast
    then show ?thesis by (intro exI [of _ p'] exI [of _ w]) (simp add: writeEntry_def)
  qed
qed

lemma entries_frame:
  "entries_ok opts s \<Longrightarrow> store s' = store s \<Longrightarrow> writes s' = writes s \<Longrightarrow> clock s \<le> clock s' \<Longrightarrow> entries_ok opts s'"
  unfolding entries_ok_def by (metis order_trans)

text \<open>A hit is an entry written at most \<open>staleMs\<close> ago.\<close>

lemma hit_entry:
  assumes "entries_ok opts s" and "cached_value i s = Some raw"
  obtains p w where "parse_entry raw = Inr \<lparr>product = p, freshUntil = w + int (freshMs opts)\<rparr>"
    and "(w, i, p) \<in> set (writes s)" and "w \<le> clock s" and "clock s \<le> w + int (staleMs opts)"
proof -
  obtain ex where st: "store s (productCacheKey i) = Some (raw, ex)" and l: "live (of_int (clock s)) (raw, ex)"
    using assms(2) by (auto simp: cached_value_def redis_get_def split: option.splits if_splits)
  from assms(1) st obtain p w where e: "raw = encode_entry \<lparr>product = p, freshUntil = w + int (freshMs opts)\<rparr>" "w \<le> clock s"
    "ex = Some (of_int w + of_nat (staleMs opts))" "(w, i, p) \<in> set (writes s)" unfolding entries_ok_def by blast
  have "of_int (clock s) \<le> (of_int (w + int (staleMs opts)) :: rat)" using l e(3) by simp
  then have "clock s \<le> w + int (staleMs opts)" by (simp only: of_int_le_iff)
  with e show ?thesis by (intro that [of p w]) simp_all
qed

text \<open>Steps that leave the cache, the history and what is in flight alone.\<close>

lemma swr_still:
  assumes ok: "swr_ok opts s" and "store s' = store s" "reads s' = reads s" "writes s' = writes s" "served s' = served s"
    "clock s' = clock s" "refreshInFlight s' = refreshInFlight s" "procs s' = (procs s)(c \<mapsto> pc)"
    and "refreshes (Some pc) = refreshes (procs s c)" and "carries (Some pc) = None"
  shows "swr_ok opts s'"
proof -
  have "history_ok opts s'"
    by (rule history_grow [of opts s s' "[]" "[]" "[]"])
      (use assms in \<open>auto simp: swr_ok_def split: if_splits\<close>)
  moreover have "entries_ok opts s'" using assms entries_frame [of opts s s'] by (simp add: swr_ok_def)
  moreover have "(\<lambda>a. refreshes (procs s' a)) = (\<lambda>a. refreshes (procs s a))" using assms(8,9) by auto
  ultimately show ?thesis using assms(1,7) by (simp add: swr_ok_def)
qed

lemma swr_finish:
  assumes ok: "swr_ok opts s" and "rows s i = Some p" and "s' = (snd (finish_read i s))\<lparr>procs := (procs s)(c \<mapsto> pc)\<rparr>"
    and "carries (Some pc) = Some (i, p)" and "refreshes (Some pc) = refreshes (procs s c)"
  shows "swr_ok opts s'"
proof -
  have s': "reads s' = reads s @ [(clock s, i, p)]" "store s' = store s" "writes s' = writes s" "served s' = served s"
    "clock s' = clock s" "refreshInFlight s' = refreshInFlight s" "procs s' = (procs s)(c \<mapsto> pc)"
    using assms(2,3) by (simp_all add: finish_read_def)
  have "read_before s' (clock s') i p" using s'(1,5) by (auto simp: read_before_def)
  then have "history_ok opts s'"
    by (intro history_grow [of opts s s' "[(clock s, i, p)]" "[]" "[]"])
      (use ok s' assms(4) in \<open>auto simp: swr_ok_def split: if_splits\<close>)
  moreover have "entries_ok opts s'" using ok s' entries_frame [of opts s s'] by (simp add: swr_ok_def)
  moreover have "(\<lambda>a. refreshes (procs s' a)) = (\<lambda>a. refreshes (procs s a))" using s'(7) assms(5) by auto
  ultimately show ?thesis using ok s'(6) by (simp add: swr_ok_def)
qed

lemma swr_write:
  assumes ok: "swr_ok opts s" and "carries (procs s c) = Some (i, p)"
    and "s' = (writeEntry opts i p s)\<lparr>procs := (procs s)(c \<mapsto> pc)\<rparr>"
    and "carries (Some pc) = None" and "refreshes (Some pc) = refreshes (procs s c)"
  shows "swr_ok opts s'"
proof -
  have s': "writes s' = writes s @ [(clock s, i, p)]" "reads s' = reads s" "served s' = served s" "clock s' = clock s"
    "refreshInFlight s' = refreshInFlight s" "procs s' = (procs s)(c \<mapsto> pc)"
    using assms(3) by (simp_all add: writeEntry_def)
  have "read_before s (clock s) i p" using ok assms(2) history_D(4) by (auto simp: swr_ok_def)
  then have "read_before s' (clock s') i p" using s'(2,4) by (simp add: read_before_def)
  then have "history_ok opts s'"
    by (intro history_grow [of opts s s' "[]" "[(clock s, i, p)]" "[]"])
      (use ok s' assms(4) in \<open>auto simp: swr_ok_def split: if_splits\<close>)
  moreover have "entries_ok opts s'" using ok assms(3) entries_write by (simp add: swr_ok_def)
  moreover have "(\<lambda>a. refreshes (procs s' a)) = (\<lambda>a. refreshes (procs s a))" using s'(6) assms(5) by auto
  ultimately show ?thesis using ok s'(5) by (simp add: swr_ok_def)
qed

text \<open>A hit is recorded as served; it may start the one refresh of its key.\<close>

lemma swr_hit:
  assumes ok: "swr_ok opts s" and hit: "cached_value i s = Some raw" and pc: "procs s c = Some (SGet i)"
    and "swr_getProduct opts c (SGet i) s = (pc', s')"
  shows "swr_ok opts (s'\<lparr>procs := (procs s')(c \<mapsto> pc')\<rparr>)"
proof -
  let ?s = "s'\<lparr>procs := (procs s')(c \<mapsto> pc')\<rparr>"
  have en: "entries_ok opts s" and hi: "history_ok opts s" using ok by (simp_all add: swr_ok_def)
  obtain p w where e: "parse_entry raw = Inr \<lparr>product = p, freshUntil = w + int (freshMs opts)\<rparr>"
    "(w, i, p) \<in> set (writes s)" "w \<le> clock s" "clock s \<le> w + int (staleMs opts)" using hit_entry [OF en hit] by blast
  have go: "(if clock s < w + int (freshMs opts) then (SDone i (Inr p), s\<lparr>served := served s @ [(clock s, i, p)]\<rparr>)
      else triggerBackgroundRefresh i p (s\<lparr>served := served s @ [(clock s, i, p)]\<rparr>)) = (pc', s')"
    using assms(4) hit e(1) by (simp add: Let_def split: if_splits)
  then have s': "store s' = store s" "reads s' = reads s" "writes s' = writes s" "served s' = served s @ [(clock s, i, p)]"
    "clock s' = clock s" "procs s' = procs s" "carries (Some pc') = None"
    by (auto simp: triggerBackgroundRefresh_def start_read_def Let_def split: if_splits)
  have "history_ok opts ?s"
    by (rule history_grow [OF hi, of _ "[]" "[]" "[(clock s, i, p)]"])
      (use s' e in \<open>auto split: if_splits\<close>)
  moreover have "entries_ok opts ?s" using en s' entries_frame [of opts s ?s] by simp
  moreover have "refresh_ok (\<lambda>a. refreshes (procs ?s a)) (refreshInFlight ?s)"
  proof (cases "refreshes (Some pc') = None")
    case True
    then have "refreshInFlight s' = refreshInFlight s"
      using go by (auto simp: triggerBackgroundRefresh_def start_read_def Let_def split: if_splits)
    moreover have "(\<lambda>a. refreshes (procs ?s a)) = (\<lambda>a. refreshes (procs s a))" using s'(6) pc True by auto
    ultimately show ?thesis using ok by (simp add: swr_ok_def)
  next
    case False
    then have "productCacheKey i \<notin> refreshInFlight s" "refreshes (Some pc') = Some i"
      "refreshInFlight s' = insert (productCacheKey i) (refreshInFlight s)"
      using go by (auto simp: triggerBackgroundRefresh_def start_read_def Let_def split: if_splits)
    then show ?thesis
      using ok s'(6) pc refresh_take [of "\<lambda>a. refreshes (procs s a)" "refreshInFlight s" c i]
      by (simp add: swr_ok_def refreshes_upd del: fun_upd_apply)
  qed
  ultimately show ?thesis by (simp add: swr_ok_def)
qed

lemma swr_go:
  assumes ok: "swr_ok opts s" and pc: "procs s c = Some pc" and go: "swr_getProduct opts c pc s = (pc', s')"
  shows "swr_ok opts (s'\<lparr>procs := (procs s')(c \<mapsto> pc')\<rparr>)"
proof (cases pc)
  case (SGet i)
  show ?thesis
  proof (cases "cached_value i s")
    case None
    then show ?thesis using SGet go pc by (intro swr_still [OF ok]) (auto simp: start_read_def)
  next
    case (Some raw)
    then show ?thesis using swr_hit [OF ok] SGet pc go by blast
  qed
next
  case (SRead i until)
  show ?thesis
  proof (cases "until \<le> clock s \<and> rows s i \<noteq> None")
    case True
    then obtain p where "rows s i = Some p" by auto
    then show ?thesis using SRead go pc True
      by (intro swr_finish [OF ok, of i p _ c pc']) (auto simp: finish_read_def)
  next
    case False
    then show ?thesis using SRead go pc
      by (intro swr_still [OF ok]) (auto simp: finish_read_def split: if_splits)
  qed
next
  case (SRefreshRead i r until)
  show ?thesis
  proof (cases "until \<le> clock s \<and> rows s i \<noteq> None")
    case True
    then obtain p where "rows s i = Some p" by auto
    then show ?thesis using SRefreshRead go pc True
      by (intro swr_finish [OF ok, of i p _ c pc']) (auto simp: finish_read_def)
  next
    case False
    then show ?thesis using SRefreshRead go pc
      by (intro swr_still [OF ok]) (auto simp: finish_read_def split: if_splits)
  qed
next
  case (SWrite i p)
  then show ?thesis using go pc by (intro swr_write [OF ok, of c i p]) (auto simp: writeEntry_def)
next
  case (SRefreshWrite i r p)
  then show ?thesis using go pc by (intro swr_write [OF ok, of c i p]) (auto simp: writeEntry_def)
next
  case (SRefreshEnd i r)
  then have s': "s' = s\<lparr>refreshInFlight := refreshInFlight s - {productCacheKey i}\<rparr>" "pc' = SDone i r" using go by auto
  have "history_ok opts (s'\<lparr>procs := (procs s')(c \<mapsto> pc')\<rparr>)"
    by (rule history_grow [of opts s _ "[]" "[]" "[]"]) (use ok s' in \<open>auto simp: swr_ok_def split: if_splits\<close>)
  moreover have "entries_ok opts (s'\<lparr>procs := (procs s')(c \<mapsto> pc')\<rparr>)"
    by (rule entries_frame [of opts s]) (use ok s' in \<open>auto simp: swr_ok_def\<close>)
  ultimately show ?thesis
    using ok s' pc SRefreshEnd refresh_drop [of "\<lambda>a. refreshes (procs s a)" "refreshInFlight s" c i]
    by (simp add: swr_ok_def refreshes_upd del: fun_upd_apply)
next
  case (SDone i r)
  then show ?thesis using go pc by (intro swr_still [OF ok]) auto
qed

lemma swr_step: "swr_ok opts s \<Longrightarrow> swr_ok opts (cache_step SGet (swr_getProduct opts) e s)"
proof (cases e)
  case (Call c i)
  assume ok: "swr_ok opts s"
  then show ?thesis
    using Call swr_still [OF ok, of "s\<lparr>procs := (procs s)(c \<mapsto> SGet i)\<rparr>" c "SGet i"] by (cases "procs s c") auto
next
  case (Go c)
  assume ok: "swr_ok opts s"
  then show ?thesis using Go swr_go [OF ok] by (auto split: option.splits prod.splits)
next
  case (Tick d)
  assume ok: "swr_ok opts s"
  have "history_ok opts (s\<lparr>clock := clock s + int d\<rparr>)"
    by (rule history_grow [of opts s _ "[]" "[]" "[]"]) (use ok in \<open>auto simp: swr_ok_def\<close>)
  moreover have "entries_ok opts (s\<lparr>clock := clock s + int d\<rparr>)"
    by (rule entries_frame [of opts s]) (use ok in \<open>auto simp: swr_ok_def\<close>)
  ultimately show ?thesis using ok Tick by (simp add: swr_ok_def)
qed (auto simp: swr_ok_def history_ok_def entries_ok_def read_before_def)

lemma swr_run_ok: "swr_ok opts s \<Longrightarrow> swr_ok opts (swr_run opts es s)"
proof (induction es arbitrary: s)
  case (Cons e es)
  from Cons.IH [OF swr_step [OF Cons.prems]] show ?case by simp
qed simp

definition swr_start :: "(nat \<rightharpoonup> Product) \<Rightarrow> swr_world" where
  "swr_start db = \<lparr>clock = 0, store = Map.empty, rows = db, callCount = 0, reads = [], procs = Map.empty,
     refreshInFlight = {}, writes = [], served = []\<rparr>"

lemma swr_start_ok: "swr_ok opts (swr_start db)"
  by (simp add: swr_start_def swr_ok_def refresh_ok_def entries_ok_def history_ok_def)

text \<open>
  C25: stale-while-revalidate. However the callers interleave with each other, with time and with
  writes to the table, every answer from the cache was read from the table before it was written to
  the cache, at most \<open>staleMs\<close> before it was served; at most one refresh of a product runs at a time, and
  \<open>isRefreshing\<close> says whether one does.
\<close>

theorem swr_serves_bounded_staleness:
  shows "((t, i, p) \<in> set (served (swr_run opts es (swr_start db))) \<longrightarrow>
      (\<exists>w r. (w, i, p) \<in> set (writes (swr_run opts es (swr_start db)))
           \<and> (r, i, p) \<in> set (reads (swr_run opts es (swr_start db))) \<and> r \<le> w \<and> w \<le> t \<and> t \<le> w + int (staleMs opts)))
    \<and> (refreshes (procs (swr_run opts es (swr_start db)) c) = Some i
        \<longrightarrow> refreshes (procs (swr_run opts es (swr_start db)) d) = Some i \<longrightarrow> c = d)
    \<and> (isRefreshing i (swr_run opts es (swr_start db))
        \<longleftrightarrow> (\<exists>c. refreshes (procs (swr_run opts es (swr_start db)) c) = Some i))"
proof -
  let ?s = "swr_run opts es (swr_start db)"
  have ok: "swr_ok opts ?s" by (rule swr_run_ok [OF swr_start_ok])
  then have hi: "history_ok opts ?s" by (simp add: swr_ok_def)
  have "\<exists>w r. (w, i, p) \<in> set (writes ?s) \<and> (r, i, p) \<in> set (reads ?s) \<and> r \<le> w \<and> w \<le> t \<and> t \<le> w + int (staleMs opts)"
    if "(t, i, p) \<in> set (served ?s)"
    using history_D(3) [OF hi that] history_D(2) [OF hi] by (auto simp: read_before_def) blast
  moreover have "refresh_ok (\<lambda>c. refreshes (procs ?s c)) (refreshInFlight ?s)" using ok by (simp add: swr_ok_def)
  ultimately show ?thesis unfolding refresh_ok_def isRefreshing_def by blast
qed

definition swr_defaults :: SwrOptions where
  "swr_defaults = \<lparr>freshMs = 500, staleMs = 5000\<rparr>"

lemma swr_serves_bounded_staleness_witness:
  "let s = swr_run swr_defaults [Call 0 7, Go 0, Tick 75, Go 0, Go 0, Tick 600, Call 1 7, Go 1, Call 2 7, Go 2]
       (swr_start [7 \<mapsto> widget])
   in (675, 7, widget) \<in> set (served s) \<and> (\<exists>w. (w, 7, widget) \<in> set (writes s) \<and> 675 \<le> w + 5000)
      \<and> isRefreshing 7 s"
proof -
  define es where "es = [Call 0 7, Go 0, Tick 75, Go 0, Go 0, Tick 600, Call 1 7, Go 1, Call 2 7, Go 2]"
  have s: "(675, 7, widget) \<in> set (served (swr_run swr_defaults es (swr_start [7 \<mapsto> widget])))
      \<and> isRefreshing 7 (swr_run swr_defaults es (swr_start [7 \<mapsto> widget]))"
    by (simp add: es_def swr_start_def swr_defaults_def cached_value_def redis_get_def start_read_def isRefreshing_def
        SIMULATED_QUERY_DELAY_MS_def finish_read_def writeEntry_def redis_set_px_def triggerBackgroundRefresh_def)
  moreover have "\<exists>w. (w, 7, widget) \<in> set (writes (swr_run swr_defaults es (swr_start [7 \<mapsto> widget]))) \<and> 675 \<le> w + 5000"
    using swr_serves_bounded_staleness [of 675 7 widget swr_defaults es "[7 \<mapsto> widget]", THEN conjunct1] s
    unfolding swr_defaults_def by auto
  ultimately show ?thesis unfolding es_def Let_def by blast
qed

text \<open>
  The bound is reached: a row changed just after it was read stays cached for the whole time to live,
  so an answer can be \<open>staleMs\<close> out of date, not only \<open>staleMs - freshMs\<close>.
\<close>

lemma swr_stale_for_the_whole_ttl:
  assumes "pid q = i" and "freshMs opts \<le> staleMs opts"
    and "s = swr_run opts [Call 0 i, Go 0, Tick 75, Go 0, Write q, Go 0, Tick (staleMs opts), Call 1 i, Go 1]
               (swr_start [i \<mapsto> p])"
  shows "(75 + int (staleMs opts), i, p) \<in> set (served s) \<and> rows s i = Some q"
  using assms(1,2)
  by (simp add: assms(3) swr_start_def cached_value_def redis_get_def start_read_def
      SIMULATED_QUERY_DELAY_MS_def finish_read_def writeEntry_def redis_set_px_def triggerBackgroundRefresh_def Let_def)

end
