(* ===== verification/Cache_Jitter.thy ===== *)
theory Cache_Jitter
  imports Redis_Keys
begin

text \<open>
  Jittered times to live of Lab 21, \<open>labs/21-*/src/cache/jittered-ttl.ts\<close>: the computation, the seeding of
  many keys and the measurement of the window in which they expire. \<open>Math.random\<close> draws are handed in;
  commands take no time, so a poll's elapsed time is the sum of the sleeps before it.
\<close>

section \<open>The times to live\<close>

record JitterOptions =
  baseTtlMs :: nat
  jitterFraction :: rat

definition computeJitteredTtlMs :: "JitterOptions \<Rightarrow> rat \<Rightarrow> int" where
  "computeJitteredTtlMs options random =
     (let jitter = (random * 2 - 1) * jitterFraction options * of_nat (baseTtlMs options)
      in max 1 \<lfloor>of_nat (baseTtlMs options) + jitter + 1 / 2\<rfloor>)"

definition fixedTtlKey :: "nat \<Rightarrow> string" where
  "fixedTtlKey index = ''jitter-demo:fixed:'' @ nat_str index"

definition jitteredTtlKey :: "nat \<Rightarrow> string" where
  "jitteredTtlKey index = ''jitter-demo:jittered:'' @ nat_str index"

definition seedFixedTtlKeys :: "nat \<Rightarrow> nat \<Rightarrow> rat \<Rightarrow> redis \<Rightarrow> redis" where
  "seedFixedTtlKeys count base t r =
     foldl (\<lambda>r i. redis_set_px t (fixedTtlKey i) ''v'' (of_nat base) r) r [0..<count]"

definition seedJitteredTtlKeys :: "nat \<Rightarrow> JitterOptions \<Rightarrow> (nat \<Rightarrow> rat) \<Rightarrow> rat \<Rightarrow> redis \<Rightarrow> redis" where
  "seedJitteredTtlKeys count options random t r =
     foldl (\<lambda>r i. redis_set_px t (jitteredTtlKey i) ''v'' (of_int (computeJitteredTtlMs options (random i))) r) r [0..<count]"

section \<open>Measuring the window\<close>

definition remaining_keys :: "(nat \<Rightarrow> string) \<Rightarrow> nat \<Rightarrow> rat \<Rightarrow> redis \<Rightarrow> nat" where
  "remaining_keys keyFn count t r = length (filter (\<lambda>i. redis_get t (keyFn i) r \<noteq> None) [0..<count])"

text \<open>The polling loop; it does not return when the interval is 0 and a key never expires in time.\<close>

partial_function (option) poll_window ::
  "(nat \<Rightarrow> string) \<Rightarrow> nat \<Rightarrow> nat \<Rightarrow> nat \<Rightarrow> rat \<Rightarrow> redis \<Rightarrow> nat \<Rightarrow> nat option \<Rightarrow> nat \<Rightarrow> (nat option \<times> nat option) option" where
  "poll_window keyFn count intervalMs maxWaitMs start r elapsed firstExpiryMs previousRemaining =
     (if elapsed < maxWaitMs then
        let remaining = remaining_keys keyFn count (start + of_nat elapsed) r;
            firstExpiry = (if remaining < previousRemaining \<and> firstExpiryMs = None then Some elapsed else firstExpiryMs)
        in if remaining = 0 then Some (firstExpiry, Some elapsed)
           else poll_window keyFn count intervalMs maxWaitMs start r (elapsed + intervalMs) firstExpiry remaining
      else Some (firstExpiryMs, None))"

definition measureExpirationWindow ::
  "redis \<Rightarrow> (nat \<Rightarrow> string) \<Rightarrow> nat \<Rightarrow> nat \<Rightarrow> nat \<Rightarrow> rat \<Rightarrow> (nat option \<times> nat option) option" where
  "measureExpirationWindow r keyFn count intervalMs maxWaitMs start =
     poll_window keyFn count intervalMs maxWaitMs start r 0 None count"

text \<open>Keys with the given times to live, seeded at \<open>start\<close>.\<close>

definition expiring :: "(nat \<Rightarrow> string) \<Rightarrow> nat \<Rightarrow> (nat \<Rightarrow> int) \<Rightarrow> rat \<Rightarrow> redis \<Rightarrow> bool" where
  "expiring keyFn count ttl start r \<longleftrightarrow> (\<forall>i < count. r (keyFn i) = Some (''v'', Some (start + of_int (ttl i))))"

lemma foldl_set_px:
  assumes "inj keyFn"
  shows "foldl (\<lambda>r i. redis_set_px t (keyFn i) ''v'' (ttl i) r) r [0..<count] k =
    (if \<exists>i < count. k = keyFn i then Some (''v'', Some (t + ttl (THE i. k = keyFn i))) else r k)"
proof (induction count)
  case (Suc n)
  have "(THE i. keyFn n = keyFn i) = n" using assms by (auto simp: inj_def intro: the_equality)
  then show ?case using Suc by (auto simp: redis_set_px_def less_Suc_eq)
qed simp

lemma seeded: "inj keyFn \<Longrightarrow> i < count \<Longrightarrow>
    foldl (\<lambda>r i. redis_set_px t (keyFn i) ''v'' (ttl i) r) r [0..<count] (keyFn i) = Some (''v'', Some (t + ttl i))"
proof -
  assume a: "inj keyFn" "i < count"
  have "(THE j. keyFn i = keyFn j) = i" using a(1) by (auto simp: inj_def intro: the_equality)
  then show ?thesis using a by (auto simp: foldl_set_px)
qed

lemma key_inj: "inj fixedTtlKey" "inj jitteredTtlKey"
  by (auto simp: inj_def fixedTtlKey_def jitteredTtlKey_def)

lemma seeds_expire:
  "expiring fixedTtlKey count (\<lambda>i. int base) t (seedFixedTtlKeys count base t r)"
  "expiring jitteredTtlKey count (\<lambda>i. computeJitteredTtlMs opts (random i)) t (seedJitteredTtlKeys count opts random t r)"
  using seeded [OF key_inj(1), of _ count t "\<lambda>i. of_nat base" r]
    seeded [OF key_inj(2), of _ count t "\<lambda>i. of_int (computeJitteredTtlMs opts (random i))" r]
  by (simp_all add: expiring_def seedFixedTtlKeys_def seedJitteredTtlKeys_def)

lemma remaining_count:
  assumes "expiring keyFn count ttl start r"
  shows "remaining_keys keyFn count (start + of_nat e) r = length (filter (\<lambda>i. int e \<le> ttl i) [0..<count])"
proof -
  have le: "(of_nat e \<le> (of_int (ttl i) :: rat)) = (int e \<le> ttl i)" for i
    by (metis of_int_le_iff of_int_of_nat_eq)
  have "redis_get (start + of_nat e) (keyFn i) r \<noteq> None \<longleftrightarrow> int e \<le> ttl i" if "i < count" for i
    using assms that le [of i] by (auto simp: expiring_def redis_get_def)
  then show ?thesis unfolding remaining_keys_def
    by (intro arg_cong [of _ _ length] filter_cong) auto
qed

text \<open>
  Poll number \<open>f\<close> is the first to miss a key, poll number \<open>l\<close> the first to miss them all.
\<close>

lemma poll_window_run:
  assumes e: "expiring keyFn count ttl start r" and "0 < intervalMs" and "l * intervalMs < maxWaitMs"
    and f: "\<exists>i < count. ttl i < int (f * intervalMs)" "\<And>k i. k < f \<Longrightarrow> i < count \<Longrightarrow> int (k * intervalMs) \<le> ttl i"
    and l: "\<And>i. i < count \<Longrightarrow> ttl i < int (l * intervalMs)" "\<And>k. k < l \<Longrightarrow> \<exists>i < count. int (k * intervalMs) \<le> ttl i"
    and "k \<le> l" and "k \<le> f \<Longrightarrow> first = None \<and> prev = count" and "f < k \<Longrightarrow> first = Some (f * intervalMs)"
  shows "poll_window keyFn count intervalMs maxWaitMs start r (k * intervalMs) first prev
    = Some (Some (f * intervalMs), Some (l * intervalMs))"
  using assms(8-10)
proof (induction "l - k" arbitrary: k first prev)
  case (0)
  then have k: "k = l" by simp
  have all: "filter (\<lambda>i. int (l * intervalMs) \<le> ttl i) [0..<count] = []" using l(1) by (fastforce simp: filter_empty_conv)
  have "0 < count" using f(1) by auto
  have "f \<le> l"
  proof (rule ccontr)
    assume "\<not> f \<le> l"
    then have "int (l * intervalMs) \<le> ttl 0" using f(2) \<open>0 < count\<close> by simp
    then show False using l(1) \<open>0 < count\<close> by (metis not_less)
  qed
  then show ?case
    using 0 k assms(3) all \<open>0 < count\<close> remaining_count [OF e, of "l * intervalMs"]
    by (subst poll_window.simps) (cases "f = l"; simp add: Let_def)
next
  case (Suc n)
  then have kl: "k < l" by simp
  let ?rem = "length (filter (\<lambda>i. int (k * intervalMs) \<le> ttl i) [0..<count])"
  have rem: "remaining_keys keyFn count (start + of_nat (k * intervalMs)) r = ?rem" by (rule remaining_count [OF e])
  obtain j where "j < count" "int (k * intervalMs) \<le> ttl j" using l(2) [OF kl] by blast
  then have pos: "?rem \<noteq> 0" by (auto simp: filter_empty_conv)
  have wait: "k * intervalMs < maxWaitMs"
    using kl assms(2,3) by (meson less_imp_le_nat mult_le_mono1 order_le_less_trans)
  let ?first = "if ?rem < prev \<and> first = None then Some (k * intervalMs) else first"
  have "?rem = count" if "k < f"
  proof -
    have "filter (\<lambda>i. int (k * intervalMs) \<le> ttl i) [0..<count] = [0..<count]" using f(2) [OF that] by simp
    then show ?thesis by simp
  qed
  moreover have "?rem < count" if "k = f"
    using f(1) that length_filter_less [of _ "[0..<count]" "\<lambda>i. int (k * intervalMs) \<le> ttl i"] by force
  ultimately have step: "Suc k \<le> f \<Longrightarrow> ?first = None \<and> ?rem = count" "f < Suc k \<Longrightarrow> ?first = Some (f * intervalMs)"
    using Suc.prems(2,3) by (auto simp: less_Suc_eq)
  have "n = l - Suc k" "Suc k \<le> l" using Suc.hyps(2) kl by simp_all
  from Suc.hyps(1) [OF this step]
  have "poll_window keyFn count intervalMs maxWaitMs start r (Suc k * intervalMs) ?first ?rem
      = Some (Some (f * intervalMs), Some (l * intervalMs))" .
  then show ?case
    using pos wait rem by (subst poll_window.simps) (simp add: Let_def add.commute)
qed

lemma expiration_window:
  assumes e: "expiring keyFn count ttl start r" and "0 < count" and int: "0 < intervalMs"
    and b: "\<And>i. i < count \<Longrightarrow> 0 \<le> ttl i \<and> lo \<le> ttl i \<and> ttl i \<le> hi" and w: "hi + int intervalMs < int maxWaitMs"
  obtains x y where "measureExpirationWindow r keyFn count intervalMs maxWaitMs start = Some (Some x, Some y)"
    and "lo < int x" and "x \<le> y" and "int y \<le> hi + int intervalMs" and "\<forall>i < count. \<forall>j < count. ttl i = ttl j \<Longrightarrow> x = y"
proof -
  define P where "P k \<longleftrightarrow> (\<exists>i < count. ttl i < int (k * intervalMs))" for k
  define Q where "Q k \<longleftrightarrow> (\<forall>i < count. ttl i < int (k * intervalMs))" for k
  have "Q (nat (hi + 1))"
  proof -
    have hi: "0 \<le> hi" using b [OF \<open>0 < count\<close>] by linarith
    then have "(hi + 1) * 1 \<le> (hi + 1) * int intervalMs" using int by (intro mult_left_mono) auto
    then have "hi < (hi + 1) * int intervalMs" unfolding mult_1_right add1_zle_eq .
    also have "\<dots> = int (nat (hi + 1) * intervalMs)" using hi by simp
    finally have "hi < int (nat (hi + 1) * intervalMs)" .
    then have "ttl i < int (nat (hi + 1) * intervalMs)" if "i < count" for i
      using b [OF that] by (meson le_less_trans)
    then show ?thesis unfolding Q_def by blast
  qed
  define l where "l = (LEAST k. Q k)"
  define f where "f = (LEAST k. P k)"
  have ql: "Q l" "\<And>k. k < l \<Longrightarrow> \<not> Q k" unfolding l_def
    by (rule LeastI [of Q, OF \<open>Q (nat (hi + 1))\<close>]) (rule not_less_Least)
  then have "P l" using \<open>0 < count\<close> by (auto simp: Q_def P_def)
  then have pf: "P f" and fl: "f \<le> l" unfolding f_def by (rule LeastI, rule Least_le)
  have pk: "\<And>k. k < f \<Longrightarrow> \<not> P k" unfolding f_def by (rule not_less_Least)
  have "\<not> Q 0" using b \<open>0 < count\<close> by (auto simp: Q_def not_less)
  then have "l \<noteq> 0" using ql(1) by metis
  then have "\<not> Q (l - 1)" using ql(2) by simp
  then obtain j where j: "j < count" "int ((l - 1) * intervalMs) \<le> ttl j" by (auto simp: Q_def not_less)
  have "l * intervalMs = (l - 1) * intervalMs + intervalMs" using \<open>l \<noteq> 0\<close> by (cases l) simp_all
  then have y: "int (l * intervalMs) \<le> hi + int intervalMs" using j b [OF j(1)] by simp
  obtain i where i: "i < count" "ttl i < int (f * intervalMs)" using pf by (auto simp: P_def)
  have x: "lo < int (f * intervalMs)" using i b [OF i(1)] by linarith
  have eq: "f * intervalMs = l * intervalMs" if same: "\<forall>i < count. \<forall>j < count. ttl i = ttl j"
  proof -
    have "ttl m < int (f * intervalMs)" if "m < count" for m
    proof -
      have "ttl m = ttl i" using same that i(1) by blast
      then show ?thesis using i(2) by simp
    qed
    then have "Q f" unfolding Q_def by blast
    then have "l \<le> f" unfolding l_def by (rule Least_le)
    then show ?thesis using fl by simp
  qed
  have wait: "l * intervalMs < maxWaitMs" using y w by linarith
  have f2: "\<And>k i. k < f \<Longrightarrow> i < count \<Longrightarrow> int (k * intervalMs) \<le> ttl i" using pk unfolding P_def not_less by (meson not_le)
  have l2: "\<And>k. k < l \<Longrightarrow> \<exists>i < count. int (k * intervalMs) \<le> ttl i" using ql(2) by (auto simp: Q_def not_less)
  have "\<exists>i < count. ttl i < int (f * intervalMs)" using pf by (simp add: P_def)
  from poll_window_run [OF e int wait this f2 _ l2, of 0 None count] ql(1)
  have "measureExpirationWindow r keyFn count intervalMs maxWaitMs start = Some (Some (f * intervalMs), Some (l * intervalMs))"
    by (simp add: Q_def measureExpirationWindow_def)
  then show ?thesis by (rule that [OF _ x _ y eq]) (simp add: fl)
qed

lemma jittered_bounds:
  assumes "0 \<le> random" and "random < 1" and "0 \<le> jitterFraction opts"
  shows "1 \<le> computeJitteredTtlMs opts random"
    and "of_nat (baseTtlMs opts) * (1 - jitterFraction opts) - 1 / 2 < of_int (computeJitteredTtlMs opts random)"
    and "of_int (computeJitteredTtlMs opts random) \<le> max 1 (of_nat (baseTtlMs opts) * (1 + jitterFraction opts) + 1 / 2)"
proof -
  define jb where "jb = jitterFraction opts * of_nat (baseTtlMs opts)"
  define x where "x = of_nat (baseTtlMs opts) + (random * 2 - 1) * jb"
  have jb: "0 \<le> jb" using assms(3) by (simp add: jb_def)
  have "(random * 2 - 1) * jb \<le> 1 * jb" "(- 1) * jb \<le> (random * 2 - 1) * jb"
    using jb assms(1,2) by (intro mult_right_mono; simp)+
  then have x: "of_nat (baseTtlMs opts) - jb \<le> x" "x \<le> of_nat (baseTtlMs opts) + jb" by (simp_all add: x_def)
  have c: "computeJitteredTtlMs opts random = max 1 \<lfloor>x + 1 / 2\<rfloor>"
    by (simp add: computeJitteredTtlMs_def x_def jb_def mult.assoc)
  have fl: "of_int \<lfloor>x + 1 / 2\<rfloor> \<le> x + 1 / 2" "x + 1 / 2 < of_int \<lfloor>x + 1 / 2\<rfloor> + 1" by linarith+
  show "1 \<le> computeJitteredTtlMs opts random" by (simp add: c)
  have "(of_int \<lfloor>x + 1 / 2\<rfloor> :: rat) \<le> of_int (computeJitteredTtlMs opts random)"
    unfolding of_int_le_iff by (simp add: c)
  then show "of_nat (baseTtlMs opts) * (1 - jitterFraction opts) - 1 / 2 < of_int (computeJitteredTtlMs opts random)"
    using fl x by (simp add: jb_def algebra_simps)
  show "of_int (computeJitteredTtlMs opts random) \<le> max 1 (of_nat (baseTtlMs opts) * (1 + jitterFraction opts) + 1 / 2)"
  proof (cases "1 \<le> \<lfloor>x + 1 / 2\<rfloor>")
    case True
    then have "(of_int (computeJitteredTtlMs opts random) :: rat) \<le> x + 1 / 2" using fl(1) by (simp add: c max_def)
    also have "\<dots> \<le> of_nat (baseTtlMs opts) * (1 + jitterFraction opts) + 1 / 2" using x(2) by (simp add: jb_def algebra_simps)
    finally show ?thesis by simp
  next
    case False
    then show ?thesis by (simp add: c max_def)
  qed
qed

text \<open>
  Jitter spreads the expiry and stays inside its window. Keys seeded together with one time to live
  are all seen to expire at the same poll, the first one after it; with jitter the measurement also
  returns, and the first and the last expiry seen lie inside the jittered window, up to rounding and
  one polling interval.
\<close>

lemma jitter_window:
  assumes "0 < count" and "0 < intervalMs" and "\<And>i. 0 \<le> random i \<and> random i < 1" and "0 \<le> jitterFraction opts"
    and "hi = max 1 (of_nat (baseTtlMs opts) * (1 + jitterFraction opts) + 1 / 2)"
    and "hi + of_nat intervalMs < of_nat maxWaitMs"
  shows "(\<exists>x. measureExpirationWindow (seedFixedTtlKeys count (baseTtlMs opts) t r) fixedTtlKey count intervalMs maxWaitMs t
            = Some (Some x, Some x) \<and> baseTtlMs opts < x \<and> x \<le> baseTtlMs opts + intervalMs)
    \<and> (\<exists>x y. measureExpirationWindow (seedJitteredTtlKeys count opts random t r) jitteredTtlKey count intervalMs maxWaitMs t
            = Some (Some x, Some y) \<and> x \<le> y
          \<and> of_nat (baseTtlMs opts) * (1 - jitterFraction opts) - 1 / 2 < (of_nat x :: rat)
          \<and> of_nat y \<le> hi + of_nat intervalMs)"
proof
  have "of_nat (baseTtlMs opts) \<le> hi"
    using assms(4) mult_left_mono [of 1 "1 + jitterFraction opts" "of_nat (baseTtlMs opts) :: rat"]
    unfolding assms(5) by linarith
  then have "of_nat (baseTtlMs opts + intervalMs) < (of_nat maxWaitMs :: rat)" using assms(6) by simp
  then have "baseTtlMs opts + intervalMs < maxWaitMs" by (simp only: of_nat_less_iff)
  then have w: "int (baseTtlMs opts) + int intervalMs < int maxWaitMs" by linarith
  obtain x y where "measureExpirationWindow (seedFixedTtlKeys count (baseTtlMs opts) t r) fixedTtlKey count intervalMs maxWaitMs t
      = Some (Some x, Some y)" "int (baseTtlMs opts) < int x" "int y \<le> int (baseTtlMs opts) + int intervalMs" "x = y"
    using expiration_window [OF seeds_expire(1) [of count "baseTtlMs opts" t r] assms(1,2) _ w, where lo = "int (baseTtlMs opts)"] by auto
  then show "\<exists>x. measureExpirationWindow (seedFixedTtlKeys count (baseTtlMs opts) t r) fixedTtlKey count intervalMs maxWaitMs t
      = Some (Some x, Some x) \<and> baseTtlMs opts < x \<and> x \<le> baseTtlMs opts + intervalMs" by auto
next
  let ?ttl = "\<lambda>i. computeJitteredTtlMs opts (random i)"
  define lo where "lo = Min (?ttl ` {..<count})"
  define top where "top = Max (?ttl ` {..<count})"
  have b: "0 \<le> ?ttl i \<and> lo \<le> ?ttl i \<and> ?ttl i \<le> top" if "i < count" for i
    using that jittered_bounds(1) [of "random i" opts] assms(3,4) by (fastforce simp: lo_def top_def)
  have "lo \<in> ?ttl ` {..<count}" "top \<in> ?ttl ` {..<count}"
    using assms(1) unfolding lo_def top_def by (intro Min_in Max_in; auto)+
  then have lo: "of_nat (baseTtlMs opts) * (1 - jitterFraction opts) - 1 / 2 < (of_int lo :: rat)" and top: "of_int top \<le> hi"
    using jittered_bounds(2,3) assms(3-5) by auto
  have "of_int (top + int intervalMs) < (of_int (int maxWaitMs) :: rat)" using top assms(6) by simp
  then have w: "top + int intervalMs < int maxWaitMs" by (simp only: of_int_less_iff)
  obtain x y where m: "measureExpirationWindow (seedJitteredTtlKeys count opts random t r) jitteredTtlKey count intervalMs maxWaitMs t
      = Some (Some x, Some y)" "lo < int x" "x \<le> y" "int y \<le> top + int intervalMs"
    using expiration_window [OF seeds_expire(2) [of count opts random t r] assms(1,2) b w] by blast
  have "(of_int lo :: rat) < of_int (int x)" "(of_int (int y) :: rat) \<le> of_int (top + int intervalMs)"
    using m(2,4) by (simp_all only: of_int_less_iff of_int_le_iff)
  then have "of_int lo < (of_nat x :: rat)" "of_nat y \<le> (of_int top :: rat) + of_nat intervalMs" by simp_all
  with m lo top show "\<exists>x y. measureExpirationWindow (seedJitteredTtlKeys count opts random t r) jitteredTtlKey count intervalMs maxWaitMs t
      = Some (Some x, Some y) \<and> x \<le> y \<and> of_nat (baseTtlMs opts) * (1 - jitterFraction opts) - 1 / 2 < (of_nat x :: rat)
      \<and> of_nat y \<le> hi + of_nat intervalMs"
    by (intro exI [of _ x] exI [of _ y]) auto
qed

lemma jitter_window_witness:
  "let opts = \<lparr>baseTtlMs = 1000, jitterFraction = 1 / 5\<rparr>
   in \<exists>x y. measureExpirationWindow (seedJitteredTtlKeys 3 opts (\<lambda>i. of_nat (i mod 2) / 2) 0 Map.empty) jitteredTtlKey 3 50 3000 0
        = Some (Some x, Some y) \<and> (799 :: rat) < of_nat x \<and> of_nat y \<le> (1250.5 :: rat)"
proof -
  define opts where "opts = \<lparr>baseTtlMs = 1000, jitterFraction = 1 / 5\<rparr>"
  have "of_nat (i mod 2) / 2 < (1 :: rat)" for i :: nat
  proof -
    have "of_nat (i mod 2) < (of_nat 2 :: rat)" unfolding of_nat_less_iff by simp
    then show ?thesis by simp
  qed
  then have r: "0 \<le> (of_nat (i mod 2) / 2 :: rat) \<and> (of_nat (i mod 2) / 2 :: rat) < 1" for i :: nat by simp
  show ?thesis
    using jitter_window [of 3 50 "\<lambda>i. of_nat (i mod 2) / 2" opts "1200.5" 3000 0 Map.empty, OF _ _ r, THEN conjunct2]
    unfolding Let_def opts_def by fastforce
qed

end
