(* ===== verification/Pagination.thy ===== *)
theory Pagination
  imports Sql_Table
begin

text \<open>
  Pagination of Lab 34, \<open>labs/34-*/src/scenarios\<close>: the offset and the keyset page queries with cursors
  (\<open>pagination-lib.ts\<close>) and the two scenarios that mutate the table between pages
  (\<open>offset-correctness-bug.ts\<close>, \<open>keyset-correctness.ts\<close>). \<open>created_at\<close> is in microseconds, as PostgreSQL
  stores it; \<open>rd\<close> is the driver's reading of a timestamp, which the cursor is made of.
\<close>

section \<open>Events and pages\<close>

record ActivityEventRow =
  ev_id :: nat
  ev_public_id :: string
  actor_name :: string
  ev_action :: string
  target_type :: string
  target_id :: string
  created_at :: int

record Cursor =
  createdAt :: int
  cursor_id :: nat

definition ev_key :: "ActivityEventRow \<Rightarrow> int \<times> nat" where
  "ev_key r = (created_at r, ev_id r)"

text \<open>\<open>ORDER BY created_at, id\<close>.\<close>

definition in_order :: "ActivityEventRow list \<Rightarrow> ActivityEventRow list" where
  "in_order rows = sort_key ev_key rows"

definition read_rows :: "(int \<Rightarrow> int) \<Rightarrow> ActivityEventRow list \<Rightarrow> ActivityEventRow list" where
  "read_rows rd rows = map (\<lambda>r. r\<lparr>created_at := rd (created_at r)\<rparr>) rows"

definition runOffsetPage :: "(int \<Rightarrow> int) \<Rightarrow> ActivityEventRow list \<Rightarrow> nat \<Rightarrow> nat \<Rightarrow> ActivityEventRow list" where
  "runOffsetPage rd rows offset limit = read_rows rd (take limit (drop offset (in_order rows)))"

definition after_cursor :: "Cursor \<Rightarrow> ActivityEventRow \<Rightarrow> bool" where
  "after_cursor c r \<longleftrightarrow> (createdAt c, cursor_id c) < ev_key r"

definition runKeysetPage ::
  "(int \<Rightarrow> int) \<Rightarrow> ActivityEventRow list \<Rightarrow> Cursor option \<Rightarrow> nat \<Rightarrow> ActivityEventRow list" where
  "runKeysetPage rd rows cursor limit =
     (case cursor of
        None \<Rightarrow> read_rows rd (take limit (in_order rows))
      | Some c \<Rightarrow> read_rows rd (take limit (in_order (filter (after_cursor c) rows))))"

definition cursorFromRow :: "ActivityEventRow \<Rightarrow> Cursor" where
  "cursorFromRow row = \<lparr>createdAt = created_at row, cursor_id = ev_id row\<rparr>"

definition getCursorAtOffset :: "(int \<Rightarrow> int) \<Rightarrow> ActivityEventRow list \<Rightarrow> nat \<Rightarrow> string + Cursor" where
  "getCursorAtOffset rd rows offset =
     (case read_rows rd (take 1 (drop offset (in_order rows))) of
        [] \<Rightarrow> Inl (''No row at offset '' @ nat_str offset @ '' - is the table seeded with enough rows?'')
      | row # _ \<Rightarrow> Inr \<lparr>createdAt = created_at row, cursor_id = ev_id row\<rparr>)"

definition getTotalRowCount :: "ActivityEventRow list \<Rightarrow> nat" where
  "getTotalRowCount rows = length rows"

section \<open>Facts about pages\<close>

text \<open>Timestamps the driver hands over unchanged, and identifiers that are unique.\<close>

definition faithful :: "(int \<Rightarrow> int) \<Rightarrow> ActivityEventRow list \<Rightarrow> bool" where
  "faithful rd rows \<longleftrightarrow> (\<forall>r \<in> set rows. rd (created_at r) = created_at r) \<and> distinct (map ev_id rows)"

lemma read_rows_id: "\<forall>r \<in> set rows. rd (created_at r) = created_at r \<Longrightarrow> read_rows rd rows = rows"
  by (simp add: read_rows_def map_idI)

lemma in_order_simps [simp]: "set (in_order rows) = set rows" "length (in_order rows) = length rows"
  by (simp_all add: in_order_def)

lemma faithful_keys: "faithful rd rows \<Longrightarrow> distinct (map ev_key rows)"
  unfolding faithful_def ev_key_def by (auto simp: distinct_map inj_on_def)

lemma faithful_filter: "faithful rd rows \<Longrightarrow> faithful rd (filter P rows)"
  by (auto simp: faithful_def distinct_map_filter)

lemma in_order_sorted: "faithful rd rows \<Longrightarrow> sorted_wrt (<) (map ev_key (in_order rows))"
proof -
  assume "faithful rd rows"
  then have "distinct (map ev_key (in_order rows))"
    using faithful_keys by (metis distinct_map in_order_def set_sort distinct_sort)
  moreover have "sorted (map ev_key (in_order rows))" by (simp add: in_order_def)
  ultimately show ?thesis by (simp add: strict_sorted_iff)
qed

lemma page_id: "faithful rd rows \<Longrightarrow> set page \<subseteq> set rows \<Longrightarrow> read_rows rd page = page"
  by (auto simp: faithful_def intro: read_rows_id)

lemma keyset_page:
  assumes "faithful rd rows"
  shows "runKeysetPage rd rows cursor limit =
    take limit (in_order (filter (\<lambda>r. case cursor of None \<Rightarrow> True | Some c \<Rightarrow> after_cursor c r) rows))"
  using assms set_take_subset
  by (cases cursor) (auto simp: runKeysetPage_def intro!: page_id [OF assms] dest: in_set_takeD)

lemma offset_page: "faithful rd rows \<Longrightarrow> runOffsetPage rd rows offset limit = take limit (drop offset (in_order rows))"
  by (auto simp: runOffsetPage_def intro!: page_id dest!: in_set_takeD in_set_dropD)

section \<open>Walking the pages\<close>

text \<open>
  A client that asks for page after page with the cursor of the last row it got, each request meeting
  the table as it is then, and stops at an empty page.
\<close>

fun walk :: "(int \<Rightarrow> int) \<Rightarrow> nat \<Rightarrow> Cursor option \<Rightarrow> ActivityEventRow list list \<Rightarrow> ActivityEventRow list list" where
  "walk rd limit cursor [] = []"
| "walk rd limit cursor (rows # later) =
     (let page = runKeysetPage rd rows cursor limit
      in page # (if page = [] then [] else walk rd limit (Some (cursorFromRow (last page))) later))"

definition past :: "Cursor option \<Rightarrow> ActivityEventRow \<Rightarrow> bool" where
  "past cursor r \<longleftrightarrow> (case cursor of None \<Rightarrow> True | Some c \<Rightarrow> after_cursor c r)"

lemma past_None [simp]: "past None r" by (simp add: past_def)

lemma past_cursor [simp]: "past (Some (cursorFromRow row)) r \<longleftrightarrow> ev_key row < ev_key r"
  by (simp add: past_def after_cursor_def cursorFromRow_def ev_key_def)

lemma keyset_page_past: "faithful rd rows \<Longrightarrow> runKeysetPage rd rows cursor limit = take limit (in_order (filter (past cursor) rows))"
  by (cases cursor) (simp_all add: keyset_page past_def [abs_def])

lemma page_sorted: "faithful rd rows \<Longrightarrow> sorted_wrt (<) (map ev_key (runKeysetPage rd rows cursor limit))"
  using in_order_sorted [OF faithful_filter] by (simp add: keyset_page_past take_map [symmetric] sorted_wrt_take)

lemma page_past: "faithful rd rows \<Longrightarrow> r \<in> set (runKeysetPage rd rows cursor limit) \<Longrightarrow> past cursor r \<and> r \<in> set rows"
  by (auto simp: keyset_page_past dest: in_set_takeD)

lemma past_trans: "past cursor row \<Longrightarrow> ev_key row < ev_key r \<Longrightarrow> past cursor r"
  by (auto simp: past_def after_cursor_def split: option.splits)

lemma sorted_wrt_last: "sorted_wrt (<) (map f xs) \<Longrightarrow> x \<in> set xs \<Longrightarrow> f x \<le> (f (last xs) :: 'a :: linorder)"
  by (induction xs) (auto intro: less_imp_le)

lemma walk_past: "\<forall>rows \<in> set ts. faithful rd rows \<Longrightarrow> r \<in> set (concat (walk rd limit cursor ts)) \<Longrightarrow> past cursor r"
proof (induction ts arbitrary: cursor)
  case (Cons rows ts)
  let ?p = "runKeysetPage rd rows cursor limit"
  have f: "faithful rd rows" using Cons.prems(1) by simp
  show ?case
  proof (cases "r \<in> set ?p")
    case True
    then show ?thesis using page_past [OF f] by blast
  next
    case False
    then have ne: "?p \<noteq> []" and "r \<in> set (concat (walk rd limit (Some (cursorFromRow (last ?p))) ts))"
      using Cons.prems(2) by (auto simp: Let_def split: if_splits)
    then have "ev_key (last ?p) < ev_key r" using Cons.IH Cons.prems(1) past_cursor by (metis list.set_intros(2))
    moreover have "past cursor (last ?p)" using page_past [OF f last_in_set [OF ne]] by blast
    ultimately show ?thesis by (rule past_trans [rotated])
  qed
qed simp

lemma walk_sorted: "\<forall>rows \<in> set ts. faithful rd rows \<Longrightarrow> sorted_wrt (<) (map ev_key (concat (walk rd limit cursor ts)))"
proof (induction ts arbitrary: cursor)
  case (Cons rows ts)
  let ?p = "runKeysetPage rd rows cursor limit" and ?w = "walk rd limit (Some (cursorFromRow (last (runKeysetPage rd rows cursor limit)))) ts"
  have p: "sorted_wrt (<) (map ev_key ?p)" using page_sorted Cons.prems by simp
  have "ev_key x < ev_key y" if "x \<in> set ?p" "y \<in> set (concat ?w)" for x y
    using sorted_wrt_last [OF p that(1)] walk_past [OF _ that(2)] Cons.prems
    by (metis le_less_trans list.set_intros(2) past_cursor)
  then show ?case using p Cons.IH Cons.prems
    by (auto simp: Let_def sorted_wrt_append)
qed simp

text \<open>
  What a page leaves over is past the cursor of its last row, read back unchanged or earlier than it is stored: so a driver that cuts
  timestamps off can make a page repeat rows, never make it skip one.
\<close>

definition as_read :: "(int \<Rightarrow> int) \<Rightarrow> ActivityEventRow \<Rightarrow> ActivityEventRow" where
  "as_read rd r = r\<lparr>created_at := rd (created_at r)\<rparr>"

lemma keyset_page_read: "runKeysetPage rd rows cursor limit = map (as_read rd) (take limit (in_order (filter (past cursor) rows)))"
  by (cases cursor) (simp_all add: runKeysetPage_def read_rows_def as_read_def past_def [abs_def])

lemma as_read_key: "rd (created_at r) \<le> created_at r \<Longrightarrow> ev_key (as_read rd r) \<le> ev_key r"
  by (auto simp: ev_key_def as_read_def)

lemma as_read_fixed: "as_read rd r = r \<longleftrightarrow> rd (created_at r) = created_at r"
proof
  assume "as_read rd r = r"
  then have "created_at (as_read rd r) = created_at r" by simp
  then show "rd (created_at r) = created_at r" by (simp add: as_read_def)
qed (simp add: as_read_def)

lemma in_order_strict:
  assumes "distinct (map ev_id rows)"
  shows "sorted_wrt (<) (map ev_key (in_order rows))"
proof -
  have "faithful (\<lambda>t. t) rows" using assms by (simp add: faithful_def)
  then show ?thesis by (rule in_order_sorted)
qed

lemma page_rest:
  assumes "distinct (map ev_id rows)" and "\<forall>t. rd t \<le> t" and "r \<in> set rows" and "past cursor r"
    and "as_read rd r \<notin> set (runKeysetPage rd rows cursor limit)" and "0 < limit"
  shows "runKeysetPage rd rows cursor limit \<noteq> [] \<and> limit \<le> length (runKeysetPage rd rows cursor limit)
    \<and> past (Some (cursorFromRow (last (runKeysetPage rd rows cursor limit)))) r"
proof -
  let ?s = "in_order (filter (past cursor) rows)"
  have p: "runKeysetPage rd rows cursor limit = map (as_read rd) (take limit ?s)" by (rule keyset_page_read)
  have "r \<in> set ?s" using assms(3,4) by simp
  then have d: "r \<in> set (drop limit ?s)" using assms(5) p append_take_drop_id [of limit ?s] by (metis Un_iff image_eqI set_append set_map)
  then have long: "limit < length ?s" by (metis drop_all empty_iff list.set(1) not_le)
  then have ne: "take limit ?s \<noteq> []" using assms(6) by (metis less_nat_zero_code list.size(3) neq0_conv take_eq_Nil)
  have "sorted_wrt (<) (map ev_key (take limit ?s @ drop limit ?s))"
    using in_order_strict assms(1) by (simp add: distinct_map_filter)
  then have "ev_key (last (take limit ?s)) < ev_key r"
    using last_in_set [OF ne] d unfolding map_append sorted_wrt_append by auto
  moreover have "ev_key (as_read rd (last (take limit ?s))) \<le> ev_key (last (take limit ?s))" using assms(2) by (simp add: as_read_key)
  ultimately show ?thesis using ne long by (simp add: p last_map less_le_trans order_le_less_trans)
qed

lemma walk_complete:
  assumes "\<forall>rows \<in> set ts. distinct (map ev_id rows) \<and> r \<in> set rows" and "\<forall>t. rd t \<le> t" and "past cursor r" and "0 < limit"
    and "walk rd limit cursor ts \<noteq> []" and "length (last (walk rd limit cursor ts)) < limit"
  shows "as_read rd r \<in> set (concat (walk rd limit cursor ts))"
  using assms(1,3,5,6)
proof (induction ts arbitrary: cursor)
  case (Cons rows ts)
  let ?p = "runKeysetPage rd rows cursor limit" and ?w = "walk rd limit (Some (cursorFromRow (last (runKeysetPage rd rows cursor limit)))) ts"
  show ?case
  proof (cases "as_read rd r \<in> set ?p")
    case True
    then show ?thesis by (simp add: Let_def)
  next
    case False
    then have r: "?p \<noteq> []" "limit \<le> length ?p" "past (Some (cursorFromRow (last ?p))) r"
      using page_rest [OF _ assms(2) _ Cons.prems(2) False assms(4)] Cons.prems(1) by auto
    then have "?w \<noteq> []" "length (last ?w) < limit" using Cons.prems(4) by (auto simp: Let_def split: if_splits)
    with Cons.IH r(3) Cons.prems(1) have "as_read rd r \<in> set (concat ?w)" by simp
    then show ?thesis using r(1) by (simp add: Let_def)
  qed
qed simp

lemma in_order_filter: "in_order (filter P rows) = filter P (in_order rows)"
  by (simp add: in_order_def filter_sort)

lemma filter_after_take:
  assumes "sorted_wrt (<) (map f s)" and "take n s \<noteq> []"
  shows "filter (\<lambda>r. (f (last (take n s)) :: 'a :: linorder) < f r) s = drop n s"
proof -
  have "sorted_wrt (<) (map f (take n s @ drop n s))" using assms(1) by simp
  then have a: "sorted_wrt (<) (map f (take n s))" and b: "\<forall>x \<in> set (take n s). \<forall>y \<in> set (drop n s). f x < f y"
    unfolding map_append sorted_wrt_append by auto
  have "filter (\<lambda>r. f (last (take n s)) < f r) (take n s) = []"
    using sorted_wrt_last [OF a] by (force simp: filter_empty_conv not_less)
  moreover have "filter (\<lambda>r. f (last (take n s)) < f r) (drop n s) = drop n s"
    using b last_in_set [OF assms(2)] by (simp add: filter_id_conv)
  ultimately show ?thesis
    using filter_append [of "\<lambda>r. f (last (take n s)) < f r" "take n s" "drop n s"] by simp
qed

lemma walk_still:
  assumes "faithful rd rows" and "0 < limit"
  shows "concat (walk rd limit cursor (replicate n rows)) = take (n * limit) (filter (past cursor) (in_order rows))"
proof (induction n arbitrary: cursor)
  case (Suc n)
  let ?s = "filter (past cursor) (in_order rows)"
  have p: "runKeysetPage rd rows cursor limit = take limit ?s"
    using keyset_page_past [OF assms(1)] by (simp add: in_order_filter)
  show ?case
  proof (cases "take limit ?s = []")
    case True
    then have "?s = []" using assms(2) by (simp add: take_eq_Nil)
    then show ?thesis using p by (simp add: Let_def)
  next
    case False
    have s: "sorted_wrt (<) (map ev_key ?s)"
      using in_order_sorted [OF faithful_filter [OF assms(1)], of "past cursor"] by (simp add: in_order_filter)
    let ?c = "Some (cursorFromRow (last (take limit ?s)))"
    have "past cursor (last (take limit ?s))" using last_in_set [OF False] by (auto dest: in_set_takeD)
    then have imp: "past ?c r \<Longrightarrow> past cursor r" for r unfolding past_cursor by (rule past_trans)
    have "filter (past ?c) ?s = filter (\<lambda>r. past cursor r \<and> past ?c r) (in_order rows)" by (simp only: filter_filter)
    also have "\<dots> = filter (past ?c) (in_order rows)" using imp by (intro filter_cong) blast+
    finally have "filter (past ?c) (in_order rows) = filter (past ?c) ?s" by (rule sym)
    also have "\<dots> = drop limit ?s" using filter_after_take [OF s False] by (simp add: past_cursor [abs_def])
    finally have "concat (walk rd limit ?c (replicate n rows)) = take (n * limit) (drop limit ?s)" by (simp only: Suc)
    then show ?thesis using p False by (simp add: Let_def take_add)
  qed
qed simp


definition event :: "nat \<Rightarrow> int \<Rightarrow> ActivityEventRow" where
  "event i t = \<lparr>ev_id = i, ev_public_id = nat_str i, actor_name = ''ada'', ev_action = ''created'',
     target_type = ''issue'', target_id = ''1'', created_at = t\<rparr>"

definition whole_ms :: "int \<Rightarrow> int" where
  "whole_ms t = t div 1000 * 1000"


text \<open>
  Why the driver must be faithful: read as whole milliseconds, a timestamp with microseconds makes a
  cursor before its own row, which the next page repeats.
\<close>

lemma truncated_cursor_repeats:
  assumes "rows = [event 1 1500]"
  shows "map ev_id (concat (walk whole_ms 20 None [rows, rows, rows])) = [1, 1, 1]"
  by (simp add: assms runKeysetPage_def in_order_def read_rows_def whole_ms_def event_def ev_key_def after_cursor_def
      cursorFromRow_def Let_def)

end
