(* ===== verification/Pagination_Scenarios.thy ===== *)
theory Pagination_Scenarios
  imports Pagination
begin

text \<open>
  The two mutating scenarios of Lab 34: \<open>offset-correctness-bug.ts\<close> and \<open>keyset-correctness.ts\<close>. A table
  comes with the next identity; the \<open>public_id\<close> a row gets is handed in. The result is the flags the
  scenario logs, or the \<open>TypeError\<close> of reading a property of a row that is not there.
\<close>

section \<open>The table\<close>

record EventTable =
  ev_rows :: "ActivityEventRow list"
  next_id :: nat

definition insertEvent :: "string \<Rightarrow> string \<Rightarrow> int \<Rightarrow> EventTable \<Rightarrow> ActivityEventRow \<times> EventTable" where
  "insertEvent publicId target stamp t =
     (let row = \<lparr>ev_id = next_id t, ev_public_id = publicId, actor_name = ''system'', ev_action = ''created'',
                 target_type = ''incident'', target_id = target, created_at = stamp\<rparr>
      in (row, \<lparr>ev_rows = ev_rows t @ [row], next_id = next_id t + 1\<rparr>))"

definition deleteWhere :: "(ActivityEventRow \<Rightarrow> bool) \<Rightarrow> EventTable \<Rightarrow> EventTable" where
  "deleteWhere P t = t\<lparr>ev_rows := filter (\<lambda>r. \<not> P r) (ev_rows t)\<rparr>"

text \<open>One hour before the least \<open>created_at\<close>, through a \<open>Date\<close> in milliseconds.\<close>

definition beforeEverything :: "(int \<Rightarrow> int) \<Rightarrow> EventTable \<Rightarrow> int" where
  "beforeEverything rd t = rd (fold min (map created_at (tl (ev_rows t))) (created_at (hd (ev_rows t)))) - 60 * 60 * 1000 * 1000"

definition nth_row :: "ActivityEventRow list \<Rightarrow> nat \<Rightarrow> string + ActivityEventRow" where
  "nth_row rows i = (if i < length rows then Inr (rows ! i) else Inl ''TypeError'')"

definition last_row :: "ActivityEventRow list \<Rightarrow> string + ActivityEventRow" where
  "last_row rows = (if rows = [] then Inl ''TypeError'' else Inr (last rows))"

definition and_then :: "string + 'a \<Rightarrow> ('a \<Rightarrow> string + 'b) \<Rightarrow> string + 'b" where
  "and_then x f = (case x of Inl e \<Rightarrow> Inl e | Inr a \<Rightarrow> f a)"

definition PAGE_SIZE :: nat where "PAGE_SIZE = 20"

definition PAGE_OFFSET :: nat where "PAGE_OFFSET = 100"

section \<open>The offset scenario\<close>

record OffsetBugs =
  duplicateDetected :: bool
  skipDetected :: bool

definition offset_correctness_main :: "(int \<Rightarrow> int) \<Rightarrow> string \<Rightarrow> EventTable \<Rightarrow> string + OffsetBugs \<times> EventTable" where
  "offset_correctness_main rd newPublicId t =
     (let page1 = runOffsetPage rd (ev_rows t) PAGE_OFFSET PAGE_SIZE in
      and_then (last_row page1) (\<lambda>lastRowOfPage1.
      let (inserted, t1) = insertEvent newPublicId ''1'' (beforeEverything rd t) t;
          nextOffset = PAGE_OFFSET + PAGE_SIZE;
          page2 = runOffsetPage rd (ev_rows t1) nextOffset PAGE_SIZE in
      and_then (nth_row page2 0) (\<lambda>firstRowOfPage2.
      let duplicate = (ev_public_id firstRowOfPage2 = ev_public_id lastRowOfPage1);
          t2 = deleteWhere (\<lambda>r. ev_public_id r = ev_public_id inserted) t1;
          baselinePage1 = runOffsetPage rd (ev_rows t2) PAGE_OFFSET PAGE_SIZE in
      and_then (nth_row (runOffsetPage rd (ev_rows t2) nextOffset 1) 0) (\<lambda>victimRow.
      and_then (nth_row baselinePage1 5) (\<lambda>rowToDelete.
      let t3 = deleteWhere (\<lambda>r. ev_id r = ev_id rowToDelete) t2;
          page2AfterDelete = runOffsetPage rd (ev_rows t3) nextOffset PAGE_SIZE;
          missing = (\<not> list_ex (\<lambda>r. ev_public_id r = ev_public_id victimRow) baselinePage1
                     \<and> \<not> list_ex (\<lambda>r. ev_public_id r = ev_public_id victimRow) page2AfterDelete)
      in Inr (\<lparr>duplicateDetected = duplicate, skipDetected = missing\<rparr>, t3))))))"

section \<open>The keyset scenario\<close>

record KeysetChecks =
  noDuplicateFromInsertBefore :: bool
  noSkipFromDeleteInPage1 :: bool
  newRowAppeared :: bool

definition same_rows :: "ActivityEventRow list \<Rightarrow> ActivityEventRow list \<Rightarrow> bool" where
  "same_rows xs ys \<longleftrightarrow> map ev_public_id xs = map ev_public_id ys"

text \<open>The midpoint of two instants in milliseconds, as \<open>new Date\<close> cuts it off.\<close>

definition midpoint :: "int \<Rightarrow> int \<Rightarrow> int" where
  "midpoint a b = (a div 1000 + b div 1000) div 2 * 1000"

definition keyset_correctness_main ::
  "(int \<Rightarrow> int) \<Rightarrow> string \<Rightarrow> string \<Rightarrow> EventTable \<Rightarrow> string + KeysetChecks \<times> EventTable" where
  "keyset_correctness_main rd newPublicId midPublicId t =
     (let page1 = runKeysetPage rd (ev_rows t) None PAGE_SIZE in
      and_then (last_row page1) (\<lambda>lastRow.
      let cursor1 = cursorFromRow lastRow;
          baselinePage2 = runKeysetPage rd (ev_rows t) (Some cursor1) PAGE_SIZE in
      and_then (nth_row baselinePage2 0) (\<lambda>_.
      let (inserted, t1) = insertEvent newPublicId ''1'' (beforeEverything rd t) t;
          noDup = same_rows (runKeysetPage rd (ev_rows t1) (Some cursor1) PAGE_SIZE) baselinePage2;
          t2 = deleteWhere (\<lambda>r. ev_public_id r = ev_public_id inserted) t1 in
      and_then (nth_row page1 5) (\<lambda>rowToDelete.
      let t3 = deleteWhere (\<lambda>r. ev_id r = ev_id rowToDelete) t2;
          noSkip = same_rows (runKeysetPage rd (ev_rows t3) (Some cursor1) PAGE_SIZE) baselinePage2 in
      and_then (last_row baselinePage2) (\<lambda>lastRowOfBaselinePage2.
      let (midInserted, t4) = insertEvent midPublicId ''2'' (midpoint (createdAt cursor1) (created_at lastRowOfBaselinePage2)) t3;
          appeared = list_ex (\<lambda>r. ev_public_id r = ev_public_id midInserted) (runKeysetPage rd (ev_rows t4) (Some cursor1) PAGE_SIZE);
          t5 = deleteWhere (\<lambda>r. ev_public_id r = ev_public_id midInserted) t4
      in Inr (\<lparr>noDuplicateFromInsertBefore = noDup, noSkipFromDeleteInPage1 = noSkip, newRowAppeared = appeared\<rparr>, t5))))))"

section \<open>What the scenarios show\<close>

definition table_ok :: "(int \<Rightarrow> int) \<Rightarrow> EventTable \<Rightarrow> bool" where
  "table_ok rd t \<longleftrightarrow> distinct (map ev_id (ev_rows t)) \<and> distinct (map ev_public_id (ev_rows t))
     \<and> (\<forall>r \<in> set (ev_rows t). ev_id r < next_id t \<and> 1000 dvd created_at r) \<and> (\<forall>x. 1000 dvd x \<longrightarrow> rd x = x)"

lemma and_then_simps [simp]: "and_then (Inl e) f = Inl e" "and_then (Inr a) f = f a"
  by (simp_all add: and_then_def)

lemma table_ok_faithful: "table_ok rd t \<Longrightarrow> faithful rd (ev_rows t)"
  by (auto simp: table_ok_def faithful_def)

lemma table_ok_delete: "table_ok rd t \<Longrightarrow> table_ok rd (deleteWhere P t)"
  by (auto simp: table_ok_def deleteWhere_def distinct_map_filter)

lemma table_ok_insert:
  assumes "table_ok rd t" and "insertEvent u target stamp t = (row, t')" and "u \<notin> ev_public_id ` set (ev_rows t)"
    and "1000 dvd stamp"
  shows "table_ok rd t' \<and> ev_rows t' = ev_rows t @ [row] \<and> created_at row = stamp \<and> ev_public_id row = u \<and> ev_id row = next_id t"
  using assms by (fastforce simp: table_ok_def insertEvent_def Let_def)

lemma in_order_unique:
  assumes "faithful rd rows" and "sorted_wrt (<) (map ev_key ys)" and "set ys = set rows"
  shows "in_order rows = ys"
proof (rule map_sorted_distinct_set_unique [of ev_key])
  have "distinct (map ev_key (in_order rows))" using in_order_sorted [OF assms(1)] by (simp add: strict_sorted_iff)
  then show "inj_on ev_key (set (in_order rows) \<union> set ys)" using assms(3) by (simp add: distinct_map)
qed (use assms in_order_sorted [OF assms(1)] in \<open>simp_all add: strict_sorted_iff\<close>)

lemma key_less_new: "table_ok rd t \<Longrightarrow> r \<in> set (ev_rows t) \<Longrightarrow> created_at r \<le> stamp \<Longrightarrow>
    ev_key r < (stamp, next_id t)"
  by (auto simp: table_ok_def ev_key_def)

text \<open>The new row in the order: behind the rows up to its time, before the rest.\<close>

lemma in_order_insert:
  assumes ok: "table_ok rd t" and new: "insertEvent u target stamp t = (row, t')" "u \<notin> ev_public_id ` set (ev_rows t)" "1000 dvd stamp"
  shows "in_order (ev_rows t') = filter (\<lambda>r. created_at r \<le> stamp) (in_order (ev_rows t)) @ [row]
     @ filter (\<lambda>r. stamp < created_at r) (in_order (ev_rows t))"
proof (rule in_order_unique)
  note t' = table_ok_insert [OF ok new]
  show "faithful rd (ev_rows t')" using t' by (blast intro: table_ok_faithful)
  have k: "ev_key row = (stamp, next_id t)" using t' by (simp add: ev_key_def)
  have s: "sorted_wrt (<) (map ev_key (filter P (in_order (ev_rows t))))" for P
    using in_order_sorted [OF faithful_filter [OF table_ok_faithful [OF ok]]] by (simp add: in_order_filter)
  have "ev_key x < ev_key row" if "x \<in> set (filter (\<lambda>r. created_at r \<le> stamp) (in_order (ev_rows t)))" for x
    using that key_less_new [OF ok] k by auto
  moreover have "ev_key row < ev_key y" if "y \<in> set (filter (\<lambda>r. stamp < created_at r) (in_order (ev_rows t)))" for y
    using that k by (auto simp: ev_key_def)
  ultimately show "sorted_wrt (<) (map ev_key (filter (\<lambda>r. created_at r \<le> stamp) (in_order (ev_rows t)) @ [row]
     @ filter (\<lambda>r. stamp < created_at r) (in_order (ev_rows t))))"
    using s by (fastforce simp: sorted_wrt_append)
  show "set (filter (\<lambda>r. created_at r \<le> stamp) (in_order (ev_rows t)) @ [row]
     @ filter (\<lambda>r. stamp < created_at r) (in_order (ev_rows t))) = set (ev_rows t')"
    using t' by auto
qed

lemma before_everything:
  assumes "table_ok rd t" and "r \<in> set (ev_rows t)"
  shows "beforeEverything rd t < created_at r" and "1000 dvd beforeEverything rd t"
proof -
  define m where "m = fold min (map created_at (tl (ev_rows t))) (created_at (hd (ev_rows t)))"
  have ne: "ev_rows t \<noteq> []" using assms(2) by auto
  have "m = Min (set (created_at (hd (ev_rows t)) # map created_at (tl (ev_rows t))))"
    unfolding m_def Min.set_eq_fold ..
  then have m: "m = Min (created_at ` set (ev_rows t))" using ne by (cases "ev_rows t") simp_all
  then have "m \<in> created_at ` set (ev_rows t)" "m \<le> created_at r" using assms(2) ne by (simp_all del: image_iff)
  moreover from this(1) have "1000 dvd m" using assms(1) by (auto simp: table_ok_def)
  ultimately show "beforeEverything rd t < created_at r" "1000 dvd beforeEverything rd t"
    using assms(1) by (simp_all add: beforeEverything_def m_def [symmetric] table_ok_def)
qed

lemma in_order_insert_first:
  assumes "table_ok rd t" and "insertEvent u target (beforeEverything rd t) t = (row, t')" and "u \<notin> ev_public_id ` set (ev_rows t)"
    and "ev_rows t \<noteq> []"
  shows "in_order (ev_rows t') = row # in_order (ev_rows t)"
proof -
  obtain r where "r \<in> set (ev_rows t)" using assms(4) by (meson list.set_sel(1))
  from in_order_insert [OF assms(1,2,3) before_everything(2) [OF assms(1) this]]
  show ?thesis using before_everything(1) [OF assms(1)] by (auto simp: filter_empty_conv filter_id_conv not_le)
qed

text \<open>Deleting the row just inserted restores the table.\<close>

lemma delete_inserted:
  assumes "insertEvent u target stamp t = (row, t')" and "u \<notin> ev_public_id ` set (ev_rows t)"
  shows "ev_rows (deleteWhere (\<lambda>r. ev_public_id r = ev_public_id row) t') = ev_rows t"
  using assms by (auto simp: insertEvent_def deleteWhere_def Let_def filter_id_conv)

lemma delete_nth:
  assumes "distinct (map ev_id xs)" and "k < length xs"
  shows "filter (\<lambda>r. ev_id r \<noteq> ev_id (xs ! k)) xs = take k xs @ drop (Suc k) xs"
proof -
  define a b where "a = take k xs" and "b = drop (Suc k) xs"
  have xs: "xs = a @ xs ! k # b" using assms(2) unfolding a_def b_def by (rule id_take_nth_drop)
  then have "distinct (map ev_id (a @ xs ! k # b))" using assms(1) by simp
  then have "ev_id (xs ! k) \<notin> ev_id ` set a" "ev_id (xs ! k) \<notin> ev_id ` set b" by auto
  then have "filter (\<lambda>r. ev_id r \<noteq> ev_id (xs ! k)) a = a" "filter (\<lambda>r. ev_id r \<noteq> ev_id (xs ! k)) b = b"
    unfolding filter_id_conv by (metis image_eqI)+
  then have "filter (\<lambda>r. ev_id r \<noteq> ev_id (xs ! k)) (a @ xs ! k # b) = a @ b" by simp
  then show ?thesis using arg_cong [OF xs, of "filter (\<lambda>r. ev_id r \<noteq> ev_id (xs ! k))"] by (simp only: a_def b_def)
qed

lemma in_order_ids: "table_ok rd t \<Longrightarrow> distinct (map ev_id (in_order (ev_rows t))) \<and> distinct (map ev_public_id (in_order (ev_rows t)))"
  unfolding table_ok_def in_order_def by (simp add: distinct_map)

text \<open>The last row of a page comes first on the next one after an insert, and a delete skips a row.\<close>

lemma offset_pages:
  assumes "PAGE_OFFSET + PAGE_SIZE < length s"
  shows "last (take PAGE_SIZE (drop PAGE_OFFSET s)) = s ! 119"
    and "take PAGE_SIZE (drop PAGE_OFFSET s) \<noteq> []"
    and "take PAGE_SIZE (drop (PAGE_OFFSET + PAGE_SIZE) (x # s)) ! 0 = s ! 119"
    and "take PAGE_SIZE (drop (PAGE_OFFSET + PAGE_SIZE) (x # s)) \<noteq> []"
    and "take 1 (drop (PAGE_OFFSET + PAGE_SIZE) s) = [s ! 120]"
    and "take PAGE_SIZE (drop PAGE_OFFSET s) ! 5 = s ! 105" and "5 < length (take PAGE_SIZE (drop PAGE_OFFSET s))"
    and "take PAGE_SIZE (drop (PAGE_OFFSET + PAGE_SIZE) (take 105 s @ drop (Suc 105) s)) = take 20 (drop 121 s)"
proof -
  have l: "120 < length s" using assms by (simp add: PAGE_OFFSET_def PAGE_SIZE_def)
  then show "take PAGE_SIZE (drop PAGE_OFFSET s) \<noteq> []" "5 < length (take PAGE_SIZE (drop PAGE_OFFSET s))"
    "take PAGE_SIZE (drop (PAGE_OFFSET + PAGE_SIZE) (x # s)) \<noteq> []"
    by (simp_all add: PAGE_OFFSET_def PAGE_SIZE_def)
  show "last (take PAGE_SIZE (drop PAGE_OFFSET s)) = s ! 119" "take PAGE_SIZE (drop PAGE_OFFSET s) ! 5 = s ! 105"
    "take PAGE_SIZE (drop (PAGE_OFFSET + PAGE_SIZE) (x # s)) ! 0 = s ! 119"
    using l by (simp_all add: PAGE_OFFSET_def PAGE_SIZE_def last_conv_nth)
  show "take 1 (drop (PAGE_OFFSET + PAGE_SIZE) s) = [s ! 120]"
    using l by (simp add: PAGE_OFFSET_def PAGE_SIZE_def take_Suc hd_drop_conv_nth)
  show "take PAGE_SIZE (drop (PAGE_OFFSET + PAGE_SIZE) (take 105 s @ drop (Suc 105) s)) = take 20 (drop 121 s)"
    using l by (simp add: PAGE_OFFSET_def PAGE_SIZE_def drop_append)
qed

lemma offset_scenario:
  assumes ok: "table_ok rd t" and "PAGE_OFFSET + PAGE_SIZE < length (ev_rows t)" and u: "u \<notin> ev_public_id ` set (ev_rows t)"
  shows "\<exists>t'. offset_correctness_main rd u t = Inr (\<lparr>duplicateDetected = True, skipDetected = True\<rparr>, t')"
proof -
  let ?s = "in_order (ev_rows t)"
  have len: "PAGE_OFFSET + PAGE_SIZE < length ?s" using assms(2) by simp
  note pg = offset_pages [OF len]
  obtain row t1 where ins: "insertEvent u ''1'' (beforeEverything rd t) t = (row, t1)" by fastforce
  have ne: "ev_rows t \<noteq> []" using assms(2) by auto
  obtain r where r: "r \<in> set (ev_rows t)" using ne by (meson list.set_sel(1))
  have ok1: "table_ok rd t1" using table_ok_insert [OF ok ins u before_everything(2) [OF ok r]] by blast
  have s1: "in_order (ev_rows t1) = row # ?s" by (rule in_order_insert_first [OF ok ins u ne])
  define t2 where "t2 = deleteWhere (\<lambda>r. ev_public_id r = ev_public_id row) t1"
  have t2: "ev_rows t2 = ev_rows t" and ok2: "table_ok rd t2"
    using delete_inserted [OF ins u] table_ok_delete [OF ok1] by (simp_all add: t2_def)
  define t3 where "t3 = deleteWhere (\<lambda>r. ev_id r = ev_id (?s ! 105)) t2"
  have ok3: "table_ok rd t3" using table_ok_delete [OF ok2] by (simp add: t3_def)
  have "in_order (ev_rows t3) = filter (\<lambda>r. ev_id r \<noteq> ev_id (?s ! 105)) ?s"
    by (simp add: t3_def deleteWhere_def in_order_filter t2)
  also have "\<dots> = take 105 ?s @ drop (Suc 105) ?s"
    using in_order_ids [OF ok] len by (intro delete_nth) (simp_all add: PAGE_OFFSET_def PAGE_SIZE_def)
  finally have s3: "in_order (ev_rows t3) = take 105 ?s @ drop (Suc 105) ?s" .
  note page = offset_page [OF table_ok_faithful [OF ok]] offset_page [OF table_ok_faithful [OF ok1]]
    offset_page [OF table_ok_faithful [OF ok2]] offset_page [OF table_ok_faithful [OF ok3]]
  have other: "ev_public_id (?s ! k) \<noteq> ev_public_id (?s ! 120)" if "k < length ?s" "k \<noteq> 120" for k
    using in_order_ids [OF ok] that len unfolding distinct_conv_nth by (simp add: PAGE_OFFSET_def PAGE_SIZE_def)
  have "\<not> list_ex (\<lambda>r. ev_public_id r = ev_public_id (?s ! 120)) (take PAGE_SIZE (drop PAGE_OFFSET ?s))"
    using other by (auto simp: list_ex_iff in_set_conv_nth PAGE_OFFSET_def PAGE_SIZE_def)
  moreover have "\<not> list_ex (\<lambda>r. ev_public_id r = ev_public_id (?s ! 120)) (take 20 (drop 121 ?s))"
    using other by (auto simp: list_ex_iff in_set_conv_nth)
  moreover have "last_row (take PAGE_SIZE (drop PAGE_OFFSET ?s)) = Inr (?s ! 119)" using pg by (simp add: last_row_def)
  moreover have "nth_row (take PAGE_SIZE (drop (PAGE_OFFSET + PAGE_SIZE) (row # ?s))) 0 = Inr (?s ! 119)"
    using pg by (simp add: nth_row_def)
  moreover have "nth_row (take 1 (drop (PAGE_OFFSET + PAGE_SIZE) ?s)) 0 = Inr (?s ! 120)"
    unfolding pg(5) by (simp add: nth_row_def)
  moreover have "nth_row (take PAGE_SIZE (drop PAGE_OFFSET ?s)) 5 = Inr (?s ! 105)" using pg by (simp add: nth_row_def)
  ultimately show ?thesis
    using ins page s1 s3 pg(8)
    by (simp add: offset_correctness_main_def Let_def t2_def [symmetric] t3_def [symmetric] t2)
qed

text \<open>The page behind the cursor of row 19, when that row is still or again at its place.\<close>

lemma page_two:
  assumes ok: "table_ok rd t" and "in_order (ev_rows t) = xs @ row # ys" and "\<forall>x \<in> set xs. ev_key x < ev_key row"
  shows "runKeysetPage rd (ev_rows t) (Some (cursorFromRow row)) PAGE_SIZE = take PAGE_SIZE ys"
proof -
  have s: "sorted_wrt (<) (map ev_key (xs @ row # ys))"
    using in_order_sorted [OF table_ok_faithful [OF ok]] assms(2) by simp
  then have "filter (past (Some (cursorFromRow row))) ys = ys"
    by (auto simp: filter_id_conv sorted_wrt_append)
  moreover have "filter (past (Some (cursorFromRow row))) (xs @ [row]) = []"
    using assms(3) by (auto simp: filter_empty_conv not_less)
  ultimately have "filter (past (Some (cursorFromRow row))) (in_order (ev_rows t)) = ys"
    unfolding assms(2) by simp
  then show ?thesis
    using keyset_page_past [OF table_ok_faithful [OF ok], of "Some (cursorFromRow row)" PAGE_SIZE]
    by (simp add: in_order_filter)
qed

lemma midpoint_between:
  assumes "1000 dvd a" and "1000 dvd b" and "a < b"
  shows "a \<le> midpoint a b" and "midpoint a b < b" and "1000 dvd midpoint a b"
proof -
  obtain x y where x: "a = 1000 * x" "b = 1000 * y" using assms(1,2) by (auto elim!: dvdE)
  then have "x < y" using assms(3) by simp
  then have "x \<le> (x + y) div 2" "(x + y) div 2 < y" by linarith+
  then show "a \<le> midpoint a b" "midpoint a b < b" using x by (simp_all add: midpoint_def)
  show "1000 dvd midpoint a b" by (simp add: midpoint_def)
qed

text \<open>A row that sorts between the cursor and the last row of the page shows up in the page.\<close>

lemma mid_row_appears:
  assumes ok: "table_ok rd t" and split: "in_order (ev_rows t) = xs @ row # ys" and "ys \<noteq> []"
    and lt: "created_at row < created_at (last (take PAGE_SIZE ys))"
    and mid: "stamp = midpoint (created_at row) (created_at (last (take PAGE_SIZE ys)))"
    and ins: "insertEvent u target stamp t = (new, t')" and u: "u \<notin> ev_public_id ` set (ev_rows t)"
  shows "new \<in> set (runKeysetPage rd (ev_rows t') (Some (cursorFromRow row)) PAGE_SIZE)"
proof -
  let ?l = "last (take PAGE_SIZE ys)"
  have ne: "take PAGE_SIZE ys \<noteq> []" using assms(3) by (simp add: PAGE_SIZE_def)
  have l: "?l \<in> set ys" using last_in_set [OF ne] by (rule in_set_takeD)
  have in_t: "row \<in> set (ev_rows t)" "?l \<in> set (ev_rows t)"
    using l arg_cong [OF split, of set] by auto
  have dvd: "1000 dvd created_at row" "1000 dvd created_at ?l" using ok in_t by (auto simp: table_ok_def)
  note m = midpoint_between [OF dvd lt, folded mid]
  note new = table_ok_insert [OF ok ins u m(3)]
  have s: "sorted_wrt (<) (map ev_key (xs @ row # ys))"
    using in_order_sorted [OF table_ok_faithful [OF ok]] split by simp
  let ?lo = "filter (\<lambda>r. created_at r \<le> stamp)" and ?hi = "filter (\<lambda>r. stamp < created_at r)"
  have "created_at x \<le> created_at row" if "x \<in> set xs" for x
    using s that by (auto simp: sorted_wrt_append ev_key_def)
  then have "?lo xs = xs" "?hi xs = []" using m(1) by (fastforce simp: filter_id_conv filter_empty_conv)+
  then have ord: "in_order (ev_rows t') = (xs @ [row]) @ ?lo ys @ [new] @ ?hi ys"
    using in_order_insert [OF ok ins u m(3)] m(1) by (simp add: split)
  have page: "runKeysetPage rd (ev_rows t') (Some (cursorFromRow row)) PAGE_SIZE = take PAGE_SIZE (?lo ys @ [new] @ ?hi ys)"
    by (rule page_two) (use new ord s in \<open>auto simp: sorted_wrt_append\<close>)
  have "length (?lo ys) < PAGE_SIZE"
  proof -
    have sy: "sorted_wrt (<) (map ev_key (take PAGE_SIZE ys @ drop PAGE_SIZE ys))"
      using s by (simp add: sorted_wrt_append)
    then have "ev_key ?l < ev_key x" if "x \<in> set (drop PAGE_SIZE ys)" for x
      using that last_in_set [OF ne] unfolding map_append sorted_wrt_append by auto
    then have "?lo (drop PAGE_SIZE ys) = []" using m(2) by (force simp: filter_empty_conv ev_key_def)
    then have "?lo ys = ?lo (take PAGE_SIZE ys)"
      using filter_append [of "\<lambda>r. created_at r \<le> stamp" "take PAGE_SIZE ys" "drop PAGE_SIZE ys"] by simp
    also have "length \<dots> < length (take PAGE_SIZE ys)"
      using last_in_set [OF ne] m(2) by (intro length_filter_less [of ?l]) auto
    finally show ?thesis by simp
  qed
  then show ?thesis unfolding page by (auto simp: take_Cons' )
qed

lemma keyset_scenario:
  assumes ok: "table_ok rd t" and len: "PAGE_SIZE < length (ev_rows t)"
    and u: "u \<notin> ev_public_id ` set (ev_rows t)" and v: "v \<notin> ev_public_id ` set (ev_rows t)"
    and lt: "created_at (in_order (ev_rows t) ! (PAGE_SIZE - 1))
      < created_at (last (take PAGE_SIZE (drop PAGE_SIZE (in_order (ev_rows t)))))"
  shows "\<exists>t'. keyset_correctness_main rd u v t
    = Inr (\<lparr>noDuplicateFromInsertBefore = True, noSkipFromDeleteInPage1 = True, newRowAppeared = True\<rparr>, t')"
proof -
  define s where "s = in_order (ev_rows t)"
  define row where "row = s ! (PAGE_SIZE - 1)"
  define xs where "xs = take (PAGE_SIZE - 1) s"
  define ys where "ys = drop PAGE_SIZE s"
  have ls: "20 < length s" using len by (simp add: s_def PAGE_SIZE_def)
  have split: "s = xs @ row # ys"
    using ls id_take_nth_drop [of 19 s] by (simp add: xs_def ys_def row_def PAGE_SIZE_def)
  have lx: "length xs = 19" and ys: "ys \<noteq> []" using ls by (simp_all add: xs_def ys_def PAGE_SIZE_def)
  have page1: "take PAGE_SIZE s = xs @ [row]" using lx unfolding split by (simp add: PAGE_SIZE_def)
  have sorted: "sorted_wrt (<) (map ev_key (xs @ row # ys))"
    using in_order_sorted [OF table_ok_faithful [OF ok]] split by (simp add: s_def)
  then have before: "\<forall>x \<in> set xs. ev_key x < ev_key row" by (simp add: sorted_wrt_append)
  have st: "in_order (ev_rows t) = xs @ row # ys" using split by (simp add: s_def)
  have base: "runKeysetPage rd (ev_rows t) (Some (cursorFromRow row)) PAGE_SIZE = take PAGE_SIZE ys"
    by (rule page_two [OF ok st before])
  have ne: "ev_rows t \<noteq> []" using len by auto
  obtain r where r: "r \<in> set (ev_rows t)" using ne by (meson list.set_sel(1))
  obtain new t1 where ins: "insertEvent u ''1'' (beforeEverything rd t) t = (new, t1)" by fastforce
  note n1 = table_ok_insert [OF ok ins u before_everything(2) [OF ok r]]
  have s1: "in_order (ev_rows t1) = (new # xs) @ row # ys" using in_order_insert_first [OF ok ins u ne] st by simp
  have "row \<in> set (ev_rows t)" using arg_cong [OF st, of set] by simp
  then have "ev_key new < ev_key row" using n1 before_everything(1) [OF ok] by (simp add: ev_key_def)
  then have p1: "runKeysetPage rd (ev_rows t1) (Some (cursorFromRow row)) PAGE_SIZE = take PAGE_SIZE ys"
    using n1 before by (intro page_two [OF _ s1]) auto
  define t2 where "t2 = deleteWhere (\<lambda>r. ev_public_id r = ev_public_id new) t1"
  have t2: "ev_rows t2 = ev_rows t" and ok2: "table_ok rd t2"
    using delete_inserted [OF ins u] table_ok_delete n1 by (simp_all add: t2_def)
  define t3 where "t3 = deleteWhere (\<lambda>r. ev_id r = ev_id (xs ! 5)) t2"
  have ok3: "table_ok rd t3" using table_ok_delete [OF ok2] by (simp add: t3_def)
  have dist: "distinct (map ev_id (xs @ row # ys))" using in_order_ids [OF ok] st by simp
  then have "ev_id x \<noteq> ev_id row \<and> (\<forall>y \<in> set ys. ev_id y \<noteq> ev_id x)" if "x \<in> set xs" for x
    using that by simp (metis disjoint_iff image_eqI)
  from this [of "xs ! 5"] lx
  have "ev_id (xs ! 5) \<noteq> ev_id row \<and> (\<forall>y \<in> set ys. ev_id y \<noteq> ev_id (xs ! 5))" by simp
  then have "filter (\<lambda>r. ev_id r \<noteq> ev_id (xs ! 5)) (xs @ row # ys) = filter (\<lambda>r. ev_id r \<noteq> ev_id (xs ! 5)) xs @ row # ys"
    by (simp add: filter_id_conv)
  then have s3: "in_order (ev_rows t3) = filter (\<lambda>r. ev_id r \<noteq> ev_id (xs ! 5)) xs @ row # ys"
    by (simp add: t3_def deleteWhere_def in_order_filter t2 st)
  have p3: "runKeysetPage rd (ev_rows t3) (Some (cursorFromRow row)) PAGE_SIZE = take PAGE_SIZE ys"
    using before by (intro page_two [OF ok3 s3]) auto
  have v3: "v \<notin> ev_public_id ` set (ev_rows t3)" using v t2 by (auto simp: t3_def deleteWhere_def)
  obtain m t4 where mid: "insertEvent v ''2'' (midpoint (created_at row) (created_at (last (take PAGE_SIZE ys)))) t3 = (m, t4)"
    by fastforce
  have "m \<in> set (runKeysetPage rd (ev_rows t4) (Some (cursorFromRow row)) PAGE_SIZE)"
    using mid_row_appears [OF ok3 s3 ys _ refl mid v3] lt by (simp add: row_def ys_def s_def)
  then have appeared: "list_ex (\<lambda>r. ev_public_id r = ev_public_id m) (runKeysetPage rd (ev_rows t4) (Some (cursorFromRow row)) PAGE_SIZE)"
    by (auto simp: list_ex_iff)
  have "runKeysetPage rd (ev_rows t) None PAGE_SIZE = xs @ [row]"
    using keyset_page_past [OF table_ok_faithful [OF ok], of None PAGE_SIZE] page1 by (simp add: s_def)
  moreover have "last_row (xs @ [row]) = Inr row" "nth_row (xs @ [row]) 5 = Inr (xs ! 5)"
    using lx by (simp_all add: last_row_def nth_row_def nth_append)
  moreover have "nth_row (take PAGE_SIZE ys) 0 = Inr (ys ! 0)" "last_row (take PAGE_SIZE ys) = Inr (last (take PAGE_SIZE ys))"
    using ys by (simp_all add: nth_row_def last_row_def PAGE_SIZE_def)
  moreover have "createdAt (cursorFromRow row) = created_at row" by (simp add: cursorFromRow_def)
  ultimately show ?thesis
    using ins base p1 p3 mid appeared
    by (simp add: keyset_correctness_main_def Let_def t2_def [symmetric] t3_def [symmetric] same_rows_def)
qed

text \<open>
  Offset pages break where keyset pages hold. For every table of more than 120 events the offset
  scenario finds what it looks for, a row delivered on two pages after an insert and a row delivered on
  none after a delete; the keyset scenario finds neither under the same mutations, and sees a row that
  is inserted ahead of its cursor, as long as the page it looks at spans more than one instant.
\<close>

lemma pagination_scenarios:
  assumes "table_ok rd t" and "PAGE_OFFSET + PAGE_SIZE < length (ev_rows t)"
    and "u \<notin> ev_public_id ` set (ev_rows t)" and "v \<notin> ev_public_id ` set (ev_rows t)"
    and "created_at (in_order (ev_rows t) ! (PAGE_SIZE - 1))
      < created_at (last (take PAGE_SIZE (drop PAGE_SIZE (in_order (ev_rows t)))))"
  shows "(\<exists>t'. offset_correctness_main rd u t = Inr (\<lparr>duplicateDetected = True, skipDetected = True\<rparr>, t'))
    \<and> (\<exists>t'. keyset_correctness_main rd u v t
          = Inr (\<lparr>noDuplicateFromInsertBefore = True, noSkipFromDeleteInPage1 = True, newRowAppeared = True\<rparr>, t'))"
proof
  show "\<exists>t'. offset_correctness_main rd u t = Inr (\<lparr>duplicateDetected = True, skipDetected = True\<rparr>, t')"
    using assms(1-3) by (rule offset_scenario)
  have "PAGE_SIZE < length (ev_rows t)" using assms(2) by simp
  then show "\<exists>t'. keyset_correctness_main rd u v t
      = Inr (\<lparr>noDuplicateFromInsertBefore = True, noSkipFromDeleteInPage1 = True, newRowAppeared = True\<rparr>, t')"
    using assms by (intro keyset_scenario)
qed

text \<open>A feed of one event a second.\<close>

definition feed :: "nat \<Rightarrow> EventTable" where
  "feed n = \<lparr>ev_rows = map (\<lambda>i. event (i + 1) (int i * 1000000)) [0..<n], next_id = n + 1\<rparr>"

lemma feed_ok: "table_ok id (feed n)"
proof -
  have "(1000::int) dvd i * 1000000" for i by (rule dvdI [of _ _ "i * 1000"]) simp
  then show ?thesis by (simp add: table_ok_def feed_def event_def comp_def distinct_map inj_on_def)
qed

lemma feed_order: "in_order (ev_rows (feed n)) = ev_rows (feed n)"
proof (rule in_order_unique [OF table_ok_faithful [OF feed_ok]])
  show "sorted_wrt (<) (map ev_key (ev_rows (feed n)))"
    by (simp add: feed_def event_def ev_key_def comp_def sorted_wrt_map sorted_wrt_iff_nth_less)
qed simp

lemma pagination_scenarios_witness:
  "\<exists>t'. offset_correctness_main id [] (feed 121) = Inr (\<lparr>duplicateDetected = True, skipDetected = True\<rparr>, t')"
proof -
  have fresh: "[] \<notin> ev_public_id ` set (ev_rows (feed 121))"
    by (auto simp: feed_def event_def dest: sym [of "[]"])
  have at: "ev_rows (feed 121) ! k = event (k + 1) (int k * 1000000)" if "k < 121" for k
    using that by (simp add: feed_def)
  have "last (take PAGE_SIZE (drop PAGE_SIZE (ev_rows (feed 121)))) = ev_rows (feed 121) ! 39"
    by (simp add: last_conv_nth PAGE_SIZE_def feed_def)
  then have "created_at (in_order (ev_rows (feed 121)) ! (PAGE_SIZE - 1))
      < created_at (last (take PAGE_SIZE (drop PAGE_SIZE (in_order (ev_rows (feed 121))))))"
    using at [of 19] at [of 39] by (simp add: feed_order PAGE_SIZE_def event_def)
  from pagination_scenarios [OF feed_ok _ fresh fresh this] show ?thesis
    by (simp add: PAGE_OFFSET_def PAGE_SIZE_def feed_def)
qed

end
