(* ===== verification/Backfill.thy ===== *)
theory Backfill
  imports Sql_Table
begin

text \<open>
  The backfill of Lab 30, \<open>labs/30-*/src/scenarios\<close>: one giant update (\<open>naive-giant-update.ts\<close>), the
  batched and resumable one (\<open>batched-resumable-backfill.ts\<close>), its interruption and resumption
  (\<open>interrupted-resume-backfill.ts\<close>) and the latency summary (\<open>write-prober.ts\<close>). A batch is one
  statement and so one transaction: a killed process leaves the batches it committed and nothing else.
  The concurrent probe writes \<open>status = status\<close> and changes no value.
\<close>

section \<open>The statements\<close>

record order =
  order_id :: nat
  amountCents :: int
  loyaltyPoints :: "int option"

definition pending :: "order \<Rightarrow> bool" where
  "pending r \<longleftrightarrow> loyaltyPoints r = None"

definition with_points :: "order \<Rightarrow> order" where
  "with_points r = r\<lparr>loyaltyPoints := Some (amountCents r div 100)\<rparr>"

text \<open>\<open>SELECT id ... WHERE loyalty_points IS NULL ORDER BY id LIMIT n\<close>, and the update of those rows.\<close>

definition batch_ids :: "nat \<Rightarrow> order list \<Rightarrow> nat list" where
  "batch_ids batchSize rows = take batchSize (sort (map order_id (filter pending rows)))"

definition run_batch :: "nat \<Rightarrow> order list \<Rightarrow> nat \<times> order list" where
  "run_batch batchSize rows =
     (let ids = batch_ids batchSize rows
      in (row_count (\<lambda>r. order_id r \<in> set ids) rows, update_where (\<lambda>r. order_id r \<in> set ids) with_points rows))"

definition runNaiveGiantUpdate :: "order list \<Rightarrow> nat \<times> order list" where
  "runNaiveGiantUpdate rows = (row_count pending rows, update_where pending with_points rows)"

section \<open>The loop\<close>

record BackfillOptions =
  batchSize :: nat
  maxBatches :: "nat option"

record BackfillResult =
  batches :: nat
  rowsBackfilled :: nat

text \<open>
  The result, or the error that stands for the process dying, with the table it leaves. It does not
  return while the update finds rows for ever.
\<close>

partial_function (option) backfill_loop ::
  "BackfillOptions \<Rightarrow> nat \<Rightarrow> nat \<Rightarrow> order list \<Rightarrow> ((string + BackfillResult) \<times> order list) option" where
  "backfill_loop opts n done rows =
     (let (rowCount, rows') = run_batch (batchSize opts) rows
      in if rowCount = 0 then Some (Inr \<lparr>batches = n, rowsBackfilled = done\<rparr>, rows')
         else if (case maxBatches opts of None \<Rightarrow> False | Some m \<Rightarrow> m \<le> n + 1) then
           Some (Inl (''simulated crash after '' @ nat_str (n + 1) @ '' committed batches (maxBatches=''
             @ nat_str (the (maxBatches opts)) @ '')''), rows')
         else backfill_loop opts (n + 1) (done + rowCount) rows')"

definition backfillLoyaltyPoints :: "BackfillOptions \<Rightarrow> order list \<Rightarrow> ((string + BackfillResult) \<times> order list) option" where
  "backfillLoyaltyPoints opts rows = backfill_loop opts 0 0 rows"

section \<open>Interruption\<close>

record Counts =
  total :: nat
  backfilled :: nat
  count_pending :: nat

definition readCounts :: "order list \<Rightarrow> Counts" where
  "readCounts rows =
     (let b = row_count (\<lambda>r. loyaltyPoints r \<noteq> None) rows
      in \<lparr>total = length rows, backfilled = b, count_pending = length rows - b\<rparr>)"

text \<open>The child process commits \<open>k\<close> batches of 200 before the signal reaches it.\<close>

definition killed_child :: "nat \<Rightarrow> order list \<Rightarrow> order list" where
  "killed_child k rows = ((\<lambda>rows. snd (run_batch 200 rows)) ^^ k) rows"

definition interrupted_resume_main :: "nat \<Rightarrow> order list \<Rightarrow> (string + bool \<times> order list) option" where
  "interrupted_resume_main k rows =
     (let before = readCounts rows in
      if count_pending before = 0 then
        Some (Inl ''orders table has 0 pending rows - reseed first (`pnpm seed`) so this demo has real work to interrupt'')
      else
        let rows1 = killed_child k rows;
            afterKill = readCounts rows1
        in (case backfillLoyaltyPoints \<lparr>batchSize = 500, maxBatches = None\<rparr> rows1 of
              None \<Rightarrow> None
            | Some (Inl e, rows2) \<Rightarrow> Some (Inl e)
            | Some (Inr resumeResult, rows2) \<Rightarrow>
                let after = readCounts rows2;
                    firstRunRows = backfilled afterKill - backfilled before
                in Some (Inr (count_pending after = 0
                              \<and> firstRunRows + rowsBackfilled resumeResult = total after - backfilled before, rows2))))"

section \<open>Batches\<close>

definition keyed :: "order list \<Rightarrow> bool" where
  "keyed rows \<longleftrightarrow> distinct (map order_id rows)"

definition npending :: "order list \<Rightarrow> nat" where
  "npending rows = row_count pending rows"

lemma batch_ids_pending: "i \<in> set (batch_ids n rows) \<Longrightarrow> \<exists>r \<in> set rows. order_id r = i \<and> pending r"
  by (auto simp: batch_ids_def dest!: in_set_takeD)

lemma batch_row_pending: "keyed rows \<Longrightarrow> r \<in> set rows \<Longrightarrow> order_id r \<in> set (batch_ids n rows) \<Longrightarrow> pending r"
  by (metis batch_ids_pending distinct_map_unique keyed_def)

lemma batch_ids_count:
  assumes "keyed rows"
  shows "distinct (batch_ids n rows)" and "length (batch_ids n rows) = min n (npending rows)"
proof -
  have "distinct (map order_id (filter pending rows))" using assms unfolding keyed_def by (rule distinct_map_filter)
  then show "distinct (batch_ids n rows)" by (simp add: batch_ids_def)
  show "length (batch_ids n rows) = min n (npending rows)" by (simp add: batch_ids_def npending_def row_count_def)
qed

lemma count_by_ids:
  assumes "distinct (map f rows)" and "distinct ids" and "set ids \<subseteq> f ` set rows"
  shows "length (filter (\<lambda>r. f r \<in> set ids) rows) = length ids"
proof -
  have "distinct (map f (filter (\<lambda>r. f r \<in> set ids) rows))" using assms(1) by (rule distinct_map_filter)
  then have "length (filter (\<lambda>r. f r \<in> set ids) rows) = card (set (map f (filter (\<lambda>r. f r \<in> set ids) rows)))"
    by (metis distinct_card length_map)
  also have "set (map f (filter (\<lambda>r. f r \<in> set ids) rows)) = set ids" using assms(3) by auto
  also have "card (set ids) = length ids" using assms(2) by (rule distinct_card)
  finally show ?thesis .
qed

lemma run_batch_count: "keyed rows \<Longrightarrow> fst (run_batch n rows) = min n (npending rows)"
  using count_by_ids [of order_id rows "batch_ids n rows"] batch_ids_count [of rows n] batch_ids_pending [of _ n rows]
  by (auto simp: run_batch_def row_count_def keyed_def Let_def)

lemma run_batch_keyed: "keyed rows \<Longrightarrow> keyed (snd (run_batch n rows))"
  by (simp add: run_batch_def keyed_def Let_def map_update_where with_points_def)

text \<open>Finishing with the giant update gives the same table before and after a batch.\<close>

lemma naive_after_batch:
  assumes "keyed rows"
  shows "snd (runNaiveGiantUpdate (snd (run_batch n rows))) = snd (runNaiveGiantUpdate rows)"
  using batch_row_pending [OF assms]
  by (auto simp: runNaiveGiantUpdate_def run_batch_def update_where_def Let_def pending_def with_points_def)

lemma count_split:
  "\<forall>r \<in> set rows. Q r \<longrightarrow> P r \<Longrightarrow>
   length (filter P rows) = length (filter (\<lambda>r. P r \<and> \<not> Q r) rows) + length (filter Q rows)"
  by (induction rows) auto

lemma pending_after_update:
  "length (filter pending (map (\<lambda>r. if B r then with_points r else r) rows)) = length (filter (\<lambda>r. pending r \<and> \<not> B r) rows)"
  by (induction rows) (auto simp: pending_def with_points_def)

lemma npending_after:
  assumes "keyed rows"
  shows "npending (snd (run_batch n rows)) + min n (npending rows) = npending rows"
proof -
  let ?B = "\<lambda>r. order_id r \<in> set (batch_ids n rows)"
  have "length (filter pending rows) = length (filter (\<lambda>r. pending r \<and> \<not> ?B r) rows) + length (filter ?B rows)"
    using batch_row_pending [OF assms] by (intro count_split) blast
  moreover have "npending (snd (run_batch n rows)) = length (filter (\<lambda>r. pending r \<and> \<not> ?B r) rows)"
    unfolding npending_def row_count_def run_batch_def Let_def update_where_def snd_conv by (rule pending_after_update)
  moreover have "length (filter ?B rows) = min n (npending rows)"
    using run_batch_count [OF assms, of n] by (simp add: run_batch_def row_count_def Let_def)
  ultimately show ?thesis by (simp add: npending_def row_count_def)
qed

section \<open>The whole backfill\<close>

lemma nothing_pending: "npending rows = 0 \<Longrightarrow> snd (runNaiveGiantUpdate rows) = rows"
  by (auto simp: npending_def row_count_def runNaiveGiantUpdate_def filter_empty_conv intro: update_where_none)

lemma backfill_runs:
  assumes "0 < batchSize opts" and "maxBatches opts = None"
  shows "keyed rows \<Longrightarrow> backfill_loop opts n done rows
    = Some (Inr \<lparr>batches = n + (npending rows + batchSize opts - 1) div batchSize opts,
                 rowsBackfilled = done + npending rows\<rparr>, snd (runNaiveGiantUpdate rows))"
proof (induction "npending rows" arbitrary: n "done" rows rule: less_induct)
  case less
  obtain c rows' where b: "run_batch (batchSize opts) rows = (c, rows')" by fastforce
  then have c: "c = min (batchSize opts) (npending rows)" and k: "keyed rows'"
    and naive: "snd (runNaiveGiantUpdate rows') = snd (runNaiveGiantUpdate rows)"
    and left: "npending rows' + c = npending rows"
    using run_batch_count [OF less.prems] run_batch_keyed [OF less.prems] naive_after_batch [OF less.prems]
      npending_after [OF less.prems] by (metis fst_conv snd_conv)+
  show ?case
  proof (cases "npending rows = 0")
    case True
    then have "rows' = rows" using naive nothing_pending left by (metis add_is_0)
    then show ?thesis
      using b c True assms nothing_pending [OF True] by (subst backfill_loop.simps) (simp add: Let_def)
  next
    case False
    then have "c \<noteq> 0" "npending rows' < npending rows" using c left assms(1) by auto
    from less.hyps [OF this(2) k, of "n + 1" "done + c"]
    have "backfill_loop opts n done rows = Some (Inr \<lparr>batches = n + 1 + (npending rows' + batchSize opts - 1) div batchSize opts,
        rowsBackfilled = done + c + npending rows'\<rparr>, snd (runNaiveGiantUpdate rows))"
      using b \<open>c \<noteq> 0\<close> assms(2) naive by (subst backfill_loop.simps) (simp add: Let_def)
    moreover have "1 + (npending rows' + batchSize opts - 1) div batchSize opts = (npending rows + batchSize opts - 1) div batchSize opts"
    proof (cases "npending rows \<le> batchSize opts")
      case True
      then have "npending rows' = 0" using c left by simp
      moreover have "(npending rows + batchSize opts - 1) div batchSize opts = 1"
        using True False assms(1) by (simp add: div_nat_eqI)
      ultimately show ?thesis using assms(1) by simp
    next
      case gt: False
      then have "npending rows = npending rows' + batchSize opts" using c left by simp
      then have "npending rows + batchSize opts - 1 = (npending rows' + batchSize opts - 1) + batchSize opts"
        using assms(1) by simp
      moreover have "\<dots> div batchSize opts = (npending rows' + batchSize opts - 1) div batchSize opts + 1"
        using assms(1) by (intro div_add_self2) simp
      ultimately show ?thesis by simp
    qed
    ultimately show ?thesis using left by (simp add: add.assoc)
  qed
qed

lemma crashed_loop:
  assumes "0 < batchSize opts" and "maxBatches opts = Some m"
  shows "keyed rows \<Longrightarrow> \<exists>res rows'. backfill_loop opts n done rows = Some (res, rows') \<and> keyed rows'
    \<and> snd (runNaiveGiantUpdate rows') = snd (runNaiveGiantUpdate rows)
    \<and> (\<forall>r. res = Inr r \<longrightarrow> npending rows' = 0)"
proof (induction "npending rows" arbitrary: n "done" rows rule: less_induct)
  case less
  obtain c rows' where b: "run_batch (batchSize opts) rows = (c, rows')" by fastforce
  then have c: "c = min (batchSize opts) (npending rows)" and k: "keyed rows'"
    and naive: "snd (runNaiveGiantUpdate rows') = snd (runNaiveGiantUpdate rows)"
    and left: "npending rows' + c = npending rows"
    using run_batch_count [OF less.prems] run_batch_keyed [OF less.prems] naive_after_batch [OF less.prems]
      npending_after [OF less.prems] by (metis fst_conv snd_conv)+
  show ?case
  proof (cases "c = 0 \<or> m \<le> n + 1")
    case True
    then show ?thesis
      using b c k naive left assms by (subst backfill_loop.simps) (auto simp: Let_def)
  next
    case False
    then have "npending rows' < npending rows" using left by simp
    from less.hyps [OF this k, of "n + 1" "done + c"] show ?thesis
      using b False assms(2) naive by (subst backfill_loop.simps) (simp add: Let_def)
  qed
qed

text \<open>Runs that may die after some of their batches, one after the other.\<close>

fun crashed_runs :: "BackfillOptions list \<Rightarrow> order list \<Rightarrow> order list option" where
  "crashed_runs [] rows = Some rows"
| "crashed_runs (opts # runs) rows =
     (case backfillLoyaltyPoints opts rows of None \<Rightarrow> None | Some (_, rows') \<Rightarrow> crashed_runs runs rows')"

lemma crashed_runs_ok:
  "\<forall>opts \<in> set runs. 0 < batchSize opts \<and> maxBatches opts \<noteq> None \<Longrightarrow> keyed rows \<Longrightarrow>
   \<exists>rows'. crashed_runs runs rows = Some rows' \<and> keyed rows' \<and> snd (runNaiveGiantUpdate rows') = snd (runNaiveGiantUpdate rows)"
proof (induction runs arbitrary: rows)
  case (Cons opts runs)
  obtain m where m: "0 < batchSize opts" "maxBatches opts = Some m" using Cons.prems(1) by auto
  obtain res rows' where r: "backfillLoyaltyPoints opts rows = Some (res, rows')" "keyed rows'"
    "snd (runNaiveGiantUpdate rows') = snd (runNaiveGiantUpdate rows)"
    using crashed_loop [OF m Cons.prems(2), of 0 0] by (auto simp: backfillLoyaltyPoints_def)
  then show ?case using Cons.IH [OF _ r(2)] Cons.prems(1) by simp
qed simp

lemma readCounts_pending [simp]: "count_pending (readCounts rows) = npending rows"
proof -
  have "length rows = length (filter pending rows) + length (filter (\<lambda>r. \<not> pending r) rows)"
    by (induction rows) auto
  then show ?thesis by (simp add: readCounts_def npending_def row_count_def pending_def Let_def)
qed

lemma readCounts_backfilled: "backfilled (readCounts rows) + npending rows = length rows" "total (readCounts rows) = length rows"
proof -
  have "length rows = length (filter pending rows) + length (filter (\<lambda>r. \<not> pending r) rows)"
    by (induction rows) auto
  then show "backfilled (readCounts rows) + npending rows = length rows" "total (readCounts rows) = length rows"
    by (simp_all add: readCounts_def npending_def row_count_def pending_def Let_def)
qed

lemma run_batch_length [simp]: "length (snd (run_batch n rows)) = length rows"
  by (simp add: run_batch_def Let_def)

lemma killed_child_ok:
  assumes "keyed rows"
  shows "keyed (killed_child k rows) \<and> length (killed_child k rows) = length rows
    \<and> npending (killed_child k rows) \<le> npending rows"
proof (induction k)
  case (Suc k)
  then have "npending (snd (run_batch 200 (killed_child k rows))) \<le> npending (killed_child k rows)"
    using npending_after [of "killed_child k rows" 200] by linarith
  then show ?case using Suc run_batch_keyed by (simp add: killed_child_def)
qed (use assms in \<open>simp add: killed_child_def\<close>)

lemma all_filled: "npending (snd (runNaiveGiantUpdate rows)) = 0" "length (snd (runNaiveGiantUpdate rows)) = length rows"
  by (auto simp: npending_def row_count_def runNaiveGiantUpdate_def update_where_def pending_def with_points_def
      filter_empty_conv)

lemma interruption_invariant:
  assumes "keyed rows" and "npending rows \<noteq> 0"
  shows "\<exists>rows'. interrupted_resume_main k rows = Some (Inr (True, rows'))"
proof -
  let ?r1 = "killed_child k rows"
  have k1: "keyed ?r1" "length ?r1 = length rows" "npending ?r1 \<le> npending rows" using killed_child_ok [OF assms(1)] by auto
  have run: "backfillLoyaltyPoints \<lparr>batchSize = 500, maxBatches = None\<rparr> ?r1
      = Some (Inr \<lparr>batches = (npending ?r1 + 500 - 1) div 500, rowsBackfilled = npending ?r1\<rparr>, snd (runNaiveGiantUpdate ?r1))"
    using backfill_runs [of "\<lparr>batchSize = 500, maxBatches = None\<rparr>" ?r1 0 0] k1(1) by (simp add: backfillLoyaltyPoints_def)
  have "backfilled (readCounts ?r1) - backfilled (readCounts rows) + npending ?r1 = length rows - backfilled (readCounts rows)"
    using readCounts_backfilled(1) [of ?r1] readCounts_backfilled(1) [of rows] k1(2,3) by linarith
  then show ?thesis
    using run assms(2) all_filled [of ?r1] readCounts_backfilled(2) k1(2)
    by (simp add: interrupted_resume_main_def Let_def)
qed

text \<open>
  C8: the backfill is resumable. However many runs die after however many batches of whatever size, a
  last run to the end returns, with the batches and rows that were left to it, and leaves exactly the
  table that the one giant update of the original table would leave: no row twice, none skipped, and
  the interruption scenario finds its invariant wherever the signal lands.
\<close>

theorem backfill_resumable:
  assumes "distinct (map order_id rows)" and "\<forall>opts \<in> set runs. 0 < batchSize opts \<and> maxBatches opts \<noteq> None"
    and "0 < n" and "\<exists>r \<in> set rows. loyaltyPoints r = None"
  shows "(\<exists>rows'. crashed_runs runs rows = Some rows'
      \<and> backfillLoyaltyPoints \<lparr>batchSize = n, maxBatches = None\<rparr> rows'
        = Some (Inr \<lparr>batches = (count_pending (readCounts rows') + n - 1) div n,
                     rowsBackfilled = count_pending (readCounts rows')\<rparr>,
                snd (runNaiveGiantUpdate rows)))
    \<and> (\<exists>rows'. interrupted_resume_main k rows = Some (Inr (True, rows')))"
proof
  have k: "keyed rows" using assms(1) by (simp add: keyed_def)
  obtain rows' where r: "crashed_runs runs rows = Some rows'" "keyed rows'"
    "snd (runNaiveGiantUpdate rows') = snd (runNaiveGiantUpdate rows)" using crashed_runs_ok [OF assms(2) k] by blast
  then show "\<exists>rows'. crashed_runs runs rows = Some rows'
      \<and> backfillLoyaltyPoints \<lparr>batchSize = n, maxBatches = None\<rparr> rows'
        = Some (Inr \<lparr>batches = (count_pending (readCounts rows') + n - 1) div n,
                     rowsBackfilled = count_pending (readCounts rows')\<rparr>,
                snd (runNaiveGiantUpdate rows))"
    using backfill_runs [of "\<lparr>batchSize = n, maxBatches = None\<rparr>" rows' 0 0] assms(3)
    by (simp add: backfillLoyaltyPoints_def)
  have "npending rows \<noteq> 0" using assms(4) by (auto simp: npending_def row_count_def pending_def filter_empty_conv)
  then show "\<exists>rows'. interrupted_resume_main k rows = Some (Inr (True, rows'))" by (rule interruption_invariant [OF k])
qed

lemma backfill_resumable_witness:
  "let rows = map (\<lambda>i. \<lparr>order_id = i, amountCents = 250 * int i, loyaltyPoints = None\<rparr>) [0..<9]
   in \<exists>rows'. interrupted_resume_main 3 rows = Some (Inr (True, rows'))"
proof -
  define rows where "rows = map (\<lambda>i. \<lparr>order_id = i, amountCents = 250 * int i, loyaltyPoints = None\<rparr>) [0..<9]"
  have "distinct (map order_id rows)" by (simp add: rows_def comp_def)
  moreover have "\<exists>r \<in> set rows. loyaltyPoints r = None"
    by (rule bexI [of _ "\<lparr>order_id = 0, amountCents = 0, loyaltyPoints = None\<rparr>"]) (simp_all add: rows_def)
  ultimately show ?thesis
    using backfill_resumable [of rows "[\<lparr>batchSize = 2, maxBatches = Some 2\<rparr>]" 5 3, THEN conjunct2]
    unfolding rows_def [symmetric] Let_def by simp
qed

end
