(* ===== verification/Lock_Order.thy ===== *)
theory Lock_Order
  imports Prelude
begin

text \<open>
  Transfers under row locks, Lab 32, \<open>labs/32-*/src/lib\<close>: the lock-order strategies and the transfer leg
  with its attempts (\<open>transfer.ts\<close>), the two-party rendezvous (\<open>sync.ts\<close>) and what PostgreSQL documents
  of its part: a \<open>FOR UPDATE\<close> or an \<open>UPDATE\<close> waits for a row another open transaction has locked, locks
  are released and writes become visible at the commit, and a transaction that waits in a cycle may be
  aborted with SQLSTATE 40P01. Any number of legs run; an event lets one of them go on or be the victim.
\<close>

section \<open>Plans\<close>

datatype LockOrderStrategy = NaiveLockOrder | ConsistentLockOrder

record LegPlan =
  fromAccountId :: nat
  toAccountId :: nat
  amountCents :: int
  firstLockId :: nat
  secondLockId :: nat

definition planLeg :: "LockOrderStrategy \<Rightarrow> nat \<Rightarrow> nat \<Rightarrow> int \<Rightarrow> LegPlan" where
  "planLeg strategy a b amount =
     (case strategy of
        NaiveLockOrder \<Rightarrow>
          \<lparr>fromAccountId = a, toAccountId = b, amountCents = amount, firstLockId = a, secondLockId = b\<rparr>
      | ConsistentLockOrder \<Rightarrow>
          \<lparr>fromAccountId = a, toAccountId = b, amountCents = amount, firstLockId = min a b, secondLockId = max a b\<rparr>)"

datatype leg_status = Committed | DeadlockAborted | LegFailed

record LegOutcome =
  leg_status :: leg_status
  sqlstate :: "string option"
  attempts :: nat

definition DEADLOCK_DETECTED_SQLSTATE :: string where
  "DEADLOCK_DETECTED_SQLSTATE = ''40P01''"

definition toOutcome :: "nat \<Rightarrow> string \<Rightarrow> LegOutcome" where
  "toOutcome n code =
     \<lparr>leg_status = (if code = DEADLOCK_DETECTED_SQLSTATE then DeadlockAborted else LegFailed),
      sqlstate = Some code, attempts = n\<rparr>"

section \<open>The bank\<close>

text \<open>Where a leg is: before its next command, at the rendezvous, backing off, or done.\<close>

datatype leg_pc = AtBegin | AtFirst | AtBarrier | AtSecond | AtDebit | AtCredit | AtCommit | AtBackoff | AtEnd LegOutcome

record leg =
  plan :: LegPlan
  pc :: leg_pc
  attempt :: nat
  maxAttempts :: nat
  peer :: "nat option"
  own_writes :: "nat \<rightharpoonup> int"

record bank =
  balances :: "nat \<rightharpoonup> int"
  row_lock :: "nat \<rightharpoonup> nat"
  legs :: "leg list"
  arrived :: "nat set"

text \<open>The row the leg's next command locks.\<close>

definition wants :: "leg \<Rightarrow> nat option" where
  "wants g =
     (case pc g of
        AtFirst \<Rightarrow> Some (firstLockId (plan g))
      | AtSecond \<Rightarrow> Some (secondLockId (plan g))
      | AtDebit \<Rightarrow> Some (fromAccountId (plan g))
      | AtCredit \<Rightarrow> Some (toAccountId (plan g))
      | _ \<Rightarrow> None)"

definition blocker :: "bank \<Rightarrow> nat \<Rightarrow> nat option" where
  "blocker w l =
     (case wants (legs w ! l) of
        None \<Rightarrow> None
      | Some r \<Rightarrow> (case row_lock w r of Some m \<Rightarrow> if m = l then None else Some m | None \<Rightarrow> None))"

text \<open>A row that is not there is neither locked nor waited for.\<close>

definition lock_row :: "nat \<Rightarrow> nat \<Rightarrow> bank \<Rightarrow> bank" where
  "lock_row l r w = (if balances w r = None then w else w\<lparr>row_lock := (row_lock w)(r \<mapsto> l)\<rparr>)"

definition release_all :: "nat \<Rightarrow> bank \<Rightarrow> bank" where
  "release_all l w = w\<lparr>row_lock := \<lambda>r. if row_lock w r = Some l then None else row_lock w r\<rparr>"

definition set_leg :: "nat \<Rightarrow> leg \<Rightarrow> bank \<Rightarrow> bank" where
  "set_leg l g w = w\<lparr>legs := (legs w)[l := g]\<rparr>"

text \<open>The rollback and what the retry loop makes of the error.\<close>

definition fail_leg :: "nat \<Rightarrow> string \<Rightarrow> bank \<Rightarrow> bank" where
  "fail_leg l code w =
     (let g = legs w ! l;
          retry = (code = DEADLOCK_DETECTED_SQLSTATE \<and> attempt g < maxAttempts g)
      in set_leg l (g\<lparr>pc := if retry then AtBackoff else AtEnd (toOutcome (attempt g) code), own_writes := Map.empty\<rparr>)
           (release_all l w))"

text \<open>An \<open>UPDATE\<close> of a balance: a 32-bit integer column with a check that it is not negative.\<close>

definition update_balance :: "nat \<Rightarrow> nat \<Rightarrow> int \<Rightarrow> leg_pc \<Rightarrow> bank \<Rightarrow> bank" where
  "update_balance l r delta next w =
     (let g = legs w ! l in
      case balances w r of
        None \<Rightarrow> set_leg l (g\<lparr>pc := next\<rparr>) w
      | Some committed \<Rightarrow>
          let new = (case own_writes g r of Some b \<Rightarrow> b | None \<Rightarrow> committed) + delta in
          if 2 ^ 31 \<le> new \<or> new < - (2 ^ 31) then fail_leg l ''22003'' w
          else if new < 0 then fail_leg l ''23514'' w
          else set_leg l (g\<lparr>pc := next, own_writes := (own_writes g)(r \<mapsto> new)\<rparr>) (lock_row l r w))"

text \<open>The rendezvous: a leg tells the other that it has arrived and goes on when the other has.\<close>

definition arrive :: "nat \<Rightarrow> bank \<Rightarrow> bank" where
  "arrive l w = w\<lparr>arrived := insert l (arrived w)\<rparr>"

text \<open>The next command of a leg; a leg whose row another transaction holds stays where it is.\<close>

definition run_leg :: "nat \<Rightarrow> bank \<Rightarrow> bank" where
  "run_leg l w =
     (let g = legs w ! l in
      if blocker w l \<noteq> None then w
      else case pc g of
        AtBegin \<Rightarrow> set_leg l (g\<lparr>pc := AtFirst, own_writes := Map.empty\<rparr>) w
      | AtFirst \<Rightarrow>
          if attempt g = 1 \<and> peer g \<noteq> None
          then arrive l (set_leg l (g\<lparr>pc := AtBarrier\<rparr>) (lock_row l (firstLockId (plan g)) w))
          else set_leg l (g\<lparr>pc := AtSecond\<rparr>) (lock_row l (firstLockId (plan g)) w)
      | AtBarrier \<Rightarrow> if the (peer g) \<in> arrived w then set_leg l (g\<lparr>pc := AtSecond\<rparr>) w else w
      | AtSecond \<Rightarrow> set_leg l (g\<lparr>pc := AtDebit\<rparr>) (lock_row l (secondLockId (plan g)) w)
      | AtDebit \<Rightarrow> update_balance l (fromAccountId (plan g)) (- amountCents (plan g)) AtCredit w
      | AtCredit \<Rightarrow> update_balance l (toAccountId (plan g)) (amountCents (plan g)) AtCommit w
      | AtCommit \<Rightarrow>
          set_leg l (g\<lparr>pc := AtEnd \<lparr>leg_status = Committed, sqlstate = None, attempts = attempt g\<rparr>, own_writes := Map.empty\<rparr>)
            (release_all l (w\<lparr>balances := balances w ++ own_writes g\<rparr>))
      | AtBackoff \<Rightarrow> set_leg l (g\<lparr>pc := AtBegin, attempt := attempt g + 1\<rparr>) w
      | AtEnd r \<Rightarrow> w)"

declare arrive_def [simp]

text \<open>The legs a leg waits for, directly and through others, and the deadlock detector.\<close>

fun chain :: "bank \<Rightarrow> nat \<Rightarrow> nat \<Rightarrow> nat list" where
  "chain w 0 l = []"
| "chain w (Suc n) l = (case blocker w l of None \<Rightarrow> [] | Some m \<Rightarrow> m # chain w n m)"

definition on_cycle :: "bank \<Rightarrow> nat \<Rightarrow> bool" where
  "on_cycle w l \<longleftrightarrow> l \<in> set (chain w (length (legs w)) l)"

datatype bank_event = Run nat | Victim nat

fun bank_step :: "bank_event \<Rightarrow> bank \<Rightarrow> bank" where
  "bank_step (Run l) w = (if l < length (legs w) then run_leg l w else w)"
| "bank_step (Victim l) w =
     (if l < length (legs w) \<and> on_cycle w l then fail_leg l DEADLOCK_DETECTED_SQLSTATE w else w)"

definition bank_run :: "bank_event list \<Rightarrow> bank \<Rightarrow> bank" where
  "bank_run es w = foldl (\<lambda>w e. bank_step e w) w es"

definition new_leg :: "LegPlan \<Rightarrow> nat \<Rightarrow> nat option \<Rightarrow> leg" where
  "new_leg p n q = \<lparr>plan = p, pc = AtBegin, attempt = 1, maxAttempts = n, peer = q, own_writes = Map.empty\<rparr>"

definition new_bank :: "(nat \<rightharpoonup> int) \<Rightarrow> leg list \<Rightarrow> bank" where
  "new_bank b gs = \<lparr>balances = b, row_lock = Map.empty, legs = gs, arrived = {}\<rparr>"

section \<open>What a leg holds and has written\<close>

fun held_at :: "leg_pc \<Rightarrow> LegPlan \<Rightarrow> nat set" where
  "held_at AtBarrier p = {firstLockId p}"
| "held_at AtSecond p = {firstLockId p}"
| "held_at AtDebit p = {firstLockId p, secondLockId p}"
| "held_at AtCredit p = {firstLockId p, secondLockId p}"
| "held_at AtCommit p = {firstLockId p, secondLockId p}"
| "held_at _ p = {}"

definition held :: "leg \<Rightarrow> nat set" where
  "held g = held_at (pc g) (plan g)"

definition debited :: "(nat \<rightharpoonup> int) \<Rightarrow> LegPlan \<Rightarrow> nat \<rightharpoonup> int" where
  "debited b p = (case b (fromAccountId p) of None \<Rightarrow> Map.empty | Some x \<Rightarrow> [fromAccountId p \<mapsto> x - amountCents p])"

definition transferred :: "(nat \<rightharpoonup> int) \<Rightarrow> LegPlan \<Rightarrow> nat \<rightharpoonup> int" where
  "transferred b p =
     (case b (toAccountId p) of
        None \<Rightarrow> debited b p
      | Some y \<Rightarrow> (debited b p)(toAccountId p \<mapsto>
          (case debited b p (toAccountId p) of Some z \<Rightarrow> z | None \<Rightarrow> y) + amountCents p))"

fun expected_at :: "(nat \<rightharpoonup> int) \<Rightarrow> leg_pc \<Rightarrow> LegPlan \<Rightarrow> nat \<rightharpoonup> int" where
  "expected_at b AtCredit p = debited b p"
| "expected_at b AtCommit p = transferred b p"
| "expected_at b _ p = Map.empty"

definition expected_writes :: "(nat \<rightharpoonup> int) \<Rightarrow> leg \<Rightarrow> nat \<rightharpoonup> int" where
  "expected_writes b g = expected_at b (pc g) (plan g)"

definition plan_ok :: "LegPlan \<Rightarrow> bool" where
  "plan_ok p \<longleftrightarrow> {firstLockId p, secondLockId p} = {fromAccountId p, toAccountId p}"

definition leg_ok :: "bank \<Rightarrow> nat \<Rightarrow> bool" where
  "leg_ok w l \<longleftrightarrow> plan_ok (plan (legs w ! l))
     \<and> (\<forall>r. balances w r \<noteq> None \<longrightarrow> (r \<in> held (legs w ! l) \<longleftrightarrow> row_lock w r = Some l))
     \<and> own_writes (legs w ! l) = expected_writes (balances w) (legs w ! l)"

definition bank_ok :: "bank \<Rightarrow> bool" where
  "bank_ok w \<longleftrightarrow> (\<forall>l < length (legs w). leg_ok w l)
     \<and> (\<forall>r l. row_lock w r = Some l \<longrightarrow> l < length (legs w) \<and> balances w r \<noteq> None)"

lemma plan_ok_planLeg: "plan_ok (planLeg strategy a b amount)"
  by (auto simp: plan_ok_def planLeg_def min_def max_def split: LockOrderStrategy.splits)

lemma bank_okD:
  assumes "bank_ok w"
  shows "l < length (legs w) \<Longrightarrow> leg_ok w l"
    and "row_lock w r = Some l \<Longrightarrow> l < length (legs w) \<and> balances w r \<noteq> None"
  using assms unfolding bank_ok_def by blast+

lemma writes_frame:
  assumes "b' (fromAccountId p) = b (fromAccountId p)" and "b' (toAccountId p) = b (toAccountId p)"
  shows "debited b' p = debited b p" and "transferred b' p = transferred b p"
proof -
  show d: "debited b' p = debited b p" using assms by (simp add: debited_def)
  show "transferred b' p = transferred b p" unfolding transferred_def d assms(2) ..
qed

lemma expected_frame:
  assumes "\<And>r. r \<in> held g \<Longrightarrow> b' r = b r" and "plan_ok (plan g)"
  shows "expected_writes b' g = expected_writes b g"
proof (cases "pc g = AtCredit \<or> pc g = AtCommit")
  case True
  then have "held g = {firstLockId (plan g), secondLockId (plan g)}" by (auto simp: held_def)
  also have "\<dots> = {fromAccountId (plan g), toAccountId (plan g)}" using assms(2) by (simp add: plan_ok_def)
  finally have "b' (fromAccountId (plan g)) = b (fromAccountId (plan g))" "b' (toAccountId (plan g)) = b (toAccountId (plan g))"
    using assms(1) by simp_all
  note writes_frame [OF this]
  then show ?thesis using True by (auto simp: expected_writes_def)
next
  case False
  then show ?thesis by (cases "pc g") (simp_all add: expected_writes_def)
qed

text \<open>A step of one leg: the others keep what they hold, and only rows it has locked change.\<close>

lemma bank_ok_step:
  assumes ok: "bank_ok w" and l: "l < length (legs w)" and gs: "legs w' = (legs w)[l := g']" and mine: "leg_ok w' l"
    and lock: "\<And>r m. m \<noteq> l \<Longrightarrow> row_lock w' r = Some m \<longleftrightarrow> row_lock w r = Some m"
    and dom: "dom (balances w') = dom (balances w)"
    and changed: "\<And>r. balances w' r \<noteq> balances w r \<Longrightarrow> row_lock w r = Some l"
    and got: "\<And>r. row_lock w' r = Some l \<Longrightarrow> balances w r \<noteq> None"
  shows "bank_ok w'"
  unfolding bank_ok_def
proof (intro conjI allI impI)
  fix m
  assume "m < length (legs w')"
  then have m: "m < length (legs w)" using gs by simp
  show "leg_ok w' m"
  proof (cases "m = l")
    case False
    then have g: "legs w' ! m = legs w ! m" using gs by simp
    have o: "leg_ok w m" using bank_okD(1) [OF ok m] .
    have some: "balances w' r \<noteq> None \<longleftrightarrow> balances w r \<noteq> None" for r
      using arg_cong [OF dom, of "\<lambda>A. r \<in> A"] by (simp only: domIff)
    have same: "balances w' r = balances w r" if "r \<in> held (legs w ! m)" for r
    proof (cases "balances w r = None")
      case True
      then show ?thesis using some by metis
    next
      case has: False
      then have "row_lock w r = Some m" using o that by (simp add: leg_ok_def)
      then show ?thesis using changed False by fastforce
    qed
    have "expected_writes (balances w') (legs w ! m) = expected_writes (balances w) (legs w ! m)"
      using same o by (intro expected_frame) (auto simp: leg_ok_def)
    then show ?thesis using o g lock [OF False] some by (simp add: leg_ok_def)
  qed (use mine in simp)
next
  fix r m
  assume a: "row_lock w' r = Some m"
  have "m < length (legs w) \<and> balances w r \<noteq> None"
    using a lock bank_okD(2) [OF ok] got l by (cases "m = l") blast+
  then show "m < length (legs w')" "balances w' r \<noteq> None"
    using gs dom by (auto simp: dom_def set_eq_iff)
qed

lemma set_leg_simps [simp]:
  "legs (set_leg l g w) = (legs w)[l := g]" "balances (set_leg l g w) = balances w" "row_lock (set_leg l g w) = row_lock w"
  "arrived (set_leg l g w) = arrived w"
  "legs (lock_row l r w) = legs w" "balances (lock_row l r w) = balances w" "arrived (lock_row l r w) = arrived w"
  "legs (release_all l w) = legs w" "balances (release_all l w) = balances w" "arrived (release_all l w) = arrived w"
  by (simp_all add: set_leg_def lock_row_def release_all_def)

lemma row_lock_simps:
  "row_lock (lock_row l r w) = (if balances w r = None then row_lock w else (row_lock w)(r \<mapsto> l))"
  "row_lock (release_all l w) = (\<lambda>r. if row_lock w r = Some l then None else row_lock w r)"
  by (simp_all add: lock_row_def release_all_def)

lemma free_row: "blocker w l = None \<Longrightarrow> wants (legs w ! l) = Some r \<Longrightarrow> row_lock w r = None \<or> row_lock w r = Some l"
  by (auto simp: blocker_def split: option.splits if_splits)

lemma fail_leg_ok:
  assumes ok: "bank_ok w" and l: "l < length (legs w)"
  shows "bank_ok (fail_leg l code w)"
proof (rule bank_ok_step [OF ok l])
  let ?w = "fail_leg l code w"
  show "leg_ok ?w l"
    using bank_okD(1) [OF ok l] l
    by (auto simp: fail_leg_def Let_def leg_ok_def row_lock_simps held_def expected_writes_def)
qed (auto simp: fail_leg_def Let_def row_lock_simps split: if_splits)

text \<open>Taking a lock and moving on.\<close>

lemma lock_leg_ok:
  assumes ok: "bank_ok w" and l: "l < length (legs w)" and free: "row_lock w r = None \<or> row_lock w r = Some l"
    and held: "held g = insert r (held (legs w ! l))" and "plan g = plan (legs w ! l)"
    and "own_writes g = expected_writes (balances w) g"
  shows "bank_ok (set_leg l g (lock_row l r w))"
proof (rule bank_ok_step [OF ok l])
  let ?w = "set_leg l g (lock_row l r w)"
  show "leg_ok ?w l" using bank_okD(1) [OF ok l] l assms(4-6) by (auto simp: leg_ok_def row_lock_simps)
  show "row_lock ?w x = Some m \<longleftrightarrow> row_lock w x = Some m" if "m \<noteq> l" for x m
    using that free by (auto simp: row_lock_simps)
  show "balances w x \<noteq> None" if "row_lock ?w x = Some l" for x
    using that bank_okD(2) [OF ok] by (auto simp: row_lock_simps split: if_splits)
qed simp_all

lemma move_leg_ok:
  assumes ok: "bank_ok w" and l: "l < length (legs w)" and "held g = held (legs w ! l)" and "plan g = plan (legs w ! l)"
    and "own_writes g = expected_writes (balances w) g"
  shows "bank_ok (set_leg l g w)"
proof (rule bank_ok_step [OF ok l])
  show "leg_ok (set_leg l g w) l" using bank_okD(1) [OF ok l] l assms(3-5) by (simp add: leg_ok_def)
  show "balances w x \<noteq> None" if "row_lock (set_leg l g w) x = Some l" for x
    using that bank_okD(2) [OF ok] by simp
qed simp_all

lemma bank_ok_arrived [simp]: "bank_ok (w\<lparr>arrived := A\<rparr>) = bank_ok w"
  by (simp add: bank_ok_def leg_ok_def)

lemma writes_dom: "dom (transferred b p) \<subseteq> dom b \<inter> {fromAccountId p, toAccountId p}" "dom (debited b p) \<subseteq> dom b \<inter> {fromAccountId p}"
  by (auto simp: transferred_def debited_def split: option.splits if_splits)

lemma commit_leg_ok:
  assumes ok: "bank_ok w" and l: "l < length (legs w)" and pc: "pc (legs w ! l) = AtCommit"
  shows "bank_ok (set_leg l ((legs w ! l)\<lparr>pc := AtEnd r, own_writes := Map.empty\<rparr>)
    (release_all l (w\<lparr>balances := balances w ++ own_writes (legs w ! l)\<rparr>)))"
proof (rule bank_ok_step [OF ok l])
  let ?g = "legs w ! l"
  let ?w = "set_leg l (?g\<lparr>pc := AtEnd r, own_writes := Map.empty\<rparr>) (release_all l (w\<lparr>balances := balances w ++ own_writes ?g\<rparr>))"
  have o: "leg_ok w l" by (rule bank_okD(1) [OF ok l])
  then have wr: "own_writes ?g = transferred (balances w) (plan ?g)" using pc by (simp add: leg_ok_def expected_writes_def)
  have h: "held ?g = {fromAccountId (plan ?g), toAccountId (plan ?g)}" using o pc by (simp add: held_def leg_ok_def plan_ok_def)
  show "leg_ok ?w l" using o l by (simp add: leg_ok_def row_lock_simps held_def expected_writes_def)
  show "dom (balances ?w) = dom (balances w)" using writes_dom(1) [of "balances w" "plan ?g"] by (auto simp: wr)
  show "row_lock w x = Some l" if "balances ?w x \<noteq> balances w x" for x
  proof -
    have "x \<in> dom (own_writes ?g)" using that by (auto simp: map_add_def split: option.splits)
    then have "balances w x \<noteq> None" "x \<in> held ?g" using writes_dom(1) [of "balances w" "plan ?g"] h by (auto simp: wr)
    then show ?thesis using o by (simp add: leg_ok_def)
  qed
qed (simp_all add: row_lock_simps split: if_splits)

lemma update_leg_ok:
  assumes ok: "bank_ok w" and l: "l < length (legs w)" and free: "row_lock w r = None \<or> row_lock w r = Some l"
    and r: "r \<in> held (legs w ! l)"
    and held: "held ((legs w ! l)\<lparr>pc := next\<rparr>) = held (legs w ! l)"
    and none: "balances w r = None \<Longrightarrow> own_writes (legs w ! l) = expected_writes (balances w) ((legs w ! l)\<lparr>pc := next\<rparr>)"
    and some: "\<And>b. balances w r = Some b \<Longrightarrow> (own_writes (legs w ! l))(r \<mapsto>
        (case own_writes (legs w ! l) r of Some x \<Rightarrow> x | None \<Rightarrow> b) + delta)
      = expected_writes (balances w) ((legs w ! l)\<lparr>pc := next\<rparr>)"
  shows "bank_ok (update_balance l r delta next w)"
proof (cases "balances w r")
  case None
  then show ?thesis
    using none held by (auto simp: update_balance_def Let_def expected_writes_def intro!: move_leg_ok [OF ok l])
next
  case (Some b)
  let ?n = "(case own_writes (legs w ! l) r of Some x \<Rightarrow> x | None \<Rightarrow> b) + delta"
  let ?g = "(legs w ! l)\<lparr>pc := next, own_writes := (own_writes (legs w ! l))(r \<mapsto> ?n)\<rparr>"
  have "bank_ok (set_leg l ?g (lock_row l r w))"
  proof (rule lock_leg_ok [OF ok l free])
    show "held ?g = insert r (held (legs w ! l))" using held r by (auto simp: held_def)
    show "own_writes ?g = expected_writes (balances w) ?g" using some [OF Some] by (simp add: expected_writes_def)
  qed simp_all
  then show ?thesis using Some fail_leg_ok [OF ok l] by (simp add: update_balance_def Let_def)
qed

lemma run_leg_ok:
  assumes ok: "bank_ok w" and l: "l < length (legs w)"
  shows "bank_ok (run_leg l w)"
proof (cases "blocker w l")
  case (Some m)
  then show ?thesis using ok by (simp add: run_leg_def)
next
  case None
  let ?g = "legs w ! l"
  have o: "leg_ok w l" by (rule bank_okD(1) [OF ok l])
  have wr: "own_writes ?g = expected_writes (balances w) ?g" and p: "plan_ok (plan ?g)" using o by (simp_all add: leg_ok_def)
  show ?thesis
  proof (cases "pc ?g")
    case AtBegin
    then show ?thesis using None
      by (auto simp: run_leg_def Let_def held_def expected_writes_def intro!: move_leg_ok [OF ok l])
  next
    case AtFirst
    then have free: "row_lock w (firstLockId (plan ?g)) = None \<or> row_lock w (firstLockId (plan ?g)) = Some l"
      using free_row [OF None] by (simp add: wants_def)
    have "bank_ok (set_leg l (?g\<lparr>pc := n\<rparr>) (lock_row l (firstLockId (plan ?g)) w))" if "n = AtBarrier \<or> n = AtSecond" for n
      using AtFirst wr that by (intro lock_leg_ok [OF ok l free]) (auto simp: held_def expected_writes_def)
    then show ?thesis using None AtFirst by (simp add: run_leg_def Let_def)
  next
    case AtBarrier
    then show ?thesis using None ok wr
      by (auto simp: run_leg_def Let_def held_def expected_writes_def intro!: move_leg_ok [OF ok l])
  next
    case AtSecond
    then have free: "row_lock w (secondLockId (plan ?g)) = None \<or> row_lock w (secondLockId (plan ?g)) = Some l"
      using free_row [OF None] by (simp add: wants_def)
    show ?thesis using None AtSecond wr
      by (auto simp: run_leg_def Let_def held_def expected_writes_def intro!: lock_leg_ok [OF ok l free])
  next
    case AtDebit
    then have "row_lock w (fromAccountId (plan ?g)) = None \<or> row_lock w (fromAccountId (plan ?g)) = Some l"
      using free_row [OF None] by (simp add: wants_def)
    moreover have "fromAccountId (plan ?g) \<in> held ?g" using AtDebit p by (auto simp: held_def plan_ok_def)
    ultimately have "bank_ok (update_balance l (fromAccountId (plan ?g)) (- amountCents (plan ?g)) AtCredit w)"
      using wr AtDebit by (intro update_leg_ok [OF ok l]) (auto simp: held_def expected_writes_def debited_def)
    then show ?thesis using None AtDebit by (simp add: run_leg_def Let_def)
  next
    case AtCredit
    then have "row_lock w (toAccountId (plan ?g)) = None \<or> row_lock w (toAccountId (plan ?g)) = Some l"
      using free_row [OF None] by (simp add: wants_def)
    moreover have "toAccountId (plan ?g) \<in> held ?g" using AtCredit p by (auto simp: held_def plan_ok_def)
    ultimately have "bank_ok (update_balance l (toAccountId (plan ?g)) (amountCents (plan ?g)) AtCommit w)"
      using wr AtCredit by (intro update_leg_ok [OF ok l]) (auto simp: held_def expected_writes_def transferred_def)
    then show ?thesis using None AtCredit by (simp add: run_leg_def Let_def)
  next
    case AtCommit
    then show ?thesis using None commit_leg_ok [OF ok l AtCommit] by (simp add: run_leg_def Let_def)
  next
    case AtBackoff
    then show ?thesis using None wr
      by (auto simp: run_leg_def Let_def held_def expected_writes_def intro!: move_leg_ok [OF ok l])
  next
    case (AtEnd r)
    then show ?thesis using None ok by (simp add: run_leg_def)
  qed
qed

lemma bank_step_ok: "bank_ok w \<Longrightarrow> bank_ok (bank_step e w)"
  by (cases e) (auto intro: run_leg_ok fail_leg_ok)

lemma bank_run_ok: "bank_ok w \<Longrightarrow> bank_ok (bank_run es w)"
proof (induction es arbitrary: w)
  case (Cons e es)
  from Cons.IH [OF bank_step_ok [OF Cons.prems]] show ?case by (simp add: bank_run_def)
qed (simp add: bank_run_def)

lemma new_bank_ok: "\<forall>g \<in> set gs. \<exists>p n q. g = new_leg p n q \<and> plan_ok p \<Longrightarrow> bank_ok (new_bank b gs)"
  by (fastforce simp: bank_ok_def leg_ok_def new_bank_def new_leg_def held_def expected_writes_def all_set_conv_all_nth)

section \<open>Money\<close>

definition total_money :: "bank \<Rightarrow> int" where
  "total_money w = (\<Sum>r \<in> dom (balances w). the (balances w r))"

definition in_range :: "int \<Rightarrow> bool" where
  "in_range x \<longleftrightarrow> 0 \<le> x \<and> x < 2 ^ 31"

definition sound :: "bank \<Rightarrow> bool" where
  "sound w \<longleftrightarrow> (\<forall>r x. balances w r = Some x \<longrightarrow> in_range x)
     \<and> (\<forall>l < length (legs w). \<forall>r x. own_writes (legs w ! l) r = Some x \<longrightarrow> in_range x)"

definition accounts_exist :: "bank \<Rightarrow> bool" where
  "accounts_exist w \<longleftrightarrow> (\<forall>l < length (legs w). balances w (fromAccountId (plan (legs w ! l))) \<noteq> None
     \<and> balances w (toAccountId (plan (legs w ! l))) \<noteq> None)"

text \<open>What one event does to the balances and to the plans.\<close>

lemma update_balance_frame:
  "balances (update_balance l r d n w) = balances w" "length (legs (update_balance l r d n w)) = length (legs w)"
  "l < length (legs w) \<Longrightarrow> plan (legs (update_balance l r d n w) ! m) = plan (legs w ! m)"
  by (cases "m = l"; simp add: update_balance_def fail_leg_def Let_def split: option.splits)+

lemma fail_leg_frame:
  "balances (fail_leg l c w) = balances w" "length (legs (fail_leg l c w)) = length (legs w)"
  "l < length (legs w) \<Longrightarrow> plan (legs (fail_leg l c w) ! m) = plan (legs w ! m)"
  by (cases "m = l"; simp add: fail_leg_def Let_def)+

lemma bank_step_plans:
  "length (legs (bank_step e w)) = length (legs w) \<and> (\<forall>m. plan (legs (bank_step e w) ! m) = plan (legs w ! m))"
proof (cases e)
  case (Run l)
  have "length (legs (run_leg l w)) = length (legs w) \<and> plan (legs (run_leg l w) ! m) = plan (legs w ! m)"
    if "l < length (legs w)" for m
    using that
    by (cases "m = l"; cases "pc (legs w ! l)"; simp add: run_leg_def Let_def update_balance_frame)
  then show ?thesis using Run by simp
qed (simp add: fail_leg_frame)

lemma bank_step_balances:
  assumes "bank_ok w"
  shows "balances (bank_step e w) = balances w
    \<or> (\<exists>l < length (legs w). pc (legs w ! l) = AtCommit
        \<and> balances (bank_step e w) = balances w ++ transferred (balances w) (plan (legs w ! l)))"
proof (cases e)
  case (Run l)
  show ?thesis
  proof (cases "l < length (legs w)")
    case True
    then have "own_writes (legs w ! l) = expected_writes (balances w) (legs w ! l)"
      using bank_okD(1) [OF assms True] by (simp add: leg_ok_def)
    then show ?thesis using Run True
      by (cases "pc (legs w ! l)")
        (auto simp: run_leg_def Let_def update_balance_frame expected_writes_def)
  qed (use Run in simp)
qed (simp add: fail_leg_frame)

lemma transfer_sum:
  assumes "finite (dom b)" and "b (fromAccountId p) \<noteq> None" and "b (toAccountId p) \<noteq> None"
  shows "(\<Sum>r \<in> dom b. the ((b ++ transferred b p) r)) = (\<Sum>r \<in> dom b. the (b r))"
proof -
  obtain x y where x: "b (fromAccountId p) = Some x" and y: "b (toAccountId p) = Some y" using assms(2,3) by auto
  let ?f = "fromAccountId p" and ?t = "toAccountId p"
  show ?thesis
  proof (cases "?f = ?t")
    case True
    then have "b ++ transferred b p = b" using x by (simp add: fun_eq_iff transferred_def debited_def map_add_def)
    then show ?thesis by simp
  next
    case False
    then have n: "b ++ transferred b p = b(?f \<mapsto> x - amountCents p, ?t \<mapsto> y + amountCents p)"
      using x y by (simp add: transferred_def debited_def map_add_def fun_eq_iff)
    have "(\<Sum>r \<in> dom b. the ((b(?f \<mapsto> x - amountCents p, ?t \<mapsto> y + amountCents p)) r) - the (b r))
        = (\<Sum>r \<in> dom b. (if r = ?f then - amountCents p else 0) + (if r = ?t then amountCents p else 0))"
      using x y False by (intro sum.cong) auto
    also have "\<dots> = 0" using assms(1) x y by (simp add: sum.distrib domIff)
    finally show ?thesis unfolding n by (simp add: sum_subtractf)
  qed
qed

lemma writes_in_range:
  assumes "sound w" and "l < length (legs w)"
  shows "sound (update_balance l r d n w)"
proof (cases "balances w r")
  case None
  then show ?thesis using assms
    by (auto simp: sound_def update_balance_def Let_def nth_list_update)
next
  case (Some b)
  then show ?thesis using assms
    by (auto simp: sound_def update_balance_def Let_def nth_list_update fail_leg_def in_range_def split: if_splits)
qed

lemma sound_step: "bank_ok w \<Longrightarrow> sound w \<Longrightarrow> sound (bank_step e w)"
proof (cases e)
  case (Run l)
  assume a: "bank_ok w" "sound w"
  show ?thesis
  proof (cases "l < length (legs w)")
    case True
    then have "sound (run_leg l w)"
      using a(2) writes_in_range [OF a(2) True]
      by (cases "pc (legs w ! l)") (auto simp: run_leg_def Let_def sound_def nth_list_update)
    then show ?thesis using Run True by simp
  qed (use Run a in simp)
next
  case (Victim l)
  assume "sound w"
  then show ?thesis using Victim by (auto simp: sound_def fail_leg_def Let_def nth_list_update)
qed

lemma money_step:
  assumes "bank_ok w" and "accounts_exist w" and "finite (dom (balances w))"
  shows "dom (balances (bank_step e w)) = dom (balances w) \<and> total_money (bank_step e w) = total_money w"
proof -
  from bank_step_balances [OF assms(1), of e]
  consider "balances (bank_step e w) = balances w"
    | l where "l < length (legs w)" "balances (bank_step e w) = balances w ++ transferred (balances w) (plan (legs w ! l))"
    by blast
  then show ?thesis
  proof cases
    case 1
    then show ?thesis by (simp add: total_money_def)
  next
    case (2 l)
    have "dom (balances (bank_step e w)) = dom (balances w)"
      using 2 writes_dom(1) [of "balances w" "plan (legs w ! l)"] by auto
    then show ?thesis
      using transfer_sum [OF assms(3), of "plan (legs w ! l)"] assms(2) 2 by (simp add: total_money_def accounts_exist_def)
  qed
qed

lemma accounts_exist_step:
  assumes "bank_ok w" and "accounts_exist w" and "finite (dom (balances w))"
  shows "accounts_exist (bank_step e w)"
proof -
  have "balances (bank_step e w) r = None \<longleftrightarrow> balances w r = None" for r
    using arg_cong [OF conjunct1 [OF money_step [OF assms, of e]], of "\<lambda>A. r \<in> A"] by (simp only: domIff not_not) blast
  then show ?thesis using assms(2) bank_step_plans [of e w] by (simp add: accounts_exist_def)
qed

lemma bank_run_money:
  assumes "bank_ok w" and "accounts_exist w" and "finite (dom (balances w))" and "sound w"
  shows "total_money (bank_run es w) = total_money w \<and> sound (bank_run es w) \<and> dom (balances (bank_run es w)) = dom (balances w)"
  using assms
proof (induction es arbitrary: w)
  case (Cons e es)
  note m = money_step [OF Cons.prems(1-3), of e]
  have "total_money (bank_run es (bank_step e w)) = total_money (bank_step e w) \<and> sound (bank_run es (bank_step e w))
      \<and> dom (balances (bank_run es (bank_step e w))) = dom (balances (bank_step e w))"
    using Cons.prems m
    by (intro Cons.IH bank_step_ok accounts_exist_step sound_step) simp_all
  then show ?case using m by (simp add: bank_run_def)
qed (simp add: bank_run_def)

section \<open>Consistent order\<close>

definition ordered :: "bank \<Rightarrow> bool" where
  "ordered w \<longleftrightarrow> (\<forall>l < length (legs w). firstLockId (plan (legs w ! l)) \<le> secondLockId (plan (legs w ! l)))"

text \<open>A leg that waits holds only rows below the one it waits for.\<close>

lemma waiting_above:
  assumes "bank_ok w" and "ordered w" and "l < length (legs w)" and "blocker w l = Some m" and "wants (legs w ! l) = Some r"
    and "row_lock w x = Some l"
  shows "x < r"
proof -
  let ?g = "legs w ! l"
  have o: "leg_ok w l" using bank_okD(1) [OF assms(1,3)] .
  have x: "balances w x \<noteq> None" using bank_okD(2) [OF assms(1,6)] by simp
  then have h: "x \<in> held ?g" using o assms(6) by (simp add: leg_ok_def)
  have lock: "row_lock w r = Some m" "m \<noteq> l" using assms(4,5) by (auto simp: blocker_def split: option.splits if_splits)
  then have "r \<notin> held ?g" using o bank_okD(2) [OF assms(1) lock(1)] by (auto simp: leg_ok_def)
  moreover have "plan_ok (plan ?g)" "firstLockId (plan ?g) \<le> secondLockId (plan ?g)"
    using o assms(2,3) by (simp_all add: leg_ok_def ordered_def)
  ultimately show ?thesis
    using h assms(5) by (cases "pc ?g") (auto simp: held_def wants_def plan_ok_def le_less)
qed

lemma blocker_wants:
  assumes "blocker w l = Some m"
  obtains r where "wants (legs w ! l) = Some r" and "row_lock w r = Some m" and "m \<noteq> l"
  using assms by (auto simp: blocker_def split: option.splits if_splits)

lemma chain_increases:
  assumes "bank_ok w" and "ordered w"
  shows "m \<in> set (chain w n l) \<Longrightarrow> wants (legs w ! l) = Some r \<Longrightarrow> blocker w m = Some k \<Longrightarrow> wants (legs w ! m) = Some s \<Longrightarrow>
    r < s"
proof (induction n arbitrary: l r)
  case (Suc n)
  obtain a where a: "blocker w l = Some a" using Suc.prems(1) by (cases "blocker w l") auto
  obtain r' where r': "wants (legs w ! l) = Some r'" "row_lock w r' = Some a" by (rule blocker_wants [OF a])
  then have r: "row_lock w r = Some a" using Suc.prems(2) by simp
  have al: "a < length (legs w)" using bank_okD(2) [OF assms(1) r] by simp
  show ?case
  proof (cases "m = a")
    case True
    then show ?thesis using waiting_above [OF assms al _ _ r] Suc.prems(3,4) by simp
  next
    case False
    then have m: "m \<in> set (chain w n a)" using Suc.prems(1) a by simp
    then obtain b where b: "blocker w a = Some b" by (cases n; cases "blocker w a") auto
    obtain q where q: "wants (legs w ! a) = Some q" by (rule blocker_wants [OF b])
    have "r < q" using waiting_above [OF assms al b q r] .
    also have "q < s" by (rule Suc.IH [OF m q Suc.prems(3,4)])
    finally show ?thesis .
  qed
qed simp

lemma no_cycle: "bank_ok w \<Longrightarrow> ordered w \<Longrightarrow> \<not> on_cycle w l"
proof
  assume a: "bank_ok w" "ordered w" "on_cycle w l"
  then have l: "l \<in> set (chain w (length (legs w)) l)" by (simp add: on_cycle_def)
  then obtain m where m: "blocker w l = Some m" by (cases "length (legs w)"; cases "blocker w l") auto
  obtain r where r: "wants (legs w ! l) = Some r" by (rule blocker_wants [OF m])
  from chain_increases [OF a(1,2) l r m r] show False by simp
qed

text \<open>With one row wanted highest there is always a leg that can go on.\<close>

lemma some_leg_free:
  assumes "bank_ok w" and "ordered w" and "l < length (legs w)" and "\<nexists>r. pc (legs w ! l) = AtEnd r"
    and quiet: "\<forall>l < length (legs w). \<forall>r. row_lock w r = Some l \<longrightarrow> (\<nexists>x. pc (legs w ! l) = AtEnd x)"
  shows "\<exists>m < length (legs w). blocker w m = None \<and> (\<nexists>r. pc (legs w ! m) = AtEnd r)"
proof (rule ccontr)
  assume none: "\<not> ?thesis"
  define U where "U = {m. m < length (legs w) \<and> (\<nexists>r. pc (legs w ! m) = AtEnd r)}"
  have fin: "finite U" by (simp add: U_def)
  have "l \<in> U" using assms(3,4) by (simp add: U_def)
  then have "Max ((\<lambda>m. the (wants (legs w ! m))) ` U) \<in> (\<lambda>m. the (wants (legs w ! m))) ` U"
    using fin by (intro Max_in) auto
  then obtain m where m: "m \<in> U" and top: "the (wants (legs w ! m)) = Max ((\<lambda>m. the (wants (legs w ! m))) ` U)" by auto
  then obtain k where k: "blocker w m = Some k" using none by (fastforce simp: U_def)
  obtain r where r: "wants (legs w ! m) = Some r" "row_lock w r = Some k" by (rule blocker_wants [OF k])
  have kl: "k < length (legs w)" using bank_okD(2) [OF assms(1) r(2)] by simp
  then have "k \<in> U" using quiet r(2) by (auto simp: U_def)
  then obtain j where j: "blocker w k = Some j" using none by (fastforce simp: U_def)
  obtain q where q: "wants (legs w ! k) = Some q" by (rule blocker_wants [OF j])
  have "r < q" by (rule waiting_above [OF assms(1,2) kl j q r(2)])
  moreover have "q \<le> r" using Max_ge [OF finite_imageI [OF fin] imageI [OF \<open>k \<in> U\<close>], of "\<lambda>m. the (wants (legs w ! m))"] top q r(1)
    by simp
  ultimately show False by simp
qed

text \<open>Without a victim no leg is aborted for a deadlock or backs off.\<close>

definition calm :: "bank \<Rightarrow> bool" where
  "calm w \<longleftrightarrow> (\<forall>l < length (legs w). pc (legs w ! l) \<notin> {AtBackoff, AtBarrier} \<and> peer (legs w ! l) = None
     \<and> (\<forall>r. pc (legs w ! l) = AtEnd r \<longrightarrow> leg_status r \<noteq> DeadlockAborted))"

lemma calm_set_leg:
  assumes "calm w" and "pc g \<notin> {AtBackoff, AtBarrier}" and "peer g = None" and "\<And>r. pc g = AtEnd r \<Longrightarrow> leg_status r \<noteq> DeadlockAborted"
    and "legs w' = legs w"
  shows "calm (set_leg l g w')"
  unfolding calm_def
proof (intro allI impI)
  fix m
  assume "m < length (legs (set_leg l g w'))"
  then have m: "m < length (legs w)" using assms(5) by simp
  show "pc (legs (set_leg l g w') ! m) \<notin> {AtBackoff, AtBarrier} \<and> peer (legs (set_leg l g w') ! m) = None
      \<and> (\<forall>r. pc (legs (set_leg l g w') ! m) = AtEnd r \<longrightarrow> leg_status r \<noteq> DeadlockAborted)"
    using assms m by (cases "m = l") (simp_all add: calm_def)
qed

lemma calm_fail: "calm w \<Longrightarrow> l < length (legs w) \<Longrightarrow> code \<noteq> DEADLOCK_DETECTED_SQLSTATE \<Longrightarrow> calm (fail_leg l code w)"
  by (auto simp: fail_leg_def Let_def toOutcome_def calm_def nth_list_update)

lemma calm_update:
  assumes "calm w" and "l < length (legs w)" and "next = AtCredit \<or> next = AtCommit"
  shows "calm (update_balance l r d next w)"
proof -
  have p: "peer (legs w ! l) = None" using assms(1,2) by (simp add: calm_def)
  have f: "calm (fail_leg l ''22003'' w)" "calm (fail_leg l ''23514'' w)"
    by (rule calm_fail [OF assms(1,2)], simp add: DEADLOCK_DETECTED_SQLSTATE_def)+
  have n: "next \<noteq> AtBackoff" "next \<noteq> AtBarrier" "next \<noteq> AtEnd x" for x using assms(3) by auto
  show ?thesis
    unfolding update_balance_def Let_def
    by (auto split: option.split intro!: calm_set_leg [OF assms(1)] f simp: p n)
qed

lemma calm_run: "calm w \<Longrightarrow> l < length (legs w) \<Longrightarrow> calm (run_leg l w)"
proof -
  assume a: "calm w" "l < length (legs w)"
  then have p: "peer (legs w ! l) = None" and nb: "pc (legs w ! l) \<notin> {AtBackoff, AtBarrier}" by (simp_all add: calm_def)
  show ?thesis
    using p nb a calm_update [OF a]
    by (cases "pc (legs w ! l)") (auto simp: run_leg_def Let_def intro!: calm_set_leg)
qed

lemma ordered_step: "ordered w \<Longrightarrow> ordered (bank_step e w)"
  using bank_step_plans [of e w] by (simp add: ordered_def)

lemma calm_step: "bank_ok w \<Longrightarrow> ordered w \<Longrightarrow> calm w \<Longrightarrow> calm (bank_step e w)"
  by (cases e) (auto intro: calm_run dest: no_cycle)

lemma calm_run_all:
  "bank_ok w \<Longrightarrow> ordered w \<Longrightarrow> calm w \<Longrightarrow>
   bank_ok (bank_run es w) \<and> ordered (bank_run es w) \<and> calm (bank_run es w) \<and> length (legs (bank_run es w)) = length (legs w)"
proof (induction es arbitrary: w)
  case (Cons e es)
  from Cons.IH [OF bank_step_ok [OF Cons.prems(1), of e] ordered_step [OF Cons.prems(2)] calm_step [OF Cons.prems]]
  show ?case using bank_step_plans [of e w] by (simp add: bank_run_def)
qed (simp add: bank_run_def)

section \<open>Every leg ends\<close>

fun pc_rank :: "leg_pc \<Rightarrow> nat" where
  "pc_rank AtBegin = 8"
| "pc_rank AtFirst = 7"
| "pc_rank AtBarrier = 6"
| "pc_rank AtSecond = 5"
| "pc_rank AtDebit = 4"
| "pc_rank AtCredit = 3"
| "pc_rank AtCommit = 2"
| "pc_rank AtBackoff = 1"
| "pc_rank (AtEnd r) = 0"

definition leg_effort :: "leg \<Rightarrow> nat" where
  "leg_effort g = (maxAttempts g - attempt g) * 10 + pc_rank (pc g)"

definition bank_effort :: "bank \<Rightarrow> nat" where
  "bank_effort w = sum_list (map leg_effort (legs w))"

definition backoff_ok :: "bank \<Rightarrow> bool" where
  "backoff_ok w \<longleftrightarrow> (\<forall>l < length (legs w). pc (legs w ! l) = AtBackoff \<longrightarrow> attempt (legs w ! l) < maxAttempts (legs w ! l))"

lemma effort_set:
  assumes "l < length (legs w)" and "legs w' = (legs w)[l := g]" and "leg_effort g < leg_effort (legs w ! l)"
  shows "bank_effort w' < bank_effort w"
proof -
  have "map leg_effort (legs w') = (map leg_effort (legs w))[l := leg_effort g]" using assms(2) by (simp add: map_update)
  then have "bank_effort w' = bank_effort w + leg_effort g - leg_effort (legs w ! l)"
    using assms(1) by (simp add: bank_effort_def sum_list_update)
  moreover have "leg_effort (legs w ! l) \<le> bank_effort w"
    using assms(1) elem_le_sum_list [of l "map leg_effort (legs w)"] by (simp add: bank_effort_def)
  ultimately show ?thesis using assms(3) by simp
qed

lemma fail_effort:
  assumes "l < length (legs w)" and "1 < pc_rank (pc (legs w ! l))"
  shows "bank_effort (fail_leg l code w) < bank_effort w"
  by (rule effort_set [OF assms(1), where g = "legs (fail_leg l code w) ! l"])
    (use assms in \<open>simp_all add: fail_leg_def Let_def leg_effort_def\<close>)

lemma update_effort:
  assumes "l < length (legs w)" and "pc_rank next < pc_rank (pc (legs w ! l))" and "1 < pc_rank (pc (legs w ! l))"
  shows "bank_effort (update_balance l r d next w) < bank_effort w"
proof -
  let ?g = "legs w ! l"
  have n: "bank_effort (set_leg l (?g\<lparr>pc := next, own_writes := x\<rparr>) w') < bank_effort w" if "legs w' = legs w" for x w'
    by (rule effort_set [OF assms(1), where g = "?g\<lparr>pc := next, own_writes := x\<rparr>"])
      (use assms that in \<open>simp_all add: leg_effort_def\<close>)
  have m: "bank_effort (set_leg l (?g\<lparr>pc := next\<rparr>) w) < bank_effort w"
    by (rule effort_set [OF assms(1), where g = "?g\<lparr>pc := next\<rparr>"]) (use assms in \<open>simp_all add: leg_effort_def\<close>)
  show ?thesis
    using n [of "lock_row l r w"] m fail_effort [OF assms(1,3)] by (auto simp: update_balance_def Let_def split: option.split)
qed

lemma blocked_rank: "blocker w l \<noteq> None \<Longrightarrow> 1 < pc_rank (pc (legs w ! l))"
  by (cases "pc (legs w ! l)") (auto simp: blocker_def wants_def)

lemma cycle_blocked: "on_cycle w l \<Longrightarrow> blocker w l \<noteq> None"
  by (cases "length (legs w)"; cases "blocker w l") (auto simp: on_cycle_def)

lemma victim_effort: "on_cycle w l \<Longrightarrow> l < length (legs w) \<Longrightarrow> bank_effort (fail_leg l code w) < bank_effort w"
  using fail_effort blocked_rank cycle_blocked by blast

text \<open>A leg that is not waiting moves.\<close>

definition can_go :: "bank \<Rightarrow> nat \<Rightarrow> bool" where
  "can_go w l \<longleftrightarrow> blocker w l = None \<and> (\<nexists>r. pc (legs w ! l) = AtEnd r)
     \<and> (pc (legs w ! l) = AtBarrier \<longrightarrow> the (peer (legs w ! l)) \<in> arrived w)"

lemma stuck_leg: "\<not> can_go w l \<Longrightarrow> run_leg l w = w"
  by (cases "pc (legs w ! l)") (auto simp: can_go_def run_leg_def Let_def)

lemma go_effort:
  assumes "backoff_ok w" and "l < length (legs w)" and "can_go w l"
  shows "bank_effort (run_leg l w) < bank_effort w"
proof -
  let ?g = "legs w ! l"
  have free: "blocker w l = None" using assms(3) by (simp add: can_go_def)
  show ?thesis
  proof (cases "pc ?g")
    case AtBegin
    show ?thesis
      by (rule effort_set [OF assms(2), where g = "?g\<lparr>pc := AtFirst, own_writes := Map.empty\<rparr>"])
        (simp_all add: AtBegin free run_leg_def leg_effort_def)
  next
    case AtFirst
    show ?thesis
      by (rule effort_set [OF assms(2), where g = "?g\<lparr>pc := if attempt ?g = 1 \<and> peer ?g \<noteq> None then AtBarrier else AtSecond\<rparr>"])
        (auto simp: AtFirst free run_leg_def leg_effort_def Let_def)
  next
    case AtBarrier
    show ?thesis
      by (rule effort_set [OF assms(2), where g = "?g\<lparr>pc := AtSecond\<rparr>"])
        (use assms(3) in \<open>simp_all add: AtBarrier free run_leg_def leg_effort_def can_go_def\<close>)
  next
    case AtSecond
    show ?thesis
      by (rule effort_set [OF assms(2), where g = "?g\<lparr>pc := AtDebit\<rparr>"])
        (simp_all add: AtSecond free run_leg_def leg_effort_def Let_def)
  next
    case AtDebit
    then show ?thesis using free update_effort [OF assms(2), of AtCredit] by (simp add: run_leg_def Let_def)
  next
    case AtCredit
    then show ?thesis using free update_effort [OF assms(2), of AtCommit] by (simp add: run_leg_def Let_def)
  next
    case AtCommit
    show ?thesis
      by (rule effort_set [OF assms(2), where g = "?g\<lparr>pc := AtEnd \<lparr>leg_status = Committed, sqlstate = None, attempts = attempt ?g\<rparr>,
            own_writes := Map.empty\<rparr>"])
        (simp_all add: AtCommit free run_leg_def leg_effort_def Let_def)
  next
    case AtBackoff
    then have "attempt ?g < maxAttempts ?g" using assms(1,2) by (simp add: backoff_ok_def)
    then show ?thesis
      by (intro effort_set [OF assms(2), where g = "?g\<lparr>pc := AtBegin, attempt := attempt ?g + 1\<rparr>"])
        (simp_all add: AtBackoff free run_leg_def leg_effort_def Let_def)
  next
    case (AtEnd r)
    then show ?thesis using assms(3) by (simp add: can_go_def)
  qed
qed

lemma step_effort: "backoff_ok w \<Longrightarrow> bank_step e w = w \<or> bank_effort (bank_step e w) < bank_effort w"
proof (cases e)
  case (Run l)
  assume "backoff_ok w"
  then show ?thesis using Run go_effort [of w l] stuck_leg [of w l] by (cases "can_go w l") simp_all
next
  case (Victim l)
  then show ?thesis using victim_effort [of w l] by (cases "l < length (legs w) \<and> on_cycle w l") auto
qed

lemma backoff_set_leg:
  assumes "backoff_ok w" and "pc g = AtBackoff \<Longrightarrow> attempt g < maxAttempts g" and "legs w' = legs w"
  shows "backoff_ok (set_leg l g w')"
  unfolding backoff_ok_def
proof (intro allI impI)
  fix m
  assume "m < length (legs (set_leg l g w'))" "pc (legs (set_leg l g w') ! m) = AtBackoff"
  then show "attempt (legs (set_leg l g w') ! m) < maxAttempts (legs (set_leg l g w') ! m)"
    using assms by (cases "m = l") (simp_all add: backoff_ok_def)
qed

lemma backoff_ok_arrived [simp]: "backoff_ok (w\<lparr>arrived := A\<rparr>) = backoff_ok w"
  by (simp add: backoff_ok_def)

lemma backoff_fail: "backoff_ok w \<Longrightarrow> backoff_ok (fail_leg l code w)"
  unfolding fail_leg_def Let_def by (rule backoff_set_leg) (auto split: if_splits)

lemma backoff_update: "backoff_ok w \<Longrightarrow> next \<noteq> AtBackoff \<Longrightarrow> backoff_ok (update_balance l r d next w)"
  unfolding update_balance_def Let_def
  by (auto split: option.split intro: backoff_fail intro!: backoff_set_leg [where w = w])

lemma backoff_step: "backoff_ok w \<Longrightarrow> backoff_ok (bank_step e w)"
proof (cases e)
  case (Run l)
  assume b: "backoff_ok w"
  note moved = backoff_set_leg [OF b]
  have "backoff_ok (run_leg l w)"
    using b by (cases "pc (legs w ! l)") (auto simp: run_leg_def Let_def backoff_update intro!: moved)
  then show ?thesis using b Run by simp
qed (simp add: backoff_fail)

lemma bank_run_simps [simp]: "bank_run [] w = w" "bank_run (e # es) w = bank_run es (bank_step e w)"
  "bank_run (es @ fs) w = bank_run fs (bank_run es w)"
  by (simp_all add: bank_run_def)

lemma bank_run_plans: "plan (legs (bank_run es w) ! m) = plan (legs w ! m)"
  by (induction es arbitrary: w) (simp_all add: bank_step_plans del: bank_step.simps)

lemma run_backoff: "backoff_ok w \<Longrightarrow> backoff_ok (bank_run es w)"
  by (induction es arbitrary: w) (simp_all add: backoff_step)

lemma run_effort: "backoff_ok w \<Longrightarrow> bank_run es w = w \<or> bank_effort (bank_run es w) < bank_effort w"
proof (induction es arbitrary: w)
  case (Cons e es)
  have "bank_run es (bank_step e w) = bank_step e w \<or> bank_effort (bank_run es (bank_step e w)) < bank_effort (bank_step e w)"
    by (rule Cons.IH [OF backoff_step [OF Cons.prems]])
  then show ?case using step_effort [OF Cons.prems, of e] by auto
qed simp

definition finished :: "bank \<Rightarrow> bool" where
  "finished w \<longleftrightarrow> (\<forall>l < length (legs w). \<exists>r. pc (legs w ! l) = AtEnd r)"

lemma finished_rests: "finished w \<Longrightarrow> bank_run es w = w"
proof (induction es)
  case (Cons e es)
  have "bank_step e w = w"
  proof (cases e)
    case (Run l)
    have "run_leg l w = w" if "l < length (legs w)"
      using Cons.prems that by (intro stuck_leg) (auto simp: finished_def can_go_def)
    then show ?thesis using Run by simp
  next
    case (Victim l)
    have "\<not> on_cycle w l" if "l < length (legs w)"
      using Cons.prems that cycle_blocked [of w l] blocked_rank [of w l] by (force simp: finished_def)
    then show ?thesis using Victim by auto
  qed
  then show ?case using Cons by simp
qed simp

lemma sweep_moves:
  assumes "backoff_ok w" and "e \<in> set sweep" and "bank_effort (bank_step e w) < bank_effort w"
  shows "bank_effort (bank_run sweep w) < bank_effort w"
proof -
  obtain xs ys where s: "sweep = xs @ e # ys" using assms(2) split_list by metis
  let ?v = "bank_run xs w"
  have v: "?v = w \<or> bank_effort ?v < bank_effort w" by (rule run_effort [OF assms(1)])
  have b: "backoff_ok ?v" by (rule run_backoff [OF assms(1)])
  have "bank_effort (bank_step e ?v) < bank_effort w"
    using v step_effort [OF b, of e] assms(3) by auto
  moreover have "bank_run ys (bank_step e ?v) = bank_step e ?v
      \<or> bank_effort (bank_run ys (bank_step e ?v)) < bank_effort (bank_step e ?v)"
    by (rule run_effort [OF backoff_step [OF b]])
  ultimately show ?thesis unfolding s by (auto simp del: bank_step.simps)
qed

lemma no_effort_left: "bank_effort w = 0 \<Longrightarrow> finished w"
proof -
  assume z: "bank_effort w = 0"
  have "\<exists>r. pc (legs w ! l) = AtEnd r" if "l < length (legs w)" for l
  proof -
    have "leg_effort (legs w ! l) = 0" using z that by (simp add: bank_effort_def)
    then show ?thesis by (cases "pc (legs w ! l)") (simp_all add: leg_effort_def)
  qed
  then show ?thesis by (simp add: finished_def)
qed

text \<open>Sweeps that each move an unfinished bank, under an invariant, end all the legs.\<close>

lemma sweeps_end:
  assumes step: "\<And>w e. I w \<Longrightarrow> I (bank_step e w)" and keep: "\<And>w. I w \<Longrightarrow> backoff_ok w"
    and move: "\<And>w sweep. I w \<Longrightarrow> \<not> finished w \<Longrightarrow> sweep \<in> S \<Longrightarrow> \<exists>e \<in> set sweep. bank_effort (bank_step e w) < bank_effort w"
  shows "I w \<Longrightarrow> set sweeps \<subseteq> S \<Longrightarrow> bank_effort w \<le> length sweeps \<Longrightarrow> finished (bank_run (concat sweeps) w)"
proof (induction sweeps arbitrary: w)
  case Nil
  then show ?case using no_effort_left by simp
next
  case (Cons s ss)
  have run: "I v \<Longrightarrow> I (bank_run es v)" for v es by (induction es arbitrary: v) (simp_all add: step del: bank_step.simps)
  show ?case
  proof (cases "finished w")
    case True
    then show ?thesis using finished_rests [OF True] by simp
  next
    case False
    then obtain e where "e \<in> set s" "bank_effort (bank_step e w) < bank_effort w" using move [OF Cons.prems(1)] Cons.prems(2) by auto
    then have "bank_effort (bank_run s w) < bank_effort w" by (rule sweep_moves [OF keep [OF Cons.prems(1)]])
    then have "finished (bank_run (concat ss) (bank_run s w))"
      using Cons.prems by (intro Cons.IH run) simp_all
    then show ?thesis by simp
  qed
qed

lemma ordered_moves:
  assumes "bank_ok w" and "ordered w" and "calm w" and "backoff_ok w" and "\<not> finished w"
  shows "\<exists>m < length (legs w). bank_effort (bank_step (Run m) w) < bank_effort w"
proof -
  obtain l where l: "l < length (legs w)" "\<nexists>r. pc (legs w ! l) = AtEnd r" using assms(5) by (auto simp: finished_def)
  have quiet: "\<forall>l < length (legs w). \<forall>r. row_lock w r = Some l \<longrightarrow> (\<nexists>x. pc (legs w ! l) = AtEnd x)"
  proof (intro allI impI notI)
    fix l r
    assume a: "l < length (legs w)" "row_lock w r = Some l" "\<exists>x. pc (legs w ! l) = AtEnd x"
    then have "r \<in> held (legs w ! l)" using bank_okD [OF assms(1)] by (auto simp: leg_ok_def)
    then show False using a(3) by (auto simp: held_def)
  qed
  from some_leg_free [OF assms(1,2) l quiet]
  obtain m where m: "m < length (legs w)" "blocker w m = None" "\<nexists>r. pc (legs w ! m) = AtEnd r" by blast
  then have "can_go w m" using assms(3) by (simp add: can_go_def calm_def)
  then show ?thesis using go_effort [OF assms(4) m(1)] m(1) by auto
qed

lemma sweeps_finish:
  assumes "bank_ok w" and "ordered w" and "calm w" and "backoff_ok w"
    and "\<forall>sweep \<in> set sweeps. \<forall>l < length (legs w). Run l \<in> set sweep" and "bank_effort w \<le> length sweeps"
  shows "finished (bank_run (concat sweeps) w)"
proof (rule sweeps_end [where S = "{sweep. \<forall>l < length (legs w). Run l \<in> set sweep}"
      and I = "\<lambda>v. bank_ok v \<and> ordered v \<and> calm v \<and> backoff_ok v \<and> length (legs v) = length (legs w)"])
  fix v e
  assume "bank_ok v \<and> ordered v \<and> calm v \<and> backoff_ok v \<and> length (legs v) = length (legs w)"
  then show "bank_ok (bank_step e v) \<and> ordered (bank_step e v) \<and> calm (bank_step e v) \<and> backoff_ok (bank_step e v)
      \<and> length (legs (bank_step e v)) = length (legs w)"
    using bank_step_ok ordered_step calm_step backoff_step bank_step_plans [of e v] by simp
next
  fix v sweep
  assume v: "bank_ok v \<and> ordered v \<and> calm v \<and> backoff_ok v \<and> length (legs v) = length (legs w)" and "\<not> finished v"
    and sweep: "sweep \<in> {sweep. \<forall>l < length (legs w). Run l \<in> set sweep}"
  then obtain m where "m < length (legs v)" "bank_effort (bank_step (Run m) v) < bank_effort v" using ordered_moves by blast
  then show "\<exists>e \<in> set sweep. bank_effort (bank_step e v) < bank_effort v" using sweep v by (intro bexI [of _ "Run m"]) auto
qed (use assms in auto)

section \<open>Each committed transfer counts once\<close>

definition is_committed :: "leg \<Rightarrow> bool" where
  "is_committed g \<longleftrightarrow> (case pc g of AtEnd r \<Rightarrow> leg_status r = Committed | _ \<Rightarrow> False)"

definition net :: "LegPlan \<Rightarrow> nat \<Rightarrow> int" where
  "net p r = (if toAccountId p = r then amountCents p else 0) - (if fromAccountId p = r then amountCents p else 0)"

definition due :: "nat \<Rightarrow> leg \<Rightarrow> int" where
  "due r g = (if is_committed g then net (plan g) r else 0)"

definition settled :: "leg list \<Rightarrow> nat \<Rightarrow> int" where
  "settled gs r = sum_list (map (due r) gs)"

lemma settled_update: "l < length gs \<Longrightarrow> settled (gs[l := g]) r = settled gs r + due r g - due r (gs ! l)"
proof (induction gs arbitrary: l)
  case (Cons h gs)
  then show ?case by (cases l) (simp_all add: settled_def)
qed simp

lemma due_same [simp]:
  "\<not> is_committed g \<Longrightarrow> due r g = 0" "is_committed (g\<lparr>own_writes := x\<rparr>) = is_committed g"
  by (simp_all add: due_def is_committed_def)

lemma settled_same: "l < length gs \<Longrightarrow> \<not> is_committed g \<Longrightarrow> \<not> is_committed (gs ! l) \<Longrightarrow> settled (gs[l := g]) r = settled gs r"
  by (simp add: settled_update)

lemma transferred_net: "(b ++ transferred b p) r = map_option (\<lambda>x. x + net p r) (b r)"
  by (auto simp: transferred_def debited_def net_def map_add_def split: option.split)

lemma fail_settled: "l < length (legs w) \<Longrightarrow> \<not> is_committed (legs w ! l) \<Longrightarrow> settled (legs (fail_leg l code w)) r = settled (legs w) r"
  unfolding fail_leg_def Let_def
  by (simp only: set_leg_simps, rule settled_same) (simp_all add: is_committed_def toOutcome_def)

lemma update_settled:
  assumes "l < length (legs w)" and "\<not> is_committed (legs w ! l)" and "next = AtCredit \<or> next = AtCommit"
  shows "settled (legs (update_balance l q d next w)) r = settled (legs w) r"
proof -
  have n: "\<not> is_committed (g\<lparr>pc := next\<rparr>)" "\<not> is_committed (g\<lparr>pc := next, own_writes := x\<rparr>)" for g x
    using assms(3) by (auto simp: is_committed_def)
  show ?thesis
    unfolding update_balance_def Let_def
    using fail_settled [OF assms(1,2)] settled_same [OF assms(1) n(1) assms(2)] settled_same [OF assms(1) n(2) assms(2)]
    by (auto split: option.split)
qed

lemma run_settled:
  assumes "bank_ok w" and "l < length (legs w)"
  shows "balances (run_leg l w) r = map_option (\<lambda>x. x + (settled (legs (run_leg l w)) r - settled (legs w) r)) (balances w r)"
proof -
  let ?g = "legs w ! l"
  have id: "map_option (\<lambda>x. x) m = m" for m :: "int option" by (cases m) simp_all
  show ?thesis
  proof (cases "blocker w l = None \<and> pc ?g = AtCommit")
    case True
    then have "balances (run_leg l w) = balances w ++ own_writes ?g" by (simp add: run_leg_def Let_def)
    moreover have "own_writes ?g = transferred (balances w) (plan ?g)"
      using bank_okD(1) [OF assms] True by (simp add: leg_ok_def expected_writes_def)
    moreover have "settled (legs (run_leg l w)) r = settled (legs w) r + net (plan ?g) r"
      using True assms(2) by (simp add: run_leg_def Let_def settled_update due_def is_committed_def)
    ultimately show ?thesis by (simp add: transferred_net)
  next
    case False
    then have "balances (run_leg l w) = balances w"
      by (cases "pc ?g") (auto simp: run_leg_def Let_def update_balance_frame)
    moreover have "settled (legs (run_leg l w)) r = settled (legs w) r"
      using False assms(2) settled_same [OF assms(2)] update_settled [OF assms(2)]
      by (cases "pc ?g") (auto simp: run_leg_def Let_def is_committed_def)
    ultimately show ?thesis by (simp add: id)
  qed
qed

lemma step_settled:
  assumes "bank_ok w"
  shows "balances (bank_step e w) r = map_option (\<lambda>x. x + (settled (legs (bank_step e w)) r - settled (legs w) r)) (balances w r)"
proof -
  have id: "map_option (\<lambda>x. x) m = m" for m :: "int option" by (cases m) simp_all
  show ?thesis
  proof (cases e)
    case (Run l)
    then show ?thesis using run_settled [OF assms, of l r] by (simp add: id)
  next
    case (Victim l)
    have "\<not> is_committed (legs w ! l)" if "on_cycle w l"
      using blocked_rank [OF cycle_blocked [OF that]] by (auto simp: is_committed_def split: leg_pc.splits)
    then show ?thesis using Victim fail_settled [of l w] by (simp add: id fail_leg_frame)
  qed
qed

lemma bank_run_settled:
  "bank_ok w \<Longrightarrow>
   balances (bank_run es w) r = map_option (\<lambda>x. x + (settled (legs (bank_run es w)) r - settled (legs w) r)) (balances w r)"
proof (induction es arbitrary: w)
  case Nil
  then show ?case by (cases "balances w r") simp_all
next
  case (Cons e es)
  have "balances (bank_run es (bank_step e w)) r
      = map_option (\<lambda>x. x + (settled (legs (bank_run es (bank_step e w))) r - settled (legs (bank_step e w)) r)) (balances (bank_step e w) r)"
    by (rule Cons.IH [OF bank_step_ok [OF Cons.prems]])
  then show ?case unfolding step_settled [OF Cons.prems, of e r] by (cases "balances w r") simp_all
qed

lemma run_sound: "bank_ok w \<Longrightarrow> sound w \<Longrightarrow> sound (bank_run es w)"
  by (induction es arbitrary: w) (simp_all add: bank_step_ok sound_step del: bank_step.simps)

end
