(* ===== verification/Lock_Order_Scenarios.thy ===== *)
theory Lock_Order_Scenarios
  imports Lock_Order
begin

text \<open>
  What the transfers of Lab 32 promise: the consistent order never deadlocks, each committed transfer counts
  once, and the scenarios \<open>reproduce-deadlock.ts\<close> and \<open>consistent-lock-ordering.ts\<close> under every fair
  schedule, the first with the two-party rendezvous of \<open>sync.ts\<close>.
\<close>

section \<open>Transfers that are covered never fail\<close>

definition paid_out :: "nat \<Rightarrow> leg \<Rightarrow> int" where
  "paid_out r g = (if fromAccountId (plan g) = r then amountCents (plan g) else 0)"

definition paid_in :: "nat \<Rightarrow> leg \<Rightarrow> int" where
  "paid_in r g = (if toAccountId (plan g) = r then amountCents (plan g) else 0)"

definition solvent :: "(nat \<rightharpoonup> int) \<Rightarrow> leg list \<Rightarrow> bool" where
  "solvent b gs \<longleftrightarrow> (\<forall>g \<in> set gs. 0 \<le> amountCents (plan g))
     \<and> (\<forall>p \<in> set (map plan gs). \<forall>r \<in> {fromAccountId p, toAccountId p}. \<forall>x. b r = Some x \<longrightarrow>
          sum_list (map (paid_out r) gs) \<le> x \<and> x + sum_list (map (paid_in r) gs) < 2 ^ 31)"

lemma elem_le_nonneg_sum: "\<forall>x \<in> set xs. f x \<ge> (0 :: int) \<Longrightarrow> l < length xs \<Longrightarrow> f (xs ! l) \<le> sum_list (map f xs)"
proof (induction xs arbitrary: l)
  case (Cons a xs)
  have "0 \<le> sum_list (map f xs)" using Cons.prems(1) by (intro sum_list_nonneg) auto
  then show ?case using Cons by (cases l) fastforce+
qed simp

lemma settled_bounds:
  assumes "\<forall>g \<in> set gs. 0 \<le> amountCents (plan g)" and "l < length gs" and "\<not> is_committed (gs ! l)"
  shows "paid_out r (gs ! l) \<le> settled gs r + sum_list (map (paid_out r) gs)"
    and "settled gs r + paid_in r (gs ! l) \<le> sum_list (map (paid_in r) gs)"
proof -
  have "(\<lambda>g. due r g + paid_out r g) (gs ! l) \<le> sum_list (map (\<lambda>g. due r g + paid_out r g) gs)"
    using assms(1,2) by (intro elem_le_nonneg_sum) (auto simp: due_def paid_out_def net_def)
  then show "paid_out r (gs ! l) \<le> settled gs r + sum_list (map (paid_out r) gs)"
    using assms(3) by (simp add: settled_def sum_list_addf)
  have "(\<lambda>g. paid_in r g - due r g) (gs ! l) \<le> sum_list (map (\<lambda>g. paid_in r g - due r g) gs)"
    using assms(1,2) by (intro elem_le_nonneg_sum) (auto simp: due_def paid_in_def net_def)
  then show "settled gs r + paid_in r (gs ! l) \<le> sum_list (map (paid_in r) gs)"
    using assms(3) by (simp add: settled_def sum_list_subtractf)
qed

definition no_failure :: "bank \<Rightarrow> bool" where
  "no_failure w \<longleftrightarrow> (\<forall>l < length (legs w). \<forall>r. pc (legs w ! l) = AtEnd r \<longrightarrow> leg_status r \<noteq> LegFailed)"

lemma no_failure_set:
  assumes "no_failure w" and "\<And>r. pc g = AtEnd r \<Longrightarrow> leg_status r \<noteq> LegFailed" and "legs w' = legs w"
  shows "no_failure (set_leg l g w')"
  unfolding no_failure_def
proof (intro allI impI)
  fix m r
  assume "m < length (legs (set_leg l g w'))" "pc (legs (set_leg l g w') ! m) = AtEnd r"
  then show "leg_status r \<noteq> LegFailed" using assms by (cases "m = l") (simp_all add: no_failure_def)
qed

lemma no_failure_arrived [simp]: "no_failure (w\<lparr>arrived := A\<rparr>) = no_failure w"
  by (simp add: no_failure_def)

lemma deadlock_no_failure: "no_failure w \<Longrightarrow> no_failure (fail_leg l DEADLOCK_DETECTED_SQLSTATE w)"
  unfolding fail_leg_def Let_def by (rule no_failure_set) (auto simp: toOutcome_def split: if_splits)

lemma update_no_failure:
  assumes "no_failure w" and "next = AtCredit \<or> next = AtCommit"
    and "\<And>x. balances w r = Some x \<Longrightarrow>
      in_range ((case own_writes (legs w ! l) r of Some y \<Rightarrow> y | None \<Rightarrow> x) + delta)"
  shows "no_failure (update_balance l r delta next w)"
proof (cases "balances w r")
  case None
  then show ?thesis using assms(2) by (auto simp: update_balance_def intro!: no_failure_set [OF assms(1)])
next
  case (Some x)
  let ?new = "(case own_writes (legs w ! l) r of Some y \<Rightarrow> y | None \<Rightarrow> x) + delta"
  have "\<not> (2 ^ 31 \<le> ?new \<or> ?new < - (2 ^ 31))" "\<not> ?new < 0" using assms(3) [OF Some] by (auto simp: in_range_def)
  then show ?thesis using assms(2) Some
    by (simp only: update_balance_def Let_def option.case if_False) (auto intro!: no_failure_set [OF assms(1)])
qed

text \<open>The balance a leg is about to write, by what the other legs have paid at most.\<close>

definition ledger :: "(nat \<rightharpoonup> int) \<Rightarrow> bank \<Rightarrow> bool" where
  "ledger b w \<longleftrightarrow> bank_ok w \<and> no_failure w \<and> solvent b (legs w)
     \<and> (\<forall>r. balances w r = map_option (\<lambda>x. x + settled (legs w) r) (b r))"

lemma ledger_room:
  assumes "ledger b w" and l: "l < length (legs w)" and "\<not> is_committed (legs w ! l)" and "balances w r = Some x"
    and r: "r \<in> {fromAccountId (plan (legs w ! l)), toAccountId (plan (legs w ! l))}"
  shows "paid_out r (legs w ! l) \<le> x" and "x + paid_in r (legs w ! l) < 2 ^ 31"
    and "0 \<le> amountCents (plan (legs w ! l))"
proof -
  have am: "\<forall>g \<in> set (legs w). 0 \<le> amountCents (plan g)" using assms(1) by (simp add: ledger_def solvent_def)
  then show "0 \<le> amountCents (plan (legs w ! l))" using l by simp
  obtain y where y: "b r = Some y" "x = y + settled (legs w) r" using assms(1,4) by (auto simp: ledger_def)
  then have "sum_list (map (paid_out r) (legs w)) \<le> y" "y + sum_list (map (paid_in r) (legs w)) < 2 ^ 31"
    using assms(1) r nth_mem [OF l] by (auto simp: ledger_def solvent_def)
  then show "paid_out r (legs w ! l) \<le> x" "x + paid_in r (legs w ! l) < 2 ^ 31"
    using settled_bounds [OF am l assms(3), of r] y(2) by simp_all
qed

lemma ledger_run:
  assumes led: "ledger b w" and l: "l < length (legs w)"
  shows "no_failure (run_leg l w)"
proof -
  let ?g = "legs w ! l"
  let ?f = "fromAccountId (plan ?g)" and ?t = "toAccountId (plan ?g)" and ?z = "amountCents (plan ?g)"
  have ok: "own_writes ?g = expected_writes (balances w) ?g" and nf: "no_failure w"
    using led bank_okD(1) [OF _ l] by (simp_all add: ledger_def leg_ok_def)
  have pos: "0 \<le> paid_out r g" "0 \<le> paid_in r g" if "0 \<le> amountCents (plan g)" for r g
    using that by (simp_all add: paid_out_def paid_in_def)
  note room = ledger_room [OF led l]
  show ?thesis
  proof (cases "pc ?g")
    case AtDebit
    have "no_failure (update_balance l ?f (- ?z) AtCredit w)"
    proof (rule update_no_failure [OF nf])
      fix x
      assume x: "balances w ?f = Some x"
      have "\<not> is_committed ?g" by (simp add: is_committed_def AtDebit)
      from room [OF this x] pos [of ?g ?f]
      show "in_range ((case own_writes ?g ?f of Some y \<Rightarrow> y | None \<Rightarrow> x) + - ?z)"
        using ok by (simp add: AtDebit expected_writes_def in_range_def paid_out_def)
    qed simp
    then show ?thesis using nf by (simp add: run_leg_def Let_def AtDebit)
  next
    case AtCredit
    have "no_failure (update_balance l ?t ?z AtCommit w)"
    proof (rule update_no_failure [OF nf])
      fix x
      assume x: "balances w ?t = Some x"
      have "\<not> is_committed ?g" by (simp add: is_committed_def AtCredit)
      from room [OF this x] pos [of ?g ?t]
      show "in_range ((case own_writes ?g ?t of Some y \<Rightarrow> y | None \<Rightarrow> x) + ?z)"
        using ok x by (auto simp: AtCredit expected_writes_def in_range_def paid_out_def paid_in_def debited_def split: option.split if_splits)
    qed simp
    then show ?thesis using nf by (simp add: run_leg_def Let_def AtCredit)
  qed (use nf in \<open>auto simp: run_leg_def Let_def intro!: no_failure_set [OF nf]\<close>)
qed

lemma solvent_step: "solvent b (legs (bank_step e w)) = solvent b (legs w)"
proof -
  have p: "map plan (legs (bank_step e w)) = map plan (legs w)"
    using bank_step_plans [of e w] by (intro nth_equalityI) simp_all
  have o: "map (paid_out r) gs = map (\<lambda>p. if fromAccountId p = r then amountCents p else 0) (map plan gs)"
    "map (paid_in r) gs = map (\<lambda>p. if toAccountId p = r then amountCents p else 0) (map plan gs)" for r gs
    by (simp_all add: paid_out_def paid_in_def)
  have a: "(\<forall>g \<in> set gs. 0 \<le> amountCents (plan g)) \<longleftrightarrow> (\<forall>q \<in> set (map plan gs). 0 \<le> amountCents q)" for gs by simp
  show ?thesis unfolding solvent_def o a p ..
qed

lemma ledger_step:
  assumes "ledger b w"
  shows "ledger b (bank_step e w)"
proof -
  have ok: "bank_ok w" and nf: "no_failure w" using assms by (simp_all add: ledger_def)
  have "no_failure (bank_step e w)"
    using nf ledger_run [OF assms] deadlock_no_failure [OF nf] by (cases e) simp_all
  moreover have "balances (bank_step e w) r = map_option (\<lambda>x. x + settled (legs (bank_step e w)) r) (b r)" for r
    using step_settled [OF ok, of e r] assms by (cases "b r") (simp_all add: ledger_def)
  ultimately show ?thesis
    using bank_step_ok [OF ok, of e] solvent_step [of b e w] assms by (simp add: ledger_def del: bank_step.simps)
qed

lemma ledger_runs: "ledger b w \<Longrightarrow> ledger b (bank_run es w)"
  by (induction es arbitrary: w) (simp_all add: ledger_step del: bank_step.simps)

section \<open>Two opposite transfers that meet at the rendezvous\<close>

definition duel :: "nat \<Rightarrow> nat \<Rightarrow> int \<Rightarrow> int \<Rightarrow> leg list" where
  "duel a c x y = [new_leg (planLeg NaiveLockOrder a c x) 1 (Some 1), new_leg (planLeg NaiveLockOrder c a y) 1 (Some 0)]"

definition static :: "leg \<Rightarrow> nat \<Rightarrow> nat \<Rightarrow> int \<Rightarrow> nat \<Rightarrow> bool" where
  "static g f t z q \<longleftrightarrow> plan g = planLeg NaiveLockOrder f t z \<and> attempt g = 1 \<and> maxAttempts g = 1 \<and> peer g = Some q"

definition legOutcome :: "bank \<Rightarrow> nat \<Rightarrow> LegOutcome option" where
  "legOutcome w l = (case pc (legs w ! l) of AtEnd r \<Rightarrow> Some r | _ \<Rightarrow> None)"

definition met :: "leg \<Rightarrow> bool" where
  "met g \<longleftrightarrow> pc g = AtBarrier \<or> pc g = AtSecond"

text \<open>Before a victim is picked: each leg gets its first row, waits for the other and then for the other's row.\<close>

definition side :: "nat \<Rightarrow> nat \<Rightarrow> int \<Rightarrow> nat \<Rightarrow> bank \<Rightarrow> bool" where
  "side f t z l w \<longleftrightarrow> static (legs w ! l) f t z (1 - l) \<and> own_writes (legs w ! l) = Map.empty
     \<and> (pc (legs w ! l) = AtBegin \<or> pc (legs w ! l) = AtFirst \<or> met (legs w ! l))
     \<and> (pc (legs w ! l) = AtSecond \<longrightarrow> met (legs w ! (1 - l)))
     \<and> (l \<in> arrived w \<longleftrightarrow> met (legs w ! l)) \<and> row_lock w f = (if met (legs w ! l) then Some l else None)"

definition gate :: "(nat \<rightharpoonup> int) \<Rightarrow> nat \<Rightarrow> nat \<Rightarrow> int \<Rightarrow> int \<Rightarrow> bank \<Rightarrow> bool" where
  "gate b a c x y w \<longleftrightarrow> length (legs w) = 2 \<and> balances w = b \<and> side a c x 0 w \<and> side c a y 1 w"

text \<open>After that: the victim is done and holds nothing, the survivor goes on with its transfer.\<close>

definition survivor :: "(nat \<rightharpoonup> int) \<Rightarrow> nat \<Rightarrow> nat \<Rightarrow> int \<Rightarrow> leg \<Rightarrow> (nat \<rightharpoonup> int) \<Rightarrow> bool" where
  "survivor b f t z g b' \<longleftrightarrow>
     (case pc g of
        AtSecond \<Rightarrow> own_writes g = Map.empty \<and> b' = b
      | AtDebit \<Rightarrow> own_writes g = Map.empty \<and> b' = b
      | AtCredit \<Rightarrow> own_writes g = [f \<mapsto> the (b f) - z] \<and> b' = b
      | AtCommit \<Rightarrow> own_writes g = [f \<mapsto> the (b f) - z, t \<mapsto> the (b t) + z] \<and> b' = b
      | AtEnd r \<Rightarrow> r = \<lparr>leg_status = Committed, sqlstate = None, attempts = 1\<rparr> \<and> b' = b(f \<mapsto> the (b f) - z, t \<mapsto> the (b t) + z)
      | _ \<Rightarrow> False)"

definition decided :: "(nat \<rightharpoonup> int) \<Rightarrow> nat \<Rightarrow> nat \<Rightarrow> int \<Rightarrow> nat \<Rightarrow> bank \<Rightarrow> bool" where
  "decided b f t z s w \<longleftrightarrow> length (legs w) = 2 \<and> s < 2 \<and> static (legs w ! s) f t z (1 - s)
     \<and> pc (legs w ! (1 - s)) = AtEnd \<lparr>leg_status = DeadlockAborted, sqlstate = Some DEADLOCK_DETECTED_SQLSTATE, attempts = 1\<rparr>
     \<and> survivor b f t z (legs w ! s) (balances w)
     \<and> row_lock w f \<in> {None, Some s} \<and> row_lock w t \<in> {None, Some s}"

lemma gate_new: "a \<noteq> c \<Longrightarrow> gate b a c x y (new_bank b (duel a c x y))"
  by (simp add: gate_def side_def new_bank_def duel_def static_def new_leg_def met_def)

lemma static_plan:
  assumes "static g f t z q"
  shows "firstLockId (plan g) = f" "secondLockId (plan g) = t" "fromAccountId (plan g) = f" "toAccountId (plan g) = t"
    "amountCents (plan g) = z" "attempt g = 1" "maxAttempts g = 1" "peer g = Some q"
  using assms by (simp_all add: static_def planLeg_def)

lemma static_step [simp]: "static (g\<lparr>pc := k\<rparr>) f t z q = static g f t z q" "static (g\<lparr>own_writes := u\<rparr>) f t z q = static g f t z q"
  by (simp_all add: static_def)

lemma met_simps [simp]:
  "met (g\<lparr>pc := k\<rparr>) \<longleftrightarrow> k = AtBarrier \<or> k = AtSecond" "met (g\<lparr>own_writes := u\<rparr>) = met g"
  by (simp_all add: met_def)

lemma side_run:
  assumes "side f t z l w" and "side t f z' k w" and n: "length (legs w) = 2" "l < 2" "k = 1 - l"
    and "f \<noteq> t" and "balances w f \<noteq> None"
  shows "length (legs (run_leg l w)) = 2 \<and> balances (run_leg l w) = balances w \<and> side f t z l (run_leg l w) \<and> side t f z' k (run_leg l w)"
proof -
  let ?g = "legs w ! l"
  have w: "static ?g f t z (1 - l)" using assms(1) by (simp add: side_def)
  have k: "k < 2" "k \<noteq> l" "l \<noteq> k" "1 - k = l" "1 - l = k" using n(2,3) by arith+
  note p = static_plan [OF w]
  consider "pc ?g = AtBegin" | "pc ?g = AtFirst" | "pc ?g = AtBarrier" | "pc ?g = AtSecond"
    using assms(1) unfolding side_def met_def by blast
  then show ?thesis
  proof cases
    case 1
    then have m: "\<not> met ?g" by (simp add: met_def)
    have r: "run_leg l w = set_leg l (?g\<lparr>pc := AtFirst, own_writes := Map.empty\<rparr>) w"
      using 1 by (simp add: run_leg_def Let_def blocker_def wants_def)
    show ?thesis unfolding r using assms(1,2) m n k by (auto simp: side_def)
  next
    case 2
    then have m: "\<not> met ?g" by (simp add: met_def)
    have r: "run_leg l w = (set_leg l (?g\<lparr>pc := AtBarrier\<rparr>) (lock_row l f w))\<lparr>arrived := insert l (arrived w)\<rparr>"
      using assms(1) m 2 by (simp add: run_leg_def Let_def p blocker_def wants_def side_def)
    show ?thesis unfolding r using assms(1,2,6,7) m n k by (auto simp: side_def row_lock_simps)
  next
    case 3
    then have m: "met ?g" by (simp add: met_def)
    have r: "run_leg l w = (if met (legs w ! k) then set_leg l (?g\<lparr>pc := AtSecond\<rparr>) w else w)"
      using assms(2) 3 k by (simp add: run_leg_def Let_def p blocker_def wants_def side_def)
    show ?thesis unfolding r using assms(1,2) m n k by (auto simp: side_def)
  next
    case 4
    then have "met (legs w ! k)" "row_lock w t = (if met (legs w ! k) then Some k else None)"
      using assms(1,2) k by (simp_all add: side_def)
    then have "blocker w l = Some k" using 4 k by (simp add: p blocker_def wants_def)
    then show ?thesis using assms(1,2) n by (simp add: run_leg_def Let_def)
  qed
qed

lemma gate_run:
  assumes "gate b a c x y w" and "a \<noteq> c" and "b a \<noteq> None" and "b c \<noteq> None" and "l < 2"
  shows "gate b a c x y (run_leg l w)"
proof -
  from assms(5) consider "l = 0" | "l = 1" by linarith
  then show ?thesis
  proof cases
    case 1
    then show ?thesis using side_run [of a c x 0 w y 1] assms by (simp add: gate_def)
  next
    case 2
    then show ?thesis using side_run [of c a y 1 w x 0] assms by (auto simp: gate_def)
  qed
qed

text \<open>Only when both legs wait for each other is there a victim.\<close>

lemma side_blocked:
  assumes "side f t z l w" and "side t f z' (1 - l) w" and "l < 2"
  shows "blocker w l = (if pc (legs w ! l) = AtSecond then Some (1 - l) else None)"
proof -
  have w: "static (legs w ! l) f t z (1 - l)" using assms(1) by (simp add: side_def)
  have k: "1 - l \<noteq> l" using assms(3) by arith
  consider "pc (legs w ! l) = AtBegin" | "pc (legs w ! l) = AtFirst" | "pc (legs w ! l) = AtBarrier" | "pc (legs w ! l) = AtSecond"
    using assms(1) unfolding side_def met_def by blast
  then show ?thesis
  proof cases
    case 2
    then have "\<not> met (legs w ! l)" by (simp add: met_def)
    then show ?thesis using assms(1) 2 by (simp add: blocker_def wants_def side_def static_plan [OF w])
  next
    case 4
    then have "row_lock w t = Some (1 - l)" using assms(1,2) by (simp add: side_def)
    then show ?thesis using k 4 by (simp add: blocker_def wants_def static_plan [OF w])
  qed (simp_all add: blocker_def wants_def)
qed

lemma gate_cycle:
  assumes "gate b a c x y w" and "l < 2"
  shows "on_cycle w l \<longleftrightarrow> pc (legs w ! 0) = AtSecond \<and> pc (legs w ! 1) = AtSecond"
proof -
  have s: "side a c x 0 w" "side c a y 1 w" "length (legs w) = Suc (Suc 0)" using assms(1) by (simp_all add: gate_def)
  have b: "blocker w 0 = (if pc (legs w ! 0) = AtSecond then Some 1 else None)"
    "blocker w 1 = (if pc (legs w ! 1) = AtSecond then Some 0 else None)"
    using side_blocked [of a c x 0 w y] side_blocked [of c a y 1 w x] s by simp_all
  from assms(2) consider "l = 0" | "l = 1" by linarith
  then show ?thesis by cases (use b in \<open>auto simp: on_cycle_def s(3)\<close>)
qed

lemma victim_decides:
  assumes "side f t z s w" and "side t f z' k w" and n: "length (legs w) = 2" "s < 2" "k = 1 - s" and "f \<noteq> t"
    and "pc (legs w ! s) = AtSecond"
  shows "decided (balances w) f t z s (fail_leg k DEADLOCK_DETECTED_SQLSTATE w)"
proof -
  have k: "k < 2" "k \<noteq> s" "s \<noteq> k" "1 - s = k" "1 - k = s" using n(2,3) by arith+
  have m: "met (legs w ! s)" "met (legs w ! k)" using assms(1,2,7) k by (simp_all add: met_def side_def)
  then have r: "row_lock w f = Some s" "row_lock w t = Some k" using assms(1,2) by (simp_all add: side_def)
  have a: "static (legs w ! s) f t z k" "static (legs w ! k) t f z' s" "own_writes (legs w ! s) = Map.empty"
    using assms(1,2) k by (simp_all add: side_def)
  show ?thesis
    using assms(7) n k r a static_plan [OF a(2)]
    by (simp add: decided_def fail_leg_def Let_def survivor_def row_lock_simps toOutcome_def)
qed

lemma decided_blocked: "decided b f t z s w \<Longrightarrow> l < 2 \<Longrightarrow> blocker w l = None"
proof -
  assume d: "decided b f t z s w" and l: "l < 2"
  then have st: "static (legs w ! s) f t z (1 - s)" by (simp add: decided_def)
  show ?thesis
  proof (cases "l = s")
    case True
    then show ?thesis using d by (auto simp: blocker_def decided_def wants_def survivor_def static_plan [OF st] split: leg_pc.splits)
  next
    case False
    then have "l = 1 - s" using d l unfolding decided_def by arith
    then show ?thesis using d by (simp add: blocker_def decided_def wants_def)
  qed
qed

text \<open>The survivor's transfer is covered and fits the column.\<close>

definition covered :: "(nat \<rightharpoonup> int) \<Rightarrow> nat \<Rightarrow> nat \<Rightarrow> int \<Rightarrow> bool" where
  "covered b f t z \<longleftrightarrow> f \<noteq> t \<and> (\<exists>p q. b f = Some p \<and> b t = Some q \<and> 0 \<le> z \<and> z \<le> p \<and> p < 2 ^ 31 \<and> 0 \<le> q \<and> q + z < 2 ^ 31)"

lemma decided_run:
  assumes d: "decided b f t z s w" and c: "covered b f t z" and l: "l < 2"
  shows "decided b f t z s (run_leg l w)"
proof (cases "l = s")
  case False
  then have "l = 1 - s" using d l unfolding decided_def by arith
  then have "run_leg l w = w" using d by (simp add: run_leg_def Let_def decided_def)
  then show ?thesis using d by simp
next
  case True
  let ?g = "legs w ! s"
  have st: "static ?g f t z (1 - s)" and n: "length (legs w) = 2" "s < 2" "1 - s \<noteq> s"
    using d unfolding decided_def by (simp_all, arith)
  have free: "blocker w s = None" by (rule decided_blocked [OF d n(2)])
  obtain p q where b: "b f = Some p" "b t = Some q" "0 \<le> z" "z \<le> p" "p < 2 ^ 31" "0 \<le> q" "q + z < 2 ^ 31" "f \<noteq> t"
    using c unfolding covered_def by blast
  note facts = run_leg_def Let_def free static_plan [OF st]
  have out: "decided b f t z s w'"
    if "legs w' = (legs w)[s := g]" "static g f t z (1 - s)" "survivor b f t z g (balances w')"
      "\<forall>r. row_lock w' r \<in> {None, Some s, row_lock w r}" for w' g
    using d n that unfolding decided_def by (auto simp del: not_None_eq)
  have "survivor b f t z ?g (balances w)" using d by (simp add: decided_def)
  then consider "pc ?g = AtSecond" "own_writes ?g = Map.empty" "balances w = b"
    | "pc ?g = AtDebit" "own_writes ?g = Map.empty" "balances w = b"
    | "pc ?g = AtCredit" "own_writes ?g = [f \<mapsto> p - z]" "balances w = b"
    | "pc ?g = AtCommit" "own_writes ?g = [f \<mapsto> p - z, t \<mapsto> q + z]" "balances w = b"
    | r where "pc ?g = AtEnd r"
    using b(1,2) by (auto simp: survivor_def split: leg_pc.splits)
  then show ?thesis
  proof cases
    case 1
    then have r: "run_leg l w = set_leg s (?g\<lparr>pc := AtDebit\<rparr>) (lock_row s t w)" by (simp add: True facts)
    show ?thesis unfolding r by (rule out [where g = "?g\<lparr>pc := AtDebit\<rparr>"]) (use 1 st in \<open>simp_all add: survivor_def row_lock_simps\<close>)
  next
    case 2
    then have r: "run_leg l w = set_leg s (?g\<lparr>pc := AtCredit, own_writes := [f \<mapsto> p - z]\<rparr>) (lock_row s f w)"
      using b by (simp add: True facts update_balance_def)
    show ?thesis unfolding r
      by (rule out [where g = "?g\<lparr>pc := AtCredit, own_writes := [f \<mapsto> p - z]\<rparr>"]) (use 2 st b in \<open>simp_all add: survivor_def row_lock_simps\<close>)
  next
    case 3
    then have r: "run_leg l w = set_leg s (?g\<lparr>pc := AtCommit, own_writes := [f \<mapsto> p - z, t \<mapsto> q + z]\<rparr>) (lock_row s t w)"
      using b by (simp add: True facts update_balance_def)
    show ?thesis unfolding r
      by (rule out [where g = "?g\<lparr>pc := AtCommit, own_writes := [f \<mapsto> p - z, t \<mapsto> q + z]\<rparr>"]) (use 3 st b in \<open>simp_all add: survivor_def row_lock_simps\<close>)
  next
    case 4
    show ?thesis
      by (rule out [where g = "?g\<lparr>pc := AtEnd \<lparr>leg_status = Committed, sqlstate = None, attempts = 1\<rparr>, own_writes := Map.empty\<rparr>"])
        (use 4 st b in \<open>simp_all add: True facts survivor_def row_lock_simps map_add_def fun_eq_iff\<close>)
  next
    case (5 r)
    then show ?thesis using d by (simp add: True facts)
  qed
qed

definition duel_phase :: "(nat \<rightharpoonup> int) \<Rightarrow> nat \<Rightarrow> nat \<Rightarrow> int \<Rightarrow> int \<Rightarrow> bank \<Rightarrow> bool" where
  "duel_phase b a c x y w \<longleftrightarrow> gate b a c x y w \<or> decided b a c x 0 w \<or> decided b c a y 1 w"

lemma duel_length: "duel_phase b a c x y w \<Longrightarrow> length (legs w) = 2"
  by (auto simp: duel_phase_def gate_def decided_def)

lemma decided_no_cycle: "decided b f t z s w \<Longrightarrow> l < 2 \<Longrightarrow> \<not> on_cycle w l"
  using decided_blocked cycle_blocked by blast

lemma duel_step:
  assumes p: "duel_phase b a c x y w" and c: "covered b a c x" "covered b c a y"
  shows "duel_phase b a c x y (bank_step e w)"
proof -
  have n: "length (legs w) = 2" by (rule duel_length [OF p])
  have ac: "a \<noteq> c" "c \<noteq> a" "b a \<noteq> None" "b c \<noteq> None" using c(1) by (auto simp: covered_def)
  show ?thesis
  proof (cases e)
    case (Run l)
    show ?thesis
    proof (cases "l < 2")
      case True
      then show ?thesis
        using p Run n gate_run [OF _ ac(1,3,4) True] decided_run [OF _ c(1) True] decided_run [OF _ c(2) True]
        unfolding duel_phase_def by auto
    qed (use p Run n in simp)
  next
    case (Victim l)
    show ?thesis
    proof (cases "l < 2 \<and> on_cycle w l")
      case True
      then have g: "gate b a c x y w" using p decided_no_cycle unfolding duel_phase_def by blast
      then have s: "side a c x 0 w" "side c a y 1 w" "balances w = b" by (simp_all add: gate_def)
      have at: "pc (legs w ! 0) = AtSecond" "pc (legs w ! 1) = AtSecond"
        using True gate_cycle [OF g, of l] by blast+
      consider "l = 0" | "l = 1" using True by linarith
      then show ?thesis
      proof cases
        case 1
        then show ?thesis using victim_decides [OF s(2,1) n _ _ ac(2) at(2)] True Victim s(3) n by (simp add: duel_phase_def)
      next
        case 2
        then show ?thesis using victim_decides [OF s(1,2) n _ _ ac(1) at(1)] True Victim s(3) n by (simp add: duel_phase_def)
      qed
    qed (use p Victim n in auto)
  qed
qed

lemma duel_run: "duel_phase b a c x y w \<Longrightarrow> covered b a c x \<Longrightarrow> covered b c a y \<Longrightarrow> duel_phase b a c x y (bank_run es w)"
  by (induction es arbitrary: w) (simp_all add: duel_step del: bank_step.simps)

text \<open>Until both legs are done each of them can go, or is a victim.\<close>

lemma decided_moves:
  assumes "decided b f t z s w" and "\<not> finished w"
  shows "can_go w s"
proof -
  have s: "s < 2" "length (legs w) = 2" "\<exists>r. pc (legs w ! (1 - s)) = AtEnd r" "survivor b f t z (legs w ! s) (balances w)"
    using assms(1) by (simp_all add: decided_def)
  have "\<exists>r. pc (legs w ! l) = AtEnd r" if "l < 2" "\<exists>r. pc (legs w ! s) = AtEnd r" for l
  proof -
    have "l = s \<or> l = 1 - s" using that(1) s(1) by linarith
    then show ?thesis using that(2) s(3) by blast
  qed
  then have "\<nexists>r. pc (legs w ! s) = AtEnd r" using assms(2) s(2) unfolding finished_def by force
  moreover have "pc (legs w ! s) \<noteq> AtBarrier" using s(4) by (auto simp: survivor_def)
  ultimately show ?thesis using decided_blocked [OF assms(1) s(1)] by (simp add: can_go_def)
qed

lemma gate_moves:
  assumes "gate b a c x y w"
  shows "can_go w 0 \<or> can_go w 1 \<or> (\<forall>l < 2. on_cycle w l)"
proof (cases "pc (legs w ! 0) = AtSecond \<and> pc (legs w ! 1) = AtSecond")
  case True
  then show ?thesis using gate_cycle [OF assms] by blast
next
  case False
  have s: "side a c x 0 w" "side c a y 1 w" using assms by (simp_all add: gate_def)
  have go: "can_go w l" if "side f t z l w" "side t f z' (1 - l) w" "l < 2" "pc (legs w ! l) \<noteq> AtSecond"
    "pc (legs w ! l) = AtBarrier \<longrightarrow> met (legs w ! (1 - l))" for f t z z' l
  proof -
    have st: "peer (legs w ! l) = Some (1 - l)" using that(1) by (simp add: side_def static_def)
    have "1 - l \<in> arrived w \<longleftrightarrow> met (legs w ! (1 - l))" using that(2) by (simp add: side_def)
    moreover have "\<nexists>r. pc (legs w ! l) = AtEnd r" using that(1) by (auto simp: side_def met_def)
    ultimately show ?thesis using that side_blocked [OF that(1-3)] st by (simp add: can_go_def)
  qed
  have zero: "can_go w 0" if "pc (legs w ! 0) \<noteq> AtSecond" "pc (legs w ! 0) = AtBarrier \<longrightarrow> met (legs w ! 1)"
    using go [of a c x 0 y] s that by simp
  have one: "can_go w 1" if "pc (legs w ! 1) \<noteq> AtSecond" "pc (legs w ! 1) = AtBarrier \<longrightarrow> met (legs w ! 0)"
    using go [of c a y 1 x] s that by simp
  have sec: "pc (legs w ! 0) = AtSecond \<longrightarrow> met (legs w ! 1)" "pc (legs w ! 1) = AtSecond \<longrightarrow> met (legs w ! 0)"
    using s by (simp_all add: side_def)
  show ?thesis
    using zero one sec False unfolding met_def by blast
qed

lemma duel_moves:
  assumes p: "duel_phase b a c x y w" and "backoff_ok w" and "\<not> finished w"
    and sweep: "Run 0 \<in> set sweep" "Run 1 \<in> set sweep" "\<exists>v < 2. Victim v \<in> set sweep"
  shows "\<exists>e \<in> set sweep. bank_effort (bank_step e w) < bank_effort w"
proof -
  have n: "length (legs w) = 2" by (rule duel_length [OF p])
  have go: "bank_effort (bank_step (Run l) w) < bank_effort w" if "can_go w l" "l < 2" for l
    using go_effort [OF assms(2) _ that(1)] that(2) n by simp
  have hit: ?thesis if "\<forall>l < 2. on_cycle w l"
  proof -
    obtain v where v: "v < 2" "Victim v \<in> set sweep" using sweep(3) by auto
    then show ?thesis using victim_effort [of w v] that n by (intro bexI [of _ "Victim v"]) simp_all
  qed
  consider "can_go w 0" | "can_go w 1" | "\<forall>l < 2. on_cycle w l"
    using p gate_moves decided_moves [OF _ assms(3)] unfolding duel_phase_def by blast
  then show ?thesis
  proof cases
    case 1
    show ?thesis using go [OF 1] by (intro bexI [OF _ sweep(1)]) simp
  next
    case 2
    show ?thesis using go [OF 2] by (intro bexI [OF _ sweep(2)]) simp
  qed (rule hit)
qed

lemma duel_sweeps:
  assumes "duel_phase b a c x y w" and "covered b a c x" and "covered b c a y" and "backoff_ok w"
    and "\<forall>sweep \<in> set sweeps. Run 0 \<in> set sweep \<and> Run 1 \<in> set sweep \<and> (\<exists>v < 2. Victim v \<in> set sweep)"
    and "bank_effort w \<le> length sweeps"
  shows "finished (bank_run (concat sweeps) w)"
proof (rule sweeps_end [where S = "{sweep. Run 0 \<in> set sweep \<and> Run 1 \<in> set sweep \<and> (\<exists>v < 2. Victim v \<in> set sweep)}"
      and I = "\<lambda>v. duel_phase b a c x y v \<and> backoff_ok v"])
  fix v sweep
  assume "duel_phase b a c x y v \<and> backoff_ok v" "\<not> finished v"
    "sweep \<in> {sweep. Run 0 \<in> set sweep \<and> Run 1 \<in> set sweep \<and> (\<exists>v < 2. Victim v \<in> set sweep)}"
  then show "\<exists>e \<in> set sweep. bank_effort (bank_step e v) < bank_effort v" using duel_moves [of b a c x y v sweep] by blast
qed (use assms duel_step backoff_step in auto)

lemma duel_ends:
  assumes "duel_phase b a c x y w" and "finished w"
  shows "decided b a c x 0 w \<or> decided b c a y 1 w"
proof -
  have "\<not> gate b a c x y w"
  proof
    assume g: "gate b a c x y w"
    then have "\<exists>r. pc (legs w ! 0) = AtEnd r" using assms(2) by (simp add: finished_def gate_def)
    then show False using g by (auto simp: gate_def side_def met_def)
  qed
  then show ?thesis using assms(1) unfolding duel_phase_def by blast
qed

lemma finished_decided:
  assumes "decided b f t z s w" and "finished w"
  shows "legOutcome w s = Some \<lparr>leg_status = Committed, sqlstate = None, attempts = 1\<rparr>
    \<and> legOutcome w (1 - s) = Some \<lparr>leg_status = DeadlockAborted, sqlstate = Some DEADLOCK_DETECTED_SQLSTATE, attempts = 1\<rparr>
    \<and> balances w = b(f \<mapsto> the (b f) - z, t \<mapsto> the (b t) + z)"
proof -
  have "s < 2" "length (legs w) = 2" using assms(1) by (simp_all add: decided_def)
  then obtain r where r: "pc (legs w ! s) = AtEnd r" using assms(2) unfolding finished_def by metis
  then show ?thesis using assms(1) by (simp add: decided_def survivor_def legOutcome_def)
qed

section \<open>Properties\<close>

definition transfers :: "LockOrderStrategy \<Rightarrow> nat \<Rightarrow> (nat \<times> nat \<times> int) list \<Rightarrow> leg list" where
  "transfers strategy n ts = map (\<lambda>(a, b, amount). new_leg (planLeg strategy a b amount) n None) ts"

lemma transfers_start:
  assumes "w = new_bank b (transfers strategy n ts)"
  shows "bank_ok w" and "backoff_ok w" and "calm w" and "strategy = ConsistentLockOrder \<Longrightarrow> ordered w"
    and "length (legs w) = length ts" and "bank_effort w = length ts * ((n - 1) * 10 + 8)"
proof -
  have g: "legs w ! l = (case ts ! l of (a, b, amount) \<Rightarrow> new_leg (planLeg strategy a b amount) n None)" if "l < length ts" for l
    using assms that by (simp add: new_bank_def transfers_def)
  show len: "length (legs w) = length ts" by (simp add: assms new_bank_def transfers_def)
  show "bank_ok w" unfolding assms
    by (rule new_bank_ok) (auto simp: transfers_def intro: plan_ok_planLeg)
  show "backoff_ok w" "calm w"
    using g len by (auto simp: backoff_ok_def calm_def new_leg_def split: prod.splits)
  show "strategy = ConsistentLockOrder \<Longrightarrow> ordered w"
    using g len by (auto simp: ordered_def new_leg_def planLeg_def split: prod.splits)
  have "map leg_effort (legs w) = map (\<lambda>t. (n - 1) * 10 + 8) ts"
    by (auto simp: assms new_bank_def transfers_def leg_effort_def new_leg_def)
  then show "bank_effort w = length ts * ((n - 1) * 10 + 8)" by (simp add: bank_effort_def map_replicate_const sum_list_replicate)
qed

text \<open>
  C6: Legs planned with the consistent order never form a wait cycle, whatever the interleaving and the
  number of transfers. No leg is aborted for a deadlock, and once every leg has been scheduled often enough
  all of them are done and no row is locked.\<close>

theorem consistent_order_deadlock_free:
  assumes start: "w = new_bank b (transfers ConsistentLockOrder n ts)" and "1 \<le> n"
    and "\<forall>sweep \<in> set sweeps. \<forall>l < length ts. Run l \<in> set sweep" and "length ts * (10 * n) \<le> length sweeps"
  shows "\<not> on_cycle (bank_run es w) l
    \<and> (\<forall>g \<in> set (legs (bank_run (concat sweeps) w)). \<exists>r. pc g = AtEnd r \<and> leg_status r \<noteq> DeadlockAborted)
    \<and> (\<forall>r. row_lock (bank_run (concat sweeps) w) r = None)"
proof -
  let ?v = "bank_run (concat sweeps) w"
  note s = transfers_start [OF start]
  note s' = s(1) s(4) [OF refl] s(3)
  have e: "\<not> on_cycle (bank_run es w) l" using calm_run_all [OF s', of es] no_cycle by blast
  have "length ts * ((n - 1) * 10 + 8) \<le> length ts * (10 * n)" using assms(2) by (intro mult_le_mono2) simp
  then have "bank_effort w \<le> length sweeps" using assms(4) s(6) by linarith
  then have fin: "finished ?v" using assms(3) s(5) by (intro sweeps_finish s s(4) refl) simp_all
  have v: "bank_ok ?v" "calm ?v" using calm_run_all [OF s', of "concat sweeps"] by simp_all
  have ends: "\<forall>g \<in> set (legs ?v). \<exists>r. pc g = AtEnd r \<and> leg_status r \<noteq> DeadlockAborted"
    using fin v(2) unfolding finished_def calm_def all_set_conv_all_nth by blast
  have "row_lock ?v r = None" for r
  proof (rule ccontr)
    assume "row_lock ?v r \<noteq> None"
    then obtain m where m: "row_lock ?v r = Some m" by blast
    then have "m < length (legs ?v)" "r \<in> held (legs ?v ! m)"
      using bank_okD [OF v(1)] by (auto simp: leg_ok_def)
    then show False using fin by (auto simp: finished_def held_def)
  qed
  then show ?thesis using e ends by blast
qed

lemma consistent_order_deadlock_free_witness:
  "\<not> on_cycle (bank_run [Run 0, Run 0, Run 1, Run 1]
      (new_bank [1 \<mapsto> 100000, 2 \<mapsto> 100000] (transfers ConsistentLockOrder 1 [(1, 2, 25000), (2, 1, 40000)]))) 1"
  using consistent_order_deadlock_free
    [of _ "[1 \<mapsto> 100000, 2 \<mapsto> 100000]" 1 "[(1, 2, 25000), (2, 1, 40000)]" "replicate 20 [Run 1, Run 0]"
      "[Run 0, Run 0, Run 1, Run 1]" 1, OF refl]
  by (simp add: less_Suc_eq)

text \<open>
  C5: Whatever the strategies, the retries, the interleaving and the victims the detector picks, an account
  holds at every moment what it started with plus the transfers of the committed legs, each counted once;
  no balance leaves the column's range. With both accounts of every leg in the table no cent is lost.\<close>

theorem committed_transfers_apply_once:
  assumes "\<forall>g \<in> set gs. \<exists>strategy a c amount n q. g = new_leg (planLeg strategy a c amount) n q"
    and "\<forall>r x. b r = Some x \<longrightarrow> in_range x" and w: "w = bank_run es (new_bank b gs)"
  shows "balances w r = map_option (\<lambda>x. x + settled (legs w) r) (b r)
    \<and> (\<forall>x. balances w r = Some x \<longrightarrow> 0 \<le> x \<and> x < 2 ^ 31)
    \<and> ((\<forall>g \<in> set gs. fromAccountId (plan g) \<in> dom b \<and> toAccountId (plan g) \<in> dom b) \<longrightarrow> finite (dom b) \<longrightarrow>
        (\<Sum>r \<in> dom b. the (balances w r)) = (\<Sum>r \<in> dom b. the (b r)))"
proof -
  let ?s = "new_bank b gs"
  have ok: "bank_ok ?s"
    using assms(1) plan_ok_planLeg by (intro new_bank_ok) blast
  have n: "own_writes g = Map.empty \<and> \<not> is_committed g" if "g \<in> set gs" for g
    using assms(1) that by (auto simp: new_leg_def is_committed_def)
  have sound: "sound ?s" using assms(2) n by (simp add: sound_def new_bank_def)
  have "settled gs r = sum_list (map (\<lambda>g. 0) gs)" unfolding settled_def
    by (rule arg_cong [of _ _ sum_list], rule map_cong) (simp_all add: n)
  then have "settled gs r = 0" by simp
  then have one: "balances w r = map_option (\<lambda>x. x + settled (legs w) r) (b r)"
    using bank_run_settled [OF ok, of es r] w by (simp add: new_bank_def)
  have "sound w" using run_sound [OF ok sound] w by simp
  then have two: "\<forall>x. balances w r = Some x \<longrightarrow> 0 \<le> x \<and> x < 2 ^ 31" by (simp add: sound_def in_range_def)
  have "(\<Sum>r \<in> dom b. the (balances w r)) = (\<Sum>r \<in> dom b. the (b r))"
    if "\<forall>g \<in> set gs. fromAccountId (plan g) \<in> dom b \<and> toAccountId (plan g) \<in> dom b" "finite (dom b)"
  proof -
    have "accounts_exist ?s" using that(1) unfolding accounts_exist_def new_bank_def by (auto simp: domIff)
    from bank_run_money [OF ok this _ sound, of es] that(2) w
    have "total_money w = total_money ?s" "dom (balances w) = dom b" by (simp_all add: new_bank_def)
    then show ?thesis by (simp add: total_money_def new_bank_def)
  qed
  then show ?thesis using one two by blast
qed

lemma committed_transfers_apply_once_witness:
  "balances (bank_run [Run 0, Run 1, Run 0] (new_bank [1 \<mapsto> 10, 2 \<mapsto> 0] [new_leg (planLeg NaiveLockOrder 1 2 7) 5 None])) 2
   = map_option (\<lambda>x. x + settled (legs (bank_run [Run 0, Run 1, Run 0]
       (new_bank [1 \<mapsto> 10, 2 \<mapsto> 0] [new_leg (planLeg NaiveLockOrder 1 2 7) 5 None]))) 2) (Some 0)"
proof -
  let ?gs = "[new_leg (planLeg NaiveLockOrder 1 2 7) 5 None]" and ?b = "[1 \<mapsto> 10, 2 \<mapsto> 0] :: nat \<rightharpoonup> int"
  have g: "\<forall>g \<in> set ?gs. \<exists>strategy a c amount n q. g = new_leg (planLeg strategy a c amount) n q" by (simp del: One_nat_def) blast
  have r: "\<forall>r x. ?b r = Some x \<longrightarrow> in_range x" by (simp add: in_range_def)
  from committed_transfers_apply_once [OF g r refl, of "[Run 0, Run 1, Run 0]" 2, THEN conjunct1] show ?thesis
    by (simp only: fun_upd_same)
qed

section \<open>The scenarios\<close>

definition ACCOUNT_BASELINE :: int where "ACCOUNT_BASELINE = 1000000"
definition TRANSFER_A_TO_B_CENTS :: int where "TRANSFER_A_TO_B_CENTS = 25000"
definition TRANSFER_B_TO_A_CENTS :: int where "TRANSFER_B_TO_A_CENTS = 40000"

record DeadlockResult =
  outcomeA :: LegOutcome
  outcomeB :: LegOutcome
  deadlockReproduced :: bool
  finalBalanceAccountA :: int
  finalBalanceAccountB :: int

text \<open>
  The scenarios of \<open>reproduce-deadlock.ts\<close> and \<open>consistent-lock-ordering.ts\<close>; \<open>None\<close> when an account is
  missing or a leg has not ended under the schedule.\<close>

definition reproduceDeadlock :: "bank_event list \<Rightarrow> nat \<Rightarrow> nat \<Rightarrow> (nat \<rightharpoonup> int) \<Rightarrow> DeadlockResult option" where
  "reproduceDeadlock es a c b =
     (if b a = None \<or> b c = None then None
      else
        let w = bank_run es (new_bank (b(a \<mapsto> ACCOUNT_BASELINE, c \<mapsto> ACCOUNT_BASELINE))
                  (duel a c TRANSFER_A_TO_B_CENTS TRANSFER_B_TO_A_CENTS))
        in (case (legOutcome w 0, legOutcome w 1) of
              (Some oA, Some oB) \<Rightarrow>
                Some \<lparr>outcomeA = oA, outcomeB = oB,
                  deadlockReproduced =
                    (leg_status oA = DeadlockAborted \<and> leg_status oB = Committed
                     \<or> leg_status oB = DeadlockAborted \<and> leg_status oA = Committed),
                  finalBalanceAccountA = the (balances w a), finalBalanceAccountB = the (balances w c)\<rparr>
            | _ \<Rightarrow> None))"

record OrderingResult =
  ordered_outcomeA :: LegOutcome
  ordered_outcomeB :: LegOutcome
  bothCommitted :: bool
  neitherDeadlocked :: bool
  ordered_balanceA :: int
  ordered_balanceB :: int
  expectedBalanceAccountA :: int
  expectedBalanceAccountB :: int

definition runConsistentLockOrdering :: "bank_event list \<Rightarrow> nat \<Rightarrow> nat \<Rightarrow> (nat \<rightharpoonup> int) \<Rightarrow> OrderingResult option" where
  "runConsistentLockOrdering es a c b =
     (if b a = None \<or> b c = None then None
      else
        let w = bank_run es (new_bank (b(a \<mapsto> ACCOUNT_BASELINE, c \<mapsto> ACCOUNT_BASELINE))
                  (transfers ConsistentLockOrder 1 [(a, c, TRANSFER_A_TO_B_CENTS), (c, a, TRANSFER_B_TO_A_CENTS)]))
        in (case (legOutcome w 0, legOutcome w 1) of
              (Some oA, Some oB) \<Rightarrow>
                Some \<lparr>ordered_outcomeA = oA, ordered_outcomeB = oB,
                  bothCommitted = (leg_status oA = Committed \<and> leg_status oB = Committed),
                  neitherDeadlocked = (leg_status oA \<noteq> DeadlockAborted \<and> leg_status oB \<noteq> DeadlockAborted),
                  ordered_balanceA = the (balances w a), ordered_balanceB = the (balances w c),
                  expectedBalanceAccountA = ACCOUNT_BASELINE - TRANSFER_A_TO_B_CENTS + TRANSFER_B_TO_A_CENTS,
                  expectedBalanceAccountB = ACCOUNT_BASELINE - TRANSFER_B_TO_A_CENTS + TRANSFER_A_TO_B_CENTS\<rparr>
            | _ \<Rightarrow> None))"

lemmas scenario_amounts = ACCOUNT_BASELINE_def TRANSFER_A_TO_B_CENTS_def TRANSFER_B_TO_A_CENTS_def

lemma deadlock_scenario:
  assumes "a \<noteq> c" and "b a \<noteq> None" and "b c \<noteq> None"
    and "\<forall>sweep \<in> set sweeps. Run 0 \<in> set sweep \<and> Run 1 \<in> set sweep \<and> (\<exists>v < 2. Victim v \<in> set sweep)" and "16 \<le> length sweeps"
  shows "\<exists>r. reproduceDeadlock (concat sweeps) a c b = Some r \<and> deadlockReproduced r
    \<and> ((finalBalanceAccountA r, finalBalanceAccountB r) = (975000, 1025000)
       \<or> (finalBalanceAccountA r, finalBalanceAccountB r) = (1040000, 960000))"
proof -
  let ?b = "b(a \<mapsto> ACCOUNT_BASELINE, c \<mapsto> ACCOUNT_BASELINE)"
  let ?x = TRANSFER_A_TO_B_CENTS and ?y = TRANSFER_B_TO_A_CENTS
  let ?s = "new_bank ?b (duel a c ?x ?y)"
  define w where "w = bank_run (concat sweeps) ?s"
  have cov: "covered ?b a c ?x" "covered ?b c a ?y" using assms(1) by (simp_all add: covered_def scenario_amounts)
  have start: "duel_phase ?b a c ?x ?y ?s" using gate_new [OF assms(1)] by (simp add: duel_phase_def)
  have ok: "backoff_ok ?s" by (simp add: backoff_ok_def new_bank_def duel_def new_leg_def less_Suc_eq)
  have eff: "bank_effort ?s = 16" by (simp add: bank_effort_def new_bank_def duel_def leg_effort_def new_leg_def)
  have fin: "finished w" unfolding w_def by (rule duel_sweeps [OF start cov ok assms(4)]) (use eff assms(5) in simp)
  have "duel_phase ?b a c ?x ?y w" unfolding w_def by (rule duel_run [OF start cov])
  from duel_ends [OF this fin] show ?thesis
  proof
    assume "decided ?b a c ?x 0 w"
    from finished_decided [OF this fin] show ?thesis
      unfolding reproduceDeadlock_def Let_def w_def [symmetric] using assms(1-3) by (simp add: scenario_amounts)
  next
    assume "decided ?b c a ?y 1 w"
    from finished_decided [OF this fin] show ?thesis
      unfolding reproduceDeadlock_def Let_def w_def [symmetric] using assms(1-3) by (simp add: scenario_amounts)
  qed
qed

lemma ordering_scenario:
  assumes "a \<noteq> c" and "b a \<noteq> None" and "b c \<noteq> None"
    and "\<forall>sweep \<in> set sweeps. Run 0 \<in> set sweep \<and> Run 1 \<in> set sweep" and "16 \<le> length sweeps"
  shows "\<exists>r. runConsistentLockOrdering (concat sweeps) a c b = Some r \<and> bothCommitted r \<and> neitherDeadlocked r
    \<and> ordered_balanceA r = expectedBalanceAccountA r \<and> ordered_balanceB r = expectedBalanceAccountB r"
proof -
  let ?b = "b(a \<mapsto> ACCOUNT_BASELINE, c \<mapsto> ACCOUNT_BASELINE)"
  let ?ts = "[(a, c, TRANSFER_A_TO_B_CENTS), (c, a, TRANSFER_B_TO_A_CENTS)]"
  let ?s = "new_bank ?b (transfers ConsistentLockOrder 1 ?ts)"
  define w where "w = bank_run (concat sweeps) ?s"
  note st = transfers_start [of ?s ?b ConsistentLockOrder 1 ?ts, OF refl]
  note st' = st(1) st(4) [OF refl] st(3)
  have "\<forall>sweep \<in> set sweeps. \<forall>l < length (legs ?s). Run l \<in> set sweep"
    using assms(4) st(5) by (simp add: less_Suc_eq)
  then have fin: "finished w" unfolding w_def
    by (rule sweeps_finish [OF st' st(2)]) (use assms(5) st(6) in simp)
  have calm: "calm w" and n: "length (legs w) = 2" unfolding w_def using calm_run_all [OF st', of "concat sweeps"] st(5) by simp_all
  have "ledger ?b ?s"
    using st(1) assms(1)
    by (simp add: ledger_def no_failure_def new_bank_def transfers_def new_leg_def less_Suc_eq solvent_def paid_out_def paid_in_def
        planLeg_def settled_def is_committed_def scenario_amounts option.map_ident)
  then have led: "ledger ?b w" unfolding w_def by (rule ledger_runs)
  have plan: "plan (legs w ! l) = plan (legs ?s ! l)" for l unfolding w_def by (rule bank_run_plans)
  have done_: "\<exists>r. pc (legs w ! l) = AtEnd r \<and> leg_status r = Committed" if l: "l < 2" for l
  proof -
    obtain r where r: "pc (legs w ! l) = AtEnd r" using fin n l by (auto simp: finished_def)
    then have "leg_status r \<noteq> DeadlockAborted" "leg_status r \<noteq> LegFailed"
      using calm led n l by (auto simp: calm_def ledger_def no_failure_def)
    then show ?thesis using r by (cases "leg_status r") simp_all
  qed
  obtain oA oB where o: "pc (legs w ! 0) = AtEnd oA" "leg_status oA = Committed" "pc (legs w ! 1) = AtEnd oB" "leg_status oB = Committed"
    using done_ [of 0] done_ [of 1] by auto
  have "legs w = [legs w ! 0, legs w ! 1]" using n by (intro nth_equalityI) (auto dest!: less_2_cases)
  then have "settled (legs w) r = due r (legs w ! 0) + due r (legs w ! 1)" for r
    by (metis (no_types, opaque_lifting) settled_def list.map sum_list_simps add.right_neutral)
  then have "settled (legs w) a = TRANSFER_B_TO_A_CENTS - TRANSFER_A_TO_B_CENTS"
    "settled (legs w) c = TRANSFER_A_TO_B_CENTS - TRANSFER_B_TO_A_CENTS"
    using assms(1) o plan [of 0] plan [of 1]
    by (simp_all add: due_def is_committed_def net_def new_bank_def transfers_def new_leg_def planLeg_def)
  then have bal: "balances w a = Some (ACCOUNT_BASELINE - TRANSFER_A_TO_B_CENTS + TRANSFER_B_TO_A_CENTS)"
    "balances w c = Some (ACCOUNT_BASELINE - TRANSFER_B_TO_A_CENTS + TRANSFER_A_TO_B_CENTS)"
    using led assms(1) by (simp_all add: ledger_def)
  show ?thesis
    unfolding runConsistentLockOrdering_def Let_def w_def [symmetric]
    using o bal assms(2,3) by (simp add: legOutcome_def)
qed

text \<open>
  The two scenarios. With the naive order and the rendezvous, two opposite transfers always deadlock:
  under every schedule that lets both legs and the detector act often enough, exactly one commits and only
  its transfer is applied. With the consistent order both commit and the balances are the expected ones.\<close>

lemma lock_order_scenarios:
  assumes "a \<noteq> c" and "b a \<noteq> None" and "b c \<noteq> None"
    and "\<forall>sweep \<in> set sweeps. Run 0 \<in> set sweep \<and> Run 1 \<in> set sweep \<and> (\<exists>v < 2. Victim v \<in> set sweep)"
    and "16 \<le> length sweeps"
  shows "(\<exists>r. reproduceDeadlock (concat sweeps) a c b = Some r \<and> deadlockReproduced r
      \<and> ((finalBalanceAccountA r, finalBalanceAccountB r) = (975000, 1025000)
         \<or> (finalBalanceAccountA r, finalBalanceAccountB r) = (1040000, 960000)))
    \<and> (\<exists>r. runConsistentLockOrdering (concat sweeps) a c b = Some r \<and> bothCommitted r \<and> neitherDeadlocked r
      \<and> ordered_balanceA r = expectedBalanceAccountA r \<and> ordered_balanceB r = expectedBalanceAccountB r)"
proof
  show "\<exists>r. reproduceDeadlock (concat sweeps) a c b = Some r \<and> deadlockReproduced r
      \<and> ((finalBalanceAccountA r, finalBalanceAccountB r) = (975000, 1025000)
         \<or> (finalBalanceAccountA r, finalBalanceAccountB r) = (1040000, 960000))"
    by (rule deadlock_scenario [OF assms])
  show "\<exists>r. runConsistentLockOrdering (concat sweeps) a c b = Some r \<and> bothCommitted r \<and> neitherDeadlocked r
      \<and> ordered_balanceA r = expectedBalanceAccountA r \<and> ordered_balanceB r = expectedBalanceAccountB r"
    by (rule ordering_scenario) (use assms in blast)+
qed

lemma lock_order_scenarios_witness:
  "\<exists>r. runConsistentLockOrdering (concat (replicate 16 [Victim 0, Run 1, Run 0])) 1 2 [1 \<mapsto> 5, 2 \<mapsto> 0] = Some r \<and> bothCommitted r"
  using lock_order_scenarios [of 1 2 "[1 \<mapsto> 5, 2 \<mapsto> 0]" "replicate 16 [Victim 0, Run 1, Run 0]"]
  by auto

end
