(* ===== verification/Delivery.thy ===== *)
theory Delivery
  imports Sql_Table
begin

text \<open>
  Delivery semantics, Lab 19, \<open>labs/19-*/src\<close>: the scripted network, the sender that sends once and the
  one that retries until it is acknowledged, the naive and the idempotent receiver, and the scenarios.
  The tables \<open>notifications\<close>, \<open>delivery_log\<close> and \<open>processed_message_ids\<close> are the store. The back-off between
  attempts is time that passes and changes no row.
\<close>

section \<open>Network and sender\<close>

datatype NetworkOutcome = message_lost | ack_lost | success

datatype DeliveryOutcome = sent_lost | delivered_ack_lost | delivered_acked

record DeliveryAttempt =
  attemptNumber :: nat
  attempt_outcome :: DeliveryOutcome

definition outcomeForAttempt :: "NetworkOutcome list \<Rightarrow> nat \<Rightarrow> string + NetworkOutcome" where
  "outcomeForAttempt outcomes n =
     (if outcomes = [] then Inl ''NetworkScript.outcomes must contain at least one outcome''
      else Inr (outcomes ! min (n - 1) (length outcomes - 1)))"

fun toDeliveryOutcome :: "NetworkOutcome \<Rightarrow> DeliveryOutcome" where
  "toDeliveryOutcome message_lost = sent_lost"
| "toDeliveryOutcome ack_lost = delivered_ack_lost"
| "toDeliveryOutcome success = delivered_acked"

text \<open>A call that may throw.\<close>

type_synonym ('s, 'a) effectful = "'s \<Rightarrow> (string + 'a) \<times> 's"

definition after_call :: "('s, 'a) effectful \<Rightarrow> ('a \<Rightarrow> ('s, 'b) effectful) \<Rightarrow> ('s, 'b) effectful" where
  "after_call m f s = (case m s of (Inl e, s') \<Rightarrow> (Inl e, s') | (Inr a, s') \<Rightarrow> f a s')"

definition sendOnce :: "NetworkOutcome \<Rightarrow> ('s, unit) effectful \<Rightarrow> ('s, DeliveryAttempt) effectful" where
  "sendOnce networkOutcome deliverToReceiver s =
     (if networkOutcome = message_lost then (Inr \<lparr>attemptNumber = 1, attempt_outcome = sent_lost\<rparr>, s)
      else after_call deliverToReceiver
        (\<lambda>_ s. (Inr \<lparr>attemptNumber = 1, attempt_outcome = toDeliveryOutcome networkOutcome\<rparr>, s)) s)"

record SendWithRetryResult =
  send_attempts :: "DeliveryAttempt list"
  acked :: bool

text \<open>The loop with \<open>k\<close> attempts left, the next of them number \<open>n\<close>.\<close>

fun send_loop ::
  "NetworkOutcome list \<Rightarrow> (nat \<Rightarrow> ('s, unit) effectful) \<Rightarrow> (DeliveryAttempt \<Rightarrow> ('s, unit) effectful) \<Rightarrow> nat \<Rightarrow> nat \<Rightarrow> DeliveryAttempt list \<Rightarrow>
   ('s, SendWithRetryResult) effectful" where
  "send_loop script deliver onAttempt 0 n done s = (Inr \<lparr>send_attempts = done, acked = False\<rparr>, s)"
| "send_loop script deliver onAttempt (Suc k) n done s =
     (case outcomeForAttempt script n of
        Inl e \<Rightarrow> (Inl e, s)
      | Inr networkOutcome \<Rightarrow>
          after_call (if networkOutcome = message_lost then (\<lambda>s. (Inr (), s)) else deliver n) (\<lambda>_.
            let att = \<lparr>attemptNumber = n, attempt_outcome = toDeliveryOutcome networkOutcome\<rparr> in
            after_call (onAttempt att) (\<lambda>_ s.
              if attempt_outcome att = delivered_acked then (Inr \<lparr>send_attempts = done @ [att], acked = True\<rparr>, s)
              else send_loop script deliver onAttempt k (n + 1) (done @ [att]) s)) s)"

definition sendWithRetry ::
  "NetworkOutcome list \<Rightarrow> (nat \<Rightarrow> ('s, unit) effectful) \<Rightarrow> nat \<Rightarrow> (DeliveryAttempt \<Rightarrow> ('s, unit) effectful) \<Rightarrow> ('s, SendWithRetryResult) effectful" where
  "sendWithRetry script deliverToReceiver maxAttempts onAttempt s = send_loop script deliverToReceiver onAttempt maxAttempts 1 [] s"

section \<open>The store and the receivers\<close>

datatype NotificationStatus = ntf_pending | ntf_delivered | ntf_undelivered

record notification =
  ntf_id :: nat
  recipient :: string
  body :: string
  scenario :: string
  ntf_status :: NotificationStatus
  receiverProcessedCount :: nat

record delivery_store =
  notifications :: "notification list"
  deliveryLog :: "(nat \<times> DeliveryAttempt) list"
  processedIds :: "nat list"
  next_ntf :: nat

definition known :: "nat \<Rightarrow> delivery_store \<Rightarrow> bool" where
  "known i s \<longleftrightarrow> list_ex (\<lambda>r. ntf_id r = i) (notifications s)"

definition count_processing :: "nat \<Rightarrow> delivery_store \<Rightarrow> delivery_store" where
  "count_processing i s = s\<lparr>notifications :=
     update_where (\<lambda>r. ntf_id r = i) (\<lambda>r. r\<lparr>receiverProcessedCount := receiverProcessedCount r + 1\<rparr>) (notifications s)\<rparr>"

definition naiveProcessMessage :: "nat \<Rightarrow> (delivery_store, unit) effectful" where
  "naiveProcessMessage i s = (Inr (), count_processing i s)"

text \<open>The claim fails on the foreign key when there is no such notification; the transaction is rolled back.\<close>

definition idempotentProcessMessage :: "nat \<Rightarrow> (delivery_store, bool) effectful" where
  "idempotentProcessMessage i s =
     (if i \<in> set (processedIds s) then (Inr False, s)
      else if \<not> known i s then (Inl ''23503'', s)
      else (Inr True, count_processing i (s\<lparr>processedIds := processedIds s @ [i]\<rparr>)))"

definition insertNotification :: "string \<Rightarrow> string \<Rightarrow> string \<Rightarrow> delivery_store \<Rightarrow> nat \<times> delivery_store" where
  "insertNotification r b sc s =
     (next_ntf s,
      s\<lparr>notifications := notifications s @ [\<lparr>ntf_id = next_ntf s, recipient = r, body = b, scenario = sc,
          ntf_status = ntf_pending, receiverProcessedCount = 0\<rparr>],
        next_ntf := next_ntf s + 1\<rparr>)"

definition recordDeliveryAttempt :: "nat \<Rightarrow> DeliveryAttempt \<Rightarrow> (delivery_store, unit) effectful" where
  "recordDeliveryAttempt i att s =
     (if \<not> known i s then (Inl ''23503'', s) else (Inr (), s\<lparr>deliveryLog := deliveryLog s @ [(i, att)]\<rparr>))"

definition setNotificationStatus :: "nat \<Rightarrow> NotificationStatus \<Rightarrow> (delivery_store, unit) effectful" where
  "setNotificationStatus i st s =
     (Inr (), s\<lparr>notifications := update_where (\<lambda>r. ntf_id r = i) (\<lambda>r. r\<lparr>ntf_status := st\<rparr>) (notifications s)\<rparr>)"

definition countDeliveryLogRows :: "delivery_store \<Rightarrow> nat \<Rightarrow> nat" where
  "countDeliveryLogRows s i = row_count (\<lambda>r. fst r = i) (deliveryLog s)"

definition countDeliveryLogRowsByOutcome :: "delivery_store \<Rightarrow> nat \<Rightarrow> DeliveryOutcome \<Rightarrow> nat" where
  "countDeliveryLogRowsByOutcome s i out = row_count (\<lambda>r. fst r = i \<and> attempt_outcome (snd r) = out) (deliveryLog s)"

definition getReceiverProcessedCount :: "delivery_store \<Rightarrow> nat \<Rightarrow> string + nat" where
  "getReceiverProcessedCount s i =
     (case row_with (\<lambda>r. ntf_id r = i) (notifications s) of
        None \<Rightarrow> Inl (''Notification '' @ nat_str i @ '' does not exist'')
      | Some r \<Rightarrow> Inr (receiverProcessedCount r))"

definition countProcessedMessageIdRows :: "delivery_store \<Rightarrow> nat \<Rightarrow> nat" where
  "countProcessedMessageIdRows s i = row_count (\<lambda>j. j = i) (processedIds s)"

section \<open>The scenarios\<close>

definition MAX_ATTEMPTS :: nat where "MAX_ATTEMPTS = 5"

definition run_at_most_once :: "NetworkOutcome \<Rightarrow> string \<Rightarrow> NotificationStatus \<Rightarrow> string \<Rightarrow> (delivery_store, nat) effectful" where
  "run_at_most_once networkOutcome sc st r s =
     (let (i, s1) = insertNotification r ''Your order has shipped.'' sc s in
      after_call (sendOnce networkOutcome (naiveProcessMessage i)) (\<lambda>att.
      after_call (recordDeliveryAttempt i att) (\<lambda>_.
      after_call (setNotificationStatus i st) (\<lambda>_ s. (Inr i, s)))) s1)"

definition runAtMostOnceLost :: "string \<Rightarrow> (delivery_store, nat) effectful" where
  "runAtMostOnceLost = run_at_most_once message_lost ''at_most_once_lost'' ntf_undelivered"

definition runAtMostOnceClean :: "string \<Rightarrow> (delivery_store, nat) effectful" where
  "runAtMostOnceClean = run_at_most_once success ''at_most_once_clean'' ntf_delivered"

definition run_with_retry ::
  "NetworkOutcome list \<Rightarrow> string \<Rightarrow> (nat \<Rightarrow> (delivery_store, unit) effectful) \<Rightarrow> string \<Rightarrow> (delivery_store, nat) effectful" where
  "run_with_retry script sc process r s =
     (let (i, s1) = insertNotification r ''Your invoice is ready.'' sc s in
      after_call (sendWithRetry script (\<lambda>_. process i) MAX_ATTEMPTS (recordDeliveryAttempt i)) (\<lambda>result.
      after_call (setNotificationStatus i (if acked result then ntf_delivered else ntf_undelivered)) (\<lambda>_ s. (Inr i, s))) s1)"

definition runMessageLossThenSuccess :: "string \<Rightarrow> (delivery_store, nat) effectful" where
  "runMessageLossThenSuccess = run_with_retry [message_lost, success] ''at_least_once_message_loss'' naiveProcessMessage"

definition runAckLoss :: "string \<Rightarrow> (delivery_store, nat) effectful" where
  "runAckLoss = run_with_retry [ack_lost, success] ''at_least_once_ack_loss'' naiveProcessMessage"

definition idempotent_receive :: "nat \<Rightarrow> (delivery_store, unit) effectful" where
  "idempotent_receive i = after_call (idempotentProcessMessage i) (\<lambda>applied s. (Inr (), s))"

definition runEffectivelyOnce :: "string \<Rightarrow> (delivery_store, nat) effectful" where
  "runEffectivelyOnce = run_with_retry [ack_lost, success] ''effectively_once_ack_loss'' idempotent_receive"

section \<open>What the sender does, whatever the receiver\<close>

text \<open>The attempts a script makes of \<open>k\<close> attempts from number \<open>n\<close> on: up to the first success.\<close>

fun transcript :: "NetworkOutcome list \<Rightarrow> nat \<Rightarrow> nat \<Rightarrow> DeliveryAttempt list" where
  "transcript script 0 n = []"
| "transcript script (Suc k) n =
     (let networkOutcome = script ! min (n - 1) (length script - 1) in
      \<lparr>attemptNumber = n, attempt_outcome = toDeliveryOutcome networkOutcome\<rparr>
        # (if networkOutcome = success then [] else transcript script k (n + 1)))"

definition reached :: "DeliveryAttempt list \<Rightarrow> nat" where
  "reached ts = length (filter (\<lambda>t. attempt_outcome t \<noteq> sent_lost) ts)"

lemma toDeliveryOutcome_simps [simp]:
  "toDeliveryOutcome x = sent_lost \<longleftrightarrow> x = message_lost" "toDeliveryOutcome x = delivered_acked \<longleftrightarrow> x = success"
  by (cases x; simp)+

text \<open>Two sides that do not throw turn the sender into its transcript.\<close>

lemma send_loop_transcript:
  assumes "script \<noteq> []" and del: "\<And>n s. P s \<Longrightarrow> deliver n s = (Inr (), del s) \<and> P (del s)"
    and rec: "\<And>att s. P s \<Longrightarrow> onAttempt att s = (Inr (), rec att s) \<and> P (rec att s)"
  shows "P s \<Longrightarrow> send_loop script deliver onAttempt k n done s =
    (Inr \<lparr>send_attempts = done @ transcript script k n, acked = (\<exists>t \<in> set (transcript script k n). attempt_outcome t = delivered_acked)\<rparr>,
     fold (\<lambda>t s. rec t (if attempt_outcome t = sent_lost then s else del s)) (transcript script k n) s)"
proof (induction k arbitrary: n "done" s)
  case (Suc k)
  let ?o = "script ! min (n - 1) (length script - 1)"
  have d: "P (if ?o = message_lost then s else del s)" using del [OF Suc.prems] Suc.prems by simp
  show ?case
    using Suc.IH [OF conjunct2 [OF rec [OF d]]] del [OF Suc.prems] rec [OF d] assms(1)
    by (auto simp: outcomeForAttempt_def after_call_def Let_def)
qed simp

lemma transcript_numbers:
  "length (transcript script k n) \<le> k \<and> map attemptNumber (transcript script k n) = [n..<n + length (transcript script k n)]"
proof (induction k arbitrary: n)
  case (Suc k)
  have "[n..<n + Suc L] = n # [Suc n..<Suc n + L]" for L by (simp add: upt_conv_Cons del: upt_Suc)
  then show ?case using Suc.IH [of "Suc n"] by (simp add: Let_def del: upt_Suc)
qed simp

lemma acked_reached: "\<exists>t \<in> set ts. attempt_outcome t = delivered_acked \<Longrightarrow> 0 < reached ts"
  unfolding reached_def by (force simp: filter_empty_conv)

section \<open>What the receivers make of it\<close>

lemma known_frame [simp]:
  "known i (count_processing j s) = known i s" "known i (s\<lparr>deliveryLog := l\<rparr>) = known i s" "known i (s\<lparr>processedIds := p\<rparr>) = known i s"
  by (auto simp: known_def count_processing_def list_ex_iff bex_update_where)

lemma known_count: "getReceiverProcessedCount s i = Inr c \<Longrightarrow> known i s"
  by (auto simp: getReceiverProcessedCount_def known_def list_ex_iff split: option.splits dest: row_with_Some)

lemma count_frame [simp]:
  "getReceiverProcessedCount (s\<lparr>deliveryLog := l\<rparr>) i = getReceiverProcessedCount s i"
  "getReceiverProcessedCount (s\<lparr>processedIds := p\<rparr>) i = getReceiverProcessedCount s i"
  by (simp_all add: getReceiverProcessedCount_def)

lemma count_count_processing:
  "getReceiverProcessedCount (count_processing j s) i
   = (if i = j then map_sum id Suc (getReceiverProcessedCount s i) else getReceiverProcessedCount s i)"
  by (auto simp: getReceiverProcessedCount_def count_processing_def row_with_update_key split: option.split)

lemma count_processing_frame [simp]:
  "deliveryLog (count_processing i s) = deliveryLog s" "processedIds (count_processing i s) = processedIds s"
  by (simp_all add: count_processing_def)

text \<open>One attempt on the store, for the naive and for the idempotent receiver.\<close>

definition naive_attempt :: "nat \<Rightarrow> DeliveryAttempt \<Rightarrow> delivery_store \<Rightarrow> delivery_store" where
  "naive_attempt i t s =
     snd (recordDeliveryAttempt i t (if attempt_outcome t = sent_lost then s else snd (naiveProcessMessage i s)))"

definition idempotent_attempt :: "nat \<Rightarrow> DeliveryAttempt \<Rightarrow> delivery_store \<Rightarrow> delivery_store" where
  "idempotent_attempt i t s =
     snd (recordDeliveryAttempt i t (if attempt_outcome t = sent_lost then s else snd (idempotent_receive i s)))"

lemma naive_attempts:
  "getReceiverProcessedCount s i = Inr c \<Longrightarrow>
   getReceiverProcessedCount (fold (naive_attempt i) ts s) i = Inr (c + reached ts)
   \<and> deliveryLog (fold (naive_attempt i) ts s) = deliveryLog s @ map (Pair i) ts
   \<and> processedIds (fold (naive_attempt i) ts s) = processedIds s"
proof (induction ts arbitrary: s c)
  case (Cons t ts)
  have k: "known i s" by (rule known_count [OF Cons.prems])
  have "getReceiverProcessedCount (naive_attempt i t s) i = Inr (c + (if attempt_outcome t = sent_lost then 0 else 1))"
    "deliveryLog (naive_attempt i t s) = deliveryLog s @ [(i, t)]" "processedIds (naive_attempt i t s) = processedIds s"
    using Cons.prems k by (simp_all add: naive_attempt_def recordDeliveryAttempt_def naiveProcessMessage_def count_count_processing)
  then show ?case using Cons.IH [of "naive_attempt i t s"] by (simp add: reached_def)
qed (simp add: reached_def)

lemma idempotent_attempts:
  "getReceiverProcessedCount s i = Inr c \<Longrightarrow>
   getReceiverProcessedCount (fold (idempotent_attempt i) ts s) i
     = Inr (c + (if i \<in> set (processedIds s) \<or> reached ts = 0 then 0 else 1))
   \<and> deliveryLog (fold (idempotent_attempt i) ts s) = deliveryLog s @ map (Pair i) ts
   \<and> processedIds (fold (idempotent_attempt i) ts s)
     = processedIds s @ (if i \<in> set (processedIds s) \<or> reached ts = 0 then [] else [i])"
proof (induction ts arbitrary: s c)
  case (Cons t ts)
  have k: "known i s" by (rule known_count [OF Cons.prems])
  let ?now = "attempt_outcome t \<noteq> sent_lost \<and> i \<notin> set (processedIds s)"
  have "getReceiverProcessedCount (idempotent_attempt i t s) i = Inr (c + (if ?now then 1 else 0))"
    "deliveryLog (idempotent_attempt i t s) = deliveryLog s @ [(i, t)]"
    "processedIds (idempotent_attempt i t s) = processedIds s @ (if ?now then [i] else [])"
    using Cons.prems k
    by (simp_all add: idempotent_attempt_def recordDeliveryAttempt_def idempotent_receive_def after_call_def idempotentProcessMessage_def
        count_count_processing)
  then show ?case using Cons.IH [of "idempotent_attempt i t s"] by (auto simp: reached_def)
qed (simp add: reached_def)

lemma send_naive:
  assumes "script \<noteq> []" and "known i s"
  shows "sendWithRetry script (\<lambda>_. naiveProcessMessage i) m (recordDeliveryAttempt i) s
    = (Inr \<lparr>send_attempts = transcript script m 1, acked = (\<exists>t \<in> set (transcript script m 1). attempt_outcome t = delivered_acked)\<rparr>,
       fold (naive_attempt i) (transcript script m 1) s)"
  unfolding sendWithRetry_def
  by (subst send_loop_transcript [OF assms(1), where P = "known i" and del = "count_processing i"
        and rec = "\<lambda>t s. snd (recordDeliveryAttempt i t s)"])
    (auto simp: assms(2) naiveProcessMessage_def recordDeliveryAttempt_def naive_attempt_def [abs_def] cong: if_cong)

lemma send_idempotent:
  assumes "script \<noteq> []" and "known i s"
  shows "sendWithRetry script (\<lambda>_. idempotent_receive i) m (recordDeliveryAttempt i) s
    = (Inr \<lparr>send_attempts = transcript script m 1, acked = (\<exists>t \<in> set (transcript script m 1). attempt_outcome t = delivered_acked)\<rparr>,
       fold (idempotent_attempt i) (transcript script m 1) s)"
  unfolding sendWithRetry_def
  by (subst send_loop_transcript [OF assms(1), where P = "known i" and del = "\<lambda>s. snd (idempotent_receive i s)"
        and rec = "\<lambda>t s. snd (recordDeliveryAttempt i t s)"])
    (auto simp: assms(2) idempotent_receive_def after_call_def idempotentProcessMessage_def recordDeliveryAttempt_def
      idempotent_attempt_def [abs_def])

section \<open>Properties\<close>

text \<open>
  C26: the three delivery semantics. For every script and every bound on the attempts the sender that
  retries makes the same attempts and writes the same log whatever the receiver: numbered from one, at
  most the bound, ending with the first acknowledged one. The naive receiver processes the message once per
  attempt that reaches it, so an acknowledged message is processed and may be processed more than once; the
  idempotent receiver processes it exactly once as soon as one attempt reaches it. The sender that sends
  once has the message processed at most once, and not at all when it is lost.\<close>

theorem delivery_semantics:
  assumes "getReceiverProcessedCount s i = Inr c" and "i \<notin> set (processedIds s)" and "script \<noteq> []"
  shows "\<exists>T s1 s2 s3. sendWithRetry script (\<lambda>_. naiveProcessMessage i) m (recordDeliveryAttempt i) s
          = (Inr \<lparr>send_attempts = T, acked = (\<exists>t \<in> set T. attempt_outcome t = delivered_acked)\<rparr>, s1)
    \<and> sendWithRetry script (\<lambda>_. idempotent_receive i) m (recordDeliveryAttempt i) s
          = (Inr \<lparr>send_attempts = T, acked = (\<exists>t \<in> set T. attempt_outcome t = delivered_acked)\<rparr>, s2)
    \<and> map attemptNumber T = [1..<1 + length T] \<and> length T \<le> m
    \<and> deliveryLog s1 = deliveryLog s @ map (Pair i) T \<and> deliveryLog s2 = deliveryLog s1
    \<and> getReceiverProcessedCount s1 i = Inr (c + reached T)
    \<and> getReceiverProcessedCount s2 i = Inr (c + min 1 (reached T))
    \<and> ((\<exists>t \<in> set T. attempt_outcome t = delivered_acked) \<longrightarrow> 0 < reached T)
    \<and> sendOnce out (naiveProcessMessage i) s = (Inr \<lparr>attemptNumber = 1, attempt_outcome = toDeliveryOutcome out\<rparr>, s3)
    \<and> getReceiverProcessedCount s3 i = Inr (c + (if out = message_lost then 0 else 1))"
proof -
  let ?T = "transcript script m 1"
  have k: "known i s" by (rule known_count [OF assms(1)])
  note a = naive_attempts [OF assms(1), of ?T] and b = idempotent_attempts [OF assms(1), of ?T]
  have m1: "(if reached ?T = 0 then 0 else 1) = min 1 (reached ?T)" by simp
  have once: "sendOnce out (naiveProcessMessage i) s = (Inr \<lparr>attemptNumber = 1, attempt_outcome = toDeliveryOutcome out\<rparr>,
      if out = message_lost then s else count_processing i s)"
    by (cases out) (simp_all add: sendOnce_def after_call_def naiveProcessMessage_def)
  have cnt: "getReceiverProcessedCount (if out = message_lost then s else count_processing i s) i
      = Inr (c + (if out = message_lost then 0 else 1))"
    using assms(1) by (simp add: count_count_processing)
  show ?thesis
    using send_naive [OF assms(3) k] send_idempotent [OF assms(3) k] a b assms(2) m1 transcript_numbers [of script m 1]
      acked_reached [of ?T] once cnt
    by (intro exI [of _ ?T] exI [of _ "fold (naive_attempt i) ?T s"] exI [of _ "fold (idempotent_attempt i) ?T s"]
        exI [of _ "if out = message_lost then s else count_processing i s"]) auto
qed

lemma delivery_semantics_witness:
  "\<exists>T s1 s2. sendWithRetry [ack_lost, success] (\<lambda>_. naiveProcessMessage 1) 5 (recordDeliveryAttempt 1)
        \<lparr>notifications = [\<lparr>ntf_id = 1, recipient = ''r'', body = [], scenario = [], ntf_status = ntf_pending, receiverProcessedCount = 0\<rparr>],
         deliveryLog = [], processedIds = [], next_ntf = 2\<rparr>
      = (Inr \<lparr>send_attempts = T, acked = (\<exists>t \<in> set T. attempt_outcome t = delivered_acked)\<rparr>, s1)
    \<and> getReceiverProcessedCount s1 1 = Inr (0 + reached T) \<and> getReceiverProcessedCount s2 1 = Inr (0 + min 1 (reached T))"
  using delivery_semantics [of "\<lparr>notifications = [\<lparr>ntf_id = 1, recipient = ''r'', body = [], scenario = [],
      ntf_status = ntf_pending, receiverProcessedCount = 0\<rparr>], deliveryLog = [], processedIds = [], next_ntf = 2\<rparr>" 1 0 "[ack_lost, success]" 5]
  by (simp add: getReceiverProcessedCount_def row_with_def del: One_nat_def) blast

text \<open>A new notification, and what the scenarios leave of it.\<close>

definition fresh_id :: "delivery_store \<Rightarrow> bool" where
  "fresh_id s \<longleftrightarrow> (\<forall>r \<in> set (notifications s). ntf_id r < next_ntf s) \<and> (\<forall>j \<in> set (processedIds s). j < next_ntf s)
     \<and> (\<forall>e \<in> set (deliveryLog s). fst e < next_ntf s)"

lemma insert_fresh:
  assumes "fresh_id s" and "insertNotification r b sc s = (i, s1)"
  shows "i = next_ntf s \<and> getReceiverProcessedCount s1 i = Inr 0 \<and> i \<notin> set (processedIds s1) \<and> countDeliveryLogRows s1 i = 0"
proof -
  have "\<forall>q \<in> set (notifications s). ntf_id q \<noteq> next_ntf s" "next_ntf s \<notin> set (processedIds s)"
    "\<forall>e \<in> set (deliveryLog s). fst e \<noteq> next_ntf s"
    using assms(1) unfolding fresh_id_def by fastforce+
  then show ?thesis using assms(2)
    by (auto simp: insertNotification_def getReceiverProcessedCount_def row_with_append row_with_None [THEN iffD2] countDeliveryLogRows_def
        row_count_zero) (simp add: row_with_def)
qed

lemma status_frame [simp]:
  "getReceiverProcessedCount (snd (setNotificationStatus j st s)) i = getReceiverProcessedCount s i"
  "deliveryLog (snd (setNotificationStatus j st s)) = deliveryLog s" "processedIds (snd (setNotificationStatus j st s)) = processedIds s"
  by (auto simp: setNotificationStatus_def getReceiverProcessedCount_def row_with_update_key split: option.split)

definition left_behind :: "nat \<Rightarrow> delivery_store \<Rightarrow> nat \<times> (string + nat) \<times> nat" where
  "left_behind i s = (countDeliveryLogRows s i, getReceiverProcessedCount s i, countProcessedMessageIdRows s i)"

lemma log_rows: "deliveryLog s' = deliveryLog s @ map (Pair i) ts \<Longrightarrow> countDeliveryLogRows s' i = countDeliveryLogRows s i + length ts"
  by (simp add: countDeliveryLogRows_def row_count_def comp_def)

lemma absent_rows: "i \<notin> set xs \<Longrightarrow> row_count (\<lambda>j. j = i) xs = 0"
  by (auto simp: row_count_zero)

lemma retry_scenario_naive:
  assumes "fresh_id s" and "script \<noteq> []"
  shows "\<exists>s'. run_with_retry script sc naiveProcessMessage r s = (Inr (next_ntf s), s')
    \<and> left_behind (next_ntf s) s' = (length (transcript script 5 1), Inr (reached (transcript script 5 1)), 0)"
proof -
  obtain i s1 where ins: "insertNotification r ''Your invoice is ready.'' sc s = (i, s1)" by fastforce
  note i = insert_fresh [OF assms(1) ins]
  let ?T = "transcript script 5 1" and ?f = "fold (naive_attempt i) (transcript script 5 1) s1"
  have c: "getReceiverProcessedCount s1 i = Inr 0" using i by blast
  note a = naive_attempts [OF c, of ?T]
  have "run_with_retry script sc naiveProcessMessage r s = (Inr i, snd (setNotificationStatus i
      (if \<exists>t \<in> set ?T. attempt_outcome t = delivered_acked then ntf_delivered else ntf_undelivered) ?f))"
    using send_naive [OF assms(2) known_count [OF c], of 5]
    by (simp add: run_with_retry_def ins after_call_def MAX_ATTEMPTS_def setNotificationStatus_def)
  then show ?thesis
    using a i log_rows [of _ s1 i ?T] absent_rows [of i "processedIds s1"]
    by (auto simp: left_behind_def countProcessedMessageIdRows_def countDeliveryLogRows_def)
qed

lemma retry_scenario_idempotent:
  assumes "fresh_id s" and "script \<noteq> []"
  shows "\<exists>s'. run_with_retry script sc idempotent_receive r s = (Inr (next_ntf s), s')
    \<and> left_behind (next_ntf s) s' = (length (transcript script 5 1), Inr (min 1 (reached (transcript script 5 1))),
        min 1 (reached (transcript script 5 1)))"
proof -
  obtain i s1 where ins: "insertNotification r ''Your invoice is ready.'' sc s = (i, s1)" by fastforce
  note i = insert_fresh [OF assms(1) ins]
  let ?T = "transcript script 5 1" and ?f = "fold (idempotent_attempt i) (transcript script 5 1) s1"
  have c: "getReceiverProcessedCount s1 i = Inr 0" using i by blast
  note a = idempotent_attempts [OF c, of ?T]
  have "run_with_retry script sc idempotent_receive r s = (Inr i, snd (setNotificationStatus i
      (if \<exists>t \<in> set ?T. attempt_outcome t = delivered_acked then ntf_delivered else ntf_undelivered) ?f))"
    using send_idempotent [OF assms(2) known_count [OF c], of 5]
    by (simp add: run_with_retry_def ins after_call_def MAX_ATTEMPTS_def setNotificationStatus_def)
  then show ?thesis
    using a i log_rows [of _ s1 i ?T] absent_rows [of i "processedIds s1"]
    by (auto simp: left_behind_def countProcessedMessageIdRows_def countDeliveryLogRows_def row_count_def)
qed

lemma scenario_transcripts:
  "transcript [message_lost, success] 5 1 = [\<lparr>attemptNumber = 1, attempt_outcome = sent_lost\<rparr>, \<lparr>attemptNumber = 2, attempt_outcome = delivered_acked\<rparr>]"
  "transcript [ack_lost, success] 5 1 = [\<lparr>attemptNumber = 1, attempt_outcome = delivered_ack_lost\<rparr>, \<lparr>attemptNumber = 2, attempt_outcome = delivered_acked\<rparr>]"
  by (simp_all add: eval_nat_numeral Let_def)

lemma once_scenario:
  assumes "fresh_id s"
  shows "\<exists>s'. run_at_most_once out sc st r s = (Inr (next_ntf s), s')
    \<and> left_behind (next_ntf s) s' = (1, Inr (if out = message_lost then 0 else 1), 0)"
proof -
  obtain i s1 where ins: "insertNotification r ''Your order has shipped.'' sc s = (i, s1)" by fastforce
  note i = insert_fresh [OF assms(1) ins]
  have c: "getReceiverProcessedCount s1 i = Inr 0" using i by blast
  note k = known_count [OF c]
  let ?t = "\<lparr>attemptNumber = 1, attempt_outcome = toDeliveryOutcome out\<rparr>"
  have "run_at_most_once out sc st r s = (Inr i, snd (setNotificationStatus i st (naive_attempt i ?t s1)))"
    using k by (cases out) (simp_all add: run_at_most_once_def ins after_call_def sendOnce_def naiveProcessMessage_def
        recordDeliveryAttempt_def setNotificationStatus_def naive_attempt_def)
  then show ?thesis
    using naive_attempts [OF c, of "[?t]"] i log_rows [of "naive_attempt i ?t s1" s1 i "[?t]"] absent_rows [of i "processedIds s1"]
    by (auto simp: left_behind_def countProcessedMessageIdRows_def countDeliveryLogRows_def reached_def)
qed

text \<open>The five scenarios: rows in the log, times processed, rows in the inbox.\<close>

lemma delivery_scenarios:
  assumes "fresh_id s"
  shows "\<exists>s'. runAtMostOnceLost r s = (Inr (next_ntf s), s') \<and> left_behind (next_ntf s) s' = (1, Inr 0, 0)"
    and "\<exists>s'. runAtMostOnceClean r s = (Inr (next_ntf s), s') \<and> left_behind (next_ntf s) s' = (1, Inr 1, 0)"
    and "\<exists>s'. runMessageLossThenSuccess r s = (Inr (next_ntf s), s') \<and> left_behind (next_ntf s) s' = (2, Inr 1, 0)"
    and "\<exists>s'. runAckLoss r s = (Inr (next_ntf s), s') \<and> left_behind (next_ntf s) s' = (2, Inr 2, 0)"
    and "\<exists>s'. runEffectivelyOnce r s = (Inr (next_ntf s), s') \<and> left_behind (next_ntf s) s' = (2, Inr 1, 1)"
  unfolding runAtMostOnceLost_def runAtMostOnceClean_def runMessageLossThenSuccess_def runAckLoss_def runEffectivelyOnce_def
  using once_scenario [OF assms, of message_lost] once_scenario [OF assms, of success]
    retry_scenario_naive [OF assms, of "[message_lost, success]"] retry_scenario_naive [OF assms, of "[ack_lost, success]"]
    retry_scenario_idempotent [OF assms, of "[ack_lost, success]"]
  unfolding scenario_transcripts by (simp_all add: reached_def eval_nat_numeral)

end
