(* ===== verification/Inbox.thy ===== *)
theory Inbox
  imports Sql_Table Idempotent_Receiver
begin

text \<open>
  The inbox pattern, Lab 18, \<open>labs/18-*/src/scenarios\<close>: the three consumers of a \<open>CreditApplied\<close> message over
  the tables \<open>accounts\<close> and \<open>processed_messages\<close>. The naive and the idempotent consumer are one statement and
  one transaction; the racy one is three statements that other workers may come between. The two tables'
  constraints are the ones of \<open>db/schema.ts\<close>; \<open>workerId\<close> and the timestamps are left out.
\<close>

section \<open>Tables and messages\<close>

record CreditAppliedMessage =
  messageId :: string
  accountId :: nat
  amountCents :: int

record inbox_account =
  acc_id :: nat
  balance_cents :: int

record processed_message =
  message_id :: string
  pm_account :: nat
  pm_amount :: int

record inbox_db =
  accounts :: "inbox_account list"
  processed_messages :: "processed_message list"

definition redeliver :: "CreditAppliedMessage \<Rightarrow> nat \<Rightarrow> CreditAppliedMessage list" where
  "redeliver m count = replicate count m"

definition getAccountBalanceCents :: "inbox_db \<Rightarrow> nat \<Rightarrow> string + int" where
  "getAccountBalanceCents db a =
     (case row_with (\<lambda>r. acc_id r = a) (accounts db) of
        None \<Rightarrow> Inl (''Account '' @ nat_str a @ '' does not exist'')
      | Some r \<Rightarrow> Inr (balance_cents r))"

definition countProcessedMessages :: "inbox_db \<Rightarrow> string \<Rightarrow> nat" where
  "countProcessedMessages db i = row_count (\<lambda>p. message_id p = i) (processed_messages db)"

definition seen_before :: "inbox_db \<Rightarrow> string \<Rightarrow> bool" where
  "seen_before db i \<longleftrightarrow> list_ex (\<lambda>p. message_id p = i) (processed_messages db)"

text \<open>The balance is a 32-bit integer column with a check that it is not negative.\<close>

definition balance_error :: "int \<Rightarrow> string option" where
  "balance_error b = (if 2 ^ 31 \<le> b \<or> b < - (2 ^ 31) then Some ''22003'' else if b < 0 then Some ''23514'' else None)"

definition credit :: "CreditAppliedMessage \<Rightarrow> inbox_db \<Rightarrow> (string + unit) \<times> inbox_db" where
  "credit m db =
     (case row_with (\<lambda>r. acc_id r = accountId m) (accounts db) of
        None \<Rightarrow> (Inr (), db)
      | Some r \<Rightarrow>
          (case balance_error (balance_cents r + amountCents m) of
             Some e \<Rightarrow> (Inl e, db)
           | None \<Rightarrow> (Inr (), db\<lparr>accounts :=
               update_where (\<lambda>r. acc_id r = accountId m) (\<lambda>r. r\<lparr>balance_cents := balance_cents r + amountCents m\<rparr>) (accounts db)\<rparr>)))"

definition record_message :: "CreditAppliedMessage \<Rightarrow> inbox_db \<Rightarrow> inbox_db" where
  "record_message m db = db\<lparr>processed_messages := processed_messages db
     @ [\<lparr>message_id = messageId m, pm_account = accountId m, pm_amount = amountCents m\<rparr>]\<rparr>"

definition account_exists :: "inbox_db \<Rightarrow> nat \<Rightarrow> bool" where
  "account_exists db a \<longleftrightarrow> list_ex (\<lambda>r. acc_id r = a) (accounts db)"

text \<open>The plain insert: the check, the primary key and the foreign key, in the order the server looks at them.\<close>

definition insert_processed :: "CreditAppliedMessage \<Rightarrow> inbox_db \<Rightarrow> (string + unit) \<times> inbox_db" where
  "insert_processed m db =
     (if amountCents m \<le> 0 then (Inl ''23514'', db)
      else if seen_before db (messageId m) then (Inl ''23505'', db)
      else if \<not> account_exists db (accountId m) then (Inl ''23503'', db)
      else (Inr (), record_message m db))"

section \<open>The consumers\<close>

definition applyNaive :: "CreditAppliedMessage \<Rightarrow> inbox_db \<Rightarrow> (string + unit) \<times> inbox_db" where
  "applyNaive m db = credit m db"

datatype IdempotentOutcome = Applied | Duplicate

definition applyIdempotent :: "CreditAppliedMessage \<Rightarrow> inbox_db \<Rightarrow> (string + IdempotentOutcome) \<times> inbox_db" where
  "applyIdempotent m db =
     (if amountCents m \<le> 0 then (Inl ''23514'', db)
      else if seen_before db (messageId m) then (Inr Duplicate, db)
      else if \<not> account_exists db (accountId m) then (Inl ''23503'', db)
      else (case credit m (record_message m db) of
              (Inl e, _) \<Rightarrow> (Inl e, db)
            | (Inr _, db') \<Rightarrow> (Inr Applied, db')))"

datatype RacyOutcome = RacyApplied | SkippedAlreadyProcessed | AppliedButInsertConflicted string

datatype racy_pc = RacyCheck | RacyApply | RacyInsert | RacyDone "string + RacyOutcome"

text \<open>The next statement of one worker.\<close>

definition applyRacy :: "CreditAppliedMessage \<Rightarrow> racy_pc \<Rightarrow> inbox_db \<Rightarrow> racy_pc \<times> inbox_db" where
  "applyRacy m pc db =
     (case pc of
        RacyCheck \<Rightarrow> (if seen_before db (messageId m) then RacyDone (Inr SkippedAlreadyProcessed) else RacyApply, db)
      | RacyApply \<Rightarrow>
          (case credit m db of (Inl e, db') \<Rightarrow> (RacyDone (Inl e), db') | (Inr _, db') \<Rightarrow> (RacyInsert, db'))
      | RacyInsert \<Rightarrow>
          (case insert_processed m db of
             (Inl e, db') \<Rightarrow> (RacyDone (Inr (AppliedButInsertConflicted e)), db')
           | (Inr _, db') \<Rightarrow> (RacyDone (Inr RacyApplied), db'))
      | RacyDone r \<Rightarrow> (RacyDone r, db))"

text \<open>Workers that all deliver the same message; an event is a worker's next statement.\<close>

definition racy_step :: "CreditAppliedMessage \<Rightarrow> nat \<Rightarrow> racy_pc list \<times> inbox_db \<Rightarrow> racy_pc list \<times> inbox_db" where
  "racy_step m i w = (if i < length (fst w) then (let (pc, db) = applyRacy m (fst w ! i) (snd w) in ((fst w)[i := pc], db)) else w)"

definition racy_run :: "CreditAppliedMessage \<Rightarrow> nat list \<Rightarrow> racy_pc list \<times> inbox_db \<Rightarrow> racy_pc list \<times> inbox_db" where
  "racy_run m is w = fold (racy_step m) is w"

section \<open>Facts on the tables\<close>

lemma seen_before_simps [simp]:
  "seen_before (record_message m db) i \<longleftrightarrow> i = messageId m \<or> seen_before db i"
  "seen_before (db\<lparr>accounts := A\<rparr>) i = seen_before db i"
  by (auto simp: seen_before_def record_message_def)

lemma balance_simps [simp]: "getAccountBalanceCents (record_message m db) a = getAccountBalanceCents db a"
  "getAccountBalanceCents (db\<lparr>processed_messages := P\<rparr>) a = getAccountBalanceCents db a"
  by (simp_all add: getAccountBalanceCents_def record_message_def)

lemma exists_balance: "account_exists db a \<longleftrightarrow> (\<exists>b. getAccountBalanceCents db a = Inr b)"
  by (auto simp: account_exists_def getAccountBalanceCents_def list_ex_iff row_with_None split: option.split dest: row_with_Some)

lemma credit_balance:
  assumes "getAccountBalanceCents db (accountId m) = Inr b"
  shows "balance_error (b + amountCents m) = None \<Longrightarrow> \<exists>db'. credit m db = (Inr (), db')
      \<and> getAccountBalanceCents db' (accountId m) = Inr (b + amountCents m)
      \<and> (\<forall>a. a \<noteq> accountId m \<longrightarrow> getAccountBalanceCents db' a = getAccountBalanceCents db a)
      \<and> processed_messages db' = processed_messages db"
    and "balance_error (b + amountCents m) = Some e \<Longrightarrow> credit m db = (Inl e, db)"
proof -
  obtain r where r: "row_with (\<lambda>r. acc_id r = accountId m) (accounts db) = Some r" "balance_cents r = b"
    using assms by (auto simp: getAccountBalanceCents_def split: option.splits)
  show "balance_error (b + amountCents m) = Some e \<Longrightarrow> credit m db = (Inl e, db)"
    using r by (simp add: credit_def)
  assume "balance_error (b + amountCents m) = None"
  then show "\<exists>db'. credit m db = (Inr (), db') \<and> getAccountBalanceCents db' (accountId m) = Inr (b + amountCents m)
      \<and> (\<forall>a. a \<noteq> accountId m \<longrightarrow> getAccountBalanceCents db' a = getAccountBalanceCents db a)
      \<and> processed_messages db' = processed_messages db"
    using r by (simp add: credit_def getAccountBalanceCents_def row_with_update_key)
qed

section \<open>The racy consumer\<close>

fun credited :: "racy_pc \<Rightarrow> bool" where
  "credited RacyInsert = True"
| "credited (RacyDone (Inr RacyApplied)) = True"
| "credited (RacyDone (Inr (AppliedButInsertConflicted e))) = True"
| "credited _ = False"

definition ncredited :: "racy_pc list \<Rightarrow> nat" where
  "ncredited pcs = length (filter credited pcs)"

definition napplied :: "racy_pc list \<Rightarrow> nat" where
  "napplied pcs = length (filter (\<lambda>pc. pc = RacyDone (Inr RacyApplied)) pcs)"

definition racy_inv :: "CreditAppliedMessage \<Rightarrow> inbox_db \<Rightarrow> racy_pc list \<times> inbox_db \<Rightarrow> bool" where
  "racy_inv m db0 w \<longleftrightarrow>
     getAccountBalanceCents (snd w) (accountId m)
       = map_sum id (\<lambda>b. b + int (ncredited (fst w)) * amountCents m) (getAccountBalanceCents db0 (accountId m))
     \<and> countProcessedMessages (snd w) (messageId m) = napplied (fst w) \<and> napplied (fst w) \<le> 1
     \<and> (\<forall>i < length (fst w). \<forall>r. fst w ! i = RacyDone r \<longrightarrow> 0 < napplied (fst w)
          \<and> r \<in> {Inr RacyApplied, Inr SkippedAlreadyProcessed, Inr (AppliedButInsertConflicted ''23505'')})"

text \<open>The message is new, its account exists and can take the amount from every worker.\<close>

definition racy_start :: "CreditAppliedMessage \<Rightarrow> nat \<Rightarrow> inbox_db \<Rightarrow> bool" where
  "racy_start m n db0 \<longleftrightarrow> 0 < amountCents m \<and> \<not> seen_before db0 (messageId m)
     \<and> (\<exists>b. getAccountBalanceCents db0 (accountId m) = Inr b \<and> 0 \<le> b \<and> b + int n * amountCents m < 2 ^ 31)"

lemma count_seen: "countProcessedMessages db i = 0 \<longleftrightarrow> \<not> seen_before db i"
  by (auto simp: countProcessedMessages_def seen_before_def row_count_zero list_ex_iff)

lemma racy_room:
  assumes "racy_start m n db0" and "racy_inv m db0 w" and "length (fst w) = n" and "i < n" and "\<not> credited (fst w ! i)"
  shows "\<exists>b. getAccountBalanceCents (snd w) (accountId m) = Inr b \<and> balance_error (b + amountCents m) = None"
proof -
  obtain b where b: "getAccountBalanceCents db0 (accountId m) = Inr b" "0 \<le> b" "b + int n * amountCents m < 2 ^ 31" "0 < amountCents m"
    using assms(1) by (auto simp: racy_start_def)
  let ?k = "ncredited (fst w)"
  have "?k < length (fst w)" unfolding ncredited_def
    by (rule length_filter_less [of "fst w ! i"]) (use assms in auto)
  then have "int ?k + 1 \<le> int n" using assms(3) by simp
  then have "(int ?k + 1) * amountCents m \<le> int n * amountCents m" using b(4) by (intro mult_right_mono) auto
  then have up: "b + int ?k * amountCents m + amountCents m < 2 ^ 31" using b(3) by (simp add: algebra_simps)
  have "0 \<le> int ?k * amountCents m" using b(4) by simp
  then have low: "0 \<le> b + int ?k * amountCents m + amountCents m" using b(2,4) by linarith
  have "getAccountBalanceCents (snd w) (accountId m) = Inr (b + int ?k * amountCents m)"
    using assms(2) b(1) by (simp add: racy_inv_def)
  then show ?thesis using up low by (simp add: balance_error_def)
qed

lemma racy_counts:
  assumes "i < length pcs"
  shows "ncredited (pcs[i := x]) + (if credited (pcs ! i) then 1 else 0) = ncredited pcs + (if credited x then 1 else 0)"
    and "napplied (pcs[i := x]) + (if pcs ! i = RacyDone (Inr RacyApplied) then 1 else 0)
      = napplied pcs + (if x = RacyDone (Inr RacyApplied) then 1 else 0)"
  unfolding ncredited_def napplied_def by (rule length_filter_map_upd [OF assms])+

lemma racy_inv_upd:
  assumes inv: "racy_inv m db0 (pcs, db)" and i: "i < length pcs" and cur: "\<And>r. pcs ! i \<noteq> RacyDone r"
    and bal: "getAccountBalanceCents db' (accountId m)
      = map_sum id (\<lambda>b. b + (if credited x \<and> \<not> credited (pcs ! i) then amountCents m else 0)) (getAccountBalanceCents db (accountId m))"
    and cnt: "countProcessedMessages db' (messageId m) = countProcessedMessages db (messageId m) + (if x = RacyDone (Inr RacyApplied) then 1 else 0)"
    and keep: "credited (pcs ! i) \<longrightarrow> credited x" and once: "x = RacyDone (Inr RacyApplied) \<longrightarrow> napplied pcs = 0"
    and fin: "\<And>r. x = RacyDone r \<Longrightarrow>
      r = Inr RacyApplied \<or> 0 < napplied pcs \<and> (r = Inr SkippedAlreadyProcessed \<or> r = Inr (AppliedButInsertConflicted ''23505''))"
  shows "racy_inv m db0 (pcs[i := x], db')"
proof -
  have c: "ncredited (pcs[i := x]) = ncredited pcs + (if credited x \<and> \<not> credited (pcs ! i) then 1 else 0)"
    using racy_counts(1) [OF i, of x] keep by (auto split: if_splits)
  have a: "napplied (pcs[i := x]) = napplied pcs + (if x = RacyDone (Inr RacyApplied) then 1 else 0)"
    using racy_counts(2) [OF i, of x] cur [of "Inr RacyApplied"] by simp
  have "getAccountBalanceCents db' (accountId m)
      = map_sum id (\<lambda>b. b + int (ncredited (pcs[i := x])) * amountCents m) (getAccountBalanceCents db0 (accountId m))"
    unfolding bal using inv c by (cases "getAccountBalanceCents db0 (accountId m)") (auto simp: racy_inv_def algebra_simps)
  moreover have "0 < napplied (pcs[i := x]) \<and> r \<in> {Inr RacyApplied, Inr SkippedAlreadyProcessed, Inr (AppliedButInsertConflicted ''23505'')}"
    if "j < length pcs" "pcs[i := x] ! j = RacyDone r" for j r
  proof (cases "j = i")
    case True
    then show ?thesis using that fin [of r] a i by auto
  next
    case False
    then have "pcs ! j = RacyDone r" using that by simp
    then have "0 < napplied pcs \<and> r \<in> {Inr RacyApplied, Inr SkippedAlreadyProcessed, Inr (AppliedButInsertConflicted ''23505'')}"
      using inv that(1) unfolding racy_inv_def by fastforce
    then show ?thesis using a by simp
  qed
  moreover have "countProcessedMessages db' (messageId m) = napplied (pcs[i := x])" "napplied (pcs[i := x]) \<le> 1"
    using inv cnt a once by (auto simp: racy_inv_def)
  ultimately show ?thesis by (simp add: racy_inv_def)
qed

lemma racy_inv_step:
  assumes st: "racy_start m n db0" and inv: "racy_inv m db0 w" and n: "length (fst w) = n"
  shows "racy_inv m db0 (racy_step m i w) \<and> length (fst (racy_step m i w)) = n"
proof (cases "i < n")
  case False
  then show ?thesis using inv n by (simp add: racy_step_def)
next
  case i: True
  obtain pcs db where w: "w = (pcs, db)" by fastforce
  have l: "length pcs = n" and il: "i < length pcs" using n w i by simp_all
  have inv': "racy_inv m db0 (pcs, db)" using inv w by simp
  then have cnt: "countProcessedMessages db (messageId m) = napplied pcs" by (simp add: racy_inv_def)
  then have seen: "seen_before db (messageId m) \<longleftrightarrow> 0 < napplied pcs" using count_seen [of db "messageId m"] by auto
  have id: "map_sum id (\<lambda>b. b) x = (x :: string + int)" for x by (cases x) simp_all
  note upd = racy_inv_upd [OF inv' il]
  have "racy_inv m db0 (racy_step m i w)"
  proof (cases "pcs ! i")
    case RacyCheck
    have "racy_inv m db0 (pcs[i := if seen_before db (messageId m) then RacyDone (Inr SkippedAlreadyProcessed) else RacyApply], db)"
      by (rule upd) (use RacyCheck seen in \<open>auto simp: id split: if_splits\<close>)
    then show ?thesis using il RacyCheck by (simp add: racy_step_def w applyRacy_def)
  next
    case RacyApply
    have "\<not> credited (fst w ! i)" using RacyApply w by simp
    from racy_room [OF st inv n i this] obtain b where
      b: "getAccountBalanceCents db (accountId m) = Inr b" "balance_error (b + amountCents m) = None" using w by auto
    obtain db' where db': "credit m db = (Inr (), db')" "getAccountBalanceCents db' (accountId m) = Inr (b + amountCents m)"
      "processed_messages db' = processed_messages db" using credit_balance(1) [OF b] by blast
    have "racy_inv m db0 (pcs[i := RacyInsert], db')"
      by (rule upd) (use RacyApply b db' in \<open>simp_all add: countProcessedMessages_def\<close>)
    then show ?thesis using il RacyApply db'(1) by (simp add: racy_step_def w applyRacy_def)
  next
    case RacyInsert
    have pos: "0 < amountCents m" using st by (simp add: racy_start_def)
    have ex: "account_exists db (accountId m)"
      using inv' st unfolding exists_balance racy_inv_def racy_start_def by auto
    show ?thesis
    proof (cases "seen_before db (messageId m)")
      case True
      have "racy_inv m db0 (pcs[i := RacyDone (Inr (AppliedButInsertConflicted ''23505''))], db)"
        by (rule upd) (use RacyInsert seen True in \<open>auto simp: id\<close>)
      then show ?thesis using il RacyInsert True pos by (simp add: racy_step_def w applyRacy_def insert_processed_def)
    next
      case False
      have "racy_inv m db0 (pcs[i := RacyDone (Inr RacyApplied)], record_message m db)"
        by (rule upd) (use RacyInsert seen False in \<open>auto simp: id countProcessedMessages_def record_message_def row_count_def\<close>)
      then show ?thesis using il RacyInsert False pos ex by (simp add: racy_step_def w applyRacy_def insert_processed_def)
    qed
  next
    case (RacyDone r)
    then have "(racy_step m i w) = (pcs[i := pcs ! i], db)" using il by (simp add: racy_step_def w applyRacy_def)
    then show ?thesis using inv' by simp
  qed
  then show ?thesis using n by (simp add: racy_step_def split: prod.split)
qed

lemma racy_inv_run:
  "racy_start m n db0 \<Longrightarrow> racy_inv m db0 w \<Longrightarrow> length (fst w) = n \<Longrightarrow>
   racy_inv m db0 (racy_run m is w) \<and> length (fst (racy_run m is w)) = n"
proof (induction "is" arbitrary: w)
  case (Cons i "is")
  from racy_inv_step [OF Cons.prems, of i] Cons.IH [OF Cons.prems(1), of "racy_step m i w"]
  show ?case by (simp add: racy_run_def)
qed (simp add: racy_run_def)

lemma racy_inv_start: "racy_start m n db0 \<Longrightarrow> racy_inv m db0 (replicate n RacyCheck, db0)"
  using count_seen [of db0 "messageId m"]
  by (auto simp: racy_inv_def racy_start_def ncredited_def napplied_def)

text \<open>One statement of every worker in turn.\<close>

lemma racy_sweep:
  assumes "\<forall>j < length (fst w). A (fst w ! j)" and "I w"
    and "\<And>v j. I v \<Longrightarrow> length (fst v) = length (fst w) \<Longrightarrow> j < length (fst w) \<Longrightarrow> A (fst v ! j) \<Longrightarrow>
      B (fst (racy_step m j v) ! j) \<and> I (racy_step m j v)"
  shows "length (fst (racy_run m [0..<length (fst w)] w)) = length (fst w)
    \<and> (\<forall>j < length (fst w). B (fst (racy_run m [0..<length (fst w)] w) ! j)) \<and> I (racy_run m [0..<length (fst w)] w)"
proof -
  let ?n = "length (fst w)"
  have "length (fst (racy_run m [0..<k] w)) = ?n \<and> I (racy_run m [0..<k] w)
      \<and> (\<forall>j < ?n. if j < k then B (fst (racy_run m [0..<k] w) ! j) else A (fst (racy_run m [0..<k] w) ! j))" if "k \<le> ?n" for k
    using that
  proof (induction k)
    case 0
    then show ?case using assms(1,2) by (simp add: racy_run_def)
  next
    case (Suc k)
    let ?v = "racy_run m [0..<k] w"
    have v: "length (fst ?v) = ?n" "I ?v" "\<forall>j < ?n. if j < k then B (fst ?v ! j) else A (fst ?v ! j)" using Suc by auto
    have k: "k < ?n" using Suc.prems by simp
    have st: "B (fst (racy_step m k ?v) ! k)" "I (racy_step m k ?v)" using assms(3) [OF v(2,1) k] v(3) k by auto
    have other: "fst (racy_step m k ?v) ! j = fst ?v ! j" if "j \<noteq> k" for j
      using that by (simp add: racy_step_def split: prod.split)
    have "length (fst (racy_step m k ?v)) = ?n" using v(1) by (simp add: racy_step_def split: prod.split)
    moreover have "racy_run m [0..<Suc k] w = racy_step m k ?v" by (simp add: racy_run_def)
    moreover have "if j < Suc k then B (fst (racy_step m k ?v) ! j) else A (fst (racy_step m k ?v) ! j)" if "j < ?n" for j
      using st(1) v(3) other [of j] that by (cases "j = k") (auto simp: less_Suc_eq)
    ultimately show ?case using st(2) by simp
  qed
  from this [of ?n] show ?thesis by auto
qed

lemma racy_run_append: "racy_run m (xs @ ys) w = racy_run m ys (racy_run m xs w)"
  by (simp add: racy_run_def)

lemma racy_all_pass:
  assumes st: "racy_start m n db0" and "w = racy_run m ([0..<n] @ [0..<n] @ [0..<n]) (replicate n RacyCheck, db0)"
  shows "(\<forall>j < n. \<exists>r. fst w ! j = RacyDone r) \<and> ncredited (fst w) = n"
proof -
  let ?s = "(replicate n RacyCheck, db0)"
  have new: "\<not> seen_before db0 (messageId m)" using st by (simp add: racy_start_def)
  have a: "length (fst (racy_run m [0..<n] ?s)) = n \<and> (\<forall>j < n. fst (racy_run m [0..<n] ?s) ! j = RacyApply)
      \<and> snd (racy_run m [0..<n] ?s) = db0 \<and> racy_inv m db0 (racy_run m [0..<n] ?s)"
  proof -
    have step: "fst (racy_step m j v) ! j = RacyApply \<and> snd (racy_step m j v) = db0"
      if "snd v = db0" "length (fst v) = n" "j < n" "fst v ! j = RacyCheck" for v j
      using that new by (simp add: racy_step_def applyRacy_def)
    show ?thesis
      using racy_sweep [where w = ?s and A = "\<lambda>pc. pc = RacyCheck" and B = "\<lambda>pc. pc = RacyApply" and m = m
          and I = "\<lambda>v. snd v = db0 \<and> racy_inv m db0 v"] racy_inv_start [OF st] racy_inv_step [OF st] step by simp
  qed
  define v where "v = racy_run m [0..<n] ?s"
  have b: "length (fst (racy_run m [0..<n] v)) = n \<and> (\<forall>j < n. fst (racy_run m [0..<n] v) ! j = RacyInsert) \<and> racy_inv m db0 (racy_run m [0..<n] v)"
  proof -
    have step: "fst (racy_step m j u) ! j = RacyInsert"
      if "racy_inv m db0 u" "length (fst u) = n" "j < n" "fst u ! j = RacyApply" for u j
    proof -
      from racy_room [OF st that(1-3)] that(4) obtain b where
        b: "getAccountBalanceCents (snd u) (accountId m) = Inr b" "balance_error (b + amountCents m) = None" by auto
      from credit_balance(1) [OF b] show ?thesis using that by (auto simp: racy_step_def applyRacy_def split: prod.splits)
    qed
    have "length (fst v) = n" using a v_def by simp
    then show ?thesis
      using racy_sweep [where w = v and A = "\<lambda>pc. pc = RacyApply" and B = "\<lambda>pc. pc = RacyInsert" and m = m
          and I = "\<lambda>u. racy_inv m db0 u \<and> length (fst u) = n"] racy_inv_step [OF st] step a v_def by simp
  qed
  define u where "u = racy_run m [0..<n] v"
  have c: "length (fst (racy_run m [0..<n] u)) = n \<and> (\<forall>j < n. credited (fst (racy_run m [0..<n] u) ! j) \<and> (\<exists>r. fst (racy_run m [0..<n] u) ! j = RacyDone r))"
  proof -
    have step: "credited (fst (racy_step m j w') ! j) \<and> (\<exists>r. fst (racy_step m j w') ! j = RacyDone r)"
      if "length (fst w') = n" "j < n" "fst w' ! j = RacyInsert" for w' j
      using that by (simp add: racy_step_def applyRacy_def insert_processed_def split: prod.splits)
    have "length (fst u) = n" using b u_def by simp
    then show ?thesis
      using racy_sweep [where w = u and A = "\<lambda>pc. pc = RacyInsert" and B = "\<lambda>pc. credited pc \<and> (\<exists>r. pc = RacyDone r)" and m = m
          and I = "\<lambda>u. True"] step b u_def by simp
  qed
  have w: "w = racy_run m [0..<n] u" by (simp add: assms(2) racy_run_append u_def v_def)
  have "filter credited (fst w) = fst w" using c w by (intro filter_True) (auto simp: in_set_conv_nth)
  then show ?thesis using c w by (simp add: ncredited_def)
qed

section \<open>The idempotent consumer\<close>

definition message_row :: "CreditAppliedMessage \<Rightarrow> processed_message" where
  "message_row m = \<lparr>message_id = messageId m, pm_account = accountId m, pm_amount = amountCents m\<rparr>"

fun inbox_run :: "CreditAppliedMessage list \<Rightarrow> inbox_db \<Rightarrow> (string + IdempotentOutcome) list \<times> inbox_db" where
  "inbox_run [] db = ([], db)"
| "inbox_run (m # ms) db =
     (let (r, db1) = applyIdempotent m db; (rs, db2) = inbox_run ms db1 in (r # rs, db2))"

definition applied_of :: "CreditAppliedMessage list \<Rightarrow> (string + IdempotentOutcome) list \<Rightarrow> CreditAppliedMessage list" where
  "applied_of ms rs = map fst (filter (\<lambda>(m, r). r = Inr Applied) (zip ms rs))"

definition credits_to :: "nat \<Rightarrow> CreditAppliedMessage list \<Rightarrow> int" where
  "credits_to a ms = sum_list (map (\<lambda>m. if accountId m = a then amountCents m else 0) ms)"

text \<open>One delivery: applied, with the row and the credit; a duplicate or an error, with neither.\<close>

lemma applyIdempotent_cases:
  obtains (applied) db' where "applyIdempotent m db = (Inr Applied, db')" "\<not> seen_before db (messageId m)"
      "processed_messages db' = processed_messages db @ [message_row m]"
      "\<And>a. getAccountBalanceCents db' a = map_sum id (\<lambda>b. b + (if accountId m = a then amountCents m else 0)) (getAccountBalanceCents db a)"
  | (duplicate) "applyIdempotent m db = (Inr Duplicate, db)" "seen_before db (messageId m)"
  | (refused) e where "applyIdempotent m db = (Inl e, db)" "\<not> seen_before db (messageId m) \<or> amountCents m \<le> 0"
proof (cases "amountCents m \<le> 0 \<or> seen_before db (messageId m) \<or> \<not> account_exists db (accountId m)")
  case True
  show ?thesis
  proof (cases "0 < amountCents m \<and> seen_before db (messageId m)")
    case True
    then show ?thesis by (intro duplicate) (simp_all add: applyIdempotent_def)
  next
    case False
    then show ?thesis using True by (intro refused [of "if amountCents m \<le> 0 then ''23514'' else ''23503''"]) (auto simp: applyIdempotent_def)
  qed
next
  case False
  then obtain b where b: "getAccountBalanceCents db (accountId m) = Inr b" by (auto simp: exists_balance)
  then have b': "getAccountBalanceCents (record_message m db) (accountId m) = Inr b" by simp
  show ?thesis
  proof (cases "balance_error (b + amountCents m)")
    case None
    then obtain db' where d: "credit m (record_message m db) = (Inr (), db')" "getAccountBalanceCents db' (accountId m) = Inr (b + amountCents m)"
      "\<forall>a. a \<noteq> accountId m \<longrightarrow> getAccountBalanceCents db' a = getAccountBalanceCents db a"
      "processed_messages db' = processed_messages (record_message m db)"
      using credit_balance(1) [OF b'] by auto
    have "getAccountBalanceCents db' a = map_sum id (\<lambda>b. b + (if accountId m = a then amountCents m else 0)) (getAccountBalanceCents db a)" for a
      using d(2,3) b by (cases "a = accountId m"; cases "getAccountBalanceCents db a") auto
    then show ?thesis using d False by (intro applied [of db']) (simp_all add: applyIdempotent_def message_row_def record_message_def)
  next
    case (Some e)
    then show ?thesis using credit_balance(2) [OF b'] False by (intro refused [of e]) (simp_all add: applyIdempotent_def)
  qed
qed

text \<open>The consumer is a receiver that deduplicates by message id and may refuse.\<close>

definition received :: "string \<Rightarrow> nat \<times> int \<Rightarrow> inbox_db \<Rightarrow> unit option \<times> inbox_db" where
  "received k p db =
     (case applyIdempotent \<lparr>messageId = k, accountId = fst p, amountCents = snd p\<rparr> db of
        (Inl e, db') \<Rightarrow> (None, db') | (Inr _, db') \<Rightarrow> (Some (), db'))"

definition inbox_ok :: "inbox_db \<Rightarrow> bool" where
  "inbox_ok db \<longleftrightarrow> distinct (map message_id (processed_messages db))"

definition recorded_messages :: "inbox_db \<Rightarrow> string \<rightharpoonup> unit" where
  "recorded_messages db k = (if seen_before db k then Some () else None)"

lemma seen_row: "processed_messages db' = processed_messages db @ [message_row m] \<Longrightarrow> seen_before db' k \<longleftrightarrow> k = messageId m \<or> seen_before db k"
  by (auto simp: seen_before_def message_row_def)

lemma ok_row:
  "processed_messages db' = processed_messages db @ [message_row m] \<Longrightarrow> \<not> seen_before db (messageId m) \<Longrightarrow> inbox_ok db \<Longrightarrow> inbox_ok db'"
  by (auto simp: inbox_ok_def seen_before_def message_row_def list_ex_iff)

interpretation inbox: refusing_receiver received "\<lambda>db. length (processed_messages db)" recorded_messages inbox_ok "\<lambda>_. True"
proof unfold_locales
  fix db :: inbox_db and k p db' and r :: unit
  let ?m = "\<lparr>messageId = k, accountId = fst p, amountCents = snd p\<rparr>"
  assume ok: "inbox_ok db"
  show "inbox_ok db' \<and> length (processed_messages db') = length (processed_messages db) \<and> recorded_messages db' = recorded_messages db"
    if "received k p db = (None, db')"
    using that ok by (cases rule: applyIdempotent_cases [of ?m db]) (auto simp: received_def)
  show "inbox_ok db' \<and> (recorded_messages db k = None \<longrightarrow>
        length (processed_messages db') = Suc (length (processed_messages db)) \<and> recorded_messages db' = (recorded_messages db)(k \<mapsto> r))
    \<and> (\<forall>r0. recorded_messages db k = Some r0 \<longrightarrow>
        r = r0 \<and> length (processed_messages db') = length (processed_messages db) \<and> recorded_messages db' = recorded_messages db)"
    if a: "received k p db = (Some r, db')"
  proof (cases rule: applyIdempotent_cases [of ?m db])
    case (applied d)
    then have "db' = d" using a by (simp add: received_def)
    then show ?thesis using applied ok ok_row [OF applied(3)] seen_row [OF applied(3)]
      by (auto simp: recorded_messages_def fun_eq_iff)
  next
    case duplicate
    then show ?thesis using a ok by (auto simp: received_def recorded_messages_def)
  next
    case (refused e)
    then show ?thesis using a by (simp add: received_def)
  qed
qed

lemma applied_of_simps [simp]:
  "applied_of [] rs = []" "applied_of (m # ms) (r # rs) = (if r = Inr Applied then [m] else []) @ applied_of ms rs"
  by (simp_all add: applied_of_def)

lemma credits_to_simps [simp]:
  "credits_to a [] = 0" "credits_to a (m # ms) = (if accountId m = a then amountCents m else 0) + credits_to a ms"
  "credits_to a (xs @ ys) = credits_to a xs + credits_to a ys"
  by (simp_all add: credits_to_def)

lemma inbox_run_ledger:
  "inbox_ok db \<Longrightarrow> inbox_run ms db = (rs, db') \<Longrightarrow>
   length rs = length ms \<and> inbox_ok db'
   \<and> processed_messages db' = processed_messages db @ map message_row (applied_of ms rs)
   \<and> (\<forall>a. getAccountBalanceCents db' a = map_sum id (\<lambda>b. b + credits_to a (applied_of ms rs)) (getAccountBalanceCents db a))
   \<and> (\<forall>i < length ms. (\<exists>out. rs ! i = Inr out) \<longrightarrow> seen_before db' (messageId (ms ! i)))"
proof (induction ms arbitrary: db rs)
  case Nil
  then show ?case by (simp add: sum.map_ident id_def)
next
  case (Cons m ms)
  obtain r db1 where r: "applyIdempotent m db = (r, db1)" by fastforce
  obtain rs1 where rs1: "inbox_run ms db1 = (rs1, db')" "rs = r # rs1"
    using Cons.prems(2) r by (auto split: prod.splits)
  have id: "map_sum id (\<lambda>b. b) x = (x :: string + int)" for x by (cases x) simp_all
  have one: "inbox_ok db1 \<and> processed_messages db1 = processed_messages db @ map message_row (applied_of [m] [r])
      \<and> (\<forall>a. getAccountBalanceCents db1 a = map_sum id (\<lambda>b. b + credits_to a (applied_of [m] [r])) (getAccountBalanceCents db a))
      \<and> ((\<exists>out. r = Inr out) \<longrightarrow> seen_before db1 (messageId m))"
  proof (cases rule: applyIdempotent_cases [of m db])
    case (applied d)
    then have "r = Inr Applied" "db1 = d" using r by simp_all
    then show ?thesis using applied ok_row [OF applied(3)] seen_row [OF applied(3)] Cons.prems(1) by simp
  qed (use r Cons.prems(1) id in auto)
  note IH = Cons.IH [OF conjunct1 [OF one] rs1(1)]
  have mono: "seen_before db' k" if "seen_before db1 k" for k using IH that by (auto simp: seen_before_def)
  have rest: "seen_before db' (messageId ((m # ms) ! i))" if "i < length (m # ms)" "rs ! i = Inr out" for i out
    using that one IH mono rs1(2) by (cases i) auto
  have bal: "getAccountBalanceCents db' a = map_sum id (\<lambda>b. b + credits_to a (applied_of (m # ms) rs)) (getAccountBalanceCents db a)" for a
  proof (cases "getAccountBalanceCents db a")
    case (Inr b)
    then have "getAccountBalanceCents db1 a = Inr (b + credits_to a (applied_of [m] [r]))" using one by simp
    then have "getAccountBalanceCents db' a = Inr (b + credits_to a (applied_of [m] [r]) + credits_to a (applied_of ms rs1))" using IH by simp
    then show ?thesis using Inr rs1(2) by simp
  qed (use one IH in simp)
  have "length rs = length (m # ms)" "inbox_ok db'"
    "processed_messages db' = processed_messages db @ map message_row (applied_of (m # ms) rs)"
    using IH conjunct1 [OF conjunct2 [OF one]] rs1(2) by simp_all
  then show ?case using bal rest by blast
qed

section \<open>Properties\<close>

text \<open>
  C27: the idempotent consumer applies a message once. Whatever messages are delivered how often, in any
  order and with any refusals, every balance grows by exactly the amounts of the messages applied, each
  applied message has its row, no message id is applied twice, and an id that was answered at all is
  recorded, so that no later delivery of it changes anything.\<close>

theorem inbox_applies_once:
  assumes "inbox_ok db" and "inbox_run ms db = (rs, db')"
  shows "(\<forall>a. getAccountBalanceCents db' a
        = map_sum id (\<lambda>b. b + credits_to a (applied_of ms rs)) (getAccountBalanceCents db a))
    \<and> processed_messages db' = processed_messages db @ map message_row (applied_of ms rs)
    \<and> distinct (map messageId (applied_of ms rs)) \<and> (\<forall>m \<in> set (applied_of ms rs). \<not> seen_before db (messageId m))
    \<and> (\<forall>i < length ms. (\<exists>out. rs ! i = Inr out) \<longrightarrow> seen_before db' (messageId (ms ! i)))
    \<and> (\<forall>m. 0 < amountCents m \<longrightarrow> seen_before db' (messageId m) \<longrightarrow> applyIdempotent m db' = (Inr Duplicate, db'))"
proof -
  note l = inbox_run_ledger [OF assms]
  have rows: "map message_id (processed_messages db') = map message_id (processed_messages db) @ map messageId (applied_of ms rs)"
    using l by (simp add: message_row_def)
  then have d: "distinct (map messageId (applied_of ms rs))" "set (map message_id (processed_messages db)) \<inter> set (map messageId (applied_of ms rs)) = {}"
    using conjunct1 [OF conjunct2 [OF l]] unfolding inbox_ok_def rows by simp_all
  have new: "\<not> seen_before db (messageId m)" if m: "m \<in> set (applied_of ms rs)" for m
  proof
    assume "seen_before db (messageId m)"
    then have "messageId m \<in> set (map message_id (processed_messages db))" by (force simp: seen_before_def list_ex_iff)
    moreover have "messageId m \<in> set (map messageId (applied_of ms rs))" using m by simp
    ultimately show False using d(2) by blast
  qed
  have dup: "\<forall>m. 0 < amountCents m \<longrightarrow> seen_before db' (messageId m) \<longrightarrow> applyIdempotent m db' = (Inr Duplicate, db')"
    by (simp add: applyIdempotent_def)
  show ?thesis
    using conjunct1 [OF conjunct2 [OF conjunct2 [OF l]]] conjunct2 [OF conjunct2 [OF conjunct2 [OF l]]] d(1) new dup by blast
qed

definition one_account :: inbox_db where
  "one_account = \<lparr>accounts = [\<lparr>acc_id = 1, balance_cents = 100\<rparr>], processed_messages = []\<rparr>"

definition one_credit :: CreditAppliedMessage where
  "one_credit = \<lparr>messageId = ''m1'', accountId = 1, amountCents = 40\<rparr>"

lemma inbox_applies_once_witness:
  "\<exists>rs db'. inbox_run (redeliver one_credit 2) one_account = (rs, db')
    \<and> getAccountBalanceCents db' 1
      = map_sum id (\<lambda>b. b + credits_to 1 (applied_of (redeliver one_credit 2) rs)) (getAccountBalanceCents one_account 1)"
proof -
  obtain rs db' where r: "inbox_run (redeliver one_credit 2) one_account = (rs, db')" by fastforce
  have "inbox_ok one_account" by (simp add: inbox_ok_def one_account_def)
  from inbox_applies_once [OF this r] r show ?thesis by blast
qed

text \<open>
  The racy consumer does not. When \<open>n\<close> workers deliver one new message and all have returned, the balance
  has grown by the amount once for every worker that passed its check before the first row was
  there: at least one, exactly one of them reports an application and all others a conflict of their
  insert, the inbox holds one row. When all workers check first, all \<open>n\<close> of them credit the account.\<close>

lemma racy_consumer_credits_again:
  assumes "racy_start m n db" and "1 \<le> n"
  shows "(\<forall>pcs db'. racy_run m is (replicate n RacyCheck, db) = (pcs, db') \<longrightarrow> (\<forall>j < n. \<exists>r. pcs ! j = RacyDone r) \<longrightarrow>
        getAccountBalanceCents db' (accountId m)
          = map_sum id (\<lambda>b. b + int (ncredited pcs) * amountCents m) (getAccountBalanceCents db (accountId m))
        \<and> 1 \<le> ncredited pcs \<and> ncredited pcs \<le> n \<and> napplied pcs = 1 \<and> countProcessedMessages db' (messageId m) = 1)
    \<and> (\<exists>pcs db'. racy_run m ([0..<n] @ [0..<n] @ [0..<n]) (replicate n RacyCheck, db) = (pcs, db')
        \<and> (\<forall>j < n. \<exists>r. pcs ! j = RacyDone r)
        \<and> getAccountBalanceCents db' (accountId m) = map_sum id (\<lambda>b. b + int n * amountCents m) (getAccountBalanceCents db (accountId m)))"
proof (intro conjI allI impI)
  let ?s = "(replicate n RacyCheck, db)"
  have inv: "racy_inv m db (racy_run m is ?s) \<and> length (fst (racy_run m is ?s)) = n" for "is"
    by (rule racy_inv_run [OF assms(1) racy_inv_start [OF assms(1)]]) simp
  fix pcs db'
  assume run: "racy_run m is ?s = (pcs, db')" and done_: "\<forall>j < n. \<exists>r. pcs ! j = RacyDone r"
  have i: "racy_inv m db (pcs, db')" and len: "length pcs = n" using inv [of "is"] run by simp_all
  then show "getAccountBalanceCents db' (accountId m)
      = map_sum id (\<lambda>b. b + int (ncredited pcs) * amountCents m) (getAccountBalanceCents db (accountId m))"
    by (simp add: racy_inv_def)
  obtain r where "pcs ! 0 = RacyDone r" using done_ assms(2) by auto
  then have "0 < napplied pcs" using i len assms(2) unfolding racy_inv_def by force
  then show one: "napplied pcs = 1" using i by (simp add: racy_inv_def)
  then show "countProcessedMessages db' (messageId m) = 1" using i by (simp add: racy_inv_def)
  show "ncredited pcs \<le> n" using len length_filter_le [of credited pcs] by (simp add: ncredited_def)
  have "RacyDone (Inr RacyApplied) \<in> set pcs"
    using one unfolding napplied_def by (metis (mono_tags, lifting) filter_False list.size(3) zero_neq_one)
  then have "filter credited pcs \<noteq> []" by (force simp: filter_empty_conv)
  then show "1 \<le> ncredited pcs" by (cases "filter credited pcs") (simp_all add: ncredited_def)
next
  let ?w = "racy_run m ([0..<n] @ [0..<n] @ [0..<n]) (replicate n RacyCheck, db)"
  note a = racy_all_pass [OF assms(1) refl]
  have "racy_inv m db ?w" using racy_inv_run [OF assms(1) racy_inv_start [OF assms(1)]] by simp
  then show "\<exists>pcs db'. ?w = (pcs, db') \<and> (\<forall>j < n. \<exists>r. pcs ! j = RacyDone r)
      \<and> getAccountBalanceCents db' (accountId m) = map_sum id (\<lambda>b. b + int n * amountCents m) (getAccountBalanceCents db (accountId m))"
    using a by (intro exI [of _ "fst ?w"] exI [of _ "snd ?w"]) (simp add: racy_inv_def)
qed

lemma racy_consumer_credits_again_witness:
  "\<exists>pcs db'. racy_run one_credit ([0..<2] @ [0..<2] @ [0..<2]) (replicate 2 RacyCheck, one_account) = (pcs, db')
    \<and> getAccountBalanceCents db' (accountId one_credit)
      = map_sum id (\<lambda>b. b + int 2 * amountCents one_credit) (getAccountBalanceCents one_account (accountId one_credit))"
proof -
  have "racy_start one_credit 2 one_account"
    by (simp add: racy_start_def one_credit_def one_account_def seen_before_def getAccountBalanceCents_def row_with_def)
  from racy_consumer_credits_again [OF this, of "[]"] show ?thesis by (simp only: one_le_numeral) blast
qed

end
