(* ===== verification/Replication.thy ===== *)
theory Replication
  imports Prelude
begin

text \<open>
  Reads on a replica, Labs 25 and 26: the router with its two classification tables, the reads gated on
  a WAL position, the sticky window and the bounded staleness. Of the servers the model has what
  PostgreSQL documents: the primary appends every update to the WAL, a hot standby shows the prefix it has
  replayed and rejects writes and row locks with 25006, it reports its position while it is streaming and
  then only. What happens between two statements of the code is any list of events.
\<close>

section \<open>Primary and replica\<close>

record 'v wal_record =
  rec_key :: nat
  rec_val :: 'v
  rec_bytes :: nat

record 'v cluster =
  base :: "nat \<rightharpoonup> 'v"
  wal :: "'v wal_record list"
  replayed :: nat
  streaming :: bool
  reported :: "nat option"

definition row_after :: "(nat \<rightharpoonup> 'v) \<Rightarrow> 'v wal_record list \<Rightarrow> nat \<rightharpoonup> 'v" where
  "row_after b recs k = (case filter (\<lambda>r. rec_key r = k) recs of [] \<Rightarrow> b k | rs \<Rightarrow> Some (rec_val (last rs)))"

definition primary_row :: "'v cluster \<Rightarrow> nat \<rightharpoonup> 'v" where
  "primary_row c = row_after (base c) (wal c)"

definition replica_row :: "'v cluster \<Rightarrow> nat \<rightharpoonup> 'v" where
  "replica_row c = row_after (base c) (take (replayed c) (wal c))"

text \<open>A WAL position is the number of bytes before it.\<close>

definition wal_bytes :: "'v wal_record list \<Rightarrow> nat" where
  "wal_bytes recs = sum_list (map rec_bytes recs)"

definition pg_current_wal_lsn :: "'v cluster \<Rightarrow> nat" where
  "pg_current_wal_lsn c = wal_bytes (wal c)"

definition pg_last_wal_replay_lsn :: "'v cluster \<Rightarrow> nat" where
  "pg_last_wal_replay_lsn c = wal_bytes (take (replayed c) (wal c))"

text \<open>An \<open>UPDATE\<close> of one row on the primary.\<close>

definition update_row :: "nat \<Rightarrow> 'v \<Rightarrow> nat \<Rightarrow> 'v cluster \<Rightarrow> 'v cluster" where
  "update_row k v bytes c =
     (if primary_row c k = None then c else c\<lparr>wal := wal c @ [\<lparr>rec_key = k, rec_val = v, rec_bytes = bytes\<rparr>]\<rparr>)"

datatype 'v repl_event = Replay | Report | Disconnect | Reconnect | OtherUpdate nat 'v nat

fun repl_step :: "'v repl_event \<Rightarrow> 'v cluster \<Rightarrow> 'v cluster" where
  "repl_step Replay c = c\<lparr>replayed := min (Suc (replayed c)) (length (wal c))\<rparr>"
| "repl_step Report c = (if streaming c then c\<lparr>reported := Some (pg_last_wal_replay_lsn c)\<rparr> else c)"
| "repl_step Disconnect c = c\<lparr>streaming := False, reported := None\<rparr>"
| "repl_step Reconnect c = c\<lparr>streaming := True\<rparr>"
| "repl_step (OtherUpdate k v bytes) c = update_row k v (Suc bytes) c"

definition repl_run :: "'v repl_event list \<Rightarrow> 'v cluster \<Rightarrow> 'v cluster" where
  "repl_run evs c = fold repl_step evs c"

section \<open>The router\<close>

datatype OperationKind = op_write | op_read | op_read_after_write | op_transaction

datatype NodeChoice = primary | replica

fun classifyNaive :: "OperationKind \<Rightarrow> NodeChoice" where
  "classifyNaive op_write = primary"
| "classifyNaive op_read = replica"
| "classifyNaive op_read_after_write = replica"
| "classifyNaive op_transaction = replica"

fun classifyCorrected :: "OperationKind \<Rightarrow> NodeChoice" where
  "classifyCorrected op_write = primary"
| "classifyCorrected op_read_after_write = primary"
| "classifyCorrected op_transaction = primary"
| "classifyCorrected op_read = replica"

definition read_on :: "NodeChoice \<Rightarrow> nat \<Rightarrow> 'v cluster \<Rightarrow> 'v option" where
  "read_on node k c = (case node of primary \<Rightarrow> primary_row c k | replica \<Rightarrow> replica_row c k)"

definition update_on :: "NodeChoice \<Rightarrow> nat \<Rightarrow> 'v \<Rightarrow> nat \<Rightarrow> 'v cluster \<Rightarrow> (string + unit) \<times> 'v cluster" where
  "update_on node k v bytes c =
     (case node of primary \<Rightarrow> (Inr (), update_row k v bytes c) | replica \<Rightarrow> (Inl ''25006'', c))"

definition router_write :: "(OperationKind \<Rightarrow> NodeChoice) \<Rightarrow> nat \<Rightarrow> 'v \<Rightarrow> nat \<Rightarrow> 'v cluster \<Rightarrow> (string + unit) \<times> 'v cluster" where
  "router_write classify k v bytes c = update_on (classify op_write) k v bytes c"

definition router_read :: "(OperationKind \<Rightarrow> NodeChoice) \<Rightarrow> nat \<Rightarrow> 'v cluster \<Rightarrow> 'v option" where
  "router_read classify k c = read_on (classify op_read) k c"

definition readAfterWrite :: "(OperationKind \<Rightarrow> NodeChoice) \<Rightarrow> nat \<Rightarrow> 'v cluster \<Rightarrow> 'v option" where
  "readAfterWrite classify k c = read_on (classify op_read_after_write) k c"

text \<open>\<open>BEGIN\<close>, the body, and \<open>COMMIT\<close> or \<open>ROLLBACK\<close> on the node the table names.\<close>

definition router_transaction ::
  "(OperationKind \<Rightarrow> NodeChoice) \<Rightarrow> (NodeChoice \<Rightarrow> 'v cluster \<Rightarrow> (string + 'a) \<times> 'v cluster) \<Rightarrow> 'v cluster \<Rightarrow> (string + 'a) \<times> 'v cluster" where
  "router_transaction classify body c =
     (case body (classify op_transaction) c of (Inl e, _) \<Rightarrow> (Inl e, c) | (Inr a, c') \<Rightarrow> (Inr a, c'))"

record product =
  priceCents :: int
  stockQuantity :: int

definition select_for_update :: "NodeChoice \<Rightarrow> nat \<Rightarrow> 'v cluster \<Rightarrow> string + 'v option" where
  "select_for_update node k c = (case node of primary \<Rightarrow> Inr (primary_row c k) | replica \<Rightarrow> Inl ''25006'')"

definition purchase_body :: "nat \<Rightarrow> int \<Rightarrow> nat \<Rightarrow> NodeChoice \<Rightarrow> product cluster \<Rightarrow> (string + int) \<times> product cluster" where
  "purchase_body productId quantity bytes node c =
     (case select_for_update node productId c of
        Inl e \<Rightarrow> (Inl e, c)
      | Inr None \<Rightarrow> (Inl (''product '' @ nat_str productId @ '' not found''), c)
      | Inr (Some p) \<Rightarrow>
          if stockQuantity p < quantity then
            (Inl (''insufficient stock: have '' @ int_str (stockQuantity p) @ '', need '' @ int_str quantity), c)
          else
            let newStock = stockQuantity p - quantity in
            (case update_on node productId (p\<lparr>stockQuantity := newStock\<rparr>) bytes c of
               (Inl e, c') \<Rightarrow> (Inl e, c') | (Inr _, c') \<Rightarrow> (Inr newStock, c')))"

definition purchase :: "(OperationKind \<Rightarrow> NodeChoice) \<Rightarrow> nat \<Rightarrow> int \<Rightarrow> nat \<Rightarrow> product cluster \<Rightarrow> (string + int) \<times> product cluster" where
  "purchase classify productId quantity bytes c = router_transaction classify (purchase_body productId quantity bytes) c"

section \<open>Waiting for a position\<close>

record LsnWaitResult =
  waitedMs :: rat
  polls :: nat
  replicaLsn :: nat

text \<open>The errors the two waits throw, with what their messages name.\<close>

datatype wait_error = NeverReached nat rat | NeverDropped nat rat

text \<open>
  The polling loop. An entry of the schedule is one turn: what happens before the query looks at the
  replica, how long the query takes, how long the timer sleeps after it. The answer is \<open>None\<close> when the
  schedule ends while the caller still waits.\<close>

type_synonym 'v turn = "'v repl_event list \<times> rat \<times> rat"

fun wait_loop ::
  "rat \<Rightarrow> nat \<Rightarrow> rat \<Rightarrow> nat \<Rightarrow> 'v turn list \<Rightarrow> 'v cluster \<Rightarrow> ((wait_error + LsnWaitResult) \<times> 'v cluster) option" where
  "wait_loop timeoutMs targetLsn elapsed n turns c =
     (if elapsed < timeoutMs then
        (case turns of
           [] \<Rightarrow> None
         | (evs, query, slept) # ts \<Rightarrow>
             let c = repl_run evs c in
             if targetLsn \<le> pg_last_wal_replay_lsn c
             then Some (Inr \<lparr>waitedMs = elapsed + query, polls = n + 1, replicaLsn = pg_last_wal_replay_lsn c\<rparr>, c)
             else wait_loop timeoutMs targetLsn (elapsed + query + slept) (n + 1) ts c)
      else Some (Inl (NeverReached targetLsn timeoutMs), c))"

declare wait_loop.simps [simp del]

definition waitForReplicaToReachLsn ::
  "nat \<Rightarrow> rat \<Rightarrow> 'v turn list \<Rightarrow> 'v cluster \<Rightarrow> ((wait_error + LsnWaitResult) \<times> 'v cluster) option" where
  "waitForReplicaToReachLsn targetLsn timeoutMs turns c = wait_loop timeoutMs targetLsn 0 0 turns c"

section \<open>The lag the primary reports\<close>

record ReplicationLagSample =
  replayLagBytes :: nat
  sample_state :: "string option"

text \<open>The row of \<open>pg_stat_replication\<close> is there while the replica streams; its position is null until the first report.\<close>

definition getReplicationLagFromPrimary :: "'v cluster \<Rightarrow> ReplicationLagSample" where
  "getReplicationLagFromPrimary c =
     (if streaming c then
        \<lparr>replayLagBytes = (case reported c of None \<Rightarrow> 0 | Some lsn \<Rightarrow> pg_current_wal_lsn c - lsn), sample_state = Some ''streaming''\<rparr>
      else \<lparr>replayLagBytes = 0, sample_state = None\<rparr>)"

definition LAG_THRESHOLD_BYTES :: nat where "LAG_THRESHOLD_BYTES = 100"

definition bounded_staleness_route :: "'v cluster \<Rightarrow> NodeChoice" where
  "bounded_staleness_route c =
     (if LAG_THRESHOLD_BYTES < replayLagBytes (getReplicationLagFromPrimary c) then primary else replica)"

fun caught_up_loop ::
  "rat \<Rightarrow> nat \<Rightarrow> rat \<Rightarrow> 'v turn list \<Rightarrow> 'v cluster \<Rightarrow> ((wait_error + ReplicationLagSample) \<times> 'v cluster) option" where
  "caught_up_loop timeoutMs thresholdBytes elapsed turns c =
     (if elapsed < timeoutMs then
        (case turns of
           [] \<Rightarrow> None
         | (evs, query, slept) # ts \<Rightarrow>
             let c = repl_run evs c; sample = getReplicationLagFromPrimary c in
             if replayLagBytes sample \<le> thresholdBytes then Some (Inr sample, c)
             else caught_up_loop timeoutMs thresholdBytes (elapsed + query + slept) ts c)
      else Some (Inl (NeverDropped thresholdBytes timeoutMs), c))"

declare caught_up_loop.simps [simp del]

definition waitForReplicationCaughtUp ::
  "nat \<Rightarrow> rat \<Rightarrow> 'v turn list \<Rightarrow> 'v cluster \<Rightarrow> ((wait_error + ReplicationLagSample) \<times> 'v cluster) option" where
  "waitForReplicationCaughtUp thresholdBytes timeoutMs turns c = caught_up_loop timeoutMs thresholdBytes 0 turns c"

section \<open>The trials\<close>

text \<open>Each trial writes a value and reads the row back; the answer is whether the read was stale.\<close>

definition naive_trial :: "nat \<Rightarrow> 'v \<Rightarrow> nat \<Rightarrow> 'v repl_event list \<Rightarrow> 'v cluster \<Rightarrow> bool" where
  "naive_trial k v bytes evs c =
     (readAfterWrite classifyNaive k (repl_run evs (snd (router_write classifyNaive k v bytes c))) \<noteq> Some v)"

definition primaryStrategyTrial :: "nat \<Rightarrow> 'v \<Rightarrow> nat \<Rightarrow> 'v repl_event list \<Rightarrow> 'v cluster \<Rightarrow> bool" where
  "primaryStrategyTrial k v bytes evs c =
     (readAfterWrite classifyCorrected k (repl_run evs (snd (router_write classifyCorrected k v bytes c))) \<noteq> Some v)"

definition lsnWaitStrategyTrial ::
  "nat \<Rightarrow> 'v \<Rightarrow> nat \<Rightarrow> 'v repl_event list \<Rightarrow> 'v turn list \<Rightarrow> 'v repl_event list \<Rightarrow> 'v cluster \<Rightarrow> (wait_error + bool) option" where
  "lsnWaitStrategyTrial k v bytes evs1 turns evs2 c =
     (let c1 = repl_run evs1 (snd (router_write classifyCorrected k v bytes c)) in
      case waitForReplicaToReachLsn (pg_current_wal_lsn c1) 5000 turns c1 of
        None \<Rightarrow> None
      | Some (Inl e, _) \<Rightarrow> Some (Inl e)
      | Some (Inr _, c2) \<Rightarrow> Some (Inr (replica_row (repl_run evs2 c2) k \<noteq> Some v)))"

record BoundedTrial =
  route :: NodeChoice
  isCorrect :: bool
  lagBytes :: nat

definition bounded_staleness_trial ::
  "nat \<Rightarrow> 'v \<Rightarrow> nat \<Rightarrow> 'v repl_event list \<Rightarrow> 'v repl_event list \<Rightarrow> 'v cluster \<Rightarrow> BoundedTrial" where
  "bounded_staleness_trial k v bytes evs1 evs2 c =
     (let c1 = repl_run evs1 (update_row k v bytes c); r = bounded_staleness_route c1 in
      \<lparr>route = r, isCorrect = (read_on r k (repl_run evs2 c1) = Some v), lagBytes = replayLagBytes (getReplicationLagFromPrimary c1)\<rparr>)"

text \<open>The read on the replica after the sticky window, with what happened in it.\<close>

definition staleAfterWindowExpired :: "nat \<Rightarrow> 'v \<Rightarrow> nat \<Rightarrow> 'v repl_event list \<Rightarrow> 'v cluster \<Rightarrow> bool" where
  "staleAfterWindowExpired k v bytes evs c = (read_on replica k (repl_run evs (update_row k v bytes c)) \<noteq> Some v)"

section \<open>Facts on the cluster\<close>

definition cluster_ok :: "'v cluster \<Rightarrow> bool" where
  "cluster_ok c \<longleftrightarrow> replayed c \<le> length (wal c) \<and> (\<forall>r \<in> set (wal c). 0 < rec_bytes r)
     \<and> (\<forall>lsn. reported c = Some lsn \<longrightarrow> (\<exists>n \<le> replayed c. lsn = wal_bytes (take n (wal c))))"

lemma wal_bytes_simps [simp]:
  "wal_bytes [] = 0" "wal_bytes (r # rs) = rec_bytes r + wal_bytes rs" "wal_bytes (xs @ ys) = wal_bytes xs + wal_bytes ys"
  by (simp_all add: wal_bytes_def)

lemma update_row_ok: "cluster_ok c \<Longrightarrow> 0 < bytes \<Longrightarrow> cluster_ok (update_row k v bytes c)"
  by (fastforce simp: cluster_ok_def update_row_def)

lemma repl_step_ok: "cluster_ok c \<Longrightarrow> cluster_ok (repl_step e c)"
proof (cases e)
  case Replay
  assume "cluster_ok c"
  then have "replayed c \<le> length (wal c)" "\<forall>r \<in> set (wal c). 0 < rec_bytes r"
    "\<And>lsn. reported c = Some lsn \<Longrightarrow> \<exists>n \<le> replayed c. lsn = wal_bytes (take n (wal c))" by (simp_all add: cluster_ok_def)
  then show ?thesis using Replay by (simp add: cluster_ok_def min_def) (meson le_SucI order_trans)
next
  case (OtherUpdate k v b)
  assume "cluster_ok c"
  then show ?thesis using OtherUpdate update_row_ok [of c "Suc b" k v] by simp
qed (auto simp: cluster_ok_def pg_last_wal_replay_lsn_def)

lemma repl_run_simps [simp]: "repl_run [] c = c" "repl_run (e # evs) c = repl_run evs (repl_step e c)"
  "repl_run (xs @ ys) c = repl_run ys (repl_run xs c)"
  by (simp_all add: repl_run_def)

lemma repl_run_ok: "cluster_ok c \<Longrightarrow> cluster_ok (repl_run evs c)"
  by (induction evs arbitrary: c) (simp_all add: repl_step_ok del: repl_step.simps)

text \<open>Events that do not update row \<open>k\<close>.\<close>

definition quiet :: "nat \<Rightarrow> 'v repl_event list \<Rightarrow> bool" where
  "quiet k evs \<longleftrightarrow> (\<forall>e \<in> set evs. \<forall>v b. e \<noteq> OtherUpdate k v b)"

definition extends :: "nat \<Rightarrow> 'v cluster \<Rightarrow> 'v cluster \<Rightarrow> bool" where
  "extends k c c' \<longleftrightarrow> base c' = base c \<and> replayed c \<le> replayed c' \<and> (\<exists>ys. wal c' = wal c @ ys \<and> (\<forall>r \<in> set ys. rec_key r \<noteq> k))"

lemma extends_refl: "extends k c c" by (simp add: extends_def)

lemma extends_trans: "extends k c d \<Longrightarrow> extends k d e \<Longrightarrow> extends k c e"
  unfolding extends_def by (elim conjE exE) (simp, blast)

lemma step_extends: "cluster_ok c \<Longrightarrow> (\<And>v b. e \<noteq> OtherUpdate k v b) \<Longrightarrow> extends k c (repl_step e c)"
  by (cases e) (auto simp: extends_def cluster_ok_def update_row_def)

lemma run_extends: "cluster_ok c \<Longrightarrow> quiet k evs \<Longrightarrow> extends k c (repl_run evs c)"
proof (induction evs arbitrary: c)
  case (Cons e evs)
  have "extends k c (repl_step e c)" using Cons.prems by (intro step_extends) (auto simp: quiet_def)
  moreover have "extends k (repl_step e c) (repl_run evs (repl_step e c))"
    using Cons.prems by (intro Cons.IH repl_step_ok) (auto simp: quiet_def)
  ultimately show ?case by (simp del: repl_step.simps) (rule extends_trans)
qed (simp add: extends_refl)

text \<open>Record \<open>i\<close> is the last one that writes row \<open>k\<close>, and writes \<open>v\<close>.\<close>

definition last_write :: "nat \<Rightarrow> 'v \<Rightarrow> nat \<Rightarrow> 'v cluster \<Rightarrow> bool" where
  "last_write k v i c \<longleftrightarrow> (\<exists>xs r ys. wal c = xs @ r # ys \<and> length xs = i \<and> rec_key r = k \<and> rec_val r = v \<and> (\<forall>q \<in> set ys. rec_key q \<noteq> k))"

lemma last_write_update: "primary_row c k \<noteq> None \<Longrightarrow> last_write k v (length (wal c)) (update_row k v bytes c)"
  unfolding last_write_def update_row_def by (rule exI [of _ "wal c"]) simp

lemma last_write_extends: "last_write k v i c \<Longrightarrow> extends k c c' \<Longrightarrow> last_write k v i c'"
  unfolding last_write_def extends_def by (elim exE conjE) (fastforce simp: append_assoc)

lemma row_after_append: "row_after b (xs @ r # ys) k = Some (rec_val r)" if "rec_key r = k" "\<forall>q \<in> set ys. rec_key q \<noteq> k"
proof -
  have "filter (\<lambda>r. rec_key r = k) ys = []" using that(2) by (simp add: filter_empty_conv)
  then show ?thesis using that(1) by (cases "filter (\<lambda>r. rec_key r = k) xs") (simp_all add: row_after_def)
qed

lemma last_write_row:
  assumes "last_write k v i c"
  shows "primary_row c k = Some v" and "i < replayed c \<Longrightarrow> replica_row c k = Some v"
proof -
  obtain xs r ys where w: "wal c = xs @ r # ys" "length xs = i" "rec_key r = k" "rec_val r = v" "\<forall>q \<in> set ys. rec_key q \<noteq> k"
    using assms by (auto simp: last_write_def)
  show "primary_row c k = Some v" unfolding primary_row_def w(1) using row_after_append [OF w(3,5)] w(4) by simp
  assume "i < replayed c"
  then obtain j where "replayed c = i + Suc j" by (auto dest: less_imp_Suc_add)
  then have "take (replayed c) (wal c) = xs @ r # take j ys" using w(1,2) by simp
  moreover have "\<forall>q \<in> set (take j ys). rec_key q \<noteq> k" using w(5) by (auto dest: in_set_takeD)
  ultimately show "replica_row c k = Some v" unfolding replica_row_def using row_after_append [OF w(3)] w(4) by simp
qed

text \<open>Positions order the records.\<close>

lemma wal_bytes_take_less:
  "\<forall>r \<in> set w. 0 < rec_bytes r \<Longrightarrow> m < n \<Longrightarrow> m < length w \<Longrightarrow> wal_bytes (take m w) < wal_bytes (take n w)"
proof (induction w arbitrary: m n)
  case (Cons r w)
  then show ?case by (cases m; cases n) fastforce+
qed simp

lemma position_reached:
  assumes "cluster_ok c" and "wal_bytes (take n (wal c)) \<le> pg_last_wal_replay_lsn c" and "n \<le> length (wal c)"
  shows "n \<le> replayed c"
proof (rule ccontr)
  assume "\<not> n \<le> replayed c"
  then have "wal_bytes (take (replayed c) (wal c)) < wal_bytes (take n (wal c))"
    using assms(1,3) by (intro wal_bytes_take_less) (auto simp: cluster_ok_def)
  then show False using assms(2) by (simp add: pg_last_wal_replay_lsn_def)
qed

section \<open>The waits\<close>

lemma wait_loop_result:
  "cluster_ok c \<Longrightarrow> \<forall>t \<in> set turns. quiet k (fst t) \<Longrightarrow> wait_loop timeoutMs target elapsed n turns c = Some (r, c') \<Longrightarrow>
   cluster_ok c' \<and> extends k c c' \<and> (\<forall>res. r = Inr res \<longrightarrow> target \<le> pg_last_wal_replay_lsn c')"
proof (induction turns arbitrary: elapsed n c)
  case Nil
  then show ?case using extends_refl by (subst (asm) wait_loop.simps) (auto split: if_splits)
next
  case (Cons t ts)
  obtain evs query slept where t: "t = (evs, query, slept)" by (cases t)
  have q: "quiet k evs" "\<forall>t \<in> set ts. quiet k (fst t)" using Cons.prems(2) t by auto
  note ok = repl_run_ok [OF Cons.prems(1), of evs] and ex = run_extends [OF Cons.prems(1) q(1)]
  show ?case
  proof (cases "elapsed < timeoutMs \<and> \<not> target \<le> pg_last_wal_replay_lsn (repl_run evs c)")
    case True
    then have "wait_loop timeoutMs target (elapsed + query + slept) (n + 1) ts (repl_run evs c) = Some (r, c')"
      using Cons.prems(3) t by (subst (asm) wait_loop.simps) (simp add: Let_def)
    from Cons.IH [OF ok q(2) this] ex show ?thesis by (blast intro: extends_trans)
  next
    case False
    then show ?thesis using Cons.prems(1,3) t ok ex extends_refl
      by (subst (asm) wait_loop.simps) (auto simp: Let_def split: if_splits)
  qed
qed

definition timely :: "rat \<Rightarrow> 'v turn list \<Rightarrow> bool" where
  "timely \<delta> turns \<longleftrightarrow> (\<forall>(evs, query, slept) \<in> set turns. 0 \<le> query \<and> \<delta> \<le> slept)"

lemma timely_Cons [simp]: "timely \<delta> ((evs, query, slept) # ts) \<longleftrightarrow> 0 \<le> query \<and> \<delta> \<le> slept \<and> timely \<delta> ts"
  by (auto simp: timely_def)

lemma wait_loop_ends:
  "timely \<delta> turns \<Longrightarrow> timeoutMs \<le> elapsed + \<delta> * of_nat (length turns) \<Longrightarrow> wait_loop timeoutMs target elapsed n turns c \<noteq> None"
proof (induction turns arbitrary: elapsed n c)
  case Nil
  then show ?case by (subst wait_loop.simps) simp
next
  case (Cons t ts)
  obtain evs query slept where t: "t = (evs, query, slept)" by (cases t)
  have "timeoutMs \<le> elapsed + query + slept + \<delta> * of_nat (length ts)"
    using Cons.prems t by (simp add: algebra_simps)
  then have "wait_loop timeoutMs target (elapsed + query + slept) (n + 1) ts (repl_run evs c) \<noteq> None"
    using Cons.prems(1) t by (intro Cons.IH) auto
  then show ?case using t by (subst wait_loop.simps) (simp add: Let_def)
qed

lemma caught_up_ends:
  "timely \<delta> turns \<Longrightarrow> timeoutMs \<le> elapsed + \<delta> * of_nat (length turns) \<Longrightarrow> caught_up_loop timeoutMs threshold elapsed turns c \<noteq> None"
proof (induction turns arbitrary: elapsed c)
  case Nil
  then show ?case by (subst caught_up_loop.simps) simp
next
  case (Cons t ts)
  obtain evs query slept where t: "t = (evs, query, slept)" by (cases t)
  have "timeoutMs \<le> elapsed + query + slept + \<delta> * of_nat (length ts)"
    using Cons.prems t by (simp add: algebra_simps)
  then have "caught_up_loop timeoutMs threshold (elapsed + query + slept) ts (repl_run evs c) \<noteq> None"
    using Cons.prems(1) t by (intro Cons.IH) auto
  then show ?case using t by (subst caught_up_loop.simps) (simp add: Let_def)
qed

text \<open>A timeout means that at no look at the replica it had got there.\<close>

fun looks :: "rat \<Rightarrow> rat \<Rightarrow> 'v turn list \<Rightarrow> 'v cluster \<Rightarrow> 'v cluster list" where
  "looks timeoutMs elapsed [] c = []"
| "looks timeoutMs elapsed ((evs, query, slept) # ts) c =
     (if elapsed < timeoutMs then repl_run evs c # looks timeoutMs (elapsed + query + slept) ts (repl_run evs c) else [])"

lemma wait_loop_timeout:
  "wait_loop timeoutMs target elapsed n turns c = Some (Inl e, c') \<Longrightarrow>
   e = NeverReached target timeoutMs \<and> (\<forall>d \<in> set (looks timeoutMs elapsed turns c). pg_last_wal_replay_lsn d < target)"
proof (induction turns arbitrary: elapsed n c)
  case Nil
  then show ?case by (subst (asm) wait_loop.simps) (auto split: if_splits)
next
  case (Cons t ts)
  obtain evs query slept where t: "t = (evs, query, slept)" by (cases t)
  then show ?case using Cons.IH [of "elapsed + query + slept" "n + 1" "repl_run evs c"] Cons.prems
    by (subst (asm) wait_loop.simps) (auto simp: Let_def split: if_splits)
qed

section \<open>What the replica lacks\<close>

lemma row_after_new:
  "\<forall>r \<in> set recs. rec_key r = k \<longrightarrow> rec_val r \<noteq> v \<Longrightarrow> b k \<noteq> Some v \<Longrightarrow> row_after b recs k \<noteq> Some v"
  by (auto simp: row_after_def filter_eq_Cons_iff dest!: last_in_set split: list.splits)

definition new_to :: "nat \<Rightarrow> 'v \<Rightarrow> 'v cluster \<Rightarrow> bool" where
  "new_to k v c \<longleftrightarrow> base c k \<noteq> Some v \<and> (\<forall>r \<in> set (wal c). rec_key r = k \<longrightarrow> rec_val r \<noteq> v)"

text \<open>After an update, whatever else happens to other rows, the replica shows the value once it has replayed the record.\<close>

lemma replica_after_update:
  fixes c :: "'v cluster" and v :: 'v
  assumes ok: "cluster_ok c" and row: "primary_row c k \<noteq> None" and b: "0 < bytes" and q: "quiet k evs"
  defines "c1 \<equiv> repl_run evs (update_row k v bytes c)"
  shows "primary_row c1 k = Some v" and "cluster_ok c1" and "length (wal c) < length (wal c1)" and "last_write k v (length (wal c)) c1"
    and "length (wal c) < replayed c1 \<Longrightarrow> replica_row c1 k = Some v"
    and "new_to k v c \<Longrightarrow> replica_row c1 k = Some v \<longleftrightarrow> length (wal c) < replayed c1"
    and "\<exists>ys. wal c1 = wal c @ \<lparr>rec_key = k, rec_val = v, rec_bytes = bytes\<rparr> # ys"
proof -
  let ?u = "update_row k v bytes c" and ?r = "\<lparr>rec_key = k, rec_val = v, rec_bytes = bytes\<rparr>"
  have uok: "cluster_ok ?u" by (rule update_row_ok [OF ok b])
  have ex: "extends k ?u c1" unfolding c1_def by (rule run_extends [OF uok q])
  show lw: "last_write k v (length (wal c)) c1" by (rule last_write_extends [OF last_write_update [OF row] ex])
  show "primary_row c1 k = Some v" "length (wal c) < replayed c1 \<Longrightarrow> replica_row c1 k = Some v"
    using last_write_row [OF lw] by simp_all
  show "cluster_ok c1" unfolding c1_def by (rule repl_run_ok [OF uok])
  have "wal ?u = wal c @ [?r]" "base ?u = base c" using row by (simp_all add: update_row_def)
  then obtain ys where ys: "wal c1 = wal c @ ?r # ys" "base c1 = base c" using ex by (auto simp: extends_def)
  then show "\<exists>ys. wal c1 = wal c @ ?r # ys" "length (wal c) < length (wal c1)" by auto
  assume new: "new_to k v c"
  have "replica_row c1 k \<noteq> Some v" if "\<not> length (wal c) < replayed c1"
  proof -
    have "take (replayed c1) (wal c1) = take (replayed c1) (wal c)" using that ys(1) by simp
    then show ?thesis unfolding replica_row_def ys(2)
      using new by (intro row_after_new) (auto simp: new_to_def dest: in_set_takeD)
  qed
  then show "replica_row c1 k = Some v \<longleftrightarrow> length (wal c) < replayed c1" using last_write_row(2) [OF lw] by blast
qed

lemma bytes_missed:
  assumes ok: "cluster_ok c" and w: "wal c = xs @ r # ys" and behind: "replayed c \<le> length xs"
  shows "rec_bytes r \<le> pg_current_wal_lsn c - pg_last_wal_replay_lsn c"
proof -
  have "xs = take (replayed c) xs @ drop (replayed c) xs" by simp
  then have "wal_bytes xs = wal_bytes (take (replayed c) xs) + wal_bytes (drop (replayed c) xs)"
    by (metis wal_bytes_simps(3))
  then show ?thesis using w behind by (simp add: pg_current_wal_lsn_def pg_last_wal_replay_lsn_def)
qed

lemma reported_bounds:
  assumes "cluster_ok c" and "reported c = Some lsn"
  shows "lsn \<le> pg_last_wal_replay_lsn c"
proof -
  obtain n where n: "n \<le> replayed c" "lsn = wal_bytes (take n (wal c))" using assms by (auto simp: cluster_ok_def)
  have "take (replayed c) (wal c) = take n (wal c) @ drop n (take (replayed c) (wal c))"
    using n(1) by (metis append_take_drop_id min.absorb1 take_take)
  then show ?thesis unfolding n(2) pg_last_wal_replay_lsn_def by (metis le_add1 wal_bytes_simps(3))
qed

lemma purchase_on_primary:
  assumes "primary_row c i = Some p"
  shows "stockQuantity p < q \<Longrightarrow> \<exists>e. purchase classifyCorrected i q bytes c = (Inl e, c)"
    and "q \<le> stockQuantity p \<Longrightarrow> \<exists>c'. purchase classifyCorrected i q bytes c = (Inr (stockQuantity p - q), c')
      \<and> primary_row c' = (primary_row c)(i \<mapsto> p\<lparr>stockQuantity := stockQuantity p - q\<rparr>)"
proof -
  let ?p = "p\<lparr>stockQuantity := stockQuantity p - q\<rparr>"
  have "primary_row (update_row i ?p bytes c) j = ((primary_row c)(i \<mapsto> ?p)) j" for j
    using assms by (auto simp: update_row_def primary_row_def row_after_def split: list.splits)
  then have "primary_row (update_row i ?p bytes c) = (primary_row c)(i \<mapsto> ?p)" by blast
  then show "q \<le> stockQuantity p \<Longrightarrow> \<exists>c'. purchase classifyCorrected i q bytes c = (Inr (stockQuantity p - q), c')
      \<and> primary_row c' = (primary_row c)(i \<mapsto> ?p)"
    using assms by (simp add: purchase_def router_transaction_def purchase_body_def select_for_update_def update_on_def Let_def)
qed (use assms in \<open>simp add: purchase_def router_transaction_def purchase_body_def select_for_update_def\<close>)

lemma purchase_on_replica: "purchase classifyNaive i q bytes c = (Inl ''25006'', c)"
  by (simp add: purchase_def router_transaction_def purchase_body_def select_for_update_def)

section \<open>Properties\<close>

text \<open>
  C28: reading one's own write. Whatever the cluster does to other rows between the statements, the corrected
  router always reads the value just written, and so does the replica after the wait for the position of the
  write whenever the wait returns; the wait returns or times out within 1000 turns of the polling interval of
  5 ms. The naive router's read is stale exactly when the replica has not replayed the record of the
  write yet, and the same holds after any sticky window.\<close>

theorem read_your_own_write:
  assumes "cluster_ok c" and "primary_row c k \<noteq> None" and "0 < bytes" and "quiet k evs1" and "quiet k evs2"
    and "\<forall>t \<in> set turns. quiet k (fst t)"
  shows "\<not> primaryStrategyTrial k v bytes evs1 c
    \<and> lsnWaitStrategyTrial k v bytes evs1 turns evs2 c \<noteq> Some (Inr True)
    \<and> (timely 5 turns \<longrightarrow> 1000 \<le> length turns \<longrightarrow> lsnWaitStrategyTrial k v bytes evs1 turns evs2 c \<noteq> None)
    \<and> (new_to k v c \<longrightarrow>
        naive_trial k v bytes evs1 c = (replayed (repl_run evs1 (update_row k v bytes c)) \<le> length (wal c))
        \<and> staleAfterWindowExpired k v bytes evs1 c = naive_trial k v bytes evs1 c)"
proof -
  let ?c1 = "repl_run evs1 (update_row k v bytes c)"
  note u = replica_after_update [OF assms(1-4), of v]
  have naive: "naive_trial k v bytes evs1 c = (replica_row ?c1 k \<noteq> Some v)"
    by (simp add: naive_trial_def readAfterWrite_def router_write_def update_on_def read_on_def)
  have wait: "lsnWaitStrategyTrial k v bytes evs1 turns evs2 c =
    (case waitForReplicaToReachLsn (pg_current_wal_lsn ?c1) 5000 turns ?c1 of None \<Rightarrow> None
     | Some (Inl e, _) \<Rightarrow> Some (Inl e) | Some (Inr _, c2) \<Rightarrow> Some (Inr (replica_row (repl_run evs2 c2) k \<noteq> Some v)))"
    by (simp add: lsnWaitStrategyTrial_def router_write_def update_on_def Let_def)
  have fresh: "replica_row (repl_run evs2 c2) k = Some v"
    if w: "waitForReplicaToReachLsn (pg_current_wal_lsn ?c1) 5000 turns ?c1 = Some (Inr res, c2)" for res c2
  proof -
    have r: "cluster_ok c2" "extends k ?c1 c2" "pg_current_wal_lsn ?c1 \<le> pg_last_wal_replay_lsn c2"
      using wait_loop_result [OF u(2) assms(6)] w by (auto simp: waitForReplicaToReachLsn_def)
    have "length (wal ?c1) \<le> replayed c2"
      using r by (intro position_reached) (auto simp: extends_def pg_current_wal_lsn_def)
    moreover have e2: "extends k c2 (repl_run evs2 c2)" by (rule run_extends [OF r(1) assms(5)])
    ultimately have "length (wal c) < replayed (repl_run evs2 c2)" using u(3) by (simp add: extends_def)
    then show ?thesis by (rule last_write_row(2) [OF last_write_extends [OF u(4) extends_trans [OF r(2) e2]]])
  qed
  have "lsnWaitStrategyTrial k v bytes evs1 turns evs2 c \<noteq> Some (Inr True)"
    unfolding wait using fresh by (auto split: option.split sum.split)
  moreover have "lsnWaitStrategyTrial k v bytes evs1 turns evs2 c \<noteq> None" if "timely 5 turns" "1000 \<le> length turns"
    unfolding wait waitForReplicaToReachLsn_def using wait_loop_ends [OF that(1), of 5000 0] that(2)
    by (auto split: option.split sum.split)
  moreover have "\<not> primaryStrategyTrial k v bytes evs1 c" using u(1)
    by (simp add: primaryStrategyTrial_def readAfterWrite_def router_write_def update_on_def read_on_def)
  moreover have "staleAfterWindowExpired k v bytes evs1 c = naive_trial k v bytes evs1 c"
    unfolding naive by (simp add: staleAfterWindowExpired_def read_on_def)
  moreover have "naive_trial k v bytes evs1 c = (replayed ?c1 \<le> length (wal c))" if "new_to k v c"
    unfolding naive using u(6) [OF that] by (simp add: not_less)
  ultimately show ?thesis by blast
qed

definition two_rows :: "nat cluster" where
  "two_rows = \<lparr>base = [1 \<mapsto> 10, 2 \<mapsto> 20], wal = [], replayed = 0, streaming = True, reported = Some 0\<rparr>"

lemma two_rows_ok: "cluster_ok two_rows" "primary_row two_rows 1 \<noteq> None" "new_to 1 7 two_rows"
  by (simp_all add: two_rows_def cluster_ok_def primary_row_def row_after_def new_to_def)

lemma read_your_own_write_witness:
  "\<not> primaryStrategyTrial 1 7 80 [] two_rows
   \<and> lsnWaitStrategyTrial 1 7 80 [] [([OtherUpdate 2 5 9, Replay], 1, 5)] [] two_rows \<noteq> Some (Inr True)
   \<and> naive_trial 1 7 80 [] two_rows"
proof -
  have "quiet 1 ([] :: nat repl_event list)" "\<forall>t \<in> set [([OtherUpdate 2 5 9, Replay], 1 :: rat, 5 :: rat)]. quiet (1 :: nat) (fst t)"
    by (simp_all add: quiet_def)
  from read_your_own_write [OF two_rows_ok(1,2) _ this(1) this(1) this(2), of 80 7] two_rows_ok(3)
  show ?thesis by (simp add: two_rows_def update_row_def primary_row_def row_after_def)
qed

text \<open>
  The bounded staleness and its hole. While the replica streams and has reported a position, a read that is
  routed to it misses at most 100 bytes of WAL, so a write of more than 100 bytes is always seen, and a read routed
  to the primary always sees it. When the replica is cut off, no row of the view remains, the lag is
  reported as zero bytes: every read goes to the replica, stale by any amount, and the wait for a
  caught-up replica returns at once.\<close>

lemma bounded_staleness_hole:
  assumes "cluster_ok c" and "primary_row c k \<noteq> None" and "0 < bytes" and "quiet k evs1" and "quiet k evs2"
  shows "(let c1 = repl_run evs1 (update_row k v bytes c); trial = bounded_staleness_trial k v bytes evs1 evs2 c in
      (route trial = primary \<longrightarrow> isCorrect trial)
      \<and> (route trial = replica \<and> streaming c1 \<and> reported c1 \<noteq> None \<longrightarrow>
          pg_current_wal_lsn c1 \<le> pg_last_wal_replay_lsn c1 + LAG_THRESHOLD_BYTES
          \<and> (LAG_THRESHOLD_BYTES < bytes \<longrightarrow> isCorrect trial)))
    \<and> (new_to k v c \<longrightarrow> bounded_staleness_trial k v bytes [Disconnect] [] c = \<lparr>route = replica, isCorrect = False, lagBytes = 0\<rparr>)
    \<and> (0 < timeoutMs \<longrightarrow> waitForReplicationCaughtUp threshold timeoutMs (([Disconnect], query, slept) # turns) c
        = Some (Inr \<lparr>replayLagBytes = 0, sample_state = None\<rparr>, repl_step Disconnect c))"
proof -
  let ?c1 = "repl_run evs1 (update_row k v bytes c)" and ?t = "bounded_staleness_trial k v bytes evs1 evs2 c"
  note u = replica_after_update [OF assms(1-4), of v]
  have t: "route ?t = bounded_staleness_route ?c1" "isCorrect ?t \<longleftrightarrow> read_on (bounded_staleness_route ?c1) k (repl_run evs2 ?c1) = Some v"
    by (simp_all add: bounded_staleness_trial_def Let_def)
  have e2: "extends k ?c1 (repl_run evs2 ?c1)" by (rule run_extends [OF u(2) assms(5)])
  note lw = last_write_extends [OF u(4) e2]
  have p: "isCorrect ?t" if "route ?t = primary"
    using that last_write_row(1) [OF lw] unfolding t by (simp add: read_on_def)
  have close: "pg_current_wal_lsn ?c1 \<le> pg_last_wal_replay_lsn ?c1 + LAG_THRESHOLD_BYTES"
    if r: "route ?t = replica" "streaming ?c1" "reported ?c1 \<noteq> None"
  proof -
    obtain lsn where l: "reported ?c1 = Some lsn" using r(3) by blast
    have "pg_current_wal_lsn ?c1 - lsn \<le> LAG_THRESHOLD_BYTES"
      using r(1,2) l unfolding t by (simp add: bounded_staleness_route_def getReplicationLagFromPrimary_def split: if_splits)
    then show ?thesis using reported_bounds [OF u(2) l] by simp
  qed
  have "isCorrect ?t" if r: "route ?t = replica" "streaming ?c1" "reported ?c1 \<noteq> None" "LAG_THRESHOLD_BYTES < bytes"
  proof -
    obtain ys where ys: "wal ?c1 = wal c @ \<lparr>rec_key = k, rec_val = v, rec_bytes = bytes\<rparr> # ys" using u(7) by blast
    have "\<not> replayed ?c1 \<le> length (wal c)"
      using bytes_missed [OF u(2) ys] close [OF r(1-3)] r(4) by auto
    then have "length (wal c) < replayed (repl_run evs2 ?c1)" using e2 by (simp add: extends_def)
    then show ?thesis using r(1) last_write_row(2) [OF lw] unfolding t by (simp add: read_on_def)
  qed
  then have one: "let c1 = ?c1; trial = ?t in (route trial = primary \<longrightarrow> isCorrect trial)
      \<and> (route trial = replica \<and> streaming c1 \<and> reported c1 \<noteq> None \<longrightarrow>
          pg_current_wal_lsn c1 \<le> pg_last_wal_replay_lsn c1 + LAG_THRESHOLD_BYTES
          \<and> (LAG_THRESHOLD_BYTES < bytes \<longrightarrow> isCorrect trial))"
    unfolding Let_def using p close by blast
  have "quiet k [Disconnect]" by (simp add: quiet_def)
  note d = replica_after_update(6) [OF assms(1-3) this]
  have two: "bounded_staleness_trial k v bytes [Disconnect] [] c = \<lparr>route = replica, isCorrect = False, lagBytes = 0\<rparr>" if "new_to k v c"
    using d [OF that] assms(1,2) unfolding not_None_eq
    by (elim exE) (simp add: bounded_staleness_trial_def bounded_staleness_route_def getReplicationLagFromPrimary_def read_on_def update_row_def cluster_ok_def)
  have three: "waitForReplicationCaughtUp threshold timeoutMs (([Disconnect], query, slept) # turns) c
        = Some (Inr \<lparr>replayLagBytes = 0, sample_state = None\<rparr>, repl_step Disconnect c)" if "0 < timeoutMs"
    using that unfolding waitForReplicationCaughtUp_def by (subst caught_up_loop.simps) (simp add: getReplicationLagFromPrimary_def)
  show ?thesis using one two three by blast
qed

lemma bounded_staleness_hole_witness:
  "bounded_staleness_trial 1 7 1000000 [Disconnect] [] two_rows = \<lparr>route = replica, isCorrect = False, lagBytes = 0\<rparr>"
proof -
  have "quiet 1 ([] :: nat repl_event list)" by (simp add: quiet_def)
  from bounded_staleness_hole [OF two_rows_ok(1,2) _ this this] two_rows_ok(3) show ?thesis by simp
qed

text \<open>
  A transaction that locks a row runs on the primary. Routed by the naive table every purchase is
  rejected with 25006 and changes nothing; routed by the corrected one it takes exactly the quantity off the
  stock when there is enough of it, and otherwise fails and changes nothing.\<close>

lemma purchase_needs_the_primary:
  assumes "primary_row c productId = Some p"
  shows "purchase classifyNaive productId quantity bytes c = (Inl ''25006'', c)
    \<and> (if quantity \<le> stockQuantity p
       then \<exists>c'. purchase classifyCorrected productId quantity bytes c = (Inr (stockQuantity p - quantity), c')
          \<and> primary_row c' = (primary_row c)(productId \<mapsto> p\<lparr>stockQuantity := stockQuantity p - quantity\<rparr>)
       else \<exists>e. purchase classifyCorrected productId quantity bytes c = (Inl e, c))"
  using purchase_on_primary [OF assms, of quantity bytes] purchase_on_replica by (simp add: not_le)

lemma purchase_needs_the_primary_witness:
  "\<exists>c'. purchase classifyCorrected 1 10 90 \<lparr>base = [1 \<mapsto> \<lparr>priceCents = 1000, stockQuantity = 100\<rparr>], wal = [], replayed = 0,
     streaming = True, reported = None\<rparr> = (Inr 90, c')"
  using purchase_needs_the_primary
    [of "\<lparr>base = [1 \<mapsto> \<lparr>priceCents = 1000, stockQuantity = 100\<rparr>], wal = [], replayed = 0, streaming = True, reported = None\<rparr>"
       1 "\<lparr>priceCents = 1000, stockQuantity = 100\<rparr>" 10 90]
  by (auto simp: primary_row_def row_after_def)

end
