(* ===== verification/Payments.thy ===== *)
theory Payments
  imports Sql_Table Idempotent_Receiver
begin

text \<open>
  Idempotent payments, Lab 15, \<open>labs/15-*/src/scenarios\<close>: the naive insert, the insert that lets the unique
  index on \<open>idempotency_key\<close> decide, and the cached result of the simulated processor. An attempt is its two
  statements, which the statements of other callers may come between. The values the server generates for
  a row, the random bytes of the processor and \<open>Math.random\<close> are arguments.
\<close>

section \<open>The table\<close>

record PaymentRow =
  pay_id :: nat
  pay_public_id :: string
  idempotency_key :: "string option"
  pay_cents :: int
  payee :: string
  pay_status :: string
  confirmation_code :: "string option"
  processing_fee_cents :: "int option"
  pay_created_at :: rat

record generated =
  gen_id :: nat
  gen_uuid :: string
  gen_now :: rat

type_synonym payments = "PaymentRow list"

definition countPaymentsFor :: "payments \<Rightarrow> string \<Rightarrow> int \<Rightarrow> nat" where
  "countPaymentsFor db p amount = row_count (\<lambda>r. payee r = p \<and> pay_cents r = amount) db"

definition getPaymentsByIdempotencyKey :: "payments \<Rightarrow> string \<Rightarrow> PaymentRow list" where
  "getPaymentsByIdempotencyKey db k = filter (\<lambda>r. idempotency_key r = Some k) db"

text \<open>The column is a 32-bit integer with a check that it is positive.\<close>

definition amount_error :: "int \<Rightarrow> string option" where
  "amount_error a = (if 2 ^ 31 \<le> a \<or> a < - (2 ^ 31) then Some ''22003'' else if a \<le> 0 then Some ''23514'' else None)"

definition payment_row :: "generated \<Rightarrow> string option \<Rightarrow> int \<Rightarrow> string \<Rightarrow> (string \<times> int) option \<Rightarrow> PaymentRow" where
  "payment_row g key amount p processed_values =
     \<lparr>pay_id = gen_id g, pay_public_id = gen_uuid g, idempotency_key = key, pay_cents = amount, payee = p,
      pay_status = ''completed'', confirmation_code = map_option fst processed_values,
      processing_fee_cents = map_option snd processed_values, pay_created_at = gen_now g\<rparr>"

definition key_taken :: "payments \<Rightarrow> string option \<Rightarrow> bool" where
  "key_taken db key \<longleftrightarrow> key \<noteq> None \<and> list_ex (\<lambda>r. idempotency_key r = key) db"

section \<open>The operations\<close>

definition performNaivePaymentAttempt ::
  "generated \<Rightarrow> string option \<Rightarrow> int \<Rightarrow> string \<Rightarrow> payments \<Rightarrow> (string + nat \<times> string) \<times> payments" where
  "performNaivePaymentAttempt g key amount p db =
     (case amount_error amount of
        Some e \<Rightarrow> (Inl e, db)
      | None \<Rightarrow>
          if key_taken db key then (Inl ''23505'', db)
          else (Inr (gen_id g, gen_uuid g), db @ [payment_row g key amount p None]))"

text \<open>\<open>INSERT ... ON CONFLICT (idempotency_key) DO NOTHING RETURNING *\<close>.\<close>

definition insert_or_nothing ::
  "generated \<Rightarrow> string \<Rightarrow> int \<Rightarrow> string \<Rightarrow> (string \<times> int) option \<Rightarrow> payments \<Rightarrow> (string + PaymentRow option) \<times> payments" where
  "insert_or_nothing g key amount p processed_values db =
     (case amount_error amount of
        Some e \<Rightarrow> (Inl e, db)
      | None \<Rightarrow>
          if key_taken db (Some key) then (Inr None, db)
          else (let row = payment_row g (Some key) amount p processed_values in (Inr (Some row), db @ [row])))"

record ProcessorResult =
  confirmationCode :: string
  processingFeeCents :: int

definition callPaymentProcessor :: "string \<Rightarrow> rat \<Rightarrow> int \<Rightarrow> ProcessorResult" where
  "callPaymentProcessor code random amount =
     \<lparr>confirmationCode = code, processingFeeCents = (\<lfloor>of_int amount * (29 / 1000 :: rat) + 1 / 2\<rfloor> + 30) + \<lfloor>random * 5\<rfloor>\<rparr>"

text \<open>An attempt; the one of the cached result has called the processor before its first statement.\<close>

record IdempotentPaymentAttempt =
  att_key :: string
  att_cents :: int
  att_payee :: string
  locallyComputed :: "ProcessorResult option"

definition processed_values :: "IdempotentPaymentAttempt \<Rightarrow> (string \<times> int) option" where
  "processed_values a = map_option (\<lambda>r. (confirmationCode r, processingFeeCents r)) (locallyComputed a)"

record IdempotentPaymentResult =
  paid_row :: PaymentRow
  wasNewlyInserted :: bool

datatype pay_pc = PayInsert | PaySelect | PayDone "string + IdempotentPaymentResult"

fun pay_statement :: "generated \<Rightarrow> IdempotentPaymentAttempt \<Rightarrow> pay_pc \<Rightarrow> payments \<Rightarrow> pay_pc \<times> payments" where
  "pay_statement g a PayInsert db =
     (case insert_or_nothing g (att_key a) (att_cents a) (att_payee a) (processed_values a) db of
        (Inl e, db') \<Rightarrow> (PayDone (Inl e), db')
      | (Inr (Some row), db') \<Rightarrow> (PayDone (Inr \<lparr>paid_row = row, wasNewlyInserted = True\<rparr>), db')
      | (Inr None, db') \<Rightarrow> (PaySelect, db'))"
| "pay_statement g a PaySelect db =
     (case getPaymentsByIdempotencyKey db (att_key a) of
        [] \<Rightarrow> (PayDone (Inl (''idempotency_key '' @ att_key a @ '' conflicted but no row was found'')), db)
      | row # _ \<Rightarrow> (PayDone (Inr \<lparr>paid_row = row, wasNewlyInserted = False\<rparr>), db))"
| "pay_statement g a (PayDone r) db = (PayDone r, db)"

text \<open>One call that nothing comes between.\<close>

definition attempt_alone :: "generated \<Rightarrow> IdempotentPaymentAttempt \<Rightarrow> payments \<Rightarrow> pay_pc \<times> payments" where
  "attempt_alone g a db = (let (pc, db') = pay_statement g a PayInsert db in pay_statement g a pc db')"

definition performIdempotentPaymentAttempt :: "generated \<Rightarrow> string \<Rightarrow> int \<Rightarrow> string \<Rightarrow> payments \<Rightarrow> pay_pc \<times> payments" where
  "performIdempotentPaymentAttempt g key amount p db =
     attempt_alone g \<lparr>att_key = key, att_cents = amount, att_payee = p, locallyComputed = None\<rparr> db"

definition performCachedResultPaymentAttempt ::
  "generated \<Rightarrow> string \<Rightarrow> rat \<Rightarrow> string \<Rightarrow> int \<Rightarrow> string \<Rightarrow> payments \<Rightarrow> (pay_pc \<times> payments) \<times> ProcessorResult" where
  "performCachedResultPaymentAttempt g code random key amount p db =
     (let local = callPaymentProcessor code random amount in
      (attempt_alone g \<lparr>att_key = key, att_cents = amount, att_payee = p, locallyComputed = Some local\<rparr> db, local))"

text \<open>Any number of callers: an event is the next statement of caller \<open>i\<close>, with what the server would generate for it.\<close>

type_synonym pay_world = "pay_pc list \<times> payments"

definition pay_step :: "IdempotentPaymentAttempt list \<Rightarrow> nat \<times> generated \<Rightarrow> pay_world \<Rightarrow> pay_world" where
  "pay_step as e w =
     (if fst e < length (fst w)
      then (let (pc, db) = pay_statement (snd e) (as ! fst e) (fst w ! fst e) (snd w) in ((fst w)[fst e := pc], db)) else w)"

definition pay_run :: "IdempotentPaymentAttempt list \<Rightarrow> (nat \<times> generated) list \<Rightarrow> pay_world \<Rightarrow> pay_world" where
  "pay_run as es w = fold (pay_step as) es w"

section \<open>Unique keys\<close>

definition payments_ok :: "payments \<Rightarrow> bool" where
  "payments_ok db \<longleftrightarrow> distinct (map idempotency_key (filter (\<lambda>r. idempotency_key r \<noteq> None) db))
     \<and> (\<forall>r \<in> set db. amount_error (pay_cents r) = None)"

lemma payment_row_key [simp]: "idempotency_key (payment_row g k a p x) = k" "pay_cents (payment_row g k a p x) = a"
  "payee (payment_row g k a p x) = p"
  by (simp_all add: payment_row_def)

lemma key_taken_simps [simp]: "key_taken db None \<longleftrightarrow> False"
  "key_taken db (Some k) \<longleftrightarrow> (\<exists>r \<in> set db. idempotency_key r = Some k)"
  by (auto simp: key_taken_def list_ex_iff)

lemma payments_ok_snoc:
  "payments_ok db \<Longrightarrow> amount_error a = None \<Longrightarrow> \<not> key_taken db k \<Longrightarrow> payments_ok (db @ [payment_row g k a p x])"
  by (cases k) (auto simp: payments_ok_def)

lemma payment_with_key:
  "payments_ok db \<Longrightarrow> r \<in> set db \<Longrightarrow> idempotency_key r = Some k \<Longrightarrow> getPaymentsByIdempotencyKey db k = [r]"
proof (induction db)
  case (Cons x db)
  have ok: "payments_ok db" using Cons.prems(1) by (auto simp: payments_ok_def split: if_splits)
  show ?case
  proof (cases "idempotency_key x = Some k")
    case True
    then have "\<forall>y \<in> set db. idempotency_key y \<noteq> Some k" using Cons.prems(1) by (auto simp: payments_ok_def image_iff)
    then show ?thesis using True Cons.prems(2,3) by (auto simp: getPaymentsByIdempotencyKey_def filter_empty_conv)
  next
    case False
    then have "r \<in> set db" using Cons.prems(2,3) by auto
    then show ?thesis using Cons.IH [OF ok] False Cons.prems(3) by (simp add: getPaymentsByIdempotencyKey_def)
  qed
qed simp

definition rows_with :: "payments \<Rightarrow> string \<Rightarrow> nat" where
  "rows_with db k = length (getPaymentsByIdempotencyKey db k)"

lemma rows_with_snoc [simp]: "rows_with (db @ [payment_row g k' a p x]) k = rows_with db k + (if k' = Some k then 1 else 0)"
  by (simp add: rows_with_def getPaymentsByIdempotencyKey_def)

section \<open>The invariant of interleaved attempts\<close>

definition inserted :: "string \<Rightarrow> IdempotentPaymentAttempt \<times> pay_pc \<Rightarrow> bool" where
  "inserted k x \<longleftrightarrow> att_key (fst x) = k \<and> (case snd x of PayDone (Inr res) \<Rightarrow> wasNewlyInserted res | _ \<Rightarrow> False)"

definition ninserted :: "string \<Rightarrow> IdempotentPaymentAttempt list \<Rightarrow> pay_pc list \<Rightarrow> nat" where
  "ninserted k as pcs = length (filter (inserted k) (zip as pcs))"

text \<open>What a caller knows between its statements.\<close>

fun caller_ok :: "IdempotentPaymentAttempt \<Rightarrow> payments \<Rightarrow> pay_pc \<Rightarrow> bool" where
  "caller_ok a db PayInsert \<longleftrightarrow> True"
| "caller_ok a db PaySelect \<longleftrightarrow> amount_error (att_cents a) = None \<and> key_taken db (Some (att_key a))"
| "caller_ok a db (PayDone (Inr res)) \<longleftrightarrow> paid_row res \<in> set db \<and> idempotency_key (paid_row res) = Some (att_key a)"
| "caller_ok a db (PayDone (Inl e)) \<longleftrightarrow> amount_error (att_cents a) = Some e"

lemma caller_ok_mono: "caller_ok a db pc \<Longrightarrow> caller_ok a (db @ new) pc"
  by (cases "(a, db, pc)" rule: caller_ok.cases) auto

definition pay_inv :: "IdempotentPaymentAttempt list \<Rightarrow> payments \<Rightarrow> pay_world \<Rightarrow> bool" where
  "pay_inv as db0 w \<longleftrightarrow> length (fst w) = length as \<and> payments_ok (snd w) \<and> (\<exists>new. snd w = db0 @ new)
     \<and> (\<forall>k. rows_with (snd w) k = rows_with db0 k + ninserted k as (fst w))
     \<and> (\<forall>i < length as. caller_ok (as ! i) (snd w) (fst w ! i))"

lemma ninserted_upd:
  assumes "i < length as" and "length pcs = length as" and "pcs ! i = PayInsert \<or> pcs ! i = PaySelect"
  shows "ninserted k as (pcs[i := x]) = ninserted k as pcs + (if inserted k (as ! i, x) then 1 else 0)"
proof -
  have z: "zip as (pcs[i := x]) = (zip as pcs)[i := (as ! i, x)]" by (simp add: update_zip)
  have "\<not> inserted k (zip as pcs ! i)" using assms by (auto simp: inserted_def)
  then show ?thesis unfolding ninserted_def z using length_filter_map_upd [of i "zip as pcs" "inserted k" "(as ! i, x)"] assms(1,2) by simp
qed

text \<open>A statement keeps the table or appends its row.\<close>

lemma pay_statement_cases:
  obtains
    (rejected) e where "pc = PayInsert" "amount_error (att_cents a) = Some e" "pay_statement g a pc db = (PayDone (Inl e), db)"
  | (inserted) row where "pc = PayInsert" "amount_error (att_cents a) = None" "\<not> key_taken db (Some (att_key a))"
      "row = payment_row g (Some (att_key a)) (att_cents a) (att_payee a) (processed_values a)"
      "pay_statement g a pc db = (PayDone (Inr \<lparr>paid_row = row, wasNewlyInserted = True\<rparr>), db @ [row])"
  | (conflict) "pc = PayInsert" "amount_error (att_cents a) = None" "key_taken db (Some (att_key a))"
      "pay_statement g a pc db = (PaySelect, db)"
  | (found) row where "pc = PaySelect" "row \<in> set db" "idempotency_key row = Some (att_key a)"
      "pay_statement g a pc db = (PayDone (Inr \<lparr>paid_row = row, wasNewlyInserted = False\<rparr>), db)"
  | (lost) "pc = PaySelect" "\<not> key_taken db (Some (att_key a))"
  | (finished) r where "pc = PayDone r" "pay_statement g a pc db = (PayDone r, db)"
proof (cases pc)
  case PayInsert
  show ?thesis
  proof (cases "amount_error (att_cents a)")
    case (Some e)
    then show ?thesis using rejected PayInsert by (simp add: insert_or_nothing_def)
  next
    case None
    show ?thesis
    proof (cases "key_taken db (Some (att_key a))")
      case True
      then show ?thesis using conflict None PayInsert by (simp add: insert_or_nothing_def)
    next
      case False
      show ?thesis by (rule inserted [OF PayInsert None False refl]) (use None False PayInsert in \<open>simp add: insert_or_nothing_def Let_def\<close>)
    qed
  qed
next
  case PaySelect
  show ?thesis
  proof (cases "getPaymentsByIdempotencyKey db (att_key a)")
    case Nil
    then show ?thesis using lost PaySelect by (auto simp: getPaymentsByIdempotencyKey_def filter_empty_conv)
  next
    case (Cons row rows)
    then have "row \<in> set db" "idempotency_key row = Some (att_key a)"
      by (auto simp: getPaymentsByIdempotencyKey_def filter_eq_Cons_iff)
    then show ?thesis using found PaySelect Cons by simp
  qed
qed (use finished in simp)

lemma pay_inv_step: "pay_inv as db0 w \<Longrightarrow> pay_inv as db0 (pay_step as e w)"
proof (cases "fst e < length (fst w)")
  case True
  assume inv: "pay_inv as db0 w"
  obtain pcs db where w: "w = (pcs, db)" by fastforce
  obtain i g where e: "e = (i, g)" by fastforce
  let ?a = "as ! i"
  have i: "i < length as" "length pcs = length as" "i < length pcs" using inv True w e by (simp_all add: pay_inv_def)
  have ok: "payments_ok db" "\<exists>new. db = db0 @ new" "\<And>k. rows_with db k = rows_with db0 k + ninserted k as pcs"
    using inv w by (simp_all add: pay_inv_def)
  have cl: "\<And>j. j < length as \<Longrightarrow> caller_ok (as ! j) db (pcs ! j)" using inv w by (simp add: pay_inv_def)
  text \<open>What the other callers hold stays true in a table with more rows.\<close>
  have keep: "pay_inv as db0 (pcs[i := pc], db')"
    if d: "payments_ok db'" "\<exists>new. db' = db @ new" "\<And>k. rows_with db' k = rows_with db0 k + ninserted k as (pcs[i := pc])"
      and pc: "caller_ok ?a db' pc" for pc db'
  proof -
    have "caller_ok (as ! j) db' (pcs[i := pc] ! j)" if j: "j < length as" for j
      using pc i cl [OF j] d(2) caller_ok_mono by (cases "j = i") auto
    then show ?thesis using d ok(2) i(2) unfolding pay_inv_def by auto
  qed
  have step: "pay_step as e w = (pcs[i := fst (pay_statement g ?a (pcs ! i) db)], snd (pay_statement g ?a (pcs ! i) db))"
    using True w e by (simp add: pay_step_def case_prod_beta Let_def)
  show ?thesis
  proof (cases rule: pay_statement_cases [of "pcs ! i" ?a g db])
    case (rejected er)
    then show ?thesis unfolding step using ok(1,3) i by (intro keep) (simp_all add: ninserted_upd inserted_def)
  next
    case (inserted row)
    then show ?thesis unfolding step using ok(1,3) i payments_ok_snoc [OF ok(1) inserted(2,3)]
      by (intro keep) (simp_all add: ninserted_upd inserted_def)
  next
    case conflict
    then show ?thesis unfolding step using ok(1,3) i by (intro keep) (simp_all add: ninserted_upd inserted_def)
  next
    case (found row)
    then show ?thesis unfolding step using ok(1,3) i by (intro keep) (simp_all add: ninserted_upd inserted_def)
  next
    case lost
    then show ?thesis using cl [OF i(1)] by simp
  next
    case (finished r)
    have "pay_step as e w = w" unfolding step finished(2) using finished(1) w by (simp add: list_update_same_conv i)
    then show ?thesis using inv by simp
  qed
qed (simp add: pay_step_def)

lemma pay_inv_run: "pay_inv as db0 w \<Longrightarrow> pay_inv as db0 (pay_run as es w)"
  unfolding pay_run_def by (induction es arbitrary: w) (simp_all add: pay_inv_step)

lemma pay_inv_start: "payments_ok db \<Longrightarrow> pay_inv as db (replicate (length as) PayInsert, db)"
proof -
  have "\<not> inserted k (a, PayInsert)" for k a by (simp add: inserted_def)
  then have "ninserted k as (replicate (length as) PayInsert) = 0" for k
    by (auto simp: ninserted_def filter_empty_conv set_zip)
  then show "payments_ok db \<Longrightarrow> pay_inv as db (replicate (length as) PayInsert, db)" by (simp add: pay_inv_def)
qed

section \<open>Alone: a receiver that remembers keys\<close>

definition pay_received :: "string \<Rightarrow> generated \<times> int \<times> string \<times> ProcessorResult option \<Rightarrow> payments \<Rightarrow> PaymentRow option \<times> payments" where
  "pay_received k m db =
     (case attempt_alone (fst m) \<lparr>att_key = k, att_cents = fst (snd m), att_payee = fst (snd (snd m)), locallyComputed = snd (snd (snd m))\<rparr> db of
        (PayDone (Inr res), db') \<Rightarrow> (Some (paid_row res), db') | (_, db') \<Rightarrow> (None, db'))"

definition recorded_payment :: "payments \<Rightarrow> string \<rightharpoonup> PaymentRow" where
  "recorded_payment db k = (case getPaymentsByIdempotencyKey db k of [] \<Rightarrow> None | r # _ \<Rightarrow> Some r)"

lemma recorded_snoc:
  "\<not> key_taken db (Some k) \<Longrightarrow> recorded_payment (db @ [payment_row g (Some k) a p x]) = (recorded_payment db)(k \<mapsto> payment_row g (Some k) a p x)"
  by (auto simp: recorded_payment_def getPaymentsByIdempotencyKey_def fun_eq_iff filter_empty_conv split: list.split)

lemma attempt_alone_cases:
  obtains (rejected) e where "attempt_alone g a db = (PayDone (Inl e), db)"
  | (inserted) "amount_error (att_cents a) = None" "\<not> key_taken db (Some (att_key a))"
      "attempt_alone g a db =
        (PayDone (Inr \<lparr>paid_row = payment_row g (Some (att_key a)) (att_cents a) (att_payee a) (processed_values a), wasNewlyInserted = True\<rparr>),
         db @ [payment_row g (Some (att_key a)) (att_cents a) (att_payee a) (processed_values a)])"
  | (found) row where "recorded_payment db (att_key a) = Some row"
      "attempt_alone g a db = (PayDone (Inr \<lparr>paid_row = row, wasNewlyInserted = False\<rparr>), db)"
proof (cases rule: pay_statement_cases [of PayInsert a g db])
  case conflict
  then obtain row rest where r: "getPaymentsByIdempotencyKey db (att_key a) = row # rest"
    by (cases "getPaymentsByIdempotencyKey db (att_key a)") (auto simp: getPaymentsByIdempotencyKey_def filter_empty_conv)
  then show ?thesis using found conflict by (simp add: attempt_alone_def recorded_payment_def)
qed (use rejected inserted in \<open>auto simp: attempt_alone_def\<close>)

interpretation payment: refusing_receiver pay_received length recorded_payment payments_ok "\<lambda>_. True"
proof unfold_locales
  fix db db' :: payments and k and m :: "generated \<times> int \<times> string \<times> ProcessorResult option" and r
  let ?a = "\<lparr>att_key = k, att_cents = fst (snd m), att_payee = fst (snd (snd m)), locallyComputed = snd (snd (snd m))\<rparr>"
  assume ok: "payments_ok db"
  show "payments_ok db' \<and> length db' = length db \<and> recorded_payment db' = recorded_payment db" if "pay_received k m db = (None, db')"
    using that ok by (cases rule: attempt_alone_cases [of "fst m" ?a db]) (auto simp: pay_received_def)
  show "payments_ok db'
    \<and> (recorded_payment db k = None \<longrightarrow> length db' = Suc (length db) \<and> recorded_payment db' = (recorded_payment db)(k \<mapsto> r))
    \<and> (\<forall>r0. recorded_payment db k = Some r0 \<longrightarrow> r = r0 \<and> length db' = length db \<and> recorded_payment db' = recorded_payment db)"
    if a: "pay_received k m db = (Some r, db')"
  proof (cases rule: attempt_alone_cases [of "fst m" ?a db])
    case inserted
    then have "recorded_payment db k = None"
      by (auto simp: recorded_payment_def getPaymentsByIdempotencyKey_def filter_empty_conv split: list.split)
    then show ?thesis using inserted a ok payments_ok_snoc [OF ok inserted(1,2)] by (auto simp: pay_received_def recorded_snoc)
  qed (use a ok in \<open>auto simp: pay_received_def\<close>)
qed

section \<open>Properties\<close>

text \<open>
  C29: an idempotency key is charged once. Whatever attempts run, with whatever keys, and however their
  statements interleave, a finished attempt is refused only for its amount; all that succeed with one
  key get the same row, which is in the table, and no key has more than one row; when the key was new,
  exactly one of them has inserted it, whatever each of them computed for itself. A retry that runs alone later
  returns that row and changes nothing.\<close>

theorem payment_key_charged_once:
  assumes "payments_ok db" and "pay_run as es (replicate (length as) PayInsert, db) = (pcs, db')"
    and "i < length as" and "pcs ! i = PayDone r"
  shows "case r of
      Inl e \<Rightarrow> amount_error (att_cents (as ! i)) = Some e
    | Inr res \<Rightarrow> getPaymentsByIdempotencyKey db' (att_key (as ! i)) = [paid_row res]
        \<and> ninserted (att_key (as ! i)) as pcs = (if key_taken db (Some (att_key (as ! i))) then 0 else 1)
        \<and> (\<forall>j < length as. \<forall>res'. att_key (as ! j) = att_key (as ! i) \<longrightarrow> pcs ! j = PayDone (Inr res') \<longrightarrow> paid_row res' = paid_row res)
        \<and> (\<forall>g m p x. amount_error m = None \<longrightarrow>
            attempt_alone g \<lparr>att_key = att_key (as ! i), att_cents = m, att_payee = p, locallyComputed = x\<rparr> db'
              = (PayDone (Inr \<lparr>paid_row = paid_row res, wasNewlyInserted = False\<rparr>), db'))"
proof -
  have inv: "pay_inv as db (pcs, db')" using pay_inv_run [OF pay_inv_start [OF assms(1)]] assms(2) by metis
  then have ok: "payments_ok db'" and c: "\<And>j. j < length as \<Longrightarrow> caller_ok (as ! j) db' (pcs ! j)"
    and n: "\<And>k. rows_with db' k = rows_with db k + ninserted k as pcs" by (simp_all add: pay_inv_def)
  show ?thesis
  proof (cases r)
    case (Inl e)
    then show ?thesis using c [OF assms(3)] assms(4) by simp
  next
    case (Inr res)
    let ?k = "att_key (as ! i)"
    have row: "paid_row res \<in> set db'" "idempotency_key (paid_row res) = Some ?k" using c [OF assms(3)] assms(4) Inr by simp_all
    note g = payment_with_key [OF ok row]
    have "rows_with db' ?k = 1" using g by (simp add: rows_with_def)
    moreover have "rows_with db ?k = (if key_taken db (Some ?k) then 1 else 0)"
      using payment_with_key [OF assms(1)] by (auto simp: rows_with_def getPaymentsByIdempotencyKey_def filter_empty_conv)
    ultimately have one: "ninserted ?k as pcs = (if key_taken db (Some ?k) then 0 else 1)" using n [of ?k] by (simp split: if_splits)
    have same: "paid_row res' = paid_row res" if "j < length as" "att_key (as ! j) = ?k" "pcs ! j = PayDone (Inr res')" for j res'
      using c [OF that(1)] that(2,3) g payment_with_key [OF ok, of "paid_row res'" ?k] by simp
    have again: "attempt_alone gen \<lparr>att_key = ?k, att_cents = m, att_payee = p, locallyComputed = x\<rparr> db'
        = (PayDone (Inr \<lparr>paid_row = paid_row res, wasNewlyInserted = False\<rparr>), db')" if "amount_error m = None" for gen m p x
      using that row g by (auto simp: attempt_alone_def insert_or_nothing_def)
    show ?thesis unfolding Inr sum.case using g one same again by blast
  qed
qed

definition charge_cents :: "string \<Rightarrow> string \<Rightarrow> IdempotentPaymentAttempt" where
  "charge_cents k code = \<lparr>att_key = k, att_cents = 4999, att_payee = ''merchant'', locallyComputed = Some (callPaymentProcessor code 0 4999)\<rparr>"

definition gen_values :: "nat \<Rightarrow> generated" where
  "gen_values n = \<lparr>gen_id = n, gen_uuid = ''u'', gen_now = 0\<rparr>"

definition racing :: "IdempotentPaymentAttempt list" where
  "racing = [charge_cents ''k'' ''A'', charge_cents ''k'' ''B'']"

lemma payment_key_charged_once_witness:
  "\<exists>pcs db' res. pay_run racing [(0, gen_values 1), (1, gen_values 2), (1, gen_values 3)] (replicate (length racing) PayInsert, []) = (pcs, db')
     \<and> pcs ! 1 = PayDone (Inr res) \<and> ninserted (att_key (racing ! 1)) racing pcs = 1"
proof -
  let ?w = "pay_run racing [(0, gen_values 1), (1, gen_values 2), (1, gen_values 3)] (replicate (length racing) PayInsert, [])"
  let ?row = "payment_row (gen_values 1) (Some ''k'') 4999 ''merchant'' (processed_values (charge_cents ''k'' ''A''))"
  have d: "fst ?w ! 1 = PayDone (Inr \<lparr>paid_row = ?row, wasNewlyInserted = False\<rparr>)"
    by (simp add: pay_run_def pay_step_def racing_def charge_cents_def insert_or_nothing_def amount_error_def getPaymentsByIdempotencyKey_def Let_def)
  have "payments_ok []" "1 < length racing" "\<not> key_taken [] (Some (att_key (racing ! 1)))" by (simp_all add: payments_ok_def racing_def)
  with payment_key_charged_once [OF this(1) prod.collapse [symmetric] this(2) d]
  have "ninserted (att_key (racing ! 1)) racing (fst ?w) = 1" by (simp only: sum.case if_False)
  with d show ?thesis by (metis prod.collapse)
qed

text \<open>The naive insert charges every time, without a key and with a fresh key for each attempt.\<close>

lemma naive_charges_every_time:
  assumes "amount_error amount = None" and "\<forall>k \<in> set ks. \<not> key_taken db k" and "distinct (filter (\<lambda>k. k \<noteq> None) ks)"
  shows "countPaymentsFor (fold (\<lambda>k db. snd (performNaivePaymentAttempt (g k) k amount p db)) ks db) p amount
    = countPaymentsFor db p amount + length ks"
  using assms(2,3)
proof (induction ks arbitrary: db)
  case (Cons k ks)
  have "\<not> key_taken db k" using Cons.prems(1) by simp
  then have s: "snd (performNaivePaymentAttempt (g k) k amount p db) = db @ [payment_row (g k) k amount p None]"
    using assms(1) by (simp add: performNaivePaymentAttempt_def)
  have "\<forall>j \<in> set ks. \<not> key_taken (db @ [payment_row (g k) k amount p None]) j"
  proof
    fix j assume j: "j \<in> set ks"
    then have "\<not> key_taken db j" "k = j \<Longrightarrow> j = None" using Cons.prems by (auto split: if_splits)
    then show "\<not> key_taken (db @ [payment_row (g k) k amount p None]) j" by (cases j) auto
  qed
  then show ?case using Cons.IH [of "db @ [payment_row (g k) k amount p None]"] Cons.prems(2) s
    by (simp add: countPaymentsFor_def row_count_def split: if_splits)
qed simp

text \<open>Two calls of the processor differ by at most four cents.\<close>

lemma processor_fee:
  assumes "0 \<le> r" "r < 1" "0 \<le> r'" "r' < 1"
  shows "\<bar>processingFeeCents (callPaymentProcessor c r a) - processingFeeCents (callPaymentProcessor c' r' a)\<bar> \<le> 4"
proof -
  have "0 \<le> \<lfloor>x * 5\<rfloor> \<and> \<lfloor>x * 5\<rfloor> \<le> 4" if "0 \<le> x" "x < (1 :: rat)" for x
    using that by (auto simp: floor_le_iff)
  note f = this [OF assms(1,2)] this [OF assms(3,4)]
  have "processingFeeCents (callPaymentProcessor c r a) - processingFeeCents (callPaymentProcessor c' r' a) = \<lfloor>r * 5\<rfloor> - \<lfloor>r' * 5\<rfloor>"
    by (simp add: callPaymentProcessor_def)
  then show ?thesis using f by linarith
qed

end
