(* ===== verification/Tickets.thy ===== *)
theory Tickets
  imports Sql_Table
begin

text \<open>
  The ticket reservation system, Lab 12, \<open>labs/12-*/src/scenarios\<close>: the naive reservation (a read, then an
  unconditional write), the conditional one (one statement) and the one that locks the row, the payment and the
  expiration worker over the table \<open>seats\<close>. Times are milliseconds: \<open>reserved_until\<close> is computed by the
  caller's clock, \<open>now()\<close> is the server's. Tokens are arguments.
\<close>

section \<open>The table\<close>

datatype SeatStatus = AVAILABLE | RESERVED | SOLD

record seat =
  seat_id :: nat
  event_id :: nat
  seat_section :: string
  seat_row :: string
  seat_number :: nat
  status :: SeatStatus
  reservation_token :: "string option"
  reserved_by :: "string option"
  reserved_until :: "rat option"

type_synonym seats = "seat list"

definition seat_with :: "nat \<Rightarrow> seats \<Rightarrow> seat option" where
  "seat_with k db = row_with (\<lambda>r. seat_id r = k) db"

definition reservedUntilFromNow :: "rat \<Rightarrow> rat \<Rightarrow> rat" where
  "reservedUntilFromNow clock holdMinutes = clock + holdMinutes * 60000"

record reservation_options =
  seatId :: nat
  buyer :: string
  holdMinutes :: "rat option"

datatype ReservationOutcome = reserved | unavailable

record ReservationResult =
  res_outcome :: ReservationOutcome
  res_seatId :: nat
  res_buyer :: string
  reservationToken :: "string option"

definition refuse :: "reservation_options \<Rightarrow> ReservationResult" where
  "refuse opts = \<lparr>res_outcome = unavailable, res_seatId = seatId opts, res_buyer = buyer opts, reservationToken = None\<rparr>"

definition grant :: "reservation_options \<Rightarrow> string \<Rightarrow> ReservationResult" where
  "grant opts tok = \<lparr>res_outcome = reserved, res_seatId = seatId opts, res_buyer = buyer opts, reservationToken = Some tok\<rparr>"

text \<open>What every reservation writes into its row.\<close>

definition hold_seat :: "string \<Rightarrow> rat \<Rightarrow> reservation_options \<Rightarrow> seat \<Rightarrow> seat" where
  "hold_seat tok clock opts r = r\<lparr>status := RESERVED, reservation_token := Some tok, reserved_by := Some (buyer opts),
     reserved_until := Some (reservedUntilFromNow clock (case holdMinutes opts of None \<Rightarrow> 10 | Some m \<Rightarrow> m))\<rparr>"

definition free_seat :: "seat \<Rightarrow> seat" where
  "free_seat r = r\<lparr>status := AVAILABLE, reservation_token := None, reserved_by := None, reserved_until := None\<rparr>"

definition resetSeatToAvailable :: "nat \<Rightarrow> seats \<Rightarrow> seats" where
  "resetSeatToAvailable k db = update_where (\<lambda>r. seat_id r = k) free_seat db"

section \<open>The operations\<close>

definition attemptConditionalReservation ::
  "string \<Rightarrow> rat \<Rightarrow> reservation_options \<Rightarrow> seats \<Rightarrow> ReservationResult \<times> seats" where
  "attemptConditionalReservation tok clock opts db =
     (let P = (\<lambda>r. seat_id r = seatId opts \<and> status r = AVAILABLE) in
      if row_count P db = 1 then (grant opts tok, update_where P (hold_seat tok clock opts) db)
      else (refuse opts, update_where P (hold_seat tok clock opts) db))"

text \<open>The two statements of the naive caller.\<close>

datatype naive_pc = NaiveRead | NaiveWrite | NaiveDone ReservationResult

fun attemptNaiveReservation :: "string \<Rightarrow> rat \<Rightarrow> reservation_options \<Rightarrow> naive_pc \<Rightarrow> seats \<Rightarrow> naive_pc \<times> seats" where
  "attemptNaiveReservation tok clock opts NaiveRead db =
     (if map_option status (seat_with (seatId opts) db) \<noteq> Some AVAILABLE then NaiveDone (refuse opts) else NaiveWrite, db)"
| "attemptNaiveReservation tok clock opts NaiveWrite db =
     (NaiveDone (grant opts tok), update_where (\<lambda>r. seat_id r = seatId opts) (hold_seat tok clock opts) db)"
| "attemptNaiveReservation tok clock opts (NaiveDone r) db = (NaiveDone r, db)"

text \<open>
  The transaction with the lock: the locking read, the update, which nobody else sees yet, and the commit. The
  lock is held from the read to the commit or the rollback.\<close>

datatype row_lock_pc = LockedRead | LockedUpdate | LockedCommit string rat | RowLockDone ReservationResult

record ticket_db =
  seats :: seats
  row_locks :: "nat \<rightharpoonup> nat"

fun attemptRowLockReservation ::
  "nat \<Rightarrow> string \<Rightarrow> rat \<Rightarrow> reservation_options \<Rightarrow> row_lock_pc \<Rightarrow> ticket_db \<Rightarrow> row_lock_pc \<times> ticket_db" where
  "attemptRowLockReservation i tok clock opts LockedRead w =
     (if row_locks w (seatId opts) \<noteq> None then (LockedRead, w)
      else if map_option status (seat_with (seatId opts) (seats w)) \<noteq> Some AVAILABLE then (RowLockDone (refuse opts), w)
      else (LockedUpdate, w\<lparr>row_locks := (row_locks w)(seatId opts \<mapsto> i)\<rparr>))"
| "attemptRowLockReservation i tok clock opts LockedUpdate w = (LockedCommit tok clock, w)"
| "attemptRowLockReservation i _ _ opts (LockedCommit tok clock) w =
     (RowLockDone (grant opts tok),
      w\<lparr>seats := update_where (\<lambda>r. seat_id r = seatId opts) (hold_seat tok clock opts) (seats w),
        row_locks := (row_locks w)(seatId opts := None)\<rparr>)"
| "attemptRowLockReservation i tok clock opts (RowLockDone r) w = (RowLockDone r, w)"

datatype CompletePaymentResult = sold nat | failed nat string

definition payable :: "nat \<Rightarrow> string \<Rightarrow> rat \<Rightarrow> seat \<Rightarrow> bool" where
  "payable k tok now r \<longleftrightarrow> seat_id r = k \<and> status r = RESERVED \<and> reservation_token r = Some tok
     \<and> (case reserved_until r of None \<Rightarrow> False | Some t \<Rightarrow> now < t)"

definition completePayment :: "nat \<Rightarrow> string \<Rightarrow> rat \<Rightarrow> seats \<Rightarrow> CompletePaymentResult \<times> seats" where
  "completePayment k tok now db =
     (if row_count (payable k tok now) db = 1 then sold k
      else failed k ''seat is not RESERVED with this token and an unexpired hold'',
      update_where (payable k tok now) (\<lambda>r. r\<lparr>status := SOLD\<rparr>) db)"

definition lapsed :: "rat \<Rightarrow> seat \<Rightarrow> bool" where
  "lapsed now r \<longleftrightarrow> status r = RESERVED \<and> (case reserved_until r of None \<Rightarrow> False | Some t \<Rightarrow> t < now)"

definition expireReservations :: "rat \<Rightarrow> seats \<Rightarrow> nat list \<times> seats" where
  "expireReservations now db = (map seat_id (filter (lapsed now) db), update_where (lapsed now) free_seat db)"

section \<open>Any number of callers\<close>

text \<open>
  An event is one statement. An \<open>UPDATE\<close> whose condition holds of a locked row waits: the event changes nothing and
  may be tried again. The answer of an event lists what it did to seats.\<close>

datatype ticket_event =
  Conditional reservation_options string rat
  | RowLock nat string rat
  | Pay nat string rat
  | Expire rat

datatype seat_label = Held_by string | Sold_to string | Lapsed

type_synonym ticket_world = "row_lock_pc list \<times> ticket_db"

definition granted :: "ReservationResult \<Rightarrow> (nat \<times> seat_label) list" where
  "granted r = (case reservationToken r of None \<Rightarrow> [] | Some tok \<Rightarrow> [(res_seatId r, Held_by tok)])"

fun ticket_step :: "reservation_options list \<Rightarrow> ticket_event \<Rightarrow> ticket_world \<Rightarrow> (nat \<times> seat_label) list \<times> ticket_world" where
  "ticket_step cs (Conditional opts tok clock) (pcs, w) =
     (if row_locks w (seatId opts) \<noteq> None then ([], (pcs, w))
      else (let (r, db) = attemptConditionalReservation tok clock opts (seats w) in (granted r, (pcs, w\<lparr>seats := db\<rparr>))))"
| "ticket_step cs (RowLock i tok clock) (pcs, w) =
     (if i < length pcs then
        (let (pc, w') = attemptRowLockReservation i tok clock (cs ! i) (pcs ! i) w in
         (case (pcs ! i, pc) of (LockedCommit _ _, RowLockDone r) \<Rightarrow> granted r | _ \<Rightarrow> [], (pcs[i := pc], w')))
      else ([], (pcs, w)))"
| "ticket_step cs (Pay k tok now) (pcs, w) =
     (let (r, db) = completePayment k tok now (seats w) in
      (case r of sold j \<Rightarrow> [(j, Sold_to tok)] | failed _ _ \<Rightarrow> [], (pcs, w\<lparr>seats := db\<rparr>)))"
| "ticket_step cs (Expire now) (pcs, w) =
     (let (ids, db) = expireReservations now (seats w) in (map (\<lambda>j. (j, Lapsed)) ids, (pcs, w\<lparr>seats := db\<rparr>)))"

fun ticket_run :: "reservation_options list \<Rightarrow> ticket_event list \<Rightarrow> ticket_world \<Rightarrow> (nat \<times> seat_label) list \<times> ticket_world" where
  "ticket_run cs [] w = ([], w)"
| "ticket_run cs (e # es) w = (let (ls, w1) = ticket_step cs e w; (ms, w2) = ticket_run cs es w1 in (ls @ ms, w2))"

section \<open>The state machine of a seat\<close>

datatype seat_state = Free | Held string | Sold string

fun seat_next :: "seat_label \<Rightarrow> seat_state \<Rightarrow> seat_state option" where
  "seat_next (Held_by t) Free = Some (Held t)"
| "seat_next (Sold_to t) (Held t') = (if t = t' then Some (Sold t) else None)"
| "seat_next Lapsed (Held t) = Some Free"
| "seat_next _ _ = None"

fun seat_path :: "seat_label list \<Rightarrow> seat_state \<Rightarrow> seat_state option" where
  "seat_path [] s = Some s"
| "seat_path (l # ls) s = (case seat_next l s of None \<Rightarrow> None | Some s' \<Rightarrow> seat_path ls s')"

definition state_of :: "seat \<Rightarrow> seat_state" where
  "state_of r = (case status r of AVAILABLE \<Rightarrow> Free | RESERVED \<Rightarrow> Held (the (reservation_token r)) | SOLD \<Rightarrow> Sold (the (reservation_token r)))"

definition labels_at :: "nat \<Rightarrow> (nat \<times> seat_label) list \<Rightarrow> seat_label list" where
  "labels_at k ls = map snd (filter (\<lambda>l. fst l = k) ls)"

text \<open>The rows are those the comment on the schema describes.\<close>

definition seat_ok :: "seat \<Rightarrow> bool" where
  "seat_ok r \<longleftrightarrow> (case status r of
      AVAILABLE \<Rightarrow> reservation_token r = None \<and> reserved_by r = None \<and> reserved_until r = None
    | _ \<Rightarrow> reservation_token r \<noteq> None \<and> reserved_by r \<noteq> None \<and> reserved_until r \<noteq> None)"

definition seats_ok :: "seats \<Rightarrow> bool" where
  "seats_ok db \<longleftrightarrow> distinct (map seat_id db) \<and> (\<forall>r \<in> set db. seat_ok r)"

section \<open>One statement on one seat\<close>

lemma seat_with_update:
  "(\<And>r. seat_id (f r) = seat_id r) \<Longrightarrow> seat_with k (update_where P f db) = map_option (\<lambda>r. if P r then f r else r) (seat_with k db)"
  unfolding seat_with_def by (induction db) (auto simp: row_with_def update_where_def)

lemma seats_ok_update:
  "seats_ok db \<Longrightarrow> (\<And>r. seat_id (f r) = seat_id r) \<Longrightarrow> (\<And>r. r \<in> set db \<Longrightarrow> P r \<Longrightarrow> seat_ok (f r)) \<Longrightarrow> seats_ok (update_where P f db)"
  unfolding seats_ok_def by (simp add: map_update_where ball_update_where)

lemma seat_with_ok: "seats_ok db \<Longrightarrow> seat_with k db = Some r \<Longrightarrow> seat_ok r \<and> seat_id r = k \<and> r \<in> set db"
  unfolding seats_ok_def seat_with_def by (auto dest: row_with_Some)

lemma seat_count:
  assumes "seats_ok db" and "\<And>r. P r \<Longrightarrow> seat_id r = k"
  shows "row_count P db = (case seat_with k db of None \<Rightarrow> 0 | Some r \<Rightarrow> if P r then 1 else 0)"
proof -
  have "distinct (map seat_id db)" using assms(1) by (simp add: seats_ok_def)
  then show ?thesis
  proof (induction db)
    case (Cons r db)
    have "row_count P db = 0" if k: "seat_id r = k"
    proof -
      have "k \<notin> seat_id ` set db" using Cons.prems k by simp
      then have "\<forall>x \<in> set db. seat_id x \<noteq> k" by blast
      then show ?thesis using assms(2) by (auto simp: row_count_zero)
    qed
    then show ?case using Cons assms(2) by (auto simp: seat_with_def row_with_def row_count_def)
  qed (simp add: seat_with_def row_with_def row_count_def)
qed

lemma seat_ids [simp]: "seat_id (hold_seat t c opts r) = seat_id r" "seat_id (free_seat r) = seat_id r"
  by (simp_all add: hold_seat_def free_seat_def)

lemma seat_ok_written [simp]: "seat_ok (hold_seat t c opts r)" "seat_ok (free_seat r)"
  "seat_ok r \<Longrightarrow> status r = RESERVED \<Longrightarrow> seat_ok (r\<lparr>status := SOLD\<rparr>)"
  by (simp_all add: seat_ok_def hold_seat_def free_seat_def)

lemma state_of_written [simp]: "state_of (hold_seat t c opts r) = Held t" "state_of (free_seat r) = Free"
  by (simp_all add: state_of_def hold_seat_def free_seat_def)

lemma state_of_status [simp]: "status r = AVAILABLE \<Longrightarrow> state_of r = Free"
  "status r = RESERVED \<Longrightarrow> state_of r = Held (the (reservation_token r))"
  "status r = SOLD \<Longrightarrow> state_of r = Sold (the (reservation_token r))"
  by (simp_all add: state_of_def)

lemma labels_at_simps [simp]: "labels_at k [] = []" "labels_at k ((j, l) # ls) = (if j = k then [l] else []) @ labels_at k ls"
  "labels_at k (ls @ ms) = labels_at k ls @ labels_at k ms"
  by (simp_all add: labels_at_def)

lemma granted_simps [simp]: "granted (refuse opts) = []" "granted (grant opts t) = [(seatId opts, Held_by t)]"
  by (simp_all add: granted_def refuse_def grant_def)

lemma seat_path_append: "seat_path (xs @ ys) s = Option.bind (seat_path xs s) (seat_path ys)"
  by (induction xs arbitrary: s) (simp_all split: option.split)

lemma lapsed_labels:
  assumes "seats_ok db"
  shows "labels_at k (map (\<lambda>j. (j, Lapsed)) (map seat_id (filter (lapsed now) db)))
    = (case seat_with k db of None \<Rightarrow> [] | Some r \<Rightarrow> if lapsed now r then [Lapsed] else [])"
proof -
  have "distinct (map seat_id db)" using assms by (simp add: seats_ok_def)
  then show ?thesis
  proof (induction db)
    case (Cons r db)
    have "seat_with k db = None" if k: "seat_id r = k"
    proof -
      have "k \<notin> seat_id ` set db" using Cons.prems k by simp
      then show ?thesis by (auto simp: seat_with_def row_with_None)
    qed
    then show ?case using Cons by (auto simp: seat_with_def row_with_def)
  qed (simp add: seat_with_def row_with_def)
qed

text \<open>A change of the table that follows the state machine with the labels it reports.\<close>

definition follows :: "(nat \<times> seat_label) list \<Rightarrow> seats \<Rightarrow> seats \<Rightarrow> bool" where
  "follows ls db db' \<longleftrightarrow> seats_ok db' \<and> (\<forall>k. case seat_with k db of
      None \<Rightarrow> labels_at k ls = [] \<and> seat_with k db' = None
    | Some r \<Rightarrow> \<exists>r'. seat_with k db' = Some r' \<and> seat_path (labels_at k ls) (state_of r) = Some (state_of r'))"

lemma follows_refl: "seats_ok db \<Longrightarrow> follows [] db db"
  by (simp add: follows_def split: option.split)

lemma follows_trans: "follows ls a b \<Longrightarrow> follows ms b c \<Longrightarrow> follows (ls @ ms) a c"
  unfolding follows_def by (fastforce simp: seat_path_append split: option.splits)

lemma follows_update:
  assumes "seats_ok db" and "\<And>r. seat_id (f r) = seat_id r" and "\<And>r. r \<in> set db \<Longrightarrow> P r \<Longrightarrow> seat_ok (f r)"
    and "\<And>k. seat_with k db = None \<Longrightarrow> labels_at k ls = []"
    and "\<And>k r. seat_with k db = Some r \<Longrightarrow> seat_ok r \<Longrightarrow> seat_id r = k \<Longrightarrow>
      seat_path (labels_at k ls) (state_of r) = Some (state_of (if P r then f r else r))"
  shows "follows ls db (update_where P f db)"
  unfolding follows_def using seats_ok_update [OF assms(1-3)] assms(4,5) seat_with_ok [OF assms(1)]
  by (auto simp: seat_with_update assms(2) split: option.split)

lemma conditional_follows:
  assumes "seats_ok db" and "attemptConditionalReservation t c opts db = (r, db')"
  shows "follows (granted r) db db'"
proof -
  let ?P = "\<lambda>r. seat_id r = seatId opts \<and> status r = AVAILABLE"
  have n: "row_count ?P db = (case seat_with (seatId opts) db of None \<Rightarrow> 0 | Some r \<Rightarrow> if ?P r then 1 else 0)"
    by (rule seat_count [OF assms(1)]) simp
  have d: "db' = update_where ?P (hold_seat t c opts) db" and r: "r = (if row_count ?P db = 1 then grant opts t else refuse opts)"
    using assms(2) by (auto simp: attemptConditionalReservation_def Let_def split: if_splits)
  show ?thesis unfolding d
  proof (rule follows_update [OF assms(1)])
    fix k s assume s: "seat_with k db = Some s" "seat_id s = k"
    show "seat_path (labels_at k (granted r)) (state_of s) = Some (state_of (if ?P s then hold_seat t c opts s else s))"
    proof (cases "k = seatId opts")
      case True
      then have "r = (if ?P s then grant opts t else refuse opts)" using s n r by simp
      then show ?thesis using True s(2) by auto
    qed (use r s(2) in auto)
  qed (use n r in \<open>auto split: if_splits\<close>)
qed

lemma payment_follows:
  assumes "seats_ok db" and "completePayment i t now db = (r, db')"
  shows "follows (case r of sold j \<Rightarrow> [(j, Sold_to t)] | failed _ _ \<Rightarrow> []) db db'"
proof -
  have n: "row_count (payable i t now) db = (case seat_with i db of None \<Rightarrow> 0 | Some s \<Rightarrow> if payable i t now s then 1 else 0)"
    by (rule seat_count [OF assms(1)]) (simp add: payable_def)
  have d: "db' = update_where (payable i t now) (\<lambda>r. r\<lparr>status := SOLD\<rparr>) db"
    and r: "(case r of sold j \<Rightarrow> [(j, Sold_to t)] | failed _ _ \<Rightarrow> []) = (if row_count (payable i t now) db = 1 then [(i, Sold_to t)] else [])"
    using assms(2) by (auto simp: completePayment_def)
  show ?thesis unfolding d r
  proof (rule follows_update [OF assms(1)])
    fix s assume "s \<in> set db" "payable i t now s"
    then show "seat_ok (s\<lparr>status := SOLD\<rparr>)" using assms(1) by (intro seat_ok_written(3)) (auto simp: seats_ok_def payable_def)
  next
    fix k s assume s: "seat_with k db = Some s" "seat_ok s" "seat_id s = k"
    show "seat_path (labels_at k (if row_count (payable i t now) db = 1 then [(i, Sold_to t)] else [])) (state_of s)
        = Some (state_of (if payable i t now s then s\<lparr>status := SOLD\<rparr> else s))"
    proof (cases "k = i")
      case True
      then show ?thesis using s n by (auto simp: payable_def)
    next
      case False
      then have "\<not> payable i t now s" using s(3) by (simp add: payable_def)
      then show ?thesis using False by simp
    qed
  qed (use n in \<open>auto split: if_splits\<close>)
qed

lemma expiry_follows:
  assumes "seats_ok db"
  shows "follows (map (\<lambda>j. (j, Lapsed)) (fst (expireReservations now db))) db (snd (expireReservations now db))"
  unfolding expireReservations_def fst_conv snd_conv
proof (rule follows_update [OF assms])
  fix k s assume s: "seat_with k db = Some s"
  show "seat_path (labels_at k (map (\<lambda>j. (j, Lapsed)) (map seat_id (filter (lapsed now) db)))) (state_of s)
      = Some (state_of (if lapsed now s then free_seat s else s))"
    unfolding lapsed_labels [OF assms] s by (auto simp: lapsed_def)
qed (simp_all only: lapsed_labels [OF assms] option.case seat_ids seat_ok_written)

section \<open>Interleaved callers\<close>

fun holding :: "row_lock_pc \<Rightarrow> bool" where
  "holding LockedUpdate \<longleftrightarrow> True"
| "holding (LockedCommit _ _) \<longleftrightarrow> True"
| "holding _ \<longleftrightarrow> False"

definition ticket_inv :: "reservation_options list \<Rightarrow> ticket_world \<Rightarrow> bool" where
  "ticket_inv cs x \<longleftrightarrow> seats_ok (seats (snd x)) \<and> length (fst x) = length cs
     \<and> (\<forall>i < length cs. holding (fst x ! i) \<longrightarrow>
          row_locks (snd x) (seatId (cs ! i)) = Some i
          \<and> map_option status (seat_with (seatId (cs ! i)) (seats (snd x))) = Some AVAILABLE)"

text \<open>A change that follows the state machine and leaves locked seats free keeps the invariant.\<close>

lemma ticket_inv_table:
  assumes "ticket_inv cs (pcs, w)"
    and "seats_ok db'"
    and "\<And>k. row_locks w k \<noteq> None \<Longrightarrow> map_option status (seat_with k (seats w)) = Some AVAILABLE \<Longrightarrow> seat_with k db' = seat_with k (seats w)"
  shows "ticket_inv cs (pcs, w\<lparr>seats := db'\<rparr>)"
  using assms unfolding ticket_inv_def by auto

lemma ticket_inv_lock:
  "ticket_inv cs (pcs, w) \<Longrightarrow> i < length cs \<Longrightarrow> holding (pcs ! i) \<Longrightarrow>
   row_locks w (seatId (cs ! i)) = Some i \<and> map_option status (seat_with (seatId (cs ! i)) (seats w)) = Some AVAILABLE"
  unfolding ticket_inv_def by auto

lemma ticket_inv_pc:
  assumes "ticket_inv cs (pcs, w)" and "i < length pcs" and "holding pc \<Longrightarrow> holding (pcs ! i)"
  shows "ticket_inv cs (pcs[i := pc], w)"
  unfolding ticket_inv_def fst_conv snd_conv
proof (intro conjI allI impI)
  fix j assume j: "j < length cs" "holding (pcs[i := pc] ! j)"
  then have "holding (pcs ! j)" using assms(2,3) by (cases "j = i") simp_all
  then show "row_locks w (seatId (cs ! j)) = Some j" "map_option status (seat_with (seatId (cs ! j)) (seats w)) = Some AVAILABLE"
    using ticket_inv_lock [OF assms(1) j(1)] by simp_all
qed (use assms(1) in \<open>simp_all add: ticket_inv_def\<close>)

lemma ticket_inv_take_lock:
  assumes "ticket_inv cs (pcs, w)" and "i < length pcs" and "row_locks w (seatId (cs ! i)) = None"
    and "map_option status (seat_with (seatId (cs ! i)) (seats w)) = Some AVAILABLE"
  shows "ticket_inv cs (pcs[i := LockedUpdate], w\<lparr>row_locks := (row_locks w)(seatId (cs ! i) \<mapsto> i)\<rparr>)"
  unfolding ticket_inv_def fst_conv snd_conv
proof (intro conjI allI impI)
  let ?w = "w\<lparr>row_locks := (row_locks w)(seatId (cs ! i) \<mapsto> i)\<rparr>"
  fix j assume j: "j < length cs" "holding (pcs[i := LockedUpdate] ! j)"
  have "row_locks ?w (seatId (cs ! j)) = Some j \<and> map_option status (seat_with (seatId (cs ! j)) (seats ?w)) = Some AVAILABLE"
  proof (cases "j = i")
    case False
    then have h: "row_locks w (seatId (cs ! j)) = Some j" "map_option status (seat_with (seatId (cs ! j)) (seats w)) = Some AVAILABLE"
      using j ticket_inv_lock [OF assms(1) j(1)] by simp_all
    then have "seatId (cs ! j) \<noteq> seatId (cs ! i)" using assms(3) by auto
    then show ?thesis using h by simp
  qed (use assms(4) in simp)
  then show "row_locks ?w (seatId (cs ! j)) = Some j" "map_option status (seat_with (seatId (cs ! j)) (seats ?w)) = Some AVAILABLE"
    by blast+
qed (use assms(1) in \<open>simp_all add: ticket_inv_def\<close>)

text \<open>The commit of a row-lock transaction.\<close>

lemma commit_follows:
  assumes "seats_ok db" and "map_option status (seat_with (seatId opts) db) = Some AVAILABLE"
  shows "follows (granted (grant opts t)) db (update_where (\<lambda>r. seat_id r = seatId opts) (hold_seat t c opts) db)"
proof (rule follows_update [OF assms(1)])
  fix k s assume s: "seat_with k db = Some s" "seat_id s = k"
  show "seat_path (labels_at k (granted (grant opts t))) (state_of s) = Some (state_of (if seat_id s = seatId opts then hold_seat t c opts s else s))"
    using s assms(2) by auto
qed (use assms(2) in auto)

lemma row_lock_follows:
  assumes inv: "ticket_inv cs (pcs, w)" and i: "i < length pcs"
    and st: "attemptRowLockReservation i t c (cs ! i) (pcs ! i) w = (pc, w')"
  shows "ticket_inv cs (pcs[i := pc], w')
    \<and> follows (case (pcs ! i, pc) of (LockedCommit _ _, RowLockDone r) \<Rightarrow> granted r | _ \<Rightarrow> []) (seats w) (seats w')"
proof -
  let ?k = "seatId (cs ! i)"
  have ok: "seats_ok (seats w)" and l: "length pcs = length cs" using inv by (simp_all add: ticket_inv_def)
  note hold = ticket_inv_lock [OF inv]
  show ?thesis
  proof (cases "pcs ! i")
    case LockedRead
    show ?thesis
    proof (cases "row_locks w ?k = None \<and> map_option status (seat_with ?k (seats w)) = Some AVAILABLE")
      case True
      then have "pc = LockedUpdate" "w' = w\<lparr>row_locks := (row_locks w)(?k \<mapsto> i)\<rparr>" using st LockedRead by simp_all
      then show ?thesis using ticket_inv_take_lock [OF inv i] True LockedRead follows_refl [OF ok] by simp
    next
      case False
      then have "w' = w \<and> (pc = LockedRead \<or> pc = RowLockDone (refuse (cs ! i)))" using st LockedRead by (simp split: if_splits)
      then show ?thesis using ticket_inv_pc [OF inv i, of pc] LockedRead follows_refl [OF ok] by auto
    qed
  next
    case LockedUpdate
    then have "pc = LockedCommit t c" "w' = w" using st by simp_all
    then show ?thesis using ticket_inv_pc [OF inv i, of pc] LockedUpdate follows_refl [OF ok] by simp
  next
    case (LockedCommit tok clock)
    let ?db = "update_where (\<lambda>r. seat_id r = ?k) (hold_seat tok clock (cs ! i)) (seats w)"
    have w': "pc = RowLockDone (grant (cs ! i) tok)" "w' = w\<lparr>seats := ?db, row_locks := (row_locks w)(?k := None)\<rparr>"
      using st LockedCommit by simp_all
    have k: "row_locks w ?k = Some i" "map_option status (seat_with ?k (seats w)) = Some AVAILABLE"
      using hold [of i] LockedCommit i l by auto
    note f = commit_follows [OF ok k(2), of tok clock]
    have other: "seat_with j ?db = seat_with j (seats w)" if "j \<noteq> ?k" for j
    proof -
      have "seat_with j (seats w) = Some r \<Longrightarrow> seat_id r = j" for r using seat_with_ok [OF ok] by blast
      then show ?thesis using that by (cases "seat_with j (seats w)") (auto simp: seat_with_update)
    qed
    have "ticket_inv cs (pcs[i := pc], w')"
      unfolding ticket_inv_def fst_conv snd_conv
    proof (intro conjI allI impI)
      show "seats_ok (seats w')" using f w' by (simp add: follows_def)
      fix j assume j: "j < length cs" "holding (pcs[i := pc] ! j)"
      then have "j \<noteq> i" using w' i by auto
      then have "holding (pcs ! j)" using j(2) by simp
      note h = hold [OF j(1) this]
      have ne: "seatId (cs ! j) \<noteq> ?k"
      proof
        assume "seatId (cs ! j) = ?k"
        then have "Some j = Some i" using conjunct1 [OF h] k(1) by metis
        then show False using \<open>j \<noteq> i\<close> by simp
      qed
      show "row_locks w' (seatId (cs ! j)) = Some j" "map_option status (seat_with (seatId (cs ! j)) (seats w')) = Some AVAILABLE"
        using h other [OF ne] ne w' by simp_all
    qed (use l in simp)
    then show ?thesis using f w' LockedCommit by simp
  next
    case (RowLockDone r)
    then have "pc = RowLockDone r" "w' = w" using st by simp_all
    moreover have "pcs[i := RowLockDone r] = pcs" using RowLockDone by (simp add: list_update_same_conv i)
    ultimately show ?thesis using inv RowLockDone follows_refl [OF ok] by simp
  qed
qed

lemma ticket_step_follows:
  assumes inv: "ticket_inv cs (pcs, w)" and st: "ticket_step cs e (pcs, w) = (ls, (pcs', w'))"
  shows "ticket_inv cs (pcs', w') \<and> follows ls (seats w) (seats w')"
proof (cases e)
  case (Conditional opts t c)
  have ok: "seats_ok (seats w)" using inv by (simp add: ticket_inv_def)
  show ?thesis
  proof (cases "row_locks w (seatId opts)")
    case (Some i)
    then show ?thesis using st inv Conditional follows_refl [OF ok] by simp
  next
    case None
    obtain r db where a: "attemptConditionalReservation t c opts (seats w) = (r, db)" by fastforce
    then have w': "ls = granted r" "pcs' = pcs" "w' = w\<lparr>seats := db\<rparr>" using st None Conditional by simp_all
    note f = conditional_follows [OF ok a]
    have "seat_with k db = seat_with k (seats w)" if "row_locks w k \<noteq> None" for k
    proof -
      have "k \<noteq> seatId opts" using that None by auto
      then have "seat_with k (seats w) = Some s \<Longrightarrow> seat_id s \<noteq> seatId opts" for s using seat_with_ok [OF ok] by blast
      moreover have "db = update_where (\<lambda>r. seat_id r = seatId opts \<and> status r = AVAILABLE) (hold_seat t c opts) (seats w)"
        using a by (auto simp: attemptConditionalReservation_def Let_def split: if_splits)
      ultimately show ?thesis by (cases "seat_with k (seats w)") (auto simp: seat_with_update)
    qed
    then have "ticket_inv cs (pcs, w\<lparr>seats := db\<rparr>)" using f by (intro ticket_inv_table [OF inv]) (auto simp: follows_def)
    then show ?thesis using f w' by simp
  qed
next
  case (RowLock i t c)
  show ?thesis
  proof (cases "i < length pcs")
    case True
    obtain pc w2 where a: "attemptRowLockReservation i t c (cs ! i) (pcs ! i) w = (pc, w2)" by fastforce
    then have "pcs' = pcs[i := pc]" "w' = w2" "ls = (case (pcs ! i, pc) of (LockedCommit _ _, RowLockDone r) \<Rightarrow> granted r | _ \<Rightarrow> [])"
      using st RowLock True by simp_all
    then show ?thesis using row_lock_follows [OF inv True a] by simp
  next
    case False
    then show ?thesis using st RowLock inv follows_refl by (auto simp: ticket_inv_def)
  qed
next
  case (Pay k t now)
  have ok: "seats_ok (seats w)" using inv by (simp add: ticket_inv_def)
  obtain r db where a: "completePayment k t now (seats w) = (r, db)" by fastforce
  then have w': "ls = (case r of sold j \<Rightarrow> [(j, Sold_to t)] | failed _ _ \<Rightarrow> [])" "pcs' = pcs" "w' = w\<lparr>seats := db\<rparr>" using st Pay by simp_all
  note f = payment_follows [OF ok a]
  have "db = update_where (payable k t now) (\<lambda>r. r\<lparr>status := SOLD\<rparr>) (seats w)" using a by (simp add: completePayment_def)
  then have "ticket_inv cs (pcs, w\<lparr>seats := db\<rparr>)"
    using f by (intro ticket_inv_table [OF inv]) (auto simp: follows_def seat_with_update payable_def)
  then show ?thesis using f w' by simp
next
  case (Expire now)
  have ok: "seats_ok (seats w)" using inv by (simp add: ticket_inv_def)
  let ?x = "expireReservations now (seats w)"
  have w': "ls = map (\<lambda>j. (j, Lapsed)) (fst ?x)" "pcs' = pcs" "w' = w\<lparr>seats := snd ?x\<rparr>" using st Expire by (auto simp: case_prod_beta)
  note f = expiry_follows [OF ok, of now]
  have "ticket_inv cs (pcs, w\<lparr>seats := snd ?x\<rparr>)"
    using f by (intro ticket_inv_table [OF inv]) (auto simp: follows_def expireReservations_def seat_with_update lapsed_def)
  then show ?thesis using f w' by simp
qed

lemma ticket_run_follows:
  "ticket_inv cs (pcs, w) \<Longrightarrow> ticket_run cs es (pcs, w) = (ls, (pcs', w')) \<Longrightarrow> ticket_inv cs (pcs', w') \<and> follows ls (seats w) (seats w')"
proof (induction es arbitrary: pcs w ls)
  case Nil
  then show ?case using follows_refl by (auto simp: ticket_inv_def)
next
  case (Cons e es)
  obtain l1 p1 w1 where s: "ticket_step cs e (pcs, w) = (l1, (p1, w1))" by (metis prod_cases3)
  obtain l2 where r: "ticket_run cs es (p1, w1) = (l2, (pcs', w'))" "ls = l1 @ l2"
    using Cons.prems(2) s by (auto split: prod.splits)
  note f = ticket_step_follows [OF Cons.prems(1) s]
  show ?case using Cons.IH [OF conjunct1 [OF f] r(1)] f r(2) follows_trans by blast
qed

lemma ticket_inv_start: "seats_ok db \<Longrightarrow> ticket_inv cs (replicate (length cs) LockedRead, \<lparr>seats = db, row_locks = Map.empty\<rparr>)"
  by (simp add: ticket_inv_def)

text \<open>Counting along a path: reservations, lapses and sales.\<close>

definition n_held :: "seat_label list \<Rightarrow> nat" where "n_held ls = length (filter (\<lambda>l. \<exists>t. l = Held_by t) ls)"
definition n_lapsed :: "seat_label list \<Rightarrow> nat" where "n_lapsed ls = length (filter (\<lambda>l. l = Lapsed) ls)"
definition n_sold :: "seat_label list \<Rightarrow> nat" where "n_sold ls = length (filter (\<lambda>l. \<exists>t. l = Sold_to t) ls)"

lemma n_labels_Cons [simp]:
  "n_held [] = 0" "n_lapsed [] = 0" "n_sold [] = 0"
  "n_held (Held_by t # ls) = Suc (n_held ls)" "n_held (Sold_to t # ls) = n_held ls" "n_held (Lapsed # ls) = n_held ls"
  "n_lapsed (Held_by t # ls) = n_lapsed ls" "n_lapsed (Sold_to t # ls) = n_lapsed ls" "n_lapsed (Lapsed # ls) = Suc (n_lapsed ls)"
  "n_sold (Held_by t # ls) = n_sold ls" "n_sold (Sold_to t # ls) = Suc (n_sold ls)" "n_sold (Lapsed # ls) = n_sold ls"
  by (simp_all add: n_held_def n_lapsed_def n_sold_def)

lemma seat_path_counts:
  "seat_path ls s = Some s' \<Longrightarrow>
   n_held ls + (if s = Free then 0 else 1) = n_lapsed ls + (if s' = Free then 0 else 1)
   \<and> n_sold ls + (if \<exists>t. s = Sold t then 1 else 0) = (if \<exists>t. s' = Sold t then 1 else 0)"
proof (induction ls arbitrary: s)
  case (Cons l ls)
  obtain s1 where s1: "seat_next l s = Some s1" "seat_path ls s1 = Some s'" using Cons.prems by (auto split: option.splits)
  show ?case using Cons.IH [OF s1(2)] s1(1) by (cases "(l, s)" rule: seat_next.cases) (auto split: if_splits)
qed auto

text \<open>Callers one after the other and the sweeps of the naive callers.\<close>

fun conditional_all :: "(reservation_options \<times> string \<times> rat) list \<Rightarrow> seats \<Rightarrow> ReservationResult list \<times> seats" where
  "conditional_all [] db = ([], db)"
| "conditional_all ((opts, tok, clock) # cs) db =
     (let (r, db1) = attemptConditionalReservation tok clock opts db; (rs, db2) = conditional_all cs db1 in (r # rs, db2))"

definition naive_step ::
  "(reservation_options \<times> string \<times> rat) list \<Rightarrow> nat \<Rightarrow> naive_pc list \<times> seats \<Rightarrow> naive_pc list \<times> seats" where
  "naive_step cs i w =
     (if i < length (fst w) then
        (let (opts, tok, clock) = cs ! i; (pc, db) = attemptNaiveReservation tok clock opts (fst w ! i) (snd w) in ((fst w)[i := pc], db))
      else w)"

definition naive_run where "naive_run cs is w = fold (naive_step cs) is w"

lemma conditional_taken:
  assumes "seats_ok db" and "seat_with k db = Some r" and "status r \<noteq> AVAILABLE"
  shows "\<forall>c \<in> set cs. seatId (fst c) = k \<Longrightarrow> conditional_all cs db = (map (refuse \<circ> fst) cs, db)"
proof (induction cs)
  case (Cons c cs)
  obtain opts tok clock where c: "c = (opts, tok, clock)" by (cases c)
  let ?P = "\<lambda>r. seat_id r = k \<and> status r = AVAILABLE"
  have "row_count ?P db = 0" using seat_count [OF assms(1), of ?P k] assms(2,3) by simp
  then have "\<forall>r \<in> set db. \<not> ?P r" by (simp add: row_count_zero)
  then have "attemptConditionalReservation tok clock opts db = (refuse opts, db)"
    using Cons.prems c \<open>row_count ?P db = 0\<close> by (simp add: attemptConditionalReservation_def update_where_none)
  then show ?case using Cons c by simp
qed simp

lemma naive_reads:
  assumes "seat_with k db = Some r" and "status r = AVAILABLE" and "\<forall>c \<in> set cs. seatId (fst c) = k"
  shows "m \<le> length cs \<Longrightarrow> naive_run cs [0..<m] (replicate (length cs) NaiveRead, db)
    = (replicate m NaiveWrite @ replicate (length cs - m) NaiveRead, db)"
proof (induction m)
  case (Suc m)
  obtain opts tok clock where c: "cs ! m = (opts, tok, clock)" by (cases "cs ! m")
  have "seatId opts = k" using assms(3) c Suc.prems nth_mem [of m cs] by force
  moreover have "replicate (length cs - m) NaiveRead = NaiveRead # replicate (length cs - Suc m) NaiveRead"
    using Suc.prems by (metis Suc_diff_Suc Suc_le_lessD replicate_Suc)
  moreover have "m < Suc (length cs - Suc 0)" using Suc.prems by simp
  ultimately show ?case using Suc c assms(1,2)
    by (simp add: naive_run_def naive_step_def nth_append list_update_append replicate_app_Cons_same)
qed (simp add: naive_run_def)

lemma naive_writes:
  assumes "seat_with k db = Some r" and "\<forall>c \<in> set cs. seatId (fst c) = k" and "seats_ok db"
  shows "m \<le> length cs \<Longrightarrow> \<exists>db'. naive_run cs [0..<m] (replicate (length cs) NaiveWrite, db)
      = (map (\<lambda>(opts, tok, clock). NaiveDone (grant opts tok)) (take m cs) @ replicate (length cs - m) NaiveWrite, db')
    \<and> seats_ok db' \<and> (0 < m \<longrightarrow> map_option state_of (seat_with k db') = Some (Held (fst (snd (cs ! (m - 1)))))) \<and> seat_with k db' \<noteq> None"
proof (induction m)
  case (Suc m)
  obtain opts tok clock where c: "cs ! m = (opts, tok, clock)" by (cases "cs ! m")
  then obtain db' where IH: "naive_run cs [0..<m] (replicate (length cs) NaiveWrite, db)
      = (map (\<lambda>(opts, tok, clock). NaiveDone (grant opts tok)) (take m cs) @ replicate (length cs - m) NaiveWrite, db')"
    "seats_ok db'" "seat_with k db' \<noteq> None" using Suc by auto
  let ?db = "update_where (\<lambda>r. seat_id r = seatId opts) (hold_seat tok clock opts) db'"
  have k: "seatId opts = k" using assms(2) c Suc.prems nth_mem [of m cs] by force
  have "seats_ok ?db" by (rule seats_ok_update [OF IH(2)]) simp_all
  moreover obtain s where s: "seat_with k db' = Some s" using IH(3) by blast
  then have "seat_id s = k" using seat_with_ok [OF IH(2)] by blast
  moreover have "replicate (length cs - m) NaiveWrite = NaiveWrite # replicate (length cs - Suc m) NaiveWrite"
    using Suc.prems by (metis Suc_diff_Suc Suc_le_lessD replicate_Suc)
  moreover have "take (Suc m) cs = take m cs @ [(opts, tok, clock)]" using Suc.prems c by (simp add: take_Suc_conv_app_nth)
  ultimately show ?case using IH(1) c k s Suc.prems
    by (intro exI [of _ ?db]) (simp add: naive_run_def naive_step_def nth_append list_update_append seat_with_update)
qed (use assms(1,3) in \<open>simp add: naive_run_def\<close>)

section \<open>The scripts\<close>

definition pickSeatId :: "seats \<Rightarrow> string + nat" where
  "pickSeatId db = (case first_by seat_id (\<lambda>_. True) db of None \<Rightarrow> Inl ''No seats found - run `pnpm seed` first'' | Some r \<Rightarrow> Inr (seat_id r))"

record reservation_report =
  n_reserved :: nat
  n_rejected :: nat
  finalStatus :: "SeatStatus option"
  finalReservedBy :: "string option"

definition report :: "nat \<Rightarrow> ReservationResult list \<Rightarrow> seats \<Rightarrow> reservation_report" where
  "report k results db =
     (let n = length (filter (\<lambda>r. res_outcome r = reserved) results) in
      \<lparr>n_reserved = n, n_rejected = length results - n, finalStatus = map_option status (seat_with k db),
       finalReservedBy = Option.bind (seat_with k db) reserved_by\<rparr>)"

text \<open>Every caller runs with a token and a clock of its own; the naive ones in the order of a schedule of statements.\<close>

definition callers :: "nat \<Rightarrow> (string \<times> string \<times> rat) list \<Rightarrow> (reservation_options \<times> string \<times> rat) list" where
  "callers k bs = map (\<lambda>(b, tok, clock). (\<lparr>seatId = k, buyer = b, holdMinutes = None\<rparr>, tok, clock)) bs"

definition conditional_main :: "(string \<times> string \<times> rat) list \<Rightarrow> seats \<Rightarrow> string + reservation_report" where
  "conditional_main bs db =
     (case pickSeatId db of
        Inl e \<Rightarrow> Inl e
      | Inr k \<Rightarrow> (let (rs, db') = conditional_all (callers k bs) (resetSeatToAvailable k db) in Inr (report k rs db')))"

definition naive_results :: "naive_pc list \<Rightarrow> ReservationResult list" where
  "naive_results pcs = concat (map (\<lambda>pc. case pc of NaiveDone r \<Rightarrow> [r] | _ \<Rightarrow> []) pcs)"

definition naive_main :: "nat list \<Rightarrow> (string \<times> string \<times> rat) list \<Rightarrow> seats \<Rightarrow> string + reservation_report" where
  "naive_main schedule bs db =
     (case pickSeatId db of
        Inl e \<Rightarrow> Inl e
      | Inr k \<Rightarrow> (let (pcs, db') = naive_run (callers k bs) schedule (replicate (length bs) NaiveRead, resetSeatToAvailable k db) in
                 Inr (report k (naive_results pcs) db')))"

text \<open>The script of the payment: the seat is reserved for one buyer after the other, unconditionally.\<close>

definition reserveSeat :: "string \<Rightarrow> rat \<Rightarrow> nat \<Rightarrow> string \<Rightarrow> rat \<Rightarrow> seats \<Rightarrow> seats" where
  "reserveSeat tok clock k b minutes db =
     update_where (\<lambda>r. seat_id r = k) (hold_seat tok clock \<lparr>seatId = k, buyer = b, holdMinutes = Some minutes\<rparr>) db"

definition hold_lapsed :: "string \<Rightarrow> string \<Rightarrow> rat \<Rightarrow> seat \<Rightarrow> seat" where
  "hold_lapsed tok b t r = r\<lparr>status := RESERVED, reservation_token := Some tok, reserved_by := Some b, reserved_until := Some t\<rparr>"

definition payment_main :: "string \<Rightarrow> string \<Rightarrow> string \<Rightarrow> string \<Rightarrow> rat \<Rightarrow> rat \<Rightarrow> seats \<Rightarrow> string + CompletePaymentResult list" where
  "payment_main validToken bobToken wrongToken expiredToken clock now db =
     (case pickSeatId db of
        Inl e \<Rightarrow> Inl e
      | Inr k \<Rightarrow>
          (let (happyPath, db1) = completePayment k validToken now (reserveSeat validToken clock k ''alice@example.com'' 10 db);
               (wrongTokenResult, db2) = completePayment k wrongToken now (reserveSeat bobToken clock k ''bob@example.com'' 10 db1);
               (expiredResult, db3) = completePayment k expiredToken now
                 (update_where (\<lambda>r. seat_id r = k) (hold_lapsed expiredToken ''carol@example.com'' (now - 60000)) db2)
           in Inr [happyPath, wrongTokenResult, expiredResult]))"

definition expire_main :: "string \<Rightarrow> rat \<Rightarrow> seats \<Rightarrow> nat \<times> nat list \<times> seats" where
  "expire_main tok now db =
     (let db1 = (case pickSeatId db of Inl _ \<Rightarrow> db | Inr k \<Rightarrow> update_where (\<lambda>r. seat_id r = k) (hold_lapsed tok ''demo-buyer@example.com'' (now - 300000)) db) in
      (row_count (lapsed now) db1, expireReservations now db1))"

lemma pickSeatId_some: "db \<noteq> [] \<Longrightarrow> \<exists>k r. pickSeatId db = Inr k \<and> seat_with k db = Some r"
proof -
  assume "db \<noteq> []"
  then have "hd db \<in> set db" by simp
  then have "first_by seat_id (\<lambda>_. True) db \<noteq> None" unfolding first_by_None by blast
  then obtain r where r: "first_by seat_id (\<lambda>_. True) db = Some r" by blast
  have "r \<in> set db" using first_by_Some [OF r] by simp
  then have "seat_with (seat_id r) db \<noteq> None" unfolding seat_with_def row_with_None by blast
  moreover have "pickSeatId db = Inr (seat_id r)" unfolding pickSeatId_def r by simp
  ultimately show ?thesis by blast
qed

lemma hold_fields: "status (hold_seat t c opts r) = RESERVED" "reservation_token (hold_seat t c opts r) = Some t"
  "status (free_seat r) = AVAILABLE"
  by (simp_all add: hold_seat_def free_seat_def)

lemma seat_with_one:
  assumes "seats_ok db" and "seat_with k db = Some r" and "\<And>r. seat_id (f r) = seat_id r"
  shows "seat_with k (update_where (\<lambda>r. seat_id r = k) f db) = Some (f r)"
proof -
  have "seat_id r = k" using seat_with_ok [OF assms(1,2)] by blast
  then show ?thesis unfolding seat_with_update [of f, OF assms(3)] assms(2) by simp
qed

lemma reset_seat:
  assumes "seats_ok db" and "seat_with k db = Some r"
  shows "seat_with k (resetSeatToAvailable k db) = Some (free_seat r)" and "seats_ok (resetSeatToAvailable k db)"
  unfolding resetSeatToAvailable_def by (rule seat_with_one [OF assms], simp) (rule seats_ok_update [OF assms(1)], simp_all)

lemma reserveSeat_ok: "seats_ok db \<Longrightarrow> seats_ok (reserveSeat tok clock k b m db)"
  unfolding reserveSeat_def by (rule seats_ok_update) simp_all

lemma reserveSeat_row:
  "seats_ok db \<Longrightarrow> seat_with k db = Some r \<Longrightarrow>
   seat_with k (reserveSeat tok clock k b m db) = Some (hold_seat tok clock \<lparr>seatId = k, buyer = b, holdMinutes = Some m\<rparr> r)"
  unfolding reserveSeat_def by (rule seat_with_one) simp_all

text \<open>One hundred callers or any other number: one reservation with the conditional update, all with the worst naive schedule.\<close>

lemma conditional_main_report:
  assumes "seats_ok db" and "db \<noteq> []" and "bs \<noteq> []"
  shows "\<exists>rep. conditional_main bs db = Inr rep \<and> n_reserved rep = 1 \<and> n_rejected rep = length bs - 1"
proof -
  obtain k r where k: "pickSeatId db = Inr k" "seat_with k db = Some r" using pickSeatId_some [OF assms(2)] by blast
  note rs = reset_seat [OF assms(1) k(2)]
  let ?db = "resetSeatToAvailable k db"
  obtain b tok clock rest where bs: "bs = (b, tok, clock) # rest" using assms(3) by (cases bs) auto
  let ?opts = "\<lparr>seatId = k, buyer = b, holdMinutes = None\<rparr>"
  obtain q db1 where q: "attemptConditionalReservation tok clock ?opts ?db = (q, db1)" by fastforce
  let ?P = "\<lambda>r. seat_id r = k \<and> status r = AVAILABLE"
  have id: "seat_id r = k" using seat_with_ok [OF assms(1) k(2)] by blast
  have "row_count ?P ?db = 1" using seat_count [OF rs(2), of ?P k] rs(1) id by (simp add: hold_fields)
  then have d: "q = grant ?opts tok" "db1 = update_where ?P (hold_seat tok clock ?opts) ?db" using q by (simp_all add: attemptConditionalReservation_def)
  have w: "seat_with k db1 = Some (hold_seat tok clock ?opts (free_seat r))" unfolding d(2) using rs(1) id by (simp add: seat_with_update hold_fields)
  have ok: "seats_ok db1" unfolding d(2) by (rule seats_ok_update [OF rs(2)]) simp_all
  have st: "status (hold_seat tok clock ?opts (free_seat r)) \<noteq> AVAILABLE" by (simp add: hold_fields)
  have "\<forall>c \<in> set (callers k rest). seatId (fst c) = k" by (auto simp: callers_def)
  then have rest: "conditional_all (callers k rest) db1 = (map (refuse \<circ> fst) (callers k rest), db1)"
    by (rule conditional_taken [OF ok w st])
  have none: "filter ((\<lambda>r. res_outcome r = reserved) \<circ> (refuse \<circ> fst)) cs = []" for cs :: "(reservation_options \<times> string \<times> rat) list" by (induction cs) (simp_all add: refuse_def)
  have cs: "callers k bs = (?opts, tok, clock) # callers k rest" using bs by (simp add: callers_def)
  have "conditional_all (callers k bs) ?db = (grant ?opts tok # map (refuse \<circ> fst) (callers k rest), db1)"
    unfolding cs conditional_all.simps q by (simp add: rest d(1) del: map_map)
  moreover have "length (callers k rest) = length bs - 1" using bs by (simp add: callers_def)
  moreover have "res_outcome (grant ?opts tok) = reserved" by (simp add: grant_def)
  ultimately show ?thesis using k(1) none by (simp add: conditional_main_def report_def Let_def del: map_map)
qed

lemma payment_main_outcomes:
  assumes "seats_ok db" and "db \<noteq> []" and "now < clock + 600000" and "wrongToken \<noteq> bobToken"
  shows "\<exists>k e. payment_main validToken bobToken wrongToken expiredToken clock now db = Inr [sold k, failed k e, failed k e]"
proof -
  obtain k r where k: "pickSeatId db = Inr k" "seat_with k db = Some r" using pickSeatId_some [OF assms(2)] by blast
  have id: "seat_id r = k" using seat_with_ok [OF assms(1) k(2)] by blast
  have cnt: "row_count (payable k t now) d = (case seat_with k d of None \<Rightarrow> 0 | Some r \<Rightarrow> if payable k t now r then 1 else 0)"
    if "seats_ok d" for t d by (rule seat_count [OF that]) (simp add: payable_def)
  let ?d1 = "reserveSeat validToken clock k ''alice@example.com'' 10 db"
  note d1 = reserveSeat_ok [OF assms(1), of validToken clock k "''alice@example.com''" 10]
  have s1: "seat_with k ?d1 = Some (hold_seat validToken clock \<lparr>seatId = k, buyer = ''alice@example.com'', holdMinutes = Some 10\<rparr> r)"
    by (rule reserveSeat_row [OF assms(1) k(2)])
  let ?p1 = "update_where (payable k validToken now) (\<lambda>r. r\<lparr>status := SOLD\<rparr>) ?d1"
  have c1: "completePayment k validToken now ?d1 = (sold k, ?p1)"
    using cnt [OF d1] s1 assms(3) id by (simp add: completePayment_def payable_def hold_seat_def reservedUntilFromNow_def)
  have p1: "seats_ok ?p1" using payment_follows [OF d1 c1] by (simp add: follows_def)
  obtain r1 where r1: "seat_with k ?p1 = Some r1" using s1 by (auto simp: seat_with_update)
  have id1: "seat_id r1 = k" using seat_with_ok [OF p1 r1] by blast
  let ?d2 = "reserveSeat bobToken clock k ''bob@example.com'' 10 ?p1"
  note d2 = reserveSeat_ok [OF p1, of bobToken clock k "''bob@example.com''" 10]
  have s2: "seat_with k ?d2 = Some (hold_seat bobToken clock \<lparr>seatId = k, buyer = ''bob@example.com'', holdMinutes = Some 10\<rparr> r1)"
    by (rule reserveSeat_row [OF p1 r1])
  let ?p2 = "update_where (payable k wrongToken now) (\<lambda>r. r\<lparr>status := SOLD\<rparr>) ?d2"
  obtain e where c2: "completePayment k wrongToken now ?d2 = (failed k e, ?p2)"
    and c3: "\<And>d. row_count (payable k expiredToken now) d = 0 \<Longrightarrow> fst (completePayment k expiredToken now d) = failed k e"
    using cnt [OF d2, of wrongToken] s2 assms(4) by (simp add: completePayment_def payable_def hold_seat_def)
  have p2: "seats_ok ?p2" using payment_follows [OF d2 c2] by (simp add: follows_def)
  obtain r2 where r2: "seat_with k ?p2 = Some r2" using s2 by (auto simp: seat_with_update)
  let ?d3 = "update_where (\<lambda>r. seat_id r = k) (hold_lapsed expiredToken ''carol@example.com'' (now - 60000)) ?p2"
  have ids: "seat_id (hold_lapsed t b u x) = seat_id x" for t b u x by (simp add: hold_lapsed_def)
  have d3: "seats_ok ?d3" by (rule seats_ok_update [OF p2]) (simp_all add: hold_lapsed_def seat_ok_def)
  have "seat_with k ?d3 = Some (hold_lapsed expiredToken ''carol@example.com'' (now - 60000) r2)"
    by (rule seat_with_one [OF p2 r2 ids])
  then have "row_count (payable k expiredToken now) ?d3 = 0" using cnt [OF d3] by (simp add: payable_def hold_lapsed_def)
  from c3 [OF this] show ?thesis using k(1) c1 c2 by (auto simp: payment_main_def Let_def case_prod_beta)
qed

section \<open>Properties\<close>

text \<open>
  C30: a seat is never held by two and never sold twice. Whatever conditional reservations, row-lock transactions,
  payments and expirations interleave, every seat goes through the states of the documented state machine,
  with a sale only to the token that holds the seat: reservations outnumber the lapsed ones by at most one, at
  most one payment succeeds, none for another token, and the rows stay well formed.\<close>

theorem seats_follow_the_state_machine:
  assumes "seats_ok db"
    and "ticket_run cs es (replicate (length cs) LockedRead, \<lparr>seats = db, row_locks = Map.empty\<rparr>) = (ls, (pcs, w))"
    and "seat_with k db = Some r"
  shows "\<exists>r'. seat_with k (seats w) = Some r'
    \<and> seat_path (labels_at k ls) (state_of r) = Some (state_of r') \<and> seats_ok (seats w)
    \<and> n_held (labels_at k ls) \<le> n_lapsed (labels_at k ls) + 1
    \<and> n_sold (labels_at k ls) \<le> 1 \<and> (status r = SOLD \<longrightarrow> labels_at k ls = [])"
proof -
  have f: "follows ls db (seats w)" using ticket_run_follows [OF ticket_inv_start [OF assms(1)] assms(2)] by simp
  then obtain r' where r': "seat_with k (seats w) = Some r'" "seat_path (labels_at k ls) (state_of r) = Some (state_of r')" "seats_ok (seats w)"
    unfolding follows_def using assms(3) by (auto split: option.splits dest: spec [of _ k])
  note c = seat_path_counts [OF r'(2)]
  have a: "n_held (labels_at k ls) \<le> n_lapsed (labels_at k ls) + 1" using conjunct1 [OF c] by (simp split: if_splits)
  have b: "n_sold (labels_at k ls) \<le> 1" using conjunct2 [OF c] by (simp split: if_splits)
  have "labels_at k ls = []" if s: "status r = SOLD"
  proof (cases "labels_at k ls")
    case (Cons l rest)
    then show ?thesis using r'(2) s by (cases l) simp_all
  qed
  then show ?thesis using r' a b by blast
qed

definition one_seat :: seats where
  "one_seat = [\<lparr>seat_id = 1, event_id = 1, seat_section = ''A'', seat_row = ''1'', seat_number = 1, status = AVAILABLE,
     reservation_token = None, reserved_by = None, reserved_until = None\<rparr>]"

definition buyer_of :: "string \<Rightarrow> reservation_options" where
  "buyer_of b = \<lparr>seatId = 1, buyer = b, holdMinutes = None\<rparr>"

lemma one_seat_ok: "seats_ok one_seat" "\<exists>r. seat_with 1 one_seat = Some r \<and> status r = AVAILABLE"
  by (simp_all add: seats_ok_def seat_ok_def one_seat_def seat_with_def row_with_def)

lemma seats_follow_the_state_machine_witness:
  "\<exists>ls pcs w. ticket_run [buyer_of ''a'', buyer_of ''b'']
      [RowLock 0 ''t0'' 0, Conditional (buyer_of ''c'') ''t1'' 0, RowLock 1 ''t2'' 0, RowLock 0 ''t0'' 0, RowLock 0 ''t0'' 0, Pay 1 ''t0'' 5]
      ([LockedRead, LockedRead], \<lparr>seats = one_seat, row_locks = Map.empty\<rparr>) = (ls, (pcs, w))
    \<and> n_held (labels_at 1 ls) \<le> n_lapsed (labels_at 1 ls) + 1"
proof -
  obtain r where r: "seat_with 1 one_seat = Some r" using one_seat_ok(2) by blast
  obtain ls pcs w where run: "ticket_run [buyer_of ''a'', buyer_of ''b'']
      [RowLock 0 ''t0'' 0, Conditional (buyer_of ''c'') ''t1'' 0, RowLock 1 ''t2'' 0, RowLock 0 ''t0'' 0, RowLock 0 ''t0'' 0, Pay 1 ''t0'' 5]
      ([LockedRead, LockedRead], \<lparr>seats = one_seat, row_locks = Map.empty\<rparr>) = (ls, (pcs, w))" by (metis prod_cases3)
  have "[LockedRead, LockedRead] = replicate (length [buyer_of ''a'', buyer_of ''b'']) LockedRead" by (simp add: numeral_2_eq_2)
  from seats_follow_the_state_machine [OF one_seat_ok(1) run [unfolded this] r] run show ?thesis by blast
qed

text \<open>
  The double booking and its fix. When all naive callers read before the first of them writes, all of them are told
  they have the seat and the row holds the token of the last; of the same callers with the conditional
  update exactly the first is granted and all others are refused.\<close>

lemma double_booking_and_fix:
  assumes "seats_ok db" and "seat_with k db = Some r" and "status r = AVAILABLE"
    and "\<forall>c \<in> set cs. seatId (fst c) = k" and "cs \<noteq> []"
  shows "(\<exists>db'. naive_run cs ([0..<length cs] @ [0..<length cs]) (replicate (length cs) NaiveRead, db)
        = (map (\<lambda>(opts, tok, clock). NaiveDone (grant opts tok)) cs, db')
        \<and> map_option state_of (seat_with k db') = Some (Held (fst (snd (last cs)))))
    \<and> (\<exists>db'. conditional_all cs db = ((grant (fst (hd cs)) (fst (snd (hd cs)))) # map (refuse \<circ> fst) (tl cs), db')
        \<and> map_option state_of (seat_with k db') = Some (Held (fst (snd (hd cs)))))"
proof
  have "naive_run cs [0..<length cs] (replicate (length cs) NaiveRead, db) = (replicate (length cs) NaiveWrite, db)"
    using naive_reads [OF assms(2-4) order_refl] by simp
  moreover have "cs ! (length cs - 1) = last cs" using assms(5) by (simp add: last_conv_nth)
  moreover obtain db' where "naive_run cs [0..<length cs] (replicate (length cs) NaiveWrite, db)
      = (map (\<lambda>(opts, tok, clock). NaiveDone (grant opts tok)) cs, db')"
    "map_option state_of (seat_with k db') = Some (Held (fst (snd (cs ! (length cs - 1)))))"
    using naive_writes [OF assms(2,4,1) order_refl] assms(5) by auto
  ultimately show "\<exists>db'. naive_run cs ([0..<length cs] @ [0..<length cs]) (replicate (length cs) NaiveRead, db)
        = (map (\<lambda>(opts, tok, clock). NaiveDone (grant opts tok)) cs, db')
        \<and> map_option state_of (seat_with k db') = Some (Held (fst (snd (last cs))))"
    by (auto simp: naive_run_def)
next
  obtain opts tok clock rest where cs: "cs = (opts, tok, clock) # rest" using assms(5) by (cases cs) auto
  then have k: "seatId opts = k" using assms(4) by simp
  let ?P = "\<lambda>r. seat_id r = k \<and> status r = AVAILABLE"
  let ?db = "update_where ?P (hold_seat tok clock opts) db"
  have id: "seat_id r = k" using seat_with_ok [OF assms(1,2)] by blast
  have "row_count ?P db = 1" using seat_count [OF assms(1), of ?P k] assms(2,3) id by simp
  then have one: "attemptConditionalReservation tok clock opts db = (grant opts tok, ?db)"
    using k by (simp add: attemptConditionalReservation_def)
  have "seat_with k ?db = Some (hold_seat tok clock opts r)" using assms(2,3) id by (simp add: seat_with_update)
  moreover have "seats_ok ?db" by (rule seats_ok_update [OF assms(1)]) simp_all
  ultimately show "\<exists>db'. conditional_all cs db = ((grant (fst (hd cs)) (fst (snd (hd cs)))) # map (refuse \<circ> fst) (tl cs), db')
        \<and> map_option state_of (seat_with k db') = Some (Held (fst (snd (hd cs))))"
    using one conditional_taken [of ?db k "hold_seat tok clock opts r" rest] assms(4) cs by (simp add: hold_seat_def)
qed

lemma double_booking_and_fix_witness:
  "\<exists>db'. naive_run [(buyer_of ''a'', ''t0'', 0), (buyer_of ''b'', ''t1'', 0)] ([0..<2] @ [0..<2]) ([NaiveRead, NaiveRead], one_seat)
    = ([NaiveDone (grant (buyer_of ''a'') ''t0''), NaiveDone (grant (buyer_of ''b'') ''t1'')], db')"
proof -
  obtain r where r: "seat_with 1 one_seat = Some r" "status r = AVAILABLE" using one_seat_ok(2) by blast
  let ?cs = "[(buyer_of ''a'', ''t0'', 0 :: rat), (buyer_of ''b'', ''t1'', 0)]"
  have "\<forall>c \<in> set ?cs. seatId (fst c) = 1" "?cs \<noteq> []" by (simp_all add: buyer_of_def)
  from conjunct1 [OF double_booking_and_fix [OF one_seat_ok(1) r this]] show ?thesis by (auto simp: numeral_2_eq_2)
qed

text \<open>
  C31: every operation keeps the table well typed. Identifiers stay distinct and unchanged; an available seat has no token,
  holder or deadline, a reserved or sold one has all three, whichever operation ran, the naive ones included.\<close>

theorem ticket_operations_well_typed:
  assumes "seats_ok db"
  shows "seats_ok (snd (attemptConditionalReservation tok clock opts db)) \<and> seats_ok (snd (attemptNaiveReservation tok clock opts pc db))
    \<and> seats_ok (snd (completePayment k tok now db)) \<and> seats_ok (snd (expireReservations now db)) \<and> seats_ok (resetSeatToAvailable k db)
    \<and> (ticket_inv cs (pcs, w) \<longrightarrow> i < length pcs \<longrightarrow>
        seats_ok (seats (snd (attemptRowLockReservation i tok clock (cs ! i) (pcs ! i) w))))"
proof (intro conjI impI)
  obtain r d where c: "attemptConditionalReservation tok clock opts db = (r, d)" by fastforce
  show "seats_ok (snd (attemptConditionalReservation tok clock opts db))" using conditional_follows [OF assms c] c by (simp add: follows_def)
  show "seats_ok (snd (attemptNaiveReservation tok clock opts pc db))"
    by (cases pc) (simp_all add: assms seats_ok_update)
  obtain p e where p: "completePayment k tok now db = (p, e)" by fastforce
  show "seats_ok (snd (completePayment k tok now db))" using payment_follows [OF assms p] p by (simp add: follows_def)
  show "seats_ok (snd (expireReservations now db))" using expiry_follows [OF assms] by (simp add: follows_def)
  show "seats_ok (resetSeatToAvailable k db)" unfolding resetSeatToAvailable_def by (rule seats_ok_update [OF assms]) simp_all
  assume inv: "ticket_inv cs (pcs, w)" and i: "i < length pcs"
  show "seats_ok (seats (snd (attemptRowLockReservation i tok clock (cs ! i) (pcs ! i) w)))"
    using row_lock_follows [OF inv i prod.collapse [symmetric]] by (simp add: follows_def)
qed

lemma ticket_operations_well_typed_witness: "seats_ok (snd (attemptNaiveReservation ''t'' 0 (buyer_of ''a'') NaiveWrite one_seat))"
  using ticket_operations_well_typed [OF one_seat_ok(1), of "''t''" 0 "buyer_of ''a''" NaiveWrite] by blast

end
