(* ===== verification/Documents.thy ===== *)
theory Documents
  imports Sql_Table
begin

text \<open>
  Lost updates, Lab 11, \<open>labs/11-*/src/scenarios\<close>: the plain edit, the edit that is conditional on the version it read
  and reads again on a conflict, the edit under a row lock, and the publication that is conditional on the
  status, over the table \<open>documents\<close>. The three scenarios are the schedules of their scripts; any number of
  users and any schedule are covered by the step functions. Timestamps are left out.
\<close>

section \<open>The table\<close>

record DocumentRow =
  doc_id :: nat
  title :: string
  doc_body :: string
  version :: nat
  doc_status :: string

type_synonym documents = "DocumentRow list"

definition readDocument :: "nat \<Rightarrow> documents \<Rightarrow> string + DocumentRow" where
  "readDocument i db = (case row_with (\<lambda>r. doc_id r = i) db of None \<Rightarrow> Inl (''document id '' @ nat_str i @ '' not found'') | Some r \<Rightarrow> Inr r)"

definition resetDocument :: "string \<Rightarrow> string \<Rightarrow> nat \<Rightarrow> string \<Rightarrow> documents \<Rightarrow> (string + nat) \<times> documents" where
  "resetDocument t b v st db =
     (let db' = update_where (\<lambda>r. title r = t) (\<lambda>r. r\<lparr>doc_body := b, version := v, doc_status := st\<rparr>) db in
      (case row_with (\<lambda>r. title r = t) db' of
         None \<Rightarrow> Inl (''document '' @ t @ '' not found - run `pnpm seed` first'') | Some r \<Rightarrow> Inr (doc_id r), db'))"

text \<open>The statements: their row counts and, for the versioned one, the versions it returns.\<close>

definition plain_save :: "nat \<Rightarrow> string \<Rightarrow> documents \<Rightarrow> nat \<times> documents" where
  "plain_save i b db = (row_count (\<lambda>r. doc_id r = i) db, update_where (\<lambda>r. doc_id r = i) (\<lambda>r. r\<lparr>doc_body := b\<rparr>) db)"

definition versioned_save :: "nat \<Rightarrow> string \<Rightarrow> nat \<Rightarrow> documents \<Rightarrow> nat list \<times> documents" where
  "versioned_save i b v db =
     (let P = (\<lambda>r. doc_id r = i \<and> version r = v) in
      (map (\<lambda>r. version r + 1) (filter P db), update_where P (\<lambda>r. r\<lparr>doc_body := b, version := version r + 1\<rparr>) db))"

definition append_save :: "nat \<Rightarrow> string \<Rightarrow> documents \<Rightarrow> documents" where
  "append_save i m db = update_where (\<lambda>r. doc_id r = i) (\<lambda>r. r\<lparr>doc_body := doc_body r @ m, version := version r + 1\<rparr>) db"

definition publish_draft :: "nat \<Rightarrow> documents \<Rightarrow> nat \<times> documents" where
  "publish_draft i db =
     (let P = (\<lambda>r. doc_id r = i \<and> doc_status r = ''draft'') in
      (row_count P db, update_where P (\<lambda>r. r\<lparr>doc_status := ''published''\<rparr>) db))"

definition edited :: "string \<Rightarrow> string \<Rightarrow> string" where
  "edited b m = b @ CHR 0x0A # CHR 0x0A # m"

section \<open>Users\<close>

text \<open>
  A user's next statement. The naive user reads and saves; the optimistic one saves under the version it read and
  reads again when no row matched; the pessimistic one waits for the row lock, then appends and commits. (Lab 11's script reads
  again once, which is as often as its two users can conflict; here a user does so as often as it has to.)\<close>

datatype edit_pc = EditRead | EditSave string nat | EditDone

fun naive_edit :: "nat \<Rightarrow> string \<Rightarrow> edit_pc \<Rightarrow> documents \<Rightarrow> edit_pc \<times> documents" where
  "naive_edit i m EditRead db = (case readDocument i db of Inl _ \<Rightarrow> EditRead | Inr r \<Rightarrow> EditSave (edited (doc_body r) m) (version r), db)"
| "naive_edit i m (EditSave b v) db = (EditDone, snd (plain_save i b db))"
| "naive_edit i m EditDone db = (EditDone, db)"

fun optimistic_edit :: "nat \<Rightarrow> string \<Rightarrow> edit_pc \<Rightarrow> documents \<Rightarrow> edit_pc \<times> documents" where
  "optimistic_edit i m EditRead db =
     (case readDocument i db of Inl _ \<Rightarrow> EditRead | Inr r \<Rightarrow> EditSave (edited (doc_body r) m) (version r), db)"
| "optimistic_edit i m (EditSave b v) db =
     (let (returned, db') = versioned_save i b v db in (if length returned = 0 then EditRead else EditDone, db'))"
| "optimistic_edit i m EditDone db = (EditDone, db)"

text \<open>A world of users who edit one document; an event is the next statement of user \<open>j\<close>.\<close>

type_synonym edit_world = "edit_pc list \<times> documents"

definition edit_step ::
  "(string \<Rightarrow> edit_pc \<Rightarrow> documents \<Rightarrow> edit_pc \<times> documents) \<Rightarrow> string list \<Rightarrow> nat \<Rightarrow> edit_world \<Rightarrow> edit_world" where
  "edit_step user ms j w =
     (if j < length (fst w) then (let (pc, db) = user (ms ! j) (fst w ! j) (snd w) in ((fst w)[j := pc], db)) else w)"

definition edit_run where "edit_run user ms js w = fold (edit_step user ms) js w"

datatype lock_pc = WantsLock | HoldsLock | Committed

record lock_world =
  lock_pcs :: "lock_pc list"
  lock_holder :: "nat option"
  lock_docs :: documents

definition pessimistic_step :: "nat \<Rightarrow> string list \<Rightarrow> nat \<Rightarrow> lock_world \<Rightarrow> lock_world" where
  "pessimistic_step i ms j w =
     (if j < length (lock_pcs w) then
        (case lock_pcs w ! j of
           WantsLock \<Rightarrow> if lock_holder w = None then w\<lparr>lock_pcs := (lock_pcs w)[j := HoldsLock], lock_holder := Some j\<rparr> else w
         | HoldsLock \<Rightarrow> w\<lparr>lock_pcs := (lock_pcs w)[j := Committed], lock_holder := None,
                          lock_docs := append_save i (CHR 0x0A # CHR 0x0A # ms ! j) (lock_docs w)\<rparr>
         | Committed \<Rightarrow> w)
      else w)"

definition pessimistic_run where "pessimistic_run i ms js w = fold (pessimistic_step i ms) js w"

section \<open>The scripts\<close>

definition USER_A_EDIT_MARKER :: string where "USER_A_EDIT_MARKER = ''-- User A's addition: fixed the typo in Section 1.''"
definition USER_B_EDIT_MARKER :: string where "USER_B_EDIT_MARKER = ''-- User B's addition: added a Section 3 on rollout risks.''"

record LostUpdateResult =
  lu_userAUpdateRowCount :: nat
  lu_userBUpdateRowCount :: nat
  lu_finalBody :: string
  userAEditSurvived :: bool
  userBEditSurvived :: bool
  lostUpdateOccurred :: bool

definition runLostUpdateNaive :: "string \<Rightarrow> string \<Rightarrow> documents \<Rightarrow> string + LostUpdateResult" where
  "runLostUpdateNaive t original db =
     (case resetDocument t original 1 ''draft'' db of
        (Inl e, _) \<Rightarrow> Inl e
      | (Inr i, db0) \<Rightarrow>
          (case (readDocument i db0, readDocument i db0) of
             (Inr readA, Inr readB) \<Rightarrow>
               (let bodyA = edited (doc_body readA) USER_A_EDIT_MARKER;
                    bodyB = edited (doc_body readB) USER_B_EDIT_MARKER;
                    (na, db1) = plain_save i bodyA db0;
                    (nb, db2) = plain_save i bodyB db1 in
                case readDocument i db2 of
                  Inl e \<Rightarrow> Inl e
                | Inr final \<Rightarrow> Inr \<lparr>lu_userAUpdateRowCount = na, lu_userBUpdateRowCount = nb, lu_finalBody = doc_body final,
                    userAEditSurvived = (doc_body final = bodyA), userBEditSurvived = (doc_body final = bodyB),
                    lostUpdateOccurred = (doc_body final \<noteq> bodyA \<and> doc_body final = bodyB)\<rparr>)
           | (Inl e, _) \<Rightarrow> Inl e | (_, Inl e) \<Rightarrow> Inl e))"

record OptimisticConcurrencyResult =
  userAReadVersion :: nat
  userBReadVersion :: nat
  userAUpdateRowCount :: nat
  userBFirstAttemptRowCount :: nat
  userBRetryReadVersion :: nat
  userBRetryUpdateRowCount :: nat
  finalBody :: string
  finalVersion :: nat
  conflictDetected :: bool
  retrySucceeded :: bool

definition runOptimisticConcurrency :: "string \<Rightarrow> string \<Rightarrow> documents \<Rightarrow> string + OptimisticConcurrencyResult" where
  "runOptimisticConcurrency t original db =
     (case resetDocument t original 1 ''draft'' db of
        (Inl e, _) \<Rightarrow> Inl e
      | (Inr i, db0) \<Rightarrow>
          (case (readDocument i db0, readDocument i db0) of
             (Inr readA, Inr readB) \<Rightarrow>
               (let (ra, db1) = versioned_save i (edited (doc_body readA) USER_A_EDIT_MARKER) (version readA) db0;
                    (rb, db2) = versioned_save i (edited (doc_body readB) USER_B_EDIT_MARKER) (version readB) db1 in
                case readDocument i db2 of
                  Inl e \<Rightarrow> Inl e
                | Inr retryRead \<Rightarrow>
                    (let (rr, db3) = versioned_save i (edited (doc_body retryRead) USER_B_EDIT_MARKER) (version retryRead) db2 in
                     case readDocument i db3 of
                       Inl e \<Rightarrow> Inl e
                     | Inr final \<Rightarrow> Inr \<lparr>userAReadVersion = version readA, userBReadVersion = version readB,
                         userAUpdateRowCount = length ra, userBFirstAttemptRowCount = length rb,
                         userBRetryReadVersion = version retryRead, userBRetryUpdateRowCount = length rr,
                         finalBody = doc_body final, finalVersion = version final,
                         conflictDetected = (length rb = 0), retrySucceeded = (length rr = 1)\<rparr>))
           | (Inl e, _) \<Rightarrow> Inl e | (_, Inl e) \<Rightarrow> Inl e))"

record ConditionalWritePublishResult =
  rowCounts :: "nat list"
  successCount :: nat
  conflictCount :: nat
  finalStatus :: string

fun publish_all :: "nat \<Rightarrow> nat \<Rightarrow> documents \<Rightarrow> nat list \<times> documents" where
  "publish_all i 0 db = ([], db)"
| "publish_all i (Suc k) db = (let (n, db1) = publish_draft i db; (ns, db2) = publish_all i k db1 in (n # ns, db2))"

definition runConditionalWritePublish :: "string \<Rightarrow> string \<Rightarrow> nat \<Rightarrow> documents \<Rightarrow> string + ConditionalWritePublishResult" where
  "runConditionalWritePublish t original attemptCount db =
     (case resetDocument t original 1 ''draft'' db of
        (Inl e, _) \<Rightarrow> Inl e
      | (Inr i, db0) \<Rightarrow>
          (let (ns, db1) = publish_all i attemptCount db0 in
           case readDocument i db1 of
             Inl e \<Rightarrow> Inl e
           | Inr final \<Rightarrow> Inr \<lparr>rowCounts = ns, successCount = length (filter (\<lambda>c. c = 1) ns),
               conflictCount = length (filter (\<lambda>c. c = 0) ns), finalStatus = doc_status final\<rparr>))"

section \<open>The statements on the document\<close>

definition docs_ok :: "documents \<Rightarrow> bool" where
  "docs_ok db \<longleftrightarrow> distinct (map doc_id db) \<and> distinct (map title db)"

lemma docs_ok_update: "docs_ok db \<Longrightarrow> (\<And>r. doc_id (f r) = doc_id r \<and> title (f r) = title r) \<Longrightarrow> docs_ok (update_where P f db)"
  by (simp add: docs_ok_def map_update_where)

lemma read_row: "readDocument i db = Inr r \<longleftrightarrow> row_with (\<lambda>r. doc_id r = i) db = Some r"
  by (simp add: readDocument_def split: option.split)

lemma read_id: "readDocument i db = Inr r \<Longrightarrow> doc_id r = i"
  unfolding read_row by (drule row_with_Some) simp

lemma read_update:
  "readDocument i db = Inr r \<Longrightarrow> (\<And>r. doc_id (f r) = doc_id r) \<Longrightarrow> readDocument i (update_where P f db) = Inr (if P r then f r else r)"
  unfolding read_row by (simp add: row_with_update)

lemma plain_save_read:
  assumes "docs_ok db" and "readDocument i db = Inr r"
  shows "fst (plain_save i b db) = 1" and "readDocument i (snd (plain_save i b db)) = Inr (r\<lparr>doc_body := b\<rparr>)" and "docs_ok (snd (plain_save i b db))"
proof -
  show "readDocument i (snd (plain_save i b db)) = Inr (r\<lparr>doc_body := b\<rparr>)"
    using read_update [OF assms(2)] read_id [OF assms(2)] by (simp add: plain_save_def)
  show "fst (plain_save i b db) = 1"
    using filter_unique_key [of doc_id db i r "\<lambda>_. True"] assms by (simp add: plain_save_def row_count_def docs_ok_def read_row)
  show "docs_ok (snd (plain_save i b db))" unfolding plain_save_def snd_conv by (rule docs_ok_update [OF assms(1)]) simp
qed

lemma versioned_save_read:
  assumes "docs_ok db" and "readDocument i db = Inr r"
  shows "fst (versioned_save i b v db) = (if version r = v then [version r + 1] else [])"
    and "readDocument i (snd (versioned_save i b v db)) = Inr (if version r = v then r\<lparr>doc_body := b, version := version r + 1\<rparr> else r)"
    and "docs_ok (snd (versioned_save i b v db))"
proof -
  show "fst (versioned_save i b v db) = (if version r = v then [version r + 1] else [])"
    using filter_unique_key [of doc_id db i r "\<lambda>r. version r = v"] assms by (simp add: versioned_save_def Let_def docs_ok_def read_row)
  show "readDocument i (snd (versioned_save i b v db)) = Inr (if version r = v then r\<lparr>doc_body := b, version := version r + 1\<rparr> else r)"
    using read_update [OF assms(2)] read_id [OF assms(2)] by (simp add: versioned_save_def Let_def)
  show "docs_ok (snd (versioned_save i b v db))" unfolding versioned_save_def Let_def snd_conv by (rule docs_ok_update [OF assms(1)]) simp
qed

lemma append_save_read:
  assumes "docs_ok db" and "readDocument i db = Inr r"
  shows "readDocument i (append_save i m db) = Inr (r\<lparr>doc_body := doc_body r @ m, version := version r + 1\<rparr>)" and "docs_ok (append_save i m db)"
  unfolding append_save_def using read_update [OF assms(2)] read_id [OF assms(2)] docs_ok_update [OF assms(1)] by simp_all

lemma publish_draft_read:
  assumes "docs_ok db" and "readDocument i db = Inr r"
  shows "fst (publish_draft i db) = (if doc_status r = ''draft'' then 1 else 0)"
    and "readDocument i (snd (publish_draft i db)) = Inr (if doc_status r = ''draft'' then r\<lparr>doc_status := ''published''\<rparr> else r)"
    and "docs_ok (snd (publish_draft i db))"
proof -
  show "fst (publish_draft i db) = (if doc_status r = ''draft'' then 1 else 0)"
    using filter_unique_key [of doc_id db i r "\<lambda>r. doc_status r = ''draft''"] assms
    by (simp add: publish_draft_def Let_def row_count_def docs_ok_def read_row)
  show "readDocument i (snd (publish_draft i db)) = Inr (if doc_status r = ''draft'' then r\<lparr>doc_status := ''published''\<rparr> else r)"
    using read_update [OF assms(2)] read_id [OF assms(2)] by (simp add: publish_draft_def Let_def)
  show "docs_ok (snd (publish_draft i db))" unfolding publish_draft_def Let_def snd_conv by (rule docs_ok_update [OF assms(1)]) simp
qed

section \<open>Optimistic users\<close>

text \<open>
  The document is the base with the edits of the users that are done, in the order they were done, and its version counts
  them; a save that is still current was computed from the current body. A user that is not done has made at most
  two statements for every success of another user since the start, and one more.\<close>

fun user_ok :: "DocumentRow \<Rightarrow> nat \<Rightarrow> string \<Rightarrow> nat \<Rightarrow> edit_pc \<Rightarrow> bool" where
  "user_ok r v0 m c EditRead \<longleftrightarrow> c \<le> 2 * (version r - v0)"
| "user_ok r v0 m c (EditSave b v) \<longleftrightarrow>
     v \<le> version r \<and> (v = version r \<longrightarrow> b = edited (doc_body r) m) \<and> v0 \<le> v \<and> c \<le> 2 * (v - v0) + 1"
| "user_ok r v0 m c EditDone \<longleftrightarrow> True"

definition opt_inv_with ::
  "DocumentRow \<Rightarrow> nat list \<Rightarrow> nat \<Rightarrow> string list \<Rightarrow> string \<Rightarrow> nat \<Rightarrow> nat list \<Rightarrow> edit_world \<Rightarrow> bool" where
  "opt_inv_with r order i ms b0 v0 js w \<longleftrightarrow> length (fst w) = length ms \<and> docs_ok (snd w)
     \<and> readDocument i (snd w) = Inr r \<and> distinct order \<and> set order = {j. j < length ms \<and> fst w ! j = EditDone}
     \<and> doc_body r = foldl edited b0 (map ((!) ms) order) \<and> version r = v0 + length order
     \<and> (\<forall>j < length ms. user_ok r v0 (ms ! j) (count_list js j) (fst w ! j))"

definition opt_inv :: "nat \<Rightarrow> string list \<Rightarrow> string \<Rightarrow> nat \<Rightarrow> nat list \<Rightarrow> edit_world \<Rightarrow> bool" where
  "opt_inv i ms b0 v0 js w \<longleftrightarrow> (\<exists>r order. opt_inv_with r order i ms b0 v0 js w)"

text \<open>A user's statement that is not a success changes nothing but the user.\<close>

lemma opt_inv_same:
  assumes "opt_inv_with r order i ms b0 v0 js (pcs, db)" and j: "j < length ms"
    and "docs_ok db'" and "readDocument i db' = Inr r" and "pcs ! j = EditDone \<longleftrightarrow> pc = EditDone"
    and "user_ok r v0 (ms ! j) (count_list js j + 1) pc"
  shows "opt_inv_with r order i ms b0 v0 (js @ [j]) (pcs[j := pc], db')"
proof -
  have len: "length pcs = length ms" using assms(1) by (simp add: opt_inv_with_def)
  have "{k. k < length ms \<and> pcs[j := pc] ! k = EditDone} = {k. k < length ms \<and> pcs ! k = EditDone}"
    using assms(5) j len by (auto simp: nth_list_update)
  moreover have "user_ok r v0 (ms ! k) (count_list (js @ [j]) k) (pcs[j := pc] ! k)" if "k < length ms" for k
    using assms(1,6) that j len by (cases "k = j") (auto simp: opt_inv_with_def)
  ultimately show ?thesis using assms(1,3,4) unfolding opt_inv_with_def by simp
qed

lemma opt_inv_success:
  assumes "opt_inv_with r order i ms b0 v0 js (pcs, db)" and j: "j < length ms"
    and "pcs ! j \<noteq> EditDone" and "docs_ok db'" and "readDocument i db' = Inr (r\<lparr>doc_body := edited (doc_body r) (ms ! j), version := version r + 1\<rparr>)"
  shows "opt_inv_with (r\<lparr>doc_body := edited (doc_body r) (ms ! j), version := version r + 1\<rparr>) (order @ [j]) i ms b0 v0 (js @ [j]) (pcs[j := EditDone], db')"
proof -
  let ?r = "r\<lparr>doc_body := edited (doc_body r) (ms ! j), version := version r + 1\<rparr>"
  have len: "length pcs = length ms" and o: "set order = {k. k < length ms \<and> pcs ! k = EditDone}" "distinct order"
    "doc_body r = foldl edited b0 (map ((!) ms) order)" "version r = v0 + length order"
    using assms(1) by (simp_all add: opt_inv_with_def)
  have "j \<notin> set order" using o(1) assms(3) by simp
  moreover have "set (order @ [j]) = {k. k < length ms \<and> pcs[j := EditDone] ! k = EditDone}"
    using o(1) j len by (auto simp: nth_list_update)
  moreover have "user_ok ?r v0 (ms ! k) (count_list (js @ [j]) k) (pcs[j := EditDone] ! k)" if k: "k < length ms" for k
  proof (cases "k = j")
    case False
    have "user_ok r v0 (ms ! k) (count_list js k) (pcs ! k)" using assms(1) k by (simp add: opt_inv_with_def)
    then show ?thesis using False len by (cases "pcs ! k") auto
  qed (use j len in simp)
  ultimately show ?thesis using assms(4,5) len o(2-4) unfolding opt_inv_with_def by simp
qed

lemma opt_inv_other:
  assumes "opt_inv_with r order i ms b0 v0 js w" and "\<not> j < length ms"
  shows "opt_inv_with r order i ms b0 v0 (js @ [j]) w"
proof -
  have "count_list (js @ [j]) k = count_list js k" if "k < length ms" for k using assms(2) that by auto
  then show ?thesis using assms(1) unfolding opt_inv_with_def by (simp del: count_list_append)
qed

lemma opt_inv_step:
  assumes "opt_inv i ms b0 v0 js w"
  shows "opt_inv i ms b0 v0 (js @ [j]) (edit_step (optimistic_edit i) ms j w)"
proof -
  obtain pcs db where w: "w = (pcs, db)" by fastforce
  obtain r order where inv: "opt_inv_with r order i ms b0 v0 js (pcs, db)" using assms w by (auto simp: opt_inv_def)
  have f: "length pcs = length ms" "docs_ok db" "readDocument i db = Inr r" using inv by (simp_all add: opt_inv_with_def)
  show ?thesis
  proof (cases "j < length ms")
    case False
    then have "edit_step (optimistic_edit i) ms j w = w" using w f(1) by (simp add: edit_step_def)
    then show ?thesis using opt_inv_other [OF inv False] w by (auto simp: opt_inv_def)
  next
    case True
    have u: "user_ok r v0 (ms ! j) (count_list js j) (pcs ! j)" using inv True by (simp add: opt_inv_with_def)
    have v0: "v0 \<le> version r" using inv by (simp add: opt_inv_with_def)
    show ?thesis
    proof (cases "pcs ! j")
      case EditRead
      have "edit_step (optimistic_edit i) ms j w = (pcs[j := EditSave (edited (doc_body r) (ms ! j)) (version r)], db)"
        using w True EditRead f by (simp add: edit_step_def)
      moreover have "opt_inv_with r order i ms b0 v0 (js @ [j]) (pcs[j := EditSave (edited (doc_body r) (ms ! j)) (version r)], db)"
        using EditRead u v0 by (intro opt_inv_same [OF inv True f(2,3)]) auto
      ultimately show ?thesis by (auto simp: opt_inv_def)
    next
      case (EditSave b v)
      note s = versioned_save_read [OF f(2,3), of b v]
      show ?thesis
      proof (cases "version r = v")
        case eq: True
        have "edit_step (optimistic_edit i) ms j w = (pcs[j := EditDone], snd (versioned_save i b v db))"
          using w True EditSave s(1) eq f(1) by (simp add: edit_step_def case_prod_beta Let_def)
        moreover have "b = edited (doc_body r) (ms ! j)" using u EditSave eq by simp
        ultimately show ?thesis using opt_inv_success [OF inv True _ s(3)] s(2) eq EditSave unfolding opt_inv_def by auto
      next
        case False
        have "edit_step (optimistic_edit i) ms j w = (pcs[j := EditRead], snd (versioned_save i b v db))"
          using w True EditSave s(1) False f(1) by (simp add: edit_step_def case_prod_beta Let_def)
        moreover have "opt_inv_with r order i ms b0 v0 (js @ [j]) (pcs[j := EditRead], snd (versioned_save i b v db))"
          using EditSave u False s by (intro opt_inv_same [OF inv True s(3)]) auto
        ultimately show ?thesis by (auto simp: opt_inv_def)
      qed
    next
      case EditDone
      have "edit_step (optimistic_edit i) ms j w = (pcs[j := EditDone], db)" using w True EditDone f(1) by (simp add: edit_step_def)
      then show ?thesis using opt_inv_same [OF inv True f(2,3), of EditDone] EditDone by (auto simp: opt_inv_def)
    qed
  qed
qed

lemma opt_inv_run:
  assumes "docs_ok db" and "readDocument i db = Inr r"
  shows "opt_inv i ms (doc_body r) (version r) js (edit_run (optimistic_edit i) ms js (replicate (length ms) EditRead, db))"
proof (induction js rule: rev_induct)
  case Nil
  then have "opt_inv_with r [] i ms (doc_body r) (version r) [] (replicate (length ms) EditRead, db)"
    using assms by (simp add: opt_inv_with_def)
  then show ?case by (auto simp: opt_inv_def edit_run_def)
next
  case (snoc j js)
  then show ?case using opt_inv_step [of i ms _ _ js _ j] by (simp add: edit_run_def)
qed

lemma opt_inv_bound:
  assumes "opt_inv_with r order i ms b0 v0 js (pcs, db)" and "j < length ms" and "2 * length ms \<le> count_list js j"
  shows "pcs ! j = EditDone"
proof (rule ccontr)
  assume n: "pcs ! j \<noteq> EditDone"
  have o: "set order = {k. k < length ms \<and> pcs ! k = EditDone}" "distinct order" "version r = v0 + length order"
    and u: "user_ok r v0 (ms ! j) (count_list js j) (pcs ! j)" using assms(1,2) by (simp_all add: opt_inv_with_def)
  have "set order \<subseteq> {..<length ms} - {j}" using o(1) n by auto
  then have "card (set order) \<le> card ({..<length ms} - {j})" by (intro card_mono) auto
  then have "length order \<le> length ms - 1" using o(2) assms(2) by (simp add: distinct_card)
  then have "count_list js j < 2 * length ms" using u n o(3) assms(2) by (cases "pcs ! j") auto
  then show False using assms(3) by simp
qed

section \<open>Users with a row lock\<close>

definition lock_inv ::
  "DocumentRow \<Rightarrow> nat list \<Rightarrow> nat \<Rightarrow> string list \<Rightarrow> string \<Rightarrow> nat \<Rightarrow> lock_world \<Rightarrow> bool" where
  "lock_inv r order i ms b0 v0 w \<longleftrightarrow> length (lock_pcs w) = length ms \<and> docs_ok (lock_docs w)
     \<and> readDocument i (lock_docs w) = Inr r \<and> distinct order \<and> set order = {j. j < length ms \<and> lock_pcs w ! j = Committed}
     \<and> doc_body r = foldl edited b0 (map ((!) ms) order) \<and> version r = v0 + length order
     \<and> (\<forall>j < length ms. lock_pcs w ! j = HoldsLock \<longleftrightarrow> lock_holder w = Some j)
     \<and> (\<forall>j. lock_holder w = Some j \<longrightarrow> j < length ms)"

lemma lock_inv_step:
  assumes inv: "lock_inv r order i ms b0 v0 w"
  shows "\<exists>r' order'. lock_inv r' order' i ms b0 v0 (pessimistic_step i ms j w)"
proof (cases "j < length (lock_pcs w)")
  case True
  then have j: "j < length ms" using inv by (simp add: lock_inv_def)
  show ?thesis
  proof (cases "lock_pcs w ! j")
    case WantsLock
    show ?thesis
    proof (cases "lock_holder w")
      case None
      let ?w = "w\<lparr>lock_pcs := (lock_pcs w)[j := HoldsLock], lock_holder := Some j\<rparr>"
      have "{k. k < length ms \<and> lock_pcs ?w ! k = Committed} = {k. k < length ms \<and> lock_pcs w ! k = Committed}"
        using WantsLock True by (auto simp: nth_list_update)
      moreover have "\<forall>k < length ms. lock_pcs ?w ! k = HoldsLock \<longleftrightarrow> lock_holder ?w = Some k"
        using inv None True by (auto simp: lock_inv_def nth_list_update)
      ultimately have "lock_inv r order i ms b0 v0 ?w" using inv j unfolding lock_inv_def by simp
      then show ?thesis using True WantsLock None by (auto simp: pessimistic_step_def)
    next
      case (Some k)
      then have "pessimistic_step i ms j w = w" using True WantsLock by (simp add: pessimistic_step_def)
      then show ?thesis using inv by auto
    qed
  next
    case HoldsLock
    let ?m = "CHR 0x0A # CHR 0x0A # ms ! j"
    let ?w = "w\<lparr>lock_pcs := (lock_pcs w)[j := Committed], lock_holder := None, lock_docs := append_save i ?m (lock_docs w)\<rparr>"
    let ?r = "r\<lparr>doc_body := doc_body r @ ?m, version := version r + 1\<rparr>"
    have r: "docs_ok (lock_docs w)" "readDocument i (lock_docs w) = Inr r" and h: "lock_holder w = Some j"
      using inv HoldsLock j by (simp_all add: lock_inv_def)
    note s = append_save_read [OF r, of ?m]
    have "j \<notin> set order" using inv HoldsLock by (simp add: lock_inv_def)
    moreover have "set (order @ [j]) = {k. k < length ms \<and> lock_pcs ?w ! k = Committed}"
      using inv True j by (auto simp: lock_inv_def nth_list_update)
    moreover have "\<forall>k < length ms. lock_pcs ?w ! k \<noteq> HoldsLock" using inv True h by (auto simp: lock_inv_def nth_list_update)
    ultimately have "lock_inv ?r (order @ [j]) i ms b0 v0 ?w" using inv s unfolding lock_inv_def by (simp add: edited_def)
    then show ?thesis using True HoldsLock by (auto simp: pessimistic_step_def)
  next
    case Committed
    then have "pessimistic_step i ms j w = w" using True by (simp add: pessimistic_step_def)
    then show ?thesis using inv by auto
  qed
next
  case False
  then have "pessimistic_step i ms j w = w" by (simp add: pessimistic_step_def)
  then show ?thesis using inv by auto
qed

lemma lock_inv_run: "lock_inv r order i ms b0 v0 w \<Longrightarrow> \<exists>r' order'. lock_inv r' order' i ms b0 v0 (pessimistic_run i ms js w)"
proof (induction js arbitrary: r order w)
  case Nil
  then show ?case by (auto simp: pessimistic_run_def)
next
  case (Cons j js)
  obtain r1 o1 where "lock_inv r1 o1 i ms b0 v0 (pessimistic_step i ms j w)" using lock_inv_step [OF Cons.prems] by blast
  from Cons.IH [OF this] show ?case by (simp add: pessimistic_run_def)
qed

text \<open>Nobody waits for ever: while somebody has not committed, somebody can move.\<close>

lemma lock_progress:
  assumes "lock_inv r order i ms b0 v0 w" and "j < length ms" and "lock_pcs w ! j \<noteq> Committed"
  shows "\<exists>k < length ms. pessimistic_step i ms k w \<noteq> w"
proof (cases "lock_holder w")
  case None
  then have "lock_pcs w ! j = WantsLock" using assms by (cases "lock_pcs w ! j") (auto simp: lock_inv_def)
  then have "lock_holder (pessimistic_step i ms j w) = Some j" using None assms by (simp add: pessimistic_step_def lock_inv_def)
  then show ?thesis using None assms(2) by (metis option.distinct(1))
next
  case (Some k)
  then have k: "k < length ms" "lock_pcs w ! k = HoldsLock" using assms(1) by (simp_all add: lock_inv_def)
  moreover have "k < length (lock_pcs w)" using assms(1) k(1) by (simp add: lock_inv_def)
  ultimately have "lock_holder (pessimistic_step i ms k w) = None" unfolding pessimistic_step_def by simp
  then show ?thesis using Some k(1) by (metis option.distinct(1))
qed

section \<open>Naive users\<close>

lemma naive_reads_all:
  assumes "readDocument i db = Inr r"
  shows "m \<le> length ms \<Longrightarrow> edit_run (naive_edit i) ms [0..<m] (replicate (length ms) EditRead, db)
    = (map (\<lambda>x. EditSave (edited (doc_body r) x) (version r)) (take m ms) @ replicate (length ms - m) EditRead, db)"
proof (induction m)
  case (Suc m)
  have "replicate (length ms - m) EditRead = EditRead # replicate (length ms - Suc m) EditRead"
    using Suc.prems by (metis Suc_diff_Suc Suc_le_lessD replicate_Suc)
  moreover have "take (Suc m) ms = take m ms @ [ms ! m]" using Suc.prems by (simp add: take_Suc_conv_app_nth)
  ultimately show ?case using Suc assms by (simp add: edit_run_def edit_step_def nth_append list_update_append)
qed (simp add: edit_run_def)

lemma naive_saves_all:
  assumes "readDocument i db = Inr r" and "docs_ok db"
  defines "S \<equiv> \<lambda>x. EditSave (edited (doc_body r) x) (version r)"
  shows "m \<le> length ms \<Longrightarrow> \<exists>db' r'. edit_run (naive_edit i) ms [0..<m] (map S ms, db) = (replicate m EditDone @ map S (drop m ms), db')
    \<and> docs_ok db' \<and> readDocument i db' = Inr r' \<and> (0 < m \<longrightarrow> doc_body r' = edited (doc_body r) (ms ! (m - 1)))"
proof (induction m)
  case (Suc m)
  then obtain db' r' where IH: "edit_run (naive_edit i) ms [0..<m] (map S ms, db) = (replicate m EditDone @ map S (drop m ms), db')"
    "docs_ok db'" "readDocument i db' = Inr r'" by auto
  note s = plain_save_read [OF IH(2,3), of "edited (doc_body r) (ms ! m)"]
  have d: "drop m ms = ms ! m # drop (Suc m) ms" using Suc.prems by (simp add: Cons_nth_drop_Suc)
  have "edit_run (naive_edit i) ms [0..<Suc m] (map S ms, db)
      = edit_step (naive_edit i) ms m (replicate m EditDone @ map S (drop m ms), db')"
    using IH(1) by (simp add: edit_run_def)
  also have "\<dots> = (replicate (Suc m) EditDone @ map S (drop (Suc m) ms), snd (plain_save i (edited (doc_body r) (ms ! m)) db'))"
    using d by (simp add: edit_step_def nth_append list_update_append S_def replicate_app_Cons_same)
  finally show ?case using s by auto
qed (use assms(1,2) in \<open>simp add: edit_run_def\<close>)

section \<open>The scripts' results\<close>

lemma reset_read:
  assumes "docs_ok db" and "r \<in> set db"
  shows "\<exists>db' r'. resetDocument (title r) b v st db = (Inr (doc_id r), db') \<and> docs_ok db' \<and> readDocument (doc_id r) db' = Inr r'
    \<and> doc_body r' = b \<and> version r' = v \<and> doc_status r' = st"
proof -
  let ?f = "\<lambda>r. r\<lparr>doc_body := b, version := v, doc_status := st\<rparr>" and ?P = "\<lambda>x. title x = title r"
  let ?db = "update_where ?P ?f db"
  have ok: "docs_ok ?db" by (rule docs_ok_update [OF assms(1)]) simp
  have "row_with ?P db = Some r" using assms by (intro row_with_unique) (simp_all add: docs_ok_def)
  then have t: "row_with ?P ?db = Some (?f r)" by (simp add: row_with_update_key)
  have "?f r \<in> set ?db" using assms(2) by (auto simp: set_update_where)
  then have "row_with (\<lambda>x. doc_id x = doc_id (?f r)) ?db = Some (?f r)" using ok by (intro row_with_unique) (simp_all add: docs_ok_def)
  then have "readDocument (doc_id r) ?db = Inr (?f r)" by (simp add: read_row)
  then show ?thesis using ok t by (intro exI [of _ ?db] exI [of _ "?f r"]) (simp add: resetDocument_def Let_def)
qed

lemma publish_all_once:
  assumes "docs_ok db" and "readDocument i db = Inr r"
  shows "\<exists>db' r'. publish_all i n db = ((if doc_status r = ''draft'' \<and> 0 < n then 1 # replicate (n - 1) 0 else replicate n 0), db')
    \<and> readDocument i db' = Inr r' \<and> (0 < n \<longrightarrow> doc_status r = ''draft'' \<longrightarrow> doc_status r' = ''published'')
    \<and> (doc_status r \<noteq> ''draft'' \<longrightarrow> r' = r)"
  using assms
proof (induction n arbitrary: db r)
  case (Suc n)
  note s = publish_draft_read [OF Suc.prems]
  obtain c db1 where p: "publish_draft i db = (c, db1)" by fastforce
  note s1 = s [unfolded p fst_conv snd_conv]
  let ?r = "if doc_status r = ''draft'' then r\<lparr>doc_status := ''published''\<rparr> else r"
  have nd: "doc_status ?r \<noteq> ''draft''" by simp
  obtain db' where "publish_all i n db1 = (replicate n 0, db')" "readDocument i db' = Inr ?r"
    using Suc.IH [OF s1(3,2)] nd by auto
  then show ?case using p s1(1) by (auto simp: Let_def)
qed simp

lemma document_scripts:
  assumes "docs_ok db" and "d \<in> set db"
  shows "\<exists>res. runLostUpdateNaive (title d) original db = Inr res \<and> lu_userAUpdateRowCount res = 1 \<and> lu_userBUpdateRowCount res = 1
      \<and> lu_finalBody res = edited original USER_B_EDIT_MARKER \<and> lostUpdateOccurred res"
    and "\<exists>res. runOptimisticConcurrency (title d) original db = Inr res \<and> userAUpdateRowCount res = 1
      \<and> userBFirstAttemptRowCount res = 0 \<and> conflictDetected res \<and> retrySucceeded res \<and> finalVersion res = 3
      \<and> finalBody res = edited (edited original USER_A_EDIT_MARKER) USER_B_EDIT_MARKER"
    and "0 < n \<Longrightarrow> \<exists>res. runConditionalWritePublish (title d) original n db = Inr res \<and> successCount res = 1
      \<and> conflictCount res = n - 1 \<and> finalStatus res = ''published''"
proof -
  obtain db0 r where r: "resetDocument (title d) original 1 ''draft'' db = (Inr (doc_id d), db0)" "docs_ok db0" "readDocument (doc_id d) db0 = Inr r"
    "doc_body r = original" "version r = 1" "doc_status r = ''draft''" using reset_read [OF assms, of original 1 "''draft''"] by blast
  let ?i = "doc_id d"
  have ne: "edited original USER_B_EDIT_MARKER \<noteq> edited original USER_A_EDIT_MARKER"
    by (simp add: edited_def USER_A_EDIT_MARKER_def USER_B_EDIT_MARKER_def)
  note a = plain_save_read [OF r(2,3), of "edited original USER_A_EDIT_MARKER"]
  note b = plain_save_read [OF a(3,2), of "edited original USER_B_EDIT_MARKER"]
  show "\<exists>res. runLostUpdateNaive (title d) original db = Inr res \<and> lu_userAUpdateRowCount res = 1 \<and> lu_userBUpdateRowCount res = 1
      \<and> lu_finalBody res = edited original USER_B_EDIT_MARKER \<and> lostUpdateOccurred res"
    using r(1,3,4) a(1) b(1,2) ne by (simp add: runLostUpdateNaive_def Let_def case_prod_beta)
  note v = versioned_save_read [OF r(2,3), of "edited original USER_A_EDIT_MARKER" 1]
  obtain ra db1 where ra: "versioned_save ?i (edited original USER_A_EDIT_MARKER) 1 db0 = (ra, db1)" by fastforce
  let ?r1 = "r\<lparr>doc_body := edited original USER_A_EDIT_MARKER, version := 2\<rparr>"
  have v1: "ra = [2]" "readDocument ?i db1 = Inr ?r1" "docs_ok db1" using v [unfolded ra fst_conv snd_conv] r(5) by (simp_all add: eval_nat_numeral)
  note w = versioned_save_read [OF v1(3,2), of "edited original USER_B_EDIT_MARKER" 1]
  obtain rb db2 where rb: "versioned_save ?i (edited original USER_B_EDIT_MARKER) 1 db1 = (rb, db2)" by fastforce
  have w1: "rb = []" "readDocument ?i db2 = Inr ?r1" "docs_ok db2" using w [unfolded rb fst_conv snd_conv] by simp_all
  note x = versioned_save_read [OF w1(3,2), of "edited (edited original USER_A_EDIT_MARKER) USER_B_EDIT_MARKER" 2]
  obtain rr db3 where rr: "versioned_save ?i (edited (edited original USER_A_EDIT_MARKER) USER_B_EDIT_MARKER) 2 db2 = (rr, db3)" by fastforce
  have x1: "rr = [3]" "readDocument ?i db3 = Inr (r\<lparr>doc_body := edited (edited original USER_A_EDIT_MARKER) USER_B_EDIT_MARKER, version := 3\<rparr>)"
    using x [unfolded rr fst_conv snd_conv] by (simp_all add: eval_nat_numeral)
  show "\<exists>res. runOptimisticConcurrency (title d) original db = Inr res \<and> userAUpdateRowCount res = 1
      \<and> userBFirstAttemptRowCount res = 0 \<and> conflictDetected res \<and> retrySucceeded res \<and> finalVersion res = 3
      \<and> finalBody res = edited (edited original USER_A_EDIT_MARKER) USER_B_EDIT_MARKER"
    unfolding runOptimisticConcurrency_def r(1) using r(3-5) ra v1 rb w1 rr x1 by simp
  obtain db' r' where p: "publish_all ?i n db0 = ((if doc_status r = ''draft'' \<and> 0 < n then 1 # replicate (n - 1) 0 else replicate n 0), db')"
    "readDocument ?i db' = Inr r'" "0 < n \<longrightarrow> doc_status r = ''draft'' \<longrightarrow> doc_status r' = ''published''"
    using publish_all_once [OF r(2,3), of n] by blast
  assume "0 < n"
  then show "\<exists>res. runConditionalWritePublish (title d) original n db = Inr res \<and> successCount res = 1
      \<and> conflictCount res = n - 1 \<and> finalStatus res = ''published''"
    using r(1,6) p by (simp add: runConditionalWritePublish_def)
qed

section \<open>Properties\<close>

text \<open>
  C32: no edit is lost. Whatever users save under the version they read, in whatever schedule, the document is always the
  original with the edits of exactly the users that are done, in the order in which they were done, and its version has
  grown by their number; a user that makes two statements per user is done, however often it conflicted. The same holds
  of users that take the row lock, of whom one can always move until all have committed. When all naive users read before
  the first saves, all are told they saved and only the edit of the last is left.\<close>

theorem no_edit_is_lost:
  assumes "docs_ok db" and "readDocument i db = Inr r"
  shows "(\<exists>pcs db' r' order. edit_run (optimistic_edit i) ms js (replicate (length ms) EditRead, db) = (pcs, db')
        \<and> readDocument i db' = Inr r' \<and> distinct order \<and> set order = {j. j < length ms \<and> pcs ! j = EditDone}
        \<and> doc_body r' = foldl edited (doc_body r) (map ((!) ms) order) \<and> version r' = version r + length order
        \<and> (\<forall>j < length ms. 2 * length ms \<le> count_list js j \<longrightarrow> pcs ! j = EditDone))
    \<and> (\<exists>w r' order. pessimistic_run i ms js \<lparr>lock_pcs = replicate (length ms) WantsLock, lock_holder = None, lock_docs = db\<rparr> = w
        \<and> readDocument i (lock_docs w) = Inr r' \<and> distinct order \<and> set order = {j. j < length ms \<and> lock_pcs w ! j = Committed}
        \<and> doc_body r' = foldl edited (doc_body r) (map ((!) ms) order) \<and> version r' = version r + length order
        \<and> ((\<exists>j < length ms. lock_pcs w ! j \<noteq> Committed) \<longrightarrow> (\<exists>k < length ms. pessimistic_step i ms k w \<noteq> w)))
    \<and> (ms \<noteq> [] \<longrightarrow> (\<exists>db' r'. edit_run (naive_edit i) ms ([0..<length ms] @ [0..<length ms]) (replicate (length ms) EditRead, db)
          = (replicate (length ms) EditDone, db')
        \<and> readDocument i db' = Inr r' \<and> doc_body r' = edited (doc_body r) (last ms)))"
proof (intro conjI impI)
  obtain pcs db' where w: "edit_run (optimistic_edit i) ms js (replicate (length ms) EditRead, db) = (pcs, db')" by fastforce
  obtain r' order where inv: "opt_inv_with r' order i ms (doc_body r) (version r) js (pcs, db')"
    using opt_inv_run [OF assms, of ms js] w by (auto simp: opt_inv_def)
  then show "\<exists>pcs db' r' order. edit_run (optimistic_edit i) ms js (replicate (length ms) EditRead, db) = (pcs, db')
        \<and> readDocument i db' = Inr r' \<and> distinct order \<and> set order = {j. j < length ms \<and> pcs ! j = EditDone}
        \<and> doc_body r' = foldl edited (doc_body r) (map ((!) ms) order) \<and> version r' = version r + length order
        \<and> (\<forall>j < length ms. 2 * length ms \<le> count_list js j \<longrightarrow> pcs ! j = EditDone)"
    using w opt_inv_bound [OF inv] by (intro exI [of _ pcs] exI [of _ db'] exI [of _ r'] exI [of _ order]) (auto simp: opt_inv_with_def)
next
  let ?w0 = "\<lparr>lock_pcs = replicate (length ms) WantsLock, lock_holder = None, lock_docs = db\<rparr>"
  have "lock_inv r [] i ms (doc_body r) (version r) ?w0" using assms by (auto simp: lock_inv_def)
  then obtain r' order where inv: "lock_inv r' order i ms (doc_body r) (version r) (pessimistic_run i ms js ?w0)" using lock_inv_run by blast
  then show "\<exists>w r' order. pessimistic_run i ms js ?w0 = w
        \<and> readDocument i (lock_docs w) = Inr r' \<and> distinct order \<and> set order = {j. j < length ms \<and> lock_pcs w ! j = Committed}
        \<and> doc_body r' = foldl edited (doc_body r) (map ((!) ms) order) \<and> version r' = version r + length order
        \<and> ((\<exists>j < length ms. lock_pcs w ! j \<noteq> Committed) \<longrightarrow> (\<exists>k < length ms. pessimistic_step i ms k w \<noteq> w))"
    using lock_progress [OF inv]
    by (intro exI [of _ "pessimistic_run i ms js ?w0"] exI [of _ r'] exI [of _ order] conjI) (auto simp: lock_inv_def)
next
  assume ms: "ms \<noteq> []"
  let ?S = "\<lambda>x. EditSave (edited (doc_body r) x) (version r)"
  have "edit_run (naive_edit i) ms [0..<length ms] (replicate (length ms) EditRead, db) = (map ?S ms, db)"
    using naive_reads_all [OF assms(2) order_refl, of ms] by simp
  moreover obtain db' r' where "edit_run (naive_edit i) ms [0..<length ms] (map ?S ms, db) = (replicate (length ms) EditDone, db')"
    "readDocument i db' = Inr r'" "doc_body r' = edited (doc_body r) (ms ! (length ms - 1))"
    using naive_saves_all [OF assms(2,1) order_refl, of ms] ms by auto
  ultimately show "\<exists>db' r'. edit_run (naive_edit i) ms ([0..<length ms] @ [0..<length ms]) (replicate (length ms) EditRead, db)
          = (replicate (length ms) EditDone, db')
        \<and> readDocument i db' = Inr r' \<and> doc_body r' = edited (doc_body r) (last ms)"
    using ms by (auto simp: edit_run_def last_conv_nth)
qed

definition one_document :: documents where
  "one_document = [\<lparr>doc_id = 1, title = ''t'', doc_body = ''draft'', version = 1, doc_status = ''draft''\<rparr>]"

lemma no_edit_is_lost_witness:
  "\<exists>db' r'. edit_run (naive_edit 1) [''a'', ''b''] ([0..<2] @ [0..<2]) (replicate 2 EditRead, one_document) = (replicate 2 EditDone, db')
    \<and> readDocument 1 db' = Inr r' \<and> doc_body r' = edited ''draft'' ''b''"
proof -
  have "docs_ok one_document" "readDocument 1 one_document = Inr (hd one_document)"
    by (simp_all add: docs_ok_def one_document_def readDocument_def row_with_def)
  from conjunct2 [OF conjunct2 [OF no_edit_is_lost [OF this, of "[''a'', ''b'']"]]]
  show ?thesis by (simp add: numeral_2_eq_2 one_document_def)
qed

end
