(* ===== verification/Dual_Write.thy ===== *)
theory Dual_Write
  imports Sql_Table
begin

text \<open>
  The dual write and the transactional outbox, Lab 16, \<open>labs/16-*/src\<close>: the order that is committed before its event is
  published, the event that is published before its order is inserted, the order and the outbox row in one transaction,
  and the script that drains the outbox. The broker is the list of the events it has accepted. A sequence is not
  rolled back with its transaction.
\<close>

section \<open>Tables and broker\<close>

record order_row =
  ord_id :: nat
  customerName :: string
  amountCents :: int

datatype payload = For_order nat int | For_customer string int

record outbox_row =
  ev_id :: nat
  aggregateType :: string
  aggregateId :: nat
  eventType :: string
  ev_payload :: payload
  createdAt :: rat
  publishedAt :: "rat option"

record BrokerEvent =
  b_eventType :: string
  b_aggregateType :: string
  b_aggregateId :: nat
  b_payload :: payload

record order_db =
  orders :: "order_row list"
  outboxEvents :: "outbox_row list"
  next_order :: nat
  next_event :: nat

datatype BrokerFailureMode = always | never

definition publishToBroker :: "BrokerFailureMode \<Rightarrow> BrokerEvent \<Rightarrow> BrokerEvent list \<Rightarrow> (string + unit) \<times> BrokerEvent list" where
  "publishToBroker failureMode event broker =
     (if failureMode = always
      then (Inl (''simulated broker publish failure for '' @ b_aggregateType event @ '':'' @ nat_str (b_aggregateId event)
              @ '' ('' @ b_eventType event @ '')''), broker)
      else (Inr (), broker @ [event]))"

text \<open>The inserts with the constraints of \<open>db/schema.ts\<close>; the identity is taken before the row is checked.\<close>

definition insert_order :: "string \<Rightarrow> int \<Rightarrow> order_db \<Rightarrow> (string + nat) \<times> order_db" where
  "insert_order name amount db =
     (if 2 ^ 31 \<le> amount \<or> amount < - (2 ^ 31) then (Inl ''22003'', db)
      else let i = next_order db; db = db\<lparr>next_order := i + 1\<rparr> in
        if amount \<le> 0 then (Inl ''23514'', db)
        else (Inr i, db\<lparr>orders := orders db @ [\<lparr>ord_id = i, customerName = name, amountCents = amount\<rparr>]\<rparr>))"

definition insert_event :: "nat \<Rightarrow> string \<Rightarrow> payload \<Rightarrow> rat \<Rightarrow> order_db \<Rightarrow> (string + nat) \<times> order_db" where
  "insert_event aggregate type p now db =
     (let i = next_event db; db = db\<lparr>next_event := i + 1\<rparr> in
      if type \<noteq> ''OrderCreated'' then (Inl ''23514'', db)
      else if \<not> list_ex (\<lambda>r. ord_id r = aggregate) (orders db) then (Inl ''23503'', db)
      else (Inr i, db\<lparr>outboxEvents := outboxEvents db @
        [\<lparr>ev_id = i, aggregateType = ''order'', aggregateId = aggregate, eventType = type, ev_payload = p, createdAt = now, publishedAt = None\<rparr>]\<rparr>))"

definition countOrdersByCustomerName :: "order_db \<Rightarrow> string \<Rightarrow> nat" where
  "countOrdersByCustomerName db name = row_count (\<lambda>r. customerName r = name) (orders db)"

definition countOutboxEventsForOrder :: "order_db \<Rightarrow> nat \<Rightarrow> nat" where
  "countOutboxEventsForOrder db i = row_count (\<lambda>e. aggregateId e = i) (outboxEvents db)"

definition findOrderWithOutboxEventByCustomerName :: "order_db \<Rightarrow> string \<Rightarrow> (order_row \<times> outbox_row) list" where
  "findOrderWithOutboxEventByCustomerName db name =
     concat (map (\<lambda>r. map (Pair r) (filter (\<lambda>e. aggregateId e = ord_id r) (outboxEvents db))) (filter (\<lambda>r. customerName r = name) (orders db)))"

section \<open>The two dual writes\<close>

record NaiveBrokerFailsResult =
  nb_orderId :: nat
  brokerPublished :: bool
  brokerError :: "string option"

definition performNaiveOrderThenBrokerPublish ::
  "string \<Rightarrow> int \<Rightarrow> order_db \<times> BrokerEvent list \<Rightarrow> (string + NaiveBrokerFailsResult) \<times> order_db \<times> BrokerEvent list" where
  "performNaiveOrderThenBrokerPublish name amount w =
     (case insert_order name amount (fst w) of
        (Inl e, db) \<Rightarrow> (Inl e, db, snd w)
      | (Inr i, db) \<Rightarrow>
          (case publishToBroker always
             \<lparr>b_eventType = ''OrderCreated'', b_aggregateType = ''order'', b_aggregateId = i, b_payload = For_order i amount\<rparr> (snd w) of
             (Inr _, br) \<Rightarrow> (Inr \<lparr>nb_orderId = i, brokerPublished = True, brokerError = None\<rparr>, db, br)
           | (Inl e, br) \<Rightarrow> (Inr \<lparr>nb_orderId = i, brokerPublished = False, brokerError = Some e\<rparr>, db, br)))"

datatype NaiveDbFailsResult = Order_committed nat | Order_failed string

definition performNaiveBrokerPublishThenOrder ::
  "string \<Rightarrow> int \<Rightarrow> order_db \<times> BrokerEvent list \<Rightarrow> (string + NaiveDbFailsResult) \<times> order_db \<times> BrokerEvent list" where
  "performNaiveBrokerPublishThenOrder name amount w =
     (case publishToBroker never
        \<lparr>b_eventType = ''OrderCreated'', b_aggregateType = ''order'', b_aggregateId = 0, b_payload = For_customer name amount\<rparr> (snd w) of
        (Inl e, br) \<Rightarrow> (Inl e, fst w, br)
      | (Inr _, br) \<Rightarrow>
          (case insert_order name (- \<bar>amount\<bar>) (fst w) of
             (Inr i, db) \<Rightarrow> (Inr (Order_committed i), db, br)
           | (Inl e, db) \<Rightarrow> (Inr (Order_failed e), db, br)))"

section \<open>The outbox\<close>

datatype TransactionalOutboxResult = Outbox_committed nat nat | Outbox_rolled_back string

text \<open>The transaction: a failure leaves the tables as they were, and the sequences where they are.\<close>

definition performTransactionalOrderCreation ::
  "string \<Rightarrow> int \<Rightarrow> bool \<Rightarrow> rat \<Rightarrow> order_db \<Rightarrow> TransactionalOutboxResult \<times> order_db" where
  "performTransactionalOrderCreation name amount injectOutboxInsertFailure now db =
     (let rollback = (\<lambda>db'. db\<lparr>next_order := next_order db', next_event := next_event db'\<rparr>) in
      case insert_order name amount db of
        (Inl e, db1) \<Rightarrow> (Outbox_rolled_back e, rollback db1)
      | (Inr i, db1) \<Rightarrow>
          (case insert_event i (if injectOutboxInsertFailure then ''OrderCreatedTypoBug'' else ''OrderCreated'') (For_order i amount) now db1 of
             (Inl e, db2) \<Rightarrow> (Outbox_rolled_back e, rollback db2)
           | (Inr j, db2) \<Rightarrow> (Outbox_committed i j, db2)))"

record DrainOutboxResult =
  attempted :: nat
  publishedIds :: "nat list"
  failedIds :: "nat list"

definition unpublished :: "order_db \<Rightarrow> outbox_row list" where
  "unpublished db = sort_key createdAt (filter (\<lambda>e. publishedAt e = None) (outboxEvents db))"

definition broker_event :: "outbox_row \<Rightarrow> BrokerEvent" where
  "broker_event e = \<lparr>b_eventType = eventType e, b_aggregateType = aggregateType e, b_aggregateId = aggregateId e, b_payload = ev_payload e\<rparr>"

definition mark_published :: "nat \<Rightarrow> rat \<Rightarrow> order_db \<Rightarrow> order_db" where
  "mark_published i now db = db\<lparr>outboxEvents := update_where (\<lambda>e. ev_id e = i) (\<lambda>e. e\<lparr>publishedAt := Some now\<rparr>) (outboxEvents db)\<rparr>"

type_synonym 'b publisher = "BrokerEvent \<Rightarrow> 'b \<Rightarrow> (string + unit) \<times> 'b"

fun drain_rows :: "'b publisher \<Rightarrow> rat \<Rightarrow> outbox_row list \<Rightarrow> order_db \<times> 'b \<Rightarrow> (nat list \<times> nat list) \<times> order_db \<times> 'b" where
  "drain_rows publish now [] w = (([], []), w)"
| "drain_rows publish now (e # es) (db, br) =
     (case publish (broker_event e) br of
        (Inr _, br1) \<Rightarrow>
          (let ((ps, fs), w) = drain_rows publish now es (mark_published (ev_id e) now db, br1) in ((ev_id e # ps, fs), w))
      | (Inl _, br1) \<Rightarrow> (let ((ps, fs), w) = drain_rows publish now es (db, br1) in ((ps, ev_id e # fs), w)))"

definition drainOutbox :: "nat \<Rightarrow> 'b publisher \<Rightarrow> rat \<Rightarrow> order_db \<times> 'b \<Rightarrow> DrainOutboxResult \<times> order_db \<times> 'b" where
  "drainOutbox limit publish now w =
     (let rows = take limit (unpublished (fst w)); ((ps, fs), w') = drain_rows publish now rows w in
      (\<lparr>attempted = length rows, publishedIds = ps, failedIds = fs\<rparr>, w'))"

section \<open>Draining\<close>

text \<open>What a publisher of a broker may do: accept, refuse, or accept and fail to say so.\<close>

definition honest :: "BrokerEvent list publisher \<Rightarrow> bool" where
  "honest publish \<longleftrightarrow> (\<forall>ev br. case publish ev br of
      (Inr _, br') \<Rightarrow> br' = br @ [ev] | (Inl _, br') \<Rightarrow> br' = br \<or> br' = br @ [ev])"

lemma honestD:
  "honest publish \<Longrightarrow> publish ev br = (r, br') \<Longrightarrow> br' = br @ [ev] \<or> (br' = br \<and> (\<exists>e. r = Inl e))"
  unfolding honest_def by (cases r) (fastforce split: prod.splits sum.splits)+

lemma broker_event_published [simp]: "broker_event (e\<lparr>publishedAt := t\<rparr>) = broker_event e"
  by (simp add: broker_event_def)

definition marked :: "nat list \<Rightarrow> rat \<Rightarrow> outbox_row list \<Rightarrow> outbox_row list" where
  "marked ps now es = map (\<lambda>e. if ev_id e \<in> set ps then e\<lparr>publishedAt := Some now\<rparr> else e) es"

lemma marked_Cons: "marked ps now (update_where (\<lambda>e. ev_id e = i) (\<lambda>e. e\<lparr>publishedAt := Some now\<rparr>) es) = marked (i # ps) now es"
  by (simp add: marked_def update_where_def)

lemma drain_rows_effect:
  "honest publish \<Longrightarrow> drain_rows publish now es (db, br) = ((ps, fs), (db', br')) \<Longrightarrow>
   \<exists>sent. br' = br @ map broker_event sent \<and> set sent \<subseteq> set es
     \<and> db' = db\<lparr>outboxEvents := marked ps now (outboxEvents db)\<rparr>
     \<and> set ps \<subseteq> ev_id ` set sent \<and> (\<forall>e \<in> set es. ev_id e \<in> set ps \<or> ev_id e \<in> set fs) \<and> length ps + length fs = length es"
proof (induction es arbitrary: db br ps fs)
  case Nil
  then show ?case by (auto simp: marked_def)
next
  case (Cons e es)
  obtain r br1 where p: "publish (broker_event e) br = (r, br1)" by fastforce
  show ?case
  proof (cases r)
    case (Inl x)
    obtain ps1 fs1 where d: "drain_rows publish now es (db, br1) = ((ps1, fs1), (db', br'))" "ps = ps1" "fs = ev_id e # fs1"
      using Cons.prems(2) p Inl by (auto split: prod.splits)
    obtain sent where s: "br' = br1 @ map broker_event sent" "set sent \<subseteq> set es" "db' = db\<lparr>outboxEvents := marked ps1 now (outboxEvents db)\<rparr>"
      "set ps1 \<subseteq> ev_id ` set sent" "\<forall>e \<in> set es. ev_id e \<in> set ps1 \<or> ev_id e \<in> set fs1" "length ps1 + length fs1 = length es"
      using Cons.IH [OF Cons.prems(1) d(1)] by auto
    from honestD [OF Cons.prems(1) p] show ?thesis
    proof
      assume "br1 = br @ [broker_event e]"
      then show ?thesis using s d(2,3) by (intro exI [of _ "e # sent"]) auto
    next
      assume "br1 = br \<and> (\<exists>e. r = Inl e)"
      then show ?thesis using s d(2,3) by (intro exI [of _ sent]) auto
    qed
  next
    case (Inr u)
    have b: "br1 = br @ [broker_event e]" using honestD [OF Cons.prems(1) p] Inr by auto
    obtain ps1 where d: "drain_rows publish now es (mark_published (ev_id e) now db, br1) = ((ps1, fs), (db', br'))" "ps = ev_id e # ps1"
      using Cons.prems(2) p Inr by (auto split: prod.splits)
    obtain sent where s: "br' = br1 @ map broker_event sent" "set sent \<subseteq> set es"
      "db' = (mark_published (ev_id e) now db)\<lparr>outboxEvents := marked ps1 now (outboxEvents (mark_published (ev_id e) now db))\<rparr>"
      "set ps1 \<subseteq> ev_id ` set sent" "\<forall>e \<in> set es. ev_id e \<in> set ps1 \<or> ev_id e \<in> set fs" "length ps1 + length fs = length es"
      using Cons.IH [OF Cons.prems(1) d(1)] by auto
    have "db' = db\<lparr>outboxEvents := marked ps now (outboxEvents db)\<rparr>"
      unfolding s(3) d(2) marked_Cons [symmetric] by (simp add: mark_published_def)
    then show ?thesis using s b d(2) by (intro exI [of _ "e # sent"]) auto
  qed
qed

lemma drain_rows_reliable:
  "drain_rows (publishToBroker never) now es (db, br) =
   ((map ev_id es, []), (db\<lparr>outboxEvents := marked (map ev_id es) now (outboxEvents db)\<rparr>, br @ map broker_event es))"
proof (induction es arbitrary: db br)
  case (Cons e es)
  have "(mark_published (ev_id e) now db)\<lparr>outboxEvents := marked (map ev_id es) now (outboxEvents (mark_published (ev_id e) now db))\<rparr>
      = db\<lparr>outboxEvents := marked (map ev_id (e # es)) now (outboxEvents db)\<rparr>"
    unfolding list.map marked_Cons [symmetric] by (simp add: mark_published_def)
  then show ?case using Cons by (simp add: publishToBroker_def)
qed (simp add: marked_def)

section \<open>The invariant of the outbox\<close>

text \<open>Every order has exactly one event, which describes it; numbers are used once; what is marked as published has been sent.\<close>

definition outbox_ok :: "order_db \<times> BrokerEvent list \<Rightarrow> bool" where
  "outbox_ok w \<longleftrightarrow> (case w of (db, br) \<Rightarrow>
     map aggregateId (outboxEvents db) = map ord_id (orders db)
     \<and> map ev_payload (outboxEvents db) = map (\<lambda>r. For_order (ord_id r) (amountCents r)) (orders db)
     \<and> distinct (map ord_id (orders db)) \<and> (\<forall>r \<in> set (orders db). ord_id r < next_order db)
     \<and> distinct (map ev_id (outboxEvents db)) \<and> (\<forall>e \<in> set (outboxEvents db). ev_id e < next_event db)
     \<and> (\<forall>e \<in> set (outboxEvents db). publishedAt e \<noteq> None \<longrightarrow> broker_event e \<in> set br)
     \<and> set br \<subseteq> broker_event ` set (outboxEvents db))"

datatype outbox_step = Create string int bool rat | Drain nat rat

fun outbox_op :: "BrokerEvent list publisher \<Rightarrow> outbox_step \<Rightarrow> order_db \<times> BrokerEvent list \<Rightarrow> order_db \<times> BrokerEvent list" where
  "outbox_op publish (Create name amount inject now) (db, br) = (snd (performTransactionalOrderCreation name amount inject now db), br)"
| "outbox_op publish (Drain limit now) w = snd (drainOutbox limit publish now w)"

lemma creation_cases:
  obtains (committed) i j where "i = next_order db" "j = next_event db"
      "performTransactionalOrderCreation name amount inject now db = (Outbox_committed i j,
        db\<lparr>next_order := i + 1, next_event := j + 1, orders := orders db @ [\<lparr>ord_id = i, customerName = name, amountCents = amount\<rparr>],
          outboxEvents := outboxEvents db @ [\<lparr>ev_id = j, aggregateType = ''order'', aggregateId = i, eventType = ''OrderCreated'',
            ev_payload = For_order i amount, createdAt = now, publishedAt = None\<rparr>]\<rparr>)"
      "\<not> inject" "0 < amount" "amount < 2 ^ 31"
  | (rolled_back) e no ne where "performTransactionalOrderCreation name amount inject now db = (Outbox_rolled_back e, db\<lparr>next_order := no, next_event := ne\<rparr>)"
      "next_order db \<le> no" "next_event db \<le> ne" "inject \<or> amount \<le> 0 \<or> 2 ^ 31 \<le> amount"
proof (cases "2 ^ 31 \<le> amount \<or> amount < - (2 ^ 31) \<or> amount \<le> 0")
  case True
  show ?thesis
  proof (cases "2 ^ 31 \<le> amount \<or> amount < - (2 ^ 31)")
    case big: True
    show ?thesis by (rule rolled_back [where e = "''22003''" and no = "next_order db" and ne = "next_event db"])
        (use big in \<open>auto simp: performTransactionalOrderCreation_def insert_order_def Let_def\<close>)
  next
    case False
    then have "amount \<le> 0" using True by simp
    show ?thesis by (rule rolled_back [where e = "''23514''" and no = "next_order db + 1" and ne = "next_event db"])
        (use False \<open>amount \<le> 0\<close> in \<open>auto simp: performTransactionalOrderCreation_def insert_order_def Let_def\<close>)
  qed
next
  case False
  then have io: "insert_order name amount db = (Inr (next_order db), db\<lparr>next_order := next_order db + 1,
      orders := orders db @ [\<lparr>ord_id = next_order db, customerName = name, amountCents = amount\<rparr>]\<rparr>)"
    by (simp add: insert_order_def Let_def)
  show ?thesis
  proof (cases inject)
    case True
    show ?thesis by (rule rolled_back [where e = "''23514''" and no = "next_order db + 1" and ne = "next_event db + 1"])
        (use io True in \<open>auto simp: performTransactionalOrderCreation_def insert_event_def Let_def\<close>)
  next
    case no_inject: False
    show ?thesis by (rule committed [OF refl refl])
        (use io False no_inject in \<open>auto simp: performTransactionalOrderCreation_def insert_event_def Let_def\<close>)
  qed
qed

lemma marked_fields [simp]:
  "map ev_id (marked ps now es) = map ev_id es" "map aggregateId (marked ps now es) = map aggregateId es"
  "map ev_payload (marked ps now es) = map ev_payload es" "broker_event ` set (marked ps now es) = broker_event ` set es"
proof -
  show "map ev_id (marked ps now es) = map ev_id es" "map aggregateId (marked ps now es) = map aggregateId es"
    "map ev_payload (marked ps now es) = map ev_payload es" by (simp_all add: marked_def)
  have "map broker_event (marked ps now es) = map broker_event es" by (simp add: marked_def)
  then show "broker_event ` set (marked ps now es) = broker_event ` set es" by (metis list.set_map)
qed

lemma outbox_op_ok:
  assumes ok: "outbox_ok (db, br)" and h: "honest publish"
  shows "outbox_ok (outbox_op publish x (db, br))"
proof (cases x)
  case (Create name amount inject now)
  show ?thesis
  proof (cases rule: creation_cases [of db name amount inject now])
    case (committed i j)
    then show ?thesis using ok Create by (auto simp: outbox_ok_def broker_event_def image_iff less_Suc_eq)
  next
    case (rolled_back e no ne)
    then show ?thesis using ok Create by (fastforce simp: outbox_ok_def)
  qed
next
  case (Drain limit now)
  let ?rows = "take limit (unpublished db)"
  obtain ps fs db' br' where d: "drain_rows publish now ?rows (db, br) = ((ps, fs), (db', br'))" by (metis prod.exhaust)
  then have op: "outbox_op publish x (db, br) = (db', br')" using Drain by (simp add: drainOutbox_def Let_def)
  obtain sent where s: "br' = br @ map broker_event sent" "set sent \<subseteq> set ?rows" "db' = db\<lparr>outboxEvents := marked ps now (outboxEvents db)\<rparr>"
    "set ps \<subseteq> ev_id ` set sent" using drain_rows_effect [OF h d] by auto
  have sub: "set sent \<subseteq> set (outboxEvents db)" 
    using s(2) set_take_subset [of limit "unpublished db"] by (auto simp: unpublished_def)
  have o: "distinct (map ev_id (outboxEvents db))" "\<forall>e \<in> set (outboxEvents db). publishedAt e \<noteq> None \<longrightarrow> broker_event e \<in> set br"
    "set br \<subseteq> broker_event ` set (outboxEvents db)" using ok by (simp_all add: outbox_ok_def)
  have "broker_event e \<in> set br'" if e: "e \<in> set (marked ps now (outboxEvents db))" "publishedAt e \<noteq> None" for e
  proof -
    obtain e0 where e0: "e0 \<in> set (outboxEvents db)" "e = (if ev_id e0 \<in> set ps then e0\<lparr>publishedAt := Some now\<rparr> else e0)"
      using e(1) by (auto simp: marked_def)
    show ?thesis
    proof (cases "ev_id e0 \<in> set ps")
      case True
      then obtain q where "q \<in> set sent" "ev_id q = ev_id e0" using s(4) by auto
      then have "q = e0" using distinct_map_unique [OF o(1)] sub e0(1) by blast
      then show ?thesis using \<open>q \<in> set sent\<close> e0(2) True s(1) by auto
    next
      case False
      then show ?thesis using e0 e(2) o(2) s(1) by auto
    qed
  qed
  moreover have "set br' \<subseteq> broker_event ` set (outboxEvents db)" using o(3) s(1) sub by auto
  moreover have "\<forall>e \<in> set (marked ps now (outboxEvents db)). ev_id e < next_event db"
    using ok by (auto simp: outbox_ok_def marked_def)
  ultimately show ?thesis unfolding op s(3) using ok by (simp add: outbox_ok_def)
qed

lemma outbox_ok_run: "honest publish \<Longrightarrow> outbox_ok w \<Longrightarrow> outbox_ok (fold (outbox_op publish) xs w)"
proof (induction xs arbitrary: w)
  case (Cons x xs)
  then show ?case using outbox_op_ok [of "fst w" "snd w" publish x] by simp
qed simp

lemma row_count_map: "row_count (\<lambda>x. f x = i) xs = count_list (map f xs) i"
  by (induction xs) (simp_all add: row_count_def)

lemma count_list_distinct: "distinct xs \<Longrightarrow> count_list xs x = (if x \<in> set xs then 1 else 0)"
  by (induction xs) auto

lemma events_per_order:
  assumes "outbox_ok (db, br)"
  shows "countOutboxEventsForOrder db i = (if i \<in> ord_id ` set (orders db) then 1 else 0)"
  using assms by (simp add: countOutboxEventsForOrder_def row_count_map outbox_ok_def count_list_distinct)

text \<open>A drain takes the oldest pending events, as many as its limit allows, and leaves the others pending.\<close>

lemma drain_reliable:
  assumes "outbox_ok (db, br)"
  shows "\<exists>db'. drainOutbox limit (publishToBroker never) now (db, br)
      = (\<lparr>attempted = min limit (length (unpublished db)), publishedIds = map ev_id (take limit (unpublished db)), failedIds = []\<rparr>,
         (db', br @ map broker_event (take limit (unpublished db))))
    \<and> unpublished db' = drop limit (unpublished db) \<and> orders db' = orders db"
proof -
  define pend where "pend = unpublished db"
  define ps where "ps = map ev_id (take limit pend)"
  let ?db = "db\<lparr>outboxEvents := marked ps now (outboxEvents db)\<rparr>"
  have "distinct (map ev_id (outboxEvents db))" using assms by (simp add: outbox_ok_def)
  then have "distinct (map ev_id (filter (\<lambda>e. publishedAt e = None) (outboxEvents db)))" by (rule distinct_map_filter)
  then have d: "distinct (map ev_id pend)" by (simp add: pend_def unpublished_def distinct_map)
  have "filter (\<lambda>e. publishedAt e = None) (marked ps now es) = filter (\<lambda>e. ev_id e \<notin> set ps) (filter (\<lambda>e. publishedAt e = None) es)" for es
    by (induction es) (auto simp: marked_def)
  then have "unpublished ?db = filter (\<lambda>e. ev_id e \<notin> set ps) pend" by (simp add: unpublished_def pend_def filter_sort)
  also have "\<dots> = drop limit pend"
  proof -
    have x: "distinct (map ev_id (take limit pend) @ map ev_id (drop limit pend))" using d by (simp flip: map_append)
    then have "filter (\<lambda>e. ev_id e \<notin> set ps) (take limit pend) = []" "filter (\<lambda>e. ev_id e \<notin> set ps) (drop limit pend) = drop limit pend"
      by (auto simp: ps_def filter_empty_conv filter_id_conv)
    then show ?thesis using filter_append [of "\<lambda>e. ev_id e \<notin> set ps" "take limit pend" "drop limit pend"] by simp
  qed
  finally have "unpublished ?db = drop limit pend" .
  then show ?thesis by (intro exI [of _ ?db]) (simp add: drainOutbox_def drain_rows_reliable Let_def ps_def pend_def min.commute)
qed

text \<open>The two dual writes on a database that was in order: an order nobody will hear of, and an event of no order.\<close>

lemma dual_writes_corrupt:
  assumes ok: "outbox_ok (db, br)" and a: "0 < amount" "amount < 2 ^ 31"
  shows "\<exists>db' e. performNaiveOrderThenBrokerPublish name amount (db, br)
        = (Inr \<lparr>nb_orderId = next_order db, brokerPublished = False, brokerError = Some e\<rparr>, (db', br))
      \<and> countOrdersByCustomerName db' name = countOrdersByCustomerName db name + 1
      \<and> countOutboxEventsForOrder db' (next_order db) = 0 \<and> \<not> outbox_ok (db', br)"
    and "\<exists>db'. performNaiveBrokerPublishThenOrder name amount (db, br) = (Inr (Order_failed ''23514''), (db',
          br @ [\<lparr>b_eventType = ''OrderCreated'', b_aggregateType = ''order'', b_aggregateId = 0, b_payload = For_customer name amount\<rparr>]))
      \<and> orders db' = orders db \<and> \<not> outbox_ok (db', br @
          [\<lparr>b_eventType = ''OrderCreated'', b_aggregateType = ''order'', b_aggregateId = 0, b_payload = For_customer name amount\<rparr>])"
proof -
  let ?db = "db\<lparr>next_order := next_order db + 1, orders := orders db @ [\<lparr>ord_id = next_order db, customerName = name, amountCents = amount\<rparr>]\<rparr>"
  have i: "insert_order name amount db = (Inr (next_order db), ?db)" using a by (simp add: insert_order_def Let_def)
  have m: "map aggregateId (outboxEvents db) = map ord_id (orders db)" "next_order db \<notin> ord_id ` set (orders db)"
    using ok by (auto simp: outbox_ok_def)
  have "countOutboxEventsForOrder ?db (next_order db) = 0"
    using events_per_order [OF ok, of "next_order db"] m(2) by (simp add: countOutboxEventsForOrder_def)
  moreover have "\<not> outbox_ok (?db, br)" using m(1) by (auto simp: outbox_ok_def dest: arg_cong [of _ _ length])
  ultimately show "\<exists>db' e. performNaiveOrderThenBrokerPublish name amount (db, br)
        = (Inr \<lparr>nb_orderId = next_order db, brokerPublished = False, brokerError = Some e\<rparr>, (db', br))
      \<and> countOrdersByCustomerName db' name = countOrdersByCustomerName db name + 1
      \<and> countOutboxEventsForOrder db' (next_order db) = 0 \<and> \<not> outbox_ok (db', br)"
    by (simp add: performNaiveOrderThenBrokerPublish_def i publishToBroker_def countOrdersByCustomerName_def row_count_def)
  let ?db = "db\<lparr>next_order := next_order db + 1\<rparr>" and ?p = "\<lparr>b_eventType = ''OrderCreated'', b_aggregateType = ''order'', b_aggregateId = 0, b_payload = For_customer name amount\<rparr>"
  have i: "insert_order name (- \<bar>amount\<bar>) db = (Inl ''23514'', ?db)" using a by (simp add: insert_order_def Let_def)
  have pl: "map ev_payload (outboxEvents db) = map (\<lambda>r. For_order (ord_id r) (amountCents r)) (orders db)" using ok by (simp add: outbox_ok_def)
  have "ev_payload e \<noteq> For_customer name amount" if "e \<in> set (outboxEvents db)" for e
  proof -
    have "ev_payload e \<in> set (map (\<lambda>r. For_order (ord_id r) (amountCents r)) (orders db))" unfolding pl [symmetric] using that by simp
    then show ?thesis by auto
  qed
  then have no: "\<forall>e \<in> set (outboxEvents db). b_payload (broker_event e) \<noteq> b_payload ?p" by (simp add: broker_event_def)
  have "?p \<notin> broker_event ` set (outboxEvents db)"
  proof
    assume "?p \<in> broker_event ` set (outboxEvents db)"
    then obtain e where "e \<in> set (outboxEvents db)" "?p = broker_event e" by blast
    then show False using no by metis
  qed
  then have "\<not> outbox_ok (?db, br @ [?p])" by (simp add: outbox_ok_def)
  then show "\<exists>db'. performNaiveBrokerPublishThenOrder name amount (db, br) = (Inr (Order_failed ''23514''), (db', br @ [?p]))
      \<and> orders db' = orders db \<and> \<not> outbox_ok (db', br @ [?p])"
    by (simp add: performNaiveBrokerPublishThenOrder_def i publishToBroker_def)
qed

section \<open>Properties\<close>

definition empty_outbox :: order_db where
  "empty_outbox = \<lparr>orders = [], outboxEvents = [], next_order = 1, next_event = 1\<rparr>"

text \<open>
  C33: the outbox records every order and publishes it at least once. After any sequence of order creations, with
  failures injected at will, and of drains through a broker that may accept, refuse, or accept without
  acknowledging: each order has exactly one event row and no event is without its order; every event marked as published
  is in the broker and the broker knows events of existing orders only. A drain through a broker that accepts
  publishes the oldest pending events, each once, up to its limit (100 unless asked otherwise), and leaves exactly the others
  pending: a drain whose limit reaches all of them is the last that finds any.\<close>

theorem outbox_publishes_every_order:
  assumes "honest publish" and "fold (outbox_op publish) xs (empty_outbox, []) = (db, br)"
  shows "(\<forall>i. countOutboxEventsForOrder db i = (if i \<in> ord_id ` set (orders db) then 1 else 0))
    \<and> (\<forall>e \<in> set (outboxEvents db). aggregateId e \<in> ord_id ` set (orders db) \<and> (publishedAt e \<noteq> None \<longrightarrow> broker_event e \<in> set br))
    \<and> (\<forall>b \<in> set br. b_aggregateId b \<in> ord_id ` set (orders db))
    \<and> (\<exists>db'. drainOutbox limit (publishToBroker never) now (db, br)
        = (\<lparr>attempted = min limit (length (unpublished db)), publishedIds = map ev_id (take limit (unpublished db)), failedIds = []\<rparr>,
           (db', br @ map broker_event (take limit (unpublished db))))
      \<and> unpublished db' = drop limit (unpublished db) \<and> orders db' = orders db)"
proof -
  have "outbox_ok (empty_outbox, [])" by (simp add: outbox_ok_def empty_outbox_def)
  then have ok: "outbox_ok (db, br)" using outbox_ok_run [OF assms(1)] assms(2) by metis
  have agg: "aggregateId e \<in> ord_id ` set (orders db)" if "e \<in> set (outboxEvents db)" for e
  proof -
    have m: "map aggregateId (outboxEvents db) = map ord_id (orders db)" using ok by (simp add: outbox_ok_def)
    have "aggregateId e \<in> set (map aggregateId (outboxEvents db))" using that by simp
    then show ?thesis unfolding m by simp
  qed
  have "b_aggregateId b \<in> ord_id ` set (orders db)" if "b \<in> set br" for b
  proof -
    have "b \<in> broker_event ` set (outboxEvents db)" using ok that by (auto simp: outbox_ok_def)
    then show ?thesis using agg by (auto simp: broker_event_def)
  qed
  moreover have "\<forall>e \<in> set (outboxEvents db). publishedAt e \<noteq> None \<longrightarrow> broker_event e \<in> set br" using ok by (simp add: outbox_ok_def)
  moreover note drain_reliable [OF ok, of limit now]
  ultimately show ?thesis using agg events_per_order [OF ok] by blast
qed

lemma outbox_publishes_every_order_witness:
  "\<exists>db br. fold (outbox_op (publishToBroker always)) [Create ''a'' 5 False 1, Create ''b'' 7 True 2, Drain 100 3] (empty_outbox, []) = (db, br)
     \<and> countOutboxEventsForOrder db 1 = (if 1 \<in> ord_id ` set (orders db) then 1 else 0)"
proof -
  have h: "honest (publishToBroker always)" by (simp add: honest_def publishToBroker_def)
  obtain db br where r: "fold (outbox_op (publishToBroker always)) [Create ''a'' 5 False 1, Create ''b'' 7 True 2, Drain 100 3] (empty_outbox, []) = (db, br)"
    by fastforce
  from outbox_publishes_every_order [OF h r] r show ?thesis by blast
qed

end
