(* ===== verification/Generators.thy ===== *)
theory Generators
  imports Prelude
begin

text \<open>
  The shared data generators, \<open>packages/data-generators/src\<close>: \<open>unique-email.ts\<close>, \<open>payroll.ts\<close>, \<open>ledger.ts\<close>,
  \<open>jobs.ts\<close>, \<open>outbox.ts\<close> and the customers and products of \<open>commerce.ts\<close>. The library they draw from, faker, is
  a parameter: a record of functions on the state of its generator, one per method the code calls. A choice from a list is
  a choice of positions.
\<close>

section \<open>The library\<close>

record 's faker =
  seeded :: "int \<Rightarrow> 's"
  firstName :: "'s \<Rightarrow> string \<times> 's"
  lastName :: "'s \<Rightarrow> string \<times> 's"
  personFullName :: "'s \<Rightarrow> string \<times> 's"
  internetEmail :: "(string \<times> string) option \<Rightarrow> 's \<Rightarrow> string \<times> 's"
  internetUrl :: "'s \<Rightarrow> string \<times> 's"
  uuid :: "'s \<Rightarrow> string \<times> 's"
  companyName :: "'s \<Rightarrow> string \<times> 's"
  productName :: "'s \<Rightarrow> string \<times> 's"
  city :: "'s \<Rightarrow> string \<times> 's"
  sentence :: "nat \<Rightarrow> 's \<Rightarrow> string \<times> 's"
  alphanumeric :: "nat \<Rightarrow> 's \<Rightarrow> string \<times> 's"
  int_between :: "int \<Rightarrow> int \<Rightarrow> 's \<Rightarrow> int \<times> 's"
  unit_float :: "'s \<Rightarrow> rat \<times> 's"
  element_of :: "nat \<Rightarrow> 's \<Rightarrow> nat \<times> 's"
  elements_of :: "nat \<Rightarrow> nat \<Rightarrow> 's \<Rightarrow> nat list \<times> 's"
  past_years :: "int \<Rightarrow> nat \<Rightarrow> 's \<Rightarrow> int \<times> 's"

text \<open>What the code relies on: a number lies in its bounds, a chosen element is one of the list, and chosen
  elements are different positions of it, as many as asked for while there are as many.\<close>

definition faker_ok :: "'s faker \<Rightarrow> bool" where
  "faker_ok f \<longleftrightarrow> (\<forall>a b s. a \<le> b \<longrightarrow> a \<le> fst (int_between f a b s) \<and> fst (int_between f a b s) \<le> b)
     \<and> (\<forall>n s. 0 < n \<longrightarrow> fst (element_of f n s) < n)
     \<and> (\<forall>n m s. set (fst (elements_of f n m s)) \<subseteq> {..<n} \<and> distinct (fst (elements_of f n m s))
          \<and> length (fst (elements_of f n m s)) = min n m)"

lemma faker_ok_D:
  assumes "faker_ok f"
  shows "a \<le> b \<Longrightarrow> int_between f a b s = (x, s') \<Longrightarrow> a \<le> x \<and> x \<le> b"
    and "0 < n \<Longrightarrow> element_of f n s = (i, s') \<Longrightarrow> i < n"
    and "elements_of f n m s = (is, s') \<Longrightarrow> set is \<subseteq> {..<n} \<and> distinct is \<and> length is = min n m"
  using assms unfolding faker_ok_def by (metis fst_conv)+

definition arrayElement :: "'s faker \<Rightarrow> 'a list \<Rightarrow> 's \<Rightarrow> 'a \<times> 's" where
  "arrayElement f xs s = (let (i, s') = element_of f (length xs) s in (xs ! i, s'))"

lemma arrayElement_in: "faker_ok f \<Longrightarrow> xs \<noteq> [] \<Longrightarrow> arrayElement f xs s = (x, s') \<Longrightarrow> x \<in> set xs"
  using faker_ok_D(2) [of f "length xs" s] by (auto simp: arrayElement_def split: prod.splits)

text \<open>\<open>Array.from\<close>, \<open>map\<close> and a loop that pushes: one element after the other, in one state.\<close>

fun draw_each :: "('x \<Rightarrow> 's \<Rightarrow> 'a \<times> 's) \<Rightarrow> 'x list \<Rightarrow> 's \<Rightarrow> 'a list \<times> 's" where
  "draw_each g [] s = ([], s)"
| "draw_each g (x # xs) s = (let (y, s') = g x s; (ys, s'') = draw_each g xs s' in (y # ys, s''))"

lemma draw_each_rule:
  assumes "draw_each g xs s = (ys, s')" and "I s"
    and "\<And>x s y s'. x \<in> set xs \<Longrightarrow> I s \<Longrightarrow> g x s = (y, s') \<Longrightarrow> I s' \<and> P x y"
  shows "I s' \<and> list_all2 P xs ys"
  using assms
proof (induction xs arbitrary: s ys)
  case (Cons x xs)
  obtain y t where g: "g x s = (y, t)" by fastforce
  obtain zs u where r: "draw_each g xs t = (zs, u)" by fastforce
  have "I t \<and> P x y" by (rule Cons.prems(3) [OF _ Cons.prems(2) g]) simp
  moreover have "u = s'" using Cons.prems(1) g r by simp
  moreover have "I s' \<and> list_all2 P xs zs" by (rule Cons.IH [OF r [unfolded \<open>u = s'\<close>]]) (use calculation Cons.prems(3) in auto)
  ultimately show ?case using Cons.prems(1) g r by auto
qed simp

lemma draw_each_all:
  assumes "draw_each g xs s = (ys, s')" and "\<And>x s y s'. x \<in> set xs \<Longrightarrow> g x s = (y, s') \<Longrightarrow> P x y"
  shows "list_all2 P xs ys"
  using draw_each_rule [OF assms(1), of "\<lambda>_. True" P] assms(2) by simp

lemma list_all2_right: "list_all2 (\<lambda>_. P) xs ys \<Longrightarrow> \<forall>y \<in> set ys. P y"
  by (induction xs ys rule: list_all2_induct) simp_all

lemma draw_each_append:
  "draw_each g (xs @ zs) s = (let (ys, s') = draw_each g xs s; (ws, s'') = draw_each g zs s' in (ys @ ws, s''))"
  by (induction xs arbitrary: s) (auto split: prod.splits)

lemma draw_each_map: "draw_each g (map h xs) s = draw_each (\<lambda>x. g (h x)) xs s"
  by (induction xs arbitrary: s) (auto split: prod.splits)

lemma draw_each_nested:
  "draw_each (\<lambda>c. draw_each (g c) xs) cs s = (yss, s') \<Longrightarrow>
   draw_each (\<lambda>p. g (fst p) (snd p)) (List.product cs xs) s = (concat yss, s')"
proof (induction cs arbitrary: s yss)
  case (Cons c cs)
  obtain ys t where c: "draw_each (g c) xs s = (ys, t)" by fastforce
  obtain zss u where r: "draw_each (\<lambda>c. draw_each (g c) xs) cs t = (zss, u)" by fastforce
  have "yss = ys # zss" "u = s'" using Cons.prems c r by simp_all
  then show ?case using Cons.IH [OF r [unfolded \<open>u = s'\<close>]] c
    by (simp add: draw_each_append draw_each_map)
qed simp

lemma draw_each_length: "draw_each g xs s = (ys, s') \<Longrightarrow> length ys = length xs"
  by (induction xs arbitrary: s ys) (auto split: prod.splits)

section \<open>Unique e-mail addresses\<close>

text \<open>\<open>toLowerCase\<close> of the characters an address has.\<close>

definition to_lower :: "char \<Rightarrow> char" where
  "to_lower c = (if 65 \<le> (of_char c :: nat) \<and> (of_char c :: nat) \<le> 90 then char_of ((of_char c :: nat) + 32) else c)"

text \<open>\<open>slice(0, at)\<close> and \<open>slice(at)\<close>, where \<open>at\<close> is -1 when there is no at sign: then the last character
  counts as the domain.\<close>

definition at_index :: "string \<Rightarrow> nat" where
  "at_index e = (if CHR ''@'' \<in> set e then length (takeWhile (\<lambda>c. c \<noteq> CHR ''@'') e) else length e - 1)"

definition email_candidate :: "string \<Rightarrow> nat \<Rightarrow> string" where
  "email_candidate e n = take (at_index e) e @ nat_str n @ drop (at_index e) e"

lemma email_candidate_inject [simp]: "email_candidate e m = email_candidate e n \<longleftrightarrow> m = n"
  by (simp add: email_candidate_def)

text \<open>The loop passes over one used address after the other; they are finitely many.\<close>

definition used_from :: "string \<Rightarrow> string list \<Rightarrow> nat \<Rightarrow> nat set" where
  "used_from e used n = {m. n \<le> m \<and> email_candidate e m \<in> set used}"

lemma finite_used_from [simp]: "finite (used_from e used n)"
proof -
  have "finite (email_candidate e -` set used)" by (rule finite_vimageI) (auto intro: injI)
  then show ?thesis by (rule rev_finite_subset) (auto simp: used_from_def)
qed

function next_suffix :: "string \<Rightarrow> string list \<Rightarrow> nat \<Rightarrow> nat" where
  "next_suffix e used n = (if email_candidate e n \<in> set used then next_suffix e used (n + 1) else n)"
  by pat_completeness auto
termination
proof (relation "measure (\<lambda>(e, used, n). card (used_from e used n))")
  fix e used n
  assume "email_candidate e n \<in> set used"
  then have "used_from e used n = insert n (used_from e used (n + 1))" "n \<notin> used_from e used (n + 1)"
    by (auto simp: used_from_def Suc_le_eq order.order_iff_strict)
  then show "((e, used, n + 1), e, used, n) \<in> measure (\<lambda>(e, used, n). card (used_from e used n))" by simp
qed simp

declare next_suffix.simps [simp del]

definition toUniqueEmail :: "string \<Rightarrow> string list \<Rightarrow> string \<times> string list" where
  "toUniqueEmail e used =
     (if e \<notin> set used then (e, e # used)
      else (let c = email_candidate e (next_suffix e used 2) in (c, c # used)))"

lemma next_suffix_least:
  "n \<le> next_suffix e used n \<and> email_candidate e (next_suffix e used n) \<notin> set used
   \<and> (\<forall>m. n \<le> m \<longrightarrow> m < next_suffix e used n \<longrightarrow> email_candidate e m \<in> set used)"
proof (induction e used n rule: next_suffix.induct)
  case (1 e used n)
  show ?case
  proof (cases "email_candidate e n \<in> set used")
    case True
    then have eq: "next_suffix e used n = next_suffix e used (n + 1)" by (subst next_suffix.simps) simp
    show ?thesis unfolding eq using 1 [OF True] True by (metis Suc_eq_plus1 le_antisym not_less_eq_eq Suc_leD)
  next
    case False
    then show ?thesis by (subst (1 2 3) next_suffix.simps) auto
  qed
qed

lemma toUniqueEmail_fresh:
  "toUniqueEmail e used = (x, used') \<Longrightarrow> x \<notin> set used \<and> used' = x # used"
  using next_suffix_least [of 2 e used] by (auto simp: toUniqueEmail_def Let_def split: if_splits)

text \<open>Whatever draws an address and passes it through \<open>toUniqueEmail\<close> issues different ones.\<close>

lemma draw_each_unique:
  assumes "draw_each g xs (s, used) = (ys, (s', used'))" and "distinct used"
    and "\<And>x s u y s' u'. g x (s, u) = (y, (s', u')) \<Longrightarrow> m y \<notin> set u \<and> u' = m y # u"
  shows "distinct (map m ys) \<and> used' = rev (map m ys) @ used \<and> distinct used'"
  using assms(1,2)
proof (induction xs arbitrary: s used ys)
  case (Cons x xs)
  obtain y t u where g: "g x (s, used) = (y, (t, u))" by (metis prod.exhaust)
  obtain zs w where r: "draw_each g xs (t, u) = (zs, w)" by (metis prod.exhaust)
  have ys: "ys = y # zs" "w = (s', used')" using Cons.prems(1) g r by simp_all
  note u = assms(3) [OF g]
  then have "distinct u" using Cons.prems(2) by simp
  from Cons.IH [OF r [unfolded ys(2)] this] u ys(1) show ?case by (auto simp: disjoint_iff)
qed simp

section \<open>Payroll\<close>

record GeneratedCompany =
  company_publicId :: string
  company_name :: string
  company_country :: string
  company_currency :: string

datatype EmploymentStatus = active | terminated

record GeneratedEmployee =
  employee_publicId :: string
  companyIndex :: nat
  employee_name :: string
  employee_email :: string
  employee_role :: string
  annualSalaryCents :: int
  employee_currency :: string
  employmentStatus :: EmploymentStatus

definition ROLE_SALARY_BAND_USD :: "(string \<times> int \<times> int) list" where
  "ROLE_SALARY_BAND_USD =
     [(''engineer'', 90000, 190000), (''manager'', 110000, 220000), (''designer'', 80000, 160000),
      (''recruiter'', 70000, 130000), (''sales'', 75000, 150000)]"

definition COUNTRY_CURRENCY :: "(string \<times> string) list" where
  "COUNTRY_CURRENCY =
     [(''United States'', ''USD''), (''Canada'', ''CAD''), (''Germany'', ''EUR''), (''France'', ''EUR''),
      (''United Kingdom'', ''GBP'')]"

definition generate_company :: "'s faker \<Rightarrow> 's \<Rightarrow> GeneratedCompany \<times> 's" where
  "generate_company f s =
     (let (c, s) = arrayElement f (map fst COUNTRY_CURRENCY) s;
          (u, s) = uuid f s;
          (n, s) = companyName f s in
      (\<lparr>company_publicId = u, company_name = n, company_country = c,
        company_currency = the (map_of COUNTRY_CURRENCY c)\<rparr>, s))"

definition generateCompanies :: "'s faker \<Rightarrow> nat \<Rightarrow> int \<Rightarrow> GeneratedCompany list" where
  "generateCompanies f n seed = fst (draw_each (\<lambda>_. generate_company f) [0..<n] (seeded f seed))"

text \<open>The state of a generator of people: that of faker, and the addresses issued so far.\<close>

definition draw_person :: "'s faker \<Rightarrow> 's \<Rightarrow> (string \<times> string \<times> string) \<times> 's" where
  "draw_person f s =
     (let (first, s) = firstName f s;
          (last, s) = lastName f s;
          (e, s) = internetEmail f (Some (first, last)) s in
      ((first, last, map to_lower e), s))"

definition generate_employee ::
  "'s faker \<Rightarrow> nat \<times> GeneratedCompany \<Rightarrow> nat \<Rightarrow> 's \<times> string list \<Rightarrow> GeneratedEmployee \<times> 's \<times> string list" where
  "generate_employee f company i st =
     (let (s, used) = st;
          (role, lo, hi) = fst (arrayElement f ROLE_SALARY_BAND_USD s);
          s = snd (arrayElement f ROLE_SALARY_BAND_USD s);
          ((first, last, base), s) = draw_person f s;
          (u, s) = uuid f s;
          (mail, used) = toUniqueEmail base used;
          (salary, s) = int_between f lo hi s in
      (\<lparr>employee_publicId = u, companyIndex = fst company, employee_name = first @ '' '' @ last,
        employee_email = mail, employee_role = role, annualSalaryCents = salary * 100,
        employee_currency = company_currency (snd company),
        employmentStatus = (if i mod 7 = 6 then terminated else active)\<rparr>, (s, used)))"

definition generateEmployees :: "'s faker \<Rightarrow> GeneratedCompany list \<Rightarrow> nat \<Rightarrow> int \<Rightarrow> GeneratedEmployee list" where
  "generateEmployees f companies per seed =
     concat (fst (draw_each (\<lambda>c. draw_each (generate_employee f c) [0..<per])
       (enumerate 0 companies) (seeded f (seed + 1), [])))"

lemma generate_employee_mail:
  "generate_employee f c i (s, used) = (e, (s', used')) \<Longrightarrow>
   employee_email e \<notin> set used \<and> used' = employee_email e # used"
  by (auto simp: generate_employee_def Let_def split: prod.splits dest: toUniqueEmail_fresh)

definition employee_fits :: "nat \<times> GeneratedCompany \<Rightarrow> nat \<Rightarrow> GeneratedEmployee \<Rightarrow> bool" where
  "employee_fits c i e \<longleftrightarrow> companyIndex e = fst c \<and> employee_currency e = company_currency (snd c)
     \<and> (\<exists>lo hi. (employee_role e, lo, hi) \<in> set ROLE_SALARY_BAND_USD
          \<and> lo * 100 \<le> annualSalaryCents e \<and> annualSalaryCents e \<le> hi * 100)
     \<and> (employmentStatus e = terminated \<longleftrightarrow> i mod 7 = 6)"

lemma generate_employee_fits:
  assumes "faker_ok f" and "generate_employee f c i st = (e, st')"
  shows "employee_fits c i e"
proof -
  obtain s used where st: "st = (s, used)" by fastforce
  obtain role lo hi t where a: "arrayElement f ROLE_SALARY_BAND_USD s = ((role, lo, hi), t)" by (metis prod.exhaust)
  have "(role, lo, hi) \<in> set ROLE_SALARY_BAND_USD"
    by (rule arrayElement_in [OF assms(1) _ a]) (simp add: ROLE_SALARY_BAND_USD_def)
  moreover from this have "lo \<le> hi" by (auto simp: ROLE_SALARY_BAND_USD_def)
  obtain first last base t1 where p: "draw_person f t = ((first, last, base), t1)" by (metis prod.exhaust)
  obtain u t2 where u: "uuid f t1 = (u, t2)" by fastforce
  obtain mail used1 where m: "toUniqueEmail base used = (mail, used1)" by fastforce
  obtain salary t3 where i: "int_between f lo hi t2 = (salary, t3)" by fastforce
  have "lo \<le> salary \<and> salary \<le> hi" by (rule faker_ok_D(1) [OF assms(1) \<open>lo \<le> hi\<close> i])
  moreover have e: "e = \<lparr>employee_publicId = u, companyIndex = fst c, employee_name = first @ '' '' @ last,
        employee_email = mail, employee_role = role, annualSalaryCents = salary * 100,
        employee_currency = company_currency (snd c), employmentStatus = (if i mod 7 = 6 then terminated else active)\<rparr>"
    using assms(2) by (simp add: st generate_employee_def a p u m i)
  ultimately show ?thesis unfolding e employee_fits_def by simp blast
qed

text \<open>The employees, by company and position: coherent with their company, and with different addresses.\<close>

lemma employees_coherent:
  assumes "faker_ok f"
  shows "list_all2 (\<lambda>(c, i). employee_fits c i) (List.product (enumerate 0 companies) [0..<per]) (generateEmployees f companies per seed)
    \<and> distinct (map employee_email (generateEmployees f companies per seed))"
proof -
  obtain yss s' used' where d: "draw_each (\<lambda>c. draw_each (generate_employee f c) [0..<per]) (enumerate 0 companies) (seeded f (seed + 1), []) = (yss, (s', used'))"
    by (metis prod.exhaust)
  note n = draw_each_nested [OF d]
  have "distinct (map employee_email (concat yss))"
    using draw_each_unique [OF n, of employee_email] generate_employee_mail by fastforce
  moreover have "list_all2 (\<lambda>p e. employee_fits (fst p) (snd p) e) (List.product (enumerate 0 companies) [0..<per]) (concat yss)"
    by (rule draw_each_all [OF n]) (rule generate_employee_fits [OF assms])
  ultimately show ?thesis by (simp add: generateEmployees_def d case_prod_beta')
qed

lemma companies_coherent:
  assumes "faker_ok f" and "c \<in> set (generateCompanies f n seed)"
  shows "(company_country c, company_currency c) \<in> set COUNTRY_CURRENCY"
proof -
  obtain ys s' where d: "draw_each (\<lambda>_. generate_company f) [0..<n] (seeded f seed) = (ys, s')" by fastforce
  have "list_all2 (\<lambda>_ c. (company_country c, company_currency c) \<in> set COUNTRY_CURRENCY) [0..<n] ys"
  proof (rule draw_each_all [OF d])
    fix s c s'
    assume g: "generate_company f s = (c, s')"
    obtain x t where x: "arrayElement f (map fst COUNTRY_CURRENCY) s = (x, t)" by fastforce
    have "x \<in> set (map fst COUNTRY_CURRENCY)"
      by (rule arrayElement_in [OF assms(1) _ x]) (simp add: COUNTRY_CURRENCY_def)
    then have "map_of COUNTRY_CURRENCY x \<noteq> None" by (simp add: map_of_eq_None_iff)
    then obtain y where "map_of COUNTRY_CURRENCY x = Some y" by blast
    moreover have "company_country c = x" "company_currency c = the (map_of COUNTRY_CURRENCY x)"
      using g x by (auto simp: generate_company_def split: prod.splits)
    ultimately show "(company_country c, company_currency c) \<in> set COUNTRY_CURRENCY" by (simp add: map_of_SomeD)
  qed
  then show ?thesis using assms(2) d by (auto simp: generateCompanies_def dest: list_all2_right)
qed

section \<open>Customers and products\<close>

record GeneratedCustomer =
  customer_publicId :: string
  customer_name :: string
  customer_email :: string
  customer_country :: string

record GeneratedProduct =
  product_publicId :: string
  sku :: string
  product_name :: string
  product_category :: string
  unitPriceCents :: int

definition COUNTRIES :: "string list" where
  "COUNTRIES = [''United States'', ''Canada'', ''Germany'', ''France'', ''United Kingdom'']"

definition CATEGORY_PRICE_BAND_CENTS :: "(string \<times> int \<times> int) list" where
  "CATEGORY_PRICE_BAND_CENTS =
     [(''electronics'', 2000, 120000), (''home'', 800, 25000), (''apparel'', 1200, 15000), (''books'', 500, 6000),
      (''sporting_goods'', 1000, 40000), (''grocery'', 200, 3500)]"

definition generate_customer :: "'s faker \<Rightarrow> 's \<times> string list \<Rightarrow> GeneratedCustomer \<times> 's \<times> string list" where
  "generate_customer f st =
     (let (s, used) = st;
          ((first, last, base), s) = draw_person f s;
          (u, s) = uuid f s;
          (mail, used) = toUniqueEmail base used;
          (country, s) = arrayElement f COUNTRIES s in
      (\<lparr>customer_publicId = u, customer_name = first @ '' '' @ last, customer_email = mail, customer_country = country\<rparr>,
       (s, used)))"

definition generateCustomers :: "'s faker \<Rightarrow> nat \<Rightarrow> int \<Rightarrow> GeneratedCustomer list" where
  "generateCustomers f n seed = fst (draw_each (\<lambda>_. generate_customer f) [0..<n] (seeded f seed, []))"

definition padStart :: "nat \<Rightarrow> string \<Rightarrow> string" where
  "padStart n s = replicate (n - length s) CHR ''0'' @ s"

definition generate_product :: "'s faker \<Rightarrow> nat \<Rightarrow> 's \<Rightarrow> GeneratedProduct \<times> 's" where
  "generate_product f i s =
     (let (category, lo, hi) = fst (arrayElement f CATEGORY_PRICE_BAND_CENTS s);
          s = snd (arrayElement f CATEGORY_PRICE_BAND_CENTS s);
          (u, s) = uuid f s;
          (n, s) = productName f s;
          (price, s) = int_between f lo hi s in
      (\<lparr>product_publicId = u, sku = ''SKU-'' @ padStart 6 (nat_str (i + 1)), product_name = n,
        product_category = category, unitPriceCents = price\<rparr>, s))"

definition generateProducts :: "'s faker \<Rightarrow> nat \<Rightarrow> int \<Rightarrow> GeneratedProduct list" where
  "generateProducts f n seed = fst (draw_each (generate_product f) [0..<n] (seeded f (seed + 1)))"

lemma customers_distinct_emails: "distinct (map customer_email (generateCustomers f n seed))"
proof -
  obtain ys s' used' where d: "draw_each (\<lambda>_. generate_customer f) [0..<n] (seeded f seed, []) = (ys, (s', used'))"
    by (metis prod.exhaust)
  have "customer_email y \<notin> set u \<and> u' = customer_email y # u" if "generate_customer f (s, u) = (y, (t, u'))" for s u y t u'
    using that by (auto simp: generate_customer_def Let_def split: prod.splits dest: toUniqueEmail_fresh)
  then show ?thesis using draw_each_unique [OF d, of customer_email] by (simp add: generateCustomers_def d)
qed

definition product_fits :: "nat \<Rightarrow> GeneratedProduct \<Rightarrow> bool" where
  "product_fits i p \<longleftrightarrow> sku p = ''SKU-'' @ padStart 6 (nat_str (i + 1))
     \<and> (\<exists>lo hi. (product_category p, lo, hi) \<in> set CATEGORY_PRICE_BAND_CENTS \<and> lo \<le> unitPriceCents p \<and> unitPriceCents p \<le> hi)"

lemma generate_product_fits:
  assumes "faker_ok f" and "generate_product f i s = (p, s')"
  shows "product_fits i p"
proof -
  obtain category lo hi t where a: "arrayElement f CATEGORY_PRICE_BAND_CENTS s = ((category, lo, hi), t)" by (metis prod.exhaust)
  have "(category, lo, hi) \<in> set CATEGORY_PRICE_BAND_CENTS"
    by (rule arrayElement_in [OF assms(1) _ a]) (simp add: CATEGORY_PRICE_BAND_CENTS_def)
  moreover from this have "lo \<le> hi" by (auto simp: CATEGORY_PRICE_BAND_CENTS_def)
  obtain u t1 where u: "uuid f t = (u, t1)" by fastforce
  obtain n t2 where n: "productName f t1 = (n, t2)" by fastforce
  obtain price t3 where i: "int_between f lo hi t2 = (price, t3)" by fastforce
  have "lo \<le> price \<and> price \<le> hi" by (rule faker_ok_D(1) [OF assms(1) \<open>lo \<le> hi\<close> i])
  moreover have e: "p = \<lparr>product_publicId = u, sku = ''SKU-'' @ padStart 6 (nat_str (i + 1)), product_name = n,
        product_category = category, unitPriceCents = price\<rparr>"
    using assms(2) by (simp add: generate_product_def a u n i)
  ultimately show ?thesis unfolding e product_fits_def by simp blast
qed

text \<open>The stock keeping units are different: the number can be read back.\<close>

lemma val_of_padStart: "val_of (padStart n s) = val_of s"
proof -
  have "foldl (\<lambda>v c. 10 * v + (of_char c - 48)) 0 (replicate k CHR ''0'' @ s) = foldl (\<lambda>v c. 10 * v + (of_char c - 48)) (0 :: nat) s" for k
    by (induction k) simp_all
  then show ?thesis by (simp add: padStart_def)
qed

lemma products_coherent:
  assumes "faker_ok f"
  shows "list_all2 product_fits [0..<n] (generateProducts f n seed)" and "distinct (map sku (generateProducts f n seed))"
proof -
  show a: "list_all2 product_fits [0..<n] (generateProducts f n seed)"
    unfolding generateProducts_def
    by (rule draw_each_all [OF prod.collapse [symmetric]]) (rule generate_product_fits [OF assms])
  have "padStart 6 (nat_str (i + 1)) = padStart 6 (nat_str (j + 1)) \<Longrightarrow> i = j" for i j
    by (metis val_of_padStart val_of_nat_str add_right_cancel)
  then show "distinct (map sku (generateProducts f n seed))"
    using a by (auto simp: list_all2_conv_all_nth product_fits_def distinct_conv_nth)
qed

section \<open>Accounts, jobs and outbox events\<close>

record GeneratedAccount =
  account_publicId :: string
  ownerName :: string
  opening_balance :: int
  account_currency :: string

definition MIN_OPENING_BALANCE_CENTS :: int where "MIN_OPENING_BALANCE_CENTS = 10000"
definition MAX_OPENING_BALANCE_CENTS :: int where "MAX_OPENING_BALANCE_CENTS = 5000000"

definition generateAccounts :: "'s faker \<Rightarrow> nat \<Rightarrow> int \<Rightarrow> string option \<Rightarrow> GeneratedAccount list" where
  "generateAccounts f n seed currency = fst (draw_each (\<lambda>_ s.
     (let (u, s) = uuid f s;
          (name, s) = personFullName f s;
          (balance, s) = int_between f MIN_OPENING_BALANCE_CENTS MAX_OPENING_BALANCE_CENTS s in
      (\<lparr>account_publicId = u, ownerName = name, opening_balance = balance,
        account_currency = (case currency of None \<Rightarrow> ''USD'' | Some c \<Rightarrow> c)\<rparr>, s))) [0..<n] (seeded f (seed + 3)))"

lemma accounts_start_in_range:
  assumes "faker_ok f" and "a \<in> set (generateAccounts f n seed currency)"
  shows "10000 \<le> opening_balance a \<and> opening_balance a \<le> 5000000"
proof -
  have "list_all2 (\<lambda>_ a. 10000 \<le> opening_balance a \<and> opening_balance a \<le> 5000000) [0..<n] (generateAccounts f n seed currency)"
    unfolding generateAccounts_def
    by (rule draw_each_all [OF prod.collapse [symmetric]])
      (auto simp: MIN_OPENING_BALANCE_CENTS_def MAX_OPENING_BALANCE_CENTS_def split: prod.splits
        dest!: faker_ok_D(1) [OF assms(1), rotated])
  then show ?thesis using assms(2) by (blast dest: list_all2_right)
qed

text \<open>Payloads are JSON objects: their properties in order.\<close>

datatype json_value = JString string | JNumber int | JBool bool

type_synonym json_object = "(string \<times> json_value) list"

definition draw_string :: "string \<Rightarrow> ('s \<Rightarrow> string \<times> 's) \<Rightarrow> 's \<Rightarrow> (string \<times> json_value) \<times> 's" where
  "draw_string k g s = (let (x, s) = g s in ((k, JString x), s))"

definition draw_number :: "string \<Rightarrow> ('s \<Rightarrow> int \<times> 's) \<Rightarrow> 's \<Rightarrow> (string \<times> json_value) \<times> 's" where
  "draw_number k g s = (let (x, s) = g s in ((k, JNumber x), s))"

definition draw_object :: "('s \<Rightarrow> (string \<times> json_value) \<times> 's) list \<Rightarrow> 's \<Rightarrow> json_object \<times> 's" where
  "draw_object gs s = draw_each (\<lambda>g. g) gs s"

definition upper :: "('s \<Rightarrow> string \<times> 's) \<Rightarrow> 's \<Rightarrow> string \<times> 's" where
  "upper g s = (let (x, s) = g s in
     (map (\<lambda>c. if 97 \<le> (of_char c :: nat) \<and> (of_char c :: nat) \<le> 122 then char_of ((of_char c :: nat) - 32) else c) x, s))"

datatype JobType = send_email | generate_report | resize_image | process_payment | sync_inventory

definition JOB_TYPES :: "JobType list" where
  "JOB_TYPES = [send_email, generate_report, resize_image, process_payment, sync_inventory]"

fun job_draws :: "'s faker \<Rightarrow> JobType \<Rightarrow> ('s \<Rightarrow> (string \<times> json_value) \<times> 's) list" where
  "job_draws f send_email = [draw_string ''to'' (internetEmail f None), draw_string ''subject'' (sentence f 4)]"
| "job_draws f generate_report =
     [draw_string ''reportId'' (uuid f), draw_string ''format'' (arrayElement f [''pdf'', ''csv''])]"
| "job_draws f resize_image =
     [draw_string ''imageUrl'' (internetUrl f), draw_number ''width'' (arrayElement f [256, 512, 1024]),
      draw_number ''height'' (arrayElement f [256, 512, 1024])]"
| "job_draws f process_payment =
     [draw_string ''orderId'' (uuid f), draw_number ''amountCents'' (int_between f 500 50000)]"
| "job_draws f sync_inventory =
     [draw_string ''sku'' (upper (alphanumeric f 8)), draw_number ''delta'' (int_between f (- 20) 20)]"

definition build_job_payload :: "'s faker \<Rightarrow> JobType \<Rightarrow> bool \<Rightarrow> 's \<Rightarrow> json_object \<times> 's" where
  "build_job_payload f t shouldFail s =
     (let (fields, s) = draw_object (job_draws f t) s in
      ((if shouldFail then [(''shouldFail'', JBool True)] else []) @ fields, s))"

record GeneratedJob =
  jobType :: JobType
  job_payload :: json_object

definition generate_job :: "'s faker \<Rightarrow> rat \<Rightarrow> 's \<Rightarrow> GeneratedJob \<times> 's" where
  "generate_job f failureRate s =
     (let (t, s) = arrayElement f JOB_TYPES s;
          (x, s) = unit_float f s;
          (p, s) = build_job_payload f t (x < failureRate) s in
      (\<lparr>jobType = t, job_payload = p\<rparr>, s))"

definition generateJobs :: "'s faker \<Rightarrow> nat \<Rightarrow> int \<Rightarrow> rat \<Rightarrow> GeneratedJob list" where
  "generateJobs f n seed failureRate = fst (draw_each (\<lambda>_. generate_job f failureRate) [0..<n] (seeded f (seed + 4)))"

datatype OutboxEventType = OrderCreated | PaymentCaptured | OrderShipped | InventoryAdjusted | RefundIssued

definition EVENT_TYPES :: "OutboxEventType list" where
  "EVENT_TYPES = [OrderCreated, PaymentCaptured, OrderShipped, InventoryAdjusted, RefundIssued]"

fun event_draws :: "'s faker \<Rightarrow> OutboxEventType \<Rightarrow> ('s \<Rightarrow> (string \<times> json_value) \<times> 's) list" where
  "event_draws f OrderCreated =
     [draw_string ''orderId'' (uuid f), draw_string ''customerEmail'' (internetEmail f None),
      draw_number ''totalCents'' (int_between f 500 50000)]"
| "event_draws f PaymentCaptured =
     [draw_string ''orderId'' (uuid f), draw_number ''amountCents'' (int_between f 500 50000),
      draw_string ''provider'' (arrayElement f [''stripe'', ''adyen''])]"
| "event_draws f OrderShipped =
     [draw_string ''orderId'' (uuid f), draw_string ''carrier'' (arrayElement f [''ups'', ''fedex'', ''usps'']),
      draw_string ''trackingNumber'' (upper (alphanumeric f 12))]"
| "event_draws f InventoryAdjusted =
     [draw_string ''sku'' (upper (alphanumeric f 8)), draw_number ''delta'' (int_between f (- 20) 20)]"
| "event_draws f RefundIssued =
     [draw_string ''orderId'' (uuid f), draw_number ''amountCents'' (int_between f 100 20000),
      draw_string ''reason'' (arrayElement f [''customer_request'', ''damaged'', ''duplicate_charge''])]"

record GeneratedOutboxEvent =
  event_publicId :: string
  eventType :: OutboxEventType
  event_payload :: json_object

definition generate_event :: "'s faker \<Rightarrow> 's \<Rightarrow> GeneratedOutboxEvent \<times> 's" where
  "generate_event f s =
     (let (t, s) = arrayElement f EVENT_TYPES s;
          (u, s) = uuid f s;
          (p, s) = draw_object (event_draws f t) s in
      (\<lparr>event_publicId = u, eventType = t, event_payload = p\<rparr>, s))"

definition generateOutboxEvents :: "'s faker \<Rightarrow> nat \<Rightarrow> int \<Rightarrow> GeneratedOutboxEvent list" where
  "generateOutboxEvents f n seed = fst (draw_each (\<lambda>_. generate_event f) [0..<n] (seeded f (seed + 7)))"

text \<open>A payload has the properties of its type, in the order of the code; a failing job has \<open>shouldFail\<close> before them.\<close>

fun job_keys :: "JobType \<Rightarrow> string list" where
  "job_keys send_email = [''to'', ''subject'']"
| "job_keys generate_report = [''reportId'', ''format'']"
| "job_keys resize_image = [''imageUrl'', ''width'', ''height'']"
| "job_keys process_payment = [''orderId'', ''amountCents'']"
| "job_keys sync_inventory = [''sku'', ''delta'']"

lemma draw_key [simp]: "fst (fst (draw_string k g s)) = k" "fst (fst (draw_number k h s)) = k"
  by (simp_all add: draw_string_def draw_number_def split_beta)

lemma job_payload_keys: "map fst (fst (draw_object (job_draws f t) s)) = job_keys t"
  by (cases t) (simp_all add: draw_object_def split_beta Let_def)

lemma payload_fails:
  assumes "build_job_payload f t b s = (p, s')"
  shows "map fst p = (if b then [''shouldFail''] else []) @ job_keys t"
    and "(''shouldFail'', JBool True) \<in> set p \<longleftrightarrow> b"
proof -
  have p: "p = (if b then [(''shouldFail'', JBool True)] else []) @ fst (draw_object (job_draws f t) s)"
    using assms by (auto simp: build_job_payload_def split: prod.splits)
  then show "map fst p = (if b then [''shouldFail''] else []) @ job_keys t" using job_payload_keys [of f t s] by simp
  have "''shouldFail'' \<notin> set (job_keys t)" by (cases t) simp_all
  then have "''shouldFail'' \<notin> fst ` set (fst (draw_object (job_draws f t) s))"
    using job_payload_keys [of f t s] by (metis list.set_map)
  then show "(''shouldFail'', JBool True) \<in> set p \<longleftrightarrow> b" unfolding p by (force simp: image_iff)
qed

end
