(* ===== verification/Transfers.thy ===== *)
theory Transfers
  imports Sql_Table Generators
begin

text \<open>
  Transfers between accounts, Lab 05, \<open>labs/05-*/src/scenarios\<close>: the naive one, whose statements commit one by one, and
  the one in a transaction, over the tables \<open>accounts\<close> and \<open>transfers\<close> with their constraints (\<open>db/schema.ts\<close>).
  The identity column counts on when a statement fails or its transaction is rolled back.
\<close>

section \<open>The tables\<close>

record account_row =
  acc_id :: nat
  owner_name :: string
  balance_cents :: int
  currency :: string

datatype transfer_status = pending | completed | failed

datatype mechanism = naive | transactional

record transfer_row =
  tr_id :: nat
  from_account_id :: nat
  to_account_id :: nat
  amount_cents :: int
  tr_mechanism :: mechanism
  tr_status :: transfer_status
  failure_reason :: "string option"
  completed_at :: "rat option"

record ledger =
  accounts :: "account_row list"
  transfers :: "transfer_row list"
  transfers_id_seq :: nat

definition getTotalBalanceCents :: "ledger \<Rightarrow> int" where
  "getTotalBalanceCents b = sum_list (map balance_cents (accounts b))"

definition getAccountBalanceCents :: "nat \<Rightarrow> ledger \<Rightarrow> string + int" where
  "getAccountBalanceCents k b =
     (case row_with (\<lambda>r. acc_id r = k) (accounts b) of
        None \<Rightarrow> Inl (''Account '' @ nat_str k @ '' does not exist'')
      | Some r \<Rightarrow> Inr (balance_cents r))"

section \<open>The statements\<close>

text \<open>A statement returns the message of the error it raises, or its value.\<close>

type_synonym 'a statement = "ledger \<Rightarrow> (string + 'a) \<times> ledger"

definition in_integer :: "int \<Rightarrow> bool" where
  "in_integer i \<longleftrightarrow> - (2 ^ 31) \<le> i \<and> i < 2 ^ 31"

definition quoted :: "string \<Rightarrow> string" where
  "quoted s = [CHR 0x22] @ s @ [CHR 0x22]"

definition not_an_integer :: "int \<Rightarrow> string" where
  "not_an_integer i = ''value '' @ quoted (int_str i) @ '' is out of range for type integer''"

definition check_violation :: "string \<Rightarrow> string \<Rightarrow> string" where
  "check_violation t c = ''new row for relation '' @ quoted t @ '' violates check constraint '' @ quoted c"

definition foreign_key_violation :: "string \<Rightarrow> string" where
  "foreign_key_violation c = ''insert or update on table '' @ quoted ''transfers'' @ '' violates foreign key constraint '' @ quoted c"

record transfer_options =
  fromAccountId :: nat
  toAccountId :: nat
  amountCents :: int
  injectFailureAfterDebit :: bool

text \<open>The constraints of a transfer row, in the order PostgreSQL checks them.\<close>

definition transfer_error :: "transfer_options \<Rightarrow> ledger \<Rightarrow> string option" where
  "transfer_error opts b =
     (if fromAccountId opts = toAccountId opts then Some (check_violation ''transfers'' ''transfers_accounts_distinct'')
      else if amountCents opts \<le> 0 then Some (check_violation ''transfers'' ''transfers_amount_cents_positive'')
      else if fromAccountId opts \<notin> acc_id ` set (accounts b) then Some (foreign_key_violation ''transfers_from_account_id_accounts_id_fk'')
      else if toAccountId opts \<notin> acc_id ` set (accounts b) then Some (foreign_key_violation ''transfers_to_account_id_accounts_id_fk'')
      else None)"

definition insert_transfer :: "transfer_options \<Rightarrow> mechanism \<Rightarrow> transfer_status \<Rightarrow> string option \<Rightarrow> nat statement" where
  "insert_transfer opts m st reason b =
     (if \<not> in_integer (amountCents opts) then (Inl (not_an_integer (amountCents opts)), b)
      else (let n = transfers_id_seq b; b' = b\<lparr>transfers_id_seq := n + 1\<rparr> in
            case transfer_error opts b of
              Some e \<Rightarrow> (Inl e, b')
            | None \<Rightarrow> (Inr n, b'\<lparr>transfers := transfers b @
                [\<lparr>tr_id = n, from_account_id = fromAccountId opts, to_account_id = toAccountId opts,
                  amount_cents = amountCents opts, tr_mechanism = m, tr_status = st, failure_reason = reason,
                  completed_at = None\<rparr>]\<rparr>)))"

definition change_balance :: "int \<Rightarrow> nat \<Rightarrow> unit statement" where
  "change_balance d k b =
     (case row_with (\<lambda>r. acc_id r = k) (accounts b) of
        None \<Rightarrow> (Inr (), b)
      | Some r \<Rightarrow>
          if \<not> in_integer (balance_cents r + d) then (Inl ''integer out of range'', b)
          else if balance_cents r + d < 0 then (Inl (check_violation ''accounts'' ''accounts_balance_cents_non_negative''), b)
          else (Inr (), b\<lparr>accounts := update_where (\<lambda>r. acc_id r = k) (\<lambda>r. r\<lparr>balance_cents := balance_cents r + d\<rparr>) (accounts b)\<rparr>))"

definition debit_statement :: "transfer_options \<Rightarrow> unit statement" where
  "debit_statement opts = change_balance (- amountCents opts) (fromAccountId opts)"

definition credit_statement :: "transfer_options \<Rightarrow> unit statement" where
  "credit_statement opts = change_balance (amountCents opts) (toAccountId opts)"

definition complete_statement :: "nat \<Rightarrow> rat \<Rightarrow> unit statement" where
  "complete_statement tid now b =
     (Inr (), b\<lparr>transfers := update_where (\<lambda>r. tr_id r = tid)
        (\<lambda>r. r\<lparr>tr_status := completed, completed_at := Some now\<rparr>) (transfers b)\<rparr>)"

definition then_statement :: "'a statement \<Rightarrow> ('a \<Rightarrow> 'b statement) \<Rightarrow> 'b statement" where
  "then_statement m k b = (case m b of (Inl e, b') \<Rightarrow> (Inl e, b') | (Inr x, b') \<Rightarrow> k x b')"

section \<open>The naive transfer\<close>

record NaiveTransferResult =
  transferId :: nat
  debited :: bool
  credited :: bool

text \<open>The statement it has come to, or how it has ended: an error names the statement that raised it.\<close>

datatype failing_statement = Inserting | Debiting | Crediting

datatype naive_end = Transferred NaiveTransferResult | SimulatedCrashError nat | Threw failing_statement string

datatype naive_transfer = AtInsert | AtDebit nat | AtCredit nat | AtComplete nat | NaiveEnd naive_end

fun performNaiveTransfer :: "transfer_options \<Rightarrow> rat \<Rightarrow> naive_transfer \<Rightarrow> ledger \<Rightarrow> naive_transfer \<times> ledger" where
  "performNaiveTransfer opts now AtInsert b =
     (case insert_transfer opts naive pending None b of
        (Inl e, b') \<Rightarrow> (NaiveEnd (Threw Inserting e), b')
      | (Inr tid, b') \<Rightarrow> (AtDebit tid, b'))"
| "performNaiveTransfer opts now (AtDebit tid) b =
     (case debit_statement opts b of
        (Inl e, b') \<Rightarrow> (NaiveEnd (Threw Debiting e), b')
      | (Inr _, b') \<Rightarrow> (if injectFailureAfterDebit opts then NaiveEnd (SimulatedCrashError tid) else AtCredit tid, b'))"
| "performNaiveTransfer opts now (AtCredit tid) b =
     (case credit_statement opts b of
        (Inl e, b') \<Rightarrow> (NaiveEnd (Threw Crediting e), b')
      | (Inr _, b') \<Rightarrow> (AtComplete tid, b'))"
| "performNaiveTransfer opts now (AtComplete tid) b =
     (NaiveEnd (Transferred \<lparr>transferId = tid, debited = True, credited = True\<rparr>), snd (complete_statement tid now b))"
| "performNaiveTransfer opts now (NaiveEnd r) b = (NaiveEnd r, b)"

section \<open>The transaction\<close>

datatype TransactionalTransferResult = Committed nat | NotCommitted nat string

definition transaction_body :: "transfer_options \<Rightarrow> rat \<Rightarrow> nat statement" where
  "transaction_body opts now =
     then_statement (insert_transfer opts transactional pending None) (\<lambda>tid.
     then_statement (debit_statement opts) (\<lambda>_.
     if injectFailureAfterDebit opts
     then (\<lambda>b. (Inl ''simulated crash after debit, before credit (transactional transfer)'', b))
     else then_statement (credit_statement opts) (\<lambda>_.
          then_statement (complete_statement tid now) (\<lambda>_ b. (Inr tid, b)))))"

text \<open>\<open>ROLLBACK\<close> restores the tables; the audit row is inserted after it and may raise in its turn.\<close>

definition performTransactionalTransfer :: "transfer_options \<Rightarrow> rat \<Rightarrow> TransactionalTransferResult statement" where
  "performTransactionalTransfer opts now b =
     (case transaction_body opts now b of
        (Inr tid, b') \<Rightarrow> (Inr (Committed tid), b')
      | (Inl reason, b') \<Rightarrow>
          (case insert_transfer opts transactional failed (Some reason) (b\<lparr>transfers_id_seq := transfers_id_seq b'\<rparr>) of
             (Inl e, b'') \<Rightarrow> (Inl e, b'')
           | (Inr tid, b'') \<Rightarrow> (Inr (NotCommitted tid reason), b'')))"

section \<open>Holdings\<close>

text \<open>
  The balances, each weighted by a number for its account: with weight one the total, with the indicator of an account its
  balance.\<close>

definition holdings :: "(nat \<Rightarrow> int) \<Rightarrow> ledger \<Rightarrow> int" where
  "holdings w b = sum_list (map (\<lambda>r. w (acc_id r) * balance_cents r) (accounts b))"

definition balance_of :: "nat \<Rightarrow> ledger \<Rightarrow> int" where
  "balance_of k b = (case row_with (\<lambda>r. acc_id r = k) (accounts b) of None \<Rightarrow> 0 | Some r \<Rightarrow> balance_cents r)"

definition bank_ok :: "ledger \<Rightarrow> bool" where
  "bank_ok b \<longleftrightarrow> distinct (map acc_id (accounts b)) \<and> (\<forall>r \<in> set (accounts b). 0 \<le> balance_cents r \<and> balance_cents r < 2 ^ 31)
     \<and> distinct (map tr_id (transfers b)) \<and> (\<forall>r \<in> set (transfers b). tr_id r < transfers_id_seq b)"

definition account_ids :: "ledger \<Rightarrow> nat set" where
  "account_ids b = acc_id ` set (accounts b)"

lemma sum_weighted_update:
  assumes "distinct (map acc_id rows)" and "k \<in> acc_id ` set rows"
  shows "sum_list (map (\<lambda>r. w (acc_id r) * balance_cents r)
      (update_where (\<lambda>r. acc_id r = k) (\<lambda>r. r\<lparr>balance_cents := balance_cents r + d\<rparr>) rows))
    = sum_list (map (\<lambda>r. w (acc_id r) * balance_cents r) rows) + w k * (d :: int)"
  using assms
proof (induction rows)
  case (Cons x xs)
  show ?case
  proof (cases "acc_id x = k")
    case True
    then have "\<forall>r \<in> set xs. acc_id r \<noteq> k" using Cons.prems(1) by (simp, metis image_eqI)
    then have "update_where (\<lambda>r. acc_id r = k) (\<lambda>r. r\<lparr>balance_cents := balance_cents r + d\<rparr>) xs = xs" by (rule update_where_none)
    then show ?thesis using True by (simp add: update_where_def algebra_simps)
  next
    case False
    then show ?thesis using Cons by (simp add: update_where_def)
  qed
qed simp

text \<open>What a change of a balance does: nothing, with an error, or it adds to the one account.\<close>

lemma change_balance_cases:
  assumes "bank_ok b" and "k \<in> account_ids b"
  obtains (refused) e where "change_balance d k b = (Inl e, b)" "balance_of k b + d < 0 \<or> 2 ^ 31 \<le> balance_of k b + d"
  | (changed) b' where "change_balance d k b = (Inr (), b')" "bank_ok b'" "account_ids b' = account_ids b"
      "\<And>w. holdings w b' = holdings w b + w k * d" "transfers b' = transfers b" "transfers_id_seq b' = transfers_id_seq b"
      "0 \<le> balance_of k b + d" "balance_of k b + d < 2 ^ 31"
      "\<And>j. balance_of j b' = (if j = k then balance_of k b + d else balance_of j b)"
proof -
  obtain r where r: "row_with (\<lambda>r. acc_id r = k) (accounts b) = Some r"
    using assms(2) by (cases "row_with (\<lambda>r. acc_id r = k) (accounts b)") (auto simp: row_with_None account_ids_def)
  note m = row_with_Some [OF r]
  let ?rows = "update_where (\<lambda>r. acc_id r = k) (\<lambda>r. r\<lparr>balance_cents := balance_cents r + d\<rparr>) (accounts b)"
  show ?thesis
  proof (cases "in_integer (balance_cents r + d) \<and> 0 \<le> balance_cents r + d")
    case True
    have ids: "map acc_id ?rows = map acc_id (accounts b)" by (rule map_update_where) simp
    have one: "x = r" if "x \<in> set (accounts b)" "acc_id x = k" for x
      using assms(1) that m distinct_map_unique unfolding bank_ok_def by metis
    have "\<forall>x \<in> set ?rows. 0 \<le> balance_cents x \<and> balance_cents x < 2 ^ 31"
      unfolding ball_update_where using True assms(1) one by (auto simp: bank_ok_def in_integer_def)
    then have "bank_ok (b\<lparr>accounts := ?rows\<rparr>)" using assms(1) ids by (simp add: bank_ok_def)
    moreover have "account_ids (b\<lparr>accounts := ?rows\<rparr>) = account_ids b"
      unfolding account_ids_def using ids by (simp flip: set_map)
    moreover have "holdings w (b\<lparr>accounts := ?rows\<rparr>) = holdings w b + w k * d" for w
      using sum_weighted_update [of "accounts b" k w d] assms by (simp add: holdings_def bank_ok_def account_ids_def)
    moreover have "balance_of j (b\<lparr>accounts := ?rows\<rparr>) = (if j = k then balance_of k b + d else balance_of j b)" for j
      using r by (simp add: balance_of_def row_with_update_key)
    ultimately show ?thesis
      by (intro changed [of "b\<lparr>accounts := ?rows\<rparr>"]) (use True r in \<open>simp_all add: change_balance_def balance_of_def in_integer_def\<close>)
  next
    case False
    then have c: "balance_of k b + d < 0 \<or> 2 ^ 31 \<le> balance_of k b + d" using r by (auto simp: balance_of_def in_integer_def)
    show ?thesis
    proof (cases "in_integer (balance_cents r + d)")
      case True
      then have "change_balance d k b = (Inl (check_violation ''accounts'' ''accounts_balance_cents_non_negative''), b)"
        using False r by (simp add: change_balance_def)
      then show ?thesis using c by (rule refused)
    next
      case out: False
      then have "change_balance d k b = (Inl ''integer out of range'', b)" using r by (simp add: change_balance_def)
      then show ?thesis using c by (rule refused)
    qed
  qed
qed

text \<open>What an insert does, and what it needs.\<close>

definition insert_refusal :: "transfer_options \<Rightarrow> ledger \<Rightarrow> string option" where
  "insert_refusal opts b =
     (if \<not> in_integer (amountCents opts) then Some (not_an_integer (amountCents opts)) else transfer_error opts b)"

lemma insert_refusal_seq [simp]: "insert_refusal opts (b\<lparr>transfers_id_seq := n\<rparr>) = insert_refusal opts b"
  by (simp add: insert_refusal_def transfer_error_def)

definition new_transfer :: "transfer_options \<Rightarrow> mechanism \<Rightarrow> transfer_status \<Rightarrow> string option \<Rightarrow> nat \<Rightarrow> transfer_row" where
  "new_transfer opts m st reason n =
     \<lparr>tr_id = n, from_account_id = fromAccountId opts, to_account_id = toAccountId opts,
      amount_cents = amountCents opts, tr_mechanism = m, tr_status = st, failure_reason = reason, completed_at = None\<rparr>"

lemma insert_refused:
  assumes "insert_refusal opts b = Some e"
  shows "insert_transfer opts m st reason b = (Inl e, b\<lparr>transfers_id_seq := transfers_id_seq (snd (insert_transfer opts m st reason b))\<rparr>)"
    and "transfers_id_seq b \<le> transfers_id_seq (snd (insert_transfer opts m st reason b))"
  using assms by (auto simp: insert_refusal_def insert_transfer_def Let_def split: if_splits)

lemma insert_accepted:
  assumes "insert_refusal opts b = None"
  shows "insert_transfer opts m st reason b = (Inr (transfers_id_seq b),
      b\<lparr>transfers_id_seq := transfers_id_seq b + 1, transfers := transfers b @ [new_transfer opts m st reason (transfers_id_seq b)]\<rparr>)"
    and "0 < amountCents opts" and "in_integer (amountCents opts)" and "fromAccountId opts \<noteq> toAccountId opts"
    and "fromAccountId opts \<in> account_ids b" and "toAccountId opts \<in> account_ids b"
  using assms by (auto simp: insert_refusal_def insert_transfer_def transfer_error_def new_transfer_def account_ids_def Let_def split: if_splits)

lemma bank_ok_seq: "bank_ok b \<Longrightarrow> transfers_id_seq b \<le> n \<Longrightarrow> bank_ok (b\<lparr>transfers_id_seq := n\<rparr>)"
  by (fastforce simp: bank_ok_def)

lemma bank_ok_insert:
  "bank_ok b \<Longrightarrow> bank_ok (b\<lparr>transfers_id_seq := transfers_id_seq b + 1,
     transfers := transfers b @ [new_transfer opts m st reason (transfers_id_seq b)]\<rparr>)"
  by (fastforce simp: bank_ok_def new_transfer_def)

lemma bank_ok_complete: "bank_ok b \<Longrightarrow> bank_ok (snd (complete_statement tid now b))"
proof -
  assume ok: "bank_ok b"
  have "map tr_id (update_where (\<lambda>r. tr_id r = tid) (\<lambda>r. r\<lparr>tr_status := completed, completed_at := Some now\<rparr>) (transfers b)) = map tr_id (transfers b)"
    by (rule map_update_where) simp
  moreover from this have "tr_id ` set (update_where (\<lambda>r. tr_id r = tid) (\<lambda>r. r\<lparr>tr_status := completed, completed_at := Some now\<rparr>) (transfers b)) = tr_id ` set (transfers b)"
    by (simp flip: set_map)
  ultimately show ?thesis using ok by (simp add: bank_ok_def complete_statement_def) (metis (no_types, lifting) image_iff)
qed

lemma other_fields [simp]:
  "holdings w (b\<lparr>transfers_id_seq := n\<rparr>) = holdings w b" "holdings w (b\<lparr>transfers := rows\<rparr>) = holdings w b"
  "account_ids (b\<lparr>transfers_id_seq := n\<rparr>) = account_ids b" "account_ids (b\<lparr>transfers := rows\<rparr>) = account_ids b"
  "holdings w (snd (complete_statement tid now b)) = holdings w b" "account_ids (snd (complete_statement tid now b)) = account_ids b"
  by (simp_all add: holdings_def account_ids_def complete_statement_def)

text \<open>A statement of a naive transfer: what it moves, and what it knows of the accounts.\<close>

fun has_debited :: "naive_transfer \<Rightarrow> bool" where
  "has_debited AtInsert \<longleftrightarrow> False"
| "has_debited (AtDebit _) \<longleftrightarrow> False"
| "has_debited (AtCredit _) \<longleftrightarrow> True"
| "has_debited (AtComplete _) \<longleftrightarrow> True"
| "has_debited (NaiveEnd (Threw st _)) \<longleftrightarrow> st = Crediting"
| "has_debited (NaiveEnd _) \<longleftrightarrow> True"

fun has_credited :: "naive_transfer \<Rightarrow> bool" where
  "has_credited (AtComplete _) \<longleftrightarrow> True"
| "has_credited (NaiveEnd (Transferred _)) \<longleftrightarrow> True"
| "has_credited _ \<longleftrightarrow> False"

definition naive_flow :: "(nat \<Rightarrow> int) \<Rightarrow> transfer_options \<times> naive_transfer \<Rightarrow> int" where
  "naive_flow w x = (if has_credited (snd x) then w (toAccountId (fst x)) * amountCents (fst x) else 0)
     - (if has_debited (snd x) then w (fromAccountId (fst x)) * amountCents (fst x) else 0)"

fun accounts_known :: "transfer_options \<Rightarrow> ledger \<Rightarrow> naive_transfer \<Rightarrow> bool" where
  "accounts_known opts b (AtDebit _) \<longleftrightarrow> fromAccountId opts \<in> account_ids b \<and> toAccountId opts \<in> account_ids b"
| "accounts_known opts b (AtCredit _) \<longleftrightarrow> toAccountId opts \<in> account_ids b"
| "accounts_known opts b _ \<longleftrightarrow> True"

lemma accounts_known_ids: "account_ids b' = account_ids b \<Longrightarrow> accounts_known opts b' pc = accounts_known opts b pc"
  by (cases "(opts, b, pc)" rule: accounts_known.cases) simp_all

lemma naive_statement_moves:
  assumes "bank_ok b" and "accounts_known opts b pc" and "performNaiveTransfer opts now pc b = (pc', b')"
  shows "bank_ok b' \<and> account_ids b' = account_ids b \<and> accounts_known opts b' pc'
    \<and> holdings w b' + naive_flow w (opts, pc) = holdings w b + naive_flow w (opts, pc')"
proof (cases pc)
  case AtInsert
  show ?thesis
  proof (cases "insert_refusal opts b")
    case None
    from insert_accepted(1) [OF None, of naive pending "None"] insert_accepted(2-) [OF None] assms AtInsert bank_ok_insert [OF assms(1)]
    show ?thesis by (auto simp: naive_flow_def)
  next
    case (Some e)
    obtain n where "insert_transfer opts naive pending None b = (Inl e, b\<lparr>transfers_id_seq := n\<rparr>)" "transfers_id_seq b \<le> n"
      using insert_refused [OF Some, of naive pending "None"] by blast
    then show ?thesis using assms AtInsert bank_ok_seq [OF assms(1)] by (auto simp: naive_flow_def)
  qed
next
  case (AtDebit tid)
  have k: "fromAccountId opts \<in> account_ids b" using assms(2) AtDebit by simp
  show ?thesis
    by (rule change_balance_cases [OF assms(1) k, of "- amountCents opts"])
      (use assms AtDebit in \<open>auto simp: naive_flow_def debit_statement_def split: if_splits\<close>)
next
  case (AtCredit tid)
  have k: "toAccountId opts \<in> account_ids b" using assms(2) AtCredit by simp
  show ?thesis
    by (rule change_balance_cases [OF assms(1) k, of "amountCents opts"])
      (use assms AtCredit in \<open>auto simp: naive_flow_def credit_statement_def\<close>)
next
  case (AtComplete tid)
  then show ?thesis using assms bank_ok_complete [OF assms(1), of tid now] by (auto simp: naive_flow_def)
next
  case (NaiveEnd r)
  then show ?thesis using assms by auto
qed

section \<open>What the transaction does\<close>

definition can_transfer :: "transfer_options \<Rightarrow> ledger \<Rightarrow> bool" where
  "can_transfer opts b \<longleftrightarrow> insert_refusal opts b = None \<and> \<not> injectFailureAfterDebit opts
     \<and> amountCents opts \<le> balance_of (fromAccountId opts) b \<and> balance_of (toAccountId opts) b + amountCents opts < 2 ^ 31"

definition completed_row :: "transfer_options \<Rightarrow> nat \<Rightarrow> rat \<Rightarrow> transfer_row" where
  "completed_row opts n now = (new_transfer opts transactional completed None n)\<lparr>completed_at := Some now\<rparr>"

lemma balance_of_other [simp]:
  "balance_of k (b\<lparr>transfers_id_seq := n\<rparr>) = balance_of k b" "balance_of k (b\<lparr>transfers := rows\<rparr>) = balance_of k b"
  by (simp_all add: balance_of_def)

lemma transaction_body_refused:
  assumes "insert_refusal opts b = Some e"
  shows "\<exists>n \<ge> transfers_id_seq b. transaction_body opts now b = (Inl e, b\<lparr>transfers_id_seq := n\<rparr>)"
proof -
  obtain n where "insert_transfer opts transactional pending None b = (Inl e, b\<lparr>transfers_id_seq := n\<rparr>)" "transfers_id_seq b \<le> n"
    using insert_refused [OF assms, of transactional pending "None"] by blast
  then show ?thesis by (auto simp: transaction_body_def then_statement_def)
qed

lemma transaction_body_cases:
  assumes ok: "bank_ok b" and "insert_refusal opts b = None"
  obtains (aborted) reason b' where "transaction_body opts now b = (Inl reason, b')" "transfers_id_seq b' = transfers_id_seq b + 1" "\<not> can_transfer opts b"
  | (commits) b' where "transaction_body opts now b = (Inr (transfers_id_seq b), b')" "can_transfer opts b" "bank_ok b'"
      "account_ids b' = account_ids b" "transfers_id_seq b' = transfers_id_seq b + 1"
      "transfers b' = transfers b @ [completed_row opts (transfers_id_seq b) now]"
      "\<And>w. holdings w b' = holdings w b + amountCents opts * (w (toAccountId opts) - w (fromAccountId opts))"
proof -
  note ins = insert_accepted(1) [OF assms(2), of transactional pending "None"] and req = insert_accepted(2-) [OF assms(2)]
  define b1 where "b1 = b\<lparr>transfers_id_seq := transfers_id_seq b + 1, transfers := transfers b @ [new_transfer opts transactional pending None (transfers_id_seq b)]\<rparr>"
  have ins1: "insert_transfer opts transactional pending None b = (Inr (transfers_id_seq b), b1)" unfolding b1_def by (rule ins)
  have b1: "bank_ok b1" "account_ids b1 = account_ids b" "\<And>w. holdings w b1 = holdings w b" "\<And>k. balance_of k b1 = balance_of k b"
      "transfers_id_seq b1 = transfers_id_seq b + 1"
    using bank_ok_insert [OF ok, of opts transactional pending "None"] by (simp_all add: b1_def)
  have k: "fromAccountId opts \<in> account_ids b1" using req b1 by simp
  show ?thesis
  proof (rule change_balance_cases [OF b1(1) k, of "- amountCents opts"])
    fix e
    assume "change_balance (- amountCents opts) (fromAccountId opts) b1 = (Inl e, b1)"
      "balance_of (fromAccountId opts) b1 + - amountCents opts < 0 \<or> 2 ^ 31 \<le> balance_of (fromAccountId opts) b1 + - amountCents opts"
    moreover have "balance_of (fromAccountId opts) b < 2 ^ 31"
      using ok by (auto simp: balance_of_def bank_ok_def split: option.splits dest: row_with_Some)
    ultimately show ?thesis using req(1) b1(4,5)
      by (intro aborted [of e b1]) (simp_all add: transaction_body_def then_statement_def ins1 debit_statement_def can_transfer_def)
  next
    fix b2
    assume d: "change_balance (- amountCents opts) (fromAccountId opts) b1 = (Inr (), b2)" "bank_ok b2" "account_ids b2 = account_ids b1"
      "\<And>w. holdings w b2 = holdings w b1 + w (fromAccountId opts) * - amountCents opts" "transfers b2 = transfers b1"
      "transfers_id_seq b2 = transfers_id_seq b1" "0 \<le> balance_of (fromAccountId opts) b1 + - amountCents opts"
      "\<And>j. balance_of j b2 = (if j = fromAccountId opts then balance_of (fromAccountId opts) b1 + - amountCents opts else balance_of j b1)"
    show ?thesis
    proof (cases "injectFailureAfterDebit opts")
      case True
      then show ?thesis using b1(5) d
        by (intro aborted [of "''simulated crash after debit, before credit (transactional transfer)''" b2]) (simp_all add: transaction_body_def then_statement_def ins1 debit_statement_def can_transfer_def)
    next
      case no: False
      have k2: "toAccountId opts \<in> account_ids b2" using req b1 d(3) by simp
      have to: "balance_of (toAccountId opts) b2 = balance_of (toAccountId opts) b" using d(8) b1(4) req(3) by simp
      show ?thesis
      proof (rule change_balance_cases [OF d(2) k2, of "amountCents opts"])
        fix e
        assume "change_balance (amountCents opts) (toAccountId opts) b2 = (Inl e, b2)"
          "balance_of (toAccountId opts) b2 + amountCents opts < 0 \<or> 2 ^ 31 \<le> balance_of (toAccountId opts) b2 + amountCents opts"
        moreover have "0 \<le> balance_of (toAccountId opts) b"
          using ok by (auto simp: balance_of_def bank_ok_def split: option.splits dest: row_with_Some)
        ultimately show ?thesis using no req(1) b1(5) d to
          by (intro aborted [of e b2]) (simp_all add: transaction_body_def then_statement_def ins1 debit_statement_def credit_statement_def can_transfer_def)
      next
        fix b3
        assume c: "change_balance (amountCents opts) (toAccountId opts) b2 = (Inr (), b3)" "bank_ok b3" "account_ids b3 = account_ids b2"
          "\<And>w. holdings w b3 = holdings w b2 + w (toAccountId opts) * amountCents opts" "transfers b3 = transfers b2"
          "transfers_id_seq b3 = transfers_id_seq b2" "balance_of (toAccountId opts) b2 + amountCents opts < 2 ^ 31"
        let ?b4 = "snd (complete_statement (transfers_id_seq b) now b3)"
        have "update_where (\<lambda>r. tr_id r = transfers_id_seq b) (\<lambda>r. r\<lparr>tr_status := completed, completed_at := Some now\<rparr>) (transfers b) = transfers b"
          by (rule update_where_none) (use ok in \<open>auto simp: bank_ok_def\<close>)
        then have rows: "transfers ?b4 = transfers b @ [completed_row opts (transfers_id_seq b) now]"
          using c(5) d(5) by (simp add: complete_statement_def b1_def completed_row_def new_transfer_def update_where_def)
        show ?thesis
        proof (rule commits [of ?b4])
          show "transaction_body opts now b = (Inr (transfers_id_seq b), ?b4)" using no d(1) c(1)
            by (simp add: transaction_body_def then_statement_def ins1 debit_statement_def credit_statement_def complete_statement_def)
          show "can_transfer opts b" using assms(2) no d(7) c(7) to b1(4) by (simp add: can_transfer_def)
          show "bank_ok ?b4" by (rule bank_ok_complete [OF c(2)])
          show "account_ids ?b4 = account_ids b" using c(3) d(3) b1(2) by simp
          show "transfers_id_seq ?b4 = transfers_id_seq b + 1" using c(6) d(6) b1(5) by (simp add: complete_statement_def)
          show "holdings w ?b4 = holdings w b + amountCents opts * (w (toAccountId opts) - w (fromAccountId opts))" for w
            using c(4) [of w] d(4) [of w] b1(3) [of w] by (simp add: algebra_simps)
        qed (rule rows)
      qed
    qed
  qed
qed

text \<open>The outcome of a transaction, on every branch.\<close>

definition audit_row :: "transfer_options \<Rightarrow> rat \<Rightarrow> ledger \<Rightarrow> TransactionalTransferResult \<Rightarrow> transfer_row" where
  "audit_row opts now b res =
     (case res of Committed tid \<Rightarrow> completed_row opts tid now
      | NotCommitted tid reason \<Rightarrow> new_transfer opts transactional failed (Some reason) tid)"

definition committed_flow :: "(nat \<Rightarrow> int) \<Rightarrow> transfer_options \<times> (string + TransactionalTransferResult) \<Rightarrow> int" where
  "committed_flow w x =
     (case snd x of Inr (Committed _) \<Rightarrow> amountCents (fst x) * (w (toAccountId (fst x)) - w (fromAccountId (fst x))) | _ \<Rightarrow> 0)"

lemma transaction_outcome:
  assumes "bank_ok b" and "performTransactionalTransfer opts now b = (res, b')"
  shows "bank_ok b' \<and> account_ids b' = account_ids b \<and> (\<forall>w. holdings w b' = holdings w b + committed_flow w (opts, res))
    \<and> (case res of
         Inl e \<Rightarrow> insert_refusal opts b = Some e \<and> transfers b' = transfers b \<and> accounts b' = accounts b
       | Inr r \<Rightarrow> insert_refusal opts b = None \<and> transfers b' = transfers b @ [audit_row opts now b r]
           \<and> (case r of Committed _ \<Rightarrow> can_transfer opts b | NotCommitted _ _ \<Rightarrow> \<not> can_transfer opts b \<and> accounts b' = accounts b))"
proof (cases "insert_refusal opts b")
  case (Some e)
  obtain n where n: "transfers_id_seq b \<le> n" "transaction_body opts now b = (Inl e, b\<lparr>transfers_id_seq := n\<rparr>)"
    using transaction_body_refused [OF Some] by blast
  have "insert_refusal opts (b\<lparr>transfers_id_seq := n\<rparr>) = Some e" using Some by simp
  from insert_refused [OF this, of transactional failed "Some e"]
  obtain m where m: "n \<le> m" "insert_transfer opts transactional failed (Some e) (b\<lparr>transfers_id_seq := n\<rparr>) = (Inl e, b\<lparr>transfers_id_seq := m\<rparr>)"
    by fastforce
  then have "res = Inl e" "b' = b\<lparr>transfers_id_seq := m\<rparr>" using assms(2) n by (simp_all add: performTransactionalTransfer_def)
  then show ?thesis using Some bank_ok_seq [OF assms(1), of m] n m by (simp add: committed_flow_def)
next
  case None
  show ?thesis
  proof (rule transaction_body_cases [OF assms(1) None, of now])
    fix reason b1
    assume body: "transaction_body opts now b = (Inl reason, b1)" "transfers_id_seq b1 = transfers_id_seq b + 1" "\<not> can_transfer opts b"
    define b2 where "b2 = b\<lparr>transfers_id_seq := transfers_id_seq b1\<rparr>"
    have b2: "insert_refusal opts b2 = None" "bank_ok b2" "transfers b2 = transfers b" "accounts b2 = accounts b"
        "account_ids b2 = account_ids b" "\<And>w. holdings w b2 = holdings w b"
      using None bank_ok_seq [OF assms(1), of "transfers_id_seq b1"] body(2)
      by (simp_all add: b2_def)
    note ins = insert_accepted(1) [OF b2(1), of transactional failed "Some reason"]
    have "res = Inr (NotCommitted (transfers_id_seq b2) reason)"
      "b' = b2\<lparr>transfers_id_seq := transfers_id_seq b2 + 1, transfers := transfers b2 @ [new_transfer opts transactional failed (Some reason) (transfers_id_seq b2)]\<rparr>"
      using assms(2) ins by (simp_all add: performTransactionalTransfer_def body(1) b2_def [symmetric])
    then show ?thesis using None bank_ok_insert [OF b2(2), of opts transactional failed "Some reason"] b2 body(3)
      by (simp add: committed_flow_def audit_row_def)
  next
    fix b1
    assume "transaction_body opts now b = (Inr (transfers_id_seq b), b1)" "can_transfer opts b" "bank_ok b1"
      "account_ids b1 = account_ids b" "transfers b1 = transfers b @ [completed_row opts (transfers_id_seq b) now]"
      "\<And>w. holdings w b1 = holdings w b + amountCents opts * (w (toAccountId opts) - w (fromAccountId opts))"
    then show ?thesis using None assms(2) by (auto simp: performTransactionalTransfer_def committed_flow_def audit_row_def)
  qed
qed

section \<open>Any mixture of transfers\<close>

text \<open>
  Statements of naive transfers come in any order, and transactions between them; a transaction holds the locks of the rows
  it has changed until it ends, so it is one event.\<close>

datatype transfer_event = NaiveStatement nat rat | Transaction transfer_options rat

record transfer_world =
  in_flight :: "naive_transfer list"
  finished :: "(transfer_options \<times> (string + TransactionalTransferResult)) list"
  bank_of :: ledger

fun transfer_step :: "transfer_options list \<Rightarrow> transfer_event \<Rightarrow> transfer_world \<Rightarrow> transfer_world" where
  "transfer_step os (NaiveStatement i now) w =
     (if i < length (in_flight w)
      then (let (pc, b) = performNaiveTransfer (os ! i) now (in_flight w ! i) (bank_of w) in
            w\<lparr>in_flight := (in_flight w)[i := pc], bank_of := b\<rparr>) else w)"
| "transfer_step os (Transaction opts now) w =
     (let (res, b) = performTransactionalTransfer opts now (bank_of w) in
      w\<lparr>finished := finished w @ [(opts, res)], bank_of := b\<rparr>)"

definition transfer_run :: "transfer_options list \<Rightarrow> transfer_event list \<Rightarrow> ledger \<Rightarrow> transfer_world" where
  "transfer_run os es b = fold (transfer_step os) es \<lparr>in_flight = replicate (length os) AtInsert, finished = [], bank_of = b\<rparr>"

definition flows :: "(nat \<Rightarrow> int) \<Rightarrow> transfer_options list \<Rightarrow> transfer_world \<Rightarrow> int" where
  "flows c os w = sum_list (map (naive_flow c) (zip os (in_flight w))) + sum_list (map (committed_flow c) (finished w))"

definition transfer_inv :: "transfer_options list \<Rightarrow> ledger \<Rightarrow> transfer_world \<Rightarrow> bool" where
  "transfer_inv os b w \<longleftrightarrow> length (in_flight w) = length os \<and> bank_ok (bank_of w) \<and> account_ids (bank_of w) = account_ids b
     \<and> (\<forall>i < length os. accounts_known (os ! i) (bank_of w) (in_flight w ! i))
     \<and> (\<forall>c. holdings c (bank_of w) = holdings c b + flows c os w)"

lemma sum_zip_update:
  assumes "i < length xs" and "length xs = length ys"
  shows "sum_list (map g (zip xs (ys[i := y]))) = sum_list (map g (zip xs ys)) + g (xs ! i, y) - (g (xs ! i, ys ! i) :: int)"
  using assms(2,1)
proof (induction xs ys arbitrary: i rule: list_induct2)
  case (Cons x xs z zs)
  then show ?case by (cases i) auto
qed simp

lemma transfer_inv_step: "transfer_inv os b w \<Longrightarrow> transfer_inv os b (transfer_step os e w)"
proof (cases e)
  case (NaiveStatement i now)
  assume inv: "transfer_inv os b w"
  show ?thesis
  proof (cases "i < length (in_flight w)")
    case True
    obtain pc b' where s: "performNaiveTransfer (os ! i) now (in_flight w ! i) (bank_of w) = (pc, b')" by fastforce
    have i: "i < length os" "length os = length (in_flight w)" using inv True by (simp_all add: transfer_inv_def)
    have "accounts_known (os ! i) (bank_of w) (in_flight w ! i)" "bank_ok (bank_of w)" using inv i by (simp_all add: transfer_inv_def)
    note m = naive_statement_moves [OF this(2,1) s]
    have "accounts_known (os ! j) b' ((in_flight w)[i := pc] ! j)" if "j < length os" for j
      using inv m that i accounts_known_ids [of b' "bank_of w"] by (cases "j = i") (auto simp: transfer_inv_def)
    moreover have "holdings c b' = holdings c b + flows c os (w\<lparr>in_flight := (in_flight w)[i := pc], bank_of := b'\<rparr>)" for c
    proof -
      have "holdings c b' + naive_flow c (os ! i, in_flight w ! i) = holdings c (bank_of w) + naive_flow c (os ! i, pc)" using m by blast
      moreover have "holdings c (bank_of w) = holdings c b + flows c os w" using inv by (simp add: transfer_inv_def)
      ultimately show ?thesis using sum_zip_update [OF i, of "naive_flow c" pc] by (simp add: flows_def)
    qed
    ultimately show ?thesis using inv m i by (simp add: NaiveStatement s transfer_inv_def)
  next
    case False
    then show ?thesis using inv NaiveStatement by simp
  qed
next
  case (Transaction opts now)
  assume inv: "transfer_inv os b w"
  obtain res b' where s: "performTransactionalTransfer opts now (bank_of w) = (res, b')" by fastforce
  have "bank_ok (bank_of w)" using inv by (simp add: transfer_inv_def)
  note m = transaction_outcome [OF this s]
  then have "account_ids b' = account_ids (bank_of w)" "bank_ok b'" "\<And>c. holdings c b' = holdings c (bank_of w) + committed_flow c (opts, res)" by blast+
  then show ?thesis using inv accounts_known_ids [of b' "bank_of w"] by (simp add: Transaction s transfer_inv_def flows_def)
qed

lemma transfer_inv_run: "bank_ok b \<Longrightarrow> transfer_inv os b (transfer_run os es b)"
proof -
  assume ok: "bank_ok b"
  have "naive_flow c (x, AtInsert) = 0" for c x by (simp add: naive_flow_def)
  then have "flows c os \<lparr>in_flight = replicate (length os) AtInsert, finished = [], bank_of = b\<rparr> = 0" for c
    unfolding flows_def by (induction os) simp_all
  then have "transfer_inv os b \<lparr>in_flight = replicate (length os) AtInsert, finished = [], bank_of = b\<rparr>"
    using ok by (simp add: transfer_inv_def)
  moreover have "transfer_inv os b w \<Longrightarrow> transfer_inv os b (fold (transfer_step os) es w)" for w
    by (induction es arbitrary: w) (simp_all add: transfer_inv_step del: transfer_step.simps)
  ultimately show ?thesis by (simp add: transfer_run_def)
qed

section \<open>Properties\<close>

lemma holdings_total: "holdings (\<lambda>_. 1) b = getTotalBalanceCents b"
  by (simp add: holdings_def getTotalBalanceCents_def)

lemma holdings_balance:
  assumes "bank_ok b"
  shows "holdings (\<lambda>j. if j = k then 1 else 0) b = balance_of k b"
proof -
  have "distinct (map acc_id rows) \<Longrightarrow> sum_list (map (\<lambda>r. (if acc_id r = k then 1 else 0) * balance_cents r) rows)
      = (case row_with (\<lambda>r. acc_id r = k) rows of None \<Rightarrow> 0 | Some r \<Rightarrow> balance_cents r)"
    for rows :: "account_row list"
  proof (induction rows)
    case (Cons x xs)
    show ?case
    proof (cases "acc_id x = k")
      case True
      then have "row_with (\<lambda>r. acc_id r = k) xs = None" using Cons.prems by (intro row_with_key_None) simp
      then show ?thesis using Cons True by (simp add: row_with_def)
    next
      case False
      then show ?thesis using Cons by (simp add: row_with_def)
    qed
  qed (simp add: row_with_def)
  then show ?thesis using assms by (simp add: holdings_def balance_of_def bank_ok_def)
qed

text \<open>What a naive transfer has taken from its source and not given to its destination.\<close>

definition stranded :: "transfer_options \<times> naive_transfer \<Rightarrow> int" where
  "stranded x = (if has_debited (snd x) \<and> \<not> has_credited (snd x) then amountCents (fst x) else 0)"

lemma naive_flow_total: "naive_flow (\<lambda>_. 1) x = - stranded x"
proof -
  have "has_credited pc \<Longrightarrow> has_debited pc" for pc by (cases pc rule: has_credited.cases) simp_all
  then show ?thesis by (auto simp: naive_flow_def stranded_def)
qed

text \<open>
  C34: every cent is accounted for. Whatever statements of naive transfers run in whatever order, with transactions
  between them, crashes and refusals included: no balance becomes negative or leaves its integer; the total of the accounts
  is the initial total less the amounts of the naive transfers that have debited and not credited, so transactions alone
  conserve it; and each account holds what it held, plus what reached it, less what left it.\<close>

theorem every_cent_accounted_for:
  assumes "bank_ok b"
  shows "bank_ok (bank_of (transfer_run os es b))
    \<and> getTotalBalanceCents (bank_of (transfer_run os es b))
        = getTotalBalanceCents b - sum_list (map stranded (zip os (in_flight (transfer_run os es b))))
    \<and> (\<forall>k. balance_of k (bank_of (transfer_run os es b))
        = balance_of k b + flows (\<lambda>j. if j = k then 1 else 0) os (transfer_run os es b))"
proof -
  let ?w = "transfer_run os es b"
  have inv: "bank_ok (bank_of ?w)" "\<And>c. holdings c (bank_of ?w) = holdings c b + flows c os ?w"
    using transfer_inv_run [OF assms, of os es] by (simp_all add: transfer_inv_def)
  have "committed_flow (\<lambda>_. 1) = (\<lambda>_. 0)" by (auto simp: committed_flow_def split: sum.splits TransactionalTransferResult.splits)
  moreover have "naive_flow (\<lambda>_. 1) = (\<lambda>x. - stranded x)" by (rule ext) (rule naive_flow_total)
  ultimately have "flows (\<lambda>_. 1) os ?w = - sum_list (map stranded (zip os (in_flight ?w)))"
    unfolding flows_def by (simp add: uminus_sum_list_map comp_def)
  then show ?thesis using inv(1) inv(2) [of "\<lambda>_. 1"] inv(2) holdings_balance [OF assms] holdings_balance [OF inv(1)]
    by (simp add: holdings_total)
qed

definition two_accounts :: ledger where
  "two_accounts = \<lparr>accounts = [\<lparr>acc_id = 1, owner_name = ''from'', balance_cents = 10000, currency = ''USD''\<rparr>,
     \<lparr>acc_id = 2, owner_name = ''to'', balance_cents = 5000, currency = ''USD''\<rparr>], transfers = [], transfers_id_seq = 1\<rparr>"

definition two_thousand :: "bool \<Rightarrow> transfer_options" where
  "two_thousand crash = \<lparr>fromAccountId = 1, toAccountId = 2, amountCents = 2000, injectFailureAfterDebit = crash\<rparr>"

lemmas transfer_eval = transfer_run_def performTransactionalTransfer_def transaction_body_def then_statement_def
  insert_transfer_def transfer_error_def debit_statement_def credit_statement_def change_balance_def complete_statement_def
  two_accounts_def two_thousand_def in_integer_def row_with_def update_where_def

lemma every_cent_accounted_for_witness:
  "getTotalBalanceCents (bank_of (transfer_run [two_thousand True]
     [NaiveStatement 0 0, Transaction (two_thousand False) 1, NaiveStatement 0 2] two_accounts)) = 13000"
proof -
  have ok: "bank_ok two_accounts" by (simp add: bank_ok_def two_accounts_def)
  have "in_flight (transfer_run [two_thousand True] [NaiveStatement 0 0, Transaction (two_thousand False) 1, NaiveStatement 0 2] two_accounts)
      = [NaiveEnd (SimulatedCrashError 1)]"
    by (simp add: transfer_eval)
  then show ?thesis
    using every_cent_accounted_for [OF ok, of "[two_thousand True]" "[NaiveStatement 0 0, Transaction (two_thousand False) 1, NaiveStatement 0 2]"]
    by (simp add: stranded_def getTotalBalanceCents_def two_accounts_def two_thousand_def)
qed

text \<open>
  C35: the transaction happens altogether or not at all, and leaves its trace. It commits exactly when the amount is
  acceptable, both accounts exist, no failure is injected, the source holds the amount and the destination has room for
  it; then it has moved the amount and its row is completed. Otherwise no balance has changed: a row says that it failed
  and why, unless the row itself cannot be inserted, when the call raises and leaves no row.\<close>

theorem transfer_all_or_nothing:
  assumes "bank_ok b" and "performTransactionalTransfer opts now b = (res, b')"
  shows "(case res of
      Inr (Committed tid) \<Rightarrow> can_transfer opts b \<and> transfers b' = transfers b @ [completed_row opts tid now]
        \<and> (\<forall>k. balance_of k b' = balance_of k b + (if k = toAccountId opts then amountCents opts else 0)
              - (if k = fromAccountId opts then amountCents opts else 0))
    | Inr (NotCommitted tid reason) \<Rightarrow> insert_refusal opts b = None \<and> \<not> can_transfer opts b \<and> accounts b' = accounts b
        \<and> transfers b' = transfers b @ [new_transfer opts transactional failed (Some reason) tid]
    | Inl e \<Rightarrow> insert_refusal opts b = Some e \<and> accounts b' = accounts b \<and> transfers b' = transfers b)"
proof -
  note o = transaction_outcome [OF assms]
  then have ok: "bank_ok b'" and h: "\<And>w. holdings w b' = holdings w b + committed_flow w (opts, res)" by blast+
  have bal: "balance_of k b' = balance_of k b + committed_flow (\<lambda>j. if j = k then 1 else 0) (opts, res)" for k
    using h [of "\<lambda>j. if j = k then 1 else 0"] holdings_balance [OF assms(1)] holdings_balance [OF ok] by simp
  show ?thesis
  proof (cases res)
    case (Inl e)
    then show ?thesis using o by simp
  next
    case (Inr r)
    show ?thesis
    proof (cases r)
      case (Committed tid)
      then show ?thesis using o bal Inr by (auto simp: audit_row_def committed_flow_def)
    next
      case (NotCommitted tid reason)
      then show ?thesis using o Inr by (simp add: audit_row_def)
    qed
  qed
qed

lemma transfer_all_or_nothing_witness:
  "\<exists>b'. performTransactionalTransfer (two_thousand True) 0 two_accounts
      = (Inr (NotCommitted 2 ''simulated crash after debit, before credit (transactional transfer)''), b')
    \<and> accounts b' = accounts two_accounts"
proof -
  obtain b' where r: "performTransactionalTransfer (two_thousand True) 0 two_accounts
      = (Inr (NotCommitted 2 ''simulated crash after debit, before credit (transactional transfer)''), b')"
    by (simp add: transfer_eval)
  have ok: "bank_ok two_accounts" by (simp add: bank_ok_def two_accounts_def)
  show ?thesis using transfer_all_or_nothing [OF ok r] r by auto
qed

text \<open>
  A pending row of a naive transfer does not say that its debit has committed: when the source cannot pay, the row stays
  and no balance has changed.\<close>

lemma pending_without_debit:
  assumes "bank_ok b" and "insert_refusal opts b = None" and "balance_of (fromAccountId opts) b < amountCents opts"
    and "performNaiveTransfer opts now AtInsert b = (pc, b')" and "performNaiveTransfer opts now' pc b' = (pc', b'')"
  shows "(\<exists>e. pc' = NaiveEnd (Threw Debiting e)) \<and> accounts b'' = accounts b
    \<and> transfers b'' = transfers b @ [new_transfer opts naive pending None (transfers_id_seq b)]"
proof -
  note ins = insert_accepted(1) [OF assms(2), of naive pending "None"]
  define b1 where "b1 = b\<lparr>transfers_id_seq := transfers_id_seq b + 1, transfers := transfers b @ [new_transfer opts naive pending None (transfers_id_seq b)]\<rparr>"
  have b': "pc = AtDebit (transfers_id_seq b)" "b' = b1" using assms(4) ins by (simp_all add: b1_def)
  have b1: "bank_ok b1" "fromAccountId opts \<in> account_ids b1" "balance_of (fromAccountId opts) b1 < amountCents opts"
    using bank_ok_insert [OF assms(1), of opts naive pending "None"] insert_accepted(5) [OF assms(2)] assms(3) by (simp_all add: b1_def)
  show ?thesis
    by (rule change_balance_cases [OF b1(1,2), of "- amountCents opts"])
      (use assms(5) b1(3) in \<open>auto simp: b' debit_statement_def b1_def\<close>)
qed

section \<open>The seed and the report\<close>

text \<open>
  \<open>seed.ts\<close> clears the tables and inserts the generated accounts; the identity columns count on. \<open>index.ts\<close> reports the total,
  cast to a 32-bit integer.\<close>

definition SIZE_PRESETS :: "(string \<times> nat) list" where
  "SIZE_PRESETS = [(''small'', 10), (''medium'', 100), (''large'', 1000)]"

definition seed_bank :: "'s faker \<Rightarrow> nat \<Rightarrow> int \<Rightarrow> nat \<Rightarrow> ledger \<Rightarrow> ledger" where
  "seed_bank f accountCount sd next_id b =
     b\<lparr>transfers := [],
       accounts := map (\<lambda>(i, a). \<lparr>acc_id = next_id + i, owner_name = ownerName a, balance_cents = opening_balance a,
         currency = account_currency a\<rparr>) (enumerate 0 (generateAccounts f accountCount sd None))\<rparr>"

definition reported_total :: "ledger \<Rightarrow> string + int" where
  "reported_total b =
     (if in_integer (getTotalBalanceCents b) then Inr (getTotalBalanceCents b) else Inl ''integer out of range'')"

lemma seed_bank_ok:
  assumes "faker_ok f"
  shows "bank_ok (seed_bank f n sd next_id b)"
proof -
  let ?gs = "generateAccounts f n sd None"
  have "map acc_id (accounts (seed_bank f n sd next_id b)) = map ((+) next_id) (map fst (enumerate 0 ?gs))"
    by (simp add: seed_bank_def comp_def split_beta del: map_fst_enumerate)
  then have "distinct (map acc_id (accounts (seed_bank f n sd next_id b)))" by (simp add: distinct_map)
  moreover have "0 \<le> balance_cents r \<and> balance_cents r < 2 ^ 31" if r: "r \<in> set (accounts (seed_bank f n sd next_id b))" for r
  proof -
    obtain i a where a: "(i, a) \<in> set (enumerate 0 ?gs)" "balance_cents r = opening_balance a" using r by (auto simp: seed_bank_def)
    then have "a \<in> set ?gs" by (auto simp: enumerate_eq_zip dest: set_zip_rightD)
    then show ?thesis using accounts_start_in_range [OF assms, of a] a(2) by fastforce
  qed
  ultimately show ?thesis by (simp add: bank_ok_def) (simp add: seed_bank_def)
qed

lemma seed_total: "getTotalBalanceCents (seed_bank f n sd next_id b) = sum_list (map opening_balance (generateAccounts f n sd None))"
proof -
  have "map balance_cents (accounts (seed_bank f n sd next_id b)) = map opening_balance (map snd (enumerate 0 (generateAccounts f n sd None)))"
    by (simp add: seed_bank_def comp_def split_beta del: map_snd_enumerate)
  then show ?thesis by (simp add: getTotalBalanceCents_def)
qed

text \<open>
  The large preset has a thousand accounts. When their balances are at least 2147484 cents, below the middle of their
  range, on average, the report cannot be made.\<close>

lemma report_fails_on_large_seed:
  assumes "2147484 * 1000 \<le> sum_list (map opening_balance (generateAccounts f 1000 sd None))"
  shows "reported_total (seed_bank f 1000 sd next_id b) = Inl ''integer out of range''"
  using assms by (simp add: reported_total_def in_integer_def seed_total)

end
