(* ===== verification/Generated_Orders.thy ===== *)
theory Generated_Orders
  imports Generators "HOL-Library.Multiset"
begin

text \<open>
  The orders, whole and in batches, of \<open>packages/data-generators/src/commerce.ts\<close> and the events and seats
  of \<open>ticketing.ts\<close>. A date is its milliseconds since the epoch. \<open>faker.date.past\<close> counts back from the clock: the \<open>k\<close>-th
  call reads \<open>clock k\<close>.
\<close>

section \<open>Orders\<close>

record GeneratedOrderLine =
  productIndex :: nat
  quantity :: int
  line_unitPriceCents :: int
  lineTotalCents :: int

record GeneratedOrder =
  customerIndex :: nat
  order_status :: string
  placedAt :: int
  order_lines :: "GeneratedOrderLine list"

definition STATUS_WEIGHTS :: "(string \<times> nat) list" where
  "STATUS_WEIGHTS = [(''paid'', 55), (''shipped'', 25), (''pending'', 12), (''cancelled'', 8)]"

definition statusPool :: "string list" where
  "statusPool = concat (map (\<lambda>(v, w). replicate w v) STATUS_WEIGHTS)"

definition orderableProductCount :: "GeneratedProduct list \<Rightarrow> nat" where
  "orderableProductCount products = max 1 (nat \<lfloor>of_nat (length products) * (8 / 10 :: rat)\<rfloor>)"

definition productIndexes :: "GeneratedProduct list \<Rightarrow> nat list" where
  "productIndexes products = take (orderableProductCount products) [0..<length products]"

definition order_line :: "'s faker \<Rightarrow> GeneratedProduct list \<Rightarrow> nat \<Rightarrow> 's \<Rightarrow> GeneratedOrderLine \<times> 's" where
  "order_line f products i s =
     (let (q, s) = int_between f 1 4 s; price = unitPriceCents (products ! i) in
      (\<lparr>productIndex = i, quantity = q, line_unitPriceCents = price, lineTotalCents = q * price\<rparr>, s))"

text \<open>One order; both generators have this body. The state is that of faker and the number of dates drawn.\<close>

definition generate_order ::
  "'s faker \<Rightarrow> (nat \<Rightarrow> int) \<Rightarrow> GeneratedProduct list \<Rightarrow> nat \<Rightarrow> 's \<times> nat \<Rightarrow> GeneratedOrder \<times> 's \<times> nat" where
  "generate_order f clock products c st =
     (let (s, k) = st;
          (placed, s) = past_years f (clock k) 1 s;
          (status, s) = arrayElement f statusPool s;
          (n, s) = int_between f 1 5 s;
          (is, s) = elements_of f (length (productIndexes products)) (nat n) s;
          (ls, s) = draw_each (order_line f products) (map (\<lambda>i. productIndexes products ! i) is) s in
      (\<lparr>customerIndex = c, order_status = status, placedAt = placed, order_lines = ls\<rparr>, (s, k + 1)))"

definition order_count :: "'s faker \<Rightarrow> int \<Rightarrow> 's \<times> nat \<Rightarrow> nat \<times> 's \<times> nat" where
  "order_count f maxOrders st = (let (n, s) = int_between f 0 maxOrders (fst st) in (nat n, (s, snd st)))"

definition customer_orders ::
  "'s faker \<Rightarrow> (nat \<Rightarrow> int) \<Rightarrow> GeneratedProduct list \<Rightarrow> int \<Rightarrow> nat \<Rightarrow> 's \<times> nat \<Rightarrow> GeneratedOrder list \<times> 's \<times> nat" where
  "customer_orders f clock products maxOrders c st =
     (let (n, st) = order_count f maxOrders st in draw_each (\<lambda>_. generate_order f clock products c) [0..<n] st)"

definition pushed_orders ::
  "'s faker \<Rightarrow> (nat \<Rightarrow> int) \<Rightarrow> 'c list \<Rightarrow> GeneratedProduct list \<Rightarrow> int \<Rightarrow> int \<Rightarrow> GeneratedOrder list" where
  "pushed_orders f clock customers products maxOrders seed =
     concat (fst (draw_each (customer_orders f clock products maxOrders) [0..<length customers] (seeded f (seed + 2), 0)))"

text \<open>\<open>Array.prototype.sort\<close> is stable.\<close>

definition generateOrders ::
  "'s faker \<Rightarrow> (nat \<Rightarrow> int) \<Rightarrow> 'c list \<Rightarrow> GeneratedProduct list \<Rightarrow> int \<Rightarrow> int \<Rightarrow> GeneratedOrder list" where
  "generateOrders f clock customers products maxOrders seed =
     sort_key placedAt (pushed_orders f clock customers products maxOrders seed)"

section \<open>Orders in batches\<close>

text \<open>The batches yielded so far and the one being filled.\<close>

type_synonym 'a batching = "'a list list \<times> 'a list"

definition push_order :: "nat \<Rightarrow> 'a batching \<Rightarrow> 'a \<Rightarrow> 'a batching" where
  "push_order batchSize b x =
     (let batch = snd b @ [x] in if batchSize \<le> length batch then (fst b @ [batch], []) else (fst b, batch))"

fun batch_orders :: "('s \<Rightarrow> 'a \<times> 's) \<Rightarrow> nat \<Rightarrow> nat \<Rightarrow> 's \<Rightarrow> 'a batching \<Rightarrow> 's \<times> 'a batching" where
  "batch_orders g batchSize 0 st b = (st, b)"
| "batch_orders g batchSize (Suc n) st b =
     (let (x, st) = g st in batch_orders g batchSize n st (push_order batchSize b x))"

fun batch_customers ::
  "'s faker \<Rightarrow> (nat \<Rightarrow> int) \<Rightarrow> GeneratedProduct list \<Rightarrow> int \<Rightarrow> nat \<Rightarrow> nat list \<Rightarrow> 's \<times> nat \<Rightarrow> GeneratedOrder batching
     \<Rightarrow> (('s \<times> nat) \<times> GeneratedOrder batching)" where
  "batch_customers f clock products maxOrders batchSize [] st b = (st, b)"
| "batch_customers f clock products maxOrders batchSize (c # cs) st b =
     (let (n, st) = order_count f maxOrders st;
          (st, b) = batch_orders (generate_order f clock products c) batchSize n st b in
      batch_customers f clock products maxOrders batchSize cs st b)"

definition generateOrdersBatched ::
  "'s faker \<Rightarrow> (nat \<Rightarrow> int) \<Rightarrow> 'c list \<Rightarrow> GeneratedProduct list \<Rightarrow> int \<Rightarrow> int \<Rightarrow> nat option \<Rightarrow> GeneratedOrder list list" where
  "generateOrdersBatched f clock customers products maxOrders seed batchSize =
     (let b = snd (batch_customers f clock products maxOrders (case batchSize of None \<Rightarrow> 1000 | Some n \<Rightarrow> n)
                     [0..<length customers] (seeded f (seed + 2), 0) ([], [])) in
      if snd b = [] then fst b else fst b @ [snd b])"

text \<open>Batching is a fold over the orders in the order they are drawn.\<close>

lemma batch_orders_fold:
  assumes "draw_each (\<lambda>_. g) [0..<n] st = (xs, st')"
  shows "batch_orders g full n st b = (st', foldl (push_order full) b xs)"
proof -
  have "draw_each (\<lambda>_. g) (is :: nat list) st = (xs, st') \<Longrightarrow> batch_orders g full (length is) st b = (st', foldl (push_order full) b xs)" for "is"
    by (induction "is" arbitrary: st xs b) (auto split: prod.splits)
  from this [OF assms] show ?thesis by simp
qed

lemma batch_customers_fold:
  "draw_each (customer_orders f clock products m) cs st = (xss, st') \<Longrightarrow>
   batch_customers f clock products m full cs st b = (st', foldl (push_order full) b (concat xss))"
proof (induction cs arbitrary: st xss b)
  case (Cons c cs)
  obtain n t where n: "order_count f m st = (n, t)" by (metis prod.exhaust)
  obtain xs u where o: "draw_each (\<lambda>_. generate_order f clock products c) [0..<n] t = (xs, u)" by (metis prod.exhaust)
  obtain yss w where r: "draw_each (customer_orders f clock products m) cs u = (yss, w)" by (metis prod.exhaust)
  have "customer_orders f clock products m c st = (xs, u)" using n o by (simp add: customer_orders_def)
  then have e: "xss = xs # yss" "w = st'" using Cons.prems r by simp_all
  show ?case using n batch_orders_fold [OF o] Cons.IH [OF r [unfolded e(2)]] e(1) by simp
qed simp

text \<open>The batches so far are full, the one being filled is not.\<close>

definition batching_ok :: "nat \<Rightarrow> 'a list \<Rightarrow> 'a batching \<Rightarrow> bool" where
  "batching_ok full xs b \<longleftrightarrow> concat (fst b) @ snd b = xs \<and> (\<forall>y \<in> set (fst b). length y = max 1 full) \<and> length (snd b) < max 1 full"

lemma push_order_ok: "batching_ok full xs b \<Longrightarrow> batching_ok full (xs @ [x]) (push_order full b x)"
  by (auto simp: batching_ok_def push_order_def Let_def max_def split: if_splits)

lemma foldl_push_order: "batching_ok full xs b \<Longrightarrow> batching_ok full (xs @ ys) (foldl (push_order full) b ys)"
proof (induction ys arbitrary: xs b)
  case (Cons y ys)
  from Cons.IH [OF push_order_ok [OF Cons.prems]] show ?case by simp
qed simp

text \<open>
  The streaming generator yields the orders of the unbatched one, whatever the library draws: sorting
  the concatenated batches by date gives exactly its result, all batches but the last hold the asked number of orders, and
  the last holds at least one and at most so many.\<close>

lemma batches_are_the_orders:
  "let bs = generateOrdersBatched f clock customers products maxOrders seed batchSize;
       full = max 1 (case batchSize of None \<Rightarrow> 1000 | Some n \<Rightarrow> n) in
   generateOrders f clock customers products maxOrders seed = sort_key placedAt (concat bs)
   \<and> mset (concat bs) = mset (generateOrders f clock customers products maxOrders seed)
   \<and> list_all (\<lambda>b. length b = full) (butlast bs)
   \<and> (bs = [] \<or> length (last bs) \<in> {1..full})"
proof -
  let ?full = "case batchSize of None \<Rightarrow> 1000 | Some n \<Rightarrow> n"
  obtain xss st' where d: "draw_each (customer_orders f clock products maxOrders) [0..<length customers] (seeded f (seed + 2), 0) = (xss, st')"
    by (metis prod.exhaust)
  define b where "b = foldl (push_order ?full) ([], []) (concat xss)"
  have ok: "batching_ok ?full (concat xss) b"
    using foldl_push_order [of ?full "[]" "([], [])" "concat xss"] by (simp add: batching_ok_def b_def)
  have bs: "generateOrdersBatched f clock customers products maxOrders seed batchSize = (if snd b = [] then fst b else fst b @ [snd b])"
    by (simp add: generateOrdersBatched_def batch_customers_fold [OF d] b_def Let_def)
  have c: "concat (generateOrdersBatched f clock customers products maxOrders seed batchSize) = concat xss"
    using ok unfolding bs by (auto simp: batching_ok_def)
  define L where "L = max 1 ?full"
  have L: "0 < L" "\<And>y. y \<in> set (fst b) \<Longrightarrow> length y = L" "length (snd b) < L"
    using ok by (auto simp: batching_ok_def L_def)
  have bl: "\<forall>x \<in> set (butlast (fst b)). length x = L" using L(2) by (meson in_set_butlastD)
  have "fst b \<noteq> [] \<Longrightarrow> length (last (fst b)) = L" using L(2) by simp
  then have "last (fst b) \<noteq> []" if "fst b \<noteq> []" using that L(1) by force
  then show ?thesis using L bl
    unfolding list_all_iff Let_def generateOrders_def pushed_orders_def d fst_conv c L_def [symmetric] by (auto simp: bs Suc_le_eq)
qed

text \<open>What an order of the generator is like.\<close>

definition line_fits :: "GeneratedProduct list \<Rightarrow> GeneratedOrderLine \<Rightarrow> bool" where
  "line_fits products l \<longleftrightarrow> productIndex l < length products \<and> productIndex l < orderableProductCount products
     \<and> 1 \<le> quantity l \<and> quantity l \<le> 4 \<and> line_unitPriceCents l = unitPriceCents (products ! productIndex l)
     \<and> lineTotalCents l = quantity l * line_unitPriceCents l"

definition order_fits :: "GeneratedProduct list \<Rightarrow> nat \<Rightarrow> GeneratedOrder \<Rightarrow> bool" where
  "order_fits products c x \<longleftrightarrow> Generated_Orders.customerIndex x = c \<and> order_status x \<in> fst ` set STATUS_WEIGHTS
     \<and> length (order_lines x) \<le> 5 \<and> (products \<noteq> [] \<longrightarrow> order_lines x \<noteq> [])
     \<and> distinct (map productIndex (order_lines x)) \<and> (\<forall>l \<in> set (order_lines x). line_fits products l)"

lemma order_line_values:
  assumes "faker_ok f" and "order_line f products j s = (y, s')"
  shows "productIndex y = j \<and> 1 \<le> quantity y \<and> quantity y \<le> 4
      \<and> line_unitPriceCents y = unitPriceCents (products ! j) \<and> lineTotalCents y = quantity y * line_unitPriceCents y"
proof -
  obtain q t where q: "int_between f 1 4 s = (q, t)" by fastforce
  have "1 \<le> q \<and> q \<le> 4" by (rule faker_ok_D(1) [OF assms(1) _ q]) simp
  then show ?thesis using assms(2) q by (auto simp: order_line_def Let_def)
qed

lemma generate_order_fits:
  assumes "faker_ok f" and "generate_order f clock products c st = (x, st')"
  shows "order_fits products c x"
proof -
  obtain s k where st: "st = (s, k)" by fastforce
  obtain placed s1 where p: "past_years f (clock k) 1 s = (placed, s1)" by fastforce
  obtain status s2 where a: "arrayElement f statusPool s1 = (status, s2)" by fastforce
  obtain n s3 where n: "int_between f 1 5 s2 = (n, s3)" by fastforce
  obtain "is" s4 where i: "elements_of f (length (productIndexes products)) (nat n) s3 = (is, s4)" by fastforce
  let ?chosen = "map (\<lambda>i. productIndexes products ! i) is"
  obtain ls s5 where l: "draw_each (order_line f products) ?chosen s4 = (ls, s5)" by fastforce
  have x: "x = \<lparr>customerIndex = c, order_status = status, placedAt = placed, order_lines = ls\<rparr>"
    using assms(2) by (simp add: generate_order_def st p a n i l del: One_nat_def)
  have "status \<in> set statusPool" by (rule arrayElement_in [OF assms(1) _ a]) (simp add: statusPool_def STATUS_WEIGHTS_def)
  then have status: "status \<in> fst ` set STATUS_WEIGHTS" by (force simp: statusPool_def)
  have n1: "1 \<le> n" "n \<le> 5" using faker_ok_D(1) [OF assms(1) _ n] by simp_all
  note chosen = faker_ok_D(3) [OF assms(1) i]
  have len: "length ls = min (length (productIndexes products)) (nat n)" using draw_each_length [OF l] chosen by simp
  have idx: "productIndexes products ! j < length products \<and> productIndexes products ! j < orderableProductCount products \<and> productIndexes products ! j = j"
    if "j < length (productIndexes products)" for j
    using that by (simp add: productIndexes_def)
  have "list_all2 (\<lambda>j y. productIndex y = j \<and> 1 \<le> quantity y \<and> quantity y \<le> 4
      \<and> line_unitPriceCents y = unitPriceCents (products ! j) \<and> lineTotalCents y = quantity y * line_unitPriceCents y) ?chosen ls"
    by (rule draw_each_all [OF l]) (rule order_line_values [OF assms(1)])
  moreover have same: "?chosen = is" using chosen idx by (intro map_idI) auto
  ultimately have each: "list_all2 (\<lambda>j y. productIndex y = j \<and> 1 \<le> quantity y \<and> quantity y \<le> 4
      \<and> line_unitPriceCents y = unitPriceCents (products ! j) \<and> lineTotalCents y = quantity y * line_unitPriceCents y) is ls" by simp
  have fits: "productIndex (ls ! j) = is ! j \<and> line_fits products (ls ! j)" if "j < length ls" for j
  proof -
    have j: "j < length is" using that each by (simp add: list_all2_lengthD)
    then have "is ! j < length (productIndexes products)" using chosen nth_mem by blast
    note idx [OF this]
    then show ?thesis using list_all2_nthD [OF each j] by (simp add: line_fits_def)
  qed
  have "map productIndex ls = is" using fits draw_each_length [OF l] by (intro nth_equalityI) simp_all
  moreover have "ls \<noteq> []" if "products \<noteq> []"
  proof -
    have "0 < length (productIndexes products)" using that by (simp add: productIndexes_def orderableProductCount_def)
    then have "0 < length ls" using len n1 by simp
    then show ?thesis by simp
  qed
  ultimately show ?thesis using status len n1 chosen fits unfolding x order_fits_def
    by (auto simp: in_set_conv_nth)
qed

lemma pushed_orders_by_customer:
  assumes "faker_ok f" and "0 \<le> maxOrders"
  shows "\<exists>xss. pushed_orders f clock customers products maxOrders seed = concat xss
    \<and> list_all2 (\<lambda>c xs. length xs \<le> nat maxOrders \<and> (\<forall>x \<in> set xs. order_fits products c x)) [0..<length customers] xss"
proof -
  obtain xss st' where d: "draw_each (customer_orders f clock products maxOrders) [0..<length customers] (seeded f (seed + 2), 0) = (xss, st')"
    by (metis prod.exhaust)
  have "list_all2 (\<lambda>c xs. length xs \<le> nat maxOrders \<and> (\<forall>x \<in> set xs. order_fits products c x)) [0..<length customers] xss"
  proof (rule draw_each_all [OF d])
    fix c st xs st'
    assume o: "customer_orders f clock products maxOrders c st = (xs, st')"
    obtain n t where n: "order_count f maxOrders st = (n, t)" by (metis prod.exhaust)
    then have g: "draw_each (\<lambda>_. generate_order f clock products c) [0..<n] t = (xs, st')"
      using o by (simp add: customer_orders_def)
    have "n \<le> nat maxOrders"
      using n faker_ok_D(1) [OF assms(1) assms(2)] by (fastforce simp: order_count_def split: prod.splits)
    moreover have "list_all2 (\<lambda>_. order_fits products c) [0..<n] xs"
      by (rule draw_each_all [OF g]) (rule generate_order_fits [OF assms(1)])
    ultimately show "length xs \<le> nat maxOrders \<and> (\<forall>x \<in> set xs. order_fits products c x)"
      using draw_each_length [OF g] by (auto dest: list_all2_right)
  qed
  then show ?thesis using d by (auto simp: pushed_orders_def)
qed

text \<open>
  The dates are not a function of the seed: they follow the clock. When faker's \<open>past\<close> lies within the asked number of
  years before the clock, two runs with one seed that are more than a year apart have no date in common.\<close>

definition year_ms :: int where "year_ms = 365 * 24 * 60 * 60 * 1000"

definition past_ok :: "'s faker \<Rightarrow> bool" where
  "past_ok f \<longleftrightarrow> (\<forall>now n s. now - int n * year_ms \<le> fst (past_years f now n s) \<and> fst (past_years f now n s) \<le> now)"

lemma generate_order_dates:
  assumes "past_ok f" and "\<And>k. lo \<le> clock k \<and> clock k \<le> hi" and "generate_order f clock products c st = (x, st')"
  shows "lo - year_ms \<le> placedAt x \<and> placedAt x \<le> hi"
proof -
  obtain s k where st: "st = (s, k)" by fastforce
  have "placedAt x = fst (past_years f (clock k) 1 s)" using assms(3) by (auto simp: generate_order_def st split: prod.splits)
  moreover have "clock k - int 1 * year_ms \<le> fst (past_years f (clock k) 1 s) \<and> fst (past_years f (clock k) 1 s) \<le> clock k"
    using assms(1) unfolding past_ok_def by blast
  ultimately show ?thesis using assms(2) [of k] by linarith
qed

lemma orders_follow_the_clock:
  assumes "past_ok f" and "\<And>k. lo \<le> clock k \<and> clock k \<le> hi" and "x \<in> set (generateOrders f clock customers products maxOrders seed)"
  shows "lo - year_ms \<le> placedAt x \<and> placedAt x \<le> hi"
proof -
  let ?P = "\<lambda>x. lo - year_ms \<le> placedAt x \<and> placedAt x \<le> hi"
  have "list_all2 (\<lambda>_ xs. \<forall>x \<in> set xs. ?P x) [0..<length customers]
      (fst (draw_each (customer_orders f clock products maxOrders) [0..<length customers] (seeded f (seed + 2), 0)))"
  proof (rule draw_each_all [OF prod.collapse [symmetric]])
    fix c st xs st'
    assume o: "customer_orders f clock products maxOrders c st = (xs, st')"
    obtain n t where n: "order_count f maxOrders st = (n, t)" by (metis prod.exhaust)
    then have g: "draw_each (\<lambda>_. generate_order f clock products c) [0..<n] t = (xs, st')"
      using o by (simp add: customer_orders_def)
    have "list_all2 (\<lambda>_. ?P) [0..<n] xs"
      by (rule draw_each_all [OF g]) (rule generate_order_dates [OF assms(1,2)])
    then show "\<forall>x \<in> set xs. ?P x" by (rule list_all2_right)
  qed
  moreover have "x \<in> set (pushed_orders f clock customers products maxOrders seed)" using assms(3) by (simp add: generateOrders_def)
  ultimately show ?thesis unfolding pushed_orders_def set_concat by (blast dest: list_all2_right)
qed

lemma orders_not_reproducible:
  assumes "past_ok f" and "\<And>k. clock k \<le> now" and "\<And>k. now + year_ms < clock' k" and "\<And>k. clock' k \<le> later" and "\<And>k. earlier \<le> clock k"
  shows "placedAt ` set (generateOrders f clock customers products maxOrders seed)
    \<inter> placedAt ` set (generateOrders f clock' customers products maxOrders seed) = {}"
proof -
  have "placedAt x \<le> now" if "x \<in> set (generateOrders f clock customers products maxOrders seed)" for x
    using orders_follow_the_clock [OF assms(1) _ that, of earlier now] assms(2,5) by blast
  moreover have "now < placedAt y" if "y \<in> set (generateOrders f clock' customers products maxOrders seed)" for y
    using orders_follow_the_clock [OF assms(1) _ that, of "now + year_ms + 1" later] assms(3,4) by (smt (verit))
  ultimately show ?thesis by fastforce
qed

section \<open>Events and seats\<close>

record GeneratedEvent =
  ev_publicId :: string
  ev_name :: string
  venueName :: string
  eventAt :: int

record GeneratedSeat =
  seat_publicId :: string
  eventIndex :: nat
  seat_section :: string
  seat_row :: string
  seatNumber :: nat

definition SECTIONS :: "string list" where "SECTIONS = [''A'', ''B'', ''C'']"
definition SEATS_PER_ROW :: nat where "SEATS_PER_ROW = 10"
definition EVENT_WINDOW_START :: int where "EVENT_WINDOW_START = 1767225600000"
definition EVENT_WINDOW_DAYS :: int where "EVENT_WINDOW_DAYS = 120"

definition generate_ticketed_event :: "'s faker \<Rightarrow> 's \<Rightarrow> GeneratedEvent \<times> 's" where
  "generate_ticketed_event f s =
     (let (artist, s) = personFullName f s;
          (days, s) = int_between f 1 EVENT_WINDOW_DAYS s;
          (u, s) = uuid f s;
          (place, s) = city f s in
      (\<lparr>ev_publicId = u, ev_name = artist @ '' Live'', venueName = place @ '' Arena'',
        eventAt = EVENT_WINDOW_START + days * 24 * 60 * 60 * 1000\<rparr>, s))"

definition generateEvents :: "'s faker \<Rightarrow> nat \<Rightarrow> int \<Rightarrow> GeneratedEvent list" where
  "generateEvents f n seed = fst (draw_each (\<lambda>_. generate_ticketed_event f) [0..<n] (seeded f (seed + 5)))"

text \<open>One pass over the sections and the seats of a row; \<open>True\<close> when the event has all its seats and the callback returns.\<close>

fun place_row ::
  "'s faker \<Rightarrow> nat \<Rightarrow> nat \<Rightarrow> nat \<Rightarrow> (string \<times> nat) list \<Rightarrow> nat \<Rightarrow> 's \<Rightarrow> GeneratedSeat list \<times> nat \<times> 's \<times> bool" where
  "place_row f e seatsPerEvent rowNumber [] placed s = ([], placed, s, False)"
| "place_row f e seatsPerEvent rowNumber ((sec, n) # ps) placed s =
     (if placed \<ge> seatsPerEvent then ([], placed, s, True)
      else (let (u, s) = uuid f s;
                (xs, r) = place_row f e seatsPerEvent rowNumber ps (placed + 1) s in
            (\<lparr>seat_publicId = u, eventIndex = e, seat_section = sec, seat_row = nat_str rowNumber, seatNumber = n\<rparr> # xs, r)))"

definition row_positions :: "(string \<times> nat) list" where
  "row_positions = List.product SECTIONS [1..<SEATS_PER_ROW + 1]"

lemma place_row_result:
  assumes "place_row f e m rowNumber ps placed s = (xs, placed', s', b)" and "placed \<le> m"
  shows "length xs = min (length ps) (m - placed) \<and> placed' = placed + length xs \<and> b = (m - placed < length ps)
    \<and> (\<forall>j < length xs. eventIndex (xs ! j) = e \<and> seat_row (xs ! j) = nat_str rowNumber
         \<and> (seat_section (xs ! j), seatNumber (xs ! j)) = ps ! j)"
  using assms
proof (induction ps arbitrary: placed s xs)
  case (Cons p ps)
  obtain sec n where p: "p = (sec, n)" by fastforce
  show ?case
  proof (cases "m \<le> placed")
    case True
    then show ?thesis using Cons.prems p by simp
  next
    case False
    obtain u t where u: "uuid f s = (u, t)" by fastforce
    obtain ys r where r: "place_row f e m rowNumber ps (placed + 1) t = (ys, r)" by (metis prod.exhaust)
    have r': "r = (placed', s', b)" using Cons.prems(1) False u r p by simp
    have xs: "xs = \<lparr>seat_publicId = u, eventIndex = e, seat_section = sec, seat_row = nat_str rowNumber, seatNumber = n\<rparr> # ys"
      using Cons.prems(1) False u r p by simp
    have IH: "length ys = min (length ps) (m - (placed + 1)) \<and> placed' = placed + 1 + length ys \<and> b = (m - (placed + 1) < length ps)
        \<and> (\<forall>j < length ys. eventIndex (ys ! j) = e \<and> seat_row (ys ! j) = nat_str rowNumber
             \<and> (seat_section (ys ! j), seatNumber (ys ! j)) = ps ! j)"
      by (rule Cons.IH [OF r [unfolded r']]) (use False in simp)
    moreover have "m - placed = Suc (m - (placed + 1))" using False by simp
    ultimately show ?thesis using p unfolding xs by (auto simp: less_Suc_eq_0_disj)
  qed
qed simp

lemma length_row_positions [simp]: "length row_positions = 30"
  by (simp add: row_positions_def SECTIONS_def SEATS_PER_ROW_def)

lemma row_positions_nth: "j < 30 \<Longrightarrow> row_positions ! j = (SECTIONS ! (j div 10), j mod 10 + 1)"
proof -
  assume j: "j < 30"
  have "row_positions ! j = (SECTIONS ! (j div length [1..<SEATS_PER_ROW + 1]), [1..<SEATS_PER_ROW + 1] ! (j mod length [1..<SEATS_PER_ROW + 1]))"
    unfolding row_positions_def by (rule product_nth) (use j in \<open>simp add: SECTIONS_def SEATS_PER_ROW_def\<close>)
  then show ?thesis by (simp add: SEATS_PER_ROW_def del: upt_Suc)
qed

text \<open>The \<open>while\<close> loop over the rows: a row that is not cut short places thirty seats.\<close>

function place_rows :: "'s faker \<Rightarrow> nat \<Rightarrow> nat \<Rightarrow> nat \<Rightarrow> nat \<Rightarrow> 's \<Rightarrow> GeneratedSeat list \<times> 's" where
  "place_rows f e seatsPerEvent rowNumber placed s =
     (if placed < seatsPerEvent
      then (case place_row f e seatsPerEvent rowNumber row_positions placed s of
              (xs, placed', s', stopped) \<Rightarrow>
                if stopped then (xs, s')
                else (let (ys, s'') = place_rows f e seatsPerEvent (rowNumber + 1) placed' s' in (xs @ ys, s'')))
      else ([], s))"
  by pat_completeness auto
termination
  by (relation "measure (\<lambda>(f, e, m, r, placed, s). m - placed)")
    (auto dest!: place_row_result [OF sym])

declare place_rows.simps [simp del]

definition generateSeats :: "'s faker \<Rightarrow> 'e list \<Rightarrow> nat \<Rightarrow> int \<Rightarrow> GeneratedSeat list" where
  "generateSeats f events seatsPerEvent seed =
     concat (fst (draw_each (\<lambda>e. place_rows f e seatsPerEvent 1 0) [0..<length events] (seeded f (seed + 6))))"

text \<open>The layout in closed form: where the \<open>j\<close>-th seat of an event stands.\<close>

definition seat_layout :: "nat \<Rightarrow> nat \<Rightarrow> nat \<times> string \<times> string \<times> nat" where
  "seat_layout e j = (e, SECTIONS ! (j div 10 mod 3), nat_str (j div 30 + 1), j mod 10 + 1)"

definition seat_position :: "GeneratedSeat \<Rightarrow> nat \<times> string \<times> string \<times> nat" where
  "seat_position x = (eventIndex x, seat_section x, seat_row x, seatNumber x)"

lemma digits_10_3:
  assumes "i div 10 mod 3 = j div 10 mod 3" and "i div 30 = j div 30" and "i mod 10 = j mod (10 :: nat)"
  shows "i = j"
proof -
  have "i div 10 div 3 = j div 10 div 3" using assms(2) by (simp add: div_mult2_eq [symmetric])
  with assms(1) have "i div 10 = j div 10" by (metis mult_div_mod_eq)
  with assms(3) show ?thesis by (metis mult_div_mod_eq)
qed

lemma seat_layout_inject: "seat_layout e i = seat_layout e' j \<longleftrightarrow> e = e' \<and> i = j"
proof
  assume l: "seat_layout e i = seat_layout e' j"
  have "SECTIONS ! (i div 10 mod 3) = SECTIONS ! (j div 10 mod 3)" using l by (simp add: seat_layout_def)
  moreover have "distinct SECTIONS" "i div 10 mod 3 < length SECTIONS" "j div 10 mod 3 < length SECTIONS" by (simp_all add: SECTIONS_def)
  ultimately have "i div 10 mod 3 = j div 10 mod 3" by (simp only: nth_eq_iff_index_eq)
  moreover have "i div 30 = j div 30" "i mod 10 = j mod 10" using l by (simp_all add: seat_layout_def)
  ultimately have "i = j" by (rule digits_10_3)
  then show "e = e' \<and> i = j" using l by (simp add: seat_layout_def)
qed simp

lemma row_digits:
  assumes "j < 30"
  shows "(30 * r + j) div 10 mod 3 = j div 10" and "(30 * r + j) div 30 = r" and "(30 * r + j) mod 10 = j mod (10 :: nat)"
proof -
  have e: "30 * r + j = j + 10 * (3 * r)" by simp
  have d: "(30 * r + j) div 10 = j div 10 + 3 * r" unfolding e by (subst div_mult_self2) simp_all
  have "j div 10 < 3" using assms by simp
  then show "(30 * r + j) div 10 mod 3 = j div 10" unfolding d by (simp only: mod_mult_self2 mod_less)
  show "(30 * r + j) mod 10 = j mod 10" unfolding e by (simp only: mod_mult_self2)
  show "(30 * r + j) div 30 = r" using assms by simp
qed

lemma place_rows_layout:
  "placed = 30 * rowNumber \<Longrightarrow> placed \<le> m \<Longrightarrow>
   map seat_position (fst (place_rows f e m (rowNumber + 1) placed s)) = map (seat_layout e) [placed..<m]"
proof (induction "m - placed" arbitrary: placed rowNumber s rule: less_induct)
  case less
  show ?case
  proof (cases "placed < m")
    case True
    obtain xs p t b where r: "place_row f e m (rowNumber + 1) row_positions placed s = (xs, p, t, b)" by (metis prod.exhaust)
    note R = place_row_result [OF r less.prems(2)]
    have xs: "map seat_position xs = map (seat_layout e) [placed..<p]"
    proof (rule nth_equalityI)
      show "length (map seat_position xs) = length (map (seat_layout e) [placed..<p])" using R by simp
      fix j
      assume "j < length (map seat_position xs)"
      then have j: "j < length xs" "j < 30" "placed + j < p" using R by auto
      have "eventIndex (xs ! j) = e" "seat_row (xs ! j) = nat_str (rowNumber + 1)"
          "(seat_section (xs ! j), seatNumber (xs ! j)) = row_positions ! j" using R j(1) by blast+
      then have "seat_position (xs ! j) = seat_layout e (placed + j)"
        unfolding seat_position_def seat_layout_def less.prems(1) row_digits [OF j(2)] row_positions_nth [OF j(2)] by simp
      then show "map seat_position xs ! j = map (seat_layout e) [placed..<p] ! j" using j by simp
    qed
    show ?thesis
    proof (cases b)
      case True
      then have "p = m" using R less.prems(2) by auto
      then show ?thesis using True \<open>placed < m\<close> r xs by (subst place_rows.simps) simp
    next
      case False
      then have p: "p = placed + 30" "p \<le> m" using R less.prems(2) by auto
      have "map seat_position (fst (place_rows f e m (rowNumber + 1 + 1) p t)) = map (seat_layout e) [p..<m]"
        by (rule less.hyps) (use p True less.prems in auto)
      moreover have "[placed..<m] = [placed..<p] @ [p..<m]" using upt_add_eq_append [of placed p "m - p"] p by simp
      ultimately show ?thesis using False \<open>placed < m\<close> r xs by (subst place_rows.simps) (simp add: split_beta)
    qed
  next
    case False
    then show ?thesis by (subst place_rows.simps) simp
  qed
qed

text \<open>Every event gets exactly the seats asked for, in the order of the layout; no place is given twice.\<close>

lemma seats_fill_the_layout:
  "map seat_position (generateSeats f events seatsPerEvent seed)
     = concat (map (\<lambda>e. map (seat_layout e) [0..<seatsPerEvent]) [0..<length events])
   \<and> distinct (map seat_position (generateSeats f events seatsPerEvent seed))"
proof -
  have "map (map seat_position) (fst (draw_each (\<lambda>e. place_rows f e seatsPerEvent 1 0) es s))
      = map (\<lambda>e. map (seat_layout e) [0..<seatsPerEvent]) es" for es s
  proof (induction es arbitrary: s)
    case (Cons e es)
    then show ?case using place_rows_layout [of 0 0 seatsPerEvent f e s] by (simp add: split_beta Let_def)
  qed simp
  then have eq: "map seat_position (generateSeats f events seatsPerEvent seed)
     = concat (map (\<lambda>e. map (seat_layout e) [0..<seatsPerEvent]) [0..<length events])"
    unfolding generateSeats_def map_concat by simp
  have "concat (map (\<lambda>e. map (seat_layout e) js) es) = map (\<lambda>p. seat_layout (fst p) (snd p)) (List.product es js)" for es js
    by (induction es) (simp_all add: comp_def)
  then have "distinct (concat (map (\<lambda>e. map (seat_layout e) [0..<seatsPerEvent]) [0..<length events]))"
    by (auto simp: distinct_map distinct_product inj_on_def seat_layout_inject)
  then show ?thesis using eq by simp
qed

lemma seats_per_event: "length (generateSeats f events seatsPerEvent seed) = length events * seatsPerEvent"
proof -
  have "length (generateSeats f events seatsPerEvent seed) = length (map seat_position (generateSeats f events seatsPerEvent seed))" by simp
  also have "\<dots> = length events * seatsPerEvent"
    using seats_fill_the_layout [of f events seatsPerEvent seed] by (simp add: length_concat comp_def sum_list_triv)
  finally show ?thesis .
qed

end
