(* ===== verification/Commerce_Seeds.thy ===== *)
theory Commerce_Seeds
  imports Generated_Orders
begin

text \<open>
  The seeds of the commerce labs, \<open>labs/03-*\<close>, \<open>labs/04-*\<close> and \<open>labs/33-*/src/seed\<close>: the arguments, the inserts in batches
  with the identities the server returns, the stream of orders with their lines, and the channel that Lab 33 draws for
  each order. An identity column counts on; a row of customers or products is its identity with the generated record.
\<close>

section \<open>The arguments\<close>

record Preset =
  preset_customers :: nat
  preset_products :: nat
  maxOrdersPerCustomer :: int

definition preset :: "nat \<Rightarrow> nat \<Rightarrow> int \<Rightarrow> Preset" where
  "preset c p m = \<lparr>preset_customers = c, preset_products = p, maxOrdersPerCustomer = m\<rparr>"

definition SIZE_PRESETS_03 :: "(string \<times> Preset) list" where
  "SIZE_PRESETS_03 = [(''small'', preset 300 80 6), (''medium'', preset 2000 200 8), (''large'', preset 8000 400 10)]"

definition SIZE_PRESETS_04 :: "(string \<times> Preset) list" where
  "SIZE_PRESETS_04 = [(''small'', preset 300 80 6), (''medium'', preset 5000 200 8), (''large'', preset 60000 500 10)]"

definition SIZE_PRESETS_33 :: "(string \<times> Preset) list" where
  "SIZE_PRESETS_33 = [(''small'', preset 300 80 6), (''medium'', preset 5000 200 8), (''large'', preset 40000 400 10)]"

definition ROWS_MAX_ORDERS_PER_CUSTOMER :: int where "ROWS_MAX_ORDERS_PER_CUSTOMER = 10"

definition ROWS_PER_CUSTOMER_ESTIMATE :: int where "ROWS_PER_CUSTOMER_ESTIMATE = ROWS_MAX_ORDERS_PER_CUSTOMER * 2"

text \<open>
  \<open>size in SIZE_PRESETS\<close> also finds the names every object inherits (\<open>toString\<close>); here only the three presets are found.
  \<open>args.find((a) => a.startsWith(flag))\<close> and \<open>split("=")[1]\<close>: what stands between the first and the second sign.\<close>

definition flag_arg :: "string \<Rightarrow> string list \<Rightarrow> string option" where
  "flag_arg flag args = find (\<lambda>a. take (length flag) a = flag) args"

definition after_equals :: "string \<Rightarrow> string" where
  "after_equals a = takeWhile (\<lambda>c. c \<noteq> CHR ''='') (tl (dropWhile (\<lambda>c. c \<noteq> CHR ''='') a))"

text \<open>
  \<open>num\<close> is \<open>Number\<close>, with \<open>None\<close> for what is not finite; the seed is handed on as it is. \<open>Math.ceil\<close> is the ceiling.\<close>

definition parse_size :: "(string \<times> Preset) list \<Rightarrow> string list \<Rightarrow> string + Preset" where
  "parse_size presets args =
     (let size = (case flag_arg ''--size='' args of None \<Rightarrow> ''small'' | Some a \<Rightarrow> after_equals a) in
      case map_of presets size of
        None \<Rightarrow> Inl (''Unknown --size '' @ CHR 0x22 # size @ CHR 0x22 # ''. Use small, medium, or large.'')
      | Some p \<Rightarrow> Inr p)"

definition parse_seed :: "(string \<Rightarrow> rat option) \<Rightarrow> string list \<Rightarrow> rat option" where
  "parse_seed num args = (case flag_arg ''--seed='' args of None \<Rightarrow> Some 42 | Some a \<Rightarrow> num (after_equals a))"

definition parse_args_03 :: "(string \<Rightarrow> rat option) \<Rightarrow> string list \<Rightarrow> string + rat option \<times> Preset" where
  "parse_args_03 num args = map_sum id (Pair (parse_seed num args)) (parse_size SIZE_PRESETS_03 args)"

definition parse_args_rows :: "(string \<times> Preset) list \<Rightarrow> (string \<Rightarrow> rat option) \<Rightarrow> string list \<Rightarrow> string + rat option \<times> Preset" where
  "parse_args_rows presets num args =
     (case flag_arg ''--rows='' args of
        Some a \<Rightarrow>
          (case num (after_equals a) of
             Some rows \<Rightarrow>
               if rows \<le> 0 then Inl (''Invalid --rows value '' @ CHR 0x22 # a @ [CHR 0x22])
               else (let customerCount = max 1 \<lceil>rows / of_int ROWS_PER_CUSTOMER_ESTIMATE\<rceil> in
                     Inr (parse_seed num args,
                          preset (nat customerCount) (nat (max 200 \<lceil>of_int customerCount / (100 :: rat)\<rceil>)) ROWS_MAX_ORDERS_PER_CUSTOMER))
           | None \<Rightarrow> Inl (''Invalid --rows value '' @ CHR 0x22 # a @ [CHR 0x22]))
      | None \<Rightarrow> map_sum id (Pair (parse_seed num args)) (parse_size presets args))"

definition parse_args_04 :: "(string \<Rightarrow> rat option) \<Rightarrow> string list \<Rightarrow> string + rat option \<times> Preset" where
  "parse_args_04 = parse_args_rows SIZE_PRESETS_04"

definition parse_args_33 :: "(string \<Rightarrow> rat option) \<Rightarrow> string list \<Rightarrow> string + rat option \<times> Preset" where
  "parse_args_33 = parse_args_rows SIZE_PRESETS_33"

text \<open>Rows asked for are expected within one customer's share.\<close>

lemma rows_to_customers:
  assumes "flag_arg ''--rows='' args = Some a" and "num (after_equals a) = Some rows" and "0 < rows"
  shows "\<exists>p. parse_args_rows presets num args = Inr (parse_seed num args, p)
    \<and> rows \<le> 20 * of_nat (preset_customers p) \<and> 20 * of_nat (preset_customers p) < rows + 20 \<and> 200 \<le> preset_products p
    \<and> of_nat (preset_customers p) \<le> 100 * (of_nat (preset_products p) :: rat)"
proof -
  define c where "c = max 1 \<lceil>rows / 20\<rceil>"
  define q where "q = max 200 \<lceil>of_int c / (100 :: rat)\<rceil>"
  have c1: "1 \<le> c" by (simp add: c_def)
  have pos: "0 < \<lceil>rows / 20\<rceil>" using assms(3) by simp
  then have c: "c = \<lceil>rows / 20\<rceil>" by (simp add: c_def)
  then have "rows / 20 \<le> of_int c" "of_int c - 1 < rows / 20" using ceiling_correct [of "rows / 20"] by auto
  moreover have "of_int c / 100 \<le> (of_int q :: rat)" unfolding q_def by (meson ceiling_le_iff max.cobounded2 order_trans le_of_int_ceiling of_int_le_iff)
  moreover have "200 \<le> q" by (simp add: q_def)
  moreover have "parse_args_rows presets num args = Inr (parse_seed num args, preset (nat c) (nat q) 10)"
    using assms by (simp add: parse_args_rows_def c_def q_def ROWS_PER_CUSTOMER_ESTIMATE_def ROWS_MAX_ORDERS_PER_CUSTOMER_def Let_def)
  ultimately show ?thesis using c1 by (auto simp: preset_def)
qed

section \<open>The tables\<close>

record order_row =
  ord_id :: nat
  ord_customerId :: nat
  ord_status :: string
  channel :: "string option"
  ord_placedAt :: int

record order_line_row =
  ln_orderId :: nat
  ln_productId :: nat
  ln_quantity :: int
  ln_unitPriceCents :: int
  ln_lineTotalCents :: int

record commerce_db =
  customers :: "(nat \<times> GeneratedCustomer) list"
  products :: "(nat \<times> GeneratedProduct) list"
  orders :: "order_row list"
  orderLines :: "order_line_row list"
  customers_id_seq :: nat
  products_id_seq :: nat
  orders_id_seq :: nat

definition clear_tables :: "commerce_db \<Rightarrow> commerce_db" where
  "clear_tables db = db\<lparr>customers := [], products := [], orders := [], orderLines := []\<rparr>"

text \<open>The loop over chunks; it is only called with positive sizes.\<close>

function insertInBatches :: "nat \<Rightarrow> ('a list \<Rightarrow> 's \<Rightarrow> 's) \<Rightarrow> 'a list \<Rightarrow> 's \<Rightarrow> 's" where
  "insertInBatches chunkSize insertFn rows st =
     (if rows = [] \<or> chunkSize = 0 then st
      else insertInBatches chunkSize insertFn (drop chunkSize rows) (insertFn (take chunkSize rows) st))"
  by pat_completeness auto
termination
  by (relation "measure (\<lambda>(_, _, rows, _). length rows)") auto

declare insertInBatches.simps [simp del]

text \<open>The random \<open>public_id\<close> of the tables, a default of the database that no code reads back, is left out with its uniqueness.\<close>

definition insert_customers :: "GeneratedCustomer list \<Rightarrow> commerce_db \<times> nat list \<Rightarrow> commerce_db \<times> nat list" where
  "insert_customers chunk st =
     (let (db, ids) = st; n = customers_id_seq db; new = [n..<n + length chunk] in
      (db\<lparr>customers := customers db @ zip new chunk, customers_id_seq := n + length chunk\<rparr>, ids @ new))"

definition insert_products :: "GeneratedProduct list \<Rightarrow> commerce_db \<times> nat list \<Rightarrow> commerce_db \<times> nat list" where
  "insert_products chunk st =
     (let (db, ids) = st; n = products_id_seq db; new = [n..<n + length chunk] in
      (db\<lparr>products := products db @ zip new chunk, products_id_seq := n + length chunk\<rparr>, ids @ new))"

definition order_values :: "nat list \<Rightarrow> nat \<Rightarrow> string option \<Rightarrow> GeneratedOrder \<Rightarrow> order_row" where
  "order_values customerIds i ch x =
     \<lparr>ord_id = i, ord_customerId = customerIds ! customerIndex x, ord_status = order_status x, channel = ch, ord_placedAt = placedAt x\<rparr>"

definition line_values :: "nat list \<Rightarrow> nat \<Rightarrow> GeneratedOrder \<Rightarrow> order_line_row list" where
  "line_values productIds i x =
     map (\<lambda>l. \<lparr>ln_orderId = i, ln_productId = productIds ! productIndex l, ln_quantity = quantity l,
       ln_unitPriceCents = line_unitPriceCents l, ln_lineTotalCents = lineTotalCents l\<rparr>) (order_lines x)"

definition insert_order_batch :: "nat list \<Rightarrow> nat list \<Rightarrow> GeneratedOrder list \<Rightarrow> string option list \<Rightarrow> commerce_db \<Rightarrow> commerce_db" where
  "insert_order_batch customerIds productIds batch chs db =
     (let n = orders_id_seq db; ids = [n..<n + length batch] in
      db\<lparr>orders := orders db @ map (\<lambda>(i, ch, x). order_values customerIds i ch x) (zip ids (zip chs batch)),
         orderLines := orderLines db @ concat (map (\<lambda>(i, x). line_values productIds i x) (zip ids batch)),
         orders_id_seq := n + length batch\<rparr>)"

section \<open>The seeds\<close>

definition CUSTOMER_BATCH_SIZE :: nat where "CUSTOMER_BATCH_SIZE = 5000"
definition PRODUCT_BATCH_SIZE :: nat where "PRODUCT_BATCH_SIZE = 5000"
definition ORDER_BATCH_SIZE :: nat where "ORDER_BATCH_SIZE = 2000"
definition BATCH_SIZE :: nat where "BATCH_SIZE = 500"

text \<open>Customers and products of Labs 04 and 33: in chunks, with the identities collected.\<close>

definition seed_catalog :: "GeneratedCustomer list \<Rightarrow> GeneratedProduct list \<Rightarrow> commerce_db \<Rightarrow> commerce_db \<times> nat list \<times> nat list" where
  "seed_catalog cs ps db =
     (let (db, customerIds) = insertInBatches CUSTOMER_BATCH_SIZE insert_customers cs (clear_tables db, []);
          (db, productIds) = insertInBatches PRODUCT_BATCH_SIZE insert_products ps (db, []) in
      (db, customerIds, productIds))"

definition seed_04 :: "'s faker \<Rightarrow> (nat \<Rightarrow> int) \<Rightarrow> Preset \<Rightarrow> int \<Rightarrow> commerce_db \<Rightarrow> commerce_db" where
  "seed_04 f clock p sd db =
     (let cs = generateCustomers f (preset_customers p) sd;
          ps = generateProducts f (preset_products p) sd;
          (db, customerIds, productIds) = seed_catalog cs ps db in
      foldl (\<lambda>db batch. insert_order_batch customerIds productIds batch (map (\<lambda>_. None) batch) db) db
        (generateOrdersBatched f clock cs ps (maxOrdersPerCustomer p) sd (Some ORDER_BATCH_SIZE)))"

definition CHANNELS :: "string list" where "CHANNELS = [''web'', ''mobile'', ''phone'', ''store'']"

definition CANCELLED_PHONE_BIAS :: rat where "CANCELLED_PHONE_BIAS = 85 / 100"

definition pickChannel :: "'s faker \<Rightarrow> string \<Rightarrow> 's \<Rightarrow> string \<times> 's" where
  "pickChannel f st s =
     (if st = ''cancelled''
      then (let (x, s) = unit_float f s in if x < CANCELLED_PHONE_BIAS then (''phone'', s) else arrayElement f CHANNELS s)
      else arrayElement f CHANNELS s)"

definition seed_33_batch :: "'s faker \<Rightarrow> nat list \<Rightarrow> nat list \<Rightarrow> commerce_db \<times> 's \<Rightarrow> GeneratedOrder list \<Rightarrow> commerce_db \<times> 's" where
  "seed_33_batch f customerIds productIds st batch =
     (let (db, s) = st; (chs, s) = draw_each (\<lambda>x. pickChannel f (order_status x)) batch s in
      (insert_order_batch customerIds productIds batch (map Some chs) db, s))"

definition seed_33 :: "'s faker \<Rightarrow> (nat \<Rightarrow> int) \<Rightarrow> Preset \<Rightarrow> int \<Rightarrow> commerce_db \<Rightarrow> commerce_db" where
  "seed_33 f clock p sd db =
     (let cs = generateCustomers f (preset_customers p) sd;
          ps = generateProducts f (preset_products p) sd;
          (db, customerIds, productIds) = seed_catalog cs ps db in
      fst (foldl (seed_33_batch f customerIds productIds) (db, seeded f (sd + 3))
        (generateOrdersBatched f clock cs ps (maxOrdersPerCustomer p) sd (Some ORDER_BATCH_SIZE))))"

text \<open>Lab 03 inserts the catalogue in one statement each and the sorted orders in slices.\<close>

definition seed_03 :: "'s faker \<Rightarrow> (nat \<Rightarrow> int) \<Rightarrow> Preset \<Rightarrow> int \<Rightarrow> commerce_db \<Rightarrow> commerce_db \<times> int" where
  "seed_03 f clock p sd db =
     (let cs = generateCustomers f (preset_customers p) sd;
          (db, customerIds) = insert_customers cs (clear_tables db, []);
          ps = generateProducts f (preset_products p) sd;
          (db, productIds) = insert_products ps (db, []);
          os = generateOrders f clock cs ps (maxOrdersPerCustomer p) sd in
      (insertInBatches BATCH_SIZE (\<lambda>batch db. insert_order_batch customerIds productIds batch (map (\<lambda>_. None) batch) db) os db,
       int (preset_customers p) - int (card (customerIndex ` set os))))"

section \<open>What the tables hold\<close>

definition index_of :: "'a \<Rightarrow> 'a list \<Rightarrow> nat" where
  "index_of x xs = length (takeWhile (\<lambda>y. y \<noteq> x) xs)"

lemma index_of_nth: "distinct xs \<Longrightarrow> i < length xs \<Longrightarrow> index_of (xs ! i) xs = i"
proof (induction xs arbitrary: i)
  case (Cons x xs)
  then show ?case by (cases i) (auto simp: index_of_def)
qed simp

text \<open>The orders read back from the tables: identities replaced by positions.\<close>

definition read_line :: "nat list \<Rightarrow> order_line_row \<Rightarrow> GeneratedOrderLine" where
  "read_line productIds l =
     \<lparr>productIndex = index_of (ln_productId l) productIds, quantity = ln_quantity l, line_unitPriceCents = ln_unitPriceCents l,
      lineTotalCents = ln_lineTotalCents l\<rparr>"

definition read_order :: "nat list \<Rightarrow> nat list \<Rightarrow> order_line_row list \<Rightarrow> order_row \<Rightarrow> GeneratedOrder" where
  "read_order customerIds productIds ls r =
     \<lparr>customerIndex = index_of (ord_customerId r) customerIds, order_status = ord_status r, placedAt = ord_placedAt r,
      order_lines = map (read_line productIds) (filter (\<lambda>l. ln_orderId l = ord_id r) ls)\<rparr>"

definition read_orders :: "commerce_db \<Rightarrow> GeneratedOrder list" where
  "read_orders db = map (read_order (map fst (customers db)) (map fst (products db)) (orderLines db)) (orders db)"

definition stored :: "commerce_db \<Rightarrow> GeneratedOrder list \<Rightarrow> bool" where
  "stored db os \<longleftrightarrow> read_orders db = os \<and> distinct (map fst (customers db)) \<and> distinct (map fst (products db))
     \<and> distinct (map ord_id (orders db)) \<and> (\<forall>r \<in> set (orders db). ord_id r < orders_id_seq db \<and> ord_customerId r \<in> fst ` set (customers db))
     \<and> (\<forall>l \<in> set (orderLines db). ln_orderId l \<in> ord_id ` set (orders db) \<and> ln_productId l \<in> fst ` set (products db))"

definition indexes_ok :: "nat \<Rightarrow> nat \<Rightarrow> GeneratedOrder \<Rightarrow> bool" where
  "indexes_ok c p x \<longleftrightarrow> customerIndex x < c \<and> (\<forall>l \<in> set (order_lines x). productIndex l < p)"

lemma read_line_values:
  assumes "distinct productIds" and "\<forall>l \<in> set (order_lines x). productIndex l < length productIds"
  shows "map (read_line productIds) (line_values productIds i x) = order_lines x"
proof -
  have "map (read_line productIds) (line_values productIds i x) = map (\<lambda>l. l) (order_lines x)"
    unfolding line_values_def map_map
    by (rule map_cong [OF refl]) (use assms in \<open>simp add: read_line_def index_of_nth\<close>)
  then show ?thesis by simp
qed

lemma lines_of_one_order:
  "j < length batch \<Longrightarrow>
   filter (\<lambda>l. ln_orderId l = n + j) (concat (map (\<lambda>(i, x). line_values pids i x) (zip [n..<n + length batch] batch))) = line_values pids (n + j) (batch ! j)"
proof (induction batch arbitrary: n j)
  case (Cons x xs)
  have own: "filter (\<lambda>l. ln_orderId l = k) (line_values pids i y) = (if i = k then line_values pids i y else [])" for k i y
    by (simp add: line_values_def filter_map comp_def)
  have later: "filter (\<lambda>l. ln_orderId l = n) (concat (map (\<lambda>(i, x). line_values pids i x) (zip [Suc n..<Suc n + length xs] xs))) = []"
    by (auto simp: filter_empty_conv line_values_def dest: set_zip_leftD)
  have u: "[n..<n + length (x # xs)] = n # [Suc n..<Suc n + length xs]"
    using upt_conv_Cons [of n "n + length (x # xs)"] by (simp del: upt_Suc)
  show ?case
  proof (cases j)
    case 0
    have "n + j = n" using 0 by simp
    then show ?thesis using later unfolding u by (simp add: own 0 del: upt_Suc)
  next
    case (Suc k)
    then show ?thesis using Cons.IH [of k "Suc n"] Cons.prems unfolding u by (simp add: own del: upt_Suc)
  qed
qed simp

lemma insert_order_batch_stored:
  assumes s: "stored db os" and chs: "length chs = length batch"
    and i: "\<forall>x \<in> set batch. indexes_ok (length (customers db)) (length (products db)) x"
  shows "stored (insert_order_batch (map fst (customers db)) (map fst (products db)) batch chs db) (os @ batch)"
proof -
  let ?c = "map fst (customers db)" and ?p = "map fst (products db)" and ?n = "orders_id_seq db"
  let ?ids = "[?n..<?n + length batch]"
  let ?new = "map (\<lambda>(i, ch, x). order_values ?c i ch x) (zip ?ids (zip chs batch))"
  let ?nl = "concat (map (\<lambda>(i, x). line_values ?p i x) (zip ?ids batch))"
  let ?db = "insert_order_batch ?c ?p batch chs db"
  have d: "distinct ?c" "distinct ?p" and old: "\<forall>r \<in> set (orders db). ord_id r < ?n"
    and fk: "\<forall>l \<in> set (orderLines db). ln_orderId l \<in> ord_id ` set (orders db) \<and> ln_productId l \<in> fst ` set (products db)"
    and ro: "map (read_order ?c ?p (orderLines db)) (orders db) = os"
    using s by (simp_all add: stored_def read_orders_def)
  have db: "orders ?db = orders db @ ?new" "orderLines ?db = orderLines db @ ?nl" "orders_id_seq ?db = ?n + length batch"
    "customers ?db = customers db" "products ?db = products db"
    by (simp_all add: insert_order_batch_def Let_def)
  have new: "length ?new = length batch" "\<And>j. j < length batch \<Longrightarrow> ?new ! j = order_values ?c (?n + j) (chs ! j) (batch ! j)"
    using chs by simp_all
  have nl: "?n \<le> ln_orderId l \<and> ln_orderId l < ?n + length batch" if "l \<in> set ?nl" for l
    using that by (auto simp: line_values_def dest: set_zip_leftD)
  have same: "read_order ?c ?p (orderLines ?db) r = read_order ?c ?p (orderLines db) r" if "r \<in> set (orders db)" for r
  proof -
    have "filter (\<lambda>l. ln_orderId l = ord_id r) ?nl = []" using nl old that by (fastforce simp: filter_empty_conv)
    then show ?thesis by (simp add: read_order_def db(2))
  qed
  have ro1: "map (read_order ?c ?p (orderLines ?db)) (orders db) = os" unfolding ro [symmetric] by (rule map_cong [OF refl same])
  have "map (read_order ?c ?p (orderLines ?db)) ?new = batch"
  proof (rule nth_equalityI)
    fix j assume "j < length (map (read_order ?c ?p (orderLines ?db)) ?new)"
    then have j: "j < length batch" using new(1) by simp
    have x: "customerIndex (batch ! j) < length ?c" "\<forall>l \<in> set (order_lines (batch ! j)). productIndex l < length ?p"
      using i nth_mem [OF j] by (auto simp: indexes_ok_def)
    have "filter (\<lambda>l. ln_orderId l = ?n + j) (orderLines db) = []" using fk old by (fastforce simp: filter_empty_conv)
    then have "filter (\<lambda>l. ln_orderId l = ?n + j) (orderLines ?db) = line_values ?p (?n + j) (batch ! j)"
      unfolding db(2) filter_append lines_of_one_order [OF j] by simp
    then have "read_order ?c ?p (orderLines ?db) (order_values ?c (?n + j) (chs ! j) (batch ! j)) = batch ! j"
      using read_line_values [OF d(2) x(2)] index_of_nth [OF d(1) x(1)] by (simp add: read_order_def order_values_def)
    then show "map (read_order ?c ?p (orderLines ?db)) ?new ! j = batch ! j" using j new by (simp only: nth_map length_map)
  qed (use new(1) in simp)
  then have ro': "read_orders ?db = os @ batch" unfolding read_orders_def db(4,5) using ro1 by (simp only: db(1) map_append)
  have ids: "map ord_id ?new = ?ids"
    by (rule nth_equalityI) (use new in \<open>simp_all add: order_values_def del: upt_Suc\<close>)
  have di: "distinct (map ord_id (orders ?db))"
    using s old unfolding db(1) map_append distinct_append ids by (auto simp: stored_def)
  have o: "ord_id r < orders_id_seq ?db \<and> ord_customerId r \<in> fst ` set (customers ?db)" if "r \<in> set (orders ?db)" for r
  proof (cases "r \<in> set (orders db)")
    case True
    then show ?thesis using s unfolding db(3,4) stored_def by fastforce
  next
    case False
    then have "r \<in> set ?new" using that unfolding db(1) by simp
    then obtain j where j: "j < length batch" "r = order_values ?c (?n + j) (chs ! j) (batch ! j)" using new by (metis in_set_conv_nth)
    have "customerIndex (batch ! j) < length ?c" using i j(1) by (simp add: indexes_ok_def)
    then have "?c ! customerIndex (batch ! j) \<in> set ?c" by (rule nth_mem)
    then show ?thesis unfolding db(3,4) j(2) using j(1) by (simp add: order_values_def)
  qed
  have l: "ln_orderId l \<in> ord_id ` set (orders ?db) \<and> ln_productId l \<in> fst ` set (products ?db)" if "l \<in> set (orderLines ?db)" for l
  proof (cases "l \<in> set (orderLines db)")
    case True
    then show ?thesis using fk unfolding db(1,5) by auto
  next
    case False
    then have n: "l \<in> set ?nl" using that unfolding db(2) by simp
    then have "ln_orderId l \<in> set (map ord_id ?new)" unfolding ids using nl by simp
    moreover obtain k x where kx: "(k, x) \<in> set (zip ?ids batch)" "l \<in> set (line_values ?p k x)" using n by auto
    then have "indexes_ok (length (customers db)) (length (products db)) x" using i by (blast dest: set_zip_rightD)
    then have "ln_productId l \<in> set ?p" using kx(2) by (auto simp: line_values_def indexes_ok_def)
    ultimately show ?thesis unfolding db(1,5) set_append set_map image_Un by blast
  qed
  show ?thesis unfolding stored_def using ro' d di o l by (simp add: db(4,5))
qed

text \<open>The catalogue: consecutive identities, in the order of the records.\<close>

lemma insertInBatches_foldl:
  assumes "0 < k" and "\<And>xs ys st. f ys (f xs st) = f (xs @ ys) st" and "\<And>st. f [] st = st"
  shows "insertInBatches k f rows st = f rows st"
proof (induction "length rows" arbitrary: rows st rule: less_induct)
  case less
  show ?case
  proof (cases "rows = []")
    case False
    then have "insertInBatches k f (drop k rows) (f (take k rows) st) = f (drop k rows) (f (take k rows) st)"
      using assms(1) by (intro less) simp
    then show ?thesis using False assms by (simp add: insertInBatches.simps [of k f rows])
  qed (simp add: insertInBatches.simps assms(3))
qed

lemma zip_upt_append: "zip [n..<n + length xs] xs @ zip [n + length xs..<n + length xs + length ys] ys = zip [n..<n + length (xs @ ys)] (xs @ ys)"
proof -
  have "[n..<n + length (xs @ ys)] = [n..<n + length xs] @ [n + length xs..<n + length xs + length ys]"
    using upt_add_eq_append [of n "n + length xs" "length ys"] by (simp add: add.assoc)
  then show ?thesis by simp
qed

lemma insert_twice:
  "insert_customers ys (insert_customers xs st) = insert_customers (xs @ ys) st" "insert_customers [] st = st"
  "insert_products vs (insert_products us st') = insert_products (us @ vs) st'" "insert_products [] st' = st'"
proof -
  have u: "[n..<n + a] @ [n + a..<n + a + b] = [n..<n + (a + b)]" for n a b :: nat
    using upt_add_eq_append [of n "n + a" b] by (simp add: add.assoc)
  show "insert_customers ys (insert_customers xs st) = insert_customers (xs @ ys) st"
    using zip_upt_append [of "customers_id_seq (fst st)" xs ys] u [of "customers_id_seq (fst st)" "length xs" "length ys"]
    by (simp add: insert_customers_def Let_def split_beta add.assoc del: upt_Suc)
  show "insert_products vs (insert_products us st') = insert_products (us @ vs) st'"
    using zip_upt_append [of "products_id_seq (fst st')" us vs] u [of "products_id_seq (fst st')" "length us" "length vs"]
    by (simp add: insert_products_def Let_def split_beta add.assoc del: upt_Suc)
  show "insert_customers [] st = st" "insert_products [] st' = st'"
    by (simp_all add: insert_customers_def insert_products_def Let_def split_beta)
qed

definition catalog_db :: "GeneratedCustomer list \<Rightarrow> GeneratedProduct list \<Rightarrow> commerce_db \<Rightarrow> commerce_db" where
  "catalog_db cs ps db = (clear_tables db)\<lparr>customers := zip [customers_id_seq db..<customers_id_seq db + length cs] cs,
     products := zip [products_id_seq db..<products_id_seq db + length ps] ps,
     customers_id_seq := customers_id_seq db + length cs, products_id_seq := products_id_seq db + length ps\<rparr>"

lemma seed_catalog_db:
  "seed_catalog cs ps db = (catalog_db cs ps db, map fst (customers (catalog_db cs ps db)), map fst (products (catalog_db cs ps db)))"
  unfolding seed_catalog_def CUSTOMER_BATCH_SIZE_def PRODUCT_BATCH_SIZE_def
  by (simp add: insertInBatches_foldl insert_twice)
    (simp add: insert_customers_def insert_products_def catalog_db_def clear_tables_def Let_def)

lemma catalog_stored: "stored (catalog_db cs ps db) []"
  "map snd (customers (catalog_db cs ps db)) = cs" "map snd (products (catalog_db cs ps db)) = ps"
  "length (customers (catalog_db cs ps db)) = length cs" "length (products (catalog_db cs ps db)) = length ps"
  by (simp_all add: stored_def read_orders_def catalog_db_def clear_tables_def)

lemma insert_order_batch_frame:
  "customers (insert_order_batch c p b chs db) = customers db" "products (insert_order_batch c p b chs db) = products db"
  by (simp_all add: insert_order_batch_def Let_def)

text \<open>Any batches, in one pass: what is stored is their concatenation.\<close>

lemma batches_stored:
  assumes "stored db os" and "\<forall>x \<in> set (concat bs). indexes_ok (length (customers db)) (length (products db)) x"
    and "\<And>b st st'. b \<in> set bs \<Longrightarrow> h st b = st' \<Longrightarrow> \<exists>chs. length chs = length b \<and> set chs \<subseteq> C
      \<and> g st' = insert_order_batch (map fst (customers db)) (map fst (products db)) b chs (g st)"
    and "g st = db"
  shows "stored (g (foldl h st bs)) (os @ concat bs) \<and> customers (g (foldl h st bs)) = customers db \<and> products (g (foldl h st bs)) = products db
    \<and> channel ` set (orders (g (foldl h st bs))) \<subseteq> channel ` set (orders db) \<union> C"
  using assms
proof (induction bs arbitrary: db os st)
  case (Cons b bs)
  obtain chs where c: "length chs = length b" "set chs \<subseteq> C" "g (h st b) = insert_order_batch (map fst (customers db)) (map fst (products db)) b chs db"
    using Cons.prems(3) [of b st "h st b"] Cons.prems(4) by auto
  let ?db = "insert_order_batch (map fst (customers db)) (map fst (products db)) b chs db"
  have s: "stored ?db (os @ b)" by (rule insert_order_batch_stored [OF Cons.prems(1) c(1)]) (use Cons.prems(2) in simp)
  have ch: "channel ` set (orders ?db) \<subseteq> channel ` set (orders db) \<union> C"
  proof
    fix y assume "y \<in> channel ` set (orders ?db)"
    then obtain r where r: "y = channel r" "r \<in> set (orders ?db)" by blast
    show "y \<in> channel ` set (orders db) \<union> C"
    proof (cases "r \<in> set (orders db)")
      case False
      then obtain i ch x where "(i, ch, x) \<in> set (zip [orders_id_seq db..<orders_id_seq db + length b] (zip chs b))"
          "r = order_values (map fst (customers db)) i ch x"
        using r(2) by (auto simp: insert_order_batch_def Let_def)
      then have "(ch, x) \<in> set (zip chs b)" "y = ch" using r(1) by (auto simp: order_values_def dest: set_zip_rightD)
      then show ?thesis using c(2) by (blast dest: set_zip_leftD)
    qed (use r in blast)
  qed
  have "stored (g (foldl h (h st b) bs)) ((os @ b) @ concat bs) \<and> customers (g (foldl h (h st b) bs)) = customers ?db
      \<and> products (g (foldl h (h st b) bs)) = products ?db
      \<and> channel ` set (orders (g (foldl h (h st b) bs))) \<subseteq> channel ` set (orders ?db) \<union> C"
  proof (rule Cons.IH [OF s _ _ c(3)])
    show "\<forall>x \<in> set (concat bs). indexes_ok (length (customers ?db)) (length (products ?db)) x"
      using Cons.prems(2) by (simp add: insert_order_batch_frame)
    show "\<exists>chs. length chs = length b' \<and> set chs \<subseteq> C \<and> g st' = insert_order_batch (map fst (customers ?db)) (map fst (products ?db)) b' chs (g st0)"
      if "b' \<in> set bs" "h st0 b' = st'" for b' st0 st' using Cons.prems(3) [of b' st0 st'] that by (simp add: insert_order_batch_frame)
  qed
  then have st: "stored (g (foldl h st (b # bs))) (os @ concat (b # bs))" "customers (g (foldl h st (b # bs))) = customers db"
      "products (g (foldl h st (b # bs))) = products db" and "channel ` set (orders (g (foldl h st (b # bs)))) \<subseteq> channel ` set (orders ?db) \<union> C"
    by (simp_all add: insert_order_batch_frame)
  then have "channel ` set (orders (g (foldl h st (b # bs)))) \<subseteq> channel ` set (orders db) \<union> C" using ch by blast
  then show ?case using st by blast
qed simp

lemma generated_indexes:
  assumes "faker_ok f" and "0 \<le> m" and "x \<in> set (pushed_orders f clock cs ps m sd)"
  shows "indexes_ok (length cs) (length ps) x"
proof -
  obtain xss where x: "pushed_orders f clock cs ps m sd = concat xss"
      "list_all2 (\<lambda>c xs. length xs \<le> nat m \<and> (\<forall>x \<in> set xs. order_fits ps c x)) [0..<length cs] xss"
    using pushed_orders_by_customer [OF assms(1,2)] by blast
  then obtain xs where xs: "xs \<in> set xss" "x \<in> set xs" using assms(3) by auto
  then obtain j where j: "j < length xss" "xs = xss ! j" by (auto simp: in_set_conv_nth)
  then have "j < length cs" "order_fits ps j x" using list_all2_lengthD [OF x(2)] list_all2_nthD2 [OF x(2) j(1)] xs(2) by auto
  then show ?thesis by (auto simp: indexes_ok_def order_fits_def line_fits_def)
qed

lemma batched_is_pushed:
  "concat (generateOrdersBatched f clock cs ps m sd (Some k)) = pushed_orders f clock cs ps m sd"
proof -
  obtain xss st' where d: "draw_each (customer_orders f clock ps m) [0..<length cs] (seeded f (sd + 2), 0) = (xss, st')"
    by (metis prod.exhaust)
  have "batching_ok k [] ([], [])" by (simp add: batching_ok_def)
  define B where "B = foldl (push_order k) ([], []) (concat xss)"
  have "concat (fst B) @ snd B = concat xss" using foldl_push_order [OF \<open>batching_ok k [] ([], [])\<close>, of "concat xss"] by (simp add: B_def batching_ok_def)
  moreover have "concat (if snd B = [] then fst B else fst B @ [snd B]) = concat (fst B) @ snd B" by simp
  ultimately show ?thesis by (simp add: generateOrdersBatched_def batch_customers_fold [OF d] pushed_orders_def d Let_def flip: B_def)
qed

lemma pickChannel_in:
  assumes "faker_ok f" and "pickChannel f st s = (c, s')"
  shows "c \<in> set CHANNELS"
  using assms arrayElement_in [OF assms(1), of CHANNELS]
  by (auto simp: pickChannel_def CHANNELS_def split: if_splits prod.splits)

lemma insert_order_batch_twice:
  assumes "length cx = length xs" and "length cy = length ys"
  shows "insert_order_batch c p ys cy (insert_order_batch c p xs cx db) = insert_order_batch c p (xs @ ys) (cx @ cy) db"
proof -
  let ?n = "orders_id_seq db"
  have u: "[?n..<?n + (length xs + length ys)] = [?n..<?n + length xs] @ [?n + length xs..<?n + length xs + length ys]"
    using upt_add_eq_append [of ?n "?n + length xs" "length ys"] by (simp add: add.assoc)
  show ?thesis using assms by (simp add: insert_order_batch_def Let_def u del: upt_Suc)
qed

text \<open>The check constraints of the tables hold for what is stored, so that no insert of a seed is refused.\<close>

definition order_checks :: "order_row \<Rightarrow> bool" where
  "order_checks r \<longleftrightarrow> ord_status r \<in> {''pending'', ''paid'', ''shipped'', ''cancelled''} \<and> (\<forall>c. channel r = Some c \<longrightarrow> c \<in> set CHANNELS)"

definition line_checks :: "order_line_row \<Rightarrow> bool" where
  "line_checks l \<longleftrightarrow> 0 < ln_quantity l \<and> 0 < ln_unitPriceCents l \<and> ln_lineTotalCents l = ln_quantity l * ln_unitPriceCents l"

lemma stored_checks:
  assumes "stored db os" and "\<forall>x \<in> set os. \<exists>c. order_fits ps c x" and "\<forall>q \<in> set ps. 0 < unitPriceCents q"
  shows "\<forall>l \<in> set (orderLines db). line_checks l"
    and "\<forall>r \<in> set (orders db). ord_status r \<in> {''pending'', ''paid'', ''shipped'', ''cancelled''}"
proof -
  let ?read = "read_order (map fst (customers db)) (map fst (products db)) (orderLines db)"
  have os: "os = map ?read (orders db)" using assms(1) by (simp add: stored_def read_orders_def)
  show "\<forall>r \<in> set (orders db). ord_status r \<in> {''pending'', ''paid'', ''shipped'', ''cancelled''}"
  proof
    fix r assume "r \<in> set (orders db)"
    then obtain c where "order_fits ps c (?read r)" using assms(2) os by auto
    then show "ord_status r \<in> {''pending'', ''paid'', ''shipped'', ''cancelled''}" by (auto simp: order_fits_def read_order_def STATUS_WEIGHTS_def)
  qed
  show "\<forall>l \<in> set (orderLines db). line_checks l"
  proof
    fix l assume l: "l \<in> set (orderLines db)"
    then obtain r where r: "r \<in> set (orders db)" "ord_id r = ln_orderId l" using assms(1) by (fastforce simp: stored_def)
    then obtain c where "order_fits ps c (?read r)" using assms(2) os by auto
    moreover have "read_line (map fst (products db)) l \<in> set (order_lines (?read r))" using l r(2) by (auto simp: read_order_def)
    ultimately have "line_fits ps (read_line (map fst (products db)) l)" by (simp add: order_fits_def)
    then show "line_checks l" using assms(3) nth_mem [of _ ps] by (auto simp: line_fits_def read_line_def line_checks_def)
  qed
qed

lemma generated_fit:
  assumes "faker_ok f" and "0 \<le> m" and "x \<in> set (pushed_orders f clock cs ps m sd)"
  shows "\<exists>c. order_fits ps c x"
proof -
  obtain xss where x: "pushed_orders f clock cs ps m sd = concat xss"
      "list_all2 (\<lambda>c xs. length xs \<le> nat m \<and> (\<forall>x \<in> set xs. order_fits ps c x)) [0..<length cs] xss"
    using pushed_orders_by_customer [OF assms(1,2)] by blast
  then obtain xs where xs: "xs \<in> set xss" "x \<in> set xs" using assms(3) by auto
  then obtain j where j: "j < length xss" "xs = xss ! j" by (auto simp: in_set_conv_nth)
  then show ?thesis using list_all2_nthD2 [OF x(2) j(1)] xs(2) by auto
qed

text \<open>What each seed leaves, over the catalogue it starts from.\<close>

lemma orders_indexes:
  assumes "faker_ok f" and "0 \<le> m"
  shows "\<forall>x \<in> set (pushed_orders f clock cs ps m sd). indexes_ok (length (customers (catalog_db cs ps db))) (length (products (catalog_db cs ps db))) x"
  unfolding catalog_stored(4,5) using generated_indexes [OF assms] by blast

lemma seed_04_stored:
  fixes f :: "'s faker"
  assumes "faker_ok f" and "0 \<le> maxOrdersPerCustomer p"
    and "cs = generateCustomers f (preset_customers p) sd" and "ps = generateProducts f (preset_products p) sd"
  shows "stored (seed_04 f clock p sd db) (pushed_orders f clock cs ps (maxOrdersPerCustomer p) sd)
    \<and> customers (seed_04 f clock p sd db) = customers (catalog_db cs ps db) \<and> products (seed_04 f clock p sd db) = products (catalog_db cs ps db)"
proof -
  let ?D = "catalog_db cs ps db" and ?bs = "generateOrdersBatched f clock cs ps (maxOrdersPerCustomer p) sd (Some ORDER_BATCH_SIZE)"
  let ?h = "\<lambda>db b. insert_order_batch (map fst (customers ?D)) (map fst (products ?D)) b (map (\<lambda>_. None) b) db"
  have ok: "\<forall>x \<in> set (concat ?bs). indexes_ok (length (customers ?D)) (length (products ?D)) x"
    unfolding batched_is_pushed by (rule orders_indexes [OF assms(1,2)])
  have step: "\<exists>chs. length chs = length b \<and> set chs \<subseteq> {None} \<and> id st' = insert_order_batch (map fst (customers ?D)) (map fst (products ?D)) b chs (id st)"
    if "b \<in> set ?bs" "?h st b = st'" for b st st' using that(2) by (intro exI [of _ "map (\<lambda>_. None) b"]) auto
  have "seed_04 f clock p sd db = foldl ?h ?D ?bs" by (simp add: seed_04_def seed_catalog_db Let_def flip: assms(3,4))
  then show ?thesis using batches_stored [where h = ?h and g = id and st = ?D, OF catalog_stored(1) ok step] by (simp add: batched_is_pushed)
qed

lemma seed_33_stored:
  fixes f :: "'s faker"
  assumes "faker_ok f" and "0 \<le> maxOrdersPerCustomer p"
    and "cs = generateCustomers f (preset_customers p) sd" and "ps = generateProducts f (preset_products p) sd"
  shows "stored (seed_33 f clock p sd db) (pushed_orders f clock cs ps (maxOrdersPerCustomer p) sd)
    \<and> customers (seed_33 f clock p sd db) = customers (catalog_db cs ps db) \<and> products (seed_33 f clock p sd db) = products (catalog_db cs ps db)
    \<and> channel ` set (orders (seed_33 f clock p sd db)) \<subseteq> Some ` set CHANNELS"
proof -
  let ?D = "catalog_db cs ps db" and ?bs = "generateOrdersBatched f clock cs ps (maxOrdersPerCustomer p) sd (Some ORDER_BATCH_SIZE)"
  let ?h = "seed_33_batch f (map fst (customers ?D)) (map fst (products ?D))"
  have ok: "\<forall>x \<in> set (concat ?bs). indexes_ok (length (customers ?D)) (length (products ?D)) x"
    unfolding batched_is_pushed by (rule orders_indexes [OF assms(1,2)])
  have none: "orders ?D = []" by (simp add: catalog_db_def clear_tables_def)
  have step: "\<exists>chs. length chs = length b \<and> set chs \<subseteq> Some ` set CHANNELS
      \<and> fst st' = insert_order_batch (map fst (customers ?D)) (map fst (products ?D)) b chs (fst st)"
    if "b \<in> set ?bs" "?h st b = st'" for b st st'
  proof -
    obtain db0 s where st: "st = (db0, s)" by fastforce
    obtain chs s' where d: "draw_each (\<lambda>x. pickChannel f (order_status x)) b s = (chs, s')" by fastforce
    have "list_all2 (\<lambda>_ c. c \<in> set CHANNELS) b chs" by (rule draw_each_all [OF d]) (rule pickChannel_in [OF assms(1)])
    then have "length chs = length b" "set chs \<subseteq> set CHANNELS" using list_all2_lengthD list_all2_right [of "\<lambda>c. c \<in> set CHANNELS" b chs] by fastforce+
    then show ?thesis using that(2) by (intro exI [of _ "map Some chs"]) (auto simp: seed_33_batch_def st d)
  qed
  have "seed_33 f clock p sd db = fst (foldl ?h (?D, seeded f (sd + 3)) ?bs)" by (simp add: seed_33_def seed_catalog_db Let_def flip: assms(3,4))
  then show ?thesis
    using batches_stored [where h = ?h and g = fst and st = "(?D, seeded f (sd + 3))", OF catalog_stored(1) ok step] none by (simp add: batched_is_pushed)
qed

lemma seed_03_stored:
  assumes "faker_ok f" and "0 \<le> maxOrdersPerCustomer p"
    and "cs = generateCustomers f (preset_customers p) sd" and "ps = generateProducts f (preset_products p) sd"
    and "os = pushed_orders f clock cs ps (maxOrdersPerCustomer p) sd"
  shows "stored (fst (seed_03 f clock p sd db)) (sort_key placedAt os)
    \<and> customers (fst (seed_03 f clock p sd db)) = customers (catalog_db cs ps db) \<and> products (fst (seed_03 f clock p sd db)) = products (catalog_db cs ps db)
    \<and> snd (seed_03 f clock p sd db) = int (card {c. c < preset_customers p \<and> (\<forall>x \<in> set os. customerIndex x \<noteq> c)})"
proof -
  let ?D = "catalog_db cs ps db" and ?os = "generateOrders f clock cs ps (maxOrdersPerCustomer p) sd"
  let ?f = "\<lambda>b db. insert_order_batch (map fst (customers ?D)) (map fst (products ?D)) b (map (\<lambda>_. None) b) db"
  have os: "?os = sort_key placedAt os" by (simp add: generateOrders_def assms(5))
  have ok: "\<forall>x \<in> set os. indexes_ok (length (customers ?D)) (length (products ?D)) x" unfolding assms(5) by (rule orders_indexes [OF assms(1,2)])
  have "insertInBatches BATCH_SIZE ?f ?os ?D = ?f ?os ?D"
    by (rule insertInBatches_foldl) (simp_all add: BATCH_SIZE_def insert_order_batch_twice, simp add: insert_order_batch_def)
  moreover have "(let (db1, c) = insert_customers cs (clear_tables db, []); (db2, q) = insert_products ps (db1, []) in (db2, c, q))
      = (?D, map fst (customers ?D), map fst (products ?D))"
    by (simp add: insert_customers_def insert_products_def catalog_db_def clear_tables_def Let_def)
  ultimately have s3: "seed_03 f clock p sd db = (?f ?os ?D, int (preset_customers p) - int (card (customerIndex ` set ?os)))"
    by (simp add: seed_03_def Let_def split_beta flip: assms(3,4))
  have r3: "stored (fst (seed_03 f clock p sd db)) (sort_key placedAt os)"
    using insert_order_batch_stored [OF catalog_stored(1), of "map (\<lambda>_. None) ?os" ?os] ok by (simp add: s3 os)
  have "length cs = preset_customers p"
    using draw_each_length [where g = "\<lambda>_. generate_customer f" and xs = "[0..<preset_customers p]", OF prod.collapse [symmetric]]
    by (simp add: assms(3) generateCustomers_def)
  then have sub: "customerIndex ` set os \<subseteq> {..<preset_customers p}" using ok catalog_stored(4) by (fastforce simp: indexes_ok_def)
  have "{c. c < preset_customers p \<and> (\<forall>x \<in> set os. customerIndex x \<noteq> c)} = {..<preset_customers p} - customerIndex ` set os" by auto
  then have "card {c. c < preset_customers p \<and> (\<forall>x \<in> set os. customerIndex x \<noteq> c)} = preset_customers p - card (customerIndex ` set os)"
    using sub by (simp add: card_Diff_subset finite_subset)
  moreover have "card (customerIndex ` set os) \<le> preset_customers p" using card_mono [OF _ sub] by simp
  ultimately show ?thesis using r3 by (simp add: s3 os insert_order_batch_frame)
qed

lemma prices_positive:
  assumes "faker_ok f" and "q \<in> set (generateProducts f n sd)"
  shows "0 < unitPriceCents q"
proof -
  have "product_fits i q \<Longrightarrow> 0 < unitPriceCents q" for i by (auto simp: product_fits_def CATEGORY_PRICE_BAND_CENTS_def)
  moreover obtain i where "product_fits i q" using products_coherent(1) [OF assms(1), of n sd] assms(2) by (metis in_set_conv_nth list_all2_nthD2)
  ultimately show ?thesis by blast
qed

text \<open>
  C39: seeding is a round trip. Read back through their identities, the tables that a seed fills hold exactly the
  generated customers and products and exactly the generated orders with their lines, in order, whatever the sizes of
  the batches and wherever the identity columns stood; the identities are different, every foreign key refers to a row,
  the check constraints hold, and Lab 03 reports the number of customers nobody ordered for.\<close>

theorem seeds_are_round_trips:
  assumes "faker_ok f" and "0 \<le> maxOrdersPerCustomer p"
    and "cs = generateCustomers f (preset_customers p) sd" and "ps = generateProducts f (preset_products p) sd"
    and "os = pushed_orders f clock cs ps (maxOrdersPerCustomer p) sd"
  shows "stored (seed_04 f clock p sd db) os \<and> map snd (customers (seed_04 f clock p sd db)) = cs \<and> map snd (products (seed_04 f clock p sd db)) = ps
    \<and> stored (seed_33 f clock p sd db) os \<and> map snd (customers (seed_33 f clock p sd db)) = cs \<and> map snd (products (seed_33 f clock p sd db)) = ps
    \<and> (\<forall>r \<in> set (orders (seed_33 f clock p sd db)). channel r \<noteq> None \<and> order_checks r)
    \<and> (\<forall>db' \<in> {seed_04 f clock p sd db, seed_33 f clock p sd db, fst (seed_03 f clock p sd db)}. \<forall>l \<in> set (orderLines db'). line_checks l)
    \<and> stored (fst (seed_03 f clock p sd db)) (sort_key placedAt os) \<and> map snd (customers (fst (seed_03 f clock p sd db))) = cs
    \<and> map snd (products (fst (seed_03 f clock p sd db))) = ps
    \<and> snd (seed_03 f clock p sd db) = int (card {c. c < preset_customers p \<and> (\<forall>x \<in> set os. customerIndex x \<noteq> c)})"
proof -
  note r4 = seed_04_stored [OF assms(1-4), of clock db, folded assms(5)]
  note r33 = seed_33_stored [OF assms(1-4), of clock db, folded assms(5)]
  note r3 = seed_03_stored [OF assms(1-5), of db]
  have price: "\<forall>q \<in> set ps. 0 < unitPriceCents q" unfolding assms(4) using prices_positive [OF assms(1)] by blast
  have fit: "\<forall>x \<in> set os. \<exists>c. order_fits ps c x" unfolding assms(5) using generated_fit [OF assms(1,2)] by blast
  then have fit': "\<forall>x \<in> set (sort_key placedAt os). \<exists>c. order_fits ps c x" by simp
  have lines: "\<forall>db' \<in> {seed_04 f clock p sd db, seed_33 f clock p sd db, fst (seed_03 f clock p sd db)}. \<forall>l \<in> set (orderLines db'). line_checks l"
    using stored_checks(1) [OF _ fit price] stored_checks(1) [OF _ fit' price] r3 r4 r33 by blast
  have "ord_status r \<in> {''pending'', ''paid'', ''shipped'', ''cancelled''}" if "r \<in> set (orders (seed_33 f clock p sd db))" for r
    using stored_checks(2) [OF _ fit price] r33 that by blast
  moreover have "\<exists>c \<in> set CHANNELS. channel r = Some c" if "r \<in> set (orders (seed_33 f clock p sd db))" for r
    using r33 that by blast
  ultimately have ch: "\<forall>r \<in> set (orders (seed_33 f clock p sd db)). channel r \<noteq> None \<and> order_checks r" by (fastforce simp: order_checks_def)
  have "map snd (customers (fst (seed_03 f clock p sd db))) = cs" "map snd (products (fst (seed_03 f clock p sd db))) = ps"
    "map snd (customers (seed_04 f clock p sd db)) = cs" "map snd (products (seed_04 f clock p sd db)) = ps"
    "map snd (customers (seed_33 f clock p sd db)) = cs" "map snd (products (seed_33 f clock p sd db)) = ps"
    using r3 r4 r33 catalog_stored(2,3) by simp_all
  then show ?thesis using r4 r33 r3 ch lines by blast
qed

text \<open>A library that counts its draws.\<close>

definition counting_faker :: "nat faker" where
  "counting_faker =
     \<lparr>seeded = nat, firstName = (\<lambda>s. (''Ada'', s + 1)), lastName = (\<lambda>s. (''Byron'', s + 1)), personFullName = (\<lambda>s. (''Ada Byron'', s + 1)),
      internetEmail = (\<lambda>_ s. (''ada@example.com'', s + 1)), internetUrl = (\<lambda>s. (''https://example.com'', s + 1)),
      uuid = (\<lambda>s. (nat_str s, s + 1)), companyName = (\<lambda>s. (''Engines'', s + 1)), productName = (\<lambda>s. (''Engine'', s + 1)),
      city = (\<lambda>s. (''London'', s + 1)), sentence = (\<lambda>_ s. (''Words.'', s + 1)), alphanumeric = (\<lambda>n s. (replicate n CHR ''a'', s + 1)),
      int_between = (\<lambda>a b s. (if a \<le> b then a + int s mod (b - a + 1) else a, s + 1)), unit_float = (\<lambda>s. (0, s + 1)),
      element_of = (\<lambda>n s. (s mod n, s + 1)), elements_of = (\<lambda>n m s. ([0..<min n m], s + 1)), past_years = (\<lambda>now n s. (now, s + 1))\<rparr>"

lemma counting_faker_ok: "faker_ok counting_faker"
proof -
  have "a + i mod (b - a + 1) \<le> b" if "a \<le> b" for a b i :: int
    using pos_mod_bound [of "b - a + 1" i] that by simp
  then show ?thesis by (auto simp: faker_ok_def counting_faker_def)
qed

lemma seeds_are_round_trips_witness:
  "\<exists>db. stored (seed_04 counting_faker (\<lambda>_. 0) (preset 2 3 2) 42 db)
    (pushed_orders counting_faker (\<lambda>_. 0) (generateCustomers counting_faker 2 42) (generateProducts counting_faker 3 42) 2 42)"
proof -
  have "preset_customers (preset 2 3 2) = 2" "preset_products (preset 2 3 2) = 3" "maxOrdersPerCustomer (preset 2 3 2) = 2" by (simp_all add: preset_def)
  then show ?thesis using seeds_are_round_trips [of counting_faker "preset 2 3 2" _ 42 _ _ "\<lambda>_. 0", OF counting_faker_ok _ refl refl refl] by auto
qed

end
