(* ===== verification/Partitions.thy ===== *)
theory Partitions
  imports Commerce_Seeds "HOL-Library.Char_ord" "HOL-Library.List_Lexorder"
begin

text \<open>
  Partitioning of Lab 35, \<open>labs/35-*/src\<close>, first part: a partitioned table and the statements the lab issues on it, what
  such a table stands for, and the layout of twelve months that \<open>db/partitions.ts\<close> restores. A bound of the source is the date of a midnight in UTC, which the server reads in its own time zone; that
  is taken to be UTC.
\<close>

section \<open>Partitioned tables\<close>

datatype key = At int | Region string

datatype bound = FromTo int int | Values_In "string list" | Default

fun bound_covers :: "bound \<Rightarrow> key \<Rightarrow> bool" where
  "bound_covers (FromTo a b) (At t) = (a \<le> t \<and> t < b)"
| "bound_covers (Values_In rs) (Region r) = (r \<in> set rs)"
| "bound_covers _ _ = False"

fun overlaps :: "bound \<Rightarrow> bound \<Rightarrow> bool" where
  "overlaps (FromTo a b) (FromTo c d) = (max a c < min b d)"
| "overlaps (Values_In rs) (Values_In rs') = (set rs \<inter> set rs' \<noteq> {})"
| "overlaps Default Default = True"
| "overlaps _ _ = False"

record 'e part =
  part_name :: string
  part_bound :: bound
  part_rows :: "(nat \<times> 'e) list"

text \<open>The partitions of one parent, the tables beside them (a detached partition is one), and the identity column.\<close>

record 'e ptable =
  parts :: "'e part list"
  plain_tables :: "(string \<times> (nat \<times> 'e) list) list"
  next_id :: nat

datatype pg_error = No_partition | Relation_exists | Empty_range | Would_overlap | Default_violated | No_such_table

type_synonym ('e, 'a) stmt = "'e ptable \<Rightarrow> (pg_error + 'a) \<times> 'e ptable"

definition then_stmt :: "('e, 'a) stmt \<Rightarrow> ('a \<Rightarrow> ('e, 'b) stmt) \<Rightarrow> ('e, 'b) stmt" where
  "then_stmt m g t = (case m t of (Inl er, t') \<Rightarrow> (Inl er, t') | (Inr x, t') \<Rightarrow> g x t')"

fun for_each :: "('x \<Rightarrow> ('e, unit) stmt) \<Rightarrow> 'x list \<Rightarrow> ('e, unit) stmt" where
  "for_each g [] t = (Inr (), t)"
| "for_each g (x # xs) t = then_stmt (g x) (\<lambda>_. for_each g xs) t"

text \<open>
  A row goes to the partition whose bound covers its key, else to the default one, else the statement fails. The
  identity is drawn before and is not given back.\<close>

definition route :: "'e part list \<Rightarrow> key \<Rightarrow> 'e part option" where
  "route ps k = (case find (\<lambda>p. bound_covers (part_bound p) k) ps of Some p \<Rightarrow> Some p | None \<Rightarrow> find (\<lambda>p. part_bound p = Default) ps)"

definition put_row :: "string \<Rightarrow> nat \<times> 'e \<Rightarrow> 'e part list \<Rightarrow> 'e part list" where
  "put_row n r = map (\<lambda>p. if part_name p = n then p\<lparr>part_rows := part_rows p @ [r]\<rparr> else p)"

definition insert_row :: "('e \<Rightarrow> key) \<Rightarrow> 'e \<Rightarrow> ('e, nat) stmt" where
  "insert_row key e t =
     (let n = next_id t; t = t\<lparr>next_id := n + 1\<rparr> in
      case route (parts t) (key e) of
        None \<Rightarrow> (Inl No_partition, t)
      | Some p \<Rightarrow> (Inr n, t\<lparr>parts := put_row (part_name p) (n, e) (parts t)\<rparr>))"

fun insert_each :: "('e \<Rightarrow> key) \<Rightarrow> 'e list \<Rightarrow> ('e, nat list) stmt" where
  "insert_each key [] t = (Inr [], t)"
| "insert_each key (e # es) t =
     then_stmt (insert_row key e) (\<lambda>n. then_stmt (insert_each key es) (\<lambda>ns t. (Inr (n # ns), t))) t"

definition insert_statement :: "('e \<Rightarrow> key) \<Rightarrow> 'e list \<Rightarrow> ('e, nat list) stmt" where
  "insert_statement key es t =
     (case insert_each key es t of (Inl er, t') \<Rightarrow> (Inl er, t\<lparr>next_id := next_id t'\<rparr>) | (Inr ns, t') \<Rightarrow> (Inr ns, t'))"

definition relation_names :: "'e ptable \<Rightarrow> string list" where
  "relation_names t = map part_name (parts t) @ map fst (plain_tables t)"

definition create_partition :: "('e \<Rightarrow> key) \<Rightarrow> bool \<Rightarrow> string \<Rightarrow> bound \<Rightarrow> ('e, unit) stmt" where
  "create_partition key if_not_exists n b t =
     (if n \<in> set (relation_names t) then (if if_not_exists then (Inr (), t) else (Inl Relation_exists, t))
      else if (case b of FromTo lo hi \<Rightarrow> hi \<le> lo | _ \<Rightarrow> False) then (Inl Empty_range, t)
      else if \<exists>p \<in> set (parts t). overlaps b (part_bound p) then (Inl Would_overlap, t)
      else if \<exists>p \<in> set (parts t). part_bound p = Default \<and> (\<exists>r \<in> set (part_rows p). bound_covers b (key (snd r))) then (Inl Default_violated, t)
      else (Inr (), t\<lparr>parts := parts t @ [\<lparr>part_name = n, part_bound = b, part_rows = []\<rparr>]\<rparr>))"

definition detach_partition :: "string \<Rightarrow> ('e, unit) stmt" where
  "detach_partition n t =
     (case find (\<lambda>p. part_name p = n) (parts t) of
        None \<Rightarrow> (Inl No_such_table, t)
      | Some p \<Rightarrow> (Inr (), t\<lparr>parts := filter (\<lambda>q. part_name q \<noteq> n) (parts t), plain_tables := (n, part_rows p) # plain_tables t\<rparr>))"

definition drop_table :: "string \<Rightarrow> ('e, unit) stmt" where
  "drop_table n t =
     (if n \<in> set (relation_names t)
      then (Inr (), t\<lparr>parts := filter (\<lambda>q. part_name q \<noteq> n) (parts t), plain_tables := filter (\<lambda>q. fst q \<noteq> n) (plain_tables t)\<rparr>)
      else (Inl No_such_table, t))"

text \<open>\<open>TRUNCATE ... RESTART IDENTITY\<close> on the parent.\<close>

definition truncate_parts :: "'e ptable \<Rightarrow> 'e ptable" where
  "truncate_parts t = t\<lparr>parts := map (\<lambda>p. p\<lparr>part_rows := []\<rparr>) (parts t), next_id := 1\<rparr>"

section \<open>The table it stands for\<close>

text \<open>
  A partition holds, in order, the rows of one flat table that belong to it: those its bound covers, or for the default
  partition those that no bound covers.\<close>

definition belongs :: "'e part list \<Rightarrow> 'e part \<Rightarrow> key \<Rightarrow> bool" where
  "belongs ps p k \<longleftrightarrow> bound_covers (part_bound p) k \<or> part_bound p = Default \<and> \<not> (\<exists>q \<in> set ps. bound_covers (part_bound q) k)"

definition ptable_ok :: "'e ptable \<Rightarrow> bool" where
  "ptable_ok t \<longleftrightarrow> distinct (relation_names t) \<and> (\<forall>p \<in> set (parts t). \<forall>q \<in> set (parts t). overlaps (part_bound p) (part_bound q) \<longrightarrow> p = q)"

definition mirrors :: "('e \<Rightarrow> key) \<Rightarrow> 'e ptable \<Rightarrow> (nat \<times> 'e) list \<Rightarrow> bool" where
  "mirrors key t rs \<longleftrightarrow>
     ptable_ok t
     \<and> (\<forall>p \<in> set (parts t). part_rows p = filter (\<lambda>r. belongs (parts t) p (key (snd r))) rs)
     \<and> (\<forall>r \<in> set rs. \<exists>p \<in> set (parts t). belongs (parts t) p (key (snd r)))"

lemma mirrorsD:
  assumes "mirrors key t rs"
  shows "ptable_ok t" and "p \<in> set (parts t) \<Longrightarrow> part_rows p = filter (\<lambda>r. belongs (parts t) p (key (snd r))) rs"
    and "r \<in> set rs \<Longrightarrow> \<exists>p \<in> set (parts t). belongs (parts t) p (key (snd r))"
  using assms unfolding mirrors_def by blast+

lemma mirrorsI:
  assumes "ptable_ok t" and "\<And>p. p \<in> set (parts t) \<Longrightarrow> part_rows p = filter (\<lambda>r. belongs (parts t) p (key (snd r))) rs"
    and "\<And>r. r \<in> set rs \<Longrightarrow> \<exists>p \<in> set (parts t). belongs (parts t) p (key (snd r))"
  shows "mirrors key t rs"
  using assms unfolding mirrors_def by blast

lemma covers_overlaps: "bound_covers b k \<Longrightarrow> bound_covers c k \<Longrightarrow> overlaps b c"
  by (cases b; cases k; cases c) auto

lemma part_unique:
  assumes "ptable_ok t" and "p \<in> set (parts t)" and "q \<in> set (parts t)"
  shows "part_name p = part_name q \<Longrightarrow> p = q" and "bound_covers (part_bound p) k \<Longrightarrow> bound_covers (part_bound q) k \<Longrightarrow> p = q"
    and "part_bound p = part_bound q \<Longrightarrow> part_bound p = Default \<Longrightarrow> p = q"
proof -
  show "p = q" if "part_name p = part_name q"
    using assms that inj_on_eq_iff [of part_name "set (parts t)" p q] by (auto simp: ptable_ok_def relation_names_def distinct_map)
  show "p = q" if "bound_covers (part_bound p) k" "bound_covers (part_bound q) k"
    using assms covers_overlaps [OF that] by (simp add: ptable_ok_def)
  show "p = q" if "part_bound p = part_bound q" "part_bound p = Default"
    using assms that(2) that(1) [symmetric] by (simp add: ptable_ok_def)
qed

lemma belongs_unique:
  assumes "ptable_ok t" and "p \<in> set (parts t)" and "q \<in> set (parts t)" and "belongs (parts t) p k" and "belongs (parts t) q k"
  shows "p = q"
  using assms part_unique(2,3) [OF assms(1-3)] unfolding belongs_def by metis

lemma route_Some:
  assumes "route ps k = Some p"
  shows "p \<in> set ps" and "belongs ps p k"
proof -
  consider "find (\<lambda>p. bound_covers (part_bound p) k) ps = Some p"
    | "find (\<lambda>p. bound_covers (part_bound p) k) ps = None" "find (\<lambda>p. part_bound p = Default) ps = Some p"
    using assms by (auto simp: route_def split: option.splits)
  then have "p \<in> set ps \<and> belongs ps p k"
  proof cases
    case 1
    then show ?thesis using find_Some_in by (force simp: belongs_def)
  next
    case 2
    then show ?thesis using find_Some_in [OF 2(2)] by (auto simp: belongs_def find_None_all)
  qed
  then show "p \<in> set ps" "belongs ps p k" by auto
qed

lemma route_None: "route ps k = None \<longleftrightarrow> (\<forall>p \<in> set ps. \<not> belongs ps p k)"
proof (cases "find (\<lambda>p. bound_covers (part_bound p) k) ps")
  case None
  then have "route ps k = find (\<lambda>p. part_bound p = Default) ps" by (simp add: route_def)
  moreover have "\<forall>p \<in> set ps. \<not> bound_covers (part_bound p) k" using None by (simp add: find_None_all)
  ultimately show ?thesis by (auto simp: belongs_def find_None_all)
next
  case (Some p)
  then show ?thesis using find_Some_in [OF Some] by (auto simp: route_def belongs_def)
qed

text \<open>Whether a row belongs to a partition is seen from the names and bounds alone.\<close>

lemma belongs_shape:
  assumes "part_bound p = part_bound p'" and "part_bound ` set ps = part_bound ` set ps'"
  shows "belongs ps p k = belongs ps' p' k"
proof -
  have "(\<exists>q \<in> set ps. bound_covers (part_bound q) k) \<longleftrightarrow> (\<exists>b \<in> part_bound ` set ps. bound_covers b k)" by blast
  also have "\<dots> \<longleftrightarrow> (\<exists>q \<in> set ps'. bound_covers (part_bound q) k)" unfolding assms(2) by blast
  finally have "(\<exists>q \<in> set ps. bound_covers (part_bound q) k) = (\<exists>q \<in> set ps'. bound_covers (part_bound q) k)" .
  then show ?thesis by (simp only: belongs_def assms(1))
qed

lemma put_row_map:
  assumes "ptable_ok t" and "p \<in> set (parts t)"
  shows "put_row (part_name p) r (parts t) = map (\<lambda>q. if q = p then q\<lparr>part_rows := part_rows q @ [r]\<rparr> else q) (parts t)"
  using part_unique(1) [OF assms(1) _ assms(2)] by (auto simp: put_row_def)

lemma table_ok_map:
  assumes "ptable_ok t" and "\<And>p. part_name (h p) = part_name p" and "\<And>p. part_bound (h p) = part_bound p"
  shows "ptable_ok (t\<lparr>parts := map h (parts t), next_id := n\<rparr>)"
  using assms(1) unfolding ptable_ok_def by (auto simp: relation_names_def o_def assms(2,3))

lemma table_ok_next [simp]: "ptable_ok (t\<lparr>next_id := n\<rparr>) = ptable_ok t"
  by (simp add: ptable_ok_def relation_names_def)

lemma mirrors_next [simp]: "mirrors key (t\<lparr>next_id := n\<rparr>) rs = mirrors key t rs"
  by (simp add: mirrors_def)

text \<open>A row is stored exactly when it belongs somewhere.\<close>

lemma insert_row_mirrors:
  assumes "mirrors key t rs"
  shows "(\<exists>p \<in> set (parts t). belongs (parts t) p (key e)) \<Longrightarrow> fst (insert_row key e t) = Inr (next_id t)
      \<and> mirrors key (snd (insert_row key e t)) (rs @ [(next_id t, e)]) \<and> map part_bound (parts (snd (insert_row key e t))) = map part_bound (parts t)
      \<and> map part_name (parts (snd (insert_row key e t))) = map part_name (parts t)
      \<and> next_id (snd (insert_row key e t)) = next_id t + 1"
    and "\<not> (\<exists>p \<in> set (parts t). belongs (parts t) p (key e)) \<Longrightarrow> insert_row key e t = (Inl No_partition, t\<lparr>next_id := next_id t + 1\<rparr>)"
proof -
  assume "\<exists>p \<in> set (parts t). belongs (parts t) p (key e)"
  then obtain p where p: "route (parts t) (key e) = Some p" using route_None [of "parts t" "key e"] by (cases "route (parts t) (key e)") auto
  note in_p = route_Some [OF p]
  have ok: "ptable_ok t" using assms by (simp add: mirrors_def)
  define h where "h = (\<lambda>q. if q = p then q\<lparr>part_rows := part_rows q @ [(next_id t, e)]\<rparr> else q)"
  have h: "part_name (h q) = part_name q" "part_bound (h q) = part_bound q"
    "part_rows (h q) = part_rows q @ (if q = p then [(next_id t, e)] else [])" for q by (simp_all add: h_def)
  define t' where "t' = t\<lparr>parts := map h (parts t), next_id := next_id t + 1\<rparr>"
  have r: "insert_row key e t = (Inr (next_id t), t')"
    unfolding t'_def by (simp add: insert_row_def p put_row_map [OF ok in_p(1)] h_def Let_def)
  have same: "map part_bound (parts t') = map part_bound (parts t)" "map part_name (parts t') = map part_name (parts t)" by (simp_all add: t'_def o_def h)
  have shape: "belongs (parts t') (h q) k = belongs (parts t) q k" for q k
    by (rule belongs_shape) (simp_all add: h t'_def image_image)
  have e: "belongs (parts t) q (key e) \<longleftrightarrow> q = p" if "q \<in> set (parts t)" for q
    using belongs_unique [OF ok that in_p(1)] in_p(2) by blast
  have "part_rows p' = filter (\<lambda>r. belongs (parts t') p' (key (snd r))) (rs @ [(next_id t, e)])" if "p' \<in> set (parts t')" for p'
  proof -
    have "p' \<in> h ` set (parts t)" using that by (simp add: t'_def)
    then obtain q where q: "p' = h q" "q \<in> set (parts t)" by (rule imageE)
    then show ?thesis using mirrorsD(2) [OF assms q(2)] e [OF q(2)] by (simp add: q(1) shape h)
  qed
  moreover have "\<exists>p' \<in> set (parts t'). belongs (parts t') p' (key (snd r))" if "r \<in> set (rs @ [(next_id t, e)])" for r
  proof -
    have "\<exists>q \<in> set (parts t). belongs (parts t) q (key (snd r))" using that in_p mirrorsD(3) [OF assms, of r] by auto
    then obtain q where "q \<in> set (parts t)" "belongs (parts t) q (key (snd r))" by blast
    then show ?thesis by (intro bexI [of _ "h q"]) (simp_all add: shape, simp add: t'_def)
  qed
  moreover have "ptable_ok t'" unfolding t'_def by (rule table_ok_map [OF ok h(1,2)])
  ultimately have "mirrors key t' (rs @ [(next_id t, e)])" by (simp add: mirrors_def)
  then show "fst (insert_row key e t) = Inr (next_id t)
      \<and> mirrors key (snd (insert_row key e t)) (rs @ [(next_id t, e)]) \<and> map part_bound (parts (snd (insert_row key e t))) = map part_bound (parts t)
      \<and> map part_name (parts (snd (insert_row key e t))) = map part_name (parts t)
      \<and> next_id (snd (insert_row key e t)) = next_id t + 1"
    using same by (simp add: r) (simp add: t'_def)
next
  assume "\<not> (\<exists>p \<in> set (parts t). belongs (parts t) p (key e))"
  then have "route (parts t) (key e) = None" by (simp add: route_None)
  then show "insert_row key e t = (Inl No_partition, t\<lparr>next_id := next_id t + 1\<rparr>)" by (simp add: insert_row_def Let_def)
qed

definition takes :: "('e \<Rightarrow> key) \<Rightarrow> 'e ptable \<Rightarrow> 'e \<Rightarrow> bool" where
  "takes key t e \<longleftrightarrow> (\<exists>p \<in> set (parts t). belongs (parts t) p (key e))"

lemma takes_shape: "map part_bound (parts t) = map part_bound (parts t') \<Longrightarrow> takes key t e = takes key t' e"
proof -
  have "takes key u e \<longleftrightarrow> (\<exists>b \<in> set (map part_bound (parts u)). bound_covers b (key e) \<or> b = Default \<and> \<not> (\<exists>b \<in> set (map part_bound (parts u)). bound_covers b (key e)))" for u :: "'a ptable"
    by (auto simp: takes_def belongs_def)
  then show "map part_bound (parts t) = map part_bound (parts t') \<Longrightarrow> takes key t e = takes key t' e" by presburger
qed

lemma insert_each_mirrors:
  assumes "mirrors key t rs" and "\<forall>e \<in> set es. takes key t e"
  shows "\<exists>t'. insert_each key es t = (Inr [next_id t..<next_id t + length es], t') \<and> mirrors key t' (rs @ zip [next_id t..<next_id t + length es] es)
    \<and> map part_bound (parts t') = map part_bound (parts t) \<and> map part_name (parts t') = map part_name (parts t) \<and> next_id t' = next_id t + length es"
  using assms
proof (induction es arbitrary: t rs)
  case (Cons e es)
  obtain u where u: "insert_row key e t = (Inr (next_id t), u)" "mirrors key u (rs @ [(next_id t, e)])" "map part_bound (parts u) = map part_bound (parts t)"
      "map part_name (parts u) = map part_name (parts t)" "next_id u = next_id t + 1"
    using insert_row_mirrors(1) [OF Cons.prems(1), of e] Cons.prems(2) by (auto simp: takes_def) (metis prod.collapse)
  have "\<forall>x \<in> set es. takes key u x" using Cons.prems(2) takes_shape [OF u(3)] by simp
  from Cons.IH [OF u(2) this] obtain v where v: "insert_each key es u = (Inr [next_id u..<next_id u + length es], v)"
      "mirrors key v ((rs @ [(next_id t, e)]) @ zip [next_id u..<next_id u + length es] es)"
      "map part_bound (parts v) = map part_bound (parts t)" "map part_name (parts v) = map part_name (parts t)" "next_id v = next_id u + length es"
    using u(3,4) by auto
  have ids: "[next_id t..<next_id t + length (e # es)] = next_id t # [next_id u..<next_id u + length es]" by (simp add: u(5) upt_rec)
  show ?case unfolding ids using u(1) v by (auto simp: then_stmt_def u(5))
qed simp

lemma insert_each_fails:
  assumes "mirrors key t rs" and "\<exists>e \<in> set es. \<not> takes key t e"
  shows "\<exists>t'. insert_each key es t = (Inl No_partition, t')"
  using assms
proof (induction es arbitrary: t rs)
  case (Cons e es)
  show ?case
  proof (cases "takes key t e")
    case True
    obtain u where u: "insert_row key e t = (Inr (next_id t), u)" "mirrors key u (rs @ [(next_id t, e)])" "map part_bound (parts u) = map part_bound (parts t)"
      using insert_row_mirrors(1) [OF Cons.prems(1), of e] True by (auto simp: takes_def) (metis prod.collapse)
    have "\<exists>x \<in> set es. \<not> takes key u x" using Cons.prems(2) True takes_shape [OF u(3)] by auto
    from Cons.IH [OF u(2) this] show ?thesis using u(1) by (auto simp: then_stmt_def)
  next
    case False
    then show ?thesis using insert_row_mirrors(2) [OF Cons.prems(1)] by (simp add: then_stmt_def takes_def)
  qed
qed simp

lemma insert_statement_mirrors:
  assumes "mirrors key t rs"
  shows "\<forall>e \<in> set es. takes key t e \<Longrightarrow>
      \<exists>t'. insert_statement key es t = (Inr [next_id t..<next_id t + length es], t') \<and> mirrors key t' (rs @ zip [next_id t..<next_id t + length es] es)
      \<and> map part_bound (parts t') = map part_bound (parts t) \<and> map part_name (parts t') = map part_name (parts t) \<and> next_id t' = next_id t + length es"
    and "\<exists>e \<in> set es. \<not> takes key t e \<Longrightarrow> \<exists>n. insert_statement key es t = (Inl No_partition, t\<lparr>next_id := n\<rparr>)"
  using insert_each_mirrors [OF assms, of es] insert_each_fails [OF assms, of es] by (auto simp: insert_statement_def)

text \<open>Every other statement leaves the mirror of what the same statement leaves of the flat table.\<close>

lemma truncate_mirrors: "ptable_ok t \<Longrightarrow> mirrors key (truncate_parts t) []"
  using table_ok_map [of t "\<lambda>p. p\<lparr>part_rows := []\<rparr>" 1] by (auto simp: truncate_parts_def mirrors_def)

lemma overlaps_sym: "overlaps c d \<Longrightarrow> overlaps d c"
  by (induction c d rule: overlaps.induct) auto

lemma create_partition_Inr:
  assumes "n \<notin> set (relation_names t)" and "create_partition key ine n b t = (Inr (), t')"
  shows "\<not> (\<exists>p \<in> set (parts t). overlaps b (part_bound p))"
    and "\<not> (\<exists>p \<in> set (parts t). part_bound p = Default \<and> (\<exists>r \<in> set (part_rows p). bound_covers b (key (snd r))))"
    and "t' = t\<lparr>parts := parts t @ [\<lparr>part_name = n, part_bound = b, part_rows = []\<rparr>]\<rparr>"
proof -
  define E where "E = (case b of FromTo lo hi \<Rightarrow> hi \<le> lo | _ \<Rightarrow> False)"
  define V where "V = (\<exists>p \<in> set (parts t). overlaps b (part_bound p))"
  define D where "D = (\<exists>p \<in> set (parts t). part_bound p = Default \<and> (\<exists>r \<in> set (part_rows p). bound_covers b (key (snd r))))"
  define u where "u = t\<lparr>parts := parts t @ [\<lparr>part_name = n, part_bound = b, part_rows = []\<rparr>]\<rparr>"
  have "create_partition key ine n b t =
      (if E then (Inl Empty_range, t) else if V then (Inl Would_overlap, t) else if D then (Inl Default_violated, t) else (Inr (), u))"
    using assms(1) unfolding create_partition_def E_def V_def D_def u_def by (simp only: if_False)
  then have "\<not> V \<and> \<not> D \<and> t' = u" using assms(2) by (simp split: if_split_asm)
  then show "\<not> (\<exists>p \<in> set (parts t). overlaps b (part_bound p))"
    "\<not> (\<exists>p \<in> set (parts t). part_bound p = Default \<and> (\<exists>r \<in> set (part_rows p). bound_covers b (key (snd r))))"
    "t' = t\<lparr>parts := parts t @ [\<lparr>part_name = n, part_bound = b, part_rows = []\<rparr>]\<rparr>"
    unfolding V_def D_def u_def by simp_all
qed

lemma create_partition_ok:
  assumes "ptable_ok t" and "n \<notin> set (relation_names t)" and "create_partition key ine n b t = (Inr (), t')"
  shows "ptable_ok t'"
  unfolding ptable_ok_def
proof (intro conjI ballI impI)
  let ?p = "\<lparr>part_name = n, part_bound = b, part_rows = []\<rparr>"
  note c = create_partition_Inr [OF assms(2,3)]
  have "distinct (relation_names t)" using assms(1) by (simp add: ptable_ok_def)
  then show "distinct (relation_names t')" using assms(2) by (simp add: c(3) relation_names_def)
  fix p q assume "p \<in> set (parts t')" "q \<in> set (parts t')" and o: "overlaps (part_bound p) (part_bound q)"
  then have pq: "p \<in> set (parts t) \<or> p = ?p" "q \<in> set (parts t) \<or> q = ?p" by (auto simp: c(3))
  have "part_bound ?p = b" by simp
  then have "\<not> (p \<in> set (parts t) \<and> q = ?p)" "\<not> (p = ?p \<and> q \<in> set (parts t))" using c(1) o overlaps_sym by metis+
  then show "p = q" using pq o assms(1) unfolding ptable_ok_def by blast
qed

lemma create_partition_mirrors:
  assumes "mirrors key t rs" and "n \<notin> set (relation_names t)" and "create_partition key ine n b t = (Inr (), t')" and "b \<noteq> Default"
  shows "mirrors key t' rs \<and> parts t' = parts t @ [\<lparr>part_name = n, part_bound = b, part_rows = []\<rparr>] \<and> plain_tables t' = plain_tables t
    \<and> next_id t' = next_id t"
proof -
  let ?p = "\<lparr>part_name = n, part_bound = b, part_rows = []\<rparr>"
  have no: "\<forall>p \<in> set (parts t). \<not> overlaps b (part_bound p)"
      "\<forall>p \<in> set (parts t). part_bound p = Default \<longrightarrow> (\<forall>r \<in> set (part_rows p). \<not> bound_covers b (key (snd r)))"
    and t': "t' = t\<lparr>parts := parts t @ [?p]\<rparr>"
    using create_partition_Inr [OF assms(2,3)] by blast+
  have ok: "ptable_ok t" using assms(1) by (simp add: mirrors_def)
  have ok': "ptable_ok t'" by (rule create_partition_ok [OF ok assms(2,3)])
  have none: "\<not> bound_covers b (key (snd r))" if "r \<in> set rs" for r
  proof
    assume b: "bound_covers b (key (snd r))"
    from mirrorsD(3) [OF assms(1) that] obtain p where p: "p \<in> set (parts t)" "belongs (parts t) p (key (snd r))" by blast
    have "\<not> overlaps b (part_bound p)" using no(1) p(1) by simp
    then have "\<not> bound_covers (part_bound p) (key (snd r))" using covers_overlaps [OF b] by auto
    then have "part_bound p = Default" using p(2) by (simp add: belongs_def)
    moreover have "part_rows p = filter (\<lambda>r. belongs (parts t) p (key (snd r))) rs" using mirrorsD(2) [OF assms(1) p(1)] .
    then have "r \<in> set (part_rows p)" using p(2) that by simp
    ultimately show False using no(2) p(1) b by blast
  qed
  have same: "belongs (parts t') p (key (snd r)) = belongs (parts t) p (key (snd r))" if "r \<in> set rs" for p r
    using none [OF that] by (simp add: belongs_def t')
  have "part_rows p = filter (\<lambda>r. belongs (parts t') p (key (snd r))) rs" if "p \<in> set (parts t')" for p
  proof (cases "p = ?p")
    case True
    have "\<not> belongs (parts t') ?p (key (snd r))" if "r \<in> set rs" for r using none [OF that] assms(4) by (simp add: belongs_def)
    then show ?thesis by (simp add: True filter_empty_conv)
  next
    case False
    then have "part_rows p = filter (\<lambda>r. belongs (parts t) p (key (snd r))) rs" using that mirrorsD(2) [OF assms(1), of p] by (simp add: t')
    then show ?thesis using same by (simp cong: filter_cong)
  qed
  moreover have "\<exists>p \<in> set (parts t'). belongs (parts t') p (key (snd r))" if "r \<in> set rs" for r
    using mirrorsD(3) [OF assms(1) that] same [OF that] by (auto simp: t')
  ultimately have "mirrors key t' rs" using mirrorsI [OF ok'] by blast
  then show ?thesis by (simp add: t')
qed

section \<open>The months\<close>

text \<open>\<open>Date.UTC\<close> in milliseconds; a month beyond the year counts into the next one.\<close>

definition DayFromYear :: "int \<Rightarrow> int" where
  "DayFromYear y = 365 * (y - 1970) + (y - 1969) div 4 - (y - 1901) div 100 + (y - 1601) div 400"

definition leap_year :: "int \<Rightarrow> bool" where
  "leap_year y \<longleftrightarrow> y mod 4 = 0 \<and> (y mod 100 \<noteq> 0 \<or> y mod 400 = 0)"

definition month_days :: "int \<Rightarrow> int list" where
  "month_days y = [31, if leap_year y then 29 else 28, 31, 30, 31, 30, 31, 31, 30, 31, 30, 31]"

definition Date_UTC :: "int \<Rightarrow> nat \<Rightarrow> int \<Rightarrow> int" where
  "Date_UTC y m d =
     (let y' = y + int (m div 12) in (DayFromYear y' + sum_list (take (m mod 12) (month_days y')) + d - 1) * 86400000)"

record MonthPartition =
  mp_name :: string
  mp_year :: nat
  mp_month :: nat
  mp_from :: int
  mp_to :: int

definition PARTITIONED_YEAR :: nat where "PARTITIONED_YEAR = 2025"

definition pad2 :: "nat \<Rightarrow> string" where "pad2 n = padStart 2 (nat_str n)"

definition monthPartitionName :: "nat \<Rightarrow> nat \<Rightarrow> string" where
  "monthPartitionName year month = ''metric_events_y'' @ nat_str year @ ''m'' @ pad2 month"

definition monthBounds :: "nat \<Rightarrow> nat \<Rightarrow> int \<times> int" where
  "monthBounds year month =
     (Date_UTC (int year) (month - 1) 1, if month = 12 then Date_UTC (int (year + 1)) 0 1 else Date_UTC (int year) month 1)"

definition month_partition :: "nat \<Rightarrow> MonthPartition" where
  "month_partition month =
     (let (from, to) = monthBounds PARTITIONED_YEAR month in
       \<lparr>mp_name = monthPartitionName PARTITIONED_YEAR month, mp_year = PARTITIONED_YEAR, mp_month = month, mp_from = from, mp_to = to\<rparr>)"

definition canonicalPartitions :: "MonthPartition list" where
  "canonicalPartitions = map month_partition [1..<13]"

definition mp_bound :: "MonthPartition \<Rightarrow> bound" where
  "mp_bound c = FromTo (mp_from c) (mp_to c)"

definition listExistingPartitions :: "'e ptable \<Rightarrow> (string \<times> bound) list" where
  "listExistingPartitions t = sort_key fst (map (\<lambda>p. (part_name p, part_bound p)) (parts t))"

definition detachAndDrop :: "string \<Rightarrow> ('e, unit) stmt" where
  "detachAndDrop n = then_stmt (detach_partition n) (\<lambda>_. drop_table n)"

definition createMonthPartition :: "('e \<Rightarrow> key) \<Rightarrow> MonthPartition \<Rightarrow> ('e, unit) stmt" where
  "createMonthPartition key c = create_partition key True (mp_name c) (mp_bound c)"

definition reconcileCanonicalPartitionLayout :: "('e \<Rightarrow> key) \<Rightarrow> ('e, string list \<times> string list) stmt" where
  "reconcileCanonicalPartitionLayout key t =
     (let existing = map fst (listExistingPartitions t);
          extra = filter (\<lambda>n. n \<notin> mp_name ` set canonicalPartitions) existing;
          missing = filter (\<lambda>c. mp_name c \<notin> set existing) canonicalPartitions in
      then_stmt (for_each detachAndDrop extra)
        (\<lambda>_. then_stmt (for_each (createMonthPartition key) missing) (\<lambda>_ t. (Inr (extra, map mp_name missing), t))) t)"

definition LIST_DEMO_CANONICAL_PARTITIONS :: "string list" where
  "LIST_DEMO_CANONICAL_PARTITIONS = [''metric_events_by_region_us'', ''metric_events_by_region_eu'', ''metric_events_by_region_apac'']"

definition resetListDemoTable :: "('e, unit) stmt" where
  "resetListDemoTable t =
     (let existing = map fst (listExistingPartitions t) in
      then_stmt (for_each detachAndDrop (filter (\<lambda>n. n \<notin> set LIST_DEMO_CANONICAL_PARTITIONS) existing))
        (\<lambda>_ t. (Inr (), truncate_parts t)) t)"

subsection \<open>The twelve bounds\<close>

lemma twelve: "[1..<13] = [1, 2, 3, 4, 5, 6, 7, 8, 9, 10, 11, 12 :: nat]"
  by (simp add: upt_rec)

lemma canonical_bounds:
  "map (\<lambda>c. (mp_from c, mp_to c)) canonicalPartitions =
     [(1735689600000, 1738368000000), (1738368000000, 1740787200000), (1740787200000, 1743465600000), (1743465600000, 1746057600000),
      (1746057600000, 1748736000000), (1748736000000, 1751328000000), (1751328000000, 1754006400000), (1754006400000, 1756684800000),
      (1756684800000, 1759276800000), (1759276800000, 1761955200000), (1761955200000, 1764547200000), (1764547200000, 1767225600000)]"
  unfolding canonicalPartitions_def twelve month_partition_def
  by (simp add: monthBounds_def Date_UTC_def DayFromYear_def month_days_def leap_year_def PARTITIONED_YEAR_def)

lemma year_digits: "nat_str 2025 = ''2025''" "nat_str 2026 = ''2026''"
proof -
  have "digit_char 0 = CHR ''0''" "digit_char 2 = CHR ''2''" "digit_char 5 = CHR ''5''" "digit_char 6 = CHR ''6''" by code_simp+
  then show "nat_str 2025 = ''2025''" "nat_str 2026 = ''2026''"
    by (simp_all add: nat_str.simps [of 2025] nat_str.simps [of 2026] nat_str.simps [of 202] nat_str.simps [of 20] nat_str.simps [of 2])
qed

lemma monthPartitionName_inject: "monthPartitionName y m = monthPartitionName y n \<longleftrightarrow> m = n"
proof -
  have "pad2 m = pad2 n \<Longrightarrow> m = n" unfolding pad2_def by (metis val_of_padStart val_of_nat_str)
  then show ?thesis by (auto simp: monthPartitionName_def)
qed

lemma month_partition_simps [simp]:
  "mp_name (month_partition m) = monthPartitionName 2025 m" "mp_month (month_partition m) = m"
  "mp_from (month_partition m) = fst (monthBounds 2025 m)" "mp_to (month_partition m) = snd (monthBounds 2025 m)"
  by (simp_all add: month_partition_def PARTITIONED_YEAR_def split_beta)

lemma canonical_month: "c \<in> set canonicalPartitions \<longleftrightarrow> (\<exists>m \<in> {1..12}. c = month_partition m)"
  by (auto simp: canonicalPartitions_def)

lemma canonical_disjoint:
  assumes "c \<in> set canonicalPartitions" and "d \<in> set canonicalPartitions" and "overlaps (mp_bound c) (mp_bound d)"
  shows "c = d"
proof -
  have len: "length canonicalPartitions = 12" by (simp add: canonicalPartitions_def)
  obtain i j where ij: "c = canonicalPartitions ! i" "d = canonicalPartitions ! j" "i < 12" "j < 12"
    using assms(1,2) by (metis in_set_conv_nth len)
  have "sorted_wrt (\<lambda>(_, b) (a, _). b \<le> a) (map (\<lambda>c. (mp_from c, mp_to c)) canonicalPartitions)"
    unfolding canonical_bounds by simp
  then have less: "mp_to (canonicalPartitions ! i) \<le> mp_from (canonicalPartitions ! j)" if "i < j" "j < 12" for i j
    using that by (simp add: sorted_wrt_iff_nth_less len)
  have "\<not> i < j" "\<not> j < i" using less [of i j] less [of j i] ij assms(3) by (auto simp: mp_bound_def)
  then show ?thesis using ij by simp
qed

lemma canonical_names: "distinct (map mp_name canonicalPartitions)"
  by (simp add: canonicalPartitions_def distinct_map inj_on_def monthPartitionName_inject)

lemma canonical_nonempty: "c \<in> set canonicalPartitions \<Longrightarrow> mp_from c < mp_to c"
proof -
  have "\<forall>x \<in> set (map (\<lambda>c. (mp_from c, mp_to c)) canonicalPartitions). fst x < snd x"
    unfolding canonical_bounds by simp
  then show "c \<in> set canonicalPartitions \<Longrightarrow> mp_from c < mp_to c" by auto
qed

text \<open>The months cover the year without a gap.\<close>

lemma canonical_cover:
  "(\<exists>c \<in> set canonicalPartitions. bound_covers (mp_bound c) (At t)) \<longleftrightarrow> Date_UTC 2025 0 1 \<le> t \<and> t < Date_UTC 2026 0 1"
proof -
  have "(\<exists>c \<in> set canonicalPartitions. bound_covers (mp_bound c) (At t))
      \<longleftrightarrow> (\<exists>x \<in> set (map (\<lambda>c. (mp_from c, mp_to c)) canonicalPartitions). fst x \<le> t \<and> t < snd x)"
    by (auto simp: mp_bound_def)
  also have "\<dots> \<longleftrightarrow> 1735689600000 \<le> t \<and> t < 1767225600000" unfolding canonical_bounds by (simp, linarith)
  also have "\<dots> \<longleftrightarrow> Date_UTC 2025 0 1 \<le> t \<and> t < Date_UTC 2026 0 1" by (simp add: Date_UTC_def DayFromYear_def)
  finally show ?thesis .
qed

subsection \<open>Restoring the layout\<close>

lemma detachAndDrop_ok:
  assumes "ptable_ok t" and "n \<in> part_name ` set (parts t)"
  shows "detachAndDrop n t = (Inr (), t\<lparr>parts := filter (\<lambda>q. part_name q \<noteq> n) (parts t)\<rparr>)"
    and "ptable_ok (t\<lparr>parts := filter (\<lambda>q. part_name q \<noteq> n) (parts t)\<rparr>)"
proof -
  obtain p where p: "find (\<lambda>p. part_name p = n) (parts t) = Some p"
    using assms(2) find_None_all [of "\<lambda>p. part_name p = n" "parts t"] by (cases "find (\<lambda>p. part_name p = n) (parts t)") auto
  have "distinct (relation_names t)" using assms(1) by (simp add: ptable_ok_def)
  then have "n \<notin> fst ` set (plain_tables t)" using assms(2) by (auto simp: relation_names_def)
  then have "filter (\<lambda>q. fst q \<noteq> n) (plain_tables t) = plain_tables t" by (auto simp: filter_id_conv)
  then show "detachAndDrop n t = (Inr (), t\<lparr>parts := filter (\<lambda>q. part_name q \<noteq> n) (parts t)\<rparr>)"
    by (simp add: detachAndDrop_def then_stmt_def detach_partition_def p drop_table_def relation_names_def)
  have "distinct (map part_name (filter (\<lambda>q. part_name q \<noteq> n) (parts t)) @ map fst (plain_tables t))"
    using \<open>distinct (relation_names t)\<close> by (auto simp: relation_names_def distinct_map_filter)
  then show "ptable_ok (t\<lparr>parts := filter (\<lambda>q. part_name q \<noteq> n) (parts t)\<rparr>)"
    using assms(1) by (simp add: ptable_ok_def relation_names_def)
qed

text \<open>Detaching and dropping a partition is deleting the rows that belong to it.\<close>

lemma detachAndDrop_mirrors:
  assumes "mirrors key t rs" and "p \<in> set (parts t)"
  shows "\<exists>t'. detachAndDrop (part_name p) t = (Inr (), t') \<and> mirrors key t' (filter (\<lambda>r. \<not> belongs (parts t) p (key (snd r))) rs)
    \<and> parts t' = filter (\<lambda>q. part_name q \<noteq> part_name p) (parts t)"
proof -
  define t' where "t' = t\<lparr>parts := filter (\<lambda>q. part_name q \<noteq> part_name p) (parts t)\<rparr>"
  have ok: "ptable_ok t" by (rule mirrorsD(1) [OF assms(1)])
  note d = detachAndDrop_ok [OF ok imageI [OF assms(2)], folded t'_def]
  have "part_name q = part_name p \<longleftrightarrow> q = p" if "q \<in> set (parts t)" for q using part_unique(1) [OF ok that assms(2)] by blast
  then have ps: "set (parts t') = set (parts t) - {p}" by (auto simp: t'_def)
  have same: "belongs (parts t') q k = belongs (parts t) q k" if "q \<in> set (parts t')" "\<not> belongs (parts t) p k" for q k
    using that(2) by (auto simp: belongs_def ps)
  have "mirrors key t' (filter (\<lambda>r. \<not> belongs (parts t) p (key (snd r))) rs)"
  proof (rule mirrorsI [OF d(2)])
    fix q assume q: "q \<in> set (parts t')"
    then have "q \<in> set (parts t)" "q \<noteq> p" by (simp_all add: ps)
    have "\<not> (belongs (parts t) p k \<and> belongs (parts t) q k)" for k
      using belongs_unique [OF ok assms(2) \<open>q \<in> set (parts t)\<close>] \<open>q \<noteq> p\<close> by blast
    then have "filter (\<lambda>r. belongs (parts t') q (key (snd r))) (filter (\<lambda>r. \<not> belongs (parts t) p (key (snd r))) rs)
        = filter (\<lambda>r. belongs (parts t) q (key (snd r))) rs"
      unfolding filter_filter using same [OF q] by (intro filter_cong) auto
    then show "part_rows q = filter (\<lambda>r. belongs (parts t') q (key (snd r))) (filter (\<lambda>r. \<not> belongs (parts t) p (key (snd r))) rs)"
      using mirrorsD(2) [OF assms(1) \<open>q \<in> set (parts t)\<close>] by simp
  next
    fix r assume r: "r \<in> set (filter (\<lambda>r. \<not> belongs (parts t) p (key (snd r))) rs)"
    then have "r \<in> set rs" "\<not> belongs (parts t) p (key (snd r))" by simp_all
    moreover from mirrorsD(3) [OF assms(1) this(1)] obtain q where "q \<in> set (parts t)" "belongs (parts t) q (key (snd r))" by blast
    ultimately show "\<exists>q \<in> set (parts t'). belongs (parts t') q (key (snd r))" using same ps by (metis DiffI singletonD)
  qed
  then show ?thesis using d(1) by (simp add: t'_def)
qed

lemma drop_each:
  assumes "ptable_ok t" and "distinct ns" and "set ns \<subseteq> part_name ` set (parts t)"
  shows "for_each detachAndDrop ns t = (Inr (), t\<lparr>parts := filter (\<lambda>q. part_name q \<notin> set ns) (parts t)\<rparr>)
    \<and> ptable_ok (t\<lparr>parts := filter (\<lambda>q. part_name q \<notin> set ns) (parts t)\<rparr>)"
  using assms
proof (induction ns arbitrary: t)
  case (Cons n ns)
  define u where "u = t\<lparr>parts := filter (\<lambda>q. part_name q \<noteq> n) (parts t)\<rparr>"
  have "n \<in> part_name ` set (parts t)" using Cons.prems(3) by simp
  note d = detachAndDrop_ok [OF Cons.prems(1) this, folded u_def]
  have "set ns \<subseteq> part_name ` set (parts u)"
  proof
    fix x assume x: "x \<in> set ns"
    then obtain q where "q \<in> set (parts t)" "x = part_name q" using Cons.prems(3) by auto
    moreover have "x \<noteq> n" using x Cons.prems(2) by auto
    ultimately show "x \<in> part_name ` set (parts u)" by (simp add: u_def)
  qed
  moreover have "distinct ns" using Cons.prems(2) by simp
  ultimately show ?case using Cons.IH [OF d(2)] d(1) by (simp add: then_stmt_def u_def conj_commute)
qed simp

lemma listed_names: "set (map fst (listExistingPartitions t)) = part_name ` set (parts t)"
  by (auto simp: listExistingPartitions_def image_image)

lemma drop_listed:
  assumes "ptable_ok t"
  shows "for_each detachAndDrop (filter P (map fst (listExistingPartitions t))) t = (Inr (), t\<lparr>parts := filter (\<lambda>p. \<not> P (part_name p)) (parts t)\<rparr>)
    \<and> ptable_ok (t\<lparr>parts := filter (\<lambda>p. \<not> P (part_name p)) (parts t)\<rparr>)"
proof -
  define extra where "extra = filter P (map fst (listExistingPartitions t))"
  have "mset (map fst (listExistingPartitions t)) = mset (map part_name (parts t))"
    by (simp add: listExistingPartitions_def) (simp flip: image_mset.compositionality add: image_mset.compositionality o_def)
  then have "distinct (map fst (listExistingPartitions t)) \<longleftrightarrow> distinct (map part_name (parts t))" by (rule mset_eq_imp_distinct_iff)
  then have "distinct extra" using assms by (simp add: extra_def ptable_ok_def relation_names_def)
  moreover have e: "set extra = {n \<in> part_name ` set (parts t). P n}" unfolding extra_def set_filter listed_names ..
  moreover have "filter (\<lambda>q. part_name q \<notin> set extra) (parts t) = filter (\<lambda>p. \<not> P (part_name p)) (parts t)"
    by (rule filter_cong) (auto simp: e)
  ultimately show ?thesis using drop_each [OF assms, of extra] by (auto simp: extra_def)
qed

definition new_part :: "MonthPartition \<Rightarrow> 'e part" where
  "new_part c = \<lparr>part_name = mp_name c, part_bound = mp_bound c, part_rows = []\<rparr>"

lemma create_each:
  assumes "ptable_ok t" and "set cs \<subseteq> set canonicalPartitions" and "distinct (map mp_name cs)"
    and "\<forall>c \<in> set cs. mp_name c \<notin> set (relation_names t)"
    and "\<forall>p \<in> set (parts t). \<exists>d \<in> set canonicalPartitions. part_name p = mp_name d \<and> part_bound p = mp_bound d"
  shows "for_each (createMonthPartition key) cs t = (Inr (), t\<lparr>parts := parts t @ map new_part cs\<rparr>)
    \<and> ptable_ok (t\<lparr>parts := parts t @ map new_part cs\<rparr>)"
  using assms
proof (induction cs arbitrary: t)
  case (Cons c cs)
  have c: "c \<in> set canonicalPartitions" using Cons.prems(2) by simp
  have no: "\<not> overlaps (mp_bound c) (part_bound p)" if p: "p \<in> set (parts t)" for p
  proof
    assume o: "overlaps (mp_bound c) (part_bound p)"
    from Cons.prems(5) p obtain d where d: "d \<in> set canonicalPartitions" "part_name p = mp_name d" "part_bound p = mp_bound d" by blast
    then have "c = d" using canonical_disjoint [OF c d(1)] o by simp
    then show False using Cons.prems(4) d(2) imageI [OF p, of part_name] by (simp add: relation_names_def)
  qed
  have dflt: "part_bound p \<noteq> Default" if p: "p \<in> set (parts t)" for p
    using Cons.prems(5) p by (auto simp: mp_bound_def)
  define u where "u = t\<lparr>parts := parts t @ [new_part c]\<rparr>"
  have "\<not> mp_to c \<le> mp_from c" using canonical_nonempty [OF c] by simp
  then have r: "createMonthPartition key c t = (Inr (), u)"
    using Cons.prems(4) no dflt by (simp add: createMonthPartition_def create_partition_def mp_bound_def u_def new_part_def)
  have "\<not> overlaps (part_bound p) (mp_bound c)" if "p \<in> set (parts t)" for p using no [OF that] overlaps_sym by blast
  then have "ptable_ok u" using Cons.prems(1,4) no by (auto simp: ptable_ok_def u_def new_part_def relation_names_def)
  moreover have "\<forall>p \<in> set (parts u). \<exists>d \<in> set canonicalPartitions. part_name p = mp_name d \<and> part_bound p = mp_bound d"
    using Cons.prems(5) c by (auto simp: u_def new_part_def)
  moreover have "mp_name d \<noteq> mp_name c" if "d \<in> set cs" for d using Cons.prems(3) that by (auto simp: image_iff)
  then have "\<forall>d \<in> set cs. mp_name d \<notin> set (relation_names u)"
    using Cons.prems(4) by (auto simp: u_def new_part_def relation_names_def)
  ultimately have "for_each (createMonthPartition key) cs u = (Inr (), u\<lparr>parts := parts u @ map new_part cs\<rparr>)
      \<and> ptable_ok (u\<lparr>parts := parts u @ map new_part cs\<rparr>)"
    using Cons.IH [of u] Cons.prems(2,3) by simp
  then show ?case using r by (simp add: then_stmt_def) (simp add: u_def)
qed simp

text \<open>
  The layouts the restoration copes with: a partition that has the name of a month has its bound, and no table beside the
  partitions has the name of a month.\<close>

definition recoverable :: "'e ptable \<Rightarrow> bool" where
  "recoverable t \<longleftrightarrow> ptable_ok t
     \<and> (\<forall>p \<in> set (parts t). \<forall>c \<in> set canonicalPartitions. part_name p = mp_name c \<longrightarrow> part_bound p = mp_bound c)
     \<and> (\<forall>c \<in> set canonicalPartitions. mp_name c \<notin> fst ` set (plain_tables t))"

definition canonical_layout :: "'e ptable \<Rightarrow> bool" where
  "canonical_layout t \<longleftrightarrow> ptable_ok t
     \<and> (\<lambda>p. (part_name p, part_bound p)) ` set (parts t) = (\<lambda>c. (mp_name c, mp_bound c)) ` set canonicalPartitions"

lemma reconcile_restores:
  assumes "recoverable t"
  shows "\<exists>dropped created t'. reconcileCanonicalPartitionLayout key t = (Inr (dropped, created), t') \<and> canonical_layout t'
    \<and> recoverable t' \<and> set dropped = part_name ` set (parts t) - mp_name ` set canonicalPartitions
    \<and> set created = mp_name ` set canonicalPartitions - part_name ` set (parts t) \<and> plain_tables t' = plain_tables t
    \<and> parts t' = filter (\<lambda>p. part_name p \<in> mp_name ` set canonicalPartitions) (parts t)
        @ map new_part (filter (\<lambda>c. mp_name c \<notin> part_name ` set (parts t)) canonicalPartitions) \<and> next_id t' = next_id t"
proof -
  define N where "N = mp_name ` set canonicalPartitions"
  define extra where "extra = filter (\<lambda>n. n \<notin> N) (map fst (listExistingPartitions t))"
  define missing where "missing = filter (\<lambda>c. mp_name c \<notin> part_name ` set (parts t)) canonicalPartitions"
  have ok: "ptable_ok t" using assms by (simp add: recoverable_def)
  have e: "set extra = part_name ` set (parts t) - N" unfolding extra_def set_filter listed_names by auto
  have d: "for_each detachAndDrop extra t = (Inr (), t\<lparr>parts := filter (\<lambda>p. part_name p \<in> N) (parts t)\<rparr>)"
      "ptable_ok (t\<lparr>parts := filter (\<lambda>p. part_name p \<in> N) (parts t)\<rparr>)"
    using drop_listed [OF ok, of "\<lambda>n. n \<notin> N"] by (simp_all add: extra_def)
  define u where "u = t\<lparr>parts := filter (\<lambda>p. part_name p \<in> N) (parts t)\<rparr>"
  have u: "\<forall>p \<in> set (parts u). \<exists>c \<in> set canonicalPartitions. part_name p = mp_name c \<and> part_bound p = mp_bound c"
    using assms by (auto simp: u_def N_def recoverable_def)
  have dm: "distinct (map mp_name missing)" unfolding missing_def by (rule distinct_map_filter [OF canonical_names])
  have fresh: "\<forall>c \<in> set missing. mp_name c \<notin> set (relation_names u)"
    using assms by (auto simp: missing_def u_def relation_names_def recoverable_def)
  define v where "v = u\<lparr>parts := parts u @ map new_part missing\<rparr>"
  have c: "for_each (createMonthPartition key) missing u = (Inr (), v)" "ptable_ok v"
    using create_each [OF d(2) [folded u_def] _ dm fresh u] by (auto simp: missing_def v_def)
  have mis: "filter (\<lambda>c. mp_name c \<notin> set (map fst (listExistingPartitions t))) canonicalPartitions = missing" unfolding listed_names missing_def ..
  have r: "reconcileCanonicalPartitionLayout key t = (Inr (extra, map mp_name missing), v)"
    unfolding reconcileCanonicalPartitionLayout_def Let_def mis
    using d(1) [folded u_def] c(1) by (simp add: then_stmt_def extra_def N_def)
  have pv: "parts v = filter (\<lambda>p. part_name p \<in> N) (parts t) @ map new_part missing" by (simp add: v_def u_def)
  have names: "p \<in> set (parts v) \<Longrightarrow> \<exists>c \<in> set canonicalPartitions. part_name p = mp_name c \<and> part_bound p = mp_bound c" for p
    using u unfolding v_def by (auto simp: missing_def new_part_def)
  have onto: "(mp_name c, mp_bound c) \<in> (\<lambda>p. (part_name p, part_bound p)) ` set (parts v)" if "c \<in> set canonicalPartitions" for c
  proof (cases "mp_name c \<in> part_name ` set (parts t)")
    case True
    then obtain p where p: "p \<in> set (parts t)" "part_name p = mp_name c" by auto
    then have "part_bound p = mp_bound c" using assms that by (simp add: recoverable_def)
    moreover have "p \<in> set (parts v)" using p that by (simp add: pv N_def)
    ultimately show ?thesis using p(2) by (metis (mono_tags, lifting) imageI)
  next
    case False
    then have "new_part c \<in> set (parts v)" using that by (simp add: pv missing_def)
    then show ?thesis by (force simp: new_part_def image_iff)
  qed
  have lay: "(\<lambda>p. (part_name p, part_bound p)) ` set (parts v) = (\<lambda>c. (mp_name c, mp_bound c)) ` set canonicalPartitions"
    using names onto by fastforce
  have "part_bound p = mp_bound c" if "p \<in> set (parts v)" "c \<in> set canonicalPartitions" "part_name p = mp_name c" for p c
  proof -
    from names [OF that(1)] obtain d where d: "d \<in> set canonicalPartitions" "part_name p = mp_name d" "part_bound p = mp_bound d" by blast
    have "c = d" using canonical_names that(2,3) d(1,2) by (metis inj_on_contraD distinct_map)
    then show ?thesis using d(3) by simp
  qed
  moreover have "plain_tables v = plain_tables t" "next_id v = next_id t" by (simp_all add: v_def u_def)
  ultimately have "recoverable v" using c(2) assms by (simp add: recoverable_def)
  moreover have "set (map mp_name missing) = N - part_name ` set (parts t)" by (auto simp: missing_def N_def)
  ultimately show ?thesis using r lay c(2) e pv \<open>plain_tables v = plain_tables t\<close> \<open>next_id v = next_id t\<close>
    by (auto simp: canonical_layout_def N_def missing_def)
qed

end
