(* ===== verification/Partition_Seed.thy ===== *)
theory Partition_Seed
  imports Partitions
begin

text \<open>
  Lab 35, second part: the generator (\<open>seed/generator.ts\<close>) and the seed (\<open>seed/seed.ts\<close>) that fills a flat table and its
  partitioned twin, and the scenarios that change the partitions (\<open>partition-maintenance.ts\<close>,
  \<open>attach-and-missing-partition.ts\<close>, \<open>list-partitioning.ts\<close>). Plans and timings are left out.
\<close>

section \<open>The generator\<close>

record GeneratedMetricEvent =
  deviceId :: string
  metric :: string
  event_value :: rat
  recordedAt :: int

record metric_spec =
  spec_value :: string
  spec_weight :: nat
  spec_min :: int
  spec_max :: int
  spec_decimals :: nat

definition DEVICE_POOL_SIZE :: nat where "DEVICE_POOL_SIZE = 300"

definition METRICS :: "metric_spec list" where
  "METRICS =
     [\<lparr>spec_value = ''temperature_c'', spec_weight = 30, spec_min = 15, spec_max = 35, spec_decimals = 1\<rparr>,
      \<lparr>spec_value = ''humidity_pct'', spec_weight = 20, spec_min = 20, spec_max = 90, spec_decimals = 1\<rparr>,
      \<lparr>spec_value = ''pressure_hpa'', spec_weight = 15, spec_min = 950, spec_max = 1050, spec_decimals = 1\<rparr>,
      \<lparr>spec_value = ''battery_pct'', spec_weight = 20, spec_min = 0, spec_max = 100, spec_decimals = 0\<rparr>,
      \<lparr>spec_value = ''vibration_mm_s'', spec_weight = 15, spec_min = 0, spec_max = 5, spec_decimals = 2\<rparr>]"

definition deviceIds :: "string list" where
  "deviceIds = map (\<lambda>i. ''dev-'' @ padStart 4 (nat_str (i + 1))) [0..<DEVICE_POOL_SIZE]"

definition metricPool :: "metric_spec list" where
  "metricPool = concat (map (\<lambda>m. replicate (spec_weight m) m) METRICS)"

text \<open>
  \<open>faker.number.float\<close> between two bounds with so many digits is a parameter, of which the code relies on the bounds; \<open>to_fixed\<close>, for the numbers
  drawn here, which are not negative, rounds to the nearest and a half up.\<close>

type_synonym 's float_between = "int \<Rightarrow> int \<Rightarrow> nat \<Rightarrow> 's \<Rightarrow> rat \<times> 's"

definition float_ok :: "'s float_between \<Rightarrow> bool" where
  "float_ok fl \<longleftrightarrow> (\<forall>a b d s. a \<le> b \<longrightarrow> of_int a \<le> fst (fl a b d s) \<and> fst (fl a b d s) \<le> of_int b)"

definition to_fixed :: "nat \<Rightarrow> rat \<Rightarrow> rat" where
  "to_fixed d x = of_int \<lfloor>x * 10 ^ d + 1 / 2\<rfloor> / 10 ^ d"

definition metric_event :: "'s faker \<Rightarrow> 's float_between \<Rightarrow> nat \<Rightarrow> 's \<Rightarrow> GeneratedMetricEvent \<times> 's" where
  "metric_event f fl month s =
     (let (fromMs, toMs) = monthBounds PARTITIONED_YEAR month;
          (m, s) = arrayElement f metricPool s;
          (ts, s) = int_between f fromMs (toMs - 1) s;
          (device, s) = arrayElement f deviceIds s;
          (v, s) = fl (spec_min m) (spec_max m) (spec_decimals m) s in
      (\<lparr>deviceId = device, metric = spec_value m, event_value = to_fixed (spec_decimals m) v, recordedAt = ts\<rparr>, s))"

fun month_batches ::
  "'s faker \<Rightarrow> 's float_between \<Rightarrow> nat \<Rightarrow> nat \<Rightarrow> nat list \<Rightarrow> 's \<Rightarrow> (nat \<times> GeneratedMetricEvent list) list" where
  "month_batches f fl rowsPerMonth batchSize [] s = []"
| "month_batches f fl rowsPerMonth batchSize (month # ms) s =
     (let (s, b) = batch_orders (metric_event f fl month) batchSize rowsPerMonth s ([], []) in
      map (Pair month) (if snd b = [] then fst b else fst b @ [snd b]) @ month_batches f fl rowsPerMonth batchSize ms s)"

definition generateMetricEventsBatched ::
  "'s faker \<Rightarrow> 's float_between \<Rightarrow> nat \<Rightarrow> int \<Rightarrow> nat option \<Rightarrow> (nat \<times> GeneratedMetricEvent list) list" where
  "generateMetricEventsBatched f fl rowsPerMonth sd batchSize =
     month_batches f fl rowsPerMonth (case batchSize of None \<Rightarrow> 5000 | Some n \<Rightarrow> n) [1..<13] (seeded f sd)"

definition spec_fits :: "GeneratedMetricEvent \<Rightarrow> bool" where
  "spec_fits e \<longleftrightarrow> deviceId e \<in> set deviceIds
     \<and> (\<exists>m \<in> set METRICS. metric e = spec_value m \<and> of_int (spec_min m) \<le> event_value e \<and> event_value e \<le> of_int (spec_max m)
          \<and> event_value e * 10 ^ spec_decimals m \<in> \<int>)"

definition in_month :: "nat \<Rightarrow> GeneratedMetricEvent \<Rightarrow> bool" where
  "in_month m e \<longleftrightarrow> bound_covers (mp_bound (month_partition m)) (At (recordedAt e))"

lemma to_fixed_bounds:
  assumes "of_int a \<le> x" and "x \<le> of_int b"
  shows "of_int a \<le> to_fixed d x" and "to_fixed d x \<le> of_int b" and "to_fixed d x * 10 ^ d \<in> \<int>"
proof -
  have "(of_int a :: rat) * 10 ^ d \<le> x * 10 ^ d" "x * 10 ^ d \<le> of_int b * 10 ^ d" using assms by simp_all
  then have "(of_int (a * 10 ^ d) :: rat) \<le> x * 10 ^ d" "x * 10 ^ d \<le> (of_int (b * 10 ^ d) :: rat)" by simp_all
  then have "(of_int (a * 10 ^ d) :: rat) \<le> x * 10 ^ d + 1 / 2" "x * 10 ^ d + 1 / 2 < (of_int (b * 10 ^ d) :: rat) + 1" by linarith+
  then have "a * 10 ^ d \<le> \<lfloor>x * 10 ^ d + 1 / 2\<rfloor>" "\<lfloor>x * 10 ^ d + 1 / 2\<rfloor> \<le> b * 10 ^ d" by (simp_all only: le_floor_iff floor_le_iff)
  then have "(of_int a :: rat) * 10 ^ d \<le> of_int \<lfloor>x * 10 ^ d + 1 / 2\<rfloor>" "(of_int \<lfloor>x * 10 ^ d + 1 / 2\<rfloor> :: rat) \<le> of_int b * 10 ^ d"
    by (metis of_int_le_iff of_int_mult of_int_numeral of_int_power)+
  then show "of_int a \<le> to_fixed d x" "to_fixed d x \<le> of_int b" by (simp_all add: to_fixed_def field_simps)
  show "to_fixed d x * 10 ^ d \<in> \<int>" by (simp add: to_fixed_def)
qed

lemma metric_event_fits:
  assumes "faker_ok f" and "float_ok fl" and "m \<in> {1..12}" and "metric_event f fl m s = (e, s')"
  shows "spec_fits e \<and> in_month m e"
proof -
  obtain lo hi where b: "monthBounds PARTITIONED_YEAR m = (lo, hi)" by fastforce
  have "month_partition m \<in> set canonicalPartitions" using assms(3) by (auto simp: canonical_month)
  then have "lo < hi" using canonical_nonempty [of "month_partition m"] b by (simp add: PARTITIONED_YEAR_def)
  obtain sp s1 where 1: "arrayElement f metricPool s = (sp, s1)" by fastforce
  obtain ts s2 where 2: "int_between f lo (hi - 1) s1 = (ts, s2)" by fastforce
  obtain dev s3 where 3: "arrayElement f deviceIds s2 = (dev, s3)" by fastforce
  obtain v s4 where 4: "fl (spec_min sp) (spec_max sp) (spec_decimals sp) s3 = (v, s4)" by fastforce
  have "sp \<in> set metricPool" by (rule arrayElement_in [OF assms(1) _ 1]) (simp add: metricPool_def METRICS_def)
  then have sp: "sp \<in> set METRICS" by (auto simp: metricPool_def)
  then have "spec_min sp \<le> spec_max sp" by (auto simp: METRICS_def)
  then have v: "of_int (spec_min sp) \<le> v" "v \<le> of_int (spec_max sp)" using assms(2) 4 unfolding float_ok_def by (metis fst_conv)+
  have ts: "lo \<le> ts \<and> ts \<le> hi - 1" by (rule faker_ok_D(1) [OF assms(1) _ 2]) (use \<open>lo < hi\<close> in simp)
  have dev: "dev \<in> set deviceIds" by (rule arrayElement_in [OF assms(1) _ 3]) (simp add: deviceIds_def DEVICE_POOL_SIZE_def)
  have e: "e = \<lparr>deviceId = dev, metric = spec_value sp, event_value = to_fixed (spec_decimals sp) v, recordedAt = ts\<rparr>"
    using assms(4) by (simp add: metric_event_def b 1 2 3 4)
  have "spec_fits e" using sp dev to_fixed_bounds [OF v] by (auto simp: e spec_fits_def)
  moreover have "in_month m e" using ts b by (simp add: e in_month_def mp_bound_def PARTITIONED_YEAR_def)
  ultimately show ?thesis ..
qed

text \<open>Joined, the batches are the asked number of events of each month, one month after the other.\<close>

lemma month_batches_events:
  assumes "faker_ok f" and "float_ok fl" and "set ms \<subseteq> {1..12}"
  shows "\<exists>ess. concat (map snd (month_batches f fl n full ms s)) = concat ess
    \<and> list_all2 (\<lambda>m es. length es = n \<and> (\<forall>e \<in> set es. spec_fits e \<and> in_month m e)) ms ess
    \<and> (\<forall>mb \<in> set (month_batches f fl n full ms s). snd mb \<noteq> [] \<and> length (snd mb) \<le> max 1 full \<and> (\<forall>e \<in> set (snd mb). in_month (fst mb) e))"
  using assms(3)
proof (induction ms arbitrary: s)
  case (Cons m ms)
  obtain es s' where d: "draw_each (\<lambda>_. metric_event f fl m) [0..<n] s = (es, s')" by fastforce
  define b where "b = foldl (push_order full) ([], []) es"
  have "batching_ok full ([] :: GeneratedMetricEvent list) ([], [])" by (simp add: batching_ok_def)
  from foldl_push_order [OF this, of es] have ok: "batching_ok full es b" by (simp add: b_def)
  define bs where "bs = (if snd b = [] then fst b else fst b @ [snd b])"
  have bs: "concat bs = es" "\<forall>x \<in> set bs. x \<noteq> [] \<and> length x \<le> max 1 full" using ok by (auto simp: batching_ok_def bs_def)
  have r: "month_batches f fl n full (m # ms) s = map (Pair m) bs @ month_batches f fl n full ms s'"
    by (simp add: batch_orders_fold [OF d] bs_def b_def Let_def)
  have m: "m \<in> {1..12}" "set ms \<subseteq> {1..12}" using Cons.prems by simp_all
  note fit = metric_event_fits [OF assms(1,2) m(1)]
  have "list_all2 (\<lambda>_ e. spec_fits e \<and> in_month m e) [0..<n] es"
    by (rule draw_each_all [OF d]) (rule fit)
  then have es: "\<forall>e \<in> set es. spec_fits e \<and> in_month m e" by (rule list_all2_right)
  have len: "length es = n" using draw_each_length [OF d] by simp
  have inb: "\<forall>x \<in> set bs. \<forall>e \<in> set x. in_month m e" using es unfolding bs(1) [symmetric] by auto
  from Cons.IH [OF m(2), of s'] obtain ess where ess: "concat (map snd (month_batches f fl n full ms s')) = concat ess"
      "list_all2 (\<lambda>m es. length es = n \<and> (\<forall>e \<in> set es. spec_fits e \<and> in_month m e)) ms ess"
      "\<forall>mb \<in> set (month_batches f fl n full ms s'). snd mb \<noteq> [] \<and> length (snd mb) \<le> max 1 full \<and> (\<forall>e \<in> set (snd mb). in_month (fst mb) e)"
    by (elim exE conjE)
  have "concat (map snd (month_batches f fl n full (m # ms) s)) = concat (es # ess)"
    unfolding r by (simp add: ess(1) bs(1) o_def)
  moreover have "list_all2 (\<lambda>m es. length es = n \<and> (\<forall>e \<in> set es. spec_fits e \<and> in_month m e)) (m # ms) (es # ess)"
    using ess(2) es len by simp
  moreover have "\<forall>mb \<in> set (month_batches f fl n full (m # ms) s). snd mb \<noteq> [] \<and> length (snd mb) \<le> max 1 full \<and> (\<forall>e \<in> set (snd mb). in_month (fst mb) e)"
    unfolding r set_append ball_Un using ess(3) bs(2) inb by simp
  ultimately show ?case by (intro exI [of _ "es # ess"] conjI)
qed (intro exI [of _ "[]"], simp)

section \<open>The seed\<close>

definition SIZE_PRESETS_35 :: "(string \<times> nat) list" where
  "SIZE_PRESETS_35 = [(''small'', 5000), (''medium'', 50000), (''large'', 100000)]"

definition INSERT_BATCH_SIZE :: nat where "INSERT_BATCH_SIZE = 5000"

definition parse_args_35 :: "(string \<Rightarrow> rat option) \<Rightarrow> string list \<Rightarrow> string + rat option \<times> nat" where
  "parse_args_35 num args =
     (let get = (\<lambda>flag. map_option after_equals (flag_arg (flag @ ''='') args));
          sd = (case get ''--seed'' of None \<Rightarrow> Some 42 | Some a \<Rightarrow> num a) in
      case get ''--rows'' of
        Some (c # a) \<Rightarrow>
          (case num (c # a) of
             Some rows \<Rightarrow> if rows \<le> 0 then Inl (''Invalid --rows value '' @ CHR 0x22 # (c # a) @ [CHR 0x22])
                          else Inr (sd, nat (max 1 \<lfloor>rows / 12 + 1 / 2\<rfloor>))
           | None \<Rightarrow> Inl (''Invalid --rows value '' @ CHR 0x22 # (c # a) @ [CHR 0x22]))
      | _ \<Rightarrow>
          (let size = (case get ''--size'' of None \<Rightarrow> ''small'' | Some a \<Rightarrow> a) in
           case map_of SIZE_PRESETS_35 size of
             None \<Rightarrow> Inl (''Unknown --size '' @ CHR 0x22 # size @ CHR 0x22 # ''. Use small, medium, or large.'')
           | Some rowsPerMonth \<Rightarrow> Inr (sd, rowsPerMonth)))"

text \<open>The flat table with its identity column, its partitioned twin, and the table of the regions.\<close>

record lab35_db =
  flat :: "(nat \<times> GeneratedMetricEvent) list"
  flat_next :: nat
  partitioned :: "GeneratedMetricEvent ptable"
  by_region :: "(string \<times> GeneratedMetricEvent) ptable"

definition event_key :: "GeneratedMetricEvent \<Rightarrow> key" where "event_key e = At (recordedAt e)"

definition region_key :: "string \<times> GeneratedMetricEvent \<Rightarrow> key" where "region_key r = Region (fst r)"

definition insert_flat :: "GeneratedMetricEvent list \<Rightarrow> lab35_db \<Rightarrow> lab35_db" where
  "insert_flat es db =
     db\<lparr>flat := flat db @ zip [flat_next db..<flat_next db + length es] es, flat_next := flat_next db + length es\<rparr>"

definition insertPartitionedBatch :: "GeneratedMetricEvent list \<Rightarrow> (GeneratedMetricEvent, nat list) stmt" where
  "insertPartitionedBatch batch = (if batch = [] then (\<lambda>t. (Inr [], t)) else insert_statement event_key batch)"

text \<open>
  \<open>Promise.all\<close> of the two inserts: they concern different tables. When one fails the script logs the error and exits, so no state is
  given.\<close>

fun seed_batches :: "(nat \<times> GeneratedMetricEvent list) list \<Rightarrow> lab35_db \<Rightarrow> pg_error + lab35_db" where
  "seed_batches [] db = Inr db"
| "seed_batches ((month, batch) # bs) db =
     (case insertPartitionedBatch batch (partitioned db) of
        (Inl er, _) \<Rightarrow> Inl er
      | (Inr _, t) \<Rightarrow> seed_batches bs ((insert_flat batch db)\<lparr>partitioned := t\<rparr>))"

definition seed_35 :: "'s faker \<Rightarrow> 's float_between \<Rightarrow> nat \<Rightarrow> int \<Rightarrow> lab35_db \<Rightarrow> pg_error + lab35_db" where
  "seed_35 f fl rowsPerMonth sd db =
     (case reconcileCanonicalPartitionLayout event_key (partitioned db) of
        (Inl er, _) \<Rightarrow> Inl er
      | (Inr _, t) \<Rightarrow>
          (case resetListDemoTable (by_region db) of
             (Inl er, _) \<Rightarrow> Inl er
           | (Inr _, l) \<Rightarrow>
               seed_batches (generateMetricEventsBatched f fl rowsPerMonth sd (Some INSERT_BATCH_SIZE))
                 (db\<lparr>flat := [], flat_next := 1, partitioned := truncate_parts t, by_region := l\<rparr>)))"

text \<open>The seeded tables are twins.\<close>

lemma canonical_takes:
  assumes "canonical_layout t" and "m \<in> {1..12}" and "in_month m e"
  shows "takes event_key t e"
proof -
  have "month_partition m \<in> set canonicalPartitions" using assms(2) by (auto simp: canonical_month)
  then have "(mp_name (month_partition m), mp_bound (month_partition m)) \<in> (\<lambda>p. (part_name p, part_bound p)) ` set (parts t)"
    using assms(1) unfolding canonical_layout_def by blast
  then obtain p where "p \<in> set (parts t)" "part_bound p = mp_bound (month_partition m)" by auto
  moreover from this(2) have "belongs (parts t) p (event_key e)" using assms(3) by (simp add: belongs_def event_key_def in_month_def)
  ultimately show ?thesis unfolding takes_def by blast
qed

lemma canonical_layout_shape:
  fixes t t' :: "'x ptable"
  assumes "canonical_layout t" and "map part_bound (parts t') = map part_bound (parts t)" and "map part_name (parts t') = map part_name (parts t)" and "ptable_ok t'"
  shows "canonical_layout t'"
proof -
  have "map (\<lambda>p. (part_name p, part_bound p)) ps = zip (map part_name ps) (map part_bound ps)" for ps :: "'x part list"
    by (induction ps) simp_all
  then have "map (\<lambda>p. (part_name p, part_bound p)) (parts t') = map (\<lambda>p. (part_name p, part_bound p)) (parts t)" by (simp only: assms(2,3))
  then have "(\<lambda>p. (part_name p, part_bound p)) ` set (parts t') = (\<lambda>p. (part_name p, part_bound p)) ` set (parts t)" by (metis set_map)
  then show ?thesis using assms(1,4) unfolding canonical_layout_def by simp
qed

lemma seed_batches_mirror:
  assumes "mirrors event_key (partitioned db) (flat db)" and "canonical_layout (partitioned db)" and "next_id (partitioned db) = flat_next db"
    and "\<forall>mb \<in> set bs. fst mb \<in> {1..12} \<and> (\<forall>e \<in> set (snd mb). in_month (fst mb) e)"
  shows "\<exists>db'. seed_batches bs db = Inr db' \<and> mirrors event_key (partitioned db') (flat db') \<and> canonical_layout (partitioned db')
    \<and> next_id (partitioned db') = flat_next db' \<and> map snd (flat db') = map snd (flat db) @ concat (map snd bs)
    \<and> map fst (flat db') = map fst (flat db) @ [flat_next db..<flat_next db + length (concat (map snd bs))]
    \<and> flat_next db' = flat_next db + length (concat (map snd bs)) \<and> by_region db' = by_region db"
  using assms
proof (induction bs arbitrary: db)
  case (Cons mb bs)
  obtain m es where mb: "mb = (m, es)" by fastforce
  have m: "m \<in> {1..12}" "\<forall>e \<in> set es. in_month m e" using Cons.prems(4) by (simp_all add: mb)
  have "\<forall>e \<in> set es. takes event_key (partitioned db) e" using canonical_takes [OF Cons.prems(2) m(1)] m(2) by blast
  from insert_statement_mirrors(1) [OF Cons.prems(1) this] obtain t where
    t: "insert_statement event_key es (partitioned db) = (Inr [next_id (partitioned db)..<next_id (partitioned db) + length es], t)"
      "mirrors event_key t (flat db @ zip [next_id (partitioned db)..<next_id (partitioned db) + length es] es)"
      "map part_bound (parts t) = map part_bound (parts (partitioned db))" "map part_name (parts t) = map part_name (parts (partitioned db))"
      "next_id t = next_id (partitioned db) + length es" by (elim exE conjE)
  have "\<exists>ns t'. insertPartitionedBatch es (partitioned db) = (Inr ns, t') \<and> t' = (if es = [] then partitioned db else t)"
    using t(1) by (simp add: insertPartitionedBatch_def)
  then obtain ns t' where ins: "insertPartitionedBatch es (partitioned db) = (Inr ns, t')" "t' = (if es = [] then partitioned db else t)" by blast
  define db1 where "db1 = (insert_flat es db)\<lparr>partitioned := t'\<rparr>"
  have f1: "flat db1 = flat db @ zip [flat_next db..<flat_next db + length es] es" "flat_next db1 = flat_next db + length es"
    "by_region db1 = by_region db" "partitioned db1 = t'" by (simp_all add: db1_def insert_flat_def)
  have m1: "mirrors event_key (partitioned db1) (flat db1)" using t(2) Cons.prems(1,3) by (simp add: f1 ins(2))
  have c1: "canonical_layout (partitioned db1)"
    using canonical_layout_shape [OF Cons.prems(2) t(3,4) mirrorsD(1) [OF t(2)]] Cons.prems(2) by (simp add: f1 ins(2))
  have n1: "next_id (partitioned db1) = flat_next db1" using t(5) Cons.prems(3) by (simp add: f1 ins(2))
  have "\<forall>mb \<in> set bs. fst mb \<in> {1..12} \<and> (\<forall>e \<in> set (snd mb). in_month (fst mb) e)" using Cons.prems(4) by simp
  from Cons.IH [OF m1 c1 n1 this] obtain db' where db': "seed_batches bs db1 = Inr db'" "mirrors event_key (partitioned db') (flat db')"
      "canonical_layout (partitioned db')" "next_id (partitioned db') = flat_next db'" "map snd (flat db') = map snd (flat db1) @ concat (map snd bs)"
      "map fst (flat db') = map fst (flat db1) @ [flat_next db1..<flat_next db1 + length (concat (map snd bs))]"
      "flat_next db' = flat_next db1 + length (concat (map snd bs))" "by_region db' = by_region db1" by (elim exE conjE)
  have s: "seed_batches (mb # bs) db = Inr db'" using ins(1) db'(1) by (simp add: mb db1_def)
  have "[flat_next db..<flat_next db + length es] @ [flat_next db1..<flat_next db1 + length (concat (map snd bs))]
      = [flat_next db..<flat_next db + length (concat (map snd (mb # bs)))]"
    using upt_add_eq_append [of "flat_next db" "flat_next db + length es" "length (concat (map snd bs))"] by (simp add: f1 mb add.assoc)
  then show ?case using s db' by (intro exI [of _ db']) (simp add: f1 mb)
qed simp

lemma canonical_part:
  assumes "canonical_layout t" and "p \<in> set (parts t)"
  shows "\<exists>m \<in> {1..12}. part_name p = monthPartitionName 2025 m \<and> part_bound p = mp_bound (month_partition m)"
proof -
  have "(part_name p, part_bound p) \<in> (\<lambda>c. (mp_name c, mp_bound c)) ` set canonicalPartitions"
    using assms unfolding canonical_layout_def by blast
  then obtain c where "c \<in> set canonicalPartitions" "part_name p = mp_name c" "part_bound p = mp_bound c" by auto
  then show ?thesis unfolding canonical_month by auto
qed

lemma month_part:
  assumes "canonical_layout t" and "m \<in> {1..12}"
  shows "\<exists>p \<in> set (parts t). part_name p = monthPartitionName 2025 m \<and> part_bound p = mp_bound (month_partition m)"
proof -
  have "month_partition m \<in> set canonicalPartitions" using assms(2) canonical_month by blast
  then have "(mp_name (month_partition m), mp_bound (month_partition m)) \<in> (\<lambda>c. (mp_name c, mp_bound c)) ` set canonicalPartitions"
    by (rule imageI [of _ _ "\<lambda>c. (mp_name c, mp_bound c)"])
  then have "(mp_name (month_partition m), mp_bound (month_partition m)) \<in> (\<lambda>p. (part_name p, part_bound p)) ` set (parts t)"
    using assms(1) unfolding canonical_layout_def by simp
  then show ?thesis by auto
qed

lemma canonical_no_default: "canonical_layout t \<Longrightarrow> p \<in> set (parts t) \<Longrightarrow> belongs (parts t) p k = bound_covers (part_bound p) k"
  using canonical_part by (fastforce simp: belongs_def mp_bound_def)

lemma in_month_unique:
  assumes "in_month m e" and "in_month n e" and "m \<in> {1..12}" and "n \<in> {1..12}"
  shows "m = n"
proof -
  have "month_partition m = month_partition n"
    by (rule canonical_disjoint) (use assms covers_overlaps in \<open>auto simp: canonical_month in_month_def\<close>)
  then show ?thesis using month_partition_simps(2) by metis
qed

text \<open>A query over a range reads the partitions that overlap it.\<close>

definition recorded_in :: "int \<Rightarrow> int \<Rightarrow> nat \<times> GeneratedMetricEvent \<Rightarrow> bool" where
  "recorded_in lo hi r \<longleftrightarrow> lo \<le> recordedAt (snd r) \<and> recordedAt (snd r) < hi"

definition flat_query :: "int \<Rightarrow> int \<Rightarrow> lab35_db \<Rightarrow> (nat \<times> GeneratedMetricEvent) list" where
  "flat_query lo hi db = filter (recorded_in lo hi) (flat db)"

definition pruned_query :: "int \<Rightarrow> int \<Rightarrow> lab35_db \<Rightarrow> (nat \<times> GeneratedMetricEvent) list" where
  "pruned_query lo hi db =
     concat (map (\<lambda>p. filter (recorded_in lo hi) (part_rows p)) (filter (\<lambda>p. overlaps (FromTo lo hi) (part_bound p)) (parts (partitioned db))))"

lemma split_by_home:
  assumes "distinct ps" and "\<And>r. r \<in> set rs \<Longrightarrow> \<exists>!p. p \<in> set ps \<and> Q p r"
  shows "mset (concat (map (\<lambda>p. filter (Q p) rs) ps)) = mset rs"
  using assms
proof (induction ps arbitrary: rs)
  case Nil
  then have "rs = []" by (cases rs) auto
  then show ?case by simp
next
  case (Cons p ps)
  let ?rs = "filter (\<lambda>r. \<not> Q p r) rs"
  have "\<exists>!q. q \<in> set ps \<and> Q q r" if "r \<in> set ?rs" for r using Cons.prems(2) [of r] that by auto
  then have "mset (concat (map (\<lambda>p. filter (Q p) ?rs) ps)) = mset ?rs" using Cons.IH [of ?rs] Cons.prems(1) by simp
  moreover have same: "filter (Q q) ?rs = filter (Q q) rs" if "q \<in> set ps" for q
  proof -
    have "\<not> (Q p r \<and> Q q r)" if r: "r \<in> set rs" for r
      using Cons.prems(2) [OF r] \<open>q \<in> set ps\<close> Cons.prems(1) by (metis distinct.simps(2) list.set_intros)
    then show ?thesis unfolding filter_filter by (intro filter_cong) auto
  qed
  have "map (\<lambda>q. filter (Q q) ?rs) ps = map (\<lambda>q. filter (Q q) rs) ps" by (rule map_cong [OF refl]) (rule same)
  ultimately have "mset (concat (map (\<lambda>p. filter (Q p) rs) ps)) = mset ?rs" by metis
  then show ?case using multiset_partition [of "mset rs" "Q p"] by simp
qed

lemma pruned_query_correct:
  assumes "mirrors event_key (partitioned db) (flat db)" and "canonical_layout (partitioned db)"
  shows "mset (pruned_query lo hi db) = mset (flat_query lo hi db)"
proof -
  let ?ps = "parts (partitioned db)"
  have ok: "ptable_ok (partitioned db)" by (rule mirrorsD(1) [OF assms(1)])
  have dist: "distinct ?ps" using ok by (auto simp: ptable_ok_def relation_names_def distinct_map)
  have skip: "filter (recorded_in lo hi) (part_rows p) = []" if "p \<in> set ?ps" "\<not> overlaps (FromTo lo hi) (part_bound p)" for p
  proof -
    have "\<not> (recorded_in lo hi r \<and> belongs ?ps p (event_key (snd r)))" for r
      using covers_overlaps [of "FromTo lo hi" "event_key (snd r)" "part_bound p"] that canonical_no_default [OF assms(2) that(1)]
      by (auto simp: recorded_in_def event_key_def)
    then show ?thesis unfolding mirrorsD(2) [OF assms(1) that(1)] by (auto simp: filter_empty_conv)
  qed
  have "concat (map (\<lambda>p. filter (recorded_in lo hi) (part_rows p)) (filter (\<lambda>p. overlaps (FromTo lo hi) (part_bound p)) ps))
      = concat (map (\<lambda>p. filter (recorded_in lo hi) (part_rows p)) ps)" if "set ps \<subseteq> set ?ps" for ps
    using that skip by (induction ps) auto
  then have "pruned_query lo hi db = concat (map (\<lambda>p. filter (recorded_in lo hi) (part_rows p)) ?ps)" by (simp add: pruned_query_def)
  also have "\<dots> = concat (map (\<lambda>p. filter (\<lambda>r. belongs ?ps p (event_key (snd r))) (flat_query lo hi db)) ?ps)"
  proof -
    have "filter (recorded_in lo hi) (part_rows p) = filter (\<lambda>r. belongs ?ps p (event_key (snd r))) (flat_query lo hi db)" if "p \<in> set ?ps" for p
      unfolding mirrorsD(2) [OF assms(1) that] flat_query_def filter_filter by (rule filter_cong) auto
    then show ?thesis by (metis (no_types, lifting) map_cong)
  qed
  finally have "pruned_query lo hi db = concat (map (\<lambda>p. filter (\<lambda>r. belongs ?ps p (event_key (snd r))) (flat_query lo hi db)) ?ps)" .
  moreover have "\<exists>!p. p \<in> set ?ps \<and> belongs ?ps p (event_key (snd r))" if "r \<in> set (flat_query lo hi db)" for r
  proof -
    have "r \<in> set (flat db)" using that by (simp add: flat_query_def)
    from mirrorsD(3) [OF assms(1) this] show ?thesis using belongs_unique [OF ok] by blast
  qed
  ultimately show ?thesis using split_by_home [OF dist, of "flat_query lo hi db" "\<lambda>p r. belongs ?ps p (event_key (snd r))"] by simp
qed

section \<open>Scenarios\<close>

text \<open>The retention of \<open>partition-maintenance.ts\<close>: the month is detached and dropped on one side, deleted on the other.\<close>

definition rows_of :: "string \<Rightarrow> 'e ptable \<Rightarrow> (nat \<times> 'e) list option" where
  "rows_of n t = map_of (map (\<lambda>p. (part_name p, part_rows p)) (parts t) @ plain_tables t) n"

definition TARGET_MONTH :: nat where "TARGET_MONTH = 1"

definition delete_range :: "int \<Rightarrow> int \<Rightarrow> lab35_db \<Rightarrow> lab35_db" where
  "delete_range lo hi db = db\<lparr>flat := filter (\<lambda>r. \<not> recorded_in lo hi r) (flat db)\<rparr>"

definition partition_maintenance :: "lab35_db \<Rightarrow> (pg_error + nat) \<times> lab35_db" where
  "partition_maintenance db =
     (let n = monthPartitionName PARTITIONED_YEAR TARGET_MONTH in
      case rows_of n (partitioned db) of
        None \<Rightarrow> (Inl No_such_table, db)
      | Some rs \<Rightarrow>
          (case detachAndDrop n (partitioned db) of
             (Inl er, t) \<Rightarrow> (Inl er, db\<lparr>partitioned := t\<rparr>)
           | (Inr _, t) \<Rightarrow> (Inr (length rs), delete_range (Date_UTC 2025 0 1) (Date_UTC 2025 1 1) (db\<lparr>partitioned := t\<rparr>))))"

lemma rows_of_part:
  assumes "ptable_ok t" and "p \<in> set (parts t)"
  shows "rows_of (part_name p) t = Some (part_rows p)"
proof -
  have "distinct (map fst (map (\<lambda>p. (part_name p, part_rows p)) (parts t) @ plain_tables t))"
    using assms(1) by (simp add: ptable_ok_def relation_names_def o_def)
  then show ?thesis unfolding rows_of_def using assms(2) by (intro map_of_is_SomeI) auto
qed

lemma partition_maintenance_mirrors:
  assumes "mirrors event_key (partitioned db) (flat db)" and "canonical_layout (partitioned db)"
  shows "\<exists>db'. partition_maintenance db = (Inr (length (filter (recorded_in (Date_UTC 2025 0 1) (Date_UTC 2025 1 1)) (flat db))), db')
    \<and> flat db' = filter (\<lambda>r. \<not> recorded_in (Date_UTC 2025 0 1) (Date_UTC 2025 1 1) r) (flat db) \<and> mirrors event_key (partitioned db') (flat db')
    \<and> part_name ` set (parts (partitioned db')) = monthPartitionName 2025 ` {2..12}"
proof -
  have ok: "ptable_ok (partitioned db)" by (rule mirrorsD(1) [OF assms(1)])
  obtain p where p: "p \<in> set (parts (partitioned db))" "part_name p = monthPartitionName 2025 1" "part_bound p = mp_bound (month_partition 1)"
    using month_part [OF assms(2), of 1] by auto
  let ?lo = "Date_UTC 2025 0 1" and ?hi = "Date_UTC 2025 1 1"
  have jan: "(\<lambda>r. belongs (parts (partitioned db)) p (event_key (snd r))) = recorded_in ?lo ?hi"
  proof
    fix r
    have "mp_bound (month_partition 1) = FromTo ?lo ?hi" by (simp add: mp_bound_def monthBounds_def)
    then show "belongs (parts (partitioned db)) p (event_key (snd r)) = recorded_in ?lo ?hi r"
      by (simp only: canonical_no_default [OF assms(2) p(1)] p(3) event_key_def recorded_in_def bound_covers.simps(1))
  qed
  from detachAndDrop_mirrors [OF assms(1) p(1)] obtain t where
    t: "detachAndDrop (part_name p) (partitioned db) = (Inr (), t)"
      "mirrors event_key t (filter (\<lambda>r. \<not> belongs (parts (partitioned db)) p (event_key (snd r))) (flat db))"
      "parts t = filter (\<lambda>q. part_name q \<noteq> part_name p) (parts (partitioned db))" by (elim exE conjE)
  have n: "part_rows p = filter (recorded_in ?lo ?hi) (flat db)"
    using mirrorsD(2) [OF assms(1) p(1)] by (simp only: jan)
  have m: "mirrors event_key t (filter (\<lambda>r. \<not> recorded_in ?lo ?hi r) (flat db))" using t(2) fun_cong [OF jan] by (simp only:)
  have "part_name ` set (parts (partitioned db)) = monthPartitionName 2025 ` {1..12}"
  proof (intro equalityI subsetI)
    fix x
    assume "x \<in> part_name ` set (parts (partitioned db))"
    then obtain q where "q \<in> set (parts (partitioned db))" "x = part_name q" by blast
    then show "x \<in> monthPartitionName 2025 ` {1..12}" using canonical_part [OF assms(2)] by blast
  next
    fix x
    assume "x \<in> monthPartitionName 2025 ` {1..12}"
    then obtain m where "m \<in> {1..12}" "x = monthPartitionName 2025 m" by blast
    then show "x \<in> part_name ` set (parts (partitioned db))" using month_part [OF assms(2)] by force
  qed
  moreover have "part_name ` set (parts t) = part_name ` set (parts (partitioned db)) - {part_name p}" by (auto simp: t(3))
  ultimately have "part_name ` set (parts t) = monthPartitionName 2025 ` {1..12} - {monthPartitionName 2025 1}" by (simp only: p(2))
  also have "\<dots> = monthPartitionName 2025 ` ({1..12} - {1})" by (auto simp: monthPartitionName_inject)
  also have "{1..12} - {1} = {2..12 :: nat}" by auto
  finally have names: "part_name ` set (parts t) = monthPartitionName 2025 ` {2..12}" .
  define db' where "db' = delete_range ?lo ?hi (db\<lparr>partitioned := t\<rparr>)"
  have "partition_maintenance db = (Inr (length (part_rows p)), db')"
    using rows_of_part [OF ok p(1)] t(1) by (simp add: partition_maintenance_def PARTITIONED_YEAR_def TARGET_MONTH_def p(2) db'_def)
  moreover have "flat db' = filter (\<lambda>r. \<not> recorded_in ?lo ?hi r) (flat db)" "partitioned db' = t" by (simp_all add: db'_def delete_range_def)
  ultimately show ?thesis using m names n by (intro exI [of _ db']) simp
qed

text \<open>The other scenarios: the partition that was missing, and the table partitioned by region.\<close>

definition OUT_OF_RANGE_ROW :: GeneratedMetricEvent where
  "OUT_OF_RANGE_ROW = \<lparr>deviceId = ''dev-0001'', metric = ''temperature_c'', event_value = 214 / 10, recordedAt = Date_UTC 2026 0 15\<rparr>"

definition provision :: "(GeneratedMetricEvent, nat list) stmt" where
  "provision =
     then_stmt (create_partition event_key False ''metric_events_y2026m01'' (FromTo (Date_UTC 2026 0 1) (Date_UTC 2026 1 1)))
       (\<lambda>_. then_stmt (insert_statement event_key [OUT_OF_RANGE_ROW])
         (\<lambda>ids. then_stmt (create_partition event_key False ''metric_events_y2026m02'' (FromTo (Date_UTC 2026 1 1) (Date_UTC 2026 2 1)))
           (\<lambda>_ t. (Inr ids, t))))"

text \<open>\<open>None\<close>: the first insert succeeds unexpectedly, and the script stops.\<close>

definition attach_missing :: "lab35_db \<Rightarrow> (pg_error + nat list option) \<times> lab35_db" where
  "attach_missing db =
     (case insert_statement event_key [OUT_OF_RANGE_ROW] (partitioned db) of
        (Inr _, t) \<Rightarrow> (Inr None, db\<lparr>partitioned := t\<rparr>)
      | (Inl _, t) \<Rightarrow> (case provision t of
            (Inl er, t) \<Rightarrow> (Inl er, db\<lparr>partitioned := t\<rparr>)
          | (Inr ids, t) \<Rightarrow> (Inr (Some ids), db\<lparr>partitioned := t\<rparr>)))"

definition region_row :: "string \<Rightarrow> string \<Rightarrow> rat \<Rightarrow> int \<Rightarrow> string \<times> GeneratedMetricEvent" where
  "region_row region device v now = (region, \<lparr>deviceId = device, metric = ''temperature_c'', event_value = v, recordedAt = now\<rparr>)"

definition list_statements :: "int \<Rightarrow> (string \<times> GeneratedMetricEvent, nat list) stmt" where
  "list_statements now =
     then_stmt resetListDemoTable
       (\<lambda>_. then_stmt (insert_statement region_key
               [region_row ''us'' ''dev-0001'' 21 now, region_row ''us'' ''dev-0002'' 22 now,
                region_row ''eu'' ''dev-0101'' (185 / 10) now, region_row ''apac'' ''dev-0201'' 29 now])
         (\<lambda>_ t. then_stmt (create_partition region_key False ''metric_events_by_region_default'' Default)
             (\<lambda>_. insert_statement region_key [region_row ''latam'' ''dev-0301'' 27 now])
             (snd (insert_statement region_key [region_row ''latam'' ''dev-0301'' 27 now] t))))"

definition list_partitioning :: "int \<Rightarrow> lab35_db \<Rightarrow> (pg_error + nat list) \<times> lab35_db" where
  "list_partitioning now db = (let (r, t) = list_statements now (by_region db) in (r, db\<lparr>by_region := t\<rparr>))"

datatype script_35 = Maintenance | Attach_missing | List_demo int

fun run_script :: "script_35 \<Rightarrow> lab35_db \<Rightarrow> lab35_db" where
  "run_script Maintenance db = snd (partition_maintenance db)"
| "run_script Attach_missing db = snd (attach_missing db)"
| "run_script (List_demo now) db = snd (list_partitioning now db)"

text \<open>What they keep, whether they end or fail: the layout stays one that can be restored, and the region table one that can be reset.\<close>

definition region_bounds :: "(string \<times> bound) list" where
  "region_bounds = [(''metric_events_by_region_us'', Values_In [''us'']), (''metric_events_by_region_eu'', Values_In [''eu'']),
     (''metric_events_by_region_apac'', Values_In [''apac''])]"

definition region_ok :: "'e ptable \<Rightarrow> bool" where
  "region_ok t \<longleftrightarrow> ptable_ok t \<and> set region_bounds \<subseteq> (\<lambda>p. (part_name p, part_bound p)) ` set (parts t)"

definition lab35_ok :: "lab35_db \<Rightarrow> bool" where
  "lab35_ok db \<longleftrightarrow> recoverable (partitioned db) \<and> region_ok (by_region db)"

definition same_shape :: "'e ptable \<Rightarrow> 'e ptable \<Rightarrow> bool" where
  "same_shape t t' \<longleftrightarrow> map (\<lambda>p. (part_name p, part_bound p)) (parts t') = map (\<lambda>p. (part_name p, part_bound p)) (parts t)
     \<and> map fst (plain_tables t') = map fst (plain_tables t)"

lemma same_shape_refl: "parts t' = parts t \<Longrightarrow> plain_tables t' = plain_tables t \<Longrightarrow> same_shape t t'"
  by (simp add: same_shape_def)

lemma same_shape_trans: "same_shape t u \<Longrightarrow> same_shape u v \<Longrightarrow> same_shape t v"
  by (simp add: same_shape_def)

lemma same_shapeD:
  assumes "same_shape t t'"
  shows "relation_names t' = relation_names t" and "p \<in> set (parts t') \<Longrightarrow> \<exists>q \<in> set (parts t). part_name q = part_name p \<and> part_bound q = part_bound p"
proof -
  have m: "map fst (map (\<lambda>p. (part_name p, part_bound p)) (parts t')) = map fst (map (\<lambda>p. (part_name p, part_bound p)) (parts t))"
    using assms by (simp only: same_shape_def)
  then show "relation_names t' = relation_names t" using assms by (simp add: same_shape_def relation_names_def o_def)
  assume "p \<in> set (parts t')"
  then have "(part_name p, part_bound p) \<in> set (map (\<lambda>p. (part_name p, part_bound p)) (parts t'))" by auto
  then have "(part_name p, part_bound p) \<in> set (map (\<lambda>p. (part_name p, part_bound p)) (parts t))" using assms by (simp only: same_shape_def)
  then show "\<exists>q \<in> set (parts t). part_name q = part_name p \<and> part_bound q = part_bound p" by auto
qed

lemma table_ok_same_shape:
  assumes "same_shape t t'" and "ptable_ok t"
  shows "ptable_ok t'"
proof -
  note s = same_shapeD [OF assms(1)]
  have d: "distinct (relation_names t')" using assms(2) s(1) by (simp add: ptable_ok_def)
  have "p = q" if pq: "p \<in> set (parts t')" "q \<in> set (parts t')" and o: "overlaps (part_bound p) (part_bound q)" for p q
  proof -
    obtain p' q' where "p' \<in> set (parts t)" "q' \<in> set (parts t)" "part_name p' = part_name p" "part_name q' = part_name q"
        "part_bound p' = part_bound p" "part_bound q' = part_bound q" using s(2) [OF pq(1)] s(2) [OF pq(2)] by blast
    then have "part_name p = part_name q" using assms(2) o unfolding ptable_ok_def by metis
    then show ?thesis using d pq inj_on_eq_iff [of part_name "set (parts t')" p q] by (auto simp: relation_names_def distinct_map)
  qed
  then show ?thesis using d unfolding ptable_ok_def by blast
qed

lemma recoverable_same_shape: "same_shape t t' \<Longrightarrow> recoverable t \<Longrightarrow> recoverable t'"
proof -
  assume s: "same_shape t t'" and r: "recoverable t"
  have "ptable_ok t'" using table_ok_same_shape [OF s] r by (simp add: recoverable_def)
  moreover have "part_bound p = mp_bound c" if "p \<in> set (parts t')" "c \<in> set canonicalPartitions" "part_name p = mp_name c" for p c
    using same_shapeD(2) [OF s that(1)] r that(2,3) unfolding recoverable_def by metis
  moreover have "fst ` set (plain_tables t') = fst ` set (plain_tables t)" using s unfolding same_shape_def by (metis set_map)
  ultimately show "recoverable t'" using r unfolding recoverable_def by simp
qed

lemma region_ok_same_shape: "same_shape t t' \<Longrightarrow> region_ok t \<Longrightarrow> region_ok t'"
proof -
  assume s: "same_shape t t'" and r: "region_ok t"
  have "(\<lambda>p. (part_name p, part_bound p)) ` set (parts t') = (\<lambda>p. (part_name p, part_bound p)) ` set (parts t)"
    using s unfolding same_shape_def by (metis set_map)
  then show "region_ok t'" using r table_ok_same_shape [OF s] by (simp add: region_ok_def)
qed

lemma insert_same_shape: "same_shape t (snd (insert_statement key es t))"
proof -
  have row: "same_shape t (snd (insert_row key e t))" for e t
    by (simp add: insert_row_def Let_def same_shape_def put_row_def split: option.splits)
  have each: "same_shape t (snd (insert_each key es t))" for t
  proof (induction es arbitrary: t)
    case (Cons e es)
    obtain r u where u: "insert_row key e t = (r, u)" by fastforce
    obtain r' v where v: "insert_each key es u = (r', v)" by fastforce
    have "same_shape t u" "same_shape u v" using row [of t e] Cons.IH [of u] by (simp_all add: u v)
    then show ?case using same_shape_trans by (auto simp: then_stmt_def u v split: sum.splits)
  qed (simp add: same_shape_def)
  show ?thesis using each [of t] by (auto simp: insert_statement_def same_shape_refl split: prod.splits sum.splits)
qed

lemma create_partition_cases:
  assumes "create_partition key ine n b t = (r, t')"
  obtains "t' = t" | "n \<notin> set (relation_names t)" "r = Inr ()"
proof (cases "n \<in> set (relation_names t)")
  case True
  then have "t' = t" using assms by (simp add: create_partition_def split: if_splits)
  then show ?thesis by (rule that(1))
next
  case False
  show ?thesis
  proof (cases r)
    case (Inl er)
    then have "t' = t" using assms False by (simp add: create_partition_def split: if_splits)
    then show ?thesis by (rule that(1))
  next
    case (Inr u)
    then show ?thesis using that(2) False by simp
  qed
qed

lemma create_keeps_recoverable:
  assumes "recoverable t" and "n \<notin> mp_name ` set canonicalPartitions"
  shows "recoverable (snd (create_partition key ine n b t))"
proof -
  obtain r t' where c: "create_partition key ine n b t = (r, t')" by fastforce
  from c show ?thesis
  proof (cases rule: create_partition_cases)
    case 2
    then have c': "create_partition key ine n b t = (Inr (), t')" using c by simp
    have "ptable_ok t'" by (rule create_partition_ok [OF _ 2(1) c']) (use assms(1) in \<open>simp add: recoverable_def\<close>)
    then show ?thesis using assms unfolding c create_partition_Inr(3) [OF 2(1) c'] by (auto simp: recoverable_def)
  qed (simp add: c assms)
qed

lemma create_keeps_regions:
  assumes "region_ok t"
  shows "region_ok (snd (create_partition key ine n b t))"
proof -
  obtain r t' where c: "create_partition key ine n b t = (r, t')" by fastforce
  from c show ?thesis
  proof (cases rule: create_partition_cases)
    case 2
    then have c': "create_partition key ine n b t = (Inr (), t')" using c by simp
    have ok: "ptable_ok t'" by (rule create_partition_ok [OF _ 2(1) c']) (use assms in \<open>simp add: region_ok_def\<close>)
    have "set region_bounds \<subseteq> (\<lambda>p. (part_name p, part_bound p)) ` set (parts t)" using assms by (simp add: region_ok_def)
    also have "\<dots> \<subseteq> (\<lambda>p. (part_name p, part_bound p)) ` set (parts t')"
      by (rule image_mono) (simp add: create_partition_Inr(3) [OF 2(1) c'] subset_insertI)
    finally show ?thesis using ok by (simp add: c region_ok_def)
  qed (simp add: c assms)
qed

lemma then_stmt_keeps:
  assumes "P (snd (m t))" and "\<And>x u. P u \<Longrightarrow> P (snd (g x u))"
  shows "P (snd (then_stmt m g t))"
  using assms by (auto simp: then_stmt_def split: prod.splits sum.splits)

lemma region_names_fixed: "fst ` set region_bounds = set LIST_DEMO_CANONICAL_PARTITIONS"
  by (simp add: region_bounds_def LIST_DEMO_CANONICAL_PARTITIONS_def)

lemma reset_regions:
  assumes "region_ok t"
  shows "\<exists>t'. resetListDemoTable t = (Inr (), t') \<and> region_ok t' \<and> mirrors key t' [] \<and> next_id t' = 1
    \<and> (\<lambda>p. (part_name p, part_bound p)) ` set (parts t') = set region_bounds"
proof -
  define N where "N = set LIST_DEMO_CANONICAL_PARTITIONS"
  define extra where "extra = filter (\<lambda>n. n \<notin> N) (map fst (listExistingPartitions t))"
  have ok: "ptable_ok t" using assms by (simp add: region_ok_def)
  define u where "u = t\<lparr>parts := filter (\<lambda>p. part_name p \<in> N) (parts t)\<rparr>"
  have u: "for_each detachAndDrop extra t = (Inr (), u)" "ptable_ok u"
    using drop_listed [OF ok, of "\<lambda>n. n \<notin> N"] by (simp_all add: extra_def u_def)
  have r: "resetListDemoTable t = (Inr (), truncate_parts u)"
    using u(1) by (simp add: resetListDemoTable_def Let_def then_stmt_def extra_def N_def)
  have shape: "(\<lambda>p. (part_name p, part_bound p)) ` set (parts (truncate_parts u)) = (\<lambda>p. (part_name p, part_bound p)) ` set (parts u)"
    by (simp add: truncate_parts_def image_image)
  also have "\<dots> = set region_bounds"
  proof (intro equalityI subsetI)
    fix x
    assume "x \<in> (\<lambda>p. (part_name p, part_bound p)) ` set (parts u)"
    then obtain p where p: "p \<in> set (parts t)" "part_name p \<in> fst ` set region_bounds" "x = (part_name p, part_bound p)"
      by (auto simp: u_def N_def region_names_fixed)
    from p(2) obtain b where b: "(part_name p, b) \<in> set region_bounds" by auto
    then obtain q where q: "q \<in> set (parts t)" "part_name q = part_name p" "part_bound q = b" using assms by (fastforce simp: region_ok_def)
    then have "q = p" using part_unique(1) [OF ok q(1) p(1)] by simp
    then show "x \<in> set region_bounds" using b q(3) p(3) by simp
  next
    fix x
    assume x: "x \<in> set region_bounds"
    then obtain p where "p \<in> set (parts t)" "x = (part_name p, part_bound p)" using assms by (auto simp: region_ok_def)
    moreover have "fst x \<in> N" using x unfolding N_def region_names_fixed [symmetric] by (rule imageI)
    ultimately show "x \<in> (\<lambda>p. (part_name p, part_bound p)) ` set (parts u)" by (auto simp: u_def)
  qed
  finally have b: "(\<lambda>p. (part_name p, part_bound p)) ` set (parts (truncate_parts u)) = set region_bounds" .
  have m: "mirrors key (truncate_parts u) []" by (rule truncate_mirrors [OF u(2)])
  have "region_ok (truncate_parts u)" using b mirrorsD(1) [OF m] by (simp add: region_ok_def)
  then show ?thesis using r m b by (intro exI [of _ "truncate_parts u"]) (simp add: truncate_parts_def)
qed

lemma other_year: "''metric_events_y2026m'' @ x \<notin> mp_name ` set canonicalPartitions"
proof
  assume "''metric_events_y2026m'' @ x \<in> mp_name ` set canonicalPartitions"
  then obtain m where "''metric_events_y2026m'' @ x = monthPartitionName 2025 m" unfolding canonicalPartitions_def by auto
  then show False by (simp add: monthPartitionName_def year_digits)
qed

lemma maintenance_keeps:
  assumes "recoverable (partitioned db)"
  shows "recoverable (partitioned (snd (partition_maintenance db))) \<and> by_region (snd (partition_maintenance db)) = by_region db"
proof -
  define n where "n = monthPartitionName PARTITIONED_YEAR TARGET_MONTH"
  have ok: "ptable_ok (partitioned db)" using assms by (simp add: recoverable_def)
  show ?thesis
  proof (cases "rows_of n (partitioned db)")
    case None
    then show ?thesis using assms by (simp add: partition_maintenance_def Let_def n_def [symmetric])
  next
    case (Some rs)
    have "month_partition 1 \<in> set canonicalPartitions" by (auto simp: canonical_month)
    then have "mp_name (month_partition 1) \<notin> fst ` set (plain_tables (partitioned db))" using assms unfolding recoverable_def by blast
    then have "n \<notin> fst ` set (plain_tables (partitioned db))" by (simp add: n_def PARTITIONED_YEAR_def TARGET_MONTH_def)
    moreover have "n \<in> part_name ` set (parts (partitioned db)) \<union> fst ` set (plain_tables (partitioned db))"
      using map_of_SomeD [OF Some [unfolded rows_of_def]] by (force simp: image_iff)
    ultimately have n: "n \<in> part_name ` set (parts (partitioned db))" by blast
    note d = detachAndDrop_ok [OF ok n]
    define t where "t = (partitioned db)\<lparr>parts := filter (\<lambda>q. part_name q \<noteq> n) (parts (partitioned db))\<rparr>"
    have "recoverable t" using assms d(2) by (simp add: recoverable_def t_def)
    then show ?thesis using Some d(1) by (simp add: partition_maintenance_def Let_def n_def [symmetric] t_def [symmetric] delete_range_def)
  qed
qed

lemma provision_keeps: "recoverable t \<Longrightarrow> recoverable (snd (provision t))"
proof -
  assume t: "recoverable t"
  have m: "''metric_events_y2026m01'' \<notin> mp_name ` set canonicalPartitions" "''metric_events_y2026m02'' \<notin> mp_name ` set canonicalPartitions"
    using other_year [of "''01''"] other_year [of "''02''"] by simp_all
  show ?thesis unfolding provision_def
  proof (rule then_stmt_keeps [of recoverable])
    show "recoverable (snd (create_partition event_key False ''metric_events_y2026m01'' (FromTo (Date_UTC 2026 0 1) (Date_UTC 2026 1 1)) t))"
      by (rule create_keeps_recoverable [OF t m(1)])
    fix u :: "GeneratedMetricEvent ptable"
    assume u: "recoverable u"
    show "recoverable (snd (then_stmt (insert_statement event_key [OUT_OF_RANGE_ROW])
        (\<lambda>ids. then_stmt (create_partition event_key False ''metric_events_y2026m02'' (FromTo (Date_UTC 2026 1 1) (Date_UTC 2026 2 1)))
           (\<lambda>_ t. (Inr ids, t))) u))"
    proof (rule then_stmt_keeps [of recoverable])
      show "recoverable (snd (insert_statement event_key [OUT_OF_RANGE_ROW] u))" by (rule recoverable_same_shape [OF insert_same_shape u])
      fix ids and v :: "GeneratedMetricEvent ptable"
      assume "recoverable v"
      from create_keeps_recoverable [OF this m(2)]
      show "recoverable (snd (then_stmt (create_partition event_key False ''metric_events_y2026m02'' (FromTo (Date_UTC 2026 1 1) (Date_UTC 2026 2 1)))
           (\<lambda>_ t. (Inr ids, t)) v))"
        by (rule then_stmt_keeps [of recoverable]) simp
    qed
  qed
qed

lemma attach_keeps:
  assumes "recoverable (partitioned db)"
  shows "recoverable (partitioned (snd (attach_missing db))) \<and> by_region (snd (attach_missing db)) = by_region db"
proof -
  obtain r t where i: "insert_statement event_key [OUT_OF_RANGE_ROW] (partitioned db) = (r, t)" by fastforce
  have t: "recoverable t" using recoverable_same_shape [OF insert_same_shape assms] i by (metis snd_conv)
  obtain r' t' where p: "provision t = (r', t')" by fastforce
  have "recoverable t'" using provision_keeps [OF t] by (simp add: p)
  then show ?thesis using t by (simp add: attach_missing_def i p split: sum.splits)
qed

lemma list_keeps:
  assumes "region_ok (by_region db)"
  shows "region_ok (by_region (snd (list_partitioning now db))) \<and> partitioned (snd (list_partitioning now db)) = partitioned db"
proof -
  have ins: "region_ok u \<Longrightarrow> region_ok (snd (insert_statement region_key es u))" for u es
    by (rule region_ok_same_shape [OF insert_same_shape])
  from reset_regions [OF assms, of region_key] obtain t where t: "resetListDemoTable (by_region db) = (Inr (), t)" "region_ok t" by blast
  have "region_ok (snd (list_statements now (by_region db)))"
    unfolding list_statements_def
    by (intro then_stmt_keeps [of region_ok] create_keeps_regions ins) (simp_all add: t)
  then show ?thesis by (simp add: list_partitioning_def split_beta Let_def)
qed

lemma run_script_keeps: "lab35_ok db \<Longrightarrow> lab35_ok (run_script x db)"
  using maintenance_keeps [of db] attach_keeps [of db] list_keeps [of db] by (cases x) (auto simp: lab35_ok_def)

text \<open>The layout of the migrations.\<close>

definition migrated_35 :: lab35_db where
  "migrated_35 = \<lparr>flat = [], flat_next = 1,
     partitioned = \<lparr>parts = map new_part canonicalPartitions, plain_tables = [], next_id = 1\<rparr>,
     by_region = \<lparr>parts = map (\<lambda>(n, b). \<lparr>part_name = n, part_bound = b, part_rows = []\<rparr>) region_bounds, plain_tables = [], next_id = 1\<rparr>\<rparr>"

lemma migrated_ok: "lab35_ok migrated_35"
proof -
  define t0 :: "GeneratedMetricEvent ptable" where "t0 = \<lparr>parts = [], plain_tables = [], next_id = 1\<rparr>"
  define t where "t = t0\<lparr>parts := parts t0 @ map new_part canonicalPartitions\<rparr>"
  have t0: "ptable_ok t0" "parts t0 = []" "plain_tables t0 = []" "relation_names t0 = []" by (simp_all add: t0_def ptable_ok_def relation_names_def)
  have "ptable_ok t"
    using create_each [OF t0(1) order_refl canonical_names, of event_key] t0(2,4) by (simp add: t_def)
  moreover have "part_bound p = mp_bound d" if p: "p \<in> set (parts t)" "d \<in> set canonicalPartitions" "part_name p = mp_name d" for p d
  proof -
    obtain c where c: "c \<in> set canonicalPartitions" "p = new_part c" using p(1) by (auto simp: t_def t0(2))
    then have "c = d" using canonical_names p(2,3) unfolding new_part_def by (metis inj_on_contraD distinct_map part.select_convs(1))
    then show ?thesis by (simp add: c(2) new_part_def)
  qed
  ultimately have "recoverable t" unfolding recoverable_def by (simp add: t_def t0(3))
  moreover have "partitioned migrated_35 = t" by (simp add: migrated_35_def t_def t0_def)
  ultimately have "recoverable (partitioned migrated_35)" by simp
  moreover have "region_ok (by_region migrated_35)"
    by (simp add: region_ok_def migrated_35_def region_bounds_def ptable_ok_def relation_names_def)
  ultimately show ?thesis by (simp add: lab35_ok_def)
qed

text \<open>From the canonical layout, the missing month is provisioned and the row that failed is stored, under the identity after the one that the failure used up.\<close>

lemma create_free:
  assumes "n \<notin> set (relation_names t)" and "lo < hi" and "\<forall>p \<in> set (parts t). \<exists>a b. part_bound p = FromTo a b \<and> b \<le> lo"
  shows "create_partition key False n (FromTo lo hi) t = (Inr (), t\<lparr>parts := parts t @ [\<lparr>part_name = n, part_bound = FromTo lo hi, part_rows = []\<rparr>]\<rparr>)"
proof -
  have "\<not> overlaps (FromTo lo hi) (part_bound p)" "part_bound p \<noteq> Default" if "p \<in> set (parts t)" for p using assms(3) that by fastforce+
  then show ?thesis using assms(1,2) by (simp add: create_partition_def)
qed

lemma year_end: "c \<in> set canonicalPartitions \<Longrightarrow> mp_to c \<le> Date_UTC 2026 0 1"
proof -
  have "\<forall>x \<in> set (map (\<lambda>c. (mp_from c, mp_to c)) canonicalPartitions). snd x \<le> Date_UTC 2026 0 1"
    unfolding canonical_bounds by (simp add: Date_UTC_def DayFromYear_def)
  then show "c \<in> set canonicalPartitions \<Longrightarrow> mp_to c \<le> Date_UTC 2026 0 1" by auto
qed

lemma attach_provisions:
  assumes "mirrors event_key (partitioned db) rs" and "canonical_layout (partitioned db)"
    and "''metric_events_y2026m01'' \<notin> fst ` set (plain_tables (partitioned db))" and "''metric_events_y2026m02'' \<notin> fst ` set (plain_tables (partitioned db))"
  shows "\<exists>db'. attach_missing db = (Inr (Some [next_id (partitioned db) + 1]), db')
    \<and> mirrors event_key (partitioned db') (rs @ [(next_id (partitioned db) + 1, OUT_OF_RANGE_ROW)]) \<and> flat db' = flat db \<and> by_region db' = by_region db"
proof -
  define n1 where "n1 = ''metric_events_y2026m01''"
  define n2 where "n2 = ''metric_events_y2026m02''"
  define d1 where "d1 = Date_UTC 2026 0 1"
  define d2 where "d2 = Date_UTC 2026 1 1"
  define d3 where "d3 = Date_UTC 2026 2 1"
  have d: "d1 < d2" "d2 < d3" "d1 \<le> recordedAt OUT_OF_RANGE_ROW" "recordedAt OUT_OF_RANGE_ROW < d2"
    by (simp_all add: d1_def d2_def d3_def OUT_OF_RANGE_ROW_def Date_UTC_def DayFromYear_def month_days_def leap_year_def)
  have n: "n1 \<noteq> n2" "n1 \<notin> mp_name ` set canonicalPartitions" "n2 \<notin> mp_name ` set canonicalPartitions"
    using other_year [of "''01''"] other_year [of "''02''"] by (simp_all add: n1_def n2_def)
  let ?t = "partitioned db"
  define t1 where "t1 = ?t\<lparr>next_id := next_id ?t + 1\<rparr>"
  have early: "\<exists>a b. part_bound p = FromTo a b \<and> b \<le> d1 \<and> part_name p \<in> mp_name ` set canonicalPartitions" if "p \<in> set (parts ?t)" for p
  proof -
    from canonical_part [OF assms(2) that] obtain m where m: "m \<in> {1..12}" "part_name p = mp_name (month_partition m)" "part_bound p = mp_bound (month_partition m)" by auto
    then have c: "month_partition m \<in> set canonicalPartitions" unfolding canonical_month by blast
    then have "part_name p \<in> mp_name ` set canonicalPartitions" unfolding m(2) by (rule imageI)
    moreover have "mp_to (month_partition m) \<le> d1" using year_end [OF c] by (simp only: d1_def)
    ultimately show ?thesis using m(3) unfolding mp_bound_def by blast
  qed
  have "\<not> belongs (parts ?t) p (event_key OUT_OF_RANGE_ROW)" if "p \<in> set (parts ?t)" for p
    using early [OF that] d(3) by (auto simp: canonical_no_default [OF assms(2) that] event_key_def)
  then have "insert_row event_key OUT_OF_RANGE_ROW ?t = (Inl No_partition, t1)"
    using insert_row_mirrors(2) [OF assms(1)] unfolding t1_def by blast
  then have first: "insert_statement event_key [OUT_OF_RANGE_ROW] ?t = (Inl No_partition, t1)"
    by (simp add: insert_statement_def then_stmt_def) (simp add: t1_def)
  have m1: "mirrors event_key t1 rs" using assms(1) by (simp add: t1_def)
  have free1: "n1 \<notin> set (relation_names t1)" "n2 \<notin> set (relation_names t1)"
  proof -
    have "part_name ` set (parts ?t) \<subseteq> mp_name ` set canonicalPartitions" using early by blast
    then have "n1 \<notin> part_name ` set (parts ?t)" "n2 \<notin> part_name ` set (parts ?t)" using n(2,3) by blast+
    then show "n1 \<notin> set (relation_names t1)" "n2 \<notin> set (relation_names t1)"
      using assms(3,4) unfolding n1_def [symmetric] n2_def [symmetric] by (simp_all add: relation_names_def t1_def)
  qed
  define t2 where "t2 = t1\<lparr>parts := parts t1 @ [\<lparr>part_name = n1, part_bound = FromTo d1 d2, part_rows = []\<rparr>]\<rparr>"
  have c1: "create_partition event_key False n1 (FromTo d1 d2) t1 = (Inr (), t2)"
    unfolding t2_def by (rule create_free [OF free1(1) d(1)]) (use early in \<open>force simp: t1_def\<close>)
  have m2: "mirrors event_key t2 rs" using create_partition_mirrors [OF m1 free1(1) c1] by simp
  have "takes event_key t2 OUT_OF_RANGE_ROW" using d(3,4) by (auto simp: takes_def t2_def belongs_def event_key_def)
  then have "\<forall>e \<in> set [OUT_OF_RANGE_ROW]. takes event_key t2 e" by simp
  from insert_statement_mirrors(1) [OF m2 this] obtain t3 where
    t3: "insert_statement event_key [OUT_OF_RANGE_ROW] t2 = (Inr [next_id t2], t3)" "mirrors event_key t3 (rs @ [(next_id t2, OUT_OF_RANGE_ROW)])"
      "map part_bound (parts t3) = map part_bound (parts t2)" by auto
  have shape: "same_shape t2 t3" using insert_same_shape [of t2 event_key "[OUT_OF_RANGE_ROW]"] t3(1) by simp
  have free3: "n2 \<notin> set (relation_names t3)" 
  proof -
    have "set (relation_names t2) = insert n1 (set (relation_names t1))" by (simp add: t2_def relation_names_def)
    then show ?thesis using same_shapeD(1) [OF shape] free1(2) n(1) by simp
  qed
  have "\<exists>a b. part_bound p = FromTo a b \<and> b \<le> d2" if "p \<in> set (parts t3)" for p
  proof -
    from same_shapeD(2) [OF shape that] obtain q where q: "q \<in> set (parts t2)" "part_bound q = part_bound p" by blast
    then consider "q \<in> set (parts ?t)" | "part_bound q = FromTo d1 d2" by (auto simp: t2_def t1_def)
    then show ?thesis
    proof cases
      case 1
      then show ?thesis using early [OF 1] q(2) d(1) by auto
    next
      case 2
      then have "part_bound p = FromTo d1 d2" using q(2) by simp
      then show ?thesis by blast
    qed
  qed
  then have c2: "create_partition event_key False n2 (FromTo d2 d3) t3
      = (Inr (), t3\<lparr>parts := parts t3 @ [\<lparr>part_name = n2, part_bound = FromTo d2 d3, part_rows = []\<rparr>]\<rparr>)"
    by (intro create_free [OF free3 d(2)]) blast
  define t4 where "t4 = t3\<lparr>parts := parts t3 @ [\<lparr>part_name = n2, part_bound = FromTo d2 d3, part_rows = []\<rparr>]\<rparr>"
  have m4: "mirrors event_key t4 (rs @ [(next_id t2, OUT_OF_RANGE_ROW)])"
    using create_partition_mirrors [OF t3(2) free3 c2] by (simp add: t4_def)
  have "provision t1 = (Inr [next_id t2], t4)"
    unfolding provision_def n1_def [symmetric] n2_def [symmetric] d1_def [symmetric] d2_def [symmetric] d3_def [symmetric]
    by (simp add: then_stmt_def c1 t3(1) c2 t4_def)
  moreover have "next_id t2 = next_id ?t + 1" by (simp add: t2_def t1_def)
  ultimately show ?thesis using m4 by (simp add: attach_missing_def first)
qed

section \<open>What the seed leaves\<close>

definition seeded_rows :: "'s faker \<Rightarrow> 's float_between \<Rightarrow> nat \<Rightarrow> int \<Rightarrow> (nat \<times> GeneratedMetricEvent) list" where
  "seeded_rows f fl rowsPerMonth sd =
     (let es = concat (map snd (generateMetricEventsBatched f fl rowsPerMonth sd (Some INSERT_BATCH_SIZE))) in zip [1..<length es + 1] es)"

lemma month_count:
  assumes "list_all2 (\<lambda>m es. length es = n \<and> (\<forall>e \<in> set es. spec_fits e \<and> in_month m e)) ms ess"
    and "set ms \<subseteq> {1..12}" and "distinct ms" and "m \<in> {1..12}"
  shows "length (filter (in_month m) (concat ess)) = (if m \<in> set ms then n else 0)"
  using assms
proof (induction rule: list_all2_induct)
  case (Cons k ms es ess)
  have k: "k \<in> {1..12}" "k \<notin> set ms" using Cons.prems by simp_all
  have es: "length es = n" "\<forall>e \<in> set es. in_month k e" using Cons.hyps(1) by simp_all
  have "filter (in_month m) es = (if m = k then es else [])"
    using es(2) in_month_unique [OF _ _ assms(4) k(1)] by (auto simp: filter_id_conv filter_empty_conv)
  moreover have "length (filter (in_month m) (concat ess)) = (if m \<in> set ms then n else 0)" using Cons.IH Cons.prems by simp
  ultimately show ?case using es(1) k(2) by auto
qed simp

lemma generated_months:
  assumes "faker_ok f" and "float_ok fl"
  shows "\<forall>mb \<in> set (generateMetricEventsBatched f fl n sd full). fst mb \<in> {1..12} \<and> snd mb \<noteq> [] \<and> (\<forall>e \<in> set (snd mb). in_month (fst mb) e)"
    and "m \<in> {1..12} \<Longrightarrow> length (filter (in_month m) (concat (map snd (generateMetricEventsBatched f fl n sd full)))) = n"
    and "length (concat (map snd (generateMetricEventsBatched f fl n sd full))) = 12 * n"
proof -
  have sub: "set [1..<13] \<subseteq> {1..12 :: nat}" by auto
  define bs where "bs = generateMetricEventsBatched f fl n sd full"
  from month_batches_events [OF assms sub, of n "case full of None \<Rightarrow> 5000 | Some n \<Rightarrow> n" "seeded f sd"] obtain ess where
    ess: "concat (map snd bs) = concat ess"
      "list_all2 (\<lambda>m es. length es = n \<and> (\<forall>e \<in> set es. spec_fits e \<and> in_month m e)) [1..<13] ess"
      "\<forall>mb \<in> set bs. snd mb \<noteq> [] \<and> length (snd mb) \<le> max 1 (case full of None \<Rightarrow> 5000 | Some n \<Rightarrow> n) \<and> (\<forall>e \<in> set (snd mb). in_month (fst mb) e)"
    unfolding bs_def generateMetricEventsBatched_def by (elim exE conjE)
  have "fst mb \<in> set ms" if "mb \<in> set (month_batches f fl n k ms s)" for mb k ms s
    using that by (induction ms arbitrary: s) (auto simp: Let_def split: prod.splits)
  then have "\<forall>mb \<in> set bs. fst mb \<in> {1..12}" unfolding bs_def generateMetricEventsBatched_def using sub by blast
  then show "\<forall>mb \<in> set (generateMetricEventsBatched f fl n sd full). fst mb \<in> {1..12} \<and> snd mb \<noteq> [] \<and> (\<forall>e \<in> set (snd mb). in_month (fst mb) e)"
    using ess(3) by (simp add: bs_def [symmetric])
  show "length (filter (in_month m) (concat (map snd (generateMetricEventsBatched f fl n sd full)))) = n" if "m \<in> {1..12}"
    using month_count [OF ess(2) sub _ that] that by (simp add: bs_def [symmetric] ess(1))
  have "length (concat ess) = length ms * n"
    if "list_all2 (\<lambda>m es. length es = n \<and> (\<forall>e \<in> set es. spec_fits e \<and> in_month m e)) ms ess" for ms ess
    using that by (induction rule: list_all2_induct) simp_all
  from this [OF ess(2)] show "length (concat (map snd (generateMetricEventsBatched f fl n sd full))) = 12 * n"
    by (simp add: bs_def [symmetric] ess(1))
qed

lemma canonical_recoverable:
  assumes "canonical_layout t"
  shows "recoverable t"
proof -
  have ok: "ptable_ok t" using assms by (simp add: canonical_layout_def)
  have "part_bound p = mp_bound c" if "p \<in> set (parts t)" "c \<in> set canonicalPartitions" "part_name p = mp_name c" for p c
  proof -
    have "(part_name p, part_bound p) \<in> (\<lambda>c. (mp_name c, mp_bound c)) ` set canonicalPartitions"
      using assms that(1) unfolding canonical_layout_def by blast
    then obtain d where d: "d \<in> set canonicalPartitions" "part_name p = mp_name d" "part_bound p = mp_bound d" by auto
    have "c = d" using canonical_names that(2,3) d(1,2) by (metis inj_on_contraD distinct_map)
    then show ?thesis using d(3) by simp
  qed
  moreover have "mp_name c \<notin> fst ` set (plain_tables t)" if c: "c \<in> set canonicalPartitions" for c
  proof -
    have "(mp_name c, mp_bound c) \<in> (\<lambda>p. (part_name p, part_bound p)) ` set (parts t)"
      using assms imageI [OF c, of "\<lambda>c. (mp_name c, mp_bound c)"] unfolding canonical_layout_def by simp
    then have "mp_name c \<in> part_name ` set (parts t)" by auto
    then show ?thesis using ok by (auto simp: ptable_ok_def relation_names_def)
  qed
  ultimately show ?thesis using ok unfolding recoverable_def by blast
qed

lemma seed_35_result:
  assumes "faker_ok f" and "float_ok fl" and "lab35_ok db"
  shows "\<exists>db'. seed_35 f fl n sd db = Inr db' \<and> lab35_ok db' \<and> flat db' = seeded_rows f fl n sd \<and> flat_next db' = 12 * n + 1
    \<and> next_id (partitioned db') = 12 * n + 1 \<and> mirrors event_key (partitioned db') (flat db') \<and> canonical_layout (partitioned db')"
proof -
  have rec: "recoverable (partitioned db)" and reg: "region_ok (by_region db)" using assms(3) by (simp_all add: lab35_ok_def)
  from reconcile_restores [OF rec, of event_key] obtain dropped created t where
    t: "reconcileCanonicalPartitionLayout event_key (partitioned db) = (Inr (dropped, created), t)" "canonical_layout t" "recoverable t" by (elim exE conjE)
  from reset_regions [OF reg, of region_key] obtain l where l: "resetListDemoTable (by_region db) = (Inr (), l)" "region_ok l" by blast
  define db1 where "db1 = db\<lparr>flat := [], flat_next := 1, partitioned := truncate_parts t, by_region := l\<rparr>"
  define bs where "bs = generateMetricEventsBatched f fl n sd (Some INSERT_BATCH_SIZE)"
  have ok: "ptable_ok t" using t(2) by (simp add: canonical_layout_def)
  have m1: "mirrors event_key (truncate_parts t) []" by (rule truncate_mirrors [OF ok])
  have c1: "canonical_layout (truncate_parts t)"
    by (rule canonical_layout_shape [OF t(2) _ _ mirrorsD(1) [OF m1]]) (simp_all add: truncate_parts_def o_def)
  note gen = generated_months(1,3) [OF assms(1,2), of n sd "Some INSERT_BATCH_SIZE", folded bs_def]
  have "\<forall>mb \<in> set bs. fst mb \<in> {1..12} \<and> (\<forall>e \<in> set (snd mb). in_month (fst mb) e)" using gen(1) by blast
  from seed_batches_mirror [of db1 bs, OF _ _ _ this] m1 c1 obtain db' where
    db': "seed_batches bs db1 = Inr db'" "mirrors event_key (partitioned db') (flat db')" "canonical_layout (partitioned db')"
      "next_id (partitioned db') = flat_next db'" "map snd (flat db') = map snd (flat db1) @ concat (map snd bs)"
      "map fst (flat db') = map fst (flat db1) @ [flat_next db1..<flat_next db1 + length (concat (map snd bs))]"
      "flat_next db' = flat_next db1 + length (concat (map snd bs))" "by_region db' = by_region db1"
    by (auto simp: db1_def truncate_parts_def)
  have s: "seed_35 f fl n sd db = Inr db'" using db'(1) by (simp add: seed_35_def t(1) l(1) db1_def bs_def)
  have flat: "flat db' = seeded_rows f fl n sd"
  proof -
    define es where "es = concat (map snd bs)"
    have "map snd (flat db') = es" "map fst (flat db') = [1..<length es + 1]" using db'(5,6) by (simp_all add: db1_def es_def)
    then have "flat db' = zip [1..<length es + 1] es" by (metis zip_map_fst_snd)
    then show ?thesis by (simp only: seeded_rows_def Let_def es_def bs_def)
  qed
  have "lab35_ok db'" using canonical_recoverable [OF db'(3)] l(2) by (simp add: lab35_ok_def db'(8)) (simp add: db1_def)
  moreover have "flat_next db' = 12 * n + 1" using db'(7) gen(2) by (simp add: db1_def)
  ultimately show ?thesis using s flat db'(2-4) by (intro exI [of _ db']) simp
qed

text \<open>
  Where the reset fails: a purge that dies between \<open>DETACH\<close> and \<open>DROP\<close> leaves a table with the name of the month. \<open>IF NOT EXISTS\<close> then skips the
  month, and the insert of its first row finds no partition.
\<close>

lemma seed_batches_fail:
  assumes "mirrors event_key (partitioned db) rs" and "mb \<in> set bs" and "e \<in> set (snd mb)" and "\<not> takes event_key (partitioned db) e"
  shows "seed_batches bs db = Inl No_partition"
  using assms
proof (induction bs arbitrary: db rs)
  case (Cons b bs)
  obtain m es where b: "b = (m, es)" by fastforce
  show ?case
  proof (cases "\<forall>x \<in> set es. takes event_key (partitioned db) x")
    case True
    then have "mb \<in> set bs" using Cons.prems(2-4) b by auto
    have "\<exists>ns t rs'. insertPartitionedBatch es (partitioned db) = (Inr ns, t) \<and> mirrors event_key t rs' \<and> map part_bound (parts t) = map part_bound (parts (partitioned db))"
    proof (cases "es = []")
      case True
      then show ?thesis using Cons.prems(1) by (auto simp: insertPartitionedBatch_def)
    next
      case False
      then show ?thesis using insert_statement_mirrors(1) [OF Cons.prems(1) True] by (auto simp: insertPartitionedBatch_def)
    qed
    then obtain ns t rs' where t: "insertPartitionedBatch es (partitioned db) = (Inr ns, t)" "mirrors event_key t rs'"
        "map part_bound (parts t) = map part_bound (parts (partitioned db))" by blast
    define db1 where "db1 = (insert_flat es db)\<lparr>partitioned := t\<rparr>"
    have "\<not> takes event_key (partitioned db1) e" using Cons.prems(4) takes_shape [OF t(3), of event_key e] by (simp add: db1_def)
    then have "seed_batches bs db1 = Inl No_partition"
      using Cons.IH [of db1 rs'] t(2) \<open>mb \<in> set bs\<close> Cons.prems(3) by (simp add: db1_def)
    then show ?thesis by (simp add: b t(1) db1_def)
  next
    case False
    then obtain k where "insert_statement event_key es (partitioned db) = (Inl No_partition, (partitioned db)\<lparr>next_id := k\<rparr>)"
      using insert_statement_mirrors(2) [OF Cons.prems(1), of es] by blast
    moreover have "es \<noteq> []" using False by auto
    ultimately show ?thesis by (simp add: b insertPartitionedBatch_def)
  qed
qed simp

lemma interrupted_purge_blocks_seed:
  assumes "faker_ok f" and "float_ok fl" and "canonical_layout (partitioned db)" and "region_ok (by_region db)" and "0 < n"
    and "detach_partition (monthPartitionName PARTITIONED_YEAR TARGET_MONTH) (partitioned db) = (Inr (), t)"
  shows "seed_35 f fl n sd (db\<lparr>partitioned := t\<rparr>) = Inl No_partition"
proof -
  define jan where "jan = monthPartitionName 2025 1"
  let ?t = "partitioned db"
  have ok: "ptable_ok ?t" using assms(3) by (simp add: canonical_layout_def)
  obtain p where p: "find (\<lambda>p. part_name p = jan) (parts ?t) = Some p"
      "t = ?t\<lparr>parts := filter (\<lambda>q. part_name q \<noteq> jan) (parts ?t), plain_tables := (jan, part_rows p) # plain_tables ?t\<rparr>"
    using assms(6) by (auto simp: detach_partition_def PARTITIONED_YEAR_def TARGET_MONTH_def jan_def split: option.splits)
  have "distinct (relation_names ?t)" using ok by (simp add: ptable_ok_def)
  moreover have "jan \<in> part_name ` set (parts ?t)" using find_Some_in [OF p(1)] by force
  ultimately have "jan \<notin> fst ` set (plain_tables ?t)" "distinct (map part_name (parts ?t))" "distinct (map fst (plain_tables ?t))"
      "part_name ` set (parts ?t) \<inter> fst ` set (plain_tables ?t) = {}" by (auto simp: relation_names_def)
  then have "distinct (relation_names t)" by (auto simp: p(2) relation_names_def distinct_map_filter)
  then have okt: "ptable_ok t" using ok by (auto simp: ptable_ok_def p(2))
  have names: "mp_name ` set canonicalPartitions = part_name ` set (parts ?t)"
  proof -
    have "fst ` (\<lambda>c. (mp_name c, mp_bound c)) ` set canonicalPartitions = fst ` (\<lambda>p. (part_name p, part_bound p)) ` set (parts ?t)"
      using assms(3) unfolding canonical_layout_def by simp
    then show ?thesis by (simp add: image_image)
  qed
  define missing where "missing = filter (\<lambda>c. mp_name c \<notin> set (map fst (listExistingPartitions t))) canonicalPartitions"
  have "set (map fst (listExistingPartitions t)) = part_name ` set (parts ?t) - {jan}" unfolding listed_names by (auto simp: p(2))
  then have ex: "set (map fst (listExistingPartitions t)) = mp_name ` set canonicalPartitions - {jan}" by (simp only: names)
  have extra: "filter (\<lambda>n. n \<notin> mp_name ` set canonicalPartitions) (map fst (listExistingPartitions t)) = []"
    using ex by (auto simp: filter_empty_conv)
  have "\<forall>c \<in> set missing. mp_name c = jan" using ex by (auto simp: missing_def)
  moreover have "jan \<in> set (relation_names t)" by (simp add: p(2) relation_names_def)
  ultimately have "\<forall>c \<in> set missing. createMonthPartition event_key c t = (Inr (), t)"
    by (simp add: createMonthPartition_def create_partition_def)
  then have "for_each (createMonthPartition event_key) missing t = (Inr (), t)" by (induction missing) (simp_all add: then_stmt_def)
  then have r: "reconcileCanonicalPartitionLayout event_key t = (Inr ([], map mp_name missing), t)"
    unfolding reconcileCanonicalPartitionLayout_def Let_def extra missing_def [symmetric] by (simp add: then_stmt_def)
  from reset_regions [OF assms(4), of region_key] obtain l where l: "resetListDemoTable (by_region db) = (Inr (), l)" by blast
  define bs where "bs = generateMetricEventsBatched f fl n sd (Some INSERT_BATCH_SIZE)"
  have "length (filter (in_month 1) (concat (map snd bs))) = n" using generated_months(2) [OF assms(1,2), of 1 n sd] by (simp add: bs_def)
  then obtain e where e: "e \<in> set (concat (map snd bs))" "in_month 1 e" using assms(5) by (metis filter_False list.size(3) not_less_zero)
  then obtain mb where mb: "mb \<in> set bs" "e \<in> set (snd mb)" by auto
  define db1 where "db1 = db\<lparr>flat := [], flat_next := 1, partitioned := truncate_parts t, by_region := l\<rparr>"
  have "\<not> belongs (parts (truncate_parts t)) q (event_key e)" if "q \<in> set (parts (truncate_parts t))" for q
  proof -
    from that obtain q' where q': "q' \<in> set (parts ?t)" "part_name q' \<noteq> jan" "part_bound q = part_bound q'"
      by (auto simp: truncate_parts_def p(2))
    from canonical_part [OF assms(3) q'(1)] obtain m where m: "m \<in> {1..12}" "part_name q' = monthPartitionName 2025 m"
        "part_bound q' = mp_bound (month_partition m)" by blast
    have "\<not> in_month m e" using in_month_unique [OF e(2) _ _ m(1)] q'(2) m(2) by (auto simp: jan_def)
    then show ?thesis using q'(3) m(3) by (simp add: belongs_def in_month_def event_key_def mp_bound_def)
  qed
  then have "\<not> takes event_key (partitioned db1) e" by (simp add: takes_def db1_def)
  moreover have "mirrors event_key (partitioned db1) []" using truncate_mirrors [OF okt] by (simp add: db1_def)
  ultimately have "seed_batches bs db1 = Inl No_partition" using seed_batches_fail mb by blast
  then show ?thesis by (simp add: seed_35_def r l db1_def bs_def)
qed


text \<open>A run from the migrated layout after the purge ran twice, the missing partition was attached and the table of regions used.\<close>

definition middle :: "nat float_between" where
  "middle a b d s = (of_int (a + b) / 2, s)"

lemma middle_ok: "float_ok middle"
  by (simp add: float_ok_def middle_def field_simps)


end
