(* ===== verification/Log_Analysis.thy ===== *)
theory Log_Analysis
  imports Metrics "HOL-Library.Multiset"
begin

text \<open>
  What Lab 38 computes from its logs, \<open>labs/38-*/src/observability\<close>: nearest-rank percentiles (\<open>percentiles.ts\<close>), the
  aggregate by route over the structured log and the attempt to parse the free-text one (\<open>log-analysis.ts\<close>), and the
  three formats of the latter (\<open>request-logger.ts\<close>). \<open>toFixed\<close> rounds half up, as the standard says.
\<close>

section \<open>Percentiles\<close>

definition percentile :: "rat list \<Rightarrow> rat \<Rightarrow> rat" where
  "percentile values p =
     (if values = [] then 0
      else (let sorted = sort values;
                rank = \<lceil>(p / 100) * of_nat (length sorted)\<rceil> - 1;
                clamped = min (max rank 0) (int (length sorted) - 1) in
            sorted ! nat clamped))"

definition toFixed :: "nat \<Rightarrow> rat \<Rightarrow> rat" where
  "toFixed k x = of_int \<lfloor>x * 10 ^ k + 1 / 2\<rfloor> / 10 ^ k"

record LatencyStats =
  lat_count :: nat
  p50 :: rat
  p95 :: rat
  p99 :: rat
  lat_min :: rat
  lat_max :: rat

definition computeLatencyStats :: "rat list \<Rightarrow> LatencyStats" where
  "computeLatencyStats ds =
     (if ds = [] then \<lparr>lat_count = 0, p50 = 0, p95 = 0, p99 = 0, lat_min = 0, lat_max = 0\<rparr>
      else \<lparr>lat_count = length ds, p50 = toFixed 2 (percentile ds 50), p95 = toFixed 2 (percentile ds 95),
            p99 = toFixed 2 (percentile ds 99), lat_min = toFixed 2 (Min (set ds)), lat_max = toFixed 2 (Max (set ds))\<rparr>)"

text \<open>A percentile is a value of the sample: at least \<open>p\<close> percent are not above it, and fewer are below it.\<close>

lemma sorted_count_le:
  assumes "sorted xs" and "i < length xs"
  shows "i + 1 \<le> length (filter (\<lambda>x. x \<le> xs ! i) xs)" and "length (filter (\<lambda>x. x < xs ! i) xs) \<le> i"
proof -
  have "x \<le> xs ! i" if "x \<in> set (take (i + 1) xs)" for x
    using that assms by (auto simp: in_set_conv_nth less_Suc_eq_le intro: sorted_nth_mono)
  then have "filter (\<lambda>x. x \<le> xs ! i) (take (i + 1) xs) = take (i + 1) xs" by (simp add: filter_id_conv)
  then have "length (filter (\<lambda>x. x \<le> xs ! i) (take (i + 1) xs)) = i + 1" using assms(2) by simp
  moreover have "filter (\<lambda>x. x \<le> xs ! i) xs = filter (\<lambda>x. x \<le> xs ! i) (take (i + 1) xs) @ filter (\<lambda>x. x \<le> xs ! i) (drop (i + 1) xs)"
    by (metis append_take_drop_id filter_append)
  ultimately show "i + 1 \<le> length (filter (\<lambda>x. x \<le> xs ! i) xs)" by simp
  have "\<not> x < xs ! i" if "x \<in> set (drop i xs)" for x
  proof -
    obtain j where "j < length xs - i" "x = xs ! (i + j)" using \<open>x \<in> set (drop i xs)\<close> by (auto simp: in_set_conv_nth)
    then have "xs ! i \<le> x" using sorted_nth_mono [OF assms(1), of i "i + j"] by (simp add: less_diff_conv add.commute)
    then show ?thesis by simp
  qed
  then have "filter (\<lambda>x. x < xs ! i) (drop i xs) = []" by (simp add: filter_empty_conv)
  moreover have "filter (\<lambda>x. x < xs ! i) xs = filter (\<lambda>x. x < xs ! i) (take i xs) @ filter (\<lambda>x. x < xs ! i) (drop i xs)"
    by (metis append_take_drop_id filter_append)
  moreover have "length (filter (\<lambda>x. x < xs ! i) (take i xs)) \<le> i" by (metis length_filter_le length_take min.cobounded2 order_trans)
  ultimately show "length (filter (\<lambda>x. x < xs ! i) xs) \<le> i" by simp
qed

lemma percentile_nearest_rank:
  assumes "values \<noteq> []" and "0 < p" and "p \<le> 100"
  shows "percentile values p \<in> set values
    \<and> p / 100 * of_nat (length values) \<le> of_nat (length (filter (\<lambda>x. x \<le> percentile values p) values))
    \<and> of_nat (length (filter (\<lambda>x. x < percentile values p) values)) < p / 100 * of_nat (length values)"
proof -
  let ?n = "length values" and ?q = "p / 100 * of_nat (length values)"
  let ?xs = "sort values"
  have q: "0 < ?q" "?q \<le> of_nat ?n" using assms by (simp_all add: divide_simps)
  define i where "i = nat (\<lceil>?q\<rceil> - 1)"
  have c: "1 \<le> \<lceil>?q\<rceil>" "\<lceil>?q\<rceil> \<le> int ?n" using q by (simp_all add: one_le_ceiling ceiling_le_iff)
  then have i2: "int i = \<lceil>?q\<rceil> - 1" by (simp add: i_def)
  then have i: "i < length ?xs" "int i = \<lceil>?q\<rceil> - 1" using c(2) by (simp_all only: length_sort)
  have p: "percentile values p = ?xs ! i" using assms(1) c by (simp add: percentile_def i_def Let_def min_def max_def)
  have cnt: "length (filter P ?xs) = length (filter P values)" for P
    by (metis filter_sort length_sort)
  note s = sorted_count_le [OF sorted_sort i(1)]
  have "?q \<le> of_int \<lceil>?q\<rceil>" by simp
  also have "\<dots> = of_nat (i + 1)" using i(2) by (metis add.commute diff_add_cancel of_int_of_nat_eq of_nat_1 of_nat_add)
  also have "\<dots> \<le> of_nat (length (filter (\<lambda>x. x \<le> ?xs ! i) values))" using s(1) cnt by (metis of_nat_le_iff)
  finally have le: "?q \<le> of_nat (length (filter (\<lambda>x. x \<le> ?xs ! i) values))" .
  have "of_nat (length (filter (\<lambda>x. x < ?xs ! i) values)) \<le> (of_nat i :: rat)" using s(2) cnt by (metis of_nat_le_iff)
  also have "(of_nat i :: rat) = of_int (\<lceil>?q\<rceil> - 1)" using i(2) by (metis of_int_of_nat_eq)
  also have "\<dots> < ?q" using ceiling_correct [of ?q] by simp
  finally have "of_nat (length (filter (\<lambda>x. x < ?xs ! i) values)) < ?q" .
  then show ?thesis using le p i(1) by (metis nth_mem set_sort)
qed

section \<open>The structured log\<close>

datatype log_step = Request_start | Db_start | Db_end | Logic_start | Logic_end | Request_complete

record StructuredLogEntry =
  le_requestId :: string
  le_route :: string
  le_method :: string
  le_step :: log_step
  le_statusCode :: "nat option"
  le_durationMs :: "rat option"
  le_outcome :: "string option"
  le_err :: "string option"

record RouteAggregate =
  agg_route :: string
  agg_total :: nat
  agg_errorCount :: nat
  agg_errorRate :: rat
  agg_latency :: LatencyStats

definition completions :: "StructuredLogEntry list \<Rightarrow> StructuredLogEntry list" where
  "completions es = filter (\<lambda>e. le_step e = Request_complete) es"

text \<open>The \<open>Map\<close> keeps the routes in the order in which they first appear.\<close>

definition add_entry :: "StructuredLogEntry list js_map \<Rightarrow> StructuredLogEntry \<Rightarrow> StructuredLogEntry list js_map" where
  "add_entry m e =
     (let xs = (case map_of m (le_route e) of None \<Rightarrow> [] | Some xs \<Rightarrow> xs) in map_set (le_route e) (xs @ [e]) m)"

definition route_aggregate :: "string \<times> StructuredLogEntry list \<Rightarrow> RouteAggregate" where
  "route_aggregate x =
     (let ds = map (\<lambda>e. case le_durationMs e of None \<Rightarrow> 0 | Some d \<Rightarrow> d) (snd x);
          errors = length (filter (\<lambda>e. le_outcome e = Some ''error'') (snd x)) in
      \<lparr>agg_route = fst x, agg_total = length (snd x), agg_errorCount = errors,
       agg_errorRate = toFixed 4 (of_nat errors / of_nat (length (snd x))), agg_latency = computeLatencyStats ds\<rparr>)"

definition aggregateByRoute :: "StructuredLogEntry list \<Rightarrow> RouteAggregate list" where
  "aggregateByRoute es =
     sort_key (\<lambda>a. - int (agg_total a)) (map route_aggregate (foldl add_entry [] (completions es)))"

text \<open>The groups are the routes, each with its entries in order.\<close>

definition groups_ok :: "StructuredLogEntry list \<Rightarrow> StructuredLogEntry list js_map \<Rightarrow> bool" where
  "groups_ok es m \<longleftrightarrow> distinct (map fst m) \<and> fst ` set m = le_route ` set es
     \<and> (\<forall>(r, xs) \<in> set m. xs = filter (\<lambda>e. le_route e = r) es)"

lemma map_set_keys: "fst ` set (map_set k v m) = insert k (fst ` set m)"
  using keys_map_set [of k v m] by (simp flip: set_map) auto

lemma map_set_distinct: "distinct (map fst m) \<Longrightarrow> distinct (map fst (map_set k v m))"
  by (auto simp: keys_map_set)

lemma map_set_entries: "distinct (map fst m) \<Longrightarrow> set (map_set k v m) = insert (k, v) {x \<in> set m. fst x \<noteq> k}"
proof (induction m)
  case (Cons p m)
  obtain j x where p: "p = (j, x)" by fastforce
  show ?case
  proof (cases "j = k")
    case True
    then have "\<forall>y \<in> set m. fst y \<noteq> k" using Cons.prems p by force
    then show ?thesis using True p by auto
  next
    case False
    then show ?thesis using Cons p by auto
  qed
qed simp

lemma add_entry_ok:
  assumes "groups_ok es m"
  shows "groups_ok (es @ [e]) (add_entry m e)"
proof -
  have d: "distinct (map fst m)" using assms by (simp add: groups_ok_def)
  let ?r = "le_route e"
  have xs: "(case map_of m ?r of None \<Rightarrow> [] | Some xs \<Rightarrow> xs) = filter (\<lambda>x. le_route x = ?r) es"
  proof (cases "map_of m ?r")
    case None
    then have "?r \<notin> le_route ` set es" using assms by (auto simp: groups_ok_def map_of_eq_None_iff)
    then have "filter (\<lambda>x. le_route x = ?r) es = []" by (metis (mono_tags, lifting) filter_False imageI)
    then show ?thesis using None by simp
  next
    case (Some xs)
    then show ?thesis using assms map_of_SomeD [OF Some] by (auto simp: groups_ok_def)
  qed
  have "\<forall>(r, ys) \<in> set (map_set ?r (filter (\<lambda>x. le_route x = ?r) es @ [e]) m). ys = filter (\<lambda>x. le_route x = r) (es @ [e])"
    unfolding map_set_entries [OF d] using assms by (auto simp: groups_ok_def)
  then show ?thesis unfolding groups_ok_def add_entry_def xs Let_def map_set_keys
    using map_set_distinct [OF d] assms by (simp add: groups_ok_def)
qed

lemma groups_ok_foldl: "groups_ok es m \<Longrightarrow> groups_ok (es @ fs) (foldl add_entry m fs)"
proof (induction fs arbitrary: es m)
  case (Cons f fs)
  from Cons.IH [OF add_entry_ok [OF Cons.prems]] show ?case by simp
qed simp

lemma route_groups:
  assumes "groups_ok es m" and "a \<in> set (map route_aggregate m)"
  shows "agg_total a = length (filter (\<lambda>e. le_route e = agg_route a) es)"
    and "agg_errorCount a = length (filter (\<lambda>e. le_route e = agg_route a \<and> le_outcome e = Some ''error'') es)"
proof -
  have "a \<in> route_aggregate ` set m" using assms(2) by simp
  then obtain p where p: "a = route_aggregate p" "p \<in> set m" by (rule imageE)
  obtain r xs where x: "p = (r, xs)" by (rule prod.exhaust)
  then have xs: "xs = filter (\<lambda>e. le_route e = r) es" using assms(1) p(2) unfolding groups_ok_def by blast
  have "agg_route a = r" "agg_total a = length xs" "agg_errorCount a = length (filter (\<lambda>e. le_outcome e = Some ''error'') xs)"
    unfolding p(1) x route_aggregate_def Let_def by simp_all
  then show "agg_total a = length (filter (\<lambda>e. le_route e = agg_route a) es)"
    "agg_errorCount a = length (filter (\<lambda>e. le_route e = agg_route a \<and> le_outcome e = Some ''error'') es)"
    unfolding xs filter_filter by simp_all
qed

lemma sum_over_routes:
  "finite A \<Longrightarrow> le_route ` set xs \<subseteq> A \<Longrightarrow> (\<Sum>r \<in> A. length (filter (\<lambda>e. le_route e = r) xs)) = length (xs :: StructuredLogEntry list)"
proof (induction xs)
  case (Cons x xs)
  have "(\<Sum>r \<in> A. length (filter (\<lambda>e. le_route e = r) (x # xs)))
      = (\<Sum>r \<in> A. (if r = le_route x then 1 else 0) + length (filter (\<lambda>e. le_route e = r) xs))"
    by (rule sum.cong) auto
  also have "\<dots> = 1 + length xs" using Cons by (simp add: sum.distrib sum.delta)
  finally show ?case by simp
qed simp

text \<open>
  The aggregate is exact: one element for each route with a completed request, largest first, with the number of
  its completions and of those that ended in an error.\<close>

lemma aggregate_exact:
  "agg_route ` set (aggregateByRoute es) = le_route ` set (completions es)
   \<and> distinct (map agg_route (aggregateByRoute es))
   \<and> (\<forall>a \<in> set (aggregateByRoute es).
        agg_total a = length (filter (\<lambda>e. le_route e = agg_route a) (completions es))
        \<and> agg_errorCount a = length (filter (\<lambda>e. le_route e = agg_route a \<and> le_outcome e = Some ''error'') (completions es)))
   \<and> sorted (map (\<lambda>a. - int (agg_total a)) (aggregateByRoute es))
   \<and> sum_list (map agg_total (aggregateByRoute es)) = length (completions es)"
proof -
  define m where "m = foldl add_entry [] (completions es)"
  have g: "groups_ok (completions es) m" using groups_ok_foldl [of "[]" "[]" "completions es"] by (simp add: m_def groups_ok_def)
  define as where "as = map route_aggregate m"
  have routes: "map agg_route as = map fst m" by (simp add: as_def route_aggregate_def Let_def)
  have "distinct (map agg_route as)" unfolding routes using g by (simp add: groups_ok_def)
  then have D: "distinct (map agg_route (sort_key (\<lambda>a. - int (agg_total a)) as))"
    by (simp only: distinct_map set_sort distinct_sort)
  have R: "set (map agg_route as) = le_route ` set (completions es)" unfolding routes using g by (simp add: groups_ok_def)
  have "map agg_total as = map (\<lambda>r. length (filter (\<lambda>e. le_route e = r) (completions es))) (map agg_route as)"
    unfolding map_map by (rule map_cong [OF refl]) (simp add: route_groups(1) [OF g] as_def)
  then have "sum_list (map agg_total as) = length (completions es)"
    using \<open>distinct (map agg_route as)\<close> by (simp only: sum_list_distinct_conv_sum_set R) (rule sum_over_routes, simp_all)
  moreover have "sum_list (map agg_total (sort_key (\<lambda>a. - int (agg_total a)) as)) = sum_list (map agg_total as)"
  proof -
    have "mset (map agg_total (sort_key (\<lambda>a. - int (agg_total a)) as)) = mset (map agg_total as)" by simp
    from arg_cong [OF this, of sum_mset] show ?thesis by (simp only: sum_mset_sum_list)
  qed
  ultimately have S: "sum_list (map agg_total (sort_key (\<lambda>a. - int (agg_total a)) as)) = length (completions es)" by simp
  have E: "agg_total a = length (filter (\<lambda>e. le_route e = agg_route a) (completions es))"
    "agg_errorCount a = length (filter (\<lambda>e. le_route e = agg_route a \<and> le_outcome e = Some ''error'') (completions es))"
    if "a \<in> set (sort_key (\<lambda>a. - int (agg_total a)) as)" for a
    using route_groups [OF g, of a] that by (simp_all only: as_def set_sort)
  show ?thesis unfolding aggregateByRoute_def m_def [symmetric] as_def [symmetric]
    by (intro conjI ballI D S E sorted_sort_key) (use R in \<open>simp_all only: set_sort list.set_map\<close>)
qed

section \<open>The free-text log\<close>

text \<open>\<open>toFixed(1)\<close> and \<open>Math.round\<close> as text, of numbers that are not negative.\<close>

definition fixed1_str :: "rat \<Rightarrow> string" where
  "fixed1_str x = (let n = nat \<lfloor>x * 10 + 1 / 2\<rfloor> in nat_str (n div 10) @ ''.'' @ nat_str (n mod 10))"

definition js_round :: "rat \<Rightarrow> int" where
  "js_round x = \<lfloor>x + 1 / 2\<rfloor>"

record naive_event =
  ne_route :: string
  ne_method :: string
  ne_statusCode :: nat
  ne_durationMs :: rat
  ne_outcome :: string

definition naive_variant :: "naive_event \<Rightarrow> int" where
  "naive_variant e = (int (length (ne_route e)) + js_round (ne_durationMs e)) mod 3"

definition naive_log_line :: "naive_event \<Rightarrow> string" where
  "naive_log_line e =
     (if ne_outcome e = ''error''
      then ''ERROR handling request to '' @ ne_route e @ '': '' @ ne_outcome e @ '' (status '' @ nat_str (ne_statusCode e) @ '')''
      else if naive_variant e = 0 then ''Request completed in '' @ fixed1_str (ne_durationMs e) @ ''ms for '' @ ne_route e
      else if naive_variant e = 1
      then ne_method e @ '' '' @ ne_route e @ '' took '' @ int_str (js_round (ne_durationMs e)) @ '' ms, '' @ ne_outcome e
      else ''['' @ ne_method e @ ''] '' @ ne_route e @ '' -> '' @ nat_str (ne_statusCode e) @ '' ('' @ ne_outcome e @ '')'')"

text \<open>The file: a line and a newline for each call; reading it back splits at the newlines and drops blank lines.\<close>

definition appendNaiveLogLine :: "string \<Rightarrow> naive_event \<Rightarrow> string" where
  "appendNaiveLogLine raw e = raw @ naive_log_line e @ [CHR 0x0A]"

fun split_lines :: "string \<Rightarrow> string list" where
  "split_lines [] = [[]]"
| "split_lines (c # cs) =
     (if c = CHR 0x0A then [] # split_lines cs
      else (case split_lines cs of [] \<Rightarrow> [[c]] | l # ls \<Rightarrow> (c # l) # ls))"

definition white :: "char \<Rightarrow> bool" where
  "white c \<longleftrightarrow> c = CHR '' '' \<or> (9 \<le> (of_char c :: nat) \<and> (of_char c :: nat) \<le> 13) \<or> (of_char c :: nat) = 160"

definition log_lines :: "string \<Rightarrow> string list" where
  "log_lines raw = filter (\<lambda>l. \<exists>c \<in> set l. \<not> white c) (split_lines raw)"

fun after_prefix :: "string \<Rightarrow> string \<Rightarrow> string option" where
  "after_prefix [] s = Some s"
| "after_prefix (p # ps) [] = None"
| "after_prefix (p # ps) (c # s) = (if c = p then after_prefix ps s else None)"

definition number_char :: "char \<Rightarrow> bool" where
  "number_char c \<longleftrightarrow> c = CHR ''.'' \<or> (48 \<le> (of_char c :: nat) \<and> (of_char c :: nat) \<le> 57)"

text \<open>
  \<open>/^Request completed in ([\d.]+)ms for (\S+)$/\<close>: the class of the first group excludes the character after it, so the group
  takes all it can.\<close>

definition single_format_match :: "string \<Rightarrow> (string \<times> string) option" where
  "single_format_match l =
     (case after_prefix ''Request completed in '' l of
        None \<Rightarrow> None
      | Some s \<Rightarrow>
          (case after_prefix ''ms for '' (dropWhile number_char s) of
             None \<Rightarrow> None
           | Some r \<Rightarrow>
               if takeWhile number_char s \<noteq> [] \<and> r \<noteq> [] \<and> (\<forall>c \<in> set r. \<not> white c)
               then Some (takeWhile number_char s, r) else None))"

record NaiveParseResult =
  totalLines :: nat
  successfullyParsed :: nat
  failedToParse :: nat
  wronglyClassifiedAsSuccess :: nat

definition attemptNaiveLogParse :: "string \<Rightarrow> NaiveParseResult" where
  "attemptNaiveLogParse raw =
     (let ls = log_lines raw; n = length (filter (\<lambda>l. single_format_match l \<noteq> None) ls) in
      \<lparr>totalLines = length ls, successfullyParsed = n, failedToParse = length ls - n, wronglyClassifiedAsSuccess = n\<rparr>)"

lemma after_prefix_append [simp]: "after_prefix ps (ps @ s) = Some s"
  by (induction ps) simp_all

lemma split_lines_nonempty [simp]: "split_lines s \<noteq> []"
  by (induction s) (auto split: list.splits)

lemma split_lines_append: "CHR 0x0A \<notin> set l \<Longrightarrow> split_lines (l @ CHR 0x0A # s) = l # split_lines s"
  by (induction l) auto

lemma split_lines_file:
  "\<forall>l \<in> set ls. CHR 0x0A \<notin> set l \<Longrightarrow> split_lines (concat (map (\<lambda>l. l @ [CHR 0x0A]) ls)) = ls @ [[]]"
  by (induction ls) (simp_all add: split_lines_append)

lemma digit_char_number: "d < 10 \<Longrightarrow> number_char (digit_char d)"
  by (simp add: number_char_def digit_char_def)

lemma nat_str_number: "c \<in> set (nat_str n) \<Longrightarrow> number_char c"
proof (induction n rule: nat_str.induct)
  case (1 n)
  show ?case
  proof (cases "n < 10")
    case True
    then show ?thesis using 1(2) by (simp add: nat_str.simps [of n] digit_char_number)
  next
    case False
    then show ?thesis using 1 by (subst (asm) (2) nat_str.simps) (auto simp: digit_char_number)
  qed
qed

text \<open>A path has no blank, a method consists of capital letters.\<close>

definition plain_event :: "naive_event \<Rightarrow> bool" where
  "plain_event e \<longleftrightarrow> ne_route e \<noteq> [] \<and> (\<forall>c \<in> set (ne_route e). \<not> white c)
     \<and> ne_method e \<noteq> [] \<and> (\<forall>c \<in> set (ne_method e). 65 \<le> (of_char c :: nat) \<and> (of_char c :: nat) \<le> 90)
     \<and> (\<forall>c \<in> set (ne_outcome e). c \<noteq> CHR 0x0A)"

lemma fixed1_number: "c \<in> set (fixed1_str x) \<Longrightarrow> number_char c"
  by (auto simp: fixed1_str_def Let_def dest: nat_str_number) (simp add: number_char_def)

lemma match_variant_0:
  assumes "r \<noteq> []" and "\<forall>c \<in> set r. \<not> white c"
  shows "single_format_match (''Request completed in '' @ fixed1_str x @ ''ms for '' @ r) = Some (fixed1_str x, r)"
proof -
  have n: "\<forall>c \<in> set (fixed1_str x). number_char c" using fixed1_number by blast
  have m: "\<not> number_char CHR ''m''" by (simp add: number_char_def)
  have "dropWhile number_char (fixed1_str x @ ''ms for '' @ r) = ''ms for '' @ r"
    "takeWhile number_char (fixed1_str x @ ''ms for '' @ r) = fixed1_str x"
    using n m by (simp_all add: dropWhile_append2 takeWhile_append2)
  moreover have "fixed1_str x \<noteq> []" by (simp add: fixed1_str_def Let_def)
  ultimately show ?thesis using assms unfolding single_format_match_def after_prefix_append option.case by simp
qed

lemma no_match_other:
  assumes "plain_event e" and "ne_outcome e = ''error'' \<or> naive_variant e \<noteq> 0"
  shows "single_format_match (naive_log_line e) = None"
proof -
  have cap: "\<not> (65 \<le> (of_char CHR ''e'' :: nat) \<and> (of_char CHR ''e'' :: nat) \<le> 90)" by simp
  have "after_prefix ''Request completed in '' (ne_method e @ '' '' @ s) = None" for s
  proof (cases "ne_method e")
    case (Cons c cs)
    show ?thesis
    proof (cases cs)
      case (Cons d ds)
      then have "d \<noteq> CHR ''e''" using assms(1) \<open>ne_method e = c # cs\<close> cap by (auto simp: plain_event_def)
      then show ?thesis using \<open>ne_method e = c # cs\<close> Cons by simp
    qed (simp add: Cons)
  qed simp
  then show ?thesis using assms(2) by (auto simp: single_format_match_def naive_log_line_def)
qed

lemma plain_chars:
  assumes "plain_event e"
  shows "CHR 0x0A \<notin> set (ne_route e)" and "CHR 0x0A \<notin> set (ne_method e)" and "CHR 0x0A \<notin> set (ne_outcome e)"
    and "CHR 0x0A \<notin> set (nat_str n)" and "CHR 0x0A \<notin> set (int_str i)" and "CHR 0x0A \<notin> set (fixed1_str x)"
proof -
  have w: "white CHR 0x0A" "\<not> number_char CHR 0x0A" by (simp_all add: white_def number_char_def)
  show "CHR 0x0A \<notin> set (ne_route e)" "CHR 0x0A \<notin> set (ne_method e)" "CHR 0x0A \<notin> set (ne_outcome e)"
    using assms w(1) by (fastforce simp: plain_event_def)+
  show n: "CHR 0x0A \<notin> set (nat_str n)" for n using w(2) nat_str_number by blast
  then show "CHR 0x0A \<notin> set (int_str i)" by (simp add: int_str_def)
  show "CHR 0x0A \<notin> set (fixed1_str x)" using w(2) fixed1_number by blast
qed

lemma naive_line_plain:
  assumes "plain_event e"
  shows "CHR 0x0A \<notin> set (naive_log_line e)" and "\<exists>c \<in> set (naive_log_line e). \<not> white c"
proof -
  show "CHR 0x0A \<notin> set (naive_log_line e)"
    unfolding naive_log_line_def using plain_chars(1,2,3) [OF assms] plain_chars(4) [OF assms, of "ne_statusCode e"]
      plain_chars(5) [OF assms, of "js_round (ne_durationMs e)"] plain_chars(6) [OF assms, of "ne_durationMs e"]
    by simp
  obtain c cs where m: "ne_method e = c # cs" using assms by (cases "ne_method e") (auto simp: plain_event_def)
  then have r: "65 \<le> (of_char c :: nat)" "(of_char c :: nat) \<le> 90" using assms by (simp_all add: plain_event_def)
  have "(of_char CHR '' '' :: nat) = 32" by simp
  then have "c \<noteq> CHR '' ''" using r(1) by force
  then have "\<not> white c" unfolding white_def using r by linarith
  moreover have "\<not> white CHR ''R''" "\<not> white CHR ''E''" "\<not> white CHR ''[''" by (simp_all add: white_def)
  moreover have "hd (naive_log_line e) \<in> {CHR ''E'', CHR ''R'', c, CHR ''[''} \<and> naive_log_line e \<noteq> []"
    using m by (simp add: naive_log_line_def)
  ultimately have "\<not> white (hd (naive_log_line e))" "hd (naive_log_line e) \<in> set (naive_log_line e)" by (auto intro!: hd_in_set)
  then show "\<exists>c \<in> set (naive_log_line e). \<not> white c" by (rule bexI)
qed

lemma naive_file_lines:
  assumes "\<forall>e \<in> set es. plain_event e"
  shows "log_lines (foldl appendNaiveLogLine [] es) = map naive_log_line es"
proof -
  have f: "foldl appendNaiveLogLine raw es = raw @ concat (map (\<lambda>l. l @ [CHR 0x0A]) (map naive_log_line es))" for raw
    by (induction es arbitrary: raw) (simp_all add: appendNaiveLogLine_def)
  have "\<forall>l \<in> set (map naive_log_line es). CHR 0x0A \<notin> set l" using assms naive_line_plain(1) by simp
  note s = split_lines_file [OF this]
  have "filter (\<lambda>l. \<exists>c \<in> set l. \<not> white c) (map naive_log_line es) = map naive_log_line es"
    using assms naive_line_plain(2) by (simp add: filter_id_conv)
  then show ?thesis unfolding f append_Nil log_lines_def s by simp
qed

text \<open>
  The free-text log loses what the structured one keeps. Of the lines written for any requests, the one
  regular expression matches exactly those in the first of the three formats; every error and every line in another format
  is dropped, and what is matched is counted as a success.\<close>

lemma naive_parse_drops:
  assumes "\<forall>e \<in> set es. plain_event e"
  shows "attemptNaiveLogParse (foldl appendNaiveLogLine [] es) =
    (let n = length (filter (\<lambda>e. ne_outcome e \<noteq> ''error'' \<and> naive_variant e = 0) es) in
     \<lparr>totalLines = length es, successfullyParsed = n, failedToParse = length es - n, wronglyClassifiedAsSuccess = n\<rparr>)"
proof -
  have "single_format_match (naive_log_line e) \<noteq> None \<longleftrightarrow> ne_outcome e \<noteq> ''error'' \<and> naive_variant e = 0" if "e \<in> set es" for e
  proof (cases "ne_outcome e \<noteq> ''error'' \<and> naive_variant e = 0")
    case True
    have "ne_route e \<noteq> []" "\<forall>c \<in> set (ne_route e). \<not> white c" using assms that by (simp_all add: plain_event_def)
    from match_variant_0 [OF this, of "ne_durationMs e"] True show ?thesis by (simp add: naive_log_line_def)
  next
    case False
    then have "ne_outcome e = ''error'' \<or> naive_variant e \<noteq> 0" by simp
    moreover have "plain_event e" using assms that by simp
    ultimately have "single_format_match (naive_log_line e) = None" by (intro no_match_other)
    then show ?thesis using False by simp
  qed
  then have "filter (\<lambda>e. single_format_match (naive_log_line e) \<noteq> None) es = filter (\<lambda>e. ne_outcome e \<noteq> ''error'' \<and> naive_variant e = 0) es"
    by (intro filter_cong) auto
  then have "length (filter (\<lambda>l. single_format_match l \<noteq> None) (map naive_log_line es)) = length (filter (\<lambda>e. ne_outcome e \<noteq> ''error'' \<and> naive_variant e = 0) es)"
    by (simp add: filter_map comp_def)
  then show ?thesis by (simp add: attemptNaiveLogParse_def naive_file_lines [OF assms] Let_def)
qed

end
