(* ===== verification/Observability.thy ===== *)
theory Observability
  imports Log_Analysis Generators Sql_Table Async
begin

text \<open>
  The instrumented service of Lab 38, \<open>labs/38-*/src/server\<close>: every request is logged under its id, timed and counted
  (\<open>server.ts\<close>, \<open>order-queries.ts\<close>, \<open>business-logic.ts\<close>, \<open>observability/metrics.ts\<close>), and the traffic that is
  sent to it (\<open>scenarios/traffic-generator.ts\<close>, \<open>seed/seed.ts\<close>). A counter is the multiset of the labels it was
  incremented with. The steps of a request are the stretches between its \<open>await\<close>s, which other requests may come between.
\<close>

section \<open>Orders\<close>

record OrderRow =
  row_id :: nat
  row_publicId :: string
  row_email :: "string option"
  row_amount :: int
  row_status :: string

record OrderView =
  view_publicId :: string
  view_amount :: int
  view_status :: string
  view_emailDomain :: string

text \<open>\<open>split("@")[1]\<close>: what lies between the first at sign and the next.\<close>

definition email_domain :: "string \<Rightarrow> string option" where
  "email_domain e =
     (if CHR ''@'' \<in> set e then Some (takeWhile (\<lambda>c. c \<noteq> CHR ''@'') (tl (dropWhile (\<lambda>c. c \<noteq> CHR ''@'') e))) else None)"

definition buildOrderView :: "OrderRow \<Rightarrow> string + OrderView" where
  "buildOrderView r =
     (case row_email r of
        None \<Rightarrow> Inl ''Cannot read properties of null (reading 'split')''
      | Some e \<Rightarrow>
          (case email_domain e of
             None \<Rightarrow> Inl ''Cannot read properties of undefined (reading 'toLowerCase')''
           | Some d \<Rightarrow> Inr \<lparr>view_publicId = row_publicId r, view_amount = row_amount r, view_status = row_status r,
               view_emailDomain = map to_lower d\<rparr>))"

section \<open>Requests\<close>

datatype json_amount = Missing | Whole int | Not_a_number

datatype request_body = Malformed | Fields "string option" json_amount

record http_request =
  rq_id :: string
  rq_method :: string
  rq_path :: string
  rq_slow :: bool
  rq_body :: request_body

text \<open>\<open>/^\/orders\/(\d+)$/\<close>\<close>

definition digit :: "char \<Rightarrow> bool" where
  "digit c \<longleftrightarrow> 48 \<le> (of_char c :: nat) \<and> (of_char c :: nat) \<le> 57"

definition order_id_match :: "string \<Rightarrow> nat option" where
  "order_id_match p =
     (case after_prefix ''/orders/'' p of
        None \<Rightarrow> None
      | Some ds \<Rightarrow> if ds \<noteq> [] \<and> list_all digit ds then Some (val_of ds) else None)"

definition route_of :: "http_request \<Rightarrow> string" where
  "route_of rq =
     (if rq_path rq = ''/orders'' then ''/orders''
      else if order_id_match (rq_path rq) \<noteq> None then ''/orders/:id'' else rq_path rq)"

section \<open>The service\<close>

type_synonym metric_label = "string \<times> string \<times> nat"

record service =
  structured_log :: "StructuredLogEntry list"
  naive_events :: "naive_event list"
  httpRequestsInFlight :: int
  httpRequestsTotal :: "metric_label multiset"
  httpRequestDurationSeconds :: "(metric_label \<times> rat) list"
  httpErrorsTotal :: "string multiset"
  orders :: "OrderRow list"
  orders_id_seq :: nat

datatype request_pc =
  Unsent | Sleeping rat | Querying rat | Queried rat "string + OrderRow option" | Reading_body rat
  | Storing rat "string option" json_amount | Stored rat "string + OrderRow" | Scraping rat | Answered nat

definition log_step_entry :: "http_request \<Rightarrow> log_step \<Rightarrow> StructuredLogEntry" where
  "log_step_entry rq st =
     \<lparr>le_requestId = rq_id rq, le_route = route_of rq, le_method = rq_method rq, le_step = st, le_statusCode = None,
      le_durationMs = None, le_outcome = None, le_err = None\<rparr>"

definition log_steps :: "http_request \<Rightarrow> log_step list \<Rightarrow> service \<Rightarrow> service" where
  "log_steps rq sts s = s\<lparr>structured_log := structured_log s @ map (log_step_entry rq) sts\<rparr>"

definition complete_entry :: "http_request \<Rightarrow> nat \<Rightarrow> string \<Rightarrow> string option \<Rightarrow> rat \<Rightarrow> StructuredLogEntry" where
  "complete_entry rq status outcome err ms =
     (log_step_entry rq Request_complete)\<lparr>le_statusCode := Some status, le_durationMs := Some (toFixed 2 ms),
        le_outcome := Some outcome, le_err := err\<rparr>"

definition complete_request :: "http_request \<Rightarrow> rat \<Rightarrow> rat \<Rightarrow> nat \<Rightarrow> string \<Rightarrow> string option \<Rightarrow> service \<Rightarrow> request_pc \<times> service" where
  "complete_request rq start now status outcome err s =
     (let ms = now - start; l = (rq_method rq, route_of rq, status) in
      (Answered status,
       s\<lparr>httpRequestsInFlight := httpRequestsInFlight s - 1,
         httpRequestsTotal := add_mset l (httpRequestsTotal s),
         httpRequestDurationSeconds := httpRequestDurationSeconds s @ [(l, ms / 1000)],
         httpErrorsTotal := (if status \<ge> 500 then add_mset (route_of rq) (httpErrorsTotal s) else httpErrorsTotal s),
         structured_log := structured_log s @ [complete_entry rq status outcome err ms],
         naive_events := naive_events s @ [\<lparr>ne_route = route_of rq, ne_method = rq_method rq, ne_statusCode = status,
           ne_durationMs = ms, ne_outcome = outcome\<rparr>]\<rparr>))"

definition fails :: "http_request \<Rightarrow> rat \<Rightarrow> rat \<Rightarrow> string \<Rightarrow> service \<Rightarrow> request_pc \<times> service" where
  "fails rq start now e s = complete_request rq start now 500 ''error'' (Some e) s"

text \<open>An id above \<open>2 ^ 53\<close> is taken exactly, although a JavaScript number rounds it.\<close>

definition findOrderById :: "nat \<Rightarrow> service \<Rightarrow> string + OrderRow option" where
  "findOrderById k s =
     (if k \<ge> 2 ^ 63 then Inl ''out of range for type bigint'' else Inr (row_with (\<lambda>r. row_id r = k) (orders s)))"

definition insertOrder :: "string \<Rightarrow> string option \<Rightarrow> json_amount \<Rightarrow> service \<Rightarrow> (string + OrderRow) \<times> service" where
  "insertOrder new_uuid email amount s =
     (case (case amount of Missing \<Rightarrow> Some 0 | Whole i \<Rightarrow> if - (2 ^ 31) \<le> i \<and> i < 2 ^ 31 then Some i else None | Not_a_number \<Rightarrow> None) of
        None \<Rightarrow> (Inl ''invalid input for type integer'', s)
      | Some cents \<Rightarrow>
          (let r = \<lparr>row_id = orders_id_seq s, row_publicId = new_uuid, row_email = email, row_amount = cents, row_status = ''completed''\<rparr> in
           (Inr r, s\<lparr>orders := orders s @ [r], orders_id_seq := orders_id_seq s + 1\<rparr>)))"

fun handleRequest :: "string \<Rightarrow> http_request \<Rightarrow> rat \<Rightarrow> request_pc \<Rightarrow> service \<Rightarrow> request_pc \<times> service" where
  "handleRequest u rq now Unsent s0 =
     (let s = log_steps rq [Request_start] (s0\<lparr>httpRequestsInFlight := httpRequestsInFlight s0 + 1\<rparr>);
          isGet = (rq_method rq = ''GET'') in
      if isGet \<and> rq_path rq = ''/health'' then complete_request rq now now 200 ''success'' None s
      else if isGet \<and> rq_path rq = ''/metrics'' then (Scraping now, s)
      else if isGet \<and> order_id_match (rq_path rq) \<noteq> None
      then (if rq_slow rq then Sleeping now else Querying now, log_steps rq [Db_start] s)
      else if rq_method rq = ''POST'' \<and> rq_path rq = ''/orders'' then (Reading_body now, s)
      else complete_request rq now now 404 ''not_found'' None s)"
| "handleRequest u rq now (Sleeping start) s = (Querying start, s)"
| "handleRequest u rq now (Querying start) s = (Queried start (findOrderById (the (order_id_match (rq_path rq))) s), s)"
| "handleRequest u rq now (Queried start (Inl e)) s = fails rq start now e s"
| "handleRequest u rq now (Queried start (Inr None)) s =
     complete_request rq start now 404 ''not_found'' None (log_steps rq [Db_end] s)"
| "handleRequest u rq now (Queried start (Inr (Some row))) s =
     (case buildOrderView row of
        Inl e \<Rightarrow> fails rq start now e (log_steps rq [Db_end, Logic_start] s)
      | Inr view \<Rightarrow> complete_request rq start now 200 ''success'' None (log_steps rq [Db_end, Logic_start, Logic_end] s))"
| "handleRequest u rq now (Reading_body start) s =
     (case rq_body rq of
        Malformed \<Rightarrow> fails rq start now ''Unexpected token in JSON'' s
      | Fields email amount \<Rightarrow> (Storing start email amount, log_steps rq [Db_start] s))"
| "handleRequest u rq now (Storing start email amount) s =
     (let (res, s') = insertOrder u email amount s in (Stored start res, s'))"
| "handleRequest u rq now (Stored start (Inl e)) s = fails rq start now e s"
| "handleRequest u rq now (Stored start (Inr row)) s =
     complete_request rq start now 201 ''success'' None (log_steps rq [Db_end] s)"
| "handleRequest u rq now (Scraping start) s = complete_request rq start now 200 ''success'' None s"
| "handleRequest u rq now (Answered status) s = (Answered status, s)"

text \<open>Any number of concurrent requests: an event runs one to its next \<open>await\<close>.\<close>

type_synonym service_world = "request_pc list \<times> service"

definition service_step :: "http_request list \<Rightarrow> nat \<times> string \<times> rat \<Rightarrow> service_world \<Rightarrow> service_world" where
  "service_step rqs ev w =
     (case ev of (i, u, now) \<Rightarrow>
        if i < length (fst w)
        then (let (pc, s) = handleRequest u (rqs ! i) now (fst w ! i) (snd w) in ((fst w)[i := pc], s)) else w)"

text \<open>\<open>resetLogFiles\<close> and \<open>registry.resetMetrics()\<close> start the service from zero.\<close>

definition startLabServer :: "OrderRow list \<Rightarrow> nat \<Rightarrow> service" where
  "startLabServer rows next =
     \<lparr>structured_log = [], naive_events = [], httpRequestsInFlight = 0, httpRequestsTotal = {#},
      httpRequestDurationSeconds = [], httpErrorsTotal = {#}, orders = rows, orders_id_seq = next\<rparr>"

definition service_run :: "http_request list \<Rightarrow> (nat \<times> string \<times> rat) list \<Rightarrow> service \<Rightarrow> service_world" where
  "service_run rqs evs s = fold (service_step rqs) evs (replicate (length rqs) Unsent, s)"

section \<open>What a step records\<close>

fun traces :: "request_pc \<Rightarrow> log_step list set" where
  "traces Unsent = {[]}"
| "traces (Reading_body _) = {[Request_start]}"
| "traces (Scraping _) = {[Request_start]}"
| "traces (Answered _) = {[Request_start, Request_complete], [Request_start, Db_start, Request_complete],
     [Request_start, Db_start, Db_end, Request_complete], [Request_start, Db_start, Db_end, Logic_start, Request_complete],
     [Request_start, Db_start, Db_end, Logic_start, Logic_end, Request_complete]}"
| "traces _ = {[Request_start, Db_start]}"

fun answered :: "request_pc \<Rightarrow> bool" where
  "answered (Answered _) \<longleftrightarrow> True"
| "answered _ \<longleftrightarrow> False"

definition open_request :: "request_pc \<Rightarrow> int" where
  "open_request pc = (if pc = Unsent \<or> answered pc then 0 else 1)"

definition entry_label :: "StructuredLogEntry \<Rightarrow> metric_label" where
  "entry_label e = (le_method e, le_route e, the (le_statusCode e))"

definition naive_facts :: "naive_event \<Rightarrow> metric_label \<times> string" where
  "naive_facts e = ((ne_method e, ne_route e, ne_statusCode e), ne_outcome e)"

definition entry_facts :: "StructuredLogEntry \<Rightarrow> metric_label \<times> string" where
  "entry_facts e = (entry_label e, the (le_outcome e))"

definition error_entry :: "StructuredLogEntry \<Rightarrow> bool" where
  "error_entry e \<longleftrightarrow> le_outcome e = Some ''error''"

text \<open>The log and the metrics say the same.\<close>

definition recorded :: "service \<Rightarrow> bool" where
  "recorded s \<longleftrightarrow> httpRequestsTotal s = mset (map entry_label (completions (structured_log s)))
     \<and> httpErrorsTotal s = mset (map le_route (filter error_entry (completions (structured_log s))))
     \<and> map fst (httpRequestDurationSeconds s) = map entry_label (completions (structured_log s))
     \<and> map naive_facts (naive_events s) = map entry_facts (completions (structured_log s))
     \<and> (\<forall>e \<in> set (completions (structured_log s)). le_outcome e \<noteq> None)"

definition step_effect :: "http_request \<Rightarrow> request_pc \<Rightarrow> service \<Rightarrow> request_pc \<Rightarrow> service \<Rightarrow> bool" where
  "step_effect rq pc s pc' s' \<longleftrightarrow>
     (\<exists>new. structured_log s' = structured_log s @ new
        \<and> (\<forall>e \<in> set new. le_requestId e = rq_id rq \<and> le_route e = route_of rq \<and> le_method e = rq_method rq)
        \<and> (\<forall>t \<in> traces pc. t @ map le_step new \<in> traces pc')
        \<and> length (completions new) = (if answered pc' \<and> \<not> answered pc then 1 else 0))
     \<and> httpRequestsInFlight s' = httpRequestsInFlight s + open_request pc' - open_request pc
     \<and> recorded s'"

lemma completions_append [simp]: "completions (xs @ ys) = completions xs @ completions ys"
  by (simp add: completions_def)

lemma completions_steps [simp]: "Request_complete \<notin> set sts \<Longrightarrow> completions (map (log_step_entry rq) sts) = []"
  by (auto simp: completions_def filter_empty_conv log_step_entry_def)

lemma completions_complete [simp]: "completions [complete_entry rq st oc err ms] = [complete_entry rq st oc err ms]"
  by (simp add: completions_def complete_entry_def log_step_entry_def)

lemma entry_fields [simp]:
  "le_requestId (log_step_entry rq st) = rq_id rq" "le_route (log_step_entry rq st) = route_of rq"
  "le_method (log_step_entry rq st) = rq_method rq" "le_step (log_step_entry rq st) = st"
  "le_requestId (complete_entry rq c oc err ms) = rq_id rq" "le_route (complete_entry rq c oc err ms) = route_of rq"
  "le_method (complete_entry rq c oc err ms) = rq_method rq" "le_step (complete_entry rq c oc err ms) = Request_complete"
  "le_statusCode (complete_entry rq c oc err ms) = Some c" "le_outcome (complete_entry rq c oc err ms) = Some oc"
  by (simp_all add: log_step_entry_def complete_entry_def)

lemma map_step [simp]: "map (le_step \<circ> log_step_entry rq) sts = sts"
  by (induction sts) simp_all

text \<open>Two states with the same records; a step may change the orders and the gauge besides.\<close>

definition same_records :: "service \<Rightarrow> service \<Rightarrow> bool" where
  "same_records s s1 \<longleftrightarrow> structured_log s1 = structured_log s \<and> recorded s1"

lemma same_records_simps [simp]:
  "recorded s \<Longrightarrow> same_records s s" "recorded s \<Longrightarrow> same_records s (s\<lparr>httpRequestsInFlight := g\<rparr>)"
  "recorded s \<Longrightarrow> same_records s (s\<lparr>orders := rows, orders_id_seq := n\<rparr>)"
  by (simp_all add: same_records_def recorded_def)

lemma effect_complete:
  assumes "same_records s s1" and "httpRequestsInFlight s1 = httpRequestsInFlight s + 1 - open_request pc" and "\<not> answered pc"
    and "Request_complete \<notin> set sts" and "500 \<le> status \<longleftrightarrow> outcome = ''error''"
    and "\<forall>t \<in> traces pc. t @ sts @ [Request_complete] \<in> traces (Answered status)"
    and "complete_request rq start now status outcome err (log_steps rq sts s1) = (pc', s')"
  shows "step_effect rq pc s pc' s'"
proof -
  let ?new = "map (log_step_entry rq) sts @ [complete_entry rq status outcome err (now - start)]"
  have l: "structured_log s' = structured_log s @ ?new" and pc: "pc' = Answered status"
    and g: "httpRequestsInFlight s' = httpRequestsInFlight s + open_request pc' - open_request pc"
    using assms(1,2,7) by (auto simp: complete_request_def log_steps_def Let_def same_records_def open_request_def)
  have "recorded s'" using assms(1,4,5,7)
    by (auto simp: recorded_def complete_request_def log_steps_def Let_def same_records_def entry_label_def naive_facts_def
        entry_facts_def error_entry_def)
  then show ?thesis unfolding step_effect_def l using g pc assms(3,4,6) by (intro conjI exI [of _ ?new]) (auto simp: comp_def)
qed

lemma effect_more:
  assumes "same_records s s1" and "httpRequestsInFlight s1 = httpRequestsInFlight s + open_request pc' - open_request pc"
    and "Request_complete \<notin> set sts" and "\<not> answered pc'" and "\<forall>t \<in> traces pc. t @ sts \<in> traces pc'"
  shows "step_effect rq pc s pc' (log_steps rq sts s1)"
proof -
  have "recorded (log_steps rq sts s1)" using assms(1,3) by (simp add: recorded_def log_steps_def same_records_def)
  then show ?thesis unfolding step_effect_def using assms
    by (intro conjI exI [of _ "map (log_step_entry rq) sts"]) (auto simp: log_steps_def same_records_def comp_def)
qed

lemma log_steps_none [simp]: "log_steps rq [] s = s"
  by (simp add: log_steps_def)

lemma log_steps_twice [simp]: "log_steps rq b (log_steps rq a s) = log_steps rq (a @ b) s"
  by (simp add: log_steps_def)

lemma handleRequest_effect:
  assumes "recorded s" and "handleRequest u rq now pc s = (pc', s')"
  shows "step_effect rq pc s pc' s'"
proof -
  note fin = effect_complete [OF same_records_simps(1) [OF assms(1)]] and more = effect_more [OF same_records_simps(1) [OF assms(1)]]
  show ?thesis
  proof (cases pc)
    case Unsent
    let ?s1 = "s\<lparr>httpRequestsInFlight := httpRequestsInFlight s + 1\<rparr>"
    have s1: "same_records s ?s1" "httpRequestsInFlight ?s1 = httpRequestsInFlight s + 1 - open_request Unsent"
      using assms(1) by (simp_all add: open_request_def)
    note fin1 = effect_complete [OF s1] and more1 = effect_more [OF s1(1)]
    let ?s2 = "log_steps rq [Request_start] ?s1"
    have t: "step_effect rq Unsent s pc' s'" if "complete_request rq now now st oc None ?s2 = (pc', s')" "500 \<le> st \<longleftrightarrow> oc = ''error''" for st oc
      by (rule fin1 [OF _ _ that(2) _ that(1)]) simp_all
    have m: "step_effect rq Unsent s pc1 (log_steps rq (Request_start # sts) ?s1)"
      if "\<not> answered pc1" "pc1 \<noteq> Unsent" "Request_start # sts \<in> traces pc1" "Request_complete \<notin> set sts" for pc1 sts
      by (rule more1) (use that in \<open>simp_all add: open_request_def\<close>)
    show ?thesis using assms(2) t [of 200 "''success''"] t [of 404 "''not_found''"] m [of "Scraping now" "[]"] m [of "Sleeping now" "[Db_start]"]
        m [of "Querying now" "[Db_start]"] m [of "Reading_body now" "[]"]
      unfolding Unsent handleRequest.simps Let_def by (simp split: if_splits)
  next
    case (Sleeping start)
    then show ?thesis using assms(2) more [of pc' pc "[]" rq] by (auto simp: open_request_def)
  next
    case (Querying start)
    then show ?thesis using assms(2) more [of pc' pc "[]" rq] by (auto simp: open_request_def)
  next
    case (Queried start res)
    have o: "httpRequestsInFlight s = httpRequestsInFlight s + 1 - open_request pc" "\<not> answered pc"
      using Queried by (simp_all add: open_request_def)
    have t: "traces pc = {[Request_start, Db_start]}" using Queried by simp
    show ?thesis
    proof (cases res)
      case (Inl e)
      then show ?thesis using assms(2) Queried fin [OF o, of "[]" 500 "''error''" rq start now "Some e" pc' s'] by (simp add: fails_def)
    next
      case (Inr found)
      show ?thesis
      proof (cases found)
        case None
        then show ?thesis using assms(2) Queried Inr fin [OF o, of "[Db_end]" 404 "''not_found''" rq start now "None" pc' s'] by simp
      next
        case (Some row)
        show ?thesis
        proof (cases "buildOrderView row")
          case (Inl e)
          then show ?thesis using assms(2) Queried Inr Some fin [OF o, of "[Db_end, Logic_start]" 500 "''error''" rq start now "Some e" pc' s']
            by (simp add: fails_def)
        next
          case (Inr v)
          then show ?thesis using assms(2) Queried \<open>res = Inr found\<close> Some
              fin [OF o, of "[Db_end, Logic_start, Logic_end]" 200 "''success''" rq start now "None" pc' s'] by simp
        qed
      qed
    qed
  next
    case (Reading_body start)
    have o: "httpRequestsInFlight s = httpRequestsInFlight s + 1 - open_request pc" "\<not> answered pc"
      using Reading_body by (simp_all add: open_request_def)
    show ?thesis
    proof (cases "rq_body rq")
      case Malformed
      then show ?thesis using assms(2) Reading_body
          fin [OF o, of "[]" 500 "''error''" rq start now "Some ''Unexpected token in JSON''" pc' s'] by (simp add: fails_def)
    next
      case (Fields email amount)
      then show ?thesis using assms(2) Reading_body more [of pc' pc "[Db_start]" rq] by (auto simp: open_request_def)
    qed
  next
    case (Storing start email amount)
    obtain res s1 where i: "insertOrder u email amount s = (res, s1)" by fastforce
    then have "same_records s s1" "httpRequestsInFlight s1 = httpRequestsInFlight s"
      using assms(1) by (auto simp: insertOrder_def Let_def split: option.splits)
    then show ?thesis using assms(2) Storing i effect_more [of s s1 pc' pc "[]" rq] by (auto simp: open_request_def)
  next
    case (Stored start res)
    have o: "httpRequestsInFlight s = httpRequestsInFlight s + 1 - open_request pc" "\<not> answered pc"
      using Stored by (simp_all add: open_request_def)
    show ?thesis
    proof (cases res)
      case (Inl e)
      then show ?thesis using assms(2) Stored fin [OF o, of "[]" 500 "''error''" rq start now "Some e" pc' s'] by (simp add: fails_def)
    next
      case (Inr row)
      then show ?thesis using assms(2) Stored fin [OF o, of "[Db_end]" 201 "''success''" rq start now "None" pc' s'] by simp
    qed
  next
    case (Scraping start)
    have o: "httpRequestsInFlight s = httpRequestsInFlight s + 1 - open_request pc" "\<not> answered pc"
      using Scraping by (simp_all add: open_request_def)
    show ?thesis using assms(2) Scraping fin [OF o, of "[]" 200 "''success''" rq start now "None" pc' s'] by simp
  next
    case (Answered st)
    then show ?thesis using assms by (auto simp: step_effect_def completions_def)
  qed
qed

section \<open>Interleaved requests\<close>

definition entries_of :: "string \<Rightarrow> service \<Rightarrow> StructuredLogEntry list" where
  "entries_of k s = filter (\<lambda>e. le_requestId e = k) (structured_log s)"

definition service_inv :: "http_request list \<Rightarrow> service_world \<Rightarrow> bool" where
  "service_inv rqs w \<longleftrightarrow> length (fst w) = length rqs \<and> recorded (snd w)
     \<and> (\<forall>i < length rqs. map le_step (entries_of (rq_id (rqs ! i)) (snd w)) \<in> traces (fst w ! i))
     \<and> httpRequestsInFlight (snd w) = sum_list (map open_request (fst w))
     \<and> length (completions (structured_log (snd w))) = length (filter answered (fst w))"

lemma sum_open_update:
  "i < length pcs \<Longrightarrow> sum_list (map open_request (pcs[i := pc])) = sum_list (map open_request pcs) + open_request pc - open_request (pcs ! i)"
proof (induction pcs arbitrary: i)
  case (Cons x xs)
  then show ?case by (cases i) auto
qed simp

lemma answered_stays: "answered pc \<Longrightarrow> handleRequest u rq now pc s = (pc', s') \<Longrightarrow> answered pc'"
  by (cases pc) auto

lemma service_inv_step:
  assumes d: "distinct (map rq_id rqs)" and "service_inv rqs w"
  shows "service_inv rqs (service_step rqs ev w)"
proof -
  obtain i u now where ev: "ev = (i, u, now)" by (metis prod.exhaust)
  obtain pcs s where w: "w = (pcs, s)" by fastforce
  have len: "length pcs = length rqs" and rec: "recorded s"
    and tr: "\<And>j. j < length rqs \<Longrightarrow> map le_step (entries_of (rq_id (rqs ! j)) s) \<in> traces (pcs ! j)"
    and g: "httpRequestsInFlight s = sum_list (map open_request pcs)"
    and c: "length (completions (structured_log s)) = length (filter answered pcs)"
    using assms(2) by (simp_all add: service_inv_def w)
  show ?thesis
  proof (cases "i < length pcs")
    case True
    obtain pc s' where h: "handleRequest u (rqs ! i) now (pcs ! i) s = (pc, s')" by fastforce
    from handleRequest_effect [OF rec h] obtain new where new: "structured_log s' = structured_log s @ new"
        "\<forall>e \<in> set new. le_requestId e = rq_id (rqs ! i)" "\<forall>t \<in> traces (pcs ! i). t @ map le_step new \<in> traces pc"
        "length (completions new) = (if answered pc \<and> \<not> answered (pcs ! i) then 1 else 0)"
      and g': "httpRequestsInFlight s' = httpRequestsInFlight s + open_request pc - open_request (pcs ! i)" and rec': "recorded s'"
      unfolding step_effect_def by blast
    have tr': "map le_step (entries_of (rq_id (rqs ! j)) s') \<in> traces (pcs[i := pc] ! j)" if j: "j < length rqs" for j
    proof (cases "j = i")
      case True
      have "filter (\<lambda>e. le_requestId e = rq_id (rqs ! i)) new = new" using new(2) by (simp add: filter_id_conv)
      then show ?thesis using True new(1,3) tr [OF j] len j by (simp add: entries_of_def)
    next
      case False
      then have "rq_id (rqs ! j) \<noteq> rq_id (rqs ! i)" using d j \<open>i < length pcs\<close> len by (simp add: distinct_conv_nth)
      then have "filter (\<lambda>e. le_requestId e = rq_id (rqs ! j)) new = []" using new(2) by (auto simp: filter_empty_conv)
      then show ?thesis using False new(1) tr [OF j] by (simp add: entries_of_def)
    qed
    have "length (filter answered (pcs[i := pc])) = length (filter answered pcs) + (if answered pc \<and> \<not> answered (pcs ! i) then 1 else 0)"
      using length_filter_map_upd [OF True, of answered pc] answered_stays [OF _ h] by (auto split: if_splits)
    then have c': "length (completions (structured_log s')) = length (filter answered (pcs[i := pc]))" using new(1,4) c by simp
    show ?thesis using len rec' tr' c' g g' sum_open_update [OF True, of pc] True
      by (simp add: service_inv_def service_step_def ev w h)
  next
    case False
    then show ?thesis using assms(2) by (simp add: service_step_def ev w)
  qed
qed

lemma service_inv_run:
  assumes "distinct (map rq_id rqs)"
  shows "service_inv rqs (service_run rqs evs (startLabServer rows next))"
proof -
  have "sum_list (map open_request (replicate n Unsent)) = 0" for n by (induction n) (simp_all add: open_request_def)
  then have "service_inv rqs (replicate (length rqs) Unsent, startLabServer rows next)"
    by (simp add: service_inv_def startLabServer_def recorded_def completions_def entries_of_def)
  moreover have "service_inv rqs w \<Longrightarrow> service_inv rqs (fold (service_step rqs) evs w)" for w
    by (induction evs arbitrary: w) (simp_all add: service_inv_step [OF assms])
  ultimately show ?thesis by (simp add: service_run_def)
qed

text \<open>
  C36: the three signals agree. However the requests of any clients interleave, the log entries under one
  request's id are the trace of that request, in order and complete once it is answered; the gauge counts the
  requests that have started and are not answered; and the aggregates computed from the log are the counters: the totals of a
  route, its errors, and the number of all answered requests, of timed ones and of lines in the free-text log.\<close>

theorem logs_and_metrics_agree:
  assumes "distinct (map rq_id rqs)" and "service_run rqs evs (startLabServer rows next) = (pcs, s)"
  shows "(\<forall>i < length rqs. map le_step (entries_of (rq_id (rqs ! i)) s) \<in> traces (pcs ! i))
    \<and> httpRequestsInFlight s = sum_list (map open_request pcs)
    \<and> (\<forall>a \<in> set (aggregateByRoute (structured_log s)).
         agg_total a = size (filter_mset (\<lambda>l. fst (snd l) = agg_route a) (httpRequestsTotal s))
         \<and> agg_errorCount a = count (httpErrorsTotal s) (agg_route a))
    \<and> sum_list (map agg_total (aggregateByRoute (structured_log s))) = size (httpRequestsTotal s)
    \<and> size (httpRequestsTotal s) = length (filter answered pcs)
    \<and> length (httpRequestDurationSeconds s) = length (filter answered pcs)
    \<and> length (naive_events s) = length (filter answered pcs)"
proof -
  have inv: "service_inv rqs (pcs, s)" using service_inv_run [OF assms(1), of evs rows "next"] assms(2) by simp
  then have rec: "recorded s" and tr: "\<forall>i < length rqs. map le_step (entries_of (rq_id (rqs ! i)) s) \<in> traces (pcs ! i)"
    and g: "httpRequestsInFlight s = sum_list (map open_request pcs)"
    and c: "length (completions (structured_log s)) = length (filter answered pcs)" by (simp_all add: service_inv_def)
  let ?cs = "completions (structured_log s)"
  have tot: "httpRequestsTotal s = mset (map entry_label ?cs)" and err: "httpErrorsTotal s = mset (map le_route (filter error_entry ?cs))"
    and dur: "length (httpRequestDurationSeconds s) = length ?cs" and nv: "length (naive_events s) = length ?cs"
    using rec by (auto simp: recorded_def dest: map_eq_imp_length_eq)
  have "size (filter_mset (\<lambda>l. fst (snd l) = r) (httpRequestsTotal s)) = length (filter (\<lambda>e. le_route e = r) ?cs)" for r
  proof -
    have "(\<lambda>l. fst (snd l) = r) \<circ> entry_label = (\<lambda>e. le_route e = r)" by (simp add: fun_eq_iff entry_label_def)
    then show ?thesis unfolding tot mset_filter [symmetric] size_mset filter_map length_map by (simp only:)
  qed
  moreover have "count (httpErrorsTotal s) r = length (filter (\<lambda>e. le_route e = r \<and> error_entry e) ?cs)" for r
  proof -
    have "count (mset (map le_route es)) r = length (filter (\<lambda>e. le_route e = r) es)" for es :: "StructuredLogEntry list"
      by (induction es) auto
    from this [of "filter error_entry ?cs"] show ?thesis unfolding err by (simp only: filter_filter conj_commute)
  qed
  moreover have "size (httpRequestsTotal s) = length ?cs" unfolding tot by simp
  ultimately show ?thesis using aggregate_exact [of "structured_log s"] tr g c dur nv by (simp add: error_entry_def)
qed

definition example_orders :: "OrderRow list" where
  "example_orders = [\<lparr>row_id = 1, row_publicId = ''p'', row_email = None, row_amount = 700, row_status = ''completed''\<rparr>]"

definition example_requests :: "http_request list" where
  "example_requests = map (\<lambda>k. \<lparr>rq_id = k, rq_method = ''GET'', rq_path = ''/orders/1'', rq_slow = False, rq_body = Malformed\<rparr>) [''a'', ''b'']"

definition example_events :: "(nat \<times> string \<times> rat) list" where
  "example_events = [(0, [], 0), (1, [], 1), (1, [], 2), (0, [], 3), (1, [], 4)]"

lemma logs_and_metrics_agree_witness:
  "\<exists>s. service_run example_requests example_events (startLabServer example_orders 2) = ([Queried 0 (Inr (Some (hd example_orders))), Answered 500], s)
    \<and> size (httpRequestsTotal s) = 1"
proof -
  let ?w = "service_run example_requests example_events (startLabServer example_orders 2)"
  have m: "order_id_match ''/orders/1'' = Some 1" by (simp add: order_id_match_def digit_def)
  have w: "fst ?w = [Queried 0 (Inr (Some (hd example_orders))), Answered 500]"
    by (simp add: service_run_def service_step_def example_requests_def example_events_def startLabServer_def m log_steps_def
        findOrderById_def row_with_def example_orders_def fails_def complete_request_def buildOrderView_def Let_def)
  obtain s where r: "?w = ([Queried 0 (Inr (Some (hd example_orders))), Answered 500], s)" using w by (metis prod.collapse)
  have "distinct (map rq_id example_requests)" by (simp add: example_requests_def)
  from logs_and_metrics_agree [OF this r] have "size (httpRequestsTotal s) = 1" by simp
  then show ?thesis using r by blast
qed

section \<open>Traffic\<close>

datatype TrafficOutcome = success | not_found | slow | error | created

record IdPools =
  validIds :: "nat list"
  guestIds :: "nat list"

definition loadIdPools :: "service \<Rightarrow> IdPools" where
  "loadIdPools s =
     \<lparr>validIds = sort (map row_id (filter (\<lambda>r. row_email r \<noteq> None) (orders s))),
      guestIds = sort (map row_id (filter (\<lambda>r. row_email r = None) (orders s)))\<rparr>"

definition WEIGHTS :: "(TrafficOutcome \<times> rat) list" where
  "WEIGHTS = [(success, 65 / 100), (not_found, 1 / 10), (slow, 1 / 10), (error, 1 / 10), (created, 5 / 100)]"

text \<open>The loop over the weights, and what it falls back to.\<close>

fun pick_from :: "'b \<Rightarrow> rat \<Rightarrow> rat \<Rightarrow> ('b \<times> rat) list \<Rightarrow> 'b" where
  "pick_from fallback roll cumulative [] = fallback"
| "pick_from fallback roll cumulative ((b, w) # ws) =
     (if roll \<le> cumulative + w then b else pick_from fallback roll (cumulative + w) ws)"

definition pickBucket :: "rat \<Rightarrow> TrafficOutcome" where
  "pickBucket roll = pick_from success roll 0 WEIGHTS"

definition pick_id :: "nat list \<Rightarrow> 32 word \<Rightarrow> nat \<times> 32 word" where
  "pick_id ids a = (let (r, a) = mulberry32 a in (ids ! nat \<lfloor>r * of_nat (length ids)\<rfloor>, a))"

definition traffic_request :: "string \<Rightarrow> string \<Rightarrow> bool \<Rightarrow> request_body \<Rightarrow> string \<Rightarrow> http_request" where
  "traffic_request m p is_slow b k = \<lparr>rq_id = k, rq_method = m, rq_path = p, rq_slow = is_slow, rq_body = b\<rparr>"

text \<open>The \<open>i\<close>-th request; the server gives it its id \<open>k\<close>.\<close>

definition next_request :: "IdPools \<Rightarrow> nat \<Rightarrow> 32 word \<Rightarrow> string \<Rightarrow> (TrafficOutcome \<times> http_request) \<times> 32 word" where
  "next_request ids i a k =
     (let (roll, a) = mulberry32 a; bucket = pickBucket roll in
      case bucket of
        success \<Rightarrow> (let (x, a) = pick_id (validIds ids) a in ((bucket, traffic_request ''GET'' (''/orders/'' @ nat_str x) False Malformed k), a))
      | not_found \<Rightarrow> ((bucket, traffic_request ''GET'' (''/orders/'' @ nat_str (9000000 + i)) False Malformed k), a)
      | slow \<Rightarrow> (let (x, a) = pick_id (validIds ids) a in ((bucket, traffic_request ''GET'' (''/orders/'' @ nat_str x) True Malformed k), a))
      | error \<Rightarrow> (let (x, a) = pick_id (guestIds ids) a in ((bucket, traffic_request ''GET'' (''/orders/'' @ nat_str x) False Malformed k), a))
      | created \<Rightarrow>
          ((bucket, traffic_request ''POST'' ''/orders'' False
              (Fields (Some (''traffic-'' @ nat_str i @ ''@example.com'')) (Whole (1000 + int i))) k), a))"

text \<open>A request that is awaited before the next one is sent: its steps until it is answered.\<close>

fun answer_alone :: "nat \<Rightarrow> string \<Rightarrow> http_request \<Rightarrow> (nat \<Rightarrow> rat) \<Rightarrow> request_pc \<Rightarrow> service \<Rightarrow> request_pc \<times> service" where
  "answer_alone 0 u rq instants pc s = (pc, s)"
| "answer_alone (Suc n) u rq instants pc s =
     (if answered pc then (pc, s)
      else (let (pc, s) = handleRequest u rq (instants n) pc s in answer_alone n u rq instants pc s))"

record TrafficResult =
  bucket :: TrafficOutcome
  traffic_status :: nat

fun generate_from :: "IdPools \<Rightarrow> (nat \<Rightarrow> string) \<Rightarrow> (nat \<Rightarrow> nat \<Rightarrow> rat) \<Rightarrow> nat list \<Rightarrow> 32 word \<Rightarrow> service \<Rightarrow> TrafficResult list \<times> service" where
  "generate_from ids ks instants [] a s = ([], s)"
| "generate_from ids ks instants (i # is) a s =
     (let ((b, rq), a) = next_request ids i a (ks i);
          (pc, s) = answer_alone 5 (ks i) rq (instants i) Unsent s;
          (rs, s) = generate_from ids ks instants is a s in
      (\<lparr>bucket = b, traffic_status = (case pc of Answered st \<Rightarrow> st | _ \<Rightarrow> 0)\<rparr> # rs, s))"

definition generateTraffic :: "nat \<Rightarrow> int \<Rightarrow> IdPools \<Rightarrow> (nat \<Rightarrow> string) \<Rightarrow> (nat \<Rightarrow> nat \<Rightarrow> rat) \<Rightarrow> service \<Rightarrow> TrafficResult list \<times> service" where
  "generateTraffic n seed ids ks instants s = generate_from ids ks instants [0..<n] (mulberry32_init seed) s"

definition summarizeTraffic :: "TrafficResult list \<Rightarrow> TrafficOutcome \<Rightarrow> nat" where
  "summarizeTraffic rs b = length (filter (\<lambda>r. bucket r = b) rs)"

text \<open>What each kind of request is answered with.\<close>

fun expected_status :: "TrafficOutcome \<Rightarrow> nat" where
  "expected_status success = 200"
| "expected_status not_found = 404"
| "expected_status slow = 200"
| "expected_status error = 500"
| "expected_status created = 201"

text \<open>The table the traffic is built from: its ids, and room for \<open>n\<close> orders below the ids that are not to be found.\<close>

definition traffic_ready :: "IdPools \<Rightarrow> nat \<Rightarrow> service \<Rightarrow> bool" where
  "traffic_ready ids n s \<longleftrightarrow> orders_id_seq s + n \<le> 9000000 \<and> distinct (map row_id (orders s))
     \<and> (\<forall>r \<in> set (orders s). row_id r < orders_id_seq s) \<and> validIds ids \<noteq> [] \<and> guestIds ids \<noteq> []
     \<and> (\<forall>k \<in> set (validIds ids). \<exists>r \<in> set (orders s). row_id r = k \<and> (\<exists>e. row_email r = Some e \<and> CHR ''@'' \<in> set e))
     \<and> (\<forall>k \<in> set (guestIds ids). \<exists>r \<in> set (orders s). row_id r = k \<and> row_email r = None)"

lemma order_id_digits: "list_all digit (nat_str n)"
proof (induction n rule: nat_str.induct)
  case (1 n)
  have d: "k < 10 \<Longrightarrow> digit (digit_char k)" for k by (simp add: digit_def digit_char_def)
  show ?case
  proof (cases "n < 10")
    case True
    then show ?thesis by (simp add: nat_str.simps [of n] d)
  next
    case False
    then show ?thesis using 1 d by (subst nat_str.simps) simp
  qed
qed

lemma order_path_match: "order_id_match (''/orders/'' @ nat_str k) = Some k"
  unfolding order_id_match_def after_prefix_append by (simp add: order_id_digits val_of_nat_str del: val_of.simps)

lemma answer_alone_answered [simp]: "answer_alone n u rq ts (Answered st) s = (Answered st, s)"
  by (cases n) simp_all

lemma complete_request_orders [simp]:
  "fst (complete_request rq st now code oc err s) = Answered code"
  "orders (snd (complete_request rq st now code oc err s)) = orders s"
  "orders_id_seq (snd (complete_request rq st now code oc err s)) = orders_id_seq s"
  "orders (log_steps rq sts s) = orders s" "orders_id_seq (log_steps rq sts s) = orders_id_seq s"
  by (simp_all add: complete_request_def log_steps_def Let_def)

lemma answer_completed:
  "answer_alone n u rq ts (fst (complete_request rq' st now code oc err s)) (snd (complete_request rq' st now code oc err s))
   = complete_request rq' st now code oc err s"
  by (metis answer_alone_answered complete_request_orders(1) prod.collapse)

definition order_status :: "nat \<Rightarrow> service \<Rightarrow> nat" where
  "order_status k s =
     (case row_with (\<lambda>r. row_id r = k) (orders s) of
        None \<Rightarrow> 404
      | Some r \<Rightarrow> (case buildOrderView r of Inl _ \<Rightarrow> 500 | Inr _ \<Rightarrow> 200))"

lemma query_answer:
  assumes "order_id_match (rq_path rq) = Some k" and "k < 2 ^ 63"
  shows "\<exists>s'. answer_alone (Suc (Suc n)) u rq ts (Querying st) s = (Answered (order_status k s), s')
    \<and> orders s' = orders s \<and> orders_id_seq s' = orders_id_seq s"
proof -
  have f: "findOrderById k s = Inr (row_with (\<lambda>r. row_id r = k) (orders s))" using assms(2) by (simp add: findOrderById_def)
  have fin: "\<exists>s'. answer_alone (Suc (Suc n)) u rq ts (Querying st) s = (Answered code, s') \<and> orders s' = orders s \<and> orders_id_seq s' = orders_id_seq s"
    if "handleRequest u rq (ts n) (Queried st (Inr (row_with (\<lambda>r. row_id r = k) (orders s)))) s = complete_request rq st (ts n) code oc err (log_steps rq sts s)"
    for code oc err sts
    using that assms(1) f by (intro exI [of _ "snd (complete_request rq st (ts n) code oc err (log_steps rq sts s))"])
      (simp add: split_beta answer_completed prod_eq_iff)
  show ?thesis
  proof (cases "row_with (\<lambda>r. row_id r = k) (orders s)")
    case None
    then show ?thesis using fin [of 404 "''not_found''" "None" "[Db_end]"] by (simp add: order_status_def)
  next
    case (Some r)
    show ?thesis
    proof (cases "buildOrderView r")
      case (Inl e)
      then show ?thesis using Some fin [of 500 "''error''" "Some e" "[Db_end, Logic_start]"] by (simp add: order_status_def fails_def)
    next
      case (Inr v)
      then show ?thesis using Some fin [of 200 "''success''" "None" "[Db_end, Logic_start, Logic_end]"] by (simp add: order_status_def)
    qed
  qed
qed

lemma get_order_answer:
  assumes "k < 2 ^ 63"
  shows "\<exists>s'. answer_alone 5 u (traffic_request ''GET'' (''/orders/'' @ nat_str k) sl b key) ts Unsent s = (Answered (order_status k s), s')
    \<and> orders s' = orders s \<and> orders_id_seq s' = orders_id_seq s"
proof -
  define rq where "rq = traffic_request ''GET'' (''/orders/'' @ nat_str k) sl b key"
  define s1 where "s1 = log_steps rq [Request_start, Db_start] (s\<lparr>httpRequestsInFlight := httpRequestsInFlight s + 1\<rparr>)"
  have m: "order_id_match (rq_path rq) = Some k" using order_path_match [of k] by (simp add: rq_def traffic_request_def)
  have "order_id_match ''/health'' = None" "order_id_match ''/metrics'' = None" by (simp_all add: order_id_match_def)
  then have p: "rq_path rq \<noteq> ''/health''" "rq_path rq \<noteq> ''/metrics''" using m by force+
  have g: "rq_method rq = ''GET''" "rq_slow rq = sl" by (simp_all add: rq_def traffic_request_def)
  have h: "handleRequest u rq now Unsent s = (if sl then Sleeping now else Querying now, s1)" for now
    using m p g by (simp add: s1_def)
  have o: "orders s1 = orders s" "orders_id_seq s1 = orders_id_seq s" "order_status k s1 = order_status k s"
    by (simp_all add: order_status_def s1_def)
  let ?four = "Suc (Suc (Suc (Suc 0)))"
  have first: "answer_alone (Suc ?four) u rq ts Unsent s = answer_alone ?four u rq ts (if sl then Sleeping (ts ?four) else Querying (ts ?four)) s1"
    by (subst answer_alone.simps(2)) (simp only: h answered.simps if_False prod.case Let_def)
  have "\<exists>s'. answer_alone (Suc ?four) u rq ts Unsent s = (Answered (order_status k s1), s') \<and> orders s' = orders s1 \<and> orders_id_seq s' = orders_id_seq s1"
  proof (cases sl)
    case True
    have "answer_alone ?four u rq ts (Sleeping (ts ?four)) s1 = answer_alone (Suc (Suc (Suc 0))) u rq ts (Querying (ts ?four)) s1"
      by (subst answer_alone.simps(2)) (simp only: handleRequest.simps answered.simps if_False prod.case Let_def)
    then show ?thesis unfolding first using query_answer [OF m assms, of "Suc 0" u ts "ts ?four" s1] True by simp
  next
    case False
    then show ?thesis unfolding first using query_answer [OF m assms, of "Suc (Suc 0)" u ts "ts ?four" s1] by simp
  qed
  moreover have "(5 :: nat) = Suc ?four" by simp
  ultimately show ?thesis unfolding rq_def [symmetric] using o by (simp only:)
qed

lemma post_order_answer:
  fixes u key instants s em i
  assumes "- (2 ^ 31) \<le> i" and "i < 2 ^ 31"
  shows "\<exists>s'. answer_alone 5 u (traffic_request ''POST'' ''/orders'' False (Fields (Some em) (Whole i)) key) instants Unsent s = (Answered 201, s')
    \<and> orders s' = orders s @ [\<lparr>row_id = orders_id_seq s, row_publicId = u, row_email = Some em, row_amount = i, row_status = ''completed''\<rparr>]
    \<and> orders_id_seq s' = orders_id_seq s + 1"
  using assms
  by (auto simp: eval_nat_numeral traffic_request_def insertOrder_def complete_request_def log_steps_def Let_def)

lemma pick_id_in: "ids \<noteq> [] \<Longrightarrow> fst (pick_id ids a) \<in> set ids"
proof -
  assume n: "ids \<noteq> []"
  define r where "r = fst (mulberry32 a)"
  have r: "0 \<le> r" "r < 1" using mulberry32_range [of a] by (simp_all add: r_def)
  have "r * of_nat (length ids) < 1 * of_nat (length ids)" by (rule mult_strict_right_mono) (use r n in auto)
  then have "\<lfloor>r * of_nat (length ids)\<rfloor> < int (length ids)" by (simp add: floor_less_iff)
  moreover have "0 \<le> \<lfloor>r * of_nat (length ids)\<rfloor>" using r by simp
  ultimately have "nat \<lfloor>r * of_nat (length ids)\<rfloor> < length ids" using n by (simp add: nat_less_iff)
  then show ?thesis by (simp add: pick_id_def Let_def r_def split_beta)
qed

lemma view_of_email: "row_email r = Some e \<Longrightarrow> CHR ''@'' \<in> set e \<Longrightarrow> \<exists>v. buildOrderView r = Inr v"
  by (simp add: buildOrderView_def email_domain_def)

lemma view_of_guest: "row_email r = None \<Longrightarrow> \<exists>e. buildOrderView r = Inl e"
  by (simp add: buildOrderView_def)

lemma next_request_answer:
  assumes ready: "traffic_ready ids (Suc n) s" and i: "i < 2 ^ 30" and q: "next_request ids i a k = ((b, rq), a')"
  shows "\<exists>s'. answer_alone 5 u rq instants Unsent s = (Answered (expected_status b), s') \<and> traffic_ready ids n s'"
proof -
  have R: "orders_id_seq s + Suc n \<le> 9000000" "distinct (map row_id (orders s))" "\<forall>r \<in> set (orders s). row_id r < orders_id_seq s"
    "validIds ids \<noteq> []" "guestIds ids \<noteq> []" using ready by (simp_all add: traffic_ready_def)
  have found: "\<exists>s'. answer_alone 5 u (traffic_request ''GET'' (''/orders/'' @ nat_str x) sl m k) instants Unsent s = (Answered st, s') \<and> traffic_ready ids n s'"
    if x: "x < 2 ^ 63" and st: "st = order_status x s" for x sl m st
    using get_order_answer [OF x, of u sl m k instants s] ready st by (auto simp: traffic_ready_def)
  have row: "row_with (\<lambda>r. row_id r = row_id x) (orders s) = Some x \<and> row_id x < 2 ^ 63" if "x \<in> set (orders s)" for x
    using row_with_unique [OF R(2) that] that R(1,3) by fastforce
  obtain roll a1 where m: "mulberry32 a = (roll, a1)" by fastforce
  show ?thesis
  proof (cases "pickBucket roll")
    case success
    have "fst (pick_id (validIds ids) a1) \<in> set (validIds ids)" by (rule pick_id_in [OF R(4)])
    then obtain x where x: "x \<in> set (orders s)" "row_id x = fst (pick_id (validIds ids) a1)" "\<exists>v. buildOrderView x = Inr v"
      using ready view_of_email unfolding traffic_ready_def by metis
    have e: "b = success" "rq = traffic_request ''GET'' (''/orders/'' @ nat_str (row_id x)) False Malformed k"
      using q m success x(2) by (auto simp: next_request_def Let_def split_beta)
    show ?thesis unfolding e by (rule found) (use row [OF x(1)] x(3) in \<open>auto simp: order_status_def\<close>)
  next
    case slow
    have "fst (pick_id (validIds ids) a1) \<in> set (validIds ids)" by (rule pick_id_in [OF R(4)])
    then obtain x where x: "x \<in> set (orders s)" "row_id x = fst (pick_id (validIds ids) a1)" "\<exists>v. buildOrderView x = Inr v"
      using ready view_of_email unfolding traffic_ready_def by metis
    have e: "b = slow" "rq = traffic_request ''GET'' (''/orders/'' @ nat_str (row_id x)) True Malformed k"
      using q m slow x(2) by (auto simp: next_request_def Let_def split_beta)
    show ?thesis unfolding e by (rule found) (use row [OF x(1)] x(3) in \<open>auto simp: order_status_def\<close>)
  next
    case error
    have "fst (pick_id (guestIds ids) a1) \<in> set (guestIds ids)" by (rule pick_id_in [OF R(5)])
    then obtain x where x: "x \<in> set (orders s)" "row_id x = fst (pick_id (guestIds ids) a1)" "\<exists>v. buildOrderView x = Inl v"
      using ready view_of_guest unfolding traffic_ready_def by metis
    have e: "b = error" "rq = traffic_request ''GET'' (''/orders/'' @ nat_str (row_id x)) False Malformed k"
      using q m error x(2) by (auto simp: next_request_def Let_def split_beta)
    show ?thesis unfolding e by (rule found) (use row [OF x(1)] x(3) in \<open>auto simp: order_status_def\<close>)
  next
    case not_found
    have e: "b = not_found" "rq = traffic_request ''GET'' (''/orders/'' @ nat_str (9000000 + i)) False Malformed k"
      using q m not_found by (auto simp: next_request_def Let_def)
    have "row_with (\<lambda>r. row_id r = 9000000 + i) (orders s) = None" using R(1,3) by (fastforce simp: row_with_None)
    then show ?thesis unfolding e by (intro found) (use i in \<open>auto simp: order_status_def\<close>)
  next
    case created
    have e: "b = created" "rq = traffic_request ''POST'' ''/orders'' False (Fields (Some (''traffic-'' @ nat_str i @ ''@example.com'')) (Whole (1000 + int i))) k"
      using q m created by (auto simp: next_request_def Let_def)
    have "- (2 ^ 31) \<le> 1000 + int i" "1000 + int i < 2 ^ 31" using i by auto
    from post_order_answer [OF this, of u "''traffic-'' @ nat_str i @ ''@example.com''" k instants s]
    obtain s' where s': "answer_alone 5 u rq instants Unsent s = (Answered 201, s')" "orders_id_seq s' = orders_id_seq s + 1"
        "orders s' = orders s @ [\<lparr>row_id = orders_id_seq s, row_publicId = u, row_email = Some (''traffic-'' @ nat_str i @ ''@example.com''),
           row_amount = 1000 + int i, row_status = ''completed''\<rparr>]"
      unfolding e by blast
    have "traffic_ready ids n s'" using ready unfolding traffic_ready_def s'(2,3) by (auto simp: less_SucI)
    then show ?thesis using s'(1) e by simp
  qed
qed

text \<open>
  Every request of the generated traffic gets the status its kind is for, and every request is counted in one of the five
  kinds.\<close>

lemma traffic_as_expected:
  assumes "traffic_ready ids n s" and "n \<le> 2 ^ 30"
  shows "\<forall>r \<in> set (fst (generateTraffic n seed ids ks instants s)). traffic_status r = expected_status (bucket r)"
    and "length (fst (generateTraffic n seed ids ks instants s)) = n"
proof -
  have "(\<forall>r \<in> set (fst (generate_from ids ks instants is a s)). traffic_status r = expected_status (bucket r))
      \<and> length (fst (generate_from ids ks instants is a s)) = length is"
    if "traffic_ready ids (length is) s" "\<forall>i \<in> set is. i < 2 ^ 30" for "is" a s
    using that
  proof (induction "is" arbitrary: a s)
    case (Cons i js)
    obtain b rq a' where q: "next_request ids i a (ks i) = ((b, rq), a')" by (metis prod.exhaust)
    from next_request_answer [OF _ _ q, of "length js" s "ks i" "instants i"] Cons.prems
    obtain s' where s': "answer_alone 5 (ks i) rq (instants i) Unsent s = (Answered (expected_status b), s')" "traffic_ready ids (length js) s'"
      by auto
    show ?case using Cons.IH [OF s'(2), of a'] Cons.prems(2) by (simp add: q s'(1) split_beta)
  qed simp
  from this [of "[0..<n]"] assms show "\<forall>r \<in> set (fst (generateTraffic n seed ids ks instants s)). traffic_status r = expected_status (bucket r)"
    "length (fst (generateTraffic n seed ids ks instants s)) = n"
    by (auto simp: generateTraffic_def)
qed

section \<open>The seed\<close>

definition GUEST_CHECKOUT_FRACTION :: rat where "GUEST_CHECKOUT_FRACTION = 5 / 100"

definition STATUS_WEIGHTS :: "(string \<times> rat) list" where
  "STATUS_WEIGHTS = [(''completed'', 9 / 10), (''refunded'', 5 / 100), (''pending'', 5 / 100)]"

definition pickStatus :: "'s faker \<Rightarrow> 's \<Rightarrow> string \<times> 's" where
  "pickStatus f s = (let (roll, s) = unit_float f s in (pick_from (fst (last STATUS_WEIGHTS)) roll 0 STATUS_WEIGHTS, s))"

text \<open>The row the table gives the next id after the truncation; \<open>new_uuid\<close> is the default of its public id.\<close>

definition seed_order :: "'s faker \<Rightarrow> (nat \<Rightarrow> string) \<Rightarrow> nat \<Rightarrow> 's \<Rightarrow> OrderRow \<times> 's" where
  "seed_order f new_uuid i s =
     (let (x, s) = unit_float f s;
          (email, s) = (if x < GUEST_CHECKOUT_FRACTION then (None, s)
                        else (let (e, s) = internetEmail f None s in (Some (map to_lower e), s)));
          (amount, s) = int_between f 500 50000 s;
          (status, s) = pickStatus f s in
      (\<lparr>row_id = i + 1, row_publicId = new_uuid i, row_email = email, row_amount = amount, row_status = status\<rparr>, s))"

definition seedOrders :: "'s faker \<Rightarrow> (nat \<Rightarrow> string) \<Rightarrow> nat \<Rightarrow> int \<Rightarrow> service" where
  "seedOrders f new_uuid totalRows seedValue =
     startLabServer (fst (draw_each (seed_order f new_uuid) [0..<totalRows] (seeded f seedValue))) (totalRows + 1)"

text \<open>The traffic can be built from any seed that has made both kinds of orders.\<close>

lemma seed_ready:
  assumes "\<And>s. CHR ''@'' \<in> set (fst (internetEmail f None s))" and "totalRows + n < 9000000"
    and "validIds (loadIdPools (seedOrders f new_uuid totalRows sd)) \<noteq> []" "guestIds (loadIdPools (seedOrders f new_uuid totalRows sd)) \<noteq> []"
  shows "traffic_ready (loadIdPools (seedOrders f new_uuid totalRows sd)) n (seedOrders f new_uuid totalRows sd)"
proof -
  let ?S = "seedOrders f new_uuid totalRows sd"
  have "list_all2 (\<lambda>i r. row_id r = i + 1 \<and> (\<forall>e. row_email r = Some e \<longrightarrow> CHR ''@'' \<in> set e)) [0..<totalRows] (orders ?S)"
    unfolding seedOrders_def startLabServer_def service.simps
  proof (rule draw_each_all [OF prod.collapse [symmetric]])
    fix i s r s'
    assume o: "seed_order f new_uuid i s = (r, s')"
    obtain x s1 where x: "unit_float f s = (x, s1)" by fastforce
    obtain email s2 where e: "(if x < GUEST_CHECKOUT_FRACTION then (None, s1) else (let (e, s) = internetEmail f None s1 in (Some (map to_lower e), s))) = (email, s2)"
      by (metis prod.exhaust)
    have "row_id r = i + 1" "row_email r = email"
      using o by (auto simp: seed_order_def Let_def x e split: prod.splits)
    moreover have "CHR ''@'' \<in> set a" if "email = Some a" for a
    proof -
      have a: "a = map to_lower (fst (internetEmail f None s1))" using e that by (auto simp: split_beta Let_def split: if_splits)
      have "CHR ''@'' = to_lower CHR ''@''" by (simp add: to_lower_def)
      then show ?thesis using assms(1) [of s1] unfolding a by (metis image_eqI list.set_map)
    qed
    ultimately show "row_id r = i + 1 \<and> (\<forall>e. row_email r = Some e \<longrightarrow> CHR ''@'' \<in> set e)" by simp
  qed
  then have ids: "map row_id (orders ?S) = map Suc [0..<totalRows]" and mails: "\<forall>r \<in> set (orders ?S). \<forall>e. row_email r = Some e \<longrightarrow> CHR ''@'' \<in> set e"
    by (auto simp: list_all2_conv_all_nth in_set_conv_nth intro: nth_equalityI)
  have "row_id ` set (orders ?S) = Suc ` {0..<totalRows}" using ids by (metis list.set_map set_upt)
  then have "\<forall>r \<in> set (orders ?S). row_id r < orders_id_seq ?S" by (auto simp: seedOrders_def startLabServer_def)
  moreover have "distinct (map row_id (orders ?S))" unfolding ids by (simp add: distinct_map)
  moreover have "orders_id_seq ?S + n \<le> 9000000" using assms(2) by (simp add: seedOrders_def startLabServer_def)
  ultimately show ?thesis using assms(3,4) mails by (auto simp: traffic_ready_def loadIdPools_def)
qed

end
