(* ===== verification/On_Call.thy ===== *)
theory On_Call
  imports Sql_Table Generators "HOL-Library.Multiset"
begin

text \<open>
  The on-call rota of Lab 09, \<open>labs/09-*/src\<close>: staff who go off call if somebody else is on call, under SERIALIZABLE
  with a bounded retry loop and under REPEATABLE READ without one. A transaction reads the committed table when it
  counts and writes when it commits; whether PostgreSQL lets a serializable transaction go on or reports 40001 is a
  boolean of the event. What it promises of the committed ones is the hypothesis \<open>serial_from\<close>: there is an order in which
  each, run alone, would have read what it read.
\<close>

section \<open>The table\<close>

record staff_row =
  staff_id :: nat
  team :: string
  staff_name :: string
  is_on_call :: bool

type_synonym rota = "staff_row list"

definition countOthersOnCall :: "rota \<Rightarrow> string \<Rightarrow> nat \<Rightarrow> nat" where
  "countOthersOnCall db t k = row_count (\<lambda>r. team r = t \<and> is_on_call r \<and> staff_id r \<noteq> k) db"

definition countOnCall :: "rota \<Rightarrow> string \<Rightarrow> nat" where
  "countOnCall db t = row_count (\<lambda>r. team r = t \<and> is_on_call r) db"

definition setOffCall :: "nat \<Rightarrow> rota \<Rightarrow> rota" where
  "setOffCall k db = update_where (\<lambda>r. staff_id r = k) (\<lambda>r. r\<lparr>is_on_call := False\<rparr>) db"

text \<open>The update has been committed when the number of rows turns out to be wrong.\<close>

definition resetTeamOnCall :: "string \<Rightarrow> string list \<Rightarrow> rota \<Rightarrow> (string + (string \<times> nat) list) \<times> rota" where
  "resetTeamOnCall t names db =
     (let hit = (\<lambda>r. team r = t \<and> staff_name r \<in> set names);
          rows = filter hit db;
          db' = update_where hit (\<lambda>r. r\<lparr>is_on_call := True\<rparr>) db in
      if length rows \<noteq> length names
      then (Inl (''expected to reset '' @ nat_str (length names) @ '' staff on team '' @ CHR 0x22 # t @ CHR 0x22 # '' but only found ''
              @ nat_str (length rows) @ '' - run `pnpm seed` first''), db')
      else (Inr (map (\<lambda>r. (staff_name r, staff_id r)) rows), db'))"

section \<open>One attempt and the retry loop\<close>

datatype AttemptOutcome = committed | rejected | conflict

record AttemptResult =
  att_outcome :: AttemptOutcome
  att_others :: int
  sqlstate :: "string option"

record RetryOutcome =
  ro_staffName :: string
  ro_staffId :: nat
  finalOutcome :: AttemptOutcome
  attempts :: nat
  conflictsEncountered :: nat

definition randomizedBackoffMs :: "rat \<Rightarrow> nat \<Rightarrow> rat" where
  "randomizedBackoffMs random attempt = random * min 300 (25 * 2 ^ attempt)"

definition serialization_failure :: AttemptResult where
  "serialization_failure = \<lparr>att_outcome = conflict, att_others = - 1, sqlstate = Some ''40001''\<rparr>"

text \<open>Where a caller of \<open>retryGoOffCall\<close> is: before its next attempt, in a transaction that has counted, or returned.\<close>

datatype retry_pc = Ready nat nat | In_transaction nat nat nat | Over "string + RetryOutcome"

definition next_attempt :: "nat \<Rightarrow> string \<Rightarrow> nat \<Rightarrow> nat \<Rightarrow> retry_pc" where
  "next_attempt maxAttempts who attempt conflicts =
     (if attempt \<le> maxAttempts then Ready attempt conflicts
      else Over (Inl (who @ '': exhausted '' @ nat_str maxAttempts @ '' attempts without a terminal outcome'')))"

definition after_attempt :: "nat \<Rightarrow> string \<times> nat \<Rightarrow> nat \<Rightarrow> nat \<Rightarrow> AttemptResult \<Rightarrow> retry_pc" where
  "after_attempt maxAttempts who attempt conflicts res =
     (if att_outcome res = committed \<or> att_outcome res = rejected
      then Over (Inr \<lparr>ro_staffName = fst who, ro_staffId = snd who, finalOutcome = att_outcome res, attempts = attempt,
             conflictsEncountered = conflicts\<rparr>)
      else next_attempt maxAttempts (fst who) (attempt + 1) (conflicts + 1))"

record rota_world =
  callers :: "retry_pc list"
  staff :: rota
  history :: "(nat \<times> nat) list"

text \<open>
  \<open>attemptGoOffCall\<close>, in two steps around the delay: begin and count; decide, write and commit. The history is that of
  the committed transactions, each with what it read.\<close>

definition attempt_step :: "nat \<Rightarrow> string \<Rightarrow> string \<times> nat \<Rightarrow> bool \<Rightarrow> retry_pc \<Rightarrow> rota_world \<Rightarrow> retry_pc \<times> rota_world" where
  "attempt_step maxAttempts t who ok pc w =
     (case pc of
        Ready a c \<Rightarrow>
          if ok then (In_transaction a c (countOthersOnCall (staff w) t (snd who)), w)
          else (after_attempt maxAttempts who a c serialization_failure, w)
      | In_transaction a c n \<Rightarrow>
          if n < 1 then (after_attempt maxAttempts who a c \<lparr>att_outcome = rejected, att_others = int n, sqlstate = None\<rparr>, w)
          else if ok
          then (after_attempt maxAttempts who a c \<lparr>att_outcome = committed, att_others = int n, sqlstate = None\<rparr>,
                w\<lparr>staff := setOffCall (snd who) (staff w), history := history w @ [(snd who, n)]\<rparr>)
          else (after_attempt maxAttempts who a c serialization_failure, w)
      | Over r \<Rightarrow> (Over r, w))"

definition rota_step :: "nat \<Rightarrow> string \<Rightarrow> (string \<times> nat) list \<Rightarrow> nat \<times> bool \<Rightarrow> rota_world \<Rightarrow> rota_world" where
  "rota_step maxAttempts t members ev w =
     (case ev of (i, ok) \<Rightarrow>
        if i < length (callers w)
        then (let (pc, w') = attempt_step maxAttempts t (members ! i) ok (callers w ! i) w in w'\<lparr>callers := (callers w)[i := pc]\<rparr>)
        else w)"

definition rota_start :: "nat \<Rightarrow> (string \<times> nat) list \<Rightarrow> rota \<Rightarrow> rota_world" where
  "rota_start maxAttempts members db =
     \<lparr>callers = map (\<lambda>m. next_attempt maxAttempts (fst m) 1 0) members, staff = db, history = []\<rparr>"

definition rota_run :: "nat \<Rightarrow> string \<Rightarrow> (string \<times> nat) list \<Rightarrow> (nat \<times> bool) list \<Rightarrow> rota \<Rightarrow> rota_world" where
  "rota_run maxAttempts t members evs db = fold (rota_step maxAttempts t members) evs (rota_start maxAttempts members db)"

text \<open>Run in this order, one at a time, every transaction reads what it read.\<close>

fun serial_from :: "string \<Rightarrow> rota \<Rightarrow> (nat \<times> nat) list \<Rightarrow> bool" where
  "serial_from t db [] \<longleftrightarrow> True"
| "serial_from t db ((k, n) # h) \<longleftrightarrow> countOthersOnCall db t k = n \<and> serial_from t (setOffCall k db) h"

text \<open>The whole loop of one caller, given what its attempts and its random numbers will be; it also sleeps after the last one.\<close>

function retry_attempts :: "nat \<Rightarrow> string \<times> nat \<Rightarrow> (nat \<Rightarrow> AttemptResult) \<Rightarrow> (nat \<Rightarrow> rat) \<Rightarrow> nat \<Rightarrow> nat \<Rightarrow> (string + RetryOutcome) \<times> rat list" where
  "retry_attempts maxAttempts who result random attempt conflicts =
     (case next_attempt maxAttempts (fst who) attempt conflicts of
        Over r \<Rightarrow> (r, [])
      | _ \<Rightarrow>
          (case after_attempt maxAttempts who attempt conflicts (result attempt) of
             Over (Inr r) \<Rightarrow> (Inr r, [])
           | _ \<Rightarrow>
               (let (r, slept) = retry_attempts maxAttempts who result random (attempt + 1) (conflicts + 1) in
                (r, randomizedBackoffMs (random attempt) attempt # slept))))"
  by pat_completeness auto
termination
  by (relation "measure (\<lambda>(m, _, _, _, a, _). m + 1 - a)") (auto simp: next_attempt_def split: if_splits)

declare retry_attempts.simps [simp del]

definition retryGoOffCall :: "nat option \<Rightarrow> string \<times> nat \<Rightarrow> (nat \<Rightarrow> AttemptResult) \<Rightarrow> (nat \<Rightarrow> rat) \<Rightarrow> (string + RetryOutcome) \<times> rat list" where
  "retryGoOffCall maxAttempts who result random =
     retry_attempts (case maxAttempts of None \<Rightarrow> 5 | Some m \<Rightarrow> m) who result random 1 0"

section \<open>What a run keeps\<close>

definition off_all :: "nat set \<Rightarrow> rota \<Rightarrow> rota" where
  "off_all K db = update_where (\<lambda>r. staff_id r \<in> K) (\<lambda>r. r\<lparr>is_on_call := False\<rparr>) db"

definition member_ok :: "nat \<Rightarrow> string \<Rightarrow> nat set \<Rightarrow> rota \<Rightarrow> string \<times> nat \<Rightarrow> retry_pc \<Rightarrow> bool" where
  "member_ok maxAttempts t gone db m pc \<longleftrightarrow>
     (case pc of
        Ready a c \<Rightarrow> 1 \<le> a \<and> a \<le> maxAttempts \<and> c + 1 = a \<and> snd m \<notin> gone
      | In_transaction a c n \<Rightarrow> 1 \<le> a \<and> a \<le> maxAttempts \<and> c + 1 = a \<and> snd m \<notin> gone \<and> (n = 0 \<longrightarrow> countOthersOnCall db t (snd m) = 0)
      | Over (Inl e) \<Rightarrow> snd m \<notin> gone
      | Over (Inr r) \<Rightarrow> attempts r \<le> maxAttempts \<and> attempts r = conflictsEncountered r + 1 \<and> ro_staffName r = fst m \<and> ro_staffId r = snd m
          \<and> (if snd m \<in> gone then finalOutcome r = committed
             else finalOutcome r = rejected \<and> countOthersOnCall db t (snd m) = 0))"

definition rota_inv :: "nat \<Rightarrow> string \<Rightarrow> (string \<times> nat) list \<Rightarrow> rota \<Rightarrow> rota_world \<Rightarrow> bool" where
  "rota_inv maxAttempts t members db w \<longleftrightarrow> length (callers w) = length members
     \<and> staff w = off_all (fst ` set (history w)) db \<and> (\<forall>(k, n) \<in> set (history w). 1 \<le> n)
     \<and> (\<forall>i < length members. member_ok maxAttempts t (fst ` set (history w)) (staff w) (members ! i) (callers w ! i))"

lemma off_all_set: "setOffCall k (off_all K db) = off_all (insert k K) db"
  by (simp add: off_all_def setOffCall_def update_where_def)

lemma off_all_empty [simp]: "off_all {} db = db"
  by (simp add: off_all_def update_where_def)

lemma fold_off: "fold setOffCall ks db = off_all (set ks) db"
proof -
  have "fold setOffCall ks (off_all K db) = off_all (K \<union> set ks) db" for K
    by (induction ks arbitrary: K) (simp_all add: off_all_set)
  from this [of "{}"] show ?thesis by simp
qed

lemma off_others: "countOnCall (setOffCall k db) t = countOthersOnCall db t k"
  by (induction db) (auto simp: countOnCall_def countOthersOnCall_def setOffCall_def update_where_def row_count_def)

lemma others_off: "countOthersOnCall db t k = 0 \<Longrightarrow> countOthersOnCall (setOffCall j db) t k = 0"
  by (auto simp: countOthersOnCall_def setOffCall_def row_count_zero ball_update_where)

text \<open>Transactions that each found somebody else leave somebody, whatever the number of them.\<close>

lemma serial_keeps:
  "serial_from t db h \<Longrightarrow> \<forall>(k, n) \<in> set h. 1 \<le> n \<Longrightarrow> 1 \<le> countOnCall db t \<Longrightarrow> 1 \<le> countOnCall (fold setOffCall (map fst h) db) t"
  by (induction h arbitrary: db) (auto simp: off_others)

lemma attempt_step_ok:
  assumes "member_ok M t gone (staff w) m pc" and "attempt_step M t m ok pc w = (pc', w')" and "gone = fst ` set (history w)"
  shows "callers w' = callers w"
    and "(staff w' = staff w \<and> history w' = history w \<and> member_ok M t gone (staff w) m pc')
      \<or> (\<exists>n. 1 \<le> n \<and> staff w' = setOffCall (snd m) (staff w) \<and> history w' = history w @ [(snd m, n)]
          \<and> member_ok M t (insert (snd m) gone) (staff w') m pc')"
proof -
  show "callers w' = callers w" using assms(2) by (auto simp: attempt_step_def split: retry_pc.splits if_splits)
  show "(staff w' = staff w \<and> history w' = history w \<and> member_ok M t gone (staff w) m pc')
      \<or> (\<exists>n. 1 \<le> n \<and> staff w' = setOffCall (snd m) (staff w) \<and> history w' = history w @ [(snd m, n)]
          \<and> member_ok M t (insert (snd m) gone) (staff w') m pc')"
  proof (cases pc)
    case (Ready a c)
    then show ?thesis using assms
      by (auto simp: attempt_step_def member_ok_def after_attempt_def next_attempt_def serialization_failure_def split: if_splits)
  next
    case (In_transaction a c n)
    then show ?thesis using assms
      by (auto simp: attempt_step_def member_ok_def after_attempt_def next_attempt_def serialization_failure_def split: if_splits)
  next
    case (Over r)
    then show ?thesis using assms by (simp add: attempt_step_def)
  qed
qed

lemma member_ok_other:
  assumes "member_ok M t gone db m pc" and "k \<noteq> snd m"
  shows "member_ok M t (insert k gone) (setOffCall k db) m pc"
  using assms others_off by (auto simp: member_ok_def split: retry_pc.splits sum.splits)

lemma rota_inv_step:
  assumes d: "distinct (map snd members)" and I: "rota_inv M t members db w"
  shows "rota_inv M t members db (rota_step M t members ev w)"
proof -
  obtain i ok where ev: "ev = (i, ok)" by fastforce
  have len: "length (callers w) = length members" and st: "staff w = off_all (fst ` set (history w)) db"
    and h: "\<forall>(k, n) \<in> set (history w). 1 \<le> n"
    and m: "\<And>j. j < length members \<Longrightarrow> member_ok M t (fst ` set (history w)) (staff w) (members ! j) (callers w ! j)"
    using I unfolding rota_inv_def by blast+
  show ?thesis
  proof (cases "i < length (callers w)")
    case True
    obtain pc w' where a: "attempt_step M t (members ! i) ok (callers w ! i) w = (pc, w')" by fastforce
    have r: "rota_step M t members ev w = w'\<lparr>callers := (callers w)[i := pc]\<rparr>" using True by (simp add: rota_step_def ev a)
    from attempt_step_ok(2) [OF m a refl] True len consider
      (same) "staff w' = staff w" "history w' = history w" "member_ok M t (fst ` set (history w)) (staff w) (members ! i) pc"
      | (off) n where "1 \<le> n" "staff w' = setOffCall (snd (members ! i)) (staff w)" "history w' = history w @ [(snd (members ! i), n)]"
          "member_ok M t (insert (snd (members ! i)) (fst ` set (history w))) (staff w') (members ! i) pc"
      by metis
    then show ?thesis
    proof cases
      case same
      then show ?thesis using len st h m True unfolding r rota_inv_def by (auto simp: nth_list_update)
    next
      case off
      have "member_ok M t (insert (snd (members ! i)) (fst ` set (history w))) (staff w') (members ! j) ((callers w)[i := pc] ! j)"
        if j: "j < length members" for j
      proof (cases "j = i")
        case True
        then show ?thesis using off(4) j len by simp
      next
        case False
        then have "snd (members ! i) \<noteq> snd (members ! j)" using d j True len by (auto simp: distinct_conv_nth)
        from member_ok_other [OF m [OF j] this] show ?thesis using False by (simp add: off(2))
      qed
      then show ?thesis using len st h off(1,2,3) unfolding r rota_inv_def by (simp add: off_all_set split_beta)
    qed
  next
    case False
    then show ?thesis using I by (simp add: rota_step_def ev)
  qed
qed

lemma rota_inv_run:
  assumes "distinct (map snd members)"
  shows "rota_inv M t members db (rota_run M t members evs db)"
proof -
  have "rota_inv M t members db (rota_start M members db)"
    by (auto simp: rota_inv_def rota_start_def member_ok_def next_attempt_def)
  moreover have "rota_inv M t members db w \<Longrightarrow> rota_inv M t members db (fold (rota_step M t members) evs w)" for w
    by (induction evs arbitrary: w) (simp_all add: rota_inv_step [OF assms])
  ultimately show ?thesis by (simp add: rota_run_def)
qed

text \<open>When everybody has been answered, the one who is still on call was refused and is alone.\<close>

lemma count_all_but_one:
  assumes "j < length xs" and "\<And>i. i < length xs \<Longrightarrow> P (xs ! i) \<longleftrightarrow> i \<noteq> j"
  shows "length (filter P xs) = length xs - 1"
proof -
  have "{i. i < length xs \<and> P (xs ! i)} = {..<length xs} - {j}" using assms(2) by auto
  then show ?thesis using assms(1) by (simp add: length_filter_conv_card)
qed

lemma last_one_stays:
  assumes I: "rota_inv M t members db w" and "distinct (map staff_id db)" and "distinct (map snd members)"
    and one: "1 \<le> countOnCall (staff w) t"
    and team: "\<forall>r \<in> set db. team r = t \<longrightarrow> is_on_call r \<and> staff_id r \<in> snd ` set members"
    and all: "\<forall>pc \<in> set (callers w). \<exists>r. pc = Over (Inr r)"
  shows "countOnCall (staff w) t = 1
    \<and> length (filter (\<lambda>pc. \<exists>r. pc = Over (Inr r) \<and> finalOutcome r = committed) (callers w)) = length members - 1"
proof -
  let ?gone = "fst ` set (history w)"
  have len: "length (callers w) = length members" and st: "staff w = off_all ?gone db"
    and m: "\<And>j. j < length members \<Longrightarrow> member_ok M t ?gone (staff w) (members ! j) (callers w ! j)"
    using I unfolding rota_inv_def by blast+
  have rows: "\<exists>r \<in> set db. staff_id r = staff_id x \<and> team r = team x" "is_on_call x \<Longrightarrow> staff_id x \<notin> ?gone" if "x \<in> set (staff w)" for x
    using that unfolding st off_all_def set_update_where by auto
  have "row_count (\<lambda>r. team r = t \<and> is_on_call r) (staff w) \<noteq> 0" using one by (simp add: countOnCall_def)
  then obtain x where x: "x \<in> set (staff w)" "team x = t" "is_on_call x" unfolding row_count_zero by blast
  from rows [OF x(1)] team x have "staff_id x \<in> snd ` set members" "staff_id x \<notin> ?gone" by force+
  then obtain j where j: "j < length members" "snd (members ! j) = staff_id x" by (auto simp: in_set_conv_nth)
  have over: "\<exists>r. callers w ! i = Over (Inr r)" if "i < length members" for i using all that len by simp
  from over [OF j(1)] m [OF j(1)] j(2) \<open>staff_id x \<notin> ?gone\<close> have alone: "countOthersOnCall (staff w) t (staff_id x) = 0"
    and refused: "\<not> (\<exists>r. callers w ! j = Over (Inr r) \<and> finalOutcome r = committed)"
    by (auto simp: member_ok_def)
  have "(\<exists>r. callers w ! i = Over (Inr r) \<and> finalOutcome r = committed) \<longleftrightarrow> i \<noteq> j" if i: "i < length (callers w)" for i
  proof (cases "i = j")
    case False
    obtain r where r: "callers w ! i = Over (Inr r)" using over i len by auto
    have "i < length members" using i len by simp
    from m [OF this] r have e: "snd (members ! i) \<in> ?gone \<and> finalOutcome r = committed
        \<or> snd (members ! i) \<notin> ?gone \<and> countOthersOnCall (staff w) t (snd (members ! i)) = 0"
      by (auto simp: member_ok_def split: if_splits)
    have "snd (members ! i) \<noteq> staff_id x" using nth_eq_iff_index_eq [OF assms(3), of i j] False i len j by simp
    then have "countOthersOnCall (staff w) t (snd (members ! i)) \<noteq> 0" using x by (auto simp: countOthersOnCall_def row_count_zero)
    then show ?thesis using e r False by auto
  qed (use refused in auto)
  then have c: "length (filter (\<lambda>pc. \<exists>r. pc = Over (Inr r) \<and> finalOutcome r = committed) (callers w)) = length members - 1"
    using count_all_but_one [of j "callers w" "\<lambda>pc. \<exists>r. pc = Over (Inr r) \<and> finalOutcome r = committed"] j(1) len by simp
  have "countOnCall (staff w) t \<le> row_count (\<lambda>r. staff_id r = staff_id x) (staff w)"
  proof -
    have "filter (\<lambda>r. team r = t \<and> is_on_call r) (staff w) = filter (\<lambda>r. staff_id r = staff_id x \<and> team r = t \<and> is_on_call r) (staff w)"
      by (rule filter_cong [OF refl]) (use alone in \<open>auto simp: countOthersOnCall_def row_count_zero\<close>)
    then have "countOnCall (staff w) t = length (filter (\<lambda>r. team r = t \<and> is_on_call r) (filter (\<lambda>r. staff_id r = staff_id x) (staff w)))"
      by (simp add: countOnCall_def row_count_def)
    then show ?thesis by (simp add: row_count_def del: filter_filter)
  qed
  also have "\<dots> \<le> 1"
  proof (rule row_count_key_le_1)
    have "map staff_id (staff w) = map staff_id db" unfolding st off_all_def by (rule map_update_where) simp
    then show "distinct (map staff_id (staff w))" using assms(2) by simp
  qed
  finally show ?thesis using one c by simp
qed

text \<open>
  C37: the rota is never empty. However any number of callers of the retry loop interleave and wherever PostgreSQL
  reports a serialization failure, if the committed transactions are serializable then somebody stays on call;
  exactly those are off call who were told so; nobody makes more attempts than allowed; and when a team that starts on call
  has had all its answers, all but one went off call and that one was refused.\<close>

theorem rota_never_empty:
  assumes "distinct (map staff_id db)" and "distinct (map snd members)" and "1 \<le> countOnCall db t"
    and run: "w = rota_run maxAttempts t members evs db"
    and "mset order = mset (history w)" and "serial_from t db order"
  shows "1 \<le> countOnCall (staff w) t
    \<and> (\<forall>i < length members. \<forall>r. callers w ! i = Over (Inr r) \<longrightarrow>
         (finalOutcome r = committed \<longleftrightarrow> snd (members ! i) \<in> fst ` set (history w))
         \<and> attempts r \<le> maxAttempts \<and> attempts r = conflictsEncountered r + 1)
    \<and> ((\<forall>r \<in> set db. team r = t \<longrightarrow> is_on_call r \<and> staff_id r \<in> snd ` set members) \<and> (\<forall>pc \<in> set (callers w). \<exists>r. pc = Over (Inr r)) \<longrightarrow>
         countOnCall (staff w) t = 1
         \<and> length (filter (\<lambda>pc. \<exists>r. pc = Over (Inr r) \<and> finalOutcome r = committed) (callers w)) = length members - 1)"
proof -
  have I: "rota_inv maxAttempts t members db w" unfolding run by (rule rota_inv_run [OF assms(2)])
  then have len: "length (callers w) = length members" and st: "staff w = off_all (fst ` set (history w)) db"
    and h: "\<forall>(k, n) \<in> set (history w). 1 \<le> n"
    and m: "\<And>j. j < length members \<Longrightarrow> member_ok maxAttempts t (fst ` set (history w)) (staff w) (members ! j) (callers w ! j)"
    unfolding rota_inv_def by blast+
  have o: "set order = set (history w)" using arg_cong [OF assms(5), of set_mset] by simp
  then have "fold setOffCall (map fst order) db = staff w" by (simp add: fold_off st)
  then have one: "1 \<le> countOnCall (staff w) t" using serial_keeps [OF assms(6) _ assms(3)] h o by simp
  have answered: "(finalOutcome r = committed \<longleftrightarrow> snd (members ! i) \<in> fst ` set (history w))
      \<and> attempts r \<le> maxAttempts \<and> attempts r = conflictsEncountered r + 1"
    if "i < length members" "callers w ! i = Over (Inr r)" for i r
    using m [OF that(1)] that(2) by (auto simp: member_ok_def split: if_splits)
  have "countOnCall (staff w) t = 1
      \<and> length (filter (\<lambda>pc. \<exists>r. pc = Over (Inr r) \<and> finalOutcome r = committed) (callers w)) = length members - 1"
    if team: "\<forall>r \<in> set db. team r = t \<longrightarrow> is_on_call r \<and> staff_id r \<in> snd ` set members"
      and all: "\<forall>pc \<in> set (callers w). \<exists>r. pc = Over (Inr r)"
    by (rule last_one_stays [OF I assms(1,2) one team all])
  then show ?thesis using one answered by blast
qed

text \<open>Two doctors count one another; the second to commit is told 40001, and refused when it tries again.\<close>

definition example_rota :: rota where
  "example_rota =
     [\<lparr>staff_id = 1, team = ''ER'', staff_name = ''Alice'', is_on_call = True\<rparr>,
      \<lparr>staff_id = 2, team = ''ER'', staff_name = ''Bob'', is_on_call = True\<rparr>]"

lemma rota_never_empty_witness:
  "\<exists>w. rota_run 5 ''ER'' [(''Alice'', 1), (''Bob'', 2)] [(0, True), (1, True), (0, True), (1, False), (1, True), (1, True)] example_rota = w
    \<and> history w = [(1, 1)] \<and> countOnCall (staff w) ''ER'' = 1"
proof -
  let ?ms = "[(''Alice'', 1), (''Bob'', 2)] :: (string \<times> nat) list" and ?evs = "[(0, True), (1, True), (0, True), (1, False), (1, True), (1, True)]"
  let ?w = "rota_run 5 ''ER'' ?ms ?evs example_rota"
  have w: "history ?w = [(1, 1)]" "\<forall>pc \<in> set (callers ?w). \<exists>r. pc = Over (Inr r)"
    by (simp_all add: rota_run_def rota_start_def rota_step_def attempt_step_def after_attempt_def next_attempt_def serialization_failure_def
        example_rota_def countOthersOnCall_def setOffCall_def row_count_def update_where_def)
  have "distinct (map staff_id example_rota)" "distinct (map snd ?ms)" "1 \<le> countOnCall example_rota ''ER''"
    "serial_from ''ER'' example_rota [(1, 1)]"
    by (simp_all add: example_rota_def countOnCall_def countOthersOnCall_def row_count_def)
  moreover have "\<forall>r \<in> set example_rota. team r = ''ER'' \<longrightarrow> is_on_call r \<and> staff_id r \<in> snd ` set ?ms" by (simp add: example_rota_def)
  ultimately have "countOnCall (staff ?w) ''ER'' = 1"
    using rota_never_empty [of example_rota ?ms "''ER''" ?w 5 ?evs "[(1, 1)]"] w by simp
  then show ?thesis using w(1) by blast
qed

text \<open>
  The loop alone: a result is what some attempt returned, after a conflict on every one before, each followed by a
  sleep within the cap of its attempt; when there is none, every allowed attempt met a conflict.\<close>

definition retried :: "nat \<Rightarrow> (nat \<Rightarrow> AttemptResult) \<Rightarrow> nat \<Rightarrow> nat \<Rightarrow> string + RetryOutcome \<Rightarrow> nat \<Rightarrow> bool" where
  "retried M result a c r n \<longleftrightarrow>
     (case r of
        Inr x \<Rightarrow> attempts x = a + n \<and> attempts x \<le> M \<and> finalOutcome x = att_outcome (result (a + n)) \<and> finalOutcome x \<noteq> conflict
          \<and> conflictsEncountered x = c + n
      | Inl e \<Rightarrow> n = M + 1 - a)
     \<and> (\<forall>i < n. att_outcome (result (a + i)) = conflict)"

lemma retried_Suc:
  assumes "att_outcome (result a) = conflict" and "a \<le> M" and "retried M result (a + 1) (c + 1) r n"
  shows "retried M result a c r (Suc n)"
proof -
  have "att_outcome (result (a + i)) = conflict" if "i < Suc n" for i
    using that assms(1,3) by (cases i) (auto simp: retried_def)
  then show ?thesis using assms(2,3) by (auto simp: retried_def split: sum.splits)
qed

lemma backoff_range:
  assumes "0 \<le> u" and "u < 1"
  shows "0 \<le> randomizedBackoffMs u a \<and> randomizedBackoffMs u a < min 300 (25 * 2 ^ a)"
proof -
  define cap :: rat where "cap = min 300 (25 * 2 ^ a)"
  have "0 < cap" by (simp add: cap_def)
  then have "0 \<le> u * cap \<and> u * cap < 1 * cap" using assms by (intro conjI mult_nonneg_nonneg mult_strict_right_mono) auto
  then show ?thesis by (simp add: randomizedBackoffMs_def cap_def)
qed

lemma retry_attempts_result:
  assumes "retry_attempts M who result random a c = (r, slept)" and "\<And>k. 0 \<le> random k \<and> random k < 1"
  shows "retried M result a c r (length slept) \<and> (\<forall>i < length slept. 0 \<le> slept ! i \<and> slept ! i < min 300 (25 * 2 ^ (a + i)))"
  using assms(1)
proof (induction "M + 1 - a" arbitrary: a c r slept rule: less_induct)
  case less
  note def = less.prems [unfolded retry_attempts.simps [of M who result random a c]]
  show ?case
  proof (cases "a \<le> M")
    case False
    then show ?thesis using def by (auto simp: next_attempt_def retried_def)
  next
    case a: True
    show ?thesis
    proof (cases "att_outcome (result a) = conflict")
      case False
      then have "att_outcome (result a) = committed \<or> att_outcome (result a) = rejected" by (cases "att_outcome (result a)") auto
      then show ?thesis using def a by (auto simp: next_attempt_def after_attempt_def retried_def)
    next
      case conf: True
      obtain r' slept' where r': "retry_attempts M who result random (a + 1) (c + 1) = (r', slept')" by fastforce
      have more: "\<nexists>x. after_attempt M who a c (result a) = Over (Inr x)" using conf by (simp add: after_attempt_def next_attempt_def)
      have e: "r = r'" "slept = randomizedBackoffMs (random a) a # slept'"
        using def a more r' by (auto simp: next_attempt_def split: retry_pc.splits sum.splits)
      have IH: "retried M result (a + 1) (c + 1) r' (length slept')"
        "\<forall>i < length slept'. 0 \<le> slept' ! i \<and> slept' ! i < min 300 (25 * 2 ^ (a + 1 + i))"
        using less.hyps [OF _ r'] a by auto
      have "0 \<le> slept ! i \<and> slept ! i < min 300 (25 * 2 ^ (a + i))" if "i < length slept" for i
        using that IH(2) backoff_range [of "random a" a] assms(2) [of a] unfolding e(2) by (cases i) auto
      then show ?thesis using retried_Suc [OF conf a IH(1)] by (simp add: e)
    qed
  qed
qed

section \<open>The scenarios\<close>

definition WRITE_SKEW_TEAM :: string where "WRITE_SKEW_TEAM = ''ER Night Shift - Write Skew''"

definition WRITE_SKEW_STAFF :: "(string \<times> string) list" where
  "WRITE_SKEW_STAFF = [(WRITE_SKEW_TEAM, ''Dr. Alice Chen''), (WRITE_SKEW_TEAM, ''Dr. Bob Nkemelu'')]"

definition CONTENTION_TEAM :: string where "CONTENTION_TEAM = ''ER Night Shift - Contention''"

definition CONTENTION_STAFF :: "(string \<times> string) list" where
  "CONTENTION_STAFF =
     [(CONTENTION_TEAM, ''Dr. Carla Reyes''), (CONTENTION_TEAM, ''Dr. Dmitri Volkov''), (CONTENTION_TEAM, ''Dr. Emeka Obi''),
      (CONTENTION_TEAM, ''Dr. Farah Haddad''), (CONTENTION_TEAM, ''Dr. Grace Lindqvist'')]"

definition SCENARIO_STAFF :: "(string \<times> string) list" where
  "SCENARIO_STAFF = WRITE_SKEW_STAFF @ CONTENTION_STAFF"

record WriteSkewResult =
  ws_aliceId :: nat
  ws_bobId :: nat
  othersOnCallSeenByAlice :: nat
  othersOnCallSeenByBob :: nat
  aliceGoes :: bool
  bobGoes :: bool
  onCallCountAfter :: nat
  invariantHeld :: bool

text \<open>Both count before either writes; a decision is whether to go off call.\<close>

definition runWriteSkewUnderRepeatableRead :: "rota \<Rightarrow> (string + WriteSkewResult) \<times> rota" where
  "runWriteSkewUnderRepeatableRead db0 =
     (case resetTeamOnCall WRITE_SKEW_TEAM (map snd WRITE_SKEW_STAFF) db0 of
        (Inl e, db) \<Rightarrow> (Inl e, db)
      | (Inr ids, db) \<Rightarrow>
          (let a = the (map_of ids ''Dr. Alice Chen''); b = the (map_of ids ''Dr. Bob Nkemelu'');
               seenA = countOthersOnCall db WRITE_SKEW_TEAM a; seenB = countOthersOnCall db WRITE_SKEW_TEAM b;
               db1 = (if 1 \<le> seenA then setOffCall a db else db);
               db2 = (if 1 \<le> seenB then setOffCall b db1 else db1);
               n = countOnCall db2 WRITE_SKEW_TEAM in
           (Inr \<lparr>ws_aliceId = a, ws_bobId = b, othersOnCallSeenByAlice = seenA, othersOnCallSeenByBob = seenB,
              aliceGoes = (1 \<le> seenA), bobGoes = (1 \<le> seenB), onCallCountAfter = n, invariantHeld = (1 \<le> n)\<rparr>, db2)))"

record SerializableConflictResult =
  sc_seenByAlice :: nat
  sc_seenByBob :: nat
  bobCommitted :: bool
  bobFailure :: "string option"
  sc_onCallCountAfter :: nat
  sc_invariantHeld :: bool

text \<open>\<open>ok\<close>: whether PostgreSQL lets Bob commit. The history is that of the committed transactions.\<close>

definition runSerializableDetectsConflict :: "bool \<Rightarrow> rota \<Rightarrow> (string + SerializableConflictResult \<times> (nat \<times> nat) list) \<times> rota" where
  "runSerializableDetectsConflict ok db0 =
     (case resetTeamOnCall WRITE_SKEW_TEAM (map snd WRITE_SKEW_STAFF) db0 of
        (Inl e, db) \<Rightarrow> (Inl e, db)
      | (Inr ids, db) \<Rightarrow>
          (let a = the (map_of ids ''Dr. Alice Chen''); b = the (map_of ids ''Dr. Bob Nkemelu'');
               seenA = countOthersOnCall db WRITE_SKEW_TEAM a; seenB = countOthersOnCall db WRITE_SKEW_TEAM b;
               db1 = setOffCall a db;
               db2 = (if ok then setOffCall b db1 else db1);
               n = countOnCall db2 WRITE_SKEW_TEAM in
           (Inr (\<lparr>sc_seenByAlice = seenA, sc_seenByBob = seenB, bobCommitted = ok, bobFailure = (if ok then None else Some ''40001''),
              sc_onCallCountAfter = n, sc_invariantHeld = (1 \<le> n)\<rparr>, (a, seenA) # (if ok then [(b, seenB)] else [])), db2)))"

text \<open>The two rows of the team, on call, between any rows of other teams.\<close>

lemma reset_two:
  assumes "distinct (map staff_id db)"
    and "filter (\<lambda>r. team r = WRITE_SKEW_TEAM) db = [r1, r2]" and "staff_name r1 = ''Dr. Alice Chen''" "staff_name r2 = ''Dr. Bob Nkemelu''"
  shows "\<exists>db'. resetTeamOnCall WRITE_SKEW_TEAM (map snd WRITE_SKEW_STAFF) db
      = (Inr [(''Dr. Alice Chen'', staff_id r1), (''Dr. Bob Nkemelu'', staff_id r2)], db')
    \<and> filter (\<lambda>r. team r = WRITE_SKEW_TEAM \<and> is_on_call r) db' = [r1\<lparr>is_on_call := True\<rparr>, r2\<lparr>is_on_call := True\<rparr>]
    \<and> staff_id r1 \<noteq> staff_id r2"
proof -
  let ?hit = "\<lambda>r. team r = WRITE_SKEW_TEAM \<and> staff_name r \<in> set (map snd WRITE_SKEW_STAFF)"
  have "filter ?hit db = filter (\<lambda>r. staff_name r \<in> set (map snd WRITE_SKEW_STAFF)) (filter (\<lambda>r. team r = WRITE_SKEW_TEAM) db)"
    by (simp add: conj_commute)
  then have f: "filter ?hit db = [r1, r2]" using assms(2-4) by (simp add: WRITE_SKEW_STAFF_def)
  have hit: "?hit r \<longleftrightarrow> team r = WRITE_SKEW_TEAM" if "r \<in> set db" for r
  proof
    assume "team r = WRITE_SKEW_TEAM"
    then have "r \<in> set (filter (\<lambda>r. team r = WRITE_SKEW_TEAM) db)" using that by simp
    then show "?hit r" unfolding f [symmetric] assms(2) using \<open>team r = WRITE_SKEW_TEAM\<close> assms(3,4) by (auto simp: WRITE_SKEW_STAFF_def)
  qed simp
  have "filter (\<lambda>r. team r = WRITE_SKEW_TEAM \<and> is_on_call r) (update_where ?hit (\<lambda>r. r\<lparr>is_on_call := True\<rparr>) xs)
      = map (\<lambda>r. r\<lparr>is_on_call := True\<rparr>) (filter (\<lambda>r. team r = WRITE_SKEW_TEAM) xs)" if "set xs \<subseteq> set db" for xs
    using that hit by (induction xs) (auto simp: update_where_def)
  from this [of db] have t: "filter (\<lambda>r. team r = WRITE_SKEW_TEAM \<and> is_on_call r) (update_where ?hit (\<lambda>r. r\<lparr>is_on_call := True\<rparr>) db)
      = [r1\<lparr>is_on_call := True\<rparr>, r2\<lparr>is_on_call := True\<rparr>]" by (simp add: assms(2))
  have "distinct (map staff_id [r1, r2])" using distinct_map_filter [OF assms(1)] assms(2) by metis
  then show ?thesis using t unfolding resetTeamOnCall_def f Let_def by (simp add: assms(3,4) WRITE_SKEW_STAFF_def)
qed

lemma count_two:
  assumes "filter (\<lambda>r. team r = t \<and> is_on_call r) db = [x, y]" and "staff_id x \<noteq> staff_id y"
  shows "countOthersOnCall db t (staff_id x) = 1" "countOthersOnCall db t (staff_id y) = 1" "countOnCall (setOffCall (staff_id x) db) t = 1"
    "countOnCall (setOffCall (staff_id y) (setOffCall (staff_id x) db)) t = 0"
proof -
  have c: "countOthersOnCall db t k = length (filter (\<lambda>r. staff_id r \<noteq> k) [x, y])" for k
    unfolding assms(1) [symmetric] by (simp add: countOthersOnCall_def row_count_def conj_ac)
  show "countOthersOnCall db t (staff_id x) = 1" "countOthersOnCall db t (staff_id y) = 1" using c assms(2) by auto
  then show "countOnCall (setOffCall (staff_id x) db) t = 1" by (simp add: off_others)
  have "filter (\<lambda>r. team r = t \<and> is_on_call r) (setOffCall k xs) = filter (\<lambda>r. staff_id r \<noteq> k) (filter (\<lambda>r. team r = t \<and> is_on_call r) xs)" for k xs
    by (induction xs) (auto simp: setOffCall_def update_where_def)
  then show "countOnCall (setOffCall (staff_id y) (setOffCall (staff_id x) db)) t = 0"
    by (simp add: countOnCall_def row_count_def assms del: filter_filter)
qed

text \<open>Write skew: under snapshots the script leaves nobody on call.\<close>

lemma write_skew:
  assumes "distinct (map staff_id db)"
    and "filter (\<lambda>r. team r = WRITE_SKEW_TEAM) db = [r1, r2]" and "staff_name r1 = ''Dr. Alice Chen''" "staff_name r2 = ''Dr. Bob Nkemelu''"
  shows "\<exists>res db'. runWriteSkewUnderRepeatableRead db = (Inr res, db') \<and> onCallCountAfter res = 0 \<and> \<not> invariantHeld res \<and> aliceGoes res \<and> bobGoes res"
proof -
  obtain db' where r: "resetTeamOnCall WRITE_SKEW_TEAM (map snd WRITE_SKEW_STAFF) db
      = (Inr [(''Dr. Alice Chen'', staff_id r1), (''Dr. Bob Nkemelu'', staff_id r2)], db')"
    and f: "filter (\<lambda>r. team r = WRITE_SKEW_TEAM \<and> is_on_call r) db' = [r1\<lparr>is_on_call := True\<rparr>, r2\<lparr>is_on_call := True\<rparr>]"
    and ne: "staff_id r1 \<noteq> staff_id r2"
    using reset_two [OF assms] by blast
  note c = count_two [OF f, simplified, OF ne]
  show ?thesis unfolding runWriteSkewUnderRepeatableRead_def r by (simp add: c Let_def)
qed

text \<open>The same script with a serializable history: the second commit was refused, and one of the two is still on call.\<close>

lemma serializable_detects_conflict:
  assumes "distinct (map staff_id db)"
    and "filter (\<lambda>r. team r = WRITE_SKEW_TEAM) db = [r1, r2]" and "staff_name r1 = ''Dr. Alice Chen''" "staff_name r2 = ''Dr. Bob Nkemelu''"
    and run: "runSerializableDetectsConflict ok db = (Inr (res, h), db2)"
    and order: "mset order = mset h" "serial_from WRITE_SKEW_TEAM (snd (resetTeamOnCall WRITE_SKEW_TEAM (map snd WRITE_SKEW_STAFF) db)) order"
  shows "\<not> bobCommitted res \<and> bobFailure res = Some ''40001'' \<and> sc_onCallCountAfter res = 1 \<and> sc_invariantHeld res"
proof -
  obtain db' where r: "resetTeamOnCall WRITE_SKEW_TEAM (map snd WRITE_SKEW_STAFF) db
      = (Inr [(''Dr. Alice Chen'', staff_id r1), (''Dr. Bob Nkemelu'', staff_id r2)], db')"
    and f: "filter (\<lambda>r. team r = WRITE_SKEW_TEAM \<and> is_on_call r) db' = [r1\<lparr>is_on_call := True\<rparr>, r2\<lparr>is_on_call := True\<rparr>]"
    and ne: "staff_id r1 \<noteq> staff_id r2"
    using reset_two [OF assms(1-4)] by blast
  let ?a = "staff_id r1" and ?b = "staff_id r2"
  note c = count_two [OF f, simplified, OF ne]
  have swap: "setOffCall ?b (setOffCall ?a db') = setOffCall ?a (setOffCall ?b db')"
    using fold_off [of "[?a, ?b]" db'] fold_off [of "[?b, ?a]" db'] by (simp add: insert_commute)
  have z: "countOthersOnCall (setOffCall ?a db') WRITE_SKEW_TEAM ?b = 0" "countOthersOnCall (setOffCall ?b db') WRITE_SKEW_TEAM ?a = 0"
    using c(4) swap by (simp_all flip: off_others)
  have out: "bobCommitted res = ok" "h = (?a, 1) # (if ok then [(?b, 1)] else [])"
    "\<not> ok \<Longrightarrow> bobFailure res = Some ''40001'' \<and> sc_onCallCountAfter res = 1 \<and> sc_invariantHeld res"
    using run unfolding runSerializableDetectsConflict_def r by (auto simp: c Let_def)
  have "\<not> ok"
  proof
    assume "ok"
    then have "mset order = {#(?a, 1), (?b, 1)#}" using order(1) out(2) by simp
    then have l: "length order = 2" "set order = {(?a, 1), (?b, 1)}" by (metis size_mset size_add_mset size_empty numeral_2_eq_2, metis set_mset_mset set_mset_add_mset_insert set_mset_empty)
    then obtain x y where o: "order = [x, y]" by (metis length_0_conv length_Suc_conv numeral_2_eq_2)
    then have "{x, y} = {(?a, 1), (?b, 1)}" using l(2) by simp
    then have "x = (?a, 1) \<and> y = (?b, 1) \<or> x = (?b, 1) \<and> y = (?a, 1)" using ne by (auto simp: doubleton_eq_iff)
    then show False using order(2) z unfolding o r by auto
  qed
  then show ?thesis using out by simp
qed

text \<open>Both at once with the retry loop; the events are the interleaving, and \<open>None\<close> an unsettled \<open>Promise.all\<close>.\<close>

record RetryDemoResult =
  demo_alice :: RetryOutcome
  demo_bob :: RetryOutcome
  demo_onCallCountAfter :: nat
  demo_invariantHeld :: bool
  exactlyOneSucceeded :: bool

definition runSerializableWithRetry :: "(nat \<times> bool) list \<Rightarrow> rota \<Rightarrow> (string + RetryDemoResult) option" where
  "runSerializableWithRetry evs db0 =
     (case resetTeamOnCall WRITE_SKEW_TEAM (map snd WRITE_SKEW_STAFF) db0 of
        (Inl e, db) \<Rightarrow> Some (Inl e)
      | (Inr ids, db) \<Rightarrow>
          (let w = rota_run 5 WRITE_SKEW_TEAM (map (\<lambda>s. (snd s, the (map_of ids (snd s)))) WRITE_SKEW_STAFF) evs db;
               n = countOnCall (staff w) WRITE_SKEW_TEAM in
           case callers w of
             [Over (Inr x), Over (Inr y)] \<Rightarrow>
               Some (Inr \<lparr>demo_alice = x, demo_bob = y, demo_onCallCountAfter = n, demo_invariantHeld = (1 \<le> n),
                 exactlyOneSucceeded = (length (filter (\<lambda>x. x = committed) [finalOutcome x, finalOutcome y]) = 1)\<rparr>)
           | [Over (Inl e), _] \<Rightarrow> Some (Inl e)
           | [_, Over (Inl e)] \<Rightarrow> Some (Inl e)
           | _ \<Rightarrow> None))"

section \<open>Contention\<close>

record SerializableContentionResult =
  ct_staffCount :: nat
  totalAttempts :: nat
  totalConflicts :: nat
  committedCount :: nat
  rejectedCount :: nat
  ct_onCallCountAfter :: nat
  ct_invariantHeld :: bool

fun returned :: "retry_pc \<Rightarrow> RetryOutcome list" where
  "returned (Over (Inr r)) = [r]"
| "returned _ = []"

fun thrown :: "retry_pc \<Rightarrow> string list" where
  "thrown (Over (Inl e)) = [e]"
| "thrown _ = []"

text \<open>
  Everybody at once; the events are the interleaving. \<open>None\<close> is a \<open>Promise.all\<close> that is not settled: nobody has
  thrown and somebody has not returned.\<close>

definition contention_members :: "nat \<Rightarrow> (string \<times> nat) list \<Rightarrow> (string \<times> nat) list" where
  "contention_members staffCount ids = map (\<lambda>s. (snd s, the (map_of ids (snd s)))) (take staffCount CONTENTION_STAFF)"

definition contention_result :: "nat \<Rightarrow> rota_world \<Rightarrow> (string + SerializableContentionResult) option" where
  "contention_result staffCount w =
     (let rs = concat (map returned (callers w)); es = concat (map thrown (callers w)); n = countOnCall (staff w) CONTENTION_TEAM in
      if es \<noteq> [] then Some (Inl (hd es))
      else if length rs \<noteq> length (callers w) then None
      else Some (Inr \<lparr>ct_staffCount = staffCount, totalAttempts = sum_list (map attempts rs),
             totalConflicts = sum_list (map conflictsEncountered rs),
             committedCount = length (filter (\<lambda>r. finalOutcome r = committed) rs),
             rejectedCount = length (filter (\<lambda>r. finalOutcome r = rejected) rs),
             ct_onCallCountAfter = n, ct_invariantHeld = (1 \<le> n)\<rparr>))"

definition runContentionUnderSerializable :: "nat \<Rightarrow> (nat \<times> bool) list \<Rightarrow> rota \<Rightarrow> (string + SerializableContentionResult) option" where
  "runContentionUnderSerializable staffCount evs db0 =
     (case resetTeamOnCall CONTENTION_TEAM (map snd (take staffCount CONTENTION_STAFF)) db0 of
        (Inl e, db) \<Rightarrow> Some (Inl e)
      | (Inr ids, db) \<Rightarrow>
          contention_result staffCount (rota_run (staffCount + 2) CONTENTION_TEAM (contention_members staffCount ids) evs db))"

text \<open>Under REPEATABLE READ each counts in its snapshot and commits what it decided; the writes touch different rows.\<close>

datatype naive_pc = Begun | Counted nat | Went bool

definition snapshot_step :: "string \<Rightarrow> (string \<times> nat) list \<Rightarrow> nat \<Rightarrow> naive_pc list \<times> rota \<Rightarrow> naive_pc list \<times> rota" where
  "snapshot_step t members i w =
     (if i < length (fst w)
      then (case fst w ! i of
              Begun \<Rightarrow> ((fst w)[i := Counted (countOthersOnCall (snd w) t (snd (members ! i)))], snd w)
            | Counted n \<Rightarrow>
                if 1 \<le> n then ((fst w)[i := Went True], setOffCall (snd (members ! i)) (snd w)) else ((fst w)[i := Went False], snd w)
            | Went b \<Rightarrow> w)
      else w)"

record NaiveContentionResult =
  nc_staffCount :: nat
  wentOffCallCount :: nat
  nc_onCallCountAfter :: nat
  nc_invariantHeld :: bool

definition runContentionUnderRepeatableRead :: "nat \<Rightarrow> nat list \<Rightarrow> rota \<Rightarrow> (string + NaiveContentionResult) option" where
  "runContentionUnderRepeatableRead staffCount evs db0 =
     (case resetTeamOnCall CONTENTION_TEAM (map snd (take staffCount CONTENTION_STAFF)) db0 of
        (Inl e, db) \<Rightarrow> Some (Inl e)
      | (Inr ids, db) \<Rightarrow>
          (let ms = contention_members staffCount ids;
               (pcs, db') = fold (snapshot_step CONTENTION_TEAM ms) evs (replicate (length ms) Begun, db);
               n = countOnCall db' CONTENTION_TEAM in
           if \<exists>pc \<in> set pcs. pc \<notin> {Went True, Went False} then None
           else Some (Inr \<lparr>nc_staffCount = staffCount, wentOffCallCount = length (filter (\<lambda>pc. pc = Went True) pcs),
                  nc_onCallCountAfter = n, nc_invariantHeld = (1 \<le> n)\<rparr>)))"

text \<open>When everybody counts before anybody writes, and everybody saw a colleague, all of them go.\<close>

lemma snapshot_counts:
  "\<forall>i < length pcs. i \<in> set is \<longrightarrow> pcs ! i = Begun \<Longrightarrow> distinct is \<Longrightarrow>
   fold (snapshot_step t ms) is (pcs, db) = (map (\<lambda>i. if i \<in> set is then Counted (countOthersOnCall db t (snd (ms ! i))) else pcs ! i) [0..<length pcs], db)"
proof (induction "is" arbitrary: pcs)
  case Nil
  then show ?case by (simp add: map_nth)
next
  case (Cons i js)
  show ?case
  proof (cases "i < length pcs")
    case True
    then have s: "snapshot_step t ms i (pcs, db) = (pcs[i := Counted (countOthersOnCall db t (snd (ms ! i)))], db)"
      using Cons.prems by (simp add: snapshot_step_def)
    have "\<forall>j < length pcs. j \<in> set js \<longrightarrow> pcs[i := Counted (countOthersOnCall db t (snd (ms ! i)))] ! j = Begun"
      using Cons.prems by (metis distinct.simps(2) list.set_intros(2) nth_list_update_neq)
    then show ?thesis using Cons.IH [of "pcs[i := Counted (countOthersOnCall db t (snd (ms ! i)))]"] Cons.prems(2) True
      by (auto simp: s nth_list_update)
  next
    case False
    then have "snapshot_step t ms i (pcs, db) = (pcs, db)" by (simp add: snapshot_step_def)
    then show ?thesis using Cons False by auto
  qed
qed

lemma snapshot_writes:
  "\<forall>i \<in> set is. i < length pcs \<and> (\<exists>n. pcs ! i = Counted n \<and> 1 \<le> n) \<Longrightarrow> distinct is \<Longrightarrow>
   fold (snapshot_step t ms) is (pcs, db)
     = (map (\<lambda>i. if i \<in> set is then Went True else pcs ! i) [0..<length pcs], off_all ((\<lambda>i. snd (ms ! i)) ` set is) db)"
proof (induction "is" arbitrary: pcs db)
  case Nil
  then show ?case by (simp add: map_nth)
next
  case (Cons i js)
  have s: "snapshot_step t ms i (pcs, db) = (pcs[i := Went True], setOffCall (snd (ms ! i)) db)"
    using Cons.prems(1) by (auto simp: snapshot_step_def)
  have "\<forall>j \<in> set js. j < length (pcs[i := Went True]) \<and> (\<exists>n. pcs[i := Went True] ! j = Counted n \<and> 1 \<le> n)"
    using Cons.prems by (auto simp: nth_list_update)
  from Cons.IH [OF this] Cons.prems(2)
  have f: "fold (snapshot_step t ms) js (pcs[i := Went True], setOffCall (snd (ms ! i)) db)
      = (map (\<lambda>j. if j \<in> set js then Went True else pcs[i := Went True] ! j) [0..<length pcs],
         off_all ((\<lambda>i. snd (ms ! i)) ` set js) (setOffCall (snd (ms ! i)) db))" by simp
  have "off_all K (setOffCall k db) = off_all (insert k K) db" for k K by (simp add: off_all_def setOffCall_def update_where_def)
  moreover have "i < length pcs" using Cons.prems(1) by simp
  ultimately show ?case by (auto simp: s f nth_list_update)
qed

lemma snapshot_contention:
  assumes "set rs = {..<length ms}" "distinct rs" "set ws = {..<length ms}" "distinct ws"
    and "\<And>m. m \<in> set ms \<Longrightarrow> 1 \<le> countOthersOnCall db t (snd m)"
    and "\<forall>r \<in> set db. team r = t \<longrightarrow> staff_id r \<in> snd ` set ms"
  shows "\<exists>db'. fold (snapshot_step t ms) (rs @ ws) (replicate (length ms) Begun, db) = (replicate (length ms) (Went True), db') \<and> countOnCall db' t = 0"
proof -
  let ?n = "length ms"
  let ?pcs = "map (\<lambda>i. Counted (countOthersOnCall db t (snd (ms ! i)))) [0..<?n]"
  have "fold (snapshot_step t ms) rs (replicate ?n Begun, db) = (?pcs, db)"
    using snapshot_counts [of "replicate ?n Begun" rs t ms db] assms(1,2) by (auto intro!: map_cong)
  moreover have "fold (snapshot_step t ms) ws (?pcs, db) = (replicate ?n (Went True), off_all ((\<lambda>i. snd (ms ! i)) ` {..<?n}) db)"
    using snapshot_writes [of ws ?pcs t ms db] assms(3-5) by (auto simp: map_replicate_const intro!: nth_equalityI)
  moreover have "(\<lambda>i. snd (ms ! i)) ` {..<?n} = snd ` set ms" by (auto simp: set_conv_nth)
  moreover have "countOnCall (off_all (snd ` set ms) db) t = 0"
    using assms(6) by (auto simp: countOnCall_def row_count_zero off_all_def ball_update_where)
  ultimately show ?thesis by simp
qed

section \<open>The seed\<close>

definition SIZE_PRESETS :: "(string \<times> nat) list" where
  "SIZE_PRESETS = [(''small'', 5), (''medium'', 20), (''large'', 100)]"

definition browsingTeams :: "string list" where
  "browsingTeams = [''Radiology - Day Shift'', ''Pediatrics - Weekend'']"

text \<open>\<open>coin\<close> stands for \<open>faker.datatype.boolean\<close>.\<close>

definition browsing_staff :: "'s faker \<Rightarrow> ('s \<Rightarrow> bool \<times> 's) \<Rightarrow> nat \<Rightarrow> 's \<Rightarrow> (string \<times> string \<times> bool) \<times> 's" where
  "browsing_staff f coin i s =
     (let (l, s) = lastName f s; (b, s) = coin s in
      ((browsingTeams ! (i mod length browsingTeams), ''Dr. '' @ l @ '' #'' @ nat_str (i + 1), b), s))"

definition seed_rota :: "'s faker \<Rightarrow> ('s \<Rightarrow> bool \<times> 's) \<Rightarrow> nat \<Rightarrow> int \<Rightarrow> nat \<Rightarrow> rota" where
  "seed_rota f coin browsingStaffCount sd next_id =
     map (\<lambda>(i, t, n, b). \<lparr>staff_id = next_id + i, team = t, staff_name = n, is_on_call = b\<rparr>)
       (enumerate 0 (map (\<lambda>(t, n). (t, n, True)) SCENARIO_STAFF
          @ fst (draw_each (browsing_staff f coin) [0..<browsingStaffCount] (seeded f sd))))"

lemma browsing_row:
  assumes "x \<in> set (fst (draw_each (browsing_staff f coin) is s))"
  shows "fst x \<in> set browsingTeams"
proof -
  have "list_all2 (\<lambda>i x. fst x \<in> set browsingTeams) is (fst (draw_each (browsing_staff f coin) is s))"
  proof (rule draw_each_all [OF prod.collapse [symmetric]])
    fix i s x s'
    assume "browsing_staff f coin i s = (x, s')"
    then have "fst x = browsingTeams ! (i mod length browsingTeams)" by (auto simp: browsing_staff_def Let_def split: prod.splits)
    moreover have "i mod length browsingTeams < length browsingTeams" by (rule mod_less_divisor) (simp add: browsingTeams_def)
    ultimately show "fst x \<in> set browsingTeams" by simp
  qed
  from list_all2_right [OF this] assms show ?thesis by simp
qed

text \<open>What the seed writes is what the scenarios reset: the teams are complete, on call, with ids of their own.\<close>

lemma seed_serves_scenarios:
  assumes db: "db = seed_rota f coin n sd k"
  shows "distinct (map staff_id db)"
    and "map (\<lambda>r. (staff_name r, is_on_call r)) (filter (\<lambda>r. team r = WRITE_SKEW_TEAM) db) = map (\<lambda>s. (snd s, True)) WRITE_SKEW_STAFF"
    and "map (\<lambda>r. (staff_name r, is_on_call r)) (filter (\<lambda>r. team r = CONTENTION_TEAM) db) = map (\<lambda>s. (snd s, True)) CONTENTION_STAFF"
proof -
  define bs where "bs = fst (draw_each (browsing_staff f coin) [0..<n] (seeded f sd))"
  define row where "row = (\<lambda>(i, t, n, b). \<lparr>staff_id = k + i, team = t, staff_name = n, is_on_call = b\<rparr>)"
  define ss where "ss = map (\<lambda>(t, n). (t, n, True)) SCENARIO_STAFF"
  have e: "enumerate 0 (ss @ bs) = enumerate 0 ss @ enumerate (length ss) bs" by (simp add: enumerate_append_eq)
  have rows: "db = map row (enumerate 0 ss) @ map row (enumerate (length ss) bs)"
    unfolding db seed_rota_def row_def [symmetric] ss_def [symmetric] bs_def [symmetric] e map_append ..
  have "map staff_id db = map ((+) k) (map fst (enumerate 0 (ss @ bs)))"
    unfolding rows e map_append by (simp add: row_def comp_def split_beta del: map_fst_enumerate)
  then show "distinct (map staff_id db)" by (simp add: distinct_map)
  have other: "team r \<in> set browsingTeams" if "r \<in> set (map row (enumerate j bs))" for r j
  proof -
    obtain i x where x: "(i, x) \<in> set (enumerate j bs)" "r = row (i, x)" using \<open>r \<in> _\<close> by auto
    then have "x \<in> set bs" by (auto simp: enumerate_eq_zip dest: set_zip_rightD)
    then have "fst x \<in> set browsingTeams" unfolding bs_def by (rule browsing_row)
    then show ?thesis by (simp add: x(2) row_def split_beta)
  qed
  have "WRITE_SKEW_TEAM \<notin> set browsingTeams" "CONTENTION_TEAM \<notin> set browsingTeams"
    by (simp_all add: WRITE_SKEW_TEAM_def CONTENTION_TEAM_def browsingTeams_def)
  then have nil: "filter (\<lambda>r. team r = WRITE_SKEW_TEAM) (map row (enumerate j bs)) = []"
    "filter (\<lambda>r. team r = CONTENTION_TEAM) (map row (enumerate j bs)) = []" for j
    using other unfolding filter_empty_conv by metis+
  have "WRITE_SKEW_TEAM \<noteq> CONTENTION_TEAM" by (simp add: WRITE_SKEW_TEAM_def CONTENTION_TEAM_def)
  then have two: "map (\<lambda>r. (staff_name r, is_on_call r)) (filter (\<lambda>r. team r = WRITE_SKEW_TEAM) (map row (enumerate 0 ss))) = map (\<lambda>s. (snd s, True)) WRITE_SKEW_STAFF"
    "map (\<lambda>r. (staff_name r, is_on_call r)) (filter (\<lambda>r. team r = CONTENTION_TEAM) (map row (enumerate 0 ss))) = map (\<lambda>s. (snd s, True)) CONTENTION_STAFF"
    unfolding ss_def SCENARIO_STAFF_def WRITE_SKEW_STAFF_def CONTENTION_STAFF_def row_def by simp_all
  show "map (\<lambda>r. (staff_name r, is_on_call r)) (filter (\<lambda>r. team r = WRITE_SKEW_TEAM) db) = map (\<lambda>s. (snd s, True)) WRITE_SKEW_STAFF"
    "map (\<lambda>r. (staff_name r, is_on_call r)) (filter (\<lambda>r. team r = CONTENTION_TEAM) db) = map (\<lambda>s. (snd s, True)) CONTENTION_STAFF"
    using two by (simp_all only: rows filter_append nil append_Nil2)
qed

end
