(* ===== verification/Citations.thy ===== *)
theory Citations
  imports Log_Analysis "HOL-Library.List_Lexorder" "HOL-Library.Char_ord"
begin

text \<open>
  The self-check of Lab 41, \<open>labs/41-*/src/check-citations.ts\<close>: the labs that exist, the lab numbers that every drill
  cites, the citations that resolve to no lab, the phases covered, the headings every drill must have, and the lines and
  the exit code of the report. The directory of the labs is the list of its entries, the one of the drills a list of
  names and contents.
\<close>

section \<open>The labs and the phases\<close>

record phase =
  phase_name :: string
  phase_from :: nat
  phase_to :: nat

definition PHASES :: "phase list" where
  "PHASES =
     [\<lparr>phase_name = ''Phase 1 - Postgres/Drizzle foundations'', phase_from = 1, phase_to = 4\<rparr>,
      \<lparr>phase_name = ''Phase 2 - Transactions and concurrency'', phase_from = 5, phase_to = 9\<rparr>,
      \<lparr>phase_name = ''Phase 3 - Locks and concurrency control'', phase_from = 10, phase_to = 13\<rparr>,
      \<lparr>phase_name = ''Phase 4 - Background work and messaging'', phase_from = 14, phase_to = 20\<rparr>,
      \<lparr>phase_name = ''Phase 5 - Caching and distributed coordination'', phase_from = 21, phase_to = 22\<rparr>,
      \<lparr>phase_name = ''Phase 6 - Connections and Postgres scaling'', phase_from = 23, phase_to = 28\<rparr>,
      \<lparr>phase_name = ''Phase 7 - Safe schema evolution'', phase_from = 29, phase_to = 30\<rparr>,
      \<lparr>phase_name = ''Phase 8 - Postgres operations and performance'', phase_from = 31, phase_to = 35\<rparr>,
      \<lparr>phase_name = ''Phase 9 - Reliability engineering'', phase_from = 36, phase_to = 37\<rparr>,
      \<lparr>phase_name = ''Phase 10 - Observability and security'', phase_from = 38, phase_to = 39\<rparr>,
      \<lparr>phase_name = ''Phase 11 - Capstone'', phase_from = 40, phase_to = 40\<rparr>]"

definition decimal :: "char \<Rightarrow> bool" where
  "decimal c \<longleftrightarrow> 48 \<le> (of_char c :: nat) \<and> (of_char c :: nat) \<le> 57"

text \<open>\<open>/^(\d{2})-/\<close>; a \<open>Set\<close> keeps the first of equal elements.\<close>

definition set_add :: "'a \<Rightarrow> 'a list \<Rightarrow> 'a list" where
  "set_add x xs = (if x \<in> set xs then xs else xs @ [x])"

definition lab_number :: "string \<Rightarrow> nat option" where
  "lab_number name =
     (case name of
        c # d # m # _ \<Rightarrow> if decimal c \<and> decimal d \<and> m = CHR ''-'' then Some (val_of [c, d]) else None
      | _ \<Rightarrow> None)"

definition listExistingLabNumbers :: "(string \<times> bool) list \<Rightarrow> nat list" where
  "listExistingLabNumbers entries =
     foldl (\<lambda>ns (name, isDirectory). if \<not> isDirectory then ns else (case lab_number name of None \<Rightarrow> ns | Some n \<Rightarrow> set_add n ns)) [] entries"

definition endsWith :: "string \<Rightarrow> string \<Rightarrow> bool" where
  "endsWith suf s \<longleftrightarrow> length suf \<le> length s \<and> drop (length s - length suf) s = suf"

definition listDrillFiles :: "(string \<times> string) list \<Rightarrow> (string \<times> string) list" where
  "listDrillFiles drills = sort_key fst (filter (\<lambda>d. endsWith ''.md'' (fst d)) drills)"

section \<open>Citations\<close>

text \<open>
  \<open>/\bLabs?\s+(\d{1,2}(?:\s*\/\s*\d{1,2})*)/g\<close>. What follows a group never fails, so every part takes all it can; white
  space before a slash belongs to the group only if a number follows the slash.\<close>

definition word_char :: "char \<Rightarrow> bool" where
  "word_char c \<longleftrightarrow> decimal c \<or> c = CHR ''_'' \<or> (65 \<le> (of_char c :: nat) \<and> (of_char c :: nat) \<le> 90)
     \<or> (97 \<le> (of_char c :: nat) \<and> (of_char c :: nat) \<le> 122)"

fun one_or_two_digits :: "string \<Rightarrow> (string \<times> string) option" where
  "one_or_two_digits [] = None"
| "one_or_two_digits [c] = (if decimal c then Some ([c], []) else None)"
| "one_or_two_digits (c # d # s) =
     (if \<not> decimal c then None else if decimal d then Some ([c, d], s) else Some ([c], d # s))"

lemma one_or_two_digits_shorter: "one_or_two_digits s = Some (d, r) \<Longrightarrow> length r < length s"
  by (induction s rule: one_or_two_digits.induct) (auto split: if_splits)

definition next_number :: "string \<Rightarrow> (string \<times> string) option" where
  "next_number s =
     (case dropWhile white s of
        [] \<Rightarrow> None
      | c # r \<Rightarrow>
          if c \<noteq> CHR ''/'' then None
          else (case one_or_two_digits (dropWhile white r) of
                  None \<Rightarrow> None
                | Some (d, r') \<Rightarrow> Some (takeWhile white s @ c # takeWhile white r @ d, r')))"

lemma next_number_shorter:
  assumes "next_number s = Some (g, r)"
  shows "length r < length s"
proof -
  obtain c t d where c: "dropWhile white s = c # t" "one_or_two_digits (dropWhile white t) = Some (d, r)"
    using assms by (auto simp: next_number_def split: list.splits if_splits option.splits)
  have "length r < length (dropWhile white t)" by (rule one_or_two_digits_shorter [OF c(2)])
  also have "\<dots> \<le> length t" by (rule length_dropWhile_le)
  also have "\<dots> < length (dropWhile white s)" by (simp add: c(1))
  also have "\<dots> \<le> length s" by (rule length_dropWhile_le)
  finally show ?thesis .
qed

function more_numbers :: "string \<Rightarrow> string \<times> string" where
  "more_numbers s =
     (case next_number s of
        None \<Rightarrow> ([], s)
      | Some (g, r) \<Rightarrow> (let (g', r') = more_numbers r in (g @ g', r')))"
  by pat_completeness auto
termination
  by (relation "measure length") (auto dest: next_number_shorter)

declare more_numbers.simps [simp del]

definition match_citation :: "string \<Rightarrow> (string \<times> string) option" where
  "match_citation s =
     (case after_prefix ''Lab'' s of
        None \<Rightarrow> None
      | Some r \<Rightarrow>
          (let r = (if r \<noteq> [] \<and> hd r = CHR ''s'' then tl r else r) in
           if r = [] \<or> \<not> white (hd r) then None
           else (case one_or_two_digits (dropWhile white r) of
                   None \<Rightarrow> None
                 | Some (d, r) \<Rightarrow> (let (g, r) = more_numbers r in Some (d @ g, r)))))"

fun split_on :: "char \<Rightarrow> string \<Rightarrow> string list" where
  "split_on x [] = [[]]"
| "split_on x (c # s) =
     (if c = x then [] # split_on x s else (case split_on x s of [] \<Rightarrow> [[c]] | l # ls \<Rightarrow> (c # l) # ls))"

definition trim :: "string \<Rightarrow> string" where
  "trim s = rev (dropWhile white (rev (dropWhile white s)))"

definition group_numbers :: "string \<Rightarrow> nat list" where
  "group_numbers g = map (\<lambda>raw. val_of (trim raw)) (split_on CHR ''/'' g)"

text \<open>\<open>exec\<close> goes on behind a match, whose last character is a digit; \<open>b\<close> says whether a word character comes before.\<close>

lemma more_numbers_shorter: "length (snd (more_numbers s)) \<le> length s"
proof (induction s rule: more_numbers.induct)
  case (1 s)
  show ?case
  proof (cases "next_number s")
    case None
    then show ?thesis by (simp add: more_numbers.simps [of s])
  next
    case (Some x)
    obtain g r where x: "x = (g, r)" by fastforce
    have "length (snd (more_numbers r)) \<le> length r" using 1 Some x by simp
    moreover have "length r < length s" using next_number_shorter Some x by simp
    ultimately show ?thesis using Some x by (simp add: more_numbers.simps [of s] split_beta)
  qed
qed

lemma after_prefix_shorter: "after_prefix p s = Some r \<Longrightarrow> length r + length p = length s"
  by (induction p s rule: after_prefix.induct) (auto split: if_splits)

lemma match_citation_shorter:
  assumes "match_citation s = Some (g, r)"
  shows "length r < length s"
proof -
  obtain t u d v where t: "after_prefix ''Lab'' s = Some t" "u = (if t \<noteq> [] \<and> hd t = CHR ''s'' then tl t else t)"
      "one_or_two_digits (dropWhile white u) = Some (d, v)" "r = snd (more_numbers v)"
    using assms by (auto simp: match_citation_def Let_def split_beta split: option.splits if_splits)
  have "length r \<le> length v" using more_numbers_shorter t(4) by simp
  also have "length v < length (dropWhile white u)" by (rule one_or_two_digits_shorter [OF t(3)])
  also have "\<dots> \<le> length u" by (rule length_dropWhile_le)
  also have "\<dots> \<le> length t" by (simp add: t(2))
  also have "\<dots> \<le> length s" using after_prefix_shorter [OF t(1)] by simp
  finally show ?thesis .
qed

function scan_citations :: "bool \<Rightarrow> string \<Rightarrow> nat list" where
  "scan_citations b [] = []"
| "scan_citations b (c # s) =
     (case if b then None else match_citation (c # s) of
        Some (g, r) \<Rightarrow> group_numbers g @ scan_citations True r
      | None \<Rightarrow> scan_citations (word_char c) s)"
  by pat_completeness auto
termination
  by (relation "measure (\<lambda>(_, s). length s)") (auto split: if_splits dest: match_citation_shorter)

declare scan_citations.simps(2) [simp del]

definition extractLabNumbers :: "string \<Rightarrow> nat list" where
  "extractLabNumbers markdown = scan_citations False markdown"

section \<open>The report\<close>

definition REQUIRED_HEADINGS :: "string list" where
  "REQUIRED_HEADINGS =
     [''## Prompt'', ''## Model answer'', ''### 1. Invariants'', ''### 2. Consistency requirements'', ''### 3. Storage choice'',
      ''### 4. Concurrency mechanism'', ''### 5. Failure modes'', ''### 6. Scale estimate'', ''### 7. Observability'',
      ''## Common wrong answer'', ''## Interview questions'']"

fun str_includes :: "string \<Rightarrow> string \<Rightarrow> bool" where
  "str_includes [] t \<longleftrightarrow> t = []"
| "str_includes (c # s) t \<longleftrightarrow> after_prefix t (c # s) \<noteq> None \<or> str_includes s t"

definition missingHeadings :: "string \<Rightarrow> string list" where
  "missingHeadings markdown = filter (\<lambda>h. \<not> str_includes markdown h) REQUIRED_HEADINGS"

record DrillCitations =
  drill_file :: string
  labNumbers :: "nat list"

record CitationReport =
  existingLabNumbers :: "nat list"
  perDrill :: "DrillCitations list"
  allCitedNumbers :: "nat list"
  unknownCitations :: "(string \<times> nat) list"
  coveredPhases :: "string list"

definition cite_one :: "nat list \<Rightarrow> string \<Rightarrow> nat list \<times> (string \<times> nat) list \<Rightarrow> nat \<Rightarrow> nat list \<times> (string \<times> nat) list" where
  "cite_one existing name acc n = (set_add n (fst acc), if n \<in> set existing then snd acc else snd acc @ [(name, n)])"

definition cite_drill :: "nat list \<Rightarrow> nat list \<times> (string \<times> nat) list \<Rightarrow> string \<times> string \<Rightarrow> nat list \<times> (string \<times> nat) list" where
  "cite_drill existing acc d = foldl (cite_one existing (fst d)) acc (extractLabNumbers (snd d))"

definition covers :: "nat list \<Rightarrow> phase \<Rightarrow> bool" where
  "covers cited p \<longleftrightarrow> (\<exists>n \<in> set cited. phase_from p \<le> n \<and> n \<le> phase_to p)"

definition buildCitationReport :: "(string \<times> bool) list \<Rightarrow> (string \<times> string) list \<Rightarrow> CitationReport" where
  "buildCitationReport entries drills =
     (let existing = listExistingLabNumbers entries; files = listDrillFiles drills;
          (cited, unknown) = foldl (cite_drill existing) ([], []) files in
      \<lparr>existingLabNumbers = existing,
       perDrill = map (\<lambda>d. \<lparr>drill_file = fst d, labNumbers = extractLabNumbers (snd d)\<rparr>) files,
       allCitedNumbers = cited, unknownCitations = unknown,
       coveredPhases = map phase_name (filter (covers cited) PHASES)\<rparr>)"

text \<open>What \<open>main\<close> prints, the lines on the standard error marked, and its exit code.\<close>

definition padStart2 :: "nat \<Rightarrow> string" where
  "padStart2 n = replicate (2 - length (nat_str n)) CHR ''0'' @ nat_str n"

definition join_comma :: "string list \<Rightarrow> string" where
  "join_comma xs = (case xs of [] \<Rightarrow> [] | x # ys \<Rightarrow> x @ concat (map (\<lambda>y. '', '' @ y) ys))"

definition check_citations_main :: "(string \<times> bool) list \<Rightarrow> (string \<times> string) list \<Rightarrow> (bool \<times> string) list \<times> nat" where
  "check_citations_main entries drills =
     (let r = buildCitationReport entries drills;
          head = [''Labs found under labs/: '' @ nat_str (length (existingLabNumbers r)),
                  ''Drills checked: '' @ nat_str (length (perDrill r)),
                  ''Distinct labs cited across all drills: '' @ nat_str (length (allCitedNumbers r)),
                  ''Phases covered: '' @ nat_str (length (coveredPhases r)) @ '' / '' @ nat_str (length PHASES)]
                 @ map (\<lambda>p. ''  ['' @ (if phase_name p \<in> set (coveredPhases r) then ''x'' else '' '') @ ''] '' @ phase_name p) PHASES;
          unknown = (if unknownCitations r = [] then []
                     else ''Unknown lab citations found:''
                       # map (\<lambda>(name, n). ''  '' @ name @ '' cites '' @ [CHR 0x22] @ ''Lab '' @ padStart2 n @ [CHR 0x22] @ '', which does not exist under labs/'') (unknownCitations r));
          missing = concat (map (\<lambda>d. if missingHeadings (snd d) = [] then []
                       else [fst d @ '' is missing required section(s): '' @ join_comma (missingHeadings (snd d))]) (listDrillFiles drills));
          code = (if unknown = [] \<and> missing = [] then 0 else 1) in
      (map (Pair False) head @ map (Pair True) (unknown @ missing)
         @ (if code = 1 then [] else [(False, ''All citations resolve to real labs, and every drill covers the required structure.'')]), code))"

section \<open>What the report says\<close>

lemma set_foldl_set_add:
  "set (foldl (\<lambda>ns x. case f x of None \<Rightarrow> ns | Some n \<Rightarrow> set_add n ns) acc xs) = set acc \<union> {n. \<exists>x \<in> set xs. f x = Some n}"
proof (induction xs arbitrary: acc)
  case (Cons x xs)
  then show ?case by (cases "f x") (auto simp: set_add_def)
qed simp

lemma existing_labs:
  "n \<in> set (listExistingLabNumbers entries) \<longleftrightarrow> (\<exists>name. (name, True) \<in> set entries \<and> lab_number name = Some n)"
proof -
  have e: "listExistingLabNumbers entries
      = foldl (\<lambda>ns x. case (if snd x then lab_number (fst x) else None) of None \<Rightarrow> ns | Some n \<Rightarrow> set_add n ns) [] entries"
    unfolding listExistingLabNumbers_def by (rule foldl_cong) (auto split: prod.splits)
  show ?thesis unfolding e set_foldl_set_add by (force split: if_splits)
qed

definition citations :: "(string \<times> string) list \<Rightarrow> (string \<times> nat) list" where
  "citations ds = concat (map (\<lambda>d. map (Pair (fst d)) (extractLabNumbers (snd d))) ds)"

lemma cite_one_all:
  "set (fst (foldl (cite_one ex name) acc ns)) = set (fst acc) \<union> set ns"
  "snd (foldl (cite_one ex name) acc ns) = snd acc @ filter (\<lambda>c. snd c \<notin> set ex) (map (Pair name) ns)"
  "distinct (fst acc) \<Longrightarrow> distinct (fst (foldl (cite_one ex name) acc ns))"
proof -
  show "set (fst (foldl (cite_one ex name) acc ns)) = set (fst acc) \<union> set ns"
    by (induction ns arbitrary: acc) (auto simp: cite_one_def set_add_def)
  show "snd (foldl (cite_one ex name) acc ns) = snd acc @ filter (\<lambda>c. snd c \<notin> set ex) (map (Pair name) ns)"
    by (induction ns arbitrary: acc) (simp_all add: cite_one_def)
  show "distinct (fst acc) \<Longrightarrow> distinct (fst (foldl (cite_one ex name) acc ns))"
    by (induction ns arbitrary: acc) (simp_all add: cite_one_def set_add_def)
qed

lemma cite_drills:
  "set (fst (foldl (cite_drill ex) acc ds)) = set (fst acc) \<union> snd ` set (citations ds)"
  "snd (foldl (cite_drill ex) acc ds) = snd acc @ filter (\<lambda>c. snd c \<notin> set ex) (citations ds)"
  "distinct (fst acc) \<Longrightarrow> distinct (fst (foldl (cite_drill ex) acc ds))"
proof -
  show "set (fst (foldl (cite_drill ex) acc ds)) = set (fst acc) \<union> snd ` set (citations ds)"
    by (induction ds arbitrary: acc) (simp_all add: cite_drill_def citations_def cite_one_all(1) image_Un image_image Un_assoc)
  show "snd (foldl (cite_drill ex) acc ds) = snd acc @ filter (\<lambda>c. snd c \<notin> set ex) (citations ds)"
    by (induction ds arbitrary: acc) (simp_all add: cite_drill_def citations_def cite_one_all(2))
  show "distinct (fst acc) \<Longrightarrow> distinct (fst (foldl (cite_drill ex) acc ds))"
    by (induction ds arbitrary: acc) (simp_all add: cite_drill_def cite_one_all(3))
qed

lemma report_exact:
  "unknownCitations (buildCitationReport entries drills)
     = filter (\<lambda>c. \<not> (\<exists>name. (name, True) \<in> set entries \<and> lab_number name = Some (snd c))) (citations (listDrillFiles drills))
   \<and> set (allCitedNumbers (buildCitationReport entries drills)) = snd ` set (citations (listDrillFiles drills))
   \<and> distinct (allCitedNumbers (buildCitationReport entries drills))
   \<and> set (coveredPhases (buildCitationReport entries drills))
       = {phase_name p |p. p \<in> set PHASES \<and> (\<exists>c \<in> set (citations (listDrillFiles drills)). phase_from p \<le> snd c \<and> snd c \<le> phase_to p)}"
proof -
  note c = cite_drills [where ex = "listExistingLabNumbers entries" and acc = "([], [])" and ds = "listDrillFiles drills"]
  have r: "unknownCitations (buildCitationReport entries drills) = snd (foldl (cite_drill (listExistingLabNumbers entries)) ([], []) (listDrillFiles drills))"
    "allCitedNumbers (buildCitationReport entries drills) = fst (foldl (cite_drill (listExistingLabNumbers entries)) ([], []) (listDrillFiles drills))"
    "coveredPhases (buildCitationReport entries drills)
      = map phase_name (filter (covers (fst (foldl (cite_drill (listExistingLabNumbers entries)) ([], []) (listDrillFiles drills)))) PHASES)"
    by (simp_all add: buildCitationReport_def Let_def split_beta)
  have u: "unknownCitations (buildCitationReport entries drills)
      = filter (\<lambda>c. \<not> (\<exists>name. (name, True) \<in> set entries \<and> lab_number name = Some (snd c))) (citations (listDrillFiles drills))"
    unfolding r c(2) by (simp add: existing_labs)
  have a: "set (allCitedNumbers (buildCitationReport entries drills)) = snd ` set (citations (listDrillFiles drills))"
    unfolding r c(1) by simp
  have "set (coveredPhases (buildCitationReport entries drills))
       = {phase_name p |p. p \<in> set PHASES \<and> covers (allCitedNumbers (buildCitationReport entries drills)) p}"
    unfolding r set_map set_filter by blast
  then have p: "set (coveredPhases (buildCitationReport entries drills))
       = {phase_name p |p. p \<in> set PHASES \<and> (\<exists>c \<in> set (citations (listDrillFiles drills)). phase_from p \<le> snd c \<and> snd c \<le> phase_to p)}"
    unfolding covers_def a by blast
  show ?thesis using u a p c(3) by (simp add: r(2))
qed

text \<open>The check passes exactly when every citation resolves and every drill has every heading.\<close>

lemma main_exit_code:
  "snd (check_citations_main entries drills) = 0 \<longleftrightarrow>
     unknownCitations (buildCitationReport entries drills) = []
     \<and> (\<forall>d \<in> set drills. endsWith ''.md'' (fst d) \<longrightarrow> (\<forall>h \<in> set REQUIRED_HEADINGS. str_includes (snd d) h))"
proof -
  define r where "r = buildCitationReport entries drills"
  have ds: "set (listDrillFiles drills) = {d \<in> set drills. endsWith ''.md'' (fst d)}" by (simp add: listDrillFiles_def)
  have m: "missingHeadings md = [] \<longleftrightarrow> (\<forall>h \<in> set REQUIRED_HEADINGS. str_includes md h)" for md
    by (simp add: missingHeadings_def filter_empty_conv)
  define missing where "missing = concat (map (\<lambda>d. if missingHeadings (snd d) = [] then []
     else [fst d @ '' is missing required section(s): '' @ join_comma (missingHeadings (snd d))]) (listDrillFiles drills))"
  have e: "missing = [] \<longleftrightarrow> (\<forall>d \<in> set (listDrillFiles drills). missingHeadings (snd d) = [])"
    unfolding missing_def by (simp only: concat_eq_Nil_conv set_map ball_simps) (metis list.distinct(1))
  have "snd (check_citations_main entries drills) = (if (if unknownCitations r = [] then [] else x # xs) = [] \<and> missing = [] then 0 else 1)"
    for x :: string and xs
    unfolding check_citations_main_def Let_def r_def [symmetric] missing_def [symmetric] snd_conv by simp
  then have "snd (check_citations_main entries drills) = 0 \<longleftrightarrow> unknownCitations r = [] \<and> missing = []" by (metis list.distinct(1) zero_neq_one)
  then show ?thesis unfolding e ds m r_def by auto
qed

section \<open>Citations that are written are found\<close>

text \<open>
  A citation as the drills write it: \<open>Lab\<close> or \<open>Labs\<close>, white space (a line break, perhaps), one or two digits, and
  further numbers behind slashes, with or without white space around them.\<close>

type_synonym cited = "bool \<times> string \<times> string \<times> (string \<times> string \<times> string) list"

definition whites :: "string \<Rightarrow> bool" where
  "whites w \<longleftrightarrow> (\<forall>c \<in> set w. white c)"

definition one_or_two :: "string \<Rightarrow> bool" where
  "one_or_two d \<longleftrightarrow> (length d = 1 \<or> length d = 2) \<and> (\<forall>c \<in> set d. decimal c)"

fun more_text :: "(string \<times> string \<times> string) list \<Rightarrow> string" where
  "more_text [] = []"
| "more_text ((a, b, d) # ms) = a @ ''/'' @ b @ d @ more_text ms"

fun citation_text :: "cited \<Rightarrow> string" where
  "citation_text (plural, w, d, ms) = ''Lab'' @ (if plural then ''s'' else []) @ w @ d @ more_text ms"

fun cited_ok :: "cited \<Rightarrow> bool" where
  "cited_ok (plural, w, d, ms) \<longleftrightarrow>
     w \<noteq> [] \<and> whites w \<and> one_or_two d \<and> (\<forall>(a, b, d) \<in> set ms. whites a \<and> whites b \<and> one_or_two d)"

fun cited_numbers :: "cited \<Rightarrow> nat list" where
  "cited_numbers (plural, w, d, ms) = val_of d # map (\<lambda>(a, b, d). val_of d) ms"

text \<open>What follows a citation does not continue it: no digit comes next, and no slash with a number.\<close>

definition ends_citation :: "string \<Rightarrow> bool" where
  "ends_citation s \<longleftrightarrow> (s = [] \<or> \<not> decimal (hd s))
     \<and> (case dropWhile white s of
          [] \<Rightarrow> True
        | c # r \<Rightarrow> c = CHR ''/'' \<longrightarrow> (case dropWhile white r of [] \<Rightarrow> True | d # _ \<Rightarrow> \<not> decimal d))"

text \<open>
  A document: pieces of text, each followed by a citation, and a last piece. The word \<open>Lab\<close> occurs in citations only, and a
  citation begins a word.\<close>

fun document :: "(string \<times> cited) list \<Rightarrow> string \<Rightarrow> string" where
  "document [] tail = tail"
| "document ((p, c) # xs) tail = p @ citation_text c @ document xs tail"

fun document_ok :: "bool \<Rightarrow> (string \<times> cited) list \<Rightarrow> string \<Rightarrow> bool" where
  "document_ok start [] tail \<longleftrightarrow> \<not> str_includes tail ''Lab''"
| "document_ok start ((p, c) # xs) tail \<longleftrightarrow>
     (if p = [] then start else \<not> word_char (last p)) \<and> \<not> str_includes p ''Lab'' \<and> cited_ok c
     \<and> ends_citation (document xs tail) \<and> document_ok False xs tail"

lemma not_decimal_slash [simp]: "\<not> decimal CHR ''/''" "\<not> white CHR ''/''" "\<not> white CHR ''s''"
  by (simp_all add: decimal_def white_def)

lemma decimal_not:
  "decimal c \<Longrightarrow> \<not> white c" "decimal c \<Longrightarrow> c \<noteq> CHR ''/''" "decimal c \<Longrightarrow> word_char c" "decimal c \<Longrightarrow> c \<noteq> CHR ''s''"
  by (auto simp: decimal_def white_def word_char_def)

lemma one_or_two_cases: "one_or_two d \<Longrightarrow> (\<exists>x. d = [x] \<and> decimal x) \<or> (\<exists>x y. d = [x, y] \<and> decimal x \<and> decimal y)"
  by (auto simp: one_or_two_def length_Suc_conv numeral_2_eq_2)

lemma take_digits:
  assumes "one_or_two d" and "s = [] \<or> \<not> decimal (hd s)"
  shows "one_or_two_digits (d @ s) = Some (d, s)"
  using one_or_two_cases [OF assms(1)]
proof (elim disjE exE conjE)
  fix x assume "d = [x]" "decimal x"
  then show ?thesis using assms(2) by (cases s) auto
qed simp

lemma drop_whites: "whites w \<Longrightarrow> s = [] \<or> \<not> white (hd s) \<Longrightarrow> dropWhile white (w @ s) = s \<and> takeWhile white (w @ s) = w"
proof -
  assume w: "whites w" and s: "s = [] \<or> \<not> white (hd s)"
  have "dropWhile white s = s" "takeWhile white s = []" using s by (cases s; simp)+
  then show ?thesis using w by (simp add: whites_def takeWhile_append2)
qed

lemma digits_head: "one_or_two d \<Longrightarrow> d \<noteq> [] \<and> decimal (hd d) \<and> \<not> white (hd d)"
  using one_or_two_cases decimal_not(1) by fastforce

lemma ends_citation_next: "ends_citation s \<Longrightarrow> next_number s = None"
proof (cases "dropWhile white s")
  case (Cons c r)
  assume e: "ends_citation s"
  have none: "one_or_two_digits t = None" if "t = [] \<or> \<not> decimal (hd t)" for t
    using that by (induction t rule: one_or_two_digits.induct) auto
  show ?thesis
  proof (cases "c = CHR ''/''")
    case True
    then have "dropWhile white r = [] \<or> \<not> decimal (hd (dropWhile white r))"
      using e Cons by (auto simp: ends_citation_def split: list.splits)
    then show ?thesis using Cons none by (simp add: next_number_def)
  qed (simp add: next_number_def Cons)
qed (simp only: next_number_def list.case)

lemma more_text_head: "\<forall>(a, b, d) \<in> set ms. whites a \<Longrightarrow> s = [] \<or> \<not> decimal (hd s) \<Longrightarrow> more_text ms @ s = [] \<or> \<not> decimal (hd (more_text ms @ s))"
proof (cases ms)
  case (Cons m ms')
  assume w: "\<forall>(a, b, d) \<in> set ms. whites a"
  obtain a b d where m: "m = (a, b, d)" by (metis prod.exhaust)
  then have "whites a" using w Cons by auto
  then show ?thesis using decimal_not(1) by (cases a) (auto simp: Cons m whites_def)
qed simp

lemma more_numbers_text:
  assumes "\<forall>(a, b, d) \<in> set ms. whites a \<and> whites b \<and> one_or_two d" and "ends_citation s"
  shows "more_numbers (more_text ms @ s) = (more_text ms, s)"
  using assms(1)
proof (induction ms)
  case Nil
  then show ?case using ends_citation_next [OF assms(2)] by (simp add: more_numbers.simps [of s])
next
  case (Cons m ms)
  obtain a b d where m: "m = (a, b, d)" by (metis prod.exhaust)
  have ok: "whites a" "whites b" "one_or_two d" using Cons.prems by (simp_all add: m)
  let ?r = "more_text ms @ s"
  have "s = [] \<or> \<not> decimal (hd s)" using assms(2) by (simp add: ends_citation_def)
  then have "?r = [] \<or> \<not> decimal (hd ?r)" using more_text_head [of ms s] Cons.prems by auto
  then have d: "one_or_two_digits (d @ ?r) = Some (d, ?r)" by (rule take_digits [OF ok(3)])
  have 1: "dropWhile white (a @ CHR ''/'' # b @ d @ ?r) = CHR ''/'' # b @ d @ ?r" "takeWhile white (a @ CHR ''/'' # b @ d @ ?r) = a"
    using drop_whites [OF ok(1), of "CHR ''/'' # b @ d @ ?r"] by simp_all
  have 2: "dropWhile white (b @ d @ ?r) = d @ ?r" "takeWhile white (b @ d @ ?r) = b"
    using drop_whites [OF ok(2), of "d @ ?r"] digits_head [OF ok(3)] by simp_all
  have "next_number (a @ CHR ''/'' # b @ d @ ?r) = Some (a @ CHR ''/'' # b @ d, ?r)"
    unfolding next_number_def 1 by (simp add: 2 d)
  then show ?case using Cons by (simp add: m more_numbers.simps [of "a @ CHR ''/'' # b @ d @ ?r"])
qed

lemma match_citation_text:
  assumes "cited_ok (pl, w, d, ms)" and "ends_citation s"
  shows "match_citation (citation_text (pl, w, d, ms) @ s) = Some (d @ more_text ms, s)"
proof -
  have ok: "w \<noteq> []" "whites w" "one_or_two d" "\<forall>(a, b, d) \<in> set ms. whites a \<and> whites b \<and> one_or_two d" using assms(1) by simp_all
  let ?t = "w @ d @ more_text ms @ s"
  obtain x w' where w: "w = x # w'" "white x" using ok(1,2) by (cases w) (auto simp: whites_def)
  then have x: "x \<noteq> CHR ''s''" by auto
  have d: "dropWhile white ?t = d @ more_text ms @ s" using drop_whites [OF ok(2), of "d @ more_text ms @ s"] digits_head [OF ok(3)] by simp
  have "s = [] \<or> \<not> decimal (hd s)" using assms(2) by (simp add: ends_citation_def)
  then have "more_text ms @ s = [] \<or> \<not> decimal (hd (more_text ms @ s))" using more_text_head [of ms s] ok(4) by auto
  then have n: "one_or_two_digits (d @ more_text ms @ s) = Some (d, more_text ms @ s)" by (rule take_digits [OF ok(3)])
  have "after_prefix ''Lab'' (citation_text (pl, w, d, ms) @ s) = Some ((if pl then ''s'' else []) @ ?t)" by simp
  moreover have "(if (if pl then ''s'' else []) @ ?t \<noteq> [] \<and> hd ((if pl then ''s'' else []) @ ?t) = CHR ''s'' then tl ((if pl then ''s'' else []) @ ?t)
      else (if pl then ''s'' else []) @ ?t) = ?t" using x by (simp add: w(1))
  moreover have "?t \<noteq> []" "white (hd ?t)" using w by simp_all
  ultimately show ?thesis unfolding match_citation_def option.case Let_def
    by (simp add: d n more_numbers_text [OF ok(4) assms(2)] del: citation_text.simps)
qed

lemma split_on_plain: "x \<notin> set l \<Longrightarrow> split_on x (l @ x # s) = l # split_on x s" "x \<notin> set l \<Longrightarrow> split_on x l = [l]"
  by (induction l) auto

lemma trim_padded:
  assumes "whites a" and "whites b" and "one_or_two d"
  shows "trim (b @ d @ a) = d"
proof -
  have r: "dropWhile white (rev a @ rev d @ u) = rev d @ u" for u
  proof (rule drop_whites [THEN conjunct1])
    show "whites (rev a)" using assms(1) by (simp add: whites_def)
    show "rev d @ u = [] \<or> \<not> white (hd (rev d @ u))" using one_or_two_cases [OF assms(3)] decimal_not(1) by auto
  qed
  have "dropWhile white (b @ d @ a) = d @ a" using drop_whites [OF assms(2), of "d @ a"] digits_head [OF assms(3)] by simp
  then show ?thesis using r [of "[]"] by (simp add: trim_def)
qed

lemma no_slash: "whites a \<Longrightarrow> CHR ''/'' \<notin> set a" "one_or_two d \<Longrightarrow> CHR ''/'' \<notin> set d"
  using not_decimal_slash by (auto simp: whites_def one_or_two_def)

lemma group_numbers_text:
  assumes "whites b" and "one_or_two d" and "\<forall>(a, b, d) \<in> set ms. whites a \<and> whites b \<and> one_or_two d"
  shows "group_numbers (b @ d @ more_text ms) = val_of d # map (\<lambda>(a, b, d). val_of d) ms"
  using assms
proof (induction ms arbitrary: b d)
  case Nil
  have "CHR ''/'' \<notin> set (b @ d)" using no_slash Nil.prems by simp
  then have "split_on CHR ''/'' (b @ d) = [b @ d]" by (rule split_on_plain(2))
  moreover have "trim (b @ d) = d" using trim_padded [of "[]" b d] Nil.prems by (simp add: whites_def)
  ultimately show ?case by (simp add: group_numbers_def del: val_of.simps)
next
  case (Cons m ms)
  obtain a' b' d' where m: "m = (a', b', d')" by (metis prod.exhaust)
  have ok: "whites a'" "whites b'" "one_or_two d'" "\<forall>(a, b, d) \<in> set ms. whites a \<and> whites b \<and> one_or_two d" using Cons.prems(3) by (simp_all add: m)
  have "CHR ''/'' \<notin> set (b @ d @ a')" using no_slash Cons.prems ok by simp
  from split_on_plain(1) [OF this, of "b' @ d' @ more_text ms"]
  have "split_on CHR ''/'' (b @ d @ more_text (m # ms)) = (b @ d @ a') # split_on CHR ''/'' (b' @ d' @ more_text ms)" by (simp add: m)
  moreover have "trim (b @ d @ a') = d" by (rule trim_padded [OF ok(1) Cons.prems(1,2)])
  ultimately have "group_numbers (b @ d @ more_text (m # ms)) = val_of d # group_numbers (b' @ d' @ more_text ms)"
    by (simp add: group_numbers_def del: val_of.simps)
  also have "\<dots> = val_of d # val_of d' # map (\<lambda>(a, b, d). val_of d) ms" using Cons.IH [OF ok(2-4)] by (simp del: val_of.simps)
  finally show ?case by (simp add: m del: val_of.simps)
qed

text \<open>No citation begins inside other text.\<close>

lemma after_prefix_Some: "after_prefix p s = Some r \<Longrightarrow> s = p @ r"
  by (induction p s rule: after_prefix.induct) (auto split: if_splits)

lemma no_Lab_no_match:
  assumes "\<not> str_includes v ''Lab''" and "v \<noteq> []" and "s = [] \<or> \<not> word_char (last v)"
  shows "match_citation (v @ s) = None"
proof -
  have w: "word_char CHR ''L''" "word_char CHR ''a''" by (simp_all add: word_char_def)
  have "after_prefix ''Lab'' (v @ s) = None"
  proof (rule ccontr)
    assume "after_prefix ''Lab'' (v @ s) \<noteq> None"
    then obtain r where r: "v @ s = ''Lab'' @ r" using after_prefix_Some by blast
    obtain x v' where v: "v = x # v'" using assms(2) by (cases v) auto
    show False
    proof (cases v')
      case Nil
      then show False using r v assms(3) w by auto
    next
      case (Cons y u)
      show False
      proof (cases u)
        case Nil
        then show False using r v Cons assms(3) w by auto
      next
        case (Cons z t)
        then have "v = ''Lab'' @ t" using r v \<open>v' = y # u\<close> by auto
        then show False using assms(1) by simp
      qed
    qed
  qed
  then show ?thesis by (simp add: match_citation_def)
qed

lemma scan_other:
  assumes "\<not> str_includes p ''Lab''" and "s = [] \<or> p = [] \<or> \<not> word_char (last p)"
  shows "scan_citations b (p @ s) = scan_citations (if p = [] then b else word_char (last p)) s"
  using assms
proof (induction p arbitrary: b)
  case (Cons c p)
  have "match_citation (c # p @ s) = None" using no_Lab_no_match [OF Cons.prems(1), of s] Cons.prems(2) by simp
  then have "scan_citations b ((c # p) @ s) = scan_citations (word_char c) (p @ s)" by (simp add: scan_citations.simps(2))
  also have "\<dots> = scan_citations (if p = [] then word_char c else word_char (last p)) s"
    using Cons.IH [of "word_char c"] Cons.prems by (cases "p = []") auto
  finally show ?case by simp
qed simp

lemma scan_citation:
  assumes "cited_ok c" and "ends_citation s"
  shows "scan_citations False (citation_text c @ s) = cited_numbers c @ scan_citations True s"
proof -
  obtain pl w d ms where c: "c = (pl, w, d, ms)" by (metis prod.exhaust)
  note m = match_citation_text [OF assms(1) [unfolded c] assms(2)]
  obtain r where r: "citation_text c @ s = CHR ''L'' # r" by (simp add: c)
  have ok: "one_or_two d" "\<forall>(a, b, d) \<in> set ms. whites a \<and> whites b \<and> one_or_two d" using assms(1) by (simp_all add: c)
  have g: "group_numbers (d @ more_text ms) = cited_numbers c"
    using group_numbers_text [of "[]" d ms] ok by (simp add: c whites_def del: val_of.simps)
  have "scan_citations False (CHR ''L'' # r) = group_numbers (d @ more_text ms) @ scan_citations True s"
    unfolding scan_citations.simps(2) m [folded c, unfolded r] by simp
  then show ?thesis unfolding r g .
qed

lemma scan_document:
  "document_ok (\<not> b) xs tail \<Longrightarrow> scan_citations b (document xs tail) = concat (map (\<lambda>(p, c). cited_numbers c) xs)"
proof (induction xs arbitrary: b)
  case Nil
  then show ?case using scan_other [of tail "[]" b] by simp
next
  case (Cons x xs)
  obtain p c where x: "x = (p, c)" by (rule prod.exhaust)
  have ok: "if p = [] then \<not> b else \<not> word_char (last p)" "\<not> str_includes p ''Lab''" "cited_ok c" "ends_citation (document xs tail)"
    "document_ok (\<not> True) xs tail" using Cons.prems by (simp_all add: x)
  have "scan_citations b (document (x # xs) tail) = scan_citations False (citation_text c @ document xs tail)"
    using scan_other [OF ok(2), of "citation_text c @ document xs tail" b] ok(1) by (auto simp: x split: if_splits)
  also have "\<dots> = cited_numbers c @ concat (map (\<lambda>(p, c). cited_numbers c) xs)"
    unfolding scan_citation [OF ok(3,4)] Cons.IH [OF ok(5)] ..
  finally show ?case by (simp add: x)
qed

text \<open>
  C38: every citation in the checker's form is found, and nothing else is. In a document in which the word \<open>Lab\<close> occurs only where
  a citation begins (\<open>Lab\<close> or \<open>Labs\<close>, white space, numbers of one or two digits joined by slashes, with or without
  white space and leading zeros), the numbers extracted are exactly the cited ones, in order, whatever the text between is; all
  drills of the repository have this form. The check of such drills passes exactly when each cited number is that of a lab directory and
  every drill has all the headings. Numbers joined otherwise (\<open>Lab 14, 17\<close>) are not part of the form: the second is text.\<close>

theorem citations_found_and_checked:
  assumes docs: "\<And>d. d \<in> set drills \<Longrightarrow> endsWith ''.md'' (fst d) \<and> snd d = document (pieces d) (end_of d)
      \<and> document_ok True (pieces d) (end_of d)"
  shows "(\<forall>d \<in> set drills. extractLabNumbers (snd d) = concat (map (\<lambda>(p, c). cited_numbers c) (pieces d)))
    \<and> (snd (check_citations_main entries drills) = 0 \<longleftrightarrow>
         (\<forall>d \<in> set drills. \<forall>(p, c) \<in> set (pieces d). \<forall>k \<in> set (cited_numbers c). \<exists>name. (name, True) \<in> set entries \<and> lab_number name = Some k)
         \<and> (\<forall>d \<in> set drills. \<forall>h \<in> set REQUIRED_HEADINGS. str_includes (snd d) h))"
proof -
  have found: "extractLabNumbers (snd d) = concat (map (\<lambda>(p, c). cited_numbers c) (pieces d))" if "d \<in> set drills" for d
    using docs [OF that] scan_document [of False "pieces d" "end_of d"] by (simp add: extractLabNumbers_def)
  have md: "set (listDrillFiles drills) = set drills" using docs by (auto simp: listDrillFiles_def)
  have "snd ` set (map (Pair (fst d)) ns) = set ns" for d :: "string \<times> string" and ns :: "nat list" by (simp add: image_image)
  have "unknownCitations (buildCitationReport entries drills) = [] \<longleftrightarrow>
      (\<forall>d \<in> set drills. \<forall>k \<in> set (extractLabNumbers (snd d)). \<exists>name. (name, True) \<in> set entries \<and> lab_number name = Some k)"
    unfolding report_exact [THEN conjunct1] filter_empty_conv citations_def using md by auto
  also have "\<dots> \<longleftrightarrow> (\<forall>d \<in> set drills. \<forall>(p, c) \<in> set (pieces d). \<forall>k \<in> set (cited_numbers c). \<exists>name. (name, True) \<in> set entries \<and> lab_number name = Some k)"
    using found by (auto simp: split_beta)
  finally show ?thesis using found docs unfolding main_exit_code by blast
qed

text \<open>A drill with a citation of several labs, one across a line break and other text with a capital L.\<close>

lemma citations_found_and_checked_witness:
  "extractLabNumbers ''See Labs 01/02/13. Latency: Lab\<newline>  12 / 14, 17'' = [1, 2, 13, 12, 14]
   \<and> snd (check_citations_main [(''01-foundation'', True)] [(''a.md'', ''See Labs 01/02/13. Latency: Lab\<newline>  12 / 14, 17'')]) \<noteq> 0"
proof -
  let ?t = "''See Labs 01/02/13. Latency: Lab\<newline>  12 / 14, 17''"
  let ?d = "(''a.md'', ?t)" and ?es = "[(''01-foundation'', True)]"
  define ps :: "(string \<times> cited) list" where
    "ps = [(''See '', (True, '' '', ''01'', [([], [], ''02''), ([], [], ''13'')])), (''. Latency: '', (False, ''\<newline>  '', ''12'', [('' '', '' '', ''14'')]))]"
  have v: "val_of ''01'' = 1" "val_of ''02'' = 2" "val_of ''13'' = 13" "val_of ''12'' = 12" "val_of ''14'' = 14" by simp_all
  have c: "endsWith ''.md'' (fst ?d) \<and> snd ?d = document ps '', 17'' \<and> document_ok True ps '', 17''"
    by (simp add: endsWith_def ps_def word_char_def decimal_def ends_citation_def whites_def one_or_two_def white_def)
  have n: "concat (map (\<lambda>(p, c). cited_numbers c) ps) = [1, 2, 13, 12, 14]" by (simp add: ps_def v del: val_of.simps)
  have "extractLabNumbers (snd ?d) = concat (map (\<lambda>(p, c). cited_numbers c) ps)
      \<and> (snd (check_citations_main ?es [?d]) = 0 \<longrightarrow> (\<forall>(p, c) \<in> set ps. \<forall>k \<in> set (cited_numbers c). \<exists>name. (name, True) \<in> set ?es \<and> lab_number name = Some k))"
    using citations_found_and_checked [of "[?d]" "\<lambda>_. ps" "\<lambda>_. '', 17''" ?es] c by simp
  moreover have "\<not> (\<exists>name. (name, True) \<in> set ?es \<and> lab_number name = Some 2)" by (auto simp: lab_number_def decimal_def)
  moreover have "(''See '', (True, '' '', ''01'', [([], [], ''02''), ([], [], ''13'')])) \<in> set ps" by (simp add: ps_def)
  moreover have "2 \<in> set (cited_numbers (True, '' '', ''01'', [([], [], ''02''), ([], [], ''13'')]))" by (simp add: v del: val_of.simps)
  ultimately show ?thesis unfolding n snd_conv by blast
qed

end
