(* ===== verification/Spec2Isabelle.thy ===== *)
theory Spec2Isabelle
  imports Resilience Rate_Limit Bounded_Resource Bounded_Queue Unbounded_Queue Outbox_Workers
    Job_Workers Capstone_Workers Saga_Choreography Redis_Fencing Cache_Lease Cache_Swr Cache_Jitter
    Pagination_Scenarios Backfill Lock_Order_Scenarios Delivery Inbox
    Replication Payments Tickets Documents Dual_Write Transfers Commerce_Seeds Partition_Seed Observability On_Call Citations
begin

text \<open>
  \<^bold>\<open>What this library verifies.\<close> The repository is a course of 41 independent TypeScript labs about
  building reliable back ends on PostgreSQL and Redis. Most labs demonstrate the server; the ones with
  algorithms of their own are modelled here, in the order below. File names are relative to \<open>src/labs\<close>.

  \<^bold>\<open>Resilience (Lab 37).\<close> \<open>Async\<close> models promises as tasks over a world with a clock and pending timers,
  and \<open>sleep\<close> as the advance that fires them. \<open>Retry\<close> holds \<open>retryWithBackoff\<close>, \<open>withTimeout\<close> and the
  seeded generator at 32 bits, \<open>Circuit_Breaker\<close> the breaker (the two halves of \<open>execute\<close> around the
  awaited operation), \<open>Breaker_Concurrency\<close> any interleaving of concurrent calls, \<open>Downstream\<close> the
  simulated service, and \<open>Resilience\<close> the composition of the three and the double-charge scenarios.

  \<^bold>\<open>Admission control (Lab 36).\<close> \<open>Rate_Limit\<close> is the two Lua scripts over one key and their wrappers,
  \<open>Bounded_Resource\<close> the semaphore with a FIFO of waiting callers and their timers, \<open>Bounded_Queue\<close> the
  queue with a capacity in a database row, \<open>Unbounded_Queue\<close> the in-process queue it replaces.

  \<^bold>\<open>Queues over PostgreSQL (Labs 14 and 17).\<close> \<open>Sql_Table\<close> gives meaning to the SQL statements the code
  issues, \<open>Lease_Queue\<close> is the interface of a claim with a lease, \<open>Job_Queue\<close> and \<open>Outbox_Queue\<close> are
  the two implementations, \<open>Job_Workers\<close> and \<open>Outbox_Workers\<close> any number of interleaved workers.
  \<open>Idempotent_Receiver\<close> is the interface of a receiver that remembers keys; the simulated downstream,
  the idempotent consumer and the idempotent checkout are instances.

  \<^bold>\<open>The capstone (Lab 40).\<close> \<open>Metrics\<close>, \<open>Capstone_Shop\<close> (seats and the two checkouts), \<open>Capstone_Notify\<close>
  (the provider) and \<open>Capstone_Workers\<close> (the naive and the protected outbox worker, with the breaker,
  the retry and the timeout of Lab 37, whose code the capstone repeats, and the claim of Lab 17).

  \<^bold>\<open>Sagas (Lab 20).\<close> \<open>Saga_Steps\<close> holds the six steps over the four tables, \<open>Saga\<close> the orchestrator with its
  log of completed steps and compensations and the event log, \<open>Saga_Correct\<close> what every run ends in, and
  \<open>Saga_Choreography\<close> the handlers that react to events, with the proof that both reach the same tables.

  \<^bold>\<open>Redis locks and caches (Labs 22 and 21).\<close> \<open>Redis_Keys\<close> is a key with an expiry. \<open>Redis_Lock\<close> holds the lock
  with its owner token, \<open>Redis_Fencing\<close> the fencing token and the row it protects. \<open>Json\<close> is the text the caches
  store, \<open>Cache_Aside\<close> the plain cache and the coalescing one under interleaved calls, \<open>Cache_Lease\<close> the refill
  under a lease, \<open>Cache_Swr\<close> stale-while-revalidate, \<open>Cache_Jitter\<close> the jittered expiry.

  \<^bold>\<open>Large tables and row locks (Labs 34, 30 and 32).\<close> \<open>Pagination\<close> is the offset and the keyset page over a
  changing table, \<open>Pagination_Scenarios\<close> the two correctness scenarios. \<open>Backfill\<close> is the giant update and the
  batched loop with its crashes. \<open>Lock_Order\<close> holds any number of transfer legs over row locks with a deadlock
  detector that may pick any leg of a cycle, \<open>Lock_Order_Scenarios\<close> what the two lock orders promise.

  \<^bold>\<open>Messages and payments (Labs 19, 18 and 15).\<close> \<open>Delivery\<close> is the scripted network with the sender that sends once, the
  sender that retries, and the naive and the idempotent receiver; \<open>Inbox\<close> the naive, the racy and the
  idempotent consumer of one message, the last of them another receiver that remembers keys; \<open>Payments\<close> the
  payment with an idempotency key, whose two statements interleave with those of other callers.

  \<^bold>\<open>Writes (Labs 16, 11 and 12).\<close> \<open>Dual_Write\<close> is the order and its event, written one after the other or in one
  transaction, and the drain of the outbox. \<open>Documents\<close> holds users who edit one document, naively, under the
  version they read, or under its row lock. \<open>Tickets\<close> is the table of seats with the naive, the conditional and the row-lock
  reservation, the payment and the expiration, any number of them interleaved; every seat follows the state
  machine of the schema.

  \<^bold>\<open>Ledger and test data (Lab 05, \<open>packages/data-generators\<close>).\<close> \<open>Transfers\<close> is the transfer that commits
  statement by statement and the one in a transaction, with the constraints of the two tables. \<open>Generators\<close> and
  \<open>Generated_Orders\<close> are the seeded generators over a record of functions that stands for the faker library;
  its documented bounds are the hypotheses \<open>faker_ok\<close> and \<open>past_ok\<close>. \<open>Commerce_Seeds\<close> are the seeds of Labs 03, 04 and 33:
  their arguments, the inserts in batches with the identities the tables return, and the tables they leave.

  \<^bold>\<open>Partitioning (Lab 35).\<close> \<open>Partitions\<close> is a table in partitions by range or by list with the statements issued on it, the flat
  table it stands for (\<open>mirrors\<close>) and the layout of twelve months that a reset restores. \<open>Partition_Seed\<close> is the generator, the seed of the two
  twin tables and the scripts that detach, drop and create partitions. The session's time zone is taken to be UTC.

  \<^bold>\<open>Isolation levels (Lab 09).\<close> \<open>On_Call\<close> holds staff who go off call if somebody else is on call: under SERIALIZABLE
  with the bounded retry loop, any number of callers interleaved and failures wherever the server reports them, and under
  REPEATABLE READ without one. That committed serializable transactions have a serial order is the hypothesis of its theorem.

  \<^bold>\<open>Observability (Lab 38).\<close> \<open>Log_Analysis\<close> is what is computed from the logs: percentiles, the aggregate by
  route and the regular expression over the free-text log. \<open>Observability\<close> is the instrumented service, any number of
  requests interleaved at their \<open>await\<close>s, with its log and counters, the generated traffic and the seed. A
  counter is the multiset of the labels it was incremented with.

  \<^bold>\<open>The check of the drills (Lab 41).\<close> \<open>Citations\<close> is the scan of the written drills for cited labs, with the
  backtracking-free reading of its regular expression, the report and the exit code.

  \<^bold>\<open>Replicas (Labs 25 and 26).\<close> \<open>Replication\<close> is a primary with its WAL and a hot standby that shows the
  prefix it has replayed; the router with its two tables, the reads that wait for a WAL position, the
  sticky window and the bounded staleness are functions on the two.

  \<^bold>\<open>Correspondence.\<close> Definitions carry the names of the source. A class or a table row is a record, a
  union of string literals a datatype, a thrown error the left of a sum, a SQL transaction a function on
  the tables (a rolled back transaction returns them unchanged). Times are rational numbers of
  milliseconds; JavaScript numbers are rationals or integers, except in the random generator, where
  they are 32-bit words. Identities the server generates (uuids, serial numbers, the current time of a
  transaction) are arguments, and so are the random numbers of the back-off. Logging is left out;
  callbacks that only observe (\<open>onRetry\<close>, \<open>onStateChange\<close>) are lists of what they saw.

  \<^bold>\<open>Loops.\<close> Loops over a list or a counter are recursive functions with a termination proof. The polling
  loops, which may run for ever, are \<open>partial_function (option)\<close> and return \<open>None\<close> when they do; the
  theorems about them state that they return. The worker loops that need a stop signal take it as a
  predicate on the number of turns; no fuel is used.

  \<^bold>\<open>What the theorems show.\<close> Safety of every interleaving is stated over inductive step relations (breaker,
  resource pool, bounded queue, job workers, outbox workers, shop) or over all lists of events (fencing,
  caches, transfer legs); functional contracts and bounds over
  the operations themselves; the scenarios that the labs narrate (double charge, crashed publisher,
  retry storm) are definitions with theorems for all seeds or all schedules; the
  choreographed saga refines the orchestrated one, and the resumed backfill equals the giant update. Some
  theorems show defects: concurrent callers of the breaker that skip the cooldown, a token bucket that two
  skewed clocks defeat, a stale worker that undoes a completed job, a fencing token that is not ordered
  like the acquisitions when a worker pauses between its two commands, a lease that is granted again
  to callers that missed before the first refill, and (by design of the lab) a consumer that checks for a
  duplicate outside the transaction of its insert; a replica that is cut off is reported as having no lag; a
  purge that dies half-way and keeps the reset from restoring its month.

  \<^bold>\<open>What is not modelled.\<close> The database server, Redis, Docker, HTTP and the logger; labs that only
  demonstrate them; connection pools and their exhaustion; most seed scripts, but for the generators they draw on; execution plans, buffers and
  latencies. Of PostgreSQL the models use what it documents: a statement or a transaction takes effect at
  once, a row lock excludes, a waiting transaction in a cycle may be aborted; of Redis, that a command or
  a script is atomic and a key with an expiry is gone after it.
\<close>

end
